(* ===== verification/Prelude.thy ===== *)
theory Prelude
  imports Main "HOL-Library.Word" "HOL-Library.Monad_Syntax" "HOL-Library.Multiset"
begin

text \<open>
  Shared vocabulary of the development: addresses, machine integers, the option monad in
  which \<open>None\<close> stands for a kernel panic (a failed \<open>ASSERT\<close>, \<open>PANIC\<close>, \<open>NOT_REACHED\<close>) or
  for a call that does not return, C division, and the generic lemmas on lists that several
  components use.
\<close>

unbundle bit_operations_syntax

section \<open>Types\<close>

text \<open>Addresses are natural numbers; 0 is the null pointer.\<close>

type_synonym addr = nat

type_synonym u8 = "8 word"
type_synonym u16 = "16 word"
type_synonym u32 = "32 word"
type_synonym u64 = "64 word"

abbreviation (input) NULL :: addr where "NULL \<equiv> 0"

section \<open>Panics\<close>

text \<open>\<open>ASSERT (c)\<close> of include/lib/debug.h: the kernel panics when the condition is false.\<close>

definition ASSERT :: "bool \<Rightarrow> unit option" where
  "ASSERT b = (if b then Some () else None)"

lemma ASSERT_simps [simp]: "ASSERT True = Some ()" "ASSERT False = None"
  by (simp_all add: ASSERT_def)

lemma ASSERT_Some_iff [simp]: "ASSERT b = Some u \<longleftrightarrow> b"
  by (simp add: ASSERT_def)

lemma ASSERT_bind [simp]: "Option.bind (ASSERT b) f = (if b then f () else None)"
  by (simp add: ASSERT_def)

section \<open>C integer arithmetic\<close>

text \<open>C division and remainder truncate towards zero.\<close>

definition cdiv :: "int \<Rightarrow> int \<Rightarrow> int" where
  "cdiv a b = (if (a < 0) = (b < 0) then \<bar>a\<bar> div \<bar>b\<bar> else - (\<bar>a\<bar> div \<bar>b\<bar>))"

definition cmod :: "int \<Rightarrow> int \<Rightarrow> int" where
  "cmod a b = a - b * cdiv a b"

text \<open>The value of an int expression reduced to 32 bits, two's complement.\<close>

definition int32 :: "int \<Rightarrow> int" where
  "int32 x = (x + 2 ^ 31) mod 2 ^ 32 - 2 ^ 31"

lemma int32_id: "- (2 ^ 31) \<le> x \<Longrightarrow> x < 2 ^ 31 \<Longrightarrow> int32 x = x"
  by (simp add: int32_def)

lemma int32_bounds: "- (2 ^ 31) \<le> int32 x" "int32 x < 2 ^ 31"
  by (simp_all add: int32_def)

lemma cdiv_nonneg: "0 \<le> a \<Longrightarrow> 0 < b \<Longrightarrow> cdiv a b = a div b"
  by (simp add: cdiv_def)

lemma cdiv_neg: "a < 0 \<Longrightarrow> 0 < b \<Longrightarrow> cdiv a b = - ((- a) div b)"
  by (simp add: cdiv_def)

lemma cmod_nonneg: "0 \<le> a \<Longrightarrow> 0 < b \<Longrightarrow> cmod a b = a mod b"
  by (simp add: cmod_def cdiv_nonneg minus_mult_div_eq_mod)

text \<open>The macros of include/lib/round.h, on values where no intermediate sum overflows.\<close>

definition DIV_ROUND_UP :: "nat \<Rightarrow> nat \<Rightarrow> nat" where
  "DIV_ROUND_UP x step = (x + step - 1) div step"

definition ROUND_UP :: "nat \<Rightarrow> nat \<Rightarrow> nat" where
  "ROUND_UP x step = (x + step - 1) div step * step"

definition ROUND_DOWN :: "nat \<Rightarrow> nat \<Rightarrow> nat" where
  "ROUND_DOWN x step = x div step * step"

lemma DIV_ROUND_UP_le: "0 < s \<Longrightarrow> x \<le> DIV_ROUND_UP x s * s"
proof -
  assume s: "0 < s"
  have "(x + s - 1) mod s < s" using s by simp
  moreover have "x + s - 1 = (x + s - 1) div s * s + (x + s - 1) mod s" by simp
  ultimately show ?thesis using s unfolding DIV_ROUND_UP_def by linarith
qed

lemma DIV_ROUND_UP_less: "0 < s \<Longrightarrow> DIV_ROUND_UP x s * s < x + s"
proof -
  assume s: "0 < s"
  have "(x + s - 1) div s * s \<le> x + s - 1" by (rule div_times_less_eq_dividend)
  then show ?thesis using s unfolding DIV_ROUND_UP_def by linarith
qed

section \<open>Lists\<close>

lemma in_set_tl: "x \<in> set (tl xs) \<Longrightarrow> x \<in> set xs"
  by (cases xs) auto

lemma distinct_split_mid:
  "distinct (xs @ x # ys) \<longleftrightarrow> distinct (xs @ ys) \<and> x \<notin> set xs \<and> x \<notin> set ys"
  by auto

lemma list_all_update: "list_all P xs \<Longrightarrow> P x \<Longrightarrow> list_all P (xs[i := x])"
  by (auto simp: list_all_iff dest!: set_update_subset_insert [THEN subsetD])

lemma set_update_all: "\<forall>y\<in>set xs. P y \<Longrightarrow> P x \<Longrightarrow> \<forall>y\<in>set (xs[i := x]). P y"
  by (auto dest!: set_update_subset_insert [THEN subsetD])

lemma mset_update_nth: "i < length xs \<Longrightarrow> mset (xs[i := x]) = add_mset x (mset xs - {#xs ! i#})"
  by (simp add: mset_update)

end
