(* ===== verification/Runs.thy ===== *)
theory Runs
  imports Prelude
begin

text \<open>
  What the ordered operations of lib/kernel/list.c do to the sequence of elements: the
  specification that the pointer operations of KListSort implement. The interface
  \<open>weak_less\<close> is the contract of a \<open>list_less_func\<close>; its facts are proved once for every
  comparison function that meets it.
\<close>

section \<open>Specification functions\<close>

text \<open>The first run of \<open>a # bs\<close> and what follows it.\<close>

fun take_run :: "('a \<Rightarrow> 'a \<Rightarrow> bool) \<Rightarrow> 'a \<Rightarrow> 'a list \<Rightarrow> 'a list \<times> 'a list" where
  "take_run lt a [] = ([a], [])"
| "take_run lt a (b # bs) =
     (if lt b a then ([a], b # bs) else let (r, rest) = take_run lt b bs in (a # r, rest))"

fun merge_runs :: "('a \<Rightarrow> 'a \<Rightarrow> bool) \<Rightarrow> 'a list \<Rightarrow> 'a list \<Rightarrow> 'a list" where
  "merge_runs lt [] ys = ys"
| "merge_runs lt xs [] = xs"
| "merge_runs lt (x # xs) (y # ys) =
     (if lt y x then y # merge_runs lt (x # xs) ys else x # merge_runs lt xs (y # ys))"

fun in_order :: "('a \<Rightarrow> 'a \<Rightarrow> bool) \<Rightarrow> 'a list \<Rightarrow> bool" where
  "in_order lt (x # y # zs) \<longleftrightarrow> \<not> lt y x \<and> in_order lt (y # zs)"
| "in_order lt _ \<longleftrightarrow> True"

lemma take_run_append: "take_run lt a bs = (r, rest) \<Longrightarrow> a # bs = r @ rest"
  by (induction lt a bs arbitrary: r rule: take_run.induct) (auto split: if_splits prod.splits)

lemma take_run_mset: "take_run lt a bs = (r, rest) \<Longrightarrow> add_mset a (mset bs) = mset r + mset rest"
  by (metis take_run_append mset.simps(2) mset_append)

lemma take_run_nonempty: "take_run lt a bs = (r, rest) \<Longrightarrow> \<exists>r'. r = a # r'"
  by (cases bs) (auto split: if_splits prod.splits)

lemma take_run_in_order: "take_run lt a bs = (r, rest) \<Longrightarrow> in_order lt r"
proof (induction lt a bs arbitrary: r rule: take_run.induct)
  case (2 lt a b bs)
  then show ?case
    by (auto split: if_splits prod.splits dest!: take_run_nonempty)
qed auto

lemma take_run_break:
  "take_run lt a bs = (r, y # rest) \<Longrightarrow> lt y (last r)"
  by (induction lt a bs arbitrary: r rule: take_run.induct)
    (auto split: if_splits prod.splits dest!: take_run_nonempty)

lemma take_run_length: "take_run lt a bs = (r, rest) \<Longrightarrow> length rest \<le> length bs"
  by (induction lt a bs arbitrary: r rule: take_run.induct) (fastforce split: if_splits prod.splits)+

text \<open>One pass over the list: the runs are merged two by two; the first result counts the output runs.\<close>

function merge_pass :: "('a \<Rightarrow> 'a \<Rightarrow> bool) \<Rightarrow> 'a list \<Rightarrow> nat \<times> 'a list" where
  "merge_pass lt [] = (0, [])"
| "merge_pass lt (x # xs) =
     (case take_run lt x xs of
        (r1, []) \<Rightarrow> (1, r1)
      | (r1, y # ys) \<Rightarrow>
          (case take_run lt y ys of
             (r2, rest) \<Rightarrow> (case merge_pass lt rest of (n, zs) \<Rightarrow> (Suc n, merge_runs lt r1 r2 @ zs))))"
  by pat_completeness auto
termination
  by (relation "measure (length \<circ> snd)") (auto dest!: take_run_length [OF sym])

definition insert_ordered :: "('a \<Rightarrow> 'a \<Rightarrow> bool) \<Rightarrow> 'a \<Rightarrow> 'a list \<Rightarrow> 'a list" where
  "insert_ordered lt e xs = takeWhile (\<lambda>x. \<not> lt e x) xs @ e # dropWhile (\<lambda>x. \<not> lt e x) xs"

definition equiv_by :: "('a \<Rightarrow> 'a \<Rightarrow> bool) \<Rightarrow> 'a \<Rightarrow> 'a \<Rightarrow> bool" where
  "equiv_by lt x y \<longleftrightarrow> \<not> lt x y \<and> \<not> lt y x"

text \<open>The elements kept by \<open>list_unique\<close> and those removed, in their order.\<close>

fun split_unique :: "('a \<Rightarrow> 'a \<Rightarrow> bool) \<Rightarrow> 'a list \<Rightarrow> 'a list \<times> 'a list" where
  "split_unique lt (x # y # zs) =
     (if equiv_by lt x y
      then let (u, d) = split_unique lt (x # zs) in (u, y # d)
      else let (u, d) = split_unique lt (y # zs) in (x # u, d))"
| "split_unique lt xs = (xs, [])"

fun first_max :: "('a \<Rightarrow> 'a \<Rightarrow> bool) \<Rightarrow> 'a \<Rightarrow> 'a list \<Rightarrow> 'a" where
  "first_max lt m [] = m"
| "first_max lt m (e # es) = first_max lt (if lt m e then e else m) es"

definition first_min :: "('a \<Rightarrow> 'a \<Rightarrow> bool) \<Rightarrow> 'a \<Rightarrow> 'a list \<Rightarrow> 'a" where
  "first_min lt = first_max (\<lambda>x y. lt y x)"

section \<open>Facts that hold for any comparison\<close>

lemma mset_merge_runs [simp]: "mset (merge_runs lt xs ys) = mset xs + mset ys"
  by (induction lt xs ys rule: merge_runs.induct) auto

lemma set_merge_runs [simp]: "set (merge_runs lt xs ys) = set xs \<union> set ys"
  by (metis mset_merge_runs set_mset_mset set_mset_union)

lemma merge_pass_mset: "merge_pass lt xs = (n, ys) \<Longrightarrow> mset ys = mset xs"
proof (induction lt xs arbitrary: n ys rule: merge_pass.induct)
  case (2 lt x xs)
  then show ?case
    by (auto split: prod.splits list.splits dest!: take_run_mset simp: union_assoc)
qed simp

lemma mset_insert_ordered [simp]: "mset (insert_ordered lt e xs) = add_mset e (mset xs)"
proof -
  have "mset xs = mset (takeWhile (\<lambda>x. \<not> lt e x) xs) + mset (dropWhile (\<lambda>x. \<not> lt e x) xs)"
    by (metis mset_append takeWhile_dropWhile_id)
  then show ?thesis by (simp add: insert_ordered_def)
qed

lemma set_insert_ordered [simp]: "set (insert_ordered lt e xs) = insert e (set xs)"
  by (metis mset_insert_ordered set_mset_add_mset_insert set_mset_mset)

lemma length_insert_ordered [simp]: "length (insert_ordered lt e xs) = Suc (length xs)"
  by (metis mset_insert_ordered size_add_mset size_mset)

lemma distinct_insert_ordered [simp]:
  "distinct (insert_ordered lt e xs) \<longleftrightarrow> distinct xs \<and> e \<notin> set xs"
  by (metis distinct.simps(2) mset.simps(2) mset_eq_imp_distinct_iff mset_insert_ordered)

lemma insert_ordered_nonempty [simp]: "insert_ordered lt e xs \<noteq> []"
  by (simp add: insert_ordered_def)

lemma split_unique_mset:
  "split_unique lt xs = (u, d) \<Longrightarrow> mset u + mset d = mset xs"
  by (induction lt xs arbitrary: u d rule: split_unique.induct) (auto split: if_splits prod.splits)

text \<open>The number of maximal runs, the measure of the outer loop of \<open>list_sort\<close>.\<close>

fun runs_count :: "('a \<Rightarrow> 'a \<Rightarrow> bool) \<Rightarrow> 'a list \<Rightarrow> nat" where
  "runs_count lt [] = 0"
| "runs_count lt [x] = 1"
| "runs_count lt (x # y # zs) = (if lt y x then 1 else 0) + runs_count lt (y # zs)"

lemma runs_count_pos: "xs \<noteq> [] \<Longrightarrow> 1 \<le> runs_count lt xs"
  by (induction lt xs rule: runs_count.induct) auto

lemma runs_count_eq_0_iff [simp]: "runs_count lt xs = 0 \<longleftrightarrow> xs = []"
  using runs_count_pos [of xs lt] by (cases xs) auto

lemma runs_count_one_iff: "runs_count lt xs \<le> 1 \<longleftrightarrow> in_order lt xs"
  by (induction lt xs rule: runs_count.induct) (auto simp: le_Suc_eq)

lemma runs_count_append: "runs_count lt (xs @ ys) \<le> runs_count lt xs + runs_count lt ys"
proof (induction lt xs rule: runs_count.induct)
  case (2 lt x)
  then show ?case by (cases ys) auto
qed auto

lemma runs_count_take_run:
  "take_run lt a bs = (r, rest) \<Longrightarrow> runs_count lt (a # bs) = Suc (runs_count lt rest)"
  by (induction lt a bs arbitrary: r rule: take_run.induct) (auto split: if_splits prod.splits)

lemma merge_pass_count:
  "merge_pass lt xs = (n, ys) \<Longrightarrow> n = (runs_count lt xs + 1) div 2"
proof (induction lt xs arbitrary: n ys rule: merge_pass.induct)
  case (2 lt x xs)
  then show ?case
    by (auto split: prod.splits list.splits dest!: runs_count_take_run)
qed simp

section \<open>The contract of a comparison function\<close>

locale weak_less =
  fixes lt :: "'a \<Rightarrow> 'a \<Rightarrow> bool"
  assumes asym: "lt x y \<Longrightarrow> \<not> lt y x"
    and neg_trans: "\<not> lt x y \<Longrightarrow> \<not> lt y z \<Longrightarrow> \<not> lt x z"
begin

lemma irrefl: "\<not> lt x x"
  using asym by blast

lemma in_order_sorted_wrt: "in_order lt xs \<longleftrightarrow> sorted_wrt (\<lambda>x y. \<not> lt y x) xs"
proof -
  have tr: "transp (\<lambda>x y. \<not> lt y x)"
    using neg_trans by (auto intro: transpI)
  have "l = lt \<Longrightarrow> in_order l xs \<longleftrightarrow> sorted_wrt (\<lambda>x y. \<not> l y x) xs" for l
    using tr by (induction l xs rule: in_order.induct) (auto simp: sorted_wrt2 sorted_wrt1 simp del: sorted_wrt.simps(2))
  then show ?thesis by simp
qed

lemma in_order_Cons: "in_order lt (x # xs) \<longleftrightarrow> (\<forall>y\<in>set xs. \<not> lt y x) \<and> in_order lt xs"
  by (simp add: in_order_sorted_wrt)

lemma in_order_append:
  "in_order lt (xs @ ys) \<longleftrightarrow> in_order lt xs \<and> in_order lt ys \<and> (\<forall>x\<in>set xs. \<forall>y\<in>set ys. \<not> lt y x)"
  by (auto simp: in_order_sorted_wrt sorted_wrt_append)

lemma in_order_merge_runs:
  "in_order lt xs \<Longrightarrow> in_order lt ys \<Longrightarrow> in_order lt (merge_runs lt xs ys)"
proof (induction xs arbitrary: ys)
  case (Cons x xs)
  note outer = Cons
  from outer(3) show ?case
  proof (induction ys)
    case (Cons y ys)
    show ?case
    proof (cases "lt y x")
      case True
      have "\<not> lt z y" if "z \<in> set (x # xs)" for z
        using outer(2) that True asym [of y x] neg_trans [of z x y] by (auto simp: in_order_Cons)
      then show ?thesis using True Cons outer(2) by (auto simp: in_order_Cons)
    next
      case False
      have "\<not> lt z x" if "z \<in> set (y # ys)" for z
        using Cons.prems that False neg_trans [of z y x] by (auto simp: in_order_Cons)
      then show ?thesis using False outer Cons.prems by (auto simp: in_order_Cons)
    qed
  qed (use outer(2) in simp)
qed simp

text \<open>Elements that compare equal keep their order.\<close>

lemma filter_merge_runs:
  "in_order lt xs \<Longrightarrow> filter (equiv_by lt z) (merge_runs lt xs ys) =
     filter (equiv_by lt z) xs @ filter (equiv_by lt z) ys"
proof (induction xs arbitrary: ys)
  case (Cons x xs)
  note outer = Cons
  show ?case
  proof (induction ys)
    case (Cons y ys)
    show ?case
    proof (cases "lt y x")
      case True
      have "\<not> equiv_by lt z w" if "equiv_by lt z y" "w \<in> set (x # xs)" for w
      proof
        assume "equiv_by lt z w"
        then have "\<not> lt y w" using that(1) neg_trans [of y z w] by (simp add: equiv_by_def)
        moreover have "\<not> lt w x" using that(2) outer(2) irrefl by (auto simp: in_order_Cons)
        ultimately show False using True neg_trans by blast
      qed
      then have "equiv_by lt z y \<Longrightarrow> filter (equiv_by lt z) (x # xs) = []"
        by (auto simp: filter_empty_conv)
      then show ?thesis using True Cons by auto
    next
      case False
      then show ?thesis using outer by (auto simp: in_order_Cons)
    qed
  qed simp
qed simp

lemma merge_pass_filter:
  "merge_pass lt xs = (n, ys) \<Longrightarrow> filter (equiv_by lt z) ys = filter (equiv_by lt z) xs"
proof -
  have "l = lt \<Longrightarrow> merge_pass l xs = (n, ys) \<Longrightarrow>
      filter (equiv_by lt z) ys = filter (equiv_by lt z) xs" for l
  proof (induction l xs arbitrary: n ys rule: merge_pass.induct)
    case (2 l x xs)
    obtain r1 rest where r1: "take_run lt x xs = (r1, rest)" by fastforce
    show ?case
    proof (cases rest)
      case Nil
      then have "ys = r1" using "2.prems" r1 by simp
      then show ?thesis using Nil take_run_append [OF r1] by simp
    next
      case (Cons y ys')
      obtain r2 rest2 where r2: "take_run lt y ys' = (r2, rest2)" by fastforce
      obtain m zs where m: "merge_pass lt rest2 = (m, zs)" by fastforce
      have "x # xs = r1 @ r2 @ rest2"
        using take_run_append [OF r1] take_run_append [OF r2] Cons by simp
      moreover have "filter (equiv_by lt z) zs = filter (equiv_by lt z) rest2"
        using "2.IH" "2.prems"(1) r1 r2 m Cons by auto
      moreover have "ys = merge_runs lt r1 r2 @ zs" using "2.prems" r1 r2 m Cons by simp
      ultimately show ?thesis
        using filter_merge_runs [OF take_run_in_order [OF r1], of z r2] by simp
    qed
  qed simp
  then show "merge_pass lt xs = (n, ys) \<Longrightarrow> ?thesis" by blast
qed

text \<open>A pass leaves at most as many runs as it counted, so the number of runs at least halves.\<close>

lemma merge_pass_runs: "merge_pass lt xs = (n, ys) \<Longrightarrow> runs_count lt ys \<le> n"
proof -
  have "l = lt \<Longrightarrow> merge_pass l xs = (n, ys) \<Longrightarrow> runs_count lt ys \<le> n" for l
  proof (induction l xs arbitrary: n ys rule: merge_pass.induct)
    case (2 l x xs)
    obtain r1 rest where r1: "take_run lt x xs = (r1, rest)" by fastforce
    show ?case
    proof (cases rest)
      case Nil
      then show ?thesis using "2.prems" r1 take_run_in_order [OF r1] runs_count_one_iff [of lt r1] by simp
    next
      case (Cons y ys')
      obtain r2 rest2 where r2: "take_run lt y ys' = (r2, rest2)" by fastforce
      obtain m zs where m: "merge_pass lt rest2 = (m, zs)" by fastforce
      have "runs_count lt zs \<le> m"
        using "2.IH" "2.prems"(1) r1 r2 m Cons by auto
      moreover have "runs_count lt (merge_runs lt r1 r2) \<le> 1"
        using in_order_merge_runs [OF take_run_in_order [OF r1] take_run_in_order [OF r2]]
        by (simp only: runs_count_one_iff)
      ultimately show ?thesis
        using "2.prems" r1 r2 m Cons runs_count_append [of lt "merge_runs lt r1 r2" zs] by auto
    qed
  qed simp
  then show "merge_pass lt xs = (n, ys) \<Longrightarrow> ?thesis" by blast
qed

lemma merge_pass_measure:
  "merge_pass lt xs = (n, ys) \<Longrightarrow> 1 < n \<Longrightarrow> runs_count lt ys < runs_count lt xs"
  using merge_pass_runs [of xs n ys] merge_pass_count [of lt xs n ys] by auto

lemma merge_pass_done: "merge_pass lt xs = (n, ys) \<Longrightarrow> \<not> 1 < n \<Longrightarrow> in_order lt ys"
  using merge_pass_runs [of xs n ys] runs_count_one_iff [of lt ys] by auto

lemma in_order_insert_ordered: "in_order lt xs \<Longrightarrow> in_order lt (insert_ordered lt e xs)"
proof -
  assume o: "in_order lt xs"
  define T D where TD: "T = takeWhile (\<lambda>x. \<not> lt e x) xs" "D = dropWhile (\<lambda>x. \<not> lt e x) xs"
  have "in_order lt (T @ D)" using o by (simp add: TD)
  then have od: "in_order lt T" "in_order lt D" "\<And>x y. x \<in> set T \<Longrightarrow> y \<in> set D \<Longrightarrow> \<not> lt y x"
    by (auto simp: in_order_append)
  have d: "\<not> lt y e" if "y \<in> set D" for y
  proof -
    from that have ne: "D \<noteq> []" by auto
    then have "lt e (hd D)" using hd_dropWhile [of "\<lambda>x. \<not> lt e x" xs] unfolding TD by blast
    moreover have "\<not> lt y (hd D)"
      using od(2) that ne irrefl by (cases D) (auto simp: in_order_Cons)
    ultimately show ?thesis using asym neg_trans by blast
  qed
  have t: "\<not> lt e x" if "x \<in> set T" for x using that unfolding TD by (auto dest: set_takeWhileD)
  have "in_order lt (T @ e # D)"
    using od d t by (auto simp: in_order_append in_order_Cons)
  then show ?thesis unfolding insert_ordered_def TD .
qed

lemma first_max_in: "first_max lt m es \<in> set (m # es)"
proof (induction es arbitrary: m)
  case (Cons e es)
  then have "first_max lt (if lt m e then e else m) es \<in> set ((if lt m e then e else m) # es)" .
  then show ?case by (auto split: if_splits)
qed simp

lemma first_max_greatest: "e \<in> set (m # es) \<Longrightarrow> \<not> lt (first_max lt m es) e"
proof (induction es arbitrary: m e)
  case Nil
  then show ?case by (simp add: irrefl)
next
  case (Cons a es)
  let ?m = "if lt m a then a else m"
  have *: "\<not> lt (first_max lt ?m es) ?m" by (rule Cons.IH) simp
  have "\<not> lt ?m e" if "e \<in> {m, a}" using that asym [of m a] irrefl by auto
  then have "\<not> lt (first_max lt ?m es) e" if "e \<in> {m, a}"
    using that * neg_trans by blast
  then show ?case using Cons by auto
qed

end

end
