(* ===== verification/HashTable.thy ===== *)
theory HashTable
  imports Runs
begin

text \<open>
  The hash table of lib/kernel/hash.c: an array of chained buckets whose number is a power of
  two and follows the number of elements. Elements are of any type with a hash function \<open>hf\<close>
  and a comparison \<open>lt\<close>; a bucket is the sequence held by its \<open>struct list\<close>. The arguments
  \<open>mem_ok\<close> say whether the call to \<open>malloc\<close> of the operation returns memory.
\<close>

section \<open>State\<close>

record 'e htable =
  elem_cnt :: nat
  bucket_cnt :: nat
  buckets :: "'e list list"

section \<open>Bucket selection\<close>

definition find_bucket :: "('e \<Rightarrow> u64) \<Rightarrow> 'e htable \<Rightarrow> 'e \<Rightarrow> nat" where
  "find_bucket hf h e = unat (hf e AND of_nat (bucket_cnt h - 1))"

fun find_elem :: "('e \<Rightarrow> 'e \<Rightarrow> bool) \<Rightarrow> 'e list \<Rightarrow> 'e \<Rightarrow> 'e option" where
  "find_elem lt [] e = None"
| "find_elem lt (hi # bucket) e =
     (if \<not> lt hi e \<and> \<not> lt e hi then Some hi else find_elem lt bucket e)"

text \<open>\<open>x & (x - 1)\<close>, on a \<open>size_t\<close>.\<close>

definition turn_off_least_1bit :: "nat \<Rightarrow> nat" where
  "turn_off_least_1bit x = x AND (x - 1)"

definition is_power_of_2 :: "nat \<Rightarrow> bool" where
  "is_power_of_2 x \<longleftrightarrow> x \<noteq> 0 \<and> turn_off_least_1bit x = 0"

partial_function (option) round_down_pow2 :: "nat \<Rightarrow> nat option" where
  "round_down_pow2 n =
     (if is_power_of_2 n then Some n else round_down_pow2 (turn_off_least_1bit n))"

section \<open>Operations\<close>

definition insert_elem :: "'e htable \<Rightarrow> nat \<Rightarrow> 'e \<Rightarrow> 'e htable" where
  "insert_elem h b e =
     h\<lparr>elem_cnt := Suc (elem_cnt h), buckets := (buckets h)[b := e # buckets h ! b]\<rparr>"

text \<open>\<open>list_remove\<close> takes the element out of whichever bucket links it.\<close>

definition remove_elem :: "'e htable \<Rightarrow> 'e \<Rightarrow> 'e htable" where
  "remove_elem h e = h\<lparr>elem_cnt := elem_cnt h - 1, buckets := map (remove1 e) (buckets h)\<rparr>"

definition move_elem :: "('e \<Rightarrow> u64) \<Rightarrow> 'e \<Rightarrow> 'e htable \<Rightarrow> 'e htable" where
  "move_elem hf e h = (let b = find_bucket hf h e in h\<lparr>buckets := (buckets h)[b := e # buckets h ! b]\<rparr>)"

definition best_bucket_cnt :: "nat \<Rightarrow> nat option" where
  "best_bucket_cnt elems = (let n = elems div 2; n = (if n < 4 then 4 else n) in round_down_pow2 n)"

definition rehash :: "('e \<Rightarrow> u64) \<Rightarrow> bool \<Rightarrow> 'e htable \<Rightarrow> 'e htable option" where
  "rehash hf mem_ok h = do {
     let old_buckets = buckets h;
     new_bucket_cnt \<leftarrow> best_bucket_cnt (elem_cnt h);
     if new_bucket_cnt = bucket_cnt h then Some h
     else if \<not> mem_ok then Some h
     else Some (fold (fold (move_elem hf)) old_buckets
       (h\<lparr>buckets := replicate new_bucket_cnt [], bucket_cnt := new_bucket_cnt\<rparr>)) }"

definition hash_clear :: "('e \<Rightarrow> 's \<Rightarrow> 's) option \<Rightarrow> 'e htable \<Rightarrow> 's \<Rightarrow> 'e htable \<times> 's" where
  "hash_clear destructor h s =
     (h\<lparr>buckets := map (\<lambda>_. []) (buckets h), elem_cnt := 0\<rparr>,
      case destructor of None \<Rightarrow> s | Some d \<Rightarrow> fold (fold d) (buckets h) s)"

definition hash_init :: "bool \<Rightarrow> 'e htable option" where
  "hash_init mem_ok =
     (if mem_ok
      then Some (fst (hash_clear None \<lparr>elem_cnt = 0, bucket_cnt = 4, buckets = replicate 4 []\<rparr> ()))
      else None)"

definition hash_find :: "('e \<Rightarrow> u64) \<Rightarrow> ('e \<Rightarrow> 'e \<Rightarrow> bool) \<Rightarrow> 'e htable \<Rightarrow> 'e \<Rightarrow> 'e option" where
  "hash_find hf lt h e = find_elem lt (buckets h ! find_bucket hf h e) e"

definition hash_insert ::
    "('e \<Rightarrow> u64) \<Rightarrow> ('e \<Rightarrow> 'e \<Rightarrow> bool) \<Rightarrow> bool \<Rightarrow> 'e htable \<Rightarrow> 'e \<Rightarrow> ('e htable \<times> 'e option) option" where
  "hash_insert hf lt mem_ok h new = do {
     let bucket = find_bucket hf h new;
     let old = find_elem lt (buckets h ! bucket) new;
     let h = (if old = None then insert_elem h bucket new else h);
     h \<leftarrow> rehash hf mem_ok h;
     Some (h, old) }"

definition hash_replace ::
    "('e \<Rightarrow> u64) \<Rightarrow> ('e \<Rightarrow> 'e \<Rightarrow> bool) \<Rightarrow> bool \<Rightarrow> 'e htable \<Rightarrow> 'e \<Rightarrow> ('e htable \<times> 'e option) option" where
  "hash_replace hf lt mem_ok h new = do {
     let bucket = find_bucket hf h new;
     let old = find_elem lt (buckets h ! bucket) new;
     let h = (case old of None \<Rightarrow> h | Some x \<Rightarrow> remove_elem h x);
     let h = insert_elem h bucket new;
     h \<leftarrow> rehash hf mem_ok h;
     Some (h, old) }"

definition hash_delete ::
    "('e \<Rightarrow> u64) \<Rightarrow> ('e \<Rightarrow> 'e \<Rightarrow> bool) \<Rightarrow> bool \<Rightarrow> 'e htable \<Rightarrow> 'e \<Rightarrow> ('e htable \<times> 'e option) option" where
  "hash_delete hf lt mem_ok h e =
     (case find_elem lt (buckets h ! find_bucket hf h e) e of
        None \<Rightarrow> Some (h, None)
      | Some found \<Rightarrow> do { h \<leftarrow> rehash hf mem_ok (remove_elem h found); Some (h, Some found) })"

definition hash_apply :: "('e \<Rightarrow> 's \<Rightarrow> 's) \<Rightarrow> 'e htable \<Rightarrow> 's \<Rightarrow> 's" where
  "hash_apply action h s = fold (fold action) (buckets h) s"

definition hash_size :: "'e htable \<Rightarrow> nat" where
  "hash_size h = elem_cnt h"

definition hash_empty :: "'e htable \<Rightarrow> bool" where
  "hash_empty h \<longleftrightarrow> elem_cnt h = 0"

text \<open>
  An iterator is a bucket and the number of its elements already passed: 0 stands for the
  head of the bucket's list, where \<open>hash_first\<close> starts.
\<close>

record hash_iterator =
  it_bucket :: nat
  it_passed :: nat

definition hash_first :: hash_iterator where
  "hash_first = \<lparr>it_bucket = 0, it_passed = 0\<rparr>"

function hash_next_from :: "'e htable \<Rightarrow> nat \<Rightarrow> nat \<Rightarrow> hash_iterator \<times> 'e option" where
  "hash_next_from h b p =
     (if p < length (buckets h ! b)
      then (\<lparr>it_bucket = b, it_passed = Suc p\<rparr>, Some (buckets h ! b ! p))
      else if Suc b \<ge> bucket_cnt h then (\<lparr>it_bucket = Suc b, it_passed = 0\<rparr>, None)
      else hash_next_from h (Suc b) 0)"
  by pat_completeness auto
termination
  by (relation "measure (\<lambda>(h, b, p). bucket_cnt h - b)") auto

declare hash_next_from.simps [simp del]

definition hash_next :: "'e htable \<Rightarrow> hash_iterator \<Rightarrow> hash_iterator \<times> 'e option" where
  "hash_next h i = hash_next_from h (it_bucket i) (it_passed i)"

section \<open>Hash functions\<close>

definition FNV_64_PRIME :: u64 where "FNV_64_PRIME = 0x00000100000001B3"
definition FNV_64_BASIS :: u64 where "FNV_64_BASIS = 0xcbf29ce484222325"

definition hash_bytes :: "u8 list \<Rightarrow> u64" where
  "hash_bytes buf = fold (\<lambda>b hash. (hash * FNV_64_PRIME) XOR ucast b) buf FNV_64_BASIS"

definition hash_string :: "u8 list \<Rightarrow> u64" where
  "hash_string s = hash_bytes (takeWhile (\<lambda>c. c \<noteq> 0) s)"

text \<open>The bytes of a little-endian integer of \<open>n\<close> bytes.\<close>

fun word_bytes :: "nat \<Rightarrow> u64 \<Rightarrow> u8 list" where
  "word_bytes 0 w = []"
| "word_bytes (Suc n) w = ucast w # word_bytes n (drop_bit 8 w)"

definition hash_int :: "u32 \<Rightarrow> u64" where
  "hash_int i = hash_bytes (word_bytes 4 (ucast i))"

section \<open>Powers of two\<close>

lemma nat_and_le: "(x::nat) AND y \<le> y"
  by (metis AND_upper2 of_nat_0_le_iff of_nat_and_eq of_nat_le_iff)

lemma turn_off_least_1bit_less: "x \<noteq> 0 \<Longrightarrow> turn_off_least_1bit x < x"
  using nat_and_le [of x "x - 1"] by (simp add: turn_off_least_1bit_def)

lemma turn_off_least_1bit_even: "turn_off_least_1bit (2 * x) = 2 * turn_off_least_1bit x"
proof (cases x)
  case (Suc y)
  then show ?thesis unfolding turn_off_least_1bit_def by (subst and_nat_rec) simp
qed (simp add: turn_off_least_1bit_def)

lemma turn_off_least_1bit_odd: "turn_off_least_1bit (Suc (2 * x)) = 2 * x"
  unfolding turn_off_least_1bit_def by (subst and_nat_rec) simp

text \<open>Clearing the lowest one bit keeps the largest power of two below the number.\<close>

lemma turn_off_least_1bit_pow2:
  "x \<noteq> 0 \<Longrightarrow> \<not> is_power_of_2 x \<Longrightarrow> (2 ^ k \<le> x \<longleftrightarrow> 2 ^ k \<le> turn_off_least_1bit x)"
proof (induction x arbitrary: k rule: less_induct)
  case (less x)
  show ?case
  proof (cases "even x")
    case True
    then obtain y where y: "x = 2 * y" by blast
    then have "\<not> is_power_of_2 y" "y \<noteq> 0" "y < x"
      using less.prems by (auto simp: is_power_of_2_def turn_off_least_1bit_even)
    with less.IH show ?thesis
      using less.prems y
      by (cases k) (auto simp: turn_off_least_1bit_even is_power_of_2_def Suc_le_eq)
  next
    case False
    then obtain y where y: "x = Suc (2 * y)" by (metis oddE Suc_eq_plus1)
    then have "y \<noteq> 0" using less.prems by (auto simp: is_power_of_2_def turn_off_least_1bit_odd)
    then show ?thesis
      unfolding y turn_off_least_1bit_odd by (cases k) auto
  qed
qed

lemma is_power_of_2_iff: "is_power_of_2 x \<longleftrightarrow> (\<exists>k. x = 2 ^ k)"
proof
  show "is_power_of_2 x \<Longrightarrow> \<exists>k. x = 2 ^ k"
  proof (induction x rule: less_induct)
    case (less x)
    show ?case
    proof (cases "even x")
      case True
      then obtain y where y: "x = 2 * y" by blast
      with less.prems have "is_power_of_2 y" "y < x"
        by (auto simp: is_power_of_2_def turn_off_least_1bit_even)
      with less.IH obtain k where "y = 2 ^ k" by blast
      with y have "x = 2 ^ Suc k" by simp
      then show ?thesis ..
    next
      case False
      then obtain y where "x = Suc (2 * y)" by (metis oddE Suc_eq_plus1)
      with less.prems have "x = 2 ^ 0" by (simp add: is_power_of_2_def turn_off_least_1bit_odd)
      then show ?thesis ..
    qed
  qed
next
  assume "\<exists>k. x = 2 ^ k"
  then obtain k where "x = 2 ^ k" ..
  moreover have "turn_off_least_1bit (2 ^ k) = 0"
    by (induction k) (simp_all add: turn_off_least_1bit_even, simp add: turn_off_least_1bit_def)
  ultimately show "is_power_of_2 x" by (simp add: is_power_of_2_def)
qed

text \<open>The loop of \<open>rehash\<close> stops at the largest power of two that is not above its start.\<close>

lemma round_down_pow2_spec:
  "n \<noteq> 0 \<Longrightarrow> \<exists>k. round_down_pow2 n = Some (2 ^ k) \<and> 2 ^ k \<le> n \<and> n < 2 ^ Suc k"
proof (induction n rule: less_induct)
  case (less n)
  show ?case
  proof (cases "is_power_of_2 n")
    case True
    then obtain k where "n = 2 ^ k" by (auto simp: is_power_of_2_iff)
    with True show ?thesis by (intro exI [of _ k]) (subst round_down_pow2.simps, simp)
  next
    case False
    with less.prems have "turn_off_least_1bit n \<noteq> 0" by (simp add: is_power_of_2_def)
    from less.IH [OF turn_off_least_1bit_less [OF less.prems] this] obtain k where
      k: "round_down_pow2 (turn_off_least_1bit n) = Some (2 ^ k)"
      "2 ^ k \<le> turn_off_least_1bit n" "turn_off_least_1bit n < 2 ^ Suc k" by blast
    from k(2,3) have "2 ^ k \<le> n" "\<not> 2 ^ Suc k \<le> n"
      using turn_off_least_1bit_pow2 [OF less.prems False] by (blast, metis not_le)
    with k(1) False show ?thesis by (intro exI [of _ k]) (subst round_down_pow2.simps, simp)
  qed
qed

lemma best_bucket_cnt_spec:
  "\<exists>k\<ge>2. best_bucket_cnt n = Some (2 ^ k) \<and> 2 ^ k \<le> max 4 (n div 2) \<and> max 4 (n div 2) < 2 ^ Suc k"
proof -
  define m where "m = max 4 (n div 2)"
  then have m: "m \<noteq> 0" "4 \<le> m" by simp_all
  then obtain k where k: "round_down_pow2 m = Some (2 ^ k)" "2 ^ k \<le> m" "m < 2 ^ Suc k"
    using round_down_pow2_spec by blast
  have "k \<ge> 2"
  proof (rule ccontr)
    assume "\<not> k \<ge> 2"
    then have "(2::nat) ^ Suc k \<le> 2 ^ 2" by (intro power_increasing) auto
    with k(3) m(2) show False by simp
  qed
  moreover have "best_bucket_cnt n = round_down_pow2 m"
    by (simp add: best_bucket_cnt_def m_def max_def Let_def)
  ultimately show ?thesis using k unfolding m_def by auto
qed


section \<open>Well-formed tables\<close>

text \<open>
  Every element sits in the bucket its hash selects, the number of buckets is a power of two
  and at least four, the count is right, and no two elements compare equal.
\<close>

definition hash_elems :: "'e htable \<Rightarrow> 'e list" where
  "hash_elems h = concat (buckets h)"

definition placed :: "('e \<Rightarrow> u64) \<Rightarrow> 'e htable \<Rightarrow> bool" where
  "placed hf h \<longleftrightarrow> (\<forall>i < length (buckets h). \<forall>e \<in> set (buckets h ! i). find_bucket hf h e = i)"

definition pow2_buckets :: "'e htable \<Rightarrow> bool" where
  "pow2_buckets h \<longleftrightarrow> length (buckets h) = bucket_cnt h \<and> (\<exists>k\<ge>2. bucket_cnt h = 2 ^ k)"

definition no_equals :: "('e \<Rightarrow> 'e \<Rightarrow> bool) \<Rightarrow> 'e list \<Rightarrow> bool" where
  "no_equals lt es \<longleftrightarrow> distinct es \<and> (\<forall>x\<in>set es. \<forall>y\<in>set es. equiv_by lt x y \<longrightarrow> x = y)"

definition hash_wf :: "('e \<Rightarrow> u64) \<Rightarrow> ('e \<Rightarrow> 'e \<Rightarrow> bool) \<Rightarrow> 'e htable \<Rightarrow> bool" where
  "hash_wf hf lt h \<longleftrightarrow> pow2_buckets h \<and> placed hf h \<and> elem_cnt h = length (hash_elems h) \<and>
     no_equals lt (hash_elems h)"

lemma find_bucket_less: "pow2_buckets h \<Longrightarrow> find_bucket hf h e < length (buckets h)"
proof -
  assume "pow2_buckets h"
  then have p: "bucket_cnt h \<noteq> 0" "length (buckets h) = bucket_cnt h" by (auto simp: pow2_buckets_def)
  have "find_bucket hf h e \<le> unat (of_nat (bucket_cnt h - 1) :: u64)"
    unfolding find_bucket_def by (rule word_and_le1 [THEN word_le_nat_alt [THEN iffD1]])
  also have "\<dots> \<le> bucket_cnt h - 1" by (simp add: unat_of_nat)
  finally show ?thesis using p by linarith
qed

lemma find_bucket_cong: "bucket_cnt h' = bucket_cnt h \<Longrightarrow> find_bucket hf h' e = find_bucket hf h e"
  by (simp add: find_bucket_def)

text \<open>Pushing an element on its bucket.\<close>

lemma concat_update_mset:
  "b < length bs \<Longrightarrow> mset (concat (bs[b := e # bs ! b])) = add_mset e (mset (concat bs))"
  by (induction bs arbitrary: b) (auto split: nat.splits)

lemma concat_map_remove1_mset:
  "mset (concat bs) = add_mset e M \<Longrightarrow> distinct (concat bs) \<Longrightarrow> mset (concat (map (remove1 e) bs)) = M"
proof -
  have "distinct (concat bs) \<Longrightarrow> mset (concat (map (remove1 e) bs)) = mset (concat bs) - {#e#}"
  proof (induction bs)
    case (Cons b bs)
    show ?case
    proof (cases "e \<in> set b")
      case True
      then have "e \<notin> set (concat bs)" using Cons.prems by auto
      then have "map (remove1 e) bs = bs" by (intro map_idI) (auto simp: remove1_idem)
      then show ?thesis using True by simp
    next
      case False
      then have "mset b + M - {#e#} = mset b + (M - {#e#})" for M
        by (cases "e \<in># M") (auto simp: diff_single_trivial dest!: multi_member_split)
      with Cons False show ?thesis by (simp add: remove1_idem)
    qed
  qed simp
  then show "mset (concat bs) = add_mset e M \<Longrightarrow> distinct (concat bs) \<Longrightarrow> ?thesis" by simp
qed

lemma insert_elem_facts:
  assumes "pow2_buckets h" "placed hf h" "b = find_bucket hf h e"
  shows "pow2_buckets (insert_elem h b e)" "placed hf (insert_elem h b e)"
    "mset (hash_elems (insert_elem h b e)) = add_mset e (mset (hash_elems h))"
proof -
  have b: "b < length (buckets h)" using find_bucket_less [OF assms(1), of hf e] assms(3) by simp
  show "pow2_buckets (insert_elem h b e)" using assms by (simp add: pow2_buckets_def insert_elem_def)
  show "placed hf (insert_elem h b e)"
    using assms b find_bucket_cong [of "insert_elem h b e" h hf]
    by (auto simp: placed_def insert_elem_def nth_list_update)
  show "mset (hash_elems (insert_elem h b e)) = add_mset e (mset (hash_elems h))"
    using concat_update_mset [OF b] by (simp add: hash_elems_def insert_elem_def)
qed

lemma move_elem_facts:
  assumes "pow2_buckets h" "placed hf h"
  shows "pow2_buckets (move_elem hf e h)" "placed hf (move_elem hf e h)"
    "mset (hash_elems (move_elem hf e h)) = add_mset e (mset (hash_elems h))"
    "elem_cnt (move_elem hf e h) = elem_cnt h" "bucket_cnt (move_elem hf e h) = bucket_cnt h"
proof -
  have b: "find_bucket hf h e < length (buckets h)" by (rule find_bucket_less [OF assms(1)])
  show c: "elem_cnt (move_elem hf e h) = elem_cnt h" "bucket_cnt (move_elem hf e h) = bucket_cnt h"
    by (simp_all add: move_elem_def Let_def)
  show "pow2_buckets (move_elem hf e h)" using assms by (simp add: pow2_buckets_def move_elem_def Let_def)
  show "placed hf (move_elem hf e h)"
    using assms b find_bucket_cong [of "move_elem hf e h" h hf, OF c(2)]
    by (auto simp: placed_def move_elem_def Let_def nth_list_update)
  show "mset (hash_elems (move_elem hf e h)) = add_mset e (mset (hash_elems h))"
    using concat_update_mset [OF b] by (simp add: hash_elems_def move_elem_def Let_def)
qed

lemma fold_fold_concat: "fold (fold f) xss s = fold f (concat xss) s"
  by (induction xss arbitrary: s) auto

lemma fold_move_elem:
  assumes "pow2_buckets h" "placed hf h"
  shows "pow2_buckets (fold (move_elem hf) es h) \<and> placed hf (fold (move_elem hf) es h) \<and>
    mset (hash_elems (fold (move_elem hf) es h)) = mset es + mset (hash_elems h) \<and>
    elem_cnt (fold (move_elem hf) es h) = elem_cnt h"
  using assms
proof (induction es arbitrary: h)
  case (Cons e es)
  from Cons.IH [OF move_elem_facts(1,2) [OF Cons.prems, of e]] move_elem_facts(3,4) [OF Cons.prems, of e]
  show ?case by simp
qed simp

text \<open>
  Rehashing never fails and changes neither the elements nor their count, whether or not
  memory is available.
\<close>

lemma rehash_spec:
  assumes "pow2_buckets h" "placed hf h"
  obtains h' where "rehash hf mem_ok h = Some h'" "pow2_buckets h'" "placed hf h'"
    "mset (hash_elems h') = mset (hash_elems h)" "elem_cnt h' = elem_cnt h"
    "mem_ok \<Longrightarrow> best_bucket_cnt (elem_cnt h) = Some (bucket_cnt h')"
proof -
  obtain k where k: "k \<ge> 2" "best_bucket_cnt (elem_cnt h) = Some (2 ^ k)"
    using best_bucket_cnt_spec by blast
  show ?thesis
  proof (cases "2 ^ k = bucket_cnt h \<or> \<not> mem_ok")
    case True
    then show ?thesis using that [of h] assms k by (auto simp: rehash_def)
  next
    case False
    let ?h0 = "h\<lparr>buckets := replicate (2 ^ k) [], bucket_cnt := 2 ^ k\<rparr>"
    have e: "concat (replicate (2 ^ k) []) = ([] :: 'a list)"
      by (simp add: concat_replicate_trivial)
    have "pow2_buckets ?h0" "placed hf ?h0"
      using k by (auto simp: pow2_buckets_def placed_def)
    note f = fold_move_elem [OF this, of "concat (buckets h)"]
    have "bucket_cnt (fold (move_elem hf) es g) = bucket_cnt g" for es and g :: "'a htable"
      by (induction es arbitrary: g) (simp_all add: move_elem_def Let_def)
    then show ?thesis
      using that [of "fold (move_elem hf) (concat (buckets h)) ?h0"] f False k e
      by (auto simp: rehash_def fold_fold_concat hash_elems_def)
  qed
qed


section \<open>The contract of a hash function, and the table as a set of elements\<close>

locale hash_fun = weak_less lt for lt :: "'e \<Rightarrow> 'e \<Rightarrow> bool" +
  fixes hf :: "'e \<Rightarrow> u64"
  assumes hash_compat: "equiv_by lt x y \<Longrightarrow> hf x = hf y"
begin

lemma equiv_refl: "equiv_by lt x x"
  using irrefl by (simp add: equiv_by_def)

lemma equiv_sym: "equiv_by lt x y \<longleftrightarrow> equiv_by lt y x"
  by (auto simp: equiv_by_def)

lemma equiv_trans: "equiv_by lt x y \<Longrightarrow> equiv_by lt y z \<Longrightarrow> equiv_by lt x z"
  using neg_trans by (auto simp: equiv_by_def)

lemma find_elem_Some: "find_elem lt b e = Some x \<Longrightarrow> x \<in> set b \<and> equiv_by lt x e"
  by (induction b) (auto simp: equiv_by_def split: if_splits)

lemma find_elem_None: "find_elem lt b e = None \<longleftrightarrow> (\<forall>x\<in>set b. \<not> equiv_by lt x e)"
  by (induction b) (auto simp: equiv_by_def)

lemma placed_bucket:
  assumes "pow2_buckets h" "placed hf h" "x \<in> set (hash_elems h)" "equiv_by lt x e"
  shows "x \<in> set (buckets h ! find_bucket hf h e)"
proof -
  obtain i where i: "i < length (buckets h)" "x \<in> set (buckets h ! i)"
    using assms(3) unfolding hash_elems_def by (metis concat_eq_concat_iff in_set_conv_nth UN_E set_concat)
  then have "find_bucket hf h x = i" using assms(2) by (auto simp: placed_def)
  moreover have "find_bucket hf h x = find_bucket hf h e"
    using hash_compat [OF assms(4)] by (simp add: find_bucket_def)
  ultimately show ?thesis using i by simp
qed

lemma bucket_elems:
  assumes "pow2_buckets h"
  shows "x \<in> set (buckets h ! find_bucket hf h e) \<Longrightarrow> x \<in> set (hash_elems h)"
  using find_bucket_less [OF assms, of hf e] by (auto simp: hash_elems_def)

text \<open>Looking up finds exactly the element that compares equal.\<close>

lemma hash_find_Some:
  assumes "hash_wf hf lt h"
  shows "hash_find hf lt h e = Some x \<longleftrightarrow> x \<in> set (hash_elems h) \<and> equiv_by lt x e"
proof
  assume "hash_find hf lt h e = Some x"
  then show "x \<in> set (hash_elems h) \<and> equiv_by lt x e"
    using find_elem_Some bucket_elems assms unfolding hash_find_def hash_wf_def by blast
next
  assume x: "x \<in> set (hash_elems h) \<and> equiv_by lt x e"
  then have xb: "x \<in> set (buckets h ! find_bucket hf h e)"
    using placed_bucket assms by (auto simp: hash_wf_def)
  with x obtain y where y: "hash_find hf lt h e = Some y"
    unfolding hash_find_def by (metis find_elem_None option.exhaust)
  then have "y \<in> set (hash_elems h)" "equiv_by lt y e"
    using find_elem_Some bucket_elems assms unfolding hash_find_def hash_wf_def by blast+
  then have "equiv_by lt y x" using x equiv_sym equiv_trans by blast
  then have "y = x" using assms x \<open>y \<in> set (hash_elems h)\<close> by (simp add: hash_wf_def no_equals_def)
  with y show "hash_find hf lt h e = Some x" by simp
qed

lemma hash_find_None:
  assumes "hash_wf hf lt h"
  shows "hash_find hf lt h e = None \<longleftrightarrow> (\<forall>x\<in>set (hash_elems h). \<not> equiv_by lt x e)"
  using hash_find_Some [OF assms, of e] by (cases "hash_find hf lt h e") auto

lemma wf_rehash:
  assumes "pow2_buckets h" "placed hf h" "elem_cnt h = length (hash_elems h)"
    "no_equals lt (hash_elems h)"
  obtains h' where "rehash hf mem_ok h = Some h'" "hash_wf hf lt h'"
    "mset (hash_elems h') = mset (hash_elems h)"
    "mem_ok \<Longrightarrow> best_bucket_cnt (elem_cnt h') = Some (bucket_cnt h')"
proof -
  obtain h' where h': "rehash hf mem_ok h = Some h'" "pow2_buckets h'" "placed hf h'"
    "mset (hash_elems h') = mset (hash_elems h)" "elem_cnt h' = elem_cnt h"
    "mem_ok \<Longrightarrow> best_bucket_cnt (elem_cnt h) = Some (bucket_cnt h')"
    using rehash_spec [OF assms(1,2)] by blast
  have "set (hash_elems h') = set (hash_elems h)" "length (hash_elems h') = length (hash_elems h)"
    "distinct (hash_elems h') \<longleftrightarrow> distinct (hash_elems h)"
    using h'(4) by (metis set_mset_mset, metis size_mset, metis mset_eq_imp_distinct_iff)
  then have "hash_wf hf lt h'"
    using h' assms by (simp add: hash_wf_def no_equals_def)
  then show ?thesis using that h' by simp
qed

lemma no_equals_insert:
  "no_equals lt es \<Longrightarrow> \<forall>x\<in>set es. \<not> equiv_by lt x e \<Longrightarrow> mset es' = add_mset e (mset es) \<Longrightarrow>
     no_equals lt es' \<and> length es' = Suc (length es)"
proof -
  assume a: "no_equals lt es" "\<forall>x\<in>set es. \<not> equiv_by lt x e" "mset es' = add_mset e (mset es)"
  then have m: "mset es' = mset (e # es)" by simp
  have "e \<notin> set es" using a(2) equiv_refl by blast
  then have "distinct es'" using a(1) mset_eq_imp_distinct_iff [OF m] by (simp add: no_equals_def)
  moreover have "set es' = insert e (set es)" using m by (metis list.set(2) set_mset_mset)
  moreover have "length es' = Suc (length es)" using m by (metis length_Cons size_mset)
  ultimately show ?thesis using a(1,2) equiv_sym by (auto simp: no_equals_def)
qed

text \<open>The effect of the operations on the set of elements.\<close>

lemma hash_insert_effect:
  assumes wf: "hash_wf hf lt h"
  obtains h' where "hash_insert hf lt mem_ok h e = Some (h', hash_find hf lt h e)" "hash_wf hf lt h'"
    "set (hash_elems h') = (if hash_find hf lt h e = None then insert e (set (hash_elems h))
       else set (hash_elems h))"
proof -
  have old: "find_elem lt (buckets h ! find_bucket hf h e) e = hash_find hf lt h e"
    by (simp add: hash_find_def)
  have w: "pow2_buckets h" "placed hf h" "elem_cnt h = length (hash_elems h)" "no_equals lt (hash_elems h)"
    using wf by (simp_all add: hash_wf_def)
  show ?thesis
  proof (cases "hash_find hf lt h e = None")
    case True
    let ?g = "insert_elem h (find_bucket hf h e) e"
    note g = insert_elem_facts [OF w(1,2) refl, of e]
    have "no_equals lt (hash_elems ?g) \<and> length (hash_elems ?g) = Suc (length (hash_elems h))"
      using no_equals_insert [OF w(4) _ g(3)] hash_find_None [OF wf] True by blast
    then obtain h' where h': "rehash hf mem_ok ?g = Some h'" "hash_wf hf lt h'"
      "mset (hash_elems h') = mset (hash_elems ?g)"
      using wf_rehash [OF g(1,2)] w(3) by (auto simp: insert_elem_def)
    then have "set (hash_elems h') = insert e (set (hash_elems h))"
      using g(3) by (metis set_mset_add_mset_insert set_mset_mset)
    then show ?thesis using that h' True old by (simp add: hash_insert_def)
  next
    case False
    then obtain h' where h': "rehash hf mem_ok h = Some h'" "hash_wf hf lt h'"
      "mset (hash_elems h') = mset (hash_elems h)"
      using wf_rehash [OF w] by blast
    then have "set (hash_elems h') = set (hash_elems h)" by (metis set_mset_mset)
    then show ?thesis using that h' False old by (simp add: hash_insert_def)
  qed
qed


lemma remove_elem_facts:
  assumes "hash_wf hf lt h" "x \<in> set (hash_elems h)"
  shows "pow2_buckets (remove_elem h x)" "placed hf (remove_elem h x)"
    "mset (hash_elems (remove_elem h x)) = mset (hash_elems h) - {#x#}"
    "elem_cnt (remove_elem h x) = length (hash_elems (remove_elem h x))"
    "no_equals lt (hash_elems (remove_elem h x))"
    "set (hash_elems (remove_elem h x)) = set (hash_elems h) - {x}"
proof -
  have w: "pow2_buckets h" "placed hf h" "elem_cnt h = length (hash_elems h)" "no_equals lt (hash_elems h)"
    using assms(1) by (simp_all add: hash_wf_def)
  show "pow2_buckets (remove_elem h x)" using w(1) by (simp add: pow2_buckets_def remove_elem_def)
  show "placed hf (remove_elem h x)"
    using w(2) find_bucket_cong [of "remove_elem h x" h hf]
    by (auto simp: placed_def remove_elem_def dest: notin_set_remove1 set_remove1_subset [THEN subsetD])
  have d: "distinct (hash_elems h)" using w(4) by (simp add: no_equals_def)
  obtain M where M: "mset (hash_elems h) = add_mset x M" using assms(2) by (metis multi_member_split set_mset_mset)
  then have m: "mset (hash_elems (remove_elem h x)) = M"
    using concat_map_remove1_mset [of "buckets h" x M] d by (simp add: hash_elems_def remove_elem_def)
  with M show "mset (hash_elems (remove_elem h x)) = mset (hash_elems h) - {#x#}" by simp
  then have r: "mset (hash_elems (remove_elem h x)) = mset (remove1 x (hash_elems h))" by simp
  then show s: "set (hash_elems (remove_elem h x)) = set (hash_elems h) - {x}"
    using d by (metis set_mset_mset set_remove1_eq)
  have "distinct (hash_elems (remove_elem h x))"
    using mset_eq_imp_distinct_iff [OF r] d by (simp add: distinct_remove1)
  then show "no_equals lt (hash_elems (remove_elem h x))"
    using w(4) s by (auto simp: no_equals_def)
  have "length (hash_elems (remove_elem h x)) = length (hash_elems h) - 1"
    using r assms(2) by (metis length_remove1 size_mset)
  then show "elem_cnt (remove_elem h x) = length (hash_elems (remove_elem h x))"
    using w(3) by (simp add: remove_elem_def)
qed

lemma hash_delete_effect:
  assumes wf: "hash_wf hf lt h"
  obtains h' where "hash_delete hf lt mem_ok h e = Some (h', hash_find hf lt h e)" "hash_wf hf lt h'"
    "set (hash_elems h') = set (hash_elems h) - {x. equiv_by lt x e}"
proof (cases "hash_find hf lt h e")
  case None
  then have "set (hash_elems h) = set (hash_elems h) - {x. equiv_by lt x e}"
    using hash_find_None [OF wf] by auto
  then show ?thesis using that [of h] None wf by (simp add: hash_delete_def hash_find_def)
next
  case (Some x)
  then have x: "x \<in> set (hash_elems h)" "equiv_by lt x e" using hash_find_Some [OF wf] by simp_all
  note r = remove_elem_facts [OF wf x(1)]
  obtain h' where h': "rehash hf mem_ok (remove_elem h x) = Some h'" "hash_wf hf lt h'"
    "mset (hash_elems h') = mset (hash_elems (remove_elem h x))"
    using wf_rehash [OF r(1,2,4,5)] by blast
  have "set (hash_elems h') = set (hash_elems h) - {x}" using h'(3) r(6) by (metis set_mset_mset)
  moreover have "y = x" if "y \<in> set (hash_elems h)" "equiv_by lt y e" for y
    using that x wf equiv_sym equiv_trans unfolding hash_wf_def no_equals_def by blast
  ultimately have "set (hash_elems h') = set (hash_elems h) - {x. equiv_by lt x e}" using x by blast
  then show ?thesis using that h' Some by (simp add: hash_delete_def hash_find_def)
qed

lemma hash_replace_effect:
  assumes wf: "hash_wf hf lt h"
  obtains h' where "hash_replace hf lt mem_ok h e = Some (h', hash_find hf lt h e)" "hash_wf hf lt h'"
    "set (hash_elems h') = insert e (set (hash_elems h) - {x. equiv_by lt x e})"
proof -
  define g where "g = (case hash_find hf lt h e of None \<Rightarrow> h | Some x \<Rightarrow> remove_elem h x)"
  have g: "hash_wf hf lt g" "set (hash_elems g) = set (hash_elems h) - {x. equiv_by lt x e}"
    "bucket_cnt g = bucket_cnt h"
  proof -
    show "hash_wf hf lt g"
      using wf hash_find_Some [OF wf] remove_elem_facts [OF wf]
      by (auto simp: g_def hash_wf_def split: option.splits)
    show "set (hash_elems g) = set (hash_elems h) - {x. equiv_by lt x e}"
    proof (cases "hash_find hf lt h e")
      case None
      then have "g = h" by (simp add: g_def)
      then show ?thesis using hash_find_None [OF wf, of e] None by auto
    next
      case (Some x)
      then have x: "x \<in> set (hash_elems h)" "equiv_by lt x e" using hash_find_Some [OF wf] by simp_all
      moreover have "y = x" if "y \<in> set (hash_elems h)" "equiv_by lt y e" for y
        using that x wf equiv_sym equiv_trans unfolding hash_wf_def no_equals_def by blast
      ultimately have "set (hash_elems h) - {x} = set (hash_elems h) - {x. equiv_by lt x e}" by blast
      then show ?thesis using remove_elem_facts(6) [OF wf x(1)] by (simp add: g_def Some)
    qed
    show "bucket_cnt g = bucket_cnt h" by (simp add: g_def remove_elem_def split: option.splits)
  qed
  have w: "pow2_buckets g" "placed hf g" "elem_cnt g = length (hash_elems g)" "no_equals lt (hash_elems g)"
    using g(1) by (simp_all add: hash_wf_def)
  let ?k = "insert_elem g (find_bucket hf h e) e"
  have fb: "find_bucket hf h e = find_bucket hf g e" using g(3) by (simp add: find_bucket_def)
  note k = insert_elem_facts [OF w(1,2) fb]
  have "no_equals lt (hash_elems ?k) \<and> length (hash_elems ?k) = Suc (length (hash_elems g))"
    by (rule no_equals_insert [OF w(4) _ k(3)]) (use g(2) in auto)
  then obtain h' where h': "rehash hf mem_ok ?k = Some h'" "hash_wf hf lt h'"
    "mset (hash_elems h') = mset (hash_elems ?k)"
    using wf_rehash [OF k(1,2)] w(3) by (auto simp: insert_elem_def)
  then have "set (hash_elems h') = insert e (set (hash_elems g))"
    using k(3) by (metis set_mset_add_mset_insert set_mset_mset)
  then show ?thesis using that h' g(2) by (simp add: hash_replace_def hash_find_def g_def)
qed

lemma concat_map_Nil [simp]: "concat (map (\<lambda>_. []) xs) = []"
  by (induction xs) auto

lemma hash_empty_wf:
  assumes "length (buckets h) = bucket_cnt h" "k \<ge> 2" "bucket_cnt h = 2 ^ k" "elem_cnt h = 0"
    "\<forall>b\<in>set (buckets h). b = []"
  shows "hash_wf hf lt h \<and> hash_elems h = []"
proof -
  have e: "hash_elems h = []" using assms(5) by (simp add: hash_elems_def)
  have "placed hf h" using assms(5) by (fastforce simp: placed_def dest!: nth_mem)
  moreover have "pow2_buckets h" using assms(1-3) by (auto simp: pow2_buckets_def)
  ultimately show ?thesis using e assms(4) by (simp add: hash_wf_def no_equals_def)
qed

lemma hash_init_wf: "\<exists>h. hash_init True = Some h \<and> hash_wf hf lt h \<and> hash_elems h = []"
proof -
  obtain h :: "'e htable" where h: "hash_init True = Some h"
    "h = \<lparr>elem_cnt = 0, bucket_cnt = 4, buckets = replicate 4 []\<rparr>"
    by (simp add: hash_init_def hash_clear_def map_replicate_const)
  show ?thesis using h(1) hash_empty_wf [of h 2] by (simp add: h(2))
qed

lemma hash_clear_wf:
  assumes "hash_wf hf lt h"
  shows "hash_wf hf lt (fst (hash_clear d h s)) \<and> hash_elems (fst (hash_clear d h s)) = []"
proof -
  obtain k where "k \<ge> 2" "bucket_cnt h = 2 ^ k" "length (buckets h) = bucket_cnt h"
    using assms by (auto simp: hash_wf_def pow2_buckets_def)
  then show ?thesis by (intro hash_empty_wf [of _ k]) (auto simp: hash_clear_def)
qed

end

section \<open>Iteration\<close>

lemma hash_clear_visits: "snd (hash_clear (Some d) h s) = fold d (hash_elems h) s"
  by (simp add: hash_clear_def hash_elems_def fold_fold_concat)

lemma hash_apply_visits: "hash_apply action h s = fold action (hash_elems h) s"
  by (simp add: hash_apply_def hash_elems_def fold_fold_concat)

text \<open>The elements \<open>n\<close> calls of \<open>hash_next\<close> return.\<close>

fun iterate_hash :: "'e htable \<Rightarrow> nat \<Rightarrow> hash_iterator \<Rightarrow> 'e option list" where
  "iterate_hash h 0 i = []"
| "iterate_hash h (Suc n) i = (let (i', e) = hash_next h i in e # iterate_hash h n i')"

definition rest_of :: "'e htable \<Rightarrow> nat \<Rightarrow> nat \<Rightarrow> 'e list" where
  "rest_of h b p = drop p (buckets h ! b) @ concat (drop (Suc b) (buckets h))"

lemma hash_next_from_spec:
  assumes "length (buckets h) = bucket_cnt h" and "b < bucket_cnt h"
  shows "case rest_of h b p of
      [] \<Rightarrow> snd (hash_next_from h b p) = None
    | e # es \<Rightarrow> \<exists>b' p'. hash_next_from h b p = (\<lparr>it_bucket = b', it_passed = p'\<rparr>, Some e) \<and>
        b' < bucket_cnt h \<and> rest_of h b' p' = es"
  using assms
proof (induction h b p rule: hash_next_from.induct)
  case (1 h b p)
  consider "p < length (buckets h ! b)" | "\<not> p < length (buckets h ! b)" "Suc b \<ge> bucket_cnt h"
    | "\<not> p < length (buckets h ! b)" "Suc b < bucket_cnt h" by linarith
  then show ?case
  proof cases
    case 1
    then show ?thesis using "1.prems"
      by (auto simp: rest_of_def Cons_nth_drop_Suc [symmetric] hash_next_from.simps [of h b p])
  next
    case 2
    then show ?thesis using "1.prems" by (auto simp: rest_of_def hash_next_from.simps [of h b p])
  next
    case 3
    then have "rest_of h b p = rest_of h (Suc b) 0"
      using "1.prems" by (auto simp: rest_of_def Cons_nth_drop_Suc [symmetric])
    moreover have "hash_next_from h b p = hash_next_from h (Suc b) 0"
      using 3 by (simp add: hash_next_from.simps [of h b p])
    ultimately show ?thesis using 3 "1.IH" "1.prems" by (cases "rest_of h (Suc b) 0") simp_all
  qed
qed

lemma iterate_hash_from:
  assumes "length (buckets h) = bucket_cnt h" and "b < bucket_cnt h"
  shows "iterate_hash h (Suc (length (rest_of h b p))) \<lparr>it_bucket = b, it_passed = p\<rparr> =
    map Some (rest_of h b p) @ [None]"
  using assms(2)
proof (induction "rest_of h b p" arbitrary: b p)
  case Nil
  then show ?case
    using hash_next_from_spec [OF assms(1) Nil.prems, of p]
    by (cases "hash_next_from h b p") (auto simp: hash_next_def)
next
  case (Cons e es)
  from Cons.hyps(2) hash_next_from_spec [OF assms(1) Cons.prems, of p] obtain b' p' where
    n: "hash_next_from h b p = (\<lparr>it_bucket = b', it_passed = p'\<rparr>, Some e)"
    "b' < bucket_cnt h" "rest_of h b' p' = es" by (auto split: list.splits)
  have "iterate_hash h (Suc (length es)) \<lparr>it_bucket = b', it_passed = p'\<rparr> = map Some es @ [None]"
    using Cons.hyps(1) [OF n(3) [symmetric] n(2)] n(3) by simp
  then show ?case
    using Cons.hyps(2) [symmetric] n by (simp add: hash_next_def)
qed

lemma iterate_hash_all:
  assumes "pow2_buckets h"
  shows "iterate_hash h (Suc (length (hash_elems h))) hash_first = map Some (hash_elems h) @ [None]"
proof -
  have b: "length (buckets h) = bucket_cnt h" "0 < bucket_cnt h"
    using assms by (auto simp: pow2_buckets_def)
  then have "rest_of h 0 0 = hash_elems h"
    by (cases "buckets h") (auto simp: rest_of_def hash_elems_def)
  then show ?thesis using iterate_hash_from [OF b, of 0] by (simp only: hash_first_def)
qed

end
