(* ===== verification/KList.thy ===== *)
theory KList
  imports Prelude
begin

text \<open>
  The doubly linked lists of lib/kernel/list.c, at the level of their pointers. A heap maps
  the address of a \<open>struct list_elem\<close> to its two links; a \<open>struct list\<close> at address \<open>l\<close> holds
  its head element at \<open>l\<close> and its tail element right behind it. Every operation is a function
  on the heap, with the assignments of the code in the code's order; a failed \<open>ASSERT\<close> and a
  loop that does not stop are \<open>None\<close>. The relation \<open>list_at h l xs\<close> says that the list at \<open>l\<close>
  holds the elements \<open>xs\<close>; for every operation a lemma gives its effect on \<open>xs\<close>.
\<close>

section \<open>Memory\<close>

record list_elem =
  le_prev :: addr
  le_next :: addr

type_synonym heap = "addr \<Rightarrow> list_elem"

definition set_prev :: "heap \<Rightarrow> addr \<Rightarrow> addr \<Rightarrow> heap" where
  "set_prev h a p = h(a := (h a)\<lparr>le_prev := p\<rparr>)"

definition set_next :: "heap \<Rightarrow> addr \<Rightarrow> addr \<Rightarrow> heap" where
  "set_next h a n = h(a := (h a)\<lparr>le_next := n\<rparr>)"

text \<open>\<open>&list->head\<close> and \<open>&list->tail\<close>; a \<open>struct list_elem\<close> is 16 bytes long.\<close>

definition list_head_addr :: "addr \<Rightarrow> addr" where
  "list_head_addr l = l"

definition list_tail_addr :: "addr \<Rightarrow> addr" where
  "list_tail_addr l = l + 16"

lemma set_prev_simps [simp]:
  "le_prev (set_prev h a p b) = (if b = a then p else le_prev (h b))"
  "le_next (set_prev h a p b) = le_next (h b)"
  by (simp_all add: set_prev_def)

lemma set_next_simps [simp]:
  "le_next (set_next h a n b) = (if b = a then n else le_next (h b))"
  "le_prev (set_next h a n b) = le_prev (h b)"
  by (simp_all add: set_next_def)

section \<open>Operations\<close>

definition is_head :: "heap \<Rightarrow> addr \<Rightarrow> bool" where
  "is_head h e \<longleftrightarrow> e \<noteq> NULL \<and> le_prev (h e) = NULL \<and> le_next (h e) \<noteq> NULL"

definition is_interior :: "heap \<Rightarrow> addr \<Rightarrow> bool" where
  "is_interior h e \<longleftrightarrow> e \<noteq> NULL \<and> le_prev (h e) \<noteq> NULL \<and> le_next (h e) \<noteq> NULL"

definition is_tail :: "heap \<Rightarrow> addr \<Rightarrow> bool" where
  "is_tail h e \<longleftrightarrow> e \<noteq> NULL \<and> le_prev (h e) \<noteq> NULL \<and> le_next (h e) = NULL"

definition list_init :: "heap \<Rightarrow> addr \<Rightarrow> heap option" where
  "list_init h l = do {
     ASSERT (l \<noteq> NULL);
     let h = set_prev h (list_head_addr l) NULL;
     let h = set_next h (list_head_addr l) (list_tail_addr l);
     let h = set_prev h (list_tail_addr l) (list_head_addr l);
     Some (set_next h (list_tail_addr l) NULL) }"

definition list_begin :: "heap \<Rightarrow> addr \<Rightarrow> addr option" where
  "list_begin h l = do { ASSERT (l \<noteq> NULL); Some (le_next (h (list_head_addr l))) }"

definition list_next :: "heap \<Rightarrow> addr \<Rightarrow> addr option" where
  "list_next h e = do { ASSERT (is_head h e \<or> is_interior h e); Some (le_next (h e)) }"

definition list_end :: "addr \<Rightarrow> addr option" where
  "list_end l = do { ASSERT (l \<noteq> NULL); Some (list_tail_addr l) }"

definition list_rbegin :: "heap \<Rightarrow> addr \<Rightarrow> addr option" where
  "list_rbegin h l = do { ASSERT (l \<noteq> NULL); Some (le_prev (h (list_tail_addr l))) }"

definition list_prev :: "heap \<Rightarrow> addr \<Rightarrow> addr option" where
  "list_prev h e = do { ASSERT (is_interior h e \<or> is_tail h e); Some (le_prev (h e)) }"

definition list_rend :: "addr \<Rightarrow> addr option" where
  "list_rend l = do { ASSERT (l \<noteq> NULL); Some (list_head_addr l) }"

definition list_head :: "addr \<Rightarrow> addr option" where
  "list_head l = do { ASSERT (l \<noteq> NULL); Some (list_head_addr l) }"

definition list_tail :: "addr \<Rightarrow> addr option" where
  "list_tail l = do { ASSERT (l \<noteq> NULL); Some (list_tail_addr l) }"

definition list_insert :: "heap \<Rightarrow> addr \<Rightarrow> addr \<Rightarrow> heap option" where
  "list_insert h before e = do {
     ASSERT (is_interior h before \<or> is_tail h before);
     ASSERT (e \<noteq> NULL);
     let h = set_prev h e (le_prev (h before));
     let h = set_next h e before;
     let h = set_next h (le_prev (h before)) e;
     Some (set_prev h before e) }"

definition list_splice :: "heap \<Rightarrow> addr \<Rightarrow> addr \<Rightarrow> addr \<Rightarrow> heap option" where
  "list_splice h before fst_e last_e = do {
     ASSERT (is_interior h before \<or> is_tail h before);
     if fst_e = last_e then Some h
     else do {
       last_e \<leftarrow> list_prev h last_e;
       ASSERT (is_interior h fst_e);
       ASSERT (is_interior h last_e);
       let h = set_next h (le_prev (h fst_e)) (le_next (h last_e));
       let h = set_prev h (le_next (h last_e)) (le_prev (h fst_e));
       let h = set_prev h fst_e (le_prev (h before));
       let h = set_next h last_e before;
       let h = set_next h (le_prev (h before)) fst_e;
       Some (set_prev h before last_e) } }"

definition list_push_front :: "heap \<Rightarrow> addr \<Rightarrow> addr \<Rightarrow> heap option" where
  "list_push_front h l e = do { b \<leftarrow> list_begin h l; list_insert h b e }"

definition list_push_back :: "heap \<Rightarrow> addr \<Rightarrow> addr \<Rightarrow> heap option" where
  "list_push_back h l e = do { b \<leftarrow> list_end l; list_insert h b e }"

definition list_remove :: "heap \<Rightarrow> addr \<Rightarrow> (heap \<times> addr) option" where
  "list_remove h e = do {
     ASSERT (is_interior h e);
     let h = set_next h (le_prev (h e)) (le_next (h e));
     let h = set_prev h (le_next (h e)) (le_prev (h e));
     Some (h, le_next (h e)) }"

definition list_empty :: "heap \<Rightarrow> addr \<Rightarrow> bool option" where
  "list_empty h l = do { b \<leftarrow> list_begin h l; e \<leftarrow> list_end l; Some (b = e) }"

definition list_front :: "heap \<Rightarrow> addr \<Rightarrow> addr option" where
  "list_front h l = do {
     em \<leftarrow> list_empty h l; ASSERT (\<not> em); Some (le_next (h (list_head_addr l))) }"

definition list_back :: "heap \<Rightarrow> addr \<Rightarrow> addr option" where
  "list_back h l = do {
     em \<leftarrow> list_empty h l; ASSERT (\<not> em); Some (le_prev (h (list_tail_addr l))) }"

definition list_pop_front :: "heap \<Rightarrow> addr \<Rightarrow> (heap \<times> addr) option" where
  "list_pop_front h l = do {
     front \<leftarrow> list_front h l; (h, _) \<leftarrow> list_remove h front; Some (h, front) }"

definition list_pop_back :: "heap \<Rightarrow> addr \<Rightarrow> (heap \<times> addr) option" where
  "list_pop_back h l = do {
     back \<leftarrow> list_back h l; (h, _) \<leftarrow> list_remove h back; Some (h, back) }"

partial_function (option) list_size_loop :: "heap \<Rightarrow> addr \<Rightarrow> addr \<Rightarrow> nat \<Rightarrow> nat option" where
  "list_size_loop h l e cnt = do {
     en \<leftarrow> list_end l;
     if e = en then Some cnt
     else do { e' \<leftarrow> list_next h e; list_size_loop h l e' (Suc cnt) } }"

definition list_size :: "heap \<Rightarrow> addr \<Rightarrow> nat option" where
  "list_size h l = do { e \<leftarrow> list_begin h l; list_size_loop h l e 0 }"

text \<open>\<open>swap (&e->prev, &e->next)\<close> of \<open>list_reverse\<close>, and its loop.\<close>

definition swap_links :: "heap \<Rightarrow> addr \<Rightarrow> heap" where
  "swap_links h e =
     (let t = le_prev (h e); h = set_prev h e (le_next (h e)) in set_next h e t)"

partial_function (option) list_reverse_loop :: "heap \<Rightarrow> addr \<Rightarrow> addr \<Rightarrow> heap option" where
  "list_reverse_loop h l e = do {
     en \<leftarrow> list_end l;
     if e = en then Some h
     else let h = swap_links h e in list_reverse_loop h l (le_prev (h e)) }"

definition list_reverse :: "heap \<Rightarrow> addr \<Rightarrow> heap option" where
  "list_reverse h l = do {
     em \<leftarrow> list_empty h l;
     if em then Some h
     else do {
       e \<leftarrow> list_begin h l;
       h \<leftarrow> list_reverse_loop h l e;
       let hd_e = list_head_addr l;
       let tl_e = list_tail_addr l;
       let t = le_next (h hd_e);
       let h = set_next h hd_e (le_prev (h tl_e));
       let h = set_prev h tl_e t;
       let t = le_prev (h (le_next (h hd_e)));
       let h = set_prev h (le_next (h hd_e)) (le_next (h (le_prev (h tl_e))));
       Some (set_next h (le_prev (h tl_e)) t) } }"


section \<open>Chains of cells\<close>

text \<open>\<open>chain h cells\<close>: consecutive cells are linked to each other in both directions.\<close>

definition link :: "heap \<Rightarrow> addr \<Rightarrow> addr \<Rightarrow> bool" where
  "link h a b \<longleftrightarrow> le_next (h a) = b \<and> le_prev (h b) = a"

fun chain :: "heap \<Rightarrow> addr list \<Rightarrow> bool" where
  "chain h (a # b # cs) \<longleftrightarrow> link h a b \<and> chain h (b # cs)"
| "chain h _ \<longleftrightarrow> True"

lemma chain_append:
  "chain h (xs @ a # b # ys) \<longleftrightarrow> chain h (xs @ [a]) \<and> link h a b \<and> chain h (b # ys)"
proof (induction xs)
  case (Cons x xs)
  then show ?case by (cases xs) auto
qed auto

lemma chain_append_Cons: "chain h (xs @ b # ys) \<longleftrightarrow> chain h (xs @ [b]) \<and> chain h (b # ys)"
  by (cases ys) (simp_all add: chain_append)

lemma chain_snoc: "chain h (xs @ [a, b]) \<longleftrightarrow> chain h (xs @ [a]) \<and> link h a b"
  by (simp add: chain_append)

text \<open>A chain reads the next link of all cells but the last and the previous link of all but the first.\<close>

lemma chain_cong:
  assumes "\<And>x. x \<in> set (butlast cs) \<Longrightarrow> le_next (h' x) = le_next (h x)"
    and "\<And>x. x \<in> set (tl cs) \<Longrightarrow> le_prev (h' x) = le_prev (h x)"
  shows "chain h' cs \<longleftrightarrow> chain h cs"
  using assms
proof (induction h cs rule: chain.induct)
  case (1 h a b cs)
  have "chain h' (b # cs) \<longleftrightarrow> chain h (b # cs)"
    by (rule "1.IH") (use "1.prems" in \<open>auto\<close>)
  then show ?case using "1.prems"(1) [of a] "1.prems"(2) [of b] by (simp add: link_def)
qed auto

section \<open>The list at an address\<close>

definition cells :: "addr \<Rightarrow> addr list \<Rightarrow> addr list" where
  "cells l xs = list_head_addr l # xs @ [list_tail_addr l]"

definition list_at :: "heap \<Rightarrow> addr \<Rightarrow> addr list \<Rightarrow> bool" where
  "list_at h l xs \<longleftrightarrow> chain h (cells l xs) \<and> distinct (cells l xs) \<and> NULL \<notin> set (cells l xs) \<and>
     le_prev (h (list_head_addr l)) = NULL \<and> le_next (h (list_tail_addr l)) = NULL"

lemma list_at_not_NULL: "list_at h l xs \<Longrightarrow> l \<noteq> NULL"
  by (auto simp: list_at_def cells_def list_head_addr_def)

text \<open>The part of the heap a list depends on.\<close>

lemma list_at_frame:
  assumes "list_at h l xs" and "\<And>c. c \<in> set (cells l xs) \<Longrightarrow> h' c = h c"
  shows "list_at h' l xs"
proof -
  have "chain h' (cells l xs) \<longleftrightarrow> chain h (cells l xs)"
    by (rule chain_cong) (auto simp: assms(2) dest: in_set_butlastD in_set_tl)
  then show ?thesis using assms by (auto simp: list_at_def cells_def)
qed

text \<open>
  Any position of the list splits its cells: the cell before it, the cell after it and the
  rest on both sides.
\<close>

lemma cells_before:
  obtains P a where "list_head_addr l # xs = P @ [a]" "last (list_head_addr l # xs) = a"
    "\<And>zs. cells l (xs @ zs) = P @ a # zs @ [list_tail_addr l]"
proof
  let ?P = "butlast (list_head_addr l # xs)" and ?a = "last (list_head_addr l # xs)"
  show *: "list_head_addr l # xs = ?P @ [?a]"
    by (rule append_butlast_last_id [symmetric]) simp
  show "last (list_head_addr l # xs) = ?a" ..
  fix zs
  have "cells l (xs @ zs) = (list_head_addr l # xs) @ zs @ [list_tail_addr l]"
    by (simp add: cells_def)
  then show "cells l (xs @ zs) = ?P @ ?a # zs @ [list_tail_addr l]"
    by (subst (asm) *) simp
qed

lemma cells_after:
  obtains b Q where "ys @ [list_tail_addr l] = b # Q" "hd (ys @ [list_tail_addr l]) = b"
    "\<And>zs. cells l (zs @ ys) = list_head_addr l # zs @ b # Q"
  by (cases ys) (auto simp: cells_def)

lemma cells_around:
  obtains P a b Q where "list_head_addr l # xs = P @ [a]" "last (list_head_addr l # xs) = a"
    "ys @ [list_tail_addr l] = b # Q" "hd (ys @ [list_tail_addr l]) = b"
    "\<And>zs. cells l (xs @ zs @ ys) = P @ a # zs @ b # Q"
proof -
  obtain P a where 1: "list_head_addr l # xs = P @ [a]" "last (list_head_addr l # xs) = a"
    and 2: "\<And>zs. cells l (xs @ zs) = P @ a # zs @ [list_tail_addr l]"
    by (rule cells_before [of l xs]) blast
  obtain b Q where 3: "ys @ [list_tail_addr l] = b # Q" "hd (ys @ [list_tail_addr l]) = b"
    by (rule cells_after [of ys l]) blast
  show ?thesis using that [OF 1 3] 2 3 by simp
qed

lemma list_at_interior:
  assumes "list_at h l (xs @ e # ys)"
  shows "is_interior h e" "le_prev (h e) = last (list_head_addr l # xs)"
    "le_next (h e) = hd (ys @ [list_tail_addr l])"
proof -
  obtain P a b Q where ab: "last (list_head_addr l # xs) = a" "hd (ys @ [list_tail_addr l]) = b"
    and c: "\<And>zs. cells l (xs @ zs @ ys) = P @ a # zs @ b # Q"
    by (rule cells_around [of l xs ys]) blast
  have "list_at h l (xs @ [e] @ ys)" using assms by simp
  then have "link h a e" "link h e b" "NULL \<notin> {a, e, b}"
    unfolding list_at_def c by (simp_all add: chain_append)
  then show "is_interior h e" "le_prev (h e) = last (list_head_addr l # xs)"
    "le_next (h e) = hd (ys @ [list_tail_addr l])"
    unfolding ab by (simp_all add: link_def is_interior_def)
qed

lemma list_at_tail:
  assumes "list_at h l xs"
  shows "is_tail h (list_tail_addr l)" "le_prev (h (list_tail_addr l)) = last (list_head_addr l # xs)"
proof -
  obtain P a where a: "last (list_head_addr l # xs) = a"
    and c: "\<And>zs. cells l (xs @ zs) = P @ a # zs @ [list_tail_addr l]"
    by (rule cells_before [of l xs]) blast
  have "link h a (list_tail_addr l)" "NULL \<notin> {a, list_tail_addr l}"
    using assms c [of "[]"] unfolding list_at_def by (auto simp: chain_append)
  then show "is_tail h (list_tail_addr l)"
    "le_prev (h (list_tail_addr l)) = last (list_head_addr l # xs)"
    using assms unfolding a by (simp_all add: is_tail_def link_def list_at_def)
qed

lemma list_at_begin:
  assumes "list_at h l xs"
  shows "is_head h (list_head_addr l)" "list_begin h l = Some (hd (xs @ [list_tail_addr l]))"
    "list_end l = Some (list_tail_addr l)"
proof -
  obtain b Q where b: "hd (xs @ [list_tail_addr l]) = b"
    and c: "\<And>zs. cells l (zs @ xs) = list_head_addr l # zs @ b # Q"
    by (rule cells_after [of xs l]) blast
  have "link h (list_head_addr l) b" "NULL \<notin> {list_head_addr l, b}"
    using assms c [of "[]"] unfolding list_at_def by auto
  moreover have "l \<noteq> NULL" using assms by (rule list_at_not_NULL)
  ultimately show "is_head h (list_head_addr l)"
    "list_begin h l = Some (hd (xs @ [list_tail_addr l]))" "list_end l = Some (list_tail_addr l)"
    using assms unfolding b by (simp_all add: is_head_def list_begin_def list_end_def link_def list_at_def)
qed

lemma list_at_elem_not_end:
  "list_at h l xs \<Longrightarrow> e \<in> set xs \<Longrightarrow> e \<noteq> list_tail_addr l \<and> e \<noteq> list_head_addr l \<and> e \<noteq> NULL"
  by (auto simp: list_at_def cells_def intro: gr0I)

lemma list_at_distinct: "list_at h l xs \<Longrightarrow> distinct xs"
  by (simp add: list_at_def cells_def)

lemma list_at_next:
  "list_at h l (xs @ e # ys) \<Longrightarrow> list_next h e = Some (hd (ys @ [list_tail_addr l]))"
  by (simp add: list_next_def list_at_interior)

lemma list_at_prev:
  "list_at h l (xs @ e # ys) \<Longrightarrow> list_prev h e = Some (last (list_head_addr l # xs))"
  by (simp add: list_prev_def list_at_interior)


section \<open>Effect of the operations on the list\<close>

theorem list_init_spec:
  assumes "l \<noteq> NULL"
  obtains h' where "list_init h l = Some h'" "list_at h' l []"
    "\<And>c. c \<notin> set (cells l []) \<Longrightarrow> h' c = h c"
  using assms that
  by (force simp: list_init_def list_at_def cells_def link_def list_head_addr_def list_tail_addr_def
      set_prev_def set_next_def)

text \<open>Two halves of a chain are unaffected by changes at their meeting cells.\<close>

lemma chain_prefix_cong:
  assumes "chain h (P @ [a])"
    and "\<And>x. x \<in> set P \<Longrightarrow> le_next (h' x) = le_next (h x)"
    and "\<And>x. x \<in> set (P @ [a]) \<Longrightarrow> le_prev (h' x) = le_prev (h x)"
  shows "chain h' (P @ [a])"
proof -
  have "chain h' (P @ [a]) \<longleftrightarrow> chain h (P @ [a])"
    by (rule chain_cong) (use assms in \<open>auto dest: in_set_tl\<close>)
  then show ?thesis using assms by simp
qed

lemma chain_suffix_cong:
  assumes "chain h (b # Q)"
    and "\<And>x. x \<in> set (b # Q) \<Longrightarrow> le_next (h' x) = le_next (h x)"
    and "\<And>x. x \<in> set Q \<Longrightarrow> le_prev (h' x) = le_prev (h x)"
  shows "chain h' (b # Q)"
proof -
  have "chain h' (b # Q) \<longleftrightarrow> chain h (b # Q)"
    by (rule chain_cong) (use assms in \<open>auto dest: in_set_butlastD split: if_splits\<close>)
  then show ?thesis using assms by simp
qed

lemma chain_insert:
  assumes ch: "chain h (P @ a # b # Q)" and d: "distinct (P @ a # b # Q)"
    and e: "e \<notin> set (P @ a # b # Q)" "e \<noteq> NULL" and b: "is_interior h b \<or> is_tail h b"
  obtains h' where "list_insert h b e = Some h'" "chain h' (P @ a # e # b # Q)"
    "\<And>c. c \<notin> {a, e, b} \<Longrightarrow> h' c = h c" "le_prev (h' a) = le_prev (h a)" "le_next (h' b) = le_next (h b)"
proof -
  let ?h1 = "set_next (set_prev h e (le_prev (h b))) e b"
  let ?h = "set_prev (set_next ?h1 a e) b e"
  have ab: "le_prev (h b) = a" using ch by (simp add: chain_append link_def)
  have "list_insert h b e = Some ?h"
    using ab b e d by (simp add: list_insert_def Let_def)
  moreover have "chain ?h (P @ a # e # b # Q)"
    unfolding chain_append chain.simps
  proof (intro conjI)
    show "chain ?h (P @ [a])"
      by (rule chain_prefix_cong [of h]) (use ch d e in \<open>auto simp: chain_append\<close>)
    show "link ?h a e" "link ?h e b" using d e ab by (auto simp: link_def)
    show "chain ?h (b # Q)"
      by (rule chain_suffix_cong [of h]) (use ch d e in \<open>auto simp: chain_append\<close>)
  qed
  moreover have "c \<notin> {a, e, b} \<Longrightarrow> ?h c = h c" for c by (simp add: set_prev_def set_next_def)
  moreover have "le_prev (?h a) = le_prev (h a)" "le_next (?h b) = le_next (h b)"
    using d e by auto
  ultimately show ?thesis by (rule that)
qed

theorem list_insert_spec:
  assumes l: "list_at h l (xs @ ys)" and e: "e \<notin> set (cells l (xs @ ys))" "e \<noteq> NULL"
    and b: "before = hd (ys @ [list_tail_addr l])"
  obtains h' where "list_insert h before e = Some h'" "list_at h' l (xs @ e # ys)"
    "\<And>c. c \<notin> set (cells l (xs @ e # ys)) \<Longrightarrow> h' c = h c"
proof -
  obtain P a b' Q where hq: "list_head_addr l # xs = P @ [a]"
    and yq: "ys @ [list_tail_addr l] = b' # Q" and ab: "hd (ys @ [list_tail_addr l]) = b'"
    and c: "\<And>zs. cells l (xs @ zs @ ys) = P @ a # zs @ b' # Q"
    by (rule cells_around [of l xs ys]) blast
  have l': "chain h (P @ a # b' # Q)" "distinct (P @ a # b' # Q)"
      "e \<notin> set (P @ a # b' # Q)" "NULL \<notin> set (P @ a # b' # Q)"
    using l e c [of "[]"] by (simp_all add: list_at_def)
  have "is_interior h b' \<or> is_tail h b'"
  proof (cases ys)
    case Nil then show ?thesis using list_at_tail [OF l] ab by simp
  next
    case (Cons y ys') then show ?thesis using list_at_interior [of h l xs y ys'] l ab by simp
  qed
  from chain_insert [OF l'(1,2,3) e(2) this] obtain h' where
    h': "list_insert h b' e = Some h'" "chain h' (P @ a # e # b' # Q)"
    "\<And>c. c \<notin> {a, e, b'} \<Longrightarrow> h' c = h c" "le_prev (h' a) = le_prev (h a)" "le_next (h' b') = le_next (h b')"
    by blast
  have ce: "cells l (xs @ e # ys) = P @ a # e # b' # Q" using c [of "[e]"] by simp
  have hd: "list_head_addr l \<in> set (P @ [a])" "list_tail_addr l \<in> set (b' # Q)"
    by (metis hq list.set_intros(1), metis yq in_set_conv_decomp)
  have pn: "le_prev (h' (list_head_addr l)) = NULL" "le_next (h' (list_tail_addr l)) = NULL"
    using hd l l' h'(3-5) e by (auto simp: list_at_def) (metis h'(3) insert_iff singletonD)+
  have "list_at h' l (xs @ e # ys)"
    using h'(2) l' e(2) pn unfolding list_at_def ce by auto
  then show ?thesis using that h' b ab ce by auto
qed


text \<open>Pushing at either end.\<close>

theorem list_push_back_spec:
  assumes l: "list_at h l xs" and e: "e \<notin> set (cells l xs)" "e \<noteq> NULL"
  obtains h' where "list_push_back h l e = Some h'" "list_at h' l (xs @ [e])"
    "\<And>c. c \<notin> set (cells l (xs @ [e])) \<Longrightarrow> h' c = h c"
proof -
  obtain h' where "list_insert h (list_tail_addr l) e = Some h'" "list_at h' l (xs @ [e])"
    "\<And>c. c \<notin> set (cells l (xs @ [e])) \<Longrightarrow> h' c = h c"
    by (rule list_insert_spec [of h l xs "[]" e "list_tail_addr l"]) (use assms in auto)
  then show ?thesis using that list_at_begin(3) [OF l] by (simp add: list_push_back_def)
qed

theorem list_push_front_spec:
  assumes l: "list_at h l xs" and e: "e \<notin> set (cells l xs)" "e \<noteq> NULL"
  obtains h' where "list_push_front h l e = Some h'" "list_at h' l (e # xs)"
    "\<And>c. c \<notin> set (cells l (e # xs)) \<Longrightarrow> h' c = h c"
proof -
  obtain h' where "list_insert h (hd (xs @ [list_tail_addr l])) e = Some h'" "list_at h' l (e # xs)"
    "\<And>c. c \<notin> set (cells l (e # xs)) \<Longrightarrow> h' c = h c"
    by (rule list_insert_spec [of h l "[]" xs e "hd (xs @ [list_tail_addr l])"]) (use assms in auto)
  then show ?thesis using that list_at_begin(2) [OF l] by (simp add: list_push_front_def)
qed

text \<open>Removing.\<close>

lemma chain_remove:
  assumes ch: "chain h (P @ a # e # b # Q)" and d: "distinct (P @ a # e # b # Q)"
    and e: "is_interior h e"
  obtains h' where "list_remove h e = Some (h', b)" "chain h' (P @ a # b # Q)"
    "\<And>c. c \<notin> {a, b} \<Longrightarrow> h' c = h c" "le_prev (h' a) = le_prev (h a)" "le_next (h' b) = le_next (h b)"
proof -
  let ?h = "set_prev (set_next h a b) b a"
  have ab: "le_prev (h e) = a" "le_next (h e) = b" using ch by (simp_all add: chain_append link_def)
  have "list_remove h e = Some (?h, b)"
    using ab e d by (simp add: list_remove_def Let_def)
  moreover have "chain ?h (P @ a # b # Q)"
    unfolding chain_append chain.simps
  proof (intro conjI)
    show "chain ?h (P @ [a])"
      by (rule chain_prefix_cong [of h]) (use ch d in \<open>auto simp: chain_append\<close>)
    show "link ?h a b" using d by (auto simp: link_def)
    show "chain ?h (b # Q)"
      by (rule chain_suffix_cong [of h]) (use ch d in \<open>auto simp: chain_append\<close>)
  qed
  moreover have "c \<notin> {a, b} \<Longrightarrow> ?h c = h c" for c by (simp add: set_prev_def set_next_def)
  moreover have "le_prev (?h a) = le_prev (h a)" "le_next (?h b) = le_next (h b)"
    using d by auto
  ultimately show ?thesis by (rule that)
qed

theorem list_remove_spec:
  assumes l: "list_at h l (xs @ e # ys)"
  obtains h' where "list_remove h e = Some (h', hd (ys @ [list_tail_addr l]))"
    "list_at h' l (xs @ ys)" "\<And>c. c \<notin> set (cells l (xs @ ys)) \<Longrightarrow> h' c = h c"
proof -
  obtain P a b Q where hq: "list_head_addr l # xs = P @ [a]"
    and yq: "ys @ [list_tail_addr l] = b # Q" and ab: "hd (ys @ [list_tail_addr l]) = b"
    and c: "\<And>zs. cells l (xs @ zs @ ys) = P @ a # zs @ b # Q"
    by (rule cells_around [of l xs ys]) blast
  have l': "chain h (P @ a # e # b # Q)" "distinct (P @ a # e # b # Q)" "NULL \<notin> set (P @ a # e # b # Q)"
    using l c [of "[e]"] by (simp_all add: list_at_def)
  from chain_remove [OF l'(1,2) list_at_interior(1) [OF l]] obtain h' where
    h': "list_remove h e = Some (h', b)" "chain h' (P @ a # b # Q)"
    "\<And>c. c \<notin> {a, b} \<Longrightarrow> h' c = h c" "le_prev (h' a) = le_prev (h a)" "le_next (h' b) = le_next (h b)"
    by blast
  have ce: "cells l (xs @ ys) = P @ a # b # Q" using c [of "[]"] by simp
  have hd: "list_head_addr l \<in> set (P @ [a])" "list_tail_addr l \<in> set (b # Q)"
    by (metis hq list.set_intros(1), metis yq in_set_conv_decomp)
  have "le_prev (h' (list_head_addr l)) = NULL" "le_next (h' (list_tail_addr l)) = NULL"
    using hd l l' h'(3-5) by (auto simp: list_at_def) (metis h'(3) insert_iff singletonD)+
  then have "list_at h' l (xs @ ys)"
    using h'(2) l' unfolding list_at_def ce by auto
  then show ?thesis using that h' ab ce by auto
qed

lemma list_empty_spec: "list_at h l xs \<Longrightarrow> list_empty h l = Some (xs = [])"
  by (cases xs) (auto simp: list_empty_def list_at_begin dest: list_at_elem_not_end)

lemma list_front_spec: "list_at h l (x # xs) \<Longrightarrow> list_front h l = Some x"
  using list_at_begin(2) [of h l "x # xs"]
  by (simp add: list_front_def list_empty_spec list_begin_def split: if_splits)

lemma list_back_spec: "list_at h l (xs @ [x]) \<Longrightarrow> list_back h l = Some x"
  by (simp add: list_back_def list_empty_spec list_at_tail)

text \<open>The front and the back of an empty list are a panic.\<close>

lemma list_pop_empty:
  "list_at h l [] \<Longrightarrow> list_front h l = None \<and> list_back h l = None \<and>
     list_pop_front h l = None \<and> list_pop_back h l = None"
  by (simp add: list_front_def list_back_def list_pop_front_def list_pop_back_def list_empty_spec)

theorem list_pop_front_spec:
  assumes l: "list_at h l (x # xs)"
  obtains h' where "list_pop_front h l = Some (h', x)" "list_at h' l xs"
    "\<And>c. c \<notin> set (cells l xs) \<Longrightarrow> h' c = h c"
proof -
  obtain h' where "list_remove h x = Some (h', hd (xs @ [list_tail_addr l]))" "list_at h' l xs"
    "\<And>c. c \<notin> set (cells l xs) \<Longrightarrow> h' c = h c"
    by (rule list_remove_spec [of h l "[]" x xs]) (use l in auto)
  then show ?thesis using that list_front_spec [OF l] by (simp add: list_pop_front_def)
qed

theorem list_pop_back_spec:
  assumes l: "list_at h l (xs @ [x])"
  obtains h' where "list_pop_back h l = Some (h', x)" "list_at h' l xs"
    "\<And>c. c \<notin> set (cells l xs) \<Longrightarrow> h' c = h c"
proof -
  obtain h' where "list_remove h x = Some (h', list_tail_addr l)" "list_at h' l xs"
    "\<And>c. c \<notin> set (cells l xs) \<Longrightarrow> h' c = h c"
    by (rule list_remove_spec [of h l xs x "[]"]) (use l in auto)
  then show ?thesis using that list_back_spec [OF l] by (simp add: list_pop_back_def)
qed

text \<open>Walking the list to its end.\<close>

lemma list_size_loop_spec:
  "list_at h l (xs @ ys) \<Longrightarrow>
     list_size_loop h l (hd (ys @ [list_tail_addr l])) n = Some (n + length ys)"
proof (induction ys arbitrary: xs n)
  case Nil
  then show ?case by (subst list_size_loop.simps) (simp add: list_at_begin)
next
  case (Cons y ys)
  have "y \<noteq> list_tail_addr l" using Cons.prems by (auto dest: list_at_elem_not_end)
  moreover have "list_size_loop h l (hd (ys @ [list_tail_addr l])) (Suc n) = Some (Suc n + length ys)"
    using Cons.IH [of "xs @ [y]"] Cons.prems by simp
  ultimately show ?case using Cons.prems
    by (subst list_size_loop.simps) (simp add: list_at_begin(3) list_at_next)
qed

theorem list_size_spec: "list_at h l xs \<Longrightarrow> list_size h l = Some (length xs)"
  using list_size_loop_spec [of h l "[]" xs 0] by (simp add: list_size_def list_at_begin)

end
