(* ===== verification/KListSort.thy ===== *)
theory KListSort
  imports KList Runs
begin

text \<open>
  The second half of lib/kernel/list.c: splicing, reversing, and the operations on ordered
  lists (sort, ordered insertion, uniqueness, maximum and minimum). The comparison function
  \<open>lt\<close> takes the addresses of two elements; what it reads of the enclosing structures does
  not change during a call.
\<close>

section \<open>Splicing\<close>

lemma chain_append2:
  "xs \<noteq> [] \<Longrightarrow> ys \<noteq> [] \<Longrightarrow> chain h (xs @ ys) \<longleftrightarrow> chain h xs \<and> link h (last xs) (hd ys) \<and> chain h ys"
proof -
  assume "xs \<noteq> []" "ys \<noteq> []"
  then have "xs @ ys = butlast xs @ last xs # hd ys # tl ys" by simp
  moreover have "chain h (butlast xs @ [last xs]) \<longleftrightarrow> chain h xs" "hd ys # tl ys = ys"
    using \<open>xs \<noteq> []\<close> \<open>ys \<noteq> []\<close> by simp_all
  ultimately show ?thesis by (metis chain_append)
qed

lemma distinct_last_butlast: "distinct xs \<Longrightarrow> xs \<noteq> [] \<Longrightarrow> last xs \<notin> set (butlast xs)"
  by (induction xs rule: rev_induct) auto

lemma distinct_hd_tl': "distinct xs \<Longrightarrow> xs \<noteq> [] \<Longrightarrow> hd xs \<notin> set (tl xs)"
  by (cases xs) auto

text \<open>A segment keeps its inner links when only its outer ones change.\<close>

lemma chain_segment_cong:
  assumes "chain h F" and "distinct F"
    and "\<And>x. x \<in> set F \<Longrightarrow> x \<noteq> last F \<Longrightarrow> le_next (h' x) = le_next (h x)"
    and "\<And>x. x \<in> set F \<Longrightarrow> x \<noteq> hd F \<Longrightarrow> le_prev (h' x) = le_prev (h x)"
  shows "chain h' F"
proof (cases "F = []")
  case False
  have "chain h' F \<longleftrightarrow> chain h F"
  proof (rule chain_cong)
    fix x assume "x \<in> set (butlast F)"
    then show "le_next (h' x) = le_next (h x)"
      using assms(3) [of x] distinct_last_butlast [OF assms(2) False] by (auto dest: in_set_butlastD)
  next
    fix x assume "x \<in> set (tl F)"
    then show "le_prev (h' x) = le_prev (h x)"
      using assms(4) [of x] distinct_hd_tl' [OF assms(2) False] by (auto dest: in_set_tl)
  qed
  with assms(1) show ?thesis by simp
qed simp

lemma chain_splice_same:
  assumes ch: "chain h (P @ a # D @ F @ b # Q)" and d: "distinct (P @ a # D @ F @ b # Q)"
    and ne: "D \<noteq> []" "F \<noteq> []"
    and int: "is_interior h (hd D)" "is_interior h (hd F)" "is_interior h (last F)"
      "is_interior h b \<or> is_tail h b"
  obtains h' where "list_splice h (hd D) (hd F) b = Some h'" "chain h' (P @ a # F @ D @ b # Q)"
    "\<And>c. c \<notin> set (a # D @ F @ [b]) \<Longrightarrow> h' c = h c" "le_prev (h' a) = le_prev (h a)"
    "le_next (h' b) = le_next (h b)"
proof -
  define d0 d1 f0 f1 where ends: "d0 = hd D" "d1 = last D" "f0 = hd F" "f1 = last F"
  have mem: "d0 \<in> set D" "d1 \<in> set D" "f0 \<in> set F" "f1 \<in> set F" using ne by (simp_all add: ends)
  have l: "chain h (P @ [a])" "link h a d0" "chain h D" "link h d1 f0" "chain h F" "link h f1 b"
    "chain h (b # Q)"
    using ch ne chain_append2 [of "P @ [a]" "D @ F @ b # Q" h] chain_append2 [of D "F @ b # Q" h]
      chain_append2 [of F "b # Q" h] by (simp_all add: ends)
  define h' where "h' = set_prev (set_next (set_next (set_prev (set_prev (set_next h d1 b) b d1)
    f0 a) f1 d0) a f0) d0 f1"
  have neq: "d0 \<noteq> a" "d0 \<noteq> b" "f1 \<noteq> b" "f0 \<noteq> b" "f0 \<noteq> a" "f1 \<noteq> a" "d1 \<noteq> b" "a \<noteq> b" "d1 \<noteq> a"
    "f0 \<noteq> d0" "f1 \<noteq> d1" "f0 \<noteq> d1" "f1 \<noteq> d0"
    using d mem by auto
  have "list_splice h d0 f0 b = Some h'"
    using int l neq unfolding ends(1,3) [symmetric] ends(4) [symmetric]
    by (simp add: list_splice_def list_prev_def link_def Let_def h'_def)
  moreover have "chain h' (P @ a # F @ D @ b # Q)"
  proof -
    have "chain h' (P @ [a])"
      by (rule chain_prefix_cong [OF l(1)]) (use d mem in \<open>auto simp: h'_def\<close>)
    moreover have "link h' a f0" "link h' f1 d0" "link h' d1 b"
      using neq d by (auto simp: link_def h'_def)
    moreover have "chain h' F"
      by (rule chain_segment_cong [OF l(5)]) (use d mem ends in \<open>auto simp: h'_def\<close>)
    moreover have "chain h' D"
      by (rule chain_segment_cong [OF l(3)]) (use d mem ends in \<open>auto simp: h'_def\<close>)
    moreover have "chain h' (b # Q)"
      by (rule chain_suffix_cong [OF l(7)]) (use d mem in \<open>auto simp: h'_def\<close>)
    ultimately show ?thesis
      using ne chain_append2 [of "P @ [a]" "F @ D @ b # Q" h'] chain_append2 [of F "D @ b # Q" h']
        chain_append2 [of D "b # Q" h'] by (simp add: ends)
  qed
  moreover have "c \<notin> set (a # D @ F @ [b]) \<Longrightarrow> h' c = h c" for c
    using mem by (auto simp: h'_def set_prev_def set_next_def)
  moreover have "le_prev (h' a) = le_prev (h a)" "le_next (h' b) = le_next (h b)"
    using neq by (auto simp: h'_def)
  ultimately show ?thesis using that by (simp add: ends)
qed

lemma list_at_interior_mem: "list_at h l xs \<Longrightarrow> e \<in> set xs \<Longrightarrow> is_interior h e"
  by (auto dest!: split_list list_at_interior(1))

lemma list_at_after_interior:
  "list_at h l (xs @ ys) \<Longrightarrow> is_interior h (hd (ys @ [list_tail_addr l])) \<or> is_tail h (hd (ys @ [list_tail_addr l]))"
  by (cases ys) (auto simp: list_at_tail list_at_interior)

text \<open>Moving a segment of a list to a place before it in the same list.\<close>

theorem list_splice_same_spec:
  assumes l: "list_at h l (xs @ D @ F @ ys)" and ne: "D \<noteq> []" "F \<noteq> []"
  obtains h' where "list_splice h (hd D) (hd F) (hd (ys @ [list_tail_addr l])) = Some h'"
    "list_at h' l (xs @ F @ D @ ys)" "\<And>c. c \<notin> set (cells l (xs @ D @ F @ ys)) \<Longrightarrow> h' c = h c"
proof -
  obtain P a b Q where hq: "list_head_addr l # xs = P @ [a]"
    and yq: "ys @ [list_tail_addr l] = b # Q" and ab: "hd (ys @ [list_tail_addr l]) = b"
    and c: "\<And>zs. cells l (xs @ zs @ ys) = P @ a # zs @ b # Q"
    by (rule cells_around [of l xs ys]) blast
  have l': "chain h (P @ a # D @ F @ b # Q)" "distinct (P @ a # D @ F @ b # Q)"
      "NULL \<notin> set (P @ a # D @ F @ b # Q)"
    using l c [of "D @ F"] by (simp_all add: list_at_def)
  have "is_interior h (hd D)" "is_interior h (hd F)" "is_interior h (last F)"
    using list_at_interior_mem [OF l] ne by simp_all
  moreover have "is_interior h b \<or> is_tail h b"
    using list_at_after_interior [of h l "xs @ D @ F" ys] l ab by simp
  ultimately obtain h' where
    h': "list_splice h (hd D) (hd F) b = Some h'" "chain h' (P @ a # F @ D @ b # Q)"
    "\<And>c. c \<notin> set (a # D @ F @ [b]) \<Longrightarrow> h' c = h c" "le_prev (h' a) = le_prev (h a)"
    "le_next (h' b) = le_next (h b)"
    using chain_splice_same [OF l'(1,2) ne] by blast
  have ce: "cells l (xs @ F @ D @ ys) = P @ a # F @ D @ b # Q" using c [of "F @ D"] by simp
  have hd: "list_head_addr l \<in> set (P @ [a])" "list_tail_addr l \<in> set (b # Q)"
    by (metis hq list.set_intros(1), metis yq in_set_conv_decomp)
  have "le_prev (h' x) = le_prev (h x)" if "x \<in> set (P @ [a])" for x
    by (cases "x = a", use h'(4) in simp, subst h'(3), use that l'(2) in auto)
  moreover have "le_next (h' x) = le_next (h x)" if "x \<in> set (b # Q)" for x
    by (cases "x = b", use h'(5) in simp, subst h'(3), use that l'(2) in auto)
  ultimately have "list_at h' l (xs @ F @ D @ ys)"
    using h'(2) l l' hd unfolding list_at_def ce by auto
  moreover have "c \<notin> set (cells l (xs @ D @ F @ ys)) \<Longrightarrow> h' c = h c" for c
    using h'(3) [of c] c [of "D @ F"] by simp
  ultimately show ?thesis using that h'(1) ab by simp
qed


section \<open>Reversing\<close>

lemma swap_links_simps [simp]:
  "le_prev (swap_links h e x) = (if x = e then le_next (h e) else le_prev (h x))"
  "le_next (swap_links h e x) = (if x = e then le_prev (h e) else le_next (h x))"
  by (simp_all add: swap_links_def Let_def)

lemma list_elem_eqI: "le_prev x = le_prev y \<Longrightarrow> le_next x = le_next y \<Longrightarrow> x = (y::list_elem)"
  by (cases x; cases y) simp

text \<open>The loop swaps the two links of every element and stops at the tail.\<close>

lemma list_reverse_loop_spec:
  assumes "l \<noteq> NULL" "chain h (ys @ [list_tail_addr l])" "distinct (ys @ [list_tail_addr l])"
  shows "\<exists>g. list_reverse_loop h l (hd (ys @ [list_tail_addr l])) = Some g \<and>
    (\<forall>x. le_prev (g x) = (if x \<in> set ys then le_next (h x) else le_prev (h x)) \<and>
         le_next (g x) = (if x \<in> set ys then le_prev (h x) else le_next (h x)))"
  using assms
proof (induction ys arbitrary: h)
  case Nil
  then show ?case by (subst list_reverse_loop.simps) (simp add: list_end_def)
next
  case (Cons y ys)
  let ?h = "swap_links h y"
  have n: "le_next (h y) = hd (ys @ [list_tail_addr l])" "chain h (ys @ [list_tail_addr l])"
    using Cons.prems(2) by (cases ys; simp add: link_def)+
  have "chain ?h (ys @ [list_tail_addr l]) \<longleftrightarrow> chain h (ys @ [list_tail_addr l])"
    by (rule chain_cong) (use Cons.prems(3) in \<open>auto dest: in_set_tl\<close>)
  with Cons.IH [of ?h] n Cons.prems obtain g where
    "list_reverse_loop ?h l (hd (ys @ [list_tail_addr l])) = Some g"
    "\<forall>x. le_prev (g x) = (if x \<in> set ys then le_next (?h x) else le_prev (?h x)) \<and>
         le_next (g x) = (if x \<in> set ys then le_prev (?h x) else le_next (?h x))"
    by auto
  then show ?case using Cons.prems n(1)
    by (subst list_reverse_loop.simps) (auto simp: list_end_def Let_def)
qed

lemma chain_rev:
  assumes "chain h xs"
    and "\<And>x. x \<in> set xs \<Longrightarrow> le_next (g x) = le_prev (h x) \<and> le_prev (g x) = le_next (h x)"
  shows "chain g (rev xs)"
  using assms
proof (induction h xs rule: chain.induct)
  case (1 h a b cs)
  then have "chain g (rev (b # cs))" by auto
  then show ?case using "1.prems" by (auto simp: chain_snoc link_def)
qed auto

theorem list_reverse_spec:
  assumes l: "list_at h l xs"
  obtains h' where "list_reverse h l = Some h'" "list_at h' l (rev xs)"
    "\<And>c. c \<notin> set (cells l xs) \<Longrightarrow> h' c = h c"
proof (cases "xs = []")
  case True
  then show ?thesis using l that by (simp add: list_reverse_def list_empty_spec)
next
  case False
  define hd_e tl_e where e: "hd_e = list_head_addr l" "tl_e = list_tail_addr l"
  have l0: "l \<noteq> NULL" using l by (rule list_at_not_NULL)
  have c: "chain h (hd_e # xs @ [tl_e])" "distinct (hd_e # xs @ [tl_e])"
    using l by (simp_all add: list_at_def cells_def e)
  then have cx: "chain h xs" "chain h (xs @ [tl_e])" "link h hd_e (hd xs)" "link h (last xs) tl_e"
    using False chain_append2 [of "[hd_e]" "xs @ [tl_e]" h] chain_append2 [of xs "[tl_e]" h] by auto
  obtain g where g: "list_reverse_loop h l (hd xs) = Some g"
    "\<And>x. le_prev (g x) = (if x \<in> set xs then le_next (h x) else le_prev (h x))"
    "\<And>x. le_next (g x) = (if x \<in> set xs then le_prev (h x) else le_next (h x))"
    using list_reverse_loop_spec [of l h xs] l0 cx(2) c(2) False by (auto simp: e)
  define a z where az: "a = hd xs" "z = last xs"
  have m: "a \<in> set xs" "z \<in> set xs" using False by (simp_all add: az)
  then have ne: "a \<noteq> hd_e" "z \<noteq> hd_e" "a \<noteq> tl_e" "z \<noteq> tl_e" "hd_e \<noteq> tl_e" using c(2) by auto
  define h' where "h' = set_next (set_prev (set_prev (set_next g hd_e z) tl_e a) z hd_e) a tl_e"
  have gl: "le_next (g hd_e) = a" "le_prev (g tl_e) = z" "le_prev (g z) = tl_e" "le_next (g a) = hd_e"
    using cx(3,4) c(2) m by (auto simp: g link_def az)
  have "list_reverse h l = Some h'"
    using l False g(1) gl ne
    by (simp add: list_reverse_def list_empty_spec list_at_begin Let_def h'_def az(1) e [symmetric])
  moreover have "list_at h' l (rev xs)"
  proof -
    have "chain g (rev xs)" by (rule chain_rev [OF cx(1)]) (simp add: g)
    then have "chain h' (rev xs)"
      by (rule chain_segment_cong) (use c(2) False in \<open>auto simp: h'_def az last_rev hd_rev\<close>)
    moreover have "link h' hd_e (hd (rev xs))" "link h' (last (rev xs)) tl_e"
      using ne False by (auto simp: link_def h'_def az hd_rev last_rev)
    ultimately have "chain h' (hd_e # rev xs @ [tl_e])"
      using False chain_append2 [of "[hd_e]" "rev xs @ [tl_e]" h'] chain_append2 [of "rev xs" "[tl_e]" h']
      by simp
    moreover have "le_prev (h' hd_e) = NULL" "le_next (h' tl_e) = NULL"
      using l c(2) ne by (auto simp: h'_def g list_at_def e)
    ultimately show ?thesis using l by (auto simp: list_at_def cells_def e)
  qed
  moreover have "h' x = h x" if "x \<notin> set (cells l xs)" for x
  proof -
    have "g x = h x" using that by (intro list_elem_eqI) (simp_all add: g cells_def)
    then show ?thesis using that m by (auto simp: h'_def set_prev_def set_next_def cells_def e)
  qed
  ultimately show ?thesis using that by blast
qed


section \<open>Operations on ordered lists\<close>

type_synonym less_func = "addr \<Rightarrow> addr \<Rightarrow> bool"

partial_function (option) is_sorted_loop :: "heap \<Rightarrow> less_func \<Rightarrow> addr \<Rightarrow> addr \<Rightarrow> bool option" where
  "is_sorted_loop h lt a b = do {
     a \<leftarrow> list_next h a;
     if a = b then Some True
     else do {
       p \<leftarrow> list_prev h a;
       if lt a p then Some False else is_sorted_loop h lt a b } }"

definition is_sorted :: "heap \<Rightarrow> less_func \<Rightarrow> addr \<Rightarrow> addr \<Rightarrow> bool option" where
  "is_sorted h lt a b = (if a \<noteq> b then is_sorted_loop h lt a b else Some True)"

partial_function (option) end_of_run_loop :: "heap \<Rightarrow> less_func \<Rightarrow> addr \<Rightarrow> addr \<Rightarrow> addr option" where
  "end_of_run_loop h lt a b = do {
     a \<leftarrow> list_next h a;
     if a \<noteq> b
     then do { p \<leftarrow> list_prev h a; if \<not> lt a p then end_of_run_loop h lt a b else Some a }
     else Some a }"

definition find_end_of_run :: "heap \<Rightarrow> less_func \<Rightarrow> addr \<Rightarrow> addr \<Rightarrow> addr option" where
  "find_end_of_run h lt a b = do {
     ASSERT (a \<noteq> NULL); ASSERT (b \<noteq> NULL); ASSERT (a \<noteq> b); end_of_run_loop h lt a b }"

partial_function (option) inplace_merge_loop ::
    "heap \<Rightarrow> less_func \<Rightarrow> addr \<Rightarrow> addr \<Rightarrow> addr \<Rightarrow> heap option" where
  "inplace_merge_loop h lt a0 a1b0 b1 =
     (if a0 \<noteq> a1b0 \<and> a1b0 \<noteq> b1 then
        if \<not> lt a1b0 a0 then do {
          a0 \<leftarrow> list_next h a0;
          inplace_merge_loop h lt a0 a1b0 b1 }
        else do {
          a1b0 \<leftarrow> list_next h a1b0;
          p \<leftarrow> list_prev h a1b0;
          h \<leftarrow> list_splice h a0 p a1b0;
          inplace_merge_loop h lt a0 a1b0 b1 }
      else Some h)"

definition inplace_merge :: "heap \<Rightarrow> less_func \<Rightarrow> addr \<Rightarrow> addr \<Rightarrow> addr \<Rightarrow> heap option" where
  "inplace_merge h lt a0 a1b0 b1 = do {
     ASSERT (a0 \<noteq> NULL); ASSERT (a1b0 \<noteq> NULL); ASSERT (b1 \<noteq> NULL);
     s \<leftarrow> is_sorted h lt a0 a1b0; ASSERT s;
     s \<leftarrow> is_sorted h lt a1b0 b1; ASSERT s;
     inplace_merge_loop h lt a0 a1b0 b1 }"

text \<open>One pass of \<open>list_sort\<close>: the body of its outer loop, with the number of output runs.\<close>

partial_function (option) sort_pass_loop ::
    "heap \<Rightarrow> addr \<Rightarrow> less_func \<Rightarrow> addr \<Rightarrow> nat \<Rightarrow> (heap \<times> nat) option" where
  "sort_pass_loop h l lt a0 cnt = do {
     en \<leftarrow> list_end l;
     if a0 = en then Some (h, cnt)
     else do {
       let cnt = Suc cnt;
       a1b0 \<leftarrow> find_end_of_run h lt a0 en;
       if a1b0 = en then Some (h, cnt)
       else do {
         b1 \<leftarrow> find_end_of_run h lt a1b0 en;
         h \<leftarrow> inplace_merge h lt a0 a1b0 b1;
         sort_pass_loop h l lt b1 cnt } } }"

partial_function (option) list_sort_loop :: "heap \<Rightarrow> addr \<Rightarrow> less_func \<Rightarrow> heap option" where
  "list_sort_loop h l lt = do {
     a0 \<leftarrow> list_begin h l;
     (h, cnt) \<leftarrow> sort_pass_loop h l lt a0 0;
     if cnt > 1 then list_sort_loop h l lt else Some h }"

definition list_sort :: "heap \<Rightarrow> addr \<Rightarrow> less_func \<Rightarrow> heap option" where
  "list_sort h l lt = do {
     ASSERT (l \<noteq> NULL);
     h \<leftarrow> list_sort_loop h l lt;
     b \<leftarrow> list_begin h l;
     e \<leftarrow> list_end l;
     s \<leftarrow> is_sorted h lt b e;
     ASSERT s;
     Some h }"

partial_function (option) insert_pos_loop ::
    "heap \<Rightarrow> addr \<Rightarrow> less_func \<Rightarrow> addr \<Rightarrow> addr \<Rightarrow> addr option" where
  "insert_pos_loop h l lt elem e = do {
     en \<leftarrow> list_end l;
     if e = en then Some e
     else if lt elem e then Some e
     else do { e \<leftarrow> list_next h e; insert_pos_loop h l lt elem e } }"

definition list_insert_ordered :: "heap \<Rightarrow> addr \<Rightarrow> addr \<Rightarrow> less_func \<Rightarrow> heap option" where
  "list_insert_ordered h l elem lt = do {
     ASSERT (l \<noteq> NULL); ASSERT (elem \<noteq> NULL);
     e \<leftarrow> list_begin h l;
     e \<leftarrow> insert_pos_loop h l lt elem e;
     list_insert h e elem }"

partial_function (option) list_unique_loop ::
    "heap \<Rightarrow> addr \<Rightarrow> addr \<Rightarrow> less_func \<Rightarrow> addr \<Rightarrow> heap option" where
  "list_unique_loop h l dup lt elem = do {
     nx \<leftarrow> list_next h elem;
     en \<leftarrow> list_end l;
     if nx = en then Some h
     else if \<not> lt elem nx \<and> \<not> lt nx elem then do {
       (h, _) \<leftarrow> list_remove h nx;
       if dup \<noteq> NULL
       then do { h \<leftarrow> list_push_back h dup nx; list_unique_loop h l dup lt elem }
       else list_unique_loop h l dup lt elem }
     else list_unique_loop h l dup lt nx }"

definition list_unique :: "heap \<Rightarrow> addr \<Rightarrow> addr \<Rightarrow> less_func \<Rightarrow> heap option" where
  "list_unique h l dup lt = do {
     ASSERT (l \<noteq> NULL);
     em \<leftarrow> list_empty h l;
     if em then Some h
     else do { elem \<leftarrow> list_begin h l; list_unique_loop h l dup lt elem } }"

partial_function (option) list_max_loop ::
    "heap \<Rightarrow> addr \<Rightarrow> less_func \<Rightarrow> addr \<Rightarrow> addr \<Rightarrow> addr option" where
  "list_max_loop h l lt mx e = do {
     en \<leftarrow> list_end l;
     if e = en then Some mx
     else do {
       e' \<leftarrow> list_next h e;
       list_max_loop h l lt (if lt mx e then e else mx) e' } }"

definition list_max :: "heap \<Rightarrow> addr \<Rightarrow> less_func \<Rightarrow> addr option" where
  "list_max h l lt = do {
     mx \<leftarrow> list_begin h l;
     en \<leftarrow> list_end l;
     if mx \<noteq> en then do { e \<leftarrow> list_next h mx; list_max_loop h l lt mx e } else Some mx }"

partial_function (option) list_min_loop ::
    "heap \<Rightarrow> addr \<Rightarrow> less_func \<Rightarrow> addr \<Rightarrow> addr \<Rightarrow> addr option" where
  "list_min_loop h l lt mn e = do {
     en \<leftarrow> list_end l;
     if e = en then Some mn
     else do {
       e' \<leftarrow> list_next h e;
       list_min_loop h l lt (if lt e mn then e else mn) e' } }"

definition list_min :: "heap \<Rightarrow> addr \<Rightarrow> less_func \<Rightarrow> addr option" where
  "list_min h l lt = do {
     mn \<leftarrow> list_begin h l;
     en \<leftarrow> list_end l;
     if mn \<noteq> en then do { e \<leftarrow> list_next h mn; list_min_loop h l lt mn e } else Some mn }"


section \<open>Walking a list\<close>

text \<open>The cell at which the suffix \<open>ys\<close> of the list begins: its first element, or the tail.\<close>

abbreviation pos :: "addr \<Rightarrow> addr list \<Rightarrow> addr" where
  "pos l ys \<equiv> hd (ys @ [list_tail_addr l])"

lemma list_at_pos:
  assumes "list_at h l (xs @ e # ys)"
  shows "list_next h e = Some (pos l ys)" "list_prev h (pos l ys) = Some e"
    "e \<noteq> pos l ys" "e \<noteq> list_tail_addr l" "e \<noteq> NULL" "pos l ys \<noteq> NULL"
proof -
  show "list_next h e = Some (pos l ys)" using assms by (rule list_at_next)
  have d: "list_at h l ((xs @ [e]) @ ys)" using assms by simp
  show "list_prev h (pos l ys) = Some e"
  proof (cases ys)
    case Nil
    then show ?thesis using list_at_tail [OF d] by (simp add: list_prev_def)
  next
    case (Cons y ys')
    then show ?thesis using list_at_prev [of h l "xs @ [e]" y ys'] d by simp
  qed
  show "e \<noteq> list_tail_addr l" "e \<noteq> NULL" using list_at_elem_not_end [OF assms, of e] by auto
  show "e \<noteq> pos l ys" "pos l ys \<noteq> NULL"
    using assms by (cases ys; auto simp: list_at_def cells_def intro: gr0I)+
qed

lemma list_at_pos_neq:
  "list_at h l (xs @ r @ ys) \<Longrightarrow> (pos l (r @ ys) = pos l ys) \<longleftrightarrow> r = []"
  by (cases r; cases ys) (auto simp: list_at_def cells_def)

lemma is_sorted_loop_spec:
  "list_at h l (xs @ a # r @ ys) \<Longrightarrow>
     is_sorted_loop h lt a (pos l ys) = Some (in_order lt (a # r))"
proof (induction r arbitrary: xs a)
  case Nil
  then show ?case by (subst is_sorted_loop.simps) (simp add: list_at_pos)
next
  case (Cons b r)
  have "list_at h l ((xs @ [a]) @ b # r @ ys)" using Cons.prems by simp
  then have "is_sorted_loop h lt b (pos l ys) = Some (in_order lt (b # r))" by (rule Cons.IH)
  moreover have "b \<noteq> pos l ys"
    using list_at_pos_neq [of h l "xs @ [a]" "b # r" ys] Cons.prems by simp
  moreover have "list_next h a = Some b" "list_prev h b = Some a"
    using list_at_pos(1,2) [of h l xs a "b # r @ ys"] Cons.prems by simp_all
  ultimately show ?case by (subst is_sorted_loop.simps) simp
qed

lemma is_sorted_spec:
  assumes "list_at h l (xs @ r @ ys)"
  shows "is_sorted h lt (pos l (r @ ys)) (pos l ys) = Some (in_order lt r)"
proof (cases r)
  case (Cons a r')
  then show ?thesis
    using is_sorted_loop_spec [of h l xs a r' ys lt] list_at_pos_neq [OF assms] assms
    by (simp add: is_sorted_def)
qed (simp add: is_sorted_def)

lemma end_of_run_loop_spec:
  "list_at h l (xs @ a # bs) \<Longrightarrow> take_run lt a bs = (r, rest) \<Longrightarrow>
     end_of_run_loop h lt a (list_tail_addr l) = Some (pos l rest)"
proof (induction bs arbitrary: xs a r)
  case Nil
  then show ?case using list_at_pos(1) [of h l xs a "[]"]
    by (subst end_of_run_loop.simps) auto
next
  case (Cons b bs)
  have l: "list_at h l ((xs @ [a]) @ b # bs)" using Cons.prems by simp
  have "b \<noteq> list_tail_addr l" using list_at_pos(4) [OF l] .
  moreover have "list_next h a = Some b" "list_prev h b = Some a"
    using list_at_pos(1,2) [of h l xs a "b # bs"] Cons.prems by simp_all
  ultimately show ?case
    using Cons.prems(2) Cons.IH [OF l] 
    by (subst end_of_run_loop.simps) (auto split: if_splits prod.splits)
qed

lemma find_end_of_run_spec:
  "list_at h l (xs @ a # bs) \<Longrightarrow> take_run lt a bs = (r, rest) \<Longrightarrow>
     find_end_of_run h lt a (list_tail_addr l) = Some (pos l rest)"
  using list_at_pos(4,5) [of h l xs a bs] list_at_pos(6) [of h l "xs @ a # butlast bs"]
    end_of_run_loop_spec [of h l xs a bs lt r rest] 
  by (auto simp: find_end_of_run_def list_tail_addr_def)

section \<open>Merging and sorting on the heap\<close>

text \<open>The heap outside the cells of a list is left alone; a permutation has the same cells.\<close>

abbreviation same_off :: "addr set \<Rightarrow> heap \<Rightarrow> heap \<Rightarrow> bool" where
  "same_off S h h' \<equiv> \<forall>c. c \<notin> S \<longrightarrow> h' c = h c"

lemma set_cells: "set (cells l xs) = {list_head_addr l, list_tail_addr l} \<union> set xs"
  by (auto simp: cells_def)

lemma inplace_merge_loop_spec:
  assumes "list_at h l (ps @ xs @ ys @ qs)"
  shows "\<exists>h'. inplace_merge_loop h lt (pos l (xs @ ys @ qs)) (pos l (ys @ qs)) (pos l qs) = Some h' \<and>
    list_at h' l (ps @ merge_runs lt xs ys @ qs) \<and> same_off (set (cells l (ps @ xs @ ys @ qs))) h h'"
  using assms
proof (induction lt xs ys arbitrary: h ps rule: merge_runs.induct)
  case (1 lt ys)
  then show ?case by (subst inplace_merge_loop.simps) simp
next
  case (2 lt x xs)
  then show ?case by (subst inplace_merge_loop.simps) simp
next
  case (3 lt x xs y ys)
  have ly: "list_at h l ((ps @ x # xs) @ y # ys @ qs)" using "3.prems" by simp
  have ne: "x \<noteq> y" "y \<noteq> pos l qs"
    using list_at_pos_neq [of h l "ps" "x # xs" "y # ys @ qs"] "3.prems"
      list_at_pos_neq [of h l "ps @ x # xs" "y # ys" qs] by auto
  have nx: "list_next h x = Some (pos l (xs @ y # ys @ qs))" "list_next h y = Some (pos l (ys @ qs))"
    "list_prev h (pos l (ys @ qs)) = Some y"
    using list_at_pos(1) [of h l ps x "xs @ y # ys @ qs"] list_at_pos(1,2) [OF ly] "3.prems" by simp_all
  show ?case
  proof (cases "lt y x")
    case True
    obtain h1 where h1: "list_splice h x y (pos l (ys @ qs)) = Some h1"
      "list_at h1 l ((ps @ [y]) @ (x # xs) @ ys @ qs)"
      "\<And>c. c \<notin> set (cells l (ps @ (x # xs) @ [y] @ ys @ qs)) \<Longrightarrow> h1 c = h c"
      using list_splice_same_spec [of h l ps "x # xs" "[y]" "ys @ qs"] "3.prems" by auto
    from "3.IH"(1) [OF True h1(2)] show ?thesis
      using True ne nx h1 by (subst inplace_merge_loop.simps) (auto simp: set_cells)
  next
    case False
    have "list_at h l ((ps @ [x]) @ xs @ (y # ys) @ qs)" using "3.prems" by simp
    from "3.IH"(2) [OF False this] show ?thesis
      using False ne nx by (subst inplace_merge_loop.simps) auto
  qed
qed


lemma list_at_pos_not_NULL: "list_at h l (us @ zs) \<Longrightarrow> pos l zs \<noteq> NULL"
  by (cases zs) (auto simp: list_at_def cells_def intro: gr0I)

lemma inplace_merge_spec:
  assumes l: "list_at h l (ps @ xs @ ys @ qs)" and o: "in_order lt xs" "in_order lt ys"
  obtains h' where "inplace_merge h lt (pos l (xs @ ys @ qs)) (pos l (ys @ qs)) (pos l qs) = Some h'"
    "list_at h' l (ps @ merge_runs lt xs ys @ qs)"
    "same_off (set (cells l (ps @ xs @ ys @ qs))) h h'"
proof -
  have "pos l (xs @ ys @ qs) \<noteq> NULL" "pos l (ys @ qs) \<noteq> NULL" "pos l qs \<noteq> NULL"
    using list_at_pos_not_NULL [of h l ps "xs @ ys @ qs"] list_at_pos_not_NULL [of h l "ps @ xs" "ys @ qs"]
      list_at_pos_not_NULL [of h l "ps @ xs @ ys" qs] l by simp_all
  moreover have "is_sorted h lt (pos l (xs @ ys @ qs)) (pos l (ys @ qs)) = Some True"
    using is_sorted_spec [of h l ps xs "ys @ qs" lt] l o by simp
  moreover have "is_sorted h lt (pos l (ys @ qs)) (pos l qs) = Some True"
    using is_sorted_spec [of h l "ps @ xs" ys qs lt] l o by simp
  ultimately show ?thesis
    using inplace_merge_loop_spec [OF l, of lt] that by (auto simp: inplace_merge_def)
qed

text \<open>One pass over the heap is one pass over the sequence.\<close>

lemma sort_pass_loop_spec:
  assumes "list_at h l (ps @ xs)" and "merge_pass lt xs = (n, ys)"
  shows "\<exists>h'. sort_pass_loop h l lt (pos l xs) cnt = Some (h', cnt + n) \<and> list_at h' l (ps @ ys) \<and>
    same_off (set (cells l (ps @ xs))) h h'"
  using assms
proof (induction lt xs arbitrary: h ps n ys cnt rule: merge_pass.induct)
  case (1 lt)
  then show ?case by (subst sort_pass_loop.simps) (simp add: list_at_begin)
next
  case (2 lt x xs)
  note l = "2.prems"(1)
  have e: "list_end l = Some (list_tail_addr l)" "x \<noteq> list_tail_addr l"
    using list_at_begin(3) [OF l] list_at_pos(4) [OF l] by simp_all
  obtain r1 rest where r1: "take_run lt x xs = (r1, rest)" by fastforce
  have f1: "find_end_of_run h lt x (list_tail_addr l) = Some (pos l rest)"
    using find_end_of_run_spec [OF l r1] .
  show ?case
  proof (cases rest)
    case Nil
    then show ?thesis
      using "2.prems" r1 e f1 take_run_append [OF r1] by (subst sort_pass_loop.simps) auto
  next
    case (Cons y ys')
    obtain r2 rest2 where r2: "take_run lt y ys' = (r2, rest2)" by fastforce
    obtain m zs where m: "merge_pass lt rest2 = (m, zs)" by fastforce
    have x: "x # xs = r1 @ r2 @ rest2" "y # ys' = r2 @ rest2"
      using take_run_append [OF r1] take_run_append [OF r2] Cons by simp_all
    have l2: "list_at h l ((ps @ r1) @ y # ys')" using l x by simp
    have y: "y \<noteq> list_tail_addr l" using list_at_pos(4) [OF l2] .
    have f2: "find_end_of_run h lt y (list_tail_addr l) = Some (pos l rest2)"
      using find_end_of_run_spec [OF l2 r2] .
    have l': "list_at h l (ps @ r1 @ r2 @ rest2)" using l x by simp
    obtain h1 where h1: "inplace_merge h lt x y (pos l rest2) = Some h1"
      "list_at h1 l (ps @ merge_runs lt r1 r2 @ rest2)" "same_off (set (cells l (ps @ x # xs))) h h1"
    proof (rule inplace_merge_spec [OF l' take_run_in_order [OF r1] take_run_in_order [OF r2]])
      fix g assume "inplace_merge h lt (pos l (r1 @ r2 @ rest2)) (pos l (r2 @ rest2)) (pos l rest2) = Some g"
        "list_at g l (ps @ merge_runs lt r1 r2 @ rest2)" "same_off (set (cells l (ps @ r1 @ r2 @ rest2))) h g"
      moreover have "pos l (r1 @ r2 @ rest2) = x" "pos l (r2 @ rest2) = y"
        using arg_cong [OF x(1), of "pos l"] arg_cong [OF x(2), of "pos l"] by simp_all
      ultimately show thesis using that [of g] by (simp only: x(1) simp_thms)
    qed
    have l1: "list_at h1 l ((ps @ merge_runs lt r1 r2) @ rest2)" using h1(2) by simp
    obtain h2 where "sort_pass_loop h1 l lt (pos l rest2) (Suc cnt) = Some (h2, Suc cnt + m)"
      "list_at h2 l ((ps @ merge_runs lt r1 r2) @ zs)"
      "same_off (set (cells l ((ps @ merge_runs lt r1 r2) @ rest2))) h1 h2"
      using "2.IH" [OF r1 [symmetric] Cons r2 [symmetric] l1 m] by blast
    moreover have "set (cells l ((ps @ merge_runs lt r1 r2) @ rest2)) = set (cells l (ps @ x # xs))"
      unfolding x by (simp add: set_cells Un_assoc)
    moreover have "n = Suc m" "ys = merge_runs lt r1 r2 @ zs"
      using "2.prems"(2) r1 r2 m Cons by simp_all
    ultimately show ?thesis
      using e f1 f2 h1 y Cons by (subst sort_pass_loop.simps) auto
  qed
qed


text \<open>
  The outer loop stops, because every pass at least halves the number of runs; the result is
  in order, holds the same elements, and keeps the order of elements that compare equal.
\<close>

definition stable_perm :: "('a \<Rightarrow> 'a \<Rightarrow> bool) \<Rightarrow> 'a list \<Rightarrow> 'a list \<Rightarrow> bool" where
  "stable_perm lt xs ys \<longleftrightarrow>
     mset ys = mset xs \<and> (\<forall>z. filter (equiv_by lt z) ys = filter (equiv_by lt z) xs)"

lemma stable_perm_set: "stable_perm lt xs ys \<Longrightarrow> set ys = set xs"
  by (metis stable_perm_def set_mset_mset)

context weak_less
begin

lemma stable_perm_merge_pass: "merge_pass lt xs = (n, ys) \<Longrightarrow> stable_perm lt xs ys"
  by (simp add: stable_perm_def merge_pass_mset merge_pass_filter)

end

lemma list_sort_loop_spec:
  assumes "weak_less lt" and "list_at h l xs"
  shows "\<exists>h' ys. list_sort_loop h l lt = Some h' \<and> list_at h' l ys \<and> in_order lt ys \<and>
    stable_perm lt xs ys \<and> same_off (set (cells l xs)) h h'"
  using assms(2)
proof (induction "runs_count lt xs" arbitrary: h xs rule: less_induct)
  case less
  obtain n ys where mp: "merge_pass lt xs = (n, ys)" by fastforce
  obtain h1 where h1: "sort_pass_loop h l lt (pos l xs) 0 = Some (h1, n)" "list_at h1 l ys"
    "same_off (set (cells l xs)) h h1"
    using sort_pass_loop_spec [of h l "[]" xs lt n ys 0] less.prems mp by auto
  have sp: "stable_perm lt xs ys" by (rule weak_less.stable_perm_merge_pass [OF assms(1) mp])
  show ?case
  proof (cases "1 < n")
    case True
    from less.hyps [OF weak_less.merge_pass_measure [OF assms(1) mp True] h1(2)]
    obtain h2 zs where h2: "list_sort_loop h1 l lt = Some h2" "list_at h2 l zs" "in_order lt zs"
      "stable_perm lt ys zs" "same_off (set (cells l ys)) h1 h2" by blast
    have "same_off (set (cells l xs)) h h2"
      using h1(3) h2(5) stable_perm_set [OF sp] by (simp add: set_cells)
    then show ?thesis
      using True h1 h2 sp list_at_begin(2) [OF less.prems]
      by (subst list_sort_loop.simps) (auto simp: stable_perm_def)
  next
    case False
    then show ?thesis
      using h1 sp list_at_begin(2) [OF less.prems] weak_less.merge_pass_done [OF assms(1) mp False]
      by (subst list_sort_loop.simps) auto
  qed
qed

theorem list_sort_spec:
  assumes w: "weak_less lt" and l: "list_at h l xs"
  obtains h' ys where "list_sort h l lt = Some h'" "list_at h' l ys" "in_order lt ys"
    "stable_perm lt xs ys" "same_off (set (cells l xs)) h h'"
proof -
  obtain h' ys where h': "list_sort_loop h l lt = Some h'" "list_at h' l ys" "in_order lt ys"
    "stable_perm lt xs ys" "same_off (set (cells l xs)) h h'"
    using list_sort_loop_spec [OF w l] by blast
  moreover have "is_sorted h' lt (pos l ys) (list_tail_addr l) = Some True"
    using is_sorted_spec [of h' l "[]" ys "[]" lt] h'(2,3) by simp
  ultimately show ?thesis
    using that list_at_begin [OF h'(2)] list_at_not_NULL [OF l] by (simp add: list_sort_def)
qed

section \<open>Ordered insertion\<close>

lemma insert_pos_loop_spec:
  "list_at h l (ps @ xs) \<Longrightarrow>
     insert_pos_loop h l lt e (pos l xs) = Some (pos l (dropWhile (\<lambda>x. \<not> lt e x) xs))"
proof (induction xs arbitrary: ps)
  case Nil
  then show ?case by (subst insert_pos_loop.simps) (simp add: list_at_begin)
next
  case (Cons x xs)
  have "list_at h l ((ps @ [x]) @ xs)" using Cons.prems by simp
  from Cons.IH [OF this] show ?case
    using list_at_pos(1,4) [OF Cons.prems] list_at_begin(3) [OF Cons.prems]
    by (subst insert_pos_loop.simps) auto
qed

theorem list_insert_ordered_spec:
  assumes l: "list_at h l xs" and e: "e \<notin> set (cells l xs)" "e \<noteq> NULL"
  obtains h' where "list_insert_ordered h l e lt = Some h'" "list_at h' l (insert_ordered lt e xs)"
    "same_off (insert e (set (cells l xs))) h h'"
proof -
  let ?T = "takeWhile (\<lambda>x. \<not> lt e x) xs" and ?D = "dropWhile (\<lambda>x. \<not> lt e x) xs"
  have l': "list_at h l (?T @ ?D)" and e': "e \<notin> set (cells l (?T @ ?D))" using l e by simp_all
  obtain h' where h': "list_insert h (pos l ?D) e = Some h'" "list_at h' l (?T @ e # ?D)"
    "\<And>c. c \<notin> set (cells l (?T @ e # ?D)) \<Longrightarrow> h' c = h c"
    using list_insert_spec [OF l' e' e(2) refl] by blast
  have "set (cells l (?T @ e # ?D)) = insert e (set (cells l xs))"
  proof -
    have "set xs = set ?T \<union> set ?D" by (metis set_append takeWhile_dropWhile_id)
    then show ?thesis by (auto simp: set_cells)
  qed
  then show ?thesis
    using that [of h'] h' e l list_at_begin [OF l] list_at_not_NULL [OF l]
      insert_pos_loop_spec [of h l "[]" xs lt e]
    by (simp add: list_insert_ordered_def insert_ordered_def)
qed


section \<open>Removing duplicates\<close>

text \<open>
  \<open>list_unique\<close> keeps the first of every group of adjacent equal elements; the others are
  appended to the second list when there is one.
\<close>

lemma list_unique_loop_spec:
  assumes "list_at h l (ps @ x # xs)" and "split_unique lt (x # xs) = (u, d)"
    and "dup \<noteq> NULL \<Longrightarrow> list_at h dup ds \<and> set (cells l (ps @ x # xs)) \<inter> set (cells dup ds) = {}"
  shows "\<exists>h'. list_unique_loop h l dup lt x = Some h' \<and> list_at h' l (ps @ u) \<and>
    (dup \<noteq> NULL \<longrightarrow> list_at h' dup (ds @ d))"
  using assms
proof (induction "length xs" arbitrary: h ps x xs ds u d rule: less_induct)
  case less
  note l = less.prems(1)
  show ?case
  proof (cases xs)
    case Nil
    then show ?thesis
      using less.prems list_at_pos(1) [OF l] list_at_begin(3) [OF l]
      by (subst list_unique_loop.simps) auto
  next
    case (Cons y zs)
    have ly: "list_at h l ((ps @ [x]) @ y # zs)" using l Cons by simp
    have b: "list_next h x = Some y" "list_end l = Some (list_tail_addr l)" "y \<noteq> list_tail_addr l"
      "y \<noteq> NULL"
      using list_at_pos(1) [OF l] list_at_begin(3) [OF l] list_at_pos(4,5) [OF ly] Cons by simp_all
    show ?thesis
    proof (cases "equiv_by lt x y")
      case False
      then obtain u' where u': "split_unique lt (y # zs) = (u', d)" "u = x # u'"
        using less.prems(2) Cons by (auto split: prod.splits)
      have "\<exists>h'. list_unique_loop h l dup lt y = Some h' \<and> list_at h' l ((ps @ [x]) @ u') \<and>
          (dup \<noteq> NULL \<longrightarrow> list_at h' dup (ds @ d))"
        using less.hyps [where xs = zs and x = y and h = h and ps = "ps @ [x]" and u = u' and d = d and ds = ds] ly u' less.prems(3) Cons by simp
      then show ?thesis using False b u' by (subst list_unique_loop.simps) (auto simp: equiv_by_def)
    next
      case True
      then obtain d' where d': "split_unique lt (x # zs) = (u, d')" "d = y # d'"
        using less.prems(2) Cons by (auto split: prod.splits)
      obtain h1 where h1: "list_remove h y = Some (h1, pos l zs)" "list_at h1 l (ps @ x # zs)"
        "\<And>c. c \<notin> set (cells l (ps @ x # zs)) \<Longrightarrow> h1 c = h c"
        using list_remove_spec [OF ly] by auto
      show ?thesis
      proof (cases "dup = NULL")
        case dup: True
        have "\<exists>h'. list_unique_loop h1 l dup lt x = Some h' \<and> list_at h' l (ps @ u) \<and>
            (dup \<noteq> NULL \<longrightarrow> list_at h' dup (ds @ d'))"
          using less.hyps [where xs = zs and x = x and h = h1 and ps = ps and u = u and d = d' and ds = ds] h1(2) d' Cons dup by simp
        then show ?thesis
          using True b h1 dup by (subst list_unique_loop.simps) (auto simp: equiv_by_def)
      next
        case dup: False
        have ld: "list_at h dup ds" "set (cells l (ps @ x # y # zs)) \<inter> set (cells dup ds) = {}"
          using less.prems(3) [OF dup] Cons by simp_all
        have "list_at h1 dup ds"
          by (rule list_at_frame [OF ld(1)], rule h1(3)) (use ld(2) in \<open>auto simp: set_cells\<close>)
        moreover have "y \<notin> set (cells dup ds)" using ld(2) by (auto simp: set_cells)
        ultimately obtain h2 where h2: "list_push_back h1 dup y = Some h2" "list_at h2 dup (ds @ [y])"
          "\<And>c. c \<notin> set (cells dup (ds @ [y])) \<Longrightarrow> h2 c = h1 c"
          using list_push_back_spec b(4) by metis
        have "y \<notin> set (cells l (ps @ x # zs))" using l Cons by (auto simp: list_at_def cells_def)
        then have dj: "set (cells l (ps @ x # zs)) \<inter> set (cells dup (ds @ [y])) = {}"
          using ld(2) by (auto simp: set_cells)
        have "list_at h2 l (ps @ x # zs)"
          by (rule list_at_frame [OF h1(2)], rule h2(3)) (use dj in auto)
        then have "\<exists>h'. list_unique_loop h2 l dup lt x = Some h' \<and> list_at h' l (ps @ u) \<and>
            (dup \<noteq> NULL \<longrightarrow> list_at h' dup ((ds @ [y]) @ d'))"
          using less.hyps [where xs = zs and x = x and h = h2 and ps = ps and u = u and d = d' and ds = "ds @ [y]"] h2(2) d' Cons dj by simp
        then show ?thesis
          using True b h1 h2 d'(2) dup by (subst list_unique_loop.simps) (auto simp: equiv_by_def)
      qed
    qed
  qed
qed

theorem list_unique_spec:
  assumes "list_at h l xs" and "split_unique lt xs = (u, d)"
    and "dup \<noteq> NULL \<Longrightarrow> list_at h dup ds \<and> set (cells l xs) \<inter> set (cells dup ds) = {}"
  shows "\<exists>h'. list_unique h l dup lt = Some h' \<and> list_at h' l u \<and>
    (dup \<noteq> NULL \<longrightarrow> list_at h' dup (ds @ d))"
proof (cases xs)
  case Nil
  then show ?thesis using assms list_at_not_NULL [OF assms(1)]
    by (auto simp: list_unique_def list_empty_spec)
next
  case (Cons x xs')
  then show ?thesis
    using list_unique_loop_spec [of h l "[]" x xs' lt u d dup ds] assms list_at_not_NULL [OF assms(1)]
    by (auto simp: list_unique_def list_empty_spec list_at_begin)
qed

section \<open>Maximum and minimum\<close>

lemma list_max_loop_spec:
  "list_at h l (ps @ xs) \<Longrightarrow> list_max_loop h l lt m (pos l xs) = Some (first_max lt m xs)"
proof (induction xs arbitrary: ps m)
  case Nil
  then show ?case by (subst list_max_loop.simps) (simp add: list_at_begin)
next
  case (Cons x xs)
  have "list_at h l ((ps @ [x]) @ xs)" using Cons.prems by simp
  from Cons.IH [OF this] show ?case
    using list_at_pos(1,4) [OF Cons.prems] list_at_begin(3) [OF Cons.prems]
    by (subst list_max_loop.simps) auto
qed

lemma list_min_loop_spec:
  "list_at h l (ps @ xs) \<Longrightarrow> list_min_loop h l lt m (pos l xs) = Some (first_min lt m xs)"
proof (induction xs arbitrary: ps m)
  case Nil
  then show ?case by (subst list_min_loop.simps) (simp add: list_at_begin first_min_def)
next
  case (Cons x xs)
  have "list_at h l ((ps @ [x]) @ xs)" using Cons.prems by simp
  from Cons.IH [OF this] show ?case
    using list_at_pos(1,4) [OF Cons.prems] list_at_begin(3) [OF Cons.prems]
    by (subst list_min_loop.simps) (auto simp: first_min_def)
qed

theorem list_max_spec:
  assumes "list_at h l xs"
  shows "list_max h l lt = Some (case xs of [] \<Rightarrow> list_tail_addr l | x # ys \<Rightarrow> first_max lt x ys)"
proof (cases xs)
  case (Cons x ys)
  then show ?thesis
    using assms list_at_pos(1,4) [of h l "[]" x ys] list_max_loop_spec [of h l "[x]" ys lt x]
    by (simp add: list_max_def list_at_begin)
qed (use assms in \<open>simp add: list_max_def list_at_begin\<close>)

theorem list_min_spec:
  assumes "list_at h l xs"
  shows "list_min h l lt = Some (case xs of [] \<Rightarrow> list_tail_addr l | x # ys \<Rightarrow> first_min lt x ys)"
proof (cases xs)
  case (Cons x ys)
  then show ?thesis
    using assms list_at_pos(1,4) [of h l "[]" x ys] list_min_loop_spec [of h l "[x]" ys lt x]
    by (simp add: list_min_def list_at_begin)
qed (use assms in \<open>simp add: list_min_def list_at_begin\<close>)

end
