(* ===== verification/KQueue.thy ===== *)
theory KQueue
  imports KListSort
begin

text \<open>
  The interface under which the kernel uses its lists as queues, as two locales with the laws
  of the operations, their clients' lemmas, and the interpretation on the pointer lists of
  lib/kernel/list.c: first in, first out through \<open>list_push_back\<close> and \<open>list_pop_front\<close>, and
  by priority through \<open>list_insert_ordered\<close> and \<open>list_pop_front\<close>. The section at the end
  states what the list operations promise.
\<close>

section \<open>Feeding and draining a queue\<close>

primrec feed :: "('h \<Rightarrow> 'e \<Rightarrow> 'h option) \<Rightarrow> 'h \<Rightarrow> 'e list \<Rightarrow> 'h option" where
  "feed push h [] = Some h"
| "feed push h (e # es) = do { h \<leftarrow> push h e; feed push h es }"

primrec drain :: "('h \<Rightarrow> ('h \<times> 'e) option) \<Rightarrow> nat \<Rightarrow> 'h \<Rightarrow> ('h \<times> 'e list) option" where
  "drain pop 0 h = Some (h, [])"
| "drain pop (Suc n) h = do { (h, e) \<leftarrow> pop h; (h, es) \<leftarrow> drain pop n h; Some (h, e # es) }"

section \<open>Queues\<close>

text \<open>\<open>rep h xs\<close>: the state \<open>h\<close> holds the queue \<open>xs\<close>; \<open>room xs\<close>: the elements that may still enter.\<close>

locale source_queue =
  fixes rep :: "'h \<Rightarrow> 'e list \<Rightarrow> bool"
    and pop :: "'h \<Rightarrow> ('h \<times> 'e) option"
  assumes pop_Cons: "rep h (x # xs) \<Longrightarrow> \<exists>h'. pop h = Some (h', x) \<and> rep h' xs"
    and pop_Nil: "rep h [] \<Longrightarrow> pop h = None"
begin

lemma drain_all: "rep h xs \<Longrightarrow> \<exists>h'. drain pop (length xs) h = Some (h', xs) \<and> rep h' []"
proof (induction xs arbitrary: h)
  case (Cons x xs)
  obtain h' where h': "pop h = Some (h', x)" "rep h' xs" using pop_Cons [OF Cons.prems] by blast
  with Cons.IH [OF h'(2)] show ?case by auto
qed simp

lemma drain_too_many: "rep h xs \<Longrightarrow> drain pop (Suc (length xs)) h = None"
proof (induction xs arbitrary: h)
  case Nil
  then show ?case by (simp add: pop_Nil)
next
  case (Cons x xs)
  obtain h' where h': "pop h = Some (h', x)" "rep h' xs" using pop_Cons [OF Cons.prems] by blast
  then show ?case
    using Cons.IH [OF h'(2)] drain.simps(2) [of pop "Suc (length xs)" h] by (simp del: drain.simps)
qed

end

locale fifo_queue = source_queue rep pop
  for rep :: "'h \<Rightarrow> 'e list \<Rightarrow> bool" and pop +
  fixes room :: "'e list \<Rightarrow> 'e set"
    and push :: "'h \<Rightarrow> 'e \<Rightarrow> 'h option"
  assumes push_back: "rep h xs \<Longrightarrow> e \<in> room xs \<Longrightarrow> \<exists>h'. push h e = Some h' \<and> rep h' (xs @ [e])"
    and room_snoc: "room (xs @ [e]) = room xs - {e}"
begin

lemma feed_back:
  "rep h xs \<Longrightarrow> distinct es \<Longrightarrow> set es \<subseteq> room xs \<Longrightarrow> \<exists>h'. feed push h es = Some h' \<and> rep h' (xs @ es)"
proof (induction es arbitrary: h xs)
  case (Cons e es)
  obtain h' where h': "push h e = Some h'" "rep h' (xs @ [e])"
    using push_back [OF Cons.prems(1), of e] Cons.prems(3) by auto
  have "set es \<subseteq> room (xs @ [e])" using Cons.prems by (auto simp: room_snoc)
  with Cons.IH [OF h'(2)] Cons.prems(2) h'(1) show ?case by simp
qed simp

text \<open>What goes in comes out in the same order, behind what was there before.\<close>

lemma first_in_first_out:
  assumes "rep h xs" "distinct es" "set es \<subseteq> room xs"
  shows "\<exists>h1 h2. feed push h es = Some h1 \<and>
    drain pop (length xs + length es) h1 = Some (h2, xs @ es) \<and> rep h2 []"
  using feed_back [OF assms] drain_all by fastforce

end

locale priority_queue = source_queue rep pop + weak_less lt
  for rep :: "'h \<Rightarrow> 'e list \<Rightarrow> bool" and pop and lt +
  fixes room :: "'e list \<Rightarrow> 'e set"
    and insert :: "'h \<Rightarrow> 'e \<Rightarrow> 'h option"
  assumes insert_law: "rep h xs \<Longrightarrow> e \<in> room xs \<Longrightarrow>
      \<exists>h'. insert h e = Some h' \<and> rep h' (insert_ordered lt e xs)"
    and room_insert: "room (insert_ordered lt e xs) = room xs - {e}"
begin

lemma feed_ordered:
  "rep h xs \<Longrightarrow> distinct es \<Longrightarrow> set es \<subseteq> room xs \<Longrightarrow>
     \<exists>h'. feed insert h es = Some h' \<and> rep h' (fold (insert_ordered lt) es xs)"
proof (induction es arbitrary: h xs)
  case (Cons e es)
  obtain h' where h': "insert h e = Some h'" "rep h' (insert_ordered lt e xs)"
    using insert_law [OF Cons.prems(1), of e] Cons.prems(3) by auto
  have "set es \<subseteq> room (insert_ordered lt e xs)" using Cons.prems by (auto simp: room_insert)
  with Cons.IH [OF h'(2)] Cons.prems(2) h'(1) show ?case by simp
qed simp

lemma filter_insert_ordered:
  assumes "in_order lt xs"
  shows "filter (equiv_by lt z) (insert_ordered lt e xs) = filter (equiv_by lt z) (xs @ [e])"
proof -
  define T D where TD: "T = takeWhile (\<lambda>x. \<not> lt e x) xs" "D = dropWhile (\<lambda>x. \<not> lt e x) xs"
  then have xs: "xs = T @ D" by simp
  have "filter (equiv_by lt z) D = []" if "equiv_by lt z e"
  proof -
    have "lt e y" if y: "y \<in> set D" for y
    proof (cases D)
      case (Cons d D')
      then have "lt e d" using hd_dropWhile [of "\<lambda>x. \<not> lt e x" xs] TD(2) by simp
      moreover have "\<not> lt y d"
        using assms y Cons irrefl by (auto simp: xs in_order_append in_order_Cons)
      ultimately show ?thesis using neg_trans by blast
    qed (use y in simp)
    then show ?thesis using that neg_trans by (auto simp: equiv_by_def filter_empty_conv)
  qed
  moreover have "insert_ordered lt e xs = T @ e # D" by (simp add: insert_ordered_def TD)
  ultimately show ?thesis by (auto simp: xs)
qed

text \<open>Draining the queue yields the elements by priority, and in order of arrival within one.\<close>

lemma highest_first:
  assumes "rep h []" "distinct es" "set es \<subseteq> room []"
  shows "\<exists>h1 h2 ys. feed insert h es = Some h1 \<and> drain pop (length es) h1 = Some (h2, ys) \<and>
    in_order lt ys \<and> stable_perm lt es ys \<and> rep h2 []"
proof -
  have o: "in_order lt (fold (insert_ordered lt) es xs) \<and>
      stable_perm lt (xs @ es) (fold (insert_ordered lt) es xs)"
    if "in_order lt xs" for xs
    using that
  proof (induction es arbitrary: xs)
    case (Cons e es)
    have i: "in_order lt (insert_ordered lt e xs)" by (rule in_order_insert_ordered [OF Cons.prems])
    from Cons.IH [OF i] show ?case
      by (auto simp: stable_perm_def filter_insert_ordered [OF Cons.prems])
  qed (simp add: stable_perm_def)
  obtain h1 where h1: "feed insert h es = Some h1" "rep h1 (fold (insert_ordered lt) es [])"
    using feed_ordered [OF assms] by blast
  have "length (fold (insert_ordered lt) es []) = length es"
    using o [of "[]"] by (auto simp: stable_perm_def dest: mset_eq_length)
  then show ?thesis using drain_all [OF h1(2)] h1(1) o [of "[]"] by auto
qed

end


section \<open>The pointer lists are such queues\<close>

definition list_room :: "addr \<Rightarrow> addr list \<Rightarrow> addr set" where
  "list_room l xs = {e. e \<notin> set (cells l xs) \<and> e \<noteq> NULL}"

lemma list_room_snoc: "list_room l (xs @ [e]) = list_room l xs - {e}"
  by (auto simp: list_room_def set_cells)

lemma list_room_insert: "list_room l (insert_ordered lt e xs) = list_room l xs - {e}"
  by (auto simp: list_room_def set_cells)

interpretation kl: fifo_queue "\<lambda>h. list_at h l" "\<lambda>h. list_pop_front h l" "list_room l" "\<lambda>h. list_push_back h l"
  for l
proof
  show "list_at h l (x # xs) \<Longrightarrow> \<exists>h'. list_pop_front h l = Some (h', x) \<and> list_at h' l xs" for h x xs
    using list_pop_front_spec by blast
  show "list_at h l [] \<Longrightarrow> list_pop_front h l = None" for h
    using list_pop_empty by blast
  show "list_at h l xs \<Longrightarrow> e \<in> list_room l xs \<Longrightarrow>
      \<exists>h'. list_push_back h l e = Some h' \<and> list_at h' l (xs @ [e])" for h xs e
    using list_push_back_spec unfolding list_room_def by blast
  show "list_room l (xs @ [e]) = list_room l xs - {e}" for xs e
    by (rule list_room_snoc)
qed

text \<open>Any order by a key with linearly ordered values is a comparison function.\<close>

interpretation by_key: weak_less "\<lambda>a b. key a < key b" for key :: "'e \<Rightarrow> 'k :: linorder"
  by unfold_locales auto

interpretation po: priority_queue "\<lambda>h. list_at h l" "\<lambda>h. list_pop_front h l"
  "\<lambda>a b. key a < key b" "list_room l"
  "\<lambda>h e. list_insert_ordered h l e (\<lambda>a b. key a < key b)"
  for l and key :: "addr \<Rightarrow> 'k :: linorder"
proof
  show "list_at h l xs \<Longrightarrow> e \<in> list_room l xs \<Longrightarrow>
      \<exists>h'. list_insert_ordered h l e (\<lambda>a b. key a < key b) = Some h' \<and>
        list_at h' l (insert_ordered (\<lambda>a b. key a < key b) e xs)" for h xs e
    using list_insert_ordered_spec unfolding list_room_def by blast
  show "list_room l (insert_ordered (\<lambda>a b. key a < key b) e xs) = list_room l xs - {e}" for xs e
    by (rule list_room_insert)
qed

lemma stable_perm_key:
  fixes key :: "'e \<Rightarrow> 'k :: linorder"
  assumes "stable_perm (\<lambda>a b. key a < key b) xs ys"
  shows "filter (\<lambda>e. key e = key z) ys = filter (\<lambda>e. key e = key z) xs"
proof -
  have "equiv_by (\<lambda>a b. key a < key b) z = (\<lambda>e. key e = key z)"
    by (auto simp: equiv_by_def fun_eq_iff)
  then show ?thesis using assms unfolding stable_perm_def by metis
qed

section \<open>What the lists promise\<close>

text \<open>
  \<open>list_push_back\<close> and \<open>list_pop_front\<close> make a list a first-in-first-out queue: elements
  pushed behind the content of a list are popped behind it and in the order of pushing, and
  the list is empty afterwards.
\<close>

lemma list_fifo:
  assumes "list_at h l xs" and "distinct es" and "set es \<inter> set (cells l xs) = {}" and "NULL \<notin> set es"
  shows "\<exists>h1 h2. feed (\<lambda>h. list_push_back h l) h es = Some h1 \<and>
    drain (\<lambda>h. list_pop_front h l) (length xs + length es) h1 = Some (h2, xs @ es) \<and>
    list_empty h2 l = Some True"
proof -
  have "set es \<subseteq> list_room l xs" using assms(3,4) by (auto simp: list_room_def)
  from kl.first_in_first_out [OF assms(1,2) this] show ?thesis using list_empty_spec by fastforce
qed

text \<open>A list at address 100 with no elements, and one with the elements 16, 32 and 48.\<close>

definition empty_list :: heap where
  "empty_list = the (list_init (\<lambda>_. \<lparr>le_prev = 0, le_next = 0\<rparr>) 100)"

definition three_list :: heap where
  "three_list = the (feed (\<lambda>h. list_push_back h 100) empty_list [16, 32, 48])"

lemma empty_list_at: "list_at empty_list 100 []"
  by (simp add: empty_list_def list_init_def list_at_def cells_def link_def list_head_addr_def
      list_tail_addr_def)

lemma three_list_at: "list_at three_list 100 [16, 32, 48]"
  using kl.feed_back [OF empty_list_at, of "[16, 32, 48]"]
  by (auto simp: three_list_def list_room_def cells_def list_head_addr_def list_tail_addr_def)

theorem list_fifo_witness:
  "\<exists>h1 h2. feed (\<lambda>h. list_push_back h 100) three_list [64, 80] = Some h1 \<and>
    drain (\<lambda>h. list_pop_front h 100) 5 h1 = Some (h2, [16, 32, 48, 64, 80]) \<and>
    list_empty h2 100 = Some True"
proof -
  have n: "length [16, 32, 48 :: addr] + length [64, 80 :: addr] = 5"
    "[16, 32, 48] @ [64, 80] = [16, 32, 48, 64, 80 :: addr]" by simp_all
  show ?thesis
    by (rule list_fifo [OF three_list_at, of "[64, 80]", unfolded n])
      (simp_all add: cells_def list_head_addr_def list_tail_addr_def)
qed

text \<open>
  C39: \<open>list_insert_ordered\<close> and \<open>list_pop_front\<close> make a list a priority queue: elements inserted
  into an empty list come out in the order of their keys, and elements with equal keys come
  out in the order in which they were inserted.
\<close>

theorem list_priority_queue:
  fixes key :: "addr \<Rightarrow> 'k :: linorder"
  assumes "list_at h l []" and "distinct es" and "set es \<inter> set (cells l []) = {}" and "NULL \<notin> set es"
  shows "\<exists>h1 h2 ys. feed (\<lambda>h e. list_insert_ordered h l e (\<lambda>a b. key a < key b)) h es = Some h1 \<and>
    drain (\<lambda>h. list_pop_front h l) (length es) h1 = Some (h2, ys) \<and>
    sorted (map key ys) \<and> mset ys = mset es \<and>
    (\<forall>k. filter (\<lambda>e. key e = k) ys = filter (\<lambda>e. key e = k) es)"
proof -
  have "set es \<subseteq> list_room l []" using assms(3,4) by (auto simp: list_room_def)
  from po.highest_first [OF assms(1,2) this, of key] obtain h1 h2 ys where
    r: "feed (\<lambda>h e. list_insert_ordered h l e (\<lambda>a b. key a < key b)) h es = Some h1"
    "drain (\<lambda>h. list_pop_front h l) (length es) h1 = Some (h2, ys)"
    "in_order (\<lambda>a b. key a < key b) ys" "stable_perm (\<lambda>a b. key a < key b) es ys" by blast
  have "sorted (map key ys)"
    using r(3) by (simp add: by_key.in_order_sorted_wrt sorted_map not_less)
  moreover have "filter (\<lambda>e. key e = k) ys = filter (\<lambda>e. key e = k) es" for k
  proof (cases "\<exists>z\<in>set ys. key z = k")
    case True
    then obtain z where "key z = k" by blast
    then show ?thesis using stable_perm_key [OF r(4), of z] by simp
  next
    case False
    then show ?thesis using stable_perm_set [OF r(4)] by (auto simp: filter_empty_conv)
  qed
  ultimately show ?thesis using r by (auto simp: stable_perm_def)
qed

theorem list_priority_queue_witness:
  "\<exists>h1 h2 ys. feed (\<lambda>h e. list_insert_ordered h 100 e (\<lambda>a b. a div 32 < b div 32)) empty_list [80, 16, 64] = Some h1 \<and>
    drain (\<lambda>h. list_pop_front h 100) 3 h1 = Some (h2, ys) \<and> sorted (map (\<lambda>a. a div 32) ys) \<and>
    mset ys = mset [80, 16, 64] \<and>
    (\<forall>k. filter (\<lambda>e. e div 32 = k) ys = filter (\<lambda>e. e div 32 = k) [80, 16, 64])"
proof -
  have n: "length [80, 16, 64 :: addr] = 3" by simp
  show ?thesis
    by (rule list_priority_queue [OF empty_list_at, of "[80, 16, 64]", unfolded n])
      (simp_all add: cells_def list_head_addr_def list_tail_addr_def)
qed

text \<open>
  C15: \<open>list_sort\<close>, a natural merge sort in place, always returns; afterwards the list holds the
  same elements in the order of their keys, those with equal keys in their former order, and
  no memory outside the list has changed.
\<close>

theorem list_sort_correct:
  fixes key :: "addr \<Rightarrow> 'k :: linorder"
  assumes "list_at h l xs"
  shows "\<exists>h'. list_sort h l (\<lambda>a b. key a < key b) = Some h' \<and> list_at h' l (sort_key key xs) \<and>
    (\<forall>c. c \<notin> set (cells l xs) \<longrightarrow> h' c = h c)"
proof -
  let ?lt = "\<lambda>a b. key a < key b"
  obtain h' ys where h': "list_sort h l ?lt = Some h'" "list_at h' l ys" "in_order ?lt ys"
    "stable_perm ?lt xs ys" "same_off (set (cells l xs)) h h'"
    by (rule list_sort_spec [OF by_key.weak_less_axioms assms])
  have "sorted (map key ys)"
    using h'(3) by (simp add: by_key.in_order_sorted_wrt sorted_map not_less)
  moreover have "filter (\<lambda>y. key x = key y) ys = filter (\<lambda>y. key x = key y) xs" for x
    using stable_perm_key [OF h'(4), of x] by (simp add: eq_commute [of "key x"])
  moreover have "mset ys = mset xs" using h'(4) by (simp add: stable_perm_def)
  ultimately have "sort_key key xs = ys"
    by (intro properties_for_sort_key) (auto dest: mset_eq_setD)
  then show ?thesis using h' by auto
qed

theorem list_sort_correct_witness:
  "\<exists>h'. list_sort three_list 100 (\<lambda>a b. - int a < - int b) = Some h' \<and> list_at h' 100 [48, 32, 16] \<and>
    h' 200 = three_list 200"
  using list_sort_correct [OF three_list_at, of "\<lambda>a. - int a"]
  by (auto simp: cells_def list_head_addr_def list_tail_addr_def)

end
