(* ===== verification/HashMap.thy ===== *)
theory HashMap
  imports HashTable KQueue
begin

text \<open>
  The hash table of lib/kernel/hash.c as an implementation of finite maps: a table whose
  comparison and hash function look only at a key of the elements answers every sequence of
  insertions, replacements and deletions the way a map from keys to elements does, whichever
  of its requests for memory fail.
\<close>

section \<open>Tables over a key\<close>

interpretation ht: hash_fun "\<lambda>a b. key a < key b" "\<lambda>e. g (key e)"
  for key :: "'e \<Rightarrow> 'k :: linorder" and g :: "'k \<Rightarrow> u64"
  by unfold_locales (auto simp: equiv_by_def intro: arg_cong [of _ _ g])

lemma equiv_by_key: "equiv_by (\<lambda>a b. key a < key b) x y \<longleftrightarrow> key x = (key y :: 'k :: linorder)"
  by (auto simp: equiv_by_def)

section \<open>Requests, as the table and as the map answer them\<close>

datatype 'e hash_op = Insert 'e | Replace 'e | Delete 'e

fun hash_step ::
    "('e \<Rightarrow> u64) \<Rightarrow> ('e \<Rightarrow> 'e \<Rightarrow> bool) \<Rightarrow> bool \<Rightarrow> 'e hash_op \<Rightarrow> 'e htable \<Rightarrow> ('e htable \<times> 'e option) option" where
  "hash_step hf lt mem_ok (Insert e) h = hash_insert hf lt mem_ok h e"
| "hash_step hf lt mem_ok (Replace e) h = hash_replace hf lt mem_ok h e"
| "hash_step hf lt mem_ok (Delete e) h = hash_delete hf lt mem_ok h e"

primrec hash_run ::
    "('e \<Rightarrow> u64) \<Rightarrow> ('e \<Rightarrow> 'e \<Rightarrow> bool) \<Rightarrow> (bool \<times> 'e hash_op) list \<Rightarrow> 'e htable \<Rightarrow>
      ('e htable \<times> 'e option list) option" where
  "hash_run hf lt [] h = Some (h, [])"
| "hash_run hf lt (r # rs) h = do {
     (h, old) \<leftarrow> hash_step hf lt (fst r) (snd r) h;
     (h, olds) \<leftarrow> hash_run hf lt rs h;
     Some (h, old # olds) }"

fun map_step :: "('e \<Rightarrow> 'k) \<Rightarrow> 'e hash_op \<Rightarrow> ('k \<rightharpoonup> 'e) \<Rightarrow> ('k \<rightharpoonup> 'e) \<times> 'e option" where
  "map_step key (Insert e) m = (if m (key e) = None then m(key e \<mapsto> e) else m, m (key e))"
| "map_step key (Replace e) m = (m(key e \<mapsto> e), m (key e))"
| "map_step key (Delete e) m = (m(key e := None), m (key e))"

primrec map_run :: "('e \<Rightarrow> 'k) \<Rightarrow> 'e hash_op list \<Rightarrow> ('k \<rightharpoonup> 'e) \<Rightarrow> ('k \<rightharpoonup> 'e) \<times> 'e option list" where
  "map_run key [] m = (m, [])"
| "map_run key (r # rs) m =
     (let (m, old) = map_step key r m; (m, olds) = map_run key rs m in (m, old # olds))"

section \<open>The simulation\<close>

definition represents :: "('e \<Rightarrow> 'k) \<Rightarrow> 'e set \<Rightarrow> ('k \<rightharpoonup> 'e) \<Rightarrow> bool" where
  "represents key E m \<longleftrightarrow> (\<forall>k e. m k = Some e \<longleftrightarrow> e \<in> E \<and> key e = k)"

definition table_map :: "('e \<Rightarrow> 'k :: linorder) \<Rightarrow> ('k \<Rightarrow> u64) \<Rightarrow> 'e htable \<Rightarrow> ('k \<rightharpoonup> 'e) \<Rightarrow> bool" where
  "table_map key g h m \<longleftrightarrow>
     hash_wf (\<lambda>e. g (key e)) (\<lambda>a b. key a < key b) h \<and> represents key (set (hash_elems h)) m"

lemma represents_None: "represents key E m \<Longrightarrow> m k = None \<longleftrightarrow> (\<forall>x\<in>E. key x \<noteq> k)"
  unfolding represents_def by (metis not_Some_eq)

lemma represents_insert:
  "represents key E m \<Longrightarrow> m (key e) = None \<Longrightarrow> represents key (insert e E) (m(key e \<mapsto> e))"
  by (auto simp: represents_None) (auto simp: represents_def)

lemma represents_wf:
  fixes key :: "'e \<Rightarrow> 'k :: linorder"
  shows "hash_wf (\<lambda>e. g (key e)) (\<lambda>a b. key a < key b) h \<Longrightarrow> represents key (set (hash_elems h)) m \<Longrightarrow>
     hash_find (\<lambda>e. g (key e)) (\<lambda>a b. key a < key b) h e = m (key e)"
proof -
  assume a: "hash_wf (\<lambda>e. g (key e)) (\<lambda>a b. key a < key b) h" "represents key (set (hash_elems h)) m"
  have "\<forall>x. hash_find (\<lambda>e. g (key e)) (\<lambda>a b. key a < key b) h e = Some x \<longleftrightarrow> m (key e) = Some x"
    using a(2) unfolding ht.hash_find_Some [OF a(1)] equiv_by_key represents_def by blast
  then show ?thesis by (metis not_Some_eq)
qed

lemma table_map_find:
  fixes key :: "'e \<Rightarrow> 'k :: linorder"
  shows "table_map key g h m \<Longrightarrow> hash_find (\<lambda>e. g (key e)) (\<lambda>a b. key a < key b) h e = m (key e)"
  unfolding table_map_def by (blast intro: represents_wf)

lemma table_map_size:
  assumes "table_map key g h m"
  shows "hash_size h = card (dom m)"
proof -
  let ?E = "set (hash_elems h)"
  have r: "represents key ?E m" and d: "distinct (hash_elems h)" and c: "elem_cnt h = length (hash_elems h)"
    using assms by (auto simp: table_map_def hash_wf_def no_equals_def)
  have "dom m = key ` ?E" using r by (auto simp: represents_def dom_def)
  moreover have "inj_on key ?E" using r by (auto simp: represents_def inj_on_def) (metis option.inject)
  ultimately show ?thesis using d c by (simp add: hash_size_def card_image distinct_card)
qed

lemma table_map_step:
  fixes key :: "'e \<Rightarrow> 'k :: linorder"
  assumes t: "table_map key g h m"
  shows "\<exists>h'. hash_step (\<lambda>e. g (key e)) (\<lambda>a b. key a < key b) mem_ok r h = Some (h', snd (map_step key r m)) \<and>
    table_map key g h' (fst (map_step key r m))"
proof -
  have wf: "hash_wf (\<lambda>e. g (key e)) (\<lambda>a b. key a < key b) h" and rep: "represents key (set (hash_elems h)) m"
    using t by (simp_all add: table_map_def)
  have find: "hash_find (\<lambda>e. g (key e)) (\<lambda>a b. key a < key b) h e = m (key e)" for e
    by (rule table_map_find [OF t])
  show ?thesis
  proof (cases r)
    case (Insert e)
    obtain h' where h': "hash_insert (\<lambda>e. g (key e)) (\<lambda>a b. key a < key b) mem_ok h e = Some (h', m (key e))"
      "hash_wf (\<lambda>e. g (key e)) (\<lambda>a b. key a < key b) h'"
      "set (hash_elems h') = (if m (key e) = None then insert e (set (hash_elems h)) else set (hash_elems h))"
      using ht.hash_insert_effect [OF wf, of mem_ok e] unfolding find by blast
    have "represents key (set (hash_elems h')) (fst (map_step key r m))"
      using rep h'(3) Insert by (auto simp: represents_insert)
    then show ?thesis using h'(1,2) Insert by (simp add: table_map_def)
  next
    case (Replace e)
    obtain h' where h': "hash_replace (\<lambda>e. g (key e)) (\<lambda>a b. key a < key b) mem_ok h e = Some (h', m (key e))"
      "hash_wf (\<lambda>e. g (key e)) (\<lambda>a b. key a < key b) h'"
      "set (hash_elems h') = insert e (set (hash_elems h) - {x. key x = key e})"
      using ht.hash_replace_effect [OF wf, of mem_ok e] unfolding find equiv_by_key by blast
    have "represents key (set (hash_elems h')) (fst (map_step key r m))"
      using rep h'(3) Replace by (auto simp: represents_def)
    then show ?thesis using h'(1,2) Replace by (simp add: table_map_def)
  next
    case (Delete e)
    obtain h' where h': "hash_delete (\<lambda>e. g (key e)) (\<lambda>a b. key a < key b) mem_ok h e = Some (h', m (key e))"
      "hash_wf (\<lambda>e. g (key e)) (\<lambda>a b. key a < key b) h'"
      "set (hash_elems h') = set (hash_elems h) - {x. key x = key e}"
      using ht.hash_delete_effect [OF wf, of mem_ok e] unfolding find equiv_by_key by blast
    have "represents key (set (hash_elems h')) (fst (map_step key r m))"
      using rep h'(3) Delete by (auto simp: represents_def)
    then show ?thesis using h'(1,2) Delete by (simp add: table_map_def)
  qed
qed

lemma table_map_run:
  fixes key :: "'e \<Rightarrow> 'k :: linorder"
  shows "table_map key g h m \<Longrightarrow>
    \<exists>h'. hash_run (\<lambda>e. g (key e)) (\<lambda>a b. key a < key b) rs h = Some (h', snd (map_run key (map snd rs) m)) \<and>
      table_map key g h' (fst (map_run key (map snd rs) m))"
proof (induction rs arbitrary: h m)
  case (Cons r rs)
  obtain h' where h': "hash_step (\<lambda>e. g (key e)) (\<lambda>a b. key a < key b) (fst r) (snd r) h =
      Some (h', snd (map_step key (snd r) m))" "table_map key g h' (fst (map_step key (snd r) m))"
    using table_map_step [OF Cons.prems] by blast
  show ?case using Cons.IH [OF h'(2)] h'(1) by (auto split: prod.splits)
qed simp

lemma table_map_init:
  fixes key :: "'a \<Rightarrow> 'k :: linorder"
  shows "\<exists>h. hash_init True = Some h \<and> table_map key g h Map.empty"
proof -
  obtain h :: "'a htable" where "hash_init True = Some h"
    "hash_wf (\<lambda>e. g (key e)) (\<lambda>a b. key a < key b) h" "hash_elems h = []"
    using ht.hash_init_wf [of g key] by blast
  then show ?thesis by (simp add: table_map_def represents_def)
qed

section \<open>What the hash table promises\<close>

text \<open>
  C5: from its initialisation on, a hash table over a key answers every sequence of
  \<open>hash_insert\<close>, \<open>hash_replace\<close> and \<open>hash_delete\<close> exactly as a map from keys to elements, and
  finds afterwards exactly the elements of the map; this holds whichever of the memory requests
  of \<open>rehash\<close> fail, and \<open>rehash\<close> always returns.
\<close>

theorem hash_table_is_map:
  fixes key :: "'e \<Rightarrow> 'k :: linorder" and g :: "'k \<Rightarrow> u64"
  shows "\<exists>h0 h. hash_init True = Some h0 \<and>
    hash_run (\<lambda>e. g (key e)) (\<lambda>a b. key a < key b) rs h0 = Some (h, snd (map_run key (map snd rs) Map.empty)) \<and>
    (\<forall>e. hash_find (\<lambda>e. g (key e)) (\<lambda>a b. key a < key b) h e = fst (map_run key (map snd rs) Map.empty) (key e)) \<and>
    hash_size h = card (dom (fst (map_run key (map snd rs) Map.empty)))"
proof -
  obtain h0 :: "'e htable" where h0: "hash_init True = Some h0" "table_map key g h0 Map.empty"
    using table_map_init by blast
  obtain h where h: "hash_run (\<lambda>e. g (key e)) (\<lambda>a b. key a < key b) rs h0 =
      Some (h, snd (map_run key (map snd rs) Map.empty))"
    and t: "table_map key g h (fst (map_run key (map snd rs) Map.empty))"
    using table_map_run [OF h0(2), of rs] by blast
  show ?thesis
    by (intro exI [of _ h0] exI [of _ h] conjI allI h0(1) h table_map_find [OF t] table_map_size [OF t])
qed

text \<open>
  Iterating from \<open>hash_first\<close> with \<open>hash_next\<close> over the table reached by any sequence of
  requests returns every element of the map exactly once and then null.
\<close>

theorem hash_iteration_complete:
  fixes key :: "'e \<Rightarrow> 'k :: linorder" and g :: "'k \<Rightarrow> u64"
  shows "\<exists>h0 h es. hash_init True = Some h0 \<and>
    hash_run (\<lambda>e. g (key e)) (\<lambda>a b. key a < key b) rs h0 = Some (h, snd (map_run key (map snd rs) Map.empty)) \<and>
    iterate_hash h (Suc (hash_size h)) hash_first = map Some es @ [None] \<and> distinct es \<and>
    set es = ran (fst (map_run key (map snd rs) Map.empty))"
proof -
  obtain h0 :: "'e htable" where h0: "hash_init True = Some h0" "table_map key g h0 Map.empty"
    using table_map_init by blast
  obtain h where h: "hash_run (\<lambda>e. g (key e)) (\<lambda>a b. key a < key b) rs h0 =
      Some (h, snd (map_run key (map snd rs) Map.empty))"
    and t: "table_map key g h (fst (map_run key (map snd rs) Map.empty))"
    using table_map_run [OF h0(2), of rs] by blast
  have w: "pow2_buckets h" "hash_size h = length (hash_elems h)" "distinct (hash_elems h)"
    using t by (simp_all add: table_map_def hash_wf_def no_equals_def hash_size_def)
  moreover have "set (hash_elems h) = ran (fst (map_run key (map snd rs) Map.empty))"
    using t by (auto simp: table_map_def represents_def ran_def)
  ultimately show ?thesis using h h0(1) iterate_hash_all [OF w(1)] by fastforce
qed

end
