(* ===== verification/FixedPoint.thy ===== *)
theory FixedPoint
  imports Prelude
begin

text \<open>
  The 17.14 fixed-point numbers of threads/thread.c and the formulas of the multi-level
  feedback queue scheduler built on them. An \<open>int\<close> expression is reduced to 32 bits where the
  code stores it in an \<open>int\<close>; the two products that the code forms in 64 bits are exact before
  the division.
\<close>

section \<open>Arithmetic\<close>

definition f :: int where "f = 2 ^ 14"

definition convert_ntox :: "int \<Rightarrow> int" where
  "convert_ntox n = int32 (n * f)"

definition convert_xton :: "int \<Rightarrow> int" where
  "convert_xton x = (if x \<ge> 0 then cdiv (int32 (x + f div 2)) f else cdiv (int32 (x - f div 2)) f)"

definition add_xandn :: "int \<Rightarrow> int \<Rightarrow> int" where
  "add_xandn x n = int32 (x + n * f)"

definition add_xandy :: "int \<Rightarrow> int \<Rightarrow> int" where
  "add_xandy x y = int32 (x + y)"

definition sub_nfromx :: "int \<Rightarrow> int \<Rightarrow> int" where
  "sub_nfromx x n = int32 (x - n * f)"

definition sub_yfromx :: "int \<Rightarrow> int \<Rightarrow> int" where
  "sub_yfromx x y = int32 (x - y)"

definition mult_xbyn :: "int \<Rightarrow> int \<Rightarrow> int" where
  "mult_xbyn x n = int32 (x * n)"

definition mult_xbyy :: "int \<Rightarrow> int \<Rightarrow> int" where
  "mult_xbyy x y = int32 (cdiv (x * y) f)"

definition divide_xbyn :: "int \<Rightarrow> int \<Rightarrow> int" where
  "divide_xbyn x n = cdiv x n"

definition divide_xbyy :: "int \<Rightarrow> int \<Rightarrow> int" where
  "divide_xbyy x y = int32 (cdiv (x * f) y)"

text \<open>The macros \<open>load_fir_co\<close> and \<open>load_sec_co\<close>: 59/60 and 1/60.\<close>

definition load_fir_co :: int where "load_fir_co = divide_xbyn (convert_ntox 59) 60"
definition load_sec_co :: int where "load_sec_co = divide_xbyn (convert_ntox 1) 60"

section \<open>The scheduler's formulas\<close>

text \<open>The right-hand sides of \<open>calculate_priority\<close>, \<open>calculate_load_avg\<close> and \<open>recalculate_recent_cpu\<close>.\<close>

definition mlfqs_priority :: "int \<Rightarrow> int \<Rightarrow> int" where
  "mlfqs_priority recent_cpu nice =
     convert_xton (add_xandn (divide_xbyn recent_cpu (- 4)) (63 - nice * 2))"

definition mlfqs_load_avg :: "int \<Rightarrow> int \<Rightarrow> int" where
  "mlfqs_load_avg load_avg ready_threads =
     int32 (mult_xbyy load_fir_co load_avg + mult_xbyn load_sec_co ready_threads)"

definition mlfqs_recent_cpu :: "int \<Rightarrow> int \<Rightarrow> int \<Rightarrow> int" where
  "mlfqs_recent_cpu load_avg recent_cpu nice =
     int32 (mult_xbyy (divide_xbyy (mult_xbyn load_avg 2) (int32 (mult_xbyn load_avg 2 + convert_ntox 1))) recent_cpu
       + convert_ntox nice)"

section \<open>Division\<close>

lemma cdiv_bounds_nonneg: "0 \<le> a \<Longrightarrow> 0 < b \<Longrightarrow> cdiv a b * b \<le> a \<and> a < cdiv a b * b + b"
  using div_mult_mod_eq [of a b] pos_mod_bound [of b a] pos_mod_sign [of b a]
  unfolding cdiv_nonneg by linarith

lemma cdiv_bounds_neg: "a < 0 \<Longrightarrow> 0 < b \<Longrightarrow> a \<le> cdiv a b * b \<and> cdiv a b * b < a + b"
  using div_mult_mod_eq [of "- a" b] pos_mod_bound [of b "- a"] pos_mod_sign [of b "- a"]
  unfolding cdiv_neg minus_mult_left [symmetric] by linarith

lemma cdiv_minus: "a \<noteq> 0 \<Longrightarrow> b \<noteq> 0 \<Longrightarrow> cdiv (- a) b = - cdiv a b"
  by (auto simp: cdiv_def)

lemma load_co_values: "load_fir_co = 16110" "load_sec_co = 273"
  by (simp_all add: load_fir_co_def load_sec_co_def convert_ntox_def divide_xbyn_def int32_def f_def cdiv_def)

section \<open>What the formulas promise\<close>

text \<open>
  \<open>convert_xton\<close> rounds a fixed-point number to the nearest integer: the result differs from
  the number by at most one half, whatever its sign, as long as adding the half does not overflow.
\<close>

lemma convert_xton_nearest:
  assumes "\<bar>x\<bar> < 2 ^ 31 - 2 ^ 13"
  shows "2 * \<bar>convert_xton x * f - x\<bar> \<le> f"
proof (cases "x \<ge> 0")
  case True
  then have "int32 (x + f div 2) = x + f div 2" using assms by (intro int32_id) (auto simp: f_def)
  then show ?thesis
    using True cdiv_bounds_nonneg [of "x + f div 2" f] by (simp add: convert_xton_def f_def abs_le_iff)
next
  case False
  then have "int32 (x - f div 2) = x - f div 2" using assms by (intro int32_id) (auto simp: f_def)
  then show ?thesis
    using False cdiv_bounds_neg [of "x - f div 2" f] by (simp add: convert_xton_def f_def abs_le_iff)
qed

theorem convert_xton_nearest_witness:
  "2 * \<bar>convert_xton (- 24577) * f - (- 24577)\<bar> \<le> f \<and> convert_xton (- 24577) = - 2"
  using convert_xton_nearest [of "- 24577"]
  by (simp add: convert_xton_def f_def int32_def cdiv_def)

text \<open>
  \<open>calculate_load_avg\<close> keeps the load average a weighted mean: it is never negative, and
  never above the largest number of ready threads (of less than 2000) it has been given.
\<close>

theorem load_avg_bounded:
  assumes "0 \<le> load_avg" and "load_avg \<le> n * f" and "0 \<le> ready" and "ready \<le> n" and "n < 2000"
  shows "0 \<le> mlfqs_load_avg load_avg ready \<and> mlfqs_load_avg load_avg ready \<le> n * f"
proof -
  have l: "load_avg \<le> n * 16384" using assms(2) by (simp add: f_def)
  have "0 \<le> 16110 * load_avg" using assms(1) by simp
  then have b: "cdiv (16110 * load_avg) f * 16384 \<le> 16110 * load_avg" "0 \<le> cdiv (16110 * load_avg) f"
    using cdiv_bounds_nonneg [of "16110 * load_avg" f] by (simp_all add: f_def cdiv_nonneg)
  have c: "cdiv (16110 * load_avg) f \<le> 16110 * n" using b(1) l by linarith
  have m: "mult_xbyy 16110 load_avg = cdiv (16110 * load_avg) f"
    unfolding mult_xbyy_def by (rule int32_id) (use b c assms in simp_all)
  have s: "mult_xbyn 273 ready = 273 * ready"
    unfolding mult_xbyn_def using assms by (intro int32_id) auto
  have "mlfqs_load_avg load_avg ready = cdiv (16110 * load_avg) f + 273 * ready"
    unfolding mlfqs_load_avg_def load_co_values m s
    by (rule int32_id) (use b c assms in simp_all)
  then show ?thesis using b c assms by (simp add: f_def)
qed

theorem load_avg_bounded_witness:
  "0 \<le> mlfqs_load_avg (3 * f) 2 \<and> mlfqs_load_avg (3 * f) 2 \<le> 5 * f"
  using load_avg_bounded [of "3 * f" 5 2] by (simp add: f_def)

end
