(* ===== verification/Kernel.thy ===== *)
theory Kernel
  imports KQueue FixedPoint
begin

text \<open>
  Threads, the scheduler, synchronization and the timer: threads/thread.c, threads/synch.c and
  the timer interrupt of devices/timer.c, over one kernel state.

  A function that gives up the processor in the middle is cut there: it pushes what is left of
  it as frames on its thread's stack of frames and switches. A step of the kernel takes the top
  frame of the running thread and executes it. Where the code runs with interrupts enabled, its
  statements are frames of their own, so that an interrupt can come between any two of them.
  A failed \<open>ASSERT\<close>, a null dereference, an access to a freed thread and the use of a list whose
  links have been lost are \<open>None\<close>. Lists are the sequences of the threads they link, as the
  theories on lists justify.
\<close>

section \<open>State\<close>

datatype thread_status = THREAD_RUNNING | THREAD_READY | THREAD_BLOCKED | THREAD_DYING

abbreviation (input) PRI_MIN :: int where "PRI_MIN \<equiv> 0"
abbreviation (input) PRI_DEFAULT :: int where "PRI_DEFAULT \<equiv> 31"
abbreviation (input) PRI_MAX :: int where "PRI_MAX \<equiv> 63"

text \<open>
  A \<open>struct semaphore\<close> stands by itself, is part of a lock, or lives on the stack of a thread
  that waits in \<open>cond_wait\<close> or \<open>thread_start\<close>.
\<close>

datatype sema_id = Sema nat | LockSema nat | StackSema addr

record semaphore =
  sema_value :: u32
  waiters :: "addr list"

datatype frame =
    IntrSetLevel bool
  | SemaDownCall sema_id
  | SemaDownLoop sema_id
  | SemaUpCall sema_id
  | LockAcquireCall nat
  | LockWaitOn nat
  | LockDonate nat
  | PriorityDonation
  | LockClearWait
  | LockSetHolder nat
  | LockReleaseCall nat
  | RemoveDonation nat
  | RePriority
  | LockDrop nat
  | CondSignalCall nat nat
  | CondBroadcastLoop nat nat
  | ComparePriority
  | ThreadSleep int
  | AllocateTid addr
  | CreateUnblock addr
  | CreateChild addr
  | KernelThread
  | StartCall addr
  | StartEnable
  | IdleInit sema_id
  | IdleLoop
  | IdleHlt
  | IntqResume nat

text \<open>\<open>donates_to\<close> says into whose list of donations \<open>d_elem\<close> has last been linked.\<close>

record thread =
  tid :: int
  status :: thread_status
  priority :: int
  init_priority :: int
  awake :: int
  wait_on_lock :: "nat option"
  donations :: "addr list"
  donates_to :: "addr option"
  nice :: int
  recent_cpu :: int
  child_list :: "addr list"
  pml4 :: addr
  frames :: "frame list"

text \<open>
  \<open>pages\<close> are the addresses of the thread pages in use. \<open>past_empty s\<close> is what the priority
  field reads as in the memory around the list head of \<open>s\<close>, when the list is empty and its
  end is taken for a thread. The fields \<open>not_full\<close> and \<open>not_empty\<close> of the interrupt queues of
  devices/intq.c, where one thread each can wait, are numbered: \<open>intq_waiter\<close>.
\<close>

record kernel =
  thr :: "addr \<Rightarrow> thread"
  pages :: "addr set"
  all_list :: "addr list"
  ready_list :: "addr list"
  sleep_list :: "addr list"
  destruction_req :: "addr list"
  current :: addr
  idle_thread :: "addr option"
  initial_thread :: addr
  semas :: "sema_id \<Rightarrow> semaphore"
  holder :: "nat \<Rightarrow> addr option"
  conds :: "nat \<Rightarrow> sema_id list"
  intq_waiter :: "nat \<Rightarrow> addr option"
  next_tid :: int
  thread_mlfqs :: bool
  load_avg :: int
  ticks :: int
  thread_ticks :: nat
  idle_ticks :: int
  user_ticks :: int
  kernel_ticks :: int
  intr_on :: bool
  in_external_intr :: bool
  yield_on_return :: bool
  past_empty :: "sema_id \<Rightarrow> int"

definition upd_thread :: "addr \<Rightarrow> (thread \<Rightarrow> thread) \<Rightarrow> kernel \<Rightarrow> kernel" where
  "upd_thread t g k = k\<lparr>thr := (thr k)(t := g (thr k t))\<rparr>"

definition upd_sema :: "sema_id \<Rightarrow> (semaphore \<Rightarrow> semaphore) \<Rightarrow> kernel \<Rightarrow> kernel" where
  "upd_sema s g k = k\<lparr>semas := (semas k)(s := g (semas k s))\<rparr>"

definition push_frames :: "frame list \<Rightarrow> kernel \<Rightarrow> kernel" where
  "push_frames fs k = upd_thread (current k) (frames_update (\<lambda>gs. fs @ gs)) k"

text \<open>\<open>is_thread\<close>: a page in use holds a thread whose \<open>magic\<close> is intact.\<close>

definition is_thread :: "kernel \<Rightarrow> addr \<Rightarrow> bool" where
  "is_thread k t \<longleftrightarrow> t \<in> pages k"

definition thread_current :: "kernel \<Rightarrow> addr option" where
  "thread_current k = do {
     ASSERT (is_thread k (current k));
     ASSERT (status (thr k (current k)) = THREAD_RUNNING);
     Some (current k) }"

section \<open>The scheduler\<close>

definition cmp_priority :: "kernel \<Rightarrow> addr \<Rightarrow> addr \<Rightarrow> bool" where
  "cmp_priority k a b \<longleftrightarrow> priority (thr k a) > priority (thr k b)"

definition cmp_donation_priority :: "kernel \<Rightarrow> addr \<Rightarrow> addr \<Rightarrow> bool" where
  "cmp_donation_priority k a b \<longleftrightarrow> priority (thr k a) > priority (thr k b)"

text \<open>\<open>list_sort\<close> with a comparison that puts higher values of \<open>key\<close> first.\<close>

abbreviation sort_down :: "('e \<Rightarrow> int) \<Rightarrow> 'e list \<Rightarrow> 'e list" where
  "sort_down key \<equiv> sort_key (\<lambda>e. - key e)"

definition thread_unblock :: "addr \<Rightarrow> kernel \<Rightarrow> kernel option" where
  "thread_unblock t k = do {
     ASSERT (is_thread k t);
     ASSERT (status (thr k t) = THREAD_BLOCKED);
     let k = k\<lparr>ready_list := insert_ordered (cmp_priority k) t (ready_list k)\<rparr>;
     Some (upd_thread t (status_update (\<lambda>_. THREAD_READY)) k) }"

definition next_thread_to_run :: "kernel \<Rightarrow> kernel \<times> addr option" where
  "next_thread_to_run k =
     (case ready_list k of
        [] \<Rightarrow> (k, idle_thread k)
      | t # ts \<Rightarrow> (k\<lparr>ready_list := ts\<rparr>, Some t))"

text \<open>\<open>schedule\<close> from the marking of the next thread on.\<close>

definition switch_to :: "addr \<Rightarrow> kernel \<Rightarrow> kernel" where
  "switch_to nxt k =
     (let cur = current k;
          k = upd_thread nxt (status_update (\<lambda>_. THREAD_RUNNING)) k;
          k = k\<lparr>thread_ticks := 0\<rparr>
      in if cur = nxt then k
         else let k = (if status (thr k cur) = THREAD_DYING \<and> cur \<noteq> initial_thread k
                       then k\<lparr>destruction_req := destruction_req k @ [cur]\<rparr> else k)
              in k\<lparr>current := nxt\<rparr>)"

definition schedule :: "kernel \<Rightarrow> kernel option" where
  "schedule k = do {
     let cur = current k;
     (k, nxt) \<leftarrow> Some (next_thread_to_run k);
     ASSERT (\<not> intr_on k);
     ASSERT (status (thr k cur) \<noteq> THREAD_RUNNING);
     nxt \<leftarrow> nxt;
     ASSERT (is_thread k nxt);
     Some (switch_to nxt k) }"

definition do_schedule :: "thread_status \<Rightarrow> kernel \<Rightarrow> kernel option" where
  "do_schedule st k = do {
     ASSERT (\<not> intr_on k);
     cur \<leftarrow> thread_current k;
     let k = k\<lparr>pages := pages k - set (destruction_req k), destruction_req := []\<rparr>;
     cur \<leftarrow> thread_current k;
     schedule (upd_thread cur (status_update (\<lambda>_. st)) k) }"

definition thread_block :: "kernel \<Rightarrow> kernel option" where
  "thread_block k = do {
     ASSERT (\<not> in_external_intr k);
     ASSERT (\<not> intr_on k);
     cur \<leftarrow> thread_current k;
     schedule (upd_thread cur (status_update (\<lambda>_. THREAD_BLOCKED)) k) }"

definition thread_yield :: "kernel \<Rightarrow> kernel option" where
  "thread_yield k = do {
     cur \<leftarrow> thread_current k;
     ASSERT (\<not> in_external_intr k);
     let k = push_frames [IntrSetLevel (intr_on k)] k;
     let k = k\<lparr>intr_on := False\<rparr>;
     let k = (if Some cur \<noteq> idle_thread k
              then k\<lparr>ready_list := insert_ordered (cmp_priority k) cur (ready_list k)\<rparr> else k);
     do_schedule THREAD_READY k }"

definition thread_compare_priority :: "kernel \<Rightarrow> kernel option" where
  "thread_compare_priority k = do {
     cur \<leftarrow> thread_current k;
     if in_external_intr k then Some k
     else if ready_list k \<noteq> [] \<and> priority (thr k cur) < priority (thr k (hd (ready_list k)))
     then thread_yield k
     else Some k }"

definition thread_exit :: "kernel \<Rightarrow> kernel option" where
  "thread_exit k = do {
     ASSERT (\<not> in_external_intr k);
     cur \<leftarrow> thread_current k;
     let k = k\<lparr>intr_on := False\<rparr>;
     let k = k\<lparr>all_list := remove1 cur (all_list k)\<rparr>;
     let k = upd_thread cur (frames_update (\<lambda>_. [])) k;
     do_schedule THREAD_DYING k }"

definition thread_sleep :: "int \<Rightarrow> kernel \<Rightarrow> kernel option" where
  "thread_sleep until k = do {
     cur \<leftarrow> thread_current k;
     if Some cur = idle_thread k then Some k
     else do {
       let k = push_frames [IntrSetLevel (intr_on k)] k;
       let k = k\<lparr>intr_on := False\<rparr>;
       let k = upd_thread cur (awake_update (\<lambda>_. until)) k;
       let k = k\<lparr>sleep_list := sleep_list k @ [cur]\<rparr>;
       thread_block k } }"

definition timer_sleep :: "int \<Rightarrow> kernel \<Rightarrow> kernel option" where
  "timer_sleep n k = Some (push_frames [ThreadSleep (n + ticks k)] k)"

text \<open>The loop of \<open>thread_awake\<close> over the rest \<open>ts\<close> of the sleep list.\<close>

fun awake_loop :: "int \<Rightarrow> addr list \<Rightarrow> kernel \<Rightarrow> kernel option" where
  "awake_loop now [] k = Some k"
| "awake_loop now (t # ts) k =
     (if awake (thr k t) \<le> now
      then do {
        k \<leftarrow> thread_unblock t (k\<lparr>sleep_list := remove1 t (sleep_list k)\<rparr>);
        awake_loop now ts k }
      else awake_loop now ts k)"

definition thread_awake :: "int \<Rightarrow> kernel \<Rightarrow> kernel option" where
  "thread_awake now k = awake_loop now (sleep_list k) k"


section \<open>Semaphores\<close>

definition sema_init :: "sema_id \<Rightarrow> u32 \<Rightarrow> kernel \<Rightarrow> kernel" where
  "sema_init s v k = upd_sema s (\<lambda>_. \<lparr>sema_value = v, waiters = []\<rparr>) k"

definition sema_down :: "sema_id \<Rightarrow> kernel \<Rightarrow> kernel option" where
  "sema_down s k = do {
     ASSERT (\<not> in_external_intr k);
     let k = push_frames [SemaDownLoop s, IntrSetLevel (intr_on k)] k;
     Some (k\<lparr>intr_on := False\<rparr>) }"

definition sema_down_loop :: "sema_id \<Rightarrow> kernel \<Rightarrow> kernel option" where
  "sema_down_loop s k =
     (if sema_value (semas k s) = 0 then do {
        cur \<leftarrow> thread_current k;
        let k = upd_sema s (waiters_update (insert_ordered (cmp_priority k) cur)) k;
        thread_block (push_frames [SemaDownLoop s] k) }
      else Some (upd_sema s (sema_value_update (\<lambda>v. v - 1)) k))"

definition sema_try_down :: "sema_id \<Rightarrow> kernel \<Rightarrow> kernel \<times> bool" where
  "sema_try_down s k =
     (if sema_value (semas k s) > 0
      then (upd_sema s (sema_value_update (\<lambda>v. v - 1)) k, True)
      else (k, False))"

text \<open>\<open>sema_up\<close> between disabling interrupts and restoring them.\<close>

definition sema_up_wake :: "sema_id \<Rightarrow> kernel \<Rightarrow> kernel option" where
  "sema_up_wake s k =
     (case sort_down (\<lambda>t. priority (thr k t)) (waiters (semas k s)) of
        [] \<Rightarrow> Some k
      | t # ts \<Rightarrow> thread_unblock t (upd_sema s (waiters_update (\<lambda>_. ts)) k))"

definition sema_up_body :: "sema_id \<Rightarrow> kernel \<Rightarrow> kernel option" where
  "sema_up_body s k = do {
     k \<leftarrow> sema_up_wake s k;
     let k = upd_sema s (sema_value_update (\<lambda>v. v + 1)) k;
     thread_compare_priority k }"

definition sema_up :: "sema_id \<Rightarrow> kernel \<Rightarrow> kernel option" where
  "sema_up s k = (let k = push_frames [IntrSetLevel (intr_on k)] k in sema_up_body s (k\<lparr>intr_on := False\<rparr>))"

section \<open>Priority donation\<close>

fun donation_loop :: "nat \<Rightarrow> addr \<Rightarrow> kernel \<Rightarrow> kernel option" where
  "donation_loop 0 cur k = Some k"
| "donation_loop (Suc n) cur k =
     (case wait_on_lock (thr k cur) of
        None \<Rightarrow> Some k
      | Some l \<Rightarrow> do {
          h \<leftarrow> holder k l;
          ASSERT (is_thread k h);
          donation_loop n h (upd_thread h (priority_update (\<lambda>_. priority (thr k cur))) k) })"

definition priority_donation :: "kernel \<Rightarrow> kernel option" where
  "priority_donation k = do { cur \<leftarrow> thread_current k; donation_loop 8 cur k }"

text \<open>
  The list of donations of \<open>h\<close> can be followed only while each of its members still is a thread
  and has not been linked into another list since.
\<close>

definition donors_ok :: "addr \<Rightarrow> kernel \<Rightarrow> bool" where
  "donors_ok h k \<longleftrightarrow> (\<forall>t\<in>set (donations (thr k h)). is_thread k t \<and> donates_to (thr k t) = Some h)"

definition unlink_donors :: "addr list \<Rightarrow> kernel \<Rightarrow> kernel" where
  "unlink_donors ts k = fold (\<lambda>t. upd_thread t (donates_to_update (\<lambda>_. None))) ts k"

definition remove_donation :: "nat \<Rightarrow> kernel \<Rightarrow> kernel option" where
  "remove_donation l k = do {
     cur \<leftarrow> thread_current k;
     ASSERT (donors_ok cur k);
     let gone = filter (\<lambda>t. wait_on_lock (thr k t) = Some l) (donations (thr k cur));
     let k = upd_thread cur (donations_update (\<lambda>_. filter (\<lambda>t. wait_on_lock (thr k t) \<noteq> Some l)
       (donations (thr k cur)))) k;
     Some (unlink_donors gone k) }"

definition re_priority :: "kernel \<Rightarrow> kernel option" where
  "re_priority k = do {
     cur \<leftarrow> thread_current k;
     let k = upd_thread cur (\<lambda>c. c\<lparr>priority := init_priority c\<rparr>) k;
     ASSERT (donors_ok cur k);
     let ds = sort_down (\<lambda>t. priority (thr k t)) (donations (thr k cur));
     if ds = [] then Some k
     else do {
       let k = upd_thread cur (donations_update (\<lambda>_. ds)) k;
       if priority (thr k cur) < priority (thr k (hd ds))
       then Some (upd_thread cur (priority_update (\<lambda>_. priority (thr k (hd ds)))) k)
       else Some k } }"

definition thread_set_priority :: "int \<Rightarrow> kernel \<Rightarrow> kernel option" where
  "thread_set_priority new_priority k =
     (if thread_mlfqs k then Some k
      else do {
        cur \<leftarrow> thread_current k;
        let k = upd_thread cur (init_priority_update (\<lambda>_. new_priority)) k;
        Some (push_frames [RePriority, ComparePriority] k) })"

section \<open>Locks\<close>

definition lock_init :: "nat \<Rightarrow> kernel \<Rightarrow> kernel" where
  "lock_init l k = sema_init (LockSema l) 1 (k\<lparr>holder := (holder k)(l := None)\<rparr>)"

definition lock_held_by_current_thread :: "nat \<Rightarrow> kernel \<Rightarrow> bool option" where
  "lock_held_by_current_thread l k = do { cur \<leftarrow> thread_current k; Some (holder k l = Some cur) }"

definition lock_acquire :: "nat \<Rightarrow> kernel \<Rightarrow> kernel option" where
  "lock_acquire l k = do {
     ASSERT (\<not> in_external_intr k);
     h \<leftarrow> lock_held_by_current_thread l k;
     ASSERT (\<not> h);
     if thread_mlfqs k then Some (push_frames [SemaDownCall (LockSema l), LockSetHolder l] k)
     else do {
       let k = push_frames [SemaDownCall (LockSema l), LockClearWait, LockSetHolder l] k;
       Some (if holder k l \<noteq> None then push_frames [LockWaitOn l, LockDonate l, PriorityDonation] k else k) } }"

text \<open>
  \<open>list_insert_ordered (&lock->holder->donations, &curr->d_elem, ...)\<close>. An element that is in the
  list already would be linked twice.
\<close>

definition lock_donate :: "nat \<Rightarrow> kernel \<Rightarrow> kernel option" where
  "lock_donate l k = do {
     cur \<leftarrow> thread_current k;
     h \<leftarrow> holder k l;
     ASSERT (is_thread k h);
     ASSERT (donors_ok h k);
     ASSERT (cur \<notin> set (donations (thr k h)));
     let k = upd_thread h (donations_update (insert_ordered (cmp_donation_priority k) cur)) k;
     Some (upd_thread cur (donates_to_update (\<lambda>_. Some h)) k) }"

definition lock_try_acquire :: "nat \<Rightarrow> kernel \<Rightarrow> (kernel \<times> bool) option" where
  "lock_try_acquire l k = do {
     h \<leftarrow> lock_held_by_current_thread l k;
     ASSERT (\<not> h);
     (k, success) \<leftarrow> Some (sema_try_down (LockSema l) k);
     Some (if success then push_frames [LockSetHolder l] k else k, success) }"

definition lock_release :: "nat \<Rightarrow> kernel \<Rightarrow> kernel option" where
  "lock_release l k = do {
     h \<leftarrow> lock_held_by_current_thread l k;
     ASSERT h;
     if thread_mlfqs k then Some (push_frames [LockDrop l] k)
     else Some (push_frames [RemoveDonation l, RePriority, LockDrop l] k) }"

text \<open>\<open>lock->holder = NULL\<close>, followed by the call of \<open>sema_up\<close>.\<close>

definition lock_drop :: "nat \<Rightarrow> kernel \<Rightarrow> kernel option" where
  "lock_drop l k = Some (push_frames [SemaUpCall (LockSema l)] (k\<lparr>holder := (holder k)(l := None)\<rparr>))"

section \<open>Condition variables\<close>

definition sema_first_priority :: "kernel \<Rightarrow> sema_id \<Rightarrow> int" where
  "sema_first_priority k s =
     (case waiters (semas k s) of [] \<Rightarrow> past_empty k s | t # _ \<Rightarrow> priority (thr k t))"

definition sema_cmp_priority :: "kernel \<Rightarrow> sema_id \<Rightarrow> sema_id \<Rightarrow> bool" where
  "sema_cmp_priority k a b \<longleftrightarrow> sema_first_priority k a > sema_first_priority k b"

definition cond_init :: "nat \<Rightarrow> kernel \<Rightarrow> kernel" where
  "cond_init c k = k\<lparr>conds := (conds k)(c := [])\<rparr>"

definition cond_wait :: "nat \<Rightarrow> nat \<Rightarrow> kernel \<Rightarrow> kernel option" where
  "cond_wait c l k = do {
     ASSERT (\<not> in_external_intr k);
     h \<leftarrow> lock_held_by_current_thread l k;
     ASSERT h;
     let waiter = StackSema (current k);
     let k = sema_init waiter 0 k;
     let k = k\<lparr>conds := (conds k)(c := insert_ordered (sema_cmp_priority k) waiter (conds k c))\<rparr>;
     Some (push_frames [LockReleaseCall l, SemaDownCall waiter, LockAcquireCall l] k) }"

definition cond_signal :: "nat \<Rightarrow> nat \<Rightarrow> kernel \<Rightarrow> kernel option" where
  "cond_signal c l k = do {
     ASSERT (\<not> in_external_intr k);
     h \<leftarrow> lock_held_by_current_thread l k;
     ASSERT h;
     let ws = (if conds k c \<noteq> [] then sort_down (sema_first_priority k) (conds k c) else []);
     ASSERT (ws \<noteq> []);
     Some (push_frames [SemaUpCall (hd ws)] (k\<lparr>conds := (conds k)(c := tl ws)\<rparr>)) }"

definition cond_broadcast_loop :: "nat \<Rightarrow> nat \<Rightarrow> kernel \<Rightarrow> kernel option" where
  "cond_broadcast_loop c l k =
     Some (if conds k c \<noteq> [] then push_frames [CondSignalCall c l, CondBroadcastLoop c l] k else k)"


section \<open>Creating threads\<close>

text \<open>The lock \<open>tid_lock\<close> is lock 0.\<close>

abbreviation (input) tid_lock :: nat where "tid_lock \<equiv> 0"

definition init_thread :: "addr \<Rightarrow> int \<Rightarrow> frame list \<Rightarrow> kernel \<Rightarrow> kernel option" where
  "init_thread t p body k = do {
     ASSERT (PRI_MIN \<le> p \<and> p \<le> PRI_MAX);
     Some (k\<lparr>
       thr := (thr k)(t := \<lparr>tid = 0, status = THREAD_BLOCKED, priority = p, init_priority = p,
         awake = 0, wait_on_lock = None, donations = [], donates_to = None, nice = 0, recent_cpu = 0,
         child_list = [], pml4 = 0, frames = body\<rparr>),
       pages := insert t (pages k),
       all_list := all_list k @ [t]\<rparr>) }"

text \<open>
  \<open>page\<close> is the result of \<open>palloc_get_page\<close>, a page not in use, and \<open>fdt_ok\<close> says whether
  \<open>palloc_get_multiple\<close> returned the table of files; \<open>body\<close> is what the thread executes.
\<close>

definition thread_create :: "addr option \<Rightarrow> bool \<Rightarrow> int \<Rightarrow> frame list \<Rightarrow> kernel \<Rightarrow> kernel option" where
  "thread_create page fdt_ok p body k =
     (case page of
        None \<Rightarrow> Some k
      | Some t \<Rightarrow> do {
          k \<leftarrow> init_thread t p (KernelThread # body) k;
          if \<not> fdt_ok then Some k
          else Some (push_frames [LockAcquireCall tid_lock, AllocateTid t, LockReleaseCall tid_lock,
            CreateUnblock t, ComparePriority, CreateChild t] k) })"

definition thread_init :: "addr \<Rightarrow> addr \<Rightarrow> bool \<Rightarrow> (sema_id \<Rightarrow> int) \<Rightarrow> kernel option" where
  "thread_init main idle_page mlfqs junk = do {
     let k = \<lparr>thr = (\<lambda>_. \<lparr>tid = 0, status = THREAD_BLOCKED, priority = 0, init_priority = 0, awake = 0,
         wait_on_lock = None, donations = [], donates_to = None, nice = 0, recent_cpu = 0,
         child_list = [], pml4 = 0, frames = []\<rparr>),
       pages = {}, all_list = [], ready_list = [], sleep_list = [], destruction_req = [],
       current = main, idle_thread = None, initial_thread = main,
       semas = (\<lambda>_. \<lparr>sema_value = 0, waiters = []\<rparr>), holder = (\<lambda>_. None), conds = (\<lambda>_. []),
       intq_waiter = (\<lambda>_. None),
       next_tid = 1, thread_mlfqs = mlfqs, load_avg = 0, ticks = 0, thread_ticks = 0,
       idle_ticks = 0, user_ticks = 0, kernel_ticks = 0, intr_on = False,
       in_external_intr = False, yield_on_return = False, past_empty = junk\<rparr>;
     let k = lock_init tid_lock k;
     k \<leftarrow> init_thread main PRI_DEFAULT
       [LockAcquireCall tid_lock, AllocateTid main, LockReleaseCall tid_lock, StartCall idle_page] k;
     Some (upd_thread main (status_update (\<lambda>_. THREAD_RUNNING)) k) }"

definition allocate_tid :: "addr \<Rightarrow> kernel \<Rightarrow> kernel" where
  "allocate_tid t k = upd_thread t (tid_update (\<lambda>_. next_tid k)) (k\<lparr>next_tid := next_tid k + 1\<rparr>)"

definition thread_start :: "addr \<Rightarrow> kernel \<Rightarrow> kernel option" where
  "thread_start idle_page k = do {
     cur \<leftarrow> thread_current k;
     let idle_started = StackSema cur;
     let k = sema_init idle_started 0 k;
     let k = push_frames [StartEnable, SemaDownCall idle_started] k;
     thread_create (Some idle_page) True PRI_MIN [IdleInit idle_started] k }"

definition idle_init :: "sema_id \<Rightarrow> kernel \<Rightarrow> kernel option" where
  "idle_init s k = do {
     cur \<leftarrow> thread_current k;
     Some (push_frames [SemaUpCall s, IdleLoop] (k\<lparr>idle_thread := Some cur\<rparr>)) }"

definition idle_loop :: "kernel \<Rightarrow> kernel option" where
  "idle_loop k = thread_block (push_frames [IdleHlt] (k\<lparr>intr_on := False\<rparr>))"

section \<open>Waiting for an interrupt queue\<close>

text \<open>
  \<open>wait\<close> and \<open>signal\<close> of devices/intq.c, on the field \<open>w\<close>. The queue itself, and with it the
  condition waited for, is in IntQueue.
\<close>

definition wait_intq :: "nat \<Rightarrow> kernel \<Rightarrow> kernel option" where
  "wait_intq w k = do {
     ASSERT (\<not> in_external_intr k);
     ASSERT (\<not> intr_on k);
     cur \<leftarrow> thread_current k;
     let k = push_frames [IntqResume w] k;
     let k = k\<lparr>intq_waiter := (intq_waiter k)(w := Some cur)\<rparr>;
     thread_block k }"

definition signal_intq :: "nat \<Rightarrow> kernel \<Rightarrow> kernel option" where
  "signal_intq w k = do {
     ASSERT (\<not> intr_on k);
     case intq_waiter k w of
       None \<Rightarrow> Some k
     | Some t \<Rightarrow> do {
         k \<leftarrow> thread_unblock t k;
         Some (k\<lparr>intq_waiter := (intq_waiter k)(w := None)\<rparr>) } }"

section \<open>The timer\<close>

definition thread_tick :: "kernel \<Rightarrow> kernel option" where
  "thread_tick k = do {
     t \<leftarrow> thread_current k;
     let k = (if Some t = idle_thread k then k\<lparr>idle_ticks := idle_ticks k + 1\<rparr>
              else if pml4 (thr k t) \<noteq> NULL then k\<lparr>user_ticks := user_ticks k + 1\<rparr>
              else k\<lparr>kernel_ticks := kernel_ticks k + 1\<rparr>);
     let k = k\<lparr>thread_ticks := Suc (thread_ticks k)\<rparr>;
     Some (if thread_ticks k \<ge> 4 then k\<lparr>yield_on_return := True\<rparr> else k) }"

definition calculate_priority :: "addr \<Rightarrow> kernel \<Rightarrow> kernel" where
  "calculate_priority t k =
     (if Some t = idle_thread k then k
      else upd_thread t (\<lambda>th. th\<lparr>priority := mlfqs_priority (recent_cpu th) (nice th)\<rparr>) k)"

definition calculate_recent_cpu :: "kernel \<Rightarrow> kernel" where
  "calculate_recent_cpu k =
     (if Some (current k) = idle_thread k then k
      else upd_thread (current k) (recent_cpu_update (\<lambda>c. add_xandn c 1)) k)"

definition calculate_load_avg :: "kernel \<Rightarrow> kernel" where
  "calculate_load_avg k =
     (let ready_threads = (if Some (current k) = idle_thread k then int (length (ready_list k))
                           else int (length (ready_list k)) + 1)
      in k\<lparr>load_avg := mlfqs_load_avg (load_avg k) ready_threads\<rparr>)"

definition recalculate_recent_cpu :: "kernel \<Rightarrow> kernel option" where
  "recalculate_recent_cpu k = do {
     ASSERT (all_list k \<noteq> []);
     Some (fold (\<lambda>t k. upd_thread t
       (\<lambda>th. th\<lparr>recent_cpu := mlfqs_recent_cpu (load_avg k) (recent_cpu th) (nice th)\<rparr>) k) (all_list k) k) }"

definition recalculate_priority :: "kernel \<Rightarrow> kernel option" where
  "recalculate_priority k = do {
     ASSERT (all_list k \<noteq> []);
     Some (fold calculate_priority (all_list k) k) }"

definition thread_set_nice :: "int \<Rightarrow> kernel \<Rightarrow> kernel option" where
  "thread_set_nice n k = do {
     cur \<leftarrow> thread_current k;
     let k = calculate_priority cur (upd_thread cur (nice_update (\<lambda>_. n)) k);
     Some (push_frames [ComparePriority] k) }"

definition thread_get_load_avg :: "kernel \<Rightarrow> int" where
  "thread_get_load_avg k = convert_xton (mult_xbyn (load_avg k) 100)"

definition thread_get_recent_cpu :: "kernel \<Rightarrow> int option" where
  "thread_get_recent_cpu k = do {
     cur \<leftarrow> thread_current k;
     Some (int32 (convert_xton (recent_cpu (thr k cur)) * 100)) }"

definition timer_mlfqs :: "kernel \<Rightarrow> kernel option" where
  "timer_mlfqs k = do {
     let k = calculate_recent_cpu k;
     if ticks k mod 4 = 0 then do {
       k \<leftarrow> recalculate_priority k;
       if ticks k mod 100 = 0 then recalculate_recent_cpu (calculate_load_avg k) else Some k }
     else Some k }"

definition timer_interrupt :: "kernel \<Rightarrow> kernel option" where
  "timer_interrupt k = do {
     let k = k\<lparr>ticks := ticks k + 1\<rparr>;
     k \<leftarrow> thread_tick k;
     k \<leftarrow> (if thread_mlfqs k then timer_mlfqs k else Some k);
     thread_awake (ticks k) k }"

text \<open>
  The handling of an external interrupt by \<open>intr_handler\<close> of threads/interrupt.c, around the
  handler of the device; returning from the interrupt enables interrupts again.
\<close>

definition intr_handler :: "(kernel \<Rightarrow> kernel option) \<Rightarrow> kernel \<Rightarrow> kernel option" where
  "intr_handler handler k = do {
     ASSERT (\<not> in_external_intr k);
     let k = k\<lparr>intr_on := False, in_external_intr := True, yield_on_return := False\<rparr>;
     k \<leftarrow> handler k;
     let k = k\<lparr>in_external_intr := False\<rparr>;
     if yield_on_return k then thread_yield (push_frames [IntrSetLevel True] k)
     else Some (k\<lparr>intr_on := True\<rparr>) }"


section \<open>Steps\<close>

fun exec_frame :: "frame \<Rightarrow> kernel \<Rightarrow> kernel option" where
  "exec_frame (IntrSetLevel b) k = Some (k\<lparr>intr_on := b\<rparr>)"
| "exec_frame (SemaDownCall s) k = sema_down s k"
| "exec_frame (SemaDownLoop s) k = sema_down_loop s k"
| "exec_frame (SemaUpCall s) k = sema_up s k"
| "exec_frame (LockAcquireCall l) k = lock_acquire l k"
| "exec_frame (LockWaitOn l) k = Some (upd_thread (current k) (wait_on_lock_update (\<lambda>_. Some l)) k)"
| "exec_frame (LockDonate l) k = lock_donate l k"
| "exec_frame PriorityDonation k = priority_donation k"
| "exec_frame LockClearWait k = Some (upd_thread (current k) (wait_on_lock_update (\<lambda>_. None)) k)"
| "exec_frame (LockSetHolder l) k = Some (k\<lparr>holder := (holder k)(l := Some (current k))\<rparr>)"
| "exec_frame (LockReleaseCall l) k = lock_release l k"
| "exec_frame (RemoveDonation l) k = remove_donation l k"
| "exec_frame RePriority k = re_priority k"
| "exec_frame (LockDrop l) k = lock_drop l k"
| "exec_frame (CondSignalCall c l) k = cond_signal c l k"
| "exec_frame (CondBroadcastLoop c l) k = cond_broadcast_loop c l k"
| "exec_frame ComparePriority k = thread_compare_priority k"
| "exec_frame (ThreadSleep until) k = thread_sleep until k"
| "exec_frame (AllocateTid t) k = Some (allocate_tid t k)"
| "exec_frame (CreateUnblock t) k = thread_unblock t k"
| "exec_frame (CreateChild t) k =
     Some (upd_thread (current k) (child_list_update (\<lambda>cs. cs @ [t])) k)"
| "exec_frame KernelThread k = Some (k\<lparr>intr_on := True\<rparr>)"
| "exec_frame (StartCall i) k = thread_start i k"
| "exec_frame StartEnable k = Some (k\<lparr>intr_on := True\<rparr>)"
| "exec_frame (IdleInit s) k = idle_init s k"
| "exec_frame IdleLoop k = idle_loop k"
| "exec_frame IdleHlt k = Some (push_frames [IdleLoop] (k\<lparr>intr_on := True\<rparr>))"
| "exec_frame (IntqResume w) k = Some k"

text \<open>The calls a thread can make when it runs its own code.\<close>

datatype call =
    CallSemaInit nat u32
  | CallSemaDown nat
  | CallSemaTryDown nat
  | CallSemaUp nat
  | CallLockInit nat
  | CallLockAcquire nat
  | CallLockTryAcquire nat
  | CallLockRelease nat
  | CallCondInit nat
  | CallCondWait nat nat
  | CallCondSignal nat nat
  | CallCondBroadcast nat nat
  | CallYield
  | CallSleep int
  | CallSetPriority int
  | CallSetNice int
  | CallCreate "addr option" bool int
  | CallIntrSetLevel bool
  | CallIntqWait nat
  | CallIntqSignal nat
  | CallExit

fun exec_call :: "call \<Rightarrow> kernel \<Rightarrow> kernel option" where
  "exec_call (CallSemaInit n v) k = Some (sema_init (Sema n) v k)"
| "exec_call (CallSemaDown n) k = sema_down (Sema n) k"
| "exec_call (CallSemaTryDown n) k = Some (fst (sema_try_down (Sema n) k))"
| "exec_call (CallSemaUp n) k = sema_up (Sema n) k"
| "exec_call (CallLockInit l) k = Some (lock_init l k)"
| "exec_call (CallLockAcquire l) k = lock_acquire l k"
| "exec_call (CallLockTryAcquire l) k = map_option fst (lock_try_acquire l k)"
| "exec_call (CallLockRelease l) k = lock_release l k"
| "exec_call (CallCondInit c) k = Some (cond_init c k)"
| "exec_call (CallCondWait c l) k = cond_wait c l k"
| "exec_call (CallCondSignal c l) k = cond_signal c l k"
| "exec_call (CallCondBroadcast c l) k = cond_broadcast_loop c l k"
| "exec_call CallYield k = thread_yield k"
| "exec_call (CallSleep n) k = timer_sleep n k"
| "exec_call (CallSetPriority p) k = thread_set_priority p k"
| "exec_call (CallSetNice n) k = thread_set_nice n k"
| "exec_call (CallCreate page fdt_ok p) k = thread_create page fdt_ok p [] k"
| "exec_call (CallIntrSetLevel b) k = Some (k\<lparr>intr_on := b\<rparr>)"
| "exec_call (CallIntqWait w) k = wait_intq w k"
| "exec_call (CallIntqSignal w) k = signal_intq w k"
| "exec_call CallExit k = thread_exit k"

text \<open>
  What a caller has to respect: a semaphore, lock or condition is initialised only while no
  thread uses it, the page allocator hands out only pages not in use, and a thread waits for an
  interrupt queue only while nobody waits in the same field, as the lock of the queue ensures
  (\<open>no_waiters\<close> of IntQueue).
\<close>

definition idle_sema :: "kernel \<Rightarrow> sema_id \<Rightarrow> bool" where
  "idle_sema k s \<longleftrightarrow> waiters (semas k s) = [] \<and>
     (\<forall>t\<in>pages k. SemaDownLoop s \<notin> set (frames (thr k t)))"

definition idle_lock :: "kernel \<Rightarrow> nat \<Rightarrow> bool" where
  "idle_lock k l \<longleftrightarrow> idle_sema k (LockSema l) \<and> holder k l = None \<and>
     (\<forall>t\<in>pages k. LockSetHolder l \<notin> set (frames (thr k t)) \<and> SemaUpCall (LockSema l) \<notin> set (frames (thr k t)))"

fun call_ok :: "call \<Rightarrow> kernel \<Rightarrow> bool" where
  "call_ok (CallSemaInit n v) k \<longleftrightarrow> idle_sema k (Sema n)"
| "call_ok (CallLockInit l) k \<longleftrightarrow> idle_lock k l"
| "call_ok (CallCondInit c) k \<longleftrightarrow> conds k c = []"
| "call_ok (CallCreate (Some t) fdt_ok p) k \<longleftrightarrow> t \<notin> pages k"
| "call_ok (CallIntqWait w) k \<longleftrightarrow> intq_waiter k w = None"
| "call_ok _ k \<longleftrightarrow> True"

fun frame_ok :: "frame \<Rightarrow> kernel \<Rightarrow> bool" where
  "frame_ok (StartCall i) k \<longleftrightarrow> i \<notin> pages k"
| "frame_ok _ k \<longleftrightarrow> True"

definition pop_frame :: "kernel \<Rightarrow> kernel" where
  "pop_frame k = upd_thread (current k) (frames_update tl) k"

text \<open>
  What the handler of a device does to threads: it ups semaphores and signals interrupt queues,
  any number of times.
\<close>

datatype wakeup = WakeSema nat | WakeIntq nat

fun wake_up :: "wakeup \<Rightarrow> kernel \<Rightarrow> kernel option" where
  "wake_up (WakeSema n) k = sema_up_body (Sema n) k"
| "wake_up (WakeIntq w) k = signal_intq w k"

fun device_handler :: "wakeup list \<Rightarrow> kernel \<Rightarrow> kernel option" where
  "device_handler [] k = Some k"
| "device_handler (w # ws) k = Option.bind (wake_up w k) (device_handler ws)"

inductive kstep :: "kernel \<Rightarrow> kernel \<Rightarrow> bool" where
  Frame: "frames (thr k (current k)) = fr # fs \<Longrightarrow> frame_ok fr k \<Longrightarrow> exec_frame fr (pop_frame k) = Some k' \<Longrightarrow> kstep k k'"
| Call: "frames (thr k (current k)) = [] \<Longrightarrow> call_ok c k \<Longrightarrow> exec_call c k = Some k' \<Longrightarrow> kstep k k'"
| Timer: "intr_on k \<Longrightarrow> intr_handler timer_interrupt k = Some k' \<Longrightarrow> kstep k k'"
| Device: "intr_on k \<Longrightarrow> intr_handler (device_handler ws) k = Some k' \<Longrightarrow> kstep k k'"

inductive reachable :: "kernel \<Rightarrow> bool" where
  Boot: "thread_init main idle_page mlfqs junk = Some k \<Longrightarrow> reachable k"
| Step: "reachable k \<Longrightarrow> kstep k k' \<Longrightarrow> reachable k'"

inductive_cases kstepE: "kstep k k'"

end
