(* ===== verification/KernelFrames.thy ===== *)
theory KernelFrames
  imports Kernel
begin

text \<open>
  How the stacks of frames evolve: every step pops the frame it executes and pushes what the
  execution leaves to do. From it follow the invariants on what the stacks can contain: who is
  starting the idle thread, whose stack a semaphore lives on, which thread is being created.
\<close>

section \<open>Reading updated states\<close>

lemma upd_thread_simps [simp]:
  "thr (upd_thread t g k) u = (if u = t then g (thr k t) else thr k u)"
  "pages (upd_thread t g k) = pages k" "all_list (upd_thread t g k) = all_list k"
  "ready_list (upd_thread t g k) = ready_list k" "sleep_list (upd_thread t g k) = sleep_list k"
  "destruction_req (upd_thread t g k) = destruction_req k" "current (upd_thread t g k) = current k"
  "idle_thread (upd_thread t g k) = idle_thread k" "initial_thread (upd_thread t g k) = initial_thread k"
  "semas (upd_thread t g k) = semas k" "holder (upd_thread t g k) = holder k"
  "conds (upd_thread t g k) = conds k" "intq_waiter (upd_thread t g k) = intq_waiter k" "thread_mlfqs (upd_thread t g k) = thread_mlfqs k"
  "intr_on (upd_thread t g k) = intr_on k" "in_external_intr (upd_thread t g k) = in_external_intr k"
  "ticks (upd_thread t g k) = ticks k" "yield_on_return (upd_thread t g k) = yield_on_return k"
  by (simp_all add: upd_thread_def)

lemma upd_sema_simps [simp]:
  "semas (upd_sema s g k) r = (if r = s then g (semas k s) else semas k r)"
  "thr (upd_sema s g k) = thr k"
  "pages (upd_sema s g k) = pages k" "all_list (upd_sema s g k) = all_list k"
  "ready_list (upd_sema s g k) = ready_list k" "sleep_list (upd_sema s g k) = sleep_list k"
  "destruction_req (upd_sema s g k) = destruction_req k" "current (upd_sema s g k) = current k"
  "idle_thread (upd_sema s g k) = idle_thread k" "initial_thread (upd_sema s g k) = initial_thread k"
  "holder (upd_sema s g k) = holder k" "conds (upd_sema s g k) = conds k"
  "intq_waiter (upd_sema s g k) = intq_waiter k"
  "thread_mlfqs (upd_sema s g k) = thread_mlfqs k"
  "intr_on (upd_sema s g k) = intr_on k" "in_external_intr (upd_sema s g k) = in_external_intr k"
  "ticks (upd_sema s g k) = ticks k" "yield_on_return (upd_sema s g k) = yield_on_return k"
  by (simp_all add: upd_sema_def)

lemma push_frames_simps [simp]:
  "thr (push_frames fs k) u = (if u = current k then frames_update (\<lambda>gs. fs @ gs) (thr k u) else thr k u)"
  "pages (push_frames fs k) = pages k" "all_list (push_frames fs k) = all_list k"
  "ready_list (push_frames fs k) = ready_list k" "sleep_list (push_frames fs k) = sleep_list k"
  "destruction_req (push_frames fs k) = destruction_req k" "current (push_frames fs k) = current k"
  "idle_thread (push_frames fs k) = idle_thread k" "initial_thread (push_frames fs k) = initial_thread k"
  "semas (push_frames fs k) = semas k" "holder (push_frames fs k) = holder k"
  "conds (push_frames fs k) = conds k" "intq_waiter (push_frames fs k) = intq_waiter k" "thread_mlfqs (push_frames fs k) = thread_mlfqs k"
  "intr_on (push_frames fs k) = intr_on k" "in_external_intr (push_frames fs k) = in_external_intr k"
  "ticks (push_frames fs k) = ticks k" "yield_on_return (push_frames fs k) = yield_on_return k"
  by (simp_all add: push_frames_def)

lemma guard_Some [simp]: "(if b then x else None) = Some y \<longleftrightarrow> b \<and> x = Some y"
  by simp

lemma thread_current_Some [simp]:
  "thread_current k = Some t \<longleftrightarrow>
     t = current k \<and> current k \<in> pages k \<and> status (thr k (current k)) = THREAD_RUNNING"
  by (auto simp: thread_current_def is_thread_def)

lemma thread_current_bind:
  "Option.bind (thread_current k) g = Some x \<longleftrightarrow>
     current k \<in> pages k \<and> status (thr k (current k)) = THREAD_RUNNING \<and> g (current k) = Some x"
  by (auto simp: bind_eq_Some_conv)

lemma next_thread_simps [simp]:
  "pages (fst (next_thread_to_run k)) = pages k" "thr (fst (next_thread_to_run k)) = thr k"
  "intr_on (fst (next_thread_to_run k)) = intr_on k" "intq_waiter (fst (next_thread_to_run k)) = intq_waiter k"
  "all_list (fst (next_thread_to_run k)) = all_list k" "conds (fst (next_thread_to_run k)) = conds k"
  "idle_thread (fst (next_thread_to_run k)) = idle_thread k"
  by (simp_all add: next_thread_to_run_def split: list.splits)

lemma schedule_Some:
  "schedule k = Some k' \<longleftrightarrow> (\<exists>nxt. snd (next_thread_to_run k) = Some nxt \<and> \<not> intr_on k \<and>
     status (thr k (current k)) \<noteq> THREAD_RUNNING \<and> nxt \<in> pages k \<and>
     k' = switch_to nxt (fst (next_thread_to_run k)))"
  using next_thread_simps [of k]
  by (cases "next_thread_to_run k") (auto simp: schedule_def is_thread_def bind_eq_Some_conv)


section \<open>The frames a step pushes\<close>

text \<open>The frames that restore the interrupt level come and go everywhere and are left out.\<close>

fun is_intr_frame :: "frame \<Rightarrow> bool" where
  "is_intr_frame (IntrSetLevel b) \<longleftrightarrow> True"
| "is_intr_frame _ \<longleftrightarrow> False"

definition main_frames :: "kernel \<Rightarrow> addr \<Rightarrow> frame list" where
  "main_frames k t = filter (\<lambda>fr. \<not> is_intr_frame fr) (frames (thr k t))"

text \<open>The waiters of a condition are semaphores on stacks.\<close>

definition conds_ok :: "kernel \<Rightarrow> bool" where
  "conds_ok k \<longleftrightarrow> (\<forall>c. \<forall>s\<in>set (conds k c). \<exists>u. s = StackSema u)"

definition grow :: "frame list \<Rightarrow> frame list \<Rightarrow> kernel \<Rightarrow> kernel \<Rightarrow> bool" where
  "grow gs new k k' \<longleftrightarrow> (conds_ok k \<longrightarrow> conds_ok k') \<and> (\<exists>i. pages k' \<subseteq> insert i (pages k)) \<and>
     (idle_thread k' = idle_thread k \<or> idle_thread k' = Some (current k) \<and> IdleLoop \<in> set gs) \<and> (\<forall>t\<in>pages k'.
     if t \<in> pages k then main_frames k' t = (if t = current k then gs else []) @ main_frames k t
     else main_frames k' t = KernelThread # new)"

fun create_frames :: "addr \<Rightarrow> frame list" where
  "create_frames t = [LockAcquireCall 0, AllocateTid t, LockReleaseCall 0, CreateUnblock t,
     ComparePriority, CreateChild t]"

fun acquire_frames :: "nat \<Rightarrow> frame list set" where
  "acquire_frames l = {[SemaDownCall (LockSema l), LockSetHolder l],
     [SemaDownCall (LockSema l), LockClearWait, LockSetHolder l],
     [LockWaitOn l, LockDonate l, PriorityDonation, SemaDownCall (LockSema l), LockClearWait, LockSetHolder l]}"

fun pushed :: "addr \<Rightarrow> frame \<Rightarrow> frame list set" where
  "pushed u (SemaDownCall s) = {[SemaDownLoop s]}"
| "pushed u (SemaDownLoop s) = {[], [SemaDownLoop s]}"
| "pushed u (LockAcquireCall l) = acquire_frames l"
| "pushed u (LockReleaseCall l) = {[LockDrop l], [RemoveDonation l, RePriority, LockDrop l]}"
| "pushed u (LockDrop l) = {[SemaUpCall (LockSema l)]}"
| "pushed u (CondSignalCall c l) = {[SemaUpCall (StackSema w)] | w. True}"
| "pushed u (CondBroadcastLoop c l) = {[], [CondSignalCall c l, CondBroadcastLoop c l]}"
| "pushed u (StartCall i) = {create_frames i @ [StartEnable, SemaDownCall (StackSema u)]}"
| "pushed u (IdleInit s) = {[SemaUpCall s, IdleLoop]}"
| "pushed u IdleLoop = {[IdleHlt]}"
| "pushed u IdleHlt = {[IdleLoop]}"
| "pushed u _ = {[]}"

fun pushed_new :: "addr \<Rightarrow> frame \<Rightarrow> frame list" where
  "pushed_new u (StartCall i) = [IdleInit (StackSema u)]"
| "pushed_new u _ = []"

fun pushed_call :: "addr \<Rightarrow> call \<Rightarrow> frame list set" where
  "pushed_call u (CallSemaDown n) = {[SemaDownLoop (Sema n)]}"
| "pushed_call u (CallLockAcquire l) = acquire_frames l"
| "pushed_call u (CallLockTryAcquire l) = {[], [LockSetHolder l]}"
| "pushed_call u (CallLockRelease l) = {[LockDrop l], [RemoveDonation l, RePriority, LockDrop l]}"
| "pushed_call u (CallCondWait c l) = {[LockReleaseCall l, SemaDownCall (StackSema u), LockAcquireCall l]}"
| "pushed_call u (CallCondSignal c l) = {[SemaUpCall (StackSema w)] | w. True}"
| "pushed_call u (CallCondBroadcast c l) = {[], [CondSignalCall c l, CondBroadcastLoop c l]}"
| "pushed_call u (CallSleep n) = {[ThreadSleep m] | m. True}"
| "pushed_call u (CallSetPriority p) = {[], [RePriority, ComparePriority]}"
| "pushed_call u (CallSetNice p) = {[ComparePriority]}"
| "pushed_call u (CallIntqWait w) = {[IntqResume w]}"
| "pushed_call u (CallCreate page ok p) =
     (case page of None \<Rightarrow> {[]} | Some t \<Rightarrow> {[], create_frames t})"
| "pushed_call u _ = {[]}"

text \<open>A state that differs only in what the stacks do not show.\<close>

definition same_frames :: "kernel \<Rightarrow> kernel \<Rightarrow> bool" where
  "same_frames k k' \<longleftrightarrow> conds k' = conds k \<and> idle_thread k' = idle_thread k \<and> pages k' \<subseteq> pages k \<and> (\<forall>t. main_frames k' t = main_frames k t)"

lemma subset_insert_ex [simp]: "\<exists>i. A \<subseteq> insert i A"
  by blast

lemma same_frames_refl [simp]: "same_frames k k"
  by (simp add: same_frames_def)

lemma same_frames_trans: "same_frames k k' \<Longrightarrow> same_frames k' k'' \<Longrightarrow> same_frames k k''"
  by (auto simp: same_frames_def)

lemma same_frames_grow: "same_frames k k' \<Longrightarrow> grow [] new k k'"
  by (auto simp: same_frames_def grow_def conds_ok_def)

lemma grow_same_frames:
  "grow gs new k k1 \<Longrightarrow> same_frames k1 k' \<Longrightarrow> grow gs new k k'"
  by (auto simp: same_frames_def grow_def conds_ok_def)

lemma main_frames_push: "main_frames (push_frames fs k) t =
    (if t = current k then filter (\<lambda>fr. \<not> is_intr_frame fr) fs @ main_frames k t else main_frames k t)"
  by (simp add: main_frames_def)

lemma main_frames_eqI: "frames (thr k' t) = frames (thr k t) \<Longrightarrow> main_frames k' t = main_frames k t"
  by (simp add: main_frames_def)

section \<open>Operations that leave the main frames alone\<close>

named_theorems same_frames_intros

lemma unblock_same [same_frames_intros]: "thread_unblock t k = Some k' \<Longrightarrow> same_frames k k'"
  by (auto simp: thread_unblock_def Let_def same_frames_def main_frames_def)

lemma switch_to_simps [simp]:
  "pages (switch_to n k) = pages k" "frames (thr (switch_to n k) t) = frames (thr k t)"
  "conds (switch_to n k) = conds k" "idle_thread (switch_to n k) = idle_thread k"
  "intq_waiter (switch_to n k) = intq_waiter k" "all_list (switch_to n k) = all_list k"
  by (simp_all add: switch_to_def Let_def)

lemma schedule_frames: "schedule k = Some k' \<Longrightarrow>
    pages k' = pages k \<and> conds k' = conds k \<and> idle_thread k' = idle_thread k \<and>
    (\<forall>t. frames (thr k' t) = frames (thr k t))"
  by (auto simp: schedule_Some)

lemma schedule_same [same_frames_intros]: "schedule k = Some k' \<Longrightarrow> same_frames k k'"
  using schedule_frames by (auto simp: same_frames_def intro: main_frames_eqI)

lemma do_schedule_same [same_frames_intros]: "do_schedule st k = Some k' \<Longrightarrow> same_frames k k'"
  by (auto simp: do_schedule_def thread_current_bind Let_def dest!: schedule_frames
      simp: same_frames_def main_frames_def)

lemma yield_same [same_frames_intros]: "thread_yield k = Some k' \<Longrightarrow> same_frames k k'"
  by (auto simp: thread_yield_def thread_current_bind Let_def same_frames_def main_frames_def
      dest!: do_schedule_same split: if_splits)

lemma compare_same [same_frames_intros]: "thread_compare_priority k = Some k' \<Longrightarrow> same_frames k k'"
  by (auto simp: thread_compare_priority_def thread_current_bind split: if_splits dest: yield_same)

lemma block_same [same_frames_intros]: "thread_block k = Some k' \<Longrightarrow> same_frames k k'"
  by (auto simp: thread_block_def thread_current_bind same_frames_def main_frames_def dest!: schedule_frames)

lemma awake_loop_same: "awake_loop now ts k = Some k' \<Longrightarrow> same_frames k k'"
proof (induction now ts k rule: awake_loop.induct)
  case (2 now t ts k)
  then show ?case
    by (fastforce simp: bind_eq_Some_conv same_frames_def main_frames_def split: if_splits dest: unblock_same)
qed simp

lemma sleep_same [same_frames_intros]: "thread_sleep n k = Some k' \<Longrightarrow> same_frames k k'"
  by (auto simp: thread_sleep_def thread_current_bind Let_def same_frames_def main_frames_def
      dest!: block_same split: if_splits)

lemma sema_up_wake_same [same_frames_intros]: "sema_up_wake s k = Some k' \<Longrightarrow> same_frames k k'"
  by (auto simp: sema_up_wake_def same_frames_def main_frames_def split: list.splits dest!: unblock_same)

lemma sema_up_body_same [same_frames_intros]: "sema_up_body s k = Some k' \<Longrightarrow> same_frames k k'"
  by (auto simp: sema_up_body_def bind_eq_Some_conv Let_def same_frames_def main_frames_def
      dest!: sema_up_wake_same compare_same subsetD)

lemma sema_up_same [same_frames_intros]: "sema_up s k = Some k' \<Longrightarrow> same_frames k k'"
  by (auto simp: sema_up_def Let_def same_frames_def main_frames_def dest!: sema_up_body_same)

lemma donation_loop_same: "donation_loop n t k = Some k' \<Longrightarrow> same_frames k k'"
  by (induction n t k rule: donation_loop.induct)
    (auto simp: bind_eq_Some_conv same_frames_def main_frames_def split: option.splits if_splits)

lemma re_priority_same [same_frames_intros]: "re_priority k = Some k' \<Longrightarrow> same_frames k k'"
  by (auto simp: re_priority_def thread_current_bind Let_def same_frames_def main_frames_def split: if_splits)

lemma fold_same: "(\<And>t k. same_frames k (g t k)) \<Longrightarrow> same_frames k (fold g ts k)"
  by (induction ts arbitrary: k) (auto intro: same_frames_trans)

lemma timer_mlfqs_same [same_frames_intros]: "timer_mlfqs k = Some k' \<Longrightarrow> same_frames k k'"
proof -
  have c: "same_frames k (calculate_recent_cpu k)" "same_frames k (calculate_load_avg k)"
    "same_frames k (calculate_priority t k)" for k t
    by (auto simp: calculate_recent_cpu_def calculate_load_avg_def calculate_priority_def
        same_frames_def main_frames_def Let_def)
  have r: "recalculate_priority k = Some k' \<Longrightarrow> same_frames k k'" for k k'
    by (auto simp: recalculate_priority_def intro!: fold_same c)
  have u: "recalculate_recent_cpu k = Some k' \<Longrightarrow> same_frames k k'" for k k'
    by (auto simp: recalculate_recent_cpu_def intro!: fold_same)
      (simp add: same_frames_def main_frames_def)
  assume "timer_mlfqs k = Some k'"
  then show ?thesis
    using c(1) [of k]
    by (auto simp: timer_mlfqs_def Let_def bind_eq_Some_conv split: if_splits
        intro: same_frames_trans dest: r u) (meson c(2) r same_frames_trans u)
qed

lemma timer_same [same_frames_intros]: "timer_interrupt k = Some k' \<Longrightarrow> same_frames k k'"
proof -
  assume "timer_interrupt k = Some k'"
  then obtain k1 k2 where k: "thread_tick (k\<lparr>ticks := ticks k + 1\<rparr>) = Some k1"
    "(if thread_mlfqs k1 then timer_mlfqs k1 else Some k1) = Some k2" "thread_awake (ticks k2) k2 = Some k'"
    by (auto simp: timer_interrupt_def bind_eq_Some_conv)
  have "same_frames k k1"
    using k(1)
    by (auto simp: thread_tick_def thread_current_bind Let_def same_frames_def main_frames_def split: if_splits)
  moreover have "same_frames k1 k2" using k(2) by (auto split: if_splits dest: timer_mlfqs_same)
  moreover have "same_frames k2 k'" using k(3) by (simp add: thread_awake_def awake_loop_same)
  ultimately show ?thesis by (blast intro: same_frames_trans)
qed

lemma signal_intq_same [same_frames_intros]: "signal_intq w k = Some k' \<Longrightarrow> same_frames k k'"
  by (auto simp: signal_intq_def bind_eq_Some_conv same_frames_def main_frames_def split: option.splits
      dest!: unblock_same)

lemma wake_up_same: "wake_up w k = Some k' \<Longrightarrow> same_frames k k'"
  by (cases w) (auto intro: same_frames_intros)

lemma device_same [same_frames_intros]: "device_handler ws k = Some k' \<Longrightarrow> same_frames k k'"
  by (induction ws arbitrary: k) (auto simp: bind_eq_Some_conv dest: wake_up_same intro: same_frames_trans)

lemma intr_handler_same:
  assumes "intr_handler h k = Some k'" and "\<And>k k'. h k = Some k' \<Longrightarrow> same_frames k k'"
  shows "same_frames k k'"
  using assms(1)
  by (auto simp: intr_handler_def bind_eq_Some_conv Let_def same_frames_def main_frames_def split: if_splits
      dest!: assms(2) yield_same subsetD)


section \<open>Frames and calls\<close>

lemma growI:
  assumes "same_frames k1 k'" "pages k1 = pages k" "idle_thread k1 = idle_thread k"
    "conds_ok k \<Longrightarrow> conds_ok k1"
    "\<And>t. main_frames k1 t = (if t = current k then gs else []) @ main_frames k t"
  shows "grow gs new k k'"
  using assms by (auto simp: grow_def same_frames_def conds_ok_def)

lemma sema_down_loop_grow:
  assumes "sema_down_loop s k = Some k'"
  shows "\<exists>gs\<in>{[], [SemaDownLoop s]}. grow gs new k k'"
proof (cases "sema_value (semas k s) = 0")
  case True
  then have "thread_block (push_frames [SemaDownLoop s]
      (upd_sema s (waiters_update (insert_ordered (cmp_priority k) (current k))) k)) = Some k'"
    using assms by (auto simp: sema_down_loop_def thread_current_bind Let_def)
  from block_same [OF this] have "grow [SemaDownLoop s] new k k'"
    by (rule growI) (auto simp: conds_ok_def main_frames_def)
  then show ?thesis by blast
next
  case False
  then have "same_frames k k'" using assms by (auto simp: sema_down_loop_def same_frames_def main_frames_def)
  then show ?thesis using same_frames_grow by blast
qed

lemma cond_signal_grow:
  assumes "cond_signal c l k = Some k'" "conds_ok k"
  shows "\<exists>u. grow [SemaUpCall (StackSema u)] new k k'"
proof -
  let ?ws = "sort_down (sema_first_priority k) (conds k c)"
  have k': "?ws \<noteq> []" "k' = push_frames [SemaUpCall (hd ?ws)] (k\<lparr>conds := (conds k)(c := tl ?ws)\<rparr>)"
    using assms(1) by (auto simp: cond_signal_def lock_held_by_current_thread_def bind_eq_Some_conv Let_def
        split: if_splits)
  have "set ?ws = set (conds k c)" by simp
  then have in_ws: "hd ?ws \<in> set (conds k c)" "set (tl ?ws) \<subseteq> set (conds k c)"
    using k'(1) by (metis list.set_sel(1), metis list.set_sel(2) subsetI)
  then obtain u where "hd ?ws = StackSema u" using assms(2) unfolding conds_ok_def by blast
  moreover have "conds_ok (k\<lparr>conds := (conds k)(c := tl ?ws)\<rparr>)"
    using assms(2) in_ws(2) by (auto simp: conds_ok_def)
  ultimately have "grow [SemaUpCall (StackSema u)] new k k'"
    by (auto simp: grow_def k'(2) main_frames_def conds_ok_def)
  then show ?thesis ..
qed

lemma create_grow:
  assumes "thread_create page ok p body k = Some k'" "\<forall>t. page = Some t \<longrightarrow> t \<notin> pages k" "current k \<in> pages k"
    "\<forall>fr\<in>set body. \<not> is_intr_frame fr"
  shows "\<exists>gs\<in>(case page of None \<Rightarrow> {[]} | Some t \<Rightarrow> {[], create_frames t}). grow gs body k k'"
proof (cases page)
  case None
  then show ?thesis using assms(1) by (simp add: thread_create_def same_frames_grow)
next
  case (Some t)
  have b: "filter (\<lambda>fr. \<not> is_intr_frame fr) body = body" using assms(4) by (simp add: filter_id_conv)
  have "t \<noteq> current k" using assms(2,3) Some by auto
  then show ?thesis
    using assms Some b
    by (cases ok) (auto simp: thread_create_def init_thread_def Let_def grow_def main_frames_def conds_ok_def
        bind_eq_Some_conv push_frames_def upd_thread_def)
qed

lemma start_grow:
  assumes "thread_start i k = Some k'" "i \<notin> pages k"
  shows "grow (create_frames i @ [StartEnable, SemaDownCall (StackSema (current k))])
    [IdleInit (StackSema (current k))] k k'"
proof -
  have c: "current k \<in> pages k" using assms(1) by (simp add: thread_start_def thread_current_bind)
  then show ?thesis
    using assms
    by (auto simp: thread_start_def thread_current_bind Let_def thread_create_def init_thread_def
        grow_def main_frames_def conds_ok_def bind_eq_Some_conv push_frames_def upd_thread_def
        sema_init_def upd_sema_def)
qed

lemma quick_growI:
  assumes "pages k' = pages k" "conds k' = conds k"
    "idle_thread k' = idle_thread k \<or> idle_thread k' = Some (current k) \<and> IdleLoop \<in> set gs"
    "\<And>t. main_frames k' t = (if t = current k then gs else []) @ main_frames k t"
  shows "grow gs new k k'"
  using assms by (simp add: grow_def conds_ok_def)

lemma lock_acquire_grow:
  assumes "lock_acquire l k = Some k'"
  shows "\<exists>gs\<in>acquire_frames l. grow gs new k k'"
proof -
  obtain gs where gs: "gs \<in> acquire_frames l" "k' = push_frames gs k"
  proof (cases "thread_mlfqs k")
    case True
    then show ?thesis
      using assms that by (auto simp: lock_acquire_def lock_held_by_current_thread_def thread_current_bind)
  next
    case False
    have pp: "push_frames xs (push_frames ys k) = push_frames (xs @ ys) k" for xs ys
      by (simp add: push_frames_def upd_thread_def o_def)
    show ?thesis
      using assms that False
      by (cases "holder k l") (auto simp: lock_acquire_def lock_held_by_current_thread_def thread_current_bind
          Let_def pp)
  qed
  then have "grow gs new k k'" by (intro quick_growI) (auto simp: main_frames_def)
  then show ?thesis using gs(1) by blast
qed

lemma lock_release_grow:
  assumes "lock_release l k = Some k'"
  shows "\<exists>gs\<in>{[LockDrop l], [RemoveDonation l, RePriority, LockDrop l]}. grow gs new k k'"
  using assms
  by (cases "thread_mlfqs k")
    (auto simp: lock_release_def lock_held_by_current_thread_def thread_current_bind grow_def main_frames_def
      conds_ok_def)

lemma cond_broadcast_grow:
  assumes "cond_broadcast_loop c l k = Some k'"
  shows "\<exists>gs\<in>{[], [CondSignalCall c l, CondBroadcastLoop c l]}. grow gs new k k'"
  using assms by (cases "conds k c") (auto simp: cond_broadcast_loop_def grow_def main_frames_def conds_ok_def)

lemma unlink_donors_simps [simp]:
  "pages (unlink_donors ts k) = pages k" "all_list (unlink_donors ts k) = all_list k"
  "ready_list (unlink_donors ts k) = ready_list k" "sleep_list (unlink_donors ts k) = sleep_list k"
  "destruction_req (unlink_donors ts k) = destruction_req k" "current (unlink_donors ts k) = current k"
  "idle_thread (unlink_donors ts k) = idle_thread k" "semas (unlink_donors ts k) = semas k"
  "holder (unlink_donors ts k) = holder k" "conds (unlink_donors ts k) = conds k"
  "intq_waiter (unlink_donors ts k) = intq_waiter k" "in_external_intr (unlink_donors ts k) = in_external_intr k"
  "frames (thr (unlink_donors ts k) t) = frames (thr k t)" "status (thr (unlink_donors ts k) t) = status (thr k t)"
  by (induction ts arbitrary: k) (simp_all add: unlink_donors_def)

lemma lock_donate_same [same_frames_intros]: "lock_donate l k = Some k' \<Longrightarrow> same_frames k k'"
  by (auto simp: lock_donate_def thread_current_bind bind_eq_Some_conv Let_def same_frames_def main_frames_def)

lemma remove_donation_same [same_frames_intros]: "remove_donation l k = Some k' \<Longrightarrow> same_frames k k'"
  by (auto simp: remove_donation_def thread_current_bind Let_def same_frames_def main_frames_def)

lemma priority_donation_same [same_frames_intros]: "priority_donation k = Some k' \<Longrightarrow> same_frames k k'"
  by (auto simp: priority_donation_def thread_current_bind dest: donation_loop_same)

lemma sema_down_grow: "sema_down s k = Some k' \<Longrightarrow> grow [SemaDownLoop s] new k k'"
  by (auto simp: sema_down_def Let_def grow_def main_frames_def conds_ok_def)

lemma idle_loop_grow:
  assumes "idle_loop k = Some k'"
  shows "grow [IdleHlt] new k k'"
proof -
  have "thread_block (push_frames [IdleHlt] (k\<lparr>intr_on := False\<rparr>)) = Some k'"
    using assms by (simp add: idle_loop_def)
  from block_same [OF this] show ?thesis
    by (rule growI) (auto simp: conds_ok_def main_frames_def)
qed

lemma wait_intq_grow:
  assumes "wait_intq w k = Some k'"
  shows "grow [IntqResume w] new k k'"
proof -
  have "thread_block ((push_frames [IntqResume w] k)\<lparr>intq_waiter := (intq_waiter k)(w := Some (current k))\<rparr>) = Some k'"
    using assms by (auto simp: wait_intq_def thread_current_bind Let_def)
  from block_same [OF this] show ?thesis
    by (rule growI) (auto simp: conds_ok_def main_frames_def)
qed

lemma same_framesI:
  "pages k' = pages k \<Longrightarrow> conds k' = conds k \<Longrightarrow> idle_thread k' = idle_thread k \<Longrightarrow> (\<And>t. frames (thr k' t) = frames (thr k t)) \<Longrightarrow> same_frames k k'"
  by (simp add: same_frames_def main_frames_def)

lemma grow_simps [simp]:
  "grow [] new k k"
  "(\<And>x. frames (g x) = frames x) \<Longrightarrow> grow [] new k (upd_thread t g k)"
  "grow [] new k (k\<lparr>intr_on := b\<rparr>)" "grow [] new k (k\<lparr>holder := h\<rparr>)"
  "(\<And>x. frames (g x) = frames x) \<Longrightarrow> grow [] new k (upd_thread t g (k\<lparr>next_tid := n\<rparr>))"
  by (simp_all add: grow_def main_frames_def conds_ok_def)

lemma exec_frame_grow:
  assumes "exec_frame fr k = Some k'" "frame_ok fr k" "conds_ok k"
  shows "\<exists>gs\<in>pushed (current k) fr. grow gs (pushed_new (current k) fr) k k'"
proof (cases fr)
  case (SemaDownLoop s)
  then show ?thesis using assms(1) sema_down_loop_grow [of s k k'] by auto
next
  case (CondSignalCall c l)
  then show ?thesis using assms(1,3) cond_signal_grow [of c l k k'] by auto
next
  case (StartCall i)
  then show ?thesis using assms(1,2) start_grow [of i k k'] by simp
next
  case (LockDrop l)
  then show ?thesis using assms(1) by (auto simp: lock_drop_def intro!: quick_growI simp: main_frames_def)
next
  case (IdleInit s)
  then show ?thesis
    using assms(1) by (auto simp: idle_init_def thread_current_bind intro!: quick_growI simp: main_frames_def)
next
  case IdleHlt
  then show ?thesis using assms(1) by (auto intro!: quick_growI simp: main_frames_def)
next
  case (LockReleaseCall l)
  then show ?thesis using assms(1) lock_release_grow [of l k k'] by simp
next
  case (CondBroadcastLoop c l)
  then show ?thesis using assms(1) cond_broadcast_grow [of c l k k'] by simp
next
  case (LockAcquireCall l)
  then show ?thesis using assms(1) lock_acquire_grow [of l k k'] by simp
qed (use assms(1) in \<open>auto simp: allocate_tid_def intro: idle_loop_grow sema_down_grow
    same_frames_grow [OF sema_up_same] same_frames_grow [OF re_priority_same] same_frames_grow [OF compare_same]
    same_frames_grow [OF sleep_same] same_frames_grow [OF unblock_same] same_frames_grow [OF lock_donate_same]
    same_frames_grow [OF remove_donation_same] same_frames_grow [OF priority_donation_same]\<close>)


lemma cond_wait_grow:
  assumes "cond_wait c l k = Some k'"
  shows "grow [LockReleaseCall l, SemaDownCall (StackSema (current k)), LockAcquireCall l] new k k'"
  using assms
  by (auto simp: cond_wait_def lock_held_by_current_thread_def thread_current_bind Let_def sema_init_def
      intro!: growI [OF same_frames_refl]) (auto simp: conds_ok_def main_frames_def split: if_splits)

lemma thread_exit_grow:
  assumes "thread_exit k = Some k'" "main_frames k (current k) = []"
  shows "grow [] new k k'"
proof -
  have "same_frames (upd_thread (current k) (frames_update (\<lambda>_. []))
      (k\<lparr>intr_on := False, all_list := remove1 (current k) (all_list k)\<rparr>)) k'"
    using assms(1) by (auto simp: thread_exit_def thread_current_bind dest!: do_schedule_same)
  then show ?thesis
    by (rule growI) (use assms(2) in \<open>auto simp: conds_ok_def main_frames_def\<close>)
qed

lemma lock_try_acquire_grow:
  assumes "lock_try_acquire l k = Some (k', b)"
  shows "\<exists>gs\<in>{[], [LockSetHolder l]}. grow gs new k k'"
  using assms
  by (cases "sema_value (semas k (LockSema l)) > 0")
    (auto simp: lock_try_acquire_def lock_held_by_current_thread_def thread_current_bind sema_try_down_def
      grow_def main_frames_def conds_ok_def)

lemma set_priority_grow:
  assumes "thread_set_priority p k = Some k'"
  shows "\<exists>gs\<in>{[], [RePriority, ComparePriority]}. grow gs new k k'"
  using assms
  by (cases "thread_mlfqs k")
    (auto simp: thread_set_priority_def thread_current_bind grow_def main_frames_def conds_ok_def)

lemma set_nice_grow: "thread_set_nice n k = Some k' \<Longrightarrow> grow [ComparePriority] new k k'"
  by (auto simp: thread_set_nice_def thread_current_bind calculate_priority_def Let_def
      grow_def main_frames_def conds_ok_def split: if_splits)

lemma timer_sleep_grow: "timer_sleep n k = Some k' \<Longrightarrow> \<exists>m. grow [ThreadSleep m] new k k'"
  by (auto simp: timer_sleep_def grow_def main_frames_def conds_ok_def)

lemma grow_init_simps [simp]:
  "grow [] new k (sema_init s v k)" "grow [] new k (lock_init l k)" "grow [] new k (fst (sema_try_down s k))"
  by (simp_all add: sema_init_def lock_init_def sema_try_down_def grow_def main_frames_def conds_ok_def)

lemma exec_call_grow:
  assumes "exec_call c k = Some k'" "call_ok c k" "conds_ok k" "current k \<in> pages k"
    "main_frames k (current k) = []"
  shows "\<exists>gs\<in>pushed_call (current k) c. grow gs [] k k'"
proof (cases c)
  case (CallCreate page ok p)
  then show ?thesis using assms create_grow [of page ok p "[]" k k'] by (cases page) auto
next
  case (CallLockTryAcquire l)
  then show ?thesis using assms lock_try_acquire_grow [of l k k'] by auto
next
  case (CallCondSignal d l)
  then show ?thesis using assms cond_signal_grow [of d l k k'] by auto
next
  case (CallSleep n)
  then show ?thesis using assms timer_sleep_grow [of n k k'] by auto
next
  case (CallLockAcquire l)
  then show ?thesis using assms(1) lock_acquire_grow [of l k k'] by simp
next
  case (CallLockRelease l)
  then show ?thesis using assms(1) lock_release_grow [of l k k'] by simp
next
  case (CallCondBroadcast d l)
  then show ?thesis using assms(1) cond_broadcast_grow [of d l k k'] by simp
next
  case (CallSetPriority p)
  then show ?thesis using assms(1) set_priority_grow [of p k k'] by simp
next
  case (CallExit)
  then show ?thesis using assms(1,5) thread_exit_grow by simp
next
  case (CallCondInit d)
  then show ?thesis using assms(1,3) by (auto simp: cond_init_def grow_def main_frames_def conds_ok_def split: if_splits)
qed (use assms(1) in \<open>auto
    intro: sema_down_grow same_frames_grow [OF sema_up_same] same_frames_grow [OF yield_same]
      same_frames_grow [OF signal_intq_same] wait_intq_grow cond_wait_grow set_nice_grow\<close>)


lemma exec_frame_idle:
  assumes "exec_frame fr k = Some k'" "frame_ok fr k" "conds_ok k"
  shows "idle_thread k' = (case fr of IdleInit s \<Rightarrow> Some (current k) | _ \<Rightarrow> idle_thread k)"
proof (cases "fr = IdleHlt \<or> (\<exists>s. fr = IdleInit s)")
  case True
  then show ?thesis using assms(1) by (auto simp: idle_init_def thread_current_bind)
next
  case False
  obtain gs where gs: "gs \<in> pushed (current k) fr" "grow gs (pushed_new (current k) fr) k k'"
    using exec_frame_grow [OF assms] by blast
  from gs(1) False have "IdleLoop \<notin> set gs" by (cases fr) auto
  then have "idle_thread k' = idle_thread k" using gs(2) by (simp add: grow_def)
  then show ?thesis using False by (cases fr) auto
qed

section \<open>Steps\<close>

text \<open>
  What a step does to the stacks: it executes the top frame of the running thread, makes a
  call for it, or handles an interrupt.
\<close>

lemma main_frames_pop:
  "frames (thr k (current k)) = fr # fs \<Longrightarrow>
     main_frames (pop_frame k) t = (if t = current k then filter (\<lambda>f. \<not> is_intr_frame f) fs else main_frames k t)"
  by (simp add: main_frames_def pop_frame_def)

lemma pop_frame_simps [simp]:
  "pages (pop_frame k) = pages k" "current (pop_frame k) = current k" "conds (pop_frame k) = conds k"
  "ready_list (pop_frame k) = ready_list k" "sleep_list (pop_frame k) = sleep_list k"
  "intq_waiter (pop_frame k) = intq_waiter k" "all_list (pop_frame k) = all_list k"
  "semas (pop_frame k) = semas k" "holder (pop_frame k) = holder k" "idle_thread (pop_frame k) = idle_thread k"
  "destruction_req (pop_frame k) = destruction_req k" "in_external_intr (pop_frame k) = in_external_intr k"
  "intr_on (pop_frame k) = intr_on k" "status (thr (pop_frame k) t) = status (thr k t)"
  "frames (thr (pop_frame k) t) = (if t = current k then tl (frames (thr k t)) else frames (thr k t))"
  by (simp_all add: pop_frame_def)

definition frame_step :: "kernel \<Rightarrow> kernel \<Rightarrow> bool" where
  "frame_step k k' \<longleftrightarrow> (\<exists>fr fs gs. main_frames k (current k) = fr # fs \<and> gs \<in> pushed (current k) fr \<and>
     frame_ok fr k \<and> (\<exists>i. pages k' \<subseteq> insert i (pages k)) \<and> idle_thread k' = (case fr of IdleInit s \<Rightarrow> Some (current k) | _ \<Rightarrow> idle_thread k) \<and>
     (\<forall>t\<in>pages k'. if t \<in> pages k then main_frames k' t = (if t = current k then gs @ fs else main_frames k t)
        else main_frames k' t = KernelThread # pushed_new (current k) fr))"

definition call_step :: "kernel \<Rightarrow> kernel \<Rightarrow> bool" where
  "call_step k k' \<longleftrightarrow> (\<exists>c gs. main_frames k (current k) = [] \<and> gs \<in> pushed_call (current k) c \<and> call_ok c k \<and>
     idle_thread k' = idle_thread k \<and>
     (\<forall>t\<in>pages k'. if t \<in> pages k then main_frames k' t = (if t = current k then gs else main_frames k t)
        else main_frames k' t = [KernelThread]))"

definition intr_step :: "kernel \<Rightarrow> kernel \<Rightarrow> bool" where
  "intr_step k k' \<longleftrightarrow> idle_thread k' = idle_thread k \<and> pages k' \<subseteq> pages k \<and> (\<forall>t\<in>pages k'. main_frames k' t = main_frames k t)"

lemma conds_ok_pop: "conds_ok (pop_frame k) = conds_ok k"
  by (simp add: conds_ok_def)

lemma frame_ok_pop: "frame_ok fr (pop_frame k) = frame_ok fr k"
  by (cases fr) auto

lemma kstep_stacks:
  assumes "kstep k k'" "conds_ok k" "current k \<in> pages k"
  shows "(frame_step k k' \<or> call_step k k' \<or> intr_step k k') \<and> conds_ok k'"
  using assms(1)
proof (cases rule: kstep.cases)
  case (Frame fr fs)
  from exec_frame_grow [OF Frame(3)] Frame(2) assms(2) obtain gs where
    gs: "gs \<in> pushed (current k) fr" "grow gs (pushed_new (current k) fr) (pop_frame k) k'"
    by (auto simp: conds_ok_pop frame_ok_pop)
  show ?thesis
  proof (cases "is_intr_frame fr")
    case True
    then obtain b where b: "fr = IntrSetLevel b" by (cases fr) auto
    then have "pages k' = pages k" "idle_thread k' = idle_thread k" "\<And>t. main_frames k' t = main_frames k t"
      using Frame(1,3) by (auto simp: main_frames_def)
    then show ?thesis using gs(2) assms(2) by (simp add: intr_step_def grow_def conds_ok_pop)
  next
    case False
    then have "main_frames k (current k) = fr # filter (\<lambda>f. \<not> is_intr_frame f) fs"
      using Frame(1) by (simp add: main_frames_def)
    moreover have "idle_thread k' = (case fr of IdleInit s \<Rightarrow> Some (current k) | _ \<Rightarrow> idle_thread k)"
      using exec_frame_idle [OF Frame(3)] Frame(2) assms(2) by (cases fr) (simp_all add: conds_ok_pop)
    ultimately have "frame_step k k'"
      using gs Frame(2) unfolding frame_step_def grow_def
      by (intro exI [of _ fr] exI [of _ "filter (\<lambda>f. \<not> is_intr_frame f) fs"] exI [of _ gs])
        (simp add: main_frames_pop [OF Frame(1)])
    then show ?thesis using gs(2) assms(2) by (simp add: grow_def conds_ok_pop)
  qed
next
  case (Call c)
  then have m: "main_frames k (current k) = []" by (simp add: main_frames_def)
  from exec_call_grow [OF Call(3,2) assms(2,3) m] obtain gs where
    "gs \<in> pushed_call (current k) c" "grow gs [] k k'" by blast
  moreover from this(1) have "IdleLoop \<notin> set gs" by (cases c) (auto split: option.splits)
  ultimately have "call_step k k'" "conds_ok k'"
    using Call(2) m assms(2) unfolding call_step_def grow_def by fastforce+
  then show ?thesis by simp
next
  case Timer
  from intr_handler_same [OF Timer(2) timer_same] assms(2) show ?thesis
    by (simp add: same_frames_def intr_step_def conds_ok_def)
next
  case (Device ws)
  from intr_handler_same [OF Device(2) device_same] assms(2) show ?thesis
    by (simp add: same_frames_def intr_step_def conds_ok_def)
qed

section \<open>What the stacks can contain\<close>

definition idle_frames :: "frame set" where
  "idle_frames = {IdleLoop, IdleHlt} \<union> range (\<lambda>u. SemaUpCall (StackSema u))"

fun is_boot :: "frame \<Rightarrow> bool" where
  "is_boot (StartCall i) \<longleftrightarrow> True"
| "is_boot (IdleInit s) \<longleftrightarrow> True"
| "is_boot _ \<longleftrightarrow> False"

definition boots :: "kernel \<Rightarrow> addr \<Rightarrow> nat" where
  "boots k t = length (filter is_boot (main_frames k t))"

text \<open>
  The idle thread stays in its loop and nobody else is in it; the thread about to become the
  idle thread does nothing else; there is one such thread at most, and none once there is an
  idle thread; a thread goes down only semaphores on its own stack.
\<close>

definition idle_stack_ok :: "kernel \<Rightarrow> bool" where
  "idle_stack_ok k \<longleftrightarrow> (\<forall>t\<in>pages k. idle_thread k = Some t \<longrightarrow>
     set (main_frames k t) \<subseteq> idle_frames \<and> (IdleLoop \<in> set (main_frames k t) \<or> IdleHlt \<in> set (main_frames k t)))"

definition idle_only_ok :: "kernel \<Rightarrow> bool" where
  "idle_only_ok k \<longleftrightarrow> (\<forall>t\<in>pages k.
     IdleLoop \<in> set (main_frames k t) \<or> IdleHlt \<in> set (main_frames k t) \<longrightarrow> idle_thread k = Some t)"

definition idle_init_ok :: "kernel \<Rightarrow> bool" where
  "idle_init_ok k \<longleftrightarrow> (\<forall>t\<in>pages k. \<forall>s. IdleInit s \<in> set (main_frames k t) \<longrightarrow>
     s \<in> range StackSema \<and> (main_frames k t = [KernelThread, IdleInit s] \<or> main_frames k t = [IdleInit s]))"

definition boot_ok :: "kernel \<Rightarrow> bool" where
  "boot_ok k \<longleftrightarrow> (\<forall>t\<in>pages k. boots k t \<le> 1 \<and> (boots k t > 0 \<longrightarrow> idle_thread k = None \<and>
     (\<forall>u\<in>pages k. boots k u > 0 \<longrightarrow> u = t)))"

definition stack_sema_ok :: "kernel \<Rightarrow> bool" where
  "stack_sema_ok k \<longleftrightarrow> (\<forall>t\<in>pages k. \<forall>u.
     SemaDownCall (StackSema u) \<in> set (main_frames k t) \<or> SemaDownLoop (StackSema u) \<in> set (main_frames k t) \<longrightarrow>
     u = t)"

definition stack_inv :: "kernel \<Rightarrow> bool" where
  "stack_inv k \<longleftrightarrow> conds_ok k \<and> idle_stack_ok k \<and> idle_only_ok k \<and> idle_init_ok k \<and> boot_ok k \<and> stack_sema_ok k"

lemma pushed_idle: "gs \<in> pushed u fr \<Longrightarrow> IdleLoop \<in> set gs \<or> IdleHlt \<in> set gs \<Longrightarrow>
    fr \<in> {IdleLoop, IdleHlt} \<or> (\<exists>s. fr = IdleInit s \<and> gs = [SemaUpCall s, IdleLoop])"
  by (cases fr) auto

lemma pushed_call_idle: "gs \<in> pushed_call u c \<Longrightarrow> IdleLoop \<notin> set gs \<and> IdleHlt \<notin> set gs"
  by (cases c) (auto split: option.splits)

lemma pushed_idle_frames: "fr \<in> idle_frames \<Longrightarrow> gs \<in> pushed u fr \<Longrightarrow>
    set gs \<subseteq> idle_frames \<and> (fr = IdleLoop \<longrightarrow> gs = [IdleHlt]) \<and> (fr = IdleHlt \<longrightarrow> gs = [IdleLoop])"
  by (auto simp: idle_frames_def)

lemma idle_frames_no_boot: "set fs \<subseteq> idle_frames \<Longrightarrow> filter is_boot fs = []"
  by (auto simp: idle_frames_def filter_empty_conv)

lemma pushed_no_boot: "gs \<in> pushed u fr \<Longrightarrow> filter is_boot gs = []"
  by (cases fr) (auto split: option.splits)

lemma pushed_call_no_boot: "gs \<in> pushed_call u c \<Longrightarrow> filter is_boot gs = []"
  by (cases c) (auto split: option.splits)

lemma pushed_new_no_idle: "set (pushed_new u fr) \<subseteq> {IdleInit (StackSema u)}"
  by (cases fr) auto

lemma frame_step_idle_stack:
  assumes "stack_inv k" "frame_step k k'" "current k \<in> pages k" "\<forall>t. idle_thread k = Some t \<longrightarrow> t \<in> pages k"
  shows "idle_stack_ok k' \<and> idle_only_ok k' \<and> idle_init_ok k'"
proof -
  obtain fr fs gs where f: "main_frames k (current k) = fr # fs" "gs \<in> pushed (current k) fr"
    "idle_thread k' = (case fr of IdleInit s \<Rightarrow> Some (current k) | _ \<Rightarrow> idle_thread k)"
    and m: "\<forall>t\<in>pages k'. if t \<in> pages k then main_frames k' t = (if t = current k then gs @ fs else main_frames k t)
        else main_frames k' t = KernelThread # pushed_new (current k) fr"
    using assms(2) by (auto simp: frame_step_def)
  have inv: "idle_stack_ok k" "idle_only_ok k" "idle_init_ok k" using assms(1) by (simp_all add: stack_inv_def)
  have init: "s \<in> range StackSema \<and> fs = []" if "fr = IdleInit s" for s
    using inv(3) f(1) that assms(3) unfolding idle_init_ok_def by fastforce
  have idle_cur: "fr = IdleLoop \<or> fr = IdleHlt \<Longrightarrow> idle_thread k = Some (current k)"
    using inv(2) f(1) assms(3) unfolding idle_only_ok_def by force
  have bt: "idle_thread k = None" if "fr = IdleInit s" for s
  proof -
    have "boots k (current k) > 0" using f(1) that by (simp add: boots_def)
    then show ?thesis using assms(1,3) by (auto simp: stack_inv_def boot_ok_def)
  qed
  have old: "idle_thread k' = idle_thread k \<or> (\<exists>s u. fr = IdleInit s \<and> s = StackSema u \<and> fs = [] \<and>
      gs = [SemaUpCall s, IdleLoop] \<and> idle_thread k' = Some (current k) \<and> idle_thread k = None)"
    using f(2,3) init bt by (cases fr) auto
  have "idle_stack_ok k'"
    unfolding idle_stack_ok_def
  proof (intro ballI impI)
    fix t assume t: "t \<in> pages k'" "idle_thread k' = Some t"
    show "set (main_frames k' t) \<subseteq> idle_frames \<and>
      (IdleLoop \<in> set (main_frames k' t) \<or> IdleHlt \<in> set (main_frames k' t))"
    proof (cases "idle_thread k' = idle_thread k")
      case True
      then have tk: "t \<in> pages k" "set (main_frames k t) \<subseteq> idle_frames"
        "IdleLoop \<in> set (main_frames k t) \<or> IdleHlt \<in> set (main_frames k t)"
        using t assms(4) inv(1) by (auto simp: idle_stack_ok_def)
      show ?thesis
      proof (cases "t = current k")
        case False then show ?thesis using m t(1) tk by simp
      next
        case cur: True
        then have "fr \<in> idle_frames" "set fs \<subseteq> idle_frames" using tk(2) f(1) by auto
        moreover from pushed_idle_frames [OF this(1) f(2)] have "set gs \<subseteq> idle_frames"
          "fr = IdleLoop \<longrightarrow> gs = [IdleHlt]" "fr = IdleHlt \<longrightarrow> gs = [IdleLoop]" by auto
        moreover have "main_frames k' t = gs @ fs" using m t(1) tk(1) cur by simp
        ultimately show ?thesis using tk(3) f(1) cur by auto
      qed
    next
      case False
      with old obtain s u where o: "fr = IdleInit s" "s = StackSema u" "fs = []"
        "gs = [SemaUpCall s, IdleLoop]" "idle_thread k' = Some (current k)" by blast
      then have "t = current k" using t(2) by simp
      then have "main_frames k' t = [SemaUpCall (StackSema u), IdleLoop]" using m t(1) assms(3) o by simp
      then show ?thesis by (simp add: idle_frames_def)
    qed
  qed
  moreover have "idle_only_ok k'"
    unfolding idle_only_ok_def
  proof (intro ballI impI)
    fix t assume t: "t \<in> pages k'" "IdleLoop \<in> set (main_frames k' t) \<or> IdleHlt \<in> set (main_frames k' t)"
    have "t \<in> pages k"
    proof (rule ccontr)
      assume "t \<notin> pages k"
      then have "main_frames k' t = KernelThread # pushed_new (current k) fr" using m t(1) by simp
      then show False using t(2) pushed_new_no_idle [of "current k" fr] by auto
    qed
    moreover have "idle_thread k' = idle_thread k" if "idle_thread k \<noteq> None" using old that by auto
    moreover have "idle_thread k' = Some (current k)" if "IdleLoop \<in> set gs \<or> IdleHlt \<in> set gs"
      using pushed_idle [OF f(2) that] idle_cur f(3) by auto
    moreover have "t = current k \<and> (IdleLoop \<in> set gs \<or> IdleHlt \<in> set gs) \<or>
        IdleLoop \<in> set (main_frames k t) \<or> IdleHlt \<in> set (main_frames k t)"
      using m t \<open>t \<in> pages k\<close> f(1) by (cases "t = current k") auto
    ultimately show "idle_thread k' = Some t"
      using inv(2) unfolding idle_only_ok_def by (metis option.distinct(1))
  qed
  moreover have "idle_init_ok k'"
    unfolding idle_init_ok_def
  proof (intro ballI allI impI)
    fix t s assume t: "t \<in> pages k'" "IdleInit s \<in> set (main_frames k' t)"
    have ng: "IdleInit s \<notin> set gs" using pushed_no_boot [OF f(2)] by (auto simp: filter_empty_conv)
    show "s \<in> range StackSema \<and> (main_frames k' t = [KernelThread, IdleInit s] \<or> main_frames k' t = [IdleInit s])"
    proof (cases "t \<in> pages k")
      case True
      then have mt: "main_frames k' t = (if t = current k then gs @ fs else main_frames k t)" using m t(1) by simp
      then have "IdleInit s \<in> set (main_frames k t)" using t(2) ng f(1) by (auto split: if_splits)
      with inv(3) True have i: "s \<in> range StackSema"
        "main_frames k t = [KernelThread, IdleInit s] \<or> main_frames k t = [IdleInit s]"
        by (auto simp: idle_init_ok_def)
      then show ?thesis using mt t(2) ng f(1,2) by (cases "t = current k") auto
    next
      case False
      then show ?thesis using m t by (cases fr) auto
    qed
  qed
  ultimately show ?thesis by blast
qed


lemma boots_zero: "boots k t = 0 \<longleftrightarrow> filter is_boot (main_frames k t) = []"
  by (simp add: boots_def)

lemma frame_step_boot:
  assumes "stack_inv k" "frame_step k k'" "current k \<in> pages k"
  shows "boot_ok k'"
proof -
  obtain fr fs gs where f: "main_frames k (current k) = fr # fs" "gs \<in> pushed (current k) fr"
    "idle_thread k' = (case fr of IdleInit s \<Rightarrow> Some (current k) | _ \<Rightarrow> idle_thread k)" "frame_ok fr k"
    and m: "\<forall>t\<in>pages k'. if t \<in> pages k then main_frames k' t = (if t = current k then gs @ fs else main_frames k t)
        else main_frames k' t = KernelThread # pushed_new (current k) fr"
    using assms(2) by (auto simp: frame_step_def)
  have inv: "boot_ok k" using assms(1) by (simp add: stack_inv_def)
  have cur: "boots k (current k) = (if is_boot fr then 1 else 0) + length (filter is_boot fs)"
    using f(1) by (simp add: boots_def)
  have b: "t \<in> pages k' \<Longrightarrow> boots k' t = (if t \<in> pages k then if t = current k then length (filter is_boot fs) else boots k t
      else if (\<exists>i. fr = StartCall i) then 1 else 0)" for t
  proof -
    assume t: "t \<in> pages k'"
    have "length (filter is_boot (pushed_new (current k) fr)) = (if \<exists>i. fr = StartCall i then 1 else 0)"
      by (cases fr) auto
    moreover have "main_frames k' t = (if t \<in> pages k then if t = current k then gs @ fs else main_frames k t
        else KernelThread # pushed_new (current k) fr)"
      using bspec [OF m t] by (simp split: if_splits)
    ultimately show ?thesis using pushed_no_boot [OF f(2)] by (simp add: boots_def)
  qed
  show ?thesis
  proof (cases "is_boot fr")
    case False
    have "boots k' t = (if t \<in> pages k then boots k t else 0)" if "t \<in> pages k'" for t
      using b [OF that] cur False by auto
    moreover have "idle_thread k' = idle_thread k" using f(3) False by (cases fr) auto
    ultimately show ?thesis using inv by (auto simp: boot_ok_def)
  next
    case True
    then have "boots k (current k) > 0" using cur by simp
    then have u: "boots k (current k) \<le> 1" "idle_thread k = None"
      "\<forall>u\<in>pages k. boots k u > 0 \<longrightarrow> u = current k"
      using inv assms(3) unfolding boot_ok_def by blast+
    then have z: "length (filter is_boot fs) = 0" "\<forall>u\<in>pages k. u \<noteq> current k \<longrightarrow> boots k u = 0" "idle_thread k = None"
      using cur True by auto
    show ?thesis
    proof (cases "\<exists>i. fr = StartCall i")
      case True
      then obtain i where i: "fr = StartCall i" by blast
      have "boots k' t = (if t \<in> pages k then 0 else 1)" if "t \<in> pages k'" for t
        using b [OF that] z True by auto
      moreover obtain j where "pages k' \<subseteq> insert j (pages k)" using assms(2) by (auto simp: frame_step_def)
      ultimately show ?thesis using i f(3) z(3) unfolding boot_ok_def by auto
    next
      case False
      then have "boots k' t = 0" if "t \<in> pages k'" for t
        using b [OF that] z by auto
      then show ?thesis by (simp add: boot_ok_def)
    qed
  qed
qed


definition down_frames :: "frame list \<Rightarrow> addr set" where
  "down_frames fs = {u. SemaDownCall (StackSema u) \<in> set fs \<or> SemaDownLoop (StackSema u) \<in> set fs}"

lemma down_frames_append [simp]: "down_frames (xs @ ys) = down_frames xs \<union> down_frames ys"
  by (auto simp: down_frames_def)

lemma down_frames_start [simp]: "down_frames [KernelThread] = {}"
  by (simp add: down_frames_def)

lemma stack_sema_ok_iff: "stack_sema_ok k \<longleftrightarrow> (\<forall>t\<in>pages k. down_frames (main_frames k t) \<subseteq> {t})"
  by (auto simp: stack_sema_ok_def down_frames_def)

lemma pushed_down: "gs \<in> pushed u fr \<Longrightarrow> down_frames gs \<subseteq> down_frames [fr] \<union> {u}"
  by (cases fr) (auto simp: down_frames_def)

lemma pushed_call_down: "gs \<in> pushed_call u c \<Longrightarrow> down_frames gs \<subseteq> {u}"
  by (cases c) (auto simp: down_frames_def split: option.splits)

lemma pushed_new_down: "down_frames (KernelThread # pushed_new u fr) = {}"
  by (cases fr) (auto simp: down_frames_def)

lemma frame_step_stack_sema:
  assumes "stack_inv k" "frame_step k k'" "current k \<in> pages k"
  shows "stack_sema_ok k'"
proof -
  obtain fr fs gs where f: "main_frames k (current k) = fr # fs" "gs \<in> pushed (current k) fr"
    and m: "\<forall>t\<in>pages k'. if t \<in> pages k then main_frames k' t = (if t = current k then gs @ fs else main_frames k t)
        else main_frames k' t = KernelThread # pushed_new (current k) fr"
    using assms(2) by (auto simp: frame_step_def)
  have inv: "\<forall>t\<in>pages k. down_frames (main_frames k t) \<subseteq> {t}"
    using assms(1) by (simp add: stack_inv_def stack_sema_ok_iff)
  have "down_frames [fr] \<union> down_frames fs \<subseteq> {current k}"
    using inv assms(3) f(1) down_frames_append [of "[fr]" fs] by fastforce
  then have c: "down_frames (gs @ fs) \<subseteq> {current k}" using pushed_down [OF f(2)] by auto
  show ?thesis
    unfolding stack_sema_ok_iff
  proof
    fix t assume t: "t \<in> pages k'"
    show "down_frames (main_frames k' t) \<subseteq> {t}"
      using bspec [OF m t] inv c pushed_new_down [of "current k" fr]
      by (cases "t \<in> pages k"; cases "t = current k") simp_all
  qed
qed

lemma call_step_stack_inv:
  assumes "stack_inv k" "call_step k k'" "conds_ok k'" "current k \<in> pages k"
    "\<forall>t. idle_thread k = Some t \<longrightarrow> t \<in> pages k"
  shows "stack_inv k'"
proof -
  obtain c gs where c: "main_frames k (current k) = []" "gs \<in> pushed_call (current k) c"
    "idle_thread k' = idle_thread k"
    and m: "\<And>t. t \<in> pages k' \<Longrightarrow> main_frames k' t =
      (if t \<in> pages k then if t = current k then gs else main_frames k t else [KernelThread])"
    using assms(2) unfolding call_step_def by (metis (full_types))
  note inv = assms(1) [unfolded stack_inv_def]
  have nc: "idle_thread k \<noteq> Some (current k)" using inv assms(4) c(1) by (auto simp: idle_stack_ok_def)
  have b: "filter is_boot gs = []" "IdleLoop \<notin> set gs" "IdleHlt \<notin> set gs"
    using pushed_call_no_boot [OF c(2)] pushed_call_idle [OF c(2)] by auto
  then have ng: "IdleInit s \<notin> set gs" for s by (auto simp: filter_empty_conv)
  have "idle_stack_ok k'"
    using inv assms(5) nc c(3) m unfolding idle_stack_ok_def by metis
  moreover have "idle_only_ok k'"
    using inv b c(3) m unfolding idle_only_ok_def by (auto split: if_splits)
  moreover have "idle_init_ok k'"
    using inv ng m unfolding idle_init_ok_def by (auto split: if_splits)
  moreover have "boots k' t = (if t \<in> pages k \<and> t \<noteq> current k then boots k t else 0)" if "t \<in> pages k'" for t
    using m [OF that] b by (simp add: boots_def)
  then have "boot_ok k'"
    using inv unfolding boot_ok_def c(3) by (metis (no_types, lifting) less_irrefl_nat zero_le_one)
  moreover have "stack_sema_ok k'"
    unfolding stack_sema_ok_iff
  proof
    fix t assume t: "t \<in> pages k'"
    show "down_frames (main_frames k' t) \<subseteq> {t}"
      using m [OF t] pushed_call_down [OF c(2)] inv
      by (cases "t \<in> pages k"; cases "t = current k") (simp_all add: stack_sema_ok_iff)
  qed
  ultimately show ?thesis using assms(3) by (simp add: stack_inv_def)
qed

lemma intr_step_stack_inv:
  assumes "stack_inv k" "intr_step k k'" "conds_ok k'"
  shows "stack_inv k'"
proof -
  have i: "idle_thread k' = idle_thread k" "pages k' \<subseteq> pages k" "\<And>t. t \<in> pages k' \<Longrightarrow> main_frames k' t = main_frames k t"
    using assms(2) by (auto simp: intr_step_def)
  note inv = assms(1) [unfolded stack_inv_def]
  have "boots k' t = boots k t" if "t \<in> pages k'" for t using i(3) [OF that] by (simp add: boots_def)
  then have "boot_ok k'" using inv i(1,2) unfolding boot_ok_def by (metis subsetD)
  moreover have "idle_stack_ok k'" "idle_only_ok k'" "idle_init_ok k'" "stack_sema_ok k'"
    using inv i unfolding idle_stack_ok_def idle_only_ok_def idle_init_ok_def stack_sema_ok_def
    by (metis subsetD)+
  ultimately show ?thesis using assms(3) by (simp add: stack_inv_def)
qed

lemma kstep_stack_inv:
  assumes "kstep k k'" "stack_inv k" "current k \<in> pages k" "\<forall>t. idle_thread k = Some t \<longrightarrow> t \<in> pages k"
  shows "stack_inv k'"
proof -
  have co: "conds_ok k" using assms(2) by (simp add: stack_inv_def)
  note s = kstep_stacks [OF assms(1) co assms(3)]
  then have "conds_ok k'" by blast
  moreover have "frame_step k k' \<Longrightarrow> conds_ok k' \<Longrightarrow> stack_inv k'"
    using frame_step_idle_stack [of k k'] frame_step_boot [of k k'] frame_step_stack_sema [of k k'] assms
    by (simp add: stack_inv_def)
  ultimately show ?thesis
    using s call_step_stack_inv [of k k'] intr_step_stack_inv [of k k'] assms by blast
qed

lemma boot_stack_inv: "thread_init main idle_page mlfqs junk = Some k \<Longrightarrow> stack_inv k"
  by (auto simp: thread_init_def init_thread_def lock_init_def sema_init_def Let_def stack_inv_def conds_ok_def idle_stack_ok_def
      idle_only_ok_def idle_init_ok_def boot_ok_def boots_def stack_sema_ok_def main_frames_def)

end
