(* ===== verification/KernelInv.thy ===== *)
theory KernelInv
  imports KernelFrames
begin

text \<open>
  The invariant of the scheduler: in every reachable state of the kernel one thread runs, the
  ready list holds exactly the threads that are ready (the idle thread apart), and a blocked
  thread is linked into exactly one list, the sleep list or the waiters of the semaphore whose
  \<open>sema_down\<close> it has not left, or waits for an interrupt queue. The ownership of locks is in KernelLock.
\<close>

section \<open>The invariant\<close>

definition ready_ok :: "kernel \<Rightarrow> bool" where
  "ready_ok k \<longleftrightarrow> distinct (ready_list k) \<and>
     (\<forall>t. t \<in> set (ready_list k) \<longleftrightarrow>
        t \<in> pages k \<and> status (thr k t) = THREAD_READY \<and> idle_thread k \<noteq> Some t)"

definition sleep_ok :: "kernel \<Rightarrow> bool" where
  "sleep_ok k \<longleftrightarrow> distinct (sleep_list k) \<and>
     (\<forall>t\<in>set (sleep_list k). t \<in> pages k \<and> status (thr k t) = THREAD_BLOCKED \<and> idle_thread k \<noteq> Some t \<and>
        (\<exists>b fs. frames (thr k t) = IntrSetLevel b # fs))"

definition waiters_ok :: "kernel \<Rightarrow> bool" where
  "waiters_ok k \<longleftrightarrow> (\<forall>s. distinct (waiters (semas k s)) \<and>
     (\<forall>t\<in>set (waiters (semas k s)). t \<in> pages k \<and> status (thr k t) = THREAD_BLOCKED \<and>
        idle_thread k \<noteq> Some t \<and> (\<exists>fs. frames (thr k t) = SemaDownLoop s # fs)))"

definition intq_slots_ok :: "kernel \<Rightarrow> bool" where
  "intq_slots_ok k \<longleftrightarrow> (\<forall>w t. intq_waiter k w = Some t \<longrightarrow> t \<in> pages k \<and> status (thr k t) = THREAD_BLOCKED \<and>
     idle_thread k \<noteq> Some t \<and> (\<exists>fs. frames (thr k t) = IntqResume w # fs))"

text \<open>
  Blocked threads are linked, wait for an interrupt queue or as the idle thread, or have not
  started; \<open>X\<close> is exempt.
\<close>

definition blocked_ok :: "addr set \<Rightarrow> kernel \<Rightarrow> bool" where
  "blocked_ok X k \<longleftrightarrow> (\<forall>t\<in>pages k - X. status (thr k t) = THREAD_BLOCKED \<longrightarrow>
     t \<in> set (sleep_list k) \<or> (\<exists>s. t \<in> set (waiters (semas k s))) \<or> (\<exists>w. intq_waiter k w = Some t) \<or>
     idle_thread k = Some t \<or> (\<exists>fs. frames (thr k t) = KernelThread # fs))"

definition dying_ok :: "kernel \<Rightarrow> bool" where
  "dying_ok k \<longleftrightarrow> distinct (destruction_req k) \<and>
     (\<forall>t\<in>set (destruction_req k). t \<in> pages k \<and> status (thr k t) = THREAD_DYING \<and> t \<noteq> current k)"

definition idle_ok :: "kernel \<Rightarrow> bool" where
  "idle_ok k \<longleftrightarrow> (\<forall>t. idle_thread k = Some t \<longrightarrow> t \<in> pages k \<and> status (thr k t) \<noteq> THREAD_DYING)"

definition loops_ok :: "kernel \<Rightarrow> bool" where
  "loops_ok k \<longleftrightarrow> (\<forall>t\<in>pages k. \<forall>s. SemaDownLoop s \<notin> set (tl (frames (thr k t))))"

definition all_ok :: "kernel \<Rightarrow> bool" where
  "all_ok k \<longleftrightarrow> (\<forall>t\<in>pages k. status (thr k t) \<noteq> THREAD_DYING \<longrightarrow> t \<in> set (all_list k))"

definition core :: "addr set \<Rightarrow> kernel \<Rightarrow> bool" where
  "core X k \<longleftrightarrow> finite (pages k) \<and> current k \<in> pages k \<and> ready_ok k \<and> sleep_ok k \<and>
     waiters_ok k \<and> blocked_ok X k \<and> dying_ok k \<and> idle_ok k \<and> loops_ok k \<and>
     intq_slots_ok k \<and> all_ok k"

definition one_running :: "kernel \<Rightarrow> bool" where
  "one_running k \<longleftrightarrow> (\<forall>t\<in>pages k. status (thr k t) = THREAD_RUNNING \<longleftrightarrow> t = current k)"

text \<open>The state between two steps, and the state while a step of the running thread executes.\<close>

definition sched_inv :: "kernel \<Rightarrow> bool" where
  "sched_inv k \<longleftrightarrow> core {} k \<and> one_running k \<and> \<not> in_external_intr k \<and>
     (intr_on k \<longrightarrow> (\<forall>s fs. frames (thr k (current k)) \<noteq> SemaDownLoop s # fs))"

definition mid_step :: "kernel \<Rightarrow> bool" where
  "mid_step k \<longleftrightarrow> core {} k \<and> one_running k \<and> (\<forall>s. SemaDownLoop s \<notin> set (frames (thr k (current k))))"

lemmas core_defs = core_def ready_ok_def sleep_ok_def waiters_ok_def blocked_ok_def dying_ok_def
  idle_ok_def loops_ok_def intq_slots_ok_def all_ok_def

lemma mid_step_sched_inv: "mid_step k \<Longrightarrow> \<not> in_external_intr k \<Longrightarrow> sched_inv k"
  by (auto simp: mid_step_def sched_inv_def)

section \<open>Changes that do not concern the scheduler\<close>

text \<open>The step pushed \<open>gs\<close> for the running thread and left every queue and status alone.\<close>

definition quiet :: "frame list \<Rightarrow> kernel \<Rightarrow> kernel \<Rightarrow> bool" where
  "quiet gs k k' \<longleftrightarrow> pages k' = pages k \<and> ready_list k' = ready_list k \<and> sleep_list k' = sleep_list k \<and>
     destruction_req k' = destruction_req k \<and> current k' = current k \<and> idle_thread k' = idle_thread k \<and>
     in_external_intr k' = in_external_intr k \<and> intq_waiter k' = intq_waiter k \<and> all_list k' = all_list k \<and>
     (\<forall>s. waiters (semas k' s) = waiters (semas k s)) \<and>
     (\<forall>t. status (thr k' t) = status (thr k t)) \<and>
     (\<forall>t. frames (thr k' t) = (if t = current k then gs else []) @ frames (thr k t))"

lemma quiet_core:
  assumes "quiet gs k k'" "core X k" "one_running k" "X \<subseteq> {}" "\<forall>s. SemaDownLoop s \<notin> set (frames (thr k (current k)))"
    "\<forall>s. SemaDownLoop s \<notin> set (tl gs)"
  shows "core {} k' \<and> one_running k'"
proof -
  have q: "pages k' = pages k" "ready_list k' = ready_list k" "sleep_list k' = sleep_list k"
    "destruction_req k' = destruction_req k" "current k' = current k" "idle_thread k' = idle_thread k"
    "intq_waiter k' = intq_waiter k" "all_list k' = all_list k"
    "\<And>s. waiters (semas k' s) = waiters (semas k s)"
    "\<And>t. status (thr k' t) = status (thr k t)"
    "\<And>t. t \<noteq> current k \<Longrightarrow> frames (thr k' t) = frames (thr k t)"
    "frames (thr k' (current k)) = gs @ frames (thr k (current k))"
    using assms(1) by (auto simp: quiet_def)
  have r: "status (thr k t) = THREAD_BLOCKED \<Longrightarrow> t \<in> pages k \<Longrightarrow> t \<noteq> current k" for t
    using assms(3) by (auto simp: one_running_def)
  have "sleep_ok k'" using assms(2) r by (auto simp: core_def sleep_ok_def q)
  moreover have "waiters_ok k'" using assms(2) r by (auto simp: core_def waiters_ok_def q)
  moreover have "blocked_ok {} k'" using assms(2,4) r by (auto simp: core_def blocked_ok_def q)
  moreover have "intq_slots_ok k'" using assms(2) r by (fastforce simp: core_def intq_slots_ok_def q)
  moreover have "loops_ok k'"
    unfolding loops_ok_def
  proof (intro ballI allI)
    fix t s assume t: "t \<in> pages k'"
    show "SemaDownLoop s \<notin> set (tl (frames (thr k' t)))"
      using assms(2,5,6) t in_set_tl [of "SemaDownLoop s" "frames (thr k (current k))"]
      by (cases "t = current k"; cases gs) (auto simp: core_def loops_ok_def q)
  qed
  ultimately show ?thesis using assms(2,3)
    by (simp add: core_def ready_ok_def dying_ok_def idle_ok_def all_ok_def one_running_def q)
qed

lemma quiet_sched_inv:
  assumes "quiet gs k k'" "mid_step k" "\<forall>s. SemaDownLoop s \<notin> set (tl gs)"
    "intr_on k' \<Longrightarrow> \<forall>s. SemaDownLoop s \<notin> set gs" "\<not> in_external_intr k'"
  shows "sched_inv k'"
proof -
  have "core {} k' \<and> one_running k'"
    by (rule quiet_core [OF assms(1)]) (use assms in \<open>auto simp: mid_step_def\<close>)
  moreover have "frames (thr k' (current k')) = gs @ frames (thr k (current k))"
    using assms(1) by (simp add: quiet_def)
  ultimately show ?thesis
    using assms(2,4,5) by (cases gs) (auto simp: sched_inv_def mid_step_def)
qed

lemma quiet_mid_step:
  assumes "quiet gs k k'" "mid_step k" "\<forall>s. SemaDownLoop s \<notin> set gs"
  shows "mid_step k'"
proof -
  have "core {} k' \<and> one_running k'"
    by (rule quiet_core [OF assms(1)]) (use assms in \<open>auto simp: mid_step_def dest: in_set_tl\<close>)
  moreover have "frames (thr k' (current k')) = gs @ frames (thr k (current k))"
    using assms(1) by (simp add: quiet_def)
  ultimately show ?thesis using assms(2,3) by (auto simp: mid_step_def)
qed

section \<open>Switching threads\<close>

text \<open>Nobody runs: the state at the call of \<open>schedule\<close>.\<close>

definition none_running :: "kernel \<Rightarrow> bool" where
  "none_running k \<longleftrightarrow> (\<forall>t\<in>pages k. status (thr k t) \<noteq> THREAD_RUNNING)"

lemma schedule_inv:
  assumes c: "core {} k" "none_running k" "\<not> in_external_intr k"
    and d: "status (thr k (current k)) = THREAD_DYING \<Longrightarrow> destruction_req k = []"
    and s: "schedule k = Some k'"
  shows "sched_inv k' \<and> \<not> intr_on k'"
proof -
  obtain nxt where n: "snd (next_thread_to_run k) = Some nxt" "\<not> intr_on k" "nxt \<in> pages k"
    and sw: "k' = switch_to nxt (fst (next_thread_to_run k))"
    using s unfolding schedule_Some by blast
  have rd: "ready_list (fst (next_thread_to_run k)) = remove1 nxt (ready_list k)"
    and nr: "status (thr k nxt) = THREAD_READY \<and> nxt \<in> set (ready_list k) \<and> idle_thread k \<noteq> Some nxt \<or>
      idle_thread k = Some nxt \<and> ready_list k = []"
    using n(1) c(1) by (auto simp: next_thread_to_run_def core_def ready_ok_def split: list.splits)
  have nb: "nxt \<notin> set (sleep_list k)" "\<And>s. nxt \<notin> set (waiters (semas k s))"
    "status (thr k nxt) \<noteq> THREAD_DYING" "nxt \<notin> set (destruction_req k)" "\<And>w. intq_waiter k w \<noteq> Some nxt"
    using nr c(1) by (auto simp: core_def sleep_ok_def waiters_ok_def idle_ok_def dying_ok_def intq_slots_ok_def)
  have k': "pages k' = pages k" "ready_list k' = remove1 nxt (ready_list k)" "sleep_list k' = sleep_list k"
    "current k' = nxt" "idle_thread k' = idle_thread k" "in_external_intr k' = in_external_intr k"
    "semas k' = semas k" "intr_on k' = intr_on k" "intq_waiter k' = intq_waiter k" "all_list k' = all_list k"
    "\<And>t. status (thr k' t) = (if t = nxt then THREAD_RUNNING else status (thr k t))"
    "\<And>t. frames (thr k' t) = frames (thr k t)"
    "destruction_req k' = destruction_req k \<or>
      destruction_req k' = destruction_req k @ [current k] \<and> status (thr k (current k)) = THREAD_DYING \<and>
      current k \<noteq> nxt"
    using n(1) rd unfolding sw next_thread_to_run_def
    by (auto simp: switch_to_def Let_def split: list.splits)
  have "core {} k'"
    unfolding core_def
  proof (intro conjI)
    show "finite (pages k')" "current k' \<in> pages k'"
      using c(1) n(3) by (simp_all add: core_def k')
    have "nxt \<notin> set (remove1 nxt (ready_list k))" using c(1) by (auto simp: core_def ready_ok_def)
    then show "ready_ok k'" using c(1) nr by (auto simp: core_def ready_ok_def k')
    show "sleep_ok k'" using c(1) nb(1) by (auto simp: core_def sleep_ok_def k')
    show "waiters_ok k'" using c(1) nb(2) by (auto simp: core_def waiters_ok_def k')
    show "blocked_ok {} k'" using c(1) by (auto simp: core_def blocked_ok_def k')
    show "idle_ok k'" using c(1) by (auto simp: core_def idle_ok_def k')
    show "loops_ok k'" using c(1) by (auto simp: core_def loops_ok_def k')
    show "intq_slots_ok k'" using c(1) nb(5) by (fastforce simp: core_def intq_slots_ok_def k')
    show "all_ok k'" using c(1) nb(3) by (auto simp: core_def all_ok_def k')
    show "dying_ok k'"
      by (rule disjE [OF k'(13)]) (use c(1) d nb in \<open>auto simp: core_def dying_ok_def k'(1-12)\<close>)
  qed
  moreover have "one_running k'" using c(2) by (auto simp: one_running_def none_running_def k')
  ultimately show ?thesis using n(2) k'(6,8) c(3) by (simp add: sched_inv_def)
qed


section \<open>Waking threads\<close>

text \<open>A blocked thread that no list links any more, and nothing else out of order.\<close>

definition unlinked :: "addr \<Rightarrow> kernel \<Rightarrow> bool" where
  "unlinked t k \<longleftrightarrow> t \<notin> set (sleep_list k) \<and> (\<forall>s. t \<notin> set (waiters (semas k s))) \<and>
     (\<forall>w. intq_waiter k w \<noteq> Some t) \<and> idle_thread k \<noteq> Some t"

lemma unblock_core:
  assumes "core {t} k" "one_running k" "unlinked t k" "thread_unblock t k = Some k'"
  shows "core {} k' \<and> one_running k' \<and> current k' = current k \<and> in_external_intr k' = in_external_intr k \<and>
    intr_on k' = intr_on k \<and> sleep_list k' = sleep_list k \<and> semas k' = semas k \<and>
    intq_waiter k' = intq_waiter k \<and> (\<forall>u. frames (thr k' u) = frames (thr k u))"
proof -
  have u: "t \<in> pages k" "status (thr k t) = THREAD_BLOCKED"
    "k' = upd_thread t (status_update (\<lambda>_. THREAD_READY))
      (k\<lparr>ready_list := insert_ordered (cmp_priority k) t (ready_list k)\<rparr>)"
    using assms(4) by (auto simp: thread_unblock_def is_thread_def Let_def)
  have nt: "t \<notin> set (ready_list k)" "t \<notin> set (destruction_req k)" "t \<noteq> current k"
    using assms(1,2) u(1,2) by (auto simp: core_def ready_ok_def dying_ok_def one_running_def)
  have "ready_ok k'" using assms(1,3) u nt by (auto simp: core_def ready_ok_def unlinked_def)
  moreover have "sleep_ok k'" using assms(1,3) u by (auto simp: core_def sleep_ok_def unlinked_def)
  moreover have "waiters_ok k'" using assms(1,3) u by (auto simp: core_def waiters_ok_def unlinked_def)
  moreover have "blocked_ok {} k'" using assms(1) u by (auto simp: core_def blocked_ok_def)
  moreover have "intq_slots_ok k'" using assms(1,3) u by (auto simp: core_def intq_slots_ok_def unlinked_def)
  moreover have "dying_ok k'" "idle_ok k'" "loops_ok k'" "all_ok k'" "one_running k'"
    using assms(1,2) u nt by (auto simp: core_def dying_ok_def idle_ok_def loops_ok_def all_ok_def one_running_def)
  ultimately show ?thesis using assms(1) u(3) by (simp add: core_def)
qed

lemma waiters_top:
  "core X k \<Longrightarrow> t \<in> set (waiters (semas k s)) \<Longrightarrow> t \<in> pages k \<and> status (thr k t) = THREAD_BLOCKED \<and>
     idle_thread k \<noteq> Some t \<and> (\<exists>fs. frames (thr k t) = SemaDownLoop s # fs)"
  unfolding core_def waiters_ok_def by blast

lemma sleep_top:
  "core X k \<Longrightarrow> t \<in> set (sleep_list k) \<Longrightarrow> t \<in> pages k \<and> status (thr k t) = THREAD_BLOCKED \<and>
     idle_thread k \<noteq> Some t \<and> (\<exists>b fs. frames (thr k t) = IntrSetLevel b # fs)"
  unfolding core_def sleep_ok_def by blast

lemma intq_top:
  "core X k \<Longrightarrow> intq_waiter k w = Some t \<Longrightarrow> t \<in> pages k \<and> status (thr k t) = THREAD_BLOCKED \<and>
     idle_thread k \<noteq> Some t \<and> (\<exists>fs. frames (thr k t) = IntqResume w # fs)"
  unfolding core_def intq_slots_ok_def by blast

lemma core_distinct:
  "core X k \<Longrightarrow> distinct (ready_list k)" "core X k \<Longrightarrow> distinct (sleep_list k)"
  "core X k \<Longrightarrow> distinct (waiters (semas k s))"
  by (simp_all add: core_def ready_ok_def sleep_ok_def waiters_ok_def)

lemma core_mono: "core X k \<Longrightarrow> X \<subseteq> Y \<Longrightarrow> core Y k"
  by (auto simp: core_def blocked_ok_def)

lemma sema_up_wake_mid:
  assumes "mid_step k" "sema_up_wake s k = Some k'"
  shows "mid_step k' \<and> current k' = current k \<and> in_external_intr k' = in_external_intr k \<and> intr_on k' = intr_on k"
proof (cases "sort_down (\<lambda>t. priority (thr k t)) (waiters (semas k s))")
  case Nil
  then show ?thesis using assms by (simp add: sema_up_wake_def)
next
  case (Cons t ts)
  let ?k = "upd_sema s (waiters_update (\<lambda>_. ts)) k"
  have ub: "thread_unblock t ?k = Some k'" using assms(2) Cons by (simp add: sema_up_wake_def)
  have c: "core {} k" using assms(1) by (simp add: mid_step_def)
  have m: "mset (waiters (semas k s)) = mset (t # ts)" using Cons by (metis mset_sort)
  have d: "distinct (t # ts)" "set (waiters (semas k s)) = insert t (set ts)"
    using c mset_eq_imp_distinct_iff [OF m] mset_eq_setD [OF m] by (auto simp: core_def waiters_ok_def)
  have t: "t \<in> pages k" "status (thr k t) = THREAD_BLOCKED" "idle_thread k \<noteq> Some t"
    "\<exists>fs. frames (thr k t) = SemaDownLoop s # fs"
    using waiters_top [OF c, of t s] d(2) by blast+
  have other: "t \<notin> set (waiters (semas k r))" if "r \<noteq> s" for r
    using waiters_top [OF c, of t r] t(4) that by auto
  have "t \<notin> set (sleep_list k)" "\<And>w. intq_waiter k w \<noteq> Some t"
    using sleep_top [OF c, of t] intq_top [OF c] t(4) by fastforce+
  with t(3) other d(1) have "unlinked t ?k" by (simp add: unlinked_def)
  moreover have "core {t} ?k"
    unfolding core_def
  proof (intro conjI)
    show "waiters_ok ?k"
      unfolding waiters_ok_def
    proof (intro allI conjI ballI)
      fix r u
      show "distinct (waiters (semas ?k r))" using c d(1) by (auto simp: core_def waiters_ok_def)
      assume "u \<in> set (waiters (semas ?k r))"
      then have "u \<in> set (waiters (semas k r))" using d(2) by (auto split: if_splits)
      from waiters_top [OF c this] show "u \<in> pages ?k" "status (thr ?k u) = THREAD_BLOCKED"
        "idle_thread ?k \<noteq> Some u" "\<exists>fs. frames (thr ?k u) = SemaDownLoop r # fs" by simp_all
    qed
    have keep: "u \<in> set (waiters (semas ?k r))" if "u \<in> set (waiters (semas k r))" "u \<noteq> t" for u r
      using that d(2) by auto
    show "blocked_ok {t} ?k"
      unfolding blocked_ok_def
    proof (intro ballI impI)
      fix u assume u: "u \<in> pages ?k - {t}" "status (thr ?k u) = THREAD_BLOCKED"
      then have "u \<in> set (sleep_list k) \<or> (\<exists>r. u \<in> set (waiters (semas k r))) \<or>
          (\<exists>w. intq_waiter k w = Some u) \<or> idle_thread k = Some u \<or>
          (\<exists>fs. frames (thr k u) = KernelThread # fs)" using c by (auto simp: core_def blocked_ok_def)
      moreover have "u \<noteq> t" using u(1) by simp
      ultimately show "u \<in> set (sleep_list ?k) \<or> (\<exists>r. u \<in> set (waiters (semas ?k r))) \<or>
          (\<exists>w. intq_waiter ?k w = Some u) \<or> idle_thread ?k = Some u \<or>
          (\<exists>fs. frames (thr ?k u) = KernelThread # fs)" using keep by fastforce
    qed
  qed (use c in \<open>auto simp: core_def ready_ok_def sleep_ok_def dying_ok_def idle_ok_def loops_ok_def intq_slots_ok_def all_ok_def\<close>)
  moreover have "one_running ?k" using assms(1) by (simp add: mid_step_def one_running_def)
  ultimately show ?thesis using unblock_core [OF _ _ _ ub] assms(1) by (auto simp: mid_step_def)
qed

lemma awake_loop_mid:
  "mid_step k \<Longrightarrow> distinct ts \<Longrightarrow> set ts \<subseteq> set (sleep_list k) \<Longrightarrow> awake_loop now ts k = Some k' \<Longrightarrow>
     mid_step k' \<and> current k' = current k \<and> in_external_intr k' = in_external_intr k \<and> intr_on k' = intr_on k"
proof (induction ts arbitrary: k)
  case (Cons t ts)
  show ?case
  proof (cases "awake (thr k t) \<le> now")
    case True
    let ?k = "k\<lparr>sleep_list := remove1 t (sleep_list k)\<rparr>"
    obtain k1 where ub: "thread_unblock t ?k = Some k1" and r: "awake_loop now ts k1 = Some k'"
      using Cons.prems(4) True by (auto simp: bind_eq_Some_conv)
    have c: "core {} k" using Cons.prems(1) by (simp add: mid_step_def)
    have t: "t \<in> set (sleep_list k)" "distinct (sleep_list k)" "idle_thread k \<noteq> Some t"
      "\<exists>b fs. frames (thr k t) = IntrSetLevel b # fs"
      using c Cons.prems(3) by (auto simp: core_def sleep_ok_def)
    have w: "t \<notin> set (waiters (semas k s))" for s
      using waiters_top [OF c, of t s] t(4) by auto
    have i: "intq_waiter k w \<noteq> Some t" for w
      using intq_top [OF c, of w t] t(4) by auto
    have "unlinked t ?k" using t w i by (simp add: unlinked_def)
    moreover have "core {t} ?k"
      using c t(2) unfolding core_def
      by (intro conjI) (auto simp: ready_ok_def sleep_ok_def waiters_ok_def blocked_ok_def dying_ok_def
          idle_ok_def loops_ok_def intq_slots_ok_def all_ok_def dest: notin_set_remove1)
    moreover have "one_running ?k" using Cons.prems(1) by (simp add: mid_step_def one_running_def)
    ultimately have k1: "mid_step k1" "current k1 = current k" "in_external_intr k1 = in_external_intr k"
      "intr_on k1 = intr_on k" "sleep_list k1 = remove1 t (sleep_list k)"
      using unblock_core [OF _ _ _ ub] Cons.prems(1) by (auto simp: mid_step_def)
    have "set ts \<subseteq> set (sleep_list k1)" using Cons.prems(2,3) t(2) by (auto simp: k1(5))
    with Cons.IH [OF k1(1) _ _ r] Cons.prems(2) k1 show ?thesis by simp
  next
    case False
    then show ?thesis using Cons by simp
  qed
qed simp


lemma signal_intq_mid:
  assumes "mid_step k" "signal_intq w k = Some k'"
  shows "mid_step k' \<and> current k' = current k \<and> in_external_intr k' = in_external_intr k \<and> intr_on k' = intr_on k"
proof (cases "intq_waiter k w")
  case None
  then show ?thesis using assms by (simp add: signal_intq_def)
next
  case (Some t)
  let ?k = "k\<lparr>intq_waiter := (intq_waiter k)(w := None)\<rparr>"
  have "cmp_priority ?k = cmp_priority k" by (auto simp: cmp_priority_def fun_eq_iff)
  then have ub: "thread_unblock t ?k = Some k'"
    using assms(2) Some by (auto simp: signal_intq_def thread_unblock_def is_thread_def Let_def upd_thread_def bind_eq_Some_conv)
  have c: "core {} k" using assms(1) by (simp add: mid_step_def)
  note t = intq_top [OF c Some]
  have "intq_waiter ?k v \<noteq> Some t" for v using intq_top [OF c, of v t] t by auto
  moreover have "t \<notin> set (sleep_list k)" "\<And>s. t \<notin> set (waiters (semas k s))"
    using sleep_top [OF c, of t] waiters_top [OF c, of t] t by fastforce+
  ultimately have "unlinked t ?k" using t by (simp add: unlinked_def)
  moreover have "core {t} ?k"
    unfolding core_def
  proof (intro conjI)
    show "blocked_ok {t} ?k"
      unfolding blocked_ok_def
    proof (intro ballI impI)
      fix u assume u: "u \<in> pages ?k - {t}" "status (thr ?k u) = THREAD_BLOCKED"
      then have "u \<in> set (sleep_list k) \<or> (\<exists>r. u \<in> set (waiters (semas k r))) \<or>
          (\<exists>v. intq_waiter k v = Some u) \<or> idle_thread k = Some u \<or>
          (\<exists>fs. frames (thr k u) = KernelThread # fs)" using c by (auto simp: core_def blocked_ok_def)
      moreover have "\<exists>v. intq_waiter ?k v = Some u" if "intq_waiter k v = Some u" for v
        by (rule exI [of _ v]) (use that u(1) Some in auto)
      moreover have "sleep_list ?k = sleep_list k" "semas ?k = semas k" "idle_thread ?k = idle_thread k" "thr ?k = thr k"
        by simp_all
      ultimately show "u \<in> set (sleep_list ?k) \<or> (\<exists>r. u \<in> set (waiters (semas ?k r))) \<or>
          (\<exists>v. intq_waiter ?k v = Some u) \<or> idle_thread ?k = Some u \<or>
          (\<exists>fs. frames (thr ?k u) = KernelThread # fs)" by metis
    qed
    show "intq_slots_ok ?k" using c by (auto simp: core_def intq_slots_ok_def)
  qed (use c in \<open>auto simp: core_def ready_ok_def sleep_ok_def waiters_ok_def dying_ok_def idle_ok_def loops_ok_def
      all_ok_def\<close>)
  moreover have "one_running ?k" using assms(1) by (simp add: mid_step_def one_running_def)
  ultimately show ?thesis using unblock_core [OF _ _ _ ub] assms(1) by (auto simp: mid_step_def)
qed

section \<open>Giving up the processor\<close>

lemma do_schedule_Some:
  "do_schedule st k = Some k' \<Longrightarrow> current k \<in> pages k \<and> status (thr k (current k)) = THREAD_RUNNING \<and>
     schedule (upd_thread (current k) (status_update (\<lambda>_. st))
       (k\<lparr>pages := pages k - set (destruction_req k), destruction_req := []\<rparr>)) = Some k'"
  by (auto simp: do_schedule_def thread_current_bind Let_def)

text \<open>The state in which \<open>do_schedule\<close> calls \<open>schedule\<close>.\<close>

lemma running_not_linked:
  assumes "core X k" "one_running k"
  shows "current k \<notin> set (ready_list k)" "current k \<notin> set (sleep_list k)"
    "current k \<notin> set (waiters (semas k s))" "current k \<notin> set (destruction_req k)" "intq_waiter k w \<noteq> Some (current k)"
    "status (thr k (current k)) = THREAD_RUNNING"
proof -
  show r: "status (thr k (current k)) = THREAD_RUNNING"
    using assms by (simp add: core_def one_running_def)
  then show "current k \<notin> set (ready_list k)" using assms(1) by (auto simp: core_def ready_ok_def)
  show "current k \<notin> set (sleep_list k)" "current k \<notin> set (waiters (semas k s))"
    using sleep_top [OF assms(1)] waiters_top [OF assms(1)] r by fastforce+
  show "intq_waiter k w \<noteq> Some (current k)" using intq_top [OF assms(1)] r by fastforce
  show "current k \<notin> set (destruction_req k)" using assms(1) by (auto simp: core_def dying_ok_def)
qed

text \<open>
  The running thread \<open>c\<close> stops with status \<open>st\<close> and joins at most the queue that goes with it;
  pages of dead threads may be freed on the way.
\<close>

lemma stop_running:
  assumes k: "core {} k" "one_running k" and cur: "c = current k"
    and g: "pages k3 = pages k - D" "D \<subseteq> set (destruction_req k)"
      "destruction_req k3 = (if D = {} then destruction_req k else [])"
      "current k3 = c" "idle_thread k3 = idle_thread k"
    and st: "\<And>t. status (thr k3 t) = (if t = c then st else status (thr k t))" "st \<noteq> THREAD_RUNNING"
    and fr: "\<And>t. t \<noteq> c \<Longrightarrow> frames (thr k3 t) = frames (thr k t)"
      "\<And>s. SemaDownLoop s \<notin> set (tl (frames (thr k3 c)))"
    and rd: "distinct (ready_list k3)" "set (ready_list k3) =
      (if st = THREAD_READY \<and> idle_thread k \<noteq> Some c then insert c (set (ready_list k)) else set (ready_list k))"
    and sl: "distinct (sleep_list k3)" "set (sleep_list k3) = set (sleep_list k) \<union> S"
      "S \<subseteq> {t. t = c \<and> st = THREAD_BLOCKED \<and> idle_thread k \<noteq> Some c \<and> (\<exists>b fs. frames (thr k3 c) = IntrSetLevel b # fs)}"
    and wt: "\<And>s. distinct (waiters (semas k3 s))" "\<And>s. set (waiters (semas k3 s)) = set (waiters (semas k s)) \<union> W s"
      "\<And>s. W s \<subseteq> {t. t = c \<and> st = THREAD_BLOCKED \<and> idle_thread k \<noteq> Some c \<and> (\<exists>fs. frames (thr k3 c) = SemaDownLoop s # fs)}"
    and iq: "\<And>w. intq_waiter k3 w = (if w \<in> Q then Some c else intq_waiter k w)" "\<And>w. w \<in> Q \<Longrightarrow> intq_waiter k w = None"
      "Q \<subseteq> {w. st = THREAD_BLOCKED \<and> idle_thread k \<noteq> Some c \<and> (\<exists>fs. frames (thr k3 c) = IntqResume w # fs)}"
    and bl: "st = THREAD_BLOCKED \<Longrightarrow> c \<in> S \<or> (\<exists>s. c \<in> W s) \<or> Q \<noteq> {} \<or> idle_thread k = Some c"
    and al: "set (all_list k) - (if st = THREAD_DYING then {c} else {}) \<subseteq> set (all_list k3)"
    and dy: "st = THREAD_DYING \<Longrightarrow> idle_thread k \<noteq> Some c"
  shows "core {} k3 \<and> none_running k3"
proof -
  note nl = running_not_linked [OF k, folded cur]
  have dead: "t \<notin> D" if "status (thr k t) \<noteq> THREAD_DYING" for t
    using k(1) that g(2) by (auto simp: core_def dying_ok_def)
  have "core {} k3"
    unfolding core_def
  proof (intro conjI)
    have "c \<in> pages k" using k(1) cur by (simp add: core_def)
    then have cp: "c \<in> pages k3" using g(1) dead [of c] nl(6) by simp
    then show "finite (pages k3)" "current k3 \<in> pages k3" using k(1) g by (auto simp: core_def)
    have "t \<in> set (ready_list k3) \<longleftrightarrow> t \<in> pages k3 \<and> status (thr k3 t) = THREAD_READY \<and> idle_thread k3 \<noteq> Some t" for t
    proof (cases "t = c")
      case True
      then show ?thesis using rd(2) cp st(1) g(5) nl(1) by auto
    next
      case False
      then have "t \<in> set (ready_list k3) \<longleftrightarrow> t \<in> set (ready_list k)" using rd(2) by auto
      then show ?thesis using k(1) g(1,5) st(1) False dead [of t] by (auto simp: core_def ready_ok_def)
    qed
    then show "ready_ok k3" using rd(1) by (simp add: ready_ok_def)
    show "sleep_ok k3"
      unfolding sleep_ok_def
    proof (intro conjI ballI sl(1))
      fix t assume "t \<in> set (sleep_list k3)"
      then consider "t \<in> set (sleep_list k)" "t \<noteq> c" | "t = c" "t \<in> S" using sl nl(2) by auto
      then show "t \<in> pages k3" "status (thr k3 t) = THREAD_BLOCKED" "idle_thread k3 \<noteq> Some t"
        "\<exists>b fs. frames (thr k3 t) = IntrSetLevel b # fs"
        using sl(3) cp st(1) fr(1) g(1,5) dead [of t] sleep_top [OF k(1), of t] by (atomize (full), cases) auto
    qed
    show "waiters_ok k3"
      unfolding waiters_ok_def
    proof (intro allI conjI ballI wt(1))
      fix s t assume "t \<in> set (waiters (semas k3 s))"
      then consider "t \<in> set (waiters (semas k s))" "t \<noteq> c" | "t = c" "t \<in> W s" using wt(2,3) nl(3) by blast
      then show "t \<in> pages k3" "status (thr k3 t) = THREAD_BLOCKED" "idle_thread k3 \<noteq> Some t"
        "\<exists>fs. frames (thr k3 t) = SemaDownLoop s # fs"
        using wt(3) [of s] cp st(1) fr(1) g(1,5) dead [of t] waiters_top [OF k(1), of t s]
        by (atomize (full), cases) auto
    qed
    show "intq_slots_ok k3"
      unfolding intq_slots_ok_def
    proof (intro allI impI)
      fix w t assume "intq_waiter k3 w = Some t"
      then consider "intq_waiter k w = Some t" "t \<noteq> c" | "t = c" "w \<in> Q"
        using iq(1) [of w] nl(5) [of w] by (auto split: if_splits)
      then show "t \<in> pages k3 \<and> status (thr k3 t) = THREAD_BLOCKED \<and> idle_thread k3 \<noteq> Some t \<and>
        (\<exists>fs. frames (thr k3 t) = IntqResume w # fs)"
        using iq(3) cp st(1) fr(1) g(1,5) dead [of t] intq_top [OF k(1), of w t] by cases auto
    qed
    show "blocked_ok {} k3"
      unfolding blocked_ok_def
    proof (intro ballI impI)
      fix t assume t: "t \<in> pages k3 - {}" "status (thr k3 t) = THREAD_BLOCKED"
      show "t \<in> set (sleep_list k3) \<or> (\<exists>s. t \<in> set (waiters (semas k3 s))) \<or> (\<exists>w. intq_waiter k3 w = Some t) \<or>
        idle_thread k3 = Some t \<or> (\<exists>fs. frames (thr k3 t) = KernelThread # fs)"
      proof (cases "t = c")
        case True
        then show ?thesis using bl t st(1) sl(2) wt(2) iq(1) g(5) by auto
      next
        case False
        then have "t \<in> set (sleep_list k) \<or> (\<exists>s. t \<in> set (waiters (semas k s))) \<or> (\<exists>w. intq_waiter k w = Some t) \<or>
          idle_thread k = Some t \<or> (\<exists>fs. frames (thr k t) = KernelThread # fs)"
          using k(1) t st(1) g(1) by (auto simp: core_def blocked_ok_def)
        moreover have "intq_waiter k w = Some t \<Longrightarrow> \<exists>w. intq_waiter k3 w = Some t" for w
          using iq(1,2) [of w] by (auto intro!: exI [of _ w] split: if_splits)
        ultimately show ?thesis using sl(2) wt(2) g(5) fr(1) [OF False] by auto
      qed
    qed
    show "all_ok k3" using k(1) g(1) st al nl(6) unfolding core_def all_ok_def by (auto split: if_splits)
    show "dying_ok k3"
      using k(1) g st(1) by (auto simp: core_def dying_ok_def cur)
    show "idle_ok k3" using k(1) g(1,5) st(1) dy dead by (auto simp: core_def idle_ok_def)
    show "loops_ok k3" using k(1) fr g(1) unfolding core_def loops_ok_def by (metis DiffD1)
  qed
  moreover have "none_running k3" using k(2) g(1) st cur by (auto simp: none_running_def one_running_def)
  ultimately show ?thesis by blast
qed

lemma yield_inv:
  assumes "mid_step k" "thread_yield k = Some k'"
  shows "sched_inv k' \<and> \<not> intr_on k'"
proof -
  define k1 where "k1 = (push_frames [IntrSetLevel (intr_on k)] k)\<lparr>intr_on := False\<rparr>"
  define k2 where "k2 = (if Some (current k) \<noteq> idle_thread k
    then k1\<lparr>ready_list := insert_ordered (cmp_priority k1) (current k) (ready_list k1)\<rparr> else k1)"
  define k3 where "k3 = upd_thread (current k2) (status_update (\<lambda>_. THREAD_READY))
    (k2\<lparr>pages := pages k2 - set (destruction_req k2), destruction_req := []\<rparr>)"
  have s: "schedule k3 = Some k'" "\<not> in_external_intr k"
    using assms(2) do_schedule_Some [of THREAD_READY k2 k']
    by (auto simp: thread_yield_def thread_current_bind Let_def k3_def k2_def k1_def)
  have c: "core {} k" "one_running k" "\<forall>s. SemaDownLoop s \<notin> set (frames (thr k (current k)))"
    using assms(1) by (simp_all add: mid_step_def)
  note nl = running_not_linked [OF c(1,2)]
  note d = core_distinct [OF c(1)]
  have "core {} k3 \<and> none_running k3"
  proof (rule stop_running [OF c(1,2) refl, where D = "set (destruction_req k)" and S = "{}" and W = "\<lambda>_. {}"
        and Q = "{}" and st = THREAD_READY])
    show "distinct (ready_list k3)" "distinct (sleep_list k3)" "\<And>s. distinct (waiters (semas k3 s))"
      using d nl(1) by (simp_all add: k3_def k2_def k1_def)
  qed (use c(3) in \<open>auto simp: k3_def k2_def k1_def\<close>)
  then show ?thesis
    using schedule_inv [OF _ _ _ _ s(1)] s(2) by (simp add: k3_def k2_def k1_def)
qed


lemma exit_inv:
  assumes "mid_step k" "thread_exit k = Some k'" "idle_thread k \<noteq> Some (current k)"
  shows "sched_inv k'"
proof -
  define k1 where "k1 = upd_thread (current k) (frames_update (\<lambda>_. []))
    (k\<lparr>intr_on := False, all_list := remove1 (current k) (all_list k)\<rparr>)"
  define k3 where "k3 = upd_thread (current k1) (status_update (\<lambda>_. THREAD_DYING))
    (k1\<lparr>pages := pages k1 - set (destruction_req k1), destruction_req := []\<rparr>)"
  have s: "schedule k3 = Some k'" "\<not> in_external_intr k"
    using assms(2) do_schedule_Some [of THREAD_DYING k1 k']
    by (auto simp: thread_exit_def thread_current_bind Let_def k3_def k1_def)
  have c: "core {} k" "one_running k" using assms(1) by (simp_all add: mid_step_def)
  note nl = running_not_linked [OF c] and d = core_distinct [OF c(1)]
  have al: "x = current k" if "x \<in> set (all_list k)" "x \<notin> set (remove1 (current k) (all_list k))" for x
    using that by (metis in_set_remove1)
  have "core {} k3 \<and> none_running k3"
    by (rule stop_running [OF c refl, where D = "set (destruction_req k)" and S = "{}" and W = "\<lambda>_. {}"
        and Q = "{}" and st = THREAD_DYING]) (use d assms(3) in \<open>auto simp: k3_def k1_def dest: al\<close>)
  then show ?thesis
    using schedule_inv [OF _ _ _ _ s(1)] s(2) by (simp add: k3_def k1_def)
qed

lemma block_inv:
  assumes "thread_block k1 = Some k'"
    "core {} (upd_thread (current k1) (status_update (\<lambda>_. THREAD_BLOCKED)) k1) \<and>
     none_running (upd_thread (current k1) (status_update (\<lambda>_. THREAD_BLOCKED)) k1)"
  shows "sched_inv k'"
proof -
  have "schedule (upd_thread (current k1) (status_update (\<lambda>_. THREAD_BLOCKED)) k1) = Some k'"
    "\<not> in_external_intr k1"
    using assms(1) by (auto simp: thread_block_def thread_current_bind)
  then show ?thesis using schedule_inv assms(2) by fastforce
qed

lemma sleep_inv:
  assumes "mid_step k" "\<not> in_external_intr k" "thread_sleep n k = Some k'"
  shows "sched_inv k'"
proof (cases "Some (current k) = idle_thread k")
  case True
  then have "k' = k" using assms(3) by (auto simp: thread_sleep_def thread_current_bind)
  then show ?thesis using assms(1,2) by (simp add: mid_step_sched_inv)
next
  case False
  define k1 where "k1 = (upd_thread (current k) (awake_update (\<lambda>_. n))
    ((push_frames [IntrSetLevel (intr_on k)] k)\<lparr>intr_on := False\<rparr>))\<lparr>sleep_list := sleep_list k @ [current k]\<rparr>"
  have b: "thread_block k1 = Some k'"
    using assms(3) False by (auto simp: thread_sleep_def thread_current_bind Let_def k1_def)
  have c: "core {} k" "one_running k" "\<forall>s. SemaDownLoop s \<notin> set (frames (thr k (current k)))"
    using assms(1) by (simp_all add: mid_step_def)
  note nl = running_not_linked [OF c(1,2)] and d = core_distinct [OF c(1)]
  show ?thesis
  proof (rule block_inv [OF b], rule stop_running [OF c(1,2) refl, where D = "{}" and S = "{current k}"
        and W = "\<lambda>_. {}" and Q = "{}" and st = THREAD_BLOCKED])
  qed (use d nl(2) c(3) False in \<open>auto simp: k1_def\<close>)
qed

lemma sema_down_loop_inv:
  assumes "mid_step k" "\<not> in_external_intr k" "sema_down_loop s k = Some k'" "idle_thread k \<noteq> Some (current k)"
  shows "sched_inv k'"
proof (cases "sema_value (semas k s) = 0")
  case False
  then have "quiet [] k k'" using assms(3) by (auto simp: sema_down_loop_def quiet_def)
  then have "mid_step k'" "\<not> in_external_intr k'"
    using quiet_mid_step [OF _ assms(1)] assms(2) by (auto simp: quiet_def)
  then show ?thesis by (rule mid_step_sched_inv)
next
  case True
  define k1 where "k1 = push_frames [SemaDownLoop s]
    (upd_sema s (waiters_update (insert_ordered (cmp_priority k) (current k))) k)"
  have b: "thread_block k1 = Some k'"
    using assms(3) True by (auto simp: sema_down_loop_def thread_current_bind Let_def k1_def)
  have c: "core {} k" "one_running k" "\<forall>s. SemaDownLoop s \<notin> set (frames (thr k (current k)))"
    using assms(1) by (simp_all add: mid_step_def)
  note nl = running_not_linked [OF c(1,2)] and d = core_distinct [OF c(1)]
  show ?thesis
  proof (rule block_inv [OF b], rule stop_running [OF c(1,2) refl, where D = "{}" and S = "{}"
        and W = "\<lambda>r. if r = s then {current k} else {}" and Q = "{}" and st = THREAD_BLOCKED])
  qed (use d nl(3) c(3) assms(4) in \<open>auto simp: k1_def split: if_splits\<close>)
qed

lemma wait_intq_inv:
  assumes "mid_step k" "wait_intq w k = Some k'" "intq_waiter k w = None" "idle_thread k \<noteq> Some (current k)"
  shows "sched_inv k'"
proof -
  define k1 where "k1 = (push_frames [IntqResume w] k)\<lparr>intq_waiter := (intq_waiter k)(w := Some (current k))\<rparr>"
  have b: "thread_block k1 = Some k'"
    using assms(2) by (auto simp: wait_intq_def thread_current_bind Let_def k1_def)
  have c: "core {} k" "one_running k" "\<forall>s. SemaDownLoop s \<notin> set (frames (thr k (current k)))"
    using assms(1) by (simp_all add: mid_step_def)
  note d = core_distinct [OF c(1)]
  show ?thesis
  proof (rule block_inv [OF b], rule stop_running [OF c(1,2) refl, where D = "{}" and S = "{}"
        and W = "\<lambda>r. {}" and Q = "{w}" and st = THREAD_BLOCKED])
  qed (use d c(3) assms(3,4) in \<open>auto simp: k1_def\<close>)
qed

lemma idle_loop_inv:
  assumes "mid_step k" "idle_loop k = Some k'" "idle_thread k = Some (current k)"
  shows "sched_inv k'"
proof -
  define k1 where "k1 = push_frames [IdleHlt] (k\<lparr>intr_on := False\<rparr>)"
  have b: "thread_block k1 = Some k'" using assms(2) by (simp add: idle_loop_def k1_def)
  have c: "core {} k" "one_running k" "\<forall>s. SemaDownLoop s \<notin> set (frames (thr k (current k)))"
    using assms(1) by (simp_all add: mid_step_def)
  note d = core_distinct [OF c(1)]
  show ?thesis
  proof (rule block_inv [OF b], rule stop_running [OF c(1,2) refl, where D = "{}" and S = "{}"
        and W = "\<lambda>r. {}" and Q = "{}" and st = THREAD_BLOCKED])
  qed (use d c(3) assms(3) in \<open>auto simp: k1_def\<close>)
qed

lemma compare_inv:
  assumes "mid_step k" "thread_compare_priority k = Some k'"
  shows "mid_step k' \<and> k' = k \<or> \<not> in_external_intr k \<and> sched_inv k'"
  using assms yield_inv [OF assms(1), of k']
  by (auto simp: thread_compare_priority_def thread_current_bind split: if_splits)

lemma quiet_trans_value:
  "mid_step k \<Longrightarrow> mid_step (upd_sema s (sema_value_update g) k)"
  by (rule quiet_mid_step [where gs = "[]"]) (auto simp: quiet_def)

lemma sema_up_body_inv:
  assumes "mid_step k" "sema_up_body s k = Some k'"
  shows "(mid_step k' \<and> in_external_intr k' = in_external_intr k) \<or> \<not> in_external_intr k \<and> sched_inv k'"
proof -
  obtain k1 where k1: "sema_up_wake s k = Some k1"
    "thread_compare_priority (upd_sema s (sema_value_update (\<lambda>v. v + 1)) k1) = Some k'"
    using assms(2) by (auto simp: sema_up_body_def bind_eq_Some_conv Let_def)
  have m: "mid_step k1" "in_external_intr k1 = in_external_intr k"
    using sema_up_wake_mid [OF assms(1) k1(1)] by auto
  from compare_inv [OF quiet_trans_value [OF m(1)] k1(2)] m(2) show ?thesis by auto
qed

lemma sema_up_inv:
  assumes "mid_step k" "\<not> in_external_intr k" "sema_up s k = Some k'"
  shows "sched_inv k'"
proof -
  let ?k = "(push_frames [IntrSetLevel (intr_on k)] k)\<lparr>intr_on := False\<rparr>"
  have "mid_step ?k" by (rule quiet_mid_step [OF _ assms(1), where gs = "[IntrSetLevel (intr_on k)]"]) (auto simp: quiet_def)
  moreover have "sema_up_body s ?k = Some k'" using assms(3) by (simp add: sema_up_def Let_def)
  ultimately show ?thesis using sema_up_body_inv [of ?k s k'] assms(2) mid_step_sched_inv by auto
qed


section \<open>Operations without a switch\<close>

definition no_loops :: "frame list \<Rightarrow> bool" where
  "no_loops gs \<longleftrightarrow> (\<forall>s. SemaDownLoop s \<notin> set gs)"

lemma no_loops_simps [simp]: "no_loops []" "no_loops (fr # gs) \<longleftrightarrow> (\<forall>s. fr \<noteq> SemaDownLoop s) \<and> no_loops gs"
  by (auto simp: no_loops_def)

definition tame :: "kernel \<Rightarrow> kernel \<Rightarrow> bool" where
  "tame k k' \<longleftrightarrow> (\<exists>gs. quiet gs k k' \<and> no_loops gs)"

lemma tameI: "quiet gs k k' \<Longrightarrow> no_loops gs \<Longrightarrow> tame k k'"
  by (auto simp: tame_def)

lemma tame_mid: "tame k k' \<Longrightarrow> mid_step k \<Longrightarrow> mid_step k'"
  unfolding tame_def no_loops_def by (blast intro: quiet_mid_step)

lemma tame_context: "tame k k' \<Longrightarrow> in_external_intr k' = in_external_intr k \<and> current k' = current k \<and>
    idle_thread k' = idle_thread k"
  by (auto simp: tame_def quiet_def)

lemma tame_inv: "tame k k' \<Longrightarrow> mid_step k \<Longrightarrow> \<not> in_external_intr k \<Longrightarrow> sched_inv k'"
  using tame_mid tame_context mid_step_sched_inv by blast

lemma quiet_push: "quiet gs k (push_frames gs k)"
  by (auto simp: quiet_def)

lemma tame_push [simp]: "tame k (push_frames gs k) \<longleftrightarrow> no_loops gs"
  by (auto simp: tame_def quiet_def dest: spec [of _ "current k"])

named_theorems tame_ops

lemma tame_upd [tame_ops]:
  "(\<And>x. status (g x) = status x) \<Longrightarrow> (\<And>x. frames (g x) = frames x) \<Longrightarrow> tame k (upd_thread t g k)"
  by (rule tameI [where gs = "[]"]) (auto simp: quiet_def)

lemma tame_trans: "tame k k1 \<Longrightarrow> tame k1 k2 \<Longrightarrow> tame k k2"
proof -
  assume "tame k k1" "tame k1 k2"
  then obtain gs hs where q: "quiet gs k k1" "quiet hs k1 k2" "no_loops gs" "no_loops hs"
    by (auto simp: tame_def)
  then have "quiet (hs @ gs) k k2" by (auto simp: quiet_def)
  moreover have "no_loops (hs @ gs)" using q by (auto simp: no_loops_def)
  ultimately show ?thesis by (rule tameI)
qed

lemma tame_push_after [simp]: "tame k k1 \<Longrightarrow> no_loops gs \<Longrightarrow> tame k (push_frames gs k1)"
  by (rule tame_trans [of k k1]) simp_all

lemma tame_refl [simp]: "tame k k"
  by (rule tameI [where gs = "[]"]) (auto simp: quiet_def)

lemma tame_fields [simp]:
  "(\<And>x. status (g x) = status x) \<Longrightarrow> (\<And>x. frames (g x) = frames x) \<Longrightarrow> tame k (upd_thread t g k)"
  "tame k (k\<lparr>intr_on := b\<rparr>)" "tame k (k\<lparr>holder := h\<rparr>)" "tame k (k\<lparr>conds := c\<rparr>)" "tame k (k\<lparr>next_tid := n\<rparr>)"
  by (rule tameI [where gs = "[]"]; simp add: quiet_def)+

lemma donation_loop_tame: "donation_loop n t k = Some k' \<Longrightarrow> tame k k'"
proof (induction n t k rule: donation_loop.induct)
  case (2 n t k)
  show ?case
  proof (cases "wait_on_lock (thr k t)")
    case None
    then show ?thesis using 2 by simp
  next
    case (Some l)
    then obtain h where h: "holder k l = Some h" "h \<in> pages k"
      "donation_loop n h (upd_thread h (priority_update (\<lambda>_. priority (thr k t))) k) = Some k'"
      using "2.prems" by (auto simp: bind_eq_Some_conv is_thread_def)
    have "tame k (upd_thread h (priority_update (\<lambda>_. priority (thr k t))) k)" by simp
    moreover have "tame (upd_thread h (priority_update (\<lambda>_. priority (thr k t))) k) k'"
      using "2.IH" [OF Some h(1) _ h(3)] h(2) by (simp add: is_thread_def)
    ultimately show ?thesis by (rule tame_trans)
  qed
qed simp

lemma unlink_donors_tame: "tame k (unlink_donors ts k)"
  by (rule tameI [where gs = "[]"]) (auto simp: quiet_def)

lemma tame_frames [tame_ops]:
  "priority_donation k = Some k' \<Longrightarrow> tame k k'"
  "lock_donate l k = Some k' \<Longrightarrow> tame k k'"
  "remove_donation l k = Some k' \<Longrightarrow> tame k k'"
  "tame k (allocate_tid t k)"
  by (auto simp: priority_donation_def lock_donate_def remove_donation_def allocate_tid_def Let_def
      thread_current_bind bind_eq_Some_conv donation_loop_tame
      intro: tame_trans [OF tame_fields(5) tame_fields(1)] tame_trans [OF tame_fields(1) tame_fields(1)]
        tame_trans [OF tame_fields(1) unlink_donors_tame])

lemma re_priority_tame [tame_ops]:
  assumes "re_priority k = Some k'"
  shows "tame k k'"
proof -
  let ?k = "upd_thread (current k) (\<lambda>c. c\<lparr>priority := init_priority c\<rparr>) k"
  have "tame k ?k" by simp
  moreover have "tame ?k k'"
    using assms by (auto simp: re_priority_def thread_current_bind Let_def split: if_splits
        intro!: tame_trans [OF tame_upd tame_upd])
  ultimately show ?thesis by (rule tame_trans)
qed

lemma push_push: "push_frames xs (push_frames ys k) = push_frames (xs @ ys) k"
  by (simp add: push_frames_def upd_thread_def o_def)

lemma tame_lock [tame_ops]:
  "lock_acquire l k = Some k' \<Longrightarrow> tame k k'"
  "lock_release l k = Some k' \<Longrightarrow> tame k k'"
  "lock_drop l k = Some k' \<Longrightarrow> tame k k'"
  "cond_signal c l k = Some k' \<Longrightarrow> tame k k'"
  "cond_broadcast_loop c l k = Some k' \<Longrightarrow> tame k k'"
proof -
  show "lock_acquire l k = Some k' \<Longrightarrow> tame k k'"
    by (cases "thread_mlfqs k"; cases "holder k l")
      (auto simp: lock_acquire_def lock_held_by_current_thread_def thread_current_bind Let_def push_push)
  show "lock_release l k = Some k' \<Longrightarrow> tame k k'"
    by (cases "thread_mlfqs k") (auto simp: lock_release_def lock_held_by_current_thread_def thread_current_bind)
  show "lock_drop l k = Some k' \<Longrightarrow> tame k k'"
    by (auto simp: lock_drop_def intro!: tameI [where gs = "[SemaUpCall (LockSema l)]"]) (auto simp: quiet_def)
  show "cond_signal c l k = Some k' \<Longrightarrow> tame k k'"
    by (auto simp: cond_signal_def lock_held_by_current_thread_def thread_current_bind Let_def split: if_splits
        intro!: tameI [where gs = "[SemaUpCall (hd (sort_down (sema_first_priority k) (conds k c)))]"])
      (auto simp: quiet_def)
  show "cond_broadcast_loop c l k = Some k' \<Longrightarrow> tame k k'"
    by (auto simp: cond_broadcast_loop_def)
qed

text \<open>A semaphore without waiters may be initialised at any time.\<close>

lemma sema_init_tame: "waiters (semas k s) = [] \<Longrightarrow> tame k (sema_init s v k)"
  by (rule tameI [where gs = "[]"]) (auto simp: quiet_def sema_init_def)

section \<open>Creating threads\<close>

text \<open>A thread that is blocked outside every list and not yet started.\<close>

definition parked :: "addr \<Rightarrow> kernel \<Rightarrow> bool" where
  "parked v k \<longleftrightarrow> v \<in> pages k \<and> status (thr k v) = THREAD_BLOCKED \<and> unlinked v k"

lemma init_thread_mid:
  assumes "mid_step k" "init_thread t p (KernelThread # body) k = Some k'" "t \<notin> pages k" "no_loops body"
  shows "mid_step k' \<and> parked t k' \<and> current k' = current k \<and> in_external_intr k' = in_external_intr k \<and>
    idle_thread k' = idle_thread k"
proof -
  have c: "core {} k" "one_running k" "\<forall>s. SemaDownLoop s \<notin> set (frames (thr k (current k)))"
    using assms(1) by (simp_all add: mid_step_def)
  have k': "pages k' = insert t (pages k)" "ready_list k' = ready_list k" "sleep_list k' = sleep_list k"
    "semas k' = semas k" "current k' = current k" "idle_thread k' = idle_thread k"
    "destruction_req k' = destruction_req k" "in_external_intr k' = in_external_intr k"
    "intq_waiter k' = intq_waiter k" "all_list k' = all_list k @ [t]"
    "\<And>u. status (thr k' u) = (if u = t then THREAD_BLOCKED else status (thr k u))"
    "\<And>u. frames (thr k' u) = (if u = t then KernelThread # body else frames (thr k u))"
    using assms(2) by (auto simp: init_thread_def)
  have nt: "t \<noteq> current k" "t \<notin> set (ready_list k)" "t \<notin> set (sleep_list k)" "\<And>s. t \<notin> set (waiters (semas k s))"
    "t \<notin> set (destruction_req k)" "idle_thread k \<noteq> Some t" "\<And>w. intq_waiter k w \<noteq> Some t"
    using c(1) assms(3) waiters_top [OF c(1), of t] sleep_top [OF c(1), of t] intq_top [OF c(1), of _ t]
    by (auto simp: core_def ready_ok_def dying_ok_def idle_ok_def)
  have "core {} k'"
    unfolding core_def
  proof (intro conjI)
    show "ready_ok k'" using c(1) nt(2) by (auto simp: core_def ready_ok_def k')
    show "waiters_ok k'"
      unfolding waiters_ok_def
    proof (intro allI conjI ballI)
      fix s u
      show "distinct (waiters (semas k' s))" using core_distinct(3) [OF c(1)] by (simp add: k')
      assume "u \<in> set (waiters (semas k' s))"
      then have "u \<in> set (waiters (semas k s))" "u \<noteq> t" using nt(4) by (auto simp: k')
      with waiters_top [OF c(1)] show "u \<in> pages k'" "status (thr k' u) = THREAD_BLOCKED"
        "idle_thread k' \<noteq> Some u" "\<exists>fs. frames (thr k' u) = SemaDownLoop s # fs" by (auto simp: k')
    qed
    show "loops_ok k'" using c(1) assms(4) by (auto simp: core_def loops_ok_def k' no_loops_def)
    show "dying_ok k'" using c(1) nt(5) by (auto simp: core_def dying_ok_def k')
    show "sleep_ok k'" using c(1) nt(3) by (auto simp: core_def sleep_ok_def k')
    show "blocked_ok {} k'" using c(1) by (auto simp: core_def blocked_ok_def k')
    show "idle_ok k'" using c(1) nt(6) by (auto simp: core_def idle_ok_def k')
    show "intq_slots_ok k'" using c(1) nt(7) by (fastforce simp: core_def intq_slots_ok_def k')
    show "all_ok k'" using c(1) by (auto simp: core_def all_ok_def k')
  qed (use c(1) in \<open>auto simp: core_def k'\<close>)
  moreover have "one_running k'" using c(2) nt(1) by (auto simp: one_running_def k')
  ultimately show ?thesis using c(3) nt by (auto simp: mid_step_def parked_def unlinked_def k')
qed

lemma thread_create_mid:
  assumes "mid_step k" "thread_create page ok p body k = Some k'" "\<forall>t. page = Some t \<longrightarrow> t \<notin> pages k" "no_loops body"
  shows "mid_step k' \<and> in_external_intr k' = in_external_intr k \<and> current k' = current k \<and>
    (\<forall>t. page = Some t \<longrightarrow> parked t k')"
proof (cases page)
  case None
  then show ?thesis using assms by (simp add: thread_create_def)
next
  case (Some t)
  then obtain k1 where k1: "init_thread t p (KernelThread # body) k = Some k1"
    "k' = (if ok then push_frames (create_frames t) k1 else k1)"
    using assms(2) by (cases ok) (auto simp: thread_create_def bind_eq_Some_conv)
  have m: "mid_step k1" "parked t k1" "in_external_intr k1 = in_external_intr k" "current k1 = current k"
    using init_thread_mid [OF assms(1) k1(1)] assms(3,4) Some by auto
  have "tame k1 k'" using k1(2) by simp
  then show ?thesis
    using tame_mid [OF _ m(1)] m tame_context [of k1 k'] Some k1(2) by (auto simp: parked_def unlinked_def)
qed


section \<open>Starting the idle thread\<close>

lemma idle_init_inv:
  assumes "mid_step k" "\<not> in_external_intr k" "idle_init s k = Some k'" "idle_thread k = None"
  shows "sched_inv k'"
proof -
  have k': "k' = push_frames [SemaUpCall s, IdleLoop] (k\<lparr>idle_thread := Some (current k)\<rparr>)"
    using assms(3) by (auto simp: idle_init_def thread_current_bind)
  let ?k = "k\<lparr>idle_thread := Some (current k)\<rparr>"
  have c: "core {} k" "one_running k" using assms(1) by (simp_all add: mid_step_def)
  note nl = running_not_linked [OF c]
  have "core {} ?k"
    unfolding core_def
  proof (intro conjI)
    show "waiters_ok ?k"
      unfolding waiters_ok_def
    proof (intro allI conjI ballI)
      fix r u
      show "distinct (waiters (semas ?k r))" using core_distinct(3) [OF c(1)] by simp
      assume "u \<in> set (waiters (semas ?k r))"
      then have "u \<in> set (waiters (semas k r))" "u \<noteq> current k" using nl(3) by auto
      with waiters_top [OF c(1)] show "u \<in> pages ?k" "status (thr ?k u) = THREAD_BLOCKED"
        "idle_thread ?k \<noteq> Some u" "\<exists>fs. frames (thr ?k u) = SemaDownLoop r # fs" by auto
    qed
    show "ready_ok ?k" using c(1) nl(6) assms(4) by (auto simp: core_def ready_ok_def)
    show "sleep_ok ?k" using c(1) nl(2) by (auto simp: core_def sleep_ok_def)
    show "blocked_ok {} ?k" using c(1) assms(4) by (auto simp: core_def blocked_ok_def)
    show "idle_ok ?k" using c(1) nl(6) by (auto simp: core_def idle_ok_def)
    show "intq_slots_ok ?k" using c(1) nl(5) by (fastforce simp: core_def intq_slots_ok_def)
  qed (use c(1) in \<open>auto simp: core_def dying_ok_def loops_ok_def all_ok_def\<close>)
  then have "mid_step ?k" using assms(1) by (auto simp: mid_step_def one_running_def)
  moreover have "tame ?k k'" by (simp add: k')
  ultimately show ?thesis using tame_inv assms(2) by fastforce
qed

section \<open>The frames of the running thread\<close>

lemma pop_mid:
  assumes "sched_inv k" "frames (thr k (current k)) = fr # fs"
  shows "mid_step (pop_frame k)"
proof -
  have c: "core {} k" "one_running k" using assms(1) by (simp_all add: sched_inv_def)
  note nl = running_not_linked [OF c]
  have nf: "SemaDownLoop s \<notin> set fs" for s
    using c(1) assms(2) by (auto simp: core_def loops_ok_def dest: bspec [of _ _ "current k"])
  have "core {} (pop_frame k)"
    unfolding core_def
  proof (intro conjI)
    show "waiters_ok (pop_frame k)"
      unfolding waiters_ok_def
    proof (intro allI conjI ballI)
      fix r u
      show "distinct (waiters (semas (pop_frame k) r))" using core_distinct(3) [OF c(1)] by simp
      assume "u \<in> set (waiters (semas (pop_frame k) r))"
      then have "u \<in> set (waiters (semas k r))" "u \<noteq> current k" using nl(3) by auto
      with waiters_top [OF c(1)] show "u \<in> pages (pop_frame k)" "status (thr (pop_frame k) u) = THREAD_BLOCKED"
        "idle_thread (pop_frame k) \<noteq> Some u" "\<exists>fs. frames (thr (pop_frame k) u) = SemaDownLoop r # fs" by auto
    qed
    show "loops_ok (pop_frame k)"
      using c(1) nf assms(2) by (auto simp: core_def loops_ok_def dest: in_set_tl)
    show "sleep_ok (pop_frame k)" using c(1) nl(2) by (auto simp: core_def sleep_ok_def)
    show "blocked_ok {} (pop_frame k)" using c(1) nl(6) by (auto simp: core_def blocked_ok_def)
    show "intq_slots_ok (pop_frame k)" using c(1) nl(5) by (fastforce simp: core_def intq_slots_ok_def)
  qed (use c(1) in \<open>auto simp: core_def ready_ok_def dying_ok_def idle_ok_def all_ok_def\<close>)
  then show ?thesis using c(2) nf assms(2) by (auto simp: mid_step_def one_running_def)
qed

text \<open>Nobody waits on a semaphore on the stack of the running thread.\<close>

lemma own_stack_sema:
  assumes "sched_inv k" "stack_inv k"
  shows "waiters (semas k (StackSema (current k))) = []"
proof (rule ccontr)
  assume "waiters (semas k (StackSema (current k))) \<noteq> []"
  then obtain t where t: "t \<in> set (waiters (semas k (StackSema (current k))))"
    by (cases "waiters (semas k (StackSema (current k)))") auto
  have c: "core {} k" "one_running k" using assms(1) by (simp_all add: sched_inv_def)
  from waiters_top [OF c(1) t] obtain fs where w: "t \<in> pages k" "status (thr k t) = THREAD_BLOCKED"
    "frames (thr k t) = SemaDownLoop (StackSema (current k)) # fs" by blast
  then have "SemaDownLoop (StackSema (current k)) \<in> set (main_frames k t)" by (simp add: main_frames_def)
  then have "t = current k" using assms(2) w(1) by (auto simp: stack_inv_def stack_sema_ok_def)
  then show False using running_not_linked(3) [OF c] t by simp
qed

lemma thread_start_mid:
  assumes "mid_step k" "waiters (semas k (StackSema (current k))) = []" "i \<notin> pages k" "thread_start i k = Some k'"
  shows "mid_step k' \<and> in_external_intr k' = in_external_intr k \<and> parked i k'"
proof -
  let ?k1 = "push_frames [StartEnable, SemaDownCall (StackSema (current k))] (sema_init (StackSema (current k)) 0 k)"
  have "tame k (sema_init (StackSema (current k)) 0 k)" by (rule sema_init_tame [OF assms(2)])
  then have t: "tame k ?k1" by simp
  have p1: "pages ?k1 = pages k" by (simp add: sema_init_def)
  have cr: "thread_create (Some i) True PRI_MIN [IdleInit (StackSema (current k))] ?k1 = Some k'"
    using assms(4) by (auto simp: thread_start_def thread_current_bind Let_def)
  show ?thesis
    using thread_create_mid [OF tame_mid [OF t assms(1)] cr] assms(3) p1 tame_context [OF t] by simp
qed

definition create_inv :: "kernel \<Rightarrow> bool" where
  "create_inv k \<longleftrightarrow> (\<forall>t\<in>pages k. \<forall>v. CreateUnblock v \<in> set (main_frames k t) \<longrightarrow> parked v k)"

lemma unblock_parked_inv:
  assumes "mid_step k" "\<not> in_external_intr k" "unlinked t k" "thread_unblock t k = Some k'"
  shows "sched_inv k'"
proof -
  have "core {t} k" "one_running k" using assms(1) core_mono by (auto simp: mid_step_def)
  from unblock_core [OF this assms(3,4)] have "mid_step k'" "\<not> in_external_intr k'"
    using assms(1,2) by (auto simp: mid_step_def)
  then show ?thesis by (rule mid_step_sched_inv)
qed

lemma exec_frame_inv:
  assumes k: "sched_inv k" "stack_inv k" "create_inv k"
    and f: "frames (thr k (current k)) = fr # fs" "frame_ok fr k" "exec_frame fr (pop_frame k) = Some k'"
  shows "sched_inv k'"
proof -
  have m: "mid_step (pop_frame k)" by (rule pop_mid [OF k(1) f(1)])
  have x: "\<not> in_external_intr (pop_frame k)" "current k \<in> pages k"
    using k(1) by (auto simp: sched_inv_def core_def)
  have mf: "\<not> is_intr_frame fr \<Longrightarrow> fr \<in> set (main_frames k (current k))" using f(1) by (simp add: main_frames_def)
  have id: "idle_thread k \<noteq> Some (current k)" if "fr = SemaDownLoop s" for s
    using k(2) x(2) mf that by (auto simp: stack_inv_def idle_stack_ok_def idle_frames_def)
  note tm = tame_inv [OF _ m x(1)]
  show ?thesis
  proof (cases fr)
    case (SemaDownCall s)
    show ?thesis
      by (rule quiet_sched_inv [OF _ m, where gs = "[SemaDownLoop s, IntrSetLevel (intr_on k)]"])
        (use f(3) x SemaDownCall in \<open>auto simp: sema_down_def Let_def quiet_def\<close>)
  next
    case (SemaDownLoop s)
    then show ?thesis using sema_down_loop_inv [OF m x(1)] f(3) id by simp
  next
    case (SemaUpCall s)
    then show ?thesis using sema_up_inv [OF m x(1)] f(3) by simp
  next
    case ComparePriority
    then show ?thesis using compare_inv [OF m] f(3) mid_step_sched_inv x(1) by fastforce
  next
    case (ThreadSleep n)
    then show ?thesis using sleep_inv [OF m x(1)] f(3) by simp
  next
    case (CreateUnblock v)
    then have "parked v k" using k(3) mf x(2) by (auto simp: create_inv_def)
    then have "unlinked v (pop_frame k)" by (simp add: parked_def unlinked_def)
    then show ?thesis using unblock_parked_inv [OF m x(1)] f(3) CreateUnblock by simp
  next
    case IdleLoop
    then have "idle_thread k = Some (current k)"
      using k(2) mf x(2) by (auto simp: stack_inv_def idle_only_ok_def)
    then show ?thesis using idle_loop_inv [OF m] f(3) IdleLoop by simp
  next
    case (IdleInit s)
    then have "boots k (current k) > 0" using mf by (force simp: boots_def filter_empty_conv)
    then have "idle_thread k = None" using k(2) x(2) by (auto simp: stack_inv_def boot_ok_def)
    then show ?thesis using idle_init_inv [OF m x(1)] f(3) IdleInit by simp
  next
    case (StartCall i)
    then show ?thesis
      using thread_start_mid [OF m] own_stack_sema [OF k(1,2)] f(2,3) mid_step_sched_inv x(1) by fastforce
  next
    case IdleHlt
    have "tame (pop_frame k) (push_frames [IdleLoop] (pop_frame k\<lparr>intr_on := True\<rparr>))"
      by simp
    from tm [OF this] show ?thesis using f(3) IdleHlt by simp
  qed (use f(3) tm in \<open>auto simp: tame_ops\<close>)
qed


section \<open>Calls and interrupts\<close>

lemma call_mid: "sched_inv k \<Longrightarrow> frames (thr k (current k)) = [] \<Longrightarrow> mid_step k"
  by (simp add: sched_inv_def mid_step_def)

lemma tame_calls [tame_ops]:
  "tame k (fst (sema_try_down s k))"
  "lock_try_acquire l k = Some (k', b) \<Longrightarrow> tame k k'"
  "tame k (cond_init c k)"
  "thread_set_priority p k = Some k' \<Longrightarrow> tame k k'"
  "timer_sleep n k = Some k' \<Longrightarrow> tame k k'"
proof -
  show t: "tame k (fst (sema_try_down s k))" for s
    by (rule tameI [where gs = "[]"]) (auto simp: sema_try_down_def quiet_def)
  show "lock_try_acquire l k = Some (k', b) \<Longrightarrow> tame k k'"
  proof -
    assume a: "lock_try_acquire l k = Some (k', b)"
    let ?d = "sema_try_down (LockSema l) k"
    have "k' = (if snd ?d then push_frames [LockSetHolder l] (fst ?d) else fst ?d)"
      using a by (auto simp: lock_try_acquire_def lock_held_by_current_thread_def thread_current_bind
          split: prod.splits)
    moreover have "tame (fst ?d) (push_frames [LockSetHolder l] (fst ?d))" by simp
    ultimately show ?thesis using t [of "LockSema l"] tame_trans by (simp split: if_splits)
  qed
  show "tame k (cond_init c k)" by (simp add: cond_init_def)
  show "thread_set_priority p k = Some k' \<Longrightarrow> tame k k'"
    by (auto simp: thread_set_priority_def thread_current_bind split: if_splits)
  show "timer_sleep n k = Some k' \<Longrightarrow> tame k k'" by (auto simp: timer_sleep_def)
qed

lemma calculate_priority_tame: "tame k (calculate_priority t k)"
  by (simp add: calculate_priority_def)

lemma set_nice_tame: "thread_set_nice n k = Some k' \<Longrightarrow> tame k k'"
proof -
  assume "thread_set_nice n k = Some k'"
  then have k': "k' = push_frames [ComparePriority]
      (calculate_priority (current k) (upd_thread (current k) (nice_update (\<lambda>_. n)) k))"
    by (auto simp: thread_set_nice_def thread_current_bind Let_def)
  have "tame k (upd_thread (current k) (nice_update (\<lambda>_. n)) k)" by simp
  from tame_trans [OF this calculate_priority_tame [of _ "current k"]] show ?thesis
    unfolding k' by (rule tame_trans) simp
qed

lemma cond_wait_tame:
  assumes "waiters (semas k (StackSema (current k))) = []" "cond_wait c l k = Some k'"
  shows "tame k k'"
proof -
  let ?k = "sema_init (StackSema (current k)) 0 k"
  obtain cs where k': "k' = push_frames [LockReleaseCall l, SemaDownCall (StackSema (current k)), LockAcquireCall l]
      (?k\<lparr>conds := cs\<rparr>)"
    using assms(2) by (auto simp: cond_wait_def lock_held_by_current_thread_def thread_current_bind Let_def)
  have "tame k (?k\<lparr>conds := cs\<rparr>)"
    by (rule tame_trans [OF sema_init_tame [OF assms(1), of 0]]) simp
  then show ?thesis unfolding k' by (rule tame_trans) simp
qed

lemma exec_call_inv:
  assumes k: "sched_inv k" "stack_inv k"
    and c: "frames (thr k (current k)) = []" "call_ok c k" "exec_call c k = Some k'"
  shows "sched_inv k'"
proof -
  have m: "mid_step k" by (rule call_mid [OF k(1) c(1)])
  have x: "\<not> in_external_intr k" "current k \<in> pages k" using k(1) by (auto simp: sched_inv_def core_def)
  note tm = tame_inv [OF _ m x(1)]
  show ?thesis
  proof (cases c)
    case (CallSemaInit n v)
    then have "tame k (sema_init (Sema n) v k)" using c(2) by (intro sema_init_tame) (simp add: idle_sema_def)
    then show ?thesis using c(3) tm CallSemaInit by simp
  next
    case (CallSemaDown n)
    show ?thesis
      by (rule quiet_sched_inv [OF _ m, where gs = "[SemaDownLoop (Sema n), IntrSetLevel (intr_on k)]"])
        (use c(3) x CallSemaDown in \<open>auto simp: sema_down_def Let_def quiet_def\<close>)
  next
    case (CallSemaUp n)
    then show ?thesis using sema_up_inv [OF m x(1)] c(3) by simp
  next
    case (CallLockInit l)
    have "tame k (lock_init l k)"
      unfolding lock_init_def
      by (rule tame_trans [OF tame_fields(3) sema_init_tame])
        (use c(2) CallLockInit in \<open>simp add: idle_lock_def idle_sema_def\<close>)
    then show ?thesis using tm c(3) CallLockInit by simp
  next
    case (CallCondWait d l)
    then show ?thesis using tm cond_wait_tame [OF own_stack_sema [OF k]] c(3) by simp
  next
    case CallYield
    then show ?thesis using yield_inv [OF m] c(3) by simp
  next
    case CallExit
    have "idle_thread k \<noteq> Some (current k)"
      using k(2) x(2) c(1) by (auto simp: stack_inv_def idle_stack_ok_def main_frames_def)
    then show ?thesis using exit_inv [OF m] c(3) CallExit by simp
  next
    case (CallCreate page ok p)
    have "\<forall>t. page = Some t \<longrightarrow> t \<notin> pages k" using c(2) CallCreate by auto
    then show ?thesis using thread_create_mid [OF m, of page ok p "[]" k'] c(3) CallCreate x(1) mid_step_sched_inv by simp
  next
    case (CallSetNice n)
    then show ?thesis using tm set_nice_tame c(3) by simp
  next
    case (CallIntqWait w)
    have "idle_thread k \<noteq> Some (current k)"
      using k(2) x(2) c(1) by (auto simp: stack_inv_def idle_stack_ok_def main_frames_def)
    then show ?thesis using wait_intq_inv [OF m] c(2,3) CallIntqWait by simp
  next
    case (CallIntqSignal w)
    then show ?thesis using signal_intq_mid [OF m] mid_step_sched_inv x(1) c(3) by simp
  qed (use c(3) tm in \<open>auto simp: tame_ops\<close>)
qed

lemma thread_tick_tame: "thread_tick k = Some k' \<Longrightarrow> tame k k' \<and> ticks k' = ticks k \<and> intr_on k' = intr_on k"
  by (auto simp: thread_tick_def thread_current_bind Let_def intro!: tameI [where gs = "[]"])
    (auto simp: quiet_def split: if_splits)

lemma fold_tame: "(\<And>t k. tame k (g t k)) \<Longrightarrow> tame k (fold g ts k)"
  by (induction ts arbitrary: k) (auto intro: tame_trans)

lemma timer_mlfqs_tame: "timer_mlfqs k = Some k' \<Longrightarrow> tame k k'"
proof -
  have c: "tame k (calculate_recent_cpu k)" "tame k (calculate_load_avg k)" for k
    by (auto simp: calculate_recent_cpu_def calculate_load_avg_def Let_def intro!: tameI [where gs = "[]"])
      (auto simp: quiet_def)
  have r: "recalculate_priority k = Some k' \<Longrightarrow> tame k k'" for k k'
    by (auto simp: recalculate_priority_def intro: fold_tame calculate_priority_tame)
  have u: "recalculate_recent_cpu k = Some k' \<Longrightarrow> tame k k'" for k k'
    by (auto simp: recalculate_recent_cpu_def intro!: fold_tame)
  assume a: "timer_mlfqs k = Some k'"
  have "tame (calculate_recent_cpu k) k'"
    using a by (auto simp: timer_mlfqs_def Let_def bind_eq_Some_conv split: if_splits
        intro: r tame_trans [OF r tame_trans [OF c(2) u]])
  then show ?thesis by (rule tame_trans [OF c(1)])
qed

lemma timer_mid:
  assumes "mid_step k" "timer_interrupt k = Some k'"
  shows "mid_step k' \<and> in_external_intr k' = in_external_intr k"
proof -
  obtain k1 k2 where k: "thread_tick (k\<lparr>ticks := ticks k + 1\<rparr>) = Some k1"
    "(if thread_mlfqs k1 then timer_mlfqs k1 else Some k1) = Some k2" "thread_awake (ticks k2) k2 = Some k'"
    using assms(2) by (auto simp: timer_interrupt_def bind_eq_Some_conv)
  have "tame k (k\<lparr>ticks := ticks k + 1\<rparr>)" by (rule tameI [where gs = "[]"]) (auto simp: quiet_def)
  moreover have "tame (k\<lparr>ticks := ticks k + 1\<rparr>) k1" using thread_tick_tame [OF k(1)] by simp
  moreover have "tame k1 k2" using k(2) by (auto split: if_splits intro: timer_mlfqs_tame)
  ultimately have t: "tame k k2" by (blast intro: tame_trans)
  have m: "mid_step k2" by (rule tame_mid [OF t assms(1)])
  then have "distinct (sleep_list k2)" using core_distinct(2) by (auto simp: mid_step_def)
  from awake_loop_mid [OF m this _ k(3) [unfolded thread_awake_def]] show ?thesis
    using tame_context [OF t] by simp
qed

lemma wake_up_mid:
  assumes "mid_step k" "in_external_intr k" "wake_up w k = Some k'"
  shows "mid_step k' \<and> in_external_intr k'"
proof (cases w)
  case (WakeSema n)
  then show ?thesis using sema_up_body_inv [OF assms(1), of "Sema n" k'] assms(2,3) by simp
next
  case (WakeIntq v)
  then show ?thesis using signal_intq_mid [OF assms(1), of v k'] assms(2,3) by simp
qed

lemma device_mid:
  "mid_step k \<Longrightarrow> in_external_intr k \<Longrightarrow> device_handler ws k = Some k' \<Longrightarrow> mid_step k'"
  by (induction ws arbitrary: k) (auto simp: bind_eq_Some_conv dest: wake_up_mid)

lemma intr_handler_inv:
  assumes k: "sched_inv k" "intr_on k"
    and h: "\<And>k k'. mid_step k \<Longrightarrow> in_external_intr k \<Longrightarrow> handler k = Some k' \<Longrightarrow> mid_step k'"
    and s: "intr_handler handler k = Some k'"
  shows "sched_inv k'"
proof -
  let ?k = "k\<lparr>intr_on := False, in_external_intr := True, yield_on_return := False\<rparr>"
  obtain k1 where k1: "handler ?k = Some k1"
    "(if yield_on_return (k1\<lparr>in_external_intr := False\<rparr>)
      then thread_yield (push_frames [IntrSetLevel True] (k1\<lparr>in_external_intr := False\<rparr>))
      else Some (k1\<lparr>in_external_intr := False, intr_on := True\<rparr>)) = Some k'"
    using s by (auto simp: intr_handler_def bind_eq_Some_conv Let_def)
  have set_flags: "mid_step (k\<lparr>intr_on := a, in_external_intr := b, yield_on_return := c\<rparr>)"
    "mid_step (k\<lparr>in_external_intr := b\<rparr>)" "mid_step (k\<lparr>in_external_intr := b, intr_on := a\<rparr>)"
    if "mid_step k" for k a b c
    using that by (auto simp: mid_step_def core_defs one_running_def)
  have "frames (thr k (current k)) \<noteq> SemaDownLoop s # fs" for s fs using k by (auto simp: sched_inv_def)
  moreover have "SemaDownLoop s \<notin> set (tl (frames (thr k (current k))))" for s
    using k(1) by (auto simp: sched_inv_def core_def loops_ok_def)
  ultimately have "\<forall>s. SemaDownLoop s \<notin> set (frames (thr k (current k)))"
    by (cases "frames (thr k (current k))") auto
  then have "mid_step k" using k(1) by (simp add: mid_step_def sched_inv_def)
  then have m: "mid_step k1" using h [OF set_flags(1) _ k1(1)] by simp
  show ?thesis
  proof (cases "yield_on_return k1")
    case True
    have "mid_step (push_frames [IntrSetLevel True] (k1\<lparr>in_external_intr := False\<rparr>))"
      by (rule tame_mid [OF _ set_flags(2) [OF m, of False]]) simp
    then show ?thesis using yield_inv k1(2) True by simp
  next
    case False
    then have "k' = k1\<lparr>in_external_intr := False, intr_on := True\<rparr>" using k1(2) by simp
    then show ?thesis using mid_step_sched_inv [OF set_flags(3) [OF m, where b = False and a = True]] by simp
  qed
qed

lemma kstep_sched_inv:
  assumes "kstep k k'" "sched_inv k" "stack_inv k" "create_inv k"
  shows "sched_inv k'"
  using assms(1)
proof (cases rule: kstep.cases)
  case (Frame fr fs)
  then show ?thesis using exec_frame_inv assms by blast
next
  case (Call c)
  then show ?thesis using exec_call_inv assms by blast
next
  case Timer
  then show ?thesis using intr_handler_inv [OF assms(2)] timer_mid by blast
next
  case (Device ws)
  then show ?thesis using intr_handler_inv [OF assms(2)] device_mid by blast
qed

end
