(* ===== verification/KernelSafe.thy ===== *)
theory KernelSafe
  imports KernelInv
begin

text \<open>
  The invariant of the scheduler holds in every reachable state of the kernel. What is left to
  show for that is that a thread under construction stays aside until its creator starts it.
\<close>

section \<open>Threads that wait to be started\<close>

definition aside :: "addr \<Rightarrow> kernel \<Rightarrow> bool" where
  "aside v k \<longleftrightarrow> parked v k \<and> v \<noteq> current k \<and> v \<notin> set (ready_list k) \<and> v \<notin> set (destruction_req k)"

lemma parked_aside:
  assumes "core X k" "one_running k" "parked v k"
  shows "aside v k"
  using assms by (auto simp: aside_def parked_def core_def ready_ok_def dying_ok_def one_running_def)

lemma aside_parked: "aside v k \<Longrightarrow> parked v k"
  by (simp add: aside_def)

lemmas aside_defs = aside_def parked_def unlinked_def

lemma aside_tame: "tame k k' \<Longrightarrow> aside v k \<Longrightarrow> aside v k'"
  by (auto simp: tame_def quiet_def aside_defs)

lemma switch_to_fields:
  "sleep_list (switch_to n k) = sleep_list k" "semas (switch_to n k) = semas k"
  "ready_list (switch_to n k) = ready_list k" "current (switch_to n k) = n"
  "status (thr (switch_to n k) t) = (if t = n then THREAD_RUNNING else status (thr k t))"
  "set (destruction_req (switch_to n k)) \<subseteq> insert (current k) (set (destruction_req k))"
  "thr (switch_to n k) = (thr k)(n := status_update (\<lambda>_. THREAD_RUNNING) (thr k n))"
  "holder (switch_to n k) = holder k"
  by (auto simp: switch_to_def Let_def upd_thread_def)

lemma aside_schedule: "schedule k = Some k' \<Longrightarrow> aside v k \<Longrightarrow> aside v k'"
proof -
  assume a: "schedule k = Some k'" "aside v k"
  then obtain nxt where n: "snd (next_thread_to_run k) = Some nxt" "k' = switch_to nxt (fst (next_thread_to_run k))"
    by (auto simp: schedule_Some)
  have f: "sleep_list (fst (next_thread_to_run k)) = sleep_list k" "semas (fst (next_thread_to_run k)) = semas k"
    "set (ready_list (fst (next_thread_to_run k))) \<subseteq> set (ready_list k)"
    "current (fst (next_thread_to_run k)) = current k"
    "destruction_req (fst (next_thread_to_run k)) = destruction_req k"
    by (auto simp: next_thread_to_run_def split: list.splits)
  have "nxt \<noteq> v" using n(1) a(2) by (auto simp: next_thread_to_run_def aside_defs split: list.splits)
  then show ?thesis
    using a(2) f switch_to_fields(6) [of nxt "fst (next_thread_to_run k)"] unfolding n(2)
    by (auto simp: aside_defs switch_to_fields(1-5))
qed

lemma aside_do_schedule: "do_schedule st k = Some k' \<Longrightarrow> aside v k \<Longrightarrow> aside v k'"
  by (auto simp: do_schedule_def thread_current_bind Let_def elim!: aside_schedule) (auto simp: aside_defs)

lemma aside_yield: "thread_yield k = Some k' \<Longrightarrow> aside v k \<Longrightarrow> aside v k'"
  by (auto simp: thread_yield_def thread_current_bind Let_def elim!: aside_do_schedule split: if_splits)
    (auto simp: aside_defs)

lemma aside_compare: "thread_compare_priority k = Some k' \<Longrightarrow> aside v k \<Longrightarrow> aside v k'"
  by (auto simp: thread_compare_priority_def thread_current_bind split: if_splits elim!: aside_yield)

lemma aside_block: "thread_block k = Some k' \<Longrightarrow> aside v k \<Longrightarrow> aside v k'"
  by (auto simp: thread_block_def thread_current_bind elim!: aside_schedule) (auto simp: aside_defs)

lemma aside_unblock: "thread_unblock t k = Some k' \<Longrightarrow> t \<noteq> v \<Longrightarrow> aside v k \<Longrightarrow> aside v k'"
  by (auto simp: thread_unblock_def Let_def aside_defs)

lemma aside_exit: "thread_exit k = Some k' \<Longrightarrow> aside v k \<Longrightarrow> aside v k'"
  by (auto simp: thread_exit_def thread_current_bind Let_def elim!: aside_do_schedule) (auto simp: aside_defs)

lemma aside_sleep: "thread_sleep n k = Some k' \<Longrightarrow> aside v k \<Longrightarrow> aside v k'"
  by (auto simp: thread_sleep_def thread_current_bind Let_def split: if_splits elim!: aside_block)
    (auto simp: aside_defs)

lemma aside_sema_down_loop: "sema_down_loop s k = Some k' \<Longrightarrow> aside v k \<Longrightarrow> aside v k'"
  by (auto simp: sema_down_loop_def thread_current_bind Let_def split: if_splits elim!: aside_block)
    (auto simp: aside_defs)

lemma aside_wake: "sema_up_wake s k = Some k' \<Longrightarrow> aside v k \<Longrightarrow> aside v k'"
proof -
  assume a: "sema_up_wake s k = Some k'" "aside v k"
  show ?thesis
  proof (cases "sort_down (\<lambda>t. priority (thr k t)) (waiters (semas k s))")
    case Nil
    then show ?thesis using a by (simp add: sema_up_wake_def)
  next
    case (Cons t ts)
    have st: "set (waiters (semas k s)) = insert t (set ts)" using Cons by (metis list.set(2) set_sort)
    then have v: "v \<noteq> t" "v \<notin> set ts" using a(2) by (auto simp: aside_defs)
    then have "aside v (upd_sema s (waiters_update (\<lambda>_. ts)) k)" using a(2) by (auto simp: aside_defs)
    then show ?thesis using a(1) Cons v(1) aside_unblock by (auto simp: sema_up_wake_def)
  qed
qed

lemma aside_sema_up_body: "sema_up_body s k = Some k' \<Longrightarrow> aside v k \<Longrightarrow> aside v k'"
  by (auto simp: sema_up_body_def bind_eq_Some_conv Let_def elim!: aside_compare dest!: aside_wake)
    (auto simp: aside_defs)

lemma aside_sema_up: "sema_up s k = Some k' \<Longrightarrow> aside v k \<Longrightarrow> aside v k'"
  by (auto simp: sema_up_def Let_def elim!: aside_sema_up_body) (auto simp: aside_defs)

lemma aside_intq_wait: "wait_intq w k = Some k' \<Longrightarrow> aside v k \<Longrightarrow> aside v k'"
  by (auto simp: wait_intq_def thread_current_bind Let_def elim!: aside_block) (auto simp: aside_defs)

lemma aside_intq_signal: "signal_intq w k = Some k' \<Longrightarrow> aside v k \<Longrightarrow> aside v k'"
proof -
  assume a: "signal_intq w k = Some k'" "aside v k"
  show ?thesis
  proof (cases "intq_waiter k w")
    case (Some t)
    then obtain k1 where k1: "thread_unblock t k = Some k1" "k' = k1\<lparr>intq_waiter := (intq_waiter k1)(w := None)\<rparr>"
      using a(1) by (auto simp: signal_intq_def bind_eq_Some_conv thread_unblock_def Let_def split: if_splits)
    have "t \<noteq> v" using a(2) Some by (auto simp: aside_defs)
    then have "aside v k1" using aside_unblock k1(1) a(2) by blast
    then show ?thesis by (auto simp: k1(2) aside_defs)
  qed (use a in \<open>simp add: signal_intq_def\<close>)
qed

lemma aside_wake_up: "wake_up w k = Some k' \<Longrightarrow> aside v k \<Longrightarrow> aside v k'"
  by (cases w) (auto intro: aside_intq_signal aside_sema_up_body)

lemma aside_device: "device_handler ws k = Some k' \<Longrightarrow> aside v k \<Longrightarrow> aside v k'"
  by (induction ws arbitrary: k) (auto simp: bind_eq_Some_conv dest: aside_wake_up)

lemma aside_awake_loop: "awake_loop now ts k = Some k' \<Longrightarrow> v \<notin> set ts \<Longrightarrow> aside v k \<Longrightarrow> aside v k'"
proof (induction ts arbitrary: k)
  case (Cons t ts)
  have "aside v (k\<lparr>sleep_list := remove1 t (sleep_list k)\<rparr>)"
    using Cons.prems(3) by (auto simp: aside_defs dest: notin_set_remove1)
  then show ?case using Cons aside_unblock by (fastforce simp: bind_eq_Some_conv split: if_splits)
qed simp

lemma aside_init_thread: "init_thread t p body k = Some k' \<Longrightarrow> t \<noteq> v \<Longrightarrow> aside v k \<Longrightarrow> aside v k'"
  by (auto simp: init_thread_def aside_defs)

lemma aside_create: "thread_create page ok p body k = Some k' \<Longrightarrow> page \<noteq> Some v \<Longrightarrow> aside v k \<Longrightarrow> aside v k'"
  by (cases ok; cases page) (auto simp: thread_create_def bind_eq_Some_conv dest!: aside_init_thread
      intro: aside_tame [OF tame_push [THEN iffD2]])

lemma aside_timer: "timer_interrupt k = Some k' \<Longrightarrow> aside v k \<Longrightarrow> aside v k'"
proof -
  assume a: "timer_interrupt k = Some k'" "aside v k"
  then obtain k1 k2 where k: "thread_tick (k\<lparr>ticks := ticks k + 1\<rparr>) = Some k1"
    "(if thread_mlfqs k1 then timer_mlfqs k1 else Some k1) = Some k2" "thread_awake (ticks k2) k2 = Some k'"
    by (auto simp: timer_interrupt_def bind_eq_Some_conv)
  have "aside v (k\<lparr>ticks := ticks k + 1\<rparr>)" using a(2) by (simp add: aside_defs)
  then have "aside v k1" using thread_tick_tame [OF k(1)] aside_tame by blast
  then have a2: "aside v k2" using k(2) by (cases "thread_mlfqs k1") (auto intro: aside_tame [OF timer_mlfqs_tame])
  then have "v \<notin> set (sleep_list k2)" by (simp add: aside_defs)
  then show ?thesis using aside_awake_loop [OF k(3) [unfolded thread_awake_def]] a2 by blast
qed

lemma aside_intr:
  assumes "intr_handler h k = Some k'" "aside v k" "\<And>k k'. h k = Some k' \<Longrightarrow> aside v k \<Longrightarrow> aside v k'"
  shows "aside v k'"
proof -
  have i: "aside v (k\<lparr>intr_on := a, in_external_intr := b, yield_on_return := c\<rparr>)"
    "aside v (k\<lparr>in_external_intr := b\<rparr>)" "aside v (k\<lparr>in_external_intr := b, intr_on := a\<rparr>)" if "aside v k" for a b c k
    using that by (simp_all add: aside_defs)
  obtain k1 where k1: "h (k\<lparr>intr_on := False, in_external_intr := True, yield_on_return := False\<rparr>) = Some k1"
    "(if yield_on_return (k1\<lparr>in_external_intr := False\<rparr>)
      then thread_yield (push_frames [IntrSetLevel True] (k1\<lparr>in_external_intr := False\<rparr>))
      else Some (k1\<lparr>in_external_intr := False, intr_on := True\<rparr>)) = Some k'"
    using assms(1) by (auto simp: intr_handler_def bind_eq_Some_conv Let_def)
  have a1: "aside v k1" using assms(3) [OF k1(1) i(1) [OF assms(2)]] .
  then have "aside v (push_frames [IntrSetLevel True] (k1\<lparr>in_external_intr := False\<rparr>))"
    by (intro aside_tame [OF tame_push [THEN iffD2] i(2)]) simp_all
  then show ?thesis using k1(2) aside_yield i(3) [OF a1] by (cases "yield_on_return k1") auto
qed

lemma aside_pop: "aside v k \<Longrightarrow> aside v (pop_frame k)"
  by (simp add: aside_defs)


lemma aside_sema_init: "aside v k \<Longrightarrow> aside v (sema_init s x k)"
  by (auto simp: aside_defs sema_init_def)

lemma aside_flags:
  "aside v k \<Longrightarrow> aside v (k\<lparr>intr_on := b\<rparr>)" "aside v k \<Longrightarrow> aside v (k\<lparr>conds := c\<rparr>)"
  "aside v k \<Longrightarrow> aside v (k\<lparr>holder := h\<rparr>)" "aside v k \<Longrightarrow> aside v (push_frames gs k)"
  by (simp_all add: aside_defs)

lemma aside_start: "thread_start i k = Some k' \<Longrightarrow> i \<noteq> v \<Longrightarrow> aside v k \<Longrightarrow> aside v k'"
  by (auto simp: thread_start_def thread_current_bind Let_def
      elim!: aside_create intro!: aside_sema_init aside_flags)

lemma aside_cond_wait: "cond_wait c l k = Some k' \<Longrightarrow> aside v k \<Longrightarrow> aside v k'"
  by (auto simp: cond_wait_def lock_held_by_current_thread_def thread_current_bind Let_def
      intro!: aside_flags aside_sema_init)

lemma aside_idle_loop: "idle_loop k = Some k' \<Longrightarrow> aside v k \<Longrightarrow> aside v k'"
  by (auto simp: idle_loop_def elim!: aside_block intro!: aside_flags)

lemma aside_idle_init: "idle_init s k = Some k' \<Longrightarrow> aside v k \<Longrightarrow> aside v k'"
  by (auto simp: idle_init_def thread_current_bind aside_defs)

lemma aside_sema_down: "sema_down s k = Some k' \<Longrightarrow> aside v k \<Longrightarrow> aside v k'"
  by (auto simp: sema_down_def Let_def intro!: aside_flags)

lemma aside_exec_frame:
  assumes "exec_frame fr k = Some k'" "aside v k" "fr \<noteq> CreateUnblock v" "frame_ok fr k"
  shows "aside v k'"
proof (cases fr)
  case (CreateUnblock u)
  then show ?thesis using assms aside_unblock by auto
next
  case (StartCall i)
  then show ?thesis using assms aside_start [of i k k' v] by (auto simp: aside_defs)
next
  case IdleHlt
  then show ?thesis using assms by (auto intro!: aside_flags)
qed (use assms in \<open>auto intro: aside_sema_down aside_sema_down_loop aside_sema_up aside_sleep aside_idle_loop
  aside_idle_init aside_compare aside_tame [rotated] aside_flags simp: tame_ops\<close>)

lemma aside_exec_call:
  assumes "exec_call c k = Some k'" "aside v k" "call_ok c k"
  shows "aside v k'"
proof (cases c)
  case (CallCreate page ok p)
  have "page \<noteq> Some v" using assms(2,3) CallCreate by (auto simp: aside_defs)
  then show ?thesis using assms aside_create CallCreate by fastforce
next
  case (CallSetNice n)
  then show ?thesis using assms set_nice_tame aside_tame by fastforce
next
  case (CallLockInit l)
  then show ?thesis using assms by (auto simp: lock_init_def intro!: aside_flags aside_sema_init)
qed (use assms in \<open>auto intro: aside_sema_down aside_sema_up aside_yield aside_exit aside_cond_wait
  aside_intq_wait aside_intq_signal aside_flags aside_sema_init aside_tame [rotated] simp: tame_ops\<close>)

lemma aside_kstep:
  assumes "kstep k k'" "aside v k" "\<And>fs. frames (thr k (current k)) \<noteq> CreateUnblock v # fs"
  shows "aside v k'"
  using assms(1)
proof (cases rule: kstep.cases)
  case (Frame fr fs)
  then show ?thesis
    using aside_exec_frame [OF Frame(3) aside_pop [OF assms(2)]] assms(3) by (auto simp: frame_ok_pop)
next
  case (Call c)
  then show ?thesis using aside_exec_call assms(2) by blast
next
  case Timer
  then show ?thesis using aside_intr assms(2) aside_timer by blast
next
  case (Device ws)
  then show ?thesis using aside_intr assms(2) aside_device by blast
qed

section \<open>One creator for a new thread\<close>

fun is_creating :: "frame \<Rightarrow> bool" where
  "is_creating (CreateUnblock v) \<longleftrightarrow> True"
| "is_creating (StartCall v) \<longleftrightarrow> True"
| "is_creating _ \<longleftrightarrow> False"

definition create_once :: "kernel \<Rightarrow> bool" where
  "create_once k \<longleftrightarrow> (\<forall>t\<in>pages k. length (filter is_creating (main_frames k t)) \<le> 1 \<and>
     (\<forall>u\<in>pages k. \<forall>v. CreateUnblock v \<in> set (main_frames k t) \<and> CreateUnblock v \<in> set (main_frames k u) \<longrightarrow> u = t))"


lemma main_frames_top:
  "frames (thr k (current k)) = fr # fs \<Longrightarrow> main_frames k (current k) =
     (if is_intr_frame fr then [] else [fr]) @ filter (\<lambda>f. \<not> is_intr_frame f) fs"
  by (simp add: main_frames_def)

lemma pushed_creating: "gs \<in> pushed u fr \<Longrightarrow> length (filter is_creating gs) \<le> 1 \<and>
    (CreateUnblock v \<in> set gs \<longrightarrow> fr = StartCall v) \<and> (filter is_creating gs \<noteq> [] \<longrightarrow> (\<exists>v. fr = StartCall v))"
  by (cases fr) (auto split: option.splits)

lemma pushed_new_creating: "filter is_creating (pushed_new u fr) = []"
  by (cases fr) auto

lemma pushed_call_creating: "gs \<in> pushed_call u c \<Longrightarrow> length (filter is_creating gs) \<le> 1 \<and>
    (CreateUnblock v \<in> set gs \<longrightarrow> (\<exists>ok p. c = CallCreate (Some v) ok p))"
  by (cases c) (auto split: option.splits)

lemma creating_none: "filter is_creating fs = [] \<Longrightarrow> CreateUnblock v \<notin> set fs"
  by (induction fs) (auto split: if_splits)

text \<open>The invariant follows for a step whose new creations \<open>N\<close> are fresh and parked.\<close>

lemma create_step:
  assumes "create_inv k" "create_once k" "current k \<in> pages k"
    and m: "\<And>t. t \<in> pages k' \<Longrightarrow> filter is_creating (main_frames k' t) =
      (if t \<notin> pages k then [] else if t = current k then gs else filter is_creating (main_frames k t))"
    and len: "length gs \<le> 1"
    and old: "\<And>t v. t \<in> pages k \<Longrightarrow> t \<noteq> current k \<Longrightarrow> CreateUnblock v \<in> set (main_frames k t) \<Longrightarrow> parked v k'"
    and new: "\<And>v. CreateUnblock v \<in> set gs \<Longrightarrow> parked v k' \<and> (v \<notin> pages k \<or> CreateUnblock v \<in> set (main_frames k (current k)))"
  shows "create_inv k' \<and> create_once k'"
proof -
  have c: "CreateUnblock v \<in> set (main_frames k' t) \<longleftrightarrow> CreateUnblock v \<in> set (filter is_creating (main_frames k' t))" for v k' t
    by simp
  have "create_inv k'"
    unfolding create_inv_def
  proof (intro ballI allI impI)
    fix t v assume t: "t \<in> pages k'" "CreateUnblock v \<in> set (main_frames k' t)"
    then show "parked v k'"
      using m [OF t(1)] old new unfolding c [of v k' t] by (auto split: if_splits)
  qed
  moreover have "create_once k'"
    unfolding create_once_def
  proof (intro ballI conjI allI impI)
    fix t assume t: "t \<in> pages k'"
    show "length (filter is_creating (main_frames k' t)) \<le> 1"
      using m [OF t] len assms(2) by (simp add: create_once_def)
    fix u v assume u: "u \<in> pages k'" and v: "CreateUnblock v \<in> set (main_frames k' t) \<and> CreateUnblock v \<in> set (main_frames k' u)"
    have o: "CreateUnblock v \<in> set (main_frames k x) \<or> x = current k \<and> v \<notin> pages k"
      "x \<in> pages k" if "x \<in> pages k'" "CreateUnblock v \<in> set (main_frames k' x)" for x
      using m [OF that(1)] that(2) new unfolding c [of v k' x] by (auto split: if_splits)
    have "v \<in> pages k" if "CreateUnblock v \<in> set (main_frames k x)" "x \<in> pages k" for x
      using assms(1) that by (auto simp: create_inv_def parked_def)
    then show "u = t" using o [OF t] o [OF u] v assms(2) unfolding create_once_def by metis
  qed
  ultimately show ?thesis by blast
qed

lemma kstep_create:
  assumes "kstep k k'" "sched_inv k" "stack_inv k" "create_inv k" "create_once k"
  shows "create_inv k' \<and> create_once k'"
proof -
  have c: "core {} k" "one_running k" "current k \<in> pages k" using assms(2) by (simp_all add: sched_inv_def core_def)
  have co: "conds_ok k" using assms(3) by (simp add: stack_inv_def)
  have as: "aside v k" if "CreateUnblock v \<in> set (main_frames k t)" "t \<in> pages k" for v t
    using parked_aside [OF c(1,2)] assms(4) that by (auto simp: create_inv_def)
  show ?thesis
    using assms(1)
  proof (cases rule: kstep.cases)
    case (Frame fr fs)
    let ?fs = "filter (\<lambda>f. \<not> is_intr_frame f) fs"
    from exec_frame_grow [OF Frame(3)] Frame(2) co obtain gs where
      gs: "gs \<in> pushed (current k) fr" "grow gs (pushed_new (current k) fr) (pop_frame k) k'"
      by (auto simp: conds_ok_pop frame_ok_pop)
    have mf: "t \<in> pages k' \<Longrightarrow> main_frames k' t = (if t \<in> pages k then if t = current k then gs @ ?fs else main_frames k t
        else KernelThread # pushed_new (current k) fr)" for t
      using gs(2) by (auto simp: grow_def main_frames_pop [OF Frame(1)])
    note top = main_frames_top [OF Frame(1)]
    have one: "length (filter is_creating (main_frames k (current k))) \<le> 1"
      using assms(5) c(3) by (simp add: create_once_def)
    have keep: "parked v k'" if "CreateUnblock v \<in> set (main_frames k t)" "t \<in> pages k" "fr \<noteq> CreateUnblock v" for v t
      using aside_exec_frame [OF Frame(3) aside_pop [OF as [OF that(1,2)]] that(3)] Frame(2)
      by (simp add: frame_ok_pop aside_parked)
    show ?thesis
    proof (rule create_step [OF assms(4,5) c(3), where gs = "filter is_creating (gs @ ?fs)"])
      show "filter is_creating (main_frames k' t) = (if t \<notin> pages k then [] else if t = current k
        then filter is_creating (gs @ ?fs) else filter is_creating (main_frames k t))" if "t \<in> pages k'" for t
        using mf [OF that] pushed_new_creating by auto
      show "length (filter is_creating (gs @ ?fs)) \<le> 1"
      proof (cases "filter is_creating gs = []")
        case True
        then show ?thesis using one top by (auto split: if_splits)
      next
        case False
        then obtain v where "fr = StartCall v" using pushed_creating [OF gs(1)] by blast
        then show ?thesis using one top pushed_creating [OF gs(1)] by auto
      qed
      show "parked v k'" if "t \<in> pages k" "t \<noteq> current k" "CreateUnblock v \<in> set (main_frames k t)" for t v
      proof (rule keep [OF that(3,1)])
        show "fr \<noteq> CreateUnblock v"
        proof
          assume "fr = CreateUnblock v"
          then have "CreateUnblock v \<in> set (main_frames k (current k))" using top by simp
          then show False using assms(5) c(3) that unfolding create_once_def by blast
        qed
      qed
      show "parked v k' \<and> (v \<notin> pages k \<or> CreateUnblock v \<in> set (main_frames k (current k)))"
        if v: "CreateUnblock v \<in> set (filter is_creating (gs @ ?fs))" for v
      proof (cases "CreateUnblock v \<in> set gs")
        case True
        then have fr: "fr = StartCall v" using pushed_creating [OF gs(1)] by blast
        then show ?thesis
          using thread_start_mid [OF pop_mid [OF assms(2) Frame(1)], of v k'] own_stack_sema [OF assms(2,3)]
            Frame(2,3) by simp
      next
        case False
        then have f: "CreateUnblock v \<in> set ?fs" using v by auto
        then have "filter is_creating ?fs \<noteq> []" using creating_none by blast
        then have "fr \<noteq> CreateUnblock v" using one top by (cases "filter is_creating ?fs") auto
        then show ?thesis using keep [OF _ c(3)] f top by simp
      qed
    qed
  next
    case (Call ca)
    have m: "main_frames k (current k) = []" using Call(1) by (simp add: main_frames_def)
    from exec_call_grow [OF Call(3,2) co c(3) m] obtain gs where
      gs: "gs \<in> pushed_call (current k) ca" "grow gs [] k k'" by blast
    show ?thesis
    proof (rule create_step [OF assms(4,5) c(3), where gs = "filter is_creating gs"])
      show "filter is_creating (main_frames k' t) = (if t \<notin> pages k then [] else if t = current k
        then filter is_creating gs else filter is_creating (main_frames k t))" if "t \<in> pages k'" for t
        using gs(2) that m by (auto simp: grow_def)
      show "length (filter is_creating gs) \<le> 1" using pushed_call_creating [OF gs(1)] by blast
      show "parked v k'" if "t \<in> pages k" "t \<noteq> current k" "CreateUnblock v \<in> set (main_frames k t)" for t v
        using aside_exec_call [OF Call(3) as [OF that(3,1)] Call(2)] by (rule aside_parked)
      show "parked v k' \<and> (v \<notin> pages k \<or> CreateUnblock v \<in> set (main_frames k (current k)))"
        if v: "CreateUnblock v \<in> set (filter is_creating gs)" for v
      proof -
        have "CreateUnblock v \<in> set gs" using v by simp
        then obtain ok p where ca: "ca = CallCreate (Some v) ok p" using pushed_call_creating [OF gs(1), of v] by blast
        then have "v \<notin> pages k" using Call(2) by simp
        then show ?thesis
          using thread_create_mid [OF call_mid [OF assms(2) Call(1)], of "Some v" ok p "[]" k'] Call(3) ca by simp
      qed
    qed
  next
    case Timer
    have sf: "same_frames k k'" by (rule intr_handler_same [OF Timer(2) timer_same])
    show ?thesis
      by (rule create_step [OF assms(4,5) c(3), where gs = "filter is_creating (main_frames k (current k))"])
        (use sf assms(5) c(3) aside_intr [OF Timer(2) as aside_timer] in
          \<open>auto simp: same_frames_def create_once_def aside_parked\<close>)
  next
    case (Device ws)
    have sf: "same_frames k k'" by (rule intr_handler_same [OF Device(2) device_same])
    show ?thesis
      by (rule create_step [OF assms(4,5) c(3), where gs = "filter is_creating (main_frames k (current k))"])
        (use sf assms(5) c(3) aside_intr [OF Device(2) as aside_device] in
          \<open>auto simp: same_frames_def create_once_def aside_parked\<close>)
  qed
qed

section \<open>Reachable states\<close>

definition kernel_inv :: "kernel \<Rightarrow> bool" where
  "kernel_inv k \<longleftrightarrow> sched_inv k \<and> stack_inv k \<and> create_inv k \<and> create_once k"

lemma kstep_kernel_inv: "kstep k k' \<Longrightarrow> kernel_inv k \<Longrightarrow> kernel_inv k'"
proof -
  assume a: "kstep k k'" "kernel_inv k"
  then have i: "sched_inv k" "stack_inv k" "create_inv k" "create_once k" by (simp_all add: kernel_inv_def)
  have "\<forall>t. idle_thread k = Some t \<longrightarrow> t \<in> pages k" "current k \<in> pages k"
    using i(1) by (simp_all add: sched_inv_def core_def idle_ok_def)
  then show ?thesis
    using kstep_sched_inv [OF a(1)] kstep_stack_inv [OF a(1)] kstep_create [OF a(1)] i by (simp add: kernel_inv_def)
qed

lemma boot_kernel_inv: "thread_init main idle_page mlfqs junk = Some k \<Longrightarrow> kernel_inv k"
proof -
  assume a: "thread_init main idle_page mlfqs junk = Some k"
  have "sched_inv k"
    using a by (auto simp: thread_init_def init_thread_def lock_init_def sema_init_def Let_def sched_inv_def
        core_defs one_running_def split: if_splits)
  moreover have "create_inv k" "create_once k"
    using a by (auto simp: thread_init_def init_thread_def lock_init_def sema_init_def Let_def create_inv_def
        create_once_def main_frames_def)
  ultimately show ?thesis using boot_stack_inv [OF a] by (simp add: kernel_inv_def)
qed

theorem reachable_kernel_inv: "reachable k \<Longrightarrow> kernel_inv k"
  by (induction rule: reachable.induct) (blast intro: boot_kernel_inv kstep_kernel_inv)+


end
