(* ===== verification/KernelSync.thy ===== *)
theory KernelSync
  imports KernelSafe
begin

text \<open>
  Semaphores and locks over all interleavings: the ownership of a lock is a token that is never
  lost and never doubled, and no wake-up on a semaphore is lost.
\<close>

section \<open>Steps that leave semaphores and locks alone\<close>

definition alive :: "addr \<Rightarrow> kernel \<Rightarrow> bool" where
  "alive t k \<longleftrightarrow> t \<in> pages k \<and> status (thr k t) \<in> {THREAD_READY, THREAD_RUNNING} \<and> t \<notin> set (destruction_req k)"

text \<open>
  Semaphores and holders are unchanged, no thread but \<open>c\<close> stops being ready or moves on, and
  nobody dies; only the pages of dead threads are given back.
\<close>

definition calm :: "addr \<Rightarrow> kernel \<Rightarrow> kernel \<Rightarrow> bool" where
  "calm c k k' \<longleftrightarrow> semas k' = semas k \<and> holder k' = holder k \<and>
     (\<forall>t. t \<noteq> c \<longrightarrow> alive t k \<longrightarrow> alive t k' \<and> frames (thr k' t) = frames (thr k t)) \<and>
     (\<forall>t\<in>pages k'. status (thr k' t) = THREAD_DYING \<longrightarrow> t \<in> pages k \<and> status (thr k t) = THREAD_DYING) \<and>
     (\<forall>t. t \<in> pages k \<longrightarrow> t \<notin> set (destruction_req k) \<longrightarrow> status (thr k t) \<noteq> THREAD_DYING \<longrightarrow>
        t \<in> pages k' \<and> t \<notin> set (destruction_req k'))"

lemma calm_refl [simp]: "calm c k k"
  by (simp add: calm_def)

lemma calm_trans:
  assumes "calm c k k1" "calm c k1 k2"
  shows "calm c k k2"
proof -
  have d: "t \<in> pages k \<and> status (thr k t) = THREAD_DYING" if "t \<in> pages k1" "status (thr k1 t) = THREAD_DYING" for t
    using assms(1) that unfolding calm_def by blast
  have d': "t \<in> pages k1 \<and> status (thr k1 t) = THREAD_DYING" if "t \<in> pages k2" "status (thr k2 t) = THREAD_DYING" for t
    using assms(2) that unfolding calm_def by blast
  have p: "t \<in> pages k1 \<and> t \<notin> set (destruction_req k1) \<and> status (thr k1 t) \<noteq> THREAD_DYING"
    if "t \<in> pages k" "t \<notin> set (destruction_req k)" "status (thr k t) \<noteq> THREAD_DYING" for t
    using assms(1) that d unfolding calm_def by blast
  have p': "t \<in> pages k2 \<and> t \<notin> set (destruction_req k2)"
    if "t \<in> pages k1" "t \<notin> set (destruction_req k1)" "status (thr k1 t) \<noteq> THREAD_DYING" for t
    using assms(2) that unfolding calm_def by blast
  have a: "t \<noteq> c \<Longrightarrow> alive t k \<Longrightarrow> alive t k2 \<and> frames (thr k2 t) = frames (thr k t)" for t
    using assms unfolding calm_def by metis
  have f: "semas k2 = semas k" "holder k2 = holder k" using assms by (simp_all add: calm_def)
  show ?thesis
    unfolding calm_def
  proof (intro conjI allI impI ballI)
    fix t assume "t \<in> pages k2" "status (thr k2 t) = THREAD_DYING"
    from d' [OF this] show "t \<in> pages k" "status (thr k t) = THREAD_DYING" using d by blast+
  next
    fix t assume "t \<in> pages k" "t \<notin> set (destruction_req k)" "status (thr k t) \<noteq> THREAD_DYING"
    from p [OF this] show "t \<in> pages k2" "t \<notin> set (destruction_req k2)" using p' by blast+
  qed (use a f in auto)
qed

lemma calm_upd [simp]:
  "(\<And>x. status (g x) = status x) \<Longrightarrow> (\<And>x. frames (g x) = frames x) \<Longrightarrow> calm c k (upd_thread t g k)"
  by (simp add: calm_def alive_def)

lemma calm_upd_own [simp]: "(\<And>x. status (g x) \<noteq> THREAD_DYING) \<Longrightarrow> calm c k (upd_thread c g k)"
  by (simp add: calm_def alive_def)

lemma calm_push [simp]: "current k = c \<Longrightarrow> calm c k (push_frames gs k)"
  by (simp add: calm_def alive_def)

lemma calm_fields [simp]:
  "calm c k (k\<lparr>intr_on := b\<rparr>)" "calm c k (k\<lparr>ready_list := r\<rparr>)" "calm c k (k\<lparr>sleep_list := r\<rparr>)"
  "calm c k (k\<lparr>all_list := r\<rparr>)" "calm c k (k\<lparr>conds := d\<rparr>)" "calm c k (k\<lparr>next_tid := n\<rparr>)"
  "calm c k (k\<lparr>in_external_intr := b\<rparr>)" "calm c k (k\<lparr>yield_on_return := b\<rparr>)" "calm c k (k\<lparr>ticks := i\<rparr>)"
  "calm c k (k\<lparr>load_avg := i\<rparr>)" "calm c k (k\<lparr>idle_thread := x\<rparr>)" "calm c k (k\<lparr>thread_ticks := m\<rparr>)"
  "calm c k (k\<lparr>intq_waiter := q\<rparr>)"
  by (simp_all add: calm_def alive_def)

lemma calm_unblock: "thread_unblock t k = Some k' \<Longrightarrow> calm c k k' \<and> current k' = current k"
  by (auto simp: thread_unblock_def Let_def calm_def alive_def split: if_splits)

lemma calm_schedule:
  assumes "schedule k = Some k'" "status (thr k (current k)) = THREAD_DYING \<Longrightarrow> current k = c"
  shows "calm c k k'"
proof -
  obtain nxt where n: "k' = switch_to nxt (fst (next_thread_to_run k))"
    using assms(1) by (auto simp: schedule_Some)
  have f: "semas (fst (next_thread_to_run k)) = semas k" "holder (fst (next_thread_to_run k)) = holder k"
    "current (fst (next_thread_to_run k)) = current k"
    "destruction_req (fst (next_thread_to_run k)) = destruction_req k"
    by (auto simp: next_thread_to_run_def split: list.splits)
  have "alive t k'" if "alive t k" "t \<noteq> c" for t
  proof -
    have "t \<notin> set (destruction_req k')"
      using that assms(2) f unfolding n switch_to_def by (auto simp: Let_def alive_def)
    then show ?thesis using that unfolding n by (auto simp: alive_def switch_to_fields(5))
  qed
  moreover have "t \<in> set (destruction_req k') \<Longrightarrow> t \<in> set (destruction_req k) \<or> status (thr k t) = THREAD_DYING" for t
    using f unfolding n switch_to_def by (auto simp: Let_def split: if_splits)
  ultimately show ?thesis using f unfolding n by (auto simp: calm_def switch_to_fields(1-5,7,8))
qed

lemma calm_do_schedule: "do_schedule st k = Some k' \<Longrightarrow> st \<noteq> THREAD_DYING \<Longrightarrow> calm (current k) k k'"
proof -
  assume a: "do_schedule st k = Some k'" "st \<noteq> THREAD_DYING"
  let ?k = "upd_thread (current k) (status_update (\<lambda>_. st)) (k\<lparr>pages := pages k - set (destruction_req k), destruction_req := []\<rparr>)"
  have "calm (current k) k ?k" using a(2) by (auto simp: calm_def alive_def)
  moreover have "calm (current k) ?k k'"
    using do_schedule_Some [OF a(1)] by (intro calm_schedule) auto
  ultimately show ?thesis by (rule calm_trans)
qed

lemma calm_yield: "thread_yield k = Some k' \<Longrightarrow> calm (current k) k k'"
proof -
  assume a: "thread_yield k = Some k'"
  define k1 where "k1 = (push_frames [IntrSetLevel (intr_on k)] k)\<lparr>intr_on := False\<rparr>"
  define k2 where "k2 = (if Some (current k) \<noteq> idle_thread k
    then k1\<lparr>ready_list := insert_ordered (cmp_priority k1) (current k) (ready_list k1)\<rparr> else k1)"
  have "do_schedule THREAD_READY k2 = Some k'"
    using a by (auto simp: thread_yield_def thread_current_bind Let_def k2_def k1_def)
  moreover have "current k2 = current k" by (simp add: k2_def k1_def)
  ultimately have "calm (current k) k2 k'" using calm_do_schedule [of THREAD_READY k2 k'] by simp
  moreover have "calm (current k) k k2" by (auto simp: k2_def k1_def calm_def alive_def)
  ultimately show ?thesis using calm_trans by blast
qed

lemma calm_compare: "thread_compare_priority k = Some k' \<Longrightarrow> calm (current k) k k'"
  by (auto simp: thread_compare_priority_def thread_current_bind split: if_splits dest: calm_yield)

lemma calm_block: "thread_block k = Some k' \<Longrightarrow> calm (current k) k k'"
proof -
  assume "thread_block k = Some k'"
  then have s: "schedule (upd_thread (current k) (status_update (\<lambda>_. THREAD_BLOCKED)) k) = Some k'"
    by (auto simp: thread_block_def thread_current_bind)
  have "calm (current k) k (upd_thread (current k) (status_update (\<lambda>_. THREAD_BLOCKED)) k)" by simp
  then show ?thesis by (rule calm_trans) (rule calm_schedule [OF s], simp)
qed

lemma calm_sleep: "thread_sleep n k = Some k' \<Longrightarrow> calm (current k) k k'"
proof (cases "Some (current k) = idle_thread k")
  case False
  assume a: "thread_sleep n k = Some k'"
  define k1 where "k1 = (upd_thread (current k) (awake_update (\<lambda>_. n))
    ((push_frames [IntrSetLevel (intr_on k)] k)\<lparr>intr_on := False\<rparr>))\<lparr>sleep_list := sleep_list k @ [current k]\<rparr>"
  have b: "thread_block k1 = Some k'"
    using a False by (auto simp: thread_sleep_def thread_current_bind Let_def k1_def)
  have c: "current k1 = current k" by (simp add: k1_def)
  have "calm (current k) k k1" by (auto simp: k1_def calm_def alive_def)
  then show ?thesis using calm_block [OF b] unfolding c by (rule calm_trans)
qed (auto simp: thread_sleep_def thread_current_bind)

lemma calm_idle_loop: "idle_loop k = Some k' \<Longrightarrow> calm (current k) k k'"
proof -
  assume a: "idle_loop k = Some k'"
  let ?k = "push_frames [IdleHlt] (k\<lparr>intr_on := False\<rparr>)"
  have "thread_block ?k = Some k'" using a by (simp add: idle_loop_def)
  from calm_block [OF this] have "calm (current k) ?k k'" by simp
  moreover have "calm (current k) k ?k" by (auto simp: calm_def alive_def)
  ultimately show ?thesis using calm_trans by blast
qed

lemma calm_awake_loop: "awake_loop now ts k = Some k' \<Longrightarrow> calm c k k'"
proof (induction ts arbitrary: k)
  case (Cons t ts)
  show ?case
  proof (cases "awake (thr k t) \<le> now")
    case True
    then obtain k1 where "thread_unblock t (k\<lparr>sleep_list := remove1 t (sleep_list k)\<rparr>) = Some k1"
      "awake_loop now ts k1 = Some k'" using Cons.prems by (auto simp: bind_eq_Some_conv)
    then show ?thesis using Cons.IH calm_unblock calm_trans [OF calm_fields(3)] calm_trans by blast
  qed (use Cons in simp)
qed simp

lemma calm_init_thread: "init_thread t p body k = Some k' \<Longrightarrow> t \<notin> pages k \<Longrightarrow> calm c k k' \<and> current k' = current k"
  by (auto simp: init_thread_def calm_def alive_def split: if_splits)

lemma calm_create:
  assumes "thread_create page ok p body k = Some k'" "\<forall>t. page = Some t \<longrightarrow> t \<notin> pages k"
  shows "calm (current k) k k'"
proof (cases page)
  case None
  then show ?thesis using assms(1) by (simp add: thread_create_def)
next
  case (Some t)
  then obtain k1 where k1: "init_thread t p (KernelThread # body) k = Some k1"
    "k' = (if ok then push_frames (create_frames t) k1 else k1)"
    using assms(1) by (cases ok) (auto simp: thread_create_def bind_eq_Some_conv)
  have "calm (current k) k k1" "current k1 = current k" using calm_init_thread [OF k1(1)] assms(2) Some by auto
  then show ?thesis using k1(2) calm_trans [OF _ calm_push] by simp
qed


lemma calm_donation_loop: "donation_loop n t k = Some k' \<Longrightarrow> calm c k k'"
proof (induction n t k rule: donation_loop.induct)
  case (2 n t k)
  show ?case
  proof (cases "wait_on_lock (thr k t)")
    case (Some l)
    then obtain h where h: "holder k l = Some h" "h \<in> pages k"
      "donation_loop n h (upd_thread h (priority_update (\<lambda>_. priority (thr k t))) k) = Some k'"
      using "2.prems" by (auto simp: bind_eq_Some_conv is_thread_def)
    have "calm c k (upd_thread h (priority_update (\<lambda>_. priority (thr k t))) k)" by simp
    moreover have "calm c (upd_thread h (priority_update (\<lambda>_. priority (thr k t))) k) k'"
      using "2.IH" [OF Some h(1) _ h(3)] h(2) by (simp add: is_thread_def)
    ultimately show ?thesis by (rule calm_trans)
  qed (use 2 in simp)
qed simp

lemma calm_push_after [simp]: "calm c k k1 \<Longrightarrow> current k1 = c \<Longrightarrow> calm c k (push_frames gs k1)"
  by (rule calm_trans [of c k k1]) simp_all

lemma calm_intr_after [simp]: "calm c k k1 \<Longrightarrow> calm c k (k1\<lparr>intr_on := b\<rparr>)"
  by (rule calm_trans [of c k k1]) simp_all

lemma calm_unlink_donors: "calm c k (unlink_donors ts k)"
  by (simp add: calm_def alive_def)

lemma calm_wait_intq: "wait_intq w k = Some k' \<Longrightarrow> calm (current k) k k'"
proof -
  assume a: "wait_intq w k = Some k'"
  let ?k = "(push_frames [IntqResume w] k)\<lparr>intq_waiter := (intq_waiter k)(w := Some (current k))\<rparr>"
  have "thread_block ?k = Some k'" using a by (auto simp: wait_intq_def thread_current_bind Let_def)
  from calm_block [OF this] have "calm (current k) ?k k'" by simp
  moreover have "calm (current k) k ?k" by (auto simp: calm_def alive_def)
  ultimately show ?thesis using calm_trans by blast
qed

lemma calm_intq_signal: "signal_intq w k = Some k' \<Longrightarrow> calm c k k' \<and> current k' = current k"
  by (auto simp: signal_intq_def bind_eq_Some_conv split: option.splits dest: calm_unblock
      intro: calm_trans [OF _ calm_fields(13)])

lemma calm_lock_ops:
  "priority_donation k = Some k' \<Longrightarrow> calm c k k'"
  "lock_donate l k = Some k' \<Longrightarrow> calm c k k'"
  "remove_donation l k = Some k' \<Longrightarrow> calm c k k'"
  "re_priority k = Some k' \<Longrightarrow> calm c k k'"
  "lock_acquire l k = Some k' \<Longrightarrow> calm (current k) k k'"
  "lock_release l k = Some k' \<Longrightarrow> calm (current k) k k'"
  "cond_signal d l k = Some k' \<Longrightarrow> calm (current k) k k'"
  "cond_broadcast_loop d l k = Some k' \<Longrightarrow> calm (current k) k k'"
  "calm c k (allocate_tid t k)"
proof -
  show "priority_donation k = Some k' \<Longrightarrow> calm c k k'"
    by (auto simp: priority_donation_def thread_current_bind calm_donation_loop)
  show "lock_donate l k = Some k' \<Longrightarrow> calm c k k'"
    by (auto simp: lock_donate_def thread_current_bind bind_eq_Some_conv Let_def intro: calm_trans [OF calm_upd calm_upd])
  show "remove_donation l k = Some k' \<Longrightarrow> calm c k k'"
    by (auto simp: remove_donation_def thread_current_bind Let_def intro: calm_trans [OF calm_upd calm_unlink_donors])
  show "re_priority k = Some k' \<Longrightarrow> calm c k k'"
    by (auto simp: re_priority_def thread_current_bind Let_def calm_def alive_def split: if_splits)
  show "lock_acquire l k = Some k' \<Longrightarrow> calm (current k) k k'"
    by (cases "thread_mlfqs k"; cases "holder k l")
      (auto simp: lock_acquire_def lock_held_by_current_thread_def thread_current_bind Let_def push_push)
  show "lock_release l k = Some k' \<Longrightarrow> calm (current k) k k'"
    by (cases "thread_mlfqs k") (auto simp: lock_release_def lock_held_by_current_thread_def thread_current_bind)
  show "cond_signal d l k = Some k' \<Longrightarrow> calm (current k) k k'"
    by (auto simp: cond_signal_def lock_held_by_current_thread_def thread_current_bind Let_def split: if_splits)
  show "cond_broadcast_loop d l k = Some k' \<Longrightarrow> calm (current k) k k'"
    by (auto simp: cond_broadcast_loop_def)
  show "calm c k (allocate_tid t k)"
    by (simp add: allocate_tid_def calm_def alive_def)
qed

lemma calm_idle_init: "idle_init s k = Some k' \<Longrightarrow> calm (current k) k k'"
  by (auto simp: idle_init_def thread_current_bind)

lemma calm_set_priority: "thread_set_priority p k = Some k' \<Longrightarrow> calm (current k) k k'"
  by (auto simp: thread_set_priority_def thread_current_bind split: if_splits)

lemma calm_calculate_priority: "calm c k (calculate_priority t k) \<and> current (calculate_priority t k) = current k"
  by (simp add: calculate_priority_def)

lemma calm_set_nice: "thread_set_nice n k = Some k' \<Longrightarrow> calm (current k) k k'"
proof -
  assume "thread_set_nice n k = Some k'"
  then have k': "k' = push_frames [ComparePriority]
      (calculate_priority (current k) (upd_thread (current k) (nice_update (\<lambda>_. n)) k))"
    by (auto simp: thread_set_nice_def thread_current_bind Let_def)
  have "calm (current k) k (upd_thread (current k) (nice_update (\<lambda>_. n)) k)" by simp
  then have "calm (current k) k (calculate_priority (current k) (upd_thread (current k) (nice_update (\<lambda>_. n)) k))"
    using calm_calculate_priority calm_trans by blast
  then show ?thesis unfolding k' by (rule calm_push_after) (simp add: calm_calculate_priority)
qed

lemma calm_timer_sleep: "timer_sleep n k = Some k' \<Longrightarrow> calm (current k) k k'"
  by (auto simp: timer_sleep_def)

lemma calm_fold: "(\<And>t k. calm c k (g t k)) \<Longrightarrow> calm c k (fold g ts k)"
  by (induction ts arbitrary: k) (auto intro: calm_trans)

lemma calm_timer: "timer_interrupt k = Some k' \<Longrightarrow> calm c k k'"
proof -
  assume "timer_interrupt k = Some k'"
  then obtain k1 k2 where k: "thread_tick (k\<lparr>ticks := ticks k + 1\<rparr>) = Some k1"
    "(if thread_mlfqs k1 then timer_mlfqs k1 else Some k1) = Some k2" "thread_awake (ticks k2) k2 = Some k'"
    by (auto simp: timer_interrupt_def bind_eq_Some_conv)
  have c: "calm c k (calculate_recent_cpu k)" "calm c k (calculate_load_avg k)" for k
    by (auto simp: calculate_recent_cpu_def calculate_load_avg_def Let_def)
  have r: "recalculate_priority k = Some k' \<Longrightarrow> calm c k k'" for k k'
    using calm_calculate_priority by (auto simp: recalculate_priority_def intro!: calm_fold)
  have u: "recalculate_recent_cpu k = Some k' \<Longrightarrow> calm c k k'" for k k'
    by (auto simp: recalculate_recent_cpu_def intro!: calm_fold)
  have m: "timer_mlfqs k = Some k' \<Longrightarrow> calm c k k'" for k k'
    by (auto simp: timer_mlfqs_def Let_def bind_eq_Some_conv split: if_splits
        intro: c calm_trans [OF c(1) r] calm_trans [OF c(1) calm_trans [OF r calm_trans [OF c(2) u]]])
  have "calm c (k\<lparr>ticks := ticks k + 1\<rparr>) k1"
    using k(1) by (auto simp: thread_tick_def thread_current_bind Let_def calm_def alive_def split: if_splits)
  moreover have "calm c k1 k2" using k(2) by (auto split: if_splits intro: m)
  moreover have "calm c k2 k'" using k(3) by (simp add: thread_awake_def calm_awake_loop)
  ultimately show ?thesis using calm_trans calm_fields(9) by blast
qed


lemma schedule_pages: "schedule k = Some k' \<Longrightarrow> pages k' = pages k"
  by (auto simp: schedule_Some)

text \<open>The exit of the running thread: from the state where it is marked, the switch is calm.\<close>

lemma calm_exit:
  assumes "thread_exit k = Some k'"
  shows "\<exists>k1. calm (current k) k1 k' \<and> semas k1 = semas k \<and> holder k1 = holder k \<and> pages k1 = pages k - set (destruction_req k) \<and> pages k' = pages k1 \<and>
    (\<forall>t. t \<noteq> current k \<longrightarrow> thr k1 t = thr k t) \<and> frames (thr k1 (current k)) = [] \<and>
    (\<forall>t. t \<noteq> current k \<longrightarrow> alive t k \<longrightarrow> alive t k1 \<and> frames (thr k1 t) = frames (thr k t))"
proof -
  let ?e = "upd_thread (current k) (frames_update (\<lambda>_. [])) (k\<lparr>intr_on := False, all_list := remove1 (current k) (all_list k)\<rparr>)"
  let ?d = "upd_thread (current k) (status_update (\<lambda>_. THREAD_DYING)) (?e\<lparr>pages := pages k - set (destruction_req k), destruction_req := []\<rparr>)"
  have s: "do_schedule THREAD_DYING ?e = Some k'"
    using assms by (auto simp: thread_exit_def thread_current_bind Let_def)
  have "calm (current k) ?d k'" using do_schedule_Some [OF s] by (intro calm_schedule) auto
  moreover have "pages k' = pages ?d" using do_schedule_Some [OF s] schedule_pages by auto
  ultimately show ?thesis by (intro exI [of _ ?d]) (auto simp: alive_def)
qed

text \<open>The frames and calls that change a semaphore or the holder of a lock.\<close>

fun locks_frame :: "frame \<Rightarrow> bool" where
  "locks_frame (SemaDownLoop s) \<longleftrightarrow> True"
| "locks_frame (SemaUpCall s) \<longleftrightarrow> True"
| "locks_frame (StartCall i) \<longleftrightarrow> True"
| "locks_frame (LockSetHolder l) \<longleftrightarrow> True"
| "locks_frame (LockDrop l) \<longleftrightarrow> True"
| "locks_frame _ \<longleftrightarrow> False"

fun locks_call :: "call \<Rightarrow> bool" where
  "locks_call (CallSemaInit i v) \<longleftrightarrow> True"
| "locks_call (CallSemaTryDown i) \<longleftrightarrow> True"
| "locks_call (CallSemaUp i) \<longleftrightarrow> True"
| "locks_call (CallLockInit l) \<longleftrightarrow> True"
| "locks_call (CallLockTryAcquire l) \<longleftrightarrow> True"
| "locks_call (CallCondWait d l) \<longleftrightarrow> True"
| "locks_call CallExit \<longleftrightarrow> True"
| "locks_call _ \<longleftrightarrow> False"

lemma calm_sema_down: "sema_down s k = Some k' \<Longrightarrow> calm (current k) k k'"
  by (auto simp: sema_down_def)

lemma calm_exec_frame:
  assumes "exec_frame fr k = Some k'" "\<not> locks_frame fr"
  shows "calm (current k) k k'"
proof (cases fr)
  case (CreateUnblock v)
  then show ?thesis using assms(1) calm_unblock by simp
next
  case IdleHlt
  then have "k' = push_frames [IdleLoop] (k\<lparr>intr_on := True\<rparr>)" using assms(1) by simp
  then show ?thesis by simp
qed (use assms in \<open>auto dest: calm_lock_ops(1-8) calm_compare calm_sleep calm_idle_init calm_idle_loop calm_sema_down
     simp: calm_lock_ops(9)\<close>)

lemma calm_exec_call:
  assumes "exec_call c k = Some k'" "call_ok c k" "\<not> locks_call c"
  shows "calm (current k) k k'"
proof (cases c)
  case (CallCreate page ok p)
  then show ?thesis using assms(1,2) calm_create [of page ok p "[]" k k'] by (cases page) auto
next
  case (CallCondInit d)
  then show ?thesis using assms(1) by (auto simp: cond_init_def)
next
  case (CallSleep i)
  then show ?thesis using assms(1) calm_timer_sleep [of i k k'] by simp
qed (use assms in \<open>auto dest: calm_lock_ops(1-8) calm_yield calm_set_priority calm_set_nice calm_sema_down
    calm_wait_intq calm_intq_signal\<close>)

section \<open>No wake-up is lost\<close>

text \<open>The threads that have been woken in \<open>sema_down\<close> and will look at the value again.\<close>

definition woken :: "kernel \<Rightarrow> sema_id \<Rightarrow> addr set" where
  "woken k s = {t. alive t k \<and> (\<exists>fs. frames (thr k t) = SemaDownLoop s # fs)}"

definition wake_ok :: "kernel \<Rightarrow> bool" where
  "wake_ok k \<longleftrightarrow> (\<forall>s. waiters (semas k s) \<noteq> [] \<longrightarrow> unat (sema_value (semas k s)) \<le> card (woken k s))"

lemma woken_pages: "woken k s \<subseteq> pages k"
  by (auto simp: woken_def alive_def)

lemma woken_calm: "calm c k k' \<Longrightarrow> c \<notin> woken k s \<Longrightarrow> woken k s \<subseteq> woken k' s"
  by (auto simp: woken_def calm_def)

lemma wake_calm:
  assumes "calm c k k'" "\<forall>s. c \<notin> woken k s" "wake_ok k" "finite (pages k')"
  shows "wake_ok k'"
  unfolding wake_ok_def
proof (intro allI impI)
  fix s assume w: "waiters (semas k' s) \<noteq> []"
  have e: "semas k' = semas k" using assms(1) by (simp add: calm_def)
  have "card (woken k s) \<le> card (woken k' s)"
    using woken_calm [OF assms(1)] assms(2,4) woken_pages by (metis card_mono finite_subset)
  moreover have "unat (sema_value (semas k s)) \<le> card (woken k s)" using assms(3) w e by (simp add: wake_ok_def)
  ultimately show "unat (sema_value (semas k' s)) \<le> card (woken k' s)" by (simp add: e)
qed

lemma woken_fields [simp]:
  "woken (k\<lparr>holder := h\<rparr>) s = woken k s" "woken (upd_sema r g k) s = woken k s"
  "woken (k\<lparr>intr_on := b\<rparr>) s = woken k s"
  "woken (k\<lparr>intr_on := b, in_external_intr := b', yield_on_return := b''\<rparr>) s = woken k s"
  "woken (k\<lparr>in_external_intr := b'\<rparr>) s = woken k s"
  by (simp_all add: woken_def alive_def)

lemma wake_holder [simp]: "wake_ok (k\<lparr>holder := h\<rparr>) = wake_ok k"
  by (simp add: wake_ok_def)

lemma mid_not_woken: "\<forall>s. SemaDownLoop s \<notin> set (frames (thr k c)) \<Longrightarrow> c \<notin> woken k s"
  by (auto simp: woken_def)

lemma wake_sema_init: "wake_ok k \<Longrightarrow> wake_ok (sema_init s v k)"
  by (auto simp: wake_ok_def sema_init_def)

lemma woken_sema_init: "woken (sema_init s v k) r = woken k r"
  by (simp add: sema_init_def)

lemma unat_succ_le: "unat (v + 1 :: 'a :: len word) \<le> Suc (unat v)"
  using mod_less_eq_dividend [of "unat v + 1" "2 ^ LENGTH('a)"] by (simp add: unat_word_ariths)

lemma wake_sema_up_wake:
  assumes "sema_up_wake s k = Some k1" "mid_step k" "wake_ok k"
  shows "wake_ok (upd_sema s (sema_value_update (\<lambda>v. v + 1)) k1) \<and> pages k1 = pages k \<and> current k1 = current k \<and>
    (\<forall>r. current k \<notin> woken k1 r)"
proof (cases "sort_down (\<lambda>t. priority (thr k t)) (waiters (semas k s))")
  case Nil
  then have "waiters (semas k s) = []" by (metis set_empty set_sort)
  then show ?thesis using assms Nil mid_not_woken [of k "current k"]
    by (auto simp: sema_up_wake_def wake_ok_def mid_step_def)
next
  case (Cons t ts)
  let ?k = "upd_sema s (waiters_update (\<lambda>_. ts)) k"
  have t: "t \<in> set (waiters (semas k s))" using Cons by (metis list.set_intros(1) set_sort)
  then have b: "t \<in> pages k" "status (thr k t) = THREAD_BLOCKED" "\<exists>fs. frames (thr k t) = SemaDownLoop s # fs"
    using assms(2) by (auto simp: mid_step_def core_def waiters_ok_def)
  have d: "t \<notin> set (destruction_req k)" using assms(2) b(2) by (auto simp: mid_step_def core_def dying_ok_def)
  have u: "thread_unblock t ?k = Some k1" using assms(1) Cons by (simp add: sema_up_wake_def)
  then have k1: "k1 = upd_thread t (status_update (\<lambda>_. THREAD_READY))
      (?k\<lparr>ready_list := insert_ordered (cmp_priority ?k) t (ready_list ?k)\<rparr>)"
    by (simp add: thread_unblock_def Let_def)
  have w: "woken k1 r = (if r = s then insert t (woken k r) else woken k r)" for r
    using b d by (auto simp: woken_def alive_def k1)
  have f: "finite (woken k r)" for r
    using woken_pages assms(2) by (metis finite_subset mid_step_def core_def)
  have n: "t \<notin> woken k s" using b(2) by (auto simp: woken_def alive_def)
  have v: "unat (sema_value (semas k s)) \<le> card (woken k s)" using assms(3) t unfolding wake_ok_def by (metis empty_iff list.set(1))
  have "unat (sema_value (semas k s) + 1) \<le> Suc (card (woken k s))"
    using unat_succ_le [of "sema_value (semas k s)"] v by linarith
  moreover have "waiters (semas k1 r) = (if r = s then ts else waiters (semas k r))"
    "sema_value (semas k1 r) = sema_value (semas k r)" for r by (simp_all add: k1)
  ultimately have "wake_ok (upd_sema s (sema_value_update (\<lambda>v. v + 1)) k1)"
    using assms(3) f n by (auto simp: wake_ok_def w)
  moreover have "t \<noteq> current k" using b(1,2) assms(2) by (auto simp: mid_step_def one_running_def)
  moreover have "\<forall>r. current k \<notin> woken k r" using assms(2) mid_not_woken [of k "current k"] by (simp add: mid_step_def)
  moreover have "pages k1 = pages k" "current k1 = current k" by (simp_all add: k1)
  ultimately show ?thesis by (simp add: w)
qed

lemma wake_sema_up_body:
  assumes "sema_up_body s k = Some k'" "mid_step k" "wake_ok k" "finite (pages k')"
  shows "wake_ok k'"
proof -
  obtain k1 where k1: "sema_up_wake s k = Some k1"
    "thread_compare_priority (upd_sema s (sema_value_update (\<lambda>v. v + 1)) k1) = Some k'"
    using assms(1) by (auto simp: sema_up_body_def bind_eq_Some_conv)
  from wake_sema_up_wake [OF k1(1) assms(2,3)] show ?thesis
    using wake_calm [OF calm_compare [OF k1(2)]] assms(4) by simp
qed

lemma wake_sema_down_loop:
  assumes "sema_down_loop s (pop_frame k) = Some k'" "frames (thr k (current k)) = SemaDownLoop s # fs"
    "sched_inv k" "wake_ok k" "finite (pages k')"
  shows "wake_ok k'"
proof -
  let ?k = "pop_frame k"
  have m: "mid_step ?k" by (rule pop_mid [OF assms(3,2)])
  have c: "current k \<notin> woken ?k r" for r
    using m mid_not_woken [of ?k "current k"] by (simp add: mid_step_def)
  have w: "woken ?k r = woken k r - {current k}" for r
    using c by (auto simp: woken_def alive_def)
  have o: "current k \<notin> woken k r" if "r \<noteq> s" for r using assms(2) that by (auto simp: woken_def)
  have f: "finite (woken k r)" for r
    using woken_pages assms(3) by (metis finite_subset sched_inv_def core_def)
  show ?thesis
  proof (cases "sema_value (semas k s) = 0")
    case True
    define k1 where "k1 = upd_sema s (waiters_update (insert_ordered (cmp_priority ?k) (current k))) ?k"
    have b: "thread_block (push_frames [SemaDownLoop s] k1) = Some k'"
      using assms(1) True by (auto simp: sema_down_loop_def thread_current_bind Let_def k1_def)
    have "calm (current k) k1 k'"
      using calm_trans [OF calm_push calm_block [OF b]] by (simp add: k1_def)
    moreover have "wake_ok k1"
      using assms(4) True o by (auto simp: wake_ok_def k1_def w)
    moreover have "current k \<notin> woken k1 r" for r using c by (simp add: k1_def)
    ultimately show ?thesis using wake_calm assms(5) by blast
  next
    case False
    then have k': "k' = upd_sema s (sema_value_update (\<lambda>v. v - 1)) ?k"
      using assms(1) by (simp add: sema_down_loop_def)
    have "unat (sema_value (semas k s) - 1) = unat (sema_value (semas k s)) - 1"
      using False by (rule unat_minus_one)
    then show ?thesis
      using assms(4) o f unfolding k' by (auto simp: wake_ok_def w card_Diff_singleton_if)
  qed
qed


lemma wake_take:
  assumes "sema_value (semas k s) \<noteq> 0" "wake_ok k"
  shows "wake_ok (upd_sema s (sema_value_update (\<lambda>v. v - 1)) k)"
  using assms(2) unat_minus_one [OF assms(1)] by (fastforce simp: wake_ok_def)

lemma wake_sema_up:
  assumes "sema_up s k = Some k'" "mid_step k" "wake_ok k" "finite (pages k')"
  shows "wake_ok k'"
proof -
  let ?m = "(push_frames [IntrSetLevel (intr_on k)] k)\<lparr>intr_on := False\<rparr>"
  have m: "mid_step ?m" by (rule tame_mid [OF tame_trans [OF _ tame_fields(2)] assms(2)]) simp
  moreover have "sema_up_body s ?m = Some k'" using assms(1) by (simp add: sema_up_def Let_def)
  moreover have "\<forall>r. current k \<notin> woken k r" using assms(2) mid_not_woken [of k "current k"] by (simp add: mid_step_def)
  then have "wake_ok ?m"
    using wake_calm [of "current k" k ?m] assms(2,3) by (simp add: mid_step_def core_def)
  ultimately show ?thesis using wake_sema_up_body assms(4) by blast
qed

lemma wake_exec_frame:
  assumes "exec_frame fr (pop_frame k) = Some k'" "frames (thr k (current k)) = fr # fs" "frame_ok fr k"
    "sched_inv k" "wake_ok k" "finite (pages k')"
  shows "wake_ok k'"
proof -
  let ?k = "pop_frame k"
  have m: "mid_step ?k" by (rule pop_mid [OF assms(4,2)])
  have c: "\<forall>r. current k \<notin> woken ?k r" using m mid_not_woken [of ?k "current k"] by (simp add: mid_step_def)
  have w: "wake_ok ?k" if "\<forall>s. fr \<noteq> SemaDownLoop s"
  proof -
    have "woken ?k r = woken k r" for r using c assms(2) that by (auto simp: woken_def alive_def)
    then show ?thesis using assms(5) by (simp add: wake_ok_def)
  qed
  show ?thesis
  proof (cases "locks_frame fr")
    case False
    then have "\<forall>s. fr \<noteq> SemaDownLoop s" by auto
    then have "wake_ok ?k" by (rule w)
    then show ?thesis using wake_calm [OF calm_exec_frame [OF assms(1) False]] c assms(6) by simp
  next
    case True
    then show ?thesis
    proof (cases fr)
      case (SemaDownLoop s)
      then show ?thesis using wake_sema_down_loop assms by simp
    next
      case (SemaUpCall s)
      then show ?thesis using wake_sema_up [OF _ m] w assms(1,6) by simp
    next
      case (StartCall i)
      let ?s = "push_frames [StartEnable, SemaDownCall (StackSema (current k))] (sema_init (StackSema (current k)) 0 ?k)"
      have s: "thread_create (Some i) True PRI_MIN [IdleInit (StackSema (current k))] ?s = Some k'"
        using assms(1) StartCall by (auto simp: thread_start_def thread_current_bind Let_def sema_init_def)
      have "calm (current k) ?s k'"
        using calm_create [OF s] assms(3) StartCall by (simp add: sema_init_def)
      moreover have "calm (current k) (sema_init (StackSema (current k)) 0 ?k) ?s" by (simp add: sema_init_def)
      ultimately have "calm (current k) (sema_init (StackSema (current k)) 0 ?k) k'" using calm_trans by blast
      then show ?thesis
        by (rule wake_calm) (use w StartCall c assms(6) wake_sema_init in \<open>auto simp: woken_sema_init\<close>)
    next
      case (LockSetHolder l)
      then show ?thesis using assms(1) w by auto
    next
      case (LockDrop l)
      let ?d = "?k\<lparr>holder := (holder k)(l := None)\<rparr>"
      have "k' = push_frames [SemaUpCall (LockSema l)] ?d" using assms(1) LockDrop by (simp add: lock_drop_def pop_frame_def)
      then have "calm (current k) ?d k'" by simp
      then show ?thesis by (rule wake_calm) (use w LockDrop c assms(6) in auto)
    qed auto
  qed
qed

lemma wake_exec_call:
  assumes "exec_call c k = Some k'" "call_ok c k" "frames (thr k (current k)) = []"
    "sched_inv k" "wake_ok k" "finite (pages k')"
  shows "wake_ok k'"
proof -
  have m: "mid_step k" by (rule call_mid [OF assms(4,3)])
  have n: "\<forall>r. current k \<notin> woken k r" using assms(3) mid_not_woken [of k "current k"] by simp
  show ?thesis
  proof (cases "locks_call c")
    case False
    then show ?thesis using wake_calm [OF calm_exec_call [OF assms(1,2)]] n assms(5,6) by simp
  next
    case True
    then show ?thesis
    proof (cases c)
      case (CallSemaTryDown i)
      then show ?thesis using assms(1,5) using wake_take [of k "Sema i"] by (auto simp: sema_try_down_def word_neq_0_conv)
    next
      case (CallLockTryAcquire l)
      let ?d = "upd_sema (LockSema l) (sema_value_update (\<lambda>v. v - 1)) k"
      have "wake_ok (push_frames [LockSetHolder l] ?d)" if "sema_value (semas k (LockSema l)) \<noteq> 0"
        using that wake_calm [OF calm_push [of ?d "current k" "[LockSetHolder l]"]] n m wake_take [OF that assms(5)]
        by (simp add: mid_step_def core_def)
      then show ?thesis using CallLockTryAcquire assms(1,5)
        by (auto simp: lock_try_acquire_def lock_held_by_current_thread_def thread_current_bind sema_try_down_def
            word_neq_0_conv split: if_splits)
    next
      case (CallSemaUp i)
      then show ?thesis using wake_sema_up [OF _ m] assms(1,5,6) by simp
    next
      case (CallCondWait d l)
      let ?i = "sema_init (StackSema (current k)) 0 k"
      have "calm (current k) ?i k'"
        using assms(1) CallCondWait by (auto simp: cond_wait_def lock_held_by_current_thread_def thread_current_bind
            Let_def sema_init_def)
      then show ?thesis by (rule wake_calm) (use n wake_sema_init assms(5,6) in \<open>auto simp: woken_sema_init\<close>)
    next
      case CallExit
      then obtain k1 where k1: "calm (current k) k1 k'" "semas k1 = semas k" "\<And>t. t \<noteq> current k \<Longrightarrow> alive t k \<Longrightarrow>
          alive t k1 \<and> frames (thr k1 t) = frames (thr k t)" "frames (thr k1 (current k)) = []"
        using assms(1) calm_exit [of k k'] CallExit by auto
      have "t \<in> woken k1 r" if "t \<in> woken k r" for r t
      proof -
        have "t \<noteq> current k" using that n by blast
        then show ?thesis using k1(3) [of t] that by (auto simp: woken_def)
      qed
      moreover have "current k \<notin> woken k1 r" for r using k1(4) by (simp add: woken_def)
      ultimately have "woken k r \<subseteq> woken k' r" for r using woken_calm [OF k1(1)] by blast
      moreover have "semas k' = semas k" using k1(1,2) by (simp add: calm_def)
      moreover have "finite (woken k' r)" for r using woken_pages assms(6) by (metis finite_subset)
      ultimately show ?thesis using assms(5) unfolding wake_ok_def by (metis card_mono order_trans)
    next
      case (CallSemaInit i v)
      then show ?thesis using assms(1,5) wake_sema_init by auto
    next
      case (CallLockInit l)
      then show ?thesis using assms(1,5) by (auto simp: lock_init_def intro!: wake_sema_init)
    qed auto
  qed
qed

lemma sched_mid: "sched_inv k \<Longrightarrow> intr_on k \<Longrightarrow> mid_step k"
proof -
  assume a: "sched_inv k" "intr_on k"
  have "SemaDownLoop s \<notin> set (tl (frames (thr k (current k))))" for s
    using a(1) by (auto simp: sched_inv_def core_def loops_ok_def)
  moreover have "frames (thr k (current k)) \<noteq> SemaDownLoop s # fs" for s fs using a by (auto simp: sched_inv_def)
  ultimately have "\<forall>s. SemaDownLoop s \<notin> set (frames (thr k (current k)))"
    by (cases "frames (thr k (current k))") auto
  then show ?thesis using a(1) by (simp add: mid_step_def sched_inv_def)
qed

lemma calm_intr_end:
  assumes "(if yield_on_return k1 then thread_yield (push_frames [IntrSetLevel True] (k1\<lparr>in_external_intr := False\<rparr>))
      else Some (k1\<lparr>in_external_intr := False, intr_on := True\<rparr>)) = Some k'"
  shows "calm (current k1) k1 k'"
proof (cases "yield_on_return k1")
  case True
  have "calm (current k1) k1 (push_frames [IntrSetLevel True] (k1\<lparr>in_external_intr := False\<rparr>))" by simp
  moreover have "calm (current k1) (push_frames [IntrSetLevel True] (k1\<lparr>in_external_intr := False\<rparr>)) k'"
    using calm_yield [of "push_frames [IntrSetLevel True] (k1\<lparr>in_external_intr := False\<rparr>)" k'] assms True by simp
  ultimately show ?thesis by (rule calm_trans)
next
  case False
  then show ?thesis using assms calm_trans [OF calm_fields(7) calm_fields(1)] by auto
qed

lemma awake_loop_current: "awake_loop now ts k = Some k' \<Longrightarrow> current k' = current k"
proof (induction ts arbitrary: k)
  case (Cons t ts)
  then show ?case by (auto simp: bind_eq_Some_conv dest!: calm_unblock split: if_splits)
qed simp

lemma timer_current: "timer_interrupt k = Some k' \<Longrightarrow> current k' = current k"
proof -
  assume "timer_interrupt k = Some k'"
  then obtain k1 k2 where k: "thread_tick (k\<lparr>ticks := ticks k + 1\<rparr>) = Some k1"
    "(if thread_mlfqs k1 then timer_mlfqs k1 else Some k1) = Some k2" "thread_awake (ticks k2) k2 = Some k'"
    by (auto simp: timer_interrupt_def bind_eq_Some_conv)
  have "current k1 = current k" using thread_tick_tame [OF k(1)] tame_context by fastforce
  moreover have "current k2 = current k1" using k(2) timer_mlfqs_tame tame_context by (fastforce split: if_splits)
  moreover have "current k' = current k2" using k(3) awake_loop_current by (simp add: thread_awake_def)
  ultimately show ?thesis by simp
qed

text \<open>An interrupt handler runs on behalf of a thread that is not in the loop of \<open>sema_down\<close>.\<close>

lemma wake_intr_end:
  assumes "wake_ok k1" "\<forall>s. current k1 \<notin> woken k1 s" "finite (pages k')"
    "(if yield_on_return k1 then thread_yield (push_frames [IntrSetLevel True] (k1\<lparr>in_external_intr := False\<rparr>))
      else Some (k1\<lparr>in_external_intr := False, intr_on := True\<rparr>)) = Some k'"
  shows "wake_ok k'"
  by (rule wake_calm [OF calm_intr_end [OF assms(4)]]) (use assms in auto)

text \<open>The handler of a device, one wake-up after another.\<close>

lemma sema_up_in_handler:
  assumes "sema_up_body s k = Some k'" "in_external_intr k" "mid_step k"
  shows "\<exists>k0. sema_up_wake s k = Some k0 \<and> k' = upd_sema s (sema_value_update (\<lambda>v. v + 1)) k0"
proof -
  obtain k0 where k0: "sema_up_wake s k = Some k0"
    "thread_compare_priority (upd_sema s (sema_value_update (\<lambda>v. v + 1)) k0) = Some k'"
    using assms(1) by (auto simp: sema_up_body_def bind_eq_Some_conv)
  have "in_external_intr k0" using sema_up_wake_mid [OF assms(3) k0(1)] assms(2) by simp
  then show ?thesis using k0 by (auto simp: thread_compare_priority_def thread_current_bind)
qed

lemma wake_wake_up:
  assumes "wake_up w k = Some k'" "in_external_intr k" "mid_step k" "wake_ok k"
  shows "wake_ok k' \<and> current k' = current k"
proof (cases w)
  case (WakeSema n)
  then obtain k0 where k0: "sema_up_wake (Sema n) k = Some k0" "k' = upd_sema (Sema n) (sema_value_update (\<lambda>v. v + 1)) k0"
    using sema_up_in_handler [OF _ assms(2,3)] assms(1) by auto
  then show ?thesis using wake_sema_up_wake [OF k0(1) assms(3,4)] by simp
next
  case (WakeIntq v)
  then have i: "signal_intq v k = Some k'" using assms(1) by simp
  have "finite (pages k')" using signal_intq_mid [OF assms(3) i] by (simp add: mid_step_def core_def)
  moreover have "\<forall>s. current k \<notin> woken k s" using assms(3) mid_not_woken [of k "current k"] by (simp add: mid_step_def)
  ultimately show ?thesis using calm_intq_signal [OF i] wake_calm [of "current k" k k'] assms(4) by blast
qed

lemma wake_device:
  "device_handler ws k = Some k' \<Longrightarrow> in_external_intr k \<Longrightarrow> mid_step k \<Longrightarrow> wake_ok k \<Longrightarrow>
    wake_ok k' \<and> current k' = current k \<and> mid_step k'"
proof (induction ws arbitrary: k)
  case (Cons w ws)
  then obtain k1 where k1: "wake_up w k = Some k1" "device_handler ws k1 = Some k'" by (auto simp: bind_eq_Some_conv)
  show ?case
    using Cons.IH [OF k1(2)] wake_up_mid [OF Cons.prems(3,2) k1(1)] wake_wake_up [OF k1(1) Cons.prems(2-4)] by simp
qed simp

lemma wake_kstep:
  assumes "kstep k k'" "sched_inv k" "wake_ok k" "finite (pages k')"
  shows "wake_ok k'"
  using assms(1)
proof (cases rule: kstep.cases)
  case (Frame fr fs)
  then show ?thesis using wake_exec_frame assms by blast
next
  case (Call c)
  then show ?thesis using wake_exec_call assms by blast
next
  case Timer
  let ?k = "k\<lparr>intr_on := False, in_external_intr := True, yield_on_return := False\<rparr>"
  obtain k1 where k1: "timer_interrupt ?k = Some k1"
    "(if yield_on_return k1 then thread_yield (push_frames [IntrSetLevel True] (k1\<lparr>in_external_intr := False\<rparr>))
      else Some (k1\<lparr>in_external_intr := False, intr_on := True\<rparr>)) = Some k'"
    using Timer(2) by (auto simp: intr_handler_def bind_eq_Some_conv Let_def)
  have n: "\<forall>s. current k \<notin> woken k s"
    using sched_mid [OF assms(2) Timer(1)] mid_not_woken [of k "current k"] by (simp add: mid_step_def)
  have "calm (current k) ?k k'"
    using calm_trans [OF calm_timer [OF k1(1), of "current k"]] calm_intr_end [OF k1(2)] timer_current [OF k1(1)]
    by simp
  moreover have "wake_ok ?k" using assms(3) by (simp add: wake_ok_def)
  ultimately show ?thesis using n assms(4) wake_calm [of "current k" ?k k'] by simp
next
  case (Device ws)
  let ?k = "k\<lparr>intr_on := False, in_external_intr := True, yield_on_return := False\<rparr>"
  obtain k1 where k1: "device_handler ws ?k = Some k1"
    "(if yield_on_return k1 then thread_yield (push_frames [IntrSetLevel True] (k1\<lparr>in_external_intr := False\<rparr>))
      else Some (k1\<lparr>in_external_intr := False, intr_on := True\<rparr>)) = Some k'"
    using Device(2) by (auto simp: intr_handler_def bind_eq_Some_conv Let_def)
  have m: "mid_step ?k" using sched_mid [OF assms(2) Device(1)] by (simp add: mid_step_def core_defs one_running_def)
  have w: "wake_ok ?k" using assms(3) by (simp add: wake_ok_def)
  have d: "wake_ok k1" "mid_step k1" using wake_device [OF k1(1) _ m w] by simp_all
  then have "\<forall>s. current k1 \<notin> woken k1 s" using mid_not_woken [of k1 "current k1"] by (simp add: mid_step_def)
  then show ?thesis using wake_intr_end [OF d(1) _ assms(4) k1(2)] by simp
qed

end
