(* ===== verification/KernelLock.thy ===== *)
theory KernelLock
  imports KernelSync
begin

text \<open>
  Mutual exclusion. The right to a lock is a token: it is in the semaphore while the lock is
  free, with the holder while the lock is held, and in transit while a thread is between the
  two steps of \<open>lock_acquire\<close> or of \<open>lock_release\<close>. Over all interleavings a lock has at most one
  token, and no step loses it; a lock that has been initialised (\<open>lock_ready\<close>) has exactly one.
\<close>

section \<open>Tokens\<close>

definition no_down :: "nat \<Rightarrow> frame list \<Rightarrow> bool" where
  "no_down l fs \<longleftrightarrow> SemaDownCall (LockSema l) \<notin> set fs \<and> SemaDownLoop (LockSema l) \<notin> set fs"

definition in_transit :: "nat \<Rightarrow> frame list \<Rightarrow> nat" where
  "in_transit l fs = length (filter (\<lambda>fr. fr = SemaUpCall (LockSema l)) fs) +
     (if LockSetHolder l \<in> set fs \<and> no_down l fs then 1 else 0)"

definition at_rest :: "nat \<Rightarrow> kernel \<Rightarrow> nat" where
  "at_rest l k = unat (sema_value (semas k (LockSema l))) + (if holder k l = None then 0 else 1)"

definition tokens :: "nat \<Rightarrow> kernel \<Rightarrow> nat" where
  "tokens l k = at_rest l k + (\<Sum>t\<in>pages k. in_transit l (main_frames k t))"

text \<open>How the frames of the lock operations can follow one another on a stack.\<close>

definition no_taking :: "frame list \<Rightarrow> bool" where
  "no_taking fs \<longleftrightarrow> (\<forall>l. LockSetHolder l \<notin> set fs \<and> no_down l fs)"

definition no_drop :: "frame list \<Rightarrow> bool" where
  "no_drop fs \<longleftrightarrow> (\<forall>l. LockDrop l \<notin> set fs)"

fun follows :: "frame \<Rightarrow> frame list \<Rightarrow> bool" where
  "follows (SemaDownCall s) fs \<longleftrightarrow> (\<forall>l. s = LockSema l \<longrightarrow> LockSetHolder l \<in> set fs \<and> no_down l fs)"
| "follows (SemaDownLoop s) fs \<longleftrightarrow> (\<forall>l. s = LockSema l \<longrightarrow> LockSetHolder l \<in> set fs \<and> no_down l fs)"
| "follows (LockSetHolder l) fs \<longleftrightarrow> no_taking fs"
| "follows (LockAcquireCall l) fs \<longleftrightarrow> no_taking fs"
| "follows (LockDrop l) fs \<longleftrightarrow> no_drop fs"
| "follows (LockReleaseCall l) fs \<longleftrightarrow> no_drop fs"
| "follows (StartCall i) fs \<longleftrightarrow> fs = []"
| "follows _ fs \<longleftrightarrow> True"

fun shape :: "frame list \<Rightarrow> bool" where
  "shape [] \<longleftrightarrow> True"
| "shape (fr # fs) \<longleftrightarrow> follows fr fs \<and> shape fs"

definition lock_inv :: "kernel \<Rightarrow> bool" where
  "lock_inv k \<longleftrightarrow> (\<forall>l. tokens l k \<le> 1) \<and> (\<forall>t\<in>pages k. shape (main_frames k t)) \<and>
     (\<forall>t\<in>pages k. \<forall>l. LockDrop l \<in> set (main_frames k t) \<longrightarrow> holder k l = Some t) \<and>
     (\<forall>t\<in>pages k. status (thr k t) = THREAD_DYING \<longrightarrow> main_frames k t = [])"

text \<open>A step that keeps the invariant and loses no token.\<close>

definition lock_keep :: "kernel \<Rightarrow> kernel \<Rightarrow> bool" where
  "lock_keep k k' \<longleftrightarrow> lock_inv k' \<and> (\<forall>l. tokens l k \<le> tokens l k')"

lemma lock_keep_refl: "lock_inv k \<Longrightarrow> lock_keep k k"
  by (simp add: lock_keep_def)

lemma transit_Nil [simp]: "in_transit l [] = 0"
  by (simp add: in_transit_def)

lemma transit_plain:
  "fr \<noteq> SemaUpCall (LockSema l) \<Longrightarrow> fr \<noteq> LockSetHolder l \<Longrightarrow> fr \<noteq> SemaDownCall (LockSema l) \<Longrightarrow>
   fr \<noteq> SemaDownLoop (LockSema l) \<Longrightarrow> in_transit l (fr # fs) = in_transit l fs"
  by (auto simp: in_transit_def no_down_def)

text \<open>A step that replaces the stack of the running thread by \<open>new\<close>.\<close>

definition restack :: "frame list \<Rightarrow> kernel \<Rightarrow> kernel \<Rightarrow> bool" where
  "restack new k k' \<longleftrightarrow> finite (pages k) \<and> finite (pages k') \<and> current k \<in> pages k \<and> current k \<in> pages k' \<and>
     main_frames k' (current k) = new \<and>
     (\<forall>t\<in>pages k'. t \<in> pages k \<longrightarrow> t \<noteq> current k \<longrightarrow> main_frames k' t = main_frames k t) \<and>
     (\<forall>t\<in>pages k'. t \<notin> pages k \<longrightarrow> main_frames k' t = [KernelThread] \<or> (\<exists>u. main_frames k' t = [KernelThread, IdleInit (StackSema u)])) \<and>
     (\<forall>t\<in>pages k. t \<notin> pages k' \<longrightarrow> status (thr k t) = THREAD_DYING) \<and>
     (\<forall>t\<in>pages k'. status (thr k' t) = THREAD_DYING \<longrightarrow> t \<in> pages k \<and> t \<noteq> current k \<and> status (thr k t) = THREAD_DYING \<or> t = current k \<and> new = [])"

lemma restack_sum:
  assumes "restack new k k'" "lock_inv k"
  shows "(\<Sum>t\<in>pages k'. in_transit l (main_frames k' t)) + in_transit l (main_frames k (current k)) =
    (\<Sum>t\<in>pages k. in_transit l (main_frames k t)) + in_transit l new"
proof -
  let ?c = "current k" and ?f = "\<lambda>t. in_transit l (main_frames k t)" and ?g = "\<lambda>t. in_transit l (main_frames k' t)"
  have fin: "finite (pages k)" "finite (pages k')" "?c \<in> pages k" "?c \<in> pages k'" "?g ?c = in_transit l new"
    using assms(1) by (simp_all add: restack_def)
  have z: "?g t = 0" if "t \<in> pages k' - pages k" for t
    using assms(1) that by (auto simp: restack_def in_transit_def)
  have d: "?f t = 0" if "t \<in> pages k - pages k'" for t
    using assms that by (auto simp: restack_def lock_inv_def)
  have "sum ?g (pages k' - {?c}) = sum ?g (pages k \<inter> pages k' - {?c})"
  proof (rule sum.mono_neutral_right)
    show "\<forall>i\<in>pages k' - {?c} - (pages k \<inter> pages k' - {?c}). ?g i = 0" using z by blast
  qed (use fin in auto)
  also have "\<dots> = sum ?f (pages k \<inter> pages k' - {?c})"
    by (rule sum.cong) (use assms(1) in \<open>auto simp: restack_def\<close>)
  also have "\<dots> = sum ?f (pages k - {?c})"
  proof (rule sum.mono_neutral_left)
    show "\<forall>i\<in>pages k - {?c} - (pages k \<inter> pages k' - {?c}). ?f i = 0" using d by blast
  qed (use fin in auto)
  finally show ?thesis
    using sum.remove [OF fin(2,4), of ?g] sum.remove [OF fin(1,3), of ?f] fin(5) by simp
qed

lemma lock_inv_step:
  assumes "restack new k k'" "lock_inv k"
    and tok: "\<And>l. at_rest l k' + in_transit l new = at_rest l k + in_transit l (main_frames k (current k))"
    and sh: "shape new"
    and drop: "\<And>l. LockDrop l \<in> set new \<Longrightarrow> holder k' l = Some (current k)"
    and hold: "\<And>l t. holder k l = Some t \<Longrightarrow> t \<noteq> current k \<Longrightarrow> holder k' l = Some t"
  shows "lock_keep k k'"
proof -
  have "tokens l k' = tokens l k" for l
    using restack_sum [OF assms(1,2), of l] tok [of l] by (simp add: tokens_def)
  moreover have "shape (main_frames k' t) \<and> (LockDrop l \<in> set (main_frames k' t) \<longrightarrow> holder k' l = Some t)"
    if t: "t \<in> pages k'" for t l
  proof (cases "t = current k")
    case True
    then show ?thesis using assms(1) sh drop by (simp add: restack_def)
  next
    case False
    then show ?thesis
    proof (cases "t \<in> pages k")
      case True
      then have "main_frames k' t = main_frames k t" using assms(1) t False by (simp add: restack_def)
      then show ?thesis using assms(2) True hold False by (auto simp: lock_inv_def)
    next
      case False
      then show ?thesis using assms(1) t by (auto simp: restack_def)
    qed
  qed
  moreover have "main_frames k' t = []" if t: "t \<in> pages k'" "status (thr k' t) = THREAD_DYING" for t
    using assms(1,2) t by (cases "t = current k") (auto simp: restack_def lock_inv_def)
  ultimately show ?thesis using assms(2) unfolding lock_keep_def lock_inv_def by simp
qed

lemma lock_inv_tokens:
  assumes "lock_inv k" "finite (pages k)" "t \<in> pages k"
  shows "at_rest l k + in_transit l (main_frames k t) \<le> 1"
proof -
  have "tokens l k \<le> 1" using assms(1) by (simp add: lock_inv_def)
  moreover have "in_transit l (main_frames k t) \<le> (\<Sum>t\<in>pages k. in_transit l (main_frames k t))"
    using member_le_sum [OF assms(3), of "\<lambda>t. in_transit l (main_frames k t)"] assms(2) by simp
  ultimately show ?thesis by (simp add: tokens_def)
qed


section \<open>Steps as changes of one stack\<close>

text \<open>Nobody dies and only dead threads lose their page.\<close>

definition orderly :: "kernel \<Rightarrow> kernel \<Rightarrow> bool" where
  "orderly k k' \<longleftrightarrow>
     (\<forall>t\<in>pages k'. status (thr k' t) = THREAD_DYING \<longrightarrow> t \<in> pages k \<and> status (thr k t) = THREAD_DYING) \<and>
     (\<forall>t\<in>pages k. t \<notin> set (destruction_req k) \<longrightarrow> status (thr k t) \<noteq> THREAD_DYING \<longrightarrow> t \<in> pages k')"

lemma calm_orderly:
  "calm c k1 k' \<Longrightarrow> pages k1 = pages k \<Longrightarrow> set (destruction_req k1) = set (destruction_req k) \<Longrightarrow>
   (\<And>t. t \<in> pages k \<Longrightarrow> (status (thr k1 t) = THREAD_DYING) = (status (thr k t) = THREAD_DYING)) \<Longrightarrow> orderly k k'"
  unfolding calm_def orderly_def by auto

lemma restack_orderly:
  assumes "sched_inv k" "orderly k k'" "finite (pages k')"
    "\<And>t. t \<in> pages k' \<Longrightarrow> t \<in> pages k \<Longrightarrow> main_frames k' t = (if t = current k then new else main_frames k t)"
    "\<And>t. t \<in> pages k' \<Longrightarrow> t \<notin> pages k \<Longrightarrow> main_frames k' t = KernelThread # nw"
    "nw = [] \<or> (\<exists>u. nw = [IdleInit (StackSema u)])"
  shows "restack new k k'"
proof -
  have c: "current k \<in> pages k" "finite (pages k)" "status (thr k (current k)) = THREAD_RUNNING"
    "current k \<notin> set (destruction_req k)" "\<And>t. t \<in> set (destruction_req k) \<Longrightarrow> status (thr k t) = THREAD_DYING"
    using assms(1) by (auto simp: sched_inv_def core_def one_running_def dying_ok_def)
  have p: "t \<in> pages k'" if "t \<in> pages k" "t \<notin> set (destruction_req k)" "status (thr k t) \<noteq> THREAD_DYING" for t
    using assms(2) that by (auto simp: orderly_def)
  have d: "t \<in> pages k \<and> status (thr k t) = THREAD_DYING" if "t \<in> pages k'" "status (thr k' t) = THREAD_DYING" for t
    using assms(2) that by (auto simp: orderly_def)
  show ?thesis
    unfolding restack_def
  proof (intro conjI)
    show "current k \<in> pages k'" by (rule p) (use c in auto)
    then show "main_frames k' (current k) = new" using assms(4) c(1) by simp
    show "\<forall>t\<in>pages k. t \<notin> pages k' \<longrightarrow> status (thr k t) = THREAD_DYING" using p c(5) by blast
    show "\<forall>t\<in>pages k'. status (thr k' t) = THREAD_DYING \<longrightarrow> t \<in> pages k \<and> t \<noteq> current k \<and>
        status (thr k t) = THREAD_DYING \<or> t = current k \<and> new = []"
      using d c(3) by fastforce
    show "\<forall>t\<in>pages k'. t \<notin> pages k \<longrightarrow> main_frames k' t = [KernelThread] \<or>
        (\<exists>u. main_frames k' t = [KernelThread, IdleInit (StackSema u)])"
      using assms(5,6) by auto
  qed (use c assms(3,4) in auto)
qed

lemma restack_frame:
  assumes "sched_inv k" "frames (thr k (current k)) = fr # fs" "grow gs nw (pop_frame k) k'"
    "orderly (pop_frame k) k'" "finite (pages k')" "nw = [] \<or> (\<exists>u. nw = [IdleInit (StackSema u)])"
  shows "restack (gs @ main_frames (pop_frame k) (current k)) k k'"
proof (rule restack_orderly [OF assms(1) _ assms(5) _ _ assms(6)])
  show "orderly k k'" using assms(4) by (simp add: orderly_def)
  have m: "t \<noteq> current k \<Longrightarrow> main_frames (pop_frame k) t = main_frames k t" for t by (simp add: main_frames_def)
  show "main_frames k' t = (if t = current k then gs @ main_frames (pop_frame k) (current k) else main_frames k t)"
    if "t \<in> pages k'" "t \<in> pages k" for t
    using assms(3) that m by (auto simp: grow_def)
  show "main_frames k' t = KernelThread # nw" if "t \<in> pages k'" "t \<notin> pages k" for t
    using assms(3) that by (auto simp: grow_def)
qed

lemma restack_call:
  assumes "sched_inv k" "main_frames k (current k) = []" "grow gs [] k k'" "orderly k k'" "finite (pages k')"
  shows "restack gs k k'"
  by (rule restack_orderly [OF assms(1,4,5), where nw = "[]"]) (use assms(2,3) in \<open>auto simp: grow_def\<close>)

lemma pushed_transit:
  assumes "gs \<in> pushed u fr" "\<not> locks_frame fr" "follows fr fs" "shape fs" "\<And>s. fr = IdleInit s \<Longrightarrow> s \<in> range StackSema"
  shows "in_transit l (gs @ fs) = in_transit l (fr # fs) \<and> shape (gs @ fs) \<and>
    (LockDrop l \<in> set gs \<longrightarrow> fr = LockReleaseCall l)"
  using assms by (cases fr) (auto simp: in_transit_def no_down_def no_taking_def no_drop_def)

lemma pushed_call_transit:
  assumes "gs \<in> pushed_call u c" "\<not> locks_call c"
  shows "in_transit l gs = 0 \<and> shape gs \<and> (LockDrop l \<in> set gs \<longrightarrow> c = CallLockRelease l)"
  using assms by (cases c) (auto simp: in_transit_def no_down_def no_taking_def no_drop_def split: option.splits)


section \<open>The steps of threads\<close>

lemma at_rest_calm: "calm c k k' \<Longrightarrow> at_rest l k' = at_rest l k \<and> holder k' = holder k"
  by (simp add: calm_def at_rest_def)

lemma at_rest_pop [simp]: "at_rest l (pop_frame k) = at_rest l k"
  by (simp add: at_rest_def pop_frame_def)

lemma lock_calm_frame:
  assumes "exec_frame fr (pop_frame k) = Some k'" "frames (thr k (current k)) = fr # fs" "frame_ok fr k"
    "sched_inv k" "stack_inv k" "lock_inv k" "finite (pages k')" "\<not> locks_frame fr"
  shows "lock_keep k k'"
proof -
  let ?rest = "main_frames (pop_frame k) (current k)"
  have cm: "calm (current k) (pop_frame k) k'" using calm_exec_frame [OF assms(1,8)] by simp
  have c: "current k \<in> pages k" using assms(4) by (simp add: sched_inv_def core_def)
  obtain gs where gs: "gs \<in> pushed (current k) fr" "grow gs (pushed_new (current k) fr) (pop_frame k) k'"
    using exec_frame_grow [OF assms(1)] assms(3,5) by (auto simp: conds_ok_pop frame_ok_pop stack_inv_def)
  have "pushed_new (current k) fr = []" using assms(8) by (cases fr) auto
  then have r: "restack (gs @ ?rest) k k'"
    by (intro restack_frame [OF assms(4,2) gs(2) _ assms(7)] calm_orderly [OF cm]) simp_all
  have old: "main_frames k (current k) = (if is_intr_frame fr then [] else [fr]) @ ?rest"
    using main_frames_top [OF assms(2)] assms(2) by (simp add: main_frames_def)
  have init: "fr = IdleInit s \<Longrightarrow> s \<in> range StackSema" for s
    using assms(5) c old by (auto simp: stack_inv_def idle_init_ok_def)
  have sh: "shape (main_frames k (current k))" using assms(6) c by (simp add: lock_inv_def)
  have t: "in_transit l (gs @ ?rest) = in_transit l (main_frames k (current k)) \<and> shape (gs @ ?rest) \<and>
      (LockDrop l \<in> set gs \<longrightarrow> fr = LockReleaseCall l)" for l
  proof (cases "is_intr_frame fr")
    case True
    then have "gs = []" using gs(1) by (cases fr) auto
    then show ?thesis using sh old True by simp
  next
    case False
    then show ?thesis using pushed_transit [OF gs(1) assms(8) _ _ init, of ?rest l] sh old by simp
  qed
  have h: "holder k' = holder k" "\<And>l. at_rest l k' = at_rest l k" using at_rest_calm [OF cm] by simp_all
  show ?thesis
  proof (rule lock_inv_step [OF r assms(6)])
    show "at_rest l k' + in_transit l (gs @ ?rest) = at_rest l k + in_transit l (main_frames k (current k))" for l
      using t [of l] h by simp
    show "shape (gs @ ?rest)" using t by blast
    show "holder k' l = Some (current k)" if l: "LockDrop l \<in> set (gs @ ?rest)" for l
    proof (cases "LockDrop l \<in> set gs")
      case True
      then have "fr = LockReleaseCall l" using t by blast
      then show ?thesis
        using assms(1) h by (auto simp: lock_release_def lock_held_by_current_thread_def thread_current_bind)
    next
      case False
      then have "LockDrop l \<in> set (main_frames k (current k))" using l old by simp
      then show ?thesis using assms(6) c h by (simp add: lock_inv_def)
    qed
  qed (simp add: h)
qed


text \<open>The frames that change a semaphore or a holder: a state \<open>k1\<close> from which the rest is calm.\<close>

definition same_life :: "kernel \<Rightarrow> kernel \<Rightarrow> bool" where
  "same_life k k1 \<longleftrightarrow> pages k1 = pages k \<and> destruction_req k1 = destruction_req k \<and> current k1 = current k \<and>
     (\<forall>t. (status (thr k1 t) = THREAD_DYING) = (status (thr k t) = THREAD_DYING))"

lemma same_life_orderly: "same_life k k1 \<Longrightarrow> calm c k1 k' \<Longrightarrow> orderly k k'"
  by (auto intro: calm_orderly simp: same_life_def)

lemma same_life_simps [simp]:
  "same_life k k" "same_life k (upd_sema s g k1) = same_life k k1" "same_life k (k1\<lparr>holder := h\<rparr>) = same_life k k1"
  "same_life k (push_frames gs k1) = same_life k k1" "same_life k (k1\<lparr>intr_on := b\<rparr>) = same_life k k1"
  "same_life k (sema_init s v k1) = same_life k k1"
  "same_life k (k1\<lparr>conds := d\<rparr>) = same_life k k1"
  by (auto simp: same_life_def sema_init_def)

lemma same_life_steady: "same_life k k' \<Longrightarrow> orderly k k'"
  by (auto simp: orderly_def same_life_def)

lemma orderly_same_life: "orderly k1 k' \<Longrightarrow> same_life k k1 \<Longrightarrow> orderly k k'"
  by (auto simp: orderly_def same_life_def)

lemma sema_down_loop_effect:
  assumes "sema_down_loop s k = Some k'"
  shows "orderly k k' \<and> holder k' = holder k \<and>
    (if sema_value (semas k s) = 0
     then grow [SemaDownLoop s] [] k k' \<and> (\<forall>r. sema_value (semas k' r) = sema_value (semas k r))
     else grow [] [] k k' \<and> (\<forall>r. sema_value (semas k' r) = sema_value (semas k r) - (if r = s then 1 else 0)))"
proof (cases "sema_value (semas k s) = 0")
  case True
  let ?k = "upd_sema s (waiters_update (insert_ordered (cmp_priority k) (current k))) k"
  have b: "thread_block (push_frames [SemaDownLoop s] ?k) = Some k'"
    using assms True by (auto simp: sema_down_loop_def thread_current_bind Let_def)
  from block_same [OF this] have g: "grow [SemaDownLoop s] [] k k'"
    by (rule growI) (auto simp: conds_ok_def main_frames_def)
  have cm: "calm (current k) ?k k'"
    using calm_trans [OF calm_push calm_block [OF b]] by simp
  then have "semas k' = semas ?k" "holder k' = holder k" by (simp_all add: calm_def)
  moreover have "sema_value (semas ?k r) = sema_value (semas k r)" for r by simp
  moreover have "orderly k k'" by (rule same_life_orderly [OF _ cm]) simp
  ultimately show ?thesis using True g by simp
next
  case False
  then have "k' = upd_sema s (sema_value_update (\<lambda>v. v - 1)) k" using assms by (simp add: sema_down_loop_def)
  then show ?thesis using False
    by (auto simp: orderly_def grow_def main_frames_def conds_ok_def)
qed

lemma sema_up_wake_effect:
  assumes "sema_up_wake s k = Some k1"
  shows "same_life k k1 \<and> holder k1 = holder k \<and> (\<forall>r. sema_value (semas k1 r) = sema_value (semas k r))"
proof (cases "sort_down (\<lambda>t. priority (thr k t)) (waiters (semas k s))")
  case (Cons t ts)
  then have "thread_unblock t (upd_sema s (waiters_update (\<lambda>_. ts)) k) = Some k1"
    using assms by (simp add: sema_up_wake_def)
  then show ?thesis by (auto simp: thread_unblock_def Let_def same_life_def split: if_splits)
qed (use assms in \<open>simp add: sema_up_wake_def\<close>)

lemma sema_up_body_effect:
  assumes "sema_up_body s k = Some k'"
  shows "orderly k k' \<and> holder k' = holder k \<and>
    (\<forall>r. sema_value (semas k' r) = sema_value (semas k r) + (if r = s then 1 else 0))"
proof -
  obtain k1 where k1: "sema_up_wake s k = Some k1"
    "thread_compare_priority (upd_sema s (sema_value_update (\<lambda>v. v + 1)) k1) = Some k'"
    using assms by (auto simp: sema_up_body_def bind_eq_Some_conv)
  note w = sema_up_wake_effect [OF k1(1)]
  have cm: "calm (current k1) (upd_sema s (sema_value_update (\<lambda>v. v + 1)) k1) k'"
    using calm_compare [OF k1(2)] by simp
  then have "holder k' = holder k1" "semas k' = semas (upd_sema s (sema_value_update (\<lambda>v. v + 1)) k1)"
    by (simp_all add: calm_def)
  moreover have "orderly k k'" by (rule same_life_orderly [OF _ cm]) (simp add: w)
  ultimately show ?thesis using w by auto
qed

lemma sema_up_effect:
  assumes "sema_up s k = Some k'"
  shows "orderly k k' \<and> holder k' = holder k \<and>
    (\<forall>r. sema_value (semas k' r) = sema_value (semas k r) + (if r = s then 1 else 0))"
proof -
  let ?k = "(push_frames [IntrSetLevel (intr_on k)] k)\<lparr>intr_on := False\<rparr>"
  have "sema_up_body s ?k = Some k'" using assms by (simp add: sema_up_def Let_def)
  from sema_up_body_effect [OF this] show ?thesis using orderly_same_life [of ?k k' k] by simp
qed

lemma start_effect:
  assumes "thread_start i k = Some k'" "i \<notin> pages k"
  shows "orderly k k' \<and> holder k' = holder k \<and> (\<forall>l. semas k' (LockSema l) = semas k (LockSema l))"
proof -
  let ?i = "sema_init (StackSema (current k)) 0 k"
  let ?s = "push_frames [StartEnable, SemaDownCall (StackSema (current k))] ?i"
  have s: "thread_create (Some i) True PRI_MIN [IdleInit (StackSema (current k))] ?s = Some k'"
    using assms(1) by (auto simp: thread_start_def thread_current_bind Let_def sema_init_def)
  have cm: "calm (current k) ?s k'" using calm_create [OF s] assms(2) by (simp add: sema_init_def)
  then have "holder k' = holder k" "semas k' = semas ?i" by (simp_all add: calm_def sema_init_def)
  moreover have "orderly k k'" by (rule same_life_orderly [OF _ cm]) simp
  ultimately show ?thesis by (simp add: sema_init_def)
qed


lemma unat_at_rest: "at_rest l k \<le> 1 \<Longrightarrow> unat (sema_value (semas k (LockSema l))) \<le> 1"
  by (simp add: at_rest_def)

lemma lock_special_frame:
  assumes "exec_frame fr (pop_frame k) = Some k'" "frames (thr k (current k)) = fr # fs" "frame_ok fr k"
    "sched_inv k" "stack_inv k" "lock_inv k" "finite (pages k')" "locks_frame fr"
  shows "lock_keep k k'"
proof -
  let ?rest = "main_frames (pop_frame k) (current k)"
  have c: "current k \<in> pages k" "finite (pages k)" using assms(4) by (simp_all add: sched_inv_def core_def)
  have "\<not> is_intr_frame fr" using assms(8) by (cases fr) auto
  then have old: "main_frames k (current k) = fr # ?rest"
    using main_frames_top [OF assms(2)] assms(2) by (simp add: main_frames_def)
  have "shape (fr # ?rest)" using assms(6) c(1) unfolding old [symmetric] by (simp add: lock_inv_def)
  then have sh: "follows fr ?rest" "shape ?rest" by simp_all
  have dr: "holder k l = Some (current k)" if "LockDrop l \<in> set (fr # ?rest)" for l
    using assms(6) c(1) that unfolding old [symmetric] by (simp add: lock_inv_def)
  have le: "at_rest l k + in_transit l (fr # ?rest) \<le> 1" for l
    using lock_inv_tokens [OF assms(6) c(2,1)] unfolding old .
  note step = lock_inv_step [OF _ assms(6)]
  note re = restack_frame [OF assms(4,2) _ _ assms(7)]
  show ?thesis
  proof (cases fr)
    case (SemaDownLoop s)
    have e: "orderly (pop_frame k) k'" "holder k' = holder k"
      "if sema_value (semas k s) = 0
       then grow [SemaDownLoop s] [] (pop_frame k) k' \<and> (\<forall>r. sema_value (semas k' r) = sema_value (semas k r))
       else grow [] [] (pop_frame k) k' \<and> (\<forall>r. sema_value (semas k' r) = sema_value (semas k r) - (if r = s then 1 else 0))"
      using sema_down_loop_effect [of s "pop_frame k" k'] assms(1) SemaDownLoop by simp_all
    show ?thesis
    proof (cases "sema_value (semas k s) = 0")
      case True
      show ?thesis
        by (rule step [OF re [of "[SemaDownLoop s]" "[]"]])
          (use e True SemaDownLoop sh dr old in \<open>auto simp: at_rest_def\<close>)
    next
      case False
      have m: "unat (sema_value (semas k s) - 1) = unat (sema_value (semas k s)) - 1" "unat (sema_value (semas k s)) \<noteq> 0"
        using False unat_minus_one [OF False] by (auto simp: unat_eq_0)
      show ?thesis
        by (rule step [OF re [of "[]" "[]"]])
          (use e False SemaDownLoop sh dr old m in \<open>auto simp: at_rest_def in_transit_def no_down_def\<close>)
    qed
  next
    case (SemaUpCall s)
    have e: "orderly (pop_frame k) k'" "holder k' = holder k"
      "\<And>r. sema_value (semas k' r) = sema_value (semas k r) + (if r = s then 1 else 0)"
      using sema_up_effect [of s "pop_frame k" k'] assms(1) SemaUpCall by auto
    have "in_transit l (fr # ?rest) \<noteq> 0" if "s = LockSema l" for l
      using that SemaUpCall by (simp add: in_transit_def)
    then have v: "unat (sema_value (semas k s)) = 0" if "s = LockSema l" for l
      using le [of l] that by (auto simp: at_rest_def)
    have g: "grow [] [] (pop_frame k) k'"
      using assms(1) SemaUpCall sema_up_same same_frames_grow by auto
    show ?thesis
      by (rule step [OF re [of "[]" "[]"]])
        (use e SemaUpCall sh dr old v g in \<open>auto simp: at_rest_def in_transit_def no_down_def unat_eq_0\<close>)
  next
    case (StartCall i)
    then have ni: "i \<notin> pages (pop_frame k)" using assms(3) by simp
    note e = start_effect [of i "pop_frame k" k', OF _ ni]
    have g: "grow (create_frames i @ [StartEnable, SemaDownCall (StackSema (current k))]) [IdleInit (StackSema (current k))] (pop_frame k) k'"
      using start_grow [of i "pop_frame k" k'] assms(1) StartCall ni by simp
    show ?thesis
      by (rule step [OF re [OF g]])
        (use e assms(1) StartCall sh dr old in \<open>auto simp: at_rest_def in_transit_def no_down_def no_taking_def no_drop_def\<close>)
  next
    case (LockSetHolder l)
    have k': "k' = (pop_frame k)\<lparr>holder := (holder k)(l := Some (current k))\<rparr>" using assms(1) LockSetHolder by simp
    have "in_transit l (fr # ?rest) \<noteq> 0"
      using LockSetHolder sh by (auto simp: in_transit_def no_down_def no_taking_def)
    then have n: "holder k l = None" using le [of l] by (auto simp: at_rest_def split: if_splits)
    show ?thesis
      by (rule step [OF re [of "[]" "[]"]])
        (use k' n LockSetHolder sh dr old in \<open>auto simp: at_rest_def in_transit_def no_down_def no_taking_def orderly_def
            grow_def main_frames_def conds_ok_def\<close>)
  next
    case (LockDrop l)
    have k': "k' = push_frames [SemaUpCall (LockSema l)] ((pop_frame k)\<lparr>holder := (holder k)(l := None)\<rparr>)"
      using assms(1) LockDrop by (simp add: lock_drop_def)
    have h: "holder k l = Some (current k)" using dr LockDrop by simp
    have o: "orderly (pop_frame k) k'" by (simp add: k' orderly_def)
    have g: "grow [SemaUpCall (LockSema l)] [] (pop_frame k) k'" by (auto simp: k' grow_def main_frames_def conds_ok_def)
    show ?thesis
      by (rule step [OF re [OF g o]])
        (use k' h LockDrop sh dr old in \<open>auto simp: at_rest_def in_transit_def no_down_def no_drop_def\<close>)
  qed (use assms(8) in auto)
qed


section \<open>Calls and interrupts\<close>

text \<open>The initialisation of a lock that is not in use gives it its token.\<close>

lemma lock_init_tokens:
  assumes "lock_inv k" "idle_lock k l"
  shows "lock_keep k (lock_init l k) \<and> tokens l (lock_init l k) = 1"
proof -
  have "in_transit l (main_frames k t) = 0" if t: "t \<in> pages k" for t
  proof -
    have "SemaUpCall (LockSema l) \<notin> set (main_frames k t)" "LockSetHolder l \<notin> set (main_frames k t)"
      using assms(2) t by (simp_all add: idle_lock_def main_frames_def)
    then show ?thesis by (auto simp: in_transit_def filter_empty_conv)
  qed
  then have z: "(\<Sum>t\<in>pages k. in_transit l (main_frames k t)) = 0" by simp
  have h: "holder k l = None" using assms(2) by (simp add: idle_lock_def)
  then have h': "holder (lock_init l k) = holder k" by (auto simp: lock_init_def sema_init_def)
  have f: "pages (lock_init l k) = pages k" "thr (lock_init l k) = thr k"
    "main_frames (lock_init l k) = main_frames k"
    by (simp_all add: lock_init_def sema_init_def main_frames_def fun_eq_iff)
  have r: "at_rest r (lock_init l k) = (if r = l then 1 else at_rest r k)" for r
    using h by (simp add: at_rest_def lock_init_def sema_init_def)
  have t: "tokens r (lock_init l k) = (if r = l then 1 else tokens r k)" for r
    using z by (simp add: tokens_def f r)
  show ?thesis using assms(1) by (auto simp: lock_keep_def lock_inv_def t f h')
qed

lemma restack_exit:
  assumes "sched_inv k" "thread_exit k = Some k'" "finite (pages k')" "main_frames k (current k) = []"
  shows "restack [] k k' \<and> (\<forall>l. at_rest l k' = at_rest l k) \<and> holder k' = holder k"
proof -
  have c: "current k \<in> pages k" "finite (pages k)" "current k \<notin> set (destruction_req k)"
    "\<And>t. t \<in> set (destruction_req k) \<Longrightarrow> status (thr k t) = THREAD_DYING"
    using assms(1) by (auto simp: sched_inv_def core_def dying_ok_def)
  obtain k1 where k1: "calm (current k) k1 k'" "semas k1 = semas k" "holder k1 = holder k"
    "pages k1 = pages k - set (destruction_req k)" "pages k' = pages k1" "\<And>t. t \<noteq> current k \<Longrightarrow> thr k1 t = thr k t"
    using calm_exit [OF assms(2)] by blast
  have g: "grow [] [] k k'" by (rule thread_exit_grow [OF assms(2,4)])
  have m: "main_frames k' t = main_frames k t" if "t \<in> pages k'" for t
    using g that k1(4,5) by (auto simp: grow_def)
  have "status (thr k t) = THREAD_DYING" if "t \<in> pages k'" "status (thr k' t) = THREAD_DYING" "t \<noteq> current k" for t
    using k1(1,6) that unfolding calm_def by metis
  then have "\<forall>t\<in>pages k'. status (thr k' t) = THREAD_DYING \<longrightarrow>
      t \<in> pages k \<and> t \<noteq> current k \<and> status (thr k t) = THREAD_DYING \<or> t = current k \<and> [] = []"
    using k1(4,5) by blast
  moreover have "main_frames k' (current k) = []" using m c(1,3) k1(4,5) assms(4) by simp
  moreover have "\<forall>t\<in>pages k. t \<notin> pages k' \<longrightarrow> status (thr k t) = THREAD_DYING" using k1(4,5) c(4) by simp
  ultimately have "restack [] k k'"
    using c(1-3) assms(3) k1(4,5) m unfolding restack_def by simp
  moreover have "semas k' = semas k" "holder k' = holder k" using k1(1-3) by (simp_all add: calm_def)
  ultimately show ?thesis by (simp add: at_rest_def)
qed

lemma lock_call:
  assumes "exec_call c k = Some k'" "call_ok c k" "frames (thr k (current k)) = []"
    "sched_inv k" "stack_inv k" "lock_inv k" "finite (pages k')"
  shows "lock_keep k k'"
proof -
  have c: "current k \<in> pages k" "finite (pages k)" using assms(4) by (simp_all add: sched_inv_def core_def)
  have old: "main_frames k (current k) = []" using assms(3) by (simp add: main_frames_def)
  have co: "conds_ok k" using assms(5) by (simp add: stack_inv_def)
  obtain gs where gs: "gs \<in> pushed_call (current k) c" "grow gs [] k k'"
    using exec_call_grow [OF assms(1,2) co c(1) old] by blast
  have le: "at_rest l k \<le> 1" for l
    using lock_inv_tokens [OF assms(6) c(2,1), of l] by simp
  note re = restack_call [OF assms(4) old _ _ assms(7)]
  note step = lock_inv_step [OF _ assms(6)]
  have quiet_step: "lock_keep k k'" if "orderly k k'" "grow hs [] k k'" "holder k' = holder k" "\<And>l. at_rest l k' = at_rest l k"
    "\<And>l. in_transit l hs = 0 \<and> LockDrop l \<notin> set hs" "shape hs" for hs
    by (rule step [OF re [OF that(2,1)]]) (use that(3-) old in auto)
  show ?thesis
  proof (cases "locks_call c")
    case False
    have cm: "calm (current k) k k'" by (rule calm_exec_call [OF assms(1,2) False])
    have t: "in_transit l gs = 0 \<and> shape gs \<and> (LockDrop l \<in> set gs \<longrightarrow> c = CallLockRelease l)" for l
      by (rule pushed_call_transit [OF gs(1) False])
    have h: "holder k' = holder k" "\<And>l. at_rest l k' = at_rest l k" using at_rest_calm [OF cm] by simp_all
    have o: "orderly k k'" by (rule calm_orderly [OF cm]) simp_all
    show ?thesis
    proof (rule step [OF re [OF gs(2) o]])
      show "shape gs" using t by blast
      show "holder k' l = Some (current k)" if "LockDrop l \<in> set gs" for l
      proof -
        have "c = CallLockRelease l" using t that by blast
        then show ?thesis
          using assms(1) h by (auto simp: lock_release_def lock_held_by_current_thread_def thread_current_bind)
      qed
    qed (use t h old in auto)
  next
    case True
    then show ?thesis
    proof (cases c)
      case (CallSemaInit i v)
      then have k': "k' = sema_init (Sema i) v k" using assms(1) by simp
      show ?thesis
        by (rule quiet_step [of "[]"]) (auto simp: k' orderly_def sema_init_def at_rest_def grow_def main_frames_def conds_ok_def)
    next
      case (CallSemaTryDown i)
      then have k': "k' = fst (sema_try_down (Sema i) k)" using assms(1) by simp
      show ?thesis
        by (rule quiet_step [of "[]"]) (auto simp: k' sema_try_down_def orderly_def at_rest_def grow_def main_frames_def conds_ok_def)
    next
      case (CallSemaUp i)
      have e: "orderly k k'" "holder k' = holder k"
        "\<And>r. sema_value (semas k' r) = sema_value (semas k r) + (if r = Sema i then 1 else 0)"
        using sema_up_effect [of "Sema i" k k'] assms(1) CallSemaUp by auto
      have g: "grow [] [] k k'" using assms(1) CallSemaUp sema_up_same same_frames_grow by auto
      show ?thesis by (rule quiet_step [OF e(1) g e(2)]) (simp_all add: at_rest_def e(2,3))
    next
      case (CallLockInit l)
      then have "k' = lock_init l k" "idle_lock k l" using assms(1,2) by simp_all
      then show ?thesis using lock_init_tokens [OF assms(6)] by simp
    next
      case (CallLockTryAcquire l)
      let ?v = "sema_value (semas k (LockSema l))"
      have k': "k' = (if ?v > 0 then push_frames [LockSetHolder l] (upd_sema (LockSema l) (sema_value_update (\<lambda>v. v - 1)) k) else k)"
        using assms(1) CallLockTryAcquire
        by (auto simp: lock_try_acquire_def lock_held_by_current_thread_def thread_current_bind sema_try_down_def split: if_splits)
      show ?thesis
      proof (cases "?v = 0")
        case True
        then show ?thesis using k' assms(6) lock_keep_refl by simp
      next
        case False
        have m: "unat (?v - 1) = unat ?v - 1" "unat ?v \<noteq> 0" using False unat_minus_one [OF False] by (auto simp: unat_eq_0)
        have e: "k' = push_frames [LockSetHolder l] (upd_sema (LockSema l) (sema_value_update (\<lambda>v. v - 1)) k)"
          using k' False by (simp add: word_neq_0_conv)
        have g: "grow [LockSetHolder l] [] k k'" by (auto simp: e grow_def main_frames_def conds_ok_def)
        have o: "orderly k k'" by (simp add: e orderly_def)
        show ?thesis
          by (rule step [OF re [OF g o]])
            (use m old in \<open>auto simp: e at_rest_def in_transit_def no_down_def no_taking_def\<close>)
      qed
    next
      case (CallCondWait d l)
      have g: "grow [LockReleaseCall l, SemaDownCall (StackSema (current k)), LockAcquireCall l] [] k k'"
        using cond_wait_grow assms(1) CallCondWait by simp
      have k': "same_life k k' \<and> holder k' = holder k \<and> (\<forall>l. at_rest l k' = at_rest l k)"
        using assms(1) CallCondWait by (auto simp: cond_wait_def lock_held_by_current_thread_def thread_current_bind
            Let_def sema_init_def at_rest_def)
      show ?thesis
        by (rule quiet_step [OF same_life_steady g]) (use k' in \<open>auto simp: in_transit_def no_drop_def no_taking_def no_down_def\<close>)
    next
      case CallExit
      have e: "restack [] k k'" "\<And>l. at_rest l k' = at_rest l k" "holder k' = holder k"
        using restack_exit [OF assms(4) _ assms(7) old] assms(1) CallExit by auto
      show ?thesis by (rule step [OF e(1)]) (use e old in auto)
    qed auto
  qed
qed


lemma lock_intr:
  assumes "orderly k k'" "same_frames k k'" "holder k' = holder k" "\<And>l. at_rest l k' = at_rest l k"
    "sched_inv k" "lock_inv k" "finite (pages k')"
  shows "lock_keep k k'"
proof -
  have c: "current k \<in> pages k" using assms(5) by (simp add: sched_inv_def core_def)
  have "restack (main_frames k (current k)) k k'"
    by (rule restack_orderly [OF assms(5,1,7), where nw = "[]"]) (use assms(2) in \<open>auto simp: same_frames_def\<close>)
  then show ?thesis
    by (rule lock_inv_step [OF _ assms(6)]) (use assms(3,4,6) c in \<open>auto simp: lock_inv_def\<close>)
qed

lemma same_life_trans: "same_life k k1 \<Longrightarrow> same_life k1 k2 \<Longrightarrow> same_life k k2"
  by (auto simp: same_life_def)

lemma wake_up_effect:
  assumes "wake_up w k = Some k'" "in_external_intr k" "mid_step k"
  shows "same_life k k' \<and> holder k' = holder k \<and> (\<forall>l. semas k' (LockSema l) = semas k (LockSema l))"
proof (cases w)
  case (WakeSema n)
  then obtain k0 where k0: "sema_up_wake (Sema n) k = Some k0" "k' = upd_sema (Sema n) (sema_value_update (\<lambda>v. v + 1)) k0"
    using sema_up_in_handler [OF _ assms(2,3)] assms(1) by auto
  have "semas k0 (LockSema l) = semas k (LockSema l)" for l
    using k0(1) by (auto simp: sema_up_wake_def thread_unblock_def Let_def split: list.splits if_splits)
  then show ?thesis using sema_up_wake_effect [OF k0(1)] k0(2) by simp
next
  case (WakeIntq v)
  then show ?thesis using assms(1)
    by (auto simp: signal_intq_def thread_unblock_def Let_def same_life_def bind_eq_Some_conv split: option.splits if_splits)
qed

lemma device_effect:
  "device_handler ws k = Some k' \<Longrightarrow> in_external_intr k \<Longrightarrow> mid_step k \<Longrightarrow>
    same_life k k' \<and> holder k' = holder k \<and> (\<forall>l. semas k' (LockSema l) = semas k (LockSema l))"
proof (induction ws arbitrary: k)
  case (Cons w ws)
  then obtain k1 where k1: "wake_up w k = Some k1" "device_handler ws k1 = Some k'" by (auto simp: bind_eq_Some_conv)
  note m = wake_up_mid [OF Cons.prems(3,2) k1(1)]
  show ?case
    using Cons.IH [OF k1(2)] wake_up_effect [OF k1(1) Cons.prems(2,3)] m same_life_trans by auto
qed simp

lemma lock_kstep:
  assumes "kstep k k'" "sched_inv k" "stack_inv k" "lock_inv k" "finite (pages k')"
  shows "lock_keep k k'"
  using assms(1)
proof (cases rule: kstep.cases)
  case (Frame fr fs)
  then show ?thesis using lock_calm_frame lock_special_frame assms(2-5) by metis
next
  case (Call c)
  then show ?thesis using lock_call assms by blast
next
  case Timer
  let ?k = "k\<lparr>intr_on := False, in_external_intr := True, yield_on_return := False\<rparr>"
  obtain k1 where k1: "timer_interrupt ?k = Some k1"
    "(if yield_on_return k1 then thread_yield (push_frames [IntrSetLevel True] (k1\<lparr>in_external_intr := False\<rparr>))
      else Some (k1\<lparr>in_external_intr := False, intr_on := True\<rparr>)) = Some k'"
    using Timer(2) by (auto simp: intr_handler_def bind_eq_Some_conv Let_def)
  have cm: "calm (current k) ?k k'"
    using calm_trans [OF calm_timer [OF k1(1), of "current k"]] calm_intr_end [OF k1(2)] timer_current [OF k1(1)]
    by simp
  then have "holder k' = holder k" "\<And>l. at_rest l k' = at_rest l k" by (simp_all add: calm_def at_rest_def)
  moreover have "orderly k k'" by (rule calm_orderly [OF cm]) simp_all
  ultimately show ?thesis using lock_intr intr_handler_same [OF Timer(2) timer_same] assms by blast
next
  case (Device ws)
  let ?k = "k\<lparr>intr_on := False, in_external_intr := True, yield_on_return := False\<rparr>"
  obtain k1 where k1: "device_handler ws ?k = Some k1"
    "(if yield_on_return k1 then thread_yield (push_frames [IntrSetLevel True] (k1\<lparr>in_external_intr := False\<rparr>))
      else Some (k1\<lparr>in_external_intr := False, intr_on := True\<rparr>)) = Some k'"
    using Device(2) by (auto simp: intr_handler_def bind_eq_Some_conv Let_def)
  have m: "mid_step ?k" using sched_mid [OF assms(2) Device(1)] by (simp add: mid_step_def core_defs one_running_def)
  have w: "same_life ?k k1" "holder k1 = holder k" "\<And>l. semas k1 (LockSema l) = semas k (LockSema l)"
    using device_effect [OF k1(1) _ m] by simp_all
  have cm: "calm (current k1) k1 k'" by (rule calm_intr_end [OF k1(2)])
  have "same_life k k1" using w(1) by (simp add: same_life_def)
  then have "orderly k k'" using cm by (rule same_life_orderly)
  moreover have "holder k' = holder k" "\<And>l. at_rest l k' = at_rest l k"
    using cm w(2,3) by (simp_all add: calm_def at_rest_def)
  moreover have "same_frames k k'" by (rule intr_handler_same [OF Device(2) device_same])
  ultimately show ?thesis using lock_intr assms(2,4,5) by blast
qed

lemma boot_lock_inv: "thread_init main idle_page mlfqs junk = Some k \<Longrightarrow> lock_inv k"
  by (auto simp: thread_init_def init_thread_def lock_init_def sema_init_def Let_def lock_inv_def tokens_def
      at_rest_def in_transit_def no_taking_def no_down_def no_drop_def main_frames_def split: if_splits)

lemma boot_tid_lock: "thread_init main idle_page mlfqs junk = Some k \<Longrightarrow> tokens tid_lock k = 1"
  by (auto simp: thread_init_def init_thread_def lock_init_def sema_init_def Let_def tokens_def
      at_rest_def in_transit_def no_down_def main_frames_def split: if_splits)

lemma boot_wake_ok: "thread_init main idle_page mlfqs junk = Some k \<Longrightarrow> wake_ok k"
  by (auto simp: thread_init_def init_thread_def lock_init_def sema_init_def Let_def wake_ok_def split: if_splits)

section \<open>Reachable states\<close>

lemma reachable_sync: "reachable k \<Longrightarrow> lock_inv k \<and> wake_ok k"
proof (induction rule: reachable.induct)
  case (Boot main idle_page mlfqs junk k)
  then show ?case using boot_lock_inv boot_wake_ok by blast
next
  case (Step k k')
  have i: "sched_inv k" "stack_inv k" using reachable_kernel_inv [OF Step(1)] by (simp_all add: kernel_inv_def)
  have "kernel_inv k'" by (rule reachable_kernel_inv [OF reachable.Step [OF Step(1,2)]])
  then have f: "finite (pages k')" by (simp add: kernel_inv_def sched_inv_def core_def)
  show ?case using lock_kstep [OF Step(2) i _ f] wake_kstep [OF Step(2) i(1) _ f] Step.IH
    unfolding lock_keep_def by blast
qed

text \<open>The states in which the lock \<open>l\<close> has been initialised: \<open>tid_lock\<close> by \<open>thread_init\<close>, others by a call.\<close>

inductive lock_ready :: "nat \<Rightarrow> kernel \<Rightarrow> bool" where
  Boot: "thread_init main idle_page mlfqs junk = Some k \<Longrightarrow> lock_ready tid_lock k"
| Init: "reachable k \<Longrightarrow> frames (thr k (current k)) = [] \<Longrightarrow> call_ok (CallLockInit l) k \<Longrightarrow> lock_ready l (lock_init l k)"
| Step: "lock_ready l k \<Longrightarrow> kstep k k' \<Longrightarrow> lock_ready l k'"

lemma lock_ready_reachable: "lock_ready l k \<Longrightarrow> reachable k"
proof (induction rule: lock_ready.induct)
  case (Init k l)
  have "kstep k (lock_init l k)" by (rule kstep.Call [OF Init(2,3)]) simp
  then show ?case by (rule reachable.Step [OF Init(1)])
qed (blast intro: reachable.Boot reachable.Step)+

lemma reachable_step: 
  assumes "reachable k" "kstep k k'"
  shows "lock_keep k k'"
proof -
  have i: "sched_inv k" "stack_inv k" using reachable_kernel_inv [OF assms(1)] by (simp_all add: kernel_inv_def)
  have "finite (pages k')" using reachable_kernel_inv [OF reachable.Step [OF assms]]
    by (simp add: kernel_inv_def sched_inv_def core_def)
  then show ?thesis using lock_kstep [OF assms(2) i] reachable_sync [OF assms(1)] by blast
qed

lemma lock_ready_token: "lock_ready l k \<Longrightarrow> tokens l k = 1"
proof (induction rule: lock_ready.induct)
  case (Boot main idle_page mlfqs junk k)
  then show ?case by (rule boot_tid_lock)
next
  case (Init k l)
  then show ?case using lock_init_tokens [of k l] reachable_sync [OF Init(1)] by simp
next
  case (Step l k k')
  have "lock_keep k k'" by (rule reachable_step [OF lock_ready_reachable [OF Step(1)] Step(2)])
  then have "tokens l k \<le> tokens l k'" "tokens l k' \<le> 1" by (simp_all add: lock_keep_def lock_inv_def)
  then show ?case using Step.IH by simp
qed

end
