(* ===== verification/KernelProps.thy ===== *)
theory KernelProps
  imports KernelLock
begin

text \<open>
  What the scheduler, the timer and the synchronization primitives promise, and where they do
  not keep to it. The witnesses start the kernel: \<open>booted n\<close> is the state after the first
  \<open>n\<close> frames from \<open>thread_init\<close> on, with the initial thread at page 100 and the idle thread
  at page 200.
\<close>

section \<open>Totality of the timer interrupt\<close>

lemma core_current: "core X k \<Longrightarrow> one_running k \<Longrightarrow> current k \<in> pages k \<and> status (thr k (current k)) = THREAD_RUNNING"
  by (simp add: core_def one_running_def)

text \<open>The threads of \<open>ts\<close> whose time has come.\<close>

definition due :: "int \<Rightarrow> addr list \<Rightarrow> kernel \<Rightarrow> addr set" where
  "due now ts k = {t \<in> set ts. awake (thr k t) \<le> now}"

lemma filter_remove1: "distinct xs \<Longrightarrow> filter P (remove1 x xs) = filter (\<lambda>y. y \<noteq> x \<and> P y) xs"
  by (induction xs) (auto intro: filter_cong)

lemma thread_ticks_upd [simp]: "thread_ticks (upd_thread t g k) = thread_ticks k"
  by (simp add: upd_thread_def)

lemma awake_loop_spec:
  assumes "distinct ts" "distinct (sleep_list k)" "\<forall>t\<in>set ts. t \<in> pages k \<and> status (thr k t) = THREAD_BLOCKED"
  shows "\<exists>k'. awake_loop now ts k = Some k' \<and>
    sleep_list k' = filter (\<lambda>t. t \<notin> due now ts k) (sleep_list k) \<and>
    set (ready_list k') = set (ready_list k) \<union> due now ts k \<and>
    pages k' = pages k \<and> current k' = current k \<and> thread_ticks k' = thread_ticks k \<and>
    yield_on_return k' = yield_on_return k \<and> idle_thread k' = idle_thread k \<and> ticks k' = ticks k \<and>
    (\<forall>t. thr k' t = (if t \<in> due now ts k then (thr k t)\<lparr>status := THREAD_READY\<rparr> else thr k t))"
  using assms
proof (induction ts arbitrary: k)
  case Nil
  then show ?case by (simp add: due_def)
next
  case (Cons t ts)
  show ?case
  proof (cases "awake (thr k t) \<le> now")
    case False
    then have "due now (t # ts) k = due now ts k" by (auto simp: due_def)
    then show ?thesis using Cons False by auto
  next
    case True
    define k1 where "k1 = upd_thread t (status_update (\<lambda>_. THREAD_READY))
      (k\<lparr>sleep_list := remove1 t (sleep_list k), ready_list := insert_ordered (cmp_priority (k\<lparr>sleep_list := remove1 t (sleep_list k)\<rparr>)) t (ready_list k)\<rparr>)"
    have u: "thread_unblock t (k\<lparr>sleep_list := remove1 t (sleep_list k)\<rparr>) = Some k1"
      using Cons.prems(3) by (simp add: thread_unblock_def Let_def k1_def is_thread_def)
    have th: "thr k1 v = (if v = t then (thr k t)\<lparr>status := THREAD_READY\<rparr> else thr k v)" for v
      by (simp add: k1_def)
    have d: "due now ts k1 = due now ts k" using Cons.prems(1) by (auto simp: due_def th)
    have d': "due now (t # ts) k = insert t (due now ts k)" using True by (auto simp: due_def)
    have nt: "t \<notin> due now ts k" using Cons.prems(1) by (simp add: due_def)
    have "distinct (sleep_list k1)" using Cons.prems(2) by (simp add: k1_def)
    moreover have "\<forall>u\<in>set ts. u \<in> pages k1 \<and> status (thr k1 u) = THREAD_BLOCKED"
      using Cons.prems(1,3) by (auto simp: th) (simp add: k1_def)
    ultimately obtain k' where k': "awake_loop now ts k1 = Some k'"
      "sleep_list k' = filter (\<lambda>v. v \<notin> due now ts k) (sleep_list k1)"
      "set (ready_list k') = set (ready_list k1) \<union> due now ts k"
      "pages k' = pages k1" "current k' = current k1" "thread_ticks k' = thread_ticks k1"
      "yield_on_return k' = yield_on_return k1" "idle_thread k' = idle_thread k1" "ticks k' = ticks k1"
      "\<forall>v. thr k' v = (if v \<in> due now ts k then (thr k1 v)\<lparr>status := THREAD_READY\<rparr> else thr k1 v)"
      using Cons.IH [of k1] Cons.prems(1) unfolding d by auto
    have "sleep_list k' = filter (\<lambda>v. v \<notin> due now (t # ts) k) (sleep_list k)"
      using k'(2) filter_remove1 [OF Cons.prems(2)] by (auto simp: k1_def d' intro: filter_cong)
    moreover have "set (ready_list k') = set (ready_list k) \<union> due now (t # ts) k"
      using k'(3) by (auto simp: k1_def d' set_insert_ordered)
    moreover have "pages k' = pages k" "current k' = current k" "thread_ticks k' = thread_ticks k"
      "yield_on_return k' = yield_on_return k" "idle_thread k' = idle_thread k" "ticks k' = ticks k"
      using k'(4-9) by (simp_all add: k1_def)
    moreover have "\<forall>v. thr k' v = (if v \<in> due now (t # ts) k then (thr k v)\<lparr>status := THREAD_READY\<rparr> else thr k v)"
      using k'(10) nt by (auto simp: th d')
    ultimately show ?thesis using u k'(1) True by auto
  qed
qed

lemma yield_total:
  assumes "core {} k" "one_running k" "\<not> in_external_intr k"
  shows "\<exists>k'. thread_yield k = Some k' \<and> thread_ticks k' = 0 \<and>
    (if idle_thread k = Some (current k) then
       (case ready_list k of [] \<Rightarrow> current k' = current k \<and> ready_list k' = [] | t # ts \<Rightarrow> current k' = t \<and> ready_list k' = ts)
     else current k' # ready_list k' = insert_ordered (cmp_priority k) (current k) (ready_list k))"
proof -
  note c = core_current [OF assms(1,2)]
  define k1 where "k1 = (push_frames [IntrSetLevel (intr_on k)] k)\<lparr>intr_on := False\<rparr>"
  define k2 where "k2 = (if Some (current k) \<noteq> idle_thread k
    then k1\<lparr>ready_list := insert_ordered (cmp_priority k1) (current k) (ready_list k1)\<rparr> else k1)"
  define k3 where "k3 = upd_thread (current k) (status_update (\<lambda>_. THREAD_READY))
    (k2\<lparr>pages := pages k - set (destruction_req k), destruction_req := []\<rparr>)"
  have cp: "cmp_priority k1 = cmp_priority k" by (auto simp: cmp_priority_def k1_def fun_eq_iff)
  have rk1: "ready_list k1 = ready_list k" by (simp add: k1_def)
  have f2: "current k2 = current k" "pages k2 = pages k" "destruction_req k2 = destruction_req k" "\<not> intr_on k2"
    "status (thr k2 (current k)) = THREAD_RUNNING" "idle_thread k2 = idle_thread k"
    using c by (auto simp: k2_def k1_def)
  have nd: "t \<notin> set (destruction_req k)" if "t = current k \<or> t \<in> set (ready_list k)" for t
    using assms(1) that by (auto simp: core_def dying_ok_def ready_ok_def)
  have "thread_current k = Some (current k)" using c by simp
  then have y1: "thread_yield k = do_schedule THREAD_READY k2"
    using assms(3) by (simp add: thread_yield_def Let_def k2_def k1_def del: thread_current_Some)
  have "thread_current k2 = Some (current k)"
    "thread_current (k2\<lparr>pages := pages k - set (destruction_req k), destruction_req := []\<rparr>) = Some (current k)"
    using c f2 nd [of "current k"] by simp_all
  then have y: "thread_yield k = schedule k3"
    using f2(2-4) by (simp add: y1 do_schedule_def k3_def del: thread_current_Some)
  have r2: "ready_list k3 = (if idle_thread k = Some (current k) then ready_list k
      else insert_ordered (cmp_priority k) (current k) (ready_list k))"
    by (auto simp: k3_def k2_def cp rk1)
  have p3: "pages k3 = pages k - set (destruction_req k)" "current k3 = current k" "\<not> intr_on k3"
    "status (thr k3 (current k)) \<noteq> THREAD_RUNNING" "idle_thread k3 = idle_thread k" using f2 by (simp_all add: k3_def)
  have rp: "t \<in> pages k3" if "t = current k \<or> t \<in> set (ready_list k)" for t
    using that nd [OF that] c assms(1) by (auto simp: p3 core_def ready_ok_def)
  have sw: "ready_list (switch_to n x) = ready_list x" "current (switch_to n x) = n" "thread_ticks (switch_to n x) = 0" for n x
    by (simp_all add: switch_to_def Let_def upd_thread_def)
  show ?thesis
  proof (cases "ready_list k3")
    case Nil
    then have i: "idle_thread k = Some (current k)" "ready_list k = []"
      using r2 set_insert_ordered [of "cmp_priority k" "current k" "ready_list k"] by (auto split: if_splits)
    then have "schedule k3 = Some (switch_to (current k) k3)"
      using p3 rp [of "current k"] Nil by (simp add: schedule_Some next_thread_to_run_def)
    then show ?thesis using y i Nil by (simp add: sw)
  next
    case (Cons t ts)
    then have "t \<in> set (ready_list k3)" by simp
    then have "t = current k \<or> t \<in> set (ready_list k)" using r2 by (auto simp: set_insert_ordered split: if_splits)
    then have "schedule k3 = Some (switch_to t (k3\<lparr>ready_list := ts\<rparr>))"
      using p3 rp [of t] Cons by (simp add: schedule_Some next_thread_to_run_def)
    then show ?thesis using y Cons r2 by (auto simp: sw)
  qed
qed


text \<open>The state in which \<open>intr_handler\<close> runs the handler of an external interrupt.\<close>

definition in_handler :: "kernel \<Rightarrow> kernel" where
  "in_handler k = k\<lparr>intr_on := False, in_external_intr := True, yield_on_return := False\<rparr>"

lemma in_handler_simps [simp]:
  "semas (in_handler k) = semas k" "destruction_req (in_handler k) = destruction_req k"
  "thr (in_handler k) = thr k" "pages (in_handler k) = pages k" "sleep_list (in_handler k) = sleep_list k"
  "ready_list (in_handler k) = ready_list k" "current (in_handler k) = current k" "ticks (in_handler k) = ticks k"
  "all_list (in_handler k) = all_list k" "intq_waiter (in_handler k) = intq_waiter k"
  "thread_ticks (in_handler k) = thread_ticks k" "idle_thread (in_handler k) = idle_thread k"
  "\<not> yield_on_return (in_handler k)" "in_external_intr (in_handler k)" "thread_mlfqs (in_handler k) = thread_mlfqs k"
  by (simp_all add: in_handler_def)

text \<open>What the recalculations of the multi-level feedback queue leave alone.\<close>

definition same_clock :: "kernel \<Rightarrow> kernel \<Rightarrow> bool" where
  "same_clock k k' \<longleftrightarrow> tame k k' \<and> thread_ticks k' = thread_ticks k \<and> yield_on_return k' = yield_on_return k \<and>
     ticks k' = ticks k \<and> (\<forall>t. awake (thr k' t) = awake (thr k t))"

lemma same_clock_refl [simp]: "same_clock k k"
  by (simp add: same_clock_def)

lemma same_clock_trans: "same_clock k k1 \<Longrightarrow> same_clock k1 k2 \<Longrightarrow> same_clock k k2"
  by (auto simp: same_clock_def intro: tame_trans)

lemma same_clock_upd:
  "(\<And>x. status (g x) = status x) \<Longrightarrow> (\<And>x. frames (g x) = frames x) \<Longrightarrow> (\<And>x. awake (g x) = awake x) \<Longrightarrow>
   same_clock k (upd_thread t g k)"
  by (simp add: same_clock_def)

lemma same_clock_fold: "(\<And>t k. same_clock k (g t k)) \<Longrightarrow> same_clock k (fold g ts k)"
  by (induction ts arbitrary: k) (auto intro: same_clock_trans)

lemma same_clock_calculate:
  "same_clock k (calculate_priority t k)" "same_clock k (calculate_recent_cpu k)" "same_clock k (calculate_load_avg k)"
proof -
  show "same_clock k (calculate_priority t k)" "same_clock k (calculate_recent_cpu k)"
    by (simp_all add: calculate_priority_def calculate_recent_cpu_def same_clock_upd)
  have "tame k (calculate_load_avg k)"
    by (rule tameI [where gs = "[]"]) (simp_all add: calculate_load_avg_def Let_def quiet_def)
  then show "same_clock k (calculate_load_avg k)" by (simp add: same_clock_def calculate_load_avg_def Let_def)
qed

lemma same_clock_all: "same_clock k k' \<Longrightarrow> all_list k' = all_list k"
  by (auto simp: same_clock_def tame_def quiet_def)

lemma timer_mlfqs_total:
  assumes "all_list k \<noteq> []"
  shows "\<exists>k'. timer_mlfqs k = Some k' \<and> same_clock k k'"
proof -
  let ?c = "calculate_recent_cpu k"
  let ?p = "fold calculate_priority (all_list ?c) ?c"
  have c: "same_clock k ?c" by (rule same_clock_calculate)
  have p: "same_clock k ?p" by (rule same_clock_trans [OF c same_clock_fold]) (rule same_clock_calculate)
  have l: "same_clock k (calculate_load_avg ?p)" by (rule same_clock_trans [OF p same_clock_calculate(3)])
  have r: "same_clock k (fold (\<lambda>t k. upd_thread t
       (\<lambda>th. th\<lparr>recent_cpu := mlfqs_recent_cpu (load_avg k) (recent_cpu th) (nice th)\<rparr>) k) ts (calculate_load_avg ?p))" for ts
    by (rule same_clock_trans [OF l same_clock_fold]) (rule same_clock_upd; simp)
  show ?thesis
    using assms c p r same_clock_all [OF c] same_clock_all [OF l]
    by (simp add: timer_mlfqs_def Let_def recalculate_priority_def recalculate_recent_cpu_def)
qed

lemma timer_total:
  assumes "mid_step k"
  shows "\<exists>k'. timer_interrupt (in_handler k) = Some k' \<and> mid_step k' \<and> current k' = current k \<and>
    idle_thread k' = idle_thread k \<and>
    thread_ticks k' = Suc (thread_ticks k) \<and> yield_on_return k' = (thread_ticks k \<ge> 3) \<and> ticks k' = ticks k + 1 \<and>
    sleep_list k' = filter (\<lambda>t. t \<notin> due (ticks k + 1) (sleep_list k) k) (sleep_list k) \<and>
    set (ready_list k') = set (ready_list k) \<union> due (ticks k + 1) (sleep_list k) k"
proof -
  have c: "core {} k" "one_running k" using assms(1) by (simp_all add: mid_step_def)
  note cur = core_current [OF c]
  have m: "mid_step (in_handler k)" using assms(1) by (simp add: mid_step_def core_defs one_running_def)
  have al: "current k \<in> set (all_list k)" using c(1) cur by (auto simp: core_def all_ok_def)
  obtain k1 where k1: "thread_tick ((in_handler k)\<lparr>ticks := ticks k + 1\<rparr>) = Some k1"
    "thr k1 = thr k" "pages k1 = pages k" "sleep_list k1 = sleep_list k" "ready_list k1 = ready_list k"
    "current k1 = current k" "thread_ticks k1 = Suc (thread_ticks k)" "yield_on_return k1 = (thread_ticks k \<ge> 3)"
    "ticks k1 = ticks k + 1" "idle_thread k1 = idle_thread k" "all_list k1 = all_list k"
    using cur by (auto simp: thread_tick_def thread_current_bind thread_current_def is_thread_def Let_def)
  obtain k2 where k2: "(if thread_mlfqs k1 then timer_mlfqs k1 else Some k1) = Some k2" "same_clock k1 k2"
  proof (cases "thread_mlfqs k1")
    case True
    have "all_list k1 \<noteq> []" using al k1(11) by (cases "all_list k") auto
    then show ?thesis using timer_mlfqs_total [of k1] that True by auto
  qed (use that in auto)
  have e: "pages k2 = pages k" "sleep_list k2 = sleep_list k" "ready_list k2 = ready_list k" "current k2 = current k"
    "idle_thread k2 = idle_thread k" "\<And>t. status (thr k2 t) = status (thr k t)" "\<And>t. awake (thr k2 t) = awake (thr k t)"
    "thread_ticks k2 = Suc (thread_ticks k)" "yield_on_return k2 = (thread_ticks k \<ge> 3)" "ticks k2 = ticks k + 1"
    using k2(2) k1 by (auto simp: same_clock_def tame_def quiet_def)
  have "\<forall>t\<in>set (sleep_list k2). t \<in> pages k2 \<and> status (thr k2 t) = THREAD_BLOCKED"
    using sleep_top [OF c(1)] by (simp add: e)
  moreover have "distinct (sleep_list k2)" using core_distinct(2) [OF c(1)] by (simp add: e)
  ultimately obtain k' where k': "awake_loop (ticks k2) (sleep_list k2) k2 = Some k'"
    "sleep_list k' = filter (\<lambda>t. t \<notin> due (ticks k2) (sleep_list k2) k2) (sleep_list k2)"
    "set (ready_list k') = set (ready_list k2) \<union> due (ticks k2) (sleep_list k2) k2"
    "current k' = current k2" "thread_ticks k' = thread_ticks k2"
    "yield_on_return k' = yield_on_return k2" "idle_thread k' = idle_thread k2" "ticks k' = ticks k2"
    using awake_loop_spec [of "sleep_list k2" k2 "ticks k2"] by auto
  have t: "timer_interrupt (in_handler k) = Some k'"
    using k1(1) k2(1) k'(1) by (simp add: timer_interrupt_def thread_awake_def)
  have d: "due (ticks k2) (sleep_list k2) k2 = due (ticks k + 1) (sleep_list k) k" by (simp add: due_def e)
  show ?thesis using t k'(2-) timer_mid [OF m t] unfolding d by (simp add: e)
qed


section \<open>Starting the kernel\<close>

fun run_frames :: "nat \<Rightarrow> kernel \<Rightarrow> kernel option" where
  "run_frames 0 k = Some k"
| "run_frames (Suc n) k =
     (case frames (thr k (current k)) of
        [] \<Rightarrow> None
      | fr # fs \<Rightarrow> if frame_ok fr k then Option.bind (exec_frame fr (pop_frame k)) (run_frames n) else None)"

definition boot :: "nat \<Rightarrow> kernel option" where
  "boot n = Option.bind (thread_init 100 200 False (\<lambda>_. 0)) (run_frames n)"

definition booted :: "nat \<Rightarrow> kernel" where
  "booted n = the (boot n)"

lemma run_frames_reachable: "run_frames n k = Some k' \<Longrightarrow> reachable k \<Longrightarrow> reachable k'"
proof (induction n arbitrary: k)
  case (Suc n)
  then obtain fr fs k1 where f: "frames (thr k (current k)) = fr # fs" "frame_ok fr k"
    "exec_frame fr (pop_frame k) = Some k1" "run_frames n k1 = Some k'"
    by (auto simp: bind_eq_Some_conv split: list.splits if_splits)
  then show ?case using Suc.IH reachable.Step [OF Suc.prems(2) kstep.Frame] by blast
qed simp

lemma reachable_booted: "\<not> Option.is_none (boot n) \<Longrightarrow> reachable (booted n)"
  by (cases "boot n") (auto simp: booted_def boot_def bind_eq_Some_conv intro: reachable.Boot run_frames_reachable)

lemma boot_facts:
  "let b = boot 19; k = the b in (Option.is_none b, current k, take 1 (frames (thr k 100))) = (False, 100, [LockSetHolder 0])"
  "let b = boot 33; k = the b in (Option.is_none b, current k, waiters (semas k (StackSema 100)), pages k) =
     (False, 200, [100], {200, 100})"
  "let b = boot 38; k = the b in (Option.is_none b, current k, frames (thr k 100), intr_on k, thread_mlfqs k, ticks k, thread_ticks k) =
     (False, 100, [], True, False, 0, 0)"
  by code_simp+

lemma booted_facts:
  "reachable (booted 19)" "current (booted 19) = 100" "take 1 (frames (thr (booted 19) 100)) = [LockSetHolder 0]"
  "reachable (booted 33)" "current (booted 33) = 200" "waiters (semas (booted 33) (StackSema 100)) = [100]"
  "pages (booted 33) = {200, 100}"
  "reachable (booted 38)" "current (booted 38) = 100" "frames (thr (booted 38) 100) = []" "intr_on (booted 38)"
  "\<not> thread_mlfqs (booted 38)" "ticks (booted 38) = 0" "thread_ticks (booted 38) = 0"
  using boot_facts by (simp_all add: booted_def Let_def reachable_booted [unfolded booted_def])

section \<open>The scheduler\<close>

text \<open>
  C1: In every state the kernel can reach, whatever the interleaving of threads, timer and
  device interrupts: exactly the current thread is running; the ready list holds each ready
  thread once and nothing else, the idle thread apart; every blocked thread is asleep, waits for
  a semaphore, waits for an interrupt queue, is the idle thread or has not started; a thread
  waiting for an interrupt queue is blocked and waits in one field only; and the element \<open>elem\<close>
  of a thread is linked at most once into one of the ready list, the sleep list, the lists of
  waiters and the list of threads to destroy, and into none of them while the thread waits for
  an interrupt queue. (The elements \<open>d_elem\<close> and \<open>child_elem\<close> are not the subject.)
\<close>

theorem scheduler_invariant:
  assumes "reachable k"
  shows "current k \<in> pages k \<and> (\<forall>t\<in>pages k. status (thr k t) = THREAD_RUNNING \<longleftrightarrow> t = current k) \<and>
    distinct (ready_list k) \<and>
    (\<forall>t. t \<in> set (ready_list k) \<longleftrightarrow> t \<in> pages k \<and> status (thr k t) = THREAD_READY \<and> idle_thread k \<noteq> Some t) \<and>
    (\<forall>t\<in>pages k. status (thr k t) = THREAD_BLOCKED \<longrightarrow> t \<in> set (sleep_list k) \<or> (\<exists>s. t \<in> set (waiters (semas k s))) \<or>
       (\<exists>w. intq_waiter k w = Some t) \<or> idle_thread k = Some t \<or> (\<exists>fs. frames (thr k t) = KernelThread # fs)) \<and>
    (\<forall>t w. intq_waiter k w = Some t \<longrightarrow> t \<in> pages k \<and> status (thr k t) = THREAD_BLOCKED \<and>
       t \<notin> set (sleep_list k) \<and> (\<forall>s. t \<notin> set (waiters (semas k s))) \<and> (\<forall>v. intq_waiter k v = Some t \<longrightarrow> v = w)) \<and>
    distinct (sleep_list k) \<and> (\<forall>s. distinct (waiters (semas k s))) \<and> distinct (destruction_req k) \<and>
    (\<forall>t s. t \<in> set (waiters (semas k s)) \<longrightarrow> t \<notin> set (ready_list k) \<and> t \<notin> set (sleep_list k) \<and>
       (\<forall>r. t \<in> set (waiters (semas k r)) \<longrightarrow> r = s)) \<and>
    (\<forall>t\<in>set (sleep_list k). t \<notin> set (ready_list k)) \<and>
    (\<forall>t\<in>set (destruction_req k). t \<notin> set (ready_list k) \<and> t \<notin> set (sleep_list k) \<and>
       (\<forall>s. t \<notin> set (waiters (semas k s))))"
proof -
  have c: "core {} k" "one_running k"
    using reachable_kernel_inv [OF assms] by (simp_all add: kernel_inv_def sched_inv_def)
  have w: "t \<notin> set (ready_list k) \<and> t \<notin> set (sleep_list k) \<and> (\<forall>r. t \<in> set (waiters (semas k r)) \<longrightarrow> r = s)"
    if "t \<in> set (waiters (semas k s))" for t s
  proof (intro conjI allI impI)
    note t = waiters_top [OF c(1) that]
    show "t \<notin> set (ready_list k)" using t c(1) by (auto simp: core_def ready_ok_def)
    show "t \<notin> set (sleep_list k)" using t sleep_top [OF c(1), of t] by auto
    show "r = s" if "t \<in> set (waiters (semas k r))" for r using waiters_top [OF c(1) that] t by auto
  qed
  have sl: "t \<notin> set (ready_list k)" if "t \<in> set (sleep_list k)" for t
    using sleep_top [OF c(1) that] c(1) by (auto simp: core_def ready_ok_def)
  have iq: "t \<in> pages k \<and> status (thr k t) = THREAD_BLOCKED \<and> t \<notin> set (sleep_list k) \<and>
      (\<forall>s. t \<notin> set (waiters (semas k s))) \<and> (\<forall>v. intq_waiter k v = Some t \<longrightarrow> v = w)"
    if "intq_waiter k w = Some t" for t w
  proof (intro conjI allI impI)
    note t = intq_top [OF c(1) that]
    show "t \<notin> set (sleep_list k)" "t \<notin> set (waiters (semas k s))" for s
      using t sleep_top [OF c(1), of t] waiters_top [OF c(1), of t s] by auto
    show "v = w" if "intq_waiter k v = Some t" for v using intq_top [OF c(1) that] t by auto
  qed (use intq_top [OF c(1) that] in auto)
  have "status (thr k t) = THREAD_DYING" if "t \<in> set (destruction_req k)" for t
    using c(1) that by (auto simp: core_def dying_ok_def)
  then have dy: "t \<notin> set (ready_list k) \<and> t \<notin> set (sleep_list k) \<and> (\<forall>s. t \<notin> set (waiters (semas k s)))"
    if "t \<in> set (destruction_req k)" for t
    using that c(1) sleep_top [OF c(1), of t] waiters_top [OF c(1), of t] by (auto simp: core_def ready_ok_def)
  have "distinct (destruction_req k)" using c(1) by (simp add: core_def dying_ok_def)
  then show ?thesis
    using c w sl iq dy core_distinct [OF c(1)] core_current [OF c]
    unfolding core_def ready_ok_def blocked_ok_def one_running_def by simp
qed

theorem scheduler_invariant_witness:
  "current (booted 33) = 200 \<and> waiters (semas (booted 33) (StackSema 100)) = [100] \<and>
   100 \<notin> set (ready_list (booted 33)) \<and> 100 \<notin> set (sleep_list (booted 33)) \<and>
   100 \<notin> set (destruction_req (booted 33)) \<and> (\<forall>w. intq_waiter (booted 33) w \<noteq> Some 100)"
proof -
  have "100 \<in> set (waiters (semas (booted 33) (StackSema 100)))" by (simp add: booted_facts)
  then show ?thesis using scheduler_invariant [OF booted_facts(4)] booted_facts(5,6) by blast
qed



text \<open>
  C7: \<open>thread_awake\<close> wakes exactly the sleepers whose time has come: in every reachable state it
  succeeds, takes them off the sleep list and puts them on the ready list, and leaves the other
  sleepers in their order and every other thread alone.
\<close>

theorem alarm_wakes_due:
  assumes "reachable k"
  shows "\<exists>k'. thread_awake now k = Some k' \<and>
    sleep_list k' = filter (\<lambda>t. now < awake (thr k t)) (sleep_list k) \<and>
    set (ready_list k') = set (ready_list k) \<union> {t \<in> set (sleep_list k). awake (thr k t) \<le> now} \<and>
    (\<forall>t. thr k' t = (if t \<in> set (sleep_list k) \<and> awake (thr k t) \<le> now
                     then (thr k t)\<lparr>status := THREAD_READY\<rparr> else thr k t))"
proof -
  have c: "core {} k" using reachable_kernel_inv [OF assms] by (simp add: kernel_inv_def sched_inv_def)
  have "\<forall>t\<in>set (sleep_list k). t \<in> pages k \<and> status (thr k t) = THREAD_BLOCKED" using sleep_top [OF c] by blast
  then obtain k' where k': "awake_loop now (sleep_list k) k = Some k'"
    "sleep_list k' = filter (\<lambda>t. t \<notin> due now (sleep_list k) k) (sleep_list k)"
    "set (ready_list k') = set (ready_list k) \<union> due now (sleep_list k) k"
    "\<forall>t. thr k' t = (if t \<in> due now (sleep_list k) k then (thr k t)\<lparr>status := THREAD_READY\<rparr> else thr k t)"
    using awake_loop_spec [OF core_distinct(2) [OF c] core_distinct(2) [OF c], of now] by blast
  have "filter (\<lambda>t. t \<notin> due now (sleep_list k) k) (sleep_list k) = filter (\<lambda>t. now < awake (thr k t)) (sleep_list k)"
    by (rule filter_cong) (auto simp: due_def)
  then show ?thesis using k' by (auto simp: thread_awake_def due_def)
qed

text \<open>The initial thread goes to sleep for five ticks; its time comes at tick five.\<close>

definition asleep :: "kernel option" where
  "asleep = do { k \<leftarrow> exec_call (CallSleep 5) (booted 38); exec_frame (ThreadSleep 5) (pop_frame k) }"

lemma asleep_reachable: "\<exists>k. asleep = Some k \<and> reachable k \<and> sleep_list k = [100] \<and> awake (thr k 100) = 5"
proof -
  let ?b = "booted 38"
  have a: "let a = asleep; k = the a in (Option.is_none a, sleep_list k, awake (thr k 100)) = (False, [100], 5)"
    by code_simp
  then have b: "frames (thr ?b (current ?b)) = []" "\<not> Option.is_none asleep" "sleep_list (the asleep) = [100]"
    "awake (thr (the asleep) 100) = 5" "ticks ?b = 0"
    by (simp_all add: Let_def booted_facts)
  obtain k where k: "asleep = Some k" using b(2) by (cases asleep) auto
  obtain k1 where k1: "exec_call (CallSleep 5) ?b = Some k1" "exec_frame (ThreadSleep 5) (pop_frame k1) = Some k"
    using k by (auto simp: asleep_def bind_eq_Some_conv)
  have "kstep ?b k1" by (rule kstep.Call [OF b(1) _ k1(1)]) simp
  then have r: "reachable k1" by (rule reachable.Step [OF booted_facts(8)])
  have f: "frames (thr k1 (current k1)) = [ThreadSleep 5]" using k1(1) b(1,5) by (auto simp: timer_sleep_def)
  have "kstep k1 k" by (rule kstep.Frame [OF f _ k1(2)]) simp
  then have "reachable k" by (rule reachable.Step [OF r])
  moreover have "sleep_list k = [100]" "awake (thr k 100) = 5" using b(3,4) unfolding k by simp_all
  ultimately show ?thesis using k by blast
qed

theorem alarm_wakes_due_witness:
  "\<exists>k k' k''. asleep = Some k \<and> thread_awake 4 k = Some k' \<and> sleep_list k' = [100] \<and>
    thread_awake 5 k = Some k'' \<and> sleep_list k'' = [] \<and> status (thr k'' 100) = THREAD_READY"
proof -
  obtain k where k: "asleep = Some k" "reachable k" "sleep_list k = [100]" "awake (thr k 100) = 5"
    using asleep_reachable by blast
  then show ?thesis using alarm_wakes_due [OF k(2), of 4] alarm_wakes_due [OF k(2), of 5] by auto
qed

lemma sorted_takeWhile:
  "sorted_wrt (\<lambda>a b. key b \<le> key a) xs \<Longrightarrow> takeWhile (\<lambda>x. (p :: int) \<le> key x) xs = filter (\<lambda>x. p \<le> key x) xs \<and>
    dropWhile (\<lambda>x. p \<le> key x) xs = filter (\<lambda>x. key x < p) xs"
proof (induction xs)
  case (Cons x xs)
  show ?case
  proof (cases "p \<le> key x")
    case False
    then have "\<forall>y\<in>set xs. key y < p" using Cons.prems by force
    then have "filter (\<lambda>y. p \<le> key y) xs = []" "filter (\<lambda>y. key y < p) xs = xs" by (auto simp: filter_empty_conv filter_id_conv)
    then show ?thesis using False by simp
  qed (use Cons in auto)
qed simp

text \<open>
  C26: Unblocking a thread puts it into the ready list, whatever the order of the list, directly
  before the first thread of lower priority, makes it ready and changes nothing else. If the list is in
  the order of priorities it stays so, the thread is behind all those of at least its priority,
  and \<open>next_thread_to_run\<close> takes a thread that no ready thread exceeds. (A donation to a ready
  thread can take the list out of order.)
\<close>

theorem unblock_keeps_order:
  assumes "thread_unblock t k = Some k'"
  shows "ready_list k' = takeWhile (\<lambda>u. priority (thr k t) \<le> priority (thr k u)) (ready_list k) @ t #
      dropWhile (\<lambda>u. priority (thr k t) \<le> priority (thr k u)) (ready_list k) \<and>
    thr k' = (thr k)(t := (thr k t)\<lparr>status := THREAD_READY\<rparr>) \<and>
    k' = k\<lparr>thr := thr k', ready_list := ready_list k'\<rparr> \<and>
    (sorted_wrt (\<lambda>a b. priority (thr k b) \<le> priority (thr k a)) (ready_list k) \<longrightarrow>
       ready_list k' = filter (\<lambda>u. priority (thr k t) \<le> priority (thr k u)) (ready_list k) @ t #
         filter (\<lambda>u. priority (thr k u) < priority (thr k t)) (ready_list k) \<and>
       sorted_wrt (\<lambda>a b. priority (thr k' b) \<le> priority (thr k' a)) (ready_list k') \<and>
       (\<exists>n. snd (next_thread_to_run k') = Some n \<and>
          (\<forall>u\<in>set (ready_list k'). priority (thr k' u) \<le> priority (thr k' n))))"
proof -
  let ?p = "\<lambda>u. priority (thr k u)"
  have r: "ready_list k' = takeWhile (\<lambda>u. ?p t \<le> ?p u) (ready_list k) @ t # dropWhile (\<lambda>u. ?p t \<le> ?p u) (ready_list k)"
    using assms by (auto simp: thread_unblock_def Let_def insert_ordered_def cmp_priority_def not_less)
  have th: "thr k' = (thr k)(t := (thr k t)\<lparr>status := THREAD_READY\<rparr>)"
    using assms by (auto simp: thread_unblock_def Let_def upd_thread_def)
  then have p: "priority (thr k' u) = ?p u" for u by simp
  have rest: "k' = k\<lparr>thr := thr k', ready_list := ready_list k'\<rparr>"
    using assms by (auto simp: thread_unblock_def Let_def upd_thread_def)
  have "ready_list k' = filter (\<lambda>u. ?p t \<le> ?p u) (ready_list k) @ t # filter (\<lambda>u. ?p u < ?p t) (ready_list k) \<and>
      sorted_wrt (\<lambda>a b. ?p b \<le> ?p a) (ready_list k') \<and>
      (\<exists>n. snd (next_thread_to_run k') = Some n \<and> (\<forall>u\<in>set (ready_list k'). ?p u \<le> ?p n))"
    if s: "sorted_wrt (\<lambda>a b. ?p b \<le> ?p a) (ready_list k)"
  proof -
    have f: "ready_list k' = filter (\<lambda>u. ?p t \<le> ?p u) (ready_list k) @ t # filter (\<lambda>u. ?p u < ?p t) (ready_list k)"
      using r sorted_takeWhile [OF s, of "?p t"] by simp
    have o: "sorted_wrt (\<lambda>a b. ?p b \<le> ?p a) (ready_list k')"
      unfolding f sorted_wrt_append using sorted_wrt_filter [OF s] by fastforce
    have "ready_list k' \<noteq> []" using r by simp
    then obtain n ns where n: "ready_list k' = n # ns" by (cases "ready_list k'") blast+
    then have "\<forall>u\<in>set (ready_list k'). ?p u \<le> ?p n" using o by auto
    moreover have "snd (next_thread_to_run k') = Some n" using n by (simp add: next_thread_to_run_def)
    ultimately show ?thesis using f o by blast
  qed
  then show ?thesis using r th rest unfolding p by blast
qed

definition sample_kernel :: kernel where
  "sample_kernel = (let k = booted 0 in
     k\<lparr>thr := (\<lambda>t. (thr k 100)\<lparr>priority := (if t = 300 then 40 else if t = 400 then 20 else 31),
          status := (if t = 100 then THREAD_RUNNING else if t = 500 then THREAD_BLOCKED else THREAD_READY)\<rparr>),
       pages := {100, 300, 400, 500}, ready_list := [300, 400]\<rparr>)"

theorem unblock_keeps_order_witness:
  "\<exists>k'. thread_unblock 500 sample_kernel = Some k' \<and> ready_list k' = [300, 500, 400]"
proof -
  have b: "\<not> Option.is_none (thread_unblock 500 sample_kernel)" "ready_list sample_kernel = [300, 400]"
    "map (\<lambda>t. priority (thr sample_kernel t)) [300, 400, 500] = [40, 20, 31]"
    by code_simp+
  then obtain k' where k': "thread_unblock 500 sample_kernel = Some k'"
    by (cases "thread_unblock 500 sample_kernel") auto
  have "sorted_wrt (\<lambda>a b. priority (thr sample_kernel b) \<le> priority (thr sample_kernel a)) (ready_list sample_kernel)"
    using b by simp
  with unblock_keeps_order [OF k'] k' b show ?thesis by simp
qed

end
