(* ===== verification/SyncProps.thy ===== *)
theory SyncProps
  imports KernelProps
begin

text \<open>
  What semaphores, locks, condition variables and priority donation promise, and where they do
  not keep to it.
\<close>

section \<open>Semaphores and locks\<close>

text \<open>
  C3: No wake-up is lost: whatever the interleaving, while threads wait for a semaphore its
  value is no larger than the number of threads that have been woken in \<open>sema_down\<close> and are
  about to look at the value again. So a thread is never left waiting although the semaphore
  could be taken and nobody is about to take it.
\<close>

theorem no_lost_wakeup:
  assumes "reachable k" and "waiters (semas k s) \<noteq> []"
  shows "unat (sema_value (semas k s)) \<le> card {t \<in> pages k.
      status (thr k t) \<in> {THREAD_READY, THREAD_RUNNING} \<and> (\<exists>fs. frames (thr k t) = SemaDownLoop s # fs)}"
proof -
  have f: "finite (pages k)" using reachable_kernel_inv [OF assms(1)] by (simp add: kernel_inv_def sched_inv_def core_def)
  have "unat (sema_value (semas k s)) \<le> card (woken k s)"
    using reachable_sync [OF assms(1)] assms(2) by (simp add: wake_ok_def)
  also have "\<dots> \<le> card {t \<in> pages k.
      status (thr k t) \<in> {THREAD_READY, THREAD_RUNNING} \<and> (\<exists>fs. frames (thr k t) = SemaDownLoop s # fs)}"
    by (rule card_mono) (use f in \<open>auto simp: woken_def alive_def\<close>)
  finally show ?thesis .
qed

theorem no_lost_wakeup_witness:
  "waiters (semas (booted 33) (StackSema 100)) \<noteq> [] \<and> sema_value (semas (booted 33) (StackSema 100)) \<le> 2"
proof -
  have w: "waiters (semas (booted 33) (StackSema 100)) \<noteq> []" "pages (booted 33) = {200, 100}" by (simp_all add: booted_facts)
  have "card {t \<in> pages (booted 33). status (thr (booted 33) t) \<in> {THREAD_READY, THREAD_RUNNING} \<and>
      (\<exists>fs. frames (thr (booted 33) t) = SemaDownLoop (StackSema 100) # fs)} \<le> card (pages (booted 33))"
    by (rule card_mono) (auto simp: w(2))
  also have "\<dots> = 2" by (simp add: w(2))
  finally have "unat (sema_value (semas (booted 33) (StackSema 100))) \<le> 2"
    using no_lost_wakeup [OF booted_facts(4) w(1)] by simp
  then show ?thesis using w(1) by (simp add: word_le_nat_alt)
qed

text \<open>
  C2: Mutual exclusion: in every reachable state in which a lock has been initialised the right
  to it exists exactly once: counting 1 for a semaphore that is up, 1 for a holder, and 1 for
  each thread that is between the two steps of taking the lock (the semaphore is down, the holder
  not yet set) or of giving it back (the holder is cleared, the semaphore not yet up), the sum is
  1. So the lock is never lost, and while one thread has it nobody else does. A thread that is
  about to become the holder finds the lock without a holder and its semaphore down, and one that
  is about to give the lock back is its holder.
\<close>

theorem mutual_exclusion:
  assumes "lock_ready l k"
  shows "unat (sema_value (semas k (LockSema l))) + (if holder k l = None then 0 else 1) +
      (\<Sum>t\<in>pages k. in_transit l (main_frames k t)) = 1 \<and>
    sema_value (semas k (LockSema l)) \<le> 1 \<and>
    (holder k l \<noteq> None \<longrightarrow> sema_value (semas k (LockSema l)) = 0) \<and>
    (\<forall>fs. frames (thr k (current k)) = LockSetHolder l # fs \<longrightarrow>
       holder k l = None \<and> sema_value (semas k (LockSema l)) = 0) \<and>
    (\<forall>t\<in>pages k. LockDrop l \<in> set (frames (thr k t)) \<longrightarrow> holder k l = Some t) \<and>
    (\<forall>t\<in>pages k. \<forall>u\<in>pages k. 0 < in_transit l (main_frames k t) \<and> 0 < in_transit l (main_frames k u) \<longrightarrow> t = u)"
proof -
  note reach = lock_ready_reachable [OF assms]
  have i: "lock_inv k" using reachable_sync [OF reach] by simp
  have c: "finite (pages k)" "current k \<in> pages k"
    using reachable_kernel_inv [OF reach] by (simp_all add: kernel_inv_def sched_inv_def core_def)
  have t: "at_rest l k + (\<Sum>t\<in>pages k. in_transit l (main_frames k t)) = 1"
    using lock_ready_token [OF assms] by (simp add: tokens_def)
  then have r: "at_rest l k \<le> 1" by simp
  then have "unat (sema_value (semas k (LockSema l))) \<le> 1" "holder k l \<noteq> None \<Longrightarrow> unat (sema_value (semas k (LockSema l))) = 0"
    by (auto simp: at_rest_def split: if_splits)
  then have v: "sema_value (semas k (LockSema l)) \<le> 1" "holder k l \<noteq> None \<Longrightarrow> sema_value (semas k (LockSema l)) = 0"
    by (simp_all add: word_le_nat_alt unat_eq_0)
  have a: "holder k l = None \<and> sema_value (semas k (LockSema l)) = 0"
    if "frames (thr k (current k)) = LockSetHolder l # fs" for fs
  proof -
    have m: "main_frames k (current k) = LockSetHolder l # filter (\<lambda>f. \<not> is_intr_frame f) fs"
      using that by (simp add: main_frames_def)
    have "shape (main_frames k (current k))" using i c(2) by (simp add: lock_inv_def)
    then have "0 < in_transit l (main_frames k (current k))"
      unfolding m by (auto simp: in_transit_def no_taking_def no_down_def)
    then have "at_rest l k = 0" using lock_inv_tokens [OF i c, of l] by simp
    then show ?thesis by (auto simp: at_rest_def unat_eq_0 split: if_splits)
  qed
  have b: "holder k l = Some t" if "t \<in> pages k" "LockDrop l \<in> set (frames (thr k t))" for t
    using i that by (auto simp: lock_inv_def main_frames_def)
  have "t = u" if "t \<in> pages k" "u \<in> pages k" "0 < in_transit l (main_frames k t)" "0 < in_transit l (main_frames k u)" for t u
  proof (rule ccontr)
    assume "t \<noteq> u"
    then have "(\<Sum>t\<in>{t, u}. in_transit l (main_frames k t)) \<le> (\<Sum>t\<in>pages k. in_transit l (main_frames k t))"
      using that c(1) by (intro sum_mono2) auto
    then show False using t that \<open>t \<noteq> u\<close> by simp
  qed
  then show ?thesis using t [unfolded at_rest_def] v a b by simp
qed

lemma run_frames_ready: "run_frames n k = Some k' \<Longrightarrow> lock_ready l k \<Longrightarrow> lock_ready l k'"
proof (induction n arbitrary: k)
  case (Suc n)
  then obtain fr fs k1 where f: "frames (thr k (current k)) = fr # fs" "frame_ok fr k"
    "exec_frame fr (pop_frame k) = Some k1" "run_frames n k1 = Some k'"
    by (auto simp: bind_eq_Some_conv split: list.splits if_splits)
  then show ?case using Suc.IH lock_ready.Step [OF Suc.prems(2) kstep.Frame] by blast
qed simp

lemma lock_ready_booted: "\<not> Option.is_none (boot n) \<Longrightarrow> lock_ready tid_lock (booted n)"
  by (cases "boot n") (auto simp: booted_def boot_def bind_eq_Some_conv intro: lock_ready.Boot run_frames_ready)

theorem mutual_exclusion_witness:
  "(\<exists>fs. frames (thr (booted 19) (current (booted 19))) = LockSetHolder 0 # fs) \<and>
   holder (booted 19) 0 = None \<and> sema_value (semas (booted 19) (LockSema 0)) = 0 \<and>
   (\<Sum>t\<in>pages (booted 19). in_transit 0 (main_frames (booted 19) t)) = 1"
proof -
  have "take 1 (frames (thr (booted 19) (current (booted 19)))) = [LockSetHolder 0]" using booted_facts(2,3) by simp
  then obtain fs where f: "frames (thr (booted 19) (current (booted 19))) = LockSetHolder 0 # fs"
    by (cases "frames (thr (booted 19) (current (booted 19)))") auto
  have "\<not> Option.is_none (boot 19)" using boot_facts(1) by (simp add: Let_def)
  then have "lock_ready 0 (booted 19)" by (rule lock_ready_booted)
  from mutual_exclusion [OF this] f show ?thesis by auto
qed

text \<open>
  C27: \<open>sema_up\<close> wakes a waiter of the highest priority, of those the one that stands first in
  the list of waiters, and exactly that one; the others stay. (The first in the list need not be
  the one that has waited longest when a donation has changed a priority meanwhile.)
\<close>

theorem sema_up_wakes_highest:
  assumes "waiters (semas k s) = ws" and "ws \<noteq> []" and "sema_up_wake s k = Some k'"
  shows "\<exists>t. t \<in> set ws \<and> (\<forall>u\<in>set ws. priority (thr k u) \<le> priority (thr k t)) \<and>
    t = hd (filter (\<lambda>u. priority (thr k u) = priority (thr k t)) ws) \<and>
    status (thr k' t) = THREAD_READY \<and> (\<forall>u. u \<noteq> t \<longrightarrow> thr k' u = thr k u) \<and>
    set (ready_list k') = insert t (set (ready_list k)) \<and>
    mset (waiters (semas k' s)) = mset ws - {#t#}"
proof -
  let ?key = "\<lambda>t. - priority (thr k t)"
  obtain t ts where t: "sort_key ?key ws = t # ts"
    using assms(2) by (metis list.exhaust set_empty set_sort)
  have mem: "t \<in> set ws" using t by (metis list.set_intros(1) set_sort)
  have "sorted (map ?key (t # ts))" unfolding t [symmetric] by simp
  then have le: "\<forall>u\<in>set (t # ts). ?key t \<le> ?key u" by auto
  have st: "set ws = set (t # ts)" unfolding t [symmetric] by simp
  have "filter (\<lambda>u. ?key u = ?key t) (sort_key ?key ws) = filter (\<lambda>u. ?key u = ?key t) ws"
    by (rule sort_key_stable)
  then have "t # filter (\<lambda>u. ?key u = ?key t) ts = filter (\<lambda>u. ?key u = ?key t) ws" unfolding t by simp
  then have "t = hd (filter (\<lambda>u. ?key u = ?key t) ws)" by (metis list.sel(1))
  moreover have "(\<lambda>u. ?key u = ?key t) = (\<lambda>u. priority (thr k u) = priority (thr k t))" by (simp add: fun_eq_iff)
  ultimately have first: "t = hd (filter (\<lambda>u. priority (thr k u) = priority (thr k t)) ws)" by simp
  have m: "mset ws = add_mset t (mset ts)" using t by (metis mset.simps(2) mset_sort)
  have "thread_unblock t (upd_sema s (waiters_update (\<lambda>_. ts)) k) = Some k'"
    using assms(1,3) t by (simp add: sema_up_wake_def)
  then have k': "k' = upd_thread t (status_update (\<lambda>_. THREAD_READY)) ((upd_sema s (waiters_update (\<lambda>_. ts)) k)
      \<lparr>ready_list := insert_ordered (cmp_priority (upd_sema s (waiters_update (\<lambda>_. ts)) k)) t (ready_list k)\<rparr>)"
    by (simp add: thread_unblock_def Let_def)
  have "status (thr k' t) = THREAD_READY" "\<forall>u. u \<noteq> t \<longrightarrow> thr k' u = thr k u"
    "set (ready_list k') = insert t (set (ready_list k))" "waiters (semas k' s) = ts"
    unfolding k' by simp_all
  moreover from this(4) have "mset (waiters (semas k' s)) = mset ws - {#t#}" using m by simp
  moreover have "\<forall>u\<in>set ws. priority (thr k u) \<le> priority (thr k t)" using le st by simp
  ultimately show ?thesis using mem first by blast
qed

definition two_waiters :: kernel where
  "two_waiters = (let k = sample_kernel in
     k\<lparr>thr := (\<lambda>t. (thr k t)\<lparr>status := (if t = 100 then THREAD_RUNNING else THREAD_BLOCKED)\<rparr>),
       ready_list := [], semas := (\<lambda>s. \<lparr>sema_value = 0, waiters = (if s = Sema 0 then [400, 300] else [])\<rparr>)\<rparr>)"

theorem sema_up_wakes_highest_witness:
  "\<exists>k'. sema_up_wake (Sema 0) two_waiters = Some k' \<and> waiters (semas k' (Sema 0)) = [400]"
proof -
  have b: "\<not> Option.is_none (sema_up_wake (Sema 0) two_waiters)" "waiters (semas two_waiters (Sema 0)) = [400, 300]"
    "map (\<lambda>t. priority (thr two_waiters t)) [300, 400] = [40, 20]"
    by code_simp+
  then obtain k' where k': "sema_up_wake (Sema 0) two_waiters = Some k'"
    by (cases "sema_up_wake (Sema 0) two_waiters") auto
  obtain t where t: "t \<in> {400, 300}" "\<forall>u\<in>{400, 300}. priority (thr two_waiters u) \<le> priority (thr two_waiters t)"
    "mset (waiters (semas k' (Sema 0))) = mset [400, 300] - {#t#}"
    using sema_up_wakes_highest [OF b(2) _ k'] by auto
  then have "t = 300" using b(3) by auto
  then have "mset (waiters (semas k' (Sema 0))) = {#400#}" using t(3) by simp
  then show ?thesis using k' by simp
qed


section \<open>Priority donation\<close>

text \<open>\<open>t\<close> waits for a lock that the thread \<open>h\<close> holds.\<close>

definition waits_for :: "kernel \<Rightarrow> addr \<Rightarrow> addr \<Rightarrow> bool" where
  "waits_for k t h \<longleftrightarrow> (\<exists>l. wait_on_lock (thr k t) = Some l \<and> holder k l = Some h) \<and> h \<in> pages k"

text \<open>\<open>t\<close> waits for a lock that no thread holds.\<close>

definition waits_for_nobody :: "kernel \<Rightarrow> addr \<Rightarrow> bool" where
  "waits_for_nobody k t \<longleftrightarrow> wait_on_lock (thr k t) \<noteq> None \<and> (\<forall>h. \<not> waits_for k t h)"

text \<open>The threads along the chain of locks from \<open>t\<close>, \<open>t\<close> itself left out, at most \<open>n\<close> of them.\<close>

definition donees :: "nat \<Rightarrow> kernel \<Rightarrow> addr \<Rightarrow> addr set" where
  "donees n k t = {h. \<exists>m\<in>{1..n}. (waits_for k ^^ m) t h}"

definition chain_breaks :: "nat \<Rightarrow> kernel \<Rightarrow> addr \<Rightarrow> bool" where
  "chain_breaks n k t \<longleftrightarrow> (\<exists>m<n. \<exists>u. (waits_for k ^^ m) t u \<and> waits_for_nobody k u)"

lemma waits_for_unique: "waits_for k t h \<Longrightarrow> waits_for k t h' \<Longrightarrow> h' = h"
  by (auto simp: waits_for_def)

lemma relpowp_first: "(R ^^ Suc m) t u \<longleftrightarrow> (\<exists>h. R t h \<and> (R ^^ m) h u)"
  by (metis relpowp_Suc_D2 relpowp_Suc_I2)

lemma waits_for_step:
  assumes "waits_for k t h"
  shows "donees (Suc n) k t = insert h (donees n k h)" "chain_breaks (Suc n) k t = chain_breaks n k h"
proof -
  have s: "(waits_for k ^^ Suc m) t u \<longleftrightarrow> (waits_for k ^^ m) h u" for m u
    unfolding relpowp_first using assms waits_for_unique by metis
  have "u \<in> donees (Suc n) k t \<longleftrightarrow> u = h \<or> u \<in> donees n k h" for u
  proof
    assume "u \<in> donees (Suc n) k t"
    then obtain m where m: "m \<le> n" "(waits_for k ^^ m) h u" unfolding donees_def using s by (auto simp: Suc_le_eq elim!: less_natE)
    then show "u = h \<or> u \<in> donees n k h" by (cases m) (auto simp: donees_def simp del: relpowp.simps(2))
  next
    assume "u = h \<or> u \<in> donees n k h"
    then obtain m where "m \<le> n" "(waits_for k ^^ m) h u"
    proof
      assume "u = h"
      then show thesis using that [of 0] by simp
    qed (use that in \<open>auto simp: donees_def\<close>)
    then show "u \<in> donees (Suc n) k t" unfolding donees_def using s [of m u] by (auto intro!: bexI [of _ "Suc m"])
  qed
  then show "donees (Suc n) k t = insert h (donees n k h)" by blast
  have nb: "\<not> waits_for_nobody k t" using assms by (auto simp: waits_for_nobody_def)
  show "chain_breaks (Suc n) k t = chain_breaks n k h"
  proof
    assume "chain_breaks (Suc n) k t"
    then obtain m u where m: "m < Suc n" "(waits_for k ^^ m) t u" "waits_for_nobody k u" by (auto simp: chain_breaks_def)
    then obtain j where "m = Suc j" using nb by (cases m) auto
    then show "chain_breaks n k h" using m s [of j u] by (auto simp: chain_breaks_def)
  next
    assume "chain_breaks n k h"
    then obtain m u where "m < n" "(waits_for k ^^ m) h u" "waits_for_nobody k u" by (auto simp: chain_breaks_def)
    then have "Suc m < Suc n \<and> (waits_for k ^^ Suc m) t u \<and> waits_for_nobody k u" using s [of m u] by blast
    then show "chain_breaks (Suc n) k t" unfolding chain_breaks_def by blast
  qed
qed

lemma waits_for_none:
  assumes "\<And>h. \<not> waits_for k t h"
  shows "donees n k t = {}" "chain_breaks (Suc n) k t = waits_for_nobody k t"
proof -
  have z: "\<not> (waits_for k ^^ Suc m) t u" for m u unfolding relpowp_first using assms by blast
  then have "\<not> (waits_for k ^^ m) t u" if "1 \<le> m" for m u using that by (cases m) auto
  then show "donees n k t = {}" by (auto simp: donees_def)
  show "chain_breaks (Suc n) k t = waits_for_nobody k t"
  proof
    assume "chain_breaks (Suc n) k t"
    then obtain m u where "(waits_for k ^^ m) t u" "waits_for_nobody k u" by (auto simp: chain_breaks_def)
    then show "waits_for_nobody k t" using z by (cases m) auto
  next
    assume "waits_for_nobody k t"
    then have "0 < Suc n \<and> (waits_for k ^^ 0) t t \<and> waits_for_nobody k t" by simp
    then show "chain_breaks (Suc n) k t" unfolding chain_breaks_def by blast
  qed
qed

lemma waits_for_upd:
  assumes "\<And>x. wait_on_lock (g x) = wait_on_lock x"
  shows "waits_for (upd_thread u g k) = waits_for k" "waits_for_nobody (upd_thread u g k) = waits_for_nobody k"
    "donees n (upd_thread u g k) = donees n k" "chain_breaks n (upd_thread u g k) = chain_breaks n k"
proof -
  show w: "waits_for (upd_thread u g k) = waits_for k" using assms by (auto simp: waits_for_def fun_eq_iff)
  show nb: "waits_for_nobody (upd_thread u g k) = waits_for_nobody k"
    using assms by (auto simp: waits_for_nobody_def fun_eq_iff w)
  show "donees n (upd_thread u g k) = donees n k" "chain_breaks n (upd_thread u g k) = chain_breaks n k"
    by (simp_all add: donees_def chain_breaks_def fun_eq_iff w nb)
qed

definition give_priority :: "int \<Rightarrow> addr set \<Rightarrow> kernel \<Rightarrow> kernel" where
  "give_priority p A k = k\<lparr>thr := (\<lambda>u. if u \<in> A then (thr k u)\<lparr>priority := p\<rparr> else thr k u)\<rparr>"

lemma give_priority_empty [simp]: "give_priority p {} k = k"
  by (simp add: give_priority_def)

lemma give_priority_insert:
  "give_priority p A (upd_thread h (priority_update (\<lambda>_. p)) k) = give_priority p (insert h A) k"
  by (auto simp: give_priority_def upd_thread_def fun_eq_iff)

lemma donation_loop_spec:
  "donation_loop n t k = (if chain_breaks n k t then None else Some (give_priority (priority (thr k t)) (donees n k t) k))"
proof (induction n arbitrary: t k)
  case 0
  show ?case by (simp add: chain_breaks_def donees_def)
next
  case (Suc n)
  show ?case
  proof (cases "\<exists>h. waits_for k t h")
    case True
    then obtain l h where h: "waits_for k t h" "wait_on_lock (thr k t) = Some l" "holder k l = Some h" "h \<in> pages k"
      by (auto simp: waits_for_def)
    let ?k = "upd_thread h (priority_update (\<lambda>_. priority (thr k t))) k"
    have "donation_loop (Suc n) t k = donation_loop n h ?k" using h by (simp add: is_thread_def)
    also have "\<dots> = (if chain_breaks n k h then None
        else Some (give_priority (priority (thr k t)) (insert h (donees n k h)) k))"
      by (simp add: Suc.IH waits_for_upd give_priority_insert)
    finally show ?thesis by (simp add: waits_for_step [OF h(1)])
  next
    case False
    then have n: "\<And>h. \<not> waits_for k t h" by blast
    show ?thesis
    proof (cases "wait_on_lock (thr k t)")
      case None
      then show ?thesis using waits_for_none [OF n] by (simp add: waits_for_nobody_def)
    next
      case (Some l)
      then have "holder k l = Some h \<Longrightarrow> h \<notin> pages k" for h using n by (auto simp: waits_for_def)
      then have "donation_loop (Suc n) t k = None" using Some by (cases "holder k l") (auto simp: is_thread_def)
      then show ?thesis using waits_for_none [OF n] n Some by (simp add: waits_for_nobody_def)
    qed
  qed
qed

text \<open>
  C28: \<open>priority_donation\<close> follows the chain of locks from the running thread, whatever its shape
  (cycles included), eight locks deep: the holders reached within eight steps get the priority of
  the running thread, even when theirs is higher already and falls, and nothing else changes.
  It panics exactly when one of the first eight locks has no holder that is a thread.
\<close>

theorem donation_along_chain:
  assumes "thread_current k = Some c"
  shows "(priority_donation k = None \<longleftrightarrow> (\<exists>m<8. \<exists>u. (waits_for k ^^ m) c u \<and> waits_for_nobody k u)) \<and>
    (\<forall>k'. priority_donation k = Some k' \<longrightarrow>
       (\<forall>h. thr k' h = (if \<exists>m\<in>{1..8}. (waits_for k ^^ m) c h then (thr k h)\<lparr>priority := priority (thr k c)\<rparr> else thr k h)) \<and>
       k' = k\<lparr>thr := thr k'\<rparr>)"
  unfolding priority_donation_def assms
  by (auto simp: donation_loop_spec chain_breaks_def donees_def give_priority_def)

definition one_holder :: kernel where
  "one_holder = (let k = sample_kernel in
     k\<lparr>thr := (\<lambda>t. (thr k t)\<lparr>wait_on_lock := (if t = 100 then Some 7 else None)\<rparr>),
       holder := (\<lambda>l. if l = 7 then Some 300 else None)\<rparr>)"

theorem donation_along_chain_witness:
  "\<exists>k'. priority_donation one_holder = Some k' \<and> priority (thr one_holder 300) = 40 \<and> priority (thr k' 300) = 31"
proof -
  have b: "current one_holder = 100" "wait_on_lock (thr one_holder 100) = Some 7" "holder one_holder 7 = Some 300"
    "wait_on_lock (thr one_holder 300) = None" "300 \<in> pages one_holder" "100 \<in> pages one_holder"
    "status (thr one_holder 100) = THREAD_RUNNING" "priority (thr one_holder 300) = 40" "priority (thr one_holder 100) = 31"
    by code_simp+
  have w: "waits_for one_holder 100 = (\<lambda>u. u = 300)" "waits_for one_holder 300 = (\<lambda>u. False)"
    using b by (auto simp: waits_for_def fun_eq_iff)
  have s: "(waits_for one_holder ^^ m) 100 u \<longleftrightarrow> m = 0 \<and> u = 100 \<or> m = 1 \<and> u = 300" for m u
  proof (induction m arbitrary: u)
    case (Suc m)
    have "(waits_for one_holder ^^ Suc m) 100 u \<longleftrightarrow> (\<exists>v. (waits_for one_holder ^^ m) 100 v \<and> waits_for one_holder v u)"
      by (auto simp: OO_def)
    also have "\<dots> \<longleftrightarrow> m = 0 \<and> u = 300" unfolding Suc.IH using w by auto
    finally show ?case by auto
  qed auto
  have "\<not> waits_for_nobody one_holder 100" "\<not> waits_for_nobody one_holder 300"
    using b(4) w(1) by (auto simp: waits_for_nobody_def fun_eq_iff)
  then have "\<not> (\<exists>m<8. \<exists>u. (waits_for one_holder ^^ m) 100 u \<and> waits_for_nobody one_holder u)" unfolding s by auto
  moreover have "thread_current one_holder = Some 100" using b by simp
  ultimately obtain k' where k': "priority_donation one_holder = Some k'"
    using donation_along_chain by (cases "priority_donation one_holder") blast+
  have "\<exists>m\<in>{1..8}. (waits_for one_holder ^^ m) 100 300" unfolding s by (rule bexI [of _ 1]) auto
  moreover have "\<forall>h. thr k' h = (if \<exists>m\<in>{1..8}. (waits_for one_holder ^^ m) 100 h
      then (thr one_holder h)\<lparr>priority := priority (thr one_holder 100)\<rparr> else thr one_holder h)"
    using donation_along_chain [OF \<open>thread_current one_holder = Some 100\<close>] k' by blast
  ultimately have "thr k' 300 = (thr one_holder 300)\<lparr>priority := priority (thr one_holder 100)\<rparr>" by presburger
  then show ?thesis using k' b by simp
qed

text \<open>
  After a donation has ended, \<open>re_priority\<close> sets the priority of the running thread to the
  largest of its own and those of the remaining donors, and keeps the donors.
\<close>

lemma re_priority_max:
  assumes "thread_current k = Some c" and "donors_ok c k" and "c \<notin> set (donations (thr k c))"
  shows "\<exists>k'. re_priority k = Some k' \<and>
    priority (thr k' c) = Max (insert (init_priority (thr k c)) ((\<lambda>t. priority (thr k t)) ` set (donations (thr k c)))) \<and>
    mset (donations (thr k' c)) = mset (donations (thr k c)) \<and> (\<forall>u. u \<noteq> c \<longrightarrow> thr k' u = thr k u)"
proof -
  let ?k = "upd_thread c (\<lambda>x. x\<lparr>priority := init_priority x\<rparr>) k"
  let ?ds = "donations (thr k c)" and ?p = "\<lambda>t. priority (thr k t)"
  define qs where "qs = sort_key (\<lambda>t. - priority (thr ?k t)) ?ds"
  have re: "re_priority k = (if qs = [] then Some ?k else
      let k = upd_thread c (donations_update (\<lambda>_. qs)) ?k in
      if priority (thr k c) < priority (thr k (hd qs)) then Some (upd_thread c (priority_update (\<lambda>_. priority (thr k (hd qs)))) k)
      else Some k)"
    using assms(2) unfolding re_priority_def assms(1) by (simp add: qs_def Let_def donors_ok_def is_thread_def)
  have set: "set qs = set ?ds" "mset qs = mset ?ds" by (simp_all add: qs_def)
  show ?thesis
  proof (cases qs)
    case Nil
    then have "?ds = []" using set(1) by simp
    then show ?thesis using re Nil by auto
  next
    case (Cons t ts)
    have "sorted (map (\<lambda>t. - priority (thr ?k t)) qs)" by (simp add: qs_def)
    then have "\<forall>u\<in>set qs. priority (thr ?k u) \<le> priority (thr ?k t)" by (auto simp: Cons)
    then have top: "t \<in> set ?ds" "\<forall>u\<in>set ?ds. ?p u \<le> ?p t" "t \<noteq> c"
      using set(1) Cons assms(3) by (auto split: if_splits)
    have "Max (?p ` set ?ds) = ?p t" by (rule Max_eqI) (use top in auto)
    moreover have "finite (?p ` set ?ds)" "?p ` set ?ds \<noteq> {}" using top(1) by auto
    ultimately have mx: "Max (insert (init_priority (thr k c)) (?p ` set ?ds)) = max (init_priority (thr k c)) (?p t)"
      by (simp add: Max_insert)
    show ?thesis using re Cons top(3) set(2) unfolding mx by (auto simp: Let_def max_def)
  qed
qed

definition two_donors :: kernel where
  "two_donors = (let k = sample_kernel in k\<lparr>thr := (\<lambda>t. (thr k t)\<lparr>donations := (if t = 100 then [400, 300] else []),
     donates_to := (if t = 100 then None else Some 100)\<rparr>)\<rparr>)"

theorem re_priority_max_witness:
  "\<exists>k'. re_priority two_donors = Some k' \<and> priority (thr k' 100) = 40"
proof -
  have b: "current two_donors = 100" "100 \<in> pages two_donors" "status (thr two_donors 100) = THREAD_RUNNING"
    "donations (thr two_donors 100) = [400, 300]" "init_priority (thr two_donors 100) = 31"
    "priority (thr two_donors 300) = 40" "priority (thr two_donors 400) = 20" "donors_ok 100 two_donors"
    by code_simp+
  then have "thread_current two_donors = Some 100" by simp
  from re_priority_max [OF this b(8)] b show ?thesis by auto
qed

section \<open>Failures\<close>

text \<open>
  \<open>cond_signal\<close> on a condition without waiters panics, although its comment promises that it
  does nothing then: the missing braces leave \<open>list_pop_front\<close> outside the test. \<open>cond_broadcast\<close>
  tests the list before every signal and does nothing.
\<close>

lemma cond_signal_without_waiters:
  assumes "conds k c = []"
  shows "cond_signal c l k = None \<and> cond_broadcast_loop c l k = Some k"
  using assms by (cases "lock_held_by_current_thread l k") (auto simp: cond_signal_def cond_broadcast_loop_def)

lemma cond_signal_without_waiters_witness: "cond_signal 3 7 one_holder = None"
proof -
  have "conds one_holder 3 = []" by code_simp
  from cond_signal_without_waiters [OF this] show ?thesis by blast
qed

text \<open>
  C30: A lock can be neither acquired twice nor released by a thread that does not hold it: both
  calls panic, in every state with a running thread; and \<open>lock_try_acquire\<close> on a lock that is
  held by another thread fails without changing anything.
\<close>

theorem lock_misuse_panics:
  assumes "thread_current k = Some c"
  shows "(holder k l = Some c \<longrightarrow> lock_acquire l k = None \<and> lock_try_acquire l k = None) \<and>
    (holder k l \<noteq> Some c \<longrightarrow> lock_release l k = None) \<and>
    (holder k l \<noteq> Some c \<and> sema_value (semas k (LockSema l)) = 0 \<longrightarrow> lock_try_acquire l k = Some (k, False))"
proof -
  have "lock_held_by_current_thread l k = Some (holder k l = Some c)"
    unfolding lock_held_by_current_thread_def assms by simp
  then show ?thesis
    by (simp add: lock_acquire_def lock_release_def lock_try_acquire_def sema_try_down_def)
qed

theorem lock_misuse_panics_witness: "lock_release 7 one_holder = None"
proof -
  have b: "current one_holder = 100" "100 \<in> pages one_holder" "status (thr one_holder 100) = THREAD_RUNNING"
    "holder one_holder 7 = Some 300"
    by code_simp+
  then have "thread_current one_holder = Some 100" by simp
  from lock_misuse_panics [OF this, of 7] b show ?thesis by simp
qed

end
