(* ===== verification/Bitmap.thy ===== *)
theory Bitmap
  imports Prelude
begin

text \<open>
  Bitmaps: lib/kernel/bitmap.c. A bitmap is an array of 64-bit elements; the abstract bitmap is
  the list of its \<open>bit_cnt\<close> bits. Every operation is shown to implement the operation on the
  list. The section at the end states the interface under which the page allocator, the free
  map of the file system and the swap table use a bitmap to hand out slots.

  Sizes are natural numbers below \<open>2 ^ 64\<close>; the sums that the code forms before it checks them
  wrap around. An access outside the array of elements is \<open>None\<close>.
\<close>

section \<open>The structure\<close>

record bitmap =
  bit_cnt :: nat
  bits :: "u64 list"

abbreviation (input) ELEM_BITS :: nat where "ELEM_BITS \<equiv> 64"

text \<open>\<open>SIZE_MAX\<close> is \<open>UINT32_MAX\<close> in include/lib/stdint.h, although \<open>size_t\<close> has 64 bits.\<close>

definition BITMAP_ERROR :: nat where "BITMAP_ERROR = 2 ^ 32 - 1"

definition size_add :: "nat \<Rightarrow> nat \<Rightarrow> nat" where
  "size_add a b = (a + b) mod 2 ^ 64"

definition elem_idx :: "nat \<Rightarrow> nat" where "elem_idx bit_idx = bit_idx div ELEM_BITS"

definition bit_mask :: "nat \<Rightarrow> u64" where "bit_mask bit_idx = push_bit (bit_idx mod ELEM_BITS) 1"

definition elem_cnt :: "nat \<Rightarrow> nat" where "elem_cnt cnt = DIV_ROUND_UP cnt ELEM_BITS"

definition byte_cnt :: "nat \<Rightarrow> nat" where "byte_cnt cnt = 8 * elem_cnt cnt"

definition last_mask :: "bitmap \<Rightarrow> u64" where
  "last_mask b = (let last_bits = bit_cnt b mod ELEM_BITS in if last_bits \<noteq> 0 then push_bit last_bits 1 - 1 else - 1)"

section \<open>Single bits\<close>

definition bitmap_size :: "bitmap \<Rightarrow> nat" where "bitmap_size b = bit_cnt b"

definition upd_elem :: "(u64 \<Rightarrow> u64) \<Rightarrow> nat \<Rightarrow> bitmap \<Rightarrow> bitmap option" where
  "upd_elem g i b = do {
     ASSERT (i < length (bits b));
     Some (b\<lparr>bits := (bits b)[i := g (bits b ! i)]\<rparr>) }"

definition bitmap_mark :: "bitmap \<Rightarrow> nat \<Rightarrow> bitmap option" where
  "bitmap_mark b bit_idx = upd_elem (\<lambda>e. e OR bit_mask bit_idx) (elem_idx bit_idx) b"

definition bitmap_reset :: "bitmap \<Rightarrow> nat \<Rightarrow> bitmap option" where
  "bitmap_reset b bit_idx = upd_elem (\<lambda>e. e AND NOT (bit_mask bit_idx)) (elem_idx bit_idx) b"

definition bitmap_flip :: "bitmap \<Rightarrow> nat \<Rightarrow> bitmap option" where
  "bitmap_flip b bit_idx = upd_elem (\<lambda>e. e XOR bit_mask bit_idx) (elem_idx bit_idx) b"

definition bitmap_set :: "bitmap \<Rightarrow> nat \<Rightarrow> bool \<Rightarrow> bitmap option" where
  "bitmap_set b idx v = do {
     ASSERT (idx < bit_cnt b);
     if v then bitmap_mark b idx else bitmap_reset b idx }"

definition bitmap_test :: "bitmap \<Rightarrow> nat \<Rightarrow> bool option" where
  "bitmap_test b idx = do {
     ASSERT (idx < bit_cnt b);
     ASSERT (elem_idx idx < length (bits b));
     Some (bits b ! elem_idx idx AND bit_mask idx \<noteq> 0) }"

section \<open>Ranges of bits\<close>

fun bitmap_set_loop :: "bitmap \<Rightarrow> nat \<Rightarrow> nat \<Rightarrow> bool \<Rightarrow> bitmap option" where
  "bitmap_set_loop b idx 0 v = Some b"
| "bitmap_set_loop b idx (Suc n) v = do { b \<leftarrow> bitmap_set b idx v; bitmap_set_loop b (Suc idx) n v }"

definition bitmap_set_multiple :: "bitmap \<Rightarrow> nat \<Rightarrow> nat \<Rightarrow> bool \<Rightarrow> bitmap option" where
  "bitmap_set_multiple b start cnt v = do {
     ASSERT (start \<le> bit_cnt b);
     ASSERT (size_add start cnt \<le> bit_cnt b);
     bitmap_set_loop b start cnt v }"

definition bitmap_set_all :: "bitmap \<Rightarrow> bool \<Rightarrow> bitmap option" where
  "bitmap_set_all b v = bitmap_set_multiple b 0 (bitmap_size b) v"

fun bitmap_count_loop :: "bitmap \<Rightarrow> nat \<Rightarrow> nat \<Rightarrow> bool \<Rightarrow> nat \<Rightarrow> nat option" where
  "bitmap_count_loop b idx 0 v value_cnt = Some value_cnt"
| "bitmap_count_loop b idx (Suc n) v value_cnt = do {
     t \<leftarrow> bitmap_test b idx;
     bitmap_count_loop b (Suc idx) n v (if t = v then Suc value_cnt else value_cnt) }"

definition bitmap_count :: "bitmap \<Rightarrow> nat \<Rightarrow> nat \<Rightarrow> bool \<Rightarrow> nat option" where
  "bitmap_count b start cnt v = do {
     ASSERT (start \<le> bit_cnt b);
     ASSERT (size_add start cnt \<le> bit_cnt b);
     bitmap_count_loop b start cnt v 0 }"

fun bitmap_contains_loop :: "bitmap \<Rightarrow> nat \<Rightarrow> nat \<Rightarrow> bool \<Rightarrow> bool option" where
  "bitmap_contains_loop b idx 0 v = Some False"
| "bitmap_contains_loop b idx (Suc n) v = do {
     t \<leftarrow> bitmap_test b idx;
     if t = v then Some True else bitmap_contains_loop b (Suc idx) n v }"

definition bitmap_contains :: "bitmap \<Rightarrow> nat \<Rightarrow> nat \<Rightarrow> bool \<Rightarrow> bool option" where
  "bitmap_contains b start cnt v = do {
     ASSERT (start \<le> bit_cnt b);
     ASSERT (size_add start cnt \<le> bit_cnt b);
     bitmap_contains_loop b start cnt v }"

definition bitmap_any :: "bitmap \<Rightarrow> nat \<Rightarrow> nat \<Rightarrow> bool option" where
  "bitmap_any b start cnt = bitmap_contains b start cnt True"

definition bitmap_none :: "bitmap \<Rightarrow> nat \<Rightarrow> nat \<Rightarrow> bool option" where
  "bitmap_none b start cnt = map_option Not (bitmap_contains b start cnt True)"

definition bitmap_all :: "bitmap \<Rightarrow> nat \<Rightarrow> nat \<Rightarrow> bool option" where
  "bitmap_all b start cnt = map_option Not (bitmap_contains b start cnt False)"

text \<open>The loop of \<open>bitmap_scan\<close> from \<open>i\<close> over \<open>n\<close> more starting points.\<close>

fun bitmap_scan_loop :: "bitmap \<Rightarrow> nat \<Rightarrow> nat \<Rightarrow> nat \<Rightarrow> bool \<Rightarrow> nat option" where
  "bitmap_scan_loop b i 0 cnt v = Some BITMAP_ERROR"
| "bitmap_scan_loop b i (Suc n) cnt v = do {
     c \<leftarrow> bitmap_contains b i cnt (\<not> v);
     if \<not> c then Some i else bitmap_scan_loop b (Suc i) n cnt v }"

definition bitmap_scan :: "bitmap \<Rightarrow> nat \<Rightarrow> nat \<Rightarrow> bool \<Rightarrow> nat option" where
  "bitmap_scan b start cnt v = do {
     ASSERT (start \<le> bit_cnt b);
     if cnt \<le> bit_cnt b
     then let final = bit_cnt b - cnt in bitmap_scan_loop b start (Suc final - start) cnt v
     else Some BITMAP_ERROR }"

definition bitmap_scan_and_flip :: "bitmap \<Rightarrow> nat \<Rightarrow> nat \<Rightarrow> bool \<Rightarrow> (bitmap \<times> nat) option" where
  "bitmap_scan_and_flip b start cnt v = do {
     idx \<leftarrow> bitmap_scan b start cnt v;
     if idx \<noteq> BITMAP_ERROR then do {
       b \<leftarrow> bitmap_set_multiple b idx cnt (\<not> v);
       Some (b, idx) }
     else Some (b, idx) }"

section \<open>Creation\<close>

text \<open>
  \<open>have_struct\<close> and \<open>have_bits\<close> say which of the two requests for memory succeed; \<open>junk\<close> is what
  the memory for the elements holds.
\<close>

definition bitmap_create :: "nat \<Rightarrow> bool \<Rightarrow> bool \<Rightarrow> u64 list \<Rightarrow> bitmap option option" where
  "bitmap_create cnt have_struct have_bits junk =
     (if have_struct then
        let b = \<lparr>bit_cnt = cnt, bits = (if have_bits then junk else [])\<rparr>
        in if have_bits \<or> cnt = 0 then map_option Some (bitmap_set_all b False) else Some None
      else Some None)"

definition bitmap_buf_size :: "nat \<Rightarrow> nat" where
  "bitmap_buf_size cnt = 16 + byte_cnt cnt"

definition bitmap_create_in_buf :: "nat \<Rightarrow> u64 list \<Rightarrow> nat \<Rightarrow> bitmap option" where
  "bitmap_create_in_buf cnt junk block_size = do {
     ASSERT (block_size \<ge> bitmap_buf_size cnt);
     bitmap_set_all \<lparr>bit_cnt = cnt, bits = junk\<rparr> False }"

section \<open>File input and output\<close>

text \<open>Elements are stored with the least significant byte first.\<close>

definition elem_bytes :: "u64 \<Rightarrow> u8 list" where
  "elem_bytes w = map (\<lambda>i. ucast (drop_bit (8 * i) w)) [0..<8]"

definition bytes_elem :: "u8 list \<Rightarrow> u64" where
  "bytes_elem bs = fold (\<lambda>b w. push_bit 8 w OR ucast b) (rev bs) 0"

definition bits_bytes :: "u64 list \<Rightarrow> u8 list" where
  "bits_bytes ws = concat (map elem_bytes ws)"

fun bytes_bits :: "u8 list \<Rightarrow> u64 list" where
  "bytes_bits bs = (if length bs < 8 then [] else bytes_elem (take 8 bs) # bytes_bits (drop 8 bs))"

declare bytes_bits.simps [simp del]

definition bitmap_file_size :: "bitmap \<Rightarrow> nat" where
  "bitmap_file_size b = byte_cnt (bit_cnt b)"

text \<open>
  \<open>data\<close> are the bytes that \<open>file_read_at\<close> returns for \<open>byte_cnt\<close> bytes at offset 0, and
  \<open>write_at\<close> says how many bytes of its argument \<open>file_write_at\<close> writes at offset 0.
\<close>

definition bitmap_read :: "bitmap \<Rightarrow> u8 list \<Rightarrow> bitmap \<times> bool" where
  "bitmap_read b data =
     (if bit_cnt b > 0 then
        let size = byte_cnt (bit_cnt b);
            b1 = b\<lparr>bits := bytes_bits (data @ drop (length data) (bits_bytes (bits b)))\<rparr>;
            i = elem_cnt (bit_cnt b) - 1
        in (b1\<lparr>bits := (bits b1)[i := bits b1 ! i AND last_mask b]\<rparr>, length data = size)
      else (b, True))"

definition bitmap_write :: "bitmap \<Rightarrow> (u8 list \<Rightarrow> nat) \<Rightarrow> bool" where
  "bitmap_write b write_at \<longleftrightarrow> write_at (bits_bytes (bits b)) = byte_cnt (bit_cnt b)"

section \<open>The list of bits\<close>

definition bitmap_ok :: "bitmap \<Rightarrow> bool" where
  "bitmap_ok b \<longleftrightarrow> length (bits b) = elem_cnt (bit_cnt b) \<and> bit_cnt b < BITMAP_ERROR"

definition bools :: "bitmap \<Rightarrow> bool list" where
  "bools b = map (\<lambda>i. bit (bits b ! elem_idx i) (i mod ELEM_BITS)) [0..<bit_cnt b]"

lemma length_bools [simp]: "length (bools b) = bit_cnt b"
  by (simp add: bools_def)

lemma elem_idx_less: "i < bit_cnt b \<Longrightarrow> bitmap_ok b \<Longrightarrow> elem_idx i < length (bits b)"
proof -
  assume "i < bit_cnt b" "bitmap_ok b"
  moreover have "bit_cnt b \<le> elem_cnt (bit_cnt b) * 64" unfolding elem_cnt_def by (rule DIV_ROUND_UP_le) simp
  ultimately show ?thesis unfolding elem_idx_def bitmap_ok_def by (simp add: less_mult_imp_div_less)
qed

lemma bit_bit_mask: "n < 64 \<Longrightarrow> bit (bit_mask i) n \<longleftrightarrow> n = i mod 64"
  by (auto simp: bit_mask_def bit_simps)

lemma and_bit_mask: "(e AND bit_mask i \<noteq> 0) \<longleftrightarrow> bit e (i mod 64)"
  by (simp add: bit_mask_def push_bit_of_1 and_exp_eq_0_iff_not_bit)

lemma same_bit: "i div 64 = j div 64 \<Longrightarrow> i mod 64 = j mod (64 :: nat) \<Longrightarrow> i = j"
  by (metis div_mult_mod_eq)

text \<open>Changing one element at the mask of bit \<open>idx\<close> changes that bit of the list.\<close>

lemma upd_elem_bools:
  assumes "bitmap_ok b" "idx < bit_cnt b"
    "\<And>e n. n < 64 \<Longrightarrow> bit (g e) n = (if n = idx mod 64 then v e else bit e n)"
  shows "\<exists>b'. upd_elem g (elem_idx idx) b = Some b' \<and> bitmap_ok b' \<and> bit_cnt b' = bit_cnt b \<and>
    bools b' = (bools b)[idx := v (bits b ! elem_idx idx)]"
proof -
  let ?b = "b\<lparr>bits := (bits b)[elem_idx idx := g (bits b ! elem_idx idx)]\<rparr>"
  have l: "elem_idx idx < length (bits b)" by (rule elem_idx_less [OF assms(2,1)])
  have "bools ?b = (bools b)[idx := v (bits b ! elem_idx idx)]"
  proof (rule nth_equalityI)
    fix i assume "i < length (bools ?b)"
    then have i: "i < bit_cnt b" by simp
    show "bools ?b ! i = (bools b)[idx := v (bits b ! elem_idx idx)] ! i"
    proof (cases "elem_idx i = elem_idx idx")
      case True
      then have "i div 64 = idx div 64" by (simp add: elem_idx_def)
      then have e: "(i = idx) = (i mod 64 = idx mod 64)" using same_bit by blast
      have "bools ?b ! i = bit (g (bits b ! elem_idx idx)) (i mod 64)" using i l True by (simp add: bools_def)
      also have "\<dots> = (if i = idx then v (bits b ! elem_idx idx) else bit (bits b ! elem_idx idx) (i mod 64))"
        by (simp add: assms(3) e)
      also have "\<dots> = (bools b)[idx := v (bits b ! elem_idx idx)] ! i" using i assms(2) True by (simp add: bools_def)
      finally show ?thesis .
    next
      case False
      then have "i \<noteq> idx" by auto
      then show ?thesis using i l assms(2) False by (simp add: bools_def)
    qed
  qed simp
  then show ?thesis using l assms(1) by (auto simp: upd_elem_def bitmap_ok_def)
qed

lemma bitmap_set_bools:
  assumes "bitmap_ok b" "idx < bit_cnt b"
  shows "\<exists>b'. bitmap_set b idx v = Some b' \<and> bitmap_ok b' \<and> bit_cnt b' = bit_cnt b \<and> bools b' = (bools b)[idx := v]"
proof (cases v)
  case True
  show ?thesis
    using upd_elem_bools [OF assms, of "\<lambda>e. e OR bit_mask idx" "\<lambda>_. True"] assms(2) True
    by (simp add: bitmap_set_def bitmap_mark_def bit_or_iff bit_bit_mask)
next
  case False
  show ?thesis
    using upd_elem_bools [OF assms, of "\<lambda>e. e AND NOT (bit_mask idx)" "\<lambda>_. False"] assms(2) False
    by (simp add: bitmap_set_def bitmap_reset_def bit_and_iff bit_not_iff bit_bit_mask)
qed

lemma bitmap_flip_bools:
  assumes "bitmap_ok b" "idx < bit_cnt b"
  shows "\<exists>b'. bitmap_flip b idx = Some b' \<and> bitmap_ok b' \<and> bit_cnt b' = bit_cnt b \<and>
    bools b' = (bools b)[idx := \<not> bools b ! idx]"
  using upd_elem_bools [OF assms, of "\<lambda>e. e XOR bit_mask idx" "\<lambda>e. \<not> bit e (idx mod 64)"] assms(2)
  by (auto simp: bitmap_flip_def bit_xor_iff bit_bit_mask bools_def)

lemma bitmap_test_bools:
  "bitmap_ok b \<Longrightarrow> idx < bit_cnt b \<Longrightarrow> bitmap_test b idx = Some (bools b ! idx)"
  using elem_idx_less [of idx b] by (simp add: bitmap_test_def and_bit_mask bools_def)

lemma bitmap_set_loop_bools:
  "bitmap_ok b \<Longrightarrow> idx + n \<le> bit_cnt b \<Longrightarrow>
     \<exists>b'. bitmap_set_loop b idx n v = Some b' \<and> bitmap_ok b' \<and> bit_cnt b' = bit_cnt b \<and>
       bools b' = take idx (bools b) @ replicate n v @ drop (idx + n) (bools b)"
proof (induction n arbitrary: b idx)
  case (Suc n)
  obtain b1 where b1: "bitmap_set b idx v = Some b1" "bitmap_ok b1" "bit_cnt b1 = bit_cnt b"
    "bools b1 = (bools b)[idx := v]"
    using bitmap_set_bools [OF Suc.prems(1), of idx v] Suc.prems(2) by auto
  obtain b' where b': "bitmap_set_loop b1 (Suc idx) n v = Some b'" "bitmap_ok b'" "bit_cnt b' = bit_cnt b1"
    "bools b' = take (Suc idx) (bools b1) @ replicate n v @ drop (Suc idx + n) (bools b1)"
    using Suc.IH [OF b1(2), of "Suc idx"] Suc.prems(2) b1(3) by auto
  have "take (Suc idx) (bools b1) = take idx (bools b) @ [v]"
    using Suc.prems(2) by (simp add: b1(4) take_Suc_conv_app_nth)
  moreover have "drop (Suc idx + n) (bools b1) = drop (idx + Suc n) (bools b)" by (simp add: b1(4))
  ultimately show ?case using b' b1 by (simp add: replicate_app_Cons_same)
qed simp

lemma size_add_le: "a + b < 2 ^ 64 \<Longrightarrow> size_add a b = a + b"
  by (simp add: size_add_def)

lemma bitmap_set_multiple_bools:
  assumes "bitmap_ok b" "start + cnt \<le> bit_cnt b"
  shows "\<exists>b'. bitmap_set_multiple b start cnt v = Some b' \<and> bitmap_ok b' \<and> bit_cnt b' = bit_cnt b \<and>
    bools b' = take start (bools b) @ replicate cnt v @ drop (start + cnt) (bools b)"
proof -
  have "start + cnt < 2 ^ 64" using assms by (simp add: bitmap_ok_def BITMAP_ERROR_def)
  then show ?thesis
    using bitmap_set_loop_bools [OF assms] assms(2) by (simp add: bitmap_set_multiple_def size_add_le)
qed

lemma bitmap_count_loop_bools:
  "bitmap_ok b \<Longrightarrow> idx + n \<le> bit_cnt b \<Longrightarrow> bitmap_count_loop b idx n v c =
     Some (c + length (filter (\<lambda>x. x = v) (take n (drop idx (bools b)))))"
proof (induction n arbitrary: idx c)
  case (Suc n)
  then have "take (Suc n) (drop idx (bools b)) = bools b ! idx # take n (drop (Suc idx) (bools b))"
    by (simp add: Cons_nth_drop_Suc [symmetric])
  then show ?case using Suc by (simp add: bitmap_test_bools)
qed simp

lemma bitmap_contains_loop_bools:
  "bitmap_ok b \<Longrightarrow> idx + n \<le> bit_cnt b \<Longrightarrow>
     bitmap_contains_loop b idx n v = Some (v \<in> set (take n (drop idx (bools b))))"
proof (induction n arbitrary: idx)
  case (Suc n)
  then have "take (Suc n) (drop idx (bools b)) = bools b ! idx # take n (drop (Suc idx) (bools b))"
    by (simp add: Cons_nth_drop_Suc [symmetric])
  then show ?case using Suc by (auto simp: bitmap_test_bools)
qed simp

lemma range_check: "bitmap_ok b \<Longrightarrow> start + cnt \<le> bit_cnt b \<Longrightarrow> size_add start cnt = start + cnt"
  by (simp add: bitmap_ok_def BITMAP_ERROR_def size_add_le)

lemma bitmap_range_bools:
  assumes "bitmap_ok b" "start + cnt \<le> bit_cnt b"
  shows "bitmap_count b start cnt v = Some (length (filter (\<lambda>x. x = v) (take cnt (drop start (bools b)))))"
    "bitmap_contains b start cnt v = Some (v \<in> set (take cnt (drop start (bools b))))"
    "bitmap_any b start cnt = Some (True \<in> set (take cnt (drop start (bools b))))"
    "bitmap_none b start cnt = Some (True \<notin> set (take cnt (drop start (bools b))))"
    "bitmap_all b start cnt = Some (False \<notin> set (take cnt (drop start (bools b))))"
  using assms range_check [OF assms]
  by (auto simp: bitmap_count_def bitmap_contains_def bitmap_any_def bitmap_none_def bitmap_all_def
      bitmap_count_loop_bools bitmap_contains_loop_bools)

text \<open>The group of \<open>cnt\<close> bits at \<open>i\<close> all have value \<open>v\<close>.\<close>

definition group_at :: "bool list \<Rightarrow> nat \<Rightarrow> nat \<Rightarrow> bool \<Rightarrow> bool" where
  "group_at xs i cnt v \<longleftrightarrow> i + cnt \<le> length xs \<and> (\<forall>j<cnt. xs ! (i + j) = v)"

lemma group_at_take: "i + cnt \<le> length xs \<Longrightarrow> group_at xs i cnt v \<longleftrightarrow> (\<not> v) \<notin> set (take cnt (drop i xs))"
  by (auto simp: group_at_def in_set_conv_nth)

lemma bitmap_scan_loop_bools:
  "bitmap_ok b \<Longrightarrow> i + n + cnt = Suc (bit_cnt b) \<Longrightarrow> \<exists>r. bitmap_scan_loop b i n cnt v = Some r \<and>
     (r = BITMAP_ERROR \<and> (\<forall>j\<ge>i. \<not> group_at (bools b) j cnt v) \<or>
      i \<le> r \<and> group_at (bools b) r cnt v \<and> (\<forall>j. i \<le> j \<longrightarrow> j < r \<longrightarrow> \<not> group_at (bools b) j cnt v))"
proof (induction n arbitrary: i)
  case 0
  then show ?case by (auto simp: group_at_def)
next
  case (Suc n)
  then have le: "i + cnt \<le> bit_cnt b" by simp
  note c = bitmap_range_bools(2) [OF Suc.prems(1) le, of "\<not> v"]
  have g: "group_at (bools b) i cnt v \<longleftrightarrow> (\<not> v) \<notin> set (take cnt (drop i (bools b)))"
    by (rule group_at_take) (use le in simp)
  show ?case
  proof (cases "group_at (bools b) i cnt v")
    case True
    then show ?thesis using c g by auto
  next
    case False
    obtain r where r: "bitmap_scan_loop b (Suc i) n cnt v = Some r"
      "r = BITMAP_ERROR \<and> (\<forall>j\<ge>Suc i. \<not> group_at (bools b) j cnt v) \<or>
       Suc i \<le> r \<and> group_at (bools b) r cnt v \<and> (\<forall>j. Suc i \<le> j \<longrightarrow> j < r \<longrightarrow> \<not> group_at (bools b) j cnt v)"
      using Suc.IH [OF Suc.prems(1), of "Suc i"] Suc.prems(2) by auto
    have "bitmap_scan_loop b i (Suc n) cnt v = Some r" using c g False r(1) by simp
    moreover have "r = BITMAP_ERROR \<and> (\<forall>j\<ge>i. \<not> group_at (bools b) j cnt v) \<or>
       i \<le> r \<and> group_at (bools b) r cnt v \<and> (\<forall>j. i \<le> j \<longrightarrow> j < r \<longrightarrow> \<not> group_at (bools b) j cnt v)"
      using r(2) False by (metis Suc_leD Suc_leI le_neq_implies_less)
    ultimately show ?thesis by blast
  qed
qed

lemma bitmap_scan_bools:
  assumes "bitmap_ok b" "start \<le> bit_cnt b"
  shows "\<exists>r. bitmap_scan b start cnt v = Some r \<and>
     (r = BITMAP_ERROR \<and> (\<forall>j\<ge>start. \<not> group_at (bools b) j cnt v) \<or>
      r < BITMAP_ERROR \<and> start \<le> r \<and> group_at (bools b) r cnt v \<and>
        (\<forall>j. start \<le> j \<longrightarrow> j < r \<longrightarrow> \<not> group_at (bools b) j cnt v))"
proof (cases "start + cnt \<le> Suc (bit_cnt b) \<and> cnt \<le> bit_cnt b")
  case True
  then have "start + (Suc (bit_cnt b - cnt) - start) + cnt = Suc (bit_cnt b)" by simp
  from bitmap_scan_loop_bools [OF assms(1) this, of v] show ?thesis
    using assms True by (auto simp: bitmap_scan_def bitmap_ok_def group_at_def)
next
  case False
  then have "cnt \<le> bit_cnt b \<Longrightarrow> Suc (bit_cnt b - cnt) - start = 0" by simp
  then have "bitmap_scan b start cnt v = Some BITMAP_ERROR"
    using assms(2) bitmap_scan_loop.simps(1) by (simp add: bitmap_scan_def Let_def del: diff_is_0_eq)
  then show ?thesis using False by (auto simp: group_at_def)
qed


lemma bitmap_scan_and_flip_bools:
  assumes "bitmap_ok b" "start \<le> bit_cnt b"
  shows "\<exists>b' r. bitmap_scan_and_flip b start cnt v = Some (b', r) \<and> bitmap_ok b' \<and> bit_cnt b' = bit_cnt b \<and>
     (r = BITMAP_ERROR \<and> b' = b \<and> (\<forall>j\<ge>start. \<not> group_at (bools b) j cnt v) \<or>
      r < BITMAP_ERROR \<and> start \<le> r \<and> group_at (bools b) r cnt v \<and>
        (\<forall>j. start \<le> j \<longrightarrow> j < r \<longrightarrow> \<not> group_at (bools b) j cnt v) \<and>
        bools b' = take r (bools b) @ replicate cnt (\<not> v) @ drop (r + cnt) (bools b))"
proof -
  obtain r where r: "bitmap_scan b start cnt v = Some r"
    "r = BITMAP_ERROR \<and> (\<forall>j\<ge>start. \<not> group_at (bools b) j cnt v) \<or>
     r < BITMAP_ERROR \<and> start \<le> r \<and> group_at (bools b) r cnt v \<and>
        (\<forall>j. start \<le> j \<longrightarrow> j < r \<longrightarrow> \<not> group_at (bools b) j cnt v)"
    using bitmap_scan_bools [OF assms] by blast
  show ?thesis
  proof (cases "r = BITMAP_ERROR")
    case True
    then show ?thesis using r assms(1) by (simp add: bitmap_scan_and_flip_def)
  next
    case False
    then have "r + cnt \<le> bit_cnt b" using r(2) by (auto simp: group_at_def)
    from bitmap_set_multiple_bools [OF assms(1) this, of "\<not> v"] show ?thesis
      using r False by (auto simp: bitmap_scan_and_flip_def)
  qed
qed

lemma bitmap_scan_and_flip_least:
  assumes "bitmap_ok b" "start \<le> bit_cnt b"
  shows "\<exists>b' r. bitmap_scan_and_flip b start cnt v = Some (b', r) \<and> bitmap_ok b' \<and>
     (if \<exists>j\<ge>start. group_at (bools b) j cnt v
      then r = (LEAST j. start \<le> j \<and> group_at (bools b) j cnt v) \<and>
        bools b' = take r (bools b) @ replicate cnt (\<not> v) @ drop (r + cnt) (bools b)
      else r = BITMAP_ERROR \<and> b' = b)"
proof -
  obtain b' r where r: "bitmap_scan_and_flip b start cnt v = Some (b', r)" "bitmap_ok b'"
    "r = BITMAP_ERROR \<and> b' = b \<and> (\<forall>j\<ge>start. \<not> group_at (bools b) j cnt v) \<or>
      r < BITMAP_ERROR \<and> start \<le> r \<and> group_at (bools b) r cnt v \<and>
        (\<forall>j. start \<le> j \<longrightarrow> j < r \<longrightarrow> \<not> group_at (bools b) j cnt v) \<and>
        bools b' = take r (bools b) @ replicate cnt (\<not> v) @ drop (r + cnt) (bools b)"
    using bitmap_scan_and_flip_bools [OF assms] by blast
  show ?thesis
  proof (cases "\<exists>j\<ge>start. group_at (bools b) j cnt v")
    case True
    then have l: "start \<le> r" "group_at (bools b) r cnt v" "\<forall>j. start \<le> j \<longrightarrow> j < r \<longrightarrow> \<not> group_at (bools b) j cnt v"
      "bools b' = take r (bools b) @ replicate cnt (\<not> v) @ drop (r + cnt) (bools b)" using r(3) by auto
    have "(LEAST j. start \<le> j \<and> group_at (bools b) j cnt v) = r"
      using l(1-3) by (intro Least_equality) (auto simp: not_less [symmetric])
    then show ?thesis using True l(4) r(1,2) by auto
  next
    case False
    then have "r = BITMAP_ERROR" "b' = b" using r(3) by auto
    then show ?thesis using False r(1,2) by auto
  qed
qed

lemma bitmap_set_all_bools:
  assumes "length (bits b) = elem_cnt (bit_cnt b)" "bit_cnt b < BITMAP_ERROR"
  shows "\<exists>b'. bitmap_set_all b v = Some b' \<and> bitmap_ok b' \<and> bools b' = replicate (bit_cnt b) v"
  using bitmap_set_multiple_bools [of b 0 "bit_cnt b" v] assms
  by (auto simp: bitmap_set_all_def bitmap_size_def bitmap_ok_def)

section \<open>Bytes\<close>

lemma length_elem_bytes [simp]: "length (elem_bytes w) = 8"
  by (simp add: elem_bytes_def)

lemma length_bits_bytes [simp]: "length (bits_bytes ws) = 8 * length ws"
  by (induction ws) (simp_all add: bits_bytes_def)

lemma bytes_elem_Cons: "bytes_elem (b # bs) = push_bit 8 (bytes_elem bs) OR ucast b"
  by (simp add: bytes_elem_def)

lemma bit_bytes_elem:
  "k < 64 \<Longrightarrow> bit (bytes_elem bs) k \<longleftrightarrow> k < 8 * length bs \<and> bit (bs ! (k div 8)) (k mod 8)"
proof (induction bs arbitrary: k)
  case Nil
  then show ?case by (simp add: bytes_elem_def)
next
  case (Cons b bs)
  show ?case
  proof (cases "k < 8")
    case True
    then show ?thesis by (simp add: bytes_elem_Cons bit_simps)
  next
    case False
    then have d: "k div 8 = Suc ((k - 8) div 8)" "k mod 8 = (k - 8) mod 8"
      by (simp_all add: le_div_geq le_mod_geq)
    have "\<not> bit (ucast b :: u64) k" using False bit_imp_le_length [of b k] by (auto simp: bit_simps)
    then have "bit (bytes_elem (b # bs)) k = bit (bytes_elem bs) (k - 8)"
      using False Cons.prems by (simp add: bytes_elem_Cons bit_simps)
    also have "\<dots> = (k - 8 < 8 * length bs \<and> bit (bs ! ((k - 8) div 8)) ((k - 8) mod 8))"
      using Cons.prems by (intro Cons.IH) simp
    finally show ?thesis using False unfolding d by auto
  qed
qed

lemma bytes_elem_elem_bytes: "bytes_elem (elem_bytes w) = w"
proof (rule bit_word_eqI)
  fix k assume "k < LENGTH(64)"
  then have k: "k < 64" by simp
  then have "k div 8 < 8" by simp
  then have "elem_bytes w ! (k div 8) = ucast (drop_bit (8 * (k div 8)) w)" by (simp add: elem_bytes_def)
  then show "bit (bytes_elem (elem_bytes w)) k = bit w k"
    using k by (simp add: bit_bytes_elem bit_simps)
qed

lemma bytes_bits_bits_bytes: "bytes_bits (bits_bytes ws) = ws"
proof (induction ws)
  case Nil
  then show ?case by (simp add: bits_bytes_def bytes_bits.simps)
next
  case (Cons w ws)
  have "bits_bytes (w # ws) = elem_bytes w @ bits_bytes ws" by (simp add: bits_bytes_def)
  then show ?case using Cons by (subst bytes_bits.simps) (simp add: bytes_elem_elem_bytes)
qed


lemma bit_last_mask: "i mod 64 < bit_cnt b mod 64 \<or> bit_cnt b mod 64 = 0 \<Longrightarrow> bit (last_mask b) (i mod 64)"
proof -
  have "push_bit n (1 :: u64) - 1 = mask n" for n by (simp add: mask_eq_exp_minus_1 push_bit_of_1)
  moreover assume "i mod 64 < bit_cnt b mod 64 \<or> bit_cnt b mod 64 = 0"
  ultimately show ?thesis by (auto simp: last_mask_def Let_def bit_simps)
qed

lemma last_elem_mod:
  assumes "i < n" "i div 64 = DIV_ROUND_UP n 64 - 1" "n mod 64 \<noteq> 0"
  shows "i mod 64 < n mod (64 :: nat)"
proof -
  have "DIV_ROUND_UP n 64 = n div 64 + 1"
  proof -
    have "n + 64 - 1 = (n mod 64 + 63) + 64 * (n div 64)" by simp
    then have "(n + 64 - 1) div 64 = (n mod 64 + 63) div 64 + n div 64" by (metis div_mult_self2 zero_neq_numeral add.commute)
    moreover have "(n mod 64 + 63) div 64 = 1" using assms(3) by (intro div_nat_eqI) auto
    ultimately show ?thesis by (simp add: DIV_ROUND_UP_def)
  qed
  then have "i div 64 = n div 64" using assms(2) by simp
  then show ?thesis using assms(1) by (metis div_mult_mod_eq nat_add_left_cancel_less)
qed

section \<open>Handing out slots\<close>

text \<open>
  The interface of a map of slots: \<open>view\<close> lists which slots are in use; \<open>scan_flip\<close> finds the
  first group of equal bits and turns them over, \<open>set_range\<close> sets a range.
\<close>

locale slot_map =
  fixes ok :: "'b \<Rightarrow> bool"
    and view :: "'b \<Rightarrow> bool list"
    and scan_flip :: "'b \<Rightarrow> nat \<Rightarrow> nat \<Rightarrow> bool \<Rightarrow> ('b \<times> nat) option"
    and set_range :: "'b \<Rightarrow> nat \<Rightarrow> nat \<Rightarrow> bool \<Rightarrow> 'b option"
  assumes scan_flip: "ok b \<Longrightarrow> start \<le> length (view b) \<Longrightarrow> \<exists>b' r. scan_flip b start cnt v = Some (b', r) \<and> ok b' \<and>
      (r = BITMAP_ERROR \<and> b' = b \<and> (\<forall>j\<ge>start. \<not> group_at (view b) j cnt v) \<or>
       r < BITMAP_ERROR \<and> start \<le> r \<and> group_at (view b) r cnt v \<and>
         (\<forall>j. start \<le> j \<longrightarrow> j < r \<longrightarrow> \<not> group_at (view b) j cnt v) \<and>
         view b' = take r (view b) @ replicate cnt (\<not> v) @ drop (r + cnt) (view b))"
    and set_range: "ok b \<Longrightarrow> start + cnt \<le> length (view b) \<Longrightarrow> \<exists>b'. set_range b start cnt v = Some b' \<and> ok b' \<and>
         view b' = take start (view b) @ replicate cnt v @ drop (start + cnt) (view b)"
begin

definition used :: "'b \<Rightarrow> nat set" where
  "used b = {i. i < length (view b) \<and> view b ! i}"

lemma used_overwrite:
  "start + cnt \<le> length xs \<Longrightarrow> {i. i < length (take start xs @ replicate cnt v @ drop (start + cnt) xs) \<and>
      (take start xs @ replicate cnt v @ drop (start + cnt) xs) ! i} =
    ({i. i < length xs \<and> xs ! i} - {start..<start + cnt}) \<union> (if v then {start..<start + cnt} else {})"
  by (auto simp: nth_append split: if_splits)

lemma scan_result:
  assumes "ok b" "scan_flip b 0 cnt False = Some (b', r)"
  shows "ok b' \<and> (r = BITMAP_ERROR \<and> b' = b \<and> (\<forall>j. \<not> group_at (view b) j cnt False) \<or>
     r < BITMAP_ERROR \<and> group_at (view b) r cnt False \<and>
         view b' = take r (view b) @ replicate cnt True @ drop (r + cnt) (view b))"
  using scan_flip [OF assms(1) le0, of cnt False] assms(2) by (elim exE) auto

text \<open>Taking \<open>cnt\<close> slots: they were free, are used afterwards, and no others change.\<close>

lemma take_slots:
  assumes "ok b" "scan_flip b 0 cnt False = Some (b', r)"
  shows "ok b' \<and> length (view b') = length (view b) \<and>
    (if r = BITMAP_ERROR then b' = b \<and> (\<forall>j. \<not> group_at (view b) j cnt False)
     else r + cnt \<le> length (view b) \<and> {r..<r + cnt} \<inter> used b = {} \<and> used b' = used b \<union> {r..<r + cnt})"
proof -
  note c = scan_result [OF assms(1,2)]
  show ?thesis
  proof (cases "r = BITMAP_ERROR")
    case True
    then show ?thesis using c by auto
  next
    case False
    then have g: "group_at (view b) r cnt False" "view b' = take r (view b) @ replicate cnt True @ drop (r + cnt) (view b)"
      using c by auto
    then have le: "r + cnt \<le> length (view b)" by (simp add: group_at_def)
    have free: "{r..<r + cnt} \<inter> used b = {}"
    proof -
      have "\<not> view b ! i" if "i \<in> {r..<r + cnt}" for i
      proof -
        obtain j where "i = r + j" "j < cnt" using \<open>i \<in> {r..<r + cnt}\<close> by (metis atLeastLessThan_iff le_Suc_ex nat_add_left_cancel_less)
        then show ?thesis using g(1) by (simp add: group_at_def)
      qed
      then show ?thesis by (auto simp: used_def)
    qed
    have "used b' = used b \<union> {r..<r + cnt}"
      unfolding used_def g(2) used_overwrite [OF le] using free by (auto simp: used_def)
    moreover have "length (view b') = length (view b)" using g(2) le by simp
    ultimately show ?thesis using False c free le by simp
  qed
qed

lemma give_slots:
  assumes "ok b" "start + cnt \<le> length (view b)"
  shows "\<exists>b'. set_range b start cnt False = Some b' \<and> ok b' \<and> length (view b') = length (view b) \<and>
    used b' = used b - {start..<start + cnt}"
proof -
  obtain b' where b': "set_range b start cnt False = Some b'" "ok b'"
    "view b' = take start (view b) @ replicate cnt False @ drop (start + cnt) (view b)"
    using set_range [OF assms] by blast
  have "used b' = used b - {start..<start + cnt}"
    unfolding used_def b'(3) used_overwrite [OF assms(2)] by simp
  then show ?thesis using b' assms(2) by simp
qed

text \<open>Giving back what was taken restores the map.\<close>

lemma take_give:
  assumes "ok b" "scan_flip b 0 cnt False = Some (b', r)" "r \<noteq> BITMAP_ERROR"
  shows "\<exists>b''. set_range b' r cnt False = Some b'' \<and> ok b'' \<and> view b'' = view b"
proof -
  note c = scan_result [OF assms(1,2)]
  have g: "ok b'" "group_at (view b) r cnt False" "view b' = take r (view b) @ replicate cnt True @ drop (r + cnt) (view b)"
    using c assms(3) by auto
  then have le: "r + cnt \<le> length (view b)" by (simp add: group_at_def)
  have "r + cnt \<le> length (view b')" using g(3) le by simp
  from set_range [OF g(1) this, of False] obtain b'' where b'': "set_range b' r cnt False = Some b''" "ok b''"
    "view b'' = take r (view b') @ replicate cnt False @ drop (r + cnt) (view b')" by blast
  have "replicate cnt False = take cnt (drop r (view b))"
    using g(2) le by (intro nth_equalityI) (auto simp: group_at_def)
  then have "view b'' = take r (view b) @ take cnt (drop r (view b)) @ drop (r + cnt) (view b)"
    using b''(3) g(3) le by simp
  also have "\<dots> = view b" by (metis append_take_drop_id drop_drop add.commute)
  finally show ?thesis using b'' by blast
qed

end

interpretation bm: slot_map bitmap_ok bools bitmap_scan_and_flip bitmap_set_multiple
proof
  show "\<exists>b' r. bitmap_scan_and_flip b start cnt v = Some (b', r) \<and> bitmap_ok b' \<and>
      (r = BITMAP_ERROR \<and> b' = b \<and> (\<forall>j\<ge>start. \<not> group_at (bools b) j cnt v) \<or>
       r < BITMAP_ERROR \<and> start \<le> r \<and> group_at (bools b) r cnt v \<and>
         (\<forall>j. start \<le> j \<longrightarrow> j < r \<longrightarrow> \<not> group_at (bools b) j cnt v) \<and>
         bools b' = take r (bools b) @ replicate cnt (\<not> v) @ drop (r + cnt) (bools b))"
    if "bitmap_ok b" "start \<le> length (bools b)" for b start cnt v
    using bitmap_scan_and_flip_bools [of b start cnt v] that unfolding length_bools by blast
  show "\<exists>b'. bitmap_set_multiple b start cnt v = Some b' \<and> bitmap_ok b' \<and>
      bools b' = take start (bools b) @ replicate cnt v @ drop (start + cnt) (bools b)"
    if "bitmap_ok b" "start + cnt \<le> length (bools b)" for b start cnt v
    using bitmap_set_multiple_bools [of b start cnt v] that unfolding length_bools by blast
qed

lemma bitmap_all_used:
  assumes "bitmap_ok b" "start + cnt \<le> bit_cnt b"
  shows "bitmap_all b start cnt = Some ({start..<start + cnt} \<subseteq> bm.used b)"
  using assms(2) by (auto simp: bitmap_range_bools(5) [OF assms] bm.used_def in_set_conv_nth subset_iff)
    (metis add.commute le_add_diff_inverse less_diff_conv2 nat_le_linear)+

section \<open>What bitmaps promise\<close>


definition sample_bitmap :: bitmap where
  "sample_bitmap = \<lparr>bit_cnt = 70, bits = [0xFF00000000000000, 0x03]\<rparr>"

lemma sample_bitmap_ok: "bitmap_ok sample_bitmap"
  by (simp add: sample_bitmap_def bitmap_ok_def elem_cnt_def DIV_ROUND_UP_def BITMAP_ERROR_def)


text \<open>
  C34: \<open>bitmap_scan\<close> always returns and gives the first position at or after \<open>start\<close> where a group
  of \<open>cnt\<close> equal bits begins, and \<open>BITMAP_ERROR\<close> exactly when there is none.
\<close>

theorem bitmap_scan_finds_first:
  assumes "bitmap_ok b" and "start \<le> bit_cnt b"
  shows "\<exists>r. bitmap_scan b start cnt v = Some r \<and>
    (if \<exists>j\<ge>start. group_at (bools b) j cnt v then r = (LEAST j. start \<le> j \<and> group_at (bools b) j cnt v)
     else r = BITMAP_ERROR)"
proof -
  obtain r where r: "bitmap_scan b start cnt v = Some r"
    "r = BITMAP_ERROR \<and> (\<forall>j\<ge>start. \<not> group_at (bools b) j cnt v) \<or>
     r < BITMAP_ERROR \<and> start \<le> r \<and> group_at (bools b) r cnt v \<and>
        (\<forall>j. start \<le> j \<longrightarrow> j < r \<longrightarrow> \<not> group_at (bools b) j cnt v)"
    using bitmap_scan_bools [OF assms] by blast
  have "r = (LEAST j. start \<le> j \<and> group_at (bools b) j cnt v)"
    if "start \<le> r" "group_at (bools b) r cnt v" "\<forall>j. start \<le> j \<longrightarrow> j < r \<longrightarrow> \<not> group_at (bools b) j cnt v"
    by (rule Least_equality [symmetric]) (use that not_less in blast)+
  then show ?thesis using r by auto
qed

theorem bitmap_scan_finds_first_witness: "bitmap_scan sample_bitmap 3 60 False = Some BITMAP_ERROR"
proof -
  have "\<not> (\<exists>j\<ge>3. group_at (bools sample_bitmap) j 60 False)"
  proof
    assume "\<exists>j\<ge>3. group_at (bools sample_bitmap) j 60 False"
    then obtain j where j: "j \<ge> 3" "group_at (bools sample_bitmap) j 60 False" by blast
    then have "j \<le> 10" by (simp add: group_at_def sample_bitmap_def)
    moreover have "\<forall>i<60. \<not> bools sample_bitmap ! (j + i)" using j(2) by (simp add: group_at_def)
    then have "\<not> bools sample_bitmap ! (j + (62 - j))" using j(1) by simp
    ultimately have "\<not> bools sample_bitmap ! 62" by simp
    moreover have "bools sample_bitmap ! 62" by code_simp
    ultimately show False by blast
  qed
  moreover have "3 \<le> bit_cnt sample_bitmap" by (simp add: sample_bitmap_def)
  ultimately show ?thesis
    using bitmap_scan_finds_first [OF sample_bitmap_ok, of 3 60 False] by (metis (no_types, lifting))
qed

text \<open>
  A bitmap that has been written to a file is read back bit by bit, into any bitmap of the
  same size.
\<close>

theorem bitmap_file_round_trip:
  assumes "bitmap_ok b" and "bitmap_ok b0" and "bit_cnt b0 = bit_cnt b"
  shows "\<exists>b'. bitmap_read b0 (bits_bytes (bits b)) = (b', True) \<and> bitmap_ok b' \<and> bools b' = bools b"
proof (cases "bit_cnt b = 0")
  case True
  then show ?thesis using assms by (simp add: bitmap_read_def bools_def)
next
  case False
  let ?i = "elem_cnt (bit_cnt b) - 1"
  let ?b = "b0\<lparr>bits := (bits b)[?i := bits b ! ?i AND last_mask b0]\<rparr>"
  have l: "length (bits b) = elem_cnt (bit_cnt b)" "length (bits b0) = elem_cnt (bit_cnt b)"
    using assms by (simp_all add: bitmap_ok_def)
  have r: "bitmap_read b0 (bits_bytes (bits b)) = (?b, True)"
    using False assms(3) l by (simp add: bitmap_read_def Let_def bytes_bits_bits_bytes byte_cnt_def)
  have "bools ?b = bools b"
  proof (rule nth_equalityI)
    fix i assume "i < length (bools ?b)"
    then have i: "i < bit_cnt b" using assms(3) by simp
    show "bools ?b ! i = bools b ! i"
    proof (cases "elem_idx i = ?i")
      case True
      have "bit (last_mask b0) (i mod 64)"
        using last_elem_mod [OF i] True assms(3) by (intro bit_last_mask) (auto simp: elem_idx_def elem_cnt_def)
      then have "bit (bits b ! ?i AND last_mask b0) (i mod 64) = bit (bits b ! ?i) (i mod 64)" by (simp add: bit_and_iff)
      then show ?thesis using i assms(3) elem_idx_less [OF i assms(1)] True by (simp add: bools_def)
    next
      case False
      then show ?thesis using i assms(3) by (simp add: bools_def)
    qed
  qed (use assms(3) in simp)
  moreover have "bitmap_ok ?b" using assms by (simp add: bitmap_ok_def)
  ultimately show ?thesis using r by blast
qed

theorem bitmap_file_round_trip_witness:
  "\<exists>b'. bitmap_read \<lparr>bit_cnt = 70, bits = [1, - 1]\<rparr> (bits_bytes (bits sample_bitmap)) = (b', True) \<and>
    bools b' = bools sample_bitmap"
proof -
  have "bitmap_ok \<lparr>bit_cnt = 70, bits = [1, - 1]\<rparr>"
    by (simp add: bitmap_ok_def elem_cnt_def DIV_ROUND_UP_def BITMAP_ERROR_def)
  from bitmap_file_round_trip [OF sample_bitmap_ok this] show ?thesis by (auto simp: sample_bitmap_def)
qed

end
