(* ===== verification/Palloc.thy ===== *)
theory Palloc
  imports Bitmap
begin

text \<open>
  The page allocator: threads/palloc.c. Two pools of pages, each with a bitmap of the pages in
  use, and the division of the memory map of the BIOS among them. Taking and releasing the lock
  of a pool around the scan is left out: the theory on locks shows that what happens between is
  one step. Addresses are natural numbers.
\<close>

section \<open>Pools\<close>

abbreviation (input) PGSIZE :: nat where "PGSIZE \<equiv> 4096"

definition pg_no :: "addr \<Rightarrow> nat" where "pg_no va = va div PGSIZE"
definition pg_ofs :: "addr \<Rightarrow> nat" where "pg_ofs va = va mod PGSIZE"

abbreviation (input) PAL_ASSERT :: u32 where "PAL_ASSERT \<equiv> 1"
abbreviation (input) PAL_ZERO :: u32 where "PAL_ZERO \<equiv> 2"
abbreviation (input) PAL_USER :: u32 where "PAL_USER \<equiv> 4"

record pool =
  used_map :: bitmap
  base :: addr

record palloc =
  kernel_pool :: pool
  user_pool :: pool
  memory :: "addr \<Rightarrow> u8"

definition memset_range :: "addr \<Rightarrow> u8 \<Rightarrow> nat \<Rightarrow> palloc \<Rightarrow> palloc" where
  "memset_range p v n s = s\<lparr>memory := (\<lambda>a. if p \<le> a \<and> a < p + n then v else memory s a)\<rparr>"

definition set_pool :: "bool \<Rightarrow> pool \<Rightarrow> palloc \<Rightarrow> palloc" where
  "set_pool user p s = (if user then s\<lparr>user_pool := p\<rparr> else s\<lparr>kernel_pool := p\<rparr>)"

definition get_pool :: "bool \<Rightarrow> palloc \<Rightarrow> pool" where
  "get_pool user s = (if user then user_pool s else kernel_pool s)"

definition page_from_pool :: "pool \<Rightarrow> addr \<Rightarrow> bool" where
  "page_from_pool pool page \<longleftrightarrow>
     (let page_no = pg_no page;
          start_page = pg_no (base pool);
          end_page = start_page + bitmap_size (used_map pool)
      in page_no \<ge> start_page \<and> page_no < end_page)"

section \<open>Operations\<close>

definition palloc_get_multiple :: "u32 \<Rightarrow> nat \<Rightarrow> palloc \<Rightarrow> (palloc \<times> addr) option" where
  "palloc_get_multiple flags page_cnt s = do {
     let user = (flags AND PAL_USER \<noteq> 0);
     let pool = get_pool user s;
     (bm, page_idx) \<leftarrow> bitmap_scan_and_flip (used_map pool) 0 page_cnt False;
     let s = set_pool user (pool\<lparr>used_map := bm\<rparr>) s;
     let pages = (if page_idx \<noteq> BITMAP_ERROR then base pool + PGSIZE * page_idx else NULL);
     if pages \<noteq> NULL
     then Some (if flags AND PAL_ZERO \<noteq> 0 then memset_range pages 0 (PGSIZE * page_cnt) s else s, pages)
     else do { ASSERT (flags AND PAL_ASSERT = 0); Some (s, pages) } }"

definition palloc_get_page :: "u32 \<Rightarrow> palloc \<Rightarrow> (palloc \<times> addr) option" where
  "palloc_get_page flags s = palloc_get_multiple flags 1 s"

definition palloc_free_multiple :: "addr \<Rightarrow> nat \<Rightarrow> palloc \<Rightarrow> palloc option" where
  "palloc_free_multiple pages page_cnt s = do {
     ASSERT (pg_ofs pages = 0);
     if pages = NULL \<or> page_cnt = 0 then Some s
     else do {
       user \<leftarrow> (if page_from_pool (kernel_pool s) pages then Some False
               else if page_from_pool (user_pool s) pages then Some True else None);
       let pool = get_pool user s;
       let page_idx = pg_no pages - pg_no (base pool);
       let s = memset_range pages 0xcc (PGSIZE * page_cnt) s;
       all \<leftarrow> bitmap_all (used_map pool) page_idx page_cnt;
       ASSERT all;
       bm \<leftarrow> bitmap_set_multiple (used_map pool) page_idx page_cnt False;
       Some (set_pool user (pool\<lparr>used_map := bm\<rparr>) s) } }"

definition palloc_free_page :: "addr \<Rightarrow> palloc \<Rightarrow> palloc option" where
  "palloc_free_page page s = palloc_free_multiple page 1 s"

section \<open>Dividing the memory\<close>

record e820_entry =
  mem_lo :: u32
  mem_hi :: u32
  len_lo :: u32
  len_hi :: u32
  entry_type :: u32

record area =
  area_start :: u64
  area_end :: u64
  area_size :: u64

definition APPEND_HILO :: "u32 \<Rightarrow> u32 \<Rightarrow> u64" where
  "APPEND_HILO hi lo = push_bit 32 (ucast hi) + ucast lo"

definition usable :: "e820_entry \<Rightarrow> bool" where
  "usable e \<longleftrightarrow> entry_type e = 3 \<or> entry_type e = 1"

definition entry_start :: "e820_entry \<Rightarrow> u64" where "entry_start e = APPEND_HILO (mem_hi e) (mem_lo e)"
definition entry_size :: "e820_entry \<Rightarrow> u64" where "entry_size e = APPEND_HILO (len_hi e) (len_lo e)"

definition extend_area :: "e820_entry \<Rightarrow> area \<Rightarrow> area" where
  "extend_area e a =
     (let start = entry_start e;
          size = entry_size e;
          stop = start + size
      in if area_size a = 0 then \<lparr>area_start = start, area_end = stop, area_size = size\<rparr>
         else \<lparr>area_start = (if area_start a > start then start else area_start a),
               area_end = (if area_end a < stop then stop else area_end a),
               area_size = area_size a + size\<rparr>)"

fun resolve_area_info :: "e820_entry list \<Rightarrow> area \<times> area \<Rightarrow> area \<times> area" where
  "resolve_area_info [] as = as"
| "resolve_area_info (e # es) (base_mem, ext_mem) =
     (if usable e
      then if entry_start e < 0x100000 then resolve_area_info es (extend_area e base_mem, ext_mem)
           else resolve_area_info es (base_mem, extend_area e ext_mem)
      else resolve_area_info es (base_mem, ext_mem))"

text \<open>The pool from \<open>start\<close> to \<open>stop\<close>, its bitmap at \<open>bm_base\<close>; \<open>word_at\<close> is what memory holds.\<close>

definition init_pool :: "(nat \<Rightarrow> u64) \<Rightarrow> u64 \<Rightarrow> u64 \<Rightarrow> u64 \<Rightarrow> (pool \<times> u64) option" where
  "init_pool word_at bm_base start stop = do {
     let pgcnt = unat (stop - start) div PGSIZE;
     let bm_pages = DIV_ROUND_UP (bitmap_buf_size pgcnt) PGSIZE * PGSIZE;
     bm \<leftarrow> bitmap_create_in_buf pgcnt (map (\<lambda>i. word_at (unat bm_base + 16 + 8 * i)) [0..<elem_cnt pgcnt]) bm_pages;
     bm \<leftarrow> bitmap_set_all bm True;
     Some (\<lparr>used_map = bm, base = unat start\<rparr>, bm_base + of_nat bm_pages) }"

datatype populate_state = KERN_START | KERN | USER_START | USER

record populate =
  state :: populate_state
  left :: u64
  region_start :: u64
  region_end :: u64
  kern :: "pool option"
  free_start :: u64

definition KERN_BASE :: u64 where "KERN_BASE = 0x8004000000"

text \<open>One round of the loop over the entries, in which the kernel pool is set up.\<close>

definition populate_entry :: "(nat \<Rightarrow> u64) \<Rightarrow> u64 \<Rightarrow> e820_entry \<Rightarrow> populate \<Rightarrow> populate option" where
  "populate_entry word_at user_pages e p = do {
     let start = entry_start e + KERN_BASE;
     let size = entry_size e;
     let size_in_pg = size div 4096;
     let p = p\<lparr>region_end := start + size\<rparr>;
     let p = (if state p = KERN_START then p\<lparr>region_start := start, state := KERN\<rparr> else p);
     case state p of
       KERN_START \<Rightarrow> None
     | KERN \<Rightarrow>
         (if left p > size_in_pg then Some (p\<lparr>left := left p - size_in_pg\<rparr>)
          else do {
            (pool, free) \<leftarrow> init_pool word_at (free_start p) (region_start p) (start + left p * 4096);
            let p = p\<lparr>kern := Some pool, free_start := free\<rparr>;
            Some (if left p = size_in_pg then p\<lparr>left := user_pages, state := USER_START\<rparr>
                  else p\<lparr>region_start := start + left p * 4096,
                         left := user_pages - size_in_pg + left p, state := USER\<rparr>) })
     | USER_START \<Rightarrow> Some (p\<lparr>region_start := start, state := USER\<rparr>)
     | USER \<Rightarrow>
         (if left p > size_in_pg then Some (p\<lparr>left := left p - size_in_pg\<rparr>)
          else do { ASSERT (left p = size); Some p }) }"

fun populate_entries :: "(nat \<Rightarrow> u64) \<Rightarrow> u64 \<Rightarrow> e820_entry list \<Rightarrow> populate \<Rightarrow> populate option" where
  "populate_entries word_at user_pages [] p = Some p"
| "populate_entries word_at user_pages (e # es) p =
     (if usable e then do { p \<leftarrow> populate_entry word_at user_pages e p; populate_entries word_at user_pages es p }
      else populate_entries word_at user_pages es p)"

text \<open>Marking the pages of a region from \<open>start\<close> to \<open>stop\<close> as free, pool by pool.\<close>

partial_function (option) mark_usable :: "u64 \<Rightarrow> u64 \<Rightarrow> palloc \<Rightarrow> palloc option" where
  "mark_usable start stop s = do {
     user \<leftarrow> (if page_from_pool (kernel_pool s) (unat start) then Some False
             else if page_from_pool (user_pool s) (unat start) then Some True else None);
     let pool = get_pool user s;
     let pool_end = of_nat (base pool) + of_nat (bitmap_size (used_map pool)) * (4096 :: u64);
     let page_idx = pg_no (unat start) - pg_no (base pool);
     let page_cnt = unat ((if pool_end < stop then pool_end - start else stop - start) div 4096);
     bm \<leftarrow> bitmap_set_multiple (used_map pool) page_idx page_cnt False;
     let s = set_pool user (pool\<lparr>used_map := bm\<rparr>) s;
     if pool_end < stop then mark_usable pool_end stop s else Some s }"

definition round_up_page :: "u64 \<Rightarrow> u64" where
  "round_up_page va = (va + 4095) AND NOT 0xFFF"

fun mark_entries :: "u64 \<Rightarrow> e820_entry list \<Rightarrow> palloc \<Rightarrow> palloc option" where
  "mark_entries bound [] s = Some s"
| "mark_entries bound (e # es) s =
     (if usable e then
        let start = entry_start e + KERN_BASE;
            stop = start + entry_size e
        in if stop < bound then mark_entries bound es s
           else do {
             s \<leftarrow> mark_usable (round_up_page (if start \<ge> bound then start else bound)) stop s;
             mark_entries bound es s }
      else mark_entries bound es s)"

text \<open>\<open>kernel_end\<close> is the address of \<open>_end\<close>, where the image of the kernel ends.\<close>

definition populate_pools ::
    "(nat \<Rightarrow> u64) \<Rightarrow> (addr \<Rightarrow> u8) \<Rightarrow> u64 \<Rightarrow> u64 \<Rightarrow> e820_entry list \<Rightarrow> area \<Rightarrow> area \<Rightarrow> palloc option" where
  "populate_pools word_at mem kernel_end user_page_limit entries base_mem ext_mem = do {
     let total_pages = (area_size base_mem + area_size ext_mem) div 4096;
     let user_pages = (if total_pages div 2 > user_page_limit then user_page_limit else total_pages div 2);
     let kern_pages = total_pages - user_pages;
     p \<leftarrow> populate_entries word_at user_pages entries
           \<lparr>state = KERN_START, left = kern_pages, region_start = 0, region_end = 0, kern = None,
            free_start = round_up_page kernel_end\<rparr>;
     (user, free) \<leftarrow> init_pool word_at (free_start p) (region_start p) (region_end p);
     k \<leftarrow> kern p;
     mark_entries free entries \<lparr>kernel_pool = k, user_pool = user, memory = mem\<rparr> }"

definition palloc_init :: "(nat \<Rightarrow> u64) \<Rightarrow> (addr \<Rightarrow> u8) \<Rightarrow> u64 \<Rightarrow> u64 \<Rightarrow> e820_entry list \<Rightarrow> (palloc \<times> u64) option" where
  "palloc_init word_at mem kernel_end user_page_limit entries = do {
     let none = \<lparr>area_start = 0, area_end = 0, area_size = 0\<rparr>;
     (base_mem, ext_mem) \<leftarrow> Some (resolve_area_info entries (none, none));
     s \<leftarrow> populate_pools word_at mem kernel_end user_page_limit entries base_mem ext_mem;
     Some (s, area_end ext_mem) }"


section \<open>The pages in use\<close>

definition pool_pages :: "pool \<Rightarrow> nat set" where
  "pool_pages p = {pg_no (base p)..<pg_no (base p) + bit_cnt (used_map p)}"

definition pool_used :: "pool \<Rightarrow> nat set" where
  "pool_used p = (\<lambda>i. pg_no (base p) + i) ` bm.used (used_map p)"

definition pool_ok :: "pool \<Rightarrow> bool" where
  "pool_ok p \<longleftrightarrow> bitmap_ok (used_map p) \<and> pg_ofs (base p) = 0 \<and> base p \<noteq> 0"

definition palloc_ok :: "palloc \<Rightarrow> bool" where
  "palloc_ok s \<longleftrightarrow> pool_ok (kernel_pool s) \<and> pool_ok (user_pool s) \<and>
     pool_pages (kernel_pool s) \<inter> pool_pages (user_pool s) = {}"

definition in_use :: "palloc \<Rightarrow> nat set" where
  "in_use s = pool_used (kernel_pool s) \<union> pool_used (user_pool s)"

lemma pool_access [simp]:
  "get_pool user (set_pool user p s) = p" "get_pool (\<not> user) (set_pool user p s) = get_pool (\<not> user) s"
  "memory (set_pool user p s) = memory s" "get_pool user (memset_range a v n s) = get_pool user s"
  by (simp_all add: get_pool_def set_pool_def memset_range_def)

lemma palloc_ok_pools:
  "palloc_ok s \<longleftrightarrow> pool_ok (get_pool u s) \<and> pool_ok (get_pool (\<not> u) s) \<and>
     pool_pages (get_pool u s) \<inter> pool_pages (get_pool (\<not> u) s) = {}"
  by (cases u) (auto simp: palloc_ok_def get_pool_def)

lemma in_use_pools: "in_use s = pool_used (get_pool u s) \<union> pool_used (get_pool (\<not> u) s)"
  by (cases u) (auto simp: in_use_def get_pool_def)

lemma pool_used_pages: "pool_used p \<subseteq> pool_pages p"
  by (auto simp: pool_used_def pool_pages_def bm.used_def)

lemma page_from_pool_pages: "page_from_pool p a \<longleftrightarrow> pg_no a \<in> pool_pages p"
  by (simp add: page_from_pool_def pool_pages_def bitmap_size_def Let_def)

lemma page_number: "pg_ofs b = 0 \<Longrightarrow> pg_no (b + PGSIZE * i) = pg_no b + i \<and> pg_ofs (b + PGSIZE * i) = 0"
  by (simp add: pg_ofs_def pg_no_def)

lemma image_shift: "(\<lambda>i. (n :: nat) + i) ` {r..<r + c} = {n + r..<n + r + c}"
  by (simp add: ac_simps)

text \<open>Changing the bitmap of one pool.\<close>

lemma set_pool_ok:
  assumes "palloc_ok s" "bitmap_ok um" "bit_cnt um = bit_cnt (used_map (get_pool u s))"
  shows "palloc_ok (set_pool u ((get_pool u s)\<lparr>used_map := um\<rparr>) s)"
  using assms unfolding palloc_ok_pools [of _ u] by (auto simp: pool_ok_def pool_pages_def)

lemma get_multiple_spec:
  assumes "palloc_ok s" "palloc_get_multiple flags cnt s = Some (s', pages)"
  shows "palloc_ok s' \<and> (if pages = NULL then s' = s \<and> flags AND PAL_ASSERT = 0 \<and>
      (\<forall>j. \<not> group_at (bools (used_map (get_pool (flags AND PAL_USER \<noteq> 0) s))) j cnt False)
    else \<exists>r. pages = base (get_pool (flags AND PAL_USER \<noteq> 0) s) + PGSIZE * r \<and> pg_ofs pages = 0 \<and>
      pg_no pages = pg_no (base (get_pool (flags AND PAL_USER \<noteq> 0) s)) + r \<and>
      (\<exists>bm. bitmap_scan_and_flip (used_map (get_pool (flags AND PAL_USER \<noteq> 0) s)) 0 cnt False = Some (bm, r) \<and>
        r \<noteq> BITMAP_ERROR \<and> bit_cnt bm = bit_cnt (used_map (get_pool (flags AND PAL_USER \<noteq> 0) s)) \<and>
        get_pool (flags AND PAL_USER \<noteq> 0) s' = (get_pool (flags AND PAL_USER \<noteq> 0) s)\<lparr>used_map := bm\<rparr> \<and>
        get_pool (\<not> flags AND PAL_USER \<noteq> 0) s' = get_pool (\<not> flags AND PAL_USER \<noteq> 0) s) \<and>
      {pg_no pages..<pg_no pages + cnt} \<subseteq> pool_pages (get_pool (flags AND PAL_USER \<noteq> 0) s) \<and>
      {pg_no pages..<pg_no pages + cnt} \<inter> in_use s = {} \<and>
      in_use s' = in_use s \<union> {pg_no pages..<pg_no pages + cnt} \<and>
      memory s' = (\<lambda>a. if flags AND PAL_ZERO \<noteq> 0 \<and> pages \<le> a \<and> a < pages + PGSIZE * cnt then 0 else memory s a))"
proof -
  define u where "u = (flags AND PAL_USER \<noteq> 0)"
  let ?p = "get_pool u s"
  have ok: "pool_ok ?p" "pool_pages ?p \<inter> pool_pages (get_pool (\<not> u) s) = {}"
    using assms(1) palloc_ok_pools [of s u] by auto
  then have b: "bitmap_ok (used_map ?p)" "pg_ofs (base ?p) = 0" "base ?p \<noteq> 0" by (simp_all add: pool_ok_def)
  obtain bm r where sc: "bitmap_scan_and_flip (used_map ?p) 0 cnt False = Some (bm, r)"
    using assms(2) by (auto simp: palloc_get_multiple_def Let_def u_def bind_eq_Some_conv)
  note t = bm.take_slots [OF b(1) sc]
  have c: "bit_cnt bm = bit_cnt (used_map ?p)" using t by simp
  let ?s = "set_pool u (?p\<lparr>used_map := bm\<rparr>) s"
  have k: "palloc_ok ?s" by (rule set_pool_ok [OF assms(1) _ c]) (use t in simp)
  show ?thesis
  proof (cases "r = BITMAP_ERROR")
    case True
    then have e: "bm = used_map ?p" "\<forall>j. \<not> group_at (bools (used_map ?p)) j cnt False" using t by simp_all
    then have "?s = s" by (simp add: set_pool_def get_pool_def)
    then show ?thesis
      using assms(2) sc True e k by (auto simp: palloc_get_multiple_def Let_def u_def split: if_splits)
  next
    case False
    then have t': "r + cnt \<le> bit_cnt (used_map ?p)" "{r..<r + cnt} \<inter> bm.used (used_map ?p) = {}"
      "bm.used bm = bm.used (used_map ?p) \<union> {r..<r + cnt}"
      using t by simp_all
    define a where "a = base ?p + PGSIZE * r"
    have a: "a \<noteq> NULL" "pg_no a = pg_no (base ?p) + r" "pg_ofs a = 0"
      using b(3) page_number [OF b(2), of r] by (simp_all add: a_def)
    have r: "pages = a" "s' = (if flags AND PAL_ZERO \<noteq> 0 then memset_range a 0 (PGSIZE * cnt) ?s else ?s)"
      using assms(2) sc False a(1) by (auto simp: palloc_get_multiple_def Let_def u_def a_def split: if_splits)
    have g: "get_pool u s' = ?p\<lparr>used_map := bm\<rparr>" "get_pool (\<not> u) s' = get_pool (\<not> u) s" by (simp_all add: r(2))
    have sub: "{pg_no a..<pg_no a + cnt} \<subseteq> pool_pages ?p" using t'(1) by (auto simp: pool_pages_def a(2))
    have new: "(\<lambda>i. pg_no (base ?p) + i) ` {r..<r + cnt} = {pg_no a..<pg_no a + cnt}" unfolding image_shift a(2) by (rule refl)
    have "pool_used (get_pool u s') = pool_used ?p \<union> {pg_no a..<pg_no a + cnt}"
      unfolding g(1) pool_used_def by (simp add: t'(3) image_Un new del: image_add_atLeastLessThan)
    then have iu: "in_use s' = in_use s \<union> {pg_no a..<pg_no a + cnt}"
      unfolding in_use_pools [of _ u] g(2) by blast
    have "pool_used ?p \<inter> {pg_no a..<pg_no a + cnt} = {}"
      unfolding new [symmetric] pool_used_def using t'(2) by auto
    moreover have "pool_used (get_pool (\<not> u) s) \<inter> {pg_no a..<pg_no a + cnt} = {}"
      using pool_used_pages [of "get_pool (\<not> u) s"] sub ok(2) by blast
    ultimately have free: "{pg_no a..<pg_no a + cnt} \<inter> in_use s = {}"
      unfolding in_use_pools [of s u] by blast
    have "palloc_ok s'" using k unfolding r(2) palloc_ok_def by (simp add: memset_range_def)
    moreover have "memory s' = (\<lambda>x. if flags AND PAL_ZERO \<noteq> 0 \<and> a \<le> x \<and> x < a + PGSIZE * cnt then 0 else memory s x)"
      by (auto simp: r(2) memset_range_def set_pool_def fun_eq_iff)
    ultimately show ?thesis
      unfolding u_def [symmetric] r(1) using a sub free iu sc False c g by (auto simp: a_def)
  qed
qed


lemma get_multiple_returns:
  assumes "palloc_ok s"
  shows "palloc_get_multiple flags cnt s = None \<longleftrightarrow> flags AND PAL_ASSERT \<noteq> 0 \<and>
    (\<forall>j. \<not> group_at (bools (used_map (get_pool (flags AND PAL_USER \<noteq> 0) s))) j cnt False)"
proof -
  define u where "u = (flags AND PAL_USER \<noteq> 0)"
  have "pool_ok (get_pool u s)" using assms palloc_ok_pools by blast
  then have b: "bitmap_ok (used_map (get_pool u s))" "base (get_pool u s) \<noteq> 0" by (simp_all add: pool_ok_def)
  obtain bm r where sc: "bitmap_scan_and_flip (used_map (get_pool u s)) 0 cnt False = Some (bm, r)"
    using bitmap_scan_and_flip_bools [OF b(1), of 0 cnt False] by auto
  have "r = BITMAP_ERROR \<longleftrightarrow> (\<forall>j. \<not> group_at (bools (used_map (get_pool u s))) j cnt False)"
    using bm.scan_result [OF b(1) sc] by auto
  then show ?thesis
    using sc b(2) unfolding palloc_get_multiple_def u_def [symmetric] by (simp add: Let_def)
qed

text \<open>Releasing pages of which all are in use, and of which not all are.\<close>

lemma free_multiple_spec:
  assumes "palloc_ok s" "pg_ofs pages = 0" "pages \<noteq> NULL" "0 < cnt"
    and "{pg_no pages..<pg_no pages + cnt} \<subseteq> pool_pages (get_pool u s)"
  shows "if {pg_no pages..<pg_no pages + cnt} \<subseteq> in_use s
    then \<exists>s'. palloc_free_multiple pages cnt s = Some s' \<and> palloc_ok s' \<and>
           in_use s' = in_use s - {pg_no pages..<pg_no pages + cnt} \<and>
           (\<forall>v. pool_pages (get_pool v s') = pool_pages (get_pool v s)) \<and>
           memory s' = (\<lambda>a. if pages \<le> a \<and> a < pages + PGSIZE * cnt then 0xcc else memory s a)
    else palloc_free_multiple pages cnt s = None"
proof -
  let ?p = "get_pool u s"
  let ?m = "memset_range pages 0xcc (PGSIZE * cnt) s"
  let ?r = "pg_no pages - pg_no (base ?p)"
  have ok: "pool_ok ?p" "pool_pages ?p \<inter> pool_pages (get_pool (\<not> u) s) = {}"
    using assms(1) palloc_ok_pools [of s u] by auto
  then have b: "bitmap_ok (used_map ?p)" by (simp add: pool_ok_def)
  have "pg_no pages \<in> pool_pages ?p" using assms(4,5) by (auto simp: subset_iff)
  then have n: "pg_no (base ?p) \<le> pg_no pages" and pool: "page_from_pool ?p pages" "\<not> page_from_pool (get_pool (\<not> u) s) pages"
    using ok(2) by (auto simp: page_from_pool_pages pool_pages_def)
  have "pg_no pages + cnt - 1 \<in> pool_pages ?p" using assms(4,5) by (auto simp: subset_iff)
  then have le: "?r + cnt \<le> bit_cnt (used_map ?p)" using assms(4) n by (auto simp: pool_pages_def)
  have shift: "(\<lambda>i. pg_no (base ?p) + i) ` {?r..<?r + cnt} = {pg_no pages..<pg_no pages + cnt}"
    unfolding image_shift using n by simp
  have all: "bitmap_all (used_map ?p) ?r cnt = Some ({?r..<?r + cnt} \<subseteq> bm.used (used_map ?p))"
    by (rule bitmap_all_used [OF b le])
  have sub: "{pg_no pages..<pg_no pages + cnt} \<subseteq> in_use s \<longleftrightarrow> {?r..<?r + cnt} \<subseteq> bm.used (used_map ?p)"
  proof -
    have "{pg_no pages..<pg_no pages + cnt} \<inter> pool_used (get_pool (\<not> u) s) = {}"
      using assms(5) ok(2) pool_used_pages by blast
    then have "{pg_no pages..<pg_no pages + cnt} \<subseteq> in_use s \<longleftrightarrow> {pg_no pages..<pg_no pages + cnt} \<subseteq> pool_used ?p"
      unfolding in_use_pools [of s u] by blast
    also have "\<dots> \<longleftrightarrow> {?r..<?r + cnt} \<subseteq> bm.used (used_map ?p)"
      unfolding shift [symmetric] pool_used_def by (rule inj_image_subset_iff) simp
    finally show ?thesis .
  qed
  have sel: "(if page_from_pool (kernel_pool s) pages then Some False
      else if page_from_pool (user_pool s) pages then Some True else None) = Some u"
    using pool by (cases u) (auto simp: get_pool_def)
  obtain bm where bm: "bitmap_set_multiple (used_map ?p) ?r cnt False = Some bm" "bitmap_ok bm"
    "bit_cnt bm = bit_cnt (used_map ?p)" "bm.used bm = bm.used (used_map ?p) - {?r..<?r + cnt}"
    using bm.give_slots [OF b, of ?r cnt] le by auto
  let ?s = "set_pool u (?p\<lparr>used_map := bm\<rparr>) ?m"
  have run: "palloc_free_multiple pages cnt s =
      (if {?r..<?r + cnt} \<subseteq> bm.used (used_map ?p) then Some ?s else None)"
    unfolding palloc_free_multiple_def sel using assms(2-4) all bm(1) by (simp add: Let_def)
  have "palloc_ok ?m" using assms(1) by (simp add: palloc_ok_def memset_range_def)
  then have "palloc_ok ?s"
    using set_pool_ok [of ?m bm u] bm(2,3) by simp
  moreover have "in_use ?s = in_use s - {pg_no pages..<pg_no pages + cnt}"
  proof -
    have g: "get_pool u ?s = ?p\<lparr>used_map := bm\<rparr>" "get_pool (\<not> u) ?s = get_pool (\<not> u) s" by simp_all
    have "pool_used (get_pool u ?s) = pool_used ?p - {pg_no pages..<pg_no pages + cnt}"
      unfolding g(1) shift [symmetric] pool_used_def
      by (simp add: bm(4) image_set_diff del: image_add_atLeastLessThan)
    moreover have "pool_used (get_pool (\<not> u) s) \<inter> {pg_no pages..<pg_no pages + cnt} = {}"
      using assms(5) ok(2) pool_used_pages by blast
    ultimately show ?thesis unfolding in_use_pools [of _ u] g(2) by blast
  qed
  moreover have "pool_pages (get_pool v ?s) = pool_pages (get_pool v s)" for v
    using bm(3) by (cases "v = u") (auto simp: pool_pages_def get_pool_def set_pool_def memset_range_def)
  moreover have "memory ?s = (\<lambda>a. if pages \<le> a \<and> a < pages + PGSIZE * cnt then 0xcc else memory s a)"
    by (simp add: memset_range_def)
  ultimately show ?thesis unfolding sub run by auto
qed

section \<open>What the page allocator promises\<close>

text \<open>
  C9: A request for pages returns pages of the pool asked for of which none was in use, at a page
  boundary, zeroed when the caller asks for it, and they alone become in use; nothing outside
  them is written. It returns the null pointer, or panics with \<open>PAL_ASSERT\<close>, exactly when the
  pool has no group of that many free pages.
\<close>

theorem palloc_get_disjoint:
  assumes "palloc_ok s"
  shows "let pool = get_pool (flags AND PAL_USER \<noteq> 0) s;
             full = (\<forall>j. \<not> group_at (bools (used_map pool)) j cnt False)
    in case palloc_get_multiple flags cnt s of
         None \<Rightarrow> full \<and> flags AND PAL_ASSERT \<noteq> 0
       | Some (s', pages) \<Rightarrow> palloc_ok s' \<and>
           (if full then pages = NULL \<and> s' = s \<and> flags AND PAL_ASSERT = 0
            else pages \<noteq> NULL \<and> pg_ofs pages = 0 \<and>
              {pg_no pages..<pg_no pages + cnt} \<subseteq> pool_pages pool \<and>
              {pg_no pages..<pg_no pages + cnt} \<inter> in_use s = {} \<and>
              in_use s' = in_use s \<union> {pg_no pages..<pg_no pages + cnt} \<and>
              memory s' = (\<lambda>a. if flags AND PAL_ZERO \<noteq> 0 \<and> pages \<le> a \<and> a < pages + PGSIZE * cnt
                                then 0 else memory s a))"
proof (cases "palloc_get_multiple flags cnt s")
  case None
  then show ?thesis using get_multiple_returns [OF assms, of flags cnt] by simp
next
  case (Some r)
  obtain s' pages where r: "r = (s', pages)" by (cases r)
  define pool where "pool = get_pool (flags AND PAL_USER \<noteq> 0) s"
  note spec = get_multiple_spec [OF assms Some [unfolded r], folded pool_def]
  have b: "bitmap_ok (used_map pool)"
    using assms palloc_ok_pools [of s "flags AND PAL_USER \<noteq> 0"] by (simp add: pool_ok_def pool_def)
  show ?thesis
  proof (cases "pages = NULL")
    case True
    then show ?thesis using spec assms unfolding Some r by (simp add: pool_def)
  next
    case False
    then obtain bm i where "bitmap_scan_and_flip (used_map pool) 0 cnt False = Some (bm, i)" "i \<noteq> BITMAP_ERROR"
      using spec by auto
    then have "\<not> (\<forall>j. \<not> group_at (bools (used_map pool)) j cnt False)" using bm.scan_result [OF b] by blast
    then show ?thesis using False spec unfolding Some r pool_def [symmetric] by (auto simp: Let_def)
  qed
qed

definition sample_pool :: "addr \<Rightarrow> u64 \<Rightarrow> pool" where
  "sample_pool b w = \<lparr>used_map = \<lparr>bit_cnt = 6, bits = [w]\<rparr>, base = b\<rparr>"

definition sample_palloc :: palloc where
  "sample_palloc = \<lparr>kernel_pool = sample_pool 0x8004000000 0b001011, user_pool = sample_pool 0x8004006000 0b000001,
     memory = (\<lambda>a. 7)\<rparr>"

lemma sample_palloc_ok: "palloc_ok sample_palloc"
  by (simp add: sample_palloc_def palloc_ok_def pool_ok_def sample_pool_def bitmap_ok_def elem_cnt_def
      DIV_ROUND_UP_def BITMAP_ERROR_def pool_pages_def pg_ofs_def pg_no_def)

lemma sample_bools:
  "bools (used_map (kernel_pool sample_palloc)) = [True, True, False, True, False, False]"
proof -
  have "bools \<lparr>bit_cnt = 6, bits = [0b001011]\<rparr> = [True, True, False, True, False, False]" by code_simp
  then show ?thesis by (simp add: sample_palloc_def sample_pool_def)
qed

theorem palloc_get_disjoint_witness:
  "palloc_get_multiple 1 3 sample_palloc = None \<and>
   (case palloc_get_multiple PAL_ZERO 2 sample_palloc of None \<Rightarrow> False
    | Some (s', pages) \<Rightarrow> {pg_no pages..<pg_no pages + 2} \<inter> in_use sample_palloc = {} \<and>
        in_use s' = in_use sample_palloc \<union> {pg_no pages..<pg_no pages + 2})"
proof -
  have "\<not> group_at (bools (used_map (kernel_pool sample_palloc))) j 3 False" for j
  proof -
    have "\<not> group_at [True, True, False, True, False, False] 0 3 False"
      "\<not> group_at [True, True, False, True, False, False] 1 3 False"
      "\<not> group_at [True, True, False, True, False, False] 2 3 False"
      "\<not> group_at [True, True, False, True, False, False] 3 3 False"
      by code_simp+
    moreover have "j = 0 \<or> j = 1 \<or> j = 2 \<or> j = 3" if "group_at [True, True, False, True, False, False] j 3 False"
      using that by (auto simp: group_at_def)
    ultimately show ?thesis unfolding sample_bools by blast
  qed
  then have 1: "palloc_get_multiple 1 3 sample_palloc = None"
    using palloc_get_disjoint [OF sample_palloc_ok, of 1 3] by (auto simp: get_pool_def Let_def split: option.splits prod.splits)
  have "group_at [True, True, False, True, False, False] 4 2 False" by code_simp
  then have g: "(\<forall>j. \<not> group_at (bools (used_map (kernel_pool sample_palloc))) j 2 False) = False"
    unfolding sample_bools by blast
  show ?thesis
    using 1 palloc_get_disjoint [OF sample_palloc_ok, of PAL_ZERO 2]
    by (cases "palloc_get_multiple PAL_ZERO 2 sample_palloc") (auto simp: get_pool_def Let_def g simp del: upt_Suc)
qed

text \<open>
  C35: Pages that have been obtained can be released: they are overwritten with 0xcc, the pages in
  use are again those from before the request, and releasing them a second time panics.
\<close>

theorem palloc_get_free:
  assumes "palloc_ok s" and "palloc_get_multiple flags cnt s = Some (s1, pages)" and "pages \<noteq> NULL" and "0 < cnt"
  shows "\<exists>s2. palloc_free_multiple pages cnt s1 = Some s2 \<and> palloc_ok s2 \<and> in_use s2 = in_use s \<and>
    memory s2 = (\<lambda>a. if pages \<le> a \<and> a < pages + PGSIZE * cnt then 0xcc else memory s a) \<and>
    palloc_free_multiple pages cnt s2 = None"
proof -
  define u where "u = (flags AND PAL_USER \<noteq> 0)"
  let ?R = "{pg_no pages..<pg_no pages + cnt}"
  note g = get_multiple_spec [OF assms(1,2), folded u_def]
  have s1: "palloc_ok s1" "pg_ofs pages = 0" "?R \<inter> in_use s = {}" "in_use s1 = in_use s \<union> ?R"
    "\<And>a. \<not> (pages \<le> a \<and> a < pages + PGSIZE * cnt) \<Longrightarrow> memory s1 a = memory s a"
    using g assms(3) by auto
  have pool: "?R \<subseteq> pool_pages (get_pool u s1)" using g assms(3) by (auto simp: pool_pages_def)
  obtain s2 where s2: "palloc_free_multiple pages cnt s1 = Some s2" "palloc_ok s2" "in_use s2 = in_use s1 - ?R"
    "pool_pages (get_pool u s2) = pool_pages (get_pool u s1)"
    "memory s2 = (\<lambda>a. if pages \<le> a \<and> a < pages + PGSIZE * cnt then 0xcc else memory s1 a)"
    using free_multiple_spec [OF s1(1,2) assms(3,4) pool] s1(4) by auto
  have "in_use s2 = in_use s" using s1(3,4) s2(3) by blast
  moreover have "pg_no pages \<in> ?R" using assms(4) by simp
  then have "\<not> ?R \<subseteq> in_use s2" using s2(3) by blast
  then have "palloc_free_multiple pages cnt s2 = None"
    using free_multiple_spec [OF s2(2) s1(2) assms(3,4), of u] pool s2(4) by simp
  ultimately show ?thesis using s2(1,2,5) s1(5) by auto
qed

theorem palloc_get_free_witness:
  "\<exists>s1 pages s2. palloc_get_multiple PAL_ZERO 2 sample_palloc = Some (s1, pages) \<and> pages \<noteq> NULL \<and>
     palloc_free_multiple pages 2 s1 = Some s2 \<and> in_use s2 = in_use sample_palloc \<and>
     palloc_free_multiple pages 2 s2 = None"
proof -
  have "group_at [True, True, False, True, False, False] 4 2 False" by code_simp
  then have g: "group_at (bools (used_map (get_pool (2 AND PAL_USER \<noteq> 0) sample_palloc))) 4 2 False"
    by (simp add: sample_bools get_pool_def)
  then have "palloc_get_multiple PAL_ZERO 2 sample_palloc \<noteq> None"
    unfolding get_multiple_returns [OF sample_palloc_ok] by blast
  then obtain s1 pages where s1: "palloc_get_multiple PAL_ZERO 2 sample_palloc = Some (s1, pages)" by auto
  then have p: "pages \<noteq> NULL"
    using get_multiple_spec [OF sample_palloc_ok s1] g by (auto split: if_splits)
  from palloc_get_free [OF sample_palloc_ok s1 p] show ?thesis using s1 p by auto
qed

section \<open>A third region panics\<close>

text \<open>
  Once the pool for users has begun, an entry of the memory map that holds the pages still missing
  fails the assertion, which compares a number of pages with a number of bytes.
\<close>

lemma populate_panics:
  assumes "state p = USER" "left p \<le> entry_size e div 4096" "entry_size e \<noteq> 0"
  shows "populate_entry word_at user_pages e p = None"
proof -
  have "unat (entry_size e div 4096) < unat (entry_size e)"
    using assms(3) by (simp add: unat_div_distrib unat_gt_0)
  then have "left p \<noteq> entry_size e" using assms(2) by (auto simp: word_le_nat_alt)
  then show ?thesis using assms by (simp add: populate_entry_def Let_def)
qed
end
