(* ===== verification/Words.thy ===== *)
theory Words
  imports Prelude
begin

text \<open>
  Machine words and memory: the values of words as natural numbers, numbers as bytes with the
  least significant one first, and the memory of bytes that the string functions, the page tables
  and the stack of a process use, read and written a word at a time.
\<close>

section \<open>Values of words\<close>

lemma unat_u32: "unat (x :: u32) < 2 ^ 32"
  using unsigned_less [of x, where 'a = nat] by simp

lemma unat_u64: "unat (x :: u64) < 2 ^ 64"
  using unsigned_less [of x, where 'a = nat] by simp

lemma unat_up: "unat (ucast (x :: u32) :: u64) = unat x"
  using unat_u32 [of x] by (simp add: unsigned_ucast_eq take_bit_nat_eq_self)

lemma unat_down: "unat (ucast (x :: u64) :: u32) = unat x mod 2 ^ 32"
  by (simp add: unsigned_ucast_eq take_bit_eq_mod)

lemma unat_drop: "unat (drop_bit k (x :: 'a :: len word)) = unat x div 2 ^ k"
  unfolding unsigned_drop_bit_eq by (simp only: drop_bit_eq_div take_bit_nat_eq_self [OF unsigned_less])

lemma unat_take: "unat (take_bit k (x :: 'a :: len word)) = unat x mod 2 ^ k"
  by (simp only: unsigned_take_bit_eq) (simp add: take_bit_eq_mod)

lemma unat_plus64: "unat (x :: u64) + unat y < 2 ^ 64 \<Longrightarrow> unat (x + y) = unat x + unat y"
  by (simp add: unat_word_ariths)

lemma unat_push64: "unat (x :: u64) * 2 ^ k < 2 ^ 64 \<Longrightarrow> unat (push_bit k x) = unat x * 2 ^ k"
  by (simp only: unsigned_push_bit_eq) (simp add: push_bit_eq_mult take_bit_nat_eq_self)

lemma unat_of_nat64: "n < 2 ^ 64 \<Longrightarrow> unat (of_nat n :: u64) = n"
  by (simp add: unat_of_nat)

section \<open>Numbers as bytes\<close>

fun le_bytes :: "nat \<Rightarrow> nat \<Rightarrow> u8 list" where
  "le_bytes 0 x = []"
| "le_bytes (Suc n) x = of_nat x # le_bytes n (x div 256)"

fun le_nat :: "u8 list \<Rightarrow> nat" where
  "le_nat [] = 0"
| "le_nat (b # bs) = unat b + 256 * le_nat bs"

lemma length_le_bytes [simp]: "length (le_bytes n x) = n"
  by (induction n arbitrary: x) auto

lemma le_nat_le_bytes: "x < 256 ^ n \<Longrightarrow> le_nat (le_bytes n x) = x"
proof (induction n arbitrary: x)
  case (Suc n)
  then have "x div 256 < 256 ^ n" by (simp add: less_mult_imp_div_less mult.commute)
  then show ?case by (simp add: Suc.IH unat_of_nat)
qed simp

lemma le_nat_less: "le_nat bs < 256 ^ length bs"
proof (induction bs)
  case (Cons b bs)
  have "unat b < 2 ^ LENGTH(8)" by (rule unsigned_less)
  then show ?case using Cons by simp
qed simp

lemma le_nat_zeros: "\<forall>b\<in>set bs. b = 0 \<Longrightarrow> le_nat bs = 0"
  by (induction bs) auto

section \<open>Memory\<close>

type_synonym mem = "addr \<Rightarrow> u8"

definition load_bytes :: "mem \<Rightarrow> addr \<Rightarrow> nat \<Rightarrow> u8 list" where
  "load_bytes m a n = map (\<lambda>i. m (a + i)) [0..<n]"

definition store_bytes :: "mem \<Rightarrow> addr \<Rightarrow> u8 list \<Rightarrow> mem" where
  "store_bytes m a bs = (\<lambda>x. if a \<le> x \<and> x < a + length bs then bs ! (x - a) else m x)"

definition load64 :: "mem \<Rightarrow> addr \<Rightarrow> u64" where
  "load64 m a = of_nat (le_nat (load_bytes m a 8))"

definition store64 :: "mem \<Rightarrow> addr \<Rightarrow> u64 \<Rightarrow> mem" where
  "store64 m a w = store_bytes m a (le_bytes 8 (unat w))"

lemma load_store_bytes: "load_bytes (store_bytes m a bs) a (length bs) = bs"
  by (rule nth_equalityI) (simp_all add: load_bytes_def store_bytes_def)

lemma load_bytes_cong: "\<forall>x. a \<le> x \<and> x < a + n \<longrightarrow> m' x = m x \<Longrightarrow> load_bytes m' a n = load_bytes m a n"
  by (simp add: load_bytes_def)

lemma load64_store64 [simp]: "load64 (store64 m a w) a = w"
proof -
  have "load_bytes (store64 m a w) a 8 = le_bytes 8 (unat w)"
    unfolding store64_def using load_store_bytes [of m a "le_bytes 8 (unat w)"] by (simp only: length_le_bytes)
  moreover have "le_nat (le_bytes 8 (unat w)) = unat w"
    by (rule le_nat_le_bytes) (use unat_u64 [of w] in simp)
  ultimately show ?thesis by (simp only: load64_def of_nat_unat) simp
qed

lemma store64_other: "x < a \<or> a + 8 \<le> x \<Longrightarrow> store64 m a w x = m x"
  by (auto simp: store64_def store_bytes_def)

lemma load64_cong: "\<forall>x. a \<le> x \<and> x < a + 8 \<longrightarrow> m' x = m x \<Longrightarrow> load64 m' a = load64 m a"
  by (simp add: load64_def load_bytes_cong [of a 8 m' m])

lemma load64_store64_other: "b + 8 \<le> a \<or> a + 8 \<le> b \<Longrightarrow> load64 (store64 m a w) b = load64 m b"
  by (rule load64_cong) (auto simp: store64_other)

lemma load64_zero: "\<forall>x. a \<le> x \<and> x < a + 8 \<longrightarrow> m x = 0 \<Longrightarrow> load64 m a = 0"
  by (simp add: load64_def load_bytes_def le_nat_zeros)

end
