(* ===== verification/Disk.thy ===== *)
theory Disk
  imports Words
begin

text \<open>
  What the file system sees of a disk (devices/disk.c, include/devices/disk.h): an array of
  sectors, with the assertions of \<open>select_sector\<close> on the sector number, and the representation of
  integers in a sector. The theories Ata and AtaProps show that the code that drives the ports
  of the controller implements these operations.
\<close>

section \<open>Sectors\<close>

abbreviation (input) DISK_SECTOR_SIZE :: nat where "DISK_SECTOR_SIZE \<equiv> 512"

record disk =
  capacity :: nat
  sectors :: "nat \<Rightarrow> u8 list"
  read_cnt :: nat
  write_cnt :: nat

definition disk_size :: "disk \<Rightarrow> nat" where "disk_size d = capacity d"

definition disk_read :: "disk \<Rightarrow> nat \<Rightarrow> (disk \<times> u8 list) option" where
  "disk_read d sec_no = do {
     ASSERT (sec_no < capacity d);
     ASSERT (sec_no < 2 ^ 28);
     Some (d\<lparr>read_cnt := read_cnt d + 1\<rparr>, sectors d sec_no) }"

definition disk_write :: "disk \<Rightarrow> nat \<Rightarrow> u8 list \<Rightarrow> disk option" where
  "disk_write d sec_no buffer = do {
     ASSERT (sec_no < capacity d);
     ASSERT (sec_no < 2 ^ 28);
     Some (d\<lparr>sectors := (sectors d)(sec_no := buffer), write_cnt := write_cnt d + 1\<rparr>) }"

text \<open>A disk whose sectors have 512 bytes and numbers that fit the controller.\<close>

definition disk_ok :: "disk \<Rightarrow> bool" where
  "disk_ok d \<longleftrightarrow> capacity d \<le> 2 ^ 28 \<and> (\<forall>i. length (sectors d i) = DISK_SECTOR_SIZE)"

lemma disk_read_ok: "disk_ok d \<Longrightarrow> i < capacity d \<Longrightarrow> disk_read d i = Some (d\<lparr>read_cnt := read_cnt d + 1\<rparr>, sectors d i)"
  by (simp add: disk_read_def disk_ok_def)

lemma disk_write_ok:
  "disk_ok d \<Longrightarrow> i < capacity d \<Longrightarrow>
    disk_write d i b = Some (d\<lparr>sectors := (sectors d)(i := b), write_cnt := write_cnt d + 1\<rparr>)"
  by (simp add: disk_write_def disk_ok_def)

lemma disk_ok_read_cnt [simp]: "disk_ok (d\<lparr>read_cnt := n\<rparr>) = disk_ok d"
  by (simp add: disk_ok_def)

lemma disk_ok_sectors: "disk_ok d \<Longrightarrow> length b = DISK_SECTOR_SIZE \<Longrightarrow> disk_ok (d\<lparr>sectors := (sectors d)(i := b), write_cnt := n\<rparr>)"
  by (simp add: disk_ok_def)

section \<open>Integers in a sector\<close>

text \<open>An \<open>int32_t\<close>, in two's complement.\<close>

definition off_bytes :: "int \<Rightarrow> u8 list" where "off_bytes x = le_bytes 4 (nat (x mod 2 ^ 32))"
definition bytes_off :: "u8 list \<Rightarrow> int" where "bytes_off bs = int32 (int (le_nat bs))"

lemma length_off_bytes [simp]: "length (off_bytes x) = 4"
  by (simp add: off_bytes_def)

lemma bytes_off_off_bytes:
  assumes "- (2 ^ 31) \<le> x" "x < 2 ^ 31"
  shows "bytes_off (off_bytes x) = x"
proof -
  have "nat (x mod 2 ^ 32) < 256 ^ 4" by (simp add: nat_less_iff)
  then have "int (le_nat (off_bytes x)) = x mod 2 ^ 32" by (simp add: off_bytes_def le_nat_le_bytes)
  then have "bytes_off (off_bytes x) = (x + 2 ^ 31) mod 2 ^ 32 - 2 ^ 31"
    by (simp add: bytes_off_def int32_def mod_add_left_eq)
  then show ?thesis using assms by simp
qed

end
