(* ===== verification/Inode.thy ===== *)
theory Inode
  imports Disk Bitmap
begin

text \<open>
  Inodes: filesys/inode.c, the state of the file system and the transfer of data. A file is an
  extent of consecutive sectors; reading and writing go sector by sector, through a bounce buffer
  for partial sectors. Reading and writing are shown to be the operations on the list of the
  bytes of the file.

  File offsets are the integers of \<open>off_t\<close>; a negative offset within a sector would leave the
  bounce buffer and is \<open>None\<close>.
\<close>

section \<open>The state\<close>

record inode_disk =
  i_start :: nat
  i_length :: int
  i_magic :: nat

definition INODE_MAGIC :: nat where "INODE_MAGIC = 0x494e4f44"

record inode =
  sector :: nat
  open_cnt :: int
  removed :: bool
  deny_write_cnt :: int
  data :: inode_disk

record open_file =
  f_inode :: addr
  pos :: int
  deny_write :: bool

text \<open>
  The state: the disk, the inodes in memory and the list of the open ones, the open files, the
  free map and its file. \<open>heap\<close> holds the outcomes of the next requests for memory: \<open>True\<close> when
  memory is available, which it is when the list is empty.
\<close>

record fs =
  disk :: disk
  heap :: "bool list"
  inodes :: "addr \<Rightarrow> inode option"
  open_inodes :: "addr list"
  files :: "addr \<Rightarrow> open_file option"
  free_map :: bitmap
  free_map_file :: addr
  next_addr :: addr

definition alloc :: "fs \<Rightarrow> fs \<times> bool" where
  "alloc s = (case heap s of [] \<Rightarrow> (s, True) | b # bs \<Rightarrow> (s\<lparr>heap := bs\<rparr>, b))"

definition bread :: "nat \<Rightarrow> fs \<Rightarrow> (fs \<times> u8 list) option" where
  "bread i s = do { (d, b) \<leftarrow> disk_read (disk s) i; Some (s\<lparr>disk := d\<rparr>, b) }"

definition bwrite :: "nat \<Rightarrow> u8 list \<Rightarrow> fs \<Rightarrow> fs option" where
  "bwrite i b s = do { d \<leftarrow> disk_write (disk s) i b; Some (s\<lparr>disk := d\<rparr>) }"

section \<open>The inode on disk\<close>

definition inode_disk_bytes :: "inode_disk \<Rightarrow> u8 list" where
  "inode_disk_bytes i = le_bytes 4 (i_start i) @ off_bytes (i_length i) @ le_bytes 4 (i_magic i) @ replicate 500 0"

definition bytes_inode_disk :: "u8 list \<Rightarrow> inode_disk" where
  "bytes_inode_disk bs = \<lparr>i_start = le_nat (take 4 bs), i_length = bytes_off (take 4 (drop 4 bs)),
     i_magic = le_nat (take 4 (drop 8 bs))\<rparr>"

text \<open>\<open>off_t\<close> is a 32-bit int, so the sum wraps around; the quotient is returned as a \<open>size_t\<close>.\<close>

definition bytes_to_sectors :: "int \<Rightarrow> nat" where
  "bytes_to_sectors sz = nat (cdiv (int32 (sz + 511)) 512 mod 2 ^ 64)"

section \<open>Reading and writing\<close>

definition inode_length :: "inode \<Rightarrow> int" where
  "inode_length ino = i_length (data ino)"

definition byte_to_sector :: "inode \<Rightarrow> int \<Rightarrow> nat" where
  "byte_to_sector ino p =
     (if p < i_length (data ino) then nat ((int (i_start (data ino)) + cdiv p 512) mod 2 ^ 32) else 2 ^ 32 - 1)"

text \<open>The number of bytes that one round of the loop of a transfer moves.\<close>

definition chunk_size :: "inode \<Rightarrow> int \<Rightarrow> int \<Rightarrow> int" where
  "chunk_size ino sz offset =
     (let sector_ofs = cmod offset 512;
          inode_left = inode_length ino - offset;
          sector_left = 512 - sector_ofs;
          min_left = (if inode_left < sector_left then inode_left else sector_left)
      in if sz < min_left then sz else min_left)"

text \<open>\<open>bounce\<close> says whether the bounce buffer has been allocated; \<open>buf\<close> is what has been read.\<close>

function inode_read_loop :: "inode \<Rightarrow> int \<Rightarrow> int \<Rightarrow> bool \<Rightarrow> u8 list \<Rightarrow> fs \<Rightarrow> (fs \<times> u8 list) option" where
  "inode_read_loop ino sz offset bounce buf s =
     (if sz \<le> 0 then Some (s, buf)
      else let sector_idx = byte_to_sector ino offset;
               sector_ofs = cmod offset 512;
               chunk = chunk_size ino sz offset
           in if chunk \<le> 0 then Some (s, buf)
              else if sector_ofs = 0 \<and> chunk = 512
              then (case bread sector_idx s of
                      None \<Rightarrow> None
                    | Some (s, b) \<Rightarrow> inode_read_loop ino (sz - chunk) (offset + chunk) bounce (buf @ b) s)
              else (case (if bounce then (s, True) else alloc s) of
                      (s, False) \<Rightarrow> Some (s, buf)
                    | (s, True) \<Rightarrow>
                        (case bread sector_idx s of
                           None \<Rightarrow> None
                         | Some (s, b) \<Rightarrow>
                             if sector_ofs < 0 then None
                             else inode_read_loop ino (sz - chunk) (offset + chunk) True
                                    (buf @ take (nat chunk) (drop (nat sector_ofs) b)) s)))"
  by pat_completeness auto
termination by (relation "measure (\<lambda>(ino, sz, _). nat sz)") auto

definition inode_read_at :: "addr \<Rightarrow> int \<Rightarrow> int \<Rightarrow> fs \<Rightarrow> (fs \<times> u8 list) option" where
  "inode_read_at a sz offset s = do {
     ino \<leftarrow> inodes s a;
     inode_read_loop ino sz offset False [] s }"

text \<open>\<open>buf\<close> is the data to write and \<open>n\<close> the number of bytes written.\<close>

function inode_write_loop :: "inode \<Rightarrow> u8 list \<Rightarrow> int \<Rightarrow> int \<Rightarrow> bool \<Rightarrow> nat \<Rightarrow> fs \<Rightarrow> (fs \<times> nat) option" where
  "inode_write_loop ino buf sz offset bounce n s =
     (if sz \<le> 0 then Some (s, n)
      else let sector_idx = byte_to_sector ino offset;
               sector_ofs = cmod offset 512;
               sector_left = 512 - sector_ofs;
               chunk = chunk_size ino sz offset
           in if chunk \<le> 0 then Some (s, n)
              else if sector_ofs = 0 \<and> chunk = 512
              then (case bwrite sector_idx (take 512 (drop n buf)) s of
                      None \<Rightarrow> None
                    | Some s \<Rightarrow> inode_write_loop ino buf (sz - chunk) (offset + chunk) bounce (n + nat chunk) s)
              else (case (if bounce then (s, True) else alloc s) of
                      (s, False) \<Rightarrow> Some (s, n)
                    | (s, True) \<Rightarrow>
                        (case (if sector_ofs > 0 \<or> chunk < sector_left then bread sector_idx s
                               else Some (s, replicate 512 0)) of
                           None \<Rightarrow> None
                         | Some (s, b) \<Rightarrow>
                             if sector_ofs < 0 then None
                             else let b = take (nat sector_ofs) b @ take (nat chunk) (drop n buf) @
                                          drop (nat sector_ofs + nat chunk) b
                                  in (case bwrite sector_idx b s of
                                        None \<Rightarrow> None
                                      | Some s \<Rightarrow> inode_write_loop ino buf (sz - chunk) (offset + chunk) True
                                                    (n + nat chunk) s))))"
  by pat_completeness auto
termination by (relation "measure (\<lambda>(ino, buf, sz, _). nat sz)") auto

declare inode_read_loop.simps [simp del] inode_write_loop.simps [simp del]

definition inode_write_at :: "addr \<Rightarrow> u8 list \<Rightarrow> int \<Rightarrow> int \<Rightarrow> fs \<Rightarrow> (fs \<times> nat) option" where
  "inode_write_at a buf sz offset s = do {
     ino \<leftarrow> inodes s a;
     if deny_write_cnt ino \<noteq> 0 then Some (s, 0)
     else inode_write_loop ino buf sz offset False 0 s }"

section \<open>Denying writes, removal\<close>

definition upd_inode :: "addr \<Rightarrow> (inode \<Rightarrow> inode) \<Rightarrow> fs \<Rightarrow> fs option" where
  "upd_inode a g s = map_option (\<lambda>ino. s\<lparr>inodes := (inodes s)(a \<mapsto> g ino)\<rparr>) (inodes s a)"

definition inode_deny_write :: "addr \<Rightarrow> fs \<Rightarrow> fs option" where
  "inode_deny_write a s = do {
     ino \<leftarrow> inodes s a;
     ASSERT (deny_write_cnt ino + 1 \<le> open_cnt ino);
     upd_inode a (\<lambda>i. i\<lparr>deny_write_cnt := deny_write_cnt i + 1\<rparr>) s }"

definition inode_allow_write :: "addr \<Rightarrow> fs \<Rightarrow> fs option" where
  "inode_allow_write a s = do {
     ino \<leftarrow> inodes s a;
     ASSERT (deny_write_cnt ino > 0);
     ASSERT (deny_write_cnt ino \<le> open_cnt ino);
     upd_inode a (\<lambda>i. i\<lparr>deny_write_cnt := deny_write_cnt i - 1\<rparr>) s }"

definition inode_remove :: "addr \<Rightarrow> fs \<Rightarrow> fs option" where
  "inode_remove a s = upd_inode a (\<lambda>i. i\<lparr>removed := True\<rparr>) s"

definition inode_reopen :: "addr \<Rightarrow> fs \<Rightarrow> (fs \<times> addr) option" where
  "inode_reopen a s =
     (if a \<noteq> NULL then do { s \<leftarrow> upd_inode a (\<lambda>i. i\<lparr>open_cnt := open_cnt i + 1\<rparr>) s; Some (s, a) }
      else Some (s, a))"

definition inode_get_inumber :: "addr \<Rightarrow> fs \<Rightarrow> nat option" where
  "inode_get_inumber a s = map_option sector (inodes s a)"

definition inode_init :: "fs \<Rightarrow> fs" where
  "inode_init s = s\<lparr>open_inodes := []\<rparr>"

section \<open>The bytes of a file\<close>

text \<open>The inode's extent lies on the disk.\<close>

definition extent_ok :: "disk \<Rightarrow> inode_disk \<Rightarrow> bool" where
  "extent_ok d i \<longleftrightarrow> disk_ok d \<and> 0 \<le> i_length i \<and> i_length i < 2 ^ 31 \<and>
     i_start i + bytes_to_sectors (i_length i) \<le> capacity d"

definition extent :: "inode_disk \<Rightarrow> nat set" where
  "extent i = {i_start i..<i_start i + bytes_to_sectors (i_length i)}"

definition byte_at :: "(nat \<Rightarrow> u8 list) \<Rightarrow> inode_disk \<Rightarrow> nat \<Rightarrow> u8" where
  "byte_at secs i k = secs (i_start i + k div 512) ! (k mod 512)"

definition file_bytes :: "disk \<Rightarrow> inode_disk \<Rightarrow> u8 list" where
  "file_bytes d i = map (byte_at (sectors d) i) [0..<nat (i_length i)]"

lemma length_file_bytes [simp]: "length (file_bytes d i) = nat (i_length i)"
  by (simp add: file_bytes_def)

lemma bytes_to_sectors_nat:
  assumes "0 \<le> l" "l < 2 ^ 31 - 511"
  shows "bytes_to_sectors l = (nat l + 511) div 512"
proof -
  have "int32 (l + 511) = l + 511" using assms by (intro int32_id) auto
  moreover have "cdiv (l + 511) 512 = (l + 511) div 512" using assms(1) by (simp add: cdiv_nonneg)
  moreover have "0 \<le> (l + 511) div 512" using assms(1) by simp
  moreover have "(l + 511) div 512 \<le> (2 ^ 31) div 512" using assms(2) by (intro zdiv_mono1) auto
  then have "(l + 511) div 512 < 2 ^ 64" by simp
  ultimately have "bytes_to_sectors l = nat ((l + 511) div 512)" by (simp add: bytes_to_sectors_def)
  then show ?thesis using assms(1) by (simp add: nat_div_distrib nat_add_distrib)
qed

text \<open>A length whose sum wraps around asks for more sectors than any disk has.\<close>

lemma bytes_to_sectors_wrap:
  assumes "2 ^ 31 - 511 \<le> l" "l < 2 ^ 31"
  shows "2 ^ 28 < bytes_to_sectors l"
proof -
  let ?q = "(2 ^ 32 - 511 - l) div 512"
  have "int32 (l + 511) = l + 511 - 2 ^ 32"
  proof -
    have "(l + 511 + 2 ^ 31 - 2 ^ 32) mod 2 ^ 32 = (l + 511 + 2 ^ 31) mod 2 ^ 32" by (rule minus_mod_self2)
    moreover have "(l + 511 + 2 ^ 31 - 2 ^ 32) mod 2 ^ 32 = l + 511 + 2 ^ 31 - 2 ^ 32"
      using assms by (intro mod_pos_pos_trivial) auto
    ultimately show ?thesis unfolding int32_def by linarith
  qed
  moreover have "cdiv (l + 511 - 2 ^ 32) 512 = - ?q" using assms by (simp add: cdiv_neg)
  moreover have q: "0 < ?q" "?q \<le> 2 ^ 22" using assms by auto
  have "(2 ^ 64 - ?q) mod 2 ^ 64 = - ?q mod 2 ^ 64" by (metis add_uminus_conv_diff mod_add_self1)
  moreover have "(2 ^ 64 - ?q) mod 2 ^ 64 = 2 ^ 64 - ?q" using q by (intro mod_pos_pos_trivial) auto
  ultimately have "bytes_to_sectors l = nat (2 ^ 64 - ?q)" by (simp only: bytes_to_sectors_def)
  then show ?thesis using q(2) by simp
qed

lemma extent_length:
  assumes "extent_ok d i"
  shows "0 \<le> i_length i" "i_length i < 2 ^ 31 - 511"
proof -
  have "bytes_to_sectors (i_length i) \<le> 2 ^ 28" using assms by (auto simp: extent_ok_def disk_ok_def)
  then show "i_length i < 2 ^ 31 - 511"
    using bytes_to_sectors_wrap [of "i_length i"] assms by (auto simp: extent_ok_def not_less [symmetric])
qed (use assms in \<open>simp add: extent_ok_def\<close>)

lemma sector_in_extent: "extent_ok d i \<Longrightarrow> k < nat (i_length i) \<Longrightarrow> i_start i + k div 512 \<in> extent i"
  using extent_length [of d i] by (simp add: extent_def bytes_to_sectors_nat)

lemma file_bytes_cong:
  "extent_ok d i \<Longrightarrow> \<forall>x\<in>extent i. sectors d' x = sectors d x \<Longrightarrow> file_bytes d' i = file_bytes d i"
  by (auto simp: file_bytes_def byte_at_def sector_in_extent)

text \<open>The numbers of one round, for an offset within the file.\<close>

lemma round_numbers:
  assumes "extent_ok d (data ino)" "0 \<le> offset" "0 < sz"
  defines "o' \<equiv> nat offset" and "c \<equiv> chunk_size ino sz offset"
  shows "c = min sz (min (i_length (data ino) - offset) (512 - offset mod 512))"
    "cmod offset 512 = offset mod 512"
    "0 < c \<Longrightarrow> byte_to_sector ino offset = i_start (data ino) + o' div 512"
    "0 < c \<Longrightarrow> i_start (data ino) + o' div 512 < capacity d"
    "0 < c \<Longrightarrow> offset mod 512 + c \<le> 512" "0 < c \<Longrightarrow> offset + c \<le> i_length (data ino)" "0 < c \<Longrightarrow> c \<le> sz"
proof -
  show m: "cmod offset 512 = offset mod 512" using assms(2) by (simp add: cmod_nonneg)
  show c: "c = min sz (min (i_length (data ino) - offset) (512 - offset mod 512))"
    unfolding c_def chunk_size_def m inode_length_def by (auto simp: Let_def min_def)
  show "0 < c \<Longrightarrow> offset mod 512 + c \<le> 512" "0 < c \<Longrightarrow> offset + c \<le> i_length (data ino)" "0 < c \<Longrightarrow> c \<le> sz"
    unfolding c by auto
  assume "0 < c"
  then have l: "offset < i_length (data ino)" unfolding c by auto
  then have "o' < nat (i_length (data ino))" using assms(2) by (simp add: o'_def)
  then have "i_start (data ino) + o' div 512 \<in> extent (data ino)"
    by (rule sector_in_extent [OF assms(1)])
  then show cap: "i_start (data ino) + o' div 512 < capacity d"
    using assms(1) by (auto simp: extent_ok_def extent_def)
  have "i_start (data ino) + o' div 512 < 2 ^ 32" using cap assms(1) by (auto simp: extent_ok_def disk_ok_def)
  moreover have "int (i_start (data ino)) + cdiv offset 512 = int (i_start (data ino) + o' div 512)"
    using assms(2) by (simp add: cdiv_nonneg o'_def zdiv_int)
  ultimately show "byte_to_sector ino offset = i_start (data ino) + o' div 512"
    using l unfolding byte_to_sector_def by simp
qed

lemma div_mod_split: "r < 512 \<Longrightarrow> (r + 512 * q) div 512 = q \<and> (r + 512 * q) mod 512 = (r :: nat)"
  by simp

lemma shift_in_sector:
  fixes o' :: nat
  assumes "o' mod 512 + i < 512"
  shows "(o' + i) div 512 = o' div 512 \<and> (o' + i) mod 512 = o' mod 512 + i"
proof -
  have "o' + i = (o' mod 512 + i) + 512 * (o' div 512)" using mod_mult_div_eq [of o' 512] by linarith
  then show ?thesis using div_mod_split [OF assms, of "o' div 512"] by metis
qed

text \<open>A piece of a sector is a piece of the file.\<close>

lemma chunk_bytes:
  assumes "length (secs (i_start i + o' div 512)) = 512" "o' mod 512 + c \<le> 512"
  shows "take c (drop (o' mod 512) (secs (i_start i + o' div 512))) = map (byte_at secs i) [o'..<o' + c]"
proof (rule nth_equalityI)
  fix k assume "k < length (take c (drop (o' mod 512) (secs (i_start i + o' div 512))))"
  then have k: "k < c" using assms by auto
  then have "(o' + k) div 512 = o' div 512 \<and> (o' + k) mod 512 = o' mod 512 + k"
    using assms(2) by (intro shift_in_sector) simp
  then show "take c (drop (o' mod 512) (secs (i_start i + o' div 512))) ! k = map (byte_at secs i) [o'..<o' + c] ! k"
    using k assms by (simp add: byte_at_def)
qed (use assms in simp)


lemma file_bytes_piece:
  assumes "extent_ok d i" "o' + c \<le> nat (i_length i)" "o' mod 512 + c \<le> 512"
  shows "take c (drop (o' mod 512) (sectors d (i_start i + o' div 512))) = take c (drop o' (file_bytes d i))"
proof -
  have "take c (drop (o' mod 512) (sectors d (i_start i + o' div 512))) = map (byte_at (sectors d) i) [o'..<o' + c]"
    using assms by (intro chunk_bytes) (auto simp: extent_ok_def disk_ok_def)
  also have "\<dots> = take c (drop o' (file_bytes d i))"
    using assms(2) by (simp add: file_bytes_def drop_map take_map drop_upt)
  finally show ?thesis .
qed

section \<open>Reading\<close>

text \<open>Only the outcomes of requests for memory and the count of sectors read differ.\<close>

definition quiet :: "fs \<Rightarrow> fs \<Rightarrow> bool" where
  "quiet s s' \<longleftrightarrow> sectors (disk s') = sectors (disk s) \<and> capacity (disk s') = capacity (disk s) \<and>
     write_cnt (disk s') = write_cnt (disk s) \<and> inodes s' = inodes s \<and> open_inodes s' = open_inodes s \<and>
     files s' = files s \<and> free_map s' = free_map s \<and> free_map_file s' = free_map_file s \<and>
     next_addr s' = next_addr s \<and> (heap s = [] \<longrightarrow> heap s' = [])"

lemma quiet_refl [simp]: "quiet s s"
  by (simp add: quiet_def)

lemma quiet_trans: "quiet s1 s2 \<Longrightarrow> quiet s2 s3 \<Longrightarrow> quiet s1 s3"
  by (simp add: quiet_def)

lemma quiet_frame:
  assumes "quiet s s'"
  shows "sectors (disk s') = sectors (disk s)" "capacity (disk s') = capacity (disk s)" "inodes s' = inodes s"
    "open_inodes s' = open_inodes s" "files s' = files s" "free_map s' = free_map s"
    "free_map_file s' = free_map_file s" "next_addr s' = next_addr s" "heap s = [] \<Longrightarrow> heap s' = []"
    "disk_ok (disk s') = disk_ok (disk s)" "file_bytes (disk s') = file_bytes (disk s)"
    "extent_ok (disk s') = extent_ok (disk s)"
  using assms by (simp_all add: quiet_def file_bytes_def extent_ok_def [abs_def] disk_ok_def [abs_def] fun_eq_iff byte_at_def)

lemma quiet_alloc: "alloc s = (s', b) \<Longrightarrow> quiet s s' \<and> (heap s = [] \<longrightarrow> b)"
  by (auto simp: alloc_def quiet_def split: list.splits)

lemma bread_ok:
  assumes "disk_ok (disk s)" "i < capacity (disk s)"
  shows "\<exists>s'. bread i s = Some (s', sectors (disk s) i) \<and> quiet s s'"
  using assms by (auto simp: bread_def quiet_def disk_read_ok)

lemma inode_read_loop_spec:
  assumes "extent_ok (disk s) (data ino)" "0 \<le> offset"
  shows "\<exists>s' m. inode_read_loop ino sz offset bounce buf s =
      Some (s', buf @ take m (drop (nat offset) (file_bytes (disk s) (data ino)))) \<and>
    quiet s s' \<and> m \<le> nat sz \<and> (heap s = [] \<longrightarrow> m = nat sz)"
  using assms
proof (induction "nat sz" arbitrary: sz offset bounce buf s rule: less_induct)
  case less
  let ?i = "data ino"
  let ?fb = "file_bytes (disk s) ?i"
  let ?c = "chunk_size ino sz offset"
  show ?case
  proof (cases "0 < sz \<and> 0 < ?c")
    case False
    have "buf @ take (nat sz) (drop (nat offset) ?fb) = buf"
    proof (cases "0 < sz")
      case True
      then have "?c \<le> 0" using False by simp
      then have "i_length ?i \<le> offset" using round_numbers(1) [OF less.prems True] True by (auto simp: min_def split: if_splits)
      then show ?thesis by simp
    qed simp
    moreover have "inode_read_loop ino sz offset bounce buf s = Some (s, buf)"
      using False by (subst inode_read_loop.simps) (auto simp: Let_def)
    ultimately show ?thesis by (metis order_refl quiet_refl)
  next
    case True
    then have sz: "0 < sz" and c: "0 < ?c" by auto
    note n = round_numbers [OF less.prems sz]
    have ok: "disk_ok (disk s)" using less.prems(1) by (simp add: extent_ok_def)
    let ?n = "i_start ?i + nat offset div 512"
    have cap: "?n < capacity (disk s)" by (rule n(4) [OF c])
    have m: "nat (offset mod 512) = nat offset mod 512" using less.prems(2) by (simp add: nat_mod_distrib)
    have nc: "nat offset mod 512 + nat ?c \<le> 512" "nat offset + nat ?c \<le> nat (i_length ?i)" "nat ?c \<le> nat sz"
      using n(5-7) [OF c] c less.prems(2) unfolding m [symmetric] by auto
    have piece: "take (nat ?c) (drop (nat (offset mod 512)) (sectors (disk s) ?n)) = take (nat ?c) (drop (nat offset) ?fb)"
      using file_bytes_piece [OF less.prems(1) nc(2,1)] unfolding m .
    have rest: "\<exists>s' m. inode_read_loop ino (sz - ?c) (offset + ?c) b' (buf @ take (nat ?c) (drop (nat offset) ?fb)) s1 =
          Some (s', buf @ take m (drop (nat offset) ?fb)) \<and> quiet s s' \<and> m \<le> nat sz \<and> (heap s = [] \<longrightarrow> m = nat sz)"
      if q: "quiet s s1" for s1 b'
    proof -
      have "nat (sz - ?c) < nat sz" "0 \<le> offset + ?c" using c sz less.prems(2) by auto
      from less.hyps [OF this(1) _ this(2), of s1 b' "buf @ take (nat ?c) (drop (nat offset) ?fb)"]
      obtain s' m where m: "inode_read_loop ino (sz - ?c) (offset + ?c) b' (buf @ take (nat ?c) (drop (nat offset) ?fb)) s1 =
          Some (s', (buf @ take (nat ?c) (drop (nat offset) ?fb)) @ take m (drop (nat (offset + ?c)) ?fb))"
        "quiet s1 s'" "m \<le> nat (sz - ?c)" "heap s1 = [] \<longrightarrow> m = nat (sz - ?c)"
        using less.prems(1) unfolding quiet_frame(11,12) [OF q] by blast
      have "take (nat ?c) (drop (nat offset) ?fb) @ take m (drop (nat (offset + ?c)) ?fb) =
          take (nat ?c + m) (drop (nat offset) ?fb)"
        unfolding take_add [of "nat ?c" m] using c less.prems(2) by (simp add: nat_add_distrib add.commute)
      moreover have "nat ?c + m \<le> nat sz" "heap s = [] \<longrightarrow> nat ?c + m = nat sz"
        using m(3,4) nc(3) c quiet_frame(9) [OF q] by auto
      ultimately show ?thesis using m(1) quiet_trans [OF q m(2)] by (metis append.assoc)
    qed
    show ?thesis
    proof (cases "cmod offset 512 = 0 \<and> ?c = 512")
      case True
      obtain s1 where s1: "bread ?n s = Some (s1, sectors (disk s) ?n)" "quiet s s1" using bread_ok [OF ok cap] by blast
      have "length (sectors (disk s) ?n) = 512" using ok by (simp add: disk_ok_def)
      then have full: "sectors (disk s) ?n = take (nat ?c) (drop (nat offset) ?fb)"
        using piece True unfolding n(2) by simp
      then have full': "sectors (disk s) ?n = take 512 (drop (nat offset) ?fb)" using True by simp
      have "inode_read_loop ino sz offset bounce buf s =
          inode_read_loop ino (sz - ?c) (offset + ?c) bounce (buf @ take (nat ?c) (drop (nat offset) ?fb)) s1"
        using sz c True s1(1) by (subst inode_read_loop.simps) (simp add: n(3) [OF c] full')
      then show ?thesis using rest [OF s1(2)] by simp
    next
      case part: False
      obtain s0 b where a: "(if bounce then (s, True) else alloc s) = (s0, b)" by (cases "if bounce then (s, True) else alloc s")
      then have q0: "quiet s s0" "heap s = [] \<longrightarrow> b" using quiet_alloc [of s s0 b] by (auto split: if_splits)
      show ?thesis
      proof (cases b)
        case False
        then have "inode_read_loop ino sz offset bounce buf s = Some (s0, buf @ take 0 (drop (nat offset) ?fb))"
          using sz c part a by (subst inode_read_loop.simps) (auto simp: Let_def)
        then show ?thesis using q0 False by (intro exI [of _ s0] exI [of _ 0]) simp
      next
        case True
        obtain s1 where s1: "bread ?n s0 = Some (s1, sectors (disk s) ?n)" "quiet s0 s1"
          using bread_ok [of s0 ?n] ok cap quiet_frame [OF q0(1)] by auto
        have "\<not> offset mod 512 < 0" by simp
        then have "inode_read_loop ino sz offset bounce buf s =
            inode_read_loop ino (sz - ?c) (offset + ?c) True (buf @ take (nat ?c) (drop (nat offset) ?fb)) s1"
          using sz c part a True s1(1) piece by (subst inode_read_loop.simps) (auto simp: n(2) n(3) [OF c] Let_def)
        then show ?thesis using rest [OF quiet_trans [OF q0(1) s1(2)]] by simp
      qed
    qed
  qed
qed


section \<open>Writing\<close>

definition overwrite :: "'a list \<Rightarrow> nat \<Rightarrow> 'a list \<Rightarrow> 'a list" where
  "overwrite bs o' ds = take o' bs @ ds @ drop (o' + length ds) bs"

lemma overwrite_nth:
  "o' + length ds \<le> length bs \<Longrightarrow> k < length bs \<Longrightarrow>
    overwrite bs o' ds ! k = (if o' \<le> k \<and> k < o' + length ds then ds ! (k - o') else bs ! k)"
  by (auto simp: overwrite_def nth_append)

lemma length_overwrite: "o' + length ds \<le> length bs \<Longrightarrow> length (overwrite bs o' ds) = length bs"
  by (simp add: overwrite_def)

lemma overwrite_empty [simp]: "overwrite bs o' [] = bs"
  by (simp add: overwrite_def)

lemma overwrite_append:
  "o' + length ds + length es \<le> length bs \<Longrightarrow>
    overwrite (overwrite bs o' ds) (o' + length ds) es = overwrite bs o' (ds @ es)"
  by (simp add: overwrite_def ac_simps)

text \<open>Only sectors in \<open>E\<close> were written.\<close>

definition wrote :: "nat set \<Rightarrow> fs \<Rightarrow> fs \<Rightarrow> bool" where
  "wrote E s s' \<longleftrightarrow> (\<forall>i. i \<notin> E \<longrightarrow> sectors (disk s') i = sectors (disk s) i) \<and> capacity (disk s') = capacity (disk s) \<and>
     disk_ok (disk s') = disk_ok (disk s) \<and> inodes s' = inodes s \<and> open_inodes s' = open_inodes s \<and>
     files s' = files s \<and> free_map s' = free_map s \<and> free_map_file s' = free_map_file s \<and>
     next_addr s' = next_addr s \<and> (heap s = [] \<longrightarrow> heap s' = [])"

lemma wrote_trans: "wrote E s1 s2 \<Longrightarrow> wrote E s2 s3 \<Longrightarrow> wrote E s1 s3"
  by (simp add: wrote_def)

lemma quiet_wrote: "quiet s s' \<Longrightarrow> wrote E s s'"
  by (simp add: wrote_def quiet_frame)

lemma wrote_extent_ok: "wrote E s s' \<Longrightarrow> extent_ok (disk s) i \<Longrightarrow> extent_ok (disk s') i"
  by (simp add: wrote_def extent_ok_def)

lemma bwrite_ok:
  assumes "disk_ok (disk s)" "i < capacity (disk s)" "length b = 512" "i \<in> E"
  shows "\<exists>s'. bwrite i b s = Some s' \<and> wrote E s s' \<and> sectors (disk s') = (sectors (disk s))(i := b)"
  using assms disk_ok_sectors [OF assms(1,3)] by (auto simp: bwrite_def disk_write_ok wrote_def)

text \<open>Replacing a piece of one sector replaces a piece of the file.\<close>

lemma file_bytes_overwrite:
  assumes "disk_ok d" "sectors d' = (sectors d)(i_start i + o' div 512 := overwrite (sectors d (i_start i + o' div 512)) (o' mod 512) ds)"
    and "o' mod 512 + length ds \<le> 512" "o' + length ds \<le> nat (i_length i)"
  shows "file_bytes d' i = overwrite (file_bytes d i) o' ds"
proof (rule nth_equalityI)
  show "length (file_bytes d' i) = length (overwrite (file_bytes d i) o' ds)"
    using assms(4) by (simp add: length_overwrite)
  fix k assume "k < length (file_bytes d' i)"
  then have k: "k < nat (i_length i)" by simp
  have new: "file_bytes d' i ! k = byte_at (sectors d') i k" "file_bytes d i ! k = byte_at (sectors d) i k"
    using k by (simp_all add: file_bytes_def)
  show "file_bytes d' i ! k = overwrite (file_bytes d i) o' ds ! k"
  proof (cases "k div 512 = o' div 512")
    case True
    have l: "length (sectors d (i_start i + o' div 512)) = 512" using assms(1) by (simp add: disk_ok_def)
    have "o' \<le> k \<longleftrightarrow> o' mod 512 \<le> k mod 512" "k - o' = k mod 512 - o' mod 512"
      "k < o' + length ds \<longleftrightarrow> k mod 512 < o' mod 512 + length ds"
      using mult_div_mod_eq [of 512 k] mult_div_mod_eq [of 512 o'] unfolding True by linarith+
    then show ?thesis
      using k l assms(3,4) True unfolding new by (simp add: overwrite_nth new byte_at_def assms(2))
  next
    case False
    have "\<not> (o' \<le> k \<and> k < o' + length ds)"
    proof
      assume "o' \<le> k \<and> k < o' + length ds"
      then obtain j where "k = o' + j" "j < length ds" using less_diff_conv2 le_Suc_ex by (metis nat_add_left_cancel_less)
      then show False using shift_in_sector [of o' j] assms(3) False by simp
    qed
    then show ?thesis using k False assms(4) unfolding new by (auto simp: overwrite_nth new byte_at_def assms(2))
  qed
qed

lemma chunk_bounds:
  fixes c m z j l :: nat
  assumes "c \<le> z" "j + c \<le> l"
  shows "m \<le> min (z - c) (l - (j + c)) \<Longrightarrow> c + m \<le> min z (l - j)"
    "m = min (z - c) (l - (j + c)) \<Longrightarrow> c + m = min z (l - j)"
  using assms by auto

lemma inode_write_loop_full:
  assumes "0 < sz" "cmod offset 512 = 0" "chunk_size ino sz offset = 512"
  shows "inode_write_loop ino buf sz offset bounce n s =
    (case bwrite (byte_to_sector ino offset) (take 512 (drop n buf)) s of None \<Rightarrow> None
     | Some s \<Rightarrow> inode_write_loop ino buf (sz - 512) (offset + 512) bounce (n + 512) s)"
  using assms by (subst inode_write_loop.simps) (simp split: option.split)

lemma inode_write_loop_spec:
  assumes "extent_ok (disk s) (data ino)" "0 \<le> offset" "n + nat sz \<le> length buf"
  shows "\<exists>s' m. inode_write_loop ino buf sz offset bounce n s = Some (s', n + m) \<and>
    wrote (extent (data ino)) s s' \<and> m \<le> min (nat sz) (nat (i_length (data ino)) - nat offset) \<and>
    (heap s = [] \<longrightarrow> m = min (nat sz) (nat (i_length (data ino)) - nat offset)) \<and>
    file_bytes (disk s') (data ino) = overwrite (file_bytes (disk s) (data ino)) (nat offset) (take m (drop n buf))"
  using assms
proof (induction "nat sz" arbitrary: sz offset bounce n s rule: less_induct)
  case less
  let ?i = "data ino"
  let ?c = "chunk_size ino sz offset"
  let ?len = "nat (i_length ?i)"
  show ?case
  proof (cases "0 < sz \<and> 0 < ?c")
    case False
    have "min (nat sz) (?len - nat offset) = 0"
    proof (cases "0 < sz")
      case True
      then have "?c \<le> 0" using False by simp
      then have "i_length ?i \<le> offset" using round_numbers(1) [OF less.prems(1,2) True] True by (auto simp: min_def split: if_splits)
      then show ?thesis by simp
    qed simp
    moreover have "inode_write_loop ino buf sz offset bounce n s = Some (s, n)"
      using False by (subst inode_write_loop.simps) (auto simp: Let_def)
    ultimately show ?thesis by (intro exI [of _ s] exI [of _ 0]) (simp add: quiet_wrote)
  next
    case True
    then have sz: "0 < sz" and c: "0 < ?c" by auto
    note N = round_numbers [OF less.prems(1,2) sz]
    have ok: "disk_ok (disk s)" using less.prems(1) by (simp add: extent_ok_def)
    let ?n = "i_start ?i + nat offset div 512"
    let ?ds = "take (nat ?c) (drop n buf)"
    have m: "nat (offset mod 512) = nat offset mod 512" using less.prems(2) by (simp add: nat_mod_distrib)
    have cap: "?n < capacity (disk s)" by (rule N(4) [OF c])
    have nc: "nat offset mod 512 + nat ?c \<le> 512" "nat offset + nat ?c \<le> ?len" "nat ?c \<le> nat sz"
      using N(5-7) [OF c] c less.prems(2) unfolding m [symmetric] by auto
    have inE: "?n \<in> extent ?i" using nc(2) c by (intro sector_in_extent [OF less.prems(1)]) auto
    have ds: "length ?ds = nat ?c" using nc(3) less.prems(3) by simp
    have rest: "\<exists>s' m. inode_write_loop ino buf (sz - ?c) (offset + ?c) b' (n + nat ?c) s1 = Some (s', n + m) \<and>
        wrote (extent ?i) s s' \<and> m \<le> min (nat sz) (?len - nat offset) \<and>
        (heap s = [] \<longrightarrow> m = min (nat sz) (?len - nat offset)) \<and>
        file_bytes (disk s') ?i = overwrite (file_bytes (disk s) ?i) (nat offset) (take m (drop n buf))"
      if w: "wrote (extent ?i) s s1"
        and sec: "sectors (disk s1) = (sectors (disk s))(?n := overwrite (sectors (disk s) ?n) (nat offset mod 512) ?ds)" for s1 b'
    proof -
      have "nat (sz - ?c) < nat sz" "0 \<le> offset + ?c" "n + nat ?c + nat (sz - ?c) \<le> length buf"
        using c sz less.prems(2,3) nc(3) by auto
      from less.hyps [OF this(1) wrote_extent_ok [OF w less.prems(1)] this(2,3), of b']
      obtain s' m' where r: "inode_write_loop ino buf (sz - ?c) (offset + ?c) b' (n + nat ?c) s1 = Some (s', n + nat ?c + m')"
        "wrote (extent ?i) s1 s'" "m' \<le> min (nat (sz - ?c)) (?len - nat (offset + ?c))"
        "heap s1 = [] \<longrightarrow> m' = min (nat (sz - ?c)) (?len - nat (offset + ?c))"
        "file_bytes (disk s') ?i = overwrite (file_bytes (disk s1) ?i) (nat (offset + ?c)) (take m' (drop (n + nat ?c) buf))"
        by auto
      have f1: "file_bytes (disk s1) ?i = overwrite (file_bytes (disk s) ?i) (nat offset) ?ds"
        by (rule file_bytes_overwrite [OF ok sec]) (use nc ds in auto)
      have o2: "nat (offset + ?c) = nat offset + length ?ds" using ds c less.prems(2) by (simp add: nat_add_distrib)
      have e2: "nat offset + length ?ds + length (take m' (drop (n + nat ?c) buf)) \<le> length (file_bytes (disk s) ?i)"
      proof -
        have "length (take m' (drop (n + nat ?c) buf)) \<le> m'" by simp
        moreover have "m' \<le> ?len - (nat offset + length ?ds)" using r(3) unfolding o2 by simp
        ultimately show ?thesis using nc(2) unfolding ds length_file_bytes by linarith
      qed
      have tk: "?ds @ take m' (drop (n + nat ?c) buf) = take (nat ?c + m') (drop n buf)"
        unfolding take_add [of "nat ?c" m'] by (simp add: add.commute)
      have fb: "file_bytes (disk s') ?i = overwrite (file_bytes (disk s) ?i) (nat offset) (take (nat ?c + m') (drop n buf))"
        unfolding r(5) f1 o2 tk [symmetric] by (rule overwrite_append [OF e2])
      have d: "nat (sz - ?c) = nat sz - nat ?c" "nat (offset + ?c) = nat offset + nat ?c"
        using o2 ds c nc(3) by (simp_all add: nat_diff_distrib')
      have "m' \<le> min (nat sz - nat ?c) (?len - (nat offset + nat ?c))" using r(3) unfolding d .
      then have l1: "nat ?c + m' \<le> min (nat sz) (?len - nat offset)" by (rule chunk_bounds(1) [OF nc(3,2)])
      have "heap s1 = [] \<longrightarrow> m' = min (nat sz - nat ?c) (?len - (nat offset + nat ?c))" using r(4) unfolding d .
      then have l2: "heap s = [] \<longrightarrow> nat ?c + m' = min (nat sz) (?len - nat offset)"
        using w chunk_bounds(2) [OF nc(3,2)] unfolding wrote_def by blast
      show ?thesis
        by (rule exI [of _ s'], rule exI [of _ "nat ?c + m'"])
          (intro conjI wrote_trans [OF w r(2)] l1 l2 fb, simp only: r(1) add.assoc)
    qed
    show ?thesis
    proof (cases "cmod offset 512 = 0 \<and> ?c = 512")
      case True
      then have ds': "take 512 (drop n buf) = ?ds" by simp
      have o0: "nat offset mod 512 = 0" using True unfolding N(2) m [symmetric] by simp
      have l: "length (sectors (disk s) ?n) = 512" using ok by (simp add: disk_ok_def)
      have "length ?ds = 512" using ds True by simp
      then have ov: "overwrite (sectors (disk s) ?n) (nat offset mod 512) ?ds = ?ds"
        unfolding o0 overwrite_def by (simp only: take_0 append_Nil add_0 drop_all l order_refl append_Nil2)
      obtain s1 where s1: "bwrite ?n ?ds s = Some s1" "wrote (extent ?i) s s1" "sectors (disk s1) = (sectors (disk s))(?n := ?ds)"
        using bwrite_ok [OF ok cap _ inE, of ?ds] \<open>length ?ds = 512\<close> by blast
      have "inode_write_loop ino buf sz offset bounce n s = inode_write_loop ino buf (sz - ?c) (offset + ?c) bounce (n + nat ?c) s1"
        using inode_write_loop_full [OF sz, of offset ino buf bounce n s] True s1(1) unfolding N(3) [OF c] ds' by simp
      then show ?thesis using rest [OF s1(2)] s1(3) ov by simp
    next
      case part: False
      obtain s0 b where a: "(if bounce then (s, True) else alloc s) = (s0, b)" by (cases "if bounce then (s, True) else alloc s")
      then have q0: "quiet s s0" "heap s = [] \<longrightarrow> b" using quiet_alloc [of s s0 b] by (auto split: if_splits)
      show ?thesis
      proof (cases b)
        case False
        then have "inode_write_loop ino buf sz offset bounce n s = Some (s0, n + 0)"
          using sz c part a by (subst inode_write_loop.simps) (auto simp: Let_def)
        then show ?thesis using q0 False
          by (intro exI [of _ s0] exI [of _ 0]) (simp add: quiet_wrote quiet_frame)
      next
        case True
        obtain s1 where s1: "bread ?n s0 = Some (s1, sectors (disk s) ?n)" "quiet s0 s1"
          using bread_ok [of s0 ?n] ok cap quiet_frame [OF q0(1)] by auto
        have q1: "quiet s s1" by (rule quiet_trans [OF q0(1) s1(2)])
        let ?b = "overwrite (sectors (disk s) ?n) (nat offset mod 512) ?ds"
        have l: "length (sectors (disk s) ?n) = 512" using ok by (simp add: disk_ok_def)
        then have lb: "length ?b = 512" using nc(1) ds by (simp add: length_overwrite)
        obtain s2 where s2: "bwrite ?n ?b s1 = Some s2" "wrote (extent ?i) s1 s2" "sectors (disk s2) = (sectors (disk s1))(?n := ?b)"
          using bwrite_ok [of s1, OF _ _ lb inE] ok cap quiet_frame [OF q1] by auto
        have b: "?b = take (nat (offset mod 512)) (sectors (disk s) ?n) @ ?ds @ drop (nat (offset mod 512) + nat ?c) (sectors (disk s) ?n)"
          unfolding overwrite_def m ds ..
        have partial: "0 < offset mod 512 \<or> ?c < 512 - offset mod 512"
          using part N(5) [OF c] unfolding N(2) by (smt (verit) pos_mod_sign)
        have "inode_write_loop ino buf sz offset bounce n s = inode_write_loop ino buf (sz - ?c) (offset + ?c) True (n + nat ?c) s2"
          using sz c part a True s1(1) s2(1) partial unfolding b
          by (subst inode_write_loop.simps) (auto simp: N(2) N(3) [OF c] Let_def)
        then show ?thesis
          using rest [OF wrote_trans [OF quiet_wrote [OF q1] s2(2)]] s2(3) quiet_frame(1) [OF q1] by simp
      qed
    qed
  qed
qed


section \<open>What the transfer promises\<close>

text \<open>
  C4: Reading from an inode returns the bytes of the file from the offset on, up to its end, and
  changes nothing on the disk. Writing replaces these bytes and no others: the sectors outside the
  extent of the file are untouched, and the number of bytes returned is what fits before the end of
  the file, or 0 when writing is denied. Both always return.
\<close>

theorem inode_transfer_refines:
  assumes "inodes s a = Some ino" and "extent_ok (disk s) (data ino)" and "0 \<le> offset" and "heap s = []"
    and "nat sz \<le> length buf"
  shows "let fb = file_bytes (disk s) (data ino);
             n = (if deny_write_cnt ino \<noteq> 0 then 0 else min (nat sz) (length fb - nat offset))
    in (\<exists>s'. inode_read_at a sz offset s = Some (s', take (nat sz) (drop (nat offset) fb)) \<and> quiet s s') \<and>
       (\<exists>s'. inode_write_at a buf sz offset s = Some (s', n) \<and> wrote (extent (data ino)) s s' \<and>
          file_bytes (disk s') (data ino) = overwrite fb (nat offset) (take n buf))"
proof -
  have "\<exists>s'. inode_read_at a sz offset s = Some (s', take (nat sz) (drop (nat offset) (file_bytes (disk s) (data ino)))) \<and> quiet s s'"
    using inode_read_loop_spec [OF assms(2,3), of sz False "[]"] assms(1,4) by (auto simp: inode_read_at_def)
  moreover have "\<exists>s'. inode_write_at a buf sz offset s = Some (s', n) \<and> wrote (extent (data ino)) s s' \<and>
      file_bytes (disk s') (data ino) = overwrite (file_bytes (disk s) (data ino)) (nat offset) (take n buf)"
    if n: "n = (if deny_write_cnt ino \<noteq> 0 then 0 else min (nat sz) (nat (i_length (data ino)) - nat offset))" for n
  proof (cases "deny_write_cnt ino = 0")
    case True
    then have "n = min (nat sz) (nat (i_length (data ino)) - nat offset)" using n by simp
    then show ?thesis
      using inode_write_loop_spec [OF assms(2,3), of 0 sz buf False] assms(1,4,5) True
      by (auto simp: inode_write_at_def)
  next
    case False
    then show ?thesis using assms(1) n by (simp add: inode_write_at_def quiet_wrote)
  qed
  ultimately show ?thesis unfolding Let_def length_file_bytes by blast
qed

text \<open>A disk of ten sectors with an open file of 600 bytes in sectors 4 and 5.\<close>

definition sample_disk :: disk where
  "sample_disk = \<lparr>capacity = 10, sectors = (\<lambda>i. replicate 512 (of_nat i)), read_cnt = 0, write_cnt = 0\<rparr>"

definition sample_inode :: inode where
  "sample_inode = \<lparr>sector = 3, open_cnt = 1, removed = False, deny_write_cnt = 0,
     data = \<lparr>i_start = 4, i_length = 600, i_magic = INODE_MAGIC\<rparr>\<rparr>"

definition sample_fs :: fs where
  "sample_fs = \<lparr>disk = sample_disk, heap = [], inodes = [1 \<mapsto> sample_inode], open_inodes = [1], files = Map.empty,
     free_map = \<lparr>bit_cnt = 10, bits = [0x3B]\<rparr>, free_map_file = 0, next_addr = 2\<rparr>"

lemma sample_extent_ok: "extent_ok (disk sample_fs) (data sample_inode)"
  by (simp add: extent_ok_def disk_ok_def sample_fs_def sample_disk_def sample_inode_def bytes_to_sectors_nat)

theorem inode_transfer_refines_witness:
  "\<exists>s'. inode_write_at 1 [1, 2, 3, 4, 5, 6] 6 598 sample_fs = Some (s', 2) \<and> wrote {4..<6} sample_fs s'"
proof -
  have "inodes sample_fs 1 = Some sample_inode" "(0 :: int) \<le> 598" "heap sample_fs = []"
    "nat 6 \<le> length [1, 2, 3, 4, 5, 6 :: u8]"
    by (simp_all add: sample_fs_def)
  from inode_transfer_refines [OF this(1) sample_extent_ok this(2-4)]
  show ?thesis by (auto simp: Let_def sample_inode_def extent_def bytes_to_sectors_nat)
qed

end
