(* ===== verification/FreeMap.thy ===== *)
theory FreeMap
  imports Inode
begin

text \<open>
  Open files (filesys/file.c), the free map (filesys/free-map.c) and creating, opening and closing
  inodes (filesys/inode.c), which call each other. Pointers are addresses; following a pointer to
  what has been freed is \<open>None\<close>. The free map hands out each sector once, and what it hands out is
  recorded in its file on the disk.
\<close>

abbreviation (input) FREE_MAP_SECTOR :: nat where "FREE_MAP_SECTOR \<equiv> 0"
abbreviation (input) ROOT_DIR_SECTOR :: nat where "ROOT_DIR_SECTOR \<equiv> 1"

section \<open>Transfer through open files\<close>

definition upd_file :: "addr \<Rightarrow> (open_file \<Rightarrow> open_file) \<Rightarrow> fs \<Rightarrow> fs option" where
  "upd_file f g s = map_option (\<lambda>fl. s\<lparr>files := (files s)(f \<mapsto> g fl)\<rparr>) (files s f)"

definition file_read_at :: "addr \<Rightarrow> int \<Rightarrow> int \<Rightarrow> fs \<Rightarrow> (fs \<times> u8 list) option" where
  "file_read_at f sz file_ofs s = do { fl \<leftarrow> files s f; inode_read_at (f_inode fl) sz file_ofs s }"

definition file_write_at :: "addr \<Rightarrow> u8 list \<Rightarrow> int \<Rightarrow> int \<Rightarrow> fs \<Rightarrow> (fs \<times> nat) option" where
  "file_write_at f buf sz file_ofs s = do { fl \<leftarrow> files s f; inode_write_at (f_inode fl) buf sz file_ofs s }"

definition file_read :: "addr \<Rightarrow> int \<Rightarrow> fs \<Rightarrow> (fs \<times> u8 list) option" where
  "file_read f sz s = do {
     fl \<leftarrow> files s f;
     (s, bs) \<leftarrow> inode_read_at (f_inode fl) sz (pos fl) s;
     s \<leftarrow> upd_file f (\<lambda>fl. fl\<lparr>pos := pos fl + int (length bs)\<rparr>) s;
     Some (s, bs) }"

definition file_write :: "addr \<Rightarrow> u8 list \<Rightarrow> int \<Rightarrow> fs \<Rightarrow> (fs \<times> nat) option" where
  "file_write f buf sz s = do {
     fl \<leftarrow> files s f;
     (s, n) \<leftarrow> inode_write_at (f_inode fl) buf sz (pos fl) s;
     s \<leftarrow> upd_file f (\<lambda>fl. fl\<lparr>pos := pos fl + int n\<rparr>) s;
     Some (s, n) }"

definition file_deny_write :: "addr \<Rightarrow> fs \<Rightarrow> fs option" where
  "file_deny_write f s = do {
     fl \<leftarrow> files s f;
     if \<not> deny_write fl then do {
       s \<leftarrow> upd_file f (\<lambda>fl. fl\<lparr>deny_write := True\<rparr>) s;
       inode_deny_write (f_inode fl) s }
     else Some s }"

definition file_allow_write :: "addr \<Rightarrow> fs \<Rightarrow> fs option" where
  "file_allow_write f s = do {
     fl \<leftarrow> files s f;
     if deny_write fl then do {
       s \<leftarrow> upd_file f (\<lambda>fl. fl\<lparr>deny_write := False\<rparr>) s;
       inode_allow_write (f_inode fl) s }
     else Some s }"

definition file_length :: "addr \<Rightarrow> fs \<Rightarrow> int option" where
  "file_length f s = do { fl \<leftarrow> files s f; ino \<leftarrow> inodes s (f_inode fl); Some (inode_length ino) }"

definition file_seek :: "addr \<Rightarrow> int \<Rightarrow> fs \<Rightarrow> fs option" where
  "file_seek f new_pos s = do { ASSERT (new_pos \<ge> 0); upd_file f (\<lambda>fl. fl\<lparr>pos := new_pos\<rparr>) s }"

definition file_tell :: "addr \<Rightarrow> fs \<Rightarrow> int option" where
  "file_tell f s = map_option pos (files s f)"

definition file_get_inode :: "addr \<Rightarrow> fs \<Rightarrow> addr option" where
  "file_get_inode f s = map_option f_inode (files s f)"

section \<open>The free map\<close>

text \<open>\<open>bitmap_write\<close> on the file of the free map.\<close>

definition free_map_write :: "fs \<Rightarrow> (fs \<times> bool) option" where
  "free_map_write s = do {
     let bm = free_map s;
     (s, n) \<leftarrow> file_write_at (free_map_file s) (bits_bytes (bits bm)) (int (byte_cnt (bit_cnt bm))) 0 s;
     Some (s, bitmap_write bm (\<lambda>_. n)) }"

text \<open>The result of \<open>bitmap_scan_and_flip\<close> is cut to the 32 bits of a sector number.\<close>

definition free_map_allocate :: "nat \<Rightarrow> fs \<Rightarrow> (fs \<times> nat option) option" where
  "free_map_allocate cnt s = do {
     (bm, idx) \<leftarrow> bitmap_scan_and_flip (free_map s) 0 cnt False;
     let s = s\<lparr>free_map := bm\<rparr>;
     let sec = idx mod 2 ^ 32;
     (s, written) \<leftarrow> (if sec \<noteq> BITMAP_ERROR \<and> free_map_file s \<noteq> NULL then free_map_write s else Some (s, True));
     if \<not> written then do {
       bm \<leftarrow> bitmap_set_multiple (free_map s) sec cnt False;
       Some (s\<lparr>free_map := bm\<rparr>, None) }
     else if sec \<noteq> BITMAP_ERROR then Some (s, Some sec) else Some (s, None) }"

definition free_map_release :: "nat \<Rightarrow> nat \<Rightarrow> fs \<Rightarrow> fs option" where
  "free_map_release sec cnt s = do {
     all \<leftarrow> bitmap_all (free_map s) sec cnt;
     ASSERT all;
     bm \<leftarrow> bitmap_set_multiple (free_map s) sec cnt False;
     (s, _) \<leftarrow> free_map_write (s\<lparr>free_map := bm\<rparr>);
     Some s }"

section \<open>Creating, opening and closing inodes\<close>

fun zero_sectors :: "nat \<Rightarrow> nat \<Rightarrow> fs \<Rightarrow> fs option" where
  "zero_sectors sec 0 s = Some s"
| "zero_sectors sec (Suc n) s = do { s \<leftarrow> bwrite sec (replicate 512 0) s; zero_sectors (Suc sec) n s }"

definition inode_create :: "nat \<Rightarrow> int \<Rightarrow> fs \<Rightarrow> (fs \<times> bool) option" where
  "inode_create sec len s = do {
     ASSERT (len \<ge> 0);
     (s, have_inode) \<leftarrow> Some (alloc s);
     if \<not> have_inode then Some (s, False)
     else do {
       let n = bytes_to_sectors len;
       (s, r) \<leftarrow> free_map_allocate n s;
       case r of
         None \<Rightarrow> Some (s, False)
       | Some start \<Rightarrow> do {
           s \<leftarrow> bwrite sec (inode_disk_bytes \<lparr>i_start = start, i_length = len, i_magic = INODE_MAGIC\<rparr>) s;
           s \<leftarrow> zero_sectors start n s;
           Some (s, True) } } }"

fun find_inode :: "nat \<Rightarrow> addr list \<Rightarrow> fs \<Rightarrow> addr option option" where
  "find_inode sec [] s = Some None"
| "find_inode sec (a # as) s = do {
     ino \<leftarrow> inodes s a;
     if sector ino = sec then Some (Some a) else find_inode sec as s }"

definition inode_open :: "nat \<Rightarrow> fs \<Rightarrow> (fs \<times> addr) option" where
  "inode_open sec s = do {
     found \<leftarrow> find_inode sec (open_inodes s) s;
     case found of
       Some a \<Rightarrow> inode_reopen a s
     | None \<Rightarrow> do {
         (s, ok) \<leftarrow> Some (alloc s);
         if \<not> ok then Some (s, NULL)
         else do {
           let a = next_addr s;
           (s, b) \<leftarrow> bread sec s;
           let ino = \<lparr>sector = sec, open_cnt = 1, removed = False, deny_write_cnt = 0, data = bytes_inode_disk b\<rparr>;
           Some (s\<lparr>inodes := (inodes s)(a \<mapsto> ino), open_inodes := a # open_inodes s, next_addr := Suc a\<rparr>, a) } } }"

definition inode_close :: "addr \<Rightarrow> fs \<Rightarrow> fs option" where
  "inode_close a s =
     (if a = NULL then Some s
      else do {
        s \<leftarrow> upd_inode a (\<lambda>i. i\<lparr>open_cnt := open_cnt i - 1\<rparr>) s;
        ino \<leftarrow> inodes s a;
        if open_cnt ino = 0 then do {
          let s = s\<lparr>open_inodes := remove1 a (open_inodes s)\<rparr>;
          s \<leftarrow> (if removed ino then do {
                  s \<leftarrow> free_map_release (sector ino) 1 s;
                  free_map_release (i_start (data ino)) (bytes_to_sectors (i_length (data ino))) s }
                else Some s);
          Some (s\<lparr>inodes := (inodes s)(a := None)\<rparr>) }
        else Some s })"

section \<open>Opening and closing files\<close>

definition file_open :: "addr \<Rightarrow> fs \<Rightarrow> (fs \<times> addr) option" where
  "file_open ino s = do {
     (s, ok) \<leftarrow> Some (alloc s);
     if ino \<noteq> NULL \<and> ok then do {
       let f = next_addr s;
       Some (s\<lparr>files := (files s)(f \<mapsto> \<lparr>f_inode = ino, pos = 0, deny_write = False\<rparr>), next_addr := Suc f\<rparr>, f) }
     else do { s \<leftarrow> inode_close ino s; Some (s, NULL) } }"

definition file_reopen :: "addr \<Rightarrow> fs \<Rightarrow> (fs \<times> addr) option" where
  "file_reopen f s = do { fl \<leftarrow> files s f; (s, i) \<leftarrow> inode_reopen (f_inode fl) s; file_open i s }"

definition file_duplicate :: "addr \<Rightarrow> fs \<Rightarrow> (fs \<times> addr) option" where
  "file_duplicate f s = do {
     fl \<leftarrow> files s f;
     (s, i) \<leftarrow> inode_reopen (f_inode fl) s;
     (s, nf) \<leftarrow> file_open i s;
     if nf \<noteq> NULL then do {
       s \<leftarrow> upd_file nf (\<lambda>n. n\<lparr>pos := pos fl\<rparr>) s;
       s \<leftarrow> (if deny_write fl then file_deny_write nf s else Some s);
       Some (s, nf) }
     else Some (s, nf) }"

definition file_close :: "addr \<Rightarrow> fs \<Rightarrow> fs option" where
  "file_close f s =
     (if f = NULL then Some s
      else do {
        s \<leftarrow> file_allow_write f s;
        fl \<leftarrow> files s f;
        s \<leftarrow> inode_close (f_inode fl) s;
        Some (s\<lparr>files := (files s)(f := None)\<rparr>) })"

section \<open>Setting up the free map\<close>

text \<open>\<open>bitmap_read\<close> from the file of the free map.\<close>

definition free_map_read :: "fs \<Rightarrow> (fs \<times> bool) option" where
  "free_map_read s = do {
     (s, bs) \<leftarrow> file_read_at (free_map_file s) (int (byte_cnt (bit_cnt (free_map s)))) 0 s;
     let (bm, ok) = bitmap_read (free_map s) bs;
     Some (s\<lparr>free_map := bm\<rparr>, ok) }"

definition free_map_init :: "u64 list \<Rightarrow> fs \<Rightarrow> fs option" where
  "free_map_init junk s = do {
     (s, have_struct) \<leftarrow> Some (alloc s);
     (s, have_bits) \<leftarrow> Some (if have_struct then alloc s else (s, False));
     r \<leftarrow> bitmap_create (disk_size (disk s)) have_struct have_bits junk;
     bm \<leftarrow> r;
     bm \<leftarrow> bitmap_mark bm FREE_MAP_SECTOR;
     bm \<leftarrow> bitmap_mark bm ROOT_DIR_SECTOR;
     Some (s\<lparr>free_map := bm\<rparr>) }"

definition free_map_open :: "fs \<Rightarrow> fs option" where
  "free_map_open s = do {
     (s, i) \<leftarrow> inode_open FREE_MAP_SECTOR s;
     (s, f) \<leftarrow> file_open i s;
     let s = s\<lparr>free_map_file := f\<rparr>;
     ASSERT (f \<noteq> NULL);
     (s, ok) \<leftarrow> free_map_read s;
     ASSERT ok;
     Some s }"

definition free_map_close :: "fs \<Rightarrow> fs option" where
  "free_map_close s = file_close (free_map_file s) s"

definition free_map_create :: "fs \<Rightarrow> fs option" where
  "free_map_create s = do {
     (s, ok) \<leftarrow> inode_create FREE_MAP_SECTOR (int (bitmap_file_size (free_map s))) s;
     ASSERT ok;
     (s, i) \<leftarrow> inode_open FREE_MAP_SECTOR s;
     (s, f) \<leftarrow> file_open i s;
     let s = s\<lparr>free_map_file := f\<rparr>;
     ASSERT (f \<noteq> NULL);
     (s, ok) \<leftarrow> free_map_write s;
     ASSERT ok;
     Some s }"


section \<open>The free map and its file\<close>

text \<open>The free map is well formed, and its file, an open inode \<open>ino\<close>, has room for it.\<close>

definition free_map_ok :: "inode \<Rightarrow> fs \<Rightarrow> bool" where
  "free_map_ok ino s \<longleftrightarrow> bitmap_ok (free_map s) \<and> free_map_file s \<noteq> NULL \<and>
     (\<exists>fl. files s (free_map_file s) = Some fl \<and> inodes s (f_inode fl) = Some ino) \<and> deny_write_cnt ino = 0 \<and>
     extent_ok (disk s) (data ino) \<and> int (byte_cnt (bit_cnt (free_map s))) \<le> i_length (data ino)"

text \<open>The file of the free map holds the free map.\<close>

definition recorded :: "inode \<Rightarrow> fs \<Rightarrow> bool" where
  "recorded ino s \<longleftrightarrow> take (byte_cnt (bit_cnt (free_map s))) (file_bytes (disk s) (data ino)) = bits_bytes (bits (free_map s))"

lemma free_map_ok_set:
  "free_map_ok ino s \<Longrightarrow> bitmap_ok bm \<Longrightarrow> bit_cnt bm = bit_cnt (free_map s) \<Longrightarrow> free_map_ok ino (s\<lparr>free_map := bm\<rparr>)"
  by (simp add: free_map_ok_def)

lemma free_map_ok_wrote: "free_map_ok ino s \<Longrightarrow> wrote E s s' \<Longrightarrow> free_map_ok ino s'"
  unfolding free_map_ok_def using wrote_extent_ok [of E s s'] by (auto simp: wrote_def)

lemma length_bits_bytes_ok: "bitmap_ok bm \<Longrightarrow> length (bits_bytes (bits bm)) = byte_cnt (bit_cnt bm)"
  by (simp add: bitmap_ok_def byte_cnt_def)

lemma free_map_write_spec:
  assumes "free_map_ok ino s"
  shows "\<exists>s' b. free_map_write s = Some (s', b) \<and> wrote (extent (data ino)) s s' \<and>
    (heap s = [] \<longrightarrow> b \<and> recorded ino s')"
proof -
  let ?bs = "bits_bytes (bits (free_map s))"
  let ?n = "byte_cnt (bit_cnt (free_map s))"
  obtain fl where fl: "files s (free_map_file s) = Some fl" "inodes s (f_inode fl) = Some ino"
    using assms by (auto simp: free_map_ok_def)
  have e: "extent_ok (disk s) (data ino)" and d: "deny_write_cnt ino = 0"
    and len: "int ?n \<le> i_length (data ino)" and bl: "length ?bs = ?n"
    using assms length_bits_bytes_ok by (auto simp: free_map_ok_def)
  have "0 + nat (int ?n) \<le> length ?bs" using bl by simp
  from inode_write_loop_spec [OF e order_refl this, of False]
  obtain s' m where w: "inode_write_loop ino ?bs (int ?n) 0 False 0 s = Some (s', m)" "wrote (extent (data ino)) s s'"
    "heap s = [] \<longrightarrow> m = min ?n (nat (i_length (data ino)))"
    "file_bytes (disk s') (data ino) = overwrite (file_bytes (disk s) (data ino)) 0 (take m ?bs)"
    by auto
  have m: "heap s = [] \<longrightarrow> m = ?n" using w(3) len by auto
  have r: "free_map_write s = Some (s', m = ?n)"
    using fl d w(1) by (simp add: free_map_write_def file_write_at_def inode_write_at_def bitmap_write_def Let_def)
  have "heap s = [] \<longrightarrow> recorded ino s'"
  proof
    assume "heap s = []"
    then have "take m ?bs = ?bs" using m bl by simp
    then show "recorded ino s'"
      using w(2,4) bl by (simp add: recorded_def overwrite_def wrote_def)
  qed
  then show ?thesis using r w(2) m by blast
qed

text \<open>Allocating sectors, also when memory or sectors run out.\<close>

lemma free_map_allocate_spec:
  assumes "free_map_ok ino s"
  shows "\<exists>s' r. free_map_allocate cnt s = Some (s', r) \<and> free_map_ok ino s' \<and>
    bit_cnt (free_map s') = bit_cnt (free_map s) \<and> wrote (extent (data ino)) (s\<lparr>free_map := free_map s'\<rparr>) s' \<and>
    (case r of
       None \<Rightarrow> bools (free_map s') = bools (free_map s) \<and>
         (heap s = [] \<longrightarrow> s' = s \<and> (\<forall>j. \<not> group_at (bools (free_map s)) j cnt False))
     | Some sec \<Rightarrow> sec + cnt \<le> bit_cnt (free_map s) \<and> {sec..<sec + cnt} \<inter> bm.used (free_map s) = {} \<and>
         bm.used (free_map s') = bm.used (free_map s) \<union> {sec..<sec + cnt} \<and> (heap s = [] \<longrightarrow> recorded ino s'))"
proof -
  have ok: "bitmap_ok (free_map s)" and fm: "free_map_file s \<noteq> NULL" using assms by (auto simp: free_map_ok_def)
  obtain bm idx where sc: "bitmap_scan_and_flip (free_map s) 0 cnt False = Some (bm, idx)"
    using bitmap_scan_and_flip_bools [OF ok, of 0 cnt False] by auto
  note t = bm.take_slots [OF ok sc]
  have c: "bit_cnt bm = bit_cnt (free_map s)" and bm: "bitmap_ok bm" using t by auto
  have less: "idx \<le> BITMAP_ERROR" using bm.scan_result [OF ok sc] by auto
  then have "idx < 2 ^ 32" by (simp add: BITMAP_ERROR_def)
  then have sec: "idx mod 2 ^ 32 = idx" by simp
  show ?thesis
  proof (cases "idx = BITMAP_ERROR")
    case True
    then have "bm = free_map s" "\<forall>j. \<not> group_at (bools (free_map s)) j cnt False" using t by auto
    moreover have "free_map_allocate cnt s = Some (s, None)"
      using sc sec True \<open>bm = free_map s\<close> by (simp add: free_map_allocate_def Let_def)
    ultimately show ?thesis using assms by (auto simp: quiet_wrote intro!: exI [of _ s] exI [of _ None])
  next
    case False
    let ?s = "s\<lparr>free_map := bm\<rparr>"
    obtain s1 b where w: "free_map_write ?s = Some (s1, b)" "wrote (extent (data ino)) ?s s1"
      "heap s = [] \<longrightarrow> b \<and> recorded ino s1"
      using free_map_write_spec [OF free_map_ok_set [OF assms bm c]] by auto
    have ok1: "free_map_ok ino s1" by (rule free_map_ok_wrote [OF free_map_ok_set [OF assms bm c] w(2)])
    have f1: "free_map s1 = bm" using w(2) by (simp add: wrote_def)
    show ?thesis
    proof (cases b)
      case True
      have r: "free_map_allocate cnt s = Some (s1, Some idx)"
        using sc sec False fm w(1) True by (simp add: free_map_allocate_def Let_def)
      have "s\<lparr>free_map := free_map s1\<rparr> = ?s" using f1 by simp
      then show ?thesis using ok1 f1 c w(2,3) t False unfolding r by (auto intro!: exI [of _ s1] exI [of _ "Some idx"])
    next
      case nb: False
      obtain bm' where bm': "bitmap_set_multiple bm idx cnt False = Some bm'" "bitmap_ok bm'" "bools bm' = bools (free_map s)"
        using bm.take_give [OF ok sc False] by blast
      have c': "bit_cnt bm' = bit_cnt (free_map s)" using arg_cong [OF bm'(3), of length] by simp
      have r: "free_map_allocate cnt s = Some (s1\<lparr>free_map := bm'\<rparr>, None)"
        using sc sec False fm w(1) nb f1 bm'(1) by (simp add: free_map_allocate_def Let_def)
      have "wrote (extent (data ino)) (s\<lparr>free_map := bm'\<rparr>) (s1\<lparr>free_map := bm'\<rparr>)" using w(2) by (simp add: wrote_def)
      moreover have "free_map_ok ino (s1\<lparr>free_map := bm'\<rparr>)" by (rule free_map_ok_set [OF ok1 bm'(2)]) (simp add: c' f1 c)
      ultimately show ?thesis unfolding r using bm' c' w(3) nb by auto
    qed
  qed
qed

text \<open>Releasing sectors.\<close>

lemma free_map_release_spec:
  assumes "free_map_ok ino s" "sec + cnt \<le> bit_cnt (free_map s)"
  shows "if {sec..<sec + cnt} \<subseteq> bm.used (free_map s)
    then \<exists>s'. free_map_release sec cnt s = Some s' \<and> free_map_ok ino s' \<and> bit_cnt (free_map s') = bit_cnt (free_map s) \<and>
      wrote (extent (data ino)) (s\<lparr>free_map := free_map s'\<rparr>) s' \<and>
      bm.used (free_map s') = bm.used (free_map s) - {sec..<sec + cnt} \<and> (heap s = [] \<longrightarrow> recorded ino s')
    else free_map_release sec cnt s = None"
proof -
  have ok: "bitmap_ok (free_map s)" using assms by (auto simp: free_map_ok_def)
  have all: "bitmap_all (free_map s) sec cnt = Some ({sec..<sec + cnt} \<subseteq> bm.used (free_map s))"
    using assms(2) by (rule bitmap_all_used [OF ok])
  obtain bm where bm: "bitmap_set_multiple (free_map s) sec cnt False = Some bm" "bitmap_ok bm"
    "bit_cnt bm = bit_cnt (free_map s)" "bm.used bm = bm.used (free_map s) - {sec..<sec + cnt}"
    using bm.give_slots [OF ok, of sec cnt] assms(2) by auto
  obtain s1 b where w: "free_map_write (s\<lparr>free_map := bm\<rparr>) = Some (s1, b)"
    "wrote (extent (data ino)) (s\<lparr>free_map := bm\<rparr>) s1" "heap s = [] \<longrightarrow> b \<and> recorded ino s1"
    using free_map_write_spec [OF free_map_ok_set [OF assms(1) bm(2,3)]] by auto
  have f1: "free_map s1 = bm" using w(2) by (simp add: wrote_def)
  have "free_map_ok ino s1" by (rule free_map_ok_wrote [OF free_map_ok_set [OF assms(1) bm(2,3)] w(2)])
  then show ?thesis using all bm w f1 by (auto simp: free_map_release_def)
qed


section \<open>What the free map promises\<close>

text \<open>
  C13: Allocating sectors always returns. It fails, changing nothing, exactly when no group of that
  many sectors is free; otherwise the sectors were free, they alone become used, and the file of the
  free map on the disk records it, being all that is written. Releasing the sectors restores the
  free map, on the disk too, and releasing them a second time panics.
\<close>

theorem free_map_allocate_release:
  assumes "free_map_ok ino s" and "heap s = []" and "0 < cnt"
  shows "case free_map_allocate cnt s of
      None \<Rightarrow> False
    | Some (s', None) \<Rightarrow> s' = s \<and> (\<forall>j. \<not> group_at (bools (free_map s)) j cnt False)
    | Some (s', Some sec) \<Rightarrow> {sec..<sec + cnt} \<inter> bm.used (free_map s) = {} \<and>
        bm.used (free_map s') = bm.used (free_map s) \<union> {sec..<sec + cnt} \<and> recorded ino s' \<and>
        wrote (extent (data ino)) (s\<lparr>free_map := free_map s'\<rparr>) s' \<and>
        (\<exists>s''. free_map_release sec cnt s' = Some s'' \<and> bm.used (free_map s'') = bm.used (free_map s) \<and>
           recorded ino s'' \<and> free_map_release sec cnt s'' = None)"
proof -
  obtain s' r where a: "free_map_allocate cnt s = Some (s', r)" "free_map_ok ino s'"
    "bit_cnt (free_map s') = bit_cnt (free_map s)" "wrote (extent (data ino)) (s\<lparr>free_map := free_map s'\<rparr>) s'"
    "case r of
       None \<Rightarrow> bools (free_map s') = bools (free_map s) \<and>
         (heap s = [] \<longrightarrow> s' = s \<and> (\<forall>j. \<not> group_at (bools (free_map s)) j cnt False))
     | Some sec \<Rightarrow> sec + cnt \<le> bit_cnt (free_map s) \<and> {sec..<sec + cnt} \<inter> bm.used (free_map s) = {} \<and>
         bm.used (free_map s') = bm.used (free_map s) \<union> {sec..<sec + cnt} \<and> (heap s = [] \<longrightarrow> recorded ino s')"
    using free_map_allocate_spec [OF assms(1), of cnt] by auto
  show ?thesis
  proof (cases r)
    case None
    then show ?thesis using a assms(2) by simp
  next
    case (Some sec)
    note t = a(5) [unfolded Some, simplified]
    have le: "sec + cnt \<le> bit_cnt (free_map s')" using t a(3) by simp
    obtain s'' where r: "free_map_release sec cnt s' = Some s''" "free_map_ok ino s''"
      "bit_cnt (free_map s'') = bit_cnt (free_map s')"
      "bm.used (free_map s'') = bm.used (free_map s') - {sec..<sec + cnt}" "heap s' = [] \<longrightarrow> recorded ino s''"
      using free_map_release_spec [OF a(2) le] t by auto
    have used: "bm.used (free_map s'') = bm.used (free_map s)" using r(4) t by blast
    have "sec \<in> {sec..<sec + cnt}" using assms(3) by simp
    then have "\<not> {sec..<sec + cnt} \<subseteq> bm.used (free_map s'')" using used t by blast
    then have "free_map_release sec cnt s'' = None"
      using free_map_release_spec [OF r(2), of sec cnt] le r(3) by simp
    moreover have "heap s' = []" using a(4) assms(2) by (simp add: wrote_def)
    ultimately show ?thesis using a(1,4) t r used assms(2) Some by auto
  qed
qed

definition sample_free_map_inode :: inode where
  "sample_free_map_inode = \<lparr>sector = 0, open_cnt = 1, removed = False, deny_write_cnt = 0,
     data = \<lparr>i_start = 4, i_length = 8, i_magic = INODE_MAGIC\<rparr>\<rparr>"

definition sample_free_map_fs :: fs where
  "sample_free_map_fs = \<lparr>disk = sample_disk, heap = [], inodes = [1 \<mapsto> sample_free_map_inode], open_inodes = [1],
     files = [2 \<mapsto> \<lparr>f_inode = 1, pos = 0, deny_write = False\<rparr>],
     free_map = \<lparr>bit_cnt = 10, bits = [0x13]\<rparr>, free_map_file = 2, next_addr = 3\<rparr>"

lemma sample_free_map_ok: "free_map_ok sample_free_map_inode sample_free_map_fs"
  by (simp add: free_map_ok_def sample_free_map_fs_def sample_free_map_inode_def extent_ok_def disk_ok_def sample_disk_def
      bytes_to_sectors_nat bitmap_ok_def elem_cnt_def byte_cnt_def DIV_ROUND_UP_def BITMAP_ERROR_def)

theorem free_map_allocate_release_witness:
  "\<exists>s' r. free_map_allocate 3 sample_free_map_fs = Some (s', r) \<and>
     (case r of None \<Rightarrow> s' = sample_free_map_fs | Some sec \<Rightarrow> recorded sample_free_map_inode s')"
proof -
  have "heap sample_free_map_fs = []" "(0 :: nat) < 3" by (simp_all add: sample_free_map_fs_def)
  from free_map_allocate_release [OF sample_free_map_ok this] show ?thesis
    by (auto split: option.splits)
qed

end
