(* ===== verification/Directory.thy ===== *)
theory Directory
  imports FreeMap
begin

text \<open>
  Directories: filesys/directory.c. A directory is a file of entries of 20 bytes. The abstract
  directory is the finite map from names to the sectors of inodes; looking up, adding and removing
  an entry are shown to be the operations on the map.
\<close>

section \<open>Directories\<close>

abbreviation (input) NAME_MAX :: nat where "NAME_MAX \<equiv> 14"

record dir =
  d_inode :: addr
  d_pos :: int

text \<open>A directory entry occupies 20 bytes: the sector, the name with its terminator, the flag.\<close>

record dir_entry =
  inode_sector :: nat
  name :: "u8 list"
  in_use :: bool

abbreviation (input) ENTRY_SIZE :: nat where "ENTRY_SIZE \<equiv> 20"

definition entry_bytes :: "dir_entry \<Rightarrow> u8 list" where
  "entry_bytes e = le_bytes 4 (inode_sector e) @ name e @ [if in_use e then 1 else 0]"

definition bytes_entry :: "u8 list \<Rightarrow> dir_entry" where
  "bytes_entry bs = \<lparr>inode_sector = le_nat (take 4 bs), name = take 15 (drop 4 bs), in_use = (bs ! 19 \<noteq> 0)\<rparr>"

text \<open>The characters of a string up to its terminator.\<close>

definition c_string :: "u8 list \<Rightarrow> u8 list" where
  "c_string bs = takeWhile (\<lambda>c. c \<noteq> 0) bs"

definition dir_create :: "nat \<Rightarrow> nat \<Rightarrow> fs \<Rightarrow> (fs \<times> bool) option" where
  "dir_create sec entry_cnt s = inode_create sec (int32 (int (entry_cnt * ENTRY_SIZE))) s"

definition dir_open :: "addr \<Rightarrow> fs \<Rightarrow> (fs \<times> dir option) option" where
  "dir_open ino s = do {
     (s, ok) \<leftarrow> Some (alloc s);
     if ino \<noteq> NULL \<and> ok then Some (s, Some \<lparr>d_inode = ino, d_pos = 0\<rparr>)
     else do { s \<leftarrow> inode_close ino s; Some (s, None) } }"

definition dir_open_root :: "fs \<Rightarrow> (fs \<times> dir option) option" where
  "dir_open_root s = do { (s, i) \<leftarrow> inode_open ROOT_DIR_SECTOR s; dir_open i s }"

definition dir_reopen :: "dir \<Rightarrow> fs \<Rightarrow> (fs \<times> dir option) option" where
  "dir_reopen d s = do { (s, i) \<leftarrow> inode_reopen (d_inode d) s; dir_open i s }"

definition dir_close :: "dir option \<Rightarrow> fs \<Rightarrow> fs option" where
  "dir_close d s = (case d of None \<Rightarrow> Some s | Some d \<Rightarrow> inode_close (d_inode d) s)"

text \<open>The loop of \<open>lookup\<close> from offset \<open>ofs\<close>.\<close>

partial_function (option) lookup_loop :: "addr \<Rightarrow> u8 list \<Rightarrow> nat \<Rightarrow> fs \<Rightarrow> (fs \<times> (dir_entry \<times> nat) option) option" where
  "lookup_loop ino nm ofs s = do {
     r \<leftarrow> inode_read_at ino (int ENTRY_SIZE) (int ofs) s;
     let s = fst r;
     let bs = snd r;
     if length bs = ENTRY_SIZE
     then let e = bytes_entry bs
          in if in_use e \<and> c_string (name e) = nm then Some (s, Some (e, ofs))
             else lookup_loop ino nm (ofs + ENTRY_SIZE) s
     else Some (s, None) }"

definition lookup :: "dir \<Rightarrow> u8 list \<Rightarrow> fs \<Rightarrow> (fs \<times> (dir_entry \<times> nat) option) option" where
  "lookup d nm s = lookup_loop (d_inode d) nm 0 s"

definition dir_lookup :: "dir \<Rightarrow> u8 list \<Rightarrow> fs \<Rightarrow> (fs \<times> addr) option" where
  "dir_lookup d nm s = do {
     (s, r) \<leftarrow> lookup d nm s;
     case r of Some (e, _) \<Rightarrow> inode_open (inode_sector e) s | None \<Rightarrow> Some (s, NULL) }"

text \<open>
  The search of \<open>dir_add\<close> for a free slot; \<open>e\<close> are the bytes of its variable \<open>e\<close>, which a short
  read changes in part.
\<close>

partial_function (option) free_slot_loop :: "addr \<Rightarrow> u8 list \<Rightarrow> nat \<Rightarrow> fs \<Rightarrow> (fs \<times> u8 list \<times> nat) option" where
  "free_slot_loop ino e ofs s = do {
     r \<leftarrow> inode_read_at ino (int ENTRY_SIZE) (int ofs) s;
     let s = fst r;
     let bs = snd r;
     let e = bs @ drop (length bs) e;
     if length bs = ENTRY_SIZE \<and> in_use (bytes_entry e) then free_slot_loop ino e (ofs + ENTRY_SIZE) s
     else Some (s, e, ofs) }"

text \<open>\<open>e0\<close> are the bytes that the uninitialised variable \<open>e\<close> of \<open>dir_add\<close> starts with.\<close>

definition dir_add :: "u8 list \<Rightarrow> dir \<Rightarrow> u8 list \<Rightarrow> nat \<Rightarrow> fs \<Rightarrow> (fs \<times> bool) option" where
  "dir_add e0 d nm sec s =
     (if nm = [] \<or> length nm > NAME_MAX then Some (s, False)
      else do {
        (s, r) \<leftarrow> lookup d nm s;
        if r \<noteq> None then Some (s, False)
        else do {
          (s, e, ofs) \<leftarrow> free_slot_loop (d_inode d) e0 0 s;
          let e = \<lparr>inode_sector = sec, name = nm @ [0] @ drop (length nm + 1) (take 15 (drop 4 e)), in_use = True\<rparr>;
          (s, n) \<leftarrow> inode_write_at (d_inode d) (entry_bytes e) (int ENTRY_SIZE) (int ofs) s;
          Some (s, n = ENTRY_SIZE) } })"

definition dir_remove :: "dir \<Rightarrow> u8 list \<Rightarrow> fs \<Rightarrow> (fs \<times> bool) option" where
  "dir_remove d nm s = do {
     (s, r) \<leftarrow> lookup d nm s;
     case r of
       None \<Rightarrow> do { s \<leftarrow> inode_close NULL s; Some (s, False) }
     | Some (e, ofs) \<Rightarrow> do {
         (s, ino) \<leftarrow> inode_open (inode_sector e) s;
         if ino = NULL then do { s \<leftarrow> inode_close ino s; Some (s, False) }
         else do {
           (s, n) \<leftarrow> inode_write_at (d_inode d) (entry_bytes (e\<lparr>in_use := False\<rparr>)) (int ENTRY_SIZE) (int ofs) s;
           if n \<noteq> ENTRY_SIZE then do { s \<leftarrow> inode_close ino s; Some (s, False) }
           else do {
             s \<leftarrow> inode_remove ino s;
             s \<leftarrow> inode_close ino s;
             Some (s, True) } } } }"

partial_function (option) dir_readdir :: "dir \<Rightarrow> fs \<Rightarrow> (fs \<times> dir \<times> u8 list option) option" where
  "dir_readdir d s = do {
     r \<leftarrow> inode_read_at (d_inode d) (int ENTRY_SIZE) (d_pos d) s;
     let s = fst r;
     let bs = snd r;
     if length bs = ENTRY_SIZE
     then let d = d\<lparr>d_pos := d_pos d + int ENTRY_SIZE\<rparr>
          in if in_use (bytes_entry bs) then Some (s, d, Some (take NAME_MAX (c_string (name (bytes_entry bs)))))
             else dir_readdir d s
     else Some (s, d, None) }"


section \<open>The entries of a directory\<close>

definition entry_count :: "inode \<Rightarrow> nat" where
  "entry_count ino = nat (i_length (data ino)) div ENTRY_SIZE"

definition entry_at :: "disk \<Rightarrow> inode \<Rightarrow> nat \<Rightarrow> dir_entry" where
  "entry_at dk ino k = bytes_entry (take ENTRY_SIZE (drop (ENTRY_SIZE * k) (file_bytes dk (data ino))))"

definition entries :: "disk \<Rightarrow> inode \<Rightarrow> dir_entry list" where
  "entries dk ino = map (entry_at dk ino) [0..<entry_count ino]"

definition named :: "u8 list \<Rightarrow> dir_entry \<Rightarrow> bool" where
  "named nm e \<longleftrightarrow> in_use e \<and> c_string (name e) = nm"

text \<open>The map that a list of entries stands for.\<close>

definition dir_map :: "dir_entry list \<Rightarrow> u8 list \<Rightarrow> nat option" where
  "dir_map es nm = map_option inode_sector (find (named nm) es)"

text \<open>No two entries in use have the same name.\<close>

definition unique_names :: "dir_entry list \<Rightarrow> bool" where
  "unique_names es \<longleftrightarrow> (\<forall>j<length es. \<forall>k<length es. in_use (es ! j) \<longrightarrow> in_use (es ! k) \<longrightarrow>
     c_string (name (es ! j)) = c_string (name (es ! k)) \<longrightarrow> j = k)"

definition dir_ok :: "dir \<Rightarrow> inode \<Rightarrow> fs \<Rightarrow> bool" where
  "dir_ok d ino s \<longleftrightarrow> inodes s (d_inode d) = Some ino \<and> extent_ok (disk s) (data ino) \<and> deny_write_cnt ino = 0 \<and>
     heap s = [] \<and> int ENTRY_SIZE * int (entry_count ino) = i_length (data ino)"

lemma length_entries [simp]: "length (entries dk ino) = entry_count ino"
  by (simp add: entries_def)

lemma nth_entries: "k < entry_count ino \<Longrightarrow> entries dk ino ! k = entry_at dk ino k"
  by (simp add: entries_def)

lemma entries_cong: "file_bytes dk' (data ino) = file_bytes dk (data ino) \<Longrightarrow> entries dk' ino = entries dk ino"
  by (simp add: entries_def entry_at_def)

lemma dir_ok_quiet: "dir_ok d ino s \<Longrightarrow> quiet s s' \<Longrightarrow> dir_ok d ino s' \<and> entries (disk s') ino = entries (disk s) ino"
  by (auto simp: dir_ok_def quiet_frame intro: entries_cong)

text \<open>The representation of an entry.\<close>

lemma bytes_entry_entry_bytes:
  "inode_sector e < 2 ^ 32 \<Longrightarrow> length (name e) = 15 \<Longrightarrow> bytes_entry (entry_bytes e) = e"
  by (simp add: bytes_entry_def entry_bytes_def le_nat_le_bytes nth_append)

lemma bytes_entry_range: "length bs = ENTRY_SIZE \<Longrightarrow> inode_sector (bytes_entry bs) < 2 ^ 32 \<and> length (name (bytes_entry bs)) = 15"
  using le_nat_less [of "take 4 bs"] by (simp add: bytes_entry_def)

lemma length_entry_bytes: "length (name e) = 15 \<Longrightarrow> length (entry_bytes e) = ENTRY_SIZE"
  by (simp add: entry_bytes_def)

lemma entry_offset [simp]: "nat (20 * int k) = 20 * k"
  by (simp add: nat_mult_distrib)

text \<open>Reading the entry at an index, and past the last one.\<close>

lemma read_entry:
  assumes "dir_ok d ino s"
  shows "\<exists>s' bs. inode_read_at (d_inode d) (int ENTRY_SIZE) (int (ENTRY_SIZE * k)) s = Some (s', bs) \<and> quiet s s' \<and>
    (if k < entry_count ino then length bs = ENTRY_SIZE \<and> bytes_entry bs = entries (disk s) ino ! k
     else k = entry_count ino \<longrightarrow> bs = [])"
proof -
  have e: "extent_ok (disk s) (data ino)" "heap s = []" "inodes s (d_inode d) = Some ino"
    "int ENTRY_SIZE * int (entry_count ino) = i_length (data ino)"
    using assms by (auto simp: dir_ok_def)
  from inode_read_loop_spec [OF e(1), of "int (ENTRY_SIZE * k)" "int ENTRY_SIZE" False "[]"]
  obtain s' where s': "inode_read_loop ino (int ENTRY_SIZE) (int (ENTRY_SIZE * k)) False [] s =
      Some (s', take ENTRY_SIZE (drop (ENTRY_SIZE * k) (file_bytes (disk s) (data ino))))" "quiet s s'"
    using e(2) by auto
  have len: "nat (i_length (data ino)) = ENTRY_SIZE * entry_count ino" using e(4) by simp
  have "length (take ENTRY_SIZE (drop (ENTRY_SIZE * k) (file_bytes (disk s) (data ino)))) = ENTRY_SIZE" if "k < entry_count ino"
    using that by (simp add: len)
  then show ?thesis using s' e(3) len by (auto simp: inode_read_at_def nth_entries entry_at_def)
qed

text \<open>The loops over the entries.\<close>

lemma lookup_loop_spec:
  assumes "dir_ok d ino s" "k \<le> entry_count ino"
  shows "\<exists>s' r. lookup_loop (d_inode d) nm (ENTRY_SIZE * k) s = Some (s', r) \<and> quiet s s' \<and>
    (case r of
       None \<Rightarrow> \<forall>j. k \<le> j \<longrightarrow> j < entry_count ino \<longrightarrow> \<not> named nm (entries (disk s) ino ! j)
     | Some (e, ofs) \<Rightarrow> \<exists>j. k \<le> j \<and> j < entry_count ino \<and> ofs = ENTRY_SIZE * j \<and> e = entries (disk s) ino ! j \<and> named nm e \<and>
         (\<forall>i. k \<le> i \<longrightarrow> i < j \<longrightarrow> \<not> named nm (entries (disk s) ino ! i)))"
  using assms
proof (induction "entry_count ino - k" arbitrary: k s)
  case 0
  obtain s' bs where r: "inode_read_at (d_inode d) (int ENTRY_SIZE) (int (ENTRY_SIZE * k)) s = Some (s', bs)" "quiet s s'" "bs = []"
    using read_entry [OF 0(2), of k] 0 by auto
  then have "lookup_loop (d_inode d) nm (ENTRY_SIZE * k) s = Some (s', None)" by (subst lookup_loop.simps) simp
  then show ?case using r(2) 0 by auto
next
  case (Suc m)
  then have k: "k < entry_count ino" by simp
  obtain s1 bs where r: "inode_read_at (d_inode d) (int ENTRY_SIZE) (int (ENTRY_SIZE * k)) s = Some (s1, bs)" "quiet s s1"
    "length bs = ENTRY_SIZE" "bytes_entry bs = entries (disk s) ino ! k"
    using read_entry [OF Suc(3), of k] k by auto
  show ?case
  proof (cases "named nm (entries (disk s) ino ! k)")
    case True
    then have "lookup_loop (d_inode d) nm (ENTRY_SIZE * k) s = Some (s1, Some (entries (disk s) ino ! k, ENTRY_SIZE * k))"
      using r by (subst lookup_loop.simps) (simp add: named_def)
    then show ?thesis using r(2) k True by auto
  next
    case False
    note q = dir_ok_quiet [OF Suc(3) r(2)]
    have m: "m = entry_count ino - Suc k" "Suc k \<le> entry_count ino" using Suc(2) k by simp_all
    have "lookup_loop (d_inode d) nm (ENTRY_SIZE * k) s = lookup_loop (d_inode d) nm (ENTRY_SIZE * Suc k) s1"
      using r False by (subst lookup_loop.simps) (auto simp: named_def add.commute)
    moreover obtain s' res where i: "lookup_loop (d_inode d) nm (ENTRY_SIZE * Suc k) s1 = Some (s', res)" "quiet s1 s'"
      "case res of
         None \<Rightarrow> \<forall>j. Suc k \<le> j \<longrightarrow> j < entry_count ino \<longrightarrow> \<not> named nm (entries (disk s) ino ! j)
       | Some (e, ofs) \<Rightarrow> \<exists>j. Suc k \<le> j \<and> j < entry_count ino \<and> ofs = ENTRY_SIZE * j \<and> e = entries (disk s) ino ! j \<and> named nm e \<and>
           (\<forall>i. Suc k \<le> i \<longrightarrow> i < j \<longrightarrow> \<not> named nm (entries (disk s) ino ! i))"
      using Suc(1) [OF m(1) conjunct1 [OF q] m(2)] unfolding conjunct2 [OF q] by blast
    have "case res of
         None \<Rightarrow> \<forall>j. k \<le> j \<longrightarrow> j < entry_count ino \<longrightarrow> \<not> named nm (entries (disk s) ino ! j)
       | Some (e, ofs) \<Rightarrow> \<exists>j. k \<le> j \<and> j < entry_count ino \<and> ofs = ENTRY_SIZE * j \<and> e = entries (disk s) ino ! j \<and> named nm e \<and>
           (\<forall>i. k \<le> i \<longrightarrow> i < j \<longrightarrow> \<not> named nm (entries (disk s) ino ! i))"
      using i(3) False by (auto split: option.splits) (metis Suc_leI le_neq_implies_less Suc_leD)+
    ultimately show ?thesis using i(1) quiet_trans [OF r(2) i(2)] by auto
  qed
qed

lemma free_slot_loop_spec:
  assumes "dir_ok d ino s" "k \<le> entry_count ino" "length e = ENTRY_SIZE"
  shows "\<exists>s' e' j. free_slot_loop (d_inode d) e (ENTRY_SIZE * k) s = Some (s', e', ENTRY_SIZE * j) \<and> quiet s s' \<and>
    length e' = ENTRY_SIZE \<and> k \<le> j \<and> j \<le> entry_count ino \<and> (j < entry_count ino \<longrightarrow> \<not> in_use (entries (disk s) ino ! j)) \<and>
    (\<forall>i. k \<le> i \<longrightarrow> i < j \<longrightarrow> in_use (entries (disk s) ino ! i))"
  using assms
proof (induction "entry_count ino - k" arbitrary: k s e)
  case 0
  then have "k = entry_count ino" by simp
  moreover obtain s' bs where r: "inode_read_at (d_inode d) (int ENTRY_SIZE) (int (ENTRY_SIZE * k)) s = Some (s', bs)" "quiet s s'" "bs = []"
    using read_entry [OF 0(2), of k] \<open>k = entry_count ino\<close> by auto
  ultimately have "free_slot_loop (d_inode d) e (ENTRY_SIZE * k) s = Some (s', e, ENTRY_SIZE * k)"
    by (subst free_slot_loop.simps) simp
  then show ?case using r(2) 0 by (intro exI [of _ s'] exI [of _ e] exI [of _ k]) auto
next
  case (Suc m)
  then have k: "k < entry_count ino" by simp
  obtain s1 bs where r: "inode_read_at (d_inode d) (int ENTRY_SIZE) (int (ENTRY_SIZE * k)) s = Some (s1, bs)" "quiet s s1"
    "length bs = ENTRY_SIZE" "bytes_entry bs = entries (disk s) ino ! k"
    using read_entry [OF Suc(3), of k] k by auto
  show ?case
  proof (cases "in_use (entries (disk s) ino ! k)")
    case False
    then have "free_slot_loop (d_inode d) e (ENTRY_SIZE * k) s = Some (s1, bs, ENTRY_SIZE * k)"
      using r Suc(5) by (subst free_slot_loop.simps) simp
    then show ?thesis using r k False by (intro exI [of _ s1] exI [of _ bs] exI [of _ k]) auto
  next
    case True
    note q = dir_ok_quiet [OF Suc(3) r(2)]
    have m: "m = entry_count ino - Suc k" "Suc k \<le> entry_count ino" using Suc(2) k by simp_all
    have "free_slot_loop (d_inode d) e (ENTRY_SIZE * k) s = free_slot_loop (d_inode d) bs (ENTRY_SIZE * Suc k) s1"
      using r True Suc(5) by (subst free_slot_loop.simps) (simp add: add.commute)
    moreover obtain s' e' j where i: "free_slot_loop (d_inode d) bs (ENTRY_SIZE * Suc k) s1 = Some (s', e', ENTRY_SIZE * j)"
      "quiet s1 s'" "length e' = ENTRY_SIZE" "Suc k \<le> j" "j \<le> entry_count ino"
      "j < entry_count ino \<longrightarrow> \<not> in_use (entries (disk s) ino ! j)"
      "\<forall>i. Suc k \<le> i \<longrightarrow> i < j \<longrightarrow> in_use (entries (disk s) ino ! i)"
      using Suc(1) [OF m(1) conjunct1 [OF q] m(2) r(3)] unfolding conjunct2 [OF q] by blast
    have "\<forall>i. k \<le> i \<longrightarrow> i < j \<longrightarrow> in_use (entries (disk s) ino ! i)"
      using i(7) True by (metis Suc_leI le_neq_implies_less)
    ultimately show ?thesis
      using i quiet_trans [OF r(2) i(2)] by (intro exI [of _ s'] exI [of _ e'] exI [of _ j]) auto
  qed
qed

text \<open>Writing the entry at an index.\<close>

lemma write_entry:
  assumes "dir_ok d ino s" "k < entry_count ino" "inode_sector e < 2 ^ 32" "length (name e) = 15"
  shows "\<exists>s'. inode_write_at (d_inode d) (entry_bytes e) (int ENTRY_SIZE) (int (ENTRY_SIZE * k)) s = Some (s', ENTRY_SIZE) \<and>
    wrote (extent (data ino)) s s' \<and> dir_ok d ino s' \<and> entries (disk s') ino = (entries (disk s) ino)[k := e]"
proof -
  have h: "extent_ok (disk s) (data ino)" "heap s = []" "inodes s (d_inode d) = Some ino" "deny_write_cnt ino = 0"
    "int ENTRY_SIZE * int (entry_count ino) = i_length (data ino)"
    using assms(1) by (auto simp: dir_ok_def)
  have len: "nat (i_length (data ino)) = ENTRY_SIZE * entry_count ino" using h(5) by simp
  have le: "length (entry_bytes e) = ENTRY_SIZE" by (rule length_entry_bytes [OF assms(4)])
  have fit: "min ENTRY_SIZE (nat (i_length (data ino)) - ENTRY_SIZE * k) = ENTRY_SIZE" using assms(2) unfolding len by simp
  from inode_write_loop_spec [OF h(1), of "int (ENTRY_SIZE * k)" 0 "int ENTRY_SIZE" "entry_bytes e" False] h(2) le fit
  obtain s' where s': "inode_write_loop ino (entry_bytes e) (int ENTRY_SIZE) (int (ENTRY_SIZE * k)) False 0 s = Some (s', ENTRY_SIZE)"
    "wrote (extent (data ino)) s s'"
    "file_bytes (disk s') (data ino) = overwrite (file_bytes (disk s) (data ino)) (ENTRY_SIZE * k) (entry_bytes e)"
    by auto
  have ok: "dir_ok d ino s'"
    using assms(1) s'(2) wrote_extent_ok [OF s'(2)] by (simp add: dir_ok_def wrote_def)
  have "entries (disk s') ino = (entries (disk s) ino)[k := e]"
  proof (rule nth_equalityI)
    fix j assume "j < length (entries (disk s') ino)"
    then have j: "j < entry_count ino" by simp
    have "take ENTRY_SIZE (drop (ENTRY_SIZE * j) (overwrite (file_bytes (disk s) (data ino)) (ENTRY_SIZE * k) (entry_bytes e))) =
        (if j = k then entry_bytes e else take ENTRY_SIZE (drop (ENTRY_SIZE * j) (file_bytes (disk s) (data ino))))"
      (is "?l = ?r")
    proof (rule nth_equalityI)
      have fits: "ENTRY_SIZE * k + length (entry_bytes e) \<le> length (file_bytes (disk s) (data ino))"
        using assms(2) unfolding le length_file_bytes len by simp
      show "length ?l = length ?r" using j le by (simp add: length_overwrite [OF fits] len)
      fix i assume "i < length ?l"
      then have i: "i < ENTRY_SIZE" "ENTRY_SIZE * j + i < length (file_bytes (disk s) (data ino))"
        by (simp_all add: length_overwrite [OF fits] less_diff_conv add.commute)
      have "ENTRY_SIZE * k \<le> ENTRY_SIZE * j + i \<and> ENTRY_SIZE * j + i < ENTRY_SIZE * k + ENTRY_SIZE \<longleftrightarrow> j = k" using i(1) by auto
      then show "?l ! i = ?r ! i"
        using i overwrite_nth [OF fits i(2)] le by (auto simp: length_overwrite [OF fits])
    qed
    then show "entries (disk s') ino ! j = (entries (disk s) ino)[k := e] ! j"
      using j assms(2) bytes_entry_entry_bytes [OF assms(3,4)] by (simp add: nth_entries entry_at_def s'(3) nth_list_update)
  qed simp
  then show ?thesis using s' ok h(3,4) by (auto simp: inode_write_at_def)
qed


section \<open>The map of a directory\<close>

lemma dir_map_Some_iff:
  assumes "unique_names es"
  shows "dir_map es nm = Some x \<longleftrightarrow> (\<exists>j<length es. named nm (es ! j) \<and> inode_sector (es ! j) = x)"
proof
  assume "dir_map es nm = Some x"
  then show "\<exists>j<length es. named nm (es ! j) \<and> inode_sector (es ! j) = x"
    by (auto simp: dir_map_def find_Some_iff)
next
  assume "\<exists>j<length es. named nm (es ! j) \<and> inode_sector (es ! j) = x"
  then obtain j where j: "j < length es" "named nm (es ! j)" "inode_sector (es ! j) = x" by blast
  have "\<not> named nm (es ! i)" if "i < j" for i
  proof
    assume "named nm (es ! i)"
    then have "i = j" using assms j that by (auto simp: unique_names_def named_def)
    then show False using that by simp
  qed
  then have "find (named nm) es = Some (es ! j)" using j by (auto simp: find_Some_iff)
  then show "dir_map es nm = Some x" using j by (simp add: dir_map_def)
qed

lemma dir_map_None_iff: "dir_map es nm = None \<longleftrightarrow> (\<forall>j<length es. \<not> named nm (es ! j))"
  by (auto simp: dir_map_def find_None_iff in_set_conv_nth)

lemma named_update:
  assumes "k < length es" "\<not> named m e" "\<not> named m (es ! k)"
  shows "(\<exists>j<length (es[k := e]). named m (es[k := e] ! j) \<and> P (es[k := e] ! j)) \<longleftrightarrow>
    (\<exists>j<length es. named m (es ! j) \<and> P (es ! j))"
proof -
  have "named m (es[k := e] ! j) \<and> P (es[k := e] ! j) \<longleftrightarrow> named m (es ! j) \<and> P (es ! j)" if "j < length es" for j
    using assms that by (cases "j = k") auto
  then show ?thesis by auto
qed

text \<open>Filling a free slot, and freeing the slot of a name.\<close>

lemma dir_map_fill:
  assumes "unique_names es" "k < length es" "\<not> in_use (es ! k)" "named nm e" "dir_map es nm = None"
  shows "unique_names (es[k := e]) \<and> dir_map (es[k := e]) = (dir_map es)(nm \<mapsto> inode_sector e)"
proof
  have n: "\<forall>j<length es. \<not> named nm (es ! j)" using assms(5) dir_map_None_iff by blast
  show u: "unique_names (es[k := e])"
    using assms(1,2,4) n unfolding unique_names_def named_def by (auto simp: nth_list_update split: if_splits)
  show "dir_map (es[k := e]) = (dir_map es)(nm \<mapsto> inode_sector e)"
  proof
    fix m
    have "dir_map (es[k := e]) m = Some x \<longleftrightarrow> ((dir_map es)(nm \<mapsto> inode_sector e)) m = Some x" for x
    proof (cases "m = nm")
      case True
      then show ?thesis
        unfolding dir_map_Some_iff [OF u] using assms(2,4) n by (auto simp: nth_list_update)
    next
      case False
      have n: "\<not> named m e" "\<not> named m (es ! k)" using False assms(3,4) by (auto simp: named_def)
      from named_update [OF assms(2) n] show ?thesis
        unfolding dir_map_Some_iff [OF u] using False dir_map_Some_iff [OF assms(1), of m x] by simp
    qed
    then show "dir_map (es[k := e]) m = ((dir_map es)(nm \<mapsto> inode_sector e)) m" by (metis not_Some_eq)
  qed
qed

lemma dir_map_clear:
  assumes "unique_names es" "k < length es" "named nm (es ! k)" "\<not> in_use e"
  shows "unique_names (es[k := e]) \<and> dir_map (es[k := e]) = (dir_map es)(nm := None)"
proof
  show u: "unique_names (es[k := e])"
    using assms(1,2,4) unfolding unique_names_def by (auto simp: nth_list_update split: if_splits)
  have only: "j = k" if "j < length es" "named nm (es ! j)" for j
    using assms(1-3) that by (auto simp: unique_names_def named_def)
  have gone: "\<not> named nm (es[k := e] ! j)" if "j < length es" for j
  proof (cases "j = k")
    case True
    then show ?thesis using assms(2,4) by (simp add: named_def)
  next
    case False
    then show ?thesis using only [OF that] by auto
  qed
  show "dir_map (es[k := e]) = (dir_map es)(nm := None)"
  proof
    fix m
    have "dir_map (es[k := e]) m = Some x \<longleftrightarrow> ((dir_map es)(nm := None)) m = Some x" for x
    proof (cases "m = nm")
      case True
      then show ?thesis
        unfolding dir_map_Some_iff [OF u] using gone by auto
    next
      case False
      have n: "\<not> named m e" "\<not> named m (es ! k)" using False assms(3,4) by (auto simp: named_def)
      from named_update [OF assms(2) n] show ?thesis
        unfolding dir_map_Some_iff [OF u] using False dir_map_Some_iff [OF assms(1), of m x] by simp
    qed
    then show "dir_map (es[k := e]) m = ((dir_map es)(nm := None)) m" by (metis not_Some_eq)
  qed
qed

lemma lookup_spec:
  assumes "dir_ok d ino s"
  shows "\<exists>s' r. lookup d nm s = Some (s', r) \<and> quiet s s' \<and>
    (case r of None \<Rightarrow> dir_map (entries (disk s) ino) nm = None
     | Some (e, ofs) \<Rightarrow> dir_map (entries (disk s) ino) nm = Some (inode_sector e) \<and>
         (\<exists>j<entry_count ino. ofs = ENTRY_SIZE * j \<and> e = entries (disk s) ino ! j \<and> named nm e))"
proof -
  let ?es = "entries (disk s) ino"
  obtain s' r where l: "lookup_loop (d_inode d) nm (ENTRY_SIZE * 0) s = Some (s', r)" "quiet s s'"
    "case r of None \<Rightarrow> \<forall>j. 0 \<le> j \<longrightarrow> j < entry_count ino \<longrightarrow> \<not> named nm (?es ! j)
     | Some (e, ofs) \<Rightarrow> \<exists>j. 0 \<le> j \<and> j < entry_count ino \<and> ofs = ENTRY_SIZE * j \<and> e = ?es ! j \<and> named nm e \<and>
         (\<forall>i. 0 \<le> i \<longrightarrow> i < j \<longrightarrow> \<not> named nm (?es ! i))"
    using lookup_loop_spec [OF assms le0, of nm] by blast
  show ?thesis
  proof (cases r)
    case None
    then have "dir_map ?es nm = None" using l(3) dir_map_None_iff [of ?es nm] by simp
    then show ?thesis using l(1,2) None by (simp add: lookup_def)
  next
    case (Some p)
    obtain e ofs where p: "p = (e, ofs)" by (cases p)
    obtain j where j: "j < entry_count ino" "ofs = ENTRY_SIZE * j" "e = ?es ! j" "named nm e" "\<forall>i<j. \<not> named nm (?es ! i)"
      using l(3) unfolding Some p by auto
    then have "find (named nm) ?es = Some e" by (auto simp: find_Some_iff)
    then have "dir_map ?es nm = Some (inode_sector e)" by (simp add: dir_map_def)
    then show ?thesis using l(1,2) Some p j by (auto simp: lookup_def)
  qed
qed

lemma c_string_terminated: "0 \<notin> set nm \<Longrightarrow> c_string (nm @ 0 # rest) = nm"
  unfolding c_string_def by (induction nm) auto

lemma dir_add_spec:
  assumes "dir_ok d ino s" "unique_names (entries (disk s) ino)" "length e0 = ENTRY_SIZE" "sec < 2 ^ 32" "0 \<notin> set nm"
  defines "es \<equiv> entries (disk s) ino"
  shows "\<exists>s' ok. dir_add e0 d nm sec s = Some (s', ok) \<and> wrote (extent (data ino)) s s' \<and> dir_ok d ino s' \<and>
    ok = (nm \<noteq> [] \<and> length nm \<le> NAME_MAX \<and> dir_map es nm = None \<and> (\<exists>k<length es. \<not> in_use (es ! k))) \<and>
    (if ok then \<exists>k e. k < length es \<and> \<not> in_use (es ! k) \<and> named nm e \<and> inode_sector e = sec \<and> entries (disk s') ino = es[k := e]
     else quiet s s')"
proof (cases "nm = [] \<or> length nm > NAME_MAX")
  case True
  then show ?thesis using assms(1) by (auto simp: dir_add_def quiet_wrote)
next
  case valid: False
  obtain s1 r where l: "lookup d nm s = Some (s1, r)" "quiet s s1" "(r = None) = (dir_map es nm = None)"
  proof -
    obtain s1 r where "lookup d nm s = Some (s1, r)" "quiet s s1"
      "case r of None \<Rightarrow> dir_map es nm = None
       | Some (e, ofs) \<Rightarrow> dir_map es nm = Some (inode_sector e) \<and>
           (\<exists>j<entry_count ino. ofs = ENTRY_SIZE * j \<and> e = es ! j \<and> named nm e)"
      using lookup_spec [OF assms(1), of nm] unfolding es_def by blast
    then show ?thesis using that by (cases r) auto
  qed
  note q1 = dir_ok_quiet [OF assms(1) l(2)]
  show ?thesis
  proof (cases "r = None")
    case False
    then show ?thesis using valid l q1 by (auto simp: dir_add_def quiet_wrote)
  next
    case True
    obtain s2 e' j where f: "free_slot_loop (d_inode d) e0 (ENTRY_SIZE * 0) s1 = Some (s2, e', ENTRY_SIZE * j)" "quiet s1 s2"
      "length e' = ENTRY_SIZE" "j \<le> entry_count ino" "j < entry_count ino \<longrightarrow> \<not> in_use (es ! j)"
      "\<forall>i. 0 \<le> i \<longrightarrow> i < j \<longrightarrow> in_use (es ! i)"
      using free_slot_loop_spec [OF conjunct1 [OF q1] le0 assms(3)] unfolding conjunct2 [OF q1] es_def by blast
    note q2 = dir_ok_quiet [OF conjunct1 [OF q1] f(2)]
    have quiet2: "quiet s s2" by (rule quiet_trans [OF l(2) f(2)])
    let ?e = "\<lparr>inode_sector = sec, name = nm @ [0] @ drop (length nm + 1) (take 15 (drop 4 e')), in_use = True\<rparr>"
    have ln: "length (name ?e) = 15" using valid f(3) by simp
    have nd: "named nm ?e" using c_string_terminated [OF assms(5)] by (simp add: named_def)
    have run: "dir_add e0 d nm sec s = do {
        (s, n) \<leftarrow> inode_write_at (d_inode d) (entry_bytes ?e) (int ENTRY_SIZE) (int (ENTRY_SIZE * j)) s2;
        Some (s, n = ENTRY_SIZE) }"
      using valid l(1) True f(1) by (simp add: dir_add_def Let_def)
    show ?thesis
    proof (cases "j < entry_count ino")
      case True
      obtain s3 where w: "inode_write_at (d_inode d) (entry_bytes ?e) (int ENTRY_SIZE) (int (ENTRY_SIZE * j)) s2 = Some (s3, ENTRY_SIZE)"
        "wrote (extent (data ino)) s2 s3" "dir_ok d ino s3" "entries (disk s3) ino = (entries (disk s2) ino)[j := ?e]"
        using write_entry [OF conjunct1 [OF q2] True _ ln] assms(4) by auto
      have "entries (disk s3) ino = es[j := ?e]" using w(4) q1 q2 by (simp add: es_def)
      moreover have "wrote (extent (data ino)) s s3" by (rule wrote_trans [OF quiet_wrote [OF quiet2] w(2)])
      moreover have "\<exists>k<length es. \<not> in_use (es ! k)" using True f(5) by (auto simp: es_def)
      moreover have "inode_sector ?e = sec" by simp
      moreover have "dir_map es nm = None" using l(3) \<open>r = None\<close> by simp
      moreover have "j < length es" "\<not> in_use (es ! j)" using f(5) True by (simp_all add: es_def)
      moreover have "dir_add e0 d nm sec s = Some (s3, True)" unfolding run w(1) by simp
      moreover have "nm \<noteq> [] \<and> length nm \<le> NAME_MAX" using valid by simp
      ultimately show ?thesis
        using w(3) nd by (intro exI [of _ s3] exI [of _ True]) (simp only: if_True, blast)
    next
      case False
      then have j: "j = entry_count ino" using f(4) by simp
      have h: "extent_ok (disk s2) (data ino)" "heap s2 = []" "inodes s2 (d_inode d) = Some ino" "deny_write_cnt ino = 0"
        "int ENTRY_SIZE * int (entry_count ino) = i_length (data ino)"
        using q2 by (auto simp: dir_ok_def)
      have "i_length (data ino) \<le> int (ENTRY_SIZE * j)" using h(5) unfolding j by simp
      then have "chunk_size ino 20 (int (ENTRY_SIZE * j)) \<le> 0" by (simp add: chunk_size_def inode_length_def Let_def)
      then have "inode_write_at (d_inode d) (entry_bytes ?e) (int ENTRY_SIZE) (int (ENTRY_SIZE * j)) s2 = Some (s2, 0)"
        using h(3,4) by (simp add: inode_write_at_def inode_write_loop.simps)
      moreover have "\<not> (\<exists>k<length es. \<not> in_use (es ! k))" using f(6) j by (auto simp: es_def)
      ultimately show ?thesis unfolding run using quiet2 q2 by (auto simp: quiet_wrote)
    qed
  qed
qed

section \<open>What a directory promises\<close>

text \<open>
  C16: The entries of a directory implement a finite map from names to sectors. Looking up a name
  gives the sector of the map and changes nothing on the disk. Adding a name succeeds exactly when
  the name is valid, not in the map, and a slot is free (the directory never grows), and then
  updates the map at this name only; all other sectors of the disk keep their contents.
\<close>

theorem directory_implements_map:
  assumes "dir_ok d ino s" and "unique_names (entries (disk s) ino)" and "length e0 = ENTRY_SIZE" and "sec < 2 ^ 32"
    and "0 \<notin> set nm"
  shows "let es = entries (disk s) ino;
             ok = (nm \<noteq> [] \<and> length nm \<le> NAME_MAX \<and> dir_map es nm = None \<and> (\<exists>k<length es. \<not> in_use (es ! k)))
    in (\<exists>s' r. lookup d nm s = Some (s', r) \<and> quiet s s' \<and> map_option (\<lambda>(e, _). inode_sector e) r = dir_map es nm) \<and>
       (\<exists>s'. dir_add e0 d nm sec s = Some (s', ok) \<and> wrote (extent (data ino)) s s' \<and>
          unique_names (entries (disk s') ino) \<and>
          dir_map (entries (disk s') ino) = (if ok then (dir_map es)(nm \<mapsto> sec) else dir_map es))"
proof -
  let ?es = "entries (disk s) ino"
  have "\<exists>s' r. lookup d nm s = Some (s', r) \<and> quiet s s' \<and> map_option (\<lambda>(e, _). inode_sector e) r = dir_map ?es nm"
  proof -
    obtain s' r where "lookup d nm s = Some (s', r)" "quiet s s'"
      "case r of None \<Rightarrow> dir_map ?es nm = None
       | Some (e, ofs) \<Rightarrow> dir_map ?es nm = Some (inode_sector e) \<and>
           (\<exists>j<entry_count ino. ofs = ENTRY_SIZE * j \<and> e = ?es ! j \<and> named nm e)"
      using lookup_spec [OF assms(1), of nm] by blast
    then show ?thesis by (cases r) auto
  qed
  moreover obtain s' ok where a: "dir_add e0 d nm sec s = Some (s', ok)" "wrote (extent (data ino)) s s'"
    "ok = (nm \<noteq> [] \<and> length nm \<le> NAME_MAX \<and> dir_map ?es nm = None \<and> (\<exists>k<length ?es. \<not> in_use (?es ! k)))"
    "if ok then \<exists>k e. k < length ?es \<and> \<not> in_use (?es ! k) \<and> named nm e \<and> inode_sector e = sec \<and> entries (disk s') ino = ?es[k := e]
     else quiet s s'"
    using dir_add_spec [OF assms] by blast
  have "unique_names (entries (disk s') ino) \<and>
      dir_map (entries (disk s') ino) = (if ok then (dir_map ?es)(nm \<mapsto> sec) else dir_map ?es)"
  proof (cases ok)
    case True
    then show ?thesis using a(3,4) dir_map_fill [OF assms(2)] by auto
  next
    case False
    then show ?thesis using a(4) dir_ok_quiet [OF assms(1), of s'] assms(2) by simp
  qed
  ultimately show ?thesis using a(1-3) unfolding Let_def by blast
qed

text \<open>A directory with room for two entries, of which the first is in use.\<close>

definition sample_dir_entry :: dir_entry where
  "sample_dir_entry = \<lparr>inode_sector = 7, name = [97, 98] @ replicate 13 0, in_use = True\<rparr>"

definition sample_dir_inode :: inode where
  "sample_dir_inode = \<lparr>sector = 1, open_cnt = 1, removed = False, deny_write_cnt = 0,
     data = \<lparr>i_start = 2, i_length = 40, i_magic = INODE_MAGIC\<rparr>\<rparr>"

definition sample_dir_fs :: fs where
  "sample_dir_fs = \<lparr>disk = sample_disk\<lparr>sectors := (sectors sample_disk)(2 := entry_bytes sample_dir_entry @ replicate 492 0)\<rparr>,
     heap = [], inodes = [1 \<mapsto> sample_dir_inode], open_inodes = [1],
     files = Map.empty, free_map = \<lparr>bit_cnt = 10, bits = [0x8F]\<rparr>, free_map_file = 0, next_addr = 2\<rparr>"

lemma sample_dir_ok: "dir_ok \<lparr>d_inode = 1, d_pos = 0\<rparr> sample_dir_inode sample_dir_fs"
  by (simp add: dir_ok_def sample_dir_fs_def sample_dir_inode_def extent_ok_def disk_ok_def sample_disk_def
      bytes_to_sectors_nat entry_count_def length_entry_bytes sample_dir_entry_def)

lemma sample_entries:
  "entries (disk sample_dir_fs) sample_dir_inode = [sample_dir_entry, \<lparr>inode_sector = 0, name = replicate 15 0, in_use = False\<rparr>]"
proof -
  let ?d = "disk sample_dir_fs" and ?i = "data sample_dir_inode"
  have l: "length (entry_bytes sample_dir_entry) = 20" by (simp add: length_entry_bytes sample_dir_entry_def)
  have "take 40 (drop (0 mod 512) (sectors ?d (i_start ?i + 0 div 512))) = map (byte_at (sectors ?d) ?i) [0..<0 + 40]"
    by (rule chunk_bytes) (simp_all add: sample_dir_fs_def sample_dir_inode_def l)
  then have fb: "file_bytes ?d ?i = entry_bytes sample_dir_entry @ replicate 20 0"
    by (simp add: file_bytes_def sample_dir_inode_def sample_dir_fs_def l)
  have 1: "bytes_entry (entry_bytes sample_dir_entry) = sample_dir_entry"
    by (rule bytes_entry_entry_bytes) (simp_all add: sample_dir_entry_def)
  have 2: "bytes_entry (replicate 20 0) = \<lparr>inode_sector = 0, name = replicate 15 0, in_use = False\<rparr>"
    by (simp add: bytes_entry_def numeral_eq_Suc)
  have "entry_count sample_dir_inode = 2" by (simp add: entry_count_def sample_dir_inode_def)
  then have "entries ?d sample_dir_inode = [entry_at ?d sample_dir_inode 0, entry_at ?d sample_dir_inode 1]"
    by (simp add: entries_def upt_rec)
  then show ?thesis by (simp add: entry_at_def fb l 1 2)
qed

theorem directory_implements_map_witness:
  "\<exists>s'. dir_add (replicate 20 0) \<lparr>d_inode = 1, d_pos = 0\<rparr> [99] 9 sample_dir_fs = Some (s', True) \<and>
     dir_map (entries (disk s') sample_dir_inode) [99] = Some 9 \<and>
     dir_map (entries (disk s') sample_dir_inode) [97, 98] = Some 7"
proof -
  let ?es = "[sample_dir_entry, \<lparr>inode_sector = 0, name = replicate 15 0, in_use = False\<rparr>]"
  have u: "unique_names (entries (disk sample_dir_fs) sample_dir_inode)"
    unfolding sample_entries by (auto simp: unique_names_def less_Suc_eq)
  have ok: "dir_map ?es [99] = None" "dir_map ?es [97, 98] = Some 7"
    by (simp_all add: dir_map_def named_def sample_dir_entry_def c_string_def)
  have free: "\<exists>k<length ?es. \<not> in_use (?es ! k)" by (rule exI [of _ 1]) simp
  have "length (replicate 20 (0 :: u8)) = ENTRY_SIZE" "(9 :: nat) < 2 ^ 32" "(0 :: u8) \<notin> set [99]" by simp_all
  from directory_implements_map [OF sample_dir_ok u this]
  show ?thesis unfolding sample_entries Let_def using ok free by auto
qed

end
