(* ===== verification/FileSys.thy ===== *)
theory FileSys
  imports Directory
begin

text \<open>
  The file system: filesys/filesys.c.
\<close>

section \<open>The file system\<close>

definition filesys_create :: "u8 list \<Rightarrow> u8 list \<Rightarrow> int \<Rightarrow> fs \<Rightarrow> (fs \<times> bool) option" where
  "filesys_create e0 nm initial_size s = do {
     (s, d) \<leftarrow> dir_open_root s;
     (s, sec, success) \<leftarrow>
       (case d of
          None \<Rightarrow> Some (s, 0, False)
        | Some d \<Rightarrow> do {
            (s, r) \<leftarrow> free_map_allocate 1 s;
            case r of
              None \<Rightarrow> Some (s, 0, False)
            | Some sec \<Rightarrow> do {
                (s, ok) \<leftarrow> inode_create sec initial_size s;
                if ok then do { (s, ok) \<leftarrow> dir_add e0 d nm sec s; Some (s, sec, ok) }
                else Some (s, sec, False) } });
     s \<leftarrow> (if \<not> success \<and> sec \<noteq> 0 then free_map_release sec 1 s else Some s);
     s \<leftarrow> dir_close d s;
     Some (s, success) }"

definition filesys_open :: "u8 list \<Rightarrow> fs \<Rightarrow> (fs \<times> addr) option" where
  "filesys_open nm s = do {
     (s, d) \<leftarrow> dir_open_root s;
     (s, ino) \<leftarrow> (case d of None \<Rightarrow> Some (s, NULL) | Some d \<Rightarrow> dir_lookup d nm s);
     s \<leftarrow> dir_close d s;
     file_open ino s }"

definition filesys_remove :: "u8 list \<Rightarrow> fs \<Rightarrow> (fs \<times> bool) option" where
  "filesys_remove nm s = do {
     (s, d) \<leftarrow> dir_open_root s;
     (s, success) \<leftarrow> (case d of None \<Rightarrow> Some (s, False) | Some d \<Rightarrow> dir_remove d nm s);
     s \<leftarrow> dir_close d s;
     Some (s, success) }"

definition do_format :: "fs \<Rightarrow> fs option" where
  "do_format s = do {
     s \<leftarrow> free_map_create s;
     (s, ok) \<leftarrow> dir_create ROOT_DIR_SECTOR 16 s;
     ASSERT ok;
     free_map_close s }"

definition filesys_init :: "u64 list \<Rightarrow> bool \<Rightarrow> fs \<Rightarrow> fs option" where
  "filesys_init junk format s = do {
     let s = inode_init s;
     s \<leftarrow> free_map_init junk s;
     s \<leftarrow> (if format then do_format s else Some s);
     free_map_open s }"

definition filesys_done :: "fs \<Rightarrow> fs option" where
  "filesys_done s = free_map_close s"

end
