(* ===== verification/StringLib.thy ===== *)
theory StringLib
  imports Words "HOL-Library.Sublist"
begin

text \<open>
  The string functions: lib/string.c, on a memory of bytes. A pointer is an address; dereferencing
  the null pointer is excluded by the assertions. A search for a terminator that is not there does
  not return, which is \<open>None\<close>. The tokenizer \<open>strtok_r\<close>, by which the kernel splits command lines,
  is shown to give the words of a string.
\<close>

section \<open>Blocks of memory\<close>

fun copy_up :: "mem \<Rightarrow> addr \<Rightarrow> addr \<Rightarrow> nat \<Rightarrow> mem" where
  "copy_up m dst src 0 = m"
| "copy_up m dst src (Suc n) = copy_up (m(dst := m src)) (Suc dst) (Suc src) n"

text \<open>\<open>dst\<close> and \<open>src\<close> point behind the last byte.\<close>

fun copy_down :: "mem \<Rightarrow> addr \<Rightarrow> addr \<Rightarrow> nat \<Rightarrow> mem" where
  "copy_down m dst src 0 = m"
| "copy_down m dst src (Suc n) = copy_down (m(dst - 1 := m (src - 1))) (dst - 1) (src - 1) n"

definition memcpy :: "mem \<Rightarrow> addr \<Rightarrow> addr \<Rightarrow> nat \<Rightarrow> (mem \<times> addr) option" where
  "memcpy m dst src n = do {
     ASSERT (dst \<noteq> NULL \<or> n = 0);
     ASSERT (src \<noteq> NULL \<or> n = 0);
     Some (copy_up m dst src n, dst) }"

text \<open>The result is the variable \<open>dst\<close>, which the first loop has advanced.\<close>

definition memmove :: "mem \<Rightarrow> addr \<Rightarrow> addr \<Rightarrow> nat \<Rightarrow> (mem \<times> addr) option" where
  "memmove m dst src n = do {
     ASSERT (dst \<noteq> NULL \<or> n = 0);
     ASSERT (src \<noteq> NULL \<or> n = 0);
     if dst < src then Some (copy_up m dst src n, dst + n)
     else Some (copy_down m (dst + n) (src + n) n, dst) }"

fun memcmp_loop :: "mem \<Rightarrow> addr \<Rightarrow> addr \<Rightarrow> nat \<Rightarrow> int" where
  "memcmp_loop m a b 0 = 0"
| "memcmp_loop m a b (Suc n) =
     (if m a \<noteq> m b then if m a > m b then 1 else - 1 else memcmp_loop m (Suc a) (Suc b) n)"

definition memcmp :: "mem \<Rightarrow> addr \<Rightarrow> addr \<Rightarrow> nat \<Rightarrow> int option" where
  "memcmp m a b n = do {
     ASSERT (a \<noteq> NULL \<or> n = 0);
     ASSERT (b \<noteq> NULL \<or> n = 0);
     Some (memcmp_loop m a b n) }"

fun memchr_loop :: "mem \<Rightarrow> addr \<Rightarrow> u8 \<Rightarrow> nat \<Rightarrow> addr" where
  "memchr_loop m p c 0 = NULL"
| "memchr_loop m p c (Suc n) = (if m p = c then p else memchr_loop m (Suc p) c n)"

definition memchr :: "mem \<Rightarrow> addr \<Rightarrow> u8 \<Rightarrow> nat \<Rightarrow> addr option" where
  "memchr m p c n = do { ASSERT (p \<noteq> NULL \<or> n = 0); Some (memchr_loop m p c n) }"

fun memset_loop :: "mem \<Rightarrow> addr \<Rightarrow> u8 \<Rightarrow> nat \<Rightarrow> mem" where
  "memset_loop m p v 0 = m"
| "memset_loop m p v (Suc n) = memset_loop (m(p := v)) (Suc p) v n"

definition memset :: "mem \<Rightarrow> addr \<Rightarrow> u8 \<Rightarrow> nat \<Rightarrow> (mem \<times> addr) option" where
  "memset m dst v n = do { ASSERT (dst \<noteq> NULL \<or> n = 0); Some (memset_loop m dst v n, dst) }"

section \<open>Strings\<close>

partial_function (option) strcmp_loop :: "mem \<Rightarrow> addr \<Rightarrow> addr \<Rightarrow> int option" where
  "strcmp_loop m a b =
     (if m a \<noteq> 0 \<and> m a = m b then strcmp_loop m (Suc a) (Suc b)
      else Some (if m a < m b then - 1 else if m a > m b then 1 else 0))"

definition strcmp :: "mem \<Rightarrow> addr \<Rightarrow> addr \<Rightarrow> int option" where
  "strcmp m a b = do { ASSERT (a \<noteq> NULL); ASSERT (b \<noteq> NULL); strcmp_loop m a b }"

partial_function (option) strchr_loop :: "mem \<Rightarrow> addr \<Rightarrow> u8 \<Rightarrow> addr option" where
  "strchr_loop m p c = (if m p = c then Some p else if m p = 0 then Some NULL else strchr_loop m (Suc p) c)"

definition strchr :: "mem \<Rightarrow> addr \<Rightarrow> u8 \<Rightarrow> addr option" where
  "strchr m p c = do { ASSERT (p \<noteq> NULL); strchr_loop m p c }"

text \<open>\<open>strcspn\<close> and \<open>strspn\<close> from offset \<open>n\<close> on: \<open>stop_at\<close> is whether a hit stops the loop.\<close>

partial_function (option) span_loop :: "mem \<Rightarrow> bool \<Rightarrow> addr \<Rightarrow> addr \<Rightarrow> nat \<Rightarrow> nat option" where
  "span_loop m stop_at p chars n =
     (if m (p + n) \<noteq> 0
      then do {
        r \<leftarrow> strchr m chars (m (p + n));
        if (r \<noteq> NULL) = stop_at then Some n else span_loop m stop_at p chars (Suc n) }
      else Some n)"

definition strcspn :: "mem \<Rightarrow> addr \<Rightarrow> addr \<Rightarrow> nat option" where
  "strcspn m p stop = span_loop m True p stop 0"

definition strspn :: "mem \<Rightarrow> addr \<Rightarrow> addr \<Rightarrow> nat option" where
  "strspn m p skip = span_loop m False p skip 0"

partial_function (option) strpbrk :: "mem \<Rightarrow> addr \<Rightarrow> addr \<Rightarrow> addr option" where
  "strpbrk m p stop =
     (if m p \<noteq> 0
      then do { r \<leftarrow> strchr m stop (m p); if r \<noteq> NULL then Some p else strpbrk m (Suc p) stop }
      else Some NULL)"

partial_function (option) strrchr_loop :: "mem \<Rightarrow> addr \<Rightarrow> u8 \<Rightarrow> addr \<Rightarrow> addr option" where
  "strrchr_loop m p c q = (if m p \<noteq> 0 then strrchr_loop m (Suc p) c (if m p = c then p else q) else Some q)"

definition strrchr :: "mem \<Rightarrow> addr \<Rightarrow> u8 \<Rightarrow> addr option" where
  "strrchr m p c = strrchr_loop m p c NULL"

partial_function (option) strlen_loop :: "mem \<Rightarrow> addr \<Rightarrow> addr option" where
  "strlen_loop m p = (if m p \<noteq> 0 then strlen_loop m (Suc p) else Some p)"

definition strlen :: "mem \<Rightarrow> addr \<Rightarrow> nat option" where
  "strlen m p = do { ASSERT (p \<noteq> NULL); q \<leftarrow> strlen_loop m p; Some (q - p) }"

fun strnlen_loop :: "mem \<Rightarrow> addr \<Rightarrow> nat \<Rightarrow> nat" where
  "strnlen_loop m p 0 = 0"
| "strnlen_loop m p (Suc n) = (if m p \<noteq> 0 then Suc (strnlen_loop m (Suc p) n) else 0)"

definition strnlen :: "mem \<Rightarrow> addr \<Rightarrow> nat \<Rightarrow> nat" where
  "strnlen m p maxlen = strnlen_loop m p maxlen"

text \<open>The first of the \<open>n\<close> positions from \<open>i\<close> on at which \<open>memcmp\<close> finds the needle.\<close>

fun strstr_loop :: "mem \<Rightarrow> addr \<Rightarrow> addr \<Rightarrow> nat \<Rightarrow> nat \<Rightarrow> nat \<Rightarrow> addr option" where
  "strstr_loop m hay needle len i 0 = Some NULL"
| "strstr_loop m hay needle len i (Suc n) = do {
     r \<leftarrow> memcmp m (hay + i) needle len;
     if r = 0 then Some (hay + i) else strstr_loop m hay needle len (Suc i) n }"

definition strstr :: "mem \<Rightarrow> addr \<Rightarrow> addr \<Rightarrow> addr option" where
  "strstr m hay needle = do {
     haystack_len \<leftarrow> strlen m hay;
     needle_len \<leftarrow> strlen m needle;
     if haystack_len \<ge> needle_len then strstr_loop m hay needle needle_len 0 (Suc (haystack_len - needle_len))
     else Some NULL }"

section \<open>Tokens\<close>

text \<open>\<open>Inl\<close>: the end of the string has been reached; \<open>Inr\<close>: a token begins.\<close>

partial_function (option) skip_delimiters :: "mem \<Rightarrow> addr \<Rightarrow> addr \<Rightarrow> (addr + addr) option" where
  "skip_delimiters m delimiters p = do {
     r \<leftarrow> strchr m delimiters (m p);
     if r \<noteq> NULL then if m p = 0 then Some (Inl p) else skip_delimiters m delimiters (Suc p)
     else Some (Inr p) }"

partial_function (option) skip_token :: "mem \<Rightarrow> addr \<Rightarrow> addr \<Rightarrow> addr option" where
  "skip_token m delimiters p = do {
     r \<leftarrow> strchr m delimiters (m p);
     if r = NULL then skip_token m delimiters (Suc p) else Some p }"

text \<open>The memory, the token, and the new value of \<open>save_ptr\<close>.\<close>

definition strtok_r :: "mem \<Rightarrow> addr \<Rightarrow> addr \<Rightarrow> addr \<Rightarrow> (mem \<times> addr \<times> addr) option" where
  "strtok_r m s delimiters save_ptr = do {
     ASSERT (delimiters \<noteq> NULL);
     let s = (if s = NULL then save_ptr else s);
     ASSERT (s \<noteq> NULL);
     r \<leftarrow> skip_delimiters m delimiters s;
     case r of
       Inl p \<Rightarrow> Some (m, NULL, p)
     | Inr token \<Rightarrow> do {
         e \<leftarrow> skip_token m delimiters token;
         if m e \<noteq> 0 then Some (m(e := 0), token, e + 1) else Some (m, token, e) } }"

section \<open>Copying strings\<close>

definition strlcpy :: "mem \<Rightarrow> addr \<Rightarrow> addr \<Rightarrow> nat \<Rightarrow> (mem \<times> nat) option" where
  "strlcpy m dst src n = do {
     ASSERT (dst \<noteq> NULL);
     ASSERT (src \<noteq> NULL);
     src_len \<leftarrow> strlen m src;
     if n > 0 then do {
       let dst_len = (if src_len < n - 1 then src_len else n - 1);
       (m, _) \<leftarrow> memcpy m dst src dst_len;
       Some (m(dst + dst_len := 0), src_len) }
     else Some (m, src_len) }"

definition strlcat :: "mem \<Rightarrow> addr \<Rightarrow> addr \<Rightarrow> nat \<Rightarrow> (mem \<times> nat) option" where
  "strlcat m dst src n = do {
     ASSERT (dst \<noteq> NULL);
     ASSERT (src \<noteq> NULL);
     src_len \<leftarrow> strlen m src;
     dst_len \<leftarrow> strlen m dst;
     if n > 0 \<and> dst_len < n then do {
       let copy_cnt = (if src_len < n - dst_len - 1 then src_len else n - dst_len - 1);
       (m, _) \<leftarrow> memcpy m (dst + dst_len) src copy_cnt;
       Some (m(dst + dst_len + copy_cnt := 0), src_len + dst_len) }
     else Some (m, src_len + dst_len) }"

section \<open>Blocks: what is copied\<close>

lemma copy_down_spec:
  assumes "src \<le> dst"
  shows "copy_down m (dst + n) (src + n) n = (\<lambda>a. if dst \<le> a \<and> a < dst + n then m (src + (a - dst)) else m a)"
  using assms
proof (induction n arbitrary: m)
  case (Suc n)
  then show ?case by (auto simp: fun_eq_iff less_Suc_eq)
qed (auto simp: fun_eq_iff)

lemma copy_up_spec:
  assumes "dst \<le> src \<or> src + n \<le> dst"
  shows "copy_up m dst src n = (\<lambda>a. if dst \<le> a \<and> a < dst + n then m (src + (a - dst)) else m a)"
  using assms
proof (induction n arbitrary: m dst src)
  case (Suc n)
  then have "Suc dst \<le> Suc src \<or> Suc src + n \<le> Suc dst" by auto
  from Suc.IH [OF this] show ?case
    using Suc.prems by (auto simp: fun_eq_iff Suc_le_eq Suc_diff_Suc dest: less_imp_Suc_add)
qed (auto simp: fun_eq_iff)

lemma memset_loop_spec: "memset_loop m p v n = (\<lambda>a. if p \<le> a \<and> a < p + n then v else m a)"
  by (induction n arbitrary: m p) (auto simp: fun_eq_iff)

lemma memcmp_loop_0: "memcmp_loop m a b n = 0 \<longleftrightarrow> (\<forall>i<n. m (a + i) = m (b + i))"
proof (induction n arbitrary: a b)
  case (Suc n)
  have "(\<forall>i<Suc n. m (a + i) = m (b + i)) \<longleftrightarrow> m a = m b \<and> (\<forall>i<n. m (Suc a + i) = m (Suc b + i))"
    by (auto simp: less_Suc_eq_0_disj)
  then show ?case using Suc by simp
qed simp

section \<open>Strings in memory\<close>

definition str_at :: "mem \<Rightarrow> addr \<Rightarrow> u8 list \<Rightarrow> bool" where
  "str_at m p cs \<longleftrightarrow> (\<forall>i<length cs. m (p + i) = cs ! i) \<and> 0 \<notin> set cs \<and> m (p + length cs) = 0"

lemma str_at_Nil [simp]: "str_at m p [] \<longleftrightarrow> m p = 0"
  by (simp add: str_at_def)

lemma str_at_Cons [simp]: "str_at m p (c # cs) \<longleftrightarrow> m p = c \<and> c \<noteq> 0 \<and> str_at m (Suc p) cs"
  by (auto simp: str_at_def less_Suc_eq_0_disj)

lemma str_at_append: "str_at m p (cs @ ds) \<Longrightarrow> str_at m (p + length cs) ds"
proof (induction cs arbitrary: p)
  case (Cons c cs)
  then show ?case using Cons.IH [of "Suc p"] by simp
qed simp

lemma str_at_cong: "\<forall>a. p \<le> a \<longrightarrow> a \<le> p + length cs \<longrightarrow> m' a = m a \<Longrightarrow> str_at m' p cs = str_at m p cs"
  by (simp add: str_at_def)

lemma strlen_spec: "str_at m p cs \<Longrightarrow> p \<noteq> NULL \<Longrightarrow> strlen m p = Some (length cs)"
proof -
  have "strlen_loop m q = Some (q + length cs)" if "str_at m q cs" for q
    using that by (induction cs arbitrary: q) (auto simp: strlen_loop.simps)
  then show "str_at m p cs \<Longrightarrow> p \<noteq> NULL \<Longrightarrow> strlen m p = Some (length cs)" by (simp add: strlen_def)
qed

lemma strchr_exact:
  assumes "str_at m p cs" "p \<noteq> NULL"
  shows "strchr m p c = Some (if c \<in> set cs then p + length (takeWhile (\<lambda>d. d \<noteq> c) cs) else if c = 0 then p + length cs else NULL)"
proof -
  have "strchr_loop m q c =
      Some (if c \<in> set cs then q + length (takeWhile (\<lambda>d. d \<noteq> c) cs) else if c = 0 then q + length cs else NULL)"
    if "str_at m q cs" for q
    using that
  proof (induction cs arbitrary: q)
    case Nil
    then show ?case by (subst strchr_loop.simps) auto
  next
    case (Cons d cs)
    then show ?case using Cons.IH [of "Suc q"] by (subst strchr_loop.simps) auto
  qed
  then show ?thesis using assms by (simp add: strchr_def)
qed

lemma strchr_spec:
  assumes "str_at m p cs" "p \<noteq> NULL"
  shows "\<exists>r. strchr m p c = Some r \<and> (r \<noteq> NULL \<longleftrightarrow> c \<in> set cs \<or> c = 0)"
  using assms by (simp add: strchr_exact)

lemma strcmp_spec:
  assumes "str_at m a cs" "str_at m b ds" "a \<noteq> NULL" "b \<noteq> NULL"
  shows "strcmp m a b = Some (if cs = ds then 0 else if (cs, ds) \<in> lexord {(x, y). x < y} then - 1 else 1)"
proof -
  have "strcmp_loop m a b = Some (if cs = ds then 0 else if (cs, ds) \<in> lexord {(x, y). x < y} then - 1 else 1)"
    using assms(1,2)
  proof (induction cs arbitrary: a b ds)
    case Nil
    then show ?case by (cases ds) (auto simp: strcmp_loop.simps word_gt_0)
  next
    case (Cons c cs)
    show ?case
    proof (cases ds)
      case Nil
      then show ?thesis using Cons.prems by (auto simp: strcmp_loop.simps word_gt_0)
    next
      case (Cons d ds')
      then show ?thesis
        using Cons.IH [of "Suc a" "Suc b" ds'] Cons.prems by (subst strcmp_loop.simps) auto
    qed
  qed
  then show ?thesis using assms(3,4) by (simp add: strcmp_def)
qed


lemma skip_delimiters_spec:
  assumes "str_at m p cs" "str_at m d ds" "d \<noteq> NULL"
  shows "skip_delimiters m d p =
    (let n = length (takeWhile (\<lambda>c. c \<in> set ds) cs) in if n = length cs then Some (Inl (p + n)) else Some (Inr (p + n)))"
  using assms(1)
proof (induction cs arbitrary: p)
  case Nil
  obtain r where "strchr m d 0 = Some r" "r \<noteq> NULL" using strchr_spec [OF assms(2,3), of 0] by auto
  then show ?case using Nil by (subst skip_delimiters.simps) simp
next
  case (Cons c cs)
  then have p: "m p = c" "c \<noteq> 0" "str_at m (Suc p) cs" by auto
  obtain r where r: "strchr m d c = Some r" "r \<noteq> NULL \<longleftrightarrow> c \<in> set ds" using strchr_spec [OF assms(2,3), of c] p(2) by auto
  show ?case
  proof (cases "c \<in> set ds")
    case True
    then have "skip_delimiters m d p = skip_delimiters m d (Suc p)"
      using r p by (subst skip_delimiters.simps) simp
    then show ?thesis using Cons.IH [OF p(3)] True by (simp add: Let_def)
  next
    case False
    then show ?thesis using r p by (subst skip_delimiters.simps) simp
  qed
qed

lemma skip_token_spec:
  assumes "str_at m p cs" "str_at m d ds" "d \<noteq> NULL"
  shows "skip_token m d p = Some (p + length (takeWhile (\<lambda>c. c \<notin> set ds) cs))"
  using assms(1)
proof (induction cs arbitrary: p)
  case Nil
  obtain r where "strchr m d 0 = Some r" "r \<noteq> NULL" using strchr_spec [OF assms(2,3), of 0] by auto
  then show ?case using Nil by (subst skip_token.simps) simp
next
  case (Cons c cs)
  then have p: "m p = c" "c \<noteq> 0" "str_at m (Suc p) cs" by auto
  obtain r where r: "strchr m d c = Some r" "r \<noteq> NULL \<longleftrightarrow> c \<in> set ds" using strchr_spec [OF assms(2,3), of c] p(2) by auto
  then show ?case using Cons.IH [OF p(3)] p by (subst skip_token.simps) simp
qed

text \<open>
  One call: the first word after the delimiters becomes a string of its own, and the rest of the
  string behind the delimiter that ended it is what remains.
\<close>

lemma strtok_r_spec:
  assumes "str_at m p cs" "str_at m d ds" "d \<noteq> NULL" "p \<noteq> NULL" "s = p \<or> s = NULL \<and> save_ptr = p"
    and "d + length ds < p \<or> p + length cs < d"
  defines "skip \<equiv> takeWhile (\<lambda>c. c \<in> set ds) cs" and "rest \<equiv> dropWhile (\<lambda>c. c \<in> set ds) cs"
  defines "tok \<equiv> takeWhile (\<lambda>c. c \<notin> set ds) rest" and "rem \<equiv> dropWhile (\<lambda>c. c \<notin> set ds) rest"
  shows "if rest = [] then strtok_r m s d save_ptr = Some (m, NULL, p + length cs)
    else \<exists>m'. strtok_r m s d save_ptr =
          Some (m', p + length skip, p + length skip + length tok + (if rem = [] then 0 else 1)) \<and>
        str_at m' (p + length skip) tok \<and> tok \<noteq> [] \<and>
        str_at m' (p + length skip + length tok + (if rem = [] then 0 else 1)) (tl rem) \<and> str_at m' d ds \<and>
        (\<forall>a. a < p + length skip \<or> p + length cs < a \<longrightarrow> m' a = m a)"
proof -
  have cs: "cs = skip @ rest" "rest = tok @ rem" by (simp_all add: skip_def rest_def tok_def rem_def)
  have start: "(if s = NULL then save_ptr else s) = p" using assms(4,5) by auto
  have skipd: "skip_delimiters m d p = (if rest = [] then Some (Inl (p + length skip)) else Some (Inr (p + length skip)))"
    using skip_delimiters_spec [OF assms(1-3)] cs(1) unfolding skip_def [symmetric] by (simp add: Let_def)
  show ?thesis
  proof (cases "rest = []")
    case True
    then show ?thesis
      using skipd start assms(3,4) cs(1) unfolding strtok_r_def Let_def start by simp
  next
    case False
    let ?t = "p + length skip"
    have rs: "str_at m ?t rest" using str_at_append [of m p skip rest] assms(1) cs(1) by simp
    have e: "skip_token m d ?t = Some (?t + length tok)"
      using skip_token_spec [OF rs assms(2,3)] by (simp add: tok_def)
    have rm: "str_at m (?t + length tok) rem" using str_at_append [of m ?t tok rem] rs cs(2) by simp
    have "hd rest \<notin> set ds" using False hd_dropWhile [of "\<lambda>c. c \<in> set ds" cs] by (simp add: rest_def)
    then have ne: "tok \<noteq> []" using False unfolding tok_def by (cases rest) auto
    have tk: "(\<forall>i<length tok. m (?t + i) = tok ! i) \<and> 0 \<notin> set tok"
      using rs cs(2) by (auto simp: str_at_def nth_append split: if_splits)
    show ?thesis
    proof (cases "rem = []")
      case True
      have "m (?t + length tok) = 0" using rm True by simp
      then have "strtok_r m s d save_ptr = Some (m, ?t, ?t + length tok)"
        using skipd e False assms(3,4) unfolding strtok_r_def Let_def start by simp
      moreover have "str_at m ?t tok" using rs cs(2) True by simp
      ultimately show ?thesis using True False ne rm assms(2) by simp
    next
      case nr: False
      then obtain x xs where x: "rem = x # xs" by (cases rem) auto
      let ?m = "m(?t + length tok := 0)"
      have "m (?t + length tok) \<noteq> 0" using rm x by simp
      then have "strtok_r m s d save_ptr = Some (?m, ?t, ?t + length tok + 1)"
        using skipd e False assms(3,4) unfolding strtok_r_def Let_def start by simp
      moreover have "str_at ?m ?t tok" using tk by (auto simp: str_at_def)
      moreover have "str_at ?m (?t + length tok + 1) xs"
        using rm x by (subst str_at_cong [of _ _ _ m]) auto
      moreover have "length cs = length skip + length tok + Suc (length xs)" using cs x by simp
      then have "str_at ?m d ds" using assms(2,6) by (subst str_at_cong [of _ _ _ m]) auto
      ultimately show ?thesis using x False ne cs by auto
    qed
  qed
qed

text \<open>The words of a string, by recursion over the string.\<close>

function words_of :: "u8 set \<Rightarrow> u8 list \<Rightarrow> u8 list list" where
  "words_of D [] = []"
| "words_of D (c # cs) =
     (if c \<in> D then words_of D cs
      else (c # takeWhile (\<lambda>c. c \<notin> D) cs) # words_of D (dropWhile (\<lambda>c. c \<notin> D) cs))"
  by pat_completeness auto
termination by (relation "measure (\<lambda>(D, cs). length cs)") (auto simp: less_Suc_eq_le length_dropWhile_le)

lemma words_of_skip: "words_of D (dropWhile (\<lambda>c. c \<in> D) cs) = words_of D cs"
  by (induction cs) auto

lemma words_of_token:
  "dropWhile (\<lambda>c. c \<in> D) cs = r \<Longrightarrow> r \<noteq> [] \<Longrightarrow>
    words_of D cs = takeWhile (\<lambda>c. c \<notin> D) r # words_of D (tl (dropWhile (\<lambda>c. c \<notin> D) r))"
proof -
  assume r: "dropWhile (\<lambda>c. c \<in> D) cs = r" "r \<noteq> []"
  then obtain c xs where c: "r = c # xs" by (cases r) auto
  have "c \<notin> D" using hd_dropWhile [of "\<lambda>c. c \<in> D" cs] r c by simp
  have d: "words_of D (tl ys) = words_of D ys" if "ys = [] \<or> hd ys \<in> D" for ys using that by (cases ys) auto
  have "dropWhile (\<lambda>c. c \<notin> D) xs = [] \<or> hd (dropWhile (\<lambda>c. c \<notin> D) xs) \<in> D"
    using hd_dropWhile [of "\<lambda>c. c \<notin> D" xs] by auto
  then show ?thesis using words_of_skip [of D cs] r c \<open>c \<notin> D\<close> d by simp
qed

section \<open>What the string functions promise\<close>

text \<open>
  Copying with \<open>memmove\<close> gives every byte of the destination the value that the source had
  before, however the two blocks overlap, and changes nothing else. The pointer that it returns is
  the destination when it is not below the source; otherwise it is the end of the destination,
  although the function is documented to return the destination.
\<close>

theorem memmove_overlap:
  assumes "dst \<noteq> NULL" and "src \<noteq> NULL"
  shows "memmove m dst src n =
    Some (\<lambda>a. if dst \<le> a \<and> a < dst + n then m (src + (a - dst)) else m a, if dst < src then dst + n else dst)"
  using assms copy_up_spec [of dst src n m] copy_down_spec [of src dst m n] by (simp add: memmove_def)

theorem memmove_overlap_witness:
  "\<exists>m. memmove (\<lambda>a. of_nat a) 100 101 3 = Some (m, 103) \<and> map m [99, 100, 101, 102, 103] = [99, 101, 102, 103, 103]"
  using memmove_overlap [of 100 101 "\<lambda>a. of_nat a" 3] by simp


definition sample_mem :: mem where
  "sample_mem = (\<lambda>a. if 10 \<le> a \<and> a < 14 then 97 else if a = 20 then 98 else 0)"


section \<open>Searches return\<close>

lemma span_loop_spec:
  assumes "str_at m d ds" "d \<noteq> NULL"
  shows "str_at m (p + n) cs \<Longrightarrow>
    span_loop m stop_at p d n = Some (n + length (takeWhile (\<lambda>c. (c \<in> set ds) \<noteq> stop_at) cs))"
proof (induction cs arbitrary: n)
  case Nil
  then show ?case by (subst span_loop.simps) simp
next
  case (Cons c cs)
  then have c: "m (p + n) = c" "c \<noteq> 0" "str_at m (p + Suc n) cs" by auto
  obtain r where "strchr m d c = Some r" "r \<noteq> NULL \<longleftrightarrow> c \<in> set ds" using strchr_spec [OF assms, of c] c(2) by auto
  then show ?case using Cons.IH [OF c(3)] c(1,2) by (subst span_loop.simps) auto
qed

lemma strpbrk_spec:
  assumes "str_at m d ds" "d \<noteq> NULL"
  shows "str_at m p cs \<Longrightarrow>
    strpbrk m p d = Some (if \<exists>c\<in>set cs. c \<in> set ds then p + length (takeWhile (\<lambda>c. c \<notin> set ds) cs) else NULL)"
proof (induction cs arbitrary: p)
  case Nil
  then show ?case by (subst strpbrk.simps) simp
next
  case (Cons c cs)
  then have c: "m p = c" "c \<noteq> 0" "str_at m (Suc p) cs" by auto
  obtain r where "strchr m d c = Some r" "r \<noteq> NULL \<longleftrightarrow> c \<in> set ds" using strchr_spec [OF assms, of c] c(2) by auto
  then show ?case using Cons.IH [OF c(3)] c(1,2) by (subst strpbrk.simps) auto
qed

lemma strrchr_loop_spec:
  "str_at m q cs \<Longrightarrow>
    strrchr_loop m q c a = Some (if c \<in> set cs then q + length (dropWhile (\<lambda>d. d \<noteq> c) (rev cs)) - 1 else a)"
proof (induction cs arbitrary: q a)
  case Nil
  then show ?case by (subst strrchr_loop.simps) simp
next
  case (Cons b cs)
  then have b: "m q = b" "b \<noteq> 0" "str_at m (Suc q) cs" by auto
  have "dropWhile (\<lambda>d. d \<noteq> c) (rev (b # cs)) =
      (if c \<in> set cs then dropWhile (\<lambda>d. d \<noteq> c) (rev cs) @ [b] else if b = c then [b] else [])"
    by (cases "c \<in> set cs") (auto simp: dropWhile_append dropWhile_eq_Nil_conv)
  then show ?case using Cons.IH [OF b(3), of "if b = c then q else a"] b(1,2)
    by (subst strrchr_loop.simps) auto
qed

lemma memcmp_loop_zero: "memcmp_loop m a b n = 0 \<longleftrightarrow> (\<forall>i<n. m (a + i) = m (b + i))"
proof (induction n arbitrary: a b)
  case (Suc n)
  show ?case
  proof (cases "m a = m b")
    case True
    then show ?thesis using Suc [of "Suc a" "Suc b"] by (auto simp: less_Suc_eq_0_disj)
  next
    case False
    then show ?thesis by (auto intro!: exI [of _ 0])
  qed
qed simp

lemma strstr_loop_spec:
  assumes "str_at m d ds" "str_at m p cs" "p \<noteq> NULL" "d \<noteq> NULL"
  shows "i + n \<le> Suc (length cs - length ds) \<Longrightarrow> length ds \<le> length cs \<Longrightarrow>
    (\<forall>k<n. take (length ds) (drop (i + k) cs) \<noteq> ds) \<and> strstr_loop m p d (length ds) i n = Some NULL \<or>
    (\<exists>k<n. take (length ds) (drop (i + k) cs) = ds \<and> (\<forall>j<k. take (length ds) (drop (i + j) cs) \<noteq> ds) \<and>
       strstr_loop m p d (length ds) i n = Some (p + (i + k)))"
proof (induction n arbitrary: i)
  case (Suc n)
  have z: "memcmp_loop m (p + i) d (length ds) = 0 \<longleftrightarrow> take (length ds) (drop i cs) = ds"
  proof -
    have "m (p + i + j) = cs ! (i + j)" "m (d + j) = ds ! j" if "j < length ds" for j
      using that assms(1,2) Suc.prems by (auto simp: str_at_def add.assoc)
    moreover have "length ds \<le> length cs - i" using Suc.prems by simp
    ultimately show ?thesis unfolding memcmp_loop_zero list_eq_iff_nth_eq by auto
  qed
  have c: "memcmp m (p + i) d (length ds) = Some (memcmp_loop m (p + i) d (length ds))"
    using assms(3,4) by (simp add: memcmp_def)
  show ?case
  proof (cases "take (length ds) (drop i cs) = ds")
    case True
    then show ?thesis using z c by (intro disjI2 exI [of _ 0]) simp
  next
    case False
    then have l: "strstr_loop m p d (length ds) i (Suc n) = strstr_loop m p d (length ds) (Suc i) n" using z c by simp
    from Suc.IH [of "Suc i"] Suc.prems have
      "(\<forall>k<n. take (length ds) (drop (Suc i + k) cs) \<noteq> ds) \<and> strstr_loop m p d (length ds) (Suc i) n = Some NULL \<or>
      (\<exists>k<n. take (length ds) (drop (Suc i + k) cs) = ds \<and> (\<forall>j<k. take (length ds) (drop (Suc i + j) cs) \<noteq> ds) \<and>
        strstr_loop m p d (length ds) (Suc i) n = Some (p + (Suc i + k)))" by simp
    then show ?thesis
    proof (elim disjE exE conjE)
      assume "\<forall>k<n. take (length ds) (drop (Suc i + k) cs) \<noteq> ds" "strstr_loop m p d (length ds) (Suc i) n = Some NULL"
      then show ?thesis using False l by (simp add: All_less_Suc2)
    next
      fix k
      assume "k < n" "take (length ds) (drop (Suc i + k) cs) = ds" "\<forall>j<k. take (length ds) (drop (Suc i + j) cs) \<noteq> ds"
        "strstr_loop m p d (length ds) (Suc i) n = Some (p + (Suc i + k))"
      then show ?thesis using False l by (intro disjI2 exI [of _ "Suc k"]) (simp add: All_less_Suc2)
    qed
  qed
qed simp

lemma strstr_spec:
  assumes "str_at m p cs" "str_at m d ds" "p \<noteq> NULL" "d \<noteq> NULL"
  shows "strstr m p d = Some (if sublist ds cs then p + (LEAST k. prefix ds (drop k cs)) else NULL)"
proof (cases "length ds \<le> length cs")
  case True
  have pf: "prefix ds (drop k cs) \<longleftrightarrow> take (length ds) (drop k cs) = ds" for k
    by (metis append_eq_conv_conj append_take_drop_id prefixE prefixI)
  have sl: "sublist ds cs \<longleftrightarrow> (\<exists>k<Suc (length cs - length ds). prefix ds (drop k cs))"
  proof
    assume "sublist ds cs"
    then obtain us vs where "cs = us @ ds @ vs" by (auto simp: sublist_def)
    then show "\<exists>k<Suc (length cs - length ds). prefix ds (drop k cs)" by (intro exI [of _ "length us"]) simp
  next
    assume "\<exists>k<Suc (length cs - length ds). prefix ds (drop k cs)"
    then obtain k vs where "drop k cs = ds @ vs" by (auto simp: prefix_def)
    then have "cs = take k cs @ ds @ vs" by (metis append_take_drop_id)
    then show "sublist ds cs" by (auto simp: sublist_def)
  qed
  have s: "strstr m p d = strstr_loop m p d (length ds) 0 (Suc (length cs - length ds))"
    using True assms by (simp add: strstr_def strlen_spec)
  from strstr_loop_spec [OF assms(2,1,3,4), of 0 "Suc (length cs - length ds)"] True
  consider "\<forall>k<Suc (length cs - length ds). \<not> prefix ds (drop k cs)"
      "strstr_loop m p d (length ds) 0 (Suc (length cs - length ds)) = Some NULL"
    | k where "k < Suc (length cs - length ds)" "prefix ds (drop k cs)" "\<forall>j<k. \<not> prefix ds (drop j cs)"
      "strstr_loop m p d (length ds) 0 (Suc (length cs - length ds)) = Some (p + k)"
    unfolding pf by auto
  then show ?thesis
  proof cases
    case 1
    then show ?thesis unfolding s sl by auto
  next
    case (2 k)
    then have "(LEAST k. prefix ds (drop k cs)) = k" by (intro Least_equality) (auto simp: not_less [symmetric])
    then show ?thesis using 2 unfolding s sl by auto
  qed
next
  case False
  then have "\<not> sublist ds cs" by (auto simp: sublist_def)
  then show ?thesis using False assms by (simp add: strstr_def strlen_spec)
qed

text \<open> C38: On terminated strings every search returns: the loops of \<open>strlen\<close>, \<open>strcmp\<close>, \<open>strchr\<close>, \<open>strrchr\<close>,
  \<open>strcspn\<close>, \<open>strspn\<close>, \<open>strpbrk\<close> and \<open>strstr\<close> end, with exact results: \<open>strcmp\<close> is 0 for equal strings, -1 where
  the first is less in the lexicographic order of unsigned bytes and 1 where it is greater; \<open>strchr\<close> is the first
  occurrence of the byte, the terminator when the byte is 0, and null when there is none; \<open>strrchr\<close> is the last
  occurrence or null (null also for the terminator, unlike the standard); \<open>strcspn\<close> and \<open>strspn\<close> are the
  lengths of the longest prefixes without and with only bytes of the set; \<open>strpbrk\<close> is the first byte
  of the set or null; \<open>strstr\<close> is the least position at which the second string occurs in the first, or null. \<close>

theorem string_searches_return:
  assumes "str_at m p cs" "str_at m d ds" "p \<noteq> NULL" "d \<noteq> NULL"
  shows "strlen m p = Some (length cs) \<and>
    strcmp m p d = Some (if cs = ds then 0 else if (cs, ds) \<in> lexord {(x, y). x < y} then - 1 else 1) \<and>
    strchr m p c =
      Some (if c \<in> set cs then p + length (takeWhile (\<lambda>x. x \<noteq> c) cs) else if c = 0 then p + length cs else NULL) \<and>
    strrchr m p c = Some (if c \<in> set cs then p + length (dropWhile (\<lambda>x. x \<noteq> c) (rev cs)) - 1 else NULL) \<and>
    strcspn m p d = Some (length (takeWhile (\<lambda>x. x \<notin> set ds) cs)) \<and>
    strspn m p d = Some (length (takeWhile (\<lambda>x. x \<in> set ds) cs)) \<and>
    strpbrk m p d = Some (if \<exists>x\<in>set cs. x \<in> set ds then p + length (takeWhile (\<lambda>x. x \<notin> set ds) cs) else NULL) \<and>
    strstr m p d = Some (if sublist ds cs then p + (LEAST k. prefix ds (drop k cs)) else NULL)"
  using strlen_spec [OF assms(1,3)] strcmp_spec [OF assms] strchr_exact [OF assms(1,3)]
    strrchr_loop_spec [OF assms(1), of c NULL] span_loop_spec [OF assms(2,4), of p 0 cs]
    strpbrk_spec [OF assms(2,4,1)] strstr_spec [OF assms] assms(1)
  by (simp add: strrchr_def strcspn_def strspn_def)

theorem string_searches_return_witness:
  "strlen sample_mem 10 = Some 4 \<and> strspn sample_mem 20 10 = Some 0 \<and> strrchr sample_mem 10 97 = Some 13 \<and>
   strchr sample_mem 10 97 = Some 10 \<and> strcmp sample_mem 10 20 = Some (- 1) \<and> strcmp sample_mem 20 10 = Some 1 \<and>
   strstr sample_mem 10 20 = Some NULL"
proof -
  have "str_at sample_mem 10 [97, 97, 97, 97]" "str_at sample_mem 20 [98]" by (simp_all add: sample_mem_def)
  from string_searches_return [OF this, of 97] string_searches_return [OF this(2,1), of 97] show ?thesis
    by (simp add: sublist_def Cons_eq_append_conv)
qed

end
