(* ===== verification/Stdlib.thy ===== *)
theory Stdlib
  imports Prelude
begin

text \<open>
  lib/stdlib.c: heap sort, binary search and the conversion of strings to integers. The contract
  of a comparison function is a locale in which sorting and searching are proved correct; it is
  interpreted for the comparison of integers that the kernel's own test uses
  (tests/internal/stdlib.c). Arrays are lists of elements; indices are 1-based where the code's are.
\<close>

section \<open>Sorting\<close>

definition do_swap :: "'a list \<Rightarrow> nat \<Rightarrow> nat \<Rightarrow> 'a list" where
  "do_swap a a_idx b_idx = a[a_idx - 1 := a ! (b_idx - 1), b_idx - 1 := a ! (a_idx - 1)]"

definition do_compare :: "('a \<Rightarrow> 'a \<Rightarrow> int) \<Rightarrow> 'a list \<Rightarrow> nat \<Rightarrow> nat \<Rightarrow> int" where
  "do_compare compare a a_idx b_idx = compare (a ! (a_idx - 1)) (a ! (b_idx - 1))"

definition max_child :: "('a \<Rightarrow> 'a \<Rightarrow> int) \<Rightarrow> 'a list \<Rightarrow> nat \<Rightarrow> nat \<Rightarrow> nat" where
  "max_child compare a i cnt =
     (let left = 2 * i;
          right = 2 * i + 1;
          m = (if left \<le> cnt \<and> do_compare compare a left i > 0 then left else i)
      in if right \<le> cnt \<and> do_compare compare a right m > 0 then right else m)"

function heapify :: "('a \<Rightarrow> 'a \<Rightarrow> int) \<Rightarrow> 'a list \<Rightarrow> nat \<Rightarrow> nat \<Rightarrow> 'a list" where
  "heapify compare a i cnt =
     (let m = max_child compare a i cnt
      in if m = i then a else heapify compare (do_swap a i m) m cnt)"
  by pat_completeness auto
termination
  by (relation "measure (\<lambda>(compare, a, i, cnt). cnt - i)") (auto simp: max_child_def Let_def split: if_splits)

declare heapify.simps [simp del]

text \<open>The two loops of \<open>sort\<close>.\<close>

fun build_heap :: "('a \<Rightarrow> 'a \<Rightarrow> int) \<Rightarrow> 'a list \<Rightarrow> nat \<Rightarrow> nat \<Rightarrow> 'a list" where
  "build_heap compare a 0 cnt = a"
| "build_heap compare a (Suc i) cnt = build_heap compare (heapify compare a (Suc i) cnt) i cnt"

fun sort_heap :: "('a \<Rightarrow> 'a \<Rightarrow> int) \<Rightarrow> 'a list \<Rightarrow> nat \<Rightarrow> 'a list" where
  "sort_heap compare a i =
     (if i > 1 then sort_heap compare (heapify compare (do_swap a 1 i) 1 (i - 1)) (i - 1) else a)"

declare sort_heap.simps [simp del]

definition sort_array :: "('a \<Rightarrow> 'a \<Rightarrow> int) \<Rightarrow> 'a list \<Rightarrow> 'a list" where
  "sort_array compare a = (let cnt = length a in sort_heap compare (build_heap compare a (cnt div 2) cnt) cnt)"

definition compare_thunk :: "'a \<Rightarrow> 'a \<Rightarrow> ('a \<Rightarrow> 'a \<Rightarrow> int) \<Rightarrow> int" where
  "compare_thunk a b aux = aux a b"

definition qsort :: "('a \<Rightarrow> 'a \<Rightarrow> int) \<Rightarrow> 'a list \<Rightarrow> 'a list" where
  "qsort compare a = sort_array (\<lambda>x y. compare_thunk x y compare) a"

section \<open>Searching\<close>

text \<open>\<open>l\<close> and \<open>r\<close> are the indices of the pointers \<open>first\<close> and \<open>last\<close>.\<close>

function binary_search_loop :: "('k \<Rightarrow> 'a \<Rightarrow> int) \<Rightarrow> 'k \<Rightarrow> 'a list \<Rightarrow> nat \<Rightarrow> nat \<Rightarrow> nat option" where
  "binary_search_loop compare key a l r =
     (if l < r then
        let middle = l + (r - l) div 2;
            c = compare key (a ! middle)
        in if c < 0 then binary_search_loop compare key a l middle
           else if c > 0 then binary_search_loop compare key a (middle + 1) r
           else Some middle
      else None)"
  by pat_completeness auto
termination by (relation "measure (\<lambda>(compare, key, a, l, r). r - l)") auto

declare binary_search_loop.simps [simp del]

definition binary_search :: "('k \<Rightarrow> 'a \<Rightarrow> int) \<Rightarrow> 'k \<Rightarrow> 'a list \<Rightarrow> nat option" where
  "binary_search compare key a = binary_search_loop compare key a 0 (length a)"

definition bsearch :: "('a \<Rightarrow> 'a \<Rightarrow> int) \<Rightarrow> 'a \<Rightarrow> 'a list \<Rightarrow> nat option" where
  "bsearch compare key a = binary_search (\<lambda>x y. compare_thunk x y compare) key a"

section \<open>Converting strings\<close>

definition isspace :: "u8 \<Rightarrow> bool" where
  "isspace c \<longleftrightarrow> c = 32 \<or> c = 12 \<or> c = 10 \<or> c = 13 \<or> c = 9 \<or> c = 11"

definition isdigit :: "u8 \<Rightarrow> bool" where
  "isdigit c \<longleftrightarrow> 48 \<le> c \<and> c \<le> 57"

text \<open>Strings end at the terminator; \<open>int\<close> arithmetic wraps.\<close>

fun parse_digits :: "u8 list \<Rightarrow> int \<Rightarrow> int" where
  "parse_digits [] v = v"
| "parse_digits (c # cs) v = (if isdigit c then parse_digits cs (int32 (v * 10 - (uint c - 48))) else v)"

definition atoi :: "u8 list \<Rightarrow> int" where
  "atoi s =
     (let s = dropWhile isspace s;
          (negative, s) = (case s of [] \<Rightarrow> (False, s)
            | c # cs \<Rightarrow> if c = 43 then (False, cs) else if c = 45 then (True, cs) else (False, s));
          v = parse_digits s 0
      in if \<not> negative then int32 (- v) else v)"

section \<open>Comparison functions\<close>

text \<open>What a comparison function promises: a \<open>strcmp\<close>-type result for a total preorder.\<close>

locale comparison =
  fixes compare :: "'a \<Rightarrow> 'a \<Rightarrow> int"
  assumes opposite: "0 < compare x y \<longleftrightarrow> compare y x < 0"
    and le_trans: "compare x y \<le> 0 \<Longrightarrow> compare y z \<le> 0 \<Longrightarrow> compare x z \<le> 0"
begin

abbreviation (input) le :: "'a \<Rightarrow> 'a \<Rightarrow> bool" where "le x y \<equiv> compare x y \<le> 0"

lemma not_le: "\<not> le x y \<Longrightarrow> le y x"
  using opposite [of x y] by simp

lemma le_refl: "le x x"
  using opposite [of x x] by auto

text \<open>Element at a 1-based index, the heap order from node \<open>k\<close> on, but for the node \<open>i\<close>.\<close>

definition at :: "'a list \<Rightarrow> nat \<Rightarrow> 'a" where "at a j = a ! (j - 1)"

definition heap_except :: "nat \<Rightarrow> nat \<Rightarrow> nat \<Rightarrow> 'a list \<Rightarrow> bool" where
  "heap_except k i cnt a \<longleftrightarrow>
     (\<forall>c. 2 \<le> c \<longrightarrow> c \<le> cnt \<longrightarrow> k \<le> c div 2 \<longrightarrow> c div 2 \<noteq> i \<longrightarrow> le (at a c) (at a (c div 2))) \<and>
     (\<forall>c. 2 \<le> c \<longrightarrow> c \<le> cnt \<longrightarrow> c div 2 = i \<longrightarrow> k \<le> i div 2 \<longrightarrow> le (at a c) (at a (i div 2)))"

definition heap_from :: "nat \<Rightarrow> nat \<Rightarrow> 'a list \<Rightarrow> bool" where
  "heap_from k cnt a \<longleftrightarrow> (\<forall>c. 2 \<le> c \<longrightarrow> c \<le> cnt \<longrightarrow> k \<le> c div 2 \<longrightarrow> le (at a c) (at a (c div 2)))"

lemma at_swap:
  assumes "1 \<le> i" "1 \<le> j" "1 \<le> k" "i \<le> length a" "j \<le> length a" "k \<le> length a"
  shows "at (do_swap a i j) k = (if k = j then at a i else if k = i then at a j else at a k)"
  using assms by (auto simp: at_def do_swap_def nth_list_update)

lemma swap_multiset:
  assumes "1 \<le> i" "1 \<le> j" "i \<le> cnt" "j \<le> cnt" "cnt \<le> length a"
  shows "length (do_swap a i j) = length a" "mset (take cnt (do_swap a i j)) = mset (take cnt a)"
    "drop cnt (do_swap a i j) = drop cnt a"
proof -
  show "length (do_swap a i j) = length a" by (simp add: do_swap_def)
  have t: "take cnt (do_swap a i j) = (take cnt a)[i - 1 := take cnt a ! (j - 1), j - 1 := take cnt a ! (i - 1)]"
    using assms by (simp add: do_swap_def take_update_swap)
  show "mset (take cnt (do_swap a i j)) = mset (take cnt a)"
    unfolding t using assms by (intro mset_swap) auto
  show "drop cnt (do_swap a i j) = drop cnt a" using assms by (simp add: do_swap_def)
qed

lemma max_child_cases:
  fixes a cnt
  assumes "1 \<le> i"
  defines "m \<equiv> max_child compare a i cnt"
  shows "le (at a i) (at a m) \<and> (\<forall>c. 2 \<le> c \<longrightarrow> c \<le> cnt \<longrightarrow> c div 2 = i \<longrightarrow> le (at a c) (at a m)) \<and>
    (m = i \<or> i < m \<and> m \<le> cnt \<and> m div 2 = i)"
proof -
  have ch: "c = 2 * i \<or> c = 2 * i + 1" if "c div 2 = i" for c using that by linarith
  have l: "do_compare compare a x y = compare (at a x) (at a y)" for x y by (simp add: do_compare_def at_def)
  define m1 where "m1 = (if 2 * i \<le> cnt \<and> 0 < compare (at a (2 * i)) (at a i) then 2 * i else i)"
  have m: "m = (if 2 * i + 1 \<le> cnt \<and> 0 < compare (at a (2 * i + 1)) (at a m1) then 2 * i + 1 else m1)"
    by (simp add: m_def max_child_def m1_def Let_def l)
  have 1: "le (at a i) (at a m1)" "2 * i \<le> cnt \<Longrightarrow> le (at a (2 * i)) (at a m1)" "m1 = i \<or> m1 = 2 * i \<and> 2 * i \<le> cnt"
    using le_refl not_le unfolding m1_def by force+
  have 2: "le (at a m1) (at a m)" "2 * i + 1 \<le> cnt \<Longrightarrow> le (at a (2 * i + 1)) (at a m)"
    "m = m1 \<or> m = 2 * i + 1 \<and> 2 * i + 1 \<le> cnt"
    using le_refl not_le unfolding m by force+
  have "le (at a c) (at a m)" if "c \<le> cnt" "c div 2 = i" for c
    using ch [OF that(2)] that(1) 1(2) 2(1,2) le_trans by blast
  moreover have "le (at a i) (at a m)" using 1(1) 2(1) le_trans by blast
  moreover have "m = i \<or> i < m \<and> m \<le> cnt \<and> m div 2 = i" using 1(3) 2(3) assms(1) by auto
  ultimately show ?thesis by blast
qed

lemma heapify_spec:
  assumes "heap_except k i cnt a" "1 \<le> i" "k \<le> i" "1 \<le> k" "cnt \<le> length a" "i \<le> cnt"
  shows "heap_from k cnt (heapify compare a i cnt) \<and> length (heapify compare a i cnt) = length a \<and>
    mset (take cnt (heapify compare a i cnt)) = mset (take cnt a) \<and> drop cnt (heapify compare a i cnt) = drop cnt a"
  using assms
proof (induction "cnt - i" arbitrary: a i rule: less_induct)
  case less
  define m where "m = max_child compare a i cnt"
  note mc = max_child_cases [OF less.prems(2), of a cnt, folded m_def]
  have hc: "le (at a c) (at a (c div 2))" if "2 \<le> c" "c \<le> cnt" "k \<le> c div 2" "c div 2 \<noteq> i" for c
    using less.prems(1) that by (simp add: heap_except_def)
  have hp: "le (at a c) (at a (i div 2))" if "2 \<le> c" "c \<le> cnt" "c div 2 = i" "k \<le> i div 2" for c
    using less.prems(1) that by (simp add: heap_except_def)
  show ?case
  proof (cases "m = i")
    case True
    have "heap_from k cnt a" unfolding heap_from_def using hc mc True by metis
    moreover have "heapify compare a i cnt = a" using True by (subst heapify.simps) (simp add: m_def)
    ultimately show ?thesis by simp
  next
    case False
    then have m: "i < m" "m \<le> cnt" "m div 2 = i" using mc by auto
    let ?a = "do_swap a i m"
    have r: "heapify compare a i cnt = heapify compare ?a m cnt" using False by (subst heapify.simps) (simp add: m_def Let_def)
    have len: "length ?a = length a" by (simp add: do_swap_def)
    have sw: "at ?a c = (if c = m then at a i else if c = i then at a m else at a c)" if "1 \<le> c" "c \<le> cnt" for c
      by (rule at_swap) (use that m less.prems in auto)
    have "heap_except k m cnt ?a"
      unfolding heap_except_def
    proof (intro conjI allI impI)
      fix c assume c: "2 \<le> c" "c \<le> cnt" "k \<le> c div 2" "c div 2 \<noteq> m"
      have p: "1 \<le> c div 2" "c div 2 \<le> cnt" "c \<noteq> c div 2" using c by auto
      show "le (at ?a c) (at ?a (c div 2))"
      proof (cases "c div 2 = i")
        case True
        then have v: "at ?a (c div 2) = at a m" "at ?a c = (if c = m then at a i else at a c)"
          using sw [of c] sw [of "c div 2"] c p m by auto
        show ?thesis using mc c True unfolding v by auto
      next
        case ni: False
        then have pv: "at ?a (c div 2) = at a (c div 2)" using sw [of "c div 2"] c p by auto
        have "c \<noteq> m" using m(3) ni by auto
        show ?thesis
        proof (cases "c = i")
          case True
          then have "at ?a c = at a m" using sw [of c] c \<open>c \<noteq> m\<close> by auto
          then show ?thesis using hp [of m] m c True less.prems(2) unfolding pv by auto
        next
          case False
          then have "at ?a c = at a c" using sw [of c] c \<open>c \<noteq> m\<close> by auto
          then show ?thesis using hc c ni unfolding pv by simp
        qed
      qed
    next
      fix c assume c: "2 \<le> c" "c \<le> cnt" "c div 2 = m" "k \<le> m div 2"
      have "c \<noteq> m" "c \<noteq> i" using c m by auto
      then have "at ?a c = at a c" "at ?a (m div 2) = at a m"
        using sw [of c] sw [of i] c m less.prems(2) by auto
      then show "le (at ?a c) (at ?a (m div 2))" using hc [of c] c m less.prems(3) by simp
    qed
    moreover have "cnt - m < cnt - i" "1 \<le> m" "k \<le> m" "cnt \<le> length ?a" using m less.prems len by auto
    ultimately have "heap_from k cnt (heapify compare ?a m cnt) \<and> length (heapify compare ?a m cnt) = length ?a \<and>
        mset (take cnt (heapify compare ?a m cnt)) = mset (take cnt ?a) \<and> drop cnt (heapify compare ?a m cnt) = drop cnt ?a"
      using less.hyps m(2) less.prems(4) by blast
    then show ?thesis
      unfolding r using swap_multiset [of i m cnt a] m less.prems by simp
  qed
qed

lemma build_heap_spec:
  "heap_from (Suc i) cnt a \<Longrightarrow> cnt \<le> length a \<Longrightarrow> i \<le> cnt \<Longrightarrow>
    heap_from 1 cnt (build_heap compare a i cnt) \<and> length (build_heap compare a i cnt) = length a \<and>
    mset (take cnt (build_heap compare a i cnt)) = mset (take cnt a) \<and> drop cnt (build_heap compare a i cnt) = drop cnt a"
proof (induction i arbitrary: a)
  case (Suc i)
  have "heap_except (Suc i) (Suc i) cnt a"
    using Suc.prems(1) unfolding heap_except_def heap_from_def by (auto simp: Suc_le_eq order.order_iff_strict)
  from heapify_spec [OF this _ _ _ Suc.prems(2,3)]
  have h: "heap_from (Suc i) cnt (heapify compare a (Suc i) cnt)" "length (heapify compare a (Suc i) cnt) = length a"
    "mset (take cnt (heapify compare a (Suc i) cnt)) = mset (take cnt a)" "drop cnt (heapify compare a (Suc i) cnt) = drop cnt a"
    by auto
  show ?case using Suc.IH [OF h(1)] h Suc.prems by simp
qed simp

text \<open>The root of a heap is its largest element.\<close>

lemma heap_root: "heap_from 1 cnt a \<Longrightarrow> 1 \<le> c \<Longrightarrow> c \<le> cnt \<Longrightarrow> le (at a c) (at a 1)"
proof (induction c rule: less_induct)
  case (less c)
  show ?case
  proof (cases "c = 1")
    case True
    then show ?thesis using le_refl by simp
  next
    case False
    then have c: "2 \<le> c" "1 \<le> c div 2" "c div 2 < c" using less.prems by auto
    then have "le (at a c) (at a (c div 2))" using less.prems by (simp add: heap_from_def)
    moreover have "le (at a (c div 2)) (at a 1)" using less.IH [OF c(3)] less.prems c by simp
    ultimately show ?thesis using le_trans by blast
  qed
qed

lemma sort_heap_spec:
  "heap_from 1 i a \<Longrightarrow> i \<le> length a \<Longrightarrow> sorted_wrt le (drop i a) \<Longrightarrow>
    (\<forall>x\<in>set (take i a). \<forall>y\<in>set (drop i a). le x y) \<Longrightarrow>
    mset (sort_heap compare a i) = mset a \<and> sorted_wrt le (sort_heap compare a i)"
proof (induction i arbitrary: a rule: less_induct)
  case (less i)
  show ?case
  proof (cases "i > 1")
    case False
    have "sorted_wrt le a"
    proof (cases "i = 0")
      case True
      then show ?thesis using less.prems(3) by simp
    next
      case one: False
      then have "i = 1" using False by simp
      then obtain x xs where "a = x # xs" using less.prems(2) by (cases a) auto
      then show ?thesis using less.prems(3,4) \<open>i = 1\<close> by auto
    qed
    then show ?thesis using False by (subst (1 2) sort_heap.simps) simp
  next
    case True
    let ?s = "do_swap a 1 i"
    have i: "1 \<le> i" "1 \<le> (1 :: nat)" "1 \<le> i - 1" "i - 1 \<le> length a" using True less.prems(2) by auto
    have sw: "at ?s c = (if c = i then at a 1 else if c = 1 then at a i else at a c)" if "1 \<le> c" "c \<le> length a" for c
      by (rule at_swap) (use that i less.prems(2) in auto)
    have ls: "length ?s = length a" by (simp add: do_swap_def)
    have "heap_except 1 1 (i - 1) ?s"
    proof -
      have "le (at ?s c) (at ?s (c div 2))" if c: "2 \<le> c" "c \<le> i - 1" "c div 2 \<noteq> 1" "1 \<le> c div 2" for c
      proof -
        have "at ?s c = at a c" "at ?s (c div 2) = at a (c div 2)"
          using sw [of c] sw [of "c div 2"] c less.prems(2) by auto
        moreover have "le (at a c) (at a (c div 2))" using less.prems(1) c True by (simp add: heap_from_def)
        ultimately show ?thesis by simp
      qed
      then show ?thesis by (auto simp: heap_except_def)
    qed
    from heapify_spec [OF this i(2) order_refl i(2) _ i(3)]
    obtain b where b: "heapify compare ?s 1 (i - 1) = b" "heap_from 1 (i - 1) b" "length b = length a"
      "mset (take (i - 1) b) = mset (take (i - 1) ?s)" "drop (i - 1) b = drop (i - 1) ?s"
      using ls i(4) by auto
    have last: "drop (i - 1) ?s = at a 1 # drop i a"
    proof -
      have "drop (i - 1) ?s = ?s ! (i - 1) # drop i ?s" using i less.prems(2) ls by (subst Cons_nth_drop_Suc [symmetric]) auto
      moreover have "?s ! (i - 1) = at a 1" using sw [of i] i less.prems(2) by (simp add: at_def)
      moreover have "drop i ?s = drop i a" using i by (simp add: do_swap_def)
      ultimately show ?thesis by simp
    qed
    have front: "mset (take (i - 1) ?s) + {#at a 1#} = mset (take i a)"
    proof -
      have "mset (take i ?s) = mset (take i a)" by (rule swap_multiset) (use i less.prems(2) in auto)
      moreover have "take i ?s = take (i - 1) ?s @ [at a 1]"
        using last i less.prems(2) ls take_Suc_conv_app_nth [of "i - 1" ?s] by (simp add: at_def) (metis Cons_nth_drop_Suc diff_less less_le_trans list.inject zero_less_one Suc_diff_1 Suc_le_lessD i(1) nth_via_drop)
      ultimately show ?thesis by simp
    qed
    have all: "mset b = mset a"
    proof -
      have "mset b = mset (take (i - 1) b) + mset (drop (i - 1) b)" by (metis append_take_drop_id mset_append)
      also have "\<dots> = (mset (take (i - 1) ?s) + {#at a 1#}) + mset (drop i a)" unfolding b(4,5) last by simp
      also have "\<dots> = mset a" unfolding front by (metis append_take_drop_id mset_append)
      finally show ?thesis .
    qed
    have sub: "set (take (i - 1) b) \<subseteq> set (take i a)"
    proof -
      have "set_mset (mset (take (i - 1) b)) \<subseteq> set_mset (mset (take i a))" unfolding b(4) front [symmetric] by auto
      then show ?thesis by simp
    qed
    have root: "\<forall>x\<in>set (take i a). le x (at a 1)"
    proof
      fix x assume "x \<in> set (take i a)"
      then obtain j where "j < i" "x = a ! j" using less.prems(2) by (auto simp: in_set_conv_nth)
      then show "le x (at a 1)" using heap_root [OF less.prems(1), of "Suc j"] by (simp add: at_def)
    qed
    have "take i a ! 0 = at a 1" "0 < length (take i a)" using i less.prems(2) by (auto simp: at_def)
    then have in1: "at a 1 \<in> set (take i a)" by (metis nth_mem)
    have "sorted_wrt le (drop (i - 1) b)" unfolding b(5) last using less.prems(3,4) in1 by auto
    moreover have "\<forall>x\<in>set (take (i - 1) b). \<forall>y\<in>set (drop (i - 1) b). le x y"
      unfolding b(5) last using sub root less.prems(4) by auto
    moreover have "i - 1 < i" "i - 1 \<le> length b" using i b(3) by auto
    ultimately have "mset (sort_heap compare b (i - 1)) = mset b \<and> sorted_wrt le (sort_heap compare b (i - 1))"
      using less.IH b(2) by blast
    then show ?thesis using True b(1) all by (subst (1 2) sort_heap.simps) simp
  qed
qed

lemma sort_array_sorts: "mset (sort_array compare a) = mset a \<and> sorted_wrt le (sort_array compare a)"
proof -
  let ?n = "length a"
  have "heap_from (Suc (?n div 2)) ?n a" unfolding heap_from_def by auto
  from build_heap_spec [OF this order_refl] obtain b where b: "build_heap compare a (?n div 2) ?n = b"
    "heap_from 1 ?n b" "length b = ?n" "mset b = mset a" by auto
  then show ?thesis using sort_heap_spec [of ?n b] by (simp add: sort_array_def)
qed

text \<open>Binary search in a sorted array.\<close>

lemma binary_search_loop_spec:
  assumes "sorted_wrt le a" "r \<le> length a" "\<forall>i<length a. compare key (a ! i) = 0 \<longrightarrow> l \<le> i \<and> i < r"
  shows "case binary_search_loop compare key a l r of
      Some i \<Rightarrow> i < length a \<and> compare key (a ! i) = 0
    | None \<Rightarrow> \<forall>i<length a. compare key (a ! i) \<noteq> 0"
  using assms(2,3)
proof (induction "r - l" arbitrary: l r rule: less_induct)
  case less
  show ?case
  proof (cases "l < r")
    case False
    then have "binary_search_loop compare key a l r = None" by (subst binary_search_loop.simps) simp
    then show ?thesis using less.prems(2) False by auto
  next
    case True
    define k where "k = l + (r - l) div 2"
    have k: "l \<le> k" "k < r" using True by (auto simp: k_def)
    have srt: "le (a ! i) (a ! j)" if "i \<le> j" "j < length a" for i j
      using assms(1) that le_refl by (cases "i = j") (auto simp: sorted_wrt_iff_nth_less)
    consider "compare key (a ! k) < 0" | "compare key (a ! k) > 0" | "compare key (a ! k) = 0" by linarith
    then show ?thesis
    proof cases
      case 1
      have "\<forall>i<length a. compare key (a ! i) = 0 \<longrightarrow> l \<le> i \<and> i < k"
      proof (intro allI impI)
        fix i assume i: "i < length a" "compare key (a ! i) = 0"
        have "i < k"
        proof (rule ccontr)
          assume "\<not> i < k"
          then have "le (a ! k) (a ! i)" using srt i by simp
          moreover have "le (a ! i) key" using i(2) opposite [of "a ! i" key] by auto
          ultimately have "le (a ! k) key" using le_trans by blast
          then show False using 1 opposite [of "a ! k" key] by simp
        qed
        then show "l \<le> i \<and> i < k" using less.prems(2) i by blast
      qed
      moreover have "binary_search_loop compare key a l r = binary_search_loop compare key a l k"
        using True 1 by (subst binary_search_loop.simps) (simp add: k_def Let_def)
      ultimately show ?thesis using less.hyps [of k l] k less.prems(1) by simp
    next
      case 2
      have "\<forall>i<length a. compare key (a ! i) = 0 \<longrightarrow> k + 1 \<le> i \<and> i < r"
      proof (intro allI impI)
        fix i assume i: "i < length a" "compare key (a ! i) = 0"
        have "k < i"
        proof (rule ccontr)
          assume "\<not> k < i"
          then have "le (a ! i) (a ! k)" using srt k less.prems(1) by simp
          moreover have "le key (a ! i)" using i(2) by simp
          ultimately have "le key (a ! k)" using le_trans by blast
          then show False using 2 by simp
        qed
        then show "k + 1 \<le> i \<and> i < r" using less.prems(2) i by auto
      qed
      moreover have "binary_search_loop compare key a l r = binary_search_loop compare key a (k + 1) r"
        using True 2 by (subst binary_search_loop.simps) (simp add: k_def Let_def)
      ultimately show ?thesis using less.hyps [of r "k + 1"] k less.prems(1) by simp
    next
      case 3
      then have "binary_search_loop compare key a l r = Some k"
        using True by (subst binary_search_loop.simps) (simp add: k_def Let_def)
      then show ?thesis using 3 k less.prems(1) by simp
    qed
  qed
qed

end


text \<open>The comparison of \<open>int\<close> elements.\<close>

definition compare_ints :: "int \<Rightarrow> int \<Rightarrow> int" where
  "compare_ints a b = (if a < b then - 1 else if a > b then 1 else 0)"

interpretation ints: comparison compare_ints
  by unfold_locales (auto simp: compare_ints_def split: if_splits)

section \<open>What sorting and searching promise\<close>

lemma thunk_id: "(\<lambda>x y. compare_thunk x y compare) = compare"
  by (simp add: compare_thunk_def)

text \<open>
  C36: For a comparison function that meets its contract, \<open>sort\<close> rearranges the array into order,
  and \<open>binary_search\<close> on the result terminates and finds an element that compares equal exactly when
  there is one.
\<close>

theorem sort_then_search:
  assumes "comparison compare"
  shows "mset (qsort compare a) = mset a \<and> sorted_wrt (\<lambda>x y. compare x y \<le> 0) (qsort compare a) \<and>
    (case bsearch compare key (qsort compare a) of
       None \<Rightarrow> \<forall>x\<in>set a. compare key x \<noteq> 0
     | Some i \<Rightarrow> i < length a \<and> compare key (qsort compare a ! i) = 0)"
proof -
  let ?b = "qsort compare a"
  have s: "mset ?b = mset a" "sorted_wrt (\<lambda>x y. compare x y \<le> 0) ?b"
    using comparison.sort_array_sorts [OF assms] by (simp_all add: qsort_def thunk_id)
  have l: "length ?b = length a" "set ?b = set a" using s(1) mset_eq_length mset_eq_setD by blast+
  have "case binary_search_loop compare key ?b 0 (length ?b) of
      Some i \<Rightarrow> i < length ?b \<and> compare key (?b ! i) = 0
    | None \<Rightarrow> \<forall>i<length ?b. compare key (?b ! i) \<noteq> 0"
    by (rule comparison.binary_search_loop_spec [OF assms s(2)]) auto
  moreover have "(\<forall>x\<in>set a. compare key x \<noteq> 0) \<longleftrightarrow> (\<forall>i<length ?b. compare key (?b ! i) \<noteq> 0)"
    unfolding l(2) [symmetric] by (metis in_set_conv_nth)
  ultimately show ?thesis
    using s l(1) by (auto simp: bsearch_def binary_search_def thunk_id split: option.splits)
qed

theorem sort_then_search_witness:
  "mset (qsort compare_ints [3, 1, 2, 1]) = {#1, 1, 2, 3#} \<and> (\<exists>i<4. bsearch compare_ints 2 (qsort compare_ints [3, 1, 2, 1]) = Some i)"
proof -
  have "comparison compare_ints" by (rule ints.comparison_axioms)
  note sort_then_search [OF this, of "[3, 1, 2, 1]" 2]
  moreover have "compare_ints 2 2 = 0" by (simp add: compare_ints_def)
  ultimately show ?thesis by (auto split: option.splits)
qed

end
