(* ===== verification/Arith64.thy ===== *)
theory Arith64
  imports Words
begin

text \<open>
  64-bit division from the 32-bit division of the processor: lib/arithmetic.c. \<open>divl\<close> is the
  instruction, which traps (\<open>None\<close>) when the quotient does not fit in 32 bits. The quotients are
  shown to be exact and never to trap; the remainders are cut to 32 bits by the types of the
  functions that compute them.
\<close>

section \<open>The functions\<close>

definition divl :: "u64 \<Rightarrow> u32 \<Rightarrow> u32 option" where
  "divl n d = (if d = 0 \<or> 2 ^ 32 \<le> n div ucast d then None else Some (ucast (n div ucast d)))"

definition nlz :: "u32 \<Rightarrow> nat" where
  "nlz x =
     (let (n, x) = (if x \<le> 0x0000FFFF then (16, push_bit 16 x) else (0, x));
          (n, x) = (if x \<le> 0x00FFFFFF then (n + 8, push_bit 8 x) else (n, x));
          (n, x) = (if x \<le> 0x0FFFFFFF then (n + 4, push_bit 4 x) else (n, x));
          (n, x) = (if x \<le> 0x3FFFFFFF then (n + 2, push_bit 2 x) else (n, x))
      in if x \<le> 0x7FFFFFFF then n + 1 else n)"

definition udiv64 :: "u64 \<Rightarrow> u64 \<Rightarrow> u64 option" where
  "udiv64 n d =
     (if drop_bit 32 d = 0 then do {
        let b = (2 ^ 32 :: u64);
        let n1 = (ucast (drop_bit 32 n) :: u32);
        let n0 = (ucast n :: u32);
        let d0 = (ucast d :: u32);
        q \<leftarrow> divl (b * ucast (n1 mod d0) + ucast n0) d0;
        Some (ucast q + b * ucast (n1 div d0)) }
      else if n < d then Some 0
      else do {
        let d1 = (ucast (drop_bit 32 d) :: u32);
        let s = nlz d1;
        r \<leftarrow> divl (drop_bit 1 n) (ucast (drop_bit 32 (push_bit s d)));
        let q = (ucast (drop_bit (31 - s) r) :: u64);
        Some (if n - (q - 1) * d < d then q - 1 else q) })"

definition umod64 :: "u64 \<Rightarrow> u64 \<Rightarrow> u32 option" where
  "umod64 n d = do { q \<leftarrow> udiv64 n d; Some (ucast (n - d * q)) }"

text \<open>The absolute value as an unsigned number.\<close>

definition abs64 :: "u64 \<Rightarrow> u64" where
  "abs64 n = (if 0 \<le> sint n then n else - n)"

definition sdiv64 :: "u64 \<Rightarrow> u64 \<Rightarrow> u64 option" where
  "sdiv64 n d = do {
     q_abs \<leftarrow> udiv64 (abs64 n) (abs64 d);
     Some (if (sint n < 0) = (sint d < 0) then q_abs else - q_abs) }"

definition smod64 :: "u64 \<Rightarrow> u64 \<Rightarrow> u32 option" where
  "smod64 n d = do { q \<leftarrow> sdiv64 n d; Some (ucast (n - d * q)) }"

definition divdi3 :: "u64 \<Rightarrow> u64 \<Rightarrow> u64 option" where "divdi3 n d = sdiv64 n d"
definition moddi3 :: "u64 \<Rightarrow> u64 \<Rightarrow> u64 option" where "moddi3 n d = map_option scast (smod64 n d)"
definition udivdi3 :: "u64 \<Rightarrow> u64 \<Rightarrow> u64 option" where "udivdi3 n d = udiv64 n d"
definition umoddi3 :: "u64 \<Rightarrow> u64 \<Rightarrow> u64 option" where "umoddi3 n d = map_option ucast (umod64 n d)"

section \<open>Leading zeros\<close>

declare unat_up [simp]

lemma unat_push32: "unat (x :: u32) * 2 ^ k < 2 ^ 32 \<Longrightarrow> unat (push_bit k x) = unat x * 2 ^ k"
  by (simp only: unsigned_push_bit_eq) (simp add: push_bit_eq_mult take_bit_nat_eq_self)

lemma nlz_round:
  fixes x :: u32
  assumes "2 ^ a \<le> unat x" "a + k \<le> 32" "unat x = unat x0 * 2 ^ n" "unat (T :: u32) = 2 ^ (32 - k) - 1"
  defines "p \<equiv> if x \<le> T then (n + k, push_bit k x) else (n, x)"
  shows "unat (snd p) = unat x0 * 2 ^ fst p \<and> min (2 ^ (a + k)) (2 ^ (32 - k)) \<le> unat (snd p)"
proof (cases "x \<le> T")
  case True
  have "0 < (2 :: nat) ^ (32 - k)" by simp
  moreover have "unat x \<le> 2 ^ (32 - k) - 1" using True assms(4) by (simp add: word_le_nat_alt)
  ultimately have "unat x < 2 ^ (32 - k)" by linarith
  then have "unat x * 2 ^ k < 2 ^ (32 - k) * 2 ^ k" by simp
  also have "\<dots> = (2 :: nat) ^ 32" using assms(2) by (simp flip: power_add)
  finally have y: "unat (push_bit k x) = unat x * 2 ^ k" by (rule unat_push32)
  have "2 ^ a * 2 ^ k \<le> unat x * 2 ^ k" using assms(1) by simp
  then have "(2 :: nat) ^ (a + k) \<le> unat (push_bit k x)" by (simp add: y power_add)
  then show ?thesis using True assms(3) y by (simp add: p_def power_add min_le_iff_disj)
next
  case False
  have "2 ^ (32 - k) - 1 < unat x" using False assms(4) by (simp add: word_le_nat_alt not_le)
  then have "2 ^ (32 - k) \<le> unat x" by linarith
  then show ?thesis using False assms(3) by (simp add: p_def min_le_iff_disj)
qed

lemma nlz_spec:
  assumes "x \<noteq> 0"
  shows "2 ^ 31 \<le> unat x * 2 ^ nlz x \<and> unat x * 2 ^ nlz x < 2 ^ 32 \<and> nlz x \<le> 31"
proof -
  define p1 where "p1 = (if x \<le> 0x0000FFFF then (0 + 16, push_bit 16 x) else (0 :: nat, x))"
  define p2 where "p2 = (if snd p1 \<le> 0x00FFFFFF then (fst p1 + 8, push_bit 8 (snd p1)) else (fst p1, snd p1))"
  define p3 where "p3 = (if snd p2 \<le> 0x0FFFFFFF then (fst p2 + 4, push_bit 4 (snd p2)) else (fst p2, snd p2))"
  define p4 where "p4 = (if snd p3 \<le> 0x3FFFFFFF then (fst p3 + 2, push_bit 2 (snd p3)) else (fst p3, snd p3))"
  have x: "2 ^ 0 \<le> unat x" using assms by (simp add: Suc_le_eq unat_gt_0)
  have 1: "unat (snd p1) = unat x * 2 ^ fst p1" "2 ^ 16 \<le> unat (snd p1)"
    using nlz_round [OF x, of 16 x 0 "0xFFFF"] unfolding p1_def [symmetric] by simp_all
  have 2: "unat (snd p2) = unat x * 2 ^ fst p2" "2 ^ 24 \<le> unat (snd p2)"
    using nlz_round [OF 1(2) _ 1(1), of 8 "0xFFFFFF"] unfolding p2_def [symmetric] by simp_all
  have 3: "unat (snd p3) = unat x * 2 ^ fst p3" "2 ^ 28 \<le> unat (snd p3)"
    using nlz_round [OF 2(2) _ 2(1), of 4 "0xFFFFFFF"] unfolding p3_def [symmetric] by simp_all
  have 4: "unat (snd p4) = unat x * 2 ^ fst p4" "2 ^ 30 \<le> unat (snd p4)"
    using nlz_round [OF 3(2) _ 3(1), of 2 "0x3FFFFFFF"] unfolding p4_def [symmetric] by simp_all
  have n: "nlz x = (if snd p4 \<le> 0x7FFFFFFF then fst p4 + 1 else fst p4)"
    unfolding nlz_def Let_def p4_def p3_def p2_def p1_def by (simp add: case_prod_beta)
  have b: "2 ^ 31 \<le> unat x * 2 ^ nlz x \<and> unat x * 2 ^ nlz x < 2 ^ 32"
    using 4 unat_u32 [of "snd p4"] by (auto simp: n word_le_nat_alt)
  have "nlz x \<le> 31"
  proof (rule ccontr)
    assume "\<not> nlz x \<le> 31"
    then have "(2 :: nat) ^ 32 \<le> 2 ^ nlz x" by (intro power_increasing) auto
    also have "\<dots> \<le> unat x * 2 ^ nlz x" using x by simp
    finally show False using b by simp
  qed
  then show ?thesis using b by blast
qed

section \<open>Quotients\<close>

lemma divl_unat:
  "d \<noteq> 0 \<Longrightarrow> unat n div unat d < 2 ^ 32 \<Longrightarrow> divl n d = Some (of_nat (unat n div unat d))"
proof -
  assume "d \<noteq> 0" and q: "unat n div unat d < 2 ^ 32"
  have u: "unat (n div ucast d) = unat n div unat d" by (simp add: unat_div_distrib)
  then have "\<not> 2 ^ 32 \<le> n div ucast d" using q by (simp add: word_le_nat_alt)
  moreover have "(ucast (n div ucast d) :: u32) = of_nat (unat n div unat d)" by (metis u of_nat_unat)
  ultimately show ?thesis using \<open>d \<noteq> 0\<close> by (simp add: divl_def)
qed

text \<open>The numbers behind the second case: dividing by the divisor rounded to 32 bits is at most one off.\<close>

lemma quotient_estimate:
  fixes N D D' s :: nat
  assumes "N < 2 ^ 64" "s \<le> 31" "2 ^ (63 - s) \<le> D'" "D' \<le> D" "D < D' + 2 ^ (32 - s)"
  shows "N div D \<le> N div D' \<and> N div D' \<le> N div D + 1"
proof
  have D0: "0 < D'" using assms(3) by (metis gr0I not_le zero_less_numeral zero_less_power)
  show "N div D \<le> N div D'" using D0 assms(4) by (rule div_le_mono2)
  define Q where "Q = N div D"
  have "D' * Q \<le> N" unfolding Q_def using assms(4) by (meson le_trans mult_le_mono1 times_div_less_eq_dividend)
  then have "2 ^ (63 - s) * Q < 2 ^ 64" using assms(1,3) by (meson le_less_trans mult_le_mono1)
  also have "(2 :: nat) ^ 64 = 2 ^ (63 - s) * 2 ^ (s + 1)" using assms(2) by (simp flip: power_add)
  finally have Q: "Q + 1 \<le> 2 ^ (s + 1)" by simp
  have e: "D - D' \<le> 2 ^ (32 - s) - 1" using assms(5) by simp
  have "(Q + 1) * (D - D') \<le> 2 ^ (s + 1) * (2 ^ (32 - s) - 1)" by (rule mult_le_mono [OF Q e])
  also have "\<dots> = 2 ^ 33 - 2 ^ (s + 1)"
  proof -
    have "(2 :: nat) ^ (s + 1) * 2 ^ (32 - s) = 2 ^ 33" using assms(2) by (subst power_add [symmetric]) simp
    then show ?thesis by (simp only: right_diff_distrib' mult_1_right)
  qed
  also have "\<dots> \<le> 2 ^ (63 - s)"
  proof (cases "s = 31")
    case False
    then have "(2 :: nat) ^ 33 \<le> 2 ^ (63 - s)" using assms(2) by (intro power_increasing) auto
    then show ?thesis by simp
  qed simp
  finally have "(Q + 1) * (D - D') \<le> D'" using assms(3) by simp
  moreover have "(Q + 1) * D = (Q + 1) * (D - D') + (Q + 1) * D'" using assms(4) by (simp flip: add_mult_distrib2)
  ultimately have "(Q + 1) * D \<le> (Q + 2) * D'" by simp
  moreover have "N < (Q + 1) * D" unfolding Q_def using dividend_less_div_times [of D N] D0 assms(4) by (simp add: mult.commute)
  ultimately have "N < (Q + 2) * D'" by simp
  then have "N div D' < Q + 2" by (simp add: less_mult_imp_div_less mult.commute)
  then show "N div D' \<le> N div D + 1" by (simp add: Q_def)
qed

lemma udiv64_small:
  assumes "d \<noteq> 0" "drop_bit 32 d = 0"
  shows "udiv64 n d = Some (n div d)"
proof -
  let ?N = "unat n" and ?D = "unat d"
  have D: "?D < 2 ^ 32" "0 < ?D"
  proof -
    have "?D div 2 ^ 32 = 0" using assms(2) unat_drop [of 32 d] by simp
    then show "?D < 2 ^ 32" by (metis div_greater_zero_iff gr_implies_not0 not_le zero_less_numeral zero_less_power)
    show "0 < ?D" using assms(1) by (simp add: unat_gt_0)
  qed
  define n1 where "n1 = (ucast (drop_bit 32 n) :: u32)"
  define n0 where "n0 = (ucast n :: u32)"
  define d0 where "d0 = (ucast d :: u32)"
  have ud: "unat d0 = ?D" using D(1) by (simp add: d0_def unat_down)
  have u0: "unat n0 = ?N mod 2 ^ 32" by (simp add: n0_def unat_down)
  have "?N div 2 ^ 32 < 2 ^ 32" using unat_u64 [of n] by (simp add: less_mult_imp_div_less)
  then have u1: "unat n1 = ?N div 2 ^ 32"
    by (simp add: n1_def unat_down unat_drop)
  have split: "?N = unat n1 * 2 ^ 32 + unat n0" by (simp add: u0 u1)
  let ?m = "2 ^ 32 * ucast (n1 mod d0) + ucast n0 :: u64"
  let ?M = "(unat n1 mod ?D) * 2 ^ 32 + unat n0"
  have r: "unat n1 mod ?D < ?D" using D(2) by simp
  have Mb: "?M < ?D * 2 ^ 32"
  proof -
    have "?M < (unat n1 mod ?D) * 2 ^ 32 + 2 ^ 32" using unat_u32 [of n0] by simp
    also have "\<dots> = (unat n1 mod ?D + 1) * 2 ^ 32" by simp
    also have "\<dots> \<le> ?D * 2 ^ 32" using r by (intro mult_le_mono1) simp
    finally show ?thesis .
  qed
  have um: "unat ?m = ?M"
  proof -
    have a: "unat (ucast (n1 mod d0) :: u64) = unat n1 mod ?D"
      by (simp add: unat_mod_distrib ud)
    have "?M < 2 ^ 64" using Mb D(1) by simp
    moreover have "unat n1 mod ?D mod 2 ^ 32 = unat n1 mod ?D" using r D(1) by simp
    ultimately show ?thesis using a by (simp add: unat_word_ariths mult.commute)
  qed
  have q: "?M div ?D < 2 ^ 32" using Mb by (simp add: less_mult_imp_div_less mult.commute)
  have "d0 \<noteq> 0" using ud D(2) by auto
  then have dl: "divl ?m d0 = Some (of_nat (?M div ?D))" using divl_unat [of d0 ?m] q um ud by simp
  have "udiv64 n d = Some (ucast (of_nat (?M div ?D) :: u32) + 2 ^ 32 * ucast (n1 div d0))"
    unfolding udiv64_def using assms(2) dl by (simp add: Let_def n1_def n0_def d0_def)
  also have "ucast (of_nat (?M div ?D) :: u32) + 2 ^ 32 * ucast (n1 div d0) = (of_nat (?M div ?D + 2 ^ 32 * (unat n1 div ?D)) :: u64)"
  proof -
    have "(ucast (of_nat (?M div ?D) :: u32) :: u64) = of_nat (?M div ?D)"
      using q by (subst of_nat_unat [symmetric]) (simp add: unat_of_nat)
    moreover have "(ucast (n1 div d0) :: u64) = of_nat (unat n1 div ?D)"
      by (subst of_nat_unat [symmetric]) (simp only: unat_div_distrib ud)
    ultimately show ?thesis by simp
  qed
  also have "?M div ?D + 2 ^ 32 * (unat n1 div ?D) = ?N div ?D"
  proof -
    have "?N = ?M + ?D * (2 ^ 32 * (unat n1 div ?D))"
    proof -
      have "unat n1 * 2 ^ 32 = (unat n1 mod ?D + ?D * (unat n1 div ?D)) * 2 ^ 32" by simp
      also have "\<dots> = (unat n1 mod ?D) * 2 ^ 32 + ?D * (2 ^ 32 * (unat n1 div ?D))" by (simp only: algebra_simps)
      finally have "unat n1 * 2 ^ 32 = (unat n1 mod ?D) * 2 ^ 32 + ?D * (2 ^ 32 * (unat n1 div ?D))" .
      then show ?thesis using split by simp
    qed
    then show ?thesis using D(2) by simp
  qed
  also have "of_nat (?N div ?D) = n div d" by (simp add: word_arith_nat_div)
  finally show ?thesis .
qed

lemma udiv64_large:
  assumes "drop_bit 32 d \<noteq> 0"
  shows "udiv64 n d = Some (n div d)"
proof (cases "n < d")
  case True
  then have "n div d = 0" by (simp add: word_arith_nat_div word_less_nat_alt)
  then show ?thesis using True assms by (simp add: udiv64_def)
next
  case False
  let ?N = "unat n" and ?D = "unat d"
  have ge: "?D \<le> ?N" using False by (simp add: word_less_nat_alt)
  define d1 where "d1 = (ucast (drop_bit 32 d) :: u32)"
  define s where "s = nlz d1"
  have "?D div 2 ^ 32 < 2 ^ 32" using unat_u64 [of d] by (simp add: less_mult_imp_div_less)
  then have u1: "unat d1 = ?D div 2 ^ 32"
    by (simp add: d1_def unat_down unat_drop)
  have "unat d1 \<noteq> 0" using assms u1 unat_drop [of 32 d] by (metis unat_0_iff)
  then have "d1 \<noteq> 0" by auto
  note nz = nlz_spec [OF this, folded s_def]
  have fit: "?D * 2 ^ s < 2 ^ 64"
  proof -
    have "?D < (unat d1 + 1) * 2 ^ 32" unfolding u1 using dividend_less_div_times [of "2 ^ 32" ?D] by simp
    then have "?D * 2 ^ s < (unat d1 + 1) * 2 ^ 32 * 2 ^ s" by simp
    also have "\<dots> = (unat d1 * 2 ^ s + 2 ^ s) * 2 ^ 32" by (simp add: algebra_simps)
    also have "\<dots> \<le> 2 ^ 32 * 2 ^ 32"
    proof (rule mult_le_mono1)
      have "unat d1 * 2 ^ s < 2 ^ (32 - s) * 2 ^ s" using nz by (simp flip: power_add)
      then have "unat d1 < 2 ^ (32 - s)" by simp
      then have "(unat d1 + 1) * 2 ^ s \<le> 2 ^ (32 - s) * 2 ^ s" by (intro mult_le_mono1) simp
      then show "unat d1 * 2 ^ s + 2 ^ s \<le> 2 ^ 32" using nz by (simp flip: power_add)
    qed
    finally show ?thesis by simp
  qed
  define v where "v = ?D * 2 ^ s div 2 ^ 32"
  have vb: "2 ^ 31 \<le> v" "v < 2 ^ 32"
  proof -
    have "2 ^ 31 \<le> unat d1 * 2 ^ s" using nz by simp
    also have "unat d1 * 2 ^ s * 2 ^ 32 \<le> ?D * 2 ^ s" unfolding u1 by (simp add: mult.commute mult.left_commute)
    then have "unat d1 * 2 ^ s \<le> v" unfolding v_def by (simp add: less_eq_div_iff_mult_less_eq)
    finally show "2 ^ 31 \<le> v" .
    show "v < 2 ^ 32" unfolding v_def using fit by (simp add: less_mult_imp_div_less)
  qed
  define w where "w = (ucast (drop_bit 32 (push_bit s d)) :: u32)"
  have uw: "unat w = v"
    using vb(2) by (simp add: w_def unat_down unat_drop unat_push64 [OF fit] v_def)
  have un: "unat (drop_bit 1 n) = ?N div 2" by (simp add: unat_drop)
  have q1: "?N div 2 div v < 2 ^ 32"
  proof -
    have "?N div 2 < 2 ^ 32 * 2 ^ 31" using unat_u64 [of n] by simp
    also have "\<dots> \<le> 2 ^ 32 * v" using vb(1) by simp
    finally show ?thesis by (simp add: less_mult_imp_div_less mult.commute)
  qed
  have "w \<noteq> 0" using uw vb(1) by auto
  then have dl: "divl (drop_bit 1 n) w = Some (of_nat (?N div 2 div v))"
    using divl_unat [of w "drop_bit 1 n"] q1 uw un by simp
  define D' where "D' = v * 2 ^ (32 - s)"
  define Q where "Q = ?N div D'"
  have Qeq: "?N div 2 div v div 2 ^ (31 - s) = Q"
  proof -
    have "2 * (v * 2 ^ (31 - s)) = v * 2 ^ Suc (31 - s)" by simp
    also have "Suc (31 - s) = 32 - s" using nz by linarith
    finally have "2 * (v * 2 ^ (31 - s)) = D'" by (simp add: D'_def)
    then show ?thesis by (simp only: Q_def flip: \<open>2 * (v * 2 ^ (31 - s)) = D'\<close>) (simp only: div_mult2_eq)
  qed
  have uq: "unat (ucast (drop_bit (31 - s) (of_nat (?N div 2 div v) :: u32)) :: u64) = Q"
  proof -
    have "unat (of_nat (?N div 2 div v) :: u32) = ?N div 2 div v" using q1 by (simp add: unat_of_nat del: of_nat_div)
    then show ?thesis by (simp only: unat_up unat_drop Qeq)
  qed
  have p2: "(2 :: nat) ^ 32 = 2 ^ (32 - s) * 2 ^ s" using nz by (subst power_add [symmetric]) simp
  have est: "?N div ?D \<le> Q \<and> Q \<le> ?N div ?D + 1"
    unfolding Q_def
  proof (rule quotient_estimate [OF unat_u64])
    show "s \<le> 31" using nz by simp
    have "(2 :: nat) ^ (63 - s) = 2 ^ 31 * 2 ^ (32 - s)" using nz by (subst power_add [symmetric]) simp
    then show "2 ^ (63 - s) \<le> D'" unfolding D'_def using vb(1) by simp
    have "D' * 2 ^ s = v * 2 ^ 32" unfolding D'_def p2 by simp
    also have "\<dots> \<le> ?D * 2 ^ s" unfolding v_def by simp
    finally show "D' \<le> ?D" by simp
    have "?D * 2 ^ s < v * 2 ^ 32 + 2 ^ 32" unfolding v_def using dividend_less_div_times [of "2 ^ 32" "?D * 2 ^ s"] by simp
    also have "\<dots> = (D' + 2 ^ (32 - s)) * 2 ^ s" unfolding D'_def p2 by (simp add: algebra_simps)
    finally show "?D < D' + 2 ^ (32 - s)" by simp
  qed
  define q where "q = (ucast (drop_bit (31 - s) (of_nat (?N div 2 div v) :: u32)) :: u64)"
  have q: "unat q = Q" unfolding q_def by (rule uq)
  have run: "udiv64 n d = Some (if n - (q - 1) * d < d then q - 1 else q)"
    unfolding udiv64_def using assms False dl by (simp add: Let_def q_def w_def s_def d1_def)
  let ?R = "?N div ?D"
  have D: "0 < ?D" using assms by (auto simp: unat_gt_0)
  have R: "1 \<le> ?R" using ge D by (simp add: Suc_le_eq div_greater_zero_iff)
  have "q \<noteq> 0" using q est R by auto
  then have q1: "unat (q - 1) = Q - 1" using q by (simp add: unat_minus_one)
  have part: "unat (n - x * d) = ?N - unat x * ?D" if "unat x * ?D \<le> ?N" for x
  proof -
    have "unat x * ?D < 2 ^ 64" using that unat_u64 [of n] by linarith
    then have "unat (x * d) = unat x * ?D" by (simp add: unat_word_ariths)
    then show ?thesis using that by (simp add: unat_sub word_le_nat_alt)
  qed
  have RD: "?R * ?D \<le> ?N" by simp
  show ?thesis
  proof (cases "Q = ?R")
    case True
    have le: "(?R - 1) * ?D \<le> ?N" using RD by (meson diff_le_self le_trans mult_le_mono1)
    then have "unat (n - (q - 1) * d) = ?N - (?R - 1) * ?D" using part [of "q - 1"] q1 True by simp
    moreover have "?N - (?R - 1) * ?D \<ge> ?D"
    proof -
      have "(?R - 1) * ?D + ?D = ?R * ?D" using R by (metis add.commute le_add_diff_inverse mult_Suc plus_1_eq_Suc)
      then show ?thesis using RD by linarith
    qed
    ultimately have "\<not> n - (q - 1) * d < d" by (simp add: word_less_nat_alt)
    moreover have "q = n div d" using q True by (simp add: word_unat_eq_iff unat_div_distrib)
    ultimately show ?thesis unfolding run by simp
  next
    case False
    then have Q: "Q = ?R + 1" using est by simp
    then have q1': "unat (q - 1) = ?R" using q1 by simp
    then have "unat (n - (q - 1) * d) = ?N - ?R * ?D" using part [of "q - 1"] RD by simp
    also have "\<dots> < ?D" using D by (simp add: minus_div_mult_eq_mod)
    finally have "n - (q - 1) * d < d" by (simp add: word_less_nat_alt)
    moreover have "q - 1 = n div d" using q1' by (simp add: word_unat_eq_iff unat_div_distrib)
    ultimately show ?thesis unfolding run by simp
  qed
qed

lemma udiv64_spec: "d \<noteq> 0 \<Longrightarrow> udiv64 n d = Some (n div d)"
  using udiv64_small udiv64_large by blast

section \<open>Signed quotients\<close>

lemma sint_range: "- (2 ^ 63) \<le> sint (x :: u64)" "sint (x :: u64) < 2 ^ 63"
  using sint_greater_eq [of x] sint_less [of x] by simp_all

lemma uint_of_int64: "0 \<le> k \<Longrightarrow> k < 2 ^ 64 \<Longrightarrow> uint (word_of_int k :: u64) = k"
  by (simp add: uint_word_of_int)

lemma abs64_eq: "abs64 n = word_of_int \<bar>sint n\<bar>"
proof (cases "0 \<le> sint n")
  case True
  then show ?thesis by (simp add: abs64_def)
next
  case False
  then have "word_of_int \<bar>sint n\<bar> = - (word_of_int (sint n) :: u64)" by (simp only: abs_if) simp
  then show ?thesis using False by (simp add: abs64_def)
qed

lemma uint_abs64: "uint (abs64 n) = \<bar>sint n\<bar>"
  unfolding abs64_eq using sint_range [of n] by (intro uint_of_int64) auto

lemma sdiv64_spec:
  assumes "d \<noteq> 0"
  shows "sdiv64 n d = Some (word_of_int (cdiv (sint n) (sint d)))"
proof -
  have "sint d \<noteq> 0" using assms by (subst signed_eq_0_iff) simp_all
  then have "abs64 d \<noteq> 0" using uint_abs64 [of d] by auto
  then have "udiv64 (abs64 n) (abs64 d) = Some (abs64 n div abs64 d)" by (rule udiv64_spec)
  moreover have "abs64 n div abs64 d = word_of_int (\<bar>sint n\<bar> div \<bar>sint d\<bar>)"
    by (simp add: word_div_def uint_abs64)
  ultimately show ?thesis by (simp add: sdiv64_def cdiv_def)
qed

text \<open>The low 32 bits, extended with the sign.\<close>

lemma scast_low: "(scast (ucast (word_of_int k :: u64) :: u32) :: u64) = word_of_int (int32 k)"
proof -
  have "(k mod 2 ^ 64 + 2 ^ 31) mod 2 ^ 32 = (k + 2 ^ 31) mod (2 ^ 32 :: int)"
    by (subst mod_add_left_eq [symmetric]) (simp add: mod_mod_cancel mod_add_left_eq)
  then have "sint (ucast (word_of_int k :: u64) :: u32) = int32 k"
    by (simp add: int32_def signed_ucast_eq signed_take_bit_eq_take_bit_shift take_bit_eq_mod uint_word_of_int mod_simps)
  then show ?thesis by (simp add: scast_eq)
qed

section \<open>What the division routines compute\<close>

text \<open>
  C33: For a divisor other than zero no instruction traps, and the quotients are exact: the unsigned
  one is the quotient of words, the signed one that of C, truncated towards zero, also for the
  smallest number. The remainders are cut to 32 bits by the types of the functions behind them: the
  unsigned remainder is right exactly when it is below \<open>2 ^ 32\<close>.
\<close>

theorem arith64_exact:
  assumes "d \<noteq> 0"
  shows "udivdi3 n d = Some (n div d) \<and>
    divdi3 n d = Some (word_of_int (cdiv (sint n) (sint d))) \<and>
    (umoddi3 n d = Some (n mod d) \<longleftrightarrow> unat (n mod d) < 2 ^ 32) \<and>
    moddi3 n d = Some (word_of_int (int32 (cmod (sint n) (sint d))))"
proof (intro conjI)
  show "udivdi3 n d = Some (n div d)" using udiv64_spec [OF assms] by (simp add: udivdi3_def)
  show "divdi3 n d = Some (word_of_int (cdiv (sint n) (sint d)))" using sdiv64_spec [OF assms] by (simp add: divdi3_def)
  have "n - d * (n div d) = n mod d" by (simp add: minus_mult_div_eq_mod)
  then have "umoddi3 n d = Some (ucast (ucast (n mod d) :: u32))"
    using udiv64_spec [OF assms] by (simp add: umoddi3_def umod64_def)
  moreover have "unat (ucast (ucast (n mod d) :: u32) :: u64) = unat (n mod d) mod 2 ^ 32" by (simp add: unat_down)
  ultimately show "umoddi3 n d = Some (n mod d) \<longleftrightarrow> unat (n mod d) < 2 ^ 32"
    by (metis mod_less mod_less_divisor option.inject word_unat_eq_iff zero_less_numeral zero_less_power)
  have "n - d * word_of_int (cdiv (sint n) (sint d)) = word_of_int (sint n - sint d * cdiv (sint n) (sint d))" by simp
  then have "smod64 n d = Some (ucast (word_of_int (cmod (sint n) (sint d)) :: u64))"
    using sdiv64_spec [OF assms] unfolding smod64_def cmod_def by simp
  then show "moddi3 n d = Some (word_of_int (int32 (cmod (sint n) (sint d))))"
    by (simp add: moddi3_def scast_low)
qed

theorem arith64_exact_witness:
  "udivdi3 0xFFFFFFFFFFFFFFFF 0x100000001 = Some 0xFFFFFFFF \<and> umoddi3 0x300000000 0x200000000 \<noteq> Some 0x100000000 \<and>
   divdi3 (- 7) 2 = Some (- 3)"
proof -
  have "udivdi3 0xFFFFFFFFFFFFFFFF 0x100000001 = Some (0xFFFFFFFFFFFFFFFF div 0x100000001)"
    using arith64_exact [of "0x100000001" "0xFFFFFFFFFFFFFFFF"] by simp
  moreover have "umoddi3 0x300000000 0x200000000 \<noteq> Some (0x300000000 mod 0x200000000)"
    using arith64_exact [of "0x200000000" "0x300000000"] by simp
  moreover have "divdi3 (- 7) 2 = Some (word_of_int (cdiv (sint (- 7 :: u64)) (sint (2 :: u64))))"
    using arith64_exact [of 2 "- 7"] by simp
  moreover have "cdiv (sint (- 7 :: u64)) (sint (2 :: u64)) = - 3" by (simp add: cdiv_def)
  ultimately show ?thesis by simp
qed

end
