(* ===== verification/Mmu.thy ===== *)
theory Mmu
  imports Palloc StringLib
begin

text \<open>
  Page tables: threads/mmu.c, include/threads/pte.h, include/threads/vaddr.h. The four levels of
  tables are pages of the page allocator, and their entries are words in its memory, so that
  taking a page for a new table and releasing it when a lower level finds no memory are the
  operations of the allocator. The tables below a root are shown to form a tree of pages in use,
  and the tree to represent a map from user pages to frames. The entries the processor has been
  told to forget are recorded in \<open>flushed\<close>.
\<close>

section \<open>Addresses and entries\<close>

definition PML4 :: "u64 \<Rightarrow> nat" where "PML4 la = unat (drop_bit 39 la AND 0x1FF)"
definition PDPE :: "u64 \<Rightarrow> nat" where "PDPE la = unat (drop_bit 30 la AND 0x1FF)"
definition PDX :: "u64 \<Rightarrow> nat" where "PDX la = unat (drop_bit 21 la AND 0x1FF)"
definition PTX :: "u64 \<Rightarrow> nat" where "PTX la = unat (drop_bit 12 la AND 0x1FF)"
definition PTE_ADDR :: "u64 \<Rightarrow> u64" where "PTE_ADDR pte = pte AND NOT 0xFFF"

abbreviation (input) PTE_P :: u64 where "PTE_P \<equiv> 0x1"
abbreviation (input) PTE_W :: u64 where "PTE_W \<equiv> 0x2"
abbreviation (input) PTE_U :: u64 where "PTE_U \<equiv> 0x4"
abbreviation (input) PTE_A :: u64 where "PTE_A \<equiv> 0x20"
abbreviation (input) PTE_D :: u64 where "PTE_D \<equiv> 0x40"

definition is_kernel_vaddr :: "u64 \<Rightarrow> bool" where "is_kernel_vaddr va \<longleftrightarrow> KERN_BASE \<le> va"
definition is_user_vaddr :: "u64 \<Rightarrow> bool" where "is_user_vaddr va \<longleftrightarrow> \<not> is_kernel_vaddr va"
definition ptov :: "u64 \<Rightarrow> addr" where "ptov paddr = unat (paddr + KERN_BASE)"

definition vtop :: "addr \<Rightarrow> u64 option" where
  "vtop va = do { ASSERT (unat KERN_BASE \<le> va); Some (of_nat va - KERN_BASE) }"

record mmu =
  ram :: palloc
  cr3 :: u64
  flushed :: "u64 list"
  base_pml4 :: addr

definition load_pte :: "addr \<Rightarrow> nat \<Rightarrow> palloc \<Rightarrow> u64" where
  "load_pte table idx s = load64 (memory s) (table + 8 * idx)"

definition store_word :: "addr \<Rightarrow> u64 \<Rightarrow> palloc \<Rightarrow> palloc" where
  "store_word a w s = s\<lparr>memory := store64 (memory s) a w\<rparr>"

definition store_pte :: "addr \<Rightarrow> nat \<Rightarrow> u64 \<Rightarrow> palloc \<Rightarrow> palloc" where
  "store_pte table idx w s = store_word (table + 8 * idx) w s"

section \<open>Walking the tables\<close>

text \<open>
  The step the three walks share: look at an entry and, when it is absent and \<open>create\<close> is set, make
  it point to a new table. The result says whether the entry is present and whether it is new.
\<close>

definition walk_entry :: "addr \<Rightarrow> nat \<Rightarrow> bool \<Rightarrow> palloc \<Rightarrow> (palloc \<times> bool \<times> bool) option" where
  "walk_entry table idx create s =
     (if load_pte table idx s AND PTE_P = 0 then
        if create then do {
          (s, new_page) \<leftarrow> palloc_get_page PAL_ZERO s;
          if new_page \<noteq> NULL
          then do {
            pa \<leftarrow> vtop new_page;
            Some (store_pte table idx (pa OR PTE_U OR PTE_W OR PTE_P) s, True, True) }
          else Some (s, False, False) }
        else Some (s, False, False)
      else Some (s, True, False))"

definition pgdir_walk :: "addr \<Rightarrow> u64 \<Rightarrow> bool \<Rightarrow> palloc \<Rightarrow> (palloc \<times> addr) option" where
  "pgdir_walk pdp va create s =
     (if pdp \<noteq> NULL then do {
        (s, present, allocated) \<leftarrow> walk_entry pdp (PDX va) create s;
        if present then Some (s, ptov (PTE_ADDR (load_pte pdp (PDX va) s) + of_nat (8 * PTX va)))
        else Some (s, NULL) }
      else Some (s, NULL))"

text \<open>The two upper levels, with the walk of the level below as an argument.\<close>

definition walk_table ::
    "(addr \<Rightarrow> palloc \<Rightarrow> (palloc \<times> addr) option) \<Rightarrow> addr \<Rightarrow> nat \<Rightarrow> bool \<Rightarrow> palloc \<Rightarrow> (palloc \<times> addr) option" where
  "walk_table walk_below table idx create s =
     (if table \<noteq> NULL then do {
        (s, present, allocated) \<leftarrow> walk_entry table idx create s;
        if \<not> present then Some (s, NULL)
        else do {
          (s, pte) \<leftarrow> walk_below (ptov (PTE_ADDR (load_pte table idx s))) s;
          if pte = NULL \<and> allocated then do {
            s \<leftarrow> palloc_free_page (ptov (PTE_ADDR (load_pte table idx s))) s;
            Some (store_pte table idx 0 s, pte) }
          else Some (s, pte) } }
      else Some (s, NULL))"

definition pdpe_walk :: "addr \<Rightarrow> u64 \<Rightarrow> bool \<Rightarrow> palloc \<Rightarrow> (palloc \<times> addr) option" where
  "pdpe_walk pdpe va create = walk_table (\<lambda>pdp. pgdir_walk pdp va create) pdpe (PDPE va) create"

definition pml4e_walk :: "addr \<Rightarrow> u64 \<Rightarrow> bool \<Rightarrow> palloc \<Rightarrow> (palloc \<times> addr) option" where
  "pml4e_walk pml4e va create = walk_table (\<lambda>pdpe. pdpe_walk pdpe va create) pml4e (PML4 va) create"

section \<open>Operations on an address space\<close>

definition pml4_create :: "mmu \<Rightarrow> (mmu \<times> addr) option" where
  "pml4_create m = do {
     (s, pml4) \<leftarrow> palloc_get_page 0 (ram m);
     if pml4 \<noteq> NULL then do {
       (mm, d) \<leftarrow> memcpy (memory s) pml4 (base_pml4 m) PGSIZE;
       Some (m\<lparr>ram := s\<lparr>memory := mm\<rparr>\<rparr>, pml4) }
     else Some (m\<lparr>ram := s\<rparr>, pml4) }"

definition pml4_activate :: "addr \<Rightarrow> mmu \<Rightarrow> mmu option" where
  "pml4_activate pml4 m = do {
     pa \<leftarrow> vtop (if pml4 \<noteq> NULL then pml4 else base_pml4 m);
     Some (m\<lparr>cr3 := pa\<rparr>) }"

definition pml4_get_page :: "addr \<Rightarrow> u64 \<Rightarrow> mmu \<Rightarrow> addr option" where
  "pml4_get_page pml4 uaddr m = do {
     ASSERT (is_user_vaddr uaddr);
     (s, pte) \<leftarrow> pml4e_walk pml4 uaddr False (ram m);
     let e = load64 (memory s) pte;
     Some (if pte \<noteq> NULL \<and> e AND PTE_P \<noteq> 0 then ptov (PTE_ADDR e) + pg_ofs (unat uaddr) else NULL) }"

definition pml4_set_page :: "addr \<Rightarrow> u64 \<Rightarrow> addr \<Rightarrow> bool \<Rightarrow> mmu \<Rightarrow> (mmu \<times> bool) option" where
  "pml4_set_page pml4 upage kpage rw m = do {
     ASSERT (pg_ofs (unat upage) = 0);
     ASSERT (pg_ofs kpage = 0);
     ASSERT (is_user_vaddr upage);
     ASSERT (pml4 \<noteq> base_pml4 m);
     (s, pte) \<leftarrow> pml4e_walk pml4 upage True (ram m);
     if pte \<noteq> NULL
     then do {
       pa \<leftarrow> vtop kpage;
       Some (m\<lparr>ram := store_word pte (pa OR PTE_P OR (if rw then PTE_W else 0) OR PTE_U) s\<rparr>, True) }
     else Some (m\<lparr>ram := s\<rparr>, False) }"

text \<open>Telling the processor, when the page tables at \<open>pml4\<close> are the active ones.\<close>

definition invlpg_if_active :: "addr \<Rightarrow> u64 \<Rightarrow> mmu \<Rightarrow> mmu option" where
  "invlpg_if_active pml4 va m = do {
     pa \<leftarrow> vtop pml4;
     Some (if cr3 m = pa then m\<lparr>flushed := va # flushed m\<rparr> else m) }"

definition pml4_clear_page :: "addr \<Rightarrow> u64 \<Rightarrow> mmu \<Rightarrow> mmu option" where
  "pml4_clear_page pml4 upage m = do {
     ASSERT (pg_ofs (unat upage) = 0);
     ASSERT (is_user_vaddr upage);
     (s, pte) \<leftarrow> pml4e_walk pml4 upage False (ram m);
     let m = m\<lparr>ram := s\<rparr>;
     let e = load64 (memory s) pte;
     if pte \<noteq> NULL \<and> e AND PTE_P \<noteq> 0
     then invlpg_if_active pml4 upage (m\<lparr>ram := store_word pte (e AND NOT PTE_P) s\<rparr>)
     else Some m }"

definition pml4_test :: "u64 \<Rightarrow> addr \<Rightarrow> u64 \<Rightarrow> mmu \<Rightarrow> bool option" where
  "pml4_test flag pml4 vpage m = do {
     (s, pte) \<leftarrow> pml4e_walk pml4 vpage False (ram m);
     Some (pte \<noteq> NULL \<and> load64 (memory s) pte AND flag \<noteq> 0) }"

definition pml4_is_dirty :: "addr \<Rightarrow> u64 \<Rightarrow> mmu \<Rightarrow> bool option" where "pml4_is_dirty = pml4_test PTE_D"
definition pml4_is_accessed :: "addr \<Rightarrow> u64 \<Rightarrow> mmu \<Rightarrow> bool option" where "pml4_is_accessed = pml4_test PTE_A"

text \<open>The bit is cleared with the complement of a 32-bit constant, extended with zeros.\<close>

definition pml4_put :: "u32 \<Rightarrow> addr \<Rightarrow> u64 \<Rightarrow> bool \<Rightarrow> mmu \<Rightarrow> mmu option" where
  "pml4_put flag pml4 vpage on m = do {
     (s, pte) \<leftarrow> pml4e_walk pml4 vpage False (ram m);
     let m = m\<lparr>ram := s\<rparr>;
     let e = load64 (memory s) pte;
     if pte \<noteq> NULL
     then invlpg_if_active pml4 vpage
            (m\<lparr>ram := store_word pte (if on then e OR ucast flag else e AND ucast (NOT flag)) s\<rparr>)
     else Some m }"

definition pml4_set_dirty :: "addr \<Rightarrow> u64 \<Rightarrow> bool \<Rightarrow> mmu \<Rightarrow> mmu option" where "pml4_set_dirty = pml4_put 0x40"
definition pml4_set_accessed :: "addr \<Rightarrow> u64 \<Rightarrow> bool \<Rightarrow> mmu \<Rightarrow> mmu option" where "pml4_set_accessed = pml4_put 0x20"

section \<open>Going through all entries\<close>

fun each_entry :: "(nat \<Rightarrow> 's \<Rightarrow> ('s \<times> bool) option) \<Rightarrow> nat list \<Rightarrow> 's \<Rightarrow> ('s \<times> bool) option" where
  "each_entry f [] s = Some (s, True)"
| "each_entry f (i # is) s = do { (s, go) \<leftarrow> f i s; if go then each_entry f is s else Some (s, False) }"

type_synonym 'a for_each_func = "addr \<Rightarrow> u64 \<Rightarrow> palloc \<times> 'a \<Rightarrow> ((palloc \<times> 'a) \<times> bool) option"

definition pt_for_each ::
    "addr \<Rightarrow> 'a for_each_func \<Rightarrow> nat \<Rightarrow> nat \<Rightarrow> nat \<Rightarrow> palloc \<times> 'a \<Rightarrow> ((palloc \<times> 'a) \<times> bool) option" where
  "pt_for_each pt func pml4_index pdp_index pdx_index =
     each_entry (\<lambda>i s.
       if load_pte pt i (fst s) AND PTE_P \<noteq> 0
       then func (pt + 8 * i)
              (push_bit 39 (of_nat pml4_index) OR push_bit 30 (of_nat pdp_index) OR
               push_bit 21 (of_nat pdx_index) OR push_bit 12 (of_nat i)) s
       else Some (s, True)) [0..<512]"

definition for_each_below ::
    "(addr \<Rightarrow> nat \<Rightarrow> palloc \<times> 'a \<Rightarrow> ((palloc \<times> 'a) \<times> bool) option) \<Rightarrow> addr \<Rightarrow>
     palloc \<times> 'a \<Rightarrow> ((palloc \<times> 'a) \<times> bool) option" where
  "for_each_below below table =
     each_entry (\<lambda>i s.
       let pte = load_pte table i (fst s) + KERN_BASE
       in if pte AND PTE_P \<noteq> 0 then below (unat (PTE_ADDR pte)) i s else Some (s, True)) [0..<512]"

definition pgdir_for_each ::
    "addr \<Rightarrow> 'a for_each_func \<Rightarrow> nat \<Rightarrow> nat \<Rightarrow> palloc \<times> 'a \<Rightarrow> ((palloc \<times> 'a) \<times> bool) option" where
  "pgdir_for_each pdp func pml4_index pdp_index =
     for_each_below (\<lambda>pt i. pt_for_each pt func pml4_index pdp_index i) pdp"

definition pdp_for_each :: "addr \<Rightarrow> 'a for_each_func \<Rightarrow> nat \<Rightarrow> palloc \<times> 'a \<Rightarrow> ((palloc \<times> 'a) \<times> bool) option" where
  "pdp_for_each pdp func pml4_index = for_each_below (\<lambda>pd i. pgdir_for_each pd func pml4_index i) pdp"

definition pml4_for_each :: "addr \<Rightarrow> 'a for_each_func \<Rightarrow> palloc \<times> 'a \<Rightarrow> ((palloc \<times> 'a) \<times> bool) option" where
  "pml4_for_each pml4 func = for_each_below (\<lambda>pdp i. pdp_for_each pdp func i) pml4"

section \<open>Destroying the tables\<close>

fun destroy_entries :: "(addr \<Rightarrow> palloc \<Rightarrow> palloc option) \<Rightarrow> addr \<Rightarrow> nat list \<Rightarrow> palloc \<Rightarrow> palloc option" where
  "destroy_entries free table [] s = Some s"
| "destroy_entries free table (i # is) s =
     (let pte = load_pte table i s + KERN_BASE
      in if pte AND PTE_P \<noteq> 0
         then do { s \<leftarrow> free (unat (PTE_ADDR pte)) s; destroy_entries free table is s }
         else destroy_entries free table is s)"

definition pt_destroy :: "addr \<Rightarrow> palloc \<Rightarrow> palloc option" where
  "pt_destroy pt s = do { s \<leftarrow> destroy_entries palloc_free_page pt [0..<512] s; palloc_free_page pt s }"

definition pgdir_destroy :: "addr \<Rightarrow> palloc \<Rightarrow> palloc option" where
  "pgdir_destroy pdp s = do { s \<leftarrow> destroy_entries pt_destroy pdp [0..<512] s; palloc_free_page pdp s }"

definition pdpe_destroy :: "addr \<Rightarrow> palloc \<Rightarrow> palloc option" where
  "pdpe_destroy pdpe s = do { s \<leftarrow> destroy_entries pgdir_destroy pdpe [0..<512] s; palloc_free_page pdpe s }"

definition pml4_destroy :: "addr \<Rightarrow> mmu \<Rightarrow> mmu option" where
  "pml4_destroy pml4 m =
     (if pml4 = NULL then Some m
      else do {
        ASSERT (pml4 \<noteq> base_pml4 m);
        s \<leftarrow> destroy_entries pdpe_destroy pml4 [0] (ram m);
        s \<leftarrow> palloc_free_page pml4 s;
        Some (m\<lparr>ram := s\<rparr>) })"

section \<open>Numbers\<close>

lemma unat_KERN_BASE: "unat KERN_BASE = 0x8004000000"
  by (simp add: KERN_BASE_def)

lemma masks: "(0x1FF :: u64) = mask 9" "(0xFFF :: u64) = mask 12"
  by (simp_all add: mask_eq_exp_minus_1)

lemma index_less: "PML4 va < 512" "PDPE va < 512" "PDX va < 512" "PTX va < 512"
proof -
  have "unat (x AND 0x1FF) < 512" for x :: u64
  proof -
    have "x AND 0x1FF = take_bit 9 x" by (simp only: take_bit_eq_mask masks)
    then have "unat (x AND 0x1FF) = unat x mod 512" by (simp only: unat_take) simp
    then show ?thesis by simp
  qed
  then show "PML4 va < 512" "PDPE va < 512" "PDX va < 512" "PTX va < 512"
    by (simp_all add: PML4_def PDPE_def PDX_def PTX_def)
qed

text \<open>The indices of a page, by its number.\<close>

definition path :: "nat \<Rightarrow> nat list" where
  "path n = [n div 512 ^ 3 mod 512, n div 512 ^ 2 mod 512, n div 512 mod 512, n mod 512]"

lemma path_of_va: "[PML4 va, PDPE va, PDX va, PTX va] = path (pg_no (unat va))"
proof -
  have e: "unat (drop_bit (12 + k) va AND 0x1FF) = unat va div 4096 div 2 ^ k mod 512" for k
  proof -
    have "drop_bit (12 + k) va AND 0x1FF = take_bit 9 (drop_bit (12 + k) va)" by (simp only: take_bit_eq_mask masks)
    then show ?thesis by (simp only: unat_take unat_drop) (simp add: power_add div_mult2_eq)
  qed
  show ?thesis using e [of 27] e [of 18] e [of 9] e [of 0]
    by (simp add: path_def PML4_def PDPE_def PDX_def PTX_def pg_no_def)
qed

lemma path_inj: "n < 512 ^ 4 \<Longrightarrow> n' < 512 ^ 4 \<Longrightarrow> path n = path n' \<Longrightarrow> n = n'"
proof -
  have e: "n = ((n div 512 ^ 3 mod 512 * 512 + n div 512 ^ 2 mod 512) * 512 + n div 512 mod 512) * 512 + n mod 512"
    if "n < 512 ^ 4" for n :: nat
  proof -
    define a b c where "a = n div 512" and "b = a div 512" and "c = b div 512"
    have d: "n div 512 ^ 3 = c" "n div 512 ^ 2 = b" by (simp_all add: a_def b_def c_def div_mult2_eq [symmetric])
    have "c < 512" using that unfolding d(1) [symmetric] by (simp add: less_mult_imp_div_less)
    then have "c mod 512 = c" by simp
    moreover have "b = c * 512 + b mod 512" "a = b * 512 + a mod 512" "n = a * 512 + n mod 512"
      by (simp_all add: a_def b_def c_def)
    ultimately show ?thesis unfolding d by (simp add: a_def)
  qed
  assume "n < 512 ^ 4" "n' < 512 ^ 4" "path n = path n'"
  then show ?thesis using e [of n] e [of n'] by (simp add: path_def)
qed

lemma pg_split: "a = PGSIZE * pg_no a + pg_ofs a" "pg_ofs a < PGSIZE"
  by (simp_all add: pg_no_def pg_ofs_def)

lemma user_page_less: "is_user_vaddr va \<Longrightarrow> pg_no (unat va) < 512 ^ 4"
  by (simp add: is_user_vaddr_def is_kernel_vaddr_def word_le_nat_alt unat_KERN_BASE pg_no_def)

lemma pte_page: "pg_ofs t = 0 \<Longrightarrow> i < 512 \<Longrightarrow> k < 8 \<Longrightarrow> pg_no (t + 8 * i + k) = pg_no t"
proof -
  assume "pg_ofs t = 0" "i < 512" "k < 8"
  moreover have "t = PGSIZE * pg_no t + pg_ofs t" by (rule pg_split)
  ultimately obtain q where t: "t = PGSIZE * q" and "8 * i + k < PGSIZE" by auto
  then have "(PGSIZE * q + (8 * i + k)) div PGSIZE = q" by simp
  then show ?thesis by (simp add: pg_no_def t add.assoc)
qed

text \<open>Entries made of a page address and flags.\<close>

lemma page_word: "pg_ofs a = 0 \<Longrightarrow> unat KERN_BASE \<le> a \<Longrightarrow> a < 2 ^ 64 \<Longrightarrow>
  vtop a = Some (of_nat a - KERN_BASE) \<and> ptov (of_nat a - KERN_BASE) = a \<and> (of_nat a - KERN_BASE) AND 0xFFF = 0"
proof -
  assume a: "pg_ofs a = 0" "unat KERN_BASE \<le> a" "a < 2 ^ 64"
  let ?w = "of_nat a - KERN_BASE"
  have u: "unat (of_nat a :: u64) = a" using a(3) by (rule unat_of_nat64)
  have "unat ?w = a - unat KERN_BASE" using a(2) by (simp add: unat_sub word_le_nat_alt u)
  moreover obtain q where "a = 4096 * q" using a(1) by (auto simp: pg_ofs_def mod_eq_0_iff_dvd)
  ultimately have "unat ?w = 4096 * (q - 0x8004000)" by (simp add: unat_KERN_BASE diff_mult_distrib2)
  then have "unat ?w mod 2 ^ 12 = 0" by simp
  then have "unat (take_bit 12 ?w) = 0" by (simp only: unat_take)
  then have "take_bit 12 ?w = 0" by (simp only: unat_eq_zero)
  then have "?w AND 0xFFF = 0" by (simp only: take_bit_eq_mask masks)
  moreover have "ptov ?w = a" by (simp add: ptov_def u)
  ultimately show ?thesis using a(2) by (simp add: vtop_def)
qed

lemma PTE_ADDR_flags:
  assumes "pa AND 0xFFF = 0" "f AND NOT 0xFFF = 0"
  shows "PTE_ADDR (pa OR f) = pa" and "(pa OR f) AND PTE_P = f AND PTE_P"
proof -
  have "pa = (pa AND 0xFFF) OR (pa AND NOT 0xFFF)" by (simp only: bit.conj_disj_distrib [symmetric] bit.disj_cancel_right bit.conj_one_right)
  then have "pa AND NOT 0xFFF = pa" using assms(1) by simp
  then show "PTE_ADDR (pa OR f) = pa" unfolding PTE_ADDR_def bit.conj_disj_distrib2 assms(2) by (simp only: bit.disj_zero_right)
  have "pa AND PTE_P = (pa AND 0xFFF) AND PTE_P" by (simp add: and.assoc)
  then show "(pa OR f) AND PTE_P = f AND PTE_P" using assms(1) by (simp add: bit.conj_disj_distrib2)
qed

section \<open>The tree of tables\<close>

definition child :: "palloc \<Rightarrow> addr \<Rightarrow> nat \<Rightarrow> addr option" where
  "child s t i = (if load_pte t i s AND PTE_P = 0 then None else Some (ptov (PTE_ADDR (load_pte t i s))))"

text \<open>A table is a page in use in the part of memory the kernel maps.\<close>

definition table_at :: "palloc \<Rightarrow> addr \<Rightarrow> bool" where
  "table_at s t \<longleftrightarrow> pg_ofs t = 0 \<and> unat KERN_BASE \<le> t \<and> t < 2 ^ 64 \<and> pg_no t \<in> in_use s"

text \<open>The page numbers of the tables of a tree with \<open>d\<close> levels below its root, and of those on a path.\<close>

fun tabs :: "palloc \<Rightarrow> nat \<Rightarrow> addr \<Rightarrow> nat set" where
  "tabs s 0 t = {pg_no t}"
| "tabs s (Suc d) t = insert (pg_no t) (\<Union>i<512. case child s t i of None \<Rightarrow> {} | Some c \<Rightarrow> tabs s d c)"

fun on_path :: "palloc \<Rightarrow> addr \<Rightarrow> nat list \<Rightarrow> nat set" where
  "on_path s t [] = {}"
| "on_path s t [l] = {pg_no t}"
| "on_path s t (i # p) = insert (pg_no t) (case child s t i of None \<Rightarrow> {} | Some c \<Rightarrow> on_path s c p)"

fun tree_ok :: "palloc \<Rightarrow> nat \<Rightarrow> addr \<Rightarrow> bool" where
  "tree_ok s 0 t = table_at s t"
| "tree_ok s (Suc d) t = (table_at s t \<and>
     (\<forall>i<512. \<forall>c. child s t i = Some c \<longrightarrow> tree_ok s d c \<and> pg_no t \<notin> tabs s d c \<and>
        (\<forall>j<512. \<forall>c'. j \<noteq> i \<longrightarrow> child s t j = Some c' \<longrightarrow> tabs s d c \<inter> tabs s d c' = {})))"

text \<open>The address of the entry that a list of indices leads to, and what it holds.\<close>

fun slot :: "palloc \<Rightarrow> addr \<Rightarrow> nat list \<Rightarrow> addr" where
  "slot s t [] = NULL"
| "slot s t [l] = t + 8 * l"
| "slot s t (i # p) = (case child s t i of None \<Rightarrow> NULL | Some c \<Rightarrow> slot s c p)"

definition entry :: "palloc \<Rightarrow> addr \<Rightarrow> nat list \<Rightarrow> u64" where
  "entry s t p = (if slot s t p = NULL then 0 else load64 (memory s) (slot s t p))"

lemma entry_below:
  "entry s t (i # j # p) = (case child s t i of None \<Rightarrow> 0 | Some c \<Rightarrow> entry s c (j # p))"
  by (simp add: entry_def split: option.split)

definition same_on :: "nat set \<Rightarrow> palloc \<Rightarrow> palloc \<Rightarrow> bool" where
  "same_on P s s' \<longleftrightarrow> (\<forall>a. pg_no a \<in> P \<longrightarrow> memory s' a = memory s a)"

lemma tree_table: "tree_ok s d t \<Longrightarrow> table_at s t"
  by (cases d) auto

lemma root_in_tabs: "pg_no t \<in> tabs s d t"
  by (cases d) auto

lemma table_nonnull: "table_at s t \<Longrightarrow> t \<noteq> NULL"
  by (auto simp: table_at_def unat_KERN_BASE)

lemma tabs_in_use: "tree_ok s d t \<Longrightarrow> tabs s d t \<subseteq> in_use s"
proof (induction d arbitrary: t)
  case (Suc d)
  have "tabs s d c \<subseteq> in_use s" if "i < 512" "child s t i = Some c" for i c
    using Suc that by auto
  then have "(case child s t i of None \<Rightarrow> {} | Some c \<Rightarrow> tabs s d c) \<subseteq> in_use s" if "i < 512" for i
    using that by (auto split: option.splits)
  then show ?case using tree_table [OF Suc.prems] by (auto simp: table_at_def)
qed (simp add: table_at_def)

lemma on_path_tabs: "length p = Suc d \<Longrightarrow> set p \<subseteq> {..<512} \<Longrightarrow> on_path s t p \<subseteq> tabs s d t"
proof (induction d arbitrary: t p)
  case 0
  then show ?case by (cases p) auto
next
  case (Suc d)
  then obtain i p' where p: "p = i # p'" "length p' = Suc d" by (cases p) auto
  then obtain j p'' where p': "p' = j # p''" by (cases p') auto
  have i: "i < 512" "set p' \<subseteq> {..<512}" using Suc.prems(2) p by auto
  then have "on_path s c p' \<subseteq> tabs s d c" for c using Suc.IH p(2) by blast
  then show ?case using i(1) unfolding p(1) p' by (fastforce split: option.splits)
qed

lemma child_same: "same_on {pg_no t} s s' \<Longrightarrow> pg_ofs t = 0 \<Longrightarrow> i < 512 \<Longrightarrow> load_pte t i s' = load_pte t i s"
  unfolding load_pte_def
proof (rule load64_cong, intro allI impI)
  fix x
  assume s: "same_on {pg_no t} s s'" "pg_ofs t = 0" "i < 512" and x: "t + 8 * i \<le> x \<and> x < t + 8 * i + 8"
  then have "pg_no x = pg_no t" using pte_page [of t i "x - (t + 8 * i)"] by auto
  then show "memory s' x = memory s x" using s(1) by (simp add: same_on_def)
qed

lemma same_on_subset: "same_on P s s' \<Longrightarrow> Q \<subseteq> P \<Longrightarrow> same_on Q s s'"
  by (auto simp: same_on_def)

text \<open>A tree depends on its own pages only.\<close>

lemma tree_same:
  assumes "tree_ok s d t" "same_on (tabs s d t) s s'"
  shows "tabs s' d t = tabs s d t"
    and "tabs s d t \<subseteq> in_use s' \<Longrightarrow> tree_ok s' d t"
    and "length p = Suc d \<Longrightarrow> set p \<subseteq> {..<512} \<Longrightarrow> slot s' t p = slot s t p \<and> entry s' t p = entry s t p"
  using assms
proof (induction d arbitrary: t p)
  case 0
  { case 1 then show ?case by simp
  next
    case 2 then show ?case by (auto simp: table_at_def)
  next
    case 3
    then obtain l where p: "p = [l]" "l < 512" by (cases p) auto
    have "load_pte t l s' = load_pte t l s" using 3 p by (intro child_same) (auto simp: table_at_def)
    then show ?case using p by (simp add: entry_def load_pte_def) }
next
  case (Suc d)
  have ch: "child s' t i = child s t i" if "tree_ok s (Suc d) t" "same_on (tabs s (Suc d) t) s s'" "i < 512" for t i
    using child_same [of t s s' i] that same_on_subset [OF that(2), of "{pg_no t}"]
    by (auto simp: table_at_def child_def)
  have sub: "same_on (tabs s d c) s s'" if "same_on (tabs s (Suc d) t) s s'" "i < 512" "child s t i = Some c" for t i c
    using that(1) by (rule same_on_subset) (use that in force)
  { case 1
    have "(case child s' t i of None \<Rightarrow> {} | Some c \<Rightarrow> tabs s' d c) = (case child s t i of None \<Rightarrow> {} | Some c \<Rightarrow> tabs s d c)"
      if "i < 512" for i
      using ch [OF 1 that] sub [OF 1(2) that] Suc.IH(1) 1(1) that by (auto split: option.splits)
    then show ?case by simp
  next
    case 2
    have t: "table_at s' t" using 2 by (auto simp: table_at_def)
    have IH: "tree_ok s' d c \<and> tabs s' d c = tabs s d c" if "i < 512" "child s t i = Some c" for i c
    proof -
      have "tabs s d c \<subseteq> tabs s (Suc d) t" using that by force
      then show ?thesis using Suc.IH(1,2) [of c] sub [OF 2(3) that] 2(1,2) that by auto
    qed
    show ?case using 2(2) IH t by (simp add: ch [OF 2(2,3)])
  next
    case 3
    obtain i j p'' where p: "p = i # j # p''" "i < 512" using 3(1,2) by (cases p; cases "tl p") auto
    show ?case
    proof (cases "child s t i")
      case None
      then show ?thesis using ch [OF 3(3,4) p(2)] by (simp add: p entry_below)
    next
      case (Some c)
      have "slot s' c (j # p'') = slot s c (j # p'') \<and> entry s' c (j # p'') = entry s c (j # p'')"
        using Suc.IH(3) [of "j # p''" c] 3 p sub [OF 3(4) p(2) Some] Some by auto
      then show ?thesis using ch [OF 3(3,4) p(2)] Some by (simp add: p entry_below)
    qed }
qed

lemma tree_disjoint:
  "tree_ok s (Suc d) t \<Longrightarrow> i < 512 \<Longrightarrow> j < 512 \<Longrightarrow> j \<noteq> i \<Longrightarrow> child s t i = Some c \<Longrightarrow> child s t j = Some c' \<Longrightarrow>
   tabs s d c \<inter> tabs s d c' = {}"
  unfolding tree_ok.simps by blast

text \<open>Changes below one entry of the root.\<close>

lemma subtree_update:
  assumes t: "tree_ok s (Suc d) t" "i < 512" "child s t i = Some c"
    and c: "tree_ok s' d c" "tabs s d c \<subseteq> tabs s' d c" "tabs s' d c \<inter> in_use s \<subseteq> tabs s d c"
    and same: "same_on (in_use s - tabs s d c) s s'" "in_use s \<subseteq> in_use s'"
  shows "tree_ok s' (Suc d) t"
    and "child s' t i = Some c"
    and "tabs s' (Suc d) t = tabs s (Suc d) t \<union> tabs s' d c"
    and "length q = Suc (Suc d) \<Longrightarrow> set q \<subseteq> {..<512} \<Longrightarrow>
      slot s' t q = (if hd q = i then slot s' c (tl q) else slot s t q) \<and>
      entry s' t q = (if hd q = i then entry s' c (tl q) else entry s t q)"
proof -
  have use: "tabs s (Suc d) t \<subseteq> in_use s" by (rule tabs_in_use [OF t(1)])
  have tt: "table_at s t" using t(1) by simp
  have tn: "pg_no t \<notin> tabs s d c" using t by auto
  then have "same_on {pg_no t} s s'" by (rule_tac same_on_subset [OF same(1)]) (use tt in \<open>auto simp: table_at_def\<close>)
  then have ch: "child s' t j = child s t j" if "j < 512" for j
    using child_same [of t s s' j] tt that by (simp add: table_at_def child_def)
  have other: "same_on (tabs s d c') s s'" "tree_ok s d c'" "tabs s d c' \<subseteq> in_use s" "pg_no t \<notin> tabs s d c'"
    if "j < 512" "j \<noteq> i" "child s t j = Some c'" for j c'
  proof -
    show ok: "tree_ok s d c'" "pg_no t \<notin> tabs s d c'" using t(1) that by auto
    then show "tabs s d c' \<subseteq> in_use s" using tabs_in_use by blast
    then show "same_on (tabs s d c') s s'"
      using tree_disjoint [OF t(1,2) that(1,2) t(3) that(3)] by (intro same_on_subset [OF same(1)]) blast
  qed
  have keep: "tabs s' d c' = tabs s d c'" "tree_ok s' d c'" if "j < 512" "j \<noteq> i" "child s t j = Some c'" for j c'
    using tree_same(1,2) [OF other(2,1) [OF that]] other(3) [OF that] same(2) by auto
  have dis: "tabs s' d c \<inter> tabs s d c' = {}" if "j < 512" "j \<noteq> i" "child s t j = Some c'" for j c'
using tree_disjoint [OF t(1,2) that(1,2) t(3) that(3)] c(3) other(3) [OF that] by blast
  have t': "table_at s' t" using tt same(2) by (auto simp: table_at_def)
  have tn': "pg_no t \<notin> tabs s' d c" using tn c(3) tt by (auto simp: table_at_def)
  show "child s' t i = Some c" using ch t by simp
  show "tree_ok s' (Suc d) t"
    unfolding tree_ok.simps(2)
  proof (intro conjI allI impI)
    show "table_at s' t" by (rule t')
  next
    fix j c' assume j: "j < 512" "child s' t j = Some c'"
    then have j': "child s t j = Some c'" using ch by simp
    show "tree_ok s' d c'" using keep(2) [OF j(1) _ j'] c(1) t(3) j' by (cases "j = i") auto
    show "pg_no t \<notin> tabs s' d c'" using keep(1) [OF j(1) _ j'] other(4) [OF j(1) _ j'] tn' t(3) j' by (cases "j = i") auto
    fix k c'' assume k: "k < 512" "k \<noteq> j" "child s' t k = Some c''"
    then have k': "child s t k = Some c''" using ch by simp
    consider "j = i" | "k = i" | "j \<noteq> i" "k \<noteq> i" by blast
    then show "tabs s' d c' \<inter> tabs s' d c'' = {}"
    proof cases
      case 1
      then show ?thesis using dis [OF k(1) _ k'] keep(1) [OF k(1) _ k'] t(3) j' k(2) by auto
    next
      case 2
      then show ?thesis using dis [OF j(1) _ j'] keep(1) [OF j(1) _ j'] t(3) k' k(2) by auto
    next
      case 3
      then show ?thesis using keep(1) [OF k(1) _ k'] keep(1) [OF j(1) _ j'] t(1) j(1) j' k(1,2) k' by auto
    qed
  qed
  show "tabs s' (Suc d) t = tabs s (Suc d) t \<union> tabs s' d c"
  proof -
    have "(case child s' t j of None \<Rightarrow> {} | Some c \<Rightarrow> tabs s' d c) =
        (case child s t j of None \<Rightarrow> {} | Some c \<Rightarrow> tabs s d c) \<union> (if j = i then tabs s' d c else {})" if "j < 512" for j
      using ch [OF that] keep(1) [OF that] t(3) c(2) by (cases "j = i") (auto split: option.splits)
    then have "(\<Union>j<512. case child s' t j of None \<Rightarrow> {} | Some c \<Rightarrow> tabs s' d c) =
        (\<Union>j<512. (case child s t j of None \<Rightarrow> {} | Some c \<Rightarrow> tabs s d c) \<union> (if j = i then tabs s' d c else {}))" by simp
    also have "\<dots> = (\<Union>j<512. case child s t j of None \<Rightarrow> {} | Some c \<Rightarrow> tabs s d c) \<union> tabs s' d c"
      using t(2) by (simp add: UN_Un_distrib)
    finally show ?thesis by simp
  qed
  assume q: "length q = Suc (Suc d)" "set q \<subseteq> {..<512}"
  then obtain j k q' where e: "q = j # k # q'" "j < 512" by (cases q; cases "tl q") auto
  show "slot s' t q = (if hd q = i then slot s' c (tl q) else slot s t q) \<and>
      entry s' t q = (if hd q = i then entry s' c (tl q) else entry s t q)"
  proof (cases "j = i")
    case True
    then show ?thesis using ch [OF e(2)] t(3) by (simp add: e entry_below)
  next
    case False
    show ?thesis
    proof (cases "child s t j")
      case None
      then show ?thesis using ch [OF e(2)] False by (simp add: e entry_below)
    next
      case (Some c')
      have "slot s' c' (k # q') = slot s c' (k # q') \<and> entry s' c' (k # q') = entry s c' (k # q')"
        using tree_same(3) [OF other(2,1) [OF e(2) False Some], of "k # q'"] q e by auto
      then show ?thesis using ch [OF e(2)] False Some by (simp add: e entry_below)
    qed
  qed
qed

text \<open>Writing an entry of a lowest table.\<close>

lemma store_word_in:
  "pg_ofs t = 0 \<Longrightarrow> i < 512 \<Longrightarrow> pg_no t \<notin> P \<Longrightarrow> same_on P s (store_pte t i w s)"
  unfolding same_on_def
proof (intro allI impI)
  fix a assume a: "pg_ofs t = 0" "i < 512" "pg_no t \<notin> P" "pg_no a \<in> P"
  have "a < t + 8 * i \<or> t + 8 * i + 8 \<le> a"
  proof (rule ccontr)
    assume "\<not> ?thesis"
    then have "pg_no a = pg_no t" using pte_page [of t i "a - (t + 8 * i)"] a by auto
    then show False using a by simp
  qed
  then show "memory (store_pte t i w s) a = memory s a" by (simp add: store_pte_def store_word_def store64_other)
qed

lemma store_pte_pools [simp]:
  "in_use (store_pte t i w s) = in_use s" "palloc_ok (store_pte t i w s) = palloc_ok s"
  "kernel_pool (store_pte t i w s) = kernel_pool s"
  by (simp_all add: store_pte_def store_word_def in_use_def palloc_ok_def)

lemma store_word_pools [simp]:
  "in_use (store_word a w s) = in_use s" "palloc_ok (store_word a w s) = palloc_ok s"
  "kernel_pool (store_word a w s) = kernel_pool s"
  by (simp_all add: store_word_def in_use_def palloc_ok_def)

lemma load_store_pte:
  "load_pte t j (store_pte t i w s) = (if j = i then w else load_pte t j s)"
proof (cases "j = i")
  case False
  then have "t + 8 * j + 8 \<le> t + 8 * i \<or> t + 8 * i + 8 \<le> t + 8 * j" by linarith
  then show ?thesis using False by (simp add: load_pte_def store_pte_def store_word_def load64_store64_other)
qed (simp add: load_pte_def store_pte_def store_word_def)

lemma store_slot:
  assumes "tree_ok s d t" "length p = Suc d" "set p \<subseteq> {..<512}" "slot s t p \<noteq> NULL"
  shows "let s' = store_word (slot s t p) w s
    in tree_ok s' d t \<and> tabs s' d t = tabs s d t \<and>
       (\<exists>l t'. slot s t p = t' + 8 * l \<and> pg_ofs t' = 0 \<and> l < 512 \<and> pg_no t' \<in> on_path s t p) \<and>
       (\<forall>q. length q = Suc d \<longrightarrow> set q \<subseteq> {..<512} \<longrightarrow>
          slot s' t q = slot s t q \<and> entry s' t q = (if q = p then w else entry s t q))"
  using assms
proof (induction d arbitrary: t p)
  case 0
  then obtain l where p: "p = [l]" "l < 512" by (cases p) auto
  let ?s = "store_word (slot s t p) w s"
  have e: "?s = store_pte t l w s" by (simp add: p store_pte_def)
  have t: "table_at s t" using 0 by simp
  have q: "entry ?s t q = (if q = p then w else entry s t q)" if len: "length q = Suc 0" for q
  proof -
    obtain j where "q = [j]" using len by (auto simp: length_Suc_conv)
    then show ?thesis using load_store_pte [of t j l w s] table_nonnull [OF t] unfolding e
      by (auto simp: p entry_def load_pte_def)
  qed
  have sl: "slot ?s t q = slot s t q" if "length q = Suc 0" for q
    using that by (auto simp: length_Suc_conv)
  have "\<exists>l t'. slot s t p = t' + 8 * l \<and> pg_ofs t' = 0 \<and> l < 512 \<and> pg_no t' \<in> on_path s t p"
    using p t by (intro exI [of _ l] exI [of _ t]) (simp add: table_at_def)
  moreover have "tree_ok ?s 0 t \<and> tabs ?s 0 t = tabs s 0 t" using t by (simp add: table_at_def)
  ultimately show ?case unfolding Let_def using q sl by blast
next
  case (Suc d)
  then obtain i p' where p: "p = i # p'" "length p' = Suc d" "i < 512" "set p' \<subseteq> {..<512}" by (cases p) auto
  then obtain j p'' where p': "p' = j # p''" by (cases p') auto
  obtain c where c: "child s t i = Some c" using Suc.prems(4) by (auto simp: p(1) p' split: option.splits)
  have sl: "slot s t p = slot s c p'" using c by (simp add: p(1) p')
  let ?s = "store_word (slot s t p) w s"
  have cok: "tree_ok s d c" using Suc.prems(1) c p(3) by auto
  have IH: "tree_ok ?s d c" "tabs ?s d c = tabs s d c"
    "\<exists>l t'. slot s t p = t' + 8 * l \<and> pg_ofs t' = 0 \<and> l < 512 \<and> pg_no t' \<in> on_path s c p'"
    "\<And>q. length q = Suc d \<Longrightarrow> set q \<subseteq> {..<512} \<Longrightarrow>
       slot ?s c q = slot s c q \<and> entry ?s c q = (if q = p' then w else entry s c q)"
    using Suc.IH [OF cok p(2,4)] Suc.prems(4) unfolding sl Let_def by auto
  from IH(3) obtain l t' where l: "slot s t p = t' + 8 * l" "pg_ofs t' = 0" "l < 512" "pg_no t' \<in> on_path s c p'" by blast
  have "pg_no t' \<in> tabs s d c" using l(4) on_path_tabs [OF p(2,4)] by blast
  then have "same_on (in_use s - tabs s d c) s (store_pte t' l w s)" by (intro store_word_in [OF l(2,3)]) blast
  then have same: "same_on (in_use s - tabs s d c) s ?s" unfolding l(1) by (simp add: store_pte_def)
  have use: "in_use ?s = in_use s" by simp
  note up = subtree_update [OF Suc.prems(1) p(3) c IH(1) _ _ same]
  have "tabs s d c \<subseteq> tabs s (Suc d) t" using c p(3) by force
  then have "tree_ok ?s (Suc d) t" "tabs ?s (Suc d) t = tabs s (Suc d) t"
    using up(1,3) by (auto simp: IH(2) use)
  moreover have "slot ?s t q = slot s t q \<and> entry ?s t q = (if q = p then w else entry s t q)"
    if len: "length q = Suc (Suc d)" "set q \<subseteq> {..<512}" for q
  proof -
    obtain k m q' where q: "q = k # m # q'" using len by (cases q; cases "tl q") auto
    show ?thesis using up(4) [OF _ _ _ len] IH(2) IH(4) [of "m # q'"] len c
      by (auto simp: use q p(1) entry_below)
  qed
  moreover have "pg_no t' \<in> on_path s t p" using l(4) c by (simp add: p(1) p')
  ultimately show ?case using l unfolding Let_def by blast
qed

text \<open>A new table below an entry, and its removal.\<close>

lemma tree_attach:
  assumes t: "tree_ok s (Suc d) t" "i < 512" "child s t i = None"
    and c: "table_at s' c" "pg_no c \<notin> in_use s" "\<forall>a. pg_no a = pg_no c \<longrightarrow> memory s' a = 0" "child s' t i = Some c"
    and same: "same_on (in_use s - {pg_no t}) s s'" "in_use s \<subseteq> in_use s'" "\<forall>j<512. j \<noteq> i \<longrightarrow> load_pte t j s' = load_pte t j s"
  shows "tree_ok s' (Suc d) t" "tabs s' d c = {pg_no c}" "tabs s' (Suc d) t = insert (pg_no c) (tabs s (Suc d) t)"
    and "length q = Suc (Suc d) \<Longrightarrow> set q \<subseteq> {..<512} \<Longrightarrow> entry s' t q = entry s t q"
proof -
  have tt: "table_at s t" using t(1) by simp
  have zero: "load_pte c j s' = 0" if "j < 512" for j
    unfolding load_pte_def
  proof (rule load64_zero, intro allI impI)
    fix x assume x: "c + 8 * j \<le> x \<and> x < c + 8 * j + 8"
    then have "pg_no x = pg_no c" using pte_page [of c j "x - (c + 8 * j)"] that c(1) by (auto simp: table_at_def)
    then show "memory s' x = 0" using c(3) by blast
  qed
  have none: "child s' c j = None" if "j < 512" for j using zero [OF that] by (simp add: child_def)
  show tc: "tabs s' d c = {pg_no c}" using none by (cases d) auto
  have okc: "tree_ok s' d c" using none c(1) by (cases d) auto
  have ch: "child s' t j = child s t j" if "j < 512" "j \<noteq> i" for j
    using same(3) that by (simp add: child_def)
  have other: "tree_ok s' d c' \<and> tabs s' d c' = tabs s d c' \<and> pg_no t \<notin> tabs s d c' \<and> pg_no c \<notin> tabs s d c' \<and>
      (\<forall>q. length q = Suc d \<longrightarrow> set q \<subseteq> {..<512} \<longrightarrow> entry s' c' q = entry s c' q)"
    if "j < 512" "child s t j = Some c'" for j c'
  proof -
    have ok: "tree_ok s d c'" "pg_no t \<notin> tabs s d c'" using t(1) that by auto
    then have u: "tabs s d c' \<subseteq> in_use s" using tabs_in_use by blast
    then have sm: "same_on (tabs s d c') s s'" using ok(2) by (intro same_on_subset [OF same(1)]) auto
    show ?thesis using tree_same [OF ok(1) sm] u same(2) ok c(2) by blast
  qed
  have ne: "pg_no t \<noteq> pg_no c" using tt c(2) by (auto simp: table_at_def)
  have t': "table_at s' t" using tt same(2) by (auto simp: table_at_def)
  show "tree_ok s' (Suc d) t"
    unfolding tree_ok.simps(2)
  proof (intro conjI allI impI)
    show "table_at s' t" by (rule t')
  next
    fix j c' assume j: "j < 512" "child s' t j = Some c'"
    show "tree_ok s' d c'" using j okc c(4) ch [OF j(1)] other [OF j(1)] by (cases "j = i") auto
    show "pg_no t \<notin> tabs s' d c'" using j tc ne c(4) ch [OF j(1)] other [OF j(1)] by (cases "j = i") auto
    fix k c'' assume k: "k < 512" "k \<noteq> j" "child s' t k = Some c''"
    consider "j = i" | "k = i" | "j \<noteq> i" "k \<noteq> i" by blast
    then show "tabs s' d c' \<inter> tabs s' d c'' = {}"
    proof cases
      case 1
      then show ?thesis using other [OF k(1), of c''] ch [OF k(1)] k j c(4) tc by auto
    next
      case 2
      then show ?thesis using other [OF j(1), of c'] ch [OF j(1)] k j c(4) tc by auto
    next
      case 3
      then have e: "child s t j = Some c'" "child s t k = Some c''" using ch j k by auto
      then show ?thesis using tree_disjoint [OF t(1) j(1) k(1,2) e] other [OF j(1) e(1)] other [OF k(1) e(2)] by simp
    qed
  qed
  show "tabs s' (Suc d) t = insert (pg_no c) (tabs s (Suc d) t)"
  proof -
    have "(case child s' t j of None \<Rightarrow> {} | Some c \<Rightarrow> tabs s' d c) =
        (case child s t j of None \<Rightarrow> {} | Some c \<Rightarrow> tabs s d c) \<union> (if j = i then {pg_no c} else {})" if "j < 512" for j
      using ch [OF that] other [OF that] t(3) c(4) tc by (cases "j = i") (auto split: option.splits)
    then have "(\<Union>j<512. case child s' t j of None \<Rightarrow> {} | Some c \<Rightarrow> tabs s' d c) =
        (\<Union>j<512. (case child s t j of None \<Rightarrow> {} | Some c \<Rightarrow> tabs s d c) \<union> (if j = i then {pg_no c} else {}))" by simp
    also have "\<dots> = insert (pg_no c) (\<Union>j<512. case child s t j of None \<Rightarrow> {} | Some c \<Rightarrow> tabs s d c)"
      using t(2) by (simp add: UN_Un_distrib)
    finally show ?thesis by auto
  qed
  assume q: "length q = Suc (Suc d)" "set q \<subseteq> {..<512}"
  then obtain j k q' where e: "q = j # k # q'" "j < 512" "k < 512" by (cases q; cases "tl q") auto
  show "entry s' t q = entry s t q"
  proof (cases "j = i")
    case True
    have "entry s' c (k # q') = 0"
      using zero [OF e(3)] none [OF e(3)] by (cases q') (simp_all add: entry_def load_pte_def)
    then show ?thesis using True t(3) c(4) by (simp add: e entry_below)
  next
    case False
    then show ?thesis using ch [OF e(2)] other [OF e(2)] q e by (auto simp: entry_below split: option.split)
  qed
qed

lemma tree_restore:
  assumes t: "tree_ok s (Suc d) t" "\<forall>j<512. child s' t j = child s t j"
    and same: "same_on (in_use s - {pg_no t}) s s'" "in_use s \<subseteq> in_use s'"
  shows "tree_ok s' (Suc d) t" "tabs s' (Suc d) t = tabs s (Suc d) t"
    and "length q = Suc (Suc d) \<Longrightarrow> set q \<subseteq> {..<512} \<Longrightarrow> entry s' t q = entry s t q"
proof -
  have tt: "table_at s t" using t(1) by simp
  have other: "tree_ok s' d c' \<and> tabs s' d c' = tabs s d c' \<and>
      (\<forall>q. length q = Suc d \<longrightarrow> set q \<subseteq> {..<512} \<longrightarrow> entry s' c' q = entry s c' q)"
    if "j < 512" "child s t j = Some c'" for j c'
  proof -
    have ok: "tree_ok s d c'" "pg_no t \<notin> tabs s d c'" using t(1) that by auto
    then have u: "tabs s d c' \<subseteq> in_use s" using tabs_in_use by blast
    then have sm: "same_on (tabs s d c') s s'" using ok(2) by (intro same_on_subset [OF same(1)]) auto
    show ?thesis using tree_same [OF ok(1) sm] u same(2) by blast
  qed
  show "tabs s' (Suc d) t = tabs s (Suc d) t" using t(2) other by (auto split: option.splits)
  have "table_at s' t" using tt same(2) by (auto simp: table_at_def)
  then show "tree_ok s' (Suc d) t" using t other unfolding tree_ok.simps by (metis (no_types, lifting))
  assume q: "length q = Suc (Suc d)" "set q \<subseteq> {..<512}"
  then obtain j k q' where e: "q = j # k # q'" "j < 512" by (cases q; cases "tl q") auto
  show "entry s' t q = entry s t q"
    using t(2) other [OF e(2)] e q by (auto simp: entry_below split: option.split)
qed

section \<open>What a walk does\<close>

text \<open>The pages for tables come from the kernel pool, which is in the part of memory the kernel maps.\<close>

definition mem_ok :: "palloc \<Rightarrow> bool" where
  "mem_ok s \<longleftrightarrow> palloc_ok s \<and> pool_pages (kernel_pool s) \<subseteq> {unat KERN_BASE div PGSIZE..<2 ^ 52}"

text \<open>The pages that can still become tables.\<close>

definition free_pages :: "palloc \<Rightarrow> nat set" where
  "free_pages s = pool_pages (kernel_pool s) - in_use s"

lemma finite_free_pages: "finite (free_pages s)"
  by (simp add: free_pages_def pool_pages_def)

lemma no_free_pages:
  assumes "palloc_ok s" "\<forall>j. \<not> group_at (bools (used_map (kernel_pool s))) j 1 False"
  shows "free_pages s = {}"
proof -
  let ?b = "used_map (kernel_pool s)"
  have "bitmap_ok ?b" using assms(1) by (simp add: palloc_ok_def pool_ok_def)
  have "pg_no (base (kernel_pool s)) + i \<in> in_use s" if "i < bit_cnt ?b" for i
  proof -
    have "bools ?b ! i" using assms(2) that by (auto simp: group_at_def)
    then have "i \<in> bm.used ?b" using that by (simp add: bm.used_def)
    then show ?thesis by (auto simp: in_use_def pool_used_def)
  qed
  then have "pool_pages (kernel_pool s) \<subseteq> in_use s" unfolding pool_pages_def
    by (auto simp: le_iff_add)
  then show ?thesis by (simp add: free_pages_def)
qed

lemma mem_ok_store [simp]: "mem_ok (store_word a w s) = mem_ok s" "mem_ok (store_pte t i w s) = mem_ok s"
  by (simp_all add: mem_ok_def)

lemma page_range: "pg_ofs c = 0 \<Longrightarrow> c \<le> a \<and> a < c + PGSIZE \<longleftrightarrow> pg_no a = pg_no c"
proof -
  assume "pg_ofs c = 0"
  then obtain q n r where "c = PGSIZE * q" "pg_no c = q" "a = PGSIZE * n + r" "pg_no a = n" "r < PGSIZE"
    using pg_split [of a] pg_split [of c] by (metis add.right_neutral)
  moreover have "PGSIZE * q \<le> PGSIZE * n + r \<and> PGSIZE * n + r < PGSIZE * q + PGSIZE \<longleftrightarrow> n = q" if "r < PGSIZE"
  proof
    assume "PGSIZE * q \<le> PGSIZE * n + r \<and> PGSIZE * n + r < PGSIZE * q + PGSIZE"
    then have "PGSIZE * q < PGSIZE * (n + 1)" "PGSIZE * n < PGSIZE * (q + 1)" using that by simp_all
    then show "n = q" by simp
  qed (use that in simp)
  ultimately show ?thesis by simp
qed

lemma get_zero_page:
  assumes "mem_ok s"
  obtains "palloc_get_page PAL_ZERO s = Some (s, NULL)" "free_pages s = {}"
  | s' c where "palloc_get_page PAL_ZERO s = Some (s', c)" "mem_ok s'" "table_at s' c" "pg_no c \<notin> in_use s"
      "in_use s' = insert (pg_no c) (in_use s)" "pool_pages (kernel_pool s') = pool_pages (kernel_pool s)"
      "memory s' = (\<lambda>a. if pg_no a = pg_no c then 0 else memory s a)" "pg_no c \<in> pool_pages (kernel_pool s)"
proof -
  have ok: "palloc_ok s" using assms by (simp add: mem_ok_def)
  have z: "get_pool (PAL_ZERO AND PAL_USER \<noteq> 0) s = kernel_pool s" by (simp add: get_pool_def)
  obtain s' c where r: "palloc_get_multiple PAL_ZERO 1 s = Some (s', c)"
    using get_multiple_returns [OF ok, of PAL_ZERO 1] by (cases "palloc_get_multiple PAL_ZERO 1 s") auto
  note g = get_multiple_spec [OF ok r, unfolded z]
  show thesis
  proof (cases "c = NULL")
    case True
    then have "free_pages s = {}" using g by (intro no_free_pages [OF ok]) simp
    then show thesis using True g r that(1) by (simp add: palloc_get_page_def)
  next
    case False
    then have k: "pg_ofs c = 0" "pg_no c \<in> pool_pages (kernel_pool s)" "pg_no c \<notin> in_use s"
      "in_use s' = insert (pg_no c) (in_use s)" "palloc_ok s'"
      and m: "memory s' = (\<lambda>a. if c \<le> a \<and> a < c + PGSIZE then 0 else memory s a)"
      using g by auto
    obtain bm where "bit_cnt bm = bit_cnt (used_map (kernel_pool s))" "kernel_pool s' = (kernel_pool s)\<lparr>used_map := bm\<rparr>"
      using g False by (auto simp: get_pool_def)
    then have p: "pool_pages (kernel_pool s') = pool_pages (kernel_pool s)" by (simp add: pool_pages_def)
    have "unat KERN_BASE div PGSIZE \<le> pg_no c" "pg_no c < 2 ^ 52" using k(2) assms by (auto simp: mem_ok_def)
    then have "unat KERN_BASE \<le> c" "c < 2 ^ 64" using pg_split [of c] k(1) by (simp_all add: unat_KERN_BASE)
    then have "table_at s' c" using k by (simp add: table_at_def)
    moreover have "mem_ok s'" using assms k(5) p by (simp add: mem_ok_def)
    moreover have "memory s' = (\<lambda>a. if pg_no a = pg_no c then 0 else memory s a)" using m page_range [OF k(1)] by simp
    ultimately show thesis using that(2) [of s' c] r k p by (simp add: palloc_get_page_def)
  qed
qed

lemma free_table_page:
  assumes "mem_ok s" "table_at s c" "pg_no c \<in> pool_pages (kernel_pool s)"
  obtains s' where "palloc_free_page c s = Some s'" "mem_ok s'" "in_use s' = in_use s - {pg_no c}"
    "pool_pages (kernel_pool s') = pool_pages (kernel_pool s)" "same_on (- {pg_no c}) s s'"
proof -
  have k: "palloc_ok s" "pg_ofs c = 0" "c \<noteq> NULL" using assms by (auto simp: mem_ok_def table_at_def table_nonnull [OF assms(2)])
  have r: "{pg_no c..<pg_no c + 1} = {pg_no c}" by auto
  have "\<exists>s'. palloc_free_multiple c 1 s = Some s' \<and> palloc_ok s' \<and> in_use s' = in_use s - {pg_no c} \<and>
      (\<forall>v. pool_pages (get_pool v s') = pool_pages (get_pool v s)) \<and>
      memory s' = (\<lambda>a. if c \<le> a \<and> a < c + PGSIZE then 0xcc else memory s a)"
    using free_multiple_spec [OF k, of 1 False, unfolded r] assms(2,3) by (simp add: get_pool_def table_at_def)
  then obtain s' where s': "palloc_free_multiple c 1 s = Some s'" "palloc_ok s'" "in_use s' = in_use s - {pg_no c}"
      "pool_pages (kernel_pool s') = pool_pages (kernel_pool s)"
      "memory s' = (\<lambda>a. if c \<le> a \<and> a < c + PGSIZE then 0xcc else memory s a)"
    by (auto simp: get_pool_def all_bool_eq)
  show thesis
    using that [of s'] s' assms(1) page_range [OF k(2)] by (auto simp: palloc_free_page_def mem_ok_def same_on_def)
qed

text \<open>What is asked of a walk in a tree with \<open>d\<close> levels below the root.\<close>

definition walked :: "nat \<Rightarrow> nat list \<Rightarrow> addr \<Rightarrow> palloc \<Rightarrow> palloc \<Rightarrow> addr \<Rightarrow> bool" where
  "walked d p t s s' pte \<longleftrightarrow> mem_ok s' \<and> tree_ok s' d t \<and>
     pool_pages (kernel_pool s') = pool_pages (kernel_pool s) \<and>
     same_on (in_use s - on_path s t p) s s' \<and> in_use s \<subseteq> in_use s' \<and>
     tabs s d t \<subseteq> tabs s' d t \<and> tabs s' d t \<inter> in_use s \<subseteq> tabs s d t \<and>
     (if pte = NULL then in_use s' = in_use s \<and> card (free_pages s) < d
      else pte = slot s' t p \<and> on_path s' t p \<inter> in_use s \<subseteq> on_path s t p) \<and>
     (\<forall>q. length q = Suc d \<longrightarrow> set q \<subseteq> {..<512} \<longrightarrow> entry s' t q = entry s t q)"

definition walks :: "nat \<Rightarrow> nat list \<Rightarrow> (addr \<Rightarrow> palloc \<Rightarrow> (palloc \<times> addr) option) \<Rightarrow> bool" where
  "walks d p f \<longleftrightarrow> (\<forall>t s. tree_ok s d t \<longrightarrow> mem_ok s \<longrightarrow> (\<exists>s' pte. f t s = Some (s', pte) \<and> walked d p t s s' pte))"

lemma walks_leaf: "l < 512 \<Longrightarrow> walks 0 [l] (\<lambda>t s. Some (s, t + 8 * l))"
  using table_nonnull by (auto simp: walks_def walked_def same_on_def)

text \<open>An entry made to point to a new table.\<close>

lemma new_entry:
  assumes "table_at s' c"
  obtains pa where "vtop c = Some pa" "ptov (PTE_ADDR (pa OR PTE_U OR PTE_W OR PTE_P)) = c"
    "(pa OR PTE_U OR PTE_W OR PTE_P) AND PTE_P \<noteq> 0"
proof -
  define pa where "pa = of_nat c - KERN_BASE"
  have v: "vtop c = Some pa" "ptov pa = c" "pa AND 0xFFF = 0" using page_word [of c] assms by (simp_all add: table_at_def pa_def)
  have e: "pa OR PTE_U OR PTE_W OR PTE_P = pa OR 7" by simp
  show thesis
    using that [OF v(1)] v(2) PTE_ADDR_flags [OF v(3), of 7] unfolding e by simp
qed

lemma same_on_trans: "same_on P s s' \<Longrightarrow> same_on Q s' s'' \<Longrightarrow> same_on (P \<inter> Q) s s''"
  by (simp add: same_on_def)

lemma walk_present:
  assumes f: "walks d p f" "length p = Suc d" "set p \<subseteq> {..<512}" "i < 512"
    and t: "tree_ok s (Suc d) t" "child s t i = Some c" and m: "mem_ok s"
  shows "\<exists>s' pte. f c s = Some (s', pte) \<and> child s' t i = Some c \<and> walked d p c s s' pte \<and> walked (Suc d) (i # p) t s s' pte"
proof -
  have c: "tree_ok s d c" "tabs s d c \<subseteq> tabs s (Suc d) t" using t f(4) by auto
  obtain s' pte where r: "f c s = Some (s', pte)" "walked d p c s s' pte"
    using f(1) c(1) m unfolding walks_def by blast
  note w = r(2) [unfolded walked_def]
  have s: "same_on (in_use s - on_path s c p) s s'" using w by simp
  then have "same_on (in_use s - tabs s d c) s s'"
    by (rule same_on_subset) (use on_path_tabs [OF f(2,3), of s c] in blast)
  note up = subtree_update [OF t(1) f(4) t(2) _ _ _ this]
  have st: "tree_ok s' (Suc d) t" "child s' t i = Some c" "tabs s' (Suc d) t = tabs s (Suc d) t \<union> tabs s' d c"
    using up(1-3) w by auto
  have en: "entry s' t q = entry s t q" if q: "length q = Suc (Suc d)" "set q \<subseteq> {..<512}" for q
  proof -
    obtain j k q' where e: "q = j # k # q'" using q by (cases q; cases "tl q") auto
    then have "entry s' c (k # q') = entry s c (k # q')" using w q by auto
    then show ?thesis using up(4) [OF _ _ _ _ q] w t(2) by (simp add: e entry_below)
  qed
  have sl: "slot s' t (i # p) = slot s' c p" using st(2) f(2) by (cases p) auto
  have pe: "on_path s'' t (i # p) = insert (pg_no t) (case child s'' t i of None \<Rightarrow> {} | Some c \<Rightarrow> on_path s'' c p)" for s''
    using f(2) by (cases p) auto
  have "same_on (in_use s - on_path s t (i # p)) s s'"
    using s by (rule same_on_subset) (auto simp: pe t(2))
  moreover have "pte \<noteq> NULL \<Longrightarrow> on_path s' t (i # p) \<inter> in_use s \<subseteq> on_path s t (i # p)"
    using w st(2) t(2) by (auto simp: pe)
  moreover have "tabs s' (Suc d) t \<inter> in_use s \<subseteq> tabs s (Suc d) t" using w st(3) c(2) by auto
  moreover have "tabs s (Suc d) t \<subseteq> tabs s' (Suc d) t" using st(3) by auto
  moreover have "pte = NULL \<Longrightarrow> card (free_pages s) < Suc d" using w by simp
  ultimately have "walked (Suc d) (i # p) t s s' pte"
    using w st(1) en sl unfolding walked_def
    by (simp del: tree_ok.simps tabs.simps on_path.simps slot.simps split del: if_split) (simp split: if_split)
  then show ?thesis using r st(2) by blast
qed

lemma walks_table:
  assumes f: "walks d p f" "length p = Suc d" "set p \<subseteq> {..<512}" "i < 512"
  shows "walks (Suc d) (i # p) (\<lambda>t s. walk_table f t i True s)"
  unfolding walks_def
proof (intro allI impI)
  fix t s assume t: "tree_ok s (Suc d) t" and m: "mem_ok s"
  have tt: "table_at s t" using t by simp
  have nn: "t \<noteq> NULL" by (rule table_nonnull [OF tt])
  have pe: "on_path s' t (i # p) = insert (pg_no t) (case child s' t i of None \<Rightarrow> {} | Some c \<Rightarrow> on_path s' c p)" for s'
    using f(2) by (cases p) auto
  show "\<exists>s' pte. walk_table f t i True s = Some (s', pte) \<and> walked (Suc d) (i # p) t s s' pte"
  proof (cases "child s t i")
    case (Some c)
    then have e: "load_pte t i s AND PTE_P \<noteq> 0" "ptov (PTE_ADDR (load_pte t i s)) = c"
      by (auto simp: child_def split: if_splits)
    have w: "walk_table f t i True s = f c s"
      using nn e by (auto simp: walk_table_def walk_entry_def split: option.split)
    show ?thesis using walk_present [OF f t Some m] unfolding w by blast
  next
    case None
    then have e: "load_pte t i s AND PTE_P = 0" by (auto simp: child_def split: if_splits)
    from m show ?thesis
    proof (cases rule: get_zero_page)
      case 1
      then have "walk_table f t i True s = Some (s, NULL)" using nn e by (simp add: walk_table_def walk_entry_def)
      moreover have "walked (Suc d) (i # p) t s s NULL" using t m 1(2) by (simp add: walked_def same_on_def del: tree_ok.simps tabs.simps)
      ultimately show ?thesis by blast
    next
      case (2 s1 c)
      obtain pa where pa: "vtop c = Some pa" "ptov (PTE_ADDR (pa OR PTE_U OR PTE_W OR PTE_P)) = c"
          "(pa OR PTE_U OR PTE_W OR PTE_P) AND PTE_P \<noteq> 0" using new_entry [OF 2(3)] .
      define s2 where "s2 = store_pte t i (pa OR PTE_U OR PTE_W OR PTE_P) s1"
      have "c \<noteq> NULL" by (rule table_nonnull [OF 2(3)])
      then have we: "walk_entry t i True s = Some (s2, True, True)"
        using e 2(1) pa(1) by (simp add: walk_entry_def s2_def)
      have tp: "pg_ofs t = 0" "pg_no t \<in> in_use s" using tt by (simp_all add: table_at_def)
      have ne: "pg_no t \<noteq> pg_no c" using tp(2) 2(4) by auto
      have s01: "same_on (in_use s) s s1" using 2(4,7) by (auto simp: same_on_def)
      have s12: "same_on (- {pg_no t}) s1 s2" unfolding s2_def by (rule store_word_in [OF tp(1) f(4)]) simp
      have ld: "load_pte t j s1 = load_pte t j s" if "j < 512" for j
        by (rule child_same [OF same_on_subset [OF s01] tp(1) that]) (use tp(2) in simp)
      have m2: "mem_ok s2" using 2(2) by (simp add: s2_def)
      have u2: "in_use s2 = insert (pg_no c) (in_use s)" using 2(5) by (simp add: s2_def)
      have p2: "pool_pages (kernel_pool s2) = pool_pages (kernel_pool s)" using 2(6) by (simp add: s2_def)
      have c2: "child s2 t i = Some c" using pa(2,3) by (simp add: child_def s2_def load_store_pte)
      have t2: "table_at s2 c" using 2(3) by (simp add: s2_def table_at_def)
      have z2: "\<forall>a. pg_no a = pg_no c \<longrightarrow> memory s2 a = 0" using s12 ne 2(7) by (simp add: same_on_def)
      have s02: "same_on (in_use s - {pg_no t}) s s2"
        using same_on_trans [OF s01 s12] by (rule same_on_subset) auto
      have l2: "\<forall>j<512. j \<noteq> i \<longrightarrow> load_pte t j s2 = load_pte t j s" using ld by (simp add: s2_def load_store_pte)
      have iu: "in_use s \<subseteq> in_use s2" using u2 by auto
      note at = tree_attach [OF t f(4) None t2 2(4) z2 c2 s02 iu l2]
      obtain s3 pte where r: "f c s2 = Some (s3, pte)" "child s3 t i = Some c" "walked d p c s2 s3 pte"
        "walked (Suc d) (i # p) t s2 s3 pte"
        using walk_present [OF f at(1) c2 m2] by blast
      note w = r(3,4) [unfolded walked_def]
      have op: "on_path s2 c p \<subseteq> {pg_no c}" using on_path_tabs [OF f(2,3), of s2 c] at(2) by simp
      have "same_on (in_use s2 - on_path s2 c p) s2 s3" using w(1) by simp
      then have s23: "same_on (in_use s) s2 s3" by (rule same_on_subset) (use op u2 2(4) in auto)
      have s03: "same_on (in_use s - {pg_no t}) s s3" using same_on_trans [OF s02 s23] by (rule same_on_subset) auto
      have path0: "on_path s t (i # p) = {pg_no t}" unfolding pe None by simp
      have l2i: "ptov (PTE_ADDR (load_pte t i s2)) = c" using c2 by (auto simp: child_def split: if_splits)
      have l3i: "ptov (PTE_ADDR (load_pte t i s3)) = c" using r(2) by (auto simp: child_def split: if_splits)
      show ?thesis
      proof (cases "pte = NULL")
        case False
        have run: "walk_table f t i True s = Some (s3, pte)"
          using nn we r(1) l2i False by (simp add: walk_table_def)
        have "on_path s3 t (i # p) \<inter> in_use s \<subseteq> on_path s t (i # p)"
          using w(1) False op u2 2(4) unfolding path0 pe [of s3] r(2) by auto
        moreover have "in_use s \<subseteq> in_use s3" using iu w(1) by auto
        moreover have "tabs s2 (Suc d) t \<subseteq> tabs s3 (Suc d) t" "tabs s3 (Suc d) t \<inter> in_use s2 \<subseteq> tabs s2 (Suc d) t"
          using w(2) by simp_all
        then have "tabs s (Suc d) t \<subseteq> tabs s3 (Suc d) t" "tabs s3 (Suc d) t \<inter> in_use s \<subseteq> tabs s (Suc d) t"
          unfolding at(3) u2 using 2(4) by blast+
        moreover have "pte = slot s3 t (i # p)" using w(2) False by simp
        moreover have "same_on (in_use s - on_path s t (i # p)) s s3" unfolding path0 by (rule s03)
        moreover have "\<forall>q. length q = Suc (Suc d) \<longrightarrow> set q \<subseteq> {..<512} \<longrightarrow> entry s3 t q = entry s t q"
          using at(4) w(2) by simp
        moreover have "mem_ok s3" "tree_ok s3 (Suc d) t" "pool_pages (kernel_pool s3) = pool_pages (kernel_pool s)"
          using w(2) p2 by (simp_all del: tree_ok.simps tabs.simps on_path.simps slot.simps)
        ultimately have "walked (Suc d) (i # p) t s s3 pte"
          using False unfolding walked_def by (simp del: tree_ok.simps tabs.simps on_path.simps slot.simps)
        then show ?thesis using run by blast
      next
        case True
        have "free_pages s = insert (pg_no c) (free_pages s2)" using 2(4,8) u2 p2 by (auto simp: free_pages_def)
        moreover have "pg_no c \<notin> free_pages s2" using u2 by (simp add: free_pages_def)
        moreover have "card (free_pages s2) < d" using w(1) True by simp
        ultimately have few: "card (free_pages s) < Suc d" using finite_free_pages by simp
        have u3: "in_use s3 = insert (pg_no c) (in_use s)" using w(2) True u2 by simp
        have t3: "table_at s3 c" using t2 u2 u3 by (simp add: table_at_def)
        have m3: "mem_ok s3" "pool_pages (kernel_pool s3) = pool_pages (kernel_pool s)" using w(2) p2 by simp_all
        then have "pg_no c \<in> pool_pages (kernel_pool s3)" using 2(8) by simp
        then obtain s4 where s4: "palloc_free_page c s3 = Some s4" "mem_ok s4" "in_use s4 = in_use s3 - {pg_no c}"
          "pool_pages (kernel_pool s4) = pool_pages (kernel_pool s3)" "same_on (- {pg_no c}) s3 s4"
          using free_table_page [OF m3(1) t3] by blast
        define s5 where "s5 = store_pte t i 0 s4"
        have run: "walk_table f t i True s = Some (s5, NULL)"
          using nn we r(1) l2i l3i True s4(1) by (simp add: walk_table_def s5_def)
        have s45: "same_on (- {pg_no t}) s4 s5" unfolding s5_def by (rule store_word_in [OF tp(1) f(4)]) simp
        have s24: "same_on (in_use s) s2 s4"
          using same_on_trans [OF s23 s4(5)] by (rule same_on_subset) (use 2(4) in auto)
        have "load_pte t j s5 = (if j = i then 0 else load_pte t j s)" if "j < 512" for j
          using child_same [OF same_on_subset [OF s24] tp(1) that] tp(2) l2 that
          by (simp add: s5_def load_store_pte)
        then have ch: "\<forall>j<512. child s5 t j = child s t j" using None by (auto simp: child_def)
        have "same_on (in_use s - {pg_no t}) s s4" using same_on_trans [OF s02 s24] by (rule same_on_subset) auto
        from same_on_trans [OF this s45] have s05: "same_on (in_use s - {pg_no t}) s s5" by (rule same_on_subset) auto
        have u5: "in_use s5 = in_use s" using s4(3) u3 2(4) by (auto simp: s5_def)
        note re = tree_restore [OF t ch s05]
        have "walked (Suc d) (i # p) t s s5 NULL"
          using s4(2,4) re s05 path0 u5 m3(2) few by (simp add: walked_def s5_def)
        then show ?thesis using run by blast
      qed
    qed
  qed
qed

lemma slot_address:
  assumes "pg_ofs (ptov a) = 0" "i < 512"
  shows "ptov (a + of_nat (8 * i)) = ptov a + 8 * i"
proof -
  obtain q where "ptov a = PGSIZE * q" using assms(1) pg_split(1) [of "ptov a"] by (metis add.right_neutral)
  moreover have "ptov a < 2 ^ 64" unfolding ptov_def by (rule unat_u64)
  ultimately have "ptov a + 8 * i < 2 ^ 64" using assms(2) by simp
  then have "unat (a + KERN_BASE + of_nat (8 * i)) = ptov a + 8 * i"
    using assms(2) unat_plus64 [of "a + KERN_BASE" "of_nat (8 * i)"] unat_of_nat64 [of "8 * i"]
    by (simp add: ptov_def)
  then show ?thesis by (simp add: ptov_def ac_simps)
qed

text \<open>The lowest of the three walks has no table to give back.\<close>

lemma pgdir_walks:
  "walks 1 [PDX va, PTX va] (\<lambda>t s. pgdir_walk t va True s)"
proof -
  let ?f = "walk_table (\<lambda>t s. Some (s, t + 8 * PTX va))"
  have w: "walks (Suc 0) [PDX va, PTX va] (\<lambda>t s. ?f t (PDX va) True s)"
    by (rule walks_table [OF walks_leaf]) (simp_all add: index_less)
  have e: "pgdir_walk t va True s = ?f t (PDX va) True s" if t: "tree_ok s 1 t" and m: "mem_ok s" for t s
  proof -
    have nn: "t \<noteq> NULL" using tree_table [OF t] by (rule table_nonnull)
    show ?thesis
    proof (cases "child s t (PDX va)")
      case (Some c)
      then have p: "load_pte t (PDX va) s AND PTE_P \<noteq> 0" "ptov (PTE_ADDR (load_pte t (PDX va) s)) = c"
        by (auto simp: child_def split: if_splits)
      have "table_at s c" using t Some index_less(3) [of va] by auto
      then have c: "pg_ofs c = 0" "c \<noteq> NULL" using table_nonnull by (auto simp: table_at_def)
      show ?thesis
        using nn p c slot_address [OF _ index_less(4), of "PTE_ADDR (load_pte t (PDX va) s)" va]
        by (simp add: pgdir_walk_def walk_table_def walk_entry_def)
    next
      case None
      then have p: "load_pte t (PDX va) s AND PTE_P = 0" by (auto simp: child_def split: if_splits)
      from m show ?thesis
      proof (cases rule: get_zero_page)
        case 1
        then show ?thesis using nn p by (simp add: pgdir_walk_def walk_table_def walk_entry_def)
      next
        case (2 s' c)
        obtain pa where pa: "vtop c = Some pa" "ptov (PTE_ADDR (pa OR PTE_U OR PTE_W OR PTE_P)) = c"
          using new_entry [OF 2(3)] by blast
        have c: "pg_ofs c = 0" "c \<noteq> NULL" using 2(3) table_nonnull by (auto simp: table_at_def)
        have pre: "walk_entry t (PDX va) True s = Some (store_pte t (PDX va) (pa OR PTE_U OR PTE_W OR PTE_P) s', True, True)"
          using p 2(1) c(2) pa(1) by (simp add: walk_entry_def)
        show ?thesis
          using nn pre pa(2) c slot_address [OF _ index_less(4), of "PTE_ADDR (pa OR PTE_U OR PTE_W OR PTE_P)" va]
          by (simp add: pgdir_walk_def walk_table_def load_store_pte)
      qed
    qed
  qed
  show ?thesis using w e unfolding walks_def One_nat_def by metis
qed

lemma pml4e_walks: "walks 3 [PML4 va, PDPE va, PDX va, PTX va] (\<lambda>t s. pml4e_walk t va True s)"
proof -
  have "walks (Suc 1) [PDPE va, PDX va, PTX va] (\<lambda>t s. pdpe_walk t va True s)"
    unfolding pdpe_walk_def by (rule walks_table [OF pgdir_walks]) (simp_all add: index_less)
  then have "walks (Suc (Suc 1)) [PML4 va, PDPE va, PDX va, PTX va] (\<lambda>t s. pml4e_walk t va True s)"
    unfolding pml4e_walk_def by (rule walks_table) (simp_all add: index_less)
  moreover have "Suc (Suc 1) = 3" by simp
  ultimately show ?thesis by (simp only:)
qed

text \<open>Without \<open>create\<close> a walk only looks.\<close>

lemma pml4e_walk_look:
  assumes "tree_ok s 3 t"
  shows "pml4e_walk t va False s = Some (s, slot s t [PML4 va, PDPE va, PDX va, PTX va])"
proof -
  have look: "walk_table f t i False s = (case child s t i of None \<Rightarrow> Some (s, NULL) | Some c \<Rightarrow> f c s)"
    if "t \<noteq> NULL" for f t i
    using that by (auto simp: walk_table_def walk_entry_def child_def split: option.split)
  have nn: "t \<noteq> NULL" if "tree_ok s d t" for d t using tree_table [OF that] by (rule table_nonnull)
  have below: "tree_ok s d c" if "tree_ok s (Suc d) t" "i < 512" "child s t i = Some c" for d t i c
    using that by auto
  have 1: "pgdir_walk t va False s = Some (s, slot s t [PDX va, PTX va])" if t: "tree_ok s 1 t" for t
  proof (cases "child s t (PDX va)")
    case None
    then have "load_pte t (PDX va) s AND PTE_P = 0" by (auto simp: child_def split: if_splits)
    then show ?thesis using nn [OF t] None by (simp add: pgdir_walk_def walk_entry_def)
  next
    case (Some c)
    then have p: "load_pte t (PDX va) s AND PTE_P \<noteq> 0" "ptov (PTE_ADDR (load_pte t (PDX va) s)) = c"
      by (auto simp: child_def split: if_splits)
    have "table_at s c" using t Some index_less(3) [of va] by auto
    then have "ptov (PTE_ADDR (load_pte t (PDX va) s) + of_nat (8 * PTX va)) = c + 8 * PTX va"
      using slot_address [OF _ index_less(4), of "PTE_ADDR (load_pte t (PDX va) s)" va] p(2) by (simp add: table_at_def)
    then show ?thesis using nn [OF t] Some p(1) by (simp add: pgdir_walk_def walk_entry_def)
  qed
  have 2: "pdpe_walk t va False s = Some (s, slot s t [PDPE va, PDX va, PTX va])" if t: "tree_ok s (Suc 1) t" for t
    unfolding pdpe_walk_def using look [OF nn [OF t]] 1 below [OF t index_less(2)]
    by (auto split: option.split)
  have t: "tree_ok s (Suc (Suc 1)) t" using assms by (simp only: numeral_3_eq_3 One_nat_def)
  show ?thesis
    unfolding pml4e_walk_def using look [OF nn [OF t]] 2 below [OF t index_less(1)]
    by (auto split: option.split)
qed

section \<open>An address space as a map\<close>

definition space_ok :: "addr \<Rightarrow> mmu \<Rightarrow> bool" where
  "space_ok pml4 m \<longleftrightarrow> mem_ok (ram m) \<and> tree_ok (ram m) 3 pml4"

text \<open>The address that an entry gives for an offset in the page, 0 for an absent one.\<close>

definition frame_of :: "u64 \<Rightarrow> nat \<Rightarrow> addr" where
  "frame_of e ofs = (if e AND PTE_P \<noteq> 0 then ptov (PTE_ADDR e) + ofs else NULL)"

definition page_entry :: "addr \<Rightarrow> nat \<Rightarrow> mmu \<Rightarrow> u64" where
  "page_entry pml4 n m = entry (ram m) pml4 (path n)"

lemma path_props: "length (path n) = Suc 3" "set (path n) \<subseteq> {..<512}"
  by (auto simp: path_def)

lemma get_page_entry:
  assumes "space_ok pml4 m" "is_user_vaddr va"
  shows "pml4_get_page pml4 va m = Some (frame_of (page_entry pml4 (pg_no (unat va)) m) (pg_ofs (unat va)))"
  using assms pml4e_walk_look [of "ram m" pml4 va]
  by (simp add: pml4_get_page_def space_ok_def path_of_va page_entry_def entry_def frame_of_def)

text \<open>Storing a word through the pointer to an entry.\<close>

lemma store_entry:
  assumes "space_ok pml4 m" "slot (ram m) pml4 (path n) \<noteq> NULL"
  shows "let m' = m\<lparr>ram := store_word (slot (ram m) pml4 (path n)) w (ram m)\<rparr>
    in space_ok pml4 m' \<and> tabs (ram m') 3 pml4 = tabs (ram m) 3 pml4 \<and> in_use (ram m') = in_use (ram m) \<and>
       same_on (- on_path (ram m) pml4 (path n)) (ram m) (ram m') \<and>
       (\<forall>k<512 ^ 4. n < 512 ^ 4 \<longrightarrow> page_entry pml4 k m' = (if k = n then w else page_entry pml4 k m))"
proof -
  have t: "mem_ok (ram m)" "tree_ok (ram m) 3 pml4" using assms(1) by (simp_all add: space_ok_def)
  note st = store_slot [OF t(2) path_props assms(2), of w, unfolded Let_def]
  then obtain l t' where l: "slot (ram m) pml4 (path n) = t' + 8 * l" "pg_ofs t' = 0" "l < 512"
    "pg_no t' \<in> on_path (ram m) pml4 (path n)" by blast
  have "same_on (- on_path (ram m) pml4 (path n)) (ram m) (store_pte t' l w (ram m))"
    by (rule store_word_in [OF l(2,3)]) (use l(4) in blast)
  then have s: "same_on (- on_path (ram m) pml4 (path n)) (ram m) (store_word (slot (ram m) pml4 (path n)) w (ram m))"
    by (simp add: l(1) store_pte_def)
  have e: "entry (store_word (slot (ram m) pml4 (path n)) w (ram m)) pml4 (path k) =
      (if k = n then w else entry (ram m) pml4 (path k))" if "k < 512 ^ 4" "n < 512 ^ 4" for k
    using st path_props [of k] path_inj [OF that] by metis
  show ?thesis
    unfolding Let_def space_ok_def page_entry_def using st t(1) s e by simp
qed

lemma set_page_run:
  assumes "space_ok pml4 m" "is_user_vaddr upage" "pg_ofs (unat upage) = 0" "pml4 \<noteq> base_pml4 m"
    and "pg_ofs kpage = 0" "unat KERN_BASE \<le> kpage" "kpage < 2 ^ 64"
  shows "\<exists>m' ok w. pml4_set_page pml4 upage kpage rw m = Some (m', ok) \<and> space_ok pml4 m' \<and>
    cr3 m' = cr3 m \<and> base_pml4 m' = base_pml4 m \<and>
    in_use (ram m) \<subseteq> in_use (ram m') \<and> (ok \<or> in_use (ram m') = in_use (ram m) \<and> card (free_pages (ram m)) < 3) \<and>
    tabs (ram m') 3 pml4 \<inter> in_use (ram m) \<subseteq> tabs (ram m) 3 pml4 \<and>
    same_on (in_use (ram m) - on_path (ram m) pml4 (path (pg_no (unat upage)))) (ram m) (ram m') \<and>
    frame_of w 0 = kpage \<and> w AND PTE_W = (if rw then PTE_W else 0) \<and>
    (\<forall>k<512 ^ 4. page_entry pml4 k m' = (if ok \<and> k = pg_no (unat upage) then w else page_entry pml4 k m))"
proof -
  define n where "n = pg_no (unat upage)"
  define s where "s = ram m"
  have n: "n < 512 ^ 4" using user_page_less [OF assms(2)] by (simp add: n_def)
  have t: "mem_ok s" "tree_ok s 3 pml4" using assms(1) by (simp_all add: space_ok_def s_def)
  obtain s' pte where r: "pml4e_walk pml4 upage True s = Some (s', pte)" "walked 3 (path n) pml4 s s' pte"
    using pml4e_walks [of upage, unfolded path_of_va, folded n_def] t unfolding walks_def by blast
  note w = r(2) [unfolded walked_def]
  have w': "mem_ok s'" "tree_ok s' 3 pml4" "in_use s \<subseteq> in_use s'" "tabs s' 3 pml4 \<inter> in_use s \<subseteq> tabs s 3 pml4"
    "same_on (in_use s - on_path s pml4 (path n)) s s'"
    using w by simp_all
  have en: "entry s' pml4 (path k) = entry s pml4 (path k)" for k using w path_props [of k] by simp
  define pa where "pa = of_nat kpage - KERN_BASE"
  have pa: "vtop kpage = Some pa" "ptov pa = kpage" "pa AND 0xFFF = 0"
    using page_word [OF assms(5-7)] by (simp_all add: pa_def)
  define f where "f = PTE_P OR (if rw then PTE_W else 0) OR PTE_U"
  have f: "f AND NOT 0xFFF = 0" "f AND PTE_P \<noteq> 0" "f AND PTE_W = (if rw then PTE_W else 0)" by (simp_all add: f_def)
  have pw: "pa AND PTE_W = 0"
  proof -
    have "pa AND PTE_W = (pa AND 0xFFF) AND PTE_W" by (simp add: and.assoc)
    then show ?thesis using pa(3) by simp
  qed
  have fr: "frame_of (pa OR f) 0 = kpage" "(pa OR f) AND PTE_W = (if rw then PTE_W else 0)"
    using PTE_ADDR_flags [OF pa(3) f(1)] f(2,3) pa(2) pw by (simp_all add: frame_of_def bit.conj_disj_distrib2)
  show ?thesis
  proof (cases "pte = NULL")
    case True
    have "pml4_set_page pml4 upage kpage rw m = Some (m\<lparr>ram := s'\<rparr>, False)"
      using assms r(1) True by (simp add: pml4_set_page_def s_def)
    moreover have "in_use s' = in_use s" "card (free_pages s) < 3" using w True by simp_all
    ultimately show ?thesis
      using w' en fr unfolding n_def [symmetric] s_def [symmetric]
      by (intro exI [of _ "m\<lparr>ram := s'\<rparr>"] exI [of _ False] exI [of _ "pa OR f"])
        (simp add: space_ok_def page_entry_def s_def)
  next
    case False
    then have pte: "pte = slot s' pml4 (path n)" "on_path s' pml4 (path n) \<inter> in_use s \<subseteq> on_path s pml4 (path n)"
      using w by simp_all
    define m1 where "m1 = m\<lparr>ram := s'\<rparr>"
    define m2 where "m2 = m\<lparr>ram := store_word pte (pa OR f) s'\<rparr>"
    have run: "pml4_set_page pml4 upage kpage rw m = Some (m2, True)"
      using assms r(1) False pa(1) by (simp add: pml4_set_page_def s_def m2_def f_def)
    have "space_ok pml4 m1" using w' by (simp add: space_ok_def m1_def)
    from store_entry [OF this, of n "pa OR f"] have st: "space_ok pml4 m2" "tabs (ram m2) 3 pml4 = tabs s' 3 pml4"
      "in_use (ram m2) = in_use s'" "same_on (- on_path s' pml4 (path n)) s' (ram m2)"
      "\<forall>k<512 ^ 4. page_entry pml4 k m2 = (if k = n then pa OR f else page_entry pml4 k m1)"
      using False n unfolding m1_def m2_def pte(1) Let_def by simp_all
    have "same_on (in_use s - on_path s pml4 (path n)) s (ram m2)"
      using same_on_trans [OF w'(5) st(4)] by (rule same_on_subset) (use pte(2) in blast)
    moreover have "page_entry pml4 k m1 = page_entry pml4 k m" for k using en by (simp add: page_entry_def m1_def s_def)
    ultimately show ?thesis
      using run st w' fr unfolding n_def [symmetric] s_def [symmetric]
      by (intro exI [of _ m2] exI [of _ True] exI [of _ "pa OR f"]) (simp add: m2_def)
  qed
qed

text \<open>Changing the word of an entry that is there, which clearing a page and its flags do.\<close>

lemma change_entry:
  fixes w :: u64
  assumes "space_ok pml4 m" "is_user_vaddr va" "slot (ram m) pml4 (path (pg_no (unat va))) \<noteq> NULL"
  defines "m' \<equiv> m\<lparr>ram := store_word (slot (ram m) pml4 (path (pg_no (unat va)))) w (ram m)\<rparr>"
  shows "\<exists>m''. invlpg_if_active pml4 va m' = Some m'' \<and> space_ok pml4 m'' \<and>
    (\<forall>k<512 ^ 4. page_entry pml4 k m'' = (if k = pg_no (unat va) then w else page_entry pml4 k m)) \<and>
    (vtop pml4 = Some (cr3 m) \<longrightarrow> flushed m'' = va # flushed m)"
proof -
  have st: "space_ok pml4 m'" "\<forall>k<512 ^ 4. page_entry pml4 k m' = (if k = pg_no (unat va) then w else page_entry pml4 k m)"
    using store_entry [OF assms(1,3), of w] user_page_less [OF assms(2)] unfolding m'_def Let_def by simp_all
  have "table_at (ram m) pml4" using assms(1) tree_table by (auto simp: space_ok_def)
  then obtain pa where "vtop pml4 = Some pa" by (auto simp: vtop_def table_at_def)
  then have "invlpg_if_active pml4 va m' = Some (if cr3 m = pa then m'\<lparr>flushed := va # flushed m\<rparr> else m')"
    by (simp add: invlpg_if_active_def m'_def)
  then show ?thesis
    using st \<open>vtop pml4 = Some pa\<close> by (auto simp: space_ok_def page_entry_def m'_def)
qed

lemma clear_page_run:
  assumes "space_ok pml4 m" "is_user_vaddr upage" "pg_ofs (unat upage) = 0"
  shows "\<exists>m' w. pml4_clear_page pml4 upage m = Some m' \<and> space_ok pml4 m' \<and> w AND PTE_P = 0 \<and>
    (\<forall>k<512 ^ 4. page_entry pml4 k m' = (if k = pg_no (unat upage) then w else page_entry pml4 k m)) \<and>
    (vtop pml4 = Some (cr3 m) \<and> page_entry pml4 (pg_no (unat upage)) m AND PTE_P \<noteq> 0 \<longrightarrow> flushed m' = upage # flushed m)"
proof -
  let ?n = "pg_no (unat upage)"
  let ?a = "slot (ram m) pml4 (path ?n)"
  let ?e = "page_entry pml4 ?n m"
  have look: "pml4e_walk pml4 upage False (ram m) = Some (ram m, ?a)"
    using pml4e_walk_look [of "ram m" pml4 upage] assms(1) by (simp add: space_ok_def path_of_va)
  show ?thesis
  proof (cases "?e AND PTE_P = 0")
    case True
    then have "?a = NULL \<or> load64 (memory (ram m)) ?a AND PTE_P = 0"
      by (cases "?a = NULL") (auto simp: page_entry_def entry_def)
    then have "pml4_clear_page pml4 upage m = Some m"
      using look assms by (auto simp: pml4_clear_page_def)
    then show ?thesis using True assms(1) by (intro exI [of _ m] exI [of _ ?e]) auto
  next
    case False
    then have "?e \<noteq> 0" by auto
    then have a: "?a \<noteq> NULL" "load64 (memory (ram m)) ?a = ?e" by (auto simp: page_entry_def entry_def split: if_splits)
    have "pml4_clear_page pml4 upage m =
        invlpg_if_active pml4 upage (m\<lparr>ram := store_word ?a (?e AND NOT PTE_P) (ram m)\<rparr>)"
      unfolding pml4_clear_page_def look using assms(2,3) a False by simp
    moreover have "(?e AND NOT PTE_P) AND PTE_P = 0" by (simp only: and.assoc) simp
    ultimately show ?thesis
      using change_entry [OF assms(1,2) a(1), of "?e AND NOT PTE_P"] by auto
  qed
qed

text \<open>
  Clearing the dirty or the accessed bit of an entry clears its upper half as well: the entry of a
  frame beyond the first 4 GB leads elsewhere afterwards.
\<close>

lemma clear_flag_truncates:
  assumes "space_ok pml4 m" "is_user_vaddr va" "page_entry pml4 (pg_no (unat va)) m \<noteq> 0"
  shows "\<exists>m'. pml4_put flag pml4 va False m = Some m' \<and> space_ok pml4 m' \<and>
    page_entry pml4 (pg_no (unat va)) m' = page_entry pml4 (pg_no (unat va)) m AND ucast (NOT flag) \<and>
    unat (page_entry pml4 (pg_no (unat va)) m') < 2 ^ 32"
proof -
  let ?n = "pg_no (unat va)"
  let ?a = "slot (ram m) pml4 (path ?n)"
  let ?e = "page_entry pml4 ?n m"
  have look: "pml4e_walk pml4 va False (ram m) = Some (ram m, ?a)"
    using pml4e_walk_look [of "ram m" pml4 va] assms(1) by (simp add: space_ok_def path_of_va)
  have a: "?a \<noteq> NULL" "load64 (memory (ram m)) ?a = ?e" using assms(3) by (auto simp: page_entry_def entry_def split: if_splits)
  have "pml4_put flag pml4 va False m =
      invlpg_if_active pml4 va (m\<lparr>ram := store_word ?a (?e AND ucast (NOT flag)) (ram m)\<rparr>)"
    unfolding pml4_put_def look using a by simp
  moreover have "unat (?e AND ucast (NOT flag)) < 2 ^ 32"
  proof -
    have "?e AND ucast (NOT flag) \<le> ucast (NOT flag)" by (rule word_and_le1)
    then have "unat (?e AND ucast (NOT flag)) \<le> unat (NOT flag)" by (simp add: word_le_nat_alt unat_up)
    then show ?thesis using unat_u32 [of "NOT flag"] by linarith
  qed
  ultimately show ?thesis
    using change_entry [OF assms(1,2) a(1), of "?e AND ucast (NOT flag)"] user_page_less [OF assms(2)] by auto
qed

text \<open>
  The addresses from \<open>2 ^ 39\<close> up to \<open>KERN_BASE\<close> are user addresses, but their entry in the root is
  the one of the kernel, whose tables all address spaces share.
\<close>

lemma user_addresses_of_the_kernel: "is_user_vaddr 0x8000000000 \<and> PML4 0x8000000000 = PML4 KERN_BASE"
  by (simp add: is_user_vaddr_def is_kernel_vaddr_def KERN_BASE_def PML4_def drop_bit_eq_div)

section \<open>What the page tables promise\<close>

text \<open>
  C12: The tables of an address space are a map from user pages to frames. Mapping a page either
  succeeds, and afterwards the addresses of that page, and no others, lead to the new frame, or
  reports a failure, which it does only when the kernel pool is left with fewer than the three pages
  that new tables may need, and changes no translation and no page in use; unmapping a page
  makes its addresses, and no others, lead nowhere and has the processor forget the old entry when
  the tables are the active ones. Neither touches an address space that shares none of the tables
  on the way to the page.
\<close>

theorem address_space_map:
  assumes "space_ok pml4 m" "pml4 \<noteq> base_pml4 m" "is_user_vaddr upage" "pg_ofs (unat upage) = 0"
    and "pg_ofs kpage = 0" "unat KERN_BASE \<le> kpage" "kpage < 2 ^ 64" "is_user_vaddr va"
  shows "(\<exists>m' ok. pml4_set_page pml4 upage kpage rw m = Some (m', ok) \<and> space_ok pml4 m' \<and>
      pml4_get_page pml4 va m' =
        (if ok \<and> pg_no (unat va) = pg_no (unat upage) then Some (kpage + pg_ofs (unat va)) else pml4_get_page pml4 va m) \<and>
      (ok \<or> in_use (ram m') = in_use (ram m) \<and> card (free_pages (ram m)) < 3) \<and>
      (\<forall>other. space_ok other m \<and>
          tabs (ram m) 3 other \<inter> on_path (ram m) pml4 (path (pg_no (unat upage))) = {} \<longrightarrow>
        space_ok other m' \<and> pml4_get_page other va m' = pml4_get_page other va m)) \<and>
    (\<exists>m'. pml4_clear_page pml4 upage m = Some m' \<and> space_ok pml4 m' \<and>
      pml4_get_page pml4 va m' =
        (if pg_no (unat va) = pg_no (unat upage) then Some NULL else pml4_get_page pml4 va m) \<and>
      (vtop pml4 = Some (cr3 m) \<and> pml4_get_page pml4 upage m \<noteq> Some NULL \<longrightarrow> upage \<in> set (flushed m')))"
proof (intro conjI)
  have n: "pg_no (unat va) < 512 ^ 4" by (rule user_page_less [OF assms(8)])
  obtain m' ok w where run: "pml4_set_page pml4 upage kpage rw m = Some (m', ok)" "space_ok pml4 m'"
    "in_use (ram m) \<subseteq> in_use (ram m')" "ok \<or> in_use (ram m') = in_use (ram m) \<and> card (free_pages (ram m)) < 3"
    "same_on (in_use (ram m) - on_path (ram m) pml4 (path (pg_no (unat upage)))) (ram m) (ram m')"
    "frame_of w 0 = kpage"
    "\<forall>k<512 ^ 4. page_entry pml4 k m' = (if ok \<and> k = pg_no (unat upage) then w else page_entry pml4 k m)"
    using set_page_run [OF assms(1,3,4,2,5-7), of rw] by blast
  have "kpage \<noteq> NULL" using assms(6) by (auto simp: unat_KERN_BASE)
  then have w: "frame_of w ofs = kpage + ofs" for ofs using run(6) by (auto simp: frame_of_def split: if_splits)
  have "space_ok other m' \<and> pml4_get_page other va m' = pml4_get_page other va m"
    if o: "space_ok other m" "tabs (ram m) 3 other \<inter> on_path (ram m) pml4 (path (pg_no (unat upage))) = {}" for other
  proof -
    have t: "tree_ok (ram m) 3 other" using o(1) by (simp add: space_ok_def)
    have "same_on (tabs (ram m) 3 other) (ram m) (ram m')"
      by (rule same_on_subset [OF run(5)]) (use tabs_in_use [OF t] o(2) in blast)
    note keep = tree_same [OF t this]
    have sp: "space_ok other m'"
      using keep(2) tabs_in_use [OF t] run(2,3) by (auto simp: space_ok_def)
    moreover have "page_entry other k m' = page_entry other k m" for k
      using keep(3) [OF path_props] by (simp add: page_entry_def)
    ultimately show ?thesis using get_page_entry [OF sp assms(8)] get_page_entry [OF o(1) assms(8)] by simp
  qed
  then show "\<exists>m' ok. pml4_set_page pml4 upage kpage rw m = Some (m', ok) \<and> space_ok pml4 m' \<and>
      pml4_get_page pml4 va m' =
        (if ok \<and> pg_no (unat va) = pg_no (unat upage) then Some (kpage + pg_ofs (unat va)) else pml4_get_page pml4 va m) \<and>
      (ok \<or> in_use (ram m') = in_use (ram m) \<and> card (free_pages (ram m)) < 3) \<and>
      (\<forall>other. space_ok other m \<and>
          tabs (ram m) 3 other \<inter> on_path (ram m) pml4 (path (pg_no (unat upage))) = {} \<longrightarrow>
        space_ok other m' \<and> pml4_get_page other va m' = pml4_get_page other va m)"
    using run(1,2,4,7) w n get_page_entry [OF run(2) assms(8)] get_page_entry [OF assms(1,8)]
    by (intro exI [of _ m'] exI [of _ ok]) simp
next
  have n: "pg_no (unat va) < 512 ^ 4" by (rule user_page_less [OF assms(8)])
  obtain m' w where run: "pml4_clear_page pml4 upage m = Some m'" "space_ok pml4 m'" "w AND PTE_P = 0"
    "\<forall>k<512 ^ 4. page_entry pml4 k m' = (if k = pg_no (unat upage) then w else page_entry pml4 k m)"
    "vtop pml4 = Some (cr3 m) \<and> page_entry pml4 (pg_no (unat upage)) m AND PTE_P \<noteq> 0 \<longrightarrow> flushed m' = upage # flushed m"
    using clear_page_run [OF assms(1,3,4)] by blast
  have "pml4_get_page pml4 upage m \<noteq> Some NULL \<Longrightarrow> page_entry pml4 (pg_no (unat upage)) m AND PTE_P \<noteq> 0"
    using get_page_entry [OF assms(1,3)] by (auto simp: frame_of_def)
  then show "\<exists>m'. pml4_clear_page pml4 upage m = Some m' \<and> space_ok pml4 m' \<and>
      pml4_get_page pml4 va m' =
        (if pg_no (unat va) = pg_no (unat upage) then Some NULL else pml4_get_page pml4 va m) \<and>
      (vtop pml4 = Some (cr3 m) \<and> pml4_get_page pml4 upage m \<noteq> Some NULL \<longrightarrow> upage \<in> set (flushed m'))"
    using run n get_page_entry [OF run(2) assms(8)] get_page_entry [OF assms(1,8)]
    by (intro exI [of _ m']) (auto simp: frame_of_def)
qed

definition sample_mmu :: mmu where
  "sample_mmu = \<lparr>ram = \<lparr>kernel_pool = sample_pool 0x8004000000 0b000011, user_pool = sample_pool 0x8004006000 0b000001,
     memory = (\<lambda>a. 0)\<rparr>, cr3 = 0x1000, flushed = [], base_pml4 = 0x8004000000\<rparr>"

lemma sample_mmu_ok: "space_ok 0x8004001000 sample_mmu"
proof -
  have z: "load_pte t i (ram sample_mmu) = 0" for t i
    unfolding load_pte_def by (rule load64_zero) (simp add: sample_mmu_def)
  have c: "child (ram sample_mmu) t i = None" for t i by (simp add: child_def z)
  have "palloc_ok (ram sample_mmu)"
    by (simp add: sample_mmu_def palloc_ok_def pool_ok_def sample_pool_def bitmap_ok_def elem_cnt_def
      DIV_ROUND_UP_def BITMAP_ERROR_def pool_pages_def pg_ofs_def pg_no_def)
  then have m: "mem_ok (ram sample_mmu)"
    by (simp add: mem_ok_def sample_mmu_def sample_pool_def pool_pages_def pg_no_def unat_KERN_BASE)
  have "bools \<lparr>bit_cnt = 6, bits = [0b000011]\<rparr> = [True, True, False, False, False, False]" by code_simp
  then have u: "1 \<in> bm.used (used_map (sample_pool 0x8004000000 0b000011))"
    by (simp add: bm.used_def sample_pool_def)
  have "pg_no 0x8004001000 = pg_no (base (kernel_pool (ram sample_mmu))) + 1"
    "kernel_pool (ram sample_mmu) = sample_pool 0x8004000000 0b000011"
    by (simp_all add: sample_mmu_def sample_pool_def pg_no_def)
  then have "pg_no 0x8004001000 \<in> in_use (ram sample_mmu)" using u unfolding in_use_def pool_used_def by auto
  then have "table_at (ram sample_mmu) 0x8004001000" by (simp add: table_at_def pg_ofs_def unat_KERN_BASE)
  then have "tree_ok (ram sample_mmu) 3 0x8004001000" using c by (simp add: numeral_3_eq_3)
  then show ?thesis using m by (simp add: space_ok_def)
qed

theorem address_space_map_witness:
  "(\<exists>m' ok. pml4_set_page 0x8004001000 0x400000 0x8004006000 True sample_mmu = Some (m', ok) \<and>
      pml4_get_page 0x8004001000 0x400123 m' = Some (if ok then 0x8004006123 else NULL)) \<and>
   (\<exists>m'. pml4_clear_page 0x8004001000 0x400000 sample_mmu = Some m' \<and> pml4_get_page 0x8004001000 0x400123 m' = Some NULL)"
proof -
  have u: "is_user_vaddr 0x400000" "is_user_vaddr 0x400123" by (simp_all add: is_user_vaddr_def is_kernel_vaddr_def KERN_BASE_def)
  have b: "0x8004001000 \<noteq> base_pml4 sample_mmu" by (simp add: sample_mmu_def)
  have o: "pg_ofs (unat (0x400000 :: u64)) = 0" "pg_ofs 0x8004006000 = 0" by (simp_all add: pg_ofs_def)
  have z: "load_pte t i (ram sample_mmu) = 0" for t i
    unfolding load_pte_def by (rule load64_zero) (simp add: sample_mmu_def)
  then have "entry (ram sample_mmu) t (path n) = 0" for t n by (simp add: path_def entry_below child_def)
  then have g: "pml4_get_page 0x8004001000 0x400123 sample_mmu = Some NULL"
    using get_page_entry [OF sample_mmu_ok u(2)] by (simp add: page_entry_def frame_of_def)
  have e: "pg_no (unat (0x400123 :: u64)) = pg_no (unat (0x400000 :: u64))" "pg_ofs (unat (0x400123 :: u64)) = 0x123"
    "unat KERN_BASE \<le> 0x8004006000" "(0x8004006000 :: nat) < 2 ^ 64"
    by (simp_all add: pg_no_def pg_ofs_def unat_KERN_BASE)
  note t = address_space_map [OF sample_mmu_ok b u(1) o e(3,4) u(2), of True, unfolded g e(1,2)]
  obtain m1 ok where 1: "pml4_set_page 0x8004001000 0x400000 0x8004006000 True sample_mmu = Some (m1, ok)"
    "pml4_get_page 0x8004001000 0x400123 m1 = (if ok \<and> True then Some (0x8004006000 + 0x123) else Some NULL)"
    using t by auto
  then have "pml4_get_page 0x8004001000 0x400123 m1 = Some (if ok then 0x8004006123 else NULL)" by simp
  moreover obtain m2 where "pml4_clear_page 0x8004001000 0x400000 sample_mmu = Some m2"
    "pml4_get_page 0x8004001000 0x400123 m2 = Some NULL" using t by auto
  ultimately show ?thesis using 1(1) by blast
qed

end
