(* ===== verification/Vm.thy ===== *)
theory Vm
  imports Mmu HashMap FreeMap
begin

text \<open>
  Virtual memory: vm/vm.c, vm/uninit.c, vm/anon.c, vm/file.c, and \<open>lazy_load_segment\<close> of
  userprog/process.c. The pages, frames and descriptions of file segments are objects of a heap;
  the supplemental page table is a hash table of the addresses of pages, over the pages'
  addresses in user space. What the current thread owns, its table and its page tables, are fields
  of the state. The lock of the swap disk is left out: what happens under it is one step.
\<close>

section \<open>Pages and frames\<close>

text \<open>The tables of operations, and the functions that a pending page remembers.\<close>

datatype page_operations = no_ops | uninit_ops | anon_ops | file_ops
datatype vm_initializer = no_init | lazy_load_init
datatype page_initializer = anon_init | file_init

abbreviation (input) VM_UNINIT :: u32 where "VM_UNINIT \<equiv> 0"
abbreviation (input) VM_ANON :: u32 where "VM_ANON \<equiv> 1"
abbreviation (input) VM_FILE :: u32 where "VM_FILE \<equiv> 2"
abbreviation (input) VM_MARKER_0 :: u32 where "VM_MARKER_0 \<equiv> 8"

definition VM_TYPE :: "u32 \<Rightarrow> u32" where "VM_TYPE ty = ty AND 7"

text \<open>The three members of the union in a page begin with the same four fields.\<close>

record page =
  operations :: page_operations
  page_va :: u64
  page_frame :: addr
  writable :: bool
  init_fn :: vm_initializer
  page_type :: u32
  aux_ptr :: addr
  init_kind :: page_initializer
  swap_slot :: u32

record frame =
  frame_kva :: addr
  frame_page :: addr

record file_info =
  fi_file :: addr
  fi_ofs :: int
  read_bytes :: nat
  page_read_bytes :: nat
  page_zero_bytes :: nat

text \<open>
  \<open>vheap\<close> holds the outcomes of the next requests for memory, as in the file system; \<open>no_result\<close> is
  what is found where the result of a function that returns none is expected.
\<close>

record vmem =
  mm :: mmu
  fsys :: fs
  swap_disk :: disk
  swap_bitmap :: bitmap
  frame_list :: "addr list"
  frames :: "addr \<Rightarrow> frame option"
  pages :: "addr \<Rightarrow> page option"
  infos :: "addr \<Rightarrow> file_info option"
  spt :: "addr htable"
  cur_pml4 :: addr
  vheap :: "bool list"
  next_obj :: addr
  no_result :: bool

abbreviation (input) mem_of :: "vmem \<Rightarrow> mem" where "mem_of s \<equiv> memory (ram (mm s))"

definition set_ram :: "palloc \<Rightarrow> vmem \<Rightarrow> vmem" where "set_ram r s = s\<lparr>mm := (mm s)\<lparr>ram := r\<rparr>\<rparr>"
definition set_mem :: "mem \<Rightarrow> vmem \<Rightarrow> vmem" where "set_mem m s = set_ram ((ram (mm s))\<lparr>memory := m\<rparr>) s"

definition heap_ok :: "vmem \<Rightarrow> vmem \<times> bool" where
  "heap_ok s = (case vheap s of [] \<Rightarrow> (s, True) | b # bs \<Rightarrow> (s\<lparr>vheap := bs\<rparr>, b))"

definition calloc :: "vmem \<Rightarrow> vmem \<times> addr" where
  "calloc s = (let (s, ok) = heap_ok s in if ok then (s\<lparr>next_obj := Suc (next_obj s)\<rparr>, next_obj s) else (s, NULL))"

definition upd_page :: "addr \<Rightarrow> (page \<Rightarrow> page) \<Rightarrow> vmem \<Rightarrow> vmem option" where
  "upd_page p g s = map_option (\<lambda>pg. s\<lparr>pages := (pages s)(p \<mapsto> g pg)\<rparr>) (pages s p)"

definition upd_frame :: "addr \<Rightarrow> (frame \<Rightarrow> frame) \<Rightarrow> vmem \<Rightarrow> vmem option" where
  "upd_frame f g s = map_option (\<lambda>fr. s\<lparr>frames := (frames s)(f \<mapsto> g fr)\<rparr>) (frames s f)"

definition free_info :: "addr \<Rightarrow> vmem \<Rightarrow> vmem" where
  "free_info a s = s\<lparr>infos := (infos s)(a := None)\<rparr>"

definition pg_round_down :: "u64 \<Rightarrow> u64" where "pg_round_down a = a AND NOT 0xFFF"

fun ops_type :: "page_operations \<Rightarrow> u32 option" where
  "ops_type no_ops = None"
| "ops_type uninit_ops = Some VM_UNINIT"
| "ops_type anon_ops = Some VM_ANON"
| "ops_type file_ops = Some VM_FILE"

definition page_get_type :: "page \<Rightarrow> u32 option" where
  "page_get_type pg = do {
     t \<leftarrow> ops_type (operations pg);
     let ty = VM_TYPE t;
     Some (if ty = VM_UNINIT then VM_TYPE (page_type pg) else ty) }"

section \<open>The supplemental page table\<close>

text \<open>The local page of a search stands at the null address, where the heap has none.\<close>

definition spt_key :: "vmem \<Rightarrow> u64 \<Rightarrow> addr \<Rightarrow> u64" where
  "spt_key s uva p = (if p = NULL then uva else case pages s p of None \<Rightarrow> 0 | Some pg \<Rightarrow> page_va pg)"

definition va_hash :: "u64 \<Rightarrow> u64" where "va_hash a = hash_bytes (word_bytes 8 a)"

definition spt_hash_func :: "(addr \<Rightarrow> u64) \<Rightarrow> addr \<Rightarrow> u64" where "spt_hash_func key e = va_hash (key e)"
definition spt_hash_less_func :: "(addr \<Rightarrow> u64) \<Rightarrow> addr \<Rightarrow> addr \<Rightarrow> bool" where
  "spt_hash_less_func key a b \<longleftrightarrow> key a < key b"

definition spt_find_page :: "vmem \<Rightarrow> addr htable \<Rightarrow> u64 \<Rightarrow> addr" where
  "spt_find_page s h uva =
     (let key = spt_key s (pg_round_down uva)
      in case hash_find (spt_hash_func key) (spt_hash_less_func key) h NULL of None \<Rightarrow> NULL | Some p \<Rightarrow> p)"

definition spt_insert_page :: "addr \<Rightarrow> vmem \<Rightarrow> (vmem \<times> bool) option" where
  "spt_insert_page p s = do {
     let key = spt_key s 0;
     (s, ok) \<leftarrow> Some (heap_ok s);
     (h, old) \<leftarrow> hash_insert (spt_hash_func key) (spt_hash_less_func key) ok (spt s) p;
     Some (s\<lparr>spt := h\<rparr>, old = None) }"

definition supplemental_page_table_init :: "vmem \<Rightarrow> vmem option" where
  "supplemental_page_table_init s = do {
     (s, ok) \<leftarrow> Some (heap_ok s);
     h \<leftarrow> hash_init ok;
     Some (s\<lparr>spt := h\<rparr>) }"

section \<open>Pending pages\<close>

definition blank_page :: page where
  "blank_page = \<lparr>operations = no_ops, page_va = 0, page_frame = NULL, writable = False, init_fn = no_init,
     page_type = 0, aux_ptr = NULL, init_kind = anon_init, swap_slot = 0\<rparr>"

definition uninit_new :: "addr \<Rightarrow> u64 \<Rightarrow> vm_initializer \<Rightarrow> u32 \<Rightarrow> addr \<Rightarrow> page_initializer \<Rightarrow> vmem \<Rightarrow> vmem option" where
  "uninit_new p uva ini ty ax kind s = do {
     ASSERT (p \<noteq> NULL);
     Some (s\<lparr>pages := (pages s)(p \<mapsto> blank_page\<lparr>operations := uninit_ops, page_va := uva, init_fn := ini,
       page_type := ty, aux_ptr := ax, init_kind := kind\<rparr>)\<rparr>) }"

definition vm_alloc_page_with_initializer ::
    "u32 \<Rightarrow> u64 \<Rightarrow> bool \<Rightarrow> vm_initializer \<Rightarrow> addr \<Rightarrow> vmem \<Rightarrow> (vmem \<times> bool) option" where
  "vm_alloc_page_with_initializer ty upage wr ini ax s = do {
     ASSERT (VM_TYPE ty \<noteq> VM_UNINIT);
     if spt_find_page s (spt s) upage = NULL then do {
       (s, p) \<leftarrow> Some (calloc s);
       if p = NULL then Some (s, False)
       else do {
         let s = s\<lparr>pages := (pages s)(p \<mapsto> blank_page)\<rparr>;
         s \<leftarrow> (if VM_TYPE ty = VM_ANON then uninit_new p upage ini ty ax anon_init s
               else if VM_TYPE ty = VM_FILE then uninit_new p upage ini ty ax file_init s
               else Some s);
         s \<leftarrow> upd_page p (\<lambda>pg. pg\<lparr>writable := wr\<rparr>) s;
         spt_insert_page p s } }
     else Some (s, False) }"

definition vm_alloc_page :: "u32 \<Rightarrow> u64 \<Rightarrow> bool \<Rightarrow> vmem \<Rightarrow> (vmem \<times> bool) option" where
  "vm_alloc_page ty upage wr = vm_alloc_page_with_initializer ty upage wr no_init NULL"

section \<open>Bringing a page in\<close>

definition lazy_load_segment :: "addr \<Rightarrow> addr \<Rightarrow> vmem \<Rightarrow> (vmem \<times> bool) option" where
  "lazy_load_segment p ax s = do {
     info \<leftarrow> infos s ax;
     pg \<leftarrow> pages s p;
     fr \<leftarrow> frames s (page_frame pg);
     let kpage = frame_kva fr;
     fs \<leftarrow> file_seek (fi_file info) (fi_ofs info) (fsys s);
     (fs, bs) \<leftarrow> file_read (fi_file info) (int (page_read_bytes info)) fs;
     let s = set_mem (store_bytes (mem_of s) kpage bs) (s\<lparr>fsys := fs\<rparr>);
     if length bs \<noteq> page_read_bytes info
     then do { r \<leftarrow> palloc_free_page kpage (ram (mm s)); Some (set_ram r s, False) }
     else do {
       (m, _) \<leftarrow> memset (mem_of s) (kpage + page_read_bytes info) 0 (page_zero_bytes info);
       Some (set_mem m s, True) } }"

definition anon_initializer :: "addr \<Rightarrow> vmem \<Rightarrow> (vmem \<times> bool) option" where
  "anon_initializer p s = do {
     s \<leftarrow> upd_page p (\<lambda>pg. pg\<lparr>operations := anon_ops, swap_slot := - 1\<rparr>) s;
     Some (s, True) }"

text \<open>This one has no return statement.\<close>

definition file_backed_initializer :: "addr \<Rightarrow> vmem \<Rightarrow> (vmem \<times> bool) option" where
  "file_backed_initializer p s = do {
     s \<leftarrow> upd_page p (\<lambda>pg. pg\<lparr>operations := file_ops\<rparr>) s;
     Some (s, no_result s) }"

definition uninit_initialize :: "addr \<Rightarrow> vmem \<Rightarrow> (vmem \<times> bool) option" where
  "uninit_initialize p s = do {
     pg \<leftarrow> pages s p;
     (s, ok) \<leftarrow> (case init_kind pg of anon_init \<Rightarrow> anon_initializer p s | file_init \<Rightarrow> file_backed_initializer p s);
     if \<not> ok then Some (s, False)
     else case init_fn pg of no_init \<Rightarrow> Some (s, True) | lazy_load_init \<Rightarrow> lazy_load_segment p (aux_ptr pg) s }"

definition round_down_kva :: "addr \<Rightarrow> addr" where "round_down_kva a = ROUND_DOWN a PGSIZE"

fun read_slot :: "u32 \<Rightarrow> addr \<Rightarrow> nat list \<Rightarrow> vmem \<Rightarrow> vmem option" where
  "read_slot sl kva [] s = Some s"
| "read_slot sl kva (i # is) s = do {
     (d, bs) \<leftarrow> disk_read (swap_disk s) (unat (sl * 8 + of_nat i));
     read_slot sl kva is (set_mem (store_bytes (mem_of s) (kva + DISK_SECTOR_SIZE * i) bs) (s\<lparr>swap_disk := d\<rparr>)) }"

fun write_slot :: "u32 \<Rightarrow> addr \<Rightarrow> nat list \<Rightarrow> vmem \<Rightarrow> vmem option" where
  "write_slot sl kva [] s = Some s"
| "write_slot sl kva (i # is) s = do {
     d \<leftarrow> disk_write (swap_disk s) (unat (sl * 8 + of_nat i))
            (load_bytes (mem_of s) (kva + DISK_SECTOR_SIZE * i) DISK_SECTOR_SIZE);
     write_slot sl kva is (s\<lparr>swap_disk := d\<rparr>) }"

definition anon_swap_in :: "addr \<Rightarrow> vmem \<Rightarrow> (vmem \<times> bool) option" where
  "anon_swap_in p s = do {
     pg \<leftarrow> pages s p;
     fr \<leftarrow> frames s (page_frame pg);
     s \<leftarrow> read_slot (swap_slot pg) (round_down_kva (frame_kva fr)) [0..<8] s;
     bm \<leftarrow> bitmap_set (swap_bitmap s) (unat (swap_slot pg)) False;
     s \<leftarrow> upd_page p (\<lambda>pg. pg\<lparr>swap_slot := - 1\<rparr>) (s\<lparr>swap_bitmap := bm\<rparr>);
     Some (s, True) }"

definition file_backed_swap_in :: "addr \<Rightarrow> vmem \<Rightarrow> (vmem \<times> bool) option" where
  "file_backed_swap_in p s = do {
     pg \<leftarrow> pages s p;
     (s, ok) \<leftarrow> lazy_load_segment p (aux_ptr pg) s;
     Some (s, True) }"

definition swap_in :: "addr \<Rightarrow> vmem \<Rightarrow> (vmem \<times> bool) option" where
  "swap_in p s = do {
     pg \<leftarrow> pages s p;
     case operations pg of
       no_ops \<Rightarrow> None
     | uninit_ops \<Rightarrow> uninit_initialize p s
     | anon_ops \<Rightarrow> anon_swap_in p s
     | file_ops \<Rightarrow> file_backed_swap_in p s }"

section \<open>Throwing a page out\<close>

definition anon_swap_out :: "addr \<Rightarrow> vmem \<Rightarrow> (vmem \<times> bool) option" where
  "anon_swap_out p s = do {
     pg \<leftarrow> pages s p;
     fr \<leftarrow> frames s (page_frame pg);
     let kva = round_down_kva (frame_kva fr);
     (bm, idx) \<leftarrow> bitmap_scan_and_flip (swap_bitmap s) 0 1 False;
     let sl = (of_nat idx :: u32);
     ASSERT (unat sl \<noteq> BITMAP_ERROR);
     s \<leftarrow> write_slot sl kva [0..<8] (s\<lparr>swap_bitmap := bm\<rparr>);
     s \<leftarrow> upd_page p (\<lambda>pg. pg\<lparr>swap_slot := sl\<rparr>) s;
     m \<leftarrow> pml4_clear_page (cur_pml4 s) (pg_round_down (page_va pg)) (mm s);
     Some (s\<lparr>mm := m\<rparr>, True) }"

text \<open>Writing the bytes of a page back to its file when the entry of the page is dirty.\<close>

definition write_back :: "addr \<Rightarrow> addr \<Rightarrow> (addr \<Rightarrow> addr) \<Rightarrow> u64 \<Rightarrow> vmem \<Rightarrow> vmem option" where
  "write_back ax p adjust uva s = do {
     dirty \<leftarrow> pml4_is_dirty (cur_pml4 s) uva (mm s);
     if dirty then do {
       info \<leftarrow> infos s ax;
       pg \<leftarrow> pages s p;
       fr \<leftarrow> frames s (page_frame pg);
       (fs, n) \<leftarrow> file_write_at (fi_file info)
                    (load_bytes (mem_of s) (adjust (frame_kva fr)) (page_read_bytes info))
                    (int (page_read_bytes info)) (fi_ofs info) (fsys s);
       Some (s\<lparr>fsys := fs\<rparr>) }
     else Some s }"

definition file_backed_swap_out :: "addr \<Rightarrow> vmem \<Rightarrow> (vmem \<times> bool) option" where
  "file_backed_swap_out p s = do {
     pg \<leftarrow> pages s p;
     let uva = pg_round_down (page_va pg);
     s \<leftarrow> (if aux_ptr pg \<noteq> NULL then write_back (aux_ptr pg) p round_down_kva uva s else Some s);
     m \<leftarrow> pml4_set_dirty (cur_pml4 s) uva False (mm s);
     m \<leftarrow> pml4_clear_page (cur_pml4 s) uva m;
     Some (s\<lparr>mm := m\<rparr>, True) }"

text \<open>Pending pages have no function for it, and are never in a frame.\<close>

definition swap_out :: "addr \<Rightarrow> vmem \<Rightarrow> (vmem \<times> bool) option" where
  "swap_out p s = do {
     pg \<leftarrow> pages s p;
     case operations pg of
       no_ops \<Rightarrow> None
     | uninit_ops \<Rightarrow> None
     | anon_ops \<Rightarrow> anon_swap_out p s
     | file_ops \<Rightarrow> file_backed_swap_out p s }"

section \<open>Releasing a page\<close>

definition uninit_destroy :: "addr \<Rightarrow> vmem \<Rightarrow> vmem option" where
  "uninit_destroy p s = do {
     pg \<leftarrow> pages s p;
     Some (if aux_ptr pg \<noteq> NULL then free_info (aux_ptr pg) s else s) }"

text \<open>The frame is freed through a pointer that is already null, so it stays.\<close>

definition anon_destroy :: "addr \<Rightarrow> vmem \<Rightarrow> vmem option" where
  "anon_destroy p s = do {
     pg \<leftarrow> pages s p;
     let s = (if aux_ptr pg \<noteq> NULL then free_info (aux_ptr pg) s else s);
     if page_frame pg \<noteq> NULL then do {
       let s = s\<lparr>frame_list := remove1 (page_frame pg) (frame_list s)\<rparr>;
       s \<leftarrow> upd_frame (page_frame pg) (\<lambda>fr. fr\<lparr>frame_page := NULL\<rparr>) s;
       upd_page p (\<lambda>pg. pg\<lparr>page_frame := NULL\<rparr>) s }
     else Some s }"

definition file_backed_destroy :: "addr \<Rightarrow> vmem \<Rightarrow> vmem option" where
  "file_backed_destroy p s = do {
     pg \<leftarrow> pages s p;
     s \<leftarrow> (if aux_ptr pg \<noteq> NULL then do {
              s \<leftarrow> write_back (aux_ptr pg) p (\<lambda>a. a) (page_va pg) s;
              Some (free_info (aux_ptr pg) s) }
            else Some s);
     m \<leftarrow> pml4_clear_page (cur_pml4 s) (pg_round_down (page_va pg)) (mm s);
     let s = s\<lparr>mm := m\<rparr>;
     if page_frame pg \<noteq> NULL
     then Some (s\<lparr>frame_list := remove1 (page_frame pg) (frame_list s), frames := (frames s)(page_frame pg := None)\<rparr>)
     else Some s }"

definition vm_dealloc_page :: "addr \<Rightarrow> vmem \<Rightarrow> vmem option" where
  "vm_dealloc_page p s = do {
     pg \<leftarrow> pages s p;
     s \<leftarrow> (case operations pg of
             no_ops \<Rightarrow> None
           | uninit_ops \<Rightarrow> uninit_destroy p s
           | anon_ops \<Rightarrow> anon_destroy p s
           | file_ops \<Rightarrow> file_backed_destroy p s);
     Some (s\<lparr>pages := (pages s)(p := None)\<rparr>) }"

definition spt_remove_page :: "addr \<Rightarrow> vmem \<Rightarrow> vmem option" where
  "spt_remove_page p s = vm_dealloc_page p s"

section \<open>Frames\<close>

definition vm_get_victim :: "vmem \<Rightarrow> addr option" where
  "vm_get_victim s = (case frame_list s of [] \<Rightarrow> None | f # fs \<Rightarrow> Some f)"

definition vm_evict_frame :: "vmem \<Rightarrow> (vmem \<times> addr) option" where
  "vm_evict_frame s = do {
     victim \<leftarrow> vm_get_victim s;
     fr \<leftarrow> frames s victim;
     (s, ok) \<leftarrow> swap_out (frame_page fr) s;
     if \<not> ok then Some (s, NULL)
     else do {
       let s = s\<lparr>frame_list := remove1 victim (frame_list s)\<rparr>;
       s \<leftarrow> upd_page (frame_page fr) (\<lambda>pg. pg\<lparr>page_frame := NULL\<rparr>) s;
       s \<leftarrow> upd_frame victim (\<lambda>fr. fr\<lparr>frame_page := NULL\<rparr>) s;
       Some (s, victim) } }"

definition vm_get_frame :: "vmem \<Rightarrow> (vmem \<times> addr) option" where
  "vm_get_frame s = do {
     (r, kva) \<leftarrow> palloc_get_page PAL_USER (ram (mm s));
     let s = set_ram r s;
     (s, f) \<leftarrow> (if kva = NULL then vm_evict_frame s
                else do {
                  (s, f) \<leftarrow> Some (calloc s);
                  ASSERT (f \<noteq> NULL);
                  Some (s\<lparr>frames := (frames s)(f \<mapsto> \<lparr>frame_kva = kva, frame_page = NULL\<rparr>)\<rparr>, f) });
     ASSERT (f \<noteq> NULL);
     s \<leftarrow> upd_frame f (\<lambda>fr. fr\<lparr>frame_page := NULL\<rparr>) (s\<lparr>frame_list := frame_list s @ [f]\<rparr>);
     Some (s, f) }"

definition vm_do_claim_page :: "addr \<Rightarrow> vmem \<Rightarrow> (vmem \<times> bool) option" where
  "vm_do_claim_page p s = do {
     (s, f) \<leftarrow> vm_get_frame s;
     s \<leftarrow> upd_frame f (\<lambda>fr. fr\<lparr>frame_page := p\<rparr>) s;
     s \<leftarrow> upd_page p (\<lambda>pg. pg\<lparr>page_frame := f\<rparr>) s;
     pg \<leftarrow> pages s p;
     fr \<leftarrow> frames s f;
     (m, ok) \<leftarrow> pml4_set_page (cur_pml4 s) (page_va pg) (frame_kva fr) (writable pg) (mm s);
     let s = s\<lparr>mm := m\<rparr>;
     if \<not> ok then Some (s, False) else swap_in p s }"

definition vm_claim_page :: "u64 \<Rightarrow> vmem \<Rightarrow> (vmem \<times> bool) option" where
  "vm_claim_page uva s =
     (let p = spt_find_page s (spt s) uva
      in if p = NULL then Some (s, False) else vm_do_claim_page p s)"

section \<open>Page faults\<close>

abbreviation (input) USER_STACK :: u64 where "USER_STACK \<equiv> 0x47480000"
abbreviation (input) STACK_MAX_SIZE :: u64 where "STACK_MAX_SIZE \<equiv> 0x100000"

partial_function (option) grow_stack :: "u64 \<Rightarrow> vmem \<Rightarrow> vmem option" where
  "grow_stack uva s =
     (if spt_find_page s (spt s) uva = NULL then do {
        r \<leftarrow> vm_alloc_page (VM_ANON OR VM_MARKER_0) uva True s;
        r \<leftarrow> vm_claim_page uva (fst r);
        grow_stack (uva + 4096) (fst r) }
      else Some s)"

definition vm_stack_growth :: "u64 \<Rightarrow> vmem \<Rightarrow> vmem option" where
  "vm_stack_growth uva s = grow_stack (pg_round_down uva) s"

definition vm_try_handle_fault :: "u64 \<Rightarrow> u64 \<Rightarrow> bool \<Rightarrow> vmem \<Rightarrow> (vmem \<times> bool) option" where
  "vm_try_handle_fault rsp uva not_present s =
     (if not_present then
        if spt_find_page s (spt s) (pg_round_down uva) = NULL then
          if uva > USER_STACK - STACK_MAX_SIZE \<and> uva AND ucast VM_MARKER_0 \<noteq> 0 \<and> uva = rsp - 8
          then do { s \<leftarrow> vm_stack_growth uva s; Some (s, True) }
          else Some (s, False)
        else vm_claim_page uva s
      else Some (s, False))"

section \<open>Copying and discarding a table\<close>

definition duplicate_aux :: "addr \<Rightarrow> vmem \<Rightarrow> (vmem \<times> bool \<times> addr) option" where
  "duplicate_aux src_aux s =
     (if src_aux = NULL then Some (s, True, NULL)
      else do {
        info \<leftarrow> infos s src_aux;
        (s, a) \<leftarrow> Some (calloc s);
        if a = NULL then Some (s, False, NULL)
        else Some (s\<lparr>infos := (infos s)(a \<mapsto> info\<lparr>read_bytes := 0\<rparr>)\<rparr>, True, a) })"

definition page_copy_action :: "addr \<Rightarrow> vmem \<Rightarrow> (vmem \<times> bool) option" where
  "page_copy_action src s = do {
     spg \<leftarrow> pages s src;
     ty \<leftarrow> page_get_type spg;
     (s, ok, ax) \<leftarrow> duplicate_aux (aux_ptr spg) s;
     if \<not> ok then Some (s, False)
     else do {
       (s, ok) \<leftarrow> vm_alloc_page_with_initializer ty (page_va spg) (writable spg) (init_fn spg) ax s;
       if \<not> ok then Some (s, False)
       else do {
         let dst = spt_find_page s (spt s) (page_va spg);
         if dst = NULL then Some (s, False)
         else if operations spg \<noteq> uninit_ops then do {
           (s, ok) \<leftarrow> vm_do_claim_page dst s;
           if ok then do {
             dpg \<leftarrow> pages s dst;
             dfr \<leftarrow> frames s (page_frame dpg);
             spg \<leftarrow> pages s src;
             sfr \<leftarrow> frames s (page_frame spg);
             (m, _) \<leftarrow> memcpy (mem_of s) (frame_kva dfr) (frame_kva sfr) PGSIZE;
             Some (set_mem m s, True) }
           else Some (s, True) }
         else Some (s, True) } } }"

partial_function (option) copy_loop :: "addr htable \<Rightarrow> hash_iterator \<Rightarrow> vmem \<Rightarrow> (vmem \<times> bool) option" where
  "copy_loop src it s =
     (let r = hash_next src it
      in case snd r of
           None \<Rightarrow> Some (s, True)
         | Some p \<Rightarrow> do {
             q \<leftarrow> page_copy_action p s;
             if \<not> snd q then Some (fst q, False) else copy_loop src (fst r) (fst q) })"

definition supplemental_page_table_copy :: "addr htable \<Rightarrow> vmem \<Rightarrow> (vmem \<times> bool) option" where
  "supplemental_page_table_copy src s = copy_loop src hash_first s"

definition hash_destroy_action :: "addr \<Rightarrow> vmem option \<Rightarrow> vmem option" where
  "hash_destroy_action p r = do { s \<leftarrow> r; vm_dealloc_page p s }"

definition supplemental_page_table_kill :: "vmem \<Rightarrow> vmem option" where
  "supplemental_page_table_kill s = do {
     let (h, r) = hash_clear (Some hash_destroy_action) (spt s) (Some s);
     s \<leftarrow> r;
     Some (s\<lparr>spt := h\<rparr>) }"

section \<open>Initialisation\<close>

definition vm_anon_init :: "disk \<Rightarrow> bool \<Rightarrow> bool \<Rightarrow> u64 list \<Rightarrow> vmem \<Rightarrow> vmem option" where
  "vm_anon_init d have_struct have_bits junk s = do {
     let swap_size = disk_size d;
     r \<leftarrow> bitmap_create (swap_size div 8) have_struct have_bits junk;
     bm \<leftarrow> r;
     Some (s\<lparr>swap_disk := d, swap_bitmap := bm\<rparr>) }"

definition vm_init :: "disk \<Rightarrow> bool \<Rightarrow> bool \<Rightarrow> u64 list \<Rightarrow> vmem \<Rightarrow> vmem option" where
  "vm_init d have_struct have_bits junk s = do {
     s \<leftarrow> vm_anon_init d have_struct have_bits junk s;
     Some (s\<lparr>frame_list := []\<rparr>) }"

end
