(* ===== verification/VmTable.thy ===== *)
theory VmTable
  imports Vm
begin

text \<open>
  The supplemental page table as a map from user pages to pending and resident pages: looking up,
  inserting, growing the stack.
\<close>

section \<open>Pages of user addresses\<close>

lemma unat_pg_round_down: "unat (pg_round_down a) = PGSIZE * pg_no (unat a)"
proof -
  have "a AND NOT (mask 12) = push_bit 12 (drop_bit 12 a)" by (rule bit_word_eqI) (auto simp: bit_simps)
  moreover have "unat (drop_bit 12 a) = pg_no (unat a)" by (simp add: unat_drop pg_no_def)
  moreover have "pg_no (unat a) * 2 ^ 12 \<le> unat a" by (simp add: pg_no_def)
  then have "pg_no (unat a) * 2 ^ 12 < 2 ^ 64" using unat_u64 [of a] by linarith
  ultimately show ?thesis using unat_push64 [of "drop_bit 12 a" 12] by (simp add: pg_round_down_def masks)
qed

lemma pg_round_down_eq: "pg_round_down a = pg_round_down b \<longleftrightarrow> pg_no (unat a) = pg_no (unat b)"
  using unat_pg_round_down [of a] unat_pg_round_down [of b] by (metis mult_cancel1 word_unat_eq_iff zero_neq_numeral)

lemma pg_round_down_props:
  "pg_ofs (unat (pg_round_down a)) = 0" "pg_no (unat (pg_round_down a)) = pg_no (unat a)"
  "pg_round_down (pg_round_down a) = pg_round_down a"
proof -
  show "pg_ofs (unat (pg_round_down a)) = 0" by (simp add: unat_pg_round_down pg_ofs_def)
  show n: "pg_no (unat (pg_round_down a)) = pg_no (unat a)" by (simp add: unat_pg_round_down pg_no_def)
  show "pg_round_down (pg_round_down a) = pg_round_down a" unfolding pg_round_down_eq by (rule n)
qed

lemma pg_round_down_user: "is_user_vaddr a \<Longrightarrow> is_user_vaddr (pg_round_down a)"
  using pg_split [of "unat a"]
  by (simp add: is_user_vaddr_def is_kernel_vaddr_def word_le_nat_alt unat_pg_round_down)

section \<open>The table as a map\<close>

text \<open>The user address of the page at an address of the heap.\<close>

definition heap_va :: "vmem \<Rightarrow> addr \<Rightarrow> u64" where
  "heap_va s p = (case pages s p of None \<Rightarrow> 0 | Some pg \<Rightarrow> page_va pg)"

definition spt_map :: "vmem \<Rightarrow> addr htable \<Rightarrow> (u64 \<rightharpoonup> addr) \<Rightarrow> bool" where
  "spt_map s h m \<longleftrightarrow> table_map (heap_va s) va_hash h m \<and>
     (\<forall>p\<in>set (hash_elems h). p \<noteq> NULL \<and> p < next_obj s \<and> pages s p \<noteq> None)"

lemma spt_funs: "spt_hash_func key = (\<lambda>e. va_hash (key e))" "spt_hash_less_func key = (\<lambda>a b. key a < key b)"
  by (auto simp: fun_eq_iff spt_hash_func_def spt_hash_less_func_def)

lemma table_map_cong:
  assumes "\<forall>e\<in>set (hash_elems h). key' e = key e"
  shows "table_map key' g h m = table_map key g h m"
proof -
  have e: "e \<in> set (hash_elems h)" if "i < length (buckets h)" "e \<in> set (buckets h ! i)" for i e
    using that by (auto simp: hash_elems_def)
  have "placed (\<lambda>e. g (key' e)) h = placed (\<lambda>e. g (key e)) h"
    using assms e unfolding placed_def find_bucket_def by (metis (no_types, lifting))
  moreover have "no_equals (\<lambda>a b. key' a < key' b) (hash_elems h) = no_equals (\<lambda>a b. key a < key b) (hash_elems h)"
    using assms unfolding no_equals_def equiv_by_def by (metis (no_types, lifting))
  moreover have "represents key' (set (hash_elems h)) m = represents key (set (hash_elems h)) m"
    using assms unfolding represents_def by (metis (no_types, lifting))
  ultimately show ?thesis by (simp add: table_map_def hash_wf_def)
qed

lemma spt_find_map:
  assumes "spt_map s h m"
  shows "spt_find_page s h uva = (case m (pg_round_down uva) of None \<Rightarrow> NULL | Some p \<Rightarrow> p)"
proof -
  let ?key = "spt_key s (pg_round_down uva)"
  have "\<forall>e\<in>set (hash_elems h). ?key e = heap_va s e"
    using assms by (auto simp: spt_map_def spt_key_def heap_va_def)
  then have "table_map ?key va_hash h m" using assms table_map_cong [of h ?key "heap_va s"] by (simp add: spt_map_def)
  from table_map_find [OF this, of NULL] show ?thesis
    by (simp add: spt_find_page_def spt_funs Let_def spt_key_def cong: option.case_cong)
qed

lemma spt_map_elems:
  assumes "spt_map s h m" "m k = Some p"
  shows "p \<noteq> NULL" "p < next_obj s" "\<exists>pg. pages s p = Some pg \<and> page_va pg = k"
  using assms by (auto simp: spt_map_def table_map_def represents_def heap_va_def)

lemma spt_map_pages:
  assumes "spt_map s h m" "\<forall>p. p < next_obj s \<longrightarrow> map_option page_va (pages s' p) = map_option page_va (pages s p)"
    and "next_obj s \<le> next_obj s'"
  shows "spt_map s' h m"
proof -
  have e: "p < next_obj s \<and> p \<noteq> NULL \<and> pages s p \<noteq> None" if "p \<in> set (hash_elems h)" for p
    using assms(1) that by (auto simp: spt_map_def)
  have "heap_va s' p = heap_va s p \<and> pages s' p \<noteq> None" if "p \<in> set (hash_elems h)" for p
  proof -
    have "map_option page_va (pages s' p) = map_option page_va (pages s p)" using assms(2) e [OF that] by blast
    then show ?thesis using e [OF that] by (auto simp: heap_va_def split: option.splits)
  qed
  then show ?thesis using assms(1,3) table_map_cong [of h "heap_va s'" "heap_va s"] e by (fastforce simp: spt_map_def)
qed

lemma spt_insert_map:
  assumes t: "spt_map s (spt s) m" and p: "p \<noteq> NULL" "p < next_obj s" "pages s p = Some pg" "m (page_va pg) = None"
  shows "\<exists>h' ok. spt_insert_page p s = Some ((fst (heap_ok s))\<lparr>spt := h'\<rparr>, True) \<and>
    spt_map ((fst (heap_ok s))\<lparr>spt := h'\<rparr>) h' (m(page_va pg \<mapsto> p))"
proof -
  let ?key = "spt_key s 0"
  let ?ok = "snd (heap_ok s)"
  have k: "?key e = heap_va s e" if "e \<noteq> NULL" for e using that by (simp add: spt_key_def heap_va_def)
  have kp: "?key p = page_va pg" using p by (simp add: spt_key_def)
  have "table_map ?key va_hash (spt s) m"
    using t table_map_cong [of "spt s" ?key "heap_va s"] k by (auto simp: spt_map_def)
  from table_map_step [OF this, of ?ok "Insert p"] obtain h' where
    h': "hash_insert (\<lambda>e. va_hash (?key e)) (\<lambda>a b. ?key a < ?key b) ?ok (spt s) p = Some (h', None)"
      "table_map ?key va_hash h' (m(page_va pg \<mapsto> p))"
    using p(4) kp by auto
  have el: "e \<noteq> NULL \<and> e < next_obj s \<and> pages s e \<noteq> None" if e: "e \<in> set (hash_elems h')" for e
  proof -
    have "(m(page_va pg \<mapsto> p)) (?key e) = Some e" using h'(2) e by (auto simp: table_map_def represents_def)
    then have "e = p \<or> m (?key e) = Some e" by (auto split: if_splits)
    then show ?thesis using p spt_map_elems [OF t, of "?key e" e] by auto
  qed
  have hk: "fst (heap_ok s) = s\<lparr>vheap := vheap (fst (heap_ok s))\<rparr>" by (simp add: heap_ok_def split: list.split)
  have "table_map (heap_va s) va_hash h' (m(page_va pg \<mapsto> p))"
    using h'(2) table_map_cong [of h' ?key "heap_va s"] k el by auto
  moreover have "heap_va (s\<lparr>vheap := v, spt := h'\<rparr>) = heap_va s" for v by (simp add: heap_va_def fun_eq_iff)
  ultimately have "spt_map ((fst (heap_ok s))\<lparr>spt := h'\<rparr>) h' (m(page_va pg \<mapsto> p))"
    using el by (subst hk) (simp add: spt_map_def)
  moreover have "spt_insert_page p s = Some ((fst (heap_ok s))\<lparr>spt := h'\<rparr>, True)"
  proof -
    have "spt (fst (heap_ok s)) = spt s" by (subst hk) simp
    then show ?thesis using h'(1) by (simp add: spt_insert_page_def spt_funs case_prod_beta)
  qed
  ultimately show ?thesis by blast
qed

section \<open>Allocating a page\<close>

text \<open>Objects are allocated upwards.\<close>

definition heap_fresh :: "vmem \<Rightarrow> bool" where
  "heap_fresh s \<longleftrightarrow> 0 < next_obj s \<and> (\<forall>a\<ge>next_obj s. pages s a = None \<and> frames s a = None \<and> infos s a = None)"

text \<open>The page that stands for one not yet brought in.\<close>

definition pending :: "u32 \<Rightarrow> u64 \<Rightarrow> bool \<Rightarrow> vm_initializer \<Rightarrow> addr \<Rightarrow> page" where
  "pending ty uva wr ini ax = blank_page\<lparr>operations := uninit_ops, page_va := uva, writable := wr, init_fn := ini,
     page_type := ty, aux_ptr := ax, init_kind := (if VM_TYPE ty = VM_ANON then anon_init else file_init)\<rparr>"

lemma alloc_page_cases:
  assumes t: "spt_map s (spt s) m" and f: "heap_fresh s" and ty: "VM_TYPE ty = VM_ANON \<or> VM_TYPE ty = VM_FILE"
    and al: "pg_round_down upage = upage"
  shows "\<exists>s' ok. vm_alloc_page_with_initializer ty upage wr ini ax s = Some (s', ok) \<and> heap_fresh s' \<and>
    (ok \<longleftrightarrow> m upage = None \<and> snd (heap_ok s)) \<and> (vheap s = [] \<longrightarrow> vheap s' = []) \<and>
    spt_map s' (spt s') (if ok then m(upage \<mapsto> next_obj s) else m) \<and>
    pages s' = (if ok then (pages s)(next_obj s \<mapsto> pending ty upage wr ini ax) else pages s) \<and>
    s' = s\<lparr>spt := spt s', vheap := vheap s', pages := pages s', next_obj := next_obj s'\<rparr>"
proof -
  have n: "VM_TYPE ty \<noteq> VM_UNINIT" using ty by auto
  have fi: "spt_find_page s (spt s) upage = (case m upage of None \<Rightarrow> NULL | Some p \<Rightarrow> p)"
    using spt_find_map [OF t, of upage] al by simp
  have hk: "fst (heap_ok s) = s\<lparr>vheap := vheap (fst (heap_ok s))\<rparr>" by (simp add: heap_ok_def split: list.split)
  have hv: "vheap s = [] \<Longrightarrow> vheap (fst (heap_ok s)) = []" for s by (simp add: heap_ok_def)
  obtain v where v: "fst (heap_ok s) = s\<lparr>vheap := v\<rparr>" using hk by blast
  have v0: "vheap s = [] \<Longrightarrow> v = []" using hv [of s] unfolding v by simp
  show ?thesis
  proof (cases "m upage")
    case (Some p)
    then have "p \<noteq> NULL" using spt_map_elems [OF t] by blast
    then have "vm_alloc_page_with_initializer ty upage wr ini ax s = Some (s, False)"
      using n fi Some by (simp add: vm_alloc_page_with_initializer_def)
    then show ?thesis using t f Some by auto
  next
    case None
    show ?thesis
    proof (cases "snd (heap_ok s)")
      case False
      then have c: "calloc s = (s\<lparr>vheap := v\<rparr>, NULL)" using v by (cases "heap_ok s") (simp add: calloc_def)
      have "vm_alloc_page_with_initializer ty upage wr ini ax s = Some (s\<lparr>vheap := v\<rparr>, False)"
        using n fi None c by (simp add: vm_alloc_page_with_initializer_def)
      moreover have "spt_map (s\<lparr>vheap := v\<rparr>) (spt s) m" by (rule spt_map_pages [OF t]) simp_all
      ultimately show ?thesis using f False v0 by (auto simp: heap_fresh_def)
    next
      case True
      let ?p = "next_obj s"
      let ?pg = "pending ty upage wr ini ax"
      define s1 where "s1 = s\<lparr>vheap := v, next_obj := Suc ?p, pages := (pages s)(?p \<mapsto> ?pg)\<rparr>"
      have p: "?p \<noteq> NULL" "pages s ?p = None" using f by (auto simp: heap_fresh_def)
      have c: "calloc s = (s\<lparr>vheap := v, next_obj := Suc ?p\<rparr>, ?p)"
        using v True by (cases "heap_ok s") (simp add: calloc_def)
      have run: "vm_alloc_page_with_initializer ty upage wr ini ax s = spt_insert_page ?p s1"
        using n fi None c p(1) ty
        by (auto simp: vm_alloc_page_with_initializer_def uninit_new_def upd_page_def s1_def pending_def blank_page_def)
      have t1: "spt_map s1 (spt s1) m"
        using spt_map_pages [OF t, of s1] by (simp add: s1_def)
      have "\<exists>h' ok. spt_insert_page ?p s1 = Some ((fst (heap_ok s1))\<lparr>spt := h'\<rparr>, True) \<and>
          spt_map ((fst (heap_ok s1))\<lparr>spt := h'\<rparr>) h' (m(page_va ?pg \<mapsto> ?p))"
        by (rule spt_insert_map [OF t1 p(1)]) (use None in \<open>simp_all add: s1_def pending_def\<close>)
      then obtain h' where h': "spt_insert_page ?p s1 = Some ((fst (heap_ok s1))\<lparr>spt := h'\<rparr>, True)"
        "spt_map ((fst (heap_ok s1))\<lparr>spt := h'\<rparr>) h' (m(upage \<mapsto> ?p))" by (auto simp: pending_def)
      have "fst (heap_ok s1) = s1\<lparr>vheap := vheap (fst (heap_ok s1))\<rparr>" by (simp add: heap_ok_def split: list.split)
      then obtain v1 where v1: "fst (heap_ok s1) = s1\<lparr>vheap := v1\<rparr>" by blast
      have v10: "vheap s = [] \<Longrightarrow> v1 = []" using hv [of s1] v0 unfolding v1 by (simp add: s1_def)
      have fr: "heap_fresh (s1\<lparr>vheap := v1, spt := h'\<rparr>)" using f by (simp add: heap_fresh_def s1_def)
      show ?thesis
        unfolding run h'(1) v1 using h'(2) fr None True v10 unfolding v1 by (auto simp: s1_def)
    qed
  qed
qed

section \<open>What the table promises\<close>

lemma spt_init_map: "snd (heap_ok s) \<Longrightarrow> \<exists>s'. supplemental_page_table_init s = Some s' \<and> spt_map s' (spt s') Map.empty"
proof -
  assume ok: "snd (heap_ok s)"
  define s1 where "s1 = fst (heap_ok s)"
  obtain h where h: "hash_init True = Some h" "table_map (heap_va s1) va_hash h Map.empty" using table_map_init by blast
  then have "\<forall>k e. Map.empty k = Some e \<longleftrightarrow> e \<in> set (hash_elems h) \<and> heap_va s1 e = k"
    by (simp add: table_map_def represents_def)
  then have "e \<notin> set (hash_elems h)" for e by (metis option.distinct(1))
  then have e: "hash_elems h = []" by (cases "hash_elems h") auto
  have "supplemental_page_table_init s = Some (s1\<lparr>spt := h\<rparr>)"
    using ok h(1) unfolding s1_def by (cases "heap_ok s") (simp add: supplemental_page_table_init_def)
  moreover have "spt_map (s1\<lparr>spt := h\<rparr>) h Map.empty"
    using h(2) e table_map_cong [of h "heap_va (s1\<lparr>spt := h\<rparr>)" "heap_va s1"] by (simp add: spt_map_def)
  ultimately show ?thesis by auto
qed

text \<open>
  C29: Allocating a page enters a pending page under its address, exactly when no page is there and
  memory is available; the result says which. Afterwards a search with any address of the page
  finds it, and a search elsewhere finds what it found before.
\<close>

theorem pending_page_found:
  assumes "spt_map s (spt s) m" "heap_fresh s" "VM_TYPE ty = VM_ANON \<or> VM_TYPE ty = VM_FILE"
    and "pg_round_down upage = upage"
  shows "\<exists>s' ok m'. vm_alloc_page_with_initializer ty upage wr ini ax s = Some (s', ok) \<and>
    spt_map s' (spt s') m' \<and> heap_fresh s' \<and>
    (ok \<longleftrightarrow> spt_find_page s (spt s) upage = NULL \<and> snd (heap_ok s)) \<and>
    (ok \<longrightarrow> pages s' (next_obj s) = Some (pending ty upage wr ini ax)) \<and>
    (\<forall>uva. spt_find_page s' (spt s') uva =
       (if ok \<and> pg_round_down uva = upage then next_obj s else spt_find_page s (spt s) uva))"
proof -
  obtain s' ok where r: "vm_alloc_page_with_initializer ty upage wr ini ax s = Some (s', ok)" "heap_fresh s'"
    "ok \<longleftrightarrow> m upage = None \<and> snd (heap_ok s)" "spt_map s' (spt s') (if ok then m(upage \<mapsto> next_obj s) else m)"
    "pages s' = (if ok then (pages s)(next_obj s \<mapsto> pending ty upage wr ini ax) else pages s)"
    using alloc_page_cases [OF assms, of wr ini ax] by blast
  have "spt_find_page s (spt s) upage = NULL \<longleftrightarrow> m upage = None"
    using spt_find_map [OF assms(1), of upage] spt_map_elems(1) [OF assms(1), of upage] assms(4)
    by (cases "m upage") auto
  then show ?thesis
    using r spt_find_map [OF assms(1)] spt_find_map [OF r(4)]
    by (intro exI [of _ s'] exI [of _ ok] exI [of _ "if ok then m(upage \<mapsto> next_obj s) else m"]) auto
qed

text \<open>A process with an empty table and room in memory.\<close>

definition sample_info :: file_info where
  "sample_info = \<lparr>fi_file = 7, fi_ofs = 0, read_bytes = 600, page_read_bytes = 600, page_zero_bytes = 3496\<rparr>"

definition sample_vmem :: vmem where
  "sample_vmem = \<lparr>mm = sample_mmu, fsys = sample_fs\<lparr>files := [7 \<mapsto> \<lparr>f_inode = 1, pos = 0, deny_write = False\<rparr>]\<rparr>,
     swap_disk = sample_disk, swap_bitmap = \<lparr>bit_cnt = 1, bits = [0]\<rparr>, frame_list = [], frames = Map.empty,
     pages = Map.empty, infos = [1 \<mapsto> sample_info], spt = the (hash_init True), cur_pml4 = 0x8004001000, vheap = [],
     next_obj = 2, no_result = True\<rparr>"

lemma sample_spt:
  "spt_map sample_vmem (spt sample_vmem) Map.empty" "heap_fresh sample_vmem"
proof -
  obtain h where h: "hash_init True = Some h" "table_map (heap_va sample_vmem) va_hash h Map.empty" using table_map_init by blast
  then have "\<forall>k e. Map.empty k = Some e \<longleftrightarrow> e \<in> set (hash_elems h) \<and> heap_va sample_vmem e = k"
    by (simp add: table_map_def represents_def)
  then have "e \<notin> set (hash_elems h)" for e by (metis option.distinct(1))
  then show "spt_map sample_vmem (spt sample_vmem) Map.empty" using h by (simp add: spt_map_def sample_vmem_def)
  show "heap_fresh sample_vmem" by (simp add: heap_fresh_def sample_vmem_def)
qed

theorem pending_page_found_witness:
  "\<exists>s ok. vm_alloc_page_with_initializer VM_ANON 0x400000 True lazy_load_init 1 sample_vmem = Some (s, ok) \<and>
     (ok \<longleftrightarrow> spt_find_page sample_vmem (spt sample_vmem) 0x400000 = NULL) \<and>
     spt_find_page s (spt s) 0x400123 = (if ok then next_obj sample_vmem else spt_find_page sample_vmem (spt sample_vmem) 0x400123)"
proof -
  have "VM_TYPE VM_ANON = VM_ANON" "pg_round_down 0x400000 = 0x400000" "pg_round_down 0x400123 = 0x400000"
    by (simp_all add: VM_TYPE_def pg_round_down_def)
  then show ?thesis
    using pending_page_found [OF sample_spt, of VM_ANON "0x400000" True lazy_load_init 1]
    by (auto simp: heap_ok_def sample_vmem_def)
qed

end
