(* ===== verification/VmLoad.thy ===== *)
theory VmLoad
  imports VmTable
begin

text \<open>
  Demand loading: a fault on a pending page of a program brings in its part of the file.
\<close>

section \<open>Reading a segment\<close>

text \<open>The part of a file that a page is to hold, filled up with zeros.\<close>

definition segment_bytes :: "file_info \<Rightarrow> u8 list \<Rightarrow> u8 list" where
  "segment_bytes info fb =
     take (page_read_bytes info) (drop (nat (fi_ofs info)) fb) @ replicate (page_zero_bytes info) 0"

lemma store_then_zero:
  "memset_loop (store_bytes m a bs) (a + length bs) 0 z = store_bytes m a (bs @ replicate z 0)"
  by (rule ext) (auto simp: memset_loop_spec store_bytes_def nth_append)

lemma file_read_run:
  assumes "files s f = Some fl" "inodes s (f_inode fl) = Some ino" "extent_ok (disk s) (data ino)" "0 \<le> pos fl" "heap s = []"
  shows "\<exists>s'. file_read f sz s = Some (s', take (nat sz) (drop (nat (pos fl)) (file_bytes (disk s) (data ino)))) \<and>
    inodes s' = inodes s \<and> sectors (disk s') = sectors (disk s)"
proof -
  obtain s1 m where r: "inode_read_loop ino sz (pos fl) False [] s =
      Some (s1, [] @ take m (drop (nat (pos fl)) (file_bytes (disk s) (data ino))))" "quiet s s1" "m = nat sz"
    using inode_read_loop_spec [OF assms(3,4), of sz False "[]"] assms(5) by blast
  then have "inode_read_at (f_inode fl) sz (pos fl) s =
      Some (s1, take (nat sz) (drop (nat (pos fl)) (file_bytes (disk s) (data ino))))"
    using assms(2) by (simp add: inode_read_at_def)
  then show ?thesis using assms(1) quiet_frame [OF r(2)] by (simp add: file_read_def upd_file_def)
qed

lemma lazy_load_run:
  assumes "infos s ax = Some info" "pages s p = Some pg" "frames s (page_frame pg) = Some fr" "frame_kva fr \<noteq> NULL"
    and "files (fsys s) (fi_file info) = Some fl" "inodes (fsys s) (f_inode fl) = Some ino"
    and "extent_ok (disk (fsys s)) (data ino)" "0 \<le> fi_ofs info" "heap (fsys s) = []"
    and "nat (fi_ofs info) + page_read_bytes info \<le> length (file_bytes (disk (fsys s)) (data ino))"
  shows "\<exists>fs. lazy_load_segment p ax s =
      Some (set_mem (store_bytes (mem_of s) (frame_kva fr) (segment_bytes info (file_bytes (disk (fsys s)) (data ino))))
              (s\<lparr>fsys := fs\<rparr>), True) \<and>
    inodes fs = inodes (fsys s) \<and> sectors (disk fs) = sectors (disk (fsys s))"
proof -
  let ?fl = "fl\<lparr>pos := fi_ofs info\<rparr>"
  let ?s1 = "(fsys s)\<lparr>files := (files (fsys s))(fi_file info \<mapsto> ?fl)\<rparr>"
  let ?bs = "take (page_read_bytes info) (drop (nat (fi_ofs info)) (file_bytes (disk (fsys s)) (data ino)))"
  have seek: "file_seek (fi_file info) (fi_ofs info) (fsys s) = Some ?s1"
    using assms(5,8) by (simp add: file_seek_def upd_file_def)
  obtain fs where r: "file_read (fi_file info) (int (page_read_bytes info)) ?s1 = Some (fs, ?bs)"
    "inodes fs = inodes (fsys s)" "sectors (disk fs) = sectors (disk (fsys s))"
    using file_read_run [of ?s1 "fi_file info" ?fl ino "int (page_read_bytes info)"] assms(6-9) by auto
  have l: "length ?bs = page_read_bytes info" using assms(10) by simp
  have ms: "memset (store_bytes (mem_of s) (frame_kva fr) ?bs) (frame_kva fr + page_read_bytes info) 0 (page_zero_bytes info) =
      Some (store_bytes (mem_of s) (frame_kva fr) (?bs @ replicate (page_zero_bytes info) 0), frame_kva fr + page_read_bytes info)"
    using assms(4) store_then_zero [of "mem_of s" "frame_kva fr" ?bs "page_zero_bytes info"] l by (simp add: memset_def)
  show ?thesis
    using assms(1-3) seek r ms l
    by (intro exI [of _ fs]) (simp add: lazy_load_segment_def set_mem_def set_ram_def segment_bytes_def)
qed

section \<open>Claiming a page\<close>

definition user_pages_mapped :: "palloc \<Rightarrow> bool" where
  "user_pages_mapped r \<longleftrightarrow> pool_pages (user_pool r) \<subseteq> {unat KERN_BASE div PGSIZE..<2 ^ 52}"

lemma get_user_page:
  assumes "mem_ok r" "user_pages_mapped r" "\<not> pool_pages (user_pool r) \<subseteq> in_use r"
  obtains r' kva where "palloc_get_page PAL_USER r = Some (r', kva)" "kva \<noteq> NULL" "mem_ok r'" "user_pages_mapped r'"
    "table_at r' kva" "pg_no kva \<notin> in_use r" "in_use r' = insert (pg_no kva) (in_use r)" "memory r' = memory r"
    "kernel_pool r' = kernel_pool r" "pg_no kva \<notin> pool_pages (kernel_pool r)"
proof -
  have ok: "palloc_ok r" using assms(1) by (simp add: mem_ok_def)
  have z: "get_pool (PAL_USER AND PAL_USER \<noteq> 0) r = user_pool r" by (simp add: get_pool_def)
  obtain i where i: "i < bit_cnt (used_map (user_pool r))" "pg_no (base (user_pool r)) + i \<notin> in_use r"
  proof -
    obtain n where n: "n \<in> pool_pages (user_pool r)" "n \<notin> in_use r" using assms(3) by blast
    then have "pg_no (base (user_pool r)) + (n - pg_no (base (user_pool r))) = n"
      "n - pg_no (base (user_pool r)) < bit_cnt (used_map (user_pool r))" by (auto simp: pool_pages_def)
    then show thesis using n(2) that by metis
  qed
  have "i \<notin> bm.used (used_map (user_pool r))" using i(2) by (auto simp: in_use_def pool_used_def)
  then have g1: "group_at (bools (used_map (user_pool r))) i 1 False" using i(1) by (simp add: bm.used_def group_at_def)
  obtain r' kva where run: "palloc_get_multiple PAL_USER 1 r = Some (r', kva)"
    using get_multiple_returns [OF ok, of PAL_USER 1] by (cases "palloc_get_multiple PAL_USER 1 r") auto
  note g = get_multiple_spec [OF ok run, unfolded z]
  have nn: "kva \<noteq> NULL"
  proof
    assume "kva = NULL"
    then have "\<not> group_at (bools (used_map (user_pool r))) i 1 False" using g by simp
    then show False using g1 by blast
  qed
  have k: "pg_ofs kva = 0" "pg_no kva \<in> pool_pages (user_pool r)" "pg_no kva \<notin> in_use r"
    "in_use r' = insert (pg_no kva) (in_use r)" "palloc_ok r'" "memory r' = memory r" "kernel_pool r' = kernel_pool r"
    using g nn by (auto simp: get_pool_def)
  obtain bm where "bit_cnt bm = bit_cnt (used_map (user_pool r))" "user_pool r' = (user_pool r)\<lparr>used_map := bm\<rparr>"
    using g nn by (auto simp: get_pool_def)
  then have p: "pool_pages (user_pool r') = pool_pages (user_pool r)" by (simp add: pool_pages_def)
  have "unat KERN_BASE div PGSIZE \<le> pg_no kva" "pg_no kva < 2 ^ 52"
    using k(2) assms(2) by (auto simp: user_pages_mapped_def)
  then have "unat KERN_BASE \<le> kva" "kva < 2 ^ 64" using pg_split [of kva] k(1) by (simp_all add: unat_KERN_BASE)
  then have "table_at r' kva" using k by (simp add: table_at_def)
  moreover have "pg_no kva \<notin> pool_pages (kernel_pool r)" using k(2) ok by (auto simp: palloc_ok_def)
  ultimately show thesis
    using that [of r' kva] run nn k p assms(1,2) by (simp add: palloc_get_page_def mem_ok_def user_pages_mapped_def)
qed

text \<open>Writing to pages that hold no table leaves the address space as it is.\<close>

lemma space_write:
  assumes "space_ok pml4 m" "same_on (- P) (ram m) r'" "P \<inter> tabs (ram m) 3 pml4 = {}"
    and "in_use r' = in_use (ram m)" "mem_ok r'"
  shows "space_ok pml4 (m\<lparr>ram := r'\<rparr>)" and "page_entry pml4 n (m\<lparr>ram := r'\<rparr>) = page_entry pml4 n m"
proof -
  have t: "tree_ok (ram m) 3 pml4" using assms(1) by (simp add: space_ok_def)
  have "same_on (tabs (ram m) 3 pml4) (ram m) r'" by (rule same_on_subset [OF assms(2)]) (use assms(3) in blast)
  note keep = tree_same [OF t this]
  show "space_ok pml4 (m\<lparr>ram := r'\<rparr>)" using keep(2) tabs_in_use [OF t] assms(4,5) by (simp add: space_ok_def)
  show "page_entry pml4 n (m\<lparr>ram := r'\<rparr>) = page_entry pml4 n m" using keep(3) [OF path_props] by (simp add: page_entry_def)
qed

text \<open>Getting a frame while the user pool has a free page.\<close>

lemma get_frame_run:
  assumes "mem_ok (ram (mm s))" "user_pages_mapped (ram (mm s))" "\<not> pool_pages (user_pool (ram (mm s))) \<subseteq> in_use (ram (mm s))"
    and "vheap s = []" "heap_fresh s"
  obtains r' kva where "palloc_get_page PAL_USER (ram (mm s)) = Some (r', kva)" "table_at r' kva" "mem_ok r'"
    "pg_no kva \<notin> in_use (ram (mm s))" "in_use r' = insert (pg_no kva) (in_use (ram (mm s)))"
    "memory r' = memory (ram (mm s))" "kernel_pool r' = kernel_pool (ram (mm s))"
    "pg_no kva \<notin> pool_pages (kernel_pool (ram (mm s)))"
    "vm_get_frame s = Some ((set_ram r' s)\<lparr>next_obj := Suc (next_obj s), frame_list := frame_list s @ [next_obj s],
       frames := (frames s)(next_obj s \<mapsto> \<lparr>frame_kva = kva, frame_page = NULL\<rparr>)\<rparr>, next_obj s)"
proof -
  obtain r' kva where g: "palloc_get_page PAL_USER (ram (mm s)) = Some (r', kva)" "kva \<noteq> NULL" "mem_ok r'"
    "table_at r' kva" "pg_no kva \<notin> in_use (ram (mm s))" "in_use r' = insert (pg_no kva) (in_use (ram (mm s)))"
    "memory r' = memory (ram (mm s))" "kernel_pool r' = kernel_pool (ram (mm s))"
    "pg_no kva \<notin> pool_pages (kernel_pool (ram (mm s)))"
    using get_user_page [OF assms(1-3)] by metis
  have "0 < next_obj s" using assms(5) by (simp add: heap_fresh_def)
  then have "vm_get_frame s = Some ((set_ram r' s)\<lparr>next_obj := Suc (next_obj s), frame_list := frame_list s @ [next_obj s],
       frames := (frames s)(next_obj s \<mapsto> \<lparr>frame_kva = kva, frame_page = NULL\<rparr>)\<rparr>, next_obj s)"
    using g(1,2) assms(4) by (simp add: vm_get_frame_def calloc_def heap_ok_def set_ram_def upd_frame_def)
  then show thesis using that g by blast
qed

text \<open>
  Claiming a page while there is room: the new frame, its mapping, and what the page's own function
  then starts from. Every page in use that holds no table keeps its contents.
\<close>

lemma claim_frame_run:
  fixes pg :: page
  assumes free: "mem_ok (ram (mm s))" "user_pages_mapped (ram (mm s))"
      "\<not> pool_pages (user_pool (ram (mm s))) \<subseteq> in_use (ram (mm s))" "3 \<le> card (free_pages (ram (mm s)))"
      "vheap s = []" "heap_fresh s"
    and page: "pages s p = Some pg"
    and space: "space_ok (cur_pml4 s) (mm s)" "cur_pml4 s \<noteq> base_pml4 (mm s)"
      "is_user_vaddr (page_va pg)" "pg_ofs (unat (page_va pg)) = 0"
  shows "\<exists>m2 kva w. vm_do_claim_page p s = swap_in p (s\<lparr>next_obj := Suc (next_obj s), frame_list := frame_list s @ [next_obj s],
      frames := (frames s)(next_obj s \<mapsto> \<lparr>frame_kva = kva, frame_page = p\<rparr>), pages := (pages s)(p \<mapsto> pg\<lparr>page_frame := next_obj s\<rparr>), mm := m2\<rparr>) \<and>
    pg_ofs kva = 0 \<and> kva \<noteq> NULL \<and> unat KERN_BASE \<le> kva \<and> kva < 2 ^ 64 \<and> pg_no kva \<notin> in_use (ram (mm s)) \<and>
    space_ok (cur_pml4 s) m2 \<and> pg_no kva \<notin> tabs (ram m2) 3 (cur_pml4 s) \<and>
    insert (pg_no kva) (in_use (ram (mm s))) \<subseteq> in_use (ram m2) \<and>
    tabs (ram m2) 3 (cur_pml4 s) \<inter> in_use (ram (mm s)) \<subseteq> tabs (ram (mm s)) 3 (cur_pml4 s) \<and>
    same_on (in_use (ram (mm s)) - tabs (ram (mm s)) 3 (cur_pml4 s)) (ram (mm s)) (ram m2) \<and>
    frame_of w 0 = kva \<and> w AND PTE_W = (if writable pg then PTE_W else 0) \<and>
    (\<forall>k<512 ^ 4. page_entry (cur_pml4 s) k m2 =
       (if k = pg_no (unat (page_va pg)) then w else page_entry (cur_pml4 s) k (mm s)))"
proof -
  obtain r1 kva where g: "palloc_get_page PAL_USER (ram (mm s)) = Some (r1, kva)" "table_at r1 kva" "mem_ok r1"
    "pg_no kva \<notin> in_use (ram (mm s))" "in_use r1 = insert (pg_no kva) (in_use (ram (mm s)))"
    "memory r1 = memory (ram (mm s))" "kernel_pool r1 = kernel_pool (ram (mm s))"
    "pg_no kva \<notin> pool_pages (kernel_pool (ram (mm s)))"
    "vm_get_frame s = Some ((set_ram r1 s)\<lparr>next_obj := Suc (next_obj s), frame_list := frame_list s @ [next_obj s],
       frames := (frames s)(next_obj s \<mapsto> \<lparr>frame_kva = kva, frame_page = NULL\<rparr>)\<rparr>, next_obj s)"
    using get_frame_run [OF free(1-3,5,6)] by blast
  have kva: "pg_ofs kva = 0" "unat KERN_BASE \<le> kva" "kva < 2 ^ 64" "kva \<noteq> NULL"
    using g(2) table_nonnull [OF g(2)] by (simp_all add: table_at_def)
  let ?f = "next_obj s"
  let ?pg = "pg\<lparr>page_frame := ?f\<rparr>"
  let ?fr = "\<lparr>frame_kva = kva, frame_page = p\<rparr>"
  define m1 where "m1 = (mm s)\<lparr>ram := r1\<rparr>"
  have t0: "tree_ok (ram (mm s)) 3 (cur_pml4 s)" using space(1) by (simp add: space_ok_def)
  have tk: "pg_no kva \<notin> tabs (ram (mm s)) 3 (cur_pml4 s)"
    using tabs_in_use [OF t0] space(1) g(4) by (auto simp: space_ok_def)
  have "same_on (tabs (ram (mm s)) 3 (cur_pml4 s)) (ram (mm s)) r1" using g(6) by (simp add: same_on_def)
  note keep1 = tree_same [OF t0 this]
  have sp1: "space_ok (cur_pml4 s) m1" "tabs r1 3 (cur_pml4 s) = tabs (ram (mm s)) 3 (cur_pml4 s)"
    and pe1: "page_entry (cur_pml4 s) k m1 = page_entry (cur_pml4 s) k (mm s)" for k
    using keep1 tabs_in_use [OF t0] g(3,5) path_props [of k] by (auto simp: space_ok_def m1_def page_entry_def)
  have fp: "free_pages (ram m1) = free_pages (ram (mm s))" using g(5,7,8) by (auto simp: free_pages_def m1_def)
  obtain m2 ok w where st: "pml4_set_page (cur_pml4 s) (page_va pg) kva (writable pg) m1 = Some (m2, ok)" "space_ok (cur_pml4 s) m2"
    "ok \<or> in_use (ram m2) = in_use (ram m1) \<and> card (free_pages (ram m1)) < 3"
    "tabs (ram m2) 3 (cur_pml4 s) \<inter> in_use (ram m1) \<subseteq> tabs (ram m1) 3 (cur_pml4 s)" "frame_of w 0 = kva"
    "\<forall>k<512 ^ 4. page_entry (cur_pml4 s) k m2 = (if ok \<and> k = pg_no (unat (page_va pg)) then w else page_entry (cur_pml4 s) k m1)"
    "in_use (ram m1) \<subseteq> in_use (ram m2)" "w AND PTE_W = (if writable pg then PTE_W else 0)"
    "same_on (in_use (ram m1) - on_path (ram m1) (cur_pml4 s) (path (pg_no (unat (page_va pg))))) (ram m1) (ram m2)"
    using set_page_run [OF sp1(1) space(3,4) _ kva(1-3), of "writable pg"] space(2) unfolding m1_def by auto
  have ok: "ok" using st(3) free(4) fp by auto
  have tk2: "pg_no kva \<notin> tabs (ram m2) 3 (cur_pml4 s)"
    using st(4) tk sp1(2) g(5) by (auto simp: m1_def)
  have "on_path (ram m1) (cur_pml4 s) (path (pg_no (unat (page_va pg)))) \<subseteq> tabs (ram (mm s)) 3 (cur_pml4 s)"
    using on_path_tabs [OF path_props, of "ram m1" "cur_pml4 s" "pg_no (unat (page_va pg))"] sp1 by (auto simp: space_ok_def m1_def)
  moreover have "in_use (ram (mm s)) \<subseteq> in_use (ram m1)" using g(5) by (auto simp: m1_def)
  ultimately have "same_on (in_use (ram (mm s)) - tabs (ram (mm s)) 3 (cur_pml4 s)) (ram m1) (ram m2)"
    by (intro same_on_subset [OF st(9)]) blast
  then have so: "same_on (in_use (ram (mm s)) - tabs (ram (mm s)) 3 (cur_pml4 s)) (ram (mm s)) (ram m2)"
    using g(6) by (simp add: same_on_def m1_def)
  have get: "vm_get_frame s = Some (s\<lparr>mm := m1, next_obj := Suc ?f, frame_list := frame_list s @ [?f],
      frames := (frames s)(?f \<mapsto> \<lparr>frame_kva = kva, frame_page = NULL\<rparr>)\<rparr>, ?f)"
    unfolding g(9) by (simp add: set_ram_def m1_def)
  have "vm_do_claim_page p s = swap_in p (s\<lparr>next_obj := Suc ?f, frame_list := frame_list s @ [?f],
      frames := (frames s)(?f \<mapsto> ?fr), pages := (pages s)(p \<mapsto> ?pg), mm := m2\<rparr>)"
    unfolding vm_do_claim_page_def get using page(1) st(1) ok by (simp add: upd_frame_def upd_page_def)
  then show ?thesis
    using kva g(4,5) st(2,4,5,6,7,8) ok pe1 tk2 so sp1(2)
    by (intro exI [of _ m2] exI [of _ kva] exI [of _ w]) (auto simp: m1_def)
qed

text \<open>The state after a pending page of a program has been claimed into the frame at \<open>f\<close>.\<close>

lemma claim_pending_run:
  fixes pg :: page
  assumes free: "mem_ok (ram (mm s))" "user_pages_mapped (ram (mm s))"
      "\<not> pool_pages (user_pool (ram (mm s))) \<subseteq> in_use (ram (mm s))" "3 \<le> card (free_pages (ram (mm s)))"
      "vheap s = []" "heap_fresh s"
    and page: "pages s p = Some pg" "operations pg = uninit_ops" "init_kind pg = anon_init" "init_fn pg = lazy_load_init"
      "infos s (aux_ptr pg) = Some info"
    and space: "space_ok (cur_pml4 s) (mm s)" "cur_pml4 s \<noteq> base_pml4 (mm s)"
      "is_user_vaddr (page_va pg)" "pg_ofs (unat (page_va pg)) = 0"
    and seg: "files (fsys s) (fi_file info) = Some fl" "inodes (fsys s) (f_inode fl) = Some ino"
      "extent_ok (disk (fsys s)) (data ino)" "0 \<le> fi_ofs info" "heap (fsys s) = []"
      "nat (fi_ofs info) + page_read_bytes info \<le> length (file_bytes (disk (fsys s)) (data ino))"
      "page_read_bytes info + page_zero_bytes info = PGSIZE"
  shows "\<exists>s' kva. vm_do_claim_page p s = Some (s', True) \<and> space_ok (cur_pml4 s) (mm s') \<and> cur_pml4 s' = cur_pml4 s \<and>
    pages s' = (pages s)(p \<mapsto> pg\<lparr>page_frame := next_obj s, operations := anon_ops, swap_slot := - 1\<rparr>) \<and>
    frames s' = (frames s)(next_obj s \<mapsto> \<lparr>frame_kva = kva, frame_page = p\<rparr>) \<and> frame_list s' = frame_list s @ [next_obj s] \<and>
    pg_no kva \<notin> in_use (ram (mm s)) \<and> pg_ofs kva = 0 \<and> kva \<noteq> NULL \<and>
    load_bytes (mem_of s') kva PGSIZE = segment_bytes info (file_bytes (disk (fsys s)) (data ino)) \<and>
    (\<exists>w. frame_of w 0 = kva \<and> (\<forall>k<512 ^ 4. page_entry (cur_pml4 s) k (mm s') =
       (if k = pg_no (unat (page_va pg)) then w else page_entry (cur_pml4 s) k (mm s)))) \<and>
    spt s' = spt s \<and> next_obj s' = Suc (next_obj s) \<and>
    inodes (fsys s') = inodes (fsys s) \<and> sectors (disk (fsys s')) = sectors (disk (fsys s))"
proof -
  let ?f = "next_obj s"
  obtain m2 kva w where c: "vm_do_claim_page p s = swap_in p (s\<lparr>next_obj := Suc ?f, frame_list := frame_list s @ [?f],
      frames := (frames s)(?f \<mapsto> \<lparr>frame_kva = kva, frame_page = p\<rparr>), pages := (pages s)(p \<mapsto> pg\<lparr>page_frame := ?f\<rparr>), mm := m2\<rparr>)"
    "pg_ofs kva = 0" "kva \<noteq> NULL" "pg_no kva \<notin> in_use (ram (mm s))" "space_ok (cur_pml4 s) m2"
    "pg_no kva \<notin> tabs (ram m2) 3 (cur_pml4 s)" "frame_of w 0 = kva"
    "\<forall>k<512 ^ 4. page_entry (cur_pml4 s) k m2 = (if k = pg_no (unat (page_va pg)) then w else page_entry (cur_pml4 s) k (mm s))"
    using claim_frame_run [OF free page(1) space] by blast
  define pg' where "pg' = pg\<lparr>page_frame := ?f, operations := anon_ops, swap_slot := - 1\<rparr>"
  define s3 where "s3 = s\<lparr>next_obj := Suc ?f, frame_list := frame_list s @ [?f],
    frames := (frames s)(?f \<mapsto> \<lparr>frame_kva = kva, frame_page = p\<rparr>), mm := m2, pages := (pages s)(p \<mapsto> pg')\<rparr>"
  let ?seg = "segment_bytes info (file_bytes (disk (fsys s)) (data ino))"
  obtain fs where ll: "lazy_load_segment p (aux_ptr pg) s3 = Some (set_mem (store_bytes (mem_of s3) kva ?seg) (s3\<lparr>fsys := fs\<rparr>), True)"
    "inodes fs = inodes (fsys s)" "sectors (disk fs) = sectors (disk (fsys s))"
    using lazy_load_run [of s3 "aux_ptr pg" info p pg' "\<lparr>frame_kva = kva, frame_page = p\<rparr>" fl ino] page(5) seg(1-6) c(3)
    by (auto simp: s3_def pg'_def)
  define s4 where "s4 = set_mem (store_bytes (mem_of s3) kva ?seg) (s3\<lparr>fsys := fs\<rparr>)"
  have "vm_do_claim_page p s = lazy_load_segment p (aux_ptr pg) s3"
    unfolding c(1) using page(2-4) by (simp add: swap_in_def uninit_initialize_def anon_initializer_def upd_page_def s3_def pg'_def)
  then have run: "vm_do_claim_page p s = Some (s4, True)" using ll(1) by (simp add: s4_def)
  have ls: "length ?seg = PGSIZE" using seg(6,7) by (simp add: segment_bytes_def)
  have same: "same_on (- {pg_no kva}) (ram m2) ((ram m2)\<lparr>memory := store_bytes (memory (ram m2)) kva ?seg\<rparr>)"
    using page_range [OF c(2)] ls by (auto simp: same_on_def store_bytes_def)
  have sp: "space_ok (cur_pml4 s) (mm s4)" and pe: "page_entry (cur_pml4 s) k (mm s4) = page_entry (cur_pml4 s) k m2" for k
    using space_write [OF c(5) same] c(5,6)
    by (auto simp: s4_def set_mem_def set_ram_def s3_def in_use_def mem_ok_def palloc_ok_def space_ok_def)
  have "load_bytes (mem_of s4) kva PGSIZE = ?seg"
    using load_store_bytes [of "memory (ram m2)" kva ?seg] ls by (simp add: s4_def set_mem_def set_ram_def s3_def)
  then show ?thesis
    using run sp c(2-4,7,8) pe ll(2,3)
    by (intro exI [of _ s4] exI [of _ kva]) (auto simp: s4_def set_mem_def set_ram_def s3_def pg'_def)
qed

section \<open>What a fault on a pending page does\<close>

text \<open>
  C10: A fault on an address whose page is pending brings the page in, while memory lasts: the page
  gets a frame that nothing used before, the frame holds its part of the file followed by zeros,
  every address of the page leads to the frame and every other address where it led before.
\<close>

theorem fault_loads_page:
  assumes "spt_map s (spt s) m" "m (pg_round_down uva) = Some p" "pages s p = Some pg"
    and free: "mem_ok (ram (mm s))" "user_pages_mapped (ram (mm s))"
      "\<not> pool_pages (user_pool (ram (mm s))) \<subseteq> in_use (ram (mm s))" "3 \<le> card (free_pages (ram (mm s)))"
      "vheap s = []" "heap_fresh s"
    and "operations pg = uninit_ops" "init_kind pg = anon_init" "init_fn pg = lazy_load_init"
      "infos s (aux_ptr pg) = Some info"
    and space: "space_ok (cur_pml4 s) (mm s)" "cur_pml4 s \<noteq> base_pml4 (mm s)" "is_user_vaddr uva"
    and seg: "files (fsys s) (fi_file info) = Some fl" "inodes (fsys s) (f_inode fl) = Some ino"
      "extent_ok (disk (fsys s)) (data ino)" "0 \<le> fi_ofs info" "heap (fsys s) = []"
      "nat (fi_ofs info) + page_read_bytes info \<le> length (file_bytes (disk (fsys s)) (data ino))"
      "page_read_bytes info + page_zero_bytes info = PGSIZE"
  shows "\<exists>s' kva. vm_try_handle_fault rsp uva True s = Some (s', True) \<and> spt_map s' (spt s') m \<and>
    space_ok (cur_pml4 s) (mm s') \<and> pg_no kva \<notin> in_use (ram (mm s)) \<and>
    load_bytes (mem_of s') kva PGSIZE = segment_bytes info (file_bytes (disk (fsys s)) (data ino)) \<and>
    (\<forall>a. is_user_vaddr a \<longrightarrow> pml4_get_page (cur_pml4 s) a (mm s') =
       (if pg_round_down a = pg_round_down uva then Some (kva + pg_ofs (unat a)) else pml4_get_page (cur_pml4 s) a (mm s)))"
proof -
  have p: "p \<noteq> NULL" "p < next_obj s" "page_va pg = pg_round_down uva" using spt_map_elems [OF assms(1,2)] assms(3) by auto
  have va: "is_user_vaddr (page_va pg)" "pg_ofs (unat (page_va pg)) = 0"
    using p(3) pg_round_down_user [OF space(3)] pg_round_down_props by simp_all
  obtain s' kva w where r: "vm_do_claim_page p s = Some (s', True)" "space_ok (cur_pml4 s) (mm s')"
    "pages s' = (pages s)(p \<mapsto> pg\<lparr>page_frame := next_obj s, operations := anon_ops, swap_slot := - 1\<rparr>)"
    "pg_no kva \<notin> in_use (ram (mm s))" "kva \<noteq> NULL"
    "load_bytes (mem_of s') kva PGSIZE = segment_bytes info (file_bytes (disk (fsys s)) (data ino))"
    "frame_of w 0 = kva" "\<forall>k<512 ^ 4. page_entry (cur_pml4 s) k (mm s') =
       (if k = pg_no (unat (page_va pg)) then w else page_entry (cur_pml4 s) k (mm s))"
    "spt s' = spt s" "next_obj s' = Suc (next_obj s)"
    using claim_pending_run [OF free assms(3,10-13) space(1,2) va seg] by blast
  have "spt_find_page s (spt s) uva = p" using spt_find_map [OF assms(1), of uva] assms(2) by simp
  then have run: "vm_try_handle_fault rsp uva True s = Some (s', True)"
    using p(1) r(1) spt_find_map [OF assms(1), of "pg_round_down uva"] assms(2) pg_round_down_props(3) [of uva]
    by (simp add: vm_try_handle_fault_def vm_claim_page_def)
  have sm: "spt_map s' (spt s') m"
    unfolding r(9) by (rule spt_map_pages [OF assms(1)]) (auto simp: r(3,10) assms(3))
  have "frame_of w ofs = kva + ofs" for ofs using r(5,7) by (auto simp: frame_of_def split: if_splits)
  then have "pml4_get_page (cur_pml4 s) a (mm s') =
      (if pg_round_down a = pg_round_down uva then Some (kva + pg_ofs (unat a)) else pml4_get_page (cur_pml4 s) a (mm s))"
    if "is_user_vaddr a" for a
    using get_page_entry [OF r(2) that] get_page_entry [OF space(1) that] r(8) user_page_less [OF that]
    by (simp add: p(3) pg_round_down_eq pg_round_down_props(2))
  then show ?thesis using run sm r(2,4,6) by blast
qed

lemma sample_in_use:
  "bm.used (used_map (kernel_pool (ram sample_mmu))) = {0, 1}" "bm.used (used_map (user_pool (ram sample_mmu))) = {0}"
proof -
  have 1: "bools \<lparr>bit_cnt = 6, bits = [0b000011]\<rparr> = [True, True, False, False, False, False]" by code_simp
  have 2: "bools \<lparr>bit_cnt = 6, bits = [0b000001]\<rparr> = [True, False, False, False, False, False]" by code_simp
  have "bools (used_map (kernel_pool (ram sample_mmu))) = [True, True, False, False, False, False]"
    using 1 by (simp add: sample_mmu_def sample_pool_def)
  then show "bm.used (used_map (kernel_pool (ram sample_mmu))) = {0, 1}"
    unfolding bm.used_def by (auto simp: less_Suc_eq)
  have "bools (used_map (user_pool (ram sample_mmu))) = [True, False, False, False, False, False]"
    using 2 by (simp add: sample_mmu_def sample_pool_def)
  then show "bm.used (used_map (user_pool (ram sample_mmu))) = {0}"
    unfolding bm.used_def by (auto simp: less_Suc_eq)
qed

lemma sample_memory:
  "mem_ok (ram sample_mmu)" "user_pages_mapped (ram sample_mmu)"
  "\<not> pool_pages (user_pool (ram sample_mmu)) \<subseteq> in_use (ram sample_mmu)" "3 \<le> card (free_pages (ram sample_mmu))"
proof -
  have u: "in_use (ram sample_mmu) = {134234112, 134234113, 134234118}"
    unfolding in_use_def pool_used_def sample_in_use by (auto simp: sample_mmu_def sample_pool_def pg_no_def)
  have p: "pool_pages (kernel_pool (ram sample_mmu)) = {134234112..<134234118}"
    "pool_pages (user_pool (ram sample_mmu)) = {134234118..<134234124}"
    by (simp_all add: sample_mmu_def sample_pool_def pool_pages_def pg_no_def)
  show "mem_ok (ram sample_mmu)" using sample_mmu_ok by (simp add: space_ok_def)
  show "user_pages_mapped (ram sample_mmu)" by (simp add: user_pages_mapped_def p unat_KERN_BASE)
  have "134234119 \<in> pool_pages (user_pool (ram sample_mmu))" "134234119 \<notin> in_use (ram sample_mmu)" by (simp_all add: u p)
  then show "\<not> pool_pages (user_pool (ram sample_mmu)) \<subseteq> in_use (ram sample_mmu)" by blast
  have "{134234114, 134234115, 134234116} \<subseteq> free_pages (ram sample_mmu)" by (simp add: free_pages_def u p)
  from card_mono [OF finite_free_pages this] show "3 \<le> card (free_pages (ram sample_mmu))" by simp
qed

theorem fault_loads_page_witness:
  "\<exists>s s' kva. vm_alloc_page_with_initializer VM_ANON 0x400000 True lazy_load_init 1 sample_vmem = Some (s, True) \<and>
    vm_try_handle_fault 0 0x400123 True s = Some (s', True) \<and>
    load_bytes (mem_of s') kva PGSIZE = segment_bytes sample_info (file_bytes sample_disk (data sample_inode)) \<and>
    pml4_get_page 0x8004001000 0x400123 (mm s') = Some (kva + 0x123)"
proof -
  note t = sample_spt(1)
  note f = sample_spt(2)
  have v: "VM_TYPE VM_ANON = VM_ANON" by (simp add: VM_TYPE_def)
  have r: "pg_round_down 0x400000 = 0x400000" "pg_round_down 0x400123 = 0x400000" by (simp_all add: pg_round_down_def)
  obtain s ok where s: "vm_alloc_page_with_initializer VM_ANON 0x400000 True lazy_load_init 1 sample_vmem = Some (s, ok)" "heap_fresh s"
    "ok \<longleftrightarrow> Map.empty (0x400000 :: u64) = (None :: addr option) \<and> snd (heap_ok sample_vmem)"
    "spt_map s (spt s) (if ok then Map.empty(0x400000 \<mapsto> next_obj sample_vmem) else Map.empty)"
    "pages s = (if ok then (pages sample_vmem)(next_obj sample_vmem \<mapsto> pending VM_ANON 0x400000 True lazy_load_init 1) else pages sample_vmem)"
    "s = sample_vmem\<lparr>spt := spt s, vheap := vheap s, pages := pages s, next_obj := next_obj s\<rparr>"
    "vheap sample_vmem = [] \<longrightarrow> vheap s = []"
    using alloc_page_cases [OF t f _ r(1), of VM_ANON True lazy_load_init 1] v by blast
  have vh: "vheap s = []" using s(7) by (simp add: sample_vmem_def)
  have ok: ok using s(3) by (simp add: heap_ok_def sample_vmem_def)
  have e: "mm s = sample_mmu" "fsys s = sample_fs\<lparr>files := [7 \<mapsto> \<lparr>f_inode = 1, pos = 0, deny_write = False\<rparr>]\<rparr>"
    "infos s = [1 \<mapsto> sample_info]" "cur_pml4 s = 0x8004001000"
    by (subst s(6), simp add: sample_vmem_def)+
  have pg: "pages s 2 = Some (pending VM_ANON 0x400000 True lazy_load_init 1)" using s(5) ok by (simp add: sample_vmem_def)
  let ?pg = "pending VM_ANON 0x400000 True lazy_load_init 1"
  have q: "operations ?pg = uninit_ops" "init_kind ?pg = anon_init" "init_fn ?pg = lazy_load_init" "aux_ptr ?pg = 1"
    by (simp_all add: pending_def v blank_page_def)
  have b: "0x8004001000 \<noteq> base_pml4 sample_mmu" by (simp add: sample_mmu_def)
  have u: "is_user_vaddr 0x400123" by (simp add: is_user_vaddr_def is_kernel_vaddr_def KERN_BASE_def)
  have x: "extent_ok (disk (fsys s)) (data sample_inode)" using sample_extent_ok by (simp add: e)
  have l: "length (file_bytes (disk (fsys s)) (data sample_inode)) = 600" by (simp add: sample_inode_def)
  have "\<exists>s' kva. vm_try_handle_fault 0 0x400123 True s = Some (s', True) \<and> spt_map s' (spt s') (Map.empty(0x400000 \<mapsto> 2)) \<and>
    space_ok (cur_pml4 s) (mm s') \<and> pg_no kva \<notin> in_use (ram (mm s)) \<and>
    load_bytes (mem_of s') kva PGSIZE = segment_bytes sample_info (file_bytes (disk (fsys s)) (data sample_inode)) \<and>
    (\<forall>a. is_user_vaddr a \<longrightarrow> pml4_get_page (cur_pml4 s) a (mm s') =
       (if pg_round_down a = pg_round_down 0x400123 then Some (kva + pg_ofs (unat a)) else pml4_get_page (cur_pml4 s) a (mm s)))"
    by (rule fault_loads_page [where pg = ?pg and p = 2 and ino = sample_inode and
          fl = "\<lparr>f_inode = 1, pos = 0, deny_write = False\<rparr>"])
      (use s(2,4) ok pg vh q b u x l r sample_memory sample_mmu_ok in \<open>simp_all add: e sample_info_def sample_vmem_def sample_fs_def\<close>)
  then show ?thesis using s(1) ok u by (auto simp: e r pg_ofs_def sample_fs_def)
qed

end
