(* ===== verification/VmSwap.thy ===== *)
theory VmSwap
  imports VmLoad
begin

text \<open>
  The swap disk: a page thrown out keeps its contents in a slot of its own until it is brought
  back, into whatever frame.
\<close>

section \<open>Slots\<close>

definition slot_bytes :: "disk \<Rightarrow> nat \<Rightarrow> u8 list" where
  "slot_bytes d sl = concat (map (sectors d) [8 * sl..<8 * sl + 8])"

text \<open>The bitmap has a bit for every slot, and every slot is on the disk.\<close>

definition swap_ok :: "vmem \<Rightarrow> bool" where
  "swap_ok s \<longleftrightarrow> disk_ok (swap_disk s) \<and> bitmap_ok (swap_bitmap s) \<and>
     8 * bit_cnt (swap_bitmap s) \<le> capacity (swap_disk s)"

lemma store_bytes_append:
  "store_bytes (store_bytes m a xs) (a + length xs) ys = store_bytes m a (xs @ ys)"
  by (rule ext) (auto simp: store_bytes_def nth_append)

lemma slot_sector:
  assumes "8 * unat (sl :: u32) + 8 \<le> 2 ^ 28" "i < 8"
  shows "unat (sl * 8 + of_nat i) = 8 * unat sl + i"
proof -
  have "unat sl * 8 + i < 2 ^ 32" using assms by simp
  then show ?thesis using assms by (simp add: unat_word_ariths unat_of_nat mult.commute)
qed

lemma read_slot_run:
  assumes "disk_ok (swap_disk s)" "8 * unat sl + 8 \<le> capacity (swap_disk s)" "k + n \<le> 8"
  shows "\<exists>d. read_slot sl kva [k..<k + n] s =
      Some (set_mem (store_bytes (mem_of s) (kva + DISK_SECTOR_SIZE * k)
          (concat (map (sectors (swap_disk s)) [8 * unat sl + k..<8 * unat sl + k + n]))) (s\<lparr>swap_disk := d\<rparr>)) \<and>
    sectors d = sectors (swap_disk s) \<and> capacity d = capacity (swap_disk s) \<and> disk_ok d"
  using assms
proof (induction n arbitrary: k s)
  case 0
  have "store_bytes m a [] = m" for m a by (rule ext) (auto simp: store_bytes_def)
  then show ?case using 0 by (intro exI [of _ "swap_disk s"]) (simp add: set_mem_def set_ram_def)
next
  case (Suc n)
  let ?d = "(swap_disk s)\<lparr>read_cnt := read_cnt (swap_disk s) + 1\<rparr>"
  let ?b = "sectors (swap_disk s) (8 * unat sl + k)"
  let ?a = "kva + DISK_SECTOR_SIZE * k"
  define s1 where "s1 = set_mem (store_bytes (mem_of s) ?a ?b) (s\<lparr>swap_disk := ?d\<rparr>)"
  have cap: "capacity (swap_disk s) \<le> 2 ^ 28" and lb: "length ?b = 512" using Suc.prems(1) by (simp_all add: disk_ok_def)
  have "disk_read (swap_disk s) (unat (sl * 8 + of_nat k)) = Some (?d, ?b)"
    using slot_sector [of sl k] disk_read_ok [OF Suc.prems(1), of "8 * unat sl + k"] Suc.prems(2,3) cap by simp
  moreover have "[k..<k + Suc n] = k # [Suc k..<Suc k + n]" by (simp add: upt_conv_Cons)
  ultimately have step: "read_slot sl kva [k..<k + Suc n] s = read_slot sl kva [Suc k..<Suc k + n] s1"
    by (simp add: s1_def)
  have s1: "swap_disk s1 = ?d" "mem_of s1 = store_bytes (mem_of s) ?a ?b" by (simp_all add: s1_def set_mem_def set_ram_def)
  obtain d where d: "read_slot sl kva [Suc k..<Suc k + n] s1 =
      Some (set_mem (store_bytes (mem_of s1) (kva + DISK_SECTOR_SIZE * Suc k)
          (concat (map (sectors (swap_disk s1)) [8 * unat sl + Suc k..<8 * unat sl + Suc k + n]))) (s1\<lparr>swap_disk := d\<rparr>))"
    "sectors d = sectors (swap_disk s1)" "capacity d = capacity (swap_disk s1)" "disk_ok d"
    using Suc.IH [of s1 "Suc k"] Suc.prems s1(1) by auto
  have sp: "kva + DISK_SECTOR_SIZE * Suc k = ?a + length ?b" using lb by simp
  have "[8 * unat sl + k..<8 * unat sl + k + Suc n] = (8 * unat sl + k) # [8 * unat sl + Suc k..<8 * unat sl + Suc k + n]"
    by (simp add: upt_conv_Cons)
  then have "store_bytes (mem_of s1) (kva + DISK_SECTOR_SIZE * Suc k)
        (concat (map (sectors (swap_disk s1)) [8 * unat sl + Suc k..<8 * unat sl + Suc k + n])) =
      store_bytes (mem_of s) ?a (concat (map (sectors (swap_disk s)) [8 * unat sl + k..<8 * unat sl + k + Suc n]))"
    unfolding sp s1(2) store_bytes_append using s1(1) by simp
  then show ?case
    using step d s1(1) by (intro exI [of _ d]) (simp add: s1_def set_mem_def set_ram_def)
qed

lemma write_slot_run:
  assumes "disk_ok (swap_disk s)" "8 * unat sl + 8 \<le> capacity (swap_disk s)" "k + n \<le> 8"
  shows "\<exists>d. write_slot sl kva [k..<k + n] s = Some (s\<lparr>swap_disk := d\<rparr>) \<and> disk_ok d \<and>
    capacity d = capacity (swap_disk s) \<and>
    sectors d = (\<lambda>j. if 8 * unat sl + k \<le> j \<and> j < 8 * unat sl + k + n
       then load_bytes (mem_of s) (kva + DISK_SECTOR_SIZE * (j - 8 * unat sl)) DISK_SECTOR_SIZE else sectors (swap_disk s) j)"
  using assms
proof (induction n arbitrary: k s)
  case 0
  have "sectors (swap_disk s) = (\<lambda>j. if 8 * unat sl + k \<le> j \<and> j < 8 * unat sl + k + 0
       then load_bytes (mem_of s) (kva + DISK_SECTOR_SIZE * (j - 8 * unat sl)) DISK_SECTOR_SIZE else sectors (swap_disk s) j)"
    by (rule ext) auto
  then show ?case using 0 by (intro exI [of _ "swap_disk s"]) simp
next
  case (Suc n)
  let ?b = "load_bytes (mem_of s) (kva + DISK_SECTOR_SIZE * k) DISK_SECTOR_SIZE"
  let ?d = "(swap_disk s)\<lparr>sectors := (sectors (swap_disk s))(8 * unat sl + k := ?b), write_cnt := write_cnt (swap_disk s) + 1\<rparr>"
  define s1 where "s1 = s\<lparr>swap_disk := ?d\<rparr>"
  have cap: "capacity (swap_disk s) \<le> 2 ^ 28" using Suc.prems(1) by (simp add: disk_ok_def)
  have "disk_write (swap_disk s) (unat (sl * 8 + of_nat k)) ?b = Some ?d"
    using slot_sector [of sl k] disk_write_ok [OF Suc.prems(1), of "8 * unat sl + k"] Suc.prems(2,3) cap by simp
  moreover have "[k..<k + Suc n] = k # [Suc k..<Suc k + n]" by (simp add: upt_conv_Cons)
  ultimately have step: "write_slot sl kva [k..<k + Suc n] s = write_slot sl kva [Suc k..<Suc k + n] s1"
    by (simp add: s1_def)
  have "length ?b = 512" by (simp add: load_bytes_def)
  then have ok: "disk_ok (swap_disk s1)" unfolding s1_def using disk_ok_sectors [OF Suc.prems(1)] by simp
  obtain d where d: "write_slot sl kva [Suc k..<Suc k + n] s1 = Some (s1\<lparr>swap_disk := d\<rparr>)" "disk_ok d"
    "capacity d = capacity (swap_disk s1)"
    "sectors d = (\<lambda>j. if 8 * unat sl + Suc k \<le> j \<and> j < 8 * unat sl + Suc k + n
       then load_bytes (mem_of s1) (kva + DISK_SECTOR_SIZE * (j - 8 * unat sl)) DISK_SECTOR_SIZE else sectors (swap_disk s1) j)"
    using Suc.IH [OF ok, of "Suc k"] Suc.prems(2,3) by (auto simp: s1_def)
  have "sectors d = (\<lambda>j. if 8 * unat sl + k \<le> j \<and> j < 8 * unat sl + k + Suc n
       then load_bytes (mem_of s) (kva + DISK_SECTOR_SIZE * (j - 8 * unat sl)) DISK_SECTOR_SIZE else sectors (swap_disk s) j)"
    unfolding d(4) by (rule ext) (auto simp: s1_def)
  then show ?case using step d(1-3) by (intro exI [of _ d]) (simp add: s1_def)
qed

lemma load_bytes_append: "load_bytes m a (j + n) = load_bytes m a j @ load_bytes m (a + j) n"
  by (rule nth_equalityI) (auto simp: load_bytes_def nth_append)

lemma load_sectors: "concat (map (\<lambda>i. load_bytes m (a + k * i) k) [0..<n]) = load_bytes m a (k * n)"
proof (induction n)
  case 0
  then show ?case by (simp add: load_bytes_def)
next
  case (Suc n)
  then show ?case using load_bytes_append [of m a "k * n" k] by (simp add: add.commute)
qed

lemma slot_written:
  assumes "\<forall>j. 8 * sl \<le> j \<and> j < 8 * sl + 8 \<longrightarrow> sectors d j = load_bytes m (kva + DISK_SECTOR_SIZE * (j - 8 * sl)) DISK_SECTOR_SIZE"
  shows "slot_bytes d sl = load_bytes m kva PGSIZE"
proof -
  have "map (sectors d) [8 * sl..<8 * sl + 8] = map (\<lambda>i. load_bytes m (kva + DISK_SECTOR_SIZE * i) DISK_SECTOR_SIZE) [0..<8]"
    by (rule nth_equalityI) (use assms in auto)
  then show ?thesis using load_sectors [of m kva 512 8] by (simp add: slot_bytes_def)
qed

lemma length_slot_bytes: "disk_ok d \<Longrightarrow> length (slot_bytes d sl) = PGSIZE"
  by (simp add: slot_bytes_def length_concat disk_ok_def o_def sum_list_triv)

section \<open>Out and in\<close>

lemma swap_out_run:
  assumes "swap_ok s" "pages s p = Some pg" "frames s (page_frame pg) = Some fr" "pg_ofs (frame_kva fr) = 0"
    and "i < bit_cnt (swap_bitmap s)" "i \<notin> bm.used (swap_bitmap s)"
    and "space_ok (cur_pml4 s) (mm s)" "is_user_vaddr (page_va pg)"
  shows "\<exists>s1 sl. anon_swap_out p s = Some (s1, True) \<and> swap_ok s1 \<and> frames s1 = frames s \<and>
    pages s1 = (pages s)(p \<mapsto> pg\<lparr>swap_slot := sl\<rparr>) \<and>
    unat sl \<notin> bm.used (swap_bitmap s) \<and> bm.used (swap_bitmap s1) = insert (unat sl) (bm.used (swap_bitmap s)) \<and>
    slot_bytes (swap_disk s1) (unat sl) = load_bytes (mem_of s) (frame_kva fr) PGSIZE \<and>
    (\<forall>j\<in>bm.used (swap_bitmap s). slot_bytes (swap_disk s1) j = slot_bytes (swap_disk s) j) \<and>
    space_ok (cur_pml4 s) (mm s1) \<and> pml4_get_page (cur_pml4 s) (page_va pg) (mm s1) = Some NULL"
proof -
  have ok: "disk_ok (swap_disk s)" "bitmap_ok (swap_bitmap s)" "8 * bit_cnt (swap_bitmap s) \<le> capacity (swap_disk s)"
    using assms(1) by (simp_all add: swap_ok_def)
  have kva: "round_down_kva (frame_kva fr) = frame_kva fr"
    using assms(4) pg_split(1) [of "frame_kva fr"] by (simp add: round_down_kva_def ROUND_DOWN_def pg_no_def mult.commute)
  obtain bm idx where sc: "bitmap_scan_and_flip (swap_bitmap s) 0 1 False = Some (bm, idx)"
    using bitmap_scan_and_flip_bools [OF ok(2), of 0 1 False] by auto
  note t = bm.take_slots [OF ok(2) sc]
  have g: "group_at (bools (swap_bitmap s)) i 1 False" using assms(5,6) by (simp add: bm.used_def group_at_def)
  have ne: "idx \<noteq> BITMAP_ERROR" using t g by auto
  have bm: "bitmap_ok bm" "bit_cnt bm = bit_cnt (swap_bitmap s)" "idx < bit_cnt (swap_bitmap s)"
    "idx \<notin> bm.used (swap_bitmap s)" "bm.used bm = insert idx (bm.used (swap_bitmap s))"
    using t ne by auto
  have cap: "capacity (swap_disk s) \<le> 2 ^ 28" using ok(1) by (simp add: disk_ok_def)
  define sl where "sl = (of_nat idx :: u32)"
  have sl: "unat sl = idx" using bm(3) ok(3) cap by (simp add: sl_def unat_of_nat)
  have fits: "8 * unat sl + 8 \<le> capacity (swap_disk s)" using sl bm(3) ok(3) by simp
  define s0 where "s0 = s\<lparr>swap_bitmap := bm\<rparr>"
  have h0: "swap_disk s0 = swap_disk s" "mem_of s0 = mem_of s" by (simp_all add: s0_def)
  obtain d where d: "write_slot sl (frame_kva fr) [0..<0 + 8] s0 = Some (s0\<lparr>swap_disk := d\<rparr>)" "disk_ok d"
    "capacity d = capacity (swap_disk s)"
    "sectors d = (\<lambda>j. if 8 * unat sl + 0 \<le> j \<and> j < 8 * unat sl + 0 + 8
       then load_bytes (mem_of s) (frame_kva fr + DISK_SECTOR_SIZE * (j - 8 * unat sl)) DISK_SECTOR_SIZE else sectors (swap_disk s) j)"
    using write_slot_run [of s0 sl 0 8 "frame_kva fr", unfolded h0, OF ok(1) fits] by auto
  have uva: "is_user_vaddr (pg_round_down (page_va pg))" "pg_ofs (unat (pg_round_down (page_va pg))) = 0"
    using pg_round_down_user [OF assms(8)] pg_round_down_props by simp_all
  obtain m' w where m': "pml4_clear_page (cur_pml4 s) (pg_round_down (page_va pg)) (mm s) = Some m'" "space_ok (cur_pml4 s) m'"
    "w AND PTE_P = 0" "\<forall>k<512 ^ 4. page_entry (cur_pml4 s) k m' =
       (if k = pg_no (unat (pg_round_down (page_va pg))) then w else page_entry (cur_pml4 s) k (mm s))"
    using clear_page_run [OF assms(7) uva] by blast
  define s1 where "s1 = s\<lparr>swap_bitmap := bm, swap_disk := d, pages := (pages s)(p \<mapsto> pg\<lparr>swap_slot := sl\<rparr>), mm := m'\<rparr>"
  have "idx \<noteq> BITMAP_ERROR \<Longrightarrow> unat sl \<noteq> BITMAP_ERROR" using sl by simp
  then have run: "anon_swap_out p s = Some (s1, True)"
    using assms(2,3) sc kva d(1) ne m'(1)
    by (simp add: anon_swap_out_def sl_def [symmetric] s0_def upd_page_def s1_def)
  have "pml4_get_page (cur_pml4 s) (page_va pg) m' = Some NULL"
    using get_page_entry [OF m'(2) assms(8)] m'(3,4) user_page_less [OF assms(8)] pg_round_down_props(2)
    by (simp add: frame_of_def)
  moreover have "slot_bytes d (unat sl) = load_bytes (mem_of s) (frame_kva fr) PGSIZE"
    by (rule slot_written) (simp add: d(4))
  moreover have "slot_bytes d j = slot_bytes (swap_disk s) j" if "j \<in> bm.used (swap_bitmap s)" for j
  proof -
    have "j \<noteq> unat sl" using that bm(4) sl by auto
    then have "\<forall>x\<in>set [8 * j..<8 * j + 8]. sectors d x = sectors (swap_disk s) x" unfolding d(4) by auto
    then show ?thesis unfolding slot_bytes_def by (metis (no_types, lifting) map_cong)
  qed
  moreover have "swap_ok s1" using bm(1,2) d(2,3) ok(3) by (simp add: swap_ok_def s1_def)
  ultimately show ?thesis
    using run bm(4,5) sl m'(2) by (intro exI [of _ s1] exI [of _ sl]) (simp add: s1_def)
qed

lemma swap_in_run:
  assumes "swap_ok s" "pages s p = Some pg" "frames s (page_frame pg) = Some fr" "pg_ofs (frame_kva fr) = 0"
    and "unat (swap_slot pg) \<in> bm.used (swap_bitmap s)"
  shows "\<exists>s'. anon_swap_in p s = Some (s', True) \<and> swap_ok s' \<and> pages s' = (pages s)(p \<mapsto> pg\<lparr>swap_slot := - 1\<rparr>) \<and>
    bm.used (swap_bitmap s') = bm.used (swap_bitmap s) - {unat (swap_slot pg)} \<and>
    mem_of s' = store_bytes (mem_of s) (frame_kva fr) (slot_bytes (swap_disk s) (unat (swap_slot pg))) \<and>
    slot_bytes (swap_disk s') = slot_bytes (swap_disk s)"
proof -
  let ?sl = "swap_slot pg"
  have ok: "disk_ok (swap_disk s)" "bitmap_ok (swap_bitmap s)" "8 * bit_cnt (swap_bitmap s) \<le> capacity (swap_disk s)"
    using assms(1) by (simp_all add: swap_ok_def)
  have kva: "round_down_kva (frame_kva fr) = frame_kva fr"
    using assms(4) pg_split(1) [of "frame_kva fr"] by (simp add: round_down_kva_def ROUND_DOWN_def pg_no_def mult.commute)
  have b: "unat ?sl < bit_cnt (swap_bitmap s)" using assms(5) by (simp add: bm.used_def)
  then have fits: "8 * unat ?sl + 8 \<le> capacity (swap_disk s)" using ok(3) by simp
  obtain d where d: "read_slot ?sl (frame_kva fr) [0..<0 + 8] s =
      Some (set_mem (store_bytes (mem_of s) (frame_kva fr + DISK_SECTOR_SIZE * 0)
          (concat (map (sectors (swap_disk s)) [8 * unat ?sl + 0..<8 * unat ?sl + 0 + 8]))) (s\<lparr>swap_disk := d\<rparr>))"
    "sectors d = sectors (swap_disk s)" "capacity d = capacity (swap_disk s)" "disk_ok d"
    using read_slot_run [OF ok(1) fits, of 0 8 "frame_kva fr"] by auto
  obtain bm where bm: "bitmap_set (swap_bitmap s) (unat ?sl) False = Some bm" "bitmap_ok bm" "bit_cnt bm = bit_cnt (swap_bitmap s)"
    "bools bm = (bools (swap_bitmap s))[unat ?sl := False]"
    using bitmap_set_bools [OF ok(2) b] by blast
  have used: "bm.used bm = bm.used (swap_bitmap s) - {unat ?sl}"
    unfolding bm.used_def bm(4) using b by (auto simp: nth_list_update)
  define s' where "s' = (set_mem (store_bytes (mem_of s) (frame_kva fr) (slot_bytes (swap_disk s) (unat ?sl))) (s\<lparr>swap_disk := d\<rparr>))
    \<lparr>swap_bitmap := bm, pages := (pages s)(p \<mapsto> pg\<lparr>swap_slot := - 1\<rparr>)\<rparr>"
  have run: "anon_swap_in p s = Some (s', True)"
    using assms(2,3) kva d(1) bm(1)
    by (simp add: anon_swap_in_def set_mem_def set_ram_def upd_page_def s'_def slot_bytes_def)
  have "slot_bytes d = slot_bytes (swap_disk s)" by (simp add: slot_bytes_def fun_eq_iff d(2))
  then show ?thesis
    using run bm(2,3) d(2-4) ok(3) used
    by (intro exI [of _ s']) (simp add: s'_def set_mem_def set_ram_def swap_ok_def)
qed

section \<open>What the swap disk promises\<close>

text \<open>
  C19: While a slot is free, throwing out an anonymous page gives it a slot that no other page has,
  leaves the slots of the others as they are, and unmaps the page. Whatever happens then to memory,
  to the frames and to other pages: as long as the page keeps its slot and the slot its contents,
  bringing the page in puts the bytes it had into its new frame, and nothing else, and frees the
  slot.
\<close>

theorem swap_roundtrip:
  assumes "swap_ok s" "pages s p = Some pg" "frames s (page_frame pg) = Some fr" "pg_ofs (frame_kva fr) = 0"
    and "i < bit_cnt (swap_bitmap s)" "i \<notin> bm.used (swap_bitmap s)"
    and "space_ok (cur_pml4 s) (mm s)" "is_user_vaddr (page_va pg)"
  shows "\<exists>s1 sl. anon_swap_out p s = Some (s1, True) \<and> swap_ok s1 \<and> frames s1 = frames s \<and>
    pages s1 = (pages s)(p \<mapsto> pg\<lparr>swap_slot := sl\<rparr>) \<and>
    unat sl \<notin> bm.used (swap_bitmap s) \<and> bm.used (swap_bitmap s1) = insert (unat sl) (bm.used (swap_bitmap s)) \<and>
    (\<forall>j\<in>bm.used (swap_bitmap s). slot_bytes (swap_disk s1) j = slot_bytes (swap_disk s) j) \<and>
    pml4_get_page (cur_pml4 s) (page_va pg) (mm s1) = Some NULL \<and>
    (\<forall>s2 pg2 fr2. swap_ok s2 \<and> pages s2 p = Some pg2 \<and> swap_slot pg2 = sl \<and> unat sl \<in> bm.used (swap_bitmap s2) \<and>
        slot_bytes (swap_disk s2) (unat sl) = slot_bytes (swap_disk s1) (unat sl) \<and>
        frames s2 (page_frame pg2) = Some fr2 \<and> pg_ofs (frame_kva fr2) = 0 \<longrightarrow>
      (\<exists>s3. anon_swap_in p s2 = Some (s3, True) \<and> swap_ok s3 \<and>
        load_bytes (mem_of s3) (frame_kva fr2) PGSIZE = load_bytes (mem_of s) (frame_kva fr) PGSIZE \<and>
        (\<forall>a. pg_no a \<noteq> pg_no (frame_kva fr2) \<longrightarrow> mem_of s3 a = mem_of s2 a) \<and>
        bm.used (swap_bitmap s3) = bm.used (swap_bitmap s2) - {unat sl} \<and>
        slot_bytes (swap_disk s3) = slot_bytes (swap_disk s2)))"
proof -
  obtain s1 sl where o: "anon_swap_out p s = Some (s1, True)" "swap_ok s1" "frames s1 = frames s"
    "pages s1 = (pages s)(p \<mapsto> pg\<lparr>swap_slot := sl\<rparr>)"
    "unat sl \<notin> bm.used (swap_bitmap s)" "bm.used (swap_bitmap s1) = insert (unat sl) (bm.used (swap_bitmap s))"
    "slot_bytes (swap_disk s1) (unat sl) = load_bytes (mem_of s) (frame_kva fr) PGSIZE"
    "\<forall>j\<in>bm.used (swap_bitmap s). slot_bytes (swap_disk s1) j = slot_bytes (swap_disk s) j"
    "pml4_get_page (cur_pml4 s) (page_va pg) (mm s1) = Some NULL"
    using swap_out_run [OF assms] by blast
  have "\<exists>s3. anon_swap_in p s2 = Some (s3, True) \<and> swap_ok s3 \<and>
        load_bytes (mem_of s3) (frame_kva fr2) PGSIZE = load_bytes (mem_of s) (frame_kva fr) PGSIZE \<and>
        (\<forall>a. pg_no a \<noteq> pg_no (frame_kva fr2) \<longrightarrow> mem_of s3 a = mem_of s2 a) \<and>
        bm.used (swap_bitmap s3) = bm.used (swap_bitmap s2) - {unat sl} \<and>
        slot_bytes (swap_disk s3) = slot_bytes (swap_disk s2)"
    if h: "swap_ok s2" "pages s2 p = Some pg2" "swap_slot pg2 = sl" "unat sl \<in> bm.used (swap_bitmap s2)"
      "slot_bytes (swap_disk s2) (unat sl) = slot_bytes (swap_disk s1) (unat sl)"
      "frames s2 (page_frame pg2) = Some fr2" "pg_ofs (frame_kva fr2) = 0" for s2 pg2 fr2
  proof -
    let ?bs = "slot_bytes (swap_disk s2) (unat sl)"
    obtain s3 where r: "anon_swap_in p s2 = Some (s3, True)" "swap_ok s3"
      "bm.used (swap_bitmap s3) = bm.used (swap_bitmap s2) - {unat sl}"
      "mem_of s3 = store_bytes (mem_of s2) (frame_kva fr2) ?bs" "slot_bytes (swap_disk s3) = slot_bytes (swap_disk s2)"
      using swap_in_run [OF h(1,2,6,7)] h(3,4) by blast
    have l: "length ?bs = PGSIZE" using h(1) length_slot_bytes by (simp add: swap_ok_def)
    have "load_bytes (mem_of s3) (frame_kva fr2) PGSIZE = ?bs"
      using load_store_bytes [of "mem_of s2" "frame_kva fr2" ?bs] l r(4) by simp
    moreover have "mem_of s3 a = mem_of s2 a" if "pg_no a \<noteq> pg_no (frame_kva fr2)" for a
      using page_range [OF h(7), of a] that l by (auto simp: r(4) store_bytes_def)
    ultimately show ?thesis using r h(5) o(7) by auto
  qed
  then show ?thesis using o(1-6,8,9) by blast
qed

text \<open>A page with nothing but zeros in it, out and in again.\<close>

definition sample_swapped :: vmem where
  "sample_swapped = sample_vmem\<lparr>swap_disk := \<lparr>capacity = 8, sectors = (\<lambda>i. replicate 512 1), read_cnt = 0, write_cnt = 0\<rparr>,
     frames := [3 \<mapsto> \<lparr>frame_kva = 0x8004006000, frame_page = 2\<rparr>],
     pages := [2 \<mapsto> blank_page\<lparr>operations := anon_ops, page_va := 0x400000, page_frame := 3\<rparr>]\<rparr>"

theorem swap_roundtrip_witness:
  "\<exists>s1 s3. anon_swap_out 2 sample_swapped = Some (s1, True) \<and> anon_swap_in 2 s1 = Some (s3, True) \<and>
     load_bytes (mem_of s3) 0x8004006000 PGSIZE = load_bytes (\<lambda>a. 0) 0x8004006000 PGSIZE"
proof -
  let ?pg = "blank_page\<lparr>operations := anon_ops, page_va := 0x400000, page_frame := 3\<rparr>"
  let ?fr = "\<lparr>frame_kva = 0x8004006000, frame_page = 2\<rparr>"
  have s: "swap_ok sample_swapped"
    by (simp add: swap_ok_def sample_swapped_def sample_vmem_def disk_ok_def bitmap_ok_def Bitmap.elem_cnt_def DIV_ROUND_UP_def BITMAP_ERROR_def)
  have b: "bools \<lparr>bit_cnt = 1, bits = [0]\<rparr> = [False]" by code_simp
  have f: "0 < bit_cnt (swap_bitmap sample_swapped)" "0 \<notin> bm.used (swap_bitmap sample_swapped)"
    using b by (simp_all add: sample_swapped_def sample_vmem_def bm.used_def)
  have p: "pages sample_swapped 2 = Some ?pg" "frames sample_swapped (page_frame ?pg) = Some ?fr" "pg_ofs (frame_kva ?fr) = 0"
    by (simp_all add: sample_swapped_def pg_ofs_def)
  have m: "space_ok (cur_pml4 sample_swapped) (mm sample_swapped)" "is_user_vaddr (page_va ?pg)"
    using sample_mmu_ok by (simp_all add: sample_swapped_def sample_vmem_def is_user_vaddr_def is_kernel_vaddr_def KERN_BASE_def)
  obtain s1 sl where o: "anon_swap_out 2 sample_swapped = Some (s1, True)" "swap_ok s1"
    "frames s1 = frames sample_swapped" "pages s1 = (pages sample_swapped)(2 \<mapsto> ?pg\<lparr>swap_slot := sl\<rparr>)"
    "bm.used (swap_bitmap s1) = insert (unat sl) (bm.used (swap_bitmap sample_swapped))"
    "\<forall>s2 pg2 fr2. swap_ok s2 \<and> pages s2 2 = Some pg2 \<and> swap_slot pg2 = sl \<and> unat sl \<in> bm.used (swap_bitmap s2) \<and>
        slot_bytes (swap_disk s2) (unat sl) = slot_bytes (swap_disk s1) (unat sl) \<and>
        frames s2 (page_frame pg2) = Some fr2 \<and> pg_ofs (frame_kva fr2) = 0 \<longrightarrow>
      (\<exists>s3. anon_swap_in 2 s2 = Some (s3, True) \<and> swap_ok s3 \<and>
        load_bytes (mem_of s3) (frame_kva fr2) PGSIZE = load_bytes (mem_of sample_swapped) (frame_kva ?fr) PGSIZE \<and>
        (\<forall>a. pg_no a \<noteq> pg_no (frame_kva fr2) \<longrightarrow> mem_of s3 a = mem_of s2 a) \<and>
        bm.used (swap_bitmap s3) = bm.used (swap_bitmap s2) - {unat sl} \<and>
        slot_bytes (swap_disk s3) = slot_bytes (swap_disk s2))"
    using swap_roundtrip [OF s p f m] by metis
  have u: "unat sl \<in> bm.used (swap_bitmap s1)" using o(5) by simp
  have p1: "pages s1 2 = Some (?pg\<lparr>swap_slot := sl\<rparr>)" "swap_slot (?pg\<lparr>swap_slot := sl\<rparr>) = sl"
    "frames s1 (page_frame (?pg\<lparr>swap_slot := sl\<rparr>)) = Some ?fr"
    using o(3,4) p(2) by simp_all
  have "\<exists>s3. anon_swap_in 2 s1 = Some (s3, True) \<and>
      load_bytes (mem_of s3) (frame_kva ?fr) PGSIZE = load_bytes (mem_of sample_swapped) (frame_kva ?fr) PGSIZE"
    using o(6) [rule_format, OF conjI [OF o(2) conjI [OF p1(1) conjI [OF p1(2) conjI [OF u conjI [OF refl conjI [OF p1(3) p(3)]]]]]]]
    by blast
  then show ?thesis using o(1) by (auto simp: sample_swapped_def sample_vmem_def sample_mmu_def)
qed

end
