(* ===== verification/UserMem.thy ===== *)
theory UserMem
  imports VmSwap
begin

text \<open>
  Access to the memory of a process: what the processor does with an address of the process, with
  the handler of page faults of userprog/exception.c. The kernel runs on the page tables of the
  current process, so it uses the same addresses; a page that is still pending is brought in by the
  access, and an access that the handler refuses ends the process with status -1.
\<close>

section \<open>One access\<close>

abbreviation (input) PF_P :: u64 where "PF_P \<equiv> 1"
abbreviation (input) PF_W :: u64 where "PF_W \<equiv> 2"

text \<open>The result is whether the access is tried again; otherwise the handler calls \<open>exit (-1)\<close>.\<close>

definition page_fault :: "u64 \<Rightarrow> u64 \<Rightarrow> u64 \<Rightarrow> vmem \<Rightarrow> (vmem \<times> bool) option" where
  "page_fault error_code rsp fault_addr s =
     (let not_present = (error_code AND PF_P = 0) in vm_try_handle_fault rsp fault_addr not_present s)"

text \<open>The entry of the page tables for an address, 0 when a table is missing on the way.\<close>

definition user_entry :: "u64 \<Rightarrow> vmem \<Rightarrow> u64 option" where
  "user_entry va s = do {
     (r, pte) \<leftarrow> pml4e_walk (cur_pml4 s) va False (ram (mm s));
     Some (if pte = NULL then 0 else load64 (memory r) pte) }"

definition allowed :: "bool \<Rightarrow> u64 \<Rightarrow> bool" where
  "allowed wr e \<longleftrightarrow> e AND PTE_P \<noteq> 0 \<and> (wr \<longrightarrow> e AND PTE_W \<noteq> 0)"

text \<open>
  The address in the kernel's mapping at which an access takes place, or None when it ends the
  process. An access that is refused again after the handler returned would go on for ever.
\<close>

definition user_access :: "bool \<Rightarrow> u64 \<Rightarrow> u64 \<Rightarrow> vmem \<Rightarrow> (vmem \<times> addr option) option" where
  "user_access wr rsp va s =
     (if is_kernel_vaddr va then Some (s, Some (unat va))
      else do {
        e \<leftarrow> user_entry va s;
        if allowed wr e then Some (s, Some (ptov (PTE_ADDR e) + pg_ofs (unat va)))
        else do {
          (s, ok) \<leftarrow> page_fault ((if e AND PTE_P \<noteq> 0 then PF_P else 0) OR (if wr then PF_W else 0)) rsp va s;
          if \<not> ok then Some (s, None)
          else do {
            e \<leftarrow> user_entry va s;
            ASSERT (allowed wr e);
            Some (s, Some (ptov (PTE_ADDR e) + pg_ofs (unat va))) } } })"

definition put_user :: "u64 \<Rightarrow> u64 \<Rightarrow> u8 \<Rightarrow> vmem \<Rightarrow> (vmem \<times> bool) option" where
  "put_user rsp va b s = do {
     (s, a) \<leftarrow> user_access True rsp va s;
     case a of
       None \<Rightarrow> Some (s, False)
     | Some k \<Rightarrow> Some (set_mem ((mem_of s)(k := b)) s, True) }"

definition get_user :: "u64 \<Rightarrow> u64 \<Rightarrow> vmem \<Rightarrow> (vmem \<times> u8 option) option" where
  "get_user rsp va s = do {
     (s, a) \<leftarrow> user_access False rsp va s;
     case a of
       None \<Rightarrow> Some (s, None)
     | Some k \<Rightarrow> Some (s, Some (mem_of s k)) }"

section \<open>Blocks and strings\<close>

fun put_users :: "u64 \<Rightarrow> u64 \<Rightarrow> u8 list \<Rightarrow> vmem \<Rightarrow> (vmem \<times> bool) option" where
  "put_users rsp va [] s = Some (s, True)"
| "put_users rsp va (b # bs) s = do {
     (s, ok) \<leftarrow> put_user rsp va b s;
     if ok then put_users rsp (va + 1) bs s else Some (s, False) }"

fun get_users :: "u64 \<Rightarrow> u64 \<Rightarrow> nat \<Rightarrow> vmem \<Rightarrow> (vmem \<times> u8 list option) option" where
  "get_users rsp va 0 s = Some (s, Some [])"
| "get_users rsp va (Suc n) s = do {
     (s, b) \<leftarrow> get_user rsp va s;
     case b of
       None \<Rightarrow> Some (s, None)
     | Some b \<Rightarrow> do {
         (s, bs) \<leftarrow> get_users rsp (va + 1) n s;
         Some (s, map_option ((#) b) bs) } }"

text \<open>The string at an address of the process, up to its terminator.\<close>

partial_function (option) get_user_string :: "u64 \<Rightarrow> u64 \<Rightarrow> vmem \<Rightarrow> (vmem \<times> u8 list option) option" where
  "get_user_string rsp va s = do {
     r \<leftarrow> get_user rsp va s;
     case snd r of
       None \<Rightarrow> Some (fst r, None)
     | Some b \<Rightarrow>
         if b = 0 then Some (fst r, Some [])
         else do {
           q \<leftarrow> get_user_string rsp (va + 1) (fst r);
           Some (fst q, map_option ((#) b) (snd q)) } }"

section \<open>Pages that are mapped\<close>

lemma user_entry_page:
  assumes "space_ok (cur_pml4 s) (mm s)" "is_user_vaddr va"
  shows "user_entry va s = Some (page_entry (cur_pml4 s) (pg_no (unat va)) (mm s))"
  using assms pml4e_walk_look [of "ram (mm s)" "cur_pml4 s" va]
  by (simp add: user_entry_def space_ok_def path_of_va page_entry_def entry_def)

text \<open>A user page mapped to a frame at \<open>kva\<close> that holds no table.\<close>

definition mapped_at :: "vmem \<Rightarrow> nat \<Rightarrow> addr \<Rightarrow> bool \<Rightarrow> bool" where
  "mapped_at s n kva wr \<longleftrightarrow> space_ok (cur_pml4 s) (mm s) \<and> pg_ofs kva = 0 \<and> kva \<noteq> NULL \<and>
     (let e = page_entry (cur_pml4 s) n (mm s) in frame_of e 0 = kva \<and> (wr \<longrightarrow> e AND PTE_W \<noteq> 0)) \<and>
     pg_no kva \<notin> tabs (ram (mm s)) 3 (cur_pml4 s)"

lemma user_access_mapped:
  assumes "mapped_at s (pg_no (unat va)) kva w" "is_user_vaddr va" "wr \<longrightarrow> w"
  shows "user_access wr rsp va s = Some (s, Some (kva + pg_ofs (unat va)))"
  using assms user_entry_page [of s va]
  by (auto simp: user_access_def is_user_vaddr_def mapped_at_def Let_def allowed_def frame_of_def split: if_splits)

lemma put_user_mapped:
  assumes "mapped_at s (pg_no (unat va)) kva True" "is_user_vaddr va"
  shows "put_user rsp va b s = Some (set_mem ((mem_of s)(kva + pg_ofs (unat va) := b)) s, True)"
  using user_access_mapped [OF assms] by (simp add: put_user_def)

lemma get_user_mapped:
  assumes "mapped_at s (pg_no (unat va)) kva w" "is_user_vaddr va"
  shows "get_user rsp va s = Some (s, Some (mem_of s (kva + pg_ofs (unat va))))"
  using user_access_mapped [OF assms, of False] by (simp add: get_user_def)

text \<open>Storing in the frame keeps the mapping.\<close>

lemma mapped_at_store:
  assumes "mapped_at s n kva w" "\<forall>a. pg_no a \<noteq> pg_no kva \<longrightarrow> m a = mem_of s a"
  shows "mapped_at (set_mem m s) n kva w"
proof -
  let ?r = "(ram (mm s))\<lparr>memory := m\<rparr>"
  have sp: "space_ok (cur_pml4 s) (mm s)" "{pg_no kva} \<inter> tabs (ram (mm s)) 3 (cur_pml4 s) = {}"
    using assms(1) by (simp_all add: mapped_at_def)
  have same: "same_on (- {pg_no kva}) (ram (mm s)) ?r" using assms(2) by (simp add: same_on_def)
  have ok: "in_use ?r = in_use (ram (mm s))" "mem_ok ?r"
    using sp(1) by (auto simp: in_use_def mem_ok_def palloc_ok_def space_ok_def)
  have t: "tree_ok (ram (mm s)) 3 (cur_pml4 s)" using sp(1) by (simp add: space_ok_def)
  have "same_on (tabs (ram (mm s)) 3 (cur_pml4 s)) (ram (mm s)) ?r"
    by (rule same_on_subset [OF same]) (use sp(2) in blast)
  note keep = tree_same [OF t this]
  show ?thesis
    using assms(1) space_write [OF sp(1) same sp(2) ok] keep(1)
    by (simp add: mapped_at_def set_mem_def set_ram_def)
qed

section \<open>Blocks within a page\<close>

lemma set_mem_simps [simp]: "mem_of (set_mem m s) = m" "set_mem m (set_mem m' s) = set_mem m s"
  by (simp_all add: set_mem_def set_ram_def)

lemma next_in_page:
  assumes "pg_ofs (unat a) + 1 < PGSIZE"
  shows "unat (a + 1 :: u64) = unat a + 1" "pg_no (unat (a + 1)) = pg_no (unat a)" "pg_ofs (unat (a + 1)) = pg_ofs (unat a) + 1"
    "is_user_vaddr (a + 1) = is_user_vaddr a"
proof -
  have s: "unat a = 4096 * pg_no (unat a) + pg_ofs (unat a)" using pg_split(1) [of "unat a"] by simp
  have p: "pg_no (unat a) < 4503599627370496" using unat_u64 [of a] by (simp add: pg_no_def div_less_iff_less_mult)
  have "unat a + 1 < 18446744073709551616" using s p assms by linarith
  then have "unat a + 1 < 2 ^ 64" by simp
  then show u: "unat (a + 1) = unat a + 1" by (simp add: unat_plus64)
  have n: "unat (a + 1) = 4096 * pg_no (unat a) + (pg_ofs (unat a) + 1)" unfolding u using s by linarith
  show no: "pg_no (unat (a + 1)) = pg_no (unat a)" unfolding n pg_no_def using assms by (intro div_nat_eqI) simp_all
  show "pg_ofs (unat (a + 1)) = pg_ofs (unat a) + 1"
    using pg_split(1) [of "unat (a + 1)"] n no by linarith
  have "is_user_vaddr x \<longleftrightarrow> pg_no (unat x) < pg_no (unat KERN_BASE)" for x :: u64
  proof -
    have "unat KERN_BASE = 4096 * pg_no (unat KERN_BASE)" by (simp add: unat_KERN_BASE pg_no_def)
    moreover have "unat x = 4096 * pg_no (unat x) + pg_ofs (unat x)" "pg_ofs (unat x) < 4096"
      using pg_split(1) [of "unat x"] by (simp_all add: pg_ofs_def)
    ultimately have "unat x < unat KERN_BASE \<longleftrightarrow> pg_no (unat x) < pg_no (unat KERN_BASE)" by linarith
    then show ?thesis by (simp add: is_user_vaddr_def is_kernel_vaddr_def word_le_nat_alt not_le)
  qed
  then show "is_user_vaddr (a + 1) = is_user_vaddr a" using no by simp
qed

lemma load_bytes_Suc: "load_bytes m a (Suc n) = m a # load_bytes m (Suc a) n"
  by (simp add: load_bytes_def upt_conv_Cons map_Suc_upt [symmetric] del: upt_Suc)

lemma store_bytes_Cons: "store_bytes m a (b # bs) = store_bytes (m(a := b)) (Suc a) bs"
  by (rule ext) (auto simp: store_bytes_def nth_Cons')

lemma get_users_mapped:
  assumes "mapped_at s (pg_no (unat a)) kva w" "is_user_vaddr a" "pg_ofs (unat a) + n \<le> PGSIZE"
  shows "get_users rsp a n s = Some (s, Some (load_bytes (mem_of s) (kva + pg_ofs (unat a)) n))"
  using assms
proof (induction n arbitrary: a)
  case 0
  then show ?case by (simp add: load_bytes_def)
next
  case (Suc n)
  have "get_users rsp (a + 1) n s = Some (s, Some (load_bytes (mem_of s) (Suc (kva + pg_ofs (unat a))) n))"
  proof (cases n)
    case 0
    then show ?thesis by (simp add: load_bytes_def)
  next
    case (Suc k)
    then have "pg_ofs (unat a) + 1 < PGSIZE" using Suc.prems(3) by simp
    note next_in_page [OF this]
    then show ?thesis using Suc.IH [of "a + 1"] Suc.prems by simp
  qed
  then show ?case using get_user_mapped [OF Suc.prems(1,2), of rsp] by (simp add: load_bytes_Suc)
qed

lemma put_users_mapped:
  assumes "mapped_at s (pg_no (unat a)) kva True" "is_user_vaddr a" "pg_ofs (unat a) + length bs \<le> PGSIZE"
  shows "put_users rsp a bs s = Some (set_mem (store_bytes (mem_of s) (kva + pg_ofs (unat a)) bs) s, True)"
  using assms
proof (induction bs arbitrary: a s)
  case Nil
  have "store_bytes m x [] = m" for m x by (rule ext) (auto simp: store_bytes_def)
  moreover have "set_mem (mem_of s) s = s" by (simp add: set_mem_def set_ram_def)
  ultimately show ?case by simp
next
  case (Cons b bs)
  let ?x = "kva + pg_ofs (unat a)"
  let ?s = "set_mem ((mem_of s)(?x := b)) s"
  have kva: "pg_ofs kva = 0" using Cons.prems(1) by (simp add: mapped_at_def)
  have ofs: "pg_ofs (unat a) < PGSIZE" by (simp add: pg_ofs_def)
  have "pg_no ?x = pg_no kva"
    using kva ofs unfolding pg_no_def pg_ofs_def by (auto elim!: dvdE simp: dvd_eq_mod_eq_0 [symmetric])
  then have m: "mapped_at ?s (pg_no (unat a)) kva True" using mapped_at_store [OF Cons.prems(1)] by auto
  have "put_users rsp (a + 1) bs ?s = Some (set_mem (store_bytes ((mem_of s)(?x := b)) (Suc ?x) bs) s, True)"
  proof (cases bs)
    case Nil
    have "store_bytes m x [] = m" for m x by (rule ext) (auto simp: store_bytes_def)
    then show ?thesis using Nil by simp
  next
    case (Cons c cs)
    then have "pg_ofs (unat a) + 1 < PGSIZE" using Cons.prems(3) by simp
    note nx = next_in_page [OF this]
    have "put_users rsp (a + 1) bs ?s = Some (set_mem (store_bytes (mem_of ?s) (kva + pg_ofs (unat (a + 1))) bs) ?s, True)"
      by (rule Cons.IH) (use m nx Cons.prems(2,3) in simp_all)
    then show ?thesis using nx(3) by simp
  qed
  then show ?case using put_user_mapped [OF Cons.prems(1,2), of rsp b] by (simp add: store_bytes_Cons)
qed

end
