(* ===== verification/Process.thy ===== *)
theory Process
  imports StringLib FileSys UserMem
begin

text \<open>
  Processes: userprog/process.c. The state is that of virtual memory and what the current thread
  owns besides: its executable, its table of file descriptors, its exit status, and the bytes on the
  console and from the keyboard. The saved registers of a process are a record; the processor is
  started on them at the end. What the kernel prints about a failed load is left out; the waiting
  between parents and children is in Lifecycle.
\<close>

section \<open>The state\<close>

abbreviation (input) FDCOUNT_LIMIT :: int where "FDCOUNT_LIMIT \<equiv> 3 * 2 ^ 9"

record process =
  vm :: vmem
  runn_file :: addr
  fdt :: "addr list"
  fd_index :: int
  exit_status :: int
  console :: "u8 list"
  keys :: "u8 list"

record intr_frame =
  reg_rax :: u64
  reg_rdi :: u64
  reg_rsi :: u64
  reg_rdx :: u64
  reg_r10 :: u64
  reg_r8 :: u64
  reg_rip :: u64
  reg_rsp :: u64
  reg_cs :: u16
  reg_ds :: u16
  reg_es :: u16
  reg_ss :: u16
  reg_eflags :: u64

text \<open>A string of the kernel.\<close>

definition kernel_string :: "mem \<Rightarrow> addr \<Rightarrow> u8 list option" where
  "kernel_string m p = do { n \<leftarrow> strlen m p; Some (load_bytes m p n) }"

section \<open>Executable files\<close>

record elf_hdr =
  e_ident :: "u8 list"
  e_type :: nat
  e_machine :: nat
  e_version :: nat
  e_entry :: u64
  e_phoff :: u64
  e_phentsize :: nat
  e_phnum :: nat

record elf_phdr =
  p_type :: nat
  p_flags :: u32
  p_offset :: u64
  p_vaddr :: u64
  p_filesz :: u64
  p_memsz :: u64

text \<open>The number in \<open>n\<close> bytes at offset \<open>i\<close>.\<close>

definition field :: "nat \<Rightarrow> nat \<Rightarrow> u8 list \<Rightarrow> nat" where
  "field i n bs = le_nat (take n (drop i bs))"

definition bytes_elf :: "u8 list \<Rightarrow> elf_hdr" where
  "bytes_elf bs = \<lparr>e_ident = take 16 bs, e_type = field 16 2 bs, e_machine = field 18 2 bs, e_version = field 20 4 bs,
     e_entry = of_nat (field 24 8 bs), e_phoff = of_nat (field 32 8 bs), e_phentsize = field 54 2 bs, e_phnum = field 56 2 bs\<rparr>"

definition bytes_phdr :: "u8 list \<Rightarrow> elf_phdr" where
  "bytes_phdr bs = \<lparr>p_type = field 0 4 bs, p_flags = of_nat (field 4 4 bs), p_offset = of_nat (field 8 8 bs),
     p_vaddr = of_nat (field 16 8 bs), p_filesz = of_nat (field 32 8 bs), p_memsz = of_nat (field 40 8 bs)\<rparr>"

abbreviation (input) PT_LOAD :: nat where "PT_LOAD \<equiv> 1"
abbreviation (input) PT_DYNAMIC :: nat where "PT_DYNAMIC \<equiv> 2"
abbreviation (input) PT_INTERP :: nat where "PT_INTERP \<equiv> 3"
abbreviation (input) PT_SHLIB :: nat where "PT_SHLIB \<equiv> 5"
abbreviation (input) PF_WRITE :: u32 where "PF_WRITE \<equiv> 2"
abbreviation (input) PGMASK :: u64 where "PGMASK \<equiv> 0xFFF"

definition elf_magic :: "u8 list" where "elf_magic = [0x7F, 0x45, 0x4C, 0x46, 2, 1, 1]"

definition elf_ok :: "elf_hdr \<Rightarrow> bool" where
  "elf_ok h \<longleftrightarrow> take 7 (e_ident h) = elf_magic \<and> e_type h = 2 \<and> e_machine h = 0x3E \<and> e_version h = 1 \<and>
     e_phentsize h = 56 \<and> e_phnum h \<le> 1024"

text \<open>\<open>flen\<close> is the length of the file.\<close>

definition validate_segment :: "elf_phdr \<Rightarrow> int \<Rightarrow> bool" where
  "validate_segment ph flen \<longleftrightarrow>
     p_offset ph AND PGMASK = p_vaddr ph AND PGMASK \<and>
     \<not> p_offset ph > of_int flen \<and>
     \<not> p_memsz ph < p_filesz ph \<and>
     p_memsz ph \<noteq> 0 \<and>
     is_user_vaddr (p_vaddr ph) \<and>
     is_user_vaddr (p_vaddr ph + p_memsz ph) \<and>
     \<not> p_vaddr ph + p_memsz ph < p_vaddr ph \<and>
     \<not> p_vaddr ph < 4096"

section \<open>Segments\<close>

text \<open>The loop of \<open>load_segment\<close>, one pending page in each round.\<close>

partial_function (option) load_segment_loop ::
    "addr \<Rightarrow> int \<Rightarrow> u64 \<Rightarrow> u32 \<Rightarrow> u32 \<Rightarrow> bool \<Rightarrow> vmem \<Rightarrow> (vmem \<times> bool) option" where
  "load_segment_loop f ofs upage rb zb wr s =
     (if rb > 0 \<or> zb > 0 then do {
        let prb = (if rb < 4096 then rb else 4096);
        let pzb = 4096 - prb;
        let c = calloc s;
        if snd c = NULL then Some (fst c, False)
        else do {
          let s = (fst c)\<lparr>infos := (infos (fst c))(snd c \<mapsto> \<lparr>fi_file = f, fi_ofs = ofs, read_bytes = unat rb,
                     page_read_bytes = unat prb, page_zero_bytes = unat pzb\<rparr>)\<rparr>;
          r \<leftarrow> vm_alloc_page_with_initializer VM_ANON upage wr lazy_load_init (snd c) s;
          if \<not> snd r then Some (fst r, False)
          else load_segment_loop f (int32 (ofs + uint prb)) (upage + 4096) (rb - prb) (zb - pzb) wr (fst r) } }
      else Some (s, True))"

definition load_segment :: "addr \<Rightarrow> int \<Rightarrow> u64 \<Rightarrow> u32 \<Rightarrow> u32 \<Rightarrow> bool \<Rightarrow> vmem \<Rightarrow> (vmem \<times> bool) option" where
  "load_segment f ofs upage rb zb wr s = do {
     ASSERT ((rb + zb) mod 4096 = 0);
     ASSERT (pg_ofs (unat upage) = 0);
     ASSERT (cmod ofs 4096 = 0);
     load_segment_loop f ofs upage rb zb wr s }"

text \<open>Files mapped on request: every page is one of the file, up to the file's length.\<close>

function mmap_load_loop :: "addr \<Rightarrow> int \<Rightarrow> u64 \<Rightarrow> nat \<Rightarrow> bool \<Rightarrow> vmem \<Rightarrow> (vmem \<times> bool) option" where
  "mmap_load_loop f ofs upage rb wr s =
     (if rb > 0 then do {
        let prb = (if rb < 4096 then rb else 4096);
        let c = calloc s;
        if snd c = NULL then Some (fst c, False)
        else do {
          let s = (fst c)\<lparr>infos := (infos (fst c))(snd c \<mapsto> \<lparr>fi_file = f, fi_ofs = ofs, read_bytes = rb,
                     page_read_bytes = prb, page_zero_bytes = 4096 - prb\<rparr>)\<rparr>;
          r \<leftarrow> vm_alloc_page_with_initializer VM_FILE upage wr lazy_load_init (snd c) s;
          if \<not> snd r then Some (fst r, False)
          else mmap_load_loop f (int32 (ofs + int prb)) (upage + 4096) (rb - prb) wr (fst r) } }
      else Some (s, True))"
  by pat_completeness auto
termination by (relation "measure (\<lambda>(f, ofs, upage, rb, wr, s). rb)") auto

declare mmap_load_loop.simps [simp del]

definition mmap_load_segment :: "addr \<Rightarrow> int \<Rightarrow> u64 \<Rightarrow> nat \<Rightarrow> bool \<Rightarrow> vmem \<Rightarrow> (vmem \<times> bool) option" where
  "mmap_load_segment f ofs upage len wr s = do {
     n \<leftarrow> file_length f (fsys s);
     (fs, f) \<leftarrow> file_reopen f (fsys s);
     mmap_load_loop f ofs upage (unat (of_int n :: u64)) wr (s\<lparr>fsys := fs\<rparr>) }"

text \<open>\<open>hash_delete\<close> on the table of the current thread, with the outcome of the request for memory.\<close>

definition spt_delete :: "addr \<Rightarrow> vmem \<Rightarrow> vmem option" where
  "spt_delete p s = do {
     let key = spt_key s 0;
     (s, ok) \<leftarrow> Some (heap_ok s);
     (h, old) \<leftarrow> hash_delete (spt_hash_func key) (spt_hash_less_func key) ok (spt s) p;
     Some (s\<lparr>spt := h\<rparr>) }"

function munmap_loop :: "addr \<Rightarrow> u64 \<Rightarrow> nat \<Rightarrow> vmem \<Rightarrow> vmem option" where
  "munmap_loop p uaddr rb s =
     (if p \<noteq> NULL \<and> rb \<noteq> 0 then do {
        s \<leftarrow> spt_delete p s;
        s \<leftarrow> vm_dealloc_page p s;
        munmap_loop (spt_find_page s (spt s) (uaddr + 4096)) (uaddr + 4096) (if rb < 4096 then 0 else rb - 4096) s }
      else Some s)"
  by pat_completeness auto
termination by (relation "measure (\<lambda>(p, uaddr, rb, s). rb)") auto

declare munmap_loop.simps [simp del]

definition do_munmap :: "u64 \<Rightarrow> vmem \<Rightarrow> vmem option" where
  "do_munmap uaddr s = do {
     let p = spt_find_page s (spt s) uaddr;
     if p = NULL then Some s
     else do {
       pg \<leftarrow> pages s p;
       ty \<leftarrow> page_get_type pg;
       if ty \<noteq> VM_FILE then Some s
       else do {
         info \<leftarrow> infos s (aux_ptr pg);
         munmap_loop p uaddr (read_bytes info) s } } }"

section \<open>Loading an executable\<close>

text \<open>The new stack pointer when the page at the top of the user stack could be claimed.\<close>

definition setup_stack :: "vmem \<Rightarrow> (vmem \<times> u64 option) option" where
  "setup_stack s = do {
     let stack_bottom = USER_STACK - 4096;
     (s, ok) \<leftarrow> vm_alloc_page (VM_ANON OR VM_MARKER_0) stack_bottom True s;
     if ok then do {
       (s, success) \<leftarrow> vm_claim_page stack_bottom s;
       Some (s, if success then Some USER_STACK else None) }
     else Some (s, None) }"

text \<open>The program headers; \<open>n\<close> of them remain.\<close>

fun load_headers :: "addr \<Rightarrow> nat \<Rightarrow> int \<Rightarrow> vmem \<Rightarrow> (vmem \<times> bool) option" where
  "load_headers f 0 file_ofs s = Some (s, True)"
| "load_headers f (Suc n) file_ofs s = do {
     flen \<leftarrow> file_length f (fsys s);
     if file_ofs < 0 \<or> file_ofs > flen then Some (s, False)
     else do {
       fs \<leftarrow> file_seek f file_ofs (fsys s);
       (fs, bs) \<leftarrow> file_read f 56 fs;
       let s = s\<lparr>fsys := fs\<rparr>;
       let ph = bytes_phdr bs;
       let file_ofs = int32 (file_ofs + 56);
       if length bs \<noteq> 56 then Some (s, False)
       else if p_type ph = PT_DYNAMIC \<or> p_type ph = PT_INTERP \<or> p_type ph = PT_SHLIB then Some (s, False)
       else if p_type ph = PT_LOAD then do {
         flen \<leftarrow> file_length f (fsys s);
         if validate_segment ph flen then do {
           let wr = (p_flags ph AND PF_WRITE \<noteq> 0);
           let file_page = p_offset ph AND NOT PGMASK;
           let mem_page = p_vaddr ph AND NOT PGMASK;
           let page_offset = p_vaddr ph AND PGMASK;
           let total = (page_offset + p_memsz ph + 4096 - 1) div 4096 * 4096;
           let rb = (if p_filesz ph > 0 then ucast (page_offset + p_filesz ph) else 0 :: u32);
           let zb = (if p_filesz ph > 0 then ucast (total - ucast rb) else ucast total :: u32);
           (s, ok) \<leftarrow> load_segment f (int32 (uint file_page)) mem_page rb zb wr s;
           if ok then load_headers f n file_ofs s else Some (s, False) }
         else Some (s, False) }
       else load_headers f n file_ofs s } }"

definition load :: "u8 list \<Rightarrow> intr_frame \<Rightarrow> process \<Rightarrow> (process \<times> intr_frame \<times> bool) option" where
  "load file_name fr p = do {
     (m, pml4) \<leftarrow> pml4_create (mm (vm p));
     let p = p\<lparr>vm := (vm p)\<lparr>mm := m, cur_pml4 := pml4\<rparr>\<rparr>;
     if pml4 = NULL then Some (p, fr, False)
     else do {
       m \<leftarrow> pml4_activate pml4 m;
       (fs, f) \<leftarrow> filesys_open file_name (fsys (vm p));
       let p = p\<lparr>vm := (vm p)\<lparr>mm := m, fsys := fs\<rparr>\<rparr>;
       if f = NULL then Some (p, fr, False)
       else do {
         fs \<leftarrow> file_deny_write f fs;
         (fs, bs) \<leftarrow> file_read f 64 fs;
         let p = p\<lparr>vm := (vm p)\<lparr>fsys := fs\<rparr>, runn_file := f\<rparr>;
         let ehdr = bytes_elf bs;
         if length bs \<noteq> 64 \<or> \<not> elf_ok ehdr then Some (p, fr, False)
         else do {
           (v, ok) \<leftarrow> load_headers f (e_phnum ehdr) (int32 (uint (e_phoff ehdr))) (vm p);
           if \<not> ok then Some (p\<lparr>vm := v\<rparr>, fr, False)
           else do {
             (v, sp) \<leftarrow> setup_stack v;
             let p = p\<lparr>vm := v\<rparr>;
             case sp of
               None \<Rightarrow> Some (p, fr, False)
             | Some sp \<Rightarrow> Some (p, fr\<lparr>reg_rsp := sp, reg_rip := e_entry ehdr\<rparr>, True) } } } } }"

section \<open>Arguments\<close>

text \<open>
  Splitting the command line at its spaces. The delimiters are the string at \<open>d\<close>; \<open>parse\<close> has room
  for 64 pointers, and the loop does not check that.
\<close>

partial_function (option) parse_loop :: "addr \<Rightarrow> addr \<Rightarrow> addr \<Rightarrow> addr list \<Rightarrow> mem \<Rightarrow> (mem \<times> addr list) option" where
  "parse_loop d p save_ptr parse m = do {
     r \<leftarrow> strtok_r m p d save_ptr;
     if fst (snd r) = NULL then Some (fst r, parse)
     else do {
       ASSERT (length parse < 64);
       parse_loop d NULL (snd (snd r)) (parse @ [fst (snd r)]) (fst r) } }"

text \<open>The bytes of \<open>parse[i]\<close> with the terminator, from the last one down; \<open>n\<close> of them remain.\<close>

fun push_string :: "u64 \<Rightarrow> addr \<Rightarrow> nat \<Rightarrow> u64 \<Rightarrow> vmem \<Rightarrow> (vmem \<times> u64 option) option" where
  "push_string krsp p 0 sp s = Some (s, Some sp)"
| "push_string krsp p (Suc n) sp s = do {
     let sp = sp - 1;
     (s, ok) \<leftarrow> put_user krsp sp (mem_of s (p + n)) s;
     if ok then push_string krsp p n sp s else Some (s, None) }"

text \<open>The strings from the last one on, with the new value of \<open>parse\<close>.\<close>

fun push_strings :: "u64 \<Rightarrow> addr list \<Rightarrow> u64 list \<Rightarrow> u64 \<Rightarrow> vmem \<Rightarrow> (vmem \<times> (u64 \<times> u64 list) option) option" where
  "push_strings krsp [] parse sp s = Some (s, Some (sp, parse))"
| "push_strings krsp (p # ps) parse sp s = do {
     n \<leftarrow> strlen (mem_of s) p;
     (s, r) \<leftarrow> push_string krsp p (Suc n) sp s;
     case r of
       None \<Rightarrow> Some (s, None)
     | Some sp \<Rightarrow> push_strings krsp ps (sp # parse) sp s }"

fun push_padding :: "u64 \<Rightarrow> nat \<Rightarrow> u64 \<Rightarrow> vmem \<Rightarrow> (vmem \<times> u64 option) option" where
  "push_padding krsp 0 sp s = Some (s, Some sp)"
| "push_padding krsp (Suc n) sp s = do {
     let sp = sp - 1;
     (s, ok) \<leftarrow> put_user krsp sp 0 s;
     if ok then push_padding krsp n sp s else Some (s, None) }"

definition push_word :: "u64 \<Rightarrow> u64 \<Rightarrow> u64 \<Rightarrow> vmem \<Rightarrow> (vmem \<times> u64 option) option" where
  "push_word krsp w sp s = do {
     let sp = sp - 8;
     (s, ok) \<leftarrow> put_users krsp sp (le_bytes 8 (unat w)) s;
     Some (s, if ok then Some sp else None) }"

fun push_words :: "u64 \<Rightarrow> u64 list \<Rightarrow> u64 \<Rightarrow> vmem \<Rightarrow> (vmem \<times> u64 option) option" where
  "push_words krsp [] sp s = Some (s, Some sp)"
| "push_words krsp (w # ws) sp s = do {
     (s, r) \<leftarrow> push_word krsp w sp s;
     case r of None \<Rightarrow> Some (s, None) | Some sp \<Rightarrow> push_words krsp ws sp s }"

definition argument_stack :: "u64 \<Rightarrow> addr list \<Rightarrow> u64 \<Rightarrow> vmem \<Rightarrow> (vmem \<times> u64 option) option" where
  "argument_stack krsp parse sp s = do {
     (s, r) \<leftarrow> push_strings krsp (rev parse) [] sp s;
     case r of
       None \<Rightarrow> Some (s, None)
     | Some (sp, argv) \<Rightarrow> do {
         (s, r) \<leftarrow> push_padding krsp (nat (cmod (int32 (uint sp)) 8)) sp s;
         case r of
           None \<Rightarrow> Some (s, None)
         | Some sp \<Rightarrow> push_words krsp ([0] @ rev argv @ [0]) sp s } }"

section \<open>Replacing the program of a process\<close>

definition process_activate :: "process \<Rightarrow> process option" where
  "process_activate p = do {
     m \<leftarrow> pml4_activate (cur_pml4 (vm p)) (mm (vm p));
     Some (p\<lparr>vm := (vm p)\<lparr>mm := m\<rparr>\<rparr>) }"

definition process_cleanup :: "process \<Rightarrow> process option" where
  "process_cleanup p = do {
     v \<leftarrow> supplemental_page_table_kill (vm p);
     let pml4 = cur_pml4 v;
     if pml4 \<noteq> NULL then do {
       m \<leftarrow> pml4_activate NULL (mm v);
       m \<leftarrow> pml4_destroy pml4 m;
       Some (p\<lparr>vm := v\<lparr>cur_pml4 := NULL, mm := m\<rparr>\<rparr>) }
     else Some (p\<lparr>vm := v\<rparr>) }"

abbreviation (input) SEL_UDSEG :: u16 where "SEL_UDSEG \<equiv> 0x1B"
abbreviation (input) SEL_UCSEG :: u16 where "SEL_UCSEG \<equiv> 0x23"
abbreviation (input) FLAG_MBS :: u64 where "FLAG_MBS \<equiv> 2"
abbreviation (input) FLAG_IF :: u64 where "FLAG_IF \<equiv> 0x200"

text \<open>
  How \<open>process_exec\<close> ends: with -1, with the end of the process during the setup of its stack, or on
  the processor with the saved registers. \<open>d\<close> is the address of the string of delimiters and \<open>fr\<close>
  what the local frame contains at first.
\<close>

datatype exec_result = Exec_fails | Exec_killed | Exec_starts intr_frame

definition process_exec :: "u64 \<Rightarrow> addr \<Rightarrow> addr \<Rightarrow> intr_frame \<Rightarrow> process \<Rightarrow> (process \<times> exec_result) option" where
  "process_exec krsp d f_name fr p = do {
     let fr = fr\<lparr>reg_ds := SEL_UDSEG, reg_es := SEL_UDSEG, reg_ss := SEL_UDSEG, reg_cs := SEL_UCSEG,
                reg_eflags := FLAG_IF OR FLAG_MBS\<rparr>;
     p \<leftarrow> process_cleanup p;
     (m, parse) \<leftarrow> parse_loop d f_name NULL [] (mem_of (vm p));
     let p = p\<lparr>vm := set_mem m (vm p)\<rparr>;
     nm \<leftarrow> kernel_string m f_name;
     (p, fr, success) \<leftarrow> load nm fr p;
     if \<not> success then Some (p, Exec_fails)
     else do {
       (v, sp) \<leftarrow> argument_stack krsp parse (reg_rsp fr) (vm p);
       case sp of
         None \<Rightarrow> Some (p\<lparr>vm := v\<rparr>, Exec_killed)
       | Some sp \<Rightarrow> do {
           r \<leftarrow> palloc_free_page f_name (ram (mm v));
           Some (p\<lparr>vm := set_ram r v\<rparr>,
             Exec_starts (fr\<lparr>reg_rsp := sp, reg_rdi := of_nat (length parse), reg_rsi := sp + 8\<rparr>)) } } }"

section \<open>Copying a process\<close>

text \<open>The descriptors of the parent over those that the child was created with.\<close>

fun copy_fdt :: "addr list \<Rightarrow> addr list \<Rightarrow> fs \<Rightarrow> (fs \<times> addr list) option" where
  "copy_fdt (f # fs) (c # cs) s = do {
     (s, c) \<leftarrow> (if f = NULL then Some (s, c) else if f > 2 then file_duplicate f s else Some (s, f));
     (s, cs) \<leftarrow> copy_fdt fs cs s;
     Some (s, c # cs) }"
| "copy_fdt fs cs s = Some (s, cs)"

text \<open>
  What \<open>__do_fork\<close> does in the child before it starts on the parent's registers, given the parent's
  table of pages, descriptors and registers. Without a result the child exits with \<open>TID_ERROR\<close>.
\<close>

definition do_fork ::
    "addr htable \<Rightarrow> addr list \<Rightarrow> int \<Rightarrow> intr_frame \<Rightarrow> process \<Rightarrow> (process \<times> intr_frame option) option" where
  "do_fork parent_spt parent_fdt parent_fd_index parent_if p = do {
     let fr = parent_if\<lparr>reg_rax := 0\<rparr>;
     (m, pml4) \<leftarrow> pml4_create (mm (vm p));
     let p = p\<lparr>vm := (vm p)\<lparr>mm := m, cur_pml4 := pml4\<rparr>\<rparr>;
     if pml4 = NULL then Some (p, None)
     else do {
       p \<leftarrow> process_activate p;
       v \<leftarrow> supplemental_page_table_init (vm p);
       (v, ok) \<leftarrow> supplemental_page_table_copy parent_spt v;
       if \<not> ok then Some (p\<lparr>vm := v\<rparr>, None)
       else do {
         (fs, fds) \<leftarrow> copy_fdt parent_fdt (fdt p) (fsys v);
         Some (p\<lparr>vm := v\<lparr>fsys := fs\<rparr>, fdt := fds, fd_index := parent_fd_index\<rparr>, Some fr) } } }"

end
