(* ===== verification/ProcessLoad.thy ===== *)
theory ProcessLoad
  imports Process
begin

text \<open>
  Loading a segment of an executable: the pages that \<open>load_segment\<close> enters, and that their contents,
  one after the other, are the segment.
\<close>

section \<open>The pages of a segment\<close>

text \<open>What page \<open>i\<close> of a segment is described by, and the address of that page.\<close>

definition seg_info :: "addr \<Rightarrow> int \<Rightarrow> nat \<Rightarrow> nat \<Rightarrow> file_info" where
  "seg_info f ofs rb i = \<lparr>fi_file = f, fi_ofs = ofs + int (min rb (4096 * i)), read_bytes = rb - 4096 * i,
     page_read_bytes = min 4096 (rb - 4096 * i), page_zero_bytes = 4096 - min 4096 (rb - 4096 * i)\<rparr>"

definition seg_page :: "u64 \<Rightarrow> nat \<Rightarrow> u64" where "seg_page upage i = upage + of_nat (4096 * i)"

lemma seg_page_simps: "seg_page upage 0 = upage" "seg_page (upage + 4096) i = seg_page upage (Suc i)"
  by (simp_all add: seg_page_def algebra_simps)

lemma seg_info_Suc:
  "0 \<le> ofs \<Longrightarrow> seg_info f (ofs + int (min rb 4096)) (rb - min rb 4096) i = seg_info f ofs rb (Suc i)"
  by (auto simp: seg_info_def min_def)

lemma seg_bytes:
  assumes "0 \<le> ofs" "nat ofs + rb \<le> length fb" "4096 * (i + 1) \<le> rb + zb"
  shows "segment_bytes (seg_info f ofs rb i) fb =
    take 4096 (drop (4096 * i) (take rb (drop (nat ofs) fb) @ replicate zb 0))"
proof -
  let ?A = "take rb (drop (nat ofs) fb)"
  let ?r = "rb - 4096 * i"
  have l: "length ?A = rb" using assms(2) by simp
  have o: "nat (ofs + int (min rb (4096 * i))) = nat ofs + min rb (4096 * i)" using assms(1) by simp
  have "take 4096 (drop (4096 * i) ?A) = take (min 4096 ?r) (drop (nat ofs + min rb (4096 * i)) fb)"
  proof (cases "rb \<le> 4096 * i")
    case False
    then show ?thesis by (simp add: drop_take add.commute)
  qed simp
  moreover have "take (4096 - ?r) (drop (4096 * i - rb) (replicate zb (0 :: u8))) = replicate (4096 - min 4096 ?r) 0"
    using assms(3) by (auto simp: min_def)
  ultimately show ?thesis
    using l o by (simp add: segment_bytes_def seg_info_def)
qed

text \<open>One round of the loop, and all of them.\<close>

definition seg_step :: "u64 set \<Rightarrow> vmem \<Rightarrow> vmem \<Rightarrow> (u64 \<rightharpoonup> addr) \<Rightarrow> (u64 \<rightharpoonup> addr) \<Rightarrow> bool" where
  "seg_step K s s' m m' \<longleftrightarrow> spt_map s' (spt s') m' \<and> heap_fresh s' \<and> vheap s' = [] \<and> next_obj s \<le> next_obj s' \<and>
     (\<forall>a<next_obj s. pages s' a = pages s a \<and> infos s' a = infos s a) \<and> (\<forall>k. k \<notin> K \<longrightarrow> m' k = m k) \<and>
     mm s' = mm s \<and> fsys s' = fsys s \<and> frames s' = frames s \<and> frame_list s' = frame_list s \<and> cur_pml4 s' = cur_pml4 s \<and>
     swap_disk s' = swap_disk s \<and> swap_bitmap s' = swap_bitmap s"

definition seg_at :: "vmem \<Rightarrow> (u64 \<rightharpoonup> addr) \<Rightarrow> u64 \<Rightarrow> bool \<Rightarrow> file_info \<Rightarrow> addr \<Rightarrow> bool" where
  "seg_at s m uva wr info b \<longleftrightarrow> (\<exists>p ax. m uva = Some p \<and> b \<le> p \<and> p < next_obj s \<and> ax < next_obj s \<and>
     pages s p = Some (pending VM_ANON uva wr lazy_load_init ax) \<and> infos s ax = Some info)"

lemma seg_step_trans:
  assumes "seg_step K s s1 m m1" "seg_step L s1 s2 m1 m2"
  shows "seg_step (K \<union> L) s s2 m m2"
  using assms unfolding seg_step_def by fastforce

lemma seg_at_keep:
  assumes "seg_at s1 m1 k wr info b" "seg_step L s1 s2 m1 m2" "k \<notin> L" "b' \<le> b"
  shows "seg_at s2 m2 k wr info b'"
proof -
  obtain p ax where p: "m1 k = Some p" "b \<le> p" "p < next_obj s1" "ax < next_obj s1"
    "pages s1 p = Some (pending VM_ANON k wr lazy_load_init ax)" "infos s1 ax = Some info"
    using assms(1) unfolding seg_at_def by blast
  then have "m2 k = Some p" "b' \<le> p" "p < next_obj s2" "ax < next_obj s2"
    "pages s2 p = Some (pending VM_ANON k wr lazy_load_init ax)" "infos s2 ax = Some info"
    using assms(2-4) by (auto simp: seg_step_def)
  then show ?thesis unfolding seg_at_def by blast
qed

lemma load_segment_round:
  assumes t: "spt_map s (spt s) m" and f: "heap_fresh s" and h: "vheap s = []"
    and al: "pg_round_down upage = upage" and n: "m upage = None"
  shows "\<exists>s1 s2 m2. calloc s = (s1, next_obj s) \<and> next_obj s \<noteq> NULL \<and>
    vm_alloc_page_with_initializer VM_ANON upage wr lazy_load_init (next_obj s)
      (s1\<lparr>infos := (infos s1)(next_obj s \<mapsto> info)\<rparr>) = Some (s2, True) \<and>
    seg_step {upage} s s2 m m2 \<and> seg_at s2 m2 upage wr info (next_obj s)"
proof -
  let ?a = "next_obj s"
  define s1 where "s1 = s\<lparr>next_obj := Suc ?a\<rparr>"
  define s1' where "s1' = s1\<lparr>infos := (infos s1)(?a \<mapsto> info)\<rparr>"
  have c: "calloc s = (s1, ?a)" using h by (simp add: calloc_def heap_ok_def s1_def)
  have t1: "spt_map s1' (spt s1') m" using spt_map_pages [OF t, of s1'] by (simp add: s1'_def s1_def)
  have f1: "heap_fresh s1'" using f by (simp add: heap_fresh_def s1'_def s1_def)
  have v: "VM_TYPE VM_ANON = VM_ANON" by (simp add: VM_TYPE_def)
  obtain s2 ok where r: "vm_alloc_page_with_initializer VM_ANON upage wr lazy_load_init ?a s1' = Some (s2, ok)" "heap_fresh s2"
    "ok \<longleftrightarrow> m upage = None \<and> snd (heap_ok s1')" "vheap s1' = [] \<longrightarrow> vheap s2 = []"
    "spt_map s2 (spt s2) (if ok then m(upage \<mapsto> next_obj s1') else m)"
    "pages s2 = (if ok then (pages s1')(next_obj s1' \<mapsto> pending VM_ANON upage wr lazy_load_init ?a) else pages s1')"
    "s2 = s1'\<lparr>spt := spt s2, vheap := vheap s2, pages := pages s2, next_obj := next_obj s2\<rparr>"
    using alloc_page_cases [OF t1 f1 _ al, of VM_ANON wr lazy_load_init ?a] v by blast
  have h1: "vheap s1' = []" using h by (simp add: s1'_def s1_def)
  then have ok: ok using r(3) n by (simp add: heap_ok_def)
  let ?p = "next_obj s1'"
  have p: "?p = Suc ?a" by (simp add: s1'_def s1_def)
  have fld: "mm s2 = mm s" "fsys s2 = fsys s" "frames s2 = frames s" "frame_list s2 = frame_list s" "cur_pml4 s2 = cur_pml4 s"
    "swap_disk s2 = swap_disk s" "swap_bitmap s2 = swap_bitmap s" "infos s2 = (infos s)(?a \<mapsto> info)"
    by (subst r(7), simp add: s1'_def s1_def)+
  have pg: "pages s2 = (pages s)(?p \<mapsto> pending VM_ANON upage wr lazy_load_init ?a)" using r(6) ok by (simp add: s1'_def s1_def)
  have "pages s2 ?p \<noteq> None" by (simp add: pg)
  then have nx: "?p < next_obj s2" using r(2) by (meson heap_fresh_def leI)
  have m2: "spt_map s2 (spt s2) (m(upage \<mapsto> ?p))" using r(5) ok by simp
  have "seg_step {upage} s s2 m (m(upage \<mapsto> ?p))"
    unfolding seg_step_def using m2 r(2,4) h1 nx p fld pg by auto
  moreover have "seg_at s2 (m(upage \<mapsto> ?p)) upage wr info ?a"
    unfolding seg_at_def using nx p pg fld(8) by (intro exI [of _ ?p] exI [of _ ?a]) auto
  moreover have "?a \<noteq> NULL" using f by (simp add: heap_fresh_def)
  moreover have "vm_alloc_page_with_initializer VM_ANON upage wr lazy_load_init ?a s1' = Some (s2, True)" using r(1) ok by simp
  ultimately show ?thesis using c unfolding s1'_def by blast
qed

lemma seg_page_inj:
  assumes "unat upage + 4096 * n \<le> 2 ^ 64" "i < n" "j < n" "seg_page upage i = seg_page upage j"
  shows "i = j"
proof -
  have u: "unat (seg_page upage k) = unat upage + 4096 * k" if "k < n" for k
  proof -
    have k: "unat upage + 4096 * k < 2 ^ 64" using assms(1) that by linarith
    have w: "unat (of_nat (4096 * k) :: u64) = 4096 * k" by (rule unat_of_nat64) (use k in linarith)
    show ?thesis unfolding seg_page_def using unat_plus64 [of upage "of_nat (4096 * k)"] k unfolding w by blast
  qed
  have "unat upage + 4096 * i = unat upage + 4096 * j" using u [OF assms(2)] u [OF assms(3)] unfolding assms(4) by (rule trans [OF sym])
  then show ?thesis by simp
qed

lemma load_segment_loop_run:
  assumes "spt_map s (spt s) m" "heap_fresh s" "vheap s = []" "pg_round_down upage = upage"
    and "unat rb + unat zb = 4096 * n" "0 \<le> ofs" "ofs + int (unat rb) < 2 ^ 31" "unat upage + 4096 * n \<le> 2 ^ 64"
    and "\<forall>i<n. m (seg_page upage i) = None"
  shows "\<exists>s' m'. load_segment_loop f ofs upage rb zb wr s = Some (s', True) \<and>
    seg_step (seg_page upage ` {..<n}) s s' m m' \<and>
    (\<forall>i<n. seg_at s' m' (seg_page upage i) wr (seg_info f ofs (unat rb) i) (next_obj s))"
  using assms
proof (induction n arbitrary: s m upage rb zb ofs)
  case 0
  then have "rb = 0" "zb = 0" by (simp_all add: unat_eq_zero)
  then have "load_segment_loop f ofs upage rb zb wr s = Some (s, True)" by (subst load_segment_loop.simps) simp
  then show ?case using 0 by (intro exI [of _ s] exI [of _ m]) (simp add: seg_step_def)
next
  case (Suc n)
  define prb where "prb = (if rb < 4096 then rb else 4096 :: u32)"
  define pzb where "pzb = 4096 - prb"
  have lt: "rb < 4096 \<longleftrightarrow> unat rb < 4096" by (simp add: word_less_nat_alt)
  have prb: "unat prb = min (unat rb) 4096" by (auto simp: prb_def lt)
  have "prb \<le> 4096" using prb by (simp add: word_le_nat_alt)
  then have pzb: "unat pzb = 4096 - min (unat rb) 4096" using prb by (simp add: pzb_def unat_sub)
  have tot: "unat rb + unat zb = 4096 * n + 4096" using Suc.prems(5) by simp
  have "prb \<le> rb" using prb by (simp add: word_le_nat_alt)
  then have rb': "unat (rb - prb) = unat rb - min (unat rb) 4096" using prb by (simp add: unat_sub)
  have "4096 - min (unat rb) 4096 \<le> unat zb" using tot by (auto simp: min_def)
  then have "pzb \<le> zb" using pzb by (simp add: word_le_nat_alt)
  then have zb': "unat (zb - pzb) = unat zb - (4096 - min (unat rb) 4096)" using pzb by (simp add: unat_sub)
  have tot': "unat (rb - prb) + unat (zb - pzb) = 4096 * n" using tot rb' zb' by (simp add: min_def)
  have up: "uint prb = int (unat prb)" by simp
  have ofs': "int32 (ofs + uint prb) = ofs + int (min (unat rb) 4096)"
  proof -
    have "unat prb \<le> unat rb" using prb by simp
    then have "int (unat prb) \<le> int (unat rb)" by (simp only: of_nat_le_iff)
    then have "int32 (ofs + int (unat prb)) = ofs + int (unat prb)" using Suc.prems(6,7) by (intro int32_id) linarith+
    then show ?thesis unfolding up prb .
  qed
  have pos: "rb > 0 \<or> zb > 0" using tot by (auto simp: word_gt_0 unat_eq_zero [symmetric])
  define info where "info = seg_info f ofs (unat rb) 0"
  have info: "\<lparr>fi_file = f, fi_ofs = ofs, read_bytes = unat rb, page_read_bytes = unat prb, page_zero_bytes = unat pzb\<rparr> = info"
    by (simp add: info_def seg_info_def prb pzb min.commute)
  have none: "m upage = None" using Suc.prems(9) seg_page_simps(1) [of upage] by (metis zero_less_Suc)
  obtain s1 s2 m2 where r: "calloc s = (s1, next_obj s)" "next_obj s \<noteq> NULL"
    "vm_alloc_page_with_initializer VM_ANON upage wr lazy_load_init (next_obj s)
      (s1\<lparr>infos := (infos s1)(next_obj s \<mapsto> info)\<rparr>) = Some (s2, True)"
    "seg_step {upage} s s2 m m2" "seg_at s2 m2 upage wr info (next_obj s)"
    using load_segment_round [OF Suc.prems(1-4) none, of wr info] by blast
  have step: "load_segment_loop f ofs upage rb zb wr s =
      load_segment_loop f (ofs + int (min (unat rb) 4096)) (upage + 4096) (rb - prb) (zb - pzb) wr s2"
    by (subst load_segment_loop.simps)
      (use pos r(1-3) ofs' in \<open>simp add: prb_def [symmetric] pzb_def [symmetric] info Let_def\<close>)
  have al: "unat upage mod 4096 = 0"
    using unat_pg_round_down [of upage] Suc.prems(4) by (metis mod_mult_self1_is_0)
  show ?case
  proof (cases n)
    case 0
    have z: "rb - prb = 0" "zb - pzb = 0" using tot' 0 by (simp_all add: unat_eq_zero [symmetric])
    have "load_segment_loop f ofs upage rb zb wr s = Some (s2, True)"
      unfolding step z by (subst load_segment_loop.simps) simp
    then show ?thesis using r(4,5) 0 seg_page_simps(1) [of upage]
      by (intro exI [of _ s2] exI [of _ m2]) (simp add: info_def lessThan_Suc)
  next
    case (Suc n')
    have "unat upage + 4096 < 2 ^ 64" using Suc.prems(8) Suc by simp
    then have u: "unat (upage + 4096) = unat upage + 4096" by (simp add: unat_plus64)
    have pd: "pg_round_down (upage + 4096) = upage + 4096"
    proof -
      have "4096 * ((unat upage + 4096) div 4096) = unat upage + 4096"
        by (rule dvd_mult_div_cancel) (use al in \<open>auto simp: dvd_eq_mod_eq_0\<close>)
      then show ?thesis using unat_pg_round_down [of "upage + 4096"] by (simp add: word_unat_eq_iff u pg_no_def)
    qed
    have none2: "\<forall>i<n. m2 (seg_page (upage + 4096) i) = None"
    proof (intro allI impI)
      fix i assume i: "i < n"
      have "seg_page upage (Suc i) \<noteq> seg_page upage 0"
        using seg_page_inj [OF Suc.prems(8), of "Suc i" 0] i by auto
      then have "m2 (seg_page upage (Suc i)) = m (seg_page upage (Suc i))"
        using r(4) by (simp add: seg_step_def seg_page_simps(1))
      then show "m2 (seg_page (upage + 4096) i) = None" using Suc.prems(9) i by (simp add: seg_page_simps(2))
    qed
    have inv2: "spt_map s2 (spt s2) m2" "heap_fresh s2" "vheap s2 = []" using r(4) by (simp_all add: seg_step_def)
    have b: "ofs + int (min (unat rb) 4096) + int (unat (rb - prb)) < 2 ^ 31" using Suc.prems(7) rb' by (simp add: min_def)
    obtain s' m' where ih: "load_segment_loop f (ofs + int (min (unat rb) 4096)) (upage + 4096) (rb - prb) (zb - pzb) wr s2 = Some (s', True)"
      "seg_step (seg_page (upage + 4096) ` {..<n}) s2 s' m2 m'"
      "\<forall>i<n. seg_at s' m' (seg_page (upage + 4096) i) wr
        (seg_info f (ofs + int (min (unat rb) 4096)) (unat (rb - prb)) i) (next_obj s2)"
      using Suc.IH [OF inv2 pd tot' _ b _ none2] Suc.prems(6,8) u by auto
    have im: "seg_page (upage + 4096) ` {..<n} = seg_page upage ` Suc ` {..<n}"
      by (simp add: image_image seg_page_simps(2))
    have "seg_step ({upage} \<union> seg_page (upage + 4096) ` {..<n}) s s' m m'" by (rule seg_step_trans [OF r(4) ih(2)])
    moreover have "{upage} \<union> seg_page (upage + 4096) ` {..<n} = seg_page upage ` {..<Suc n}"
      unfolding im lessThan_Suc_eq_insert_0 by (simp add: seg_page_simps(1))
    moreover have "seg_at s' m' (seg_page upage i) wr (seg_info f ofs (unat rb) i) (next_obj s)" if i: "i < Suc n" for i
    proof (cases i)
      case 0
      have "upage \<notin> seg_page (upage + 4096) ` {..<n}"
        unfolding im using seg_page_inj [OF Suc.prems(8), of 0] by (fastforce simp: seg_page_simps(1))
      then show ?thesis using seg_at_keep [OF r(5) ih(2)] 0 by (simp add: seg_page_simps(1) info_def)
    next
      case (Suc j)
      have "seg_at s' m' (seg_page upage i) wr (seg_info f ofs (unat rb) i) (next_obj s2)"
        using ih(3) [rule_format, of j] i
        unfolding rb' seg_info_Suc [OF Suc.prems(6)] seg_page_simps(2) Suc by simp
      moreover have "next_obj s \<le> next_obj s2" using r(4) by (simp add: seg_step_def)
      ultimately show ?thesis unfolding seg_at_def by (meson le_trans)
    qed
    ultimately show ?thesis using step ih(1) by (intro exI [of _ s'] exI [of _ m']) simp
  qed
qed

section \<open>What loading a segment promises\<close>

text \<open>
  C21: While memory lasts and no page is in the way, loading a segment returns, leaves the pages that
  were there alone, and enters one pending page of the file for each page of the segment. What
  these pages hold once they are brought in, one after the other, is the part of the file that was
  asked for, followed by zeros.
\<close>

theorem load_segment_contents:
  assumes "spt_map s (spt s) m" "heap_fresh s" "vheap s = []" "pg_round_down upage = upage"
    and "unat rb + unat zb = 4096 * n" "0 \<le> ofs" "cmod ofs 4096 = 0" "ofs + int (unat rb) < 2 ^ 31"
    and "unat upage + 4096 * n \<le> 2 ^ 64" "\<forall>i<n. m (seg_page upage i) = None" "nat ofs + unat rb \<le> length fb"
  shows "\<exists>s' m'. load_segment f ofs upage rb zb wr s = Some (s', True) \<and>
    spt_map s' (spt s') m' \<and> heap_fresh s' \<and> mm s' = mm s \<and> fsys s' = fsys s \<and>
    (\<forall>k. k \<notin> seg_page upage ` {..<n} \<longrightarrow> m' k = m k) \<and> (\<forall>a<next_obj s. pages s' a = pages s a) \<and>
    (\<forall>i<n. \<exists>info. seg_at s' m' (seg_page upage i) wr info (next_obj s) \<and> fi_file info = f \<and>
       page_read_bytes info + page_zero_bytes info = PGSIZE \<and>
       segment_bytes info fb = take 4096 (drop (4096 * i) (take (unat rb) (drop (nat ofs) fb) @ replicate (unat zb) 0)))"
proof -
  have "unat (rb + zb) = 4096 * n mod 2 ^ 32" using assms(5) by (simp add: unat_word_ariths)
  then have "unat (rb + zb) mod 4096 = 0" by (simp add: mod_mod_cancel)
  then have a1: "(rb + zb) mod 4096 = 0" by (simp add: word_unat_eq_iff unat_mod)
  have a2: "pg_ofs (unat upage) = 0" using pg_round_down_props(1) [of upage] assms(4) by simp
  obtain s' m' where r: "load_segment_loop f ofs upage rb zb wr s = Some (s', True)"
    "seg_step (seg_page upage ` {..<n}) s s' m m'"
    "\<forall>i<n. seg_at s' m' (seg_page upage i) wr (seg_info f ofs (unat rb) i) (next_obj s)"
    using load_segment_loop_run [OF assms(1-6,8-10)] by blast
  have "\<exists>info. seg_at s' m' (seg_page upage i) wr info (next_obj s) \<and> fi_file info = f \<and>
       page_read_bytes info + page_zero_bytes info = PGSIZE \<and>
       segment_bytes info fb = take 4096 (drop (4096 * i) (take (unat rb) (drop (nat ofs) fb) @ replicate (unat zb) 0))"
    if "i < n" for i
    using r(3) that seg_bytes [OF assms(6,11), of i "unat zb" f] assms(5)
    by (intro exI [of _ "seg_info f ofs (unat rb) i"]) (simp add: seg_info_def)
  then show ?thesis
    using r(1,2) a1 a2 assms(7) by (auto simp: load_segment_def seg_step_def)
qed

theorem load_segment_contents_witness:
  "\<exists>s' info. load_segment 7 0 0x400000 600 7592 True sample_vmem = Some (s', True) \<and>
     spt_find_page s' (spt s') 0x401000 \<noteq> NULL \<and> fi_file info = 7 \<and>
     segment_bytes info (file_bytes sample_disk (data sample_inode)) =
       take 4096 (take 600 (file_bytes sample_disk (data sample_inode)) @ replicate 7592 0)"
proof -
  let ?fb = "file_bytes sample_disk (data sample_inode)"
  have p: "vheap sample_vmem = []" "pg_round_down 0x400000 = 0x400000" "unat (600 :: u32) + unat (7592 :: u32) = 4096 * 2"
    "cmod 0 4096 = 0" "nat 0 + unat (600 :: u32) \<le> length ?fb"
    by (simp_all add: sample_vmem_def pg_round_down_def cmod_def cdiv_def sample_inode_def)
  note run = load_segment_contents [OF sample_spt p(1-3) _ p(4) _ _ _ p(5), of 7 True]
  have z: "(0 :: int) \<le> 0" "0 + int (unat (600 :: u32)) < 2 ^ 31" "unat (0x400000 :: u64) + 4096 * 2 \<le> 2 ^ 64"
    "\<forall>i<2. Map.empty (seg_page 0x400000 i) = (None :: addr option)" by simp_all
  obtain s' m' where r: "load_segment 7 0 0x400000 600 7592 True sample_vmem = Some (s', True)" "spt_map s' (spt s') m'"
    "\<forall>i<2. \<exists>info. seg_at s' m' (seg_page 0x400000 i) True info (next_obj sample_vmem) \<and> fi_file info = 7 \<and>
       page_read_bytes info + page_zero_bytes info = PGSIZE \<and>
       segment_bytes info ?fb = take 4096 (drop (4096 * i) (take (unat (600 :: u32)) (drop (nat 0) ?fb) @ replicate (unat (7592 :: u32)) 0))"
    using run [OF z] by blast
  obtain info where i: "fi_file info = 7" "segment_bytes info ?fb =
      take 4096 (drop (4096 * 0) (take (unat (600 :: u32)) (drop (nat 0) ?fb) @ replicate (unat (7592 :: u32)) 0))"
    using r(3) by (metis zero_less_numeral)
  have "seg_page 0x400000 1 = 0x401000" by (simp add: seg_page_def)
  then obtain q where q: "m' 0x401000 = Some q"
    using r(3) by (metis one_less_numeral_iff seg_at_def semiring_norm(76))
  have "pg_round_down 0x401000 = 0x401000" by (simp add: pg_round_down_def)
  then have "spt_find_page s' (spt s') 0x401000 \<noteq> NULL"
    using spt_find_map [OF r(2), of "0x401000"] q spt_map_elems(1) [OF r(2) q] by simp
  then show ?thesis using r(1) i by (intro exI [of _ s'] exI [of _ info]) simp
qed

end
