(* ===== verification/Syscall.thy ===== *)
theory Syscall
  imports Process
begin

text \<open>
  System calls: userprog/syscall.c, and what \<open>process_exit\<close> gives back. A call returns to the process,
  ends it, stops the machine, starts another program in its place, or hands over to the code that
  waits for children and forks: the copy is in Process, the waiting in Lifecycle. The lock around transfers is left out,
  as is the message at exit.
\<close>

section \<open>Outcomes\<close>

datatype 'a outcome =
    Returns process 'a
  | Exits process
  | Halts process
  | Starts process intr_frame
  | Waits process int
  | Forks process u64

text \<open>The rest of a call, when the part before it returns.\<close>

fun on_return :: "'a outcome option \<Rightarrow> (process \<Rightarrow> 'a \<Rightarrow> 'b outcome option) \<Rightarrow> 'b outcome option" where
  "on_return None k = None"
| "on_return (Some (Returns p x)) k = k p x"
| "on_return (Some (Exits p)) k = Some (Exits p)"
| "on_return (Some (Halts p)) k = Some (Halts p)"
| "on_return (Some (Starts p fr)) k = Some (Starts p fr)"
| "on_return (Some (Waits p c)) k = Some (Waits p c)"
| "on_return (Some (Forks p nm)) k = Some (Forks p nm)"

definition exit_with :: "int \<Rightarrow> process \<Rightarrow> 'a outcome option" where
  "exit_with status p = Some (Exits (p\<lparr>exit_status := status\<rparr>))"

text \<open>Reading a block or a string of the process; a fault that is not handled ends it.\<close>

definition fetch :: "u64 \<Rightarrow> u64 \<Rightarrow> nat \<Rightarrow> process \<Rightarrow> u8 list outcome option" where
  "fetch krsp va n p = do {
     (v, r) \<leftarrow> get_users krsp va n (vm p);
     case r of None \<Rightarrow> exit_with (- 1) (p\<lparr>vm := v\<rparr>) | Some bs \<Rightarrow> Some (Returns (p\<lparr>vm := v\<rparr>) bs) }"

definition fetch_string :: "u64 \<Rightarrow> u64 \<Rightarrow> process \<Rightarrow> u8 list outcome option" where
  "fetch_string krsp va p = do {
     (v, r) \<leftarrow> get_user_string krsp va (vm p);
     case r of None \<Rightarrow> exit_with (- 1) (p\<lparr>vm := v\<rparr>) | Some bs \<Rightarrow> Some (Returns (p\<lparr>vm := v\<rparr>) bs) }"

definition store :: "u64 \<Rightarrow> u64 \<Rightarrow> u8 list \<Rightarrow> process \<Rightarrow> unit outcome option" where
  "store krsp va bs p = do {
     (v, ok) \<leftarrow> put_users krsp va bs (vm p);
     if ok then Some (Returns (p\<lparr>vm := v\<rparr>) ()) else exit_with (- 1) (p\<lparr>vm := v\<rparr>) }"

section \<open>Checks\<close>

definition check_address :: "u64 \<Rightarrow> process \<Rightarrow> unit outcome option" where
  "check_address useradd p =
     (if useradd = 0 \<or> \<not> is_user_vaddr useradd then exit_with (- 1) p
      else if spt_find_page (vm p) (spt (vm p)) useradd = NULL then exit_with (- 1) p
      else Some (Returns p ()))"

definition check_buffer :: "u64 \<Rightarrow> process \<Rightarrow> unit outcome option" where
  "check_buffer useradd p =
     (if useradd = 0 \<or> \<not> is_user_vaddr useradd then exit_with (- 1) p
      else let q = spt_find_page (vm p) (spt (vm p)) useradd
           in if q = NULL then exit_with (- 1) p
              else do {
                pg \<leftarrow> pages (vm p) q;
                if \<not> writable pg then exit_with (- 1) p else Some (Returns p ()) })"

section \<open>The table of file descriptors\<close>

text \<open>Descriptor \<open>FDCOUNT_LIMIT\<close> passes the check; its slot is behind the table.\<close>

definition find_file_by_fd :: "int \<Rightarrow> process \<Rightarrow> addr option" where
  "find_file_by_fd fd p =
     (if fd < 0 \<or> fd > FDCOUNT_LIMIT then Some NULL
      else if nat fd < length (fdt p) then Some (fdt p ! nat fd) else None)"

function next_free :: "addr list \<Rightarrow> int \<Rightarrow> int" where
  "next_free t i = (if i < FDCOUNT_LIMIT \<and> t ! nat i \<noteq> NULL then next_free t (i + 1) else i)"
  by pat_completeness auto
termination by (relation "measure (\<lambda>(t, i). nat (FDCOUNT_LIMIT - i))") auto

declare next_free.simps [simp del]

definition add_file_to_fdt :: "addr \<Rightarrow> process \<Rightarrow> process \<times> int" where
  "add_file_to_fdt f p =
     (let i = next_free (fdt p) (fd_index p)
      in if i \<ge> FDCOUNT_LIMIT then (p\<lparr>fd_index := i\<rparr>, - 1)
         else (p\<lparr>fd_index := i, fdt := (fdt p)[nat i := f]\<rparr>, i))"

definition remove_file_from_fdt :: "int \<Rightarrow> process \<Rightarrow> process option" where
  "remove_file_from_fdt fd p =
     (if fd < 0 \<or> fd > FDCOUNT_LIMIT then Some p
      else if nat fd < length (fdt p) then Some (p\<lparr>fdt := (fdt p)[nat fd := NULL]\<rparr>) else None)"

definition set_fs :: "fs \<Rightarrow> process \<Rightarrow> process" where "set_fs s p = p\<lparr>vm := (vm p)\<lparr>fsys := s\<rparr>\<rparr>"

section \<open>Calls on files\<close>

text \<open>\<open>e0\<close> is what the entry that \<open>dir_add\<close> fills contains at first.\<close>

definition sys_create :: "u8 list \<Rightarrow> u64 \<Rightarrow> u64 \<Rightarrow> u32 \<Rightarrow> process \<Rightarrow> bool outcome option" where
  "sys_create e0 krsp file sz p =
     on_return (check_address file p) (\<lambda>p _.
     on_return (fetch_string krsp file p) (\<lambda>p nm. do {
       (s, ok) \<leftarrow> filesys_create e0 nm (int32 (uint sz)) (fsys (vm p));
       Some (Returns (set_fs s p) ok) }))"

definition sys_remove :: "u64 \<Rightarrow> u64 \<Rightarrow> process \<Rightarrow> bool outcome option" where
  "sys_remove krsp file p =
     on_return (check_address file p) (\<lambda>p _.
     on_return (fetch_string krsp file p) (\<lambda>p nm. do {
       (s, ok) \<leftarrow> filesys_remove nm (fsys (vm p));
       Some (Returns (set_fs s p) ok) }))"

definition sys_open :: "u64 \<Rightarrow> u64 \<Rightarrow> process \<Rightarrow> int outcome option" where
  "sys_open krsp file p =
     on_return (check_address file p) (\<lambda>p _.
     on_return (fetch_string krsp file p) (\<lambda>p nm. do {
       (s, f) \<leftarrow> filesys_open nm (fsys (vm p));
       let p = set_fs s p;
       if f = NULL then Some (Returns p (- 1))
       else do {
         let (p, fd) = add_file_to_fdt f p;
         s \<leftarrow> (if fd = - 1 then file_close f (fsys (vm p)) else Some (fsys (vm p)));
         Some (Returns (set_fs s p) fd) } }))"

definition sys_filesize :: "int \<Rightarrow> process \<Rightarrow> int outcome option" where
  "sys_filesize fd p = do {
     f \<leftarrow> find_file_by_fd fd p;
     if f = NULL then Some (Returns p (- 1))
     else do { n \<leftarrow> file_length f (fsys (vm p)); Some (Returns p n) } }"

text \<open>
  Characters from the keyboard, up to a null character; \<open>n\<close> of them remain and \<open>i\<close> have been read.
  Without a key the call does not return.
\<close>

fun read_keys :: "u64 \<Rightarrow> u64 \<Rightarrow> nat \<Rightarrow> nat \<Rightarrow> process \<Rightarrow> nat outcome option" where
  "read_keys krsp buf 0 i p = Some (Returns p i)"
| "read_keys krsp buf (Suc n) i p =
     (case keys p of
        [] \<Rightarrow> None
      | c # cs \<Rightarrow>
          on_return (store krsp buf [c] (p\<lparr>keys := cs\<rparr>)) (\<lambda>p _.
            if c = 0 then Some (Returns p i) else read_keys krsp (buf + 1) n (Suc i) p))"

definition sys_read :: "u64 \<Rightarrow> int \<Rightarrow> u64 \<Rightarrow> u32 \<Rightarrow> process \<Rightarrow> int outcome option" where
  "sys_read krsp fd buffer len p =
     on_return (check_buffer buffer p) (\<lambda>p _.
       if fd = 0 then on_return (read_keys krsp buffer (unat len) 0 p) (\<lambda>p i. Some (Returns p (int i)))
       else if fd = 1 then Some (Returns p (- 1))
       else do {
         f \<leftarrow> find_file_by_fd fd p;
         if f = NULL then Some (Returns p (- 1))
         else do {
           (s, bs) \<leftarrow> file_read f (int32 (uint len)) (fsys (vm p));
           on_return (store krsp buffer bs (set_fs s p)) (\<lambda>p _. Some (Returns p (int (length bs)))) } })"

text \<open>How many bytes of the buffer \<open>file_write\<close> takes.\<close>

definition wanted :: "addr \<Rightarrow> int \<Rightarrow> fs \<Rightarrow> nat option" where
  "wanted f sz s = do {
     fl \<leftarrow> files s f;
     ino \<leftarrow> inodes s (f_inode fl);
     Some (if deny_write_cnt ino \<noteq> 0 then 0 else nat (min sz (inode_length ino - open_file.pos fl))) }"

definition sys_write :: "u64 \<Rightarrow> int \<Rightarrow> u64 \<Rightarrow> u32 \<Rightarrow> process \<Rightarrow> int outcome option" where
  "sys_write krsp fd buffer len p =
     on_return (check_address buffer p) (\<lambda>p _.
       if fd = 1 then
         on_return (fetch krsp buffer (unat len) p) (\<lambda>p bs.
           Some (Returns (p\<lparr>console := console p @ bs\<rparr>) (int32 (uint len))))
       else if fd = 0 then Some (Returns p (- 1))
       else do {
         f \<leftarrow> find_file_by_fd fd p;
         if f = NULL then Some (Returns p (- 1))
         else do {
           n \<leftarrow> wanted f (int32 (uint len)) (fsys (vm p));
           on_return (fetch krsp buffer n p) (\<lambda>p bs. do {
             (s, n) \<leftarrow> file_write f bs (int32 (uint len)) (fsys (vm p));
             Some (Returns (set_fs s p) (int n)) }) } })"

definition sys_seek :: "int \<Rightarrow> u32 \<Rightarrow> process \<Rightarrow> unit outcome option" where
  "sys_seek fd position p = do {
     f \<leftarrow> find_file_by_fd fd p;
     if f \<le> 2 then Some (Returns p ())
     else do { s \<leftarrow> file_seek f (int32 (uint position)) (fsys (vm p)); Some (Returns (set_fs s p) ()) } }"

text \<open>\<open>junk\<close> is what the return without a value leaves.\<close>

definition sys_tell :: "u32 \<Rightarrow> int \<Rightarrow> process \<Rightarrow> u32 outcome option" where
  "sys_tell junk fd p = do {
     f \<leftarrow> find_file_by_fd fd p;
     if f \<le> 2 then Some (Returns p junk)
     else do { n \<leftarrow> file_tell f (fsys (vm p)); Some (Returns p (of_int n)) } }"

definition close_fd :: "int \<Rightarrow> process \<Rightarrow> process option" where
  "close_fd fd p =
     (if fd = 0 \<or> fd = 1 then Some p
      else do {
        f \<leftarrow> find_file_by_fd fd p;
        if f = NULL then Some p
        else do {
          p \<leftarrow> remove_file_from_fdt fd p;
          s \<leftarrow> file_close f (fsys (vm p));
          Some (set_fs s p) } })"

section \<open>Mapping files\<close>

text \<open>The loop looks at the same address in each of its \<open>n\<close> rounds.\<close>

fun mapped_any :: "u64 \<Rightarrow> nat \<Rightarrow> vmem \<Rightarrow> bool" where
  "mapped_any uaddr 0 s = False"
| "mapped_any uaddr (Suc n) s = (spt_find_page s (spt s) uaddr \<noteq> NULL \<or> mapped_any uaddr n s)"

definition sys_mmap :: "u64 \<Rightarrow> u64 \<Rightarrow> bool \<Rightarrow> int \<Rightarrow> int \<Rightarrow> process \<Rightarrow> u64 outcome option" where
  "sys_mmap uaddr len wr fd offset p =
     (if uaddr = 0 \<or> is_kernel_vaddr uaddr \<or> is_kernel_vaddr (uaddr - len) \<or> uaddr \<noteq> pg_round_down uaddr then Some (Returns p 0)
      else if \<not> (fd > 1 \<and> fd \<le> 63) \<or> len = 0 \<or> cmod offset 4096 \<noteq> 0 then Some (Returns p 0)
      else if mapped_any uaddr (DIV_ROUND_UP (unat len) 4096) (vm p) then Some (Returns p 0)
      else if \<not> nat fd < length (fdt p) then None
      else let f = fdt p ! nat fd
           in if f = NULL then exit_with (- 1) p
              else do {
                n \<leftarrow> file_length f (fsys (vm p));
                if n = 0 then Some (Returns p 0)
                else do {
                  (v, ok) \<leftarrow> mmap_load_segment f offset uaddr (unat len) wr (vm p);
                  Some (Returns (p\<lparr>vm := v\<rparr>) (if ok then uaddr else 0)) } })"

definition sys_munmap :: "u64 \<Rightarrow> process \<Rightarrow> unit outcome option" where
  "sys_munmap uaddr p =
     on_return (check_address uaddr p) (\<lambda>p _. do {
       v \<leftarrow> do_munmap uaddr (vm p);
       Some (Returns (p\<lparr>vm := v\<rparr>) ()) })"

section \<open>Another program\<close>

text \<open>The copy of the command line is as long as the string, whatever fits in the page.\<close>

definition sys_exec :: "u64 \<Rightarrow> addr \<Rightarrow> intr_frame \<Rightarrow> u64 \<Rightarrow> process \<Rightarrow> u64 outcome option" where
  "sys_exec krsp d fr0 file p =
     on_return (check_address file p) (\<lambda>p _. do {
       (r, kva) \<leftarrow> palloc_get_page PAL_ZERO (ram (mm (vm p)));
       let p = p\<lparr>vm := set_ram r (vm p)\<rparr>;
       if kva = NULL then exit_with (- 1) p
       else on_return (fetch_string krsp file p) (\<lambda>p line. do {
         let p = p\<lparr>vm := set_mem (store_bytes (mem_of (vm p)) kva (line @ [0])) (vm p)\<rparr>;
         (p, r) \<leftarrow> process_exec krsp d kva fr0 p;
         case r of
           Exec_fails \<Rightarrow> exit_with (- 1) p
         | Exec_killed \<Rightarrow> exit_with (- 1) p
         | Exec_starts fr \<Rightarrow> Some (Starts p fr) }) })"

section \<open>The handler\<close>

text \<open>Putting the result of a call where the process finds it.\<close>

definition result :: "('a \<Rightarrow> u64) \<Rightarrow> intr_frame \<Rightarrow> 'a outcome option \<Rightarrow> intr_frame outcome option" where
  "result conv f r = on_return r (\<lambda>p x. Some (Returns p (f\<lparr>reg_rax := conv x\<rparr>)))"

definition no_value :: "intr_frame \<Rightarrow> unit outcome option \<Rightarrow> intr_frame outcome option" where
  "no_value f r = on_return r (\<lambda>p _. Some (Returns p f))"

definition int_arg :: "u64 \<Rightarrow> int" where "int_arg w = int32 (uint w)"

definition syscall_handler ::
    "u8 list \<Rightarrow> u32 \<Rightarrow> addr \<Rightarrow> intr_frame \<Rightarrow> u64 \<Rightarrow> intr_frame \<Rightarrow> process \<Rightarrow> intr_frame outcome option" where
  "syscall_handler e0 junk d fr0 krsp f p =
     (let rdi = reg_rdi f; rsi = reg_rsi f; rdx = reg_rdx f; n = reg_rax f
      in if n = 0 then Some (Halts p)
         else if n = 1 then exit_with (int_arg rdi) p
         else if n = 2 then Some (Forks p rdi)
         else if n = 3 then result id f (sys_exec krsp d fr0 rdi p)
         else if n = 4 then Some (Waits p (int_arg rdi))
         else if n = 5 then result of_bool f (sys_create e0 krsp rdi (ucast rsi) p)
         else if n = 6 then result of_bool f (sys_remove krsp rdi p)
         else if n = 7 then result of_int f (sys_open krsp rdi p)
         else if n = 8 then result of_int f (sys_filesize (int_arg rdi) p)
         else if n = 9 then result of_int f (sys_read krsp (int_arg rdi) rsi (ucast rdx) p)
         else if n = 10 then result of_int f (sys_write krsp (int_arg rdi) rsi (ucast rdx) p)
         else if n = 11 then no_value f (sys_seek (int_arg rdi) (ucast rsi) p)
         else if n = 12 then result ucast f (sys_tell junk (int_arg rdi) p)
         else if n = 13 then no_value f (do { p \<leftarrow> close_fd (int_arg rdi) p; Some (Returns p ()) })
         else if n = 14 then
           result id f (sys_mmap rdi rsi ((ucast rdx :: u32) \<noteq> 0) (int_arg (reg_r10 f)) (int_arg (reg_r8 f)) p)
         else if n = 15 then no_value f (sys_munmap rdi p)
         else exit_with (- 1) p)"

section \<open>The end of a process\<close>

fun close_all :: "int list \<Rightarrow> process \<Rightarrow> process option" where
  "close_all [] p = Some p"
| "close_all (fd # fds) p = do { p \<leftarrow> close_fd fd p; close_all fds p }"

definition process_exit :: "process \<Rightarrow> process option" where
  "process_exit p = do {
     p \<leftarrow> close_all [0..FDCOUNT_LIMIT - 1] p;
     p \<leftarrow> process_cleanup p;
     s \<leftarrow> file_close (runn_file p) (fsys (vm p));
     Some (set_fs s p) }"

end
