(* ===== verification/ProcessArgs.thy ===== *)
theory ProcessArgs
  imports Process
begin

text \<open>
  The arguments of a program: the command line is split into its words, and the words and the
  pointers to them are laid out on the stack of the process.
\<close>

section \<open>Splitting the command line\<close>

lemma parse_loop_run:
  assumes "str_at m p cs" "str_at m d [32]" "d \<noteq> NULL" "p \<noteq> NULL" "s = p \<or> s = NULL \<and> save_ptr = p"
    and "d + 1 < p \<or> p + length cs < d" "length acc + length (words_of {32} cs) \<le> 64"
  shows "\<exists>m' ps. parse_loop d s save_ptr acc m = Some (m', acc @ ps) \<and> length ps = length (words_of {32} cs) \<and>
    (\<forall>i<length ps. str_at m' (ps ! i) (words_of {32} cs ! i) \<and> p \<le> ps ! i \<and>
       ps ! i + length (words_of {32} cs ! i) \<le> p + length cs) \<and>
    (\<forall>a. a < p \<or> p + length cs < a \<longrightarrow> m' a = m a) \<and> (words_of {32} cs = [] \<longrightarrow> m' = m)"
  using assms
proof (induction "length cs" arbitrary: m p cs s save_ptr acc rule: less_induct)
  case less
  define skip where "skip = takeWhile (\<lambda>c. c \<in> set [32 :: u8]) cs"
  define rest where "rest = dropWhile (\<lambda>c. c \<in> set [32 :: u8]) cs"
  define tok where "tok = takeWhile (\<lambda>c. c \<notin> set [32 :: u8]) rest"
  define rem where "rem = dropWhile (\<lambda>c. c \<notin> set [32 :: u8]) rest"
  have dl: "d + length [32 :: u8] < p \<or> p + length cs < d" using less.prems(6) by simp
  note spec = strtok_r_spec [OF less.prems(1-5) dl, folded rest_def, folded tok_def rem_def skip_def]
  have ws: "set [32 :: u8] = {32}" by simp
  show ?case
  proof (cases "rest = []")
    case True
    then have "strtok_r m s d save_ptr = Some (m, NULL, p + length cs)" using spec by simp
    then have "parse_loop d s save_ptr acc m = Some (m, acc @ [])" by (subst parse_loop.simps) simp
    moreover have "words_of {32} cs = words_of {32} rest" unfolding rest_def ws by (rule words_of_skip [symmetric])
    then have "words_of {32} cs = []" unfolding True by (simp only: words_of.simps)
    ultimately show ?thesis by auto
  next
    case False
    let ?t = "p + length skip"
    let ?q = "?t + length tok + (if rem = [] then 0 else 1)"
    have cs: "length cs = length skip + length tok + length rem"
    proof -
      have "cs = skip @ tok @ rem" by (simp add: skip_def tok_def rem_def rest_def)
      then show ?thesis by (metis add.assoc length_append)
    qed
    have w: "words_of {32} cs = tok # words_of {32} (tl rem)" using words_of_token [of "{32}" cs rest] False unfolding rest_def tok_def rem_def by simp
    obtain m1 where m1: "strtok_r m s d save_ptr = Some (m1, ?t, ?q)" "str_at m1 ?t tok" "tok \<noteq> []"
      "str_at m1 ?q (tl rem)" "str_at m1 d [32]" "\<forall>a. a < ?t \<or> p + length cs < a \<longrightarrow> m1 a = m a"
      using spec unfolding if_not_P [OF False] by blast
    have "length (words_of {32} cs) = Suc (length (words_of {32} (tl rem)))" using w by simp
    then have room: "length acc < 64" "length (acc @ [?t]) + length (words_of {32} (tl rem)) \<le> 64"
      using less.prems(7) by auto
    have step: "parse_loop d s save_ptr acc m = parse_loop d NULL ?q (acc @ [?t]) m1"
      using m1(1) less.prems(4) room(1) by (subst parse_loop.simps) simp
    have len: "length (tl rem) < length cs" using cs m1(3) by (cases rem) auto
    have q: "?q + length (tl rem) = p + length cs" using cs by (cases rem) auto
    have dq: "d + 1 < ?q \<or> ?q + length (tl rem) < d" unfolding q using less.prems(6) by linarith
    have q0: "?q \<noteq> NULL" using less.prems(4) by simp
    obtain m2 ps where ih: "parse_loop d NULL ?q (acc @ [?t]) m1 = Some (m2, (acc @ [?t]) @ ps)"
      "length ps = length (words_of {32} (tl rem))"
      "\<forall>i<length ps. str_at m2 (ps ! i) (words_of {32} (tl rem) ! i) \<and> ?q \<le> ps ! i \<and>
         ps ! i + length (words_of {32} (tl rem) ! i) \<le> ?q + length (tl rem)"
      "\<forall>a. a < ?q \<or> ?q + length (tl rem) < a \<longrightarrow> m2 a = m1 a" "words_of {32} (tl rem) = [] \<longrightarrow> m2 = m1"
      using less.hyps [OF len m1(4,5) less.prems(3) q0 _ dq room(2), of NULL ?q] by auto
    have t2: "str_at m2 ?t tok"
    proof (cases "rem = []")
      case True
      then show ?thesis using ih(5) m1(2) by simp
    next
      case False
      then show ?thesis using m1(2) ih(4) by (subst str_at_cong [of _ _ _ m1]) auto
    qed
    have "\<forall>a. a < p \<or> p + length cs < a \<longrightarrow> m2 a = m a"
      using ih(4) m1(6) q by (auto simp: add.assoc)
    moreover have "str_at m2 ((?t # ps) ! i) (words_of {32} cs ! i) \<and> p \<le> (?t # ps) ! i \<and>
        (?t # ps) ! i + length (words_of {32} cs ! i) \<le> p + length cs" if "i < length (?t # ps)" for i
    proof (cases i)
      case 0
      then show ?thesis using t2 cs w by simp
    next
      case (Suc j)
      then have "j < length ps" using that by simp
      with ih(3) [rule_format, of j] show ?thesis using Suc w q by simp
    qed
    ultimately show ?thesis using step ih(1,2) w
      by (intro exI [of _ m2] exI [of _ "?t # ps"]) auto
  qed
qed

section \<open>Pushing bytes\<close>

text \<open>
  The stack page is mapped to the frame at \<open>kva\<close>; \<open>pushed\<close> is the state after the bytes \<open>bs\<close> have been
  put below the stack pointer.
\<close>

abbreviation (input) STACK_BOTTOM :: nat where "STACK_BOTTOM \<equiv> 0x4747F000"
abbreviation (input) STACK_TOP :: nat where "STACK_TOP \<equiv> 0x47480000"

definition stack_addr :: "addr \<Rightarrow> nat \<Rightarrow> addr" where "stack_addr kva x = kva + (x - STACK_BOTTOM)"

definition pushed :: "addr \<Rightarrow> u64 \<Rightarrow> u8 list \<Rightarrow> vmem \<Rightarrow> vmem" where
  "pushed kva sp bs s = set_mem (store_bytes (mem_of s) (stack_addr kva (unat sp - length bs)) bs) s"

definition stack_at :: "addr \<Rightarrow> vmem \<Rightarrow> bool" where
  "stack_at kva s \<longleftrightarrow> mapped_at s (STACK_BOTTOM div PGSIZE) kva True"

definition room :: "u64 \<Rightarrow> nat \<Rightarrow> bool" where
  "room sp n \<longleftrightarrow> STACK_BOTTOM + n \<le> unat sp \<and> unat sp \<le> STACK_TOP"

lemma room_page:
  assumes "room sp (Suc n)"
  shows "unat (sp - 1) = unat sp - 1" "pg_no (unat (sp - 1)) = STACK_BOTTOM div PGSIZE" "is_user_vaddr (sp - 1)"
    "pg_ofs (unat (sp - 1)) = unat sp - 1 - STACK_BOTTOM" "room (sp - 1) n" "unat sp - 1 - STACK_BOTTOM < PGSIZE"
proof -
  have b: "STACK_BOTTOM + Suc n \<le> unat sp" "unat sp \<le> STACK_TOP" using assms by (simp_all add: room_def)
  have "(1 :: u64) \<le> sp" using b by (simp add: word_le_nat_alt)
  then show u: "unat (sp - 1) = unat sp - 1" by (simp add: unat_sub)
  show "room (sp - 1) n" unfolding room_def u using b by linarith
  show "unat sp - 1 - STACK_BOTTOM < PGSIZE" using b by simp
  have x: "unat sp - 1 = STACK_BOTTOM + (unat sp - 1 - STACK_BOTTOM)" "unat sp - 1 - STACK_BOTTOM < 4096" using b by simp_all
  have d: "(STACK_BOTTOM + k) div 4096 = STACK_BOTTOM div PGSIZE \<and> (STACK_BOTTOM + k) mod 4096 = k" if "k < 4096" for k
  proof -
    have q: "(STACK_BOTTOM + k) div 4096 = 291967" by (rule div_nat_eqI) (use that in simp_all)
    then show ?thesis using minus_mult_div_eq_mod [of "STACK_BOTTOM + k" 4096] by simp
  qed
  show "pg_no (unat (sp - 1)) = STACK_BOTTOM div PGSIZE" "pg_ofs (unat (sp - 1)) = unat sp - 1 - STACK_BOTTOM"
    unfolding u pg_no_def pg_ofs_def by (subst x(1), use d [OF x(2)] in blast)+
  show "is_user_vaddr (sp - 1)" using b by (simp add: is_user_vaddr_def is_kernel_vaddr_def word_le_nat_alt u unat_KERN_BASE)
qed

lemma stack_frame: "stack_at kva s \<Longrightarrow> j < PGSIZE \<Longrightarrow> pg_no (kva + j) = pg_no kva"
  unfolding stack_at_def mapped_at_def pg_no_def pg_ofs_def by (auto elim!: dvdE simp: dvd_eq_mod_eq_0 [symmetric])

lemma pushed_stack:
  assumes "stack_at kva s" "room sp (length bs)"
  shows "stack_at kva (pushed kva sp bs s)" and "pg_no a \<noteq> pg_no kva \<Longrightarrow> mem_of (pushed kva sp bs s) a = mem_of s a"
proof -
  have same: "store_bytes (mem_of s) (stack_addr kva (unat sp - length bs)) bs a = mem_of s a" if "pg_no a \<noteq> pg_no kva" for a
  proof (rule ccontr)
    assume "store_bytes (mem_of s) (stack_addr kva (unat sp - length bs)) bs a \<noteq> mem_of s a"
    then have "stack_addr kva (unat sp - length bs) \<le> a" "a < stack_addr kva (unat sp - length bs) + length bs"
      by (auto simp: store_bytes_def split: if_splits)
    then have "a = kva + (a - kva)" "a - kva < PGSIZE" using assms(2) by (auto simp: stack_addr_def room_def)
    then show False using stack_frame [OF assms(1), of "a - kva"] that by simp
  qed
  then show "pg_no a \<noteq> pg_no kva \<Longrightarrow> mem_of (pushed kva sp bs s) a = mem_of s a" by (simp add: pushed_def)
  show "stack_at kva (pushed kva sp bs s)"
    using assms(1) same unfolding pushed_def stack_at_def by (intro mapped_at_store) auto
qed

lemma pushed_pushed:
  assumes "room sp (length bs + length cs)"
  shows "pushed kva (sp - of_nat (length bs)) cs (pushed kva sp bs s) = pushed kva sp (cs @ bs) s"
    and "unat (sp - of_nat (length bs)) = unat sp - length bs" and "room (sp - of_nat (length bs)) (length cs)"
proof -
  have b: "STACK_BOTTOM + (length bs + length cs) \<le> unat sp" "unat sp \<le> STACK_TOP" using assms by (simp_all add: room_def)
  have n: "unat (of_nat (length bs) :: u64) = length bs" by (rule unat_of_nat64, rule le_less_trans [of _ STACK_TOP]) (use b in linarith, simp)
  then have "of_nat (length bs) \<le> sp" using b by (simp add: word_le_nat_alt)
  then show u: "unat (sp - of_nat (length bs)) = unat sp - length bs" using n by (simp add: unat_sub)
  show "room (sp - of_nat (length bs)) (length cs)" unfolding room_def u by (intro conjI) (use b in linarith)+
  have a: "stack_addr kva (unat sp - length bs) = stack_addr kva (unat sp - length bs - length cs) + length cs"
    using b by (simp add: stack_addr_def)
  have "store_bytes (store_bytes m (a + length cs) bs) a cs = store_bytes m a (cs @ bs)" for m :: mem and a
    by (rule ext) (auto simp: store_bytes_def nth_append)
  then show "pushed kva (sp - of_nat (length bs)) cs (pushed kva sp bs s) = pushed kva sp (cs @ bs) s"
    unfolding pushed_def set_mem_simps u a by (simp add: diff_diff_add add.commute [of "length cs"])
qed

lemma pushed_Nil [simp]: "pushed kva sp [] s = s"
proof -
  have "store_bytes m a [] = m" for m a by (rule ext) (auto simp: store_bytes_def)
  moreover have "set_mem (mem_of s) s = s" by (simp add: set_mem_def set_ram_def)
  ultimately show ?thesis by (simp add: pushed_def)
qed

lemma put_user_push:
  assumes "stack_at kva s" "room sp (Suc n)"
  shows "put_user krsp (sp - 1) b s = Some (pushed kva sp [b] s, True)"
proof -
  have "mapped_at s (pg_no (unat (sp - 1))) kva True" using assms(1) room_page(2) [OF assms(2)] by (simp add: stack_at_def)
  moreover have "store_bytes (mem_of s) a [b] = (mem_of s)(a := b)" for a
    by (auto simp: store_bytes_def fun_eq_iff)
  ultimately show ?thesis
    using put_user_mapped [of s "sp - 1" kva krsp b] room_page [OF assms(2)] by (simp add: pushed_def stack_addr_def)
qed

lemma push_string_run:
  assumes "stack_at kva s" "room sp n" "\<forall>a. p \<le> a \<and> a < p + n \<longrightarrow> pg_no a \<noteq> pg_no kva"
  shows "push_string krsp p n sp s = Some (pushed kva sp (load_bytes (mem_of s) p n) s, Some (sp - of_nat n))"
  using assms
proof (induction n arbitrary: sp s)
  case 0
  then show ?case by (simp add: load_bytes_def)
next
  case (Suc n)
  let ?b = "mem_of s (p + n)"
  let ?s1 = "pushed kva sp [?b] s"
  have r1: "room sp (length [?b])" using Suc.prems(2) by (simp add: room_def)
  note p1 = pushed_stack [OF Suc.prems(1) r1]
  have l: "load_bytes (mem_of ?s1) p n = load_bytes (mem_of s) p n"
    by (rule load_bytes_cong) (use Suc.prems(3) p1(2) in auto)
  have "push_string krsp p (Suc n) sp s = push_string krsp p n (sp - 1) ?s1"
    using put_user_push [OF Suc.prems(1,2)] by simp
  also have "\<dots> = Some (pushed kva (sp - 1) (load_bytes (mem_of s) p n) ?s1, Some (sp - 1 - of_nat n))"
    using Suc.IH [OF p1(1) room_page(5) [OF Suc.prems(2)]] Suc.prems(3) l by simp
  also have "pushed kva (sp - 1) (load_bytes (mem_of s) p n) ?s1 = pushed kva sp (load_bytes (mem_of s) p n @ [?b]) s"
    using pushed_pushed(1) [of sp "[?b]" "load_bytes (mem_of s) p n" kva s] Suc.prems(2) by (simp add: load_bytes_def)
  also have "load_bytes (mem_of s) p n @ [?b] = load_bytes (mem_of s) p (Suc n)" by (simp add: load_bytes_def)
  finally show ?case by (simp add: algebra_simps)
qed

lemma push_padding_run:
  assumes "stack_at kva s" "room sp n"
  shows "push_padding krsp n sp s = Some (pushed kva sp (replicate n 0) s, Some (sp - of_nat n))"
  using assms
proof (induction n arbitrary: sp s)
  case (Suc n)
  let ?s1 = "pushed kva sp [0] s"
  have r1: "room sp (length [0 :: u8])" using Suc.prems(2) by (simp add: room_def)
  have "push_padding krsp (Suc n) sp s = push_padding krsp n (sp - 1) ?s1"
    using put_user_push [OF Suc.prems] by simp
  also have "\<dots> = Some (pushed kva (sp - 1) (replicate n 0) ?s1, Some (sp - 1 - of_nat n))"
    by (rule Suc.IH [OF pushed_stack(1) [OF Suc.prems(1) r1] room_page(5) [OF Suc.prems(2)]])
  also have "pushed kva (sp - 1) (replicate n 0) ?s1 = pushed kva sp (replicate (Suc n) 0) s"
    using pushed_pushed(1) [of sp "[0]" "replicate n 0" kva s] Suc.prems(2) by (simp add: replicate_append_same)
  finally show ?case by (simp add: algebra_simps)
qed simp

lemma stack_page:
  assumes "STACK_BOTTOM \<le> unat a" "unat a < STACK_TOP"
  shows "pg_no (unat a) = STACK_BOTTOM div PGSIZE" "pg_ofs (unat a) = unat a - STACK_BOTTOM" "is_user_vaddr a"
proof -
  have "unat a + 1 < 2 ^ 64" using assms(2) by simp
  then have u: "unat (a + 1) = unat a + 1" by (simp add: unat_plus64)
  have r: "room (a + 1) (Suc 0)" using assms u by (simp add: room_def)
  show "pg_no (unat a) = STACK_BOTTOM div PGSIZE" "pg_ofs (unat a) = unat a - STACK_BOTTOM" "is_user_vaddr a"
    using room_page(2-4) [OF r] u by simp_all
qed

lemma put_users_run:
  assumes "stack_at kva s" "STACK_BOTTOM \<le> unat a" "unat a + length bs \<le> STACK_TOP"
  shows "put_users krsp a bs s = Some (set_mem (store_bytes (mem_of s) (stack_addr kva (unat a)) bs) s, True)"
proof (cases "bs = []")
  case True
  then show ?thesis using pushed_Nil [of kva a s] by (simp add: pushed_def)
next
  case False
  then have "unat a < STACK_TOP" using assms(3) by (cases bs) auto
  note st = stack_page [OF assms(2) this]
  show ?thesis
    using put_users_mapped [of s a kva bs krsp] assms st by (simp add: stack_at_def stack_addr_def)
qed

lemma push_word_run:
  assumes "stack_at kva s" "room sp 8"
  shows "push_word krsp w sp s = Some (pushed kva sp (le_bytes 8 (unat w)) s, Some (sp - 8))"
proof -
  have "(8 :: u64) \<le> sp" using assms(2) by (simp add: room_def word_le_nat_alt)
  then have u: "unat (sp - 8) = unat sp - 8" by (simp add: unat_sub)
  have "STACK_BOTTOM \<le> unat (sp - 8)" "unat (sp - 8) + length (le_bytes 8 (unat w)) \<le> STACK_TOP"
    using assms(2) unfolding room_def u length_le_bytes by linarith+
  note put_users_run [OF assms(1) this, of krsp]
  then show ?thesis unfolding push_word_def pushed_def u length_le_bytes by (simp add: Let_def)
qed

definition word_image :: "u64 list \<Rightarrow> u8 list" where "word_image ws = concat (map (\<lambda>w. le_bytes 8 (unat w)) ws)"

lemma length_word_image [simp]: "length (word_image ws) = 8 * length ws"
  by (induction ws) (simp_all add: word_image_def)

lemma push_words_run:
  assumes "stack_at kva s" "room sp (8 * length ws)"
  shows "push_words krsp ws sp s = Some (pushed kva sp (word_image (rev ws)) s, Some (sp - of_nat (8 * length ws)))"
  using assms
proof (induction ws arbitrary: sp s)
  case Nil
  then show ?case by (simp add: word_image_def)
next
  case (Cons w ws)
  let ?bs = "le_bytes 8 (unat w)"
  let ?s1 = "pushed kva sp ?bs s"
  have r: "room sp 8" "room sp (length ?bs)" "room sp (length ?bs + length (word_image (rev ws)))"
    using Cons.prems(2) by (auto simp: room_def)
  note pp = pushed_pushed(1) [OF r(3), of kva s] pushed_pushed(3) [OF r(3)]
  have "push_words krsp (w # ws) sp s = push_words krsp ws (sp - 8) ?s1"
    using push_word_run [OF Cons.prems(1) r(1)] by simp
  also have "\<dots> = Some (pushed kva (sp - 8) (word_image (rev ws)) ?s1, Some (sp - 8 - of_nat (8 * length ws)))"
    by (rule Cons.IH [OF pushed_stack(1) [OF Cons.prems(1) r(2)]]) (use pp(2) in simp)
  also have "pushed kva (sp - 8) (word_image (rev ws)) ?s1 = pushed kva sp (word_image (rev (w # ws))) s"
    using pp(1) by (simp add: word_image_def)
  finally show ?case by (simp add: algebra_simps)
qed

text \<open>Strings with their terminators, and where each of them starts.\<close>

definition strings :: "u8 list list \<Rightarrow> u8 list" where "strings ws = concat (map (\<lambda>w. w @ [0]) ws)"

definition argv_at :: "u64 \<Rightarrow> u8 list list \<Rightarrow> u64 list" where
  "argv_at sp ws = map (\<lambda>i. sp - of_nat (length (strings (drop i ws)))) [0..<length ws]"

lemma strings_simps: "strings [] = []" "strings (w # ws) = w @ 0 # strings ws" "strings (ws @ vs) = strings ws @ strings vs"
  by (simp_all add: strings_def)

lemma argv_at_snoc: "argv_at sp (ws @ [w]) = argv_at (sp - of_nat (Suc (length w))) ws @ [sp - of_nat (Suc (length w))]"
  by (auto simp: argv_at_def strings_simps algebra_simps)

definition string_outside :: "addr \<Rightarrow> mem \<Rightarrow> addr \<Rightarrow> u8 list \<Rightarrow> bool" where
  "string_outside kva m p w \<longleftrightarrow> str_at m p w \<and> p \<noteq> NULL \<and> (\<forall>a. p \<le> a \<and> a \<le> p + length w \<longrightarrow> pg_no a \<noteq> pg_no kva)"

lemma string_outside_pushed:
  "string_outside kva (mem_of s) p w \<Longrightarrow> stack_at kva s \<Longrightarrow> room sp (length bs) \<Longrightarrow>
    string_outside kva (mem_of (pushed kva sp bs s)) p w"
  using pushed_stack(2) [of kva s sp bs] unfolding string_outside_def
  by (metis (no_types, lifting) str_at_cong)

lemma str_at_load: "str_at m p w \<Longrightarrow> load_bytes m p (Suc (length w)) = w @ [0]"
  by (rule nth_equalityI) (auto simp: load_bytes_def str_at_def nth_append less_Suc_eq simp del: upt_Suc)

lemma push_strings_run:
  assumes "stack_at kva s" "room sp (length (strings ws))" "length ps = length ws"
    and "\<forall>i<length ws. string_outside kva (mem_of s) (ps ! i) (ws ! i)"
  shows "push_strings krsp (rev ps) acc sp s =
    Some (pushed kva sp (strings ws) s, Some (sp - of_nat (length (strings ws)), argv_at sp ws @ acc))"
  using assms
proof (induction ws arbitrary: ps sp s acc rule: rev_induct)
  case Nil
  then show ?case by (simp add: strings_simps argv_at_def)
next
  case (snoc w ws)
  obtain ps' p where ps: "ps = ps' @ [p]" "length ps' = length ws"
    using snoc.prems(3) by (cases ps rule: rev_cases) auto
  let ?n = "Suc (length w)"
  have o: "string_outside kva (mem_of s) p w" using snoc.prems(4) ps by (auto simp: nth_append dest: spec [of _ "length ws"])
  have o': "string_outside kva (mem_of s) (ps' ! i) (ws ! i)" if "i < length ws" for i
    using snoc.prems(4) ps that by (auto simp: nth_append dest: spec [of _ i])
  have r: "room sp ?n" "room sp (length (w @ [0]))" "room sp (length (w @ [0]) + length (strings ws))"
    using snoc.prems(2) by (auto simp: room_def strings_simps)
  note pp = pushed_pushed(1) [OF r(3), of kva s] pushed_pushed(3) [OF r(3)]
  let ?s1 = "pushed kva sp (w @ [0]) s"
  have "push_string krsp p ?n sp s = Some (?s1, Some (sp - of_nat ?n))"
    using push_string_run [OF snoc.prems(1) r(1), of p krsp] o str_at_load [of "mem_of s" p w]
    by (auto simp: string_outside_def)
  moreover have "strlen (mem_of s) p = Some (length w)" using o by (simp add: string_outside_def strlen_spec)
  ultimately have "push_strings krsp (rev ps) acc sp s = push_strings krsp (rev ps') ((sp - of_nat ?n) # acc) (sp - of_nat ?n) ?s1"
    using ps(1) by (simp del: push_string.simps)
  also have "\<dots> = Some (pushed kva (sp - of_nat ?n) (strings ws) ?s1,
      Some (sp - of_nat ?n - of_nat (length (strings ws)), argv_at (sp - of_nat ?n) ws @ (sp - of_nat ?n) # acc))"
  proof (rule snoc.IH)
    show "stack_at kva ?s1" by (rule pushed_stack(1) [OF snoc.prems(1) r(2)])
    show "room (sp - of_nat ?n) (length (strings ws))" using pp(2) by simp
    show "length ps' = length ws" by (rule ps(2))
    show "\<forall>i<length ws. string_outside kva (mem_of ?s1) (ps' ! i) (ws ! i)"
      using o' string_outside_pushed [OF _ snoc.prems(1) r(2)] by blast
  qed
  also have "pushed kva (sp - of_nat ?n) (strings ws) ?s1 = pushed kva sp (strings (ws @ [w])) s"
    using pp(1) by (simp add: strings_simps)
  finally show ?case by (simp add: argv_at_snoc strings_simps algebra_simps)
qed

section \<open>The whole stack\<close>

text \<open>The bytes between the stack pointer and the top of the stack.\<close>

definition stack_image :: "u8 list list \<Rightarrow> u8 list" where
  "stack_image ws = word_image (0 # argv_at USER_STACK ws @ [0]) @
     replicate ((STACK_TOP - length (strings ws)) mod 8) 0 @ strings ws"

definition fits :: "u8 list list \<Rightarrow> bool" where
  "fits ws \<longleftrightarrow> length (strings ws) + 7 + 8 * (length ws + 2) \<le> PGSIZE"

lemma length_argv_at [simp]: "length (argv_at sp ws) = length ws"
  by (simp add: argv_at_def)

lemma argument_stack_run:
  assumes "stack_at kva s" "fits ws" "length parse = length ws"
    and "\<forall>i<length ws. string_outside kva (mem_of s) (parse ! i) (ws ! i)"
  shows "argument_stack krsp parse USER_STACK s =
    Some (pushed kva USER_STACK (stack_image ws) s, Some (USER_STACK - of_nat (length (stack_image ws))))"
proof -
  let ?n = "length (strings ws)"
  let ?p = "(STACK_TOP - ?n) mod 8"
  let ?w = "[0] @ rev (argv_at USER_STACK ws) @ [0]"
  have n: "?n + 7 + 8 * (length ws + 2) \<le> 4096" using assms(2) by (simp add: fits_def)
  have p: "?p \<le> 7" by simp
  have top: "unat (USER_STACK :: u64) = STACK_TOP" by simp
  have r1: "room USER_STACK ?n" "room USER_STACK (?n + ?p)" "room USER_STACK ((?n + ?p) + 8 * length ?w)"
    unfolding room_def top using n p by simp_all
  have r2: "room USER_STACK (length (strings ws) + length (replicate ?p (0 :: u8)))" using r1(2) by simp
  have r3: "room USER_STACK (length (replicate ?p (0 :: u8) @ strings ws) + length (word_image (rev ?w)))"
    using r1(3) by (simp add: add.commute add.left_commute)
  let ?s1 = "pushed kva USER_STACK (strings ws) s"
  let ?s2 = "pushed kva USER_STACK (replicate ?p 0 @ strings ws) s"
  let ?sp1 = "USER_STACK - of_nat ?n :: u64"
  let ?sp2 = "USER_STACK - of_nat (length (replicate ?p (0 :: u8) @ strings ws)) :: u64"
  have 1: "push_strings krsp (rev parse) [] USER_STACK s = Some (?s1, Some (?sp1, argv_at USER_STACK ws))"
    using push_strings_run [OF assms(1) r1(1) assms(3,4), of krsp "[]"] by simp
  have st1: "stack_at kva ?s1" by (rule pushed_stack(1) [OF assms(1) r1(1)])
  have sp1: "unat ?sp1 = STACK_TOP - ?n" "room ?sp1 ?p"
    using pushed_pushed(2,3) [OF r2] unfolding top by simp_all
  have "uint ?sp1 = int (unat ?sp1)" by simp
  then have "int32 (uint ?sp1) = int (STACK_TOP - ?n)" unfolding sp1(1) by (simp only:) (rule int32_id, simp_all)
  then have pad: "nat (cmod (int32 (uint ?sp1)) 8) = ?p" by (simp add: cmod_nonneg nat_mod_distrib)
  have 2: "push_padding krsp ?p ?sp1 ?s1 = Some (?s2, Some ?sp2)"
    using push_padding_run [OF st1 sp1(2), of krsp] pushed_pushed(1) [OF r2, of kva s] by (simp add: algebra_simps)
  have st2: "stack_at kva ?s2" by (rule pushed_stack(1) [OF assms(1)]) (use r1(2) in \<open>simp add: add.commute\<close>)
  have "room ?sp2 (8 * length ?w)" using pushed_pushed(3) [OF r3] by simp
  note 3 = push_words_run [OF st2 this, of krsp]
  have "pushed kva ?sp2 (word_image (rev ?w)) ?s2 = pushed kva USER_STACK (stack_image ws) s"
    using pushed_pushed(1) [OF r3, of kva s] by (simp add: stack_image_def)
  moreover have "?sp2 - of_nat (8 * length ?w) = USER_STACK - of_nat (length (stack_image ws))"
    by (simp add: stack_image_def algebra_simps)
  ultimately show ?thesis
    using 1 2 3 unfolding argument_stack_def by (simp only: bind.bind_lunit case_prod_conv option.case pad)
qed

text \<open>Reading it.\<close>

lemma get_user_stack:
  assumes "stack_at kva s" "STACK_BOTTOM \<le> unat a" "unat a < STACK_TOP"
  shows "get_user krsp a s = Some (s, Some (mem_of s (stack_addr kva (unat a))))"
  using get_user_mapped [of s a kva True krsp] assms(1) stack_page [OF assms(2,3)] by (simp add: stack_at_def stack_addr_def)

lemma stack_addr_Suc: "STACK_BOTTOM \<le> x \<Longrightarrow> stack_addr kva (Suc x) = Suc (stack_addr kva x)"
  by (simp add: stack_addr_def)

lemma get_users_stack:
  assumes "stack_at kva s" "STACK_BOTTOM \<le> unat a" "unat a + n \<le> STACK_TOP"
  shows "get_users krsp a n s = Some (s, Some (load_bytes (mem_of s) (stack_addr kva (unat a)) n))"
proof (cases n)
  case 0
  then show ?thesis by (simp add: load_bytes_def)
next
  case (Suc k)
  then have "unat a < STACK_TOP" using assms(3) by simp
  note st = stack_page [OF assms(2) this]
  show ?thesis using get_users_mapped [of s a kva True n krsp] assms st by (simp add: stack_at_def stack_addr_def)
qed

lemma get_user_string_stack:
  assumes "stack_at kva s" "STACK_BOTTOM \<le> unat a" "unat a + length w < STACK_TOP" "str_at (mem_of s) (stack_addr kva (unat a)) w"
  shows "get_user_string krsp a s = Some (s, Some w)"
  using assms
proof (induction w arbitrary: a)
  case Nil
  then show ?case using get_user_stack [of kva s a krsp] by (subst get_user_string.simps) simp
next
  case (Cons b w)
  have "unat a + 1 < 2 ^ 64" using Cons.prems(3) by simp
  then have u: "unat (a + 1) = unat a + 1" by (simp add: unat_plus64)
  have "get_user_string krsp (a + 1) s = Some (s, Some w)"
    using Cons.IH [of "a + 1"] Cons.prems u stack_addr_Suc by simp
  then show ?case
    using get_user_stack [of kva s a krsp] Cons.prems by (subst get_user_string.simps) simp
qed

text \<open>Where the parts of the image are.\<close>

lemma pushed_load:
  assumes "room sp (length (us @ vs @ ws))"
  shows "load_bytes (mem_of (pushed kva sp (us @ vs @ ws) s)) (stack_addr kva (unat sp - length vs - length ws)) (length vs) = vs"
proof -
  have b: "STACK_BOTTOM + length (us @ vs @ ws) \<le> unat sp" using assms by (simp add: room_def)
  have "stack_addr kva (unat sp - length vs - length ws) = stack_addr kva (unat sp - length (us @ vs @ ws)) + length us"
    using b by (simp add: stack_addr_def)
  then show ?thesis
    by (intro nth_equalityI) (auto simp: pushed_def load_bytes_def store_bytes_def nth_append)
qed

lemma pushed_string:
  assumes "room sp (length (us @ w @ 0 # vs))" "0 \<notin> set w"
  shows "str_at (mem_of (pushed kva sp (us @ w @ 0 # vs) s)) (stack_addr kva (unat sp - length (w @ 0 # vs))) w"
proof -
  have r: "room sp (length (us @ (w @ [0]) @ vs))" using assms(1) by simp
  let ?m = "mem_of (pushed kva sp (us @ w @ 0 # vs) s)" and ?a = "stack_addr kva (unat sp - length (w @ 0 # vs))"
  have "unat sp - length (w @ [0]) - length vs = unat sp - length (w @ 0 # vs)" by simp
  then have "load_bytes ?m ?a (Suc (length w)) = w @ [0]" using pushed_load [OF r, of kva s] by simp
  then have "?m (?a + i) = (w @ [0]) ! i" if "i < Suc (length w)" for i
    using that nth_map_upt [of i "Suc (length w)" 0 "\<lambda>i. ?m (?a + i)"] by (simp add: load_bytes_def del: upt_Suc)
  then show ?thesis using assms(2) by (simp add: str_at_def nth_append)
qed

section \<open>Setting up the stack\<close>

text \<open>Memory for the stack is there, and nothing is mapped where it will be.\<close>

definition stack_ready :: "vmem \<Rightarrow> bool" where
  "stack_ready s \<longleftrightarrow> mem_ok (ram (mm s)) \<and> user_pages_mapped (ram (mm s)) \<and>
     \<not> pool_pages (user_pool (ram (mm s))) \<subseteq> Palloc.in_use (ram (mm s)) \<and> 3 \<le> card (free_pages (ram (mm s))) \<and>
     vheap s = [] \<and> heap_fresh s \<and> space_ok (cur_pml4 s) (mm s) \<and> cur_pml4 s \<noteq> base_pml4 (mm s) \<and>
     (\<exists>m. spt_map s (spt s) m \<and> m (USER_STACK - 4096) = None)"

lemma setup_stack_run:
  assumes "stack_ready s"
  shows "\<exists>s' kva. setup_stack s = Some (s', Some USER_STACK) \<and> stack_at kva s' \<and> pg_no kva \<notin> Palloc.in_use (ram (mm s)) \<and>
    same_on (Palloc.in_use (ram (mm s)) - tabs (ram (mm s)) 3 (cur_pml4 s)) (ram (mm s)) (ram (mm s')) \<and>
    fsys s' = fsys s \<and> (\<exists>q pg. spt_find_page s' (spt s') (USER_STACK - 4096) = q \<and> q \<noteq> NULL \<and> pages s' q = Some pg \<and> writable pg)"
proof -
  let ?b = "USER_STACK - 4096 :: u64"
  obtain m where m: "spt_map s (spt s) m" "m ?b = None" using assms by (auto simp: stack_ready_def)
  have f: "heap_fresh s" "vheap s = []" using assms by (simp_all add: stack_ready_def)
  have ty: "VM_TYPE (VM_ANON OR VM_MARKER_0) = VM_ANON" by (simp add: VM_TYPE_def)
  have al: "pg_round_down ?b = ?b" by (simp add: pg_round_down_def)
  obtain s1 ok where a: "vm_alloc_page_with_initializer (VM_ANON OR VM_MARKER_0) ?b True no_init NULL s = Some (s1, ok)"
    "heap_fresh s1" "ok \<longleftrightarrow> m ?b = None \<and> snd (heap_ok s)" "vheap s = [] \<longrightarrow> vheap s1 = []"
    "spt_map s1 (spt s1) (if ok then m(?b \<mapsto> next_obj s) else m)"
    "pages s1 = (if ok then (pages s)(next_obj s \<mapsto> pending (VM_ANON OR VM_MARKER_0) ?b True no_init NULL) else pages s)"
    "s1 = s\<lparr>spt := spt s1, vheap := vheap s1, pages := pages s1, next_obj := next_obj s1\<rparr>"
    using alloc_page_cases [OF m(1) f(1) _ al, of "VM_ANON OR VM_MARKER_0" True no_init NULL] ty by blast
  let ?p = "next_obj s"
  let ?pg = "pending (VM_ANON OR VM_MARKER_0) ?b True no_init NULL"
  have ok: ok using a(3) m(2) f(2) by (simp add: heap_ok_def)
  have e: "mm s1 = mm s" "cur_pml4 s1 = cur_pml4 s" by (subst a(7), simp)+
  have pg: "pages s1 ?p = Some ?pg" using a(6) ok by simp
  have q: "operations ?pg = uninit_ops" "init_kind ?pg = anon_init" "init_fn ?pg = no_init" "page_va ?pg = ?b" "writable ?pg"
    using ty by (simp_all add: pending_def blank_page_def)
  have u: "is_user_vaddr ?b" "pg_ofs (unat ?b) = 0"
    by (simp_all add: is_user_vaddr_def is_kernel_vaddr_def KERN_BASE_def pg_ofs_def)
  have p0: "?p \<noteq> NULL" using f(1) by (simp add: heap_fresh_def)
  have find: "spt_find_page s1 (spt s1) ?b = ?p"
    using spt_find_map [OF a(5), of ?b] al ok by simp
  have free: "mem_ok (ram (mm s1))" "user_pages_mapped (ram (mm s1))" "\<not> pool_pages (user_pool (ram (mm s1))) \<subseteq> Palloc.in_use (ram (mm s1))"
    "3 \<le> card (free_pages (ram (mm s1)))" "vheap s1 = []" "space_ok (cur_pml4 s1) (mm s1)" "cur_pml4 s1 \<noteq> base_pml4 (mm s1)"
    using assms a(4) unfolding e stack_ready_def by simp_all
  obtain m2 kva w where c: "vm_do_claim_page ?p s1 = swap_in ?p (s1\<lparr>next_obj := Suc (next_obj s1),
      frame_list := frame_list s1 @ [next_obj s1], frames := (frames s1)(next_obj s1 \<mapsto> \<lparr>frame_kva = kva, frame_page = ?p\<rparr>),
      pages := (pages s1)(?p \<mapsto> ?pg\<lparr>page_frame := next_obj s1\<rparr>), mm := m2\<rparr>)"
    "pg_ofs kva = 0" "kva \<noteq> NULL" "pg_no kva \<notin> Palloc.in_use (ram (mm s1))" "space_ok (cur_pml4 s1) m2"
    "pg_no kva \<notin> tabs (ram m2) 3 (cur_pml4 s1)"
    "same_on (Palloc.in_use (ram (mm s1)) - tabs (ram (mm s1)) 3 (cur_pml4 s1)) (ram (mm s1)) (ram m2)"
    "frame_of w 0 = kva" "w AND PTE_W = (if writable ?pg then PTE_W else 0)"
    "\<forall>k<512 ^ 4. page_entry (cur_pml4 s1) k m2 = (if k = pg_no (unat (page_va ?pg)) then w else page_entry (cur_pml4 s1) k (mm s1))"
    using claim_frame_run [OF free(1-5) a(2) pg free(6,7)] u unfolding q(4) by blast
  define s2 where "s2 = s1\<lparr>next_obj := Suc (next_obj s1),
      frame_list := frame_list s1 @ [next_obj s1], frames := (frames s1)(next_obj s1 \<mapsto> \<lparr>frame_kva = kva, frame_page = ?p\<rparr>),
      mm := m2, pages := (pages s1)(?p \<mapsto> ?pg\<lparr>page_frame := next_obj s1, operations := anon_ops, swap_slot := - 1\<rparr>)\<rparr>"
  have "vm_do_claim_page ?p s1 = Some (s2, True)"
    unfolding c(1) using q(1-3) by (simp add: swap_in_def uninit_initialize_def anon_initializer_def upd_page_def s2_def)
  then have "vm_claim_page ?b s1 = Some (s2, True)" using find p0 by (simp add: vm_claim_page_def)
  then have run: "setup_stack s = Some (s2, Some USER_STACK)"
    using a(1) ok by (simp add: setup_stack_def vm_alloc_page_def)
  have n: "pg_no (unat (page_va ?pg)) = STACK_BOTTOM div PGSIZE" "STACK_BOTTOM div PGSIZE < 512 ^ 4" unfolding q(4) by (simp_all add: pg_no_def)
  have "page_entry (cur_pml4 s2) (STACK_BOTTOM div PGSIZE) (mm s2) = w" using c(10) n by (simp add: s2_def)
  moreover have "w AND PTE_W \<noteq> 0" using c(9) q(5) by simp
  ultimately have "stack_at kva s2"
    using c(2,3,5,6,8) by (simp add: stack_at_def mapped_at_def s2_def)
  moreover have "fsys s2 = fsys s" unfolding s2_def by (subst a(7)) simp
  moreover have "spt_map s2 (spt s2) (m(?b \<mapsto> ?p))"
    using spt_map_pages [of s1 "spt s1" "m(?b \<mapsto> ?p)" s2] a(5) ok pg by (simp add: s2_def)
  from spt_find_map [OF this, of ?b] have "spt_find_page s2 (spt s2) ?b = ?p" using al by simp
  moreover have "pages s2 ?p = Some (?pg\<lparr>page_frame := next_obj s1, operations := anon_ops, swap_slot := - 1\<rparr>)" by (simp add: s2_def)
  moreover have "same_on (Palloc.in_use (ram (mm s)) - tabs (ram (mm s)) 3 (cur_pml4 s)) (ram (mm s)) (ram (mm s2))"
    using c(7) unfolding e by (simp add: s2_def)
  ultimately show ?thesis using run c(4) p0 q(5) unfolding e by (intro exI [of _ s2] exI [of _ kva]) auto
qed

section \<open>What a program finds on its stack\<close>

lemma length_stack_image: "fits ws \<Longrightarrow> length (stack_image ws) \<le> PGSIZE"
proof -
  have "(STACK_TOP - length (strings ws)) mod 8 \<le> 7" by simp
  then show "fits ws \<Longrightarrow> length (stack_image ws) \<le> PGSIZE" by (simp add: stack_image_def fits_def)
qed

lemma stack_image_aligned: "fits ws \<Longrightarrow> (STACK_TOP - length (stack_image ws)) mod 8 = 0"
proof -
  assume f: "fits ws"
  let ?x = "STACK_TOP - length (strings ws)"
  have "STACK_TOP - length (stack_image ws) = ?x - ?x mod 8 - 8 * (length ws + 2)" by (simp add: stack_image_def)
  also have "?x - ?x mod 8 = 8 * (?x div 8)" by (simp add: minus_mod_eq_mult_div)
  also have "8 * (?x div 8) - 8 * (length ws + 2) = 8 * (?x div 8 - (length ws + 2))" by (simp add: diff_mult_distrib2)
  finally show ?thesis by simp
qed

lemma stack_below:
  assumes "n \<le> PGSIZE"
  shows "unat (USER_STACK - of_nat n :: u64) = STACK_TOP - n"
proof -
  have n: "unat (of_nat n :: u64) = n" by (rule unat_of_nat64) (use assms in simp)
  then have "(of_nat n :: u64) \<le> USER_STACK" using assms by (simp add: word_le_nat_alt)
  then show ?thesis using n by (simp add: unat_sub)
qed

lemma read_stack_image:
  assumes "stack_at kva s" "fits ws" "\<forall>w\<in>set ws. 0 \<notin> set w"
  defines "s' \<equiv> pushed kva USER_STACK (stack_image ws) s" and "sp \<equiv> USER_STACK - of_nat (length (stack_image ws)) :: u64"
  shows "get_users krsp sp (8 * (length ws + 2)) s' = Some (s', Some (word_image (0 # argv_at USER_STACK ws @ [0])))"
    and "i < length ws \<Longrightarrow> get_user_string krsp (argv_at USER_STACK ws ! i) s' = Some (s', Some (ws ! i))"
proof -
  have l: "length (stack_image ws) \<le> PGSIZE" by (rule length_stack_image [OF assms(2)])
  have r: "room USER_STACK (length (stack_image ws))" using l by (simp add: room_def)
  have st: "stack_at kva s'" unfolding s'_def by (rule pushed_stack(1) [OF assms(1) r])
  let ?top = "word_image (0 # argv_at USER_STACK ws @ [0])" and ?pad = "replicate ((STACK_TOP - length (strings ws)) mod 8) (0 :: u8)"
  have top: "unat (USER_STACK :: u64) = STACK_TOP" by simp
  have sp: "unat sp = STACK_TOP - length (stack_image ws)" unfolding sp_def by (rule stack_below [OF l])
  have "STACK_TOP - length ?top - length (?pad @ strings ws) = unat sp" unfolding sp by (simp add: stack_image_def)
  moreover have "room USER_STACK (length ([] @ ?top @ ?pad @ strings ws))" using r by (simp add: stack_image_def)
  ultimately have "load_bytes (mem_of s') (stack_addr kva (unat sp)) (length ?top) = ?top"
    using pushed_load [of USER_STACK "[]" ?top "?pad @ strings ws" kva s] unfolding s'_def top by (simp add: stack_image_def)
  moreover have "STACK_BOTTOM \<le> unat sp" "unat sp + 8 * (length ws + 2) \<le> STACK_TOP"
    unfolding sp using l by (simp_all add: stack_image_def)
  ultimately show "get_users krsp sp (8 * (length ws + 2)) s' = Some (s', Some ?top)"
    using get_users_stack [OF st, of sp "8 * (length ws + 2)" krsp] by simp
  assume i: "i < length ws"
  let ?w = "ws ! i" and ?rest = "strings (drop (Suc i) ws)"
  have d: "strings (drop i ws) = ?w @ 0 # ?rest" using i by (simp add: Cons_nth_drop_Suc [symmetric] strings_simps)
  have "strings ws = strings (take i ws) @ strings (drop i ws)" by (simp add: strings_simps(3) [symmetric])
  then have im: "stack_image ws = (?top @ ?pad @ strings (take i ws)) @ ?w @ 0 # ?rest" using d by (simp add: stack_image_def)
  have lw: "length (?w @ 0 # ?rest) \<le> PGSIZE" using l unfolding im by simp
  have a: "argv_at USER_STACK ws ! i = USER_STACK - of_nat (length (?w @ 0 # ?rest))" using i d by (simp add: argv_at_def)
  have u: "unat (argv_at USER_STACK ws ! i) = STACK_TOP - length (?w @ 0 # ?rest)" unfolding a by (rule stack_below [OF lw])
  have "str_at (mem_of s') (stack_addr kva (unat (argv_at USER_STACK ws ! i))) ?w"
    using pushed_string [of USER_STACK "?top @ ?pad @ strings (take i ws)" ?w ?rest kva s] r assms(3) i
    unfolding s'_def u im top by simp
  moreover have "STACK_BOTTOM \<le> unat (argv_at USER_STACK ws ! i)" "unat (argv_at USER_STACK ws ! i) + length ?w < STACK_TOP"
    unfolding u using lw by simp_all
  ultimately show "get_user_string krsp (argv_at USER_STACK ws ! i) s' = Some (s', Some ?w)"
    using get_user_string_stack [OF st] by blast
qed

text \<open>
  C17: The words of a command line of at most 64 words, which with their array of pointers fit into
  one page, become the arguments of the program. (The array of the code has 64 places and the stack
  one page; the code checks neither.) Splitting the command line gives one pointer for each word.
  Whatever the loader does then, as long as it leaves the page of the command line alone, maps
  nothing where the stack will be and memory lasts: setting up the stack and filling it returns with the stack pointer at a multiple of eight;
  the process finds there a null return address, a null-ended array of pointers, and behind the i-th
  of them the i-th word.
\<close>

theorem exec_arguments:
  assumes "str_at m0 fn cs" "fn \<noteq> NULL" "str_at m0 d [32]" "d \<noteq> NULL" "d + 1 < fn \<or> fn + length cs < d"
    and "length (words_of {32} cs) \<le> 64" "fits (words_of {32} cs)"
  shows "\<exists>m parse. parse_loop d fn NULL [] m0 = Some (m, parse) \<and> length parse = length (words_of {32} cs) \<and>
    (\<forall>a. a < fn \<or> fn + length cs < a \<longrightarrow> m a = m0 a) \<and>
    (\<forall>t. stack_ready t \<and> (\<forall>a. fn \<le> a \<and> a \<le> fn + length cs \<longrightarrow>
        mem_of t a = m a \<and> pg_no a \<in> Palloc.in_use (ram (mm t)) - tabs (ram (mm t)) 3 (cur_pml4 t)) \<longrightarrow>
      (\<exists>t1 t2 sp argv. setup_stack t = Some (t1, Some USER_STACK) \<and>
        argument_stack krsp parse USER_STACK t1 = Some (t2, Some sp) \<and> unat sp mod 8 = 0 \<and>
        length argv = length (words_of {32} cs) \<and>
        get_users krsp sp (8 * (length argv + 2)) t2 = Some (t2, Some (word_image (0 # argv @ [0]))) \<and>
        (\<forall>i<length argv. get_user_string krsp (argv ! i) t2 = Some (t2, Some (words_of {32} cs ! i)))))"
proof -
  let ?ws = "words_of {32} cs"
  obtain m ps where p: "parse_loop d fn NULL [] m0 = Some (m, ps)" "length ps = length ?ws"
    "\<forall>i<length ps. str_at m (ps ! i) (?ws ! i) \<and> fn \<le> ps ! i \<and> ps ! i + length (?ws ! i) \<le> fn + length cs"
    "\<forall>a. a < fn \<or> fn + length cs < a \<longrightarrow> m a = m0 a"
    using parse_loop_run [OF assms(1,3,4,2) _ assms(5), of fn NULL "[]"] assms(6) by auto
  have z: "\<forall>w\<in>set ?ws. 0 \<notin> set w" using p(2,3) by (auto simp: in_set_conv_nth str_at_def)
  have "\<exists>t1 t2 sp argv. setup_stack t = Some (t1, Some USER_STACK) \<and>
        argument_stack krsp ps USER_STACK t1 = Some (t2, Some sp) \<and> unat sp mod 8 = 0 \<and> length argv = length ?ws \<and>
        get_users krsp sp (8 * (length argv + 2)) t2 = Some (t2, Some (word_image (0 # argv @ [0]))) \<and>
        (\<forall>i<length argv. get_user_string krsp (argv ! i) t2 = Some (t2, Some (?ws ! i)))"
    if t: "stack_ready t" and c: "\<forall>a. fn \<le> a \<and> a \<le> fn + length cs \<longrightarrow>
        mem_of t a = m a \<and> pg_no a \<in> Palloc.in_use (ram (mm t)) - tabs (ram (mm t)) 3 (cur_pml4 t)" for t
  proof -
    obtain t1 kva where r: "setup_stack t = Some (t1, Some USER_STACK)" "stack_at kva t1" "pg_no kva \<notin> Palloc.in_use (ram (mm t))"
      "same_on (Palloc.in_use (ram (mm t)) - tabs (ram (mm t)) 3 (cur_pml4 t)) (ram (mm t)) (ram (mm t1))"
      using setup_stack_run [OF t] by metis
    have cell: "mem_of t1 a = m a \<and> pg_no a \<noteq> pg_no kva" if "fn \<le> a" "a \<le> fn + length cs" for a
      using c that r(3,4) by (auto simp: same_on_def)
    have "string_outside kva (mem_of t1) (ps ! i) (?ws ! i)" if "i < length ?ws" for i
    proof -
      have b: "str_at m (ps ! i) (?ws ! i)" "fn \<le> ps ! i" "ps ! i + length (?ws ! i) \<le> fn + length cs" using p(2,3) that by auto
      have "str_at (mem_of t1) (ps ! i) (?ws ! i) = str_at m (ps ! i) (?ws ! i)"
        by (rule str_at_cong) (use b cell in auto)
      then show ?thesis unfolding string_outside_def using b cell assms(2) by auto
    qed
    then have run: "argument_stack krsp ps USER_STACK t1 = Some (pushed kva USER_STACK (stack_image ?ws) t1,
        Some (USER_STACK - of_nat (length (stack_image ?ws))))"
      using argument_stack_run [OF r(2) assms(7) p(2)] by blast
    have "unat (USER_STACK - of_nat (length (stack_image ?ws)) :: u64) mod 8 = 0"
      using stack_below [OF length_stack_image [OF assms(7)]] stack_image_aligned [OF assms(7)] by simp
    then show ?thesis
      using r(1) run read_stack_image [OF r(2) assms(7) z, where krsp = krsp]
      by (intro exI [of _ t1] exI [of _ "pushed kva USER_STACK (stack_image ?ws) t1"]
          exI [of _ "USER_STACK - of_nat (length (stack_image ?ws))"] exI [of _ "argv_at USER_STACK ?ws"]) simp
  qed
  then show ?thesis using p(1,2,4) by blast
qed

text \<open>The command line \<open>ls -l\<close>, in the one page of the sample state that is in use and holds no table.\<close>

lemma sample_tabs: "tabs (ram sample_mmu) 3 0x8004001000 = {0x8004001}"
proof -
  have "child (ram sample_mmu) t i = None" for t i
    unfolding child_def load_pte_def by (subst load64_zero) (simp_all add: sample_mmu_def)
  then show ?thesis by (simp add: numeral_3_eq_3 pg_no_def)
qed

lemma sample_ready:
  fixes m :: mem
  assumes "\<forall>a. pg_no a \<noteq> 0 \<and> pg_no a \<noteq> 0x8004006 \<longrightarrow> m a = 0"
  shows "stack_ready (set_mem m sample_vmem)"
    and "0x8004006 \<in> Palloc.in_use (ram (mm (set_mem m sample_vmem))) -
      tabs (ram (mm (set_mem m sample_vmem))) 3 (cur_pml4 (set_mem m sample_vmem))"
proof -
  let ?r = "(ram sample_mmu)\<lparr>memory := m\<rparr>"
  let ?s = "set_mem m sample_vmem"
  have same: "same_on (- {0, 0x8004006}) (ram sample_mmu) ?r"
    using assms by (auto simp: same_on_def sample_mmu_def)
  have k: "Palloc.in_use ?r = Palloc.in_use (ram sample_mmu)" "free_pages ?r = free_pages (ram sample_mmu)"
    "user_pages_mapped ?r = user_pages_mapped (ram sample_mmu)" "mem_ok ?r = mem_ok (ram sample_mmu)"
    by (auto simp: Palloc.in_use_def free_pages_def user_pages_mapped_def mem_ok_def palloc_ok_def)
  then have sp: "space_ok 0x8004001000 (sample_mmu\<lparr>ram := ?r\<rparr>)"
    using space_write(1) [OF sample_mmu_ok same] sample_memory(1) by (simp add: sample_tabs)
  have e: "mm ?s = sample_mmu\<lparr>ram := ?r\<rparr>" "cur_pml4 ?s = 0x8004001000" "vheap ?s = []" "spt ?s = spt sample_vmem"
    by (simp_all add: set_mem_def set_ram_def sample_vmem_def)
  have "heap_fresh ?s" using sample_spt(2) by (simp add: heap_fresh_def set_mem_def set_ram_def)
  moreover have "spt_map ?s (spt ?s) Map.empty"
    unfolding e(4) by (rule spt_map_pages [OF sample_spt(1)]) (simp_all add: set_mem_def set_ram_def)
  moreover have "0x8004001000 \<noteq> base_pml4 sample_mmu" by (simp add: sample_mmu_def)
  moreover have "user_pool ?r = user_pool (ram sample_mmu)" by simp
  ultimately show "stack_ready ?s"
    unfolding stack_ready_def e using sp sample_memory k by auto
  have "tree_ok (ram sample_mmu) 3 0x8004001000" using sample_mmu_ok by (simp add: space_ok_def)
  moreover have "same_on (tabs (ram sample_mmu) 3 0x8004001000) (ram sample_mmu) ?r"
    by (rule same_on_subset [OF same]) (simp add: sample_tabs)
  ultimately have t: "tabs ?r 3 0x8004001000 = {0x8004001}" using tree_same(1) sample_tabs by metis
  have "0x8004006 \<in> Palloc.in_use (ram sample_mmu)"
    unfolding Palloc.in_use_def pool_used_def sample_in_use by (auto simp: sample_mmu_def sample_pool_def pg_no_def)
  then show "0x8004006 \<in> Palloc.in_use (ram (mm ?s)) - tabs (ram (mm ?s)) 3 (cur_pml4 ?s)"
    unfolding e using k(1) t by simp
qed

theorem exec_arguments_witness:
  "\<exists>m parse t1 t2 sp x y. setup_stack (set_mem m sample_vmem) = Some (t1, Some USER_STACK) \<and>
     parse_loop 100 0x8004006000 NULL [] (store_bytes (store_bytes (\<lambda>a. 0) 0x8004006000 [0x6c, 0x73, 0x20, 0x2d, 0x6c]) 100 [32]) =
       Some (m, parse) \<and>
     argument_stack KERN_BASE parse USER_STACK t1 = Some (t2, Some sp) \<and>
     get_user_string KERN_BASE x t2 = Some (t2, Some [0x6c, 0x73]) \<and>
     get_user_string KERN_BASE y t2 = Some (t2, Some [0x2d, 0x6c])"
proof -
  let ?cs = "[0x6c, 0x73, 0x20, 0x2d, 0x6c] :: u8 list"
  let ?m0 = "store_bytes (store_bytes (\<lambda>a. 0) 0x8004006000 ?cs) 100 [32] :: mem"
  have w: "words_of {32} ?cs = [[0x6c, 0x73], [0x2d, 0x6c]]" by simp
  have a: "str_at ?m0 0x8004006000 ?cs" "str_at ?m0 100 [32]" by (simp_all add: store_bytes_def)
  have b: "(0x8004006000 :: nat) \<noteq> NULL" "(100 :: nat) \<noteq> NULL" "(100 :: nat) + 1 < 0x8004006000 \<or> 0x8004006000 + length ?cs < 100"
    "length (words_of {32} ?cs) \<le> 64" "fits (words_of {32} ?cs)" unfolding w by (simp_all add: fits_def strings_def)
  obtain m parse where r: "parse_loop 100 0x8004006000 NULL [] ?m0 = Some (m, parse)"
    "\<forall>a. a < 0x8004006000 \<or> 0x8004006000 + length ?cs < a \<longrightarrow> m a = ?m0 a"
    "\<forall>t. stack_ready t \<and> (\<forall>a. 0x8004006000 \<le> a \<and> a \<le> 0x8004006000 + length ?cs \<longrightarrow>
        mem_of t a = m a \<and> pg_no a \<in> Palloc.in_use (ram (mm t)) - tabs (ram (mm t)) 3 (cur_pml4 t)) \<longrightarrow>
      (\<exists>t1 t2 sp argv. setup_stack t = Some (t1, Some USER_STACK) \<and>
        argument_stack KERN_BASE parse USER_STACK t1 = Some (t2, Some sp) \<and> unat sp mod 8 = 0 \<and>
        length argv = length (words_of {32} ?cs) \<and>
        get_users KERN_BASE sp (8 * (length argv + 2)) t2 = Some (t2, Some (word_image (0 # argv @ [0]))) \<and>
        (\<forall>i<length argv. get_user_string KERN_BASE (argv ! i) t2 = Some (t2, Some (words_of {32} ?cs ! i))))"
    using exec_arguments [OF a(1) b(1) a(2) b(2-5), of KERN_BASE] by blast
  have "m a = 0" if p: "pg_no a \<noteq> 0 \<and> pg_no a \<noteq> 0x8004006" for a
  proof -
    have "a < 0x8004006000 \<or> 0x8004006000 + length ?cs < a" using p by (auto simp: pg_no_def)
    then have "m a = ?m0 a" using r(2) by blast
    also have "\<dots> = 0" using p by (auto simp: store_bytes_def pg_no_def)
    finally show ?thesis .
  qed
  then have ready: "\<forall>a. pg_no a \<noteq> 0 \<and> pg_no a \<noteq> 0x8004006 \<longrightarrow> m a = 0" by blast
  have "\<forall>a. 0x8004006000 \<le> a \<and> a \<le> 0x8004006000 + length ?cs \<longrightarrow> mem_of (set_mem m sample_vmem) a = m a \<and>
      pg_no a \<in> Palloc.in_use (ram (mm (set_mem m sample_vmem))) -
        tabs (ram (mm (set_mem m sample_vmem))) 3 (cur_pml4 (set_mem m sample_vmem))"
  proof (intro allI impI)
    fix a assume "0x8004006000 \<le> a \<and> a \<le> 0x8004006000 + length ?cs"
    then have "pg_no a = 0x8004006" unfolding pg_no_def by (intro div_nat_eqI) simp_all
    then show "mem_of (set_mem m sample_vmem) a = m a \<and> pg_no a \<in> Palloc.in_use (ram (mm (set_mem m sample_vmem))) -
        tabs (ram (mm (set_mem m sample_vmem))) 3 (cur_pml4 (set_mem m sample_vmem))"
      using sample_ready(2) [OF ready] by simp
  qed
  then obtain t1 t2 sp argv where t: "setup_stack (set_mem m sample_vmem) = Some (t1, Some USER_STACK)"
    "argument_stack KERN_BASE parse USER_STACK t1 = Some (t2, Some sp)" "length argv = length (words_of {32} ?cs)"
    "\<forall>i<length argv. get_user_string KERN_BASE (argv ! i) t2 = Some (t2, Some (words_of {32} ?cs ! i))"
    using r(3) sample_ready(1) [OF ready] by blast
  have "get_user_string KERN_BASE (argv ! 0) t2 = Some (t2, Some [0x6c, 0x73])"
    "get_user_string KERN_BASE (argv ! 1) t2 = Some (t2, Some [0x2d, 0x6c])"
    using t(3) t(4) [rule_format, of 0] t(4) [rule_format, of 1] unfolding w by simp_all
  then show ?thesis using r(1) t(1,2) by blast
qed

end
