(* ===== verification/SyscallProps.thy ===== *)
theory SyscallProps
  imports Syscall ProcessArgs
begin

text \<open>
  What a process can rely on when it calls the kernel: what it writes to a file it reads back, and
  its descriptors stay well formed.
\<close>

section \<open>Transfer between a buffer and a file\<close>

text \<open>A buffer of \<open>n\<close> bytes in one mapped page that the process knows.\<close>

definition buffer_at :: "process \<Rightarrow> u64 \<Rightarrow> nat \<Rightarrow> bool \<Rightarrow> addr \<Rightarrow> bool" where
  "buffer_at p va n wr kva \<longleftrightarrow> va \<noteq> 0 \<and> is_user_vaddr va \<and> pg_ofs (unat va) + n \<le> PGSIZE \<and>
     mapped_at (vm p) (pg_no (unat va)) kva wr \<and>
     (\<exists>q pg. spt_find_page (vm p) (spt (vm p)) va = q \<and> q \<noteq> NULL \<and> pages (vm p) q = Some pg \<and> (wr \<longrightarrow> writable pg))"

definition buffer_bytes :: "process \<Rightarrow> u64 \<Rightarrow> nat \<Rightarrow> addr \<Rightarrow> u8 list" where
  "buffer_bytes p va n kva = load_bytes (mem_of (vm p)) (kva + pg_ofs (unat va)) n"

text \<open>Descriptor \<open>fd\<close> stands for the file \<open>f\<close> over the inode \<open>ino\<close>.\<close>

definition fd_file :: "process \<Rightarrow> int \<Rightarrow> addr \<Rightarrow> open_file \<Rightarrow> inode \<Rightarrow> bool" where
  "fd_file p fd f fl ino \<longleftrightarrow> 1 < fd \<and> fd < int (length (fdt p)) \<and> fd < FDCOUNT_LIMIT \<and> fdt p ! nat fd = f \<and> 2 < f \<and>
     files (fsys (vm p)) f = Some fl \<and> inodes (fsys (vm p)) (f_inode fl) = Some ino \<and>
     extent_ok (disk (fsys (vm p))) (data ino) \<and> 0 \<le> open_file.pos fl \<and> heap (fsys (vm p)) = []"

lemma fd_file_found: "fd_file p fd f fl ino \<Longrightarrow> find_file_by_fd fd p = Some f \<and> f \<noteq> NULL"
  by (auto simp: fd_file_def find_file_by_fd_def)

lemma buffer_checks:
  "buffer_at p va n wr kva \<Longrightarrow> check_address va p = Some (Returns p ())"
  "buffer_at p va n True kva \<Longrightarrow> check_buffer va p = Some (Returns p ())"
  by (auto simp: buffer_at_def check_address_def check_buffer_def Let_def)

text \<open>Changing the file system, or the contents of the frame, leaves the buffers where they are.\<close>

lemma buffer_at_set_fs [simp]: "buffer_at (set_fs s p) va n wr kva = buffer_at p va n wr kva"
proof -
  have f: "spt_find_page (vm (set_fs s p)) h = spt_find_page (vm p) h" for h
  proof -
    have "spt_key (vm (set_fs s p)) = spt_key (vm p)" by (simp add: fun_eq_iff spt_key_def set_fs_def)
    then show ?thesis by (intro ext) (simp only: spt_find_page_def)
  qed
  have "mapped_at (vm (set_fs s p)) k kva wr = mapped_at (vm p) k kva wr" for k by (simp add: mapped_at_def set_fs_def)
  then show ?thesis unfolding buffer_at_def f by (simp add: set_fs_def)
qed

lemma write_call:
  assumes "fd_file p fd f fl ino" "buffer_at p src n False ksrc" "deny_write_cnt ino = 0"
    and "open_file.pos fl + int n \<le> i_length (data ino)"
  shows "\<exists>s. sys_write krsp fd src (of_nat n) p = Some (Returns (set_fs s p) (int n)) \<and>
    fd_file (set_fs s p) fd f (fl\<lparr>pos := open_file.pos fl + int n\<rparr>) ino \<and> vm (set_fs s p) = (vm p)\<lparr>fsys := s\<rparr> \<and>
    file_bytes (disk s) (data ino) =
      overwrite (file_bytes (disk (fsys (vm p))) (data ino)) (nat (open_file.pos fl)) (buffer_bytes p src n ksrc)"
proof -
  let ?fs = "fsys (vm p)" and ?bs = "buffer_bytes p src n ksrc"
  have fa: "files ?fs f = Some fl" "inodes ?fs (f_inode fl) = Some ino" "extent_ok (disk ?fs) (data ino)"
    "0 \<le> open_file.pos fl" "heap ?fs = []" "fd \<noteq> 0" "fd \<noteq> 1" using assms(1) by (auto simp: fd_file_def)
  have buf: "mapped_at (vm p) (pg_no (unat src)) ksrc False" "is_user_vaddr src" "pg_ofs (unat src) + n \<le> PGSIZE"
    using assms(2) by (simp_all add: buffer_at_def)
  have n: "n < 2 ^ 31" using buf(3) by simp
  have u: "uint (of_nat n :: u32) = int n" using n by (simp add: uint_nat unat_of_nat)
  have i: "int32 (uint (of_nat n :: u32)) = int n" unfolding u by (rule int32_id) (use n in simp_all)
  have w: "wanted f (int n) ?fs = Some n" using fa(1,2) assms(3,4) by (simp add: wanted_def inode_length_def)
  have g: "fetch krsp src n p = Some (Returns p ?bs)"
    using get_users_mapped [OF buf] by (simp add: fetch_def buffer_bytes_def)
  have l: "length ?bs = n" by (simp add: buffer_bytes_def load_bytes_def)
  obtain s1 where r: "inode_write_loop ino ?bs (int n) (open_file.pos fl) False 0 ?fs = Some (s1, n)"
    "wrote (extent (data ino)) ?fs s1"
    "file_bytes (disk s1) (data ino) = overwrite (file_bytes (disk ?fs) (data ino)) (nat (open_file.pos fl)) ?bs"
    using inode_write_loop_spec [OF fa(3,4), of 0 "int n" ?bs False] l fa(4,5) assms(4) by auto
  let ?fl = "fl\<lparr>pos := open_file.pos fl + int n\<rparr>"
  let ?s = "s1\<lparr>files := (files s1)(f \<mapsto> ?fl)\<rparr>"
  have fw: "file_write f ?bs (int n) ?fs = Some (?s, n)"
    using fa(1,2) assms(3) r(1,2) by (simp add: file_write_def inode_write_at_def upd_file_def wrote_def)
  have "sys_write krsp fd src (of_nat n) p = Some (Returns (set_fs ?s p) (int n))"
    using buffer_checks(1) [OF assms(2)] fd_file_found [OF assms(1)] fa(6,7) w g fw unfolding sys_write_def i
    by (simp add: Let_def)
  moreover have "fd_file (set_fs ?s p) fd f ?fl ino"
    using assms(1) r(2) wrote_extent_ok [OF r(2)] by (auto simp: fd_file_def set_fs_def wrote_def)
  ultimately show ?thesis using r(3) by (intro exI [of _ ?s]) (simp add: set_fs_def)
qed

lemma seek_call:
  assumes "fd_file p fd f fl ino" "0 \<le> x" "x < 2 ^ 31"
  shows "\<exists>s. sys_seek fd (of_int x) p = Some (Returns (set_fs s p) ()) \<and> fd_file (set_fs s p) fd f (fl\<lparr>pos := x\<rparr>) ino \<and>
    disk s = disk (fsys (vm p))"
proof -
  let ?s = "(fsys (vm p))\<lparr>files := (files (fsys (vm p)))(f \<mapsto> fl\<lparr>pos := x\<rparr>)\<rparr>"
  have "uint (of_int x :: u32) = x" using assms(2,3) by (simp add: unsigned_of_int take_bit_int_eq_self)
  then have i: "int32 (uint (of_int x :: u32)) = x" using assms(2,3) by (simp add: int32_id)
  have "sys_seek fd (of_int x) p = Some (Returns (set_fs ?s p) ())"
    using fd_file_found [OF assms(1)] assms(1,2) unfolding sys_seek_def i
    by (simp add: fd_file_def file_seek_def upd_file_def)
  moreover have "fd_file (set_fs ?s p) fd f (fl\<lparr>pos := x\<rparr>) ino"
    using assms(1,2) by (auto simp: fd_file_def set_fs_def)
  ultimately show ?thesis by (intro exI [of _ ?s]) simp
qed

lemma read_call:
  assumes "fd_file p fd f fl ino" "buffer_at p dst n True kdst" "open_file.pos fl + int n \<le> i_length (data ino)"
  shows "\<exists>p'. sys_read krsp fd dst (of_nat n) p = Some (Returns p' (int n)) \<and>
    buffer_bytes p' dst n kdst = take n (drop (nat (open_file.pos fl)) (file_bytes (disk (fsys (vm p))) (data ino))) \<and>
    mem_of (vm p') = store_bytes (mem_of (vm p)) (kdst + pg_ofs (unat dst))
      (take n (drop (nat (open_file.pos fl)) (file_bytes (disk (fsys (vm p))) (data ino))))"
proof -
  let ?fs = "fsys (vm p)" and ?bs = "take n (drop (nat (open_file.pos fl)) (file_bytes (disk (fsys (vm p))) (data ino)))"
  have fa: "files ?fs f = Some fl" "inodes ?fs (f_inode fl) = Some ino" "extent_ok (disk ?fs) (data ino)"
    "0 \<le> open_file.pos fl" "heap ?fs = []" "fd \<noteq> 0" "fd \<noteq> 1" using assms(1) by (auto simp: fd_file_def)
  have buf: "mapped_at (vm p) (pg_no (unat dst)) kdst True" "is_user_vaddr dst" "pg_ofs (unat dst) + n \<le> PGSIZE"
    using assms(2) by (simp_all add: buffer_at_def)
  have n: "n < 2 ^ 31" using buf(3) by simp
  have u: "uint (of_nat n :: u32) = int n" using n by (simp add: uint_nat unat_of_nat)
  have i: "int32 (uint (of_nat n :: u32)) = int n" unfolding u by (rule int32_id) (use n in simp_all)
  obtain s1 where r: "file_read f (int n) ?fs = Some (s1, ?bs)"
    using file_read_run [OF fa(1-5), of "int n"] by auto
  have l: "length ?bs = n" using assms(3) fa(4) by simp
  have m: "mapped_at (vm (set_fs s1 p)) (pg_no (unat dst)) kdst True" using buf(1) by (simp add: mapped_at_def set_fs_def)
  let ?p = "p\<lparr>vm := set_mem (store_bytes (mem_of (vm p)) (kdst + pg_ofs (unat dst)) ?bs) ((vm p)\<lparr>fsys := s1\<rparr>)\<rparr>"
  have "put_users krsp dst ?bs (vm (set_fs s1 p)) = Some (vm ?p, True)"
    using put_users_mapped [OF m buf(2), of ?bs krsp] l buf(3) by (simp add: set_fs_def)
  then have "store krsp dst ?bs (set_fs s1 p) = Some (Returns ?p ())" by (simp add: store_def set_fs_def)
  then have "sys_read krsp fd dst (of_nat n) p = Some (Returns ?p (int n))"
    using buffer_checks(2) [OF assms(2)] fd_file_found [OF assms(1)] fa(6,7) r l unfolding sys_read_def i by simp
  moreover have "buffer_bytes ?p dst n kdst = ?bs"
    using load_store_bytes [of "mem_of (vm p)" "kdst + pg_ofs (unat dst)" ?bs] l by (simp add: buffer_bytes_def)
  ultimately show ?thesis by (intro exI [of _ ?p]) simp
qed

text \<open>
  C18: A process has a file open to which writing is not denied, and two buffers of \<open>n\<close> bytes, each
  inside one mapped page of the process, the second one writable; the \<open>n\<close> bytes from the position of
  the file on are within the length of the file. Then writing the contents of the first buffer,
  moving back and reading into the second buffer returns each time with the number of bytes, the
  second buffer then holds what the first one held, and no other byte of memory has changed. (Past
  the end of the file the calls return fewer bytes, as files do not grow.)
\<close>

theorem write_seek_read:
  assumes "fd_file p fd f fl ino" "deny_write_cnt ino = 0" "open_file.pos fl + int n \<le> i_length (data ino)"
    and "buffer_at p src n False ksrc" "buffer_at p dst n True kdst"
  shows "\<exists>p1 p2 p3. sys_write krsp fd src (of_nat n) p = Some (Returns p1 (int n)) \<and>
    sys_seek fd (of_int (open_file.pos fl)) p1 = Some (Returns p2 ()) \<and>
    sys_read krsp fd dst (of_nat n) p2 = Some (Returns p3 (int n)) \<and>
    buffer_bytes p3 dst n kdst = buffer_bytes p src n ksrc \<and>
    (\<forall>a. a < kdst + pg_ofs (unat dst) \<or> kdst + pg_ofs (unat dst) + n \<le> a \<longrightarrow> mem_of (vm p3) a = mem_of (vm p) a)"
proof -
  let ?bs = "buffer_bytes p src n ksrc" and ?fl = "fl\<lparr>pos := open_file.pos fl + int n\<rparr>" and ?x = "open_file.pos fl"
  let ?fb = "file_bytes (disk (fsys (vm p))) (data ino)"
  have x: "0 \<le> ?x" "?x < 2 ^ 31" "extent_ok (disk (fsys (vm p))) (data ino)"
    using assms(1,3) by (auto simp: fd_file_def extent_ok_def)
  have l: "length ?bs = n" by (simp add: buffer_bytes_def load_bytes_def)
  obtain s1 where w: "sys_write krsp fd src (of_nat n) p = Some (Returns (set_fs s1 p) (int n))"
    "fd_file (set_fs s1 p) fd f ?fl ino" "file_bytes (disk s1) (data ino) = overwrite ?fb (nat ?x) ?bs"
    using write_call [OF assms(1,4,2,3)] by blast
  obtain s2 where k: "sys_seek fd (of_int ?x) (set_fs s1 p) = Some (Returns (set_fs s2 (set_fs s1 p)) ())"
    "fd_file (set_fs s2 (set_fs s1 p)) fd f (?fl\<lparr>pos := ?x\<rparr>) ino" "disk s2 = disk (fsys (vm (set_fs s1 p)))"
    using seek_call [OF w(2) x(1,2)] by blast
  let ?p2 = "set_fs s2 (set_fs s1 p)"
  have d: "file_bytes (disk (fsys (vm ?p2))) (data ino) = overwrite ?fb (nat ?x) ?bs"
    using k(3) w(3) by (simp add: set_fs_def)
  have fit: "nat ?x + length ?bs \<le> length ?fb" using l assms(3) x(1) by simp
  have same: "take n (drop (nat ?x) (overwrite ?fb (nat ?x) ?bs)) = ?bs"
    using fit l by (simp add: overwrite_def)
  have "buffer_at ?p2 dst n True kdst" using assms(5) by simp
  then obtain p3 where r: "sys_read krsp fd dst (of_nat n) ?p2 = Some (Returns p3 (int n))" "buffer_bytes p3 dst n kdst = ?bs"
    "mem_of (vm p3) = store_bytes (mem_of (vm ?p2)) (kdst + pg_ofs (unat dst)) ?bs"
    using read_call [OF k(2), of dst n kdst krsp] assms(3) d same by auto
  have "mem_of (vm ?p2) = mem_of (vm p)" by (simp add: set_fs_def)
  then have "\<forall>a. a < kdst + pg_ofs (unat dst) \<or> kdst + pg_ofs (unat dst) + n \<le> a \<longrightarrow> mem_of (vm p3) a = mem_of (vm p) a"
    unfolding r(3) using l by (auto simp: store_bytes_def)
  then show ?thesis using w(1) k(1) r(1,2) by blast
qed

text \<open>Both buffers in the stack page of the sample process, with descriptor 2 open.\<close>

definition sample_process :: "vmem \<Rightarrow> process" where
  "sample_process v = \<lparr>vm = v, runn_file = 0, fdt = 1 # 2 # 7 # replicate 1533 0, fd_index = 3, exit_status = 0, console = [], keys = []\<rparr>"

theorem write_seek_read_witness:
  "\<exists>p p1 p2 p3. sys_write KERN_BASE 2 0x4747F000 5 p = Some (Returns p1 5) \<and> sys_seek 2 0 p1 = Some (Returns p2 ()) \<and>
     sys_read KERN_BASE 2 0x4747F800 5 p2 = Some (Returns p3 5)"
proof -
  obtain t kva q pg where t: "stack_at kva t" "fsys t = fsys sample_vmem"
    "spt_find_page t (spt t) 0x4747F000 = q" "q \<noteq> NULL" "pages t q = Some pg" "writable pg"
  proof -
    have "USER_STACK - 4096 = (0x4747F000 :: u64)" "fsys (set_mem m sample_vmem) = fsys sample_vmem" for m
      by (simp_all add: set_mem_def set_ram_def)
    then show thesis using setup_stack_run [OF sample_ready(1), of "\<lambda>a. 0"] that by auto
  qed
  let ?p = "sample_process t" and ?fl = "\<lparr>f_inode = 1, pos = 0, deny_write = False\<rparr>"
  have e: "fsys (vm ?p) = sample_fs\<lparr>files := [7 \<mapsto> ?fl]\<rparr>" using t(2) by (simp add: sample_process_def sample_vmem_def)
  have l: "2 < int (length (fdt ?p))" "fdt ?p ! 2 = 7" by (simp_all add: sample_process_def numeral_2_eq_2)
  have f: "fd_file ?p 2 7 ?fl sample_inode"
    unfolding fd_file_def e using l sample_extent_ok by (simp add: sample_fs_def)
  have r: "spt_find_page t (spt t) 0x4747F800 = q" using t(3) by (simp add: spt_find_page_def pg_round_down_def)
  have u: "is_user_vaddr 0x4747F000" "is_user_vaddr 0x4747F800" by (simp_all add: is_user_vaddr_def is_kernel_vaddr_def KERN_BASE_def)
  have m: "mapped_at t (STACK_BOTTOM div PGSIZE) kva True" "mapped_at t (STACK_BOTTOM div PGSIZE) kva False"
    using t(1) by (auto simp: stack_at_def mapped_at_def Let_def)
  have b: "buffer_at ?p 0x4747F000 5 False kva" "buffer_at ?p 0x4747F800 5 True kva"
    unfolding buffer_at_def using t(3-6) r u m by (simp_all add: sample_process_def pg_ofs_def pg_no_def)
  have x: "deny_write_cnt sample_inode = 0" "open_file.pos ?fl + int 5 \<le> i_length (data sample_inode)"
    by (simp_all add: sample_inode_def)
  from write_seek_read [OF f x b, of KERN_BASE] show ?thesis by auto
qed

section \<open>Descriptors\<close>

text \<open>
  The type of the table: every slot from 2 on that is in use holds an open file, and no file is in
  two slots.
\<close>

definition fdt_ok :: "process \<Rightarrow> bool" where
  "fdt_ok p \<longleftrightarrow> length (fdt p) = 1536 \<and> 2 \<le> fd_index p \<and> fd_index p \<le> 1536 \<and>
     (\<forall>i\<in>{2..<1536}. fdt p ! i \<noteq> NULL \<longrightarrow> 2 < fdt p ! i \<and> files (fsys (vm p)) (fdt p ! i) \<noteq> None \<and>
        (\<forall>j\<in>{2..<1536}. fdt p ! j = fdt p ! i \<longrightarrow> j = i))"

text \<open>Operations of the file system that open and close no file.\<close>

definition same_files :: "fs \<Rightarrow> fs \<Rightarrow> bool" where "same_files s s' \<longleftrightarrow> files s' = files s"

lemma step_files:
  "bwrite i b t = Some t' \<Longrightarrow> files t' = files t"
  "bread i t = Some (t', b) \<Longrightarrow> files t' = files t"
  "alloc t = (t', ok) \<Longrightarrow> files t' = files t"
  by (auto simp: bwrite_def bread_def alloc_def split: bind_splits list.splits)

lemma inode_write_loop_files: "inode_write_loop ino buf sz offset bounce n s = Some (s', k) \<Longrightarrow> files s' = files s"
proof (induction "nat sz" arbitrary: sz offset bounce n s rule: less_induct)
  case less
  let ?c = "chunk_size ino sz offset"
  have ih: "files s' = files t" if "inode_write_loop ino buf (sz - ?c) o' b' n' t = Some (s', k)" "0 < sz" "0 < ?c" for o' b' n' t
    by (rule less.hyps [OF _ that(1)]) (use that in simp)
  consider "\<not> (0 < sz \<and> 0 < ?c)" | "0 < sz" "0 < ?c" "cmod offset 512 = 0 \<and> ?c = 512" | "0 < sz" "0 < ?c" "\<not> (cmod offset 512 = 0 \<and> ?c = 512)"
    by blast
  then show ?case
  proof cases
    case 1
    then show ?thesis using less.prems by (subst (asm) inode_write_loop.simps) (auto simp: Let_def split: if_splits)
  next
    case 2
    then show ?thesis
      using less.prems inode_write_loop_full [OF 2(1), of offset ino buf bounce n s] ih [of "offset + 512"]
      by (auto split: option.splits dest!: step_files)
  next
    case 3
    have al: "files t' = files t" if "(if bounce then (t, True) else alloc t) = (t', ok)" for t t' ok
      using that by (auto split: if_splits dest: step_files)
    obtain s1 where s1: "(if bounce then (s, True) else alloc s) = (s1, True) \<or> (if bounce then (s, True) else alloc s) = (s1, False)"
      by (metis (full_types) surj_pair)
    then show ?thesis
    proof
      assume f: "(if bounce then (s, True) else alloc s) = (s1, False)"
      then have "inode_write_loop ino buf sz offset bounce n s = Some (s1, n)"
        using 3 by (subst inode_write_loop.simps) (auto simp: Let_def)
      then show ?thesis using less.prems al [OF f] by simp
    next
      assume t: "(if bounce then (s, True) else alloc s) = (s1, True)"
      then show ?thesis
        using 3 less.prems al [OF t]
        by (subst (asm) inode_write_loop.simps)
          (auto simp: Let_def simp del: if_split_asm split: option.splits if_splits dest!: step_files(1,2) ih)
    qed
  qed
qed

lemma free_map_release_files: "free_map_release sec cnt s = Some s' \<Longrightarrow> files s' = files s"
  by (auto simp: free_map_release_def free_map_write_def file_write_at_def inode_write_at_def Let_def
      split: bind_splits if_splits dest!: inode_write_loop_files)

lemma inode_close_files: "inode_close a s = Some s' \<Longrightarrow> files s' = files s"
  by (auto simp: inode_close_def upd_inode_def Let_def split: bind_splits if_splits dest!: free_map_release_files)

lemma file_close_files:
  assumes "file_close f s = Some s'" "f \<noteq> NULL"
  shows "files s' f = None" and "g \<noteq> f \<Longrightarrow> files s' g = files s g"
  using assms
  by (auto simp: file_close_def file_allow_write_def inode_allow_write_def upd_inode_def upd_file_def
      split: bind_splits if_splits dest!: inode_close_files)

lemma next_free_spec:
  assumes "i \<le> 1536"
  shows "i \<le> next_free t i \<and> next_free t i \<le> 1536 \<and> (\<forall>k. i \<le> k \<and> k < next_free t i \<longrightarrow> t ! nat k \<noteq> NULL) \<and>
    (next_free t i < 1536 \<longrightarrow> t ! nat (next_free t i) = NULL)"
  using assms
proof (induction t i rule: next_free.induct)
  case (1 t i)
  show ?case
  proof (cases "i < 1536 \<and> t ! nat i \<noteq> NULL")
    case True
    then have n: "next_free t i = next_free t (i + 1)" by (subst next_free.simps) simp
    have ih: "i + 1 \<le> next_free t (i + 1)" "next_free t (i + 1) \<le> 1536"
      "\<forall>k. i + 1 \<le> k \<and> k < next_free t (i + 1) \<longrightarrow> t ! nat k \<noteq> NULL"
      "next_free t (i + 1) < 1536 \<longrightarrow> t ! nat (next_free t (i + 1)) = NULL" using 1 True by simp_all
    have "t ! nat k \<noteq> NULL" if "i \<le> k" "k < next_free t (i + 1)" for k
      using ih(3) that True by (cases "k = i") auto
    then show ?thesis unfolding n using ih by simp
  next
    case False
    then have "next_free t i = i" by (subst next_free.simps) auto
    then show ?thesis using False 1(2) by auto
  qed
qed

lemma fdt_okD:
  assumes "fdt_ok p"
  shows "length (fdt p) = 1536" "2 \<le> fd_index p" "fd_index p \<le> 1536"
    and "2 \<le> i \<Longrightarrow> i < 1536 \<Longrightarrow> fdt p ! i \<noteq> NULL \<Longrightarrow> 2 < fdt p ! i \<and> files (fsys (vm p)) (fdt p ! i) \<noteq> None"
    and "2 \<le> i \<Longrightarrow> i < 1536 \<Longrightarrow> fdt p ! i \<noteq> NULL \<Longrightarrow> 2 \<le> j \<Longrightarrow> j < 1536 \<Longrightarrow> fdt p ! j = fdt p ! i \<Longrightarrow> j = i"
  using assms by (auto simp: fdt_ok_def)

lemma add_file_typed:
  assumes "fdt_ok p" "2 < f" "files (fsys (vm p)) f \<noteq> None" "\<forall>i\<in>{2..<1536}. fdt p ! i \<noteq> f"
  shows "fdt_ok (fst (add_file_to_fdt f p)) \<and>
    (let (p', fd) = add_file_to_fdt f p in
       fd = - 1 \<and> fdt p' = fdt p \<and> (\<forall>i. fd_index p \<le> i \<and> i < 1536 \<longrightarrow> find_file_by_fd i p \<noteq> Some NULL) \<or>
       2 \<le> fd \<and> fd < 1536 \<and> find_file_by_fd fd p = Some NULL \<and> find_file_by_fd fd p' = Some f \<and>
       (\<forall>g. g \<noteq> fd \<longrightarrow> find_file_by_fd g p' = find_file_by_fd g p))"
proof -
  note ok = fdt_okD [OF assms(1)]
  let ?i = "next_free (fdt p) (fd_index p)"
  have i: "fd_index p \<le> ?i" "?i \<le> 1536" "\<forall>k. fd_index p \<le> k \<and> k < ?i \<longrightarrow> fdt p ! nat k \<noteq> NULL"
    "?i < 1536 \<longrightarrow> fdt p ! nat ?i = NULL" using next_free_spec [OF ok(3), of "fdt p"] by blast+
  show ?thesis
  proof (cases "?i < 1536")
    case False
    then have e: "add_file_to_fdt f p = (p\<lparr>fd_index := ?i\<rparr>, - 1)" by (simp add: add_file_to_fdt_def Let_def)
    have "fdt_ok (p\<lparr>fd_index := ?i\<rparr>)" using assms(1) i(1,2) by (simp add: fdt_ok_def)
    moreover have "find_file_by_fd k p \<noteq> Some NULL" if "fd_index p \<le> k" "k < 1536" for k
      using i(2,3) that False ok(1,2) by (auto simp: find_file_by_fd_def split: if_splits)
    ultimately show ?thesis unfolding e by simp
  next
    case True
    let ?p = "p\<lparr>fd_index := ?i, fdt := (fdt p)[nat ?i := f]\<rparr>"
    have e: "add_file_to_fdt f p = (?p, ?i)" using True by (simp add: add_file_to_fdt_def Let_def)
    have n: "2 \<le> nat ?i" "nat ?i < 1536" using True i(1) ok(2) by auto
    have "fdt_ok ?p"
      unfolding fdt_ok_def using ok n i(1,2) assms(2-4) by (auto simp: nth_list_update)
    moreover have "find_file_by_fd ?i p = Some NULL" "find_file_by_fd ?i ?p = Some f"
      using True i(1,4) ok(1,2) n by (auto simp: find_file_by_fd_def)
    moreover have "find_file_by_fd g ?p = find_file_by_fd g p" if "g \<noteq> ?i" for g
      using that i(1) ok(2) by (auto simp: find_file_by_fd_def nth_list_update)
    ultimately show ?thesis unfolding e using True i(1) ok(2) by simp
  qed
qed

lemma close_typed:
  assumes "fdt_ok p" "close_fd fd p = Some p'"
  shows "fdt_ok p' \<and> (1 < fd \<longrightarrow> find_file_by_fd fd p' = Some NULL) \<and>
    (\<forall>g. g \<noteq> fd \<longrightarrow> find_file_by_fd g p' = find_file_by_fd g p)"
proof -
  note ok = fdt_okD [OF assms(1)]
  consider "fd = 0 \<or> fd = 1" | "fd < 0 \<or> fd > 1536" | "2 \<le> fd" "fd \<le> 1536" by linarith
  then show ?thesis
  proof cases
    case 1
    then show ?thesis using assms by (auto simp: close_fd_def)
  next
    case 2
    then have "p' = p" using assms(2) by (auto simp: close_fd_def find_file_by_fd_def)
    then show ?thesis using assms(1) 2 by (auto simp: find_file_by_fd_def)
  next
    case 3
    then have l: "nat fd < 1536" using assms(2) ok(1) by (auto simp: close_fd_def find_file_by_fd_def split: if_splits)
    let ?f = "fdt p ! nat fd"
    show ?thesis
    proof (cases "?f = NULL")
      case True
      then have "p' = p" "find_file_by_fd fd p = Some NULL" using assms(2) 3 l ok(1) by (auto simp: close_fd_def find_file_by_fd_def)
      then show ?thesis using assms(1) l 3 by auto
    next
      case False
      obtain s where s: "file_close ?f (fsys (vm p)) = Some s" "p' = set_fs s (p\<lparr>fdt := (fdt p)[nat fd := NULL]\<rparr>)"
        using assms(2) 3 l ok(1) False by (auto simp: close_fd_def find_file_by_fd_def remove_file_from_fdt_def split: bind_splits)
      note fc = file_close_files [OF s(1) False]
      have t: "fdt p' = (fdt p)[nat fd := NULL]" "fd_index p' = fd_index p" "fsys (vm p') = s" by (simp_all add: s(2) set_fs_def)
      have "2 < fdt p' ! i \<and> files s (fdt p' ! i) \<noteq> None \<and> (\<forall>j\<in>{2..<1536}. fdt p' ! j = fdt p' ! i \<longrightarrow> j = i)"
        if i: "2 \<le> i" "i < 1536" "fdt p' ! i \<noteq> NULL" for i
      proof -
        have ne: "i \<noteq> nat fd" "fdt p' ! i = fdt p ! i" using i t(1) ok(1) l by (auto simp: nth_list_update split: if_splits)
        then have p: "fdt p ! i \<noteq> NULL" using i by simp
        have "2 \<le> nat fd" using 3(1) by linarith
        then have "fdt p ! i \<noteq> ?f" using ok(5) [OF i(1,2) p _ l] ne(1) by auto
        then have "files s (fdt p ! i) \<noteq> None" using fc(2) ok(4) [OF i(1,2) p] by simp
        moreover have "j = i" if "2 \<le> j" "j < 1536" "fdt p' ! j = fdt p ! i" for j
          using ok(5) [OF i(1,2) p that(1,2)] that(3) t(1) ok(1) l p by (auto simp: nth_list_update split: if_splits)
        ultimately show ?thesis using ok(4) [OF i(1,2) p] ne(2) by auto
      qed
      then have "fdt_ok p'" unfolding fdt_ok_def t using ok(1-3) by (auto simp: t)
      moreover have "find_file_by_fd g p' = find_file_by_fd g p" if "g \<noteq> fd" for g
        using that 3 by (auto simp: find_file_by_fd_def t nth_list_update)
      moreover have "find_file_by_fd fd p' = Some NULL" using 3 l ok(1) by (simp add: find_file_by_fd_def t)
      ultimately show ?thesis using 3 l by auto
    qed
  qed
qed

text \<open>
  C31: The table of descriptors stays well typed. Entering an open file either leaves the table alone
  and fails, when no slot is free from the index \<open>fd_index\<close> on (slots freed below it are not used
  again), or gives a free descriptor from 2 to 1535 that then stands for the file; closing any
  descriptor, when it returns, leaves that descriptor without a file and every other one as it was.
\<close>

theorem descriptors_typed:
  assumes "fdt_ok p" "2 < f" "files (fsys (vm p)) f \<noteq> None" "\<forall>i\<in>{2..<1536}. fdt p ! i \<noteq> f"
  shows "fdt_ok (fst (add_file_to_fdt f p)) \<and>
    (let (p', fd) = add_file_to_fdt f p in
       fd = - 1 \<and> fdt p' = fdt p \<and> (\<forall>i. fd_index p \<le> i \<and> i < 1536 \<longrightarrow> find_file_by_fd i p \<noteq> Some NULL) \<or>
       2 \<le> fd \<and> fd < 1536 \<and> find_file_by_fd fd p = Some NULL \<and> find_file_by_fd fd p' = Some f \<and>
       (\<forall>g. g \<noteq> fd \<longrightarrow> find_file_by_fd g p' = find_file_by_fd g p)) \<and>
    (\<forall>fd p'. close_fd fd p = Some p' \<longrightarrow> fdt_ok p' \<and> (1 < fd \<longrightarrow> find_file_by_fd fd p' = Some NULL) \<and>
       (\<forall>g. g \<noteq> fd \<longrightarrow> find_file_by_fd g p' = find_file_by_fd g p))"
  using add_file_typed [OF assms] close_typed [OF assms(1)] by blast

theorem descriptors_typed_witness:
  "fdt_ok (fst (add_file_to_fdt 9 (sample_process (sample_vmem\<lparr>fsys := (fsys sample_vmem)\<lparr>files :=
     (files (fsys sample_vmem))(9 \<mapsto> \<lparr>f_inode = 1, pos = 0, deny_write = False\<rparr>)\<rparr>\<rparr>))))"
proof -
  let ?p = "sample_process (sample_vmem\<lparr>fsys := (fsys sample_vmem)\<lparr>files :=
     (files (fsys sample_vmem))(9 \<mapsto> \<lparr>f_inode = 1, pos = 0, deny_write = False\<rparr>)\<rparr>\<rparr>)"
  have t: "fdt ?p ! 2 = 7" "fdt ?p ! i = NULL" if "3 \<le> i" "i < 1536" for i
    using that by (auto simp: sample_process_def nth_Cons' numeral_2_eq_2 numeral_3_eq_3)
  have d: "fdt ?p ! i = (if i = 2 then 7 else NULL)" if "2 \<le> i" "i < 1536" for i
    using that t [of i] by (cases "i = 2") (auto simp: sample_process_def)
  have "fdt_ok ?p" unfolding fdt_ok_def using d by (auto simp: sample_process_def sample_vmem_def)
  moreover have "files (fsys (vm ?p)) 9 \<noteq> None" by (simp add: sample_process_def)
  moreover have "\<forall>i\<in>{2..<1536}. fdt ?p ! i \<noteq> 9" using d by auto
  ultimately show ?thesis using descriptors_typed [of ?p 9] by simp
qed

end
