(* ===== verification/Stdio.thy ===== *)
theory Stdio
  imports StringLib Stdlib
begin

text \<open>
  Formatted output: lib/stdio.c and the console (lib/kernel/console.c). A format string is the list
  of the bytes before its terminator. The variable arguments are the 64-bit slots that \<open>va_arg\<close>
  takes one by one; a conversion that takes more than there are is undefined, as is reading behind
  the terminator of the format: both are \<open>None\<close>. The function \<open>output\<close> and its auxiliary data are
  parameters, as in the code, so the same loop prints to the console and into a buffer. The strings
  printed by \<open>%s\<close> are read from the memory \<open>m\<close>, which the output does not change.
\<close>

section \<open>Characters\<close>

definition ch :: "char \<Rightarrow> u8" where "ch c = of_char c"

lemma ch_simps [simp]:
  "ch CHR ''%'' = 37" "ch CHR ''-'' = 45" "ch CHR ''+'' = 43" "ch CHR '' '' = 32" "ch CHR ''#'' = 35"
  "ch CHR ''0'' = 48" "ch CHR 0x27 = 39" "ch CHR ''*'' = 42" "ch CHR ''.'' = 46" "ch CHR ''h'' = 104"
  "ch CHR ''j'' = 106" "ch CHR ''l'' = 108" "ch CHR ''t'' = 116" "ch CHR ''z'' = 122" "ch CHR '','' = 44"
  "ch CHR ''d'' = 100" "ch CHR ''i'' = 105" "ch CHR ''o'' = 111" "ch CHR ''u'' = 117" "ch CHR ''x'' = 120"
  "ch CHR ''X'' = 88" "ch CHR ''c'' = 99" "ch CHR ''s'' = 115" "ch CHR ''p'' = 112" "ch CHR ''f'' = 102"
  "ch CHR ''e'' = 101" "ch CHR ''E'' = 69" "ch CHR ''g'' = 103" "ch CHR ''G'' = 71" "ch CHR ''n'' = 110"
  "ch CHR ''|'' = 124"
  by (simp_all add: ch_def)

abbreviation str :: "string \<Rightarrow> u8 list" where "str \<equiv> map ch"

definition isprint :: "u8 \<Rightarrow> bool" where "isprint c \<longleftrightarrow> 32 \<le> c \<and> c < 127"

text \<open>The character a format points to; the terminator at its end.\<close>

definition peek :: "u8 list \<Rightarrow> u8" where "peek s = (case s of [] \<Rightarrow> 0 | c # cs \<Rightarrow> c)"

lemma peek_simps [simp]: "peek [] = 0" "peek (c # s) = c"
  by (simp_all add: peek_def)

section \<open>Conversion specifications\<close>

abbreviation MINUS :: u32 where "MINUS \<equiv> 1"
abbreviation PLUS :: u32 where "PLUS \<equiv> 2"
abbreviation SPACE :: u32 where "SPACE \<equiv> 4"
abbreviation POUND :: u32 where "POUND \<equiv> 8"
abbreviation ZERO :: u32 where "ZERO \<equiv> 16"
abbreviation GROUP :: u32 where "GROUP \<equiv> 32"

datatype conversion_type =
  CHAR_TYPE | SHORT_TYPE | INT_TYPE | INTMAX_TYPE | LONG_TYPE | LONGLONG_TYPE | PTRDIFF_TYPE | SIZE_TYPE

record printf_conversion =
  flags :: u32
  width :: int
  precision :: int
  type_of :: conversion_type

record integer_base =
  base :: nat
  digits :: "u8 list"
  x_char :: u8
  group :: nat

definition base_d :: integer_base where
  "base_d = \<lparr>base = 10, digits = str ''0123456789'', x_char = 0, group = 3\<rparr>"
definition base_o :: integer_base where
  "base_o = \<lparr>base = 8, digits = str ''01234567'', x_char = 0, group = 3\<rparr>"
definition base_x :: integer_base where
  "base_x = \<lparr>base = 16, digits = str ''0123456789abcdef'', x_char = ch CHR ''x'', group = 4\<rparr>"
definition base_X :: integer_base where
  "base_X = \<lparr>base = 16, digits = str ''0123456789ABCDEF'', x_char = ch CHR ''X'', group = 4\<rparr>"

definition flag_of :: "u8 \<Rightarrow> u32 option" where
  "flag_of c =
     (if c = ch CHR ''-'' then Some MINUS
      else if c = ch CHR ''+'' then Some PLUS
      else if c = ch CHR '' '' then Some SPACE
      else if c = ch CHR ''#'' then Some POUND
      else if c = ch CHR ''0'' then Some ZERO
      else if c = ch CHR 0x27 then Some GROUP
      else None)"

fun parse_flags :: "u8 list \<Rightarrow> u32 \<Rightarrow> u8 list \<times> u32" where
  "parse_flags [] fl = ([], fl)"
| "parse_flags (c # s) fl =
     (case flag_of c of Some b \<Rightarrow> parse_flags s (fl OR b) | None \<Rightarrow> (c # s, fl))"

definition normal_flags :: "u32 \<Rightarrow> u32" where
  "normal_flags fl =
     (let fl = if fl AND MINUS \<noteq> 0 then fl AND NOT ZERO else fl
      in if fl AND PLUS \<noteq> 0 then fl AND NOT SPACE else fl)"

definition va_arg :: "u64 list \<Rightarrow> (u64 \<times> u64 list) option" where
  "va_arg args = (case args of [] \<Rightarrow> None | a # args \<Rightarrow> Some (a, args))"

definition va_int :: "u64 \<Rightarrow> int" where "va_int a = sint (ucast a :: u32)"

fun parse_number :: "u8 list \<Rightarrow> int \<Rightarrow> u8 list \<times> int" where
  "parse_number [] v = ([], v)"
| "parse_number (c # s) v = (if isdigit c then parse_number s (int32 (v * 10 + uint c - 48)) else (c # s, v))"

definition parse_width :: "u8 list \<Rightarrow> u64 list \<Rightarrow> (u8 list \<times> int \<times> u64 list) option" where
  "parse_width s args =
     (if peek s = ch CHR ''*'' then do { (a, args) \<leftarrow> va_arg args; Some (tl s, va_int a, args) }
      else let (s, v) = parse_number s 0 in Some (s, v, args))"

definition parse_precision :: "u8 list \<Rightarrow> u64 list \<Rightarrow> (u8 list \<times> int \<times> u64 list) option" where
  "parse_precision s args =
     (if peek s \<noteq> ch CHR ''.'' then Some (s, - 1, args)
      else do {
        (s, v, args) \<leftarrow> parse_width (tl s) args;
        Some (s, if v < 0 then - 1 else v, args) })"

definition parse_type :: "u8 list \<Rightarrow> u8 list \<times> conversion_type" where
  "parse_type s =
     (let c = peek s; r = tl s
      in if c = ch CHR ''h'' then
           if peek r = ch CHR ''h'' then (tl r, CHAR_TYPE) else (r, SHORT_TYPE)
         else if c = ch CHR ''j'' then (r, INTMAX_TYPE)
         else if c = ch CHR ''l'' then
           if peek r = ch CHR ''l'' then (tl r, LONGLONG_TYPE) else (r, LONG_TYPE)
         else if c = ch CHR ''t'' then (r, PTRDIFF_TYPE)
         else if c = ch CHR ''z'' then (r, SIZE_TYPE)
         else (s, INT_TYPE))"

text \<open>A field width and a precision have the same syntax.\<close>

definition parse_conversion ::
  "u8 list \<Rightarrow> u64 list \<Rightarrow> (u8 list \<times> printf_conversion \<times> u64 list) option" where
  "parse_conversion s args = do {
     let (s, fl) = parse_flags s 0;
     let fl = normal_flags fl;
     (s, w, args) \<leftarrow> parse_width s args;
     let (w, fl) = (if w < 0 then (int32 (- w), fl OR MINUS) else (w, fl));
     (s, prec, args) \<leftarrow> parse_precision s args;
     let fl = (if prec \<ge> 0 then fl AND NOT ZERO else fl);
     let (s, t) = parse_type s;
     Some (s, \<lparr>flags = fl, width = w, precision = prec, type_of = t\<rparr>, args) }"

section \<open>Integers and strings\<close>

fun output_dup :: "(u8 \<Rightarrow> 's \<Rightarrow> 's) \<Rightarrow> u8 \<Rightarrow> nat \<Rightarrow> 's \<Rightarrow> 's" where
  "output_dup output c 0 aux = aux"
| "output_dup output c (Suc cnt) aux = output_dup output c cnt (output c aux)"

text \<open>
  The local array \<open>buf\<close> of 64 bytes, as the bytes stored up to \<open>cp\<close>. A store behind its end is
  undefined.
\<close>

definition buf_put :: "u8 \<Rightarrow> u8 list \<Rightarrow> u8 list option" where
  "buf_put c buf = (if length buf < 64 then Some (buf @ [c]) else None)"

lemma buf_put_Some: "buf_put c buf = Some buf' \<longleftrightarrow> length buf < 64 \<and> buf' = buf @ [c]"
  by (auto simp: buf_put_def)

function digits_loop :: "integer_base \<Rightarrow> bool \<Rightarrow> nat \<Rightarrow> nat \<Rightarrow> u8 list \<Rightarrow> u8 list option" where
  "digits_loop b grouped v digit_cnt buf =
     (if v > 0 then do {
        buf \<leftarrow> (if grouped \<and> digit_cnt > 0 \<and> digit_cnt mod group b = 0
                then buf_put (ch CHR '','') buf else Some buf);
        buf \<leftarrow> buf_put (digits b ! (v mod base b)) buf;
        digits_loop b grouped (v div base b) (digit_cnt + 1) buf }
      else Some buf)"
  by pat_completeness auto
termination
  by (relation "measure (\<lambda>(b, grouped, v, digit_cnt, buf). 64 - length buf)")
    (auto simp: buf_put_Some split: if_splits)

declare digits_loop.simps [simp del]

function zeros_loop :: "int \<Rightarrow> u8 list \<Rightarrow> u8 list" where
  "zeros_loop prec buf =
     (if int (length buf) < prec \<and> length buf < 64 - 1 then zeros_loop prec (buf @ [ch CHR ''0'']) else buf)"
  by pat_completeness auto
termination by (relation "measure (\<lambda>(prec, buf). 64 - length buf)") auto

declare zeros_loop.simps [simp del]

definition sign_char :: "bool \<Rightarrow> bool \<Rightarrow> u32 \<Rightarrow> u8" where
  "sign_char is_signed negative fl =
     (if is_signed then
        if fl AND PLUS \<noteq> 0 then if negative then ch CHR ''-'' else ch CHR ''+''
        else if fl AND SPACE \<noteq> 0 then if negative then ch CHR ''-'' else ch CHR '' ''
        else if negative then ch CHR ''-'' else 0
      else 0)"

text \<open>The contents of the buffer before it is printed.\<close>

definition integer_buf :: "nat \<Rightarrow> integer_base \<Rightarrow> printf_conversion \<Rightarrow> u8 list option" where
  "integer_buf v b c = do {
     buf \<leftarrow> digits_loop b (flags c AND GROUP \<noteq> 0) v 0 [];
     let buf = zeros_loop (if precision c < 0 then 1 else precision c) buf;
     if flags c AND POUND \<noteq> 0 \<and> base b = 8 \<and> (buf = [] \<or> List.last buf \<noteq> ch CHR ''0'')
     then buf_put (ch CHR ''0'') buf else Some buf }"

definition format_integer ::
  "u64 \<Rightarrow> bool \<Rightarrow> bool \<Rightarrow> integer_base \<Rightarrow> printf_conversion \<Rightarrow> (u8 \<Rightarrow> 's \<Rightarrow> 's) \<Rightarrow> 's \<Rightarrow> 's option" where
  "format_integer v is_signed negative b c output aux = do {
     let sign = sign_char is_signed negative (flags c);
     let x = (if flags c AND POUND \<noteq> 0 \<and> v \<noteq> 0 then x_char b else 0);
     buf \<leftarrow> integer_buf (unat v) b c;
     let pad_cnt = int32 (width c - int (length buf) - (if x \<noteq> 0 then 2 else 0) - (if sign \<noteq> 0 then 1 else 0));
     let pad_cnt = nat pad_cnt;
     let aux = (if flags c AND (MINUS OR ZERO) = 0 then output_dup output (ch CHR '' '') pad_cnt aux else aux);
     let aux = (if sign \<noteq> 0 then output sign aux else aux);
     let aux = (if x \<noteq> 0 then output x (output (ch CHR ''0'') aux) else aux);
     let aux = (if flags c AND ZERO \<noteq> 0 then output_dup output (ch CHR ''0'') pad_cnt aux else aux);
     let aux = fold output (rev buf) aux;
     Some (if flags c AND MINUS \<noteq> 0 then output_dup output (ch CHR '' '') pad_cnt aux else aux) }"

text \<open>The characters of the string are given as a list; \<open>len\<close> is the argument \<open>length\<close>.\<close>

definition format_string ::
  "u8 list \<Rightarrow> int \<Rightarrow> printf_conversion \<Rightarrow> (u8 \<Rightarrow> 's \<Rightarrow> 's) \<Rightarrow> 's \<Rightarrow> 's" where
  "format_string string len c output aux =
     (let pad_cnt = nat (int32 (width c - len) mod 2 ^ 64);
          aux = (if width c > len \<and> flags c AND MINUS = 0 then output_dup output (ch CHR '' '') pad_cnt aux else aux);
          aux = fold output (take (nat len) string) aux
      in if width c > len \<and> flags c AND MINUS \<noteq> 0 then output_dup output (ch CHR '' '') pad_cnt aux else aux)"

section \<open>The conversions\<close>

text \<open>
  The value of a signed and of an unsigned argument. \<open>SIZE_MAX\<close> and \<open>PTRDIFF_MAX\<close> are the limits of
  32-bit types in include/lib/stdint.h.
\<close>

definition signed_arg :: "conversion_type \<Rightarrow> u64 \<Rightarrow> int" where
  "signed_arg t a =
     (case t of
        CHAR_TYPE \<Rightarrow> sint (ucast a :: u8)
      | SHORT_TYPE \<Rightarrow> sint (ucast a :: u16)
      | INT_TYPE \<Rightarrow> va_int a
      | SIZE_TYPE \<Rightarrow> if sint a > 4294967295 div 2 then sint a - 4294967295 - 1 else sint a
      | _ \<Rightarrow> sint a)"

definition unsigned_arg :: "conversion_type \<Rightarrow> u64 \<Rightarrow> u64" where
  "unsigned_arg t a =
     (case t of
        CHAR_TYPE \<Rightarrow> ucast (ucast a :: u8)
      | SHORT_TYPE \<Rightarrow> ucast (ucast a :: u16)
      | INT_TYPE \<Rightarrow> ucast (ucast a :: u32)
      | PTRDIFF_TYPE \<Rightarrow> a AND (push_bit 1 2147483647 OR 1)
      | _ \<Rightarrow> a)"

definition string_arg :: "mem \<Rightarrow> int \<Rightarrow> u64 \<Rightarrow> u8 list" where
  "string_arg m prec a =
     (let maxlen = nat (prec mod 2 ^ 64); s = unat a
      in if s = NULL then take maxlen (str ''(null)'')
         else map m [s..<s + strnlen m s maxlen])"

type_synonym 's printer = "u8 list \<Rightarrow> u64 list \<Rightarrow> 's \<Rightarrow> 's option"

text \<open>
  The switch of \<open>__vprintf\<close>. \<open>print\<close> is \<open>__printf\<close>, which the code calls to report a conversion
  that it does not support.
\<close>

definition convert ::
  "mem \<Rightarrow> 's printer \<Rightarrow> (u8 \<Rightarrow> 's \<Rightarrow> 's) \<Rightarrow> u8 \<Rightarrow> printf_conversion \<Rightarrow> u64 list \<Rightarrow> 's \<Rightarrow> ('s \<times> u64 list) option" where
  "convert m print output f c args aux =
     (if f = ch CHR ''d'' \<or> f = ch CHR ''i'' then do {
        (a, args) \<leftarrow> va_arg args;
        let v = signed_arg (type_of c) a;
        aux \<leftarrow> format_integer (word_of_int (if v < 0 then - v else v)) True (v < 0) base_d c output aux;
        Some (aux, args) }
      else if f = ch CHR ''o'' \<or> f = ch CHR ''u'' \<or> f = ch CHR ''x'' \<or> f = ch CHR ''X'' then do {
        (a, args) \<leftarrow> va_arg args;
        let b = (if f = ch CHR ''o'' then base_o else if f = ch CHR ''u'' then base_d
                 else if f = ch CHR ''x'' then base_x else base_X);
        aux \<leftarrow> format_integer (unsigned_arg (type_of c) a) False False b c output aux;
        Some (aux, args) }
      else if f = ch CHR ''c'' then do {
        (a, args) \<leftarrow> va_arg args;
        Some (format_string [ucast a] 1 c output aux, args) }
      else if f = ch CHR ''s'' then do {
        (a, args) \<leftarrow> va_arg args;
        let s = string_arg m (precision c) a;
        Some (format_string s (int32 (int (length s))) c output aux, args) }
      else if f = ch CHR ''p'' then do {
        (a, args) \<leftarrow> va_arg args;
        aux \<leftarrow> format_integer a False False base_x (c\<lparr>flags := POUND\<rparr>) output aux;
        Some (aux, args) }
      else if f = ch CHR ''f'' \<or> f = ch CHR ''e'' \<or> f = ch CHR ''E'' \<or> f = ch CHR ''g''
              \<or> f = ch CHR ''G'' \<or> f = ch CHR ''n'' then do {
        aux \<leftarrow> print (str ''<<no %%%c in kernel>>'') [scast f] aux;
        Some (aux, args) }
      else do {
        aux \<leftarrow> print (str ''<<no %%%c conversion>>'') [scast f] aux;
        Some (aux, args) })"

lemma parse_flags_length: "length (fst (parse_flags s fl)) \<le> length s"
  by (induction s fl rule: parse_flags.induct) (auto split: option.splits)

lemma parse_number_length: "length (fst (parse_number s v)) \<le> length s"
  by (induction s v rule: parse_number.induct) auto

lemma parse_width_length:
  assumes "parse_width s args = Some (s', v, args')" shows "length s' \<le> length s"
proof (cases "peek s = ch CHR ''*''")
  case True
  with assms have "s' = tl s" by (auto simp: parse_width_def Option.bind_eq_Some_conv)
  then show ?thesis by simp
next
  case False
  with assms have "s' = fst (parse_number s 0)" by (simp add: parse_width_def case_prod_beta)
  then show ?thesis by (simp add: parse_number_length)
qed

lemma parse_precision_length:
  assumes "parse_precision s args = Some (s', v, args')" shows "length s' \<le> length s"
proof (cases "peek s = ch CHR ''.''")
  case True
  with assms obtain w where "parse_width (tl s) args = Some (s', w, args')"
    by (auto simp: parse_precision_def Option.bind_eq_Some_conv)
  from parse_width_length [OF this] show ?thesis by simp
next
  case False
  with assms show ?thesis by (simp add: parse_precision_def)
qed

lemma parse_type_length: "length (fst (parse_type s)) \<le> length s"
  by (auto simp: parse_type_def Let_def)

lemma parse_conversion_length:
  assumes "parse_conversion s args = Some (s', c, args')"
  shows "length s' \<le> length s"
proof -
  obtain s1 fl where 1: "parse_flags s 0 = (s1, fl)" by fastforce
  from assms 1 obtain s2 w a2 where 2: "parse_width s1 args = Some (s2, w, a2)"
    by (cases "parse_width s1 args") (auto simp: parse_conversion_def Let_def)
  from assms 1 2 obtain s3 p a3 where 3: "parse_precision s2 a2 = Some (s3, p, a3)"
    by (cases "parse_precision s2 a2") (auto simp: parse_conversion_def Let_def)
  from assms 1 2 3 have "s' = fst (parse_type s3)"
    by (simp add: parse_conversion_def Let_def case_prod_beta)
  then show ?thesis
    using 1 parse_flags_length [of s 0] parse_width_length [OF 2] parse_precision_length [OF 3]
      parse_type_length [of s3] by simp
qed

text \<open>The loop of \<open>__vprintf\<close>.\<close>

function vprintf_loop ::
  "mem \<Rightarrow> 's printer \<Rightarrow> (u8 \<Rightarrow> 's \<Rightarrow> 's) \<Rightarrow> u8 list \<Rightarrow> u64 list \<Rightarrow> 's \<Rightarrow> 's option" where
  "vprintf_loop m print output format args aux =
     (case format of [] \<Rightarrow> Some aux
      | c # s \<Rightarrow>
        if c \<noteq> ch CHR ''%'' then vprintf_loop m print output s args (output c aux)
        else if peek s = ch CHR ''%'' then vprintf_loop m print output (tl s) args (output (ch CHR ''%'') aux)
        else do {
          (s, c, args) \<leftarrow> parse_conversion s args;
          (aux, args) \<leftarrow> convert m print output (peek s) c args aux;
          (case s of [] \<Rightarrow> None | f # s \<Rightarrow> vprintf_loop m print output s args aux) })"
  by pat_completeness auto
termination
  by (relation "measure (\<lambda>(m, print, output, format, args, aux). length format)")
    (auto dest!: parse_conversion_length)

declare vprintf_loop.simps [simp del]

text \<open>
  \<open>__vprintf\<close> calls itself, through \<open>__printf\<close>, on two formats that only have a \<open>%c\<close> conversion,
  so the calls nest once.
\<close>

definition vprintf_fmt :: "mem \<Rightarrow> (u8 \<Rightarrow> 's \<Rightarrow> 's) \<Rightarrow> 's printer" where
  "vprintf_fmt m output format args aux =
     vprintf_loop m (\<lambda>format args aux. vprintf_loop m (\<lambda>_ _ _. None) output format args aux)
       output format args aux"

section \<open>Printing into a buffer\<close>

record vsnprintf_aux =
  out_p :: addr
  out_length :: int
  max_length :: int

definition vsnprintf_helper :: "u8 \<Rightarrow> mem \<times> vsnprintf_aux \<Rightarrow> mem \<times> vsnprintf_aux" where
  "vsnprintf_helper c s =
     (let (m, aux) = s; aux' = aux\<lparr>out_length := int32 (out_length aux + 1)\<rparr>
      in if out_length aux < max_length aux
         then (m(out_p aux := c), aux'\<lparr>out_p := out_p aux + 1\<rparr>) else (m, aux'))"

text \<open>The buffer overlaps neither the format nor the strings.\<close>

definition vsnprintf :: "mem \<Rightarrow> addr \<Rightarrow> nat \<Rightarrow> u8 list \<Rightarrow> u64 list \<Rightarrow> (mem \<times> int) option" where
  "vsnprintf m buffer buf_size format args = do {
     let aux = \<lparr>out_p = buffer, out_length = 0,
                max_length = (if buf_size > 0 then int32 (int buf_size - 1) else 0)\<rparr>;
     (m', aux) \<leftarrow> vprintf_fmt m vsnprintf_helper format args (m, aux);
     Some (if buf_size > 0 then m'(out_p aux := 0) else m', out_length aux) }"

definition snprintf :: "mem \<Rightarrow> addr \<Rightarrow> nat \<Rightarrow> u8 list \<Rightarrow> u64 list \<Rightarrow> (mem \<times> int) option" where
  "snprintf m buffer buf_size format args = vsnprintf m buffer buf_size format args"

section \<open>The console\<close>

text \<open>
  The console as the running thread sees it: whether it runs in an interrupt, whether it holds the
  console lock (\<open>lock_acquire\<close> returns holding it), and the bytes that have gone to the serial port
  and the display.
\<close>

record console =
  in_intr :: bool
  use_console_lock :: bool
  lock_held :: bool
  console_lock_depth :: int
  console_write_cnt :: int
  console_out :: "u8 list"

definition console_init :: "console \<Rightarrow> console" where
  "console_init k = k\<lparr>lock_held := False, use_console_lock := True\<rparr>"

definition console_panic :: "console \<Rightarrow> console" where
  "console_panic k = k\<lparr>use_console_lock := False\<rparr>"

definition acquire_console :: "console \<Rightarrow> console" where
  "acquire_console k =
     (if \<not> in_intr k \<and> use_console_lock k then
        if lock_held k then k\<lparr>console_lock_depth := console_lock_depth k + 1\<rparr>
        else k\<lparr>lock_held := True\<rparr>
      else k)"

definition release_console :: "console \<Rightarrow> console option" where
  "release_console k =
     (if \<not> in_intr k \<and> use_console_lock k then
        if console_lock_depth k > 0 then Some (k\<lparr>console_lock_depth := console_lock_depth k - 1\<rparr>)
        else do { ASSERT (lock_held k); Some (k\<lparr>lock_held := False\<rparr>) }
      else Some k)"

definition console_locked_by_current_thread :: "console \<Rightarrow> bool" where
  "console_locked_by_current_thread k \<longleftrightarrow> in_intr k \<or> \<not> use_console_lock k \<or> lock_held k"

definition putchar_have_lock :: "u8 \<Rightarrow> console \<Rightarrow> console option" where
  "putchar_have_lock c k = do {
     ASSERT (console_locked_by_current_thread k);
     Some (k\<lparr>console_write_cnt := console_write_cnt k + 1, console_out := console_out k @ [c]\<rparr>) }"

text \<open>The auxiliary data of \<open>vprintf_helper\<close> has the console with it; \<open>None\<close> after a panic.\<close>

definition vprintf_helper :: "u8 \<Rightarrow> (console \<times> int) option \<Rightarrow> (console \<times> int) option" where
  "vprintf_helper c s = do {
     (k, char_cnt) \<leftarrow> s;
     k \<leftarrow> putchar_have_lock c k;
     Some (k, int32 (char_cnt + 1)) }"

definition vprintf :: "mem \<Rightarrow> u8 list \<Rightarrow> u64 list \<Rightarrow> console \<Rightarrow> (console \<times> int) option" where
  "vprintf m format args k = do {
     s \<leftarrow> vprintf_fmt m vprintf_helper format args (Some (acquire_console k, 0));
     (k, char_cnt) \<leftarrow> s;
     k \<leftarrow> release_console k;
     Some (k, char_cnt) }"

definition printf :: "mem \<Rightarrow> u8 list \<Rightarrow> u64 list \<Rightarrow> console \<Rightarrow> (console \<times> int) option" where
  "printf m format args k = vprintf m format args k"

fun putchars :: "u8 list \<Rightarrow> console \<Rightarrow> console option" where
  "putchars [] k = Some k"
| "putchars (c # s) k = do { k \<leftarrow> putchar_have_lock c k; putchars s k }"

definition putbuf :: "u8 list \<Rightarrow> console \<Rightarrow> console option" where
  "putbuf buffer k = do { k \<leftarrow> putchars buffer (acquire_console k); release_console k }"

definition puts :: "u8 list \<Rightarrow> console \<Rightarrow> console option" where
  "puts s k = do {
     k \<leftarrow> putchars s (acquire_console k);
     k \<leftarrow> putchar_have_lock 10 k;
     release_console k }"

definition putchar :: "u8 \<Rightarrow> console \<Rightarrow> console option" where
  "putchar c k = do { k \<leftarrow> putchar_have_lock c (acquire_console k); release_console k }"

definition console_print_stats :: "mem \<Rightarrow> console \<Rightarrow> console option" where
  "console_print_stats m k =
     map_option fst (printf m (str ''Console: %lld characters output'' @ [10]) [word_of_int (console_write_cnt k)] k)"

section \<open>Dumps\<close>

text \<open>The loops of \<open>hex_dump\<close> over the positions of a line; \<open>bytes\<close> are those still to be printed.\<close>

definition put_format :: "mem \<Rightarrow> string \<Rightarrow> u64 list \<Rightarrow> console \<Rightarrow> console option" where
  "put_format m format args k = map_option fst (printf m (str format) args k)"

fun put_repeat :: "mem \<Rightarrow> string \<Rightarrow> nat \<Rightarrow> console \<Rightarrow> console option" where
  "put_repeat m format 0 k = Some k"
| "put_repeat m format (Suc n) k = do { k \<leftarrow> put_format m format [] k; put_repeat m format n k }"

fun put_hex :: "mem \<Rightarrow> nat \<Rightarrow> u8 list \<Rightarrow> console \<Rightarrow> console option" where
  "put_hex m i [] k = Some k"
| "put_hex m i (b # bytes) k = do {
     k \<leftarrow> put_format m ''%02hhx%c'' [ucast b, ucast (if i = 16 div 2 - 1 then ch CHR ''-'' else ch CHR '' '')] k;
     put_hex m (i + 1) bytes k }"

fun put_ascii :: "mem \<Rightarrow> u8 list \<Rightarrow> console \<Rightarrow> console option" where
  "put_ascii m [] k = Some k"
| "put_ascii m (b # bytes) k = do {
     k \<leftarrow> put_format m ''%c'' [ucast (if isprint b then b else ch CHR ''.'')] k;
     put_ascii m bytes k }"

definition hex_line :: "mem \<Rightarrow> nat \<Rightarrow> nat \<Rightarrow> u8 list \<Rightarrow> bool \<Rightarrow> console \<Rightarrow> console option" where
  "hex_line m ofs start bytes ascii k = do {
     let rest = 16 - (start + length bytes);
     k \<leftarrow> put_format m ''%016llx  '' [of_nat (ROUND_DOWN ofs 16)] k;
     k \<leftarrow> put_repeat m ''   '' start k;
     k \<leftarrow> put_hex m start bytes k;
     k \<leftarrow> (if ascii then do {
             k \<leftarrow> put_repeat m ''   '' rest k;
             k \<leftarrow> put_format m ''|'' [] k;
             k \<leftarrow> put_repeat m '' '' start k;
             k \<leftarrow> put_ascii m bytes k;
             k \<leftarrow> put_repeat m '' '' rest k;
             put_format m ''|'' [] k }
           else Some k);
     map_option fst (printf m [10] [] k) }"

lemma hex_dump_step:
  assumes "0 < sz" "start = ofs mod 16" "e = (if 16 - start > sz then start + sz else 16)" "n = e - start"
  shows "sz - n < (sz :: nat)"
proof -
  have "start < 16" using assms by simp
  then have "0 < n" using assms by (auto split: if_splits)
  then show ?thesis using assms(1) by simp
qed

function hex_dump :: "mem \<Rightarrow> nat \<Rightarrow> addr \<Rightarrow> nat \<Rightarrow> bool \<Rightarrow> console \<Rightarrow> console option" where
  "hex_dump m ofs buf sz ascii k =
     (if sz > 0 then
        let start = ofs mod 16;
            end' = (if 16 - start > sz then start + sz else 16);
            n = end' - start
        in do {
          k \<leftarrow> hex_line m ofs start (map m [buf..<buf + n]) ascii k;
          hex_dump m ((ofs + n) mod 2 ^ 64) (buf + n) (sz - n) ascii k }
      else Some k)"
  by pat_completeness auto
termination
  by (relation "measure (\<lambda>(m, ofs, buf, sz, ascii, k). sz)") (simp_all only: in_measure prod.case hex_dump_step wf_measure)

declare hex_dump.simps [simp del]

end
