(* ===== verification/StdioProps.thy ===== *)
theory StdioProps
  imports Stdio
begin

text \<open>
  Properties of formatted output. The output of a format is a text that does not depend on where it
  goes: printing with a function \<open>output\<close> is folding \<open>output\<close> over the text. From this follow the
  bounds of \<open>vsnprintf\<close> and what the console shows; the buffer of 64 bytes is never exceeded; and a
  number printed by \<open>%d\<close> is read back by \<open>atoi\<close>.
\<close>

section \<open>The text of a format\<close>

definition snoc :: "'a \<Rightarrow> 'a list \<Rightarrow> 'a list" where "snoc c t = t @ [c]"

definition vprintf_text :: "mem \<Rightarrow> u8 list \<Rightarrow> u64 list \<Rightarrow> u8 list option" where
  "vprintf_text m format args = vprintf_fmt m snoc format args []"

lemma output_text: "output c (fold output t s) = fold output (snoc c t) s"
  by (simp add: snoc_def)

lemma output_dup_text: "output_dup output c n (fold output t s) = fold output (output_dup snoc c n t) s"
  by (induction n arbitrary: t) (simp_all add: output_text)

lemma fold_output_text: "fold output u (fold output t s) = fold output (fold snoc u t) s"
  by (induction u arbitrary: t) (simp_all add: output_text)

lemma fold_snoc: "fold snoc u t = t @ u"
  by (induction u arbitrary: t) (simp_all add: snoc_def)

lemma output_dup_snoc: "output_dup snoc c n t = t @ replicate n c"
  by (induction n arbitrary: t) (simp_all add: snoc_def)

lemma if_fold: "(if b then fold f t s else fold f u s) = fold f (if b then t else u) s"
  by simp

lemmas text_simps = output_text output_dup_text fold_output_text if_fold

lemma format_integer_text:
  "format_integer v sg neg b c output (fold output t s) =
    map_option (\<lambda>t. fold output t s) (format_integer v sg neg b c snoc t)"
  by (cases "integer_buf (unat v) b c") (simp_all only: format_integer_def Let_def text_simps Option.bind.simps option.map)

lemma format_string_text:
  "format_string cs len c output (fold output t s) = fold output (format_string cs len c snoc t) s"
  by (simp only: format_string_def Let_def text_simps)

lemma convert_text:
  assumes "\<And>f a t. p1 f a (fold output t s) = map_option (\<lambda>t. fold output t s) (p2 f a t)"
  shows "convert m p1 output f c args (fold output t s) =
    map_option (\<lambda>(t, args). (fold output t s, args)) (convert m p2 snoc f c args t)"
  by (cases args)
    (simp_all add: convert_def va_arg_def Let_def assms format_integer_text format_string_text bind_map_option
      map_option_bind comp_def if_distrib [where f = "map_option _"]
      del: ch_simps list.map split del: if_split cong: if_cong)

lemma vprintf_loop_text:
  assumes "\<And>f a t. p1 f a (fold output t s) = map_option (\<lambda>t. fold output t s) (p2 f a t)"
  shows "vprintf_loop m p1 output format args (fold output t s) =
    map_option (\<lambda>t. fold output t s) (vprintf_loop m p2 snoc format args t)"
proof (induction "length format" arbitrary: format args t rule: less_induct)
  case less
  have conv: "convert m p1 output f c args (fold output t s) =
      map_option (\<lambda>(t, args). (fold output t s, args)) (convert m p2 snoc f c args t)" for f c args t
    using assms by (rule convert_text)
  show ?case
  proof (cases format)
    case (Cons c r)
    have step: "(case r' of [] \<Rightarrow> None | f # r' \<Rightarrow> vprintf_loop m p1 output r' args' (fold output t' s)) =
        map_option (\<lambda>t. fold output t s) (case r' of [] \<Rightarrow> None | f # r' \<Rightarrow> vprintf_loop m p2 snoc r' args' t')"
      if "length r' \<le> length r" for r' args' t'
      using that less Cons by (cases r') auto
    have IH: "vprintf_loop m p1 output r' args' (fold output t' s) =
        map_option (\<lambda>t. fold output t s) (vprintf_loop m p2 snoc r' args' t')"
      if "length r' \<le> length r" for r' args' t'
      using less that Cons by simp
    show ?thesis
    proof (cases "c = ch CHR ''%'' \<and> peek r \<noteq> ch CHR ''%''")
      case False
      then show ?thesis unfolding Cons
        by (subst (1 2) vprintf_loop.simps) (auto simp: text_simps IH)
    next
      case True
      show ?thesis
      proof (cases "parse_conversion r args")
        case None
        then show ?thesis using True unfolding Cons
          by (subst (1 2) vprintf_loop.simps) simp
      next
        case (Some x)
        obtain r' cv args' where x: "x = (r', cv, args')" by (cases x)
        have "length r' \<le> length r" using Some x by (auto dest: parse_conversion_length)
        then show ?thesis using True Some x unfolding Cons
          by (subst (1 2) vprintf_loop.simps; cases r')
            (simp_all add: conv IH bind_map_option comp_def map_option_bind case_prod_unfold)
      qed
    qed
  qed (simp add: vprintf_loop.simps)
qed

lemma vprintf_fmt_text:
  "vprintf_fmt m output format args s = map_option (\<lambda>t. fold output t s) (vprintf_text m format args)"
proof -
  have "vprintf_fmt m output format args (fold output [] s) =
      map_option (\<lambda>t. fold output t s) (vprintf_fmt m snoc format args [])"
    unfolding vprintf_fmt_def by (intro vprintf_loop_text) simp
  then show ?thesis by (simp add: vprintf_text_def)
qed

section \<open>Integers\<close>

text \<open>The number that a sequence of digits denotes; separators do not count.\<close>

definition digit_index :: "u8 list \<Rightarrow> u8 \<Rightarrow> nat" where
  "digit_index ds c = length (takeWhile (\<lambda>d. d \<noteq> c) ds)"

definition digits_value :: "integer_base \<Rightarrow> u8 list \<Rightarrow> nat" where
  "digits_value b s = foldl (\<lambda>v c. if c = ch CHR '','' then v else v * base b + digit_index (digits b) c) 0 s"

lemma digits_value_snoc [simp]:
  "digits_value b [] = 0"
  "digits_value b (s @ [c]) =
    (if c = ch CHR '','' then digits_value b s else digits_value b s * base b + digit_index (digits b) c)"
  by (simp_all add: digits_value_def)

lemma digit_index_nth: "distinct ds \<Longrightarrow> i < length ds \<Longrightarrow> digit_index ds (ds ! i) = i"
proof (induction ds arbitrary: i)
  case (Cons d ds)
  then show ?case by (cases i) (auto simp: digit_index_def)
qed simp

text \<open>What the four bases have in common.\<close>

definition base_ok :: "integer_base \<Rightarrow> bool" where
  "base_ok b \<longleftrightarrow> 8 \<le> base b \<and> length (digits b) = base b \<and> distinct (digits b) \<and>
     ch CHR '','' \<notin> set (digits b) \<and> digits b ! 0 = ch CHR ''0''"

lemma bases_ok: "b \<in> {base_d, base_o, base_x, base_X} \<Longrightarrow> base_ok b"
  by (auto simp: base_ok_def base_d_def base_o_def base_x_def base_X_def ch_def)

lemma digits_loop_spec:
  assumes "base_ok b" "v < 8 ^ k" "length buf + 2 * k \<le> 64"
  shows "\<exists>new. digits_loop b grouped v cnt buf = Some (buf @ new) \<and> length new \<le> 2 * k \<and>
    digits_value b (rev new) = v \<and> set new \<subseteq> insert (ch CHR '','') (set (digits b)) \<and>
    (\<not> grouped \<longrightarrow> set new \<subseteq> set (digits b)) \<and> (v > 0 \<longrightarrow> new \<noteq> []) \<and>
    (\<not> grouped \<longrightarrow> (\<forall>j. v < base b ^ j \<longrightarrow> length new \<le> j))"
  using assms(2,3)
proof (induction k arbitrary: v cnt buf)
  case 0
  then show ?case by (subst digits_loop.simps) auto
next
  case (Suc k)
  show ?case
  proof (cases "v > 0")
    case True
    define sep where "sep = (if grouped \<and> cnt > 0 \<and> cnt mod group b = 0 then [ch CHR '','' ] else [])"
    define d where "d = digits b ! (v mod base b)"
    have b: "8 \<le> base b" "v mod base b < length (digits b)"
      using assms(1) by (auto simp: base_ok_def)
    have "d \<in> set (digits b)" unfolding d_def by (rule nth_mem [OF b(2)])
    moreover have "digit_index (digits b) d = v mod base b"
      unfolding d_def using assms(1) b(2) by (intro digit_index_nth) (simp_all add: base_ok_def)
    ultimately have d: "d \<in> set (digits b)" "d \<noteq> ch CHR '',''" "digit_index (digits b) d = v mod base b"
      using assms(1) by (auto simp: base_ok_def simp del: ch_simps)
    have "v div base b \<le> v div 8" using b(1) by (simp add: div_le_mono2)
    also have "v div 8 < 8 ^ k" using Suc.prems(1) by (simp add: less_mult_imp_div_less mult.commute)
    finally have small: "v div base b < 8 ^ k" .
    have len: "length (buf @ sep @ [d]) + 2 * k \<le> 64" using Suc.prems(2) by (simp add: sep_def)
    obtain new where new: "digits_loop b grouped (v div base b) (cnt + 1) (buf @ sep @ [d]) = Some ((buf @ sep @ [d]) @ new)"
      "length new \<le> 2 * k" "digits_value b (rev new) = v div base b"
      "set new \<subseteq> insert (ch CHR '','') (set (digits b))" "\<not> grouped \<longrightarrow> set new \<subseteq> set (digits b)"
      "\<not> grouped \<longrightarrow> (\<forall>j. v div base b < base b ^ j \<longrightarrow> length new \<le> j)"
      using Suc.IH [OF small len, of "cnt + 1"] by blast
    have short: "\<not> grouped \<Longrightarrow> v < base b ^ j \<Longrightarrow> length new < j" for j
      using new(6) True b(1) by (cases j) (auto simp: less_mult_imp_div_less mult.commute [of "base b"] less_Suc_eq_le)
    have "digits_loop b grouped v cnt buf = digits_loop b grouped (v div base b) (cnt + 1) (buf @ sep @ [d])"
      using True Suc.prems(2) by (subst digits_loop.simps) (simp add: sep_def d_def buf_put_def)
    moreover have "digits_value b (rev (sep @ [d] @ new)) = v"
      using d new(3) digits_value_snoc(2) [of b "rev new @ [d]" "ch CHR '',''"] by (simp add: sep_def del: ch_simps)
    moreover have "\<not> grouped \<Longrightarrow> sep = []" by (simp add: sep_def)
    ultimately show ?thesis
      using new d short by (intro exI [of _ "sep @ [d] @ new"]) (auto simp: sep_def Suc_le_eq)
  next
    case False
    then show ?thesis by (subst digits_loop.simps) auto
  qed
qed

lemma zeros_loop_spec:
  "zeros_loop prec buf = buf @ replicate (min (nat prec) 63 - length buf) (ch CHR ''0'')"
proof (induction prec buf rule: zeros_loop.induct)
  case (1 prec buf)
  show ?case
  proof (cases "int (length buf) < prec \<and> length buf < 63")
    case True
    then have "min (nat prec) 63 - length buf = Suc (min (nat prec) 63 - length (buf @ [ch CHR ''0'']))"
      by (auto simp: min_def)
    then show ?thesis using True 1 by (subst zeros_loop.simps) simp
  next
    case False
    then have "min (nat prec) 63 - length buf = 0" by auto
    then show ?thesis using False zeros_loop.simps [of prec buf] by auto
  qed
qed

lemma foldl_zeros:
  "base_ok b \<Longrightarrow>
    foldl (\<lambda>v c. if c = ch CHR '','' then v else v * base b + digit_index (digits b) c) 0 (replicate n (ch CHR ''0'')) = 0"
proof (induction n)
  case (Suc n)
  then have "0 < length (digits b)" "digits b ! 0 = ch CHR ''0''" by (auto simp: base_ok_def)
  then have "digit_index (digits b) (ch CHR ''0'') = 0"
    by (cases "digits b") (auto simp: digit_index_def)
  then show ?case using Suc by simp
qed simp

lemma digits_value_zeros: "base_ok b \<Longrightarrow> digits_value b (replicate n (ch CHR ''0'') @ s) = digits_value b s"
  by (simp add: digits_value_def foldl_zeros del: ch_simps)

lemma zero_digit: "base_ok b \<Longrightarrow> ch CHR ''0'' \<in> set (digits b)"
  unfolding base_ok_def by (metis nth_mem zero_less_numeral order_less_le_trans)

lemma integer_buf_spec:
  assumes "base_ok b" "v < 2 ^ 64"
  shows "\<exists>buf. integer_buf v b c = Some buf \<and> length buf \<le> 64 \<and> digits_value b (rev buf) = v \<and>
    min (nat (precision c)) 63 \<le> length buf \<and>
    (flags c AND GROUP = 0 \<longrightarrow> set buf \<subseteq> set (digits b)) \<and> (precision c \<noteq> 0 \<or> v > 0 \<longrightarrow> buf \<noteq> []) \<and>
    (flags c AND GROUP = 0 \<and> flags c AND POUND = 0 \<and> precision c \<le> 1 \<longrightarrow>
      (\<forall>j>0. v < base b ^ j \<longrightarrow> length buf \<le> j))"
proof -
  have "(2 :: nat) ^ 64 < 8 ^ 22" by simp
  with assms(2) have v: "v < 8 ^ 22" by (rule less_trans)
  obtain new where new: "digits_loop b (flags c AND GROUP \<noteq> 0) v 0 [] = Some new" "length new \<le> 44"
    "digits_value b (rev new) = v" "flags c AND GROUP = 0 \<longrightarrow> set new \<subseteq> set (digits b)"
    "v > 0 \<longrightarrow> new \<noteq> []" "flags c AND GROUP = 0 \<longrightarrow> (\<forall>j. v < base b ^ j \<longrightarrow> length new \<le> j)"
    using digits_loop_spec [OF assms(1) v, of "[]" "flags c AND GROUP \<noteq> 0" 0] by auto
  define p where "p = (if precision c < 0 then 1 else precision c)"
  define n where "n = min (nat p) 63 - length new"
  define buf where "buf = new @ replicate n (ch CHR ''0'')"
  have buf: "zeros_loop p new = buf" by (simp add: buf_def n_def zeros_loop_spec)
  have len: "length buf \<le> 63" "min (nat (precision c)) 63 \<le> length buf"
    using new(2) by (auto simp: buf_def n_def p_def)
  have val: "digits_value b (rev buf) = v" by (simp add: buf_def digits_value_zeros assms(1) new(3) del: ch_simps)
  have set_buf: "flags c AND GROUP = 0 \<longrightarrow> set buf \<subseteq> set (digits b)"
    using new(4) zero_digit [OF assms(1)] by (auto simp: buf_def simp del: ch_simps)
  have ne: "precision c \<noteq> 0 \<or> v > 0 \<longrightarrow> buf \<noteq> []"
    using new(5) by (auto simp: buf_def n_def p_def min_def split: if_splits)
  have short: "flags c AND GROUP = 0 \<and> precision c \<le> 1 \<longrightarrow> (\<forall>j>0. v < base b ^ j \<longrightarrow> length buf \<le> j)"
    using new(6) by (fastforce simp: buf_def n_def p_def)
  show ?thesis
  proof (cases "flags c AND POUND \<noteq> 0 \<and> base b = 8 \<and> (buf = [] \<or> List.last buf \<noteq> ch CHR ''0'')")
    case True
    have "integer_buf v b c = Some (buf @ [ch CHR ''0''])"
      using True len(1) by (simp add: integer_buf_def new(1) Let_def buf p_def [symmetric] buf_put_def del: ch_simps)
    moreover have "digits_value b (rev (buf @ [ch CHR ''0''])) = v"
      using digits_value_zeros [OF assms(1), of 1 "rev buf"] val by (simp del: ch_simps)
    ultimately show ?thesis using len set_buf zero_digit [OF assms(1)] True
      by (intro exI [of _ "buf @ [ch CHR ''0'']"]) (auto simp del: ch_simps)
  next
    case False
    have "integer_buf v b c = Some buf"
      unfolding integer_buf_def new(1) Let_def Option.bind.simps p_def [symmetric] buf if_not_P [OF False] ..
    then show ?thesis using len val set_buf ne short by auto
  qed
qed

lemma int32_add_mult: "int32 (x + 2 ^ 32 * k) = int32 x"
proof -
  have "x + 2 ^ 32 * k + 2 ^ 31 = (x + 2 ^ 31) + 2 ^ 32 * k" by simp
  then show ?thesis unfolding int32_def by (simp only: mod_mult_self2)
qed

lemma flags_zero_or_minus: "(fl :: u32) AND 17 = 0 \<longleftrightarrow> fl AND MINUS = 0 \<and> fl AND ZERO = 0"
proof -
  have "fl AND 17 = fl AND (1 OR 16)" by simp
  also have "\<dots> = fl AND 1 OR fl AND 16" by (rule bit.conj_disj_distrib)
  finally show ?thesis by (simp only: or_eq_0_iff)
qed

lemma format_integer_spec:
  fixes v :: u64
  defines "sign \<equiv> \<lambda>is_signed negative c. sign_char is_signed negative (flags c)"
    and "x \<equiv> \<lambda>b c. if flags c AND POUND \<noteq> 0 \<and> v \<noteq> 0 then x_char b else 0"
  assumes b: "base_ok b" and w: "0 \<le> width c" "width c < 2 ^ 31"
    and fl: "flags c AND MINUS = 0 \<or> flags c AND ZERO = 0"
  shows "\<exists>l z ds r pre. format_integer v is_signed negative b c out aux =
      Some (fold out (replicate l (ch CHR '' '') @ pre @ replicate z (ch CHR ''0'') @ ds @ replicate r (ch CHR '' '')) aux) \<and>
    pre = (if sign is_signed negative c \<noteq> 0 then [sign is_signed negative c] else []) @
          (if x b c \<noteq> 0 then [ch CHR ''0'', x b c] else []) \<and>
    digits_value b ds = unat v \<and> length ds \<le> 64 \<and> min (nat (precision c)) 63 \<le> length ds \<and>
    l + z + r = nat (width c - int (length pre + length ds)) \<and>
    (l > 0 \<longrightarrow> flags c AND MINUS = 0) \<and> (z > 0 \<longrightarrow> flags c AND ZERO \<noteq> 0) \<and>
    (flags c AND GROUP = 0 \<longrightarrow> set ds \<subseteq> set (digits b)) \<and> (precision c \<noteq> 0 \<or> v \<noteq> 0 \<longrightarrow> ds \<noteq> []) \<and>
    (flags c AND GROUP = 0 \<and> flags c AND POUND = 0 \<and> precision c \<le> 1 \<longrightarrow>
      (\<forall>j>0. unat v < base b ^ j \<longrightarrow> length ds \<le> j))"
proof -
  obtain buf where buf: "integer_buf (unat v) b c = Some buf" "length buf \<le> 64"
    "digits_value b (rev buf) = unat v" "min (nat (precision c)) 63 \<le> length buf"
    "flags c AND GROUP = 0 \<longrightarrow> set buf \<subseteq> set (digits b)" "precision c \<noteq> 0 \<or> unat v > 0 \<longrightarrow> buf \<noteq> []"
    "flags c AND GROUP = 0 \<and> flags c AND POUND = 0 \<and> precision c \<le> 1 \<longrightarrow>
      (\<forall>j>0. unat v < base b ^ j \<longrightarrow> length buf \<le> j)"
    using integer_buf_spec [OF b unat_u64] by blast
  define S where "S = sign is_signed negative c"
  define X where "X = x b c"
  have S_alt: "sign_char is_signed negative (flags c) = S" by (simp add: S_def sign_def)
  have X_alt: "(if flags c AND POUND \<noteq> 0 \<and> v \<noteq> 0 then x_char b else 0) = X" by (simp add: X_def x_def)
  define pre where "pre = (if S \<noteq> 0 then [S] else []) @ (if X \<noteq> 0 then [ch CHR ''0'', X] else [])"
  define pad where "pad = nat (width c - int (length pre + length buf))"
  define l where "l = (if flags c AND (MINUS OR ZERO) = 0 then pad else 0)"
  define z where "z = (if flags c AND ZERO \<noteq> 0 then pad else 0)"
  define r where "r = (if flags c AND MINUS \<noteq> 0 then pad else 0)"
  have "width c - int (length buf) - (if X \<noteq> 0 then 2 else 0) - (if S \<noteq> 0 then 1 else 0) =
      width c - int (length pre + length buf)"
    by (simp add: pre_def)
  moreover have "int32 (width c - int (length pre + length buf)) = width c - int (length pre + length buf)"
    using w buf(2) by (intro int32_id) (auto simp: pre_def)
  ultimately have pad: "nat (int32 (width c - int (length buf) - (if X \<noteq> 0 then 2 else 0) - (if S \<noteq> 0 then 1 else 0))) = pad"
    by (simp only: pad_def)
  have "format_integer v is_signed negative b c snoc [] =
      Some (replicate l (ch CHR '' '') @ pre @ replicate z (ch CHR ''0'') @ rev buf @ replicate r (ch CHR '' ''))"
    unfolding format_integer_def S_alt X_alt Let_def buf(1) Option.bind.simps pad l_def z_def r_def pre_def
    by (simp add: output_dup_snoc fold_snoc snoc_def del: ch_simps)
  moreover have "l + z + r = pad"
    using fl unfolding l_def z_def r_def by (auto simp: flags_zero_or_minus)
  moreover have "format_integer v is_signed negative b c out (fold out [] aux) =
      map_option (\<lambda>t. fold out t aux) (format_integer v is_signed negative b c snoc [])"
    by (rule format_integer_text)
  ultimately have "format_integer v is_signed negative b c out aux =
      Some (fold out (replicate l (ch CHR '' '') @ pre @ replicate z (ch CHR ''0'') @ rev buf @ replicate r (ch CHR '' '')) aux)"
    "l + z + r = nat (width c - int (length pre + length (rev buf)))"
    by (simp_all add: pad_def)
  moreover have "l > 0 \<longrightarrow> flags c AND MINUS = 0" "z > 0 \<longrightarrow> flags c AND ZERO \<noteq> 0"
    unfolding l_def z_def by (simp_all add: flags_zero_or_minus)
  ultimately show ?thesis unfolding S_def [symmetric] X_def [symmetric]
    by (intro exI [of _ l] exI [of _ z] exI [of _ "rev buf"] exI [of _ r] exI [of _ pre] conjI)
      (use buf in \<open>simp_all only: pre_def length_rev set_rev rev_is_Nil_conv unat_gt_0\<close>)
qed

section \<open>Reading numbers back\<close>

lemma int32_step: "int32 (int32 x * 10 - d) = int32 (x * 10 - d)"
proof -
  define k where "k = (x + 2 ^ 31) div 2 ^ 32"
  have x: "int32 x = x + 2 ^ 32 * - k"
    unfolding int32_def k_def using mult_div_mod_eq [of "2 ^ 32" "x + 2 ^ 31"] by linarith
  have "int32 (int32 x * 10 - d) = int32 ((x * 10 - d) + 2 ^ 32 * (- k * 10))"
    unfolding x by (simp add: algebra_simps)
  then show ?thesis by (simp only: int32_add_mult)
qed

lemma decimal_digit:
  "c \<in> set (digits base_d) \<Longrightarrow> isdigit c \<and> \<not> isspace c \<and> c \<noteq> ch CHR '','' \<and> c \<noteq> 43 \<and> c \<noteq> 45 \<and> c \<noteq> 0 \<and>
    uint c - 48 = int (digit_index (digits base_d) c)"
  by (auto simp: base_d_def ch_def isdigit_def isspace_def digit_index_def)

lemma parse_digits_value:
  "set ds \<subseteq> set (digits base_d) \<Longrightarrow>
    parse_digits ds (int32 (- int v)) =
    int32 (- int (foldl (\<lambda>v c. if c = ch CHR '','' then v else v * base base_d + digit_index (digits base_d) c) v ds))"
proof (induction ds arbitrary: v)
  case (Cons d ds)
  then have d: "isdigit d" "d \<noteq> ch CHR '',''" "uint d - 48 = int (digit_index (digits base_d) d)"
    using decimal_digit [of d] by auto
  have "int32 (int32 (- int v) * 10 - (uint d - 48)) = int32 (- int (v * base base_d + digit_index (digits base_d) d))"
    unfolding int32_step d(3) by (simp add: base_d_def)
  moreover have "set ds \<subseteq> set (digits base_d)" using Cons.prems by simp
  ultimately show ?case using d(1,2) by (simp only: parse_digits.simps foldl.simps if_True if_False Cons.IH)
qed simp

lemma atoi_decimal:
  assumes "set ds \<subseteq> set (digits base_d)" "ds \<noteq> []" "- (2 ^ 31) \<le> n" "n < 2 ^ 31"
    "int (digits_value base_d ds) = \<bar>n\<bar>"
  shows "atoi ((if n < 0 then [ch CHR ''-''] else []) @ ds) = n"
proof -
  obtain d r where ds: "ds = d # r" using assms(2) by (cases ds) auto
  then have "d \<in> set (digits base_d)" using assms(1) by auto
  then have d: "\<not> isspace d" "d \<noteq> 43" "d \<noteq> 45" using decimal_digit by auto
  have v: "parse_digits ds 0 = int32 (- \<bar>n\<bar>)"
    using parse_digits_value [OF assms(1), of 0] assms(5) by (simp add: digits_value_def int32_id)
  show ?thesis
  proof (cases "n < 0")
    case True
    then show ?thesis using v assms(3) by (simp add: atoi_def isspace_def int32_id)
  next
    case False
    have "int32 (- int32 (- n)) = n" using False assms(4) by (simp add: int32_id)
    then show ?thesis using False v d ds by (simp add: atoi_def)
  qed
qed

abbreviation plain_int :: printf_conversion where
  "plain_int \<equiv> \<lparr>flags = 0, width = 0, precision = - 1, type_of = INT_TYPE\<rparr>"

lemma text_d:
  "vprintf_text m (str ''%d'') [a] =
    (let v = va_int a in format_integer (word_of_int (if v < 0 then - v else v)) True (v < 0) base_d plain_int snoc [])"
  by (simp add: vprintf_text_def vprintf_fmt_def vprintf_loop.simps parse_conversion_def parse_width_def flag_of_def
      parse_precision_def parse_type_def isdigit_def normal_flags_def convert_def va_arg_def signed_arg_def Let_def)

lemma decimal_text:
  "\<exists>ds. vprintf_text m (str ''%d'') [a] = Some ((if va_int a < 0 then [ch CHR ''-''] else []) @ ds) \<and>
    set ds \<subseteq> set (digits base_d) \<and> ds \<noteq> [] \<and> length ds \<le> 10 \<and> int (digits_value base_d ds) = \<bar>va_int a\<bar>"
proof -
  define n where "n = va_int a"
  define v :: u64 where "v = word_of_int (if n < 0 then - n else n)"
  have n: "- (2 ^ 31) \<le> n" "n < 2 ^ 31"
    unfolding n_def va_int_def using sint_ge [of "ucast a :: u32"] sint_lt [of "ucast a :: u32"] by simp_all
  then have v: "int (unat v) = \<bar>n\<bar>" by (simp add: v_def uint_word_of_int)
  obtain l z ds r where ds: "format_integer v True (n < 0) base_d plain_int snoc [] =
      Some (replicate l (ch CHR '' '') @ (if n < 0 then [ch CHR ''-''] else []) @
        replicate z (ch CHR ''0'') @ ds @ replicate r (ch CHR '' ''))"
    "digits_value base_d ds = unat v" "l + z + r = 0" "set ds \<subseteq> set (digits base_d)" "ds \<noteq> []"
    "\<forall>j>0. unat v < base base_d ^ j \<longrightarrow> length ds \<le> j"
    using format_integer_spec [OF bases_ok, of base_d plain_int v True "n < 0" snoc "[]"]
    by (cases "n < 0") (auto simp: sign_char_def fold_snoc)
  have "int (unat v) < int (10 ^ 10)" using n unfolding v by simp
  then have "unat v < 10 ^ 10" by (simp only: of_nat_less_iff)
  then have "unat v < base base_d ^ 10" by (simp add: base_d_def)
  then have "length ds \<le> 10" using ds(6) by simp
  moreover have "vprintf_text m (str ''%d'') [a] = Some ((if n < 0 then [ch CHR ''-''] else []) @ ds)"
    unfolding text_d Let_def n_def [symmetric] v_def [symmetric] ds(1) using ds(3) by simp
  ultimately show ?thesis unfolding n_def [symmetric] v [symmetric]
    using ds by (intro exI [of _ ds]) simp
qed

section \<open>Buffers\<close>

lemma store_bytes_Nil: "store_bytes m a [] = m"
  by (auto simp: store_bytes_def fun_eq_iff)

lemma store_out_Cons: "store_bytes (m(a := b)) (Suc a) bs = store_bytes m a (b # bs)"
  by (auto simp: store_bytes_def fun_eq_iff nth_Cons' less_Suc_eq_le Suc_le_eq)

lemma helper_fold:
  assumes "out_length aux = int L" "max_length aux = int M" "out_p aux = p" "L + length t < 2 ^ 31"
  shows "fold vsnprintf_helper t (m, aux) =
    (store_bytes m p (take (M - L) t),
     aux\<lparr>out_length := int (L + length t), out_p := p + min (M - L) (length t)\<rparr>)"
  using assms
proof (induction t arbitrary: m aux L p)
  case Nil
  then show ?case by (simp add: store_bytes_Nil)
next
  case (Cons c t)
  have i: "int32 (int L + 1) = int (Suc L)" using Cons.prems(4) by (subst int32_id) auto
  show ?case
  proof (cases "L < M")
    case True
    define aux' where "aux' = aux\<lparr>out_length := int (Suc L), out_p := p + 1\<rparr>"
    have "fold vsnprintf_helper (c # t) (m, aux) = fold vsnprintf_helper t (m(p := c), aux')"
      using True Cons.prems i by (simp add: vsnprintf_helper_def aux'_def)
    also have "\<dots> = (store_bytes (m(p := c)) (p + 1) (take (M - Suc L) t),
        aux'\<lparr>out_length := int (Suc L + length t), out_p := p + 1 + min (M - Suc L) (length t)\<rparr>)"
      using Cons.prems by (intro Cons.IH) (simp_all add: aux'_def)
    finally show ?thesis using True
      by (simp add: store_out_Cons aux'_def take_Cons' min_def)
  next
    case False
    define aux' where "aux' = aux\<lparr>out_length := int (Suc L)\<rparr>"
    have "fold vsnprintf_helper (c # t) (m, aux) = fold vsnprintf_helper t (m, aux')"
      using False Cons.prems i by (simp add: vsnprintf_helper_def aux'_def)
    also have "\<dots> = (store_bytes m p (take (M - Suc L) t),
        aux'\<lparr>out_length := int (Suc L + length t), out_p := p + min (M - Suc L) (length t)\<rparr>)"
      using Cons.prems by (intro Cons.IH) (simp_all add: aux'_def)
    finally show ?thesis using False by (simp add: aux'_def)
  qed
qed

lemma vsnprintf_spec:
  assumes "vprintf_text m format args = Some t" "length t < 2 ^ 31" "0 < n" "n \<le> 2 ^ 31"
  shows "vsnprintf m buffer n format args =
    Some (store_bytes m buffer (take (n - 1) t @ [0]), int (length t))"
proof -
  define aux where "aux = \<lparr>out_p = buffer, out_length = 0, max_length = int32 (int n - 1)\<rparr>"
  have M: "max_length aux = int (n - 1)" using assms(3,4) by (simp add: aux_def int32_id of_nat_diff)
  have "fold vsnprintf_helper t (m, aux) =
      (store_bytes m buffer (take (n - 1) t),
       aux\<lparr>out_length := int (length t), out_p := buffer + min (n - 1) (length t)\<rparr>)"
    using helper_fold [of aux 0 "n - 1" buffer t m] M assms(2) by (simp add: aux_def)
  moreover have "(store_bytes m buffer (take (n - 1) t))(buffer + min (n - 1) (length t) := 0) =
      store_bytes m buffer (take (n - 1) t @ [0])"
    by (auto simp: store_bytes_def fun_eq_iff nth_append min.commute)
  ultimately show ?thesis
    using assms(3) by (simp add: vsnprintf_def aux_def [symmetric] vprintf_fmt_text assms(1))
qed

lemma vsnprintf_zero:
  assumes "vprintf_text m format args = Some t" "length t < 2 ^ 31"
  shows "vsnprintf m buffer 0 format args = Some (m, int (length t))"
  using helper_fold [of "\<lparr>out_p = buffer, out_length = 0, max_length = 0\<rparr>" 0 0 buffer t m] assms(2)
  by (simp add: vsnprintf_def vprintf_fmt_text assms(1) store_bytes_Nil)

section \<open>The console\<close>

text \<open>
  The state of the lock between two calls of the thread that prints: without the lock the depth is
  zero.
\<close>

definition console_ok :: "console \<Rightarrow> bool" where
  "console_ok k \<longleftrightarrow> 0 \<le> console_lock_depth k \<and> (\<not> lock_held k \<longrightarrow> console_lock_depth k = 0)"

lemma locked_after_acquire: "console_locked_by_current_thread (acquire_console k)"
  by (simp add: console_locked_by_current_thread_def acquire_console_def)

lemma release_acquired:
  "console_ok k \<Longrightarrow>
    release_console (acquire_console k\<lparr>console_write_cnt := n, console_out := out\<rparr>) =
    Some (k\<lparr>console_write_cnt := n, console_out := out\<rparr>)"
  by (auto simp: console_ok_def release_console_def acquire_console_def)

lemma acquire_counts [simp]:
  "console_write_cnt (acquire_console k) = console_write_cnt k" "console_out (acquire_console k) = console_out k"
  by (simp_all add: acquire_console_def)

lemma console_fold:
  "console_locked_by_current_thread k \<Longrightarrow> n + length t < 2 ^ 31 \<Longrightarrow>
    fold vprintf_helper t (Some (k, int n)) =
    Some (k\<lparr>console_write_cnt := console_write_cnt k + int (length t), console_out := console_out k @ t\<rparr>,
      int (n + length t))"
proof (induction t arbitrary: k n)
  case (Cons c t)
  have "int32 (int n + 1) = int (Suc n)" using Cons.prems(2) by (subst int32_id) auto
  then have "vprintf_helper c (Some (k, int n)) =
      Some (k\<lparr>console_write_cnt := console_write_cnt k + 1, console_out := console_out k @ [c]\<rparr>, int (Suc n))"
    using Cons.prems(1) by (simp add: vprintf_helper_def putchar_have_lock_def)
  moreover have "console_locked_by_current_thread (k\<lparr>console_write_cnt := console_write_cnt k + 1, console_out := console_out k @ [c]\<rparr>)"
    using Cons.prems(1) by (simp add: console_locked_by_current_thread_def)
  ultimately show ?case
    using Cons.IH [where n = "Suc n" and k = "k\<lparr>console_write_cnt := console_write_cnt k + 1, console_out := console_out k @ [c]\<rparr>"]
      Cons.prems(2) by simp
qed simp

lemma vprintf_console:
  assumes "vprintf_text m format args = Some t" "length t < 2 ^ 31" "console_ok k"
  shows "vprintf m format args k =
    Some (k\<lparr>console_write_cnt := console_write_cnt k + int (length t), console_out := console_out k @ t\<rparr>,
      int (length t))"
  using console_fold [OF locked_after_acquire, of 0 t k] assms
  by (simp add: vprintf_def vprintf_fmt_text release_acquired)

lemma putchars_console:
  "console_locked_by_current_thread k \<Longrightarrow>
    putchars s k = Some (k\<lparr>console_write_cnt := console_write_cnt k + int (length s), console_out := console_out k @ s\<rparr>)"
proof (induction s arbitrary: k)
  case (Cons c s)
  have "console_locked_by_current_thread (k\<lparr>console_write_cnt := console_write_cnt k + 1, console_out := console_out k @ [c]\<rparr>)"
    using Cons.prems(1) by (simp add: console_locked_by_current_thread_def)
  then show ?case using Cons by (simp add: putchar_have_lock_def)
qed simp

lemma putbuf_console:
  "console_ok k \<Longrightarrow>
    putbuf s k = Some (k\<lparr>console_write_cnt := console_write_cnt k + int (length s), console_out := console_out k @ s\<rparr>)"
  by (simp add: putbuf_def putchars_console [OF locked_after_acquire] release_acquired)

section \<open>Properties\<close>

text \<open> C22: \<open>vsnprintf\<close> writes into the buffer the longest prefix of the text of the format that leaves
  room for the terminator, and the terminator, changes no byte outside the buffer, and returns the
  length of the whole text, whatever the conversions, for every buffer size up to \<open>2 ^ 31\<close>. \<close>

theorem vsnprintf_bounded:
  assumes "vprintf_text m format args = Some t" "length t < 2 ^ 31" "n \<le> 2 ^ 31"
  shows "\<exists>m'. vsnprintf m buffer n format args = Some (m', int (length t)) \<and>
    (0 < n \<longrightarrow> load_bytes m' buffer (min (length t) (n - 1) + 1) = take (n - 1) t @ [0]) \<and>
    (\<forall>a. a < buffer \<or> buffer + n \<le> a \<longrightarrow> m' a = m a)"
proof (cases "n = 0")
  case True
  then show ?thesis using vsnprintf_zero [OF assms(1,2)] by simp
next
  case False
  have "load_bytes (store_bytes m buffer (take (n - 1) t @ [0])) buffer (min (length t) (n - 1) + 1) = take (n - 1) t @ [0]"
    using load_store_bytes [of m buffer "take (n - 1) t @ [0]"] by simp
  moreover have "\<forall>a. a < buffer \<or> buffer + n \<le> a \<longrightarrow> store_bytes m buffer (take (n - 1) t @ [0]) a = m a"
    using False by (auto simp: store_bytes_def)
  ultimately show ?thesis using vsnprintf_spec [OF assms(1,2) _ assms(3)] False by simp
qed

lemma vsnprintf_bounded_witness:
  "\<exists>m'. vsnprintf (\<lambda>_. 7) 100 3 (str ''ab%%c'') [] = Some (m', 4) \<and> load_bytes m' 100 3 = [97, 98, 0] \<and> m' 103 = 7"
proof -
  have t: "vprintf_text (\<lambda>_. 7) (str ''ab%%c'') [] = Some [97, 98, 37, 99]"
    by (simp add: vprintf_text_def vprintf_fmt_def vprintf_loop.simps snoc_def ch_def)
  have "\<exists>m'. vsnprintf (\<lambda>_. 7) 100 3 (str ''ab%%c'') [] = Some (m', int (length [97, 98, 37, 99 :: u8])) \<and>
      (0 < (3 :: nat) \<longrightarrow> load_bytes m' 100 (min (length [97, 98, 37, 99 :: u8]) (3 - 1) + 1) = take (3 - 1) [97, 98, 37, 99] @ [0]) \<and>
      (\<forall>a. a < 100 \<or> 100 + 3 \<le> a \<longrightarrow> m' a = (7 :: u8))"
    by (rule vsnprintf_bounded [OF t]) simp_all
  then show ?thesis by (auto simp: numeral_3_eq_3 simp del: list.map)
qed



text \<open>
  The digits of a number without leading zeros; a separator after every digit that a positive
  multiple of \<open>g\<close> digits follows; and the digits of an integer conversion: leading zeros as the
  precision asks for (63 places at most) and the zero that the flag \<open>#\<close> puts before octal numbers.
\<close>

function numeral_text :: "integer_base \<Rightarrow> nat \<Rightarrow> u8 list" where
  "numeral_text b v =
     (if v = 0 \<or> base b \<le> 1 then [] else numeral_text b (v div base b) @ [digits b ! (v mod base b)])"
  by pat_completeness auto
termination by (relation "measure snd") (auto intro: div_less_dividend)

declare numeral_text.simps [simp del]

definition separated_from :: "nat \<Rightarrow> nat \<Rightarrow> u8 list \<Rightarrow> u8 list" where
  "separated_from k g cs = concat (map (\<lambda>i.
     cs ! i # (let n = k + length cs - 1 - i in if 0 < n \<and> n mod g = 0 then [ch CHR '',''] else [])) [0..<length cs])"

definition separated :: "nat \<Rightarrow> u8 list \<Rightarrow> u8 list" where
  "separated g cs = separated_from 0 g cs"

definition integer_digits :: "nat \<Rightarrow> integer_base \<Rightarrow> printf_conversion \<Rightarrow> u8 list" where
  "integer_digits v b c =
     (let ds = (if flags c AND GROUP \<noteq> 0 then separated (group b) (numeral_text b v) else numeral_text b v);
          prec = (if precision c < 0 then 1 else nat (precision c));
          ds = replicate (min prec 63 - length ds) (ch CHR ''0'') @ ds
      in if flags c AND POUND \<noteq> 0 \<and> base b = 8 \<and> (ds = [] \<or> hd ds \<noteq> ch CHR ''0'') then ch CHR ''0'' # ds else ds)"

text \<open>
  The text of an integer conversion: the sign and the base prefix that the flags ask for and the
  digits, padded to the width of the field: with blanks on the right for the flag \<open>-\<close>, with zeros
  between the prefix and the digits for the flag \<open>0\<close>, and with blanks on the left otherwise.
\<close>

definition integer_prefix :: "u64 \<Rightarrow> bool \<Rightarrow> bool \<Rightarrow> integer_base \<Rightarrow> printf_conversion \<Rightarrow> u8 list" where
  "integer_prefix v is_signed negative b c =
     (let sign = sign_char is_signed negative (flags c);
          x = (if flags c AND POUND \<noteq> 0 \<and> v \<noteq> 0 then x_char b else 0)
      in (if sign \<noteq> 0 then [sign] else []) @ (if x \<noteq> 0 then [ch CHR ''0'', x] else []))"

definition integer_field :: "u64 \<Rightarrow> bool \<Rightarrow> bool \<Rightarrow> integer_base \<Rightarrow> printf_conversion \<Rightarrow> u8 list" where
  "integer_field v is_signed negative b c =
     (let pre = integer_prefix v is_signed negative b c;
          ds = integer_digits (unat v) b c;
          pad = nat (width c) - (length pre + length ds)
      in (if flags c AND MINUS = 0 \<and> flags c AND ZERO = 0 then replicate pad (ch CHR '' '') else []) @ pre @
         (if flags c AND ZERO \<noteq> 0 then replicate pad (ch CHR ''0'') else []) @ ds @
         (if flags c AND MINUS \<noteq> 0 then replicate pad (ch CHR '' '') else []))"

lemma separated_snoc:
  "separated_from k g (cs @ [d]) =
    separated_from (Suc k) g cs @ d # (if 0 < k \<and> k mod g = 0 then [ch CHR '',''] else [])"
  by (simp add: separated_from_def nth_append del: ch_simps) (intro arg_cong [of _ _ concat] map_cong; simp)

lemma numeral_text_step:
  "base_ok b \<Longrightarrow> 0 < v \<Longrightarrow> numeral_text b v = numeral_text b (v div base b) @ [digits b ! (v mod base b)]"
  by (subst numeral_text.simps) (auto simp: base_ok_def)

lemma digits_loop_text:
  "digits_loop b grouped v k buf = Some r \<Longrightarrow> base_ok b \<Longrightarrow>
    r = buf @ rev (if grouped then separated_from k (group b) (numeral_text b v) else numeral_text b v)"
proof (induction b grouped v k buf arbitrary: r rule: digits_loop.induct)
  case (1 b grouped v k buf)
  show ?case
  proof (cases "v > 0")
    case True
    define sep where "sep = (if grouped \<and> k > 0 \<and> k mod group b = 0 then [ch CHR '',''] else [])"
    define d where "d = digits b ! (v mod base b)"
    have "(if grouped \<and> k > 0 \<and> k mod group b = 0 then buf_put (ch CHR '','') buf else Some buf) \<noteq> None"
      using "1.prems"(1) True by (subst (asm) digits_loop.simps) (auto simp: bind_eq_Some_conv simp del: ch_simps)
    then have s: "(if grouped \<and> k > 0 \<and> k mod group b = 0 then buf_put (ch CHR '','') buf else Some buf) = Some (buf @ sep)"
      by (auto simp: sep_def buf_put_def split: if_splits simp del: ch_simps)
    have p: "buf_put d (buf @ sep) = Some ((buf @ sep) @ [d])" and
      l: "digits_loop b grouped (v div base b) (k + 1) ((buf @ sep) @ [d]) = Some r"
      using "1.prems"(1) True s
      by (subst (asm) digits_loop.simps; auto simp: bind_eq_Some_conv buf_put_Some d_def simp del: ch_simps)+
    have "r = ((buf @ sep) @ [d]) @ rev (if grouped then separated_from (k + 1) (group b) (numeral_text b (v div base b))
        else numeral_text b (v div base b))"
      using "1.IH" [OF True s p [unfolded d_def] l [unfolded d_def]] "1.prems"(2) unfolding d_def by simp
    then show ?thesis
      using True by (simp add: numeral_text_step [OF "1.prems"(2)] separated_snoc sep_def d_def del: ch_simps)
  next
    case False
    then show ?thesis using "1.prems"(1) by (simp add: digits_loop.simps numeral_text.simps separated_from_def)
  qed
qed

lemma integer_buf_text:
  assumes "base_ok b" "v < 2 ^ 64"
  shows "integer_buf v b c = Some (rev (integer_digits v b c))"
proof -
  obtain r where r: "integer_buf v b c = Some r" using integer_buf_spec [OF assms] by blast
  define ds where "ds = (if flags c AND GROUP \<noteq> 0 then separated (group b) (numeral_text b v) else numeral_text b v)"
  define p where "p = (if precision c < 0 then 1 else precision c)"
  obtain new where new: "digits_loop b (flags c AND GROUP \<noteq> 0) v 0 [] = Some new"
    using r by (auto simp: integer_buf_def bind_eq_Some_conv simp del: ch_simps)
  then have n: "new = rev ds"
    using digits_loop_text [OF new assms(1)] by (simp add: ds_def separated_def)
  define zs where "zs = replicate (min (nat p) 63 - length ds) (ch CHR ''0'') @ ds"
  have z: "zeros_loop p new = rev zs" by (simp add: zeros_loop_spec n zs_def)
  have e: "nat p = (if precision c < 0 then 1 else nat (precision c))" by (simp add: p_def)
  have "integer_digits v b c = (if flags c AND POUND \<noteq> 0 \<and> base b = 8 \<and> (zs = [] \<or> hd zs \<noteq> ch CHR ''0'')
      then ch CHR ''0'' # zs else zs)"
    unfolding integer_digits_def Let_def ds_def [symmetric] e [symmetric] zs_def [symmetric] ..
  moreover have "r = (if flags c AND POUND \<noteq> 0 \<and> base b = 8 \<and> (zs = [] \<or> hd zs \<noteq> ch CHR ''0'')
      then rev zs @ [ch CHR ''0''] else rev zs)"
    using r by (auto simp: integer_buf_def new p_def [symmetric] z buf_put_Some last_rev split: if_splits simp del: ch_simps)
  ultimately show ?thesis using r by (simp del: ch_simps)
qed

text \<open> C24: \<open>format_integer\<close> prints every 64-bit number in every base, for every combination of flags,
  every precision and every width from 0 below 2^31, without overrunning its buffer of 64 bytes; what it prints is
  exactly the field described above, whose digits denote the number. (When both \<open>-\<close> and \<open>0\<close> are
  set, which \<open>vprintf\<close> lets a negative width do, the field is padded twice.) \<close>

theorem format_integer_field:
  assumes "b \<in> {base_d, base_o, base_x, base_X}" "0 \<le> width c" "width c < 2 ^ 31"
  shows "format_integer v is_signed negative b c output aux = Some (fold output (integer_field v is_signed negative b c) aux) \<and>
    digits_value b (integer_digits (unat v) b c) = unat v \<and> length (integer_digits (unat v) b c) \<le> 64 \<and>
    min (nat (precision c)) 63 \<le> length (integer_digits (unat v) b c)"
proof -
  note b = bases_ok [OF assms(1)]
  let ?ds = "integer_digits (unat v) b c" and ?pre = "integer_prefix v is_signed negative b c"
  have buf: "integer_buf (unat v) b c = Some (rev ?ds)" by (rule integer_buf_text [OF b unat_u64])
  have ds: "digits_value b ?ds = unat v" "length ?ds \<le> 64" "min (nat (precision c)) 63 \<le> length ?ds"
    using integer_buf_spec [OF b unat_u64, of v c] unfolding buf by auto
  define S where "S = sign_char is_signed negative (flags c)"
  define X where "X = (if flags c AND POUND \<noteq> 0 \<and> v \<noteq> 0 then x_char b else 0)"
  have pre: "?pre = (if S \<noteq> 0 then [S] else []) @ (if X \<noteq> 0 then [ch CHR ''0'', X] else [])"
    by (simp add: integer_prefix_def S_def X_def Let_def)
  define pad where "pad = nat (width c) - (length ?pre + length ?ds)"
  have "width c - int (length (rev ?ds)) - (if X \<noteq> 0 then 2 else 0) - (if S \<noteq> 0 then 1 else 0) =
      width c - int (length ?pre + length ?ds)"
    by (simp add: pre)
  moreover have "int32 (width c - int (length ?pre + length ?ds)) = width c - int (length ?pre + length ?ds)"
    using assms(2,3) ds(2) by (intro int32_id) (auto simp: pre)
  moreover have "nat (width c - int (length ?pre + length ?ds)) = pad" using assms(2) by (simp add: pad_def nat_diff_distrib')
  ultimately have pd: "nat (int32 (width c - int (length (rev ?ds)) - (if X \<noteq> 0 then 2 else 0) - (if S \<noteq> 0 then 1 else 0))) = pad"
    by (simp only:)
  have "format_integer v is_signed negative b c snoc [] = Some (integer_field v is_signed negative b c)"
    unfolding format_integer_def S_def [symmetric] X_def [symmetric] Let_def buf Option.bind.simps pd integer_field_def
      pad_def [symmetric]
    by (simp add: output_dup_snoc fold_snoc snoc_def pre flags_zero_or_minus del: ch_simps)
  moreover have "format_integer v is_signed negative b c output (fold output [] aux) =
      map_option (\<lambda>t. fold output t aux) (format_integer v is_signed negative b c snoc [])"
    by (rule format_integer_text)
  ultimately show ?thesis using ds by simp
qed

lemma format_integer_field_witness:
  "format_integer 8 False False base_o \<lparr>flags = POUND OR MINUS, width = 6, precision = - 1, type_of = INT_TYPE\<rparr> snoc [] =
    Some (str ''010   '')"
proof -
  have "integer_field 8 False False base_o \<lparr>flags = POUND OR MINUS, width = 6, precision = - 1, type_of = INT_TYPE\<rparr> =
      str ''010   ''" by code_simp
  then show ?thesis
    using format_integer_field [of base_o "\<lparr>flags = POUND OR MINUS, width = 6, precision = - 1, type_of = INT_TYPE\<rparr>"
        8 False False snoc "[]"] by (simp add: snoc_def)
qed

text \<open>
  A negative width given by \<open>*\<close> sets the flag for left justification after the flags have been made
  consistent, so with the flag \<open>0\<close> the field is padded on both sides.
\<close>

lemma zero_flag_negative_width:
  "vprintf_text m (str ''%0*d'') [- 5, 42] = Some (str ''00042   '')"
  by code_simp

end
