(* ===== verification/Ata.thy ===== *)
theory Ata
  imports Disk
begin

text \<open>
  The disk driver (devices/disk.c). The controller is not code of the kernel, so its ports, the
  passing of time and its interrupt are functions that the operations take as a parameter. The state
  of a channel has what \<open>struct channel\<close> has, with the state of the controller; a disk is its number
  within the channel. \<open>None\<close> is a panic, or a wait for an interrupt that does not come. The operations
  are those of the thread that holds the lock of the channel; messages to the console are left out.
\<close>

section \<open>Ports\<close>

record 'w controller =
  port_inb :: "u16 \<Rightarrow> 'w \<Rightarrow> u8 \<times> 'w"
  port_outb :: "u16 \<Rightarrow> u8 \<Rightarrow> 'w \<Rightarrow> 'w"
  port_inw :: "u16 \<Rightarrow> 'w \<Rightarrow> u16 \<times> 'w"
  port_outw :: "u16 \<Rightarrow> u16 \<Rightarrow> 'w \<Rightarrow> 'w"
  elapse :: "nat \<Rightarrow> 'w \<Rightarrow> 'w"
  next_irq :: "'w \<Rightarrow> 'w option"

record drive =
  is_ata :: bool
  drive_capacity :: u32
  drive_reads :: nat
  drive_writes :: nat

record 'w channel =
  reg_base :: u16
  irq :: nat
  lock_held :: bool
  expecting_interrupt :: bool
  completion_wait :: nat
  devices :: "nat \<Rightarrow> drive"
  intr_on :: bool
  world :: 'w

abbreviation reg_data :: "'w channel \<Rightarrow> u16" where "reg_data c \<equiv> reg_base c + 0"
abbreviation reg_error :: "'w channel \<Rightarrow> u16" where "reg_error c \<equiv> reg_base c + 1"
abbreviation reg_nsect :: "'w channel \<Rightarrow> u16" where "reg_nsect c \<equiv> reg_base c + 2"
abbreviation reg_lbal :: "'w channel \<Rightarrow> u16" where "reg_lbal c \<equiv> reg_base c + 3"
abbreviation reg_lbam :: "'w channel \<Rightarrow> u16" where "reg_lbam c \<equiv> reg_base c + 4"
abbreviation reg_lbah :: "'w channel \<Rightarrow> u16" where "reg_lbah c \<equiv> reg_base c + 5"
abbreviation reg_device :: "'w channel \<Rightarrow> u16" where "reg_device c \<equiv> reg_base c + 6"
abbreviation reg_status :: "'w channel \<Rightarrow> u16" where "reg_status c \<equiv> reg_base c + 7"
abbreviation reg_command :: "'w channel \<Rightarrow> u16" where "reg_command c \<equiv> reg_base c + 7"
abbreviation reg_ctl :: "'w channel \<Rightarrow> u16" where "reg_ctl c \<equiv> reg_base c + 0x206"
abbreviation reg_alt_status :: "'w channel \<Rightarrow> u16" where "reg_alt_status c \<equiv> reg_base c + 0x206"

abbreviation STA_BSY :: u8 where "STA_BSY \<equiv> 0x80"
abbreviation STA_DRDY :: u8 where "STA_DRDY \<equiv> 0x40"
abbreviation STA_DRQ :: u8 where "STA_DRQ \<equiv> 0x08"
abbreviation CTL_SRST :: u8 where "CTL_SRST \<equiv> 0x04"
abbreviation DEV_MBS :: u8 where "DEV_MBS \<equiv> 0xa0"
abbreviation DEV_LBA :: u8 where "DEV_LBA \<equiv> 0x40"
abbreviation DEV_DEV :: u8 where "DEV_DEV \<equiv> 0x10"
abbreviation CMD_IDENTIFY_DEVICE :: u8 where "CMD_IDENTIFY_DEVICE \<equiv> 0xec"
abbreviation CMD_READ_SECTOR_RETRY :: u8 where "CMD_READ_SECTOR_RETRY \<equiv> 0x20"
abbreviation CMD_WRITE_SECTOR_RETRY :: u8 where "CMD_WRITE_SECTOR_RETRY \<equiv> 0x30"

definition inb :: "'w controller \<Rightarrow> u16 \<Rightarrow> 'w channel \<Rightarrow> u8 \<times> 'w channel" where
  "inb D port c = (let (v, w) = port_inb D port (world c) in (v, c\<lparr>world := w\<rparr>))"

definition outb :: "'w controller \<Rightarrow> u16 \<Rightarrow> u8 \<Rightarrow> 'w channel \<Rightarrow> 'w channel" where
  "outb D port v c = c\<lparr>world := port_outb D port v (world c)\<rparr>"

text \<open>\<open>timer_msleep\<close>, \<open>timer_usleep\<close> and \<open>timer_nsleep\<close>; \<open>t\<close> is in nanoseconds.\<close>

definition timer_sleep_ns :: "'w controller \<Rightarrow> nat \<Rightarrow> 'w channel \<Rightarrow> 'w channel" where
  "timer_sleep_ns D t c = c\<lparr>world := elapse D t (world c)\<rparr>"

text \<open>A word that goes through a port is in memory with its low byte first.\<close>

definition le_word :: "u8 \<Rightarrow> u8 \<Rightarrow> u16" where
  "le_word lo hi = ucast lo OR push_bit 8 (ucast hi)"

fun insw :: "'w controller \<Rightarrow> u16 \<Rightarrow> nat \<Rightarrow> 'w channel \<Rightarrow> u8 list \<times> 'w channel" where
  "insw D port 0 c = ([], c)"
| "insw D port (Suc n) c =
     (let (v, w) = port_inw D port (world c);
          (bs, c) = insw D port n (c\<lparr>world := w\<rparr>)
      in (ucast v # ucast (drop_bit 8 v) # bs, c))"

fun outsw :: "'w controller \<Rightarrow> u16 \<Rightarrow> u8 list \<Rightarrow> 'w channel \<Rightarrow> 'w channel" where
  "outsw D port (lo # hi # bs) c =
     outsw D port bs (c\<lparr>world := port_outw D port (le_word lo hi) (world c)\<rparr>)"
| "outsw D port bs c = c"

section \<open>Low-level primitives\<close>

fun idle_loop :: "'w controller \<Rightarrow> nat \<Rightarrow> 'w channel \<Rightarrow> 'w channel" where
  "idle_loop D 0 c = c"
| "idle_loop D (Suc n) c =
     (let (status, c) = inb D (reg_status c) c
      in if status AND (STA_BSY OR STA_DRQ) = 0 then c
         else idle_loop D n (timer_sleep_ns D 10000 c))"

definition wait_until_idle :: "'w controller \<Rightarrow> 'w channel \<Rightarrow> 'w channel" where
  "wait_until_idle D c = idle_loop D 1000 c"

fun busy_loop :: "'w controller \<Rightarrow> nat \<Rightarrow> 'w channel \<Rightarrow> bool \<times> 'w channel" where
  "busy_loop D 0 c = (False, c)"
| "busy_loop D (Suc n) c =
     (let (status, c) = inb D (reg_alt_status c) c
      in if status AND STA_BSY = 0 then
           let (status, c) = inb D (reg_alt_status c) c in (status AND STA_DRQ \<noteq> 0, c)
         else busy_loop D n (timer_sleep_ns D 10000000 c))"

definition wait_while_busy :: "'w controller \<Rightarrow> 'w channel \<Rightarrow> bool \<times> 'w channel" where
  "wait_while_busy D c = busy_loop D 3000 c"

definition select_device :: "'w controller \<Rightarrow> nat \<Rightarrow> 'w channel \<Rightarrow> 'w channel" where
  "select_device D d c =
     (let c = outb D (reg_device c) (if d = 1 then DEV_MBS OR DEV_DEV else DEV_MBS) c;
          (status, c) = inb D (reg_alt_status c) c
      in timer_sleep_ns D 400 c)"

definition select_device_wait :: "'w controller \<Rightarrow> nat \<Rightarrow> 'w channel \<Rightarrow> 'w channel" where
  "select_device_wait D d c = wait_until_idle D (select_device D d (wait_until_idle D c))"

definition select_sector :: "'w controller \<Rightarrow> nat \<Rightarrow> u32 \<Rightarrow> 'w channel \<Rightarrow> 'w channel option" where
  "select_sector D d sec_no c = do {
     ASSERT (sec_no < drive_capacity (devices c d));
     ASSERT (sec_no < push_bit 28 1);
     let c = select_device_wait D d c;
     let c = outb D (reg_nsect c) 1 c;
     let c = outb D (reg_lbal c) (ucast sec_no) c;
     let c = outb D (reg_lbam c) (ucast (drop_bit 8 sec_no)) c;
     let c = outb D (reg_lbah c) (ucast (drop_bit 16 sec_no)) c;
     Some (outb D (reg_device c)
       (DEV_MBS OR DEV_LBA OR (if d = 1 then DEV_DEV else 0) OR ucast (drop_bit 24 sec_no)) c) }"

definition issue_pio_command :: "'w controller \<Rightarrow> u8 \<Rightarrow> 'w channel \<Rightarrow> 'w channel option" where
  "issue_pio_command D command c = do {
     ASSERT (intr_on c);
     let c = c\<lparr>expecting_interrupt := True\<rparr>;
     Some (outb D (reg_command c) command c) }"

definition input_sector :: "'w controller \<Rightarrow> 'w channel \<Rightarrow> u8 list \<times> 'w channel" where
  "input_sector D c = insw D (reg_data c) (512 div 2) c"

definition output_sector :: "'w controller \<Rightarrow> u8 list \<Rightarrow> 'w channel \<Rightarrow> 'w channel" where
  "output_sector D sector c = outsw D (reg_data c) (take 512 sector) c"

text \<open>
  The interrupt handler, on the list of the channels, and what it does with the channel that raised
  the interrupt.
\<close>

definition channel_interrupt :: "'w controller \<Rightarrow> 'w channel \<Rightarrow> 'w channel" where
  "channel_interrupt D c =
     (if expecting_interrupt c then
        let (status, c) = inb D (reg_status c) c in c\<lparr>completion_wait := completion_wait c + 1\<rparr>
      else c)"

fun interrupt_handler :: "'w controller \<Rightarrow> nat \<Rightarrow> 'w channel list \<Rightarrow> 'w channel list option" where
  "interrupt_handler D vec_no [] = None"
| "interrupt_handler D vec_no (c # cs) =
     (if vec_no = irq c then Some (channel_interrupt D c # cs)
      else map_option ((#) c) (interrupt_handler D vec_no cs))"

text \<open>\<open>sema_down (&c->completion_wait)\<close>: without a completed command the thread sleeps until the
  interrupt.\<close>

definition wait_completion :: "'w controller \<Rightarrow> 'w channel \<Rightarrow> 'w channel option" where
  "wait_completion D c = do {
     c \<leftarrow> (if completion_wait c = 0
           then map_option (\<lambda>w. channel_interrupt D (c\<lparr>world := w\<rparr>)) (next_irq D (world c))
           else Some c);
     (if completion_wait c = 0 then None else Some (c\<lparr>completion_wait := completion_wait c - 1\<rparr>)) }"

section \<open>Transfers\<close>

definition lock_channel :: "'w channel \<Rightarrow> 'w channel option" where
  "lock_channel c = do { ASSERT (\<not> lock_held c); Some (c\<lparr>lock_held := True\<rparr>) }"

definition unlock_channel :: "'w channel \<Rightarrow> 'w channel option" where
  "unlock_channel c = do { ASSERT (lock_held c); Some (c\<lparr>lock_held := False\<rparr>) }"

definition ata_read :: "'w controller \<Rightarrow> nat \<Rightarrow> u32 \<Rightarrow> 'w channel \<Rightarrow> ('w channel \<times> u8 list) option" where
  "ata_read D d sec_no c = do {
     c \<leftarrow> lock_channel c;
     c \<leftarrow> select_sector D d sec_no c;
     c \<leftarrow> issue_pio_command D CMD_READ_SECTOR_RETRY c;
     c \<leftarrow> wait_completion D c;
     let (ready, c) = wait_while_busy D c;
     ASSERT ready;
     let (buffer, c) = input_sector D c;
     let c = c\<lparr>devices := (devices c)(d := (devices c d)\<lparr>drive_reads := drive_reads (devices c d) + 1\<rparr>)\<rparr>;
     c \<leftarrow> unlock_channel c;
     Some (c, buffer) }"

definition ata_write :: "'w controller \<Rightarrow> nat \<Rightarrow> u32 \<Rightarrow> u8 list \<Rightarrow> 'w channel \<Rightarrow> 'w channel option" where
  "ata_write D d sec_no buffer c = do {
     c \<leftarrow> lock_channel c;
     c \<leftarrow> select_sector D d sec_no c;
     c \<leftarrow> issue_pio_command D CMD_WRITE_SECTOR_RETRY c;
     let (ready, c) = wait_while_busy D c;
     ASSERT ready;
     let c = output_sector D buffer c;
     c \<leftarrow> wait_completion D c;
     let c = c\<lparr>devices := (devices c)(d := (devices c d)\<lparr>drive_writes := drive_writes (devices c d) + 1\<rparr>)\<rparr>;
     unlock_channel c }"

section \<open>Detection\<close>

definition probe_device :: "'w controller \<Rightarrow> nat \<Rightarrow> 'w channel \<Rightarrow> bool \<times> 'w channel" where
  "probe_device D d c =
     (let c = select_device D d c;
          c = outb D (reg_nsect c) 0x55 c;
          c = outb D (reg_lbal c) 0xaa c;
          c = outb D (reg_nsect c) 0xaa c;
          c = outb D (reg_lbal c) 0x55 c;
          c = outb D (reg_nsect c) 0x55 c;
          c = outb D (reg_lbal c) 0xaa c;
          (nsect, c) = inb D (reg_nsect c) c
      in if nsect = 0x55 then let (lbal, c) = inb D (reg_lbal c) c in (lbal = 0xaa, c)
         else (False, c))"

fun reset_loop :: "'w controller \<Rightarrow> nat \<Rightarrow> 'w channel \<Rightarrow> 'w channel" where
  "reset_loop D 0 c = c"
| "reset_loop D (Suc n) c =
     (let (nsect, c) = inb D (reg_nsect c) c
      in if nsect = 1 then
           let (lbal, c) = inb D (reg_lbal c) c
           in if lbal = 1 then c else reset_loop D n (timer_sleep_ns D 10000000 c)
         else reset_loop D n (timer_sleep_ns D 10000000 c))"

definition reset_channel :: "'w controller \<Rightarrow> 'w channel \<Rightarrow> 'w channel" where
  "reset_channel D c =
     (let (present0, c) = probe_device D 0 c;
          (present1, c) = probe_device D 1 c;
          c = outb D (reg_ctl c) 0 c;
          c = timer_sleep_ns D 10000 c;
          c = outb D (reg_ctl c) CTL_SRST c;
          c = timer_sleep_ns D 10000 c;
          c = outb D (reg_ctl c) 0 c;
          c = timer_sleep_ns D 150000000 c;
          c = (if present0 then snd (wait_while_busy D (select_device D 0 c)) else c)
      in if present1 then snd (wait_while_busy D (reset_loop D 3000 (select_device D 1 c))) else c)"

definition check_device_type :: "'w controller \<Rightarrow> nat \<Rightarrow> 'w channel \<Rightarrow> bool \<times> 'w channel" where
  "check_device_type D d c =
     (let c = select_device D d c;
          (error, c) = inb D (reg_error c) c;
          (lbam, c) = inb D (reg_lbam c) c;
          (lbah, c) = inb D (reg_lbah c) c;
          (status, c) = inb D (reg_status c) c;
          absent = (error \<noteq> 1 \<and> (error \<noteq> 0x81 \<or> d = 1)) \<or> status AND STA_DRDY = 0 \<or> status AND STA_BSY \<noteq> 0;
          ata = \<not> absent \<and> ((lbam = 0 \<and> lbah = 0) \<or> (lbam = 0x3c \<and> lbah = 0xc3));
          c = c\<lparr>devices := (devices c)(d := (devices c d)\<lparr>is_ata := ata\<rparr>)\<rparr>
      in (if absent then error \<noteq> 0x81 else True, c))"

text \<open>The capacity is in the words 60 and 61 of the identification.\<close>

definition id_word :: "u8 list \<Rightarrow> nat \<Rightarrow> u16" where
  "id_word ident i = le_word (ident ! (2 * i)) (ident ! (2 * i + 1))"

definition id_capacity :: "u8 list \<Rightarrow> u32" where
  "id_capacity ident = ucast (id_word ident 60) OR push_bit 16 (ucast (id_word ident 61))"

definition identify_ata_device :: "'w controller \<Rightarrow> nat \<Rightarrow> 'w channel \<Rightarrow> 'w channel option" where
  "identify_ata_device D d c = do {
     ASSERT (is_ata (devices c d));
     let c = select_device_wait D d c;
     c \<leftarrow> issue_pio_command D CMD_IDENTIFY_DEVICE c;
     c \<leftarrow> wait_completion D c;
     let (ready, c) = wait_while_busy D c;
     (if \<not> ready then Some (c\<lparr>devices := (devices c)(d := (devices c d)\<lparr>is_ata := False\<rparr>)\<rparr>)
      else
        let (ident, c) = input_sector D c
        in Some (c\<lparr>devices := (devices c)(d := (devices c d)\<lparr>drive_capacity := id_capacity ident\<rparr>)\<rparr>)) }"

text \<open>What \<open>print_ata_string\<close> prints.\<close>

function ata_string_size :: "u8 list \<Rightarrow> nat \<Rightarrow> nat" where
  "ata_string_size s n =
     (if n > 0 then
        let c = s ! (n - 1 XOR 1)
        in if c \<noteq> 0 \<and> \<not> (c = 32 \<or> c = 12 \<or> c = 10 \<or> c = 13 \<or> c = 9 \<or> c = 11) then n
           else ata_string_size s (n - 1)
      else 0)"
  by pat_completeness auto
termination by (relation "measure snd") auto

declare ata_string_size.simps [simp del]

definition ata_string :: "u8 list \<Rightarrow> nat \<Rightarrow> u8 list" where
  "ata_string s n = map (\<lambda>i. s ! (i XOR 1)) [0..<ata_string_size s n]"

text \<open>One round of the loop of \<open>disk_init\<close>.\<close>

definition init_channel :: "'w controller \<Rightarrow> u16 \<Rightarrow> nat \<Rightarrow> bool \<Rightarrow> 'w \<Rightarrow> 'w channel option" where
  "init_channel D base_port vec_no level w = do {
     let c = \<lparr>reg_base = base_port, irq = vec_no, lock_held = False, expecting_interrupt = False,
              completion_wait = 0,
              devices = (\<lambda>_. \<lparr>is_ata = False, drive_capacity = 0, drive_reads = 0, drive_writes = 0\<rparr>),
              intr_on = level, world = w\<rparr>;
     let c = reset_channel D c;
     let (slave, c) = check_device_type D 0 c;
     let c = (if slave then snd (check_device_type D 1 c) else c);
     c \<leftarrow> (if is_ata (devices c 0) then identify_ata_device D 0 c else Some c);
     if is_ata (devices c 1) then identify_ata_device D 1 c else Some c }"

definition disk_init :: "'w controller \<Rightarrow> 'w controller \<Rightarrow> bool \<Rightarrow> 'w \<Rightarrow> 'w \<Rightarrow> 'w channel list option" where
  "disk_init D0 D1 level w0 w1 = do {
     c0 \<leftarrow> init_channel D0 0x1f0 (14 + 0x20) level w0;
     c1 \<leftarrow> init_channel D1 0x170 (15 + 0x20) level w1;
     Some [c0, c1] }"

text \<open>The disk as the numbers of its channel and of the device.\<close>

definition disk_get :: "'w channel list \<Rightarrow> nat \<Rightarrow> nat \<Rightarrow> (nat \<times> nat) option option" where
  "disk_get cs chan_no d = do {
     ASSERT (d = 0 \<or> d = 1);
     Some (if chan_no < 2 \<and> is_ata (devices (cs ! chan_no) d) then Some (chan_no, d) else None) }"

definition drive_size :: "'w channel \<Rightarrow> nat \<Rightarrow> u32" where
  "drive_size c d = drive_capacity (devices c d)"

end
