(* ===== verification/AtaProps.thy ===== *)
theory AtaProps
  imports Ata
begin

text \<open>
  The driver implements the disk that the file system sees (theory Disk), on every controller that
  follows the protocol. The protocol is a law about the ports of the controller, stated on a view of
  its registers, its phase and its media; a controller built from the view shows that the law can be
  met.
\<close>

section \<open>The protocol\<close>

text \<open>
  A command that reads has bytes to be fetched, one that writes collects bytes; after the last one the
  controller completes the command with an interrupt. \<open>busy\<close> is the number of delays of 10
  milliseconds for which the controller shows that it is busy.
\<close>

datatype ata_phase = Idle | Reading "u8 list" | Writing "u8 list" | Complete

record ata =
  nsect :: u8
  lbal :: u8
  lbam :: u8
  lbah :: u8
  dev_reg :: u8
  phase :: ata_phase
  busy :: nat
  media :: "bool \<Rightarrow> nat \<Rightarrow> u8 list"
  identity :: "bool \<Rightarrow> u8 list"

definition lba :: "ata \<Rightarrow> nat" where
  "lba v = unat (lbal v) + 2 ^ 8 * unat (lbam v) + 2 ^ 16 * unat (lbah v) + 2 ^ 24 * unat (dev_reg v AND 15)"

definition slave :: "ata \<Rightarrow> bool" where "slave v \<longleftrightarrow> dev_reg v AND DEV_DEV \<noteq> 0"

definition data_request :: "ata_phase \<Rightarrow> bool" where
  "data_request p = (case p of Reading bs \<Rightarrow> True | Writing bs \<Rightarrow> True | _ \<Rightarrow> False)"

definition fetched :: "u8 list \<Rightarrow> ata \<Rightarrow> ata" where
  "fetched bs v = v\<lparr>phase := (if bs = [] then Idle else Reading bs)\<rparr>"

definition stored :: "u8 list \<Rightarrow> ata \<Rightarrow> ata" where
  "stored bs v =
     (if length bs < 512 then v\<lparr>phase := Writing bs\<rparr>
      else v\<lparr>phase := Complete, media := (media v)(slave v := (media v (slave v))(lba v := bs))\<rparr>)"

definition registers_law :: "'w controller \<Rightarrow> u16 \<Rightarrow> ('w \<Rightarrow> ata) \<Rightarrow> bool" where
  "registers_law D p V \<longleftrightarrow>
     (\<forall>w x. busy (V w) = 0 \<and> phase (V w) = Idle \<longrightarrow>
        V (port_outb D (p + 2) x w) = V w\<lparr>nsect := x\<rparr> \<and>
        V (port_outb D (p + 3) x w) = V w\<lparr>lbal := x\<rparr> \<and>
        V (port_outb D (p + 4) x w) = V w\<lparr>lbam := x\<rparr> \<and>
        V (port_outb D (p + 5) x w) = V w\<lparr>lbah := x\<rparr> \<and>
        V (port_outb D (p + 6) x w) = V w\<lparr>dev_reg := x\<rparr>)"

definition commands_law :: "'w controller \<Rightarrow> u16 \<Rightarrow> ('w \<Rightarrow> ata) \<Rightarrow> bool" where
  "commands_law D p V \<longleftrightarrow>
     (\<forall>w. busy (V w) = 0 \<and> phase (V w) = Idle \<longrightarrow>
        (nsect (V w) = 1 \<and> dev_reg (V w) AND DEV_LBA \<noteq> 0 \<longrightarrow>
           (\<exists>n<3000. V (port_outb D (p + 7) CMD_READ_SECTOR_RETRY w) =
              V w\<lparr>phase := Reading (media (V w) (slave (V w)) (lba (V w))), busy := n\<rparr>) \<and>
           (\<exists>n<3000. V (port_outb D (p + 7) CMD_WRITE_SECTOR_RETRY w) = V w\<lparr>phase := Writing [], busy := n\<rparr>)) \<and>
        (\<exists>n<3000. V (port_outb D (p + 7) CMD_IDENTIFY_DEVICE w) =
           V w\<lparr>phase := Reading (identity (V w) (slave (V w))), busy := n\<rparr>))"

definition status_law :: "'w controller \<Rightarrow> u16 \<Rightarrow> ('w \<Rightarrow> ata) \<Rightarrow> bool" where
  "status_law D p V \<longleftrightarrow>
     (\<forall>w. \<forall>port\<in>{p + 7, p + 0x206}.
        V (snd (port_inb D port w)) = V w \<and>
        (fst (port_inb D port w) AND STA_BSY \<noteq> 0 \<longleftrightarrow> busy (V w) > 0) \<and>
        (busy (V w) = 0 \<longrightarrow> (fst (port_inb D port w) AND STA_DRQ \<noteq> 0 \<longleftrightarrow> data_request (phase (V w)))))"

definition time_law :: "'w controller \<Rightarrow> ('w \<Rightarrow> ata) \<Rightarrow> bool" where
  "time_law D V \<longleftrightarrow>
     (\<forall>w t. \<exists>b\<le>busy (V w). V (elapse D t w) = V w\<lparr>busy := b\<rparr> \<and>
        (10000000 \<le> t \<and> busy (V w) > 0 \<longrightarrow> b < busy (V w)))"

definition irq_law :: "'w controller \<Rightarrow> ('w \<Rightarrow> ata) \<Rightarrow> bool" where
  "irq_law D V \<longleftrightarrow>
     (\<forall>w. (\<forall>bs. phase (V w) = Reading bs \<longrightarrow> (\<exists>w'. next_irq D w = Some w' \<and> V w' = V w\<lparr>busy := 0\<rparr>)) \<and>
        (phase (V w) = Complete \<longrightarrow> (\<exists>w'. next_irq D w = Some w' \<and> V w' = V w\<lparr>busy := 0, phase := Idle\<rparr>)))"

definition data_law :: "'w controller \<Rightarrow> u16 \<Rightarrow> ('w \<Rightarrow> ata) \<Rightarrow> bool" where
  "data_law D p V \<longleftrightarrow>
     (\<forall>w. busy (V w) = 0 \<longrightarrow>
        (\<forall>lo hi bs. phase (V w) = Reading (lo # hi # bs) \<longrightarrow>
           fst (port_inw D p w) = le_word lo hi \<and> V (snd (port_inw D p w)) = fetched bs (V w)) \<and>
        (\<forall>bs lo hi. phase (V w) = Writing bs \<longrightarrow>
           V (port_outw D p (le_word lo hi) w) = stored (bs @ [lo, hi]) (V w)))"

definition ata_controller :: "'w controller \<Rightarrow> u16 \<Rightarrow> ('w \<Rightarrow> ata) \<Rightarrow> bool" where
  "ata_controller D p V \<longleftrightarrow>
     registers_law D p V \<and> commands_law D p V \<and> status_law D p V \<and> time_law D V \<and> irq_law D V \<and> data_law D p V"

section \<open>Words\<close>

lemma word_bytes: "ucast (le_word lo hi) = lo" "ucast (drop_bit 8 (le_word lo hi)) = hi"
  unfolding le_word_def by (rule bit_word_eqI; auto simp: bit_simps dest: bit_imp_le_length)+

lemma device_bits:
  fixes x :: u8
  assumes "x < 16" "e = DEV_MBS OR DEV_LBA OR (if b then DEV_DEV else 0) OR x"
  shows "e AND 15 = x" "e AND DEV_DEV \<noteq> 0 \<longleftrightarrow> b" "e AND DEV_LBA \<noteq> 0"
proof -
  have "x \<in> set (map word_of_nat [0..<16])"
    using assms(1) by (auto simp: image_iff word_less_nat_alt intro!: bexI [of _ "unat x"])
  then have "x \<in> {0, 1, 2, 3, 4, 5, 6, 7, 8, 9, 10, 11, 12, 13, 14, 15}"
    by (simp add: upt_conv_Cons)
  then show "e AND 15 = x" "e AND DEV_DEV \<noteq> 0 \<longleftrightarrow> b" "e AND DEV_LBA \<noteq> 0"
    unfolding assms(2) by (cases b; auto)+
qed

lemma sector_registers:
  fixes s :: u32
  assumes "s < push_bit 28 1"
  shows "(ucast (drop_bit 24 s) :: u8) < 16"
    "unat (ucast s :: u8) + 2 ^ 8 * unat (ucast (drop_bit 8 s) :: u8) + 2 ^ 16 * unat (ucast (drop_bit 16 s) :: u8) +
      2 ^ 24 * unat (ucast (drop_bit 24 s) :: u8) = unat s"
proof -
  have s: "unat s < 2 ^ 28" using assms by (simp add: word_less_nat_alt)
  have b: "unat (ucast (drop_bit k s) :: u8) = unat s div 2 ^ k mod 256" for k
    by (simp add: unsigned_ucast_eq take_bit_eq_mod unat_drop)
  have top: "unat s div 2 ^ 24 < 16" using s by (intro less_mult_imp_div_less) simp
  then have b24: "unat (ucast (drop_bit 24 s) :: u8) = unat s div 2 ^ 24" unfolding b by (intro mod_less) simp
  have "unat (ucast (drop_bit 24 s) :: u8) < 16" using top unfolding b24 .
  then show "(ucast (drop_bit 24 s) :: u8) < 16" by (simp add: word_less_nat_alt del: unsigned_ucast_eq)
  have b0: "unat (ucast s :: u8) = unat s mod 256" using b [of 0] by simp
  have 2: "unat s div 2 ^ 16 = unat s div 2 ^ 8 div 2 ^ 8" "unat s div 2 ^ 24 = unat s div 2 ^ 8 div 2 ^ 8 div 2 ^ 8"
    using div_mult2_eq [of "unat s" "2 ^ 8" "2 ^ 8"] div_mult2_eq [of "unat s" "2 ^ 16" "2 ^ 8"] by simp_all
  have sum: "n = 256 * q1 + r0 \<Longrightarrow> q1 = 256 * q2 + r1 \<Longrightarrow> q2 = 256 * q3 + r2 \<Longrightarrow>
      r0 + 256 * r1 + 65536 * r2 + 16777216 * q3 = n" for n q1 q2 q3 r0 r1 r2 :: nat
    by simp
  from sum [OF mult_div_mod_eq [symmetric] mult_div_mod_eq [symmetric] mult_div_mod_eq [symmetric], of "unat s"] show "unat (ucast s :: u8) + 2 ^ 8 * unat (ucast (drop_bit 8 s) :: u8) + 2 ^ 16 * unat (ucast (drop_bit 16 s) :: u8) +
      2 ^ 24 * unat (ucast (drop_bit 24 s) :: u8) = unat s"
    unfolding b24 b0 b [of 8] b [of 16] 2 by simp
qed

section \<open>The primitives\<close>

text \<open>\<open>c'\<close> is \<open>c\<close> with the controller in a state whose view is \<open>v\<close>.\<close>

definition moved :: "('w \<Rightarrow> ata) \<Rightarrow> 'w channel \<Rightarrow> ata \<Rightarrow> 'w channel \<Rightarrow> bool" where
  "moved V c v c' \<longleftrightarrow> (\<exists>w. c' = c\<lparr>world := w\<rparr> \<and> V w = v)"

lemma moved_trans: "moved V c v c' \<Longrightarrow> moved V c' v' c'' \<Longrightarrow> moved V c v' c''"
  by (auto simp: moved_def)

lemma moved_view: "moved V c v c' \<Longrightarrow> V (world c') = v"
  by (auto simp: moved_def)

lemma moved_fields:
  "moved V c v c' \<Longrightarrow> reg_base c' = reg_base c \<and> lock_held c' = lock_held c \<and> devices c' = devices c \<and>
    intr_on c' = intr_on c \<and> completion_wait c' = completion_wait c \<and> expecting_interrupt c' = expecting_interrupt c"
  by (auto simp: moved_def)

definition idle :: "ata \<Rightarrow> bool" where "idle v \<longleftrightarrow> busy v = 0 \<and> phase v = Idle"

lemma inb_status:
  assumes "ata_controller D (reg_base c) V" "port = reg_status c \<or> port = reg_alt_status c"
  shows "\<exists>s c'. inb D port c = (s, c') \<and> moved V c (V (world c)) c' \<and>
    (s AND STA_BSY \<noteq> 0 \<longleftrightarrow> busy (V (world c)) > 0) \<and>
    (busy (V (world c)) = 0 \<longrightarrow> (s AND STA_DRQ \<noteq> 0 \<longleftrightarrow> data_request (phase (V (world c)))))"
  using assms by (auto simp: ata_controller_def status_law_def inb_def moved_def case_prod_beta)

lemma sleep_idle:
  assumes "ata_controller D p V" "busy (V (world c)) = 0"
  shows "moved V c (V (world c)) (timer_sleep_ns D t c)"
proof -
  obtain b where "b \<le> busy (V (world c))" "V (elapse D t (world c)) = V (world c)\<lparr>busy := b\<rparr>"
    using assms(1) by (auto simp: ata_controller_def time_law_def)
  then show ?thesis using assms(2) by (auto simp: moved_def timer_sleep_ns_def)
qed

lemma outb_registers:
  assumes "ata_controller D (reg_base c) V" "idle (V (world c))"
  shows "moved V c (V (world c)\<lparr>nsect := x\<rparr>) (outb D (reg_nsect c) x c)"
    "moved V c (V (world c)\<lparr>lbal := x\<rparr>) (outb D (reg_lbal c) x c)"
    "moved V c (V (world c)\<lparr>lbam := x\<rparr>) (outb D (reg_lbam c) x c)"
    "moved V c (V (world c)\<lparr>lbah := x\<rparr>) (outb D (reg_lbah c) x c)"
    "moved V c (V (world c)\<lparr>dev_reg := x\<rparr>) (outb D (reg_device c) x c)"
  using assms by (auto simp: ata_controller_def registers_law_def idle_def moved_def outb_def)

lemma idle_status: "(s :: u8) AND STA_BSY = 0 \<Longrightarrow> s AND STA_DRQ = 0 \<Longrightarrow> s AND (STA_BSY OR STA_DRQ) = 0"
  by (simp only: bit.conj_disj_distrib or_eq_0_iff)

lemma wait_until_idle_idle:
  assumes "ata_controller D (reg_base c) V" "idle (V (world c))"
  shows "moved V c (V (world c)) (wait_until_idle D c)"
proof -
  obtain s c' where s: "inb D (reg_status c) c = (s, c')" "moved V c (V (world c)) c'"
    "s AND STA_BSY = 0" "s AND STA_DRQ = 0"
    using inb_status [OF assms(1), of "reg_status c"] assms(2) by (auto simp: idle_def data_request_def)
  have "idle_loop D (Suc n) c = c'" for n
    using s idle_status [OF s(3,4)] by simp
  then have "idle_loop D (Suc 999) c = c'" .
  moreover have "(1000 :: nat) = Suc 999" by simp
  ultimately show ?thesis using s(2) by (simp only: wait_until_idle_def)
qed

lemma ata_moved: "ata_controller D (reg_base c) V \<Longrightarrow> moved V c v c' \<Longrightarrow> ata_controller D (reg_base c') V"
  by (auto simp: moved_def)

lemma select_device_idle:
  assumes "ata_controller D (reg_base c) V" "idle (V (world c))"
  shows "\<exists>x. moved V c (V (world c)\<lparr>dev_reg := x\<rparr>) (select_device D d c)"
proof -
  define x where "x = (if d = 1 then DEV_MBS OR DEV_DEV else DEV_MBS)"
  define c1 where "c1 = outb D (reg_device c) x c"
  have 1: "moved V c (V (world c)\<lparr>dev_reg := x\<rparr>) c1" unfolding c1_def by (rule outb_registers [OF assms])
  obtain s c2 where 2: "inb D (reg_alt_status c1) c1 = (s, c2)" "moved V c1 (V (world c1)) c2"
    using inb_status [OF ata_moved [OF assms(1) 1], of "reg_alt_status c1"] by auto
  have "moved V c2 (V (world c2)) (timer_sleep_ns D 400 c2)"
    using moved_view [OF 1] moved_view [OF 2(2)] assms
    by (intro sleep_idle [OF assms(1)]) (simp add: idle_def)
  then have "moved V c (V (world c)\<lparr>dev_reg := x\<rparr>) (timer_sleep_ns D 400 c2)"
    using moved_trans [OF moved_trans [OF 1 2(2)]] moved_view [OF 1] moved_view [OF 2(2)] by simp
  moreover have "select_device D d c = timer_sleep_ns D 400 c2"
    using 2(1) by (simp add: select_device_def Let_def x_def c1_def)
  ultimately show ?thesis by auto
qed

lemma select_device_wait_idle:
  assumes "ata_controller D (reg_base c) V" "idle (V (world c))"
  shows "\<exists>x. moved V c (V (world c)\<lparr>dev_reg := x\<rparr>) (select_device_wait D d c)"
proof -
  define c1 where "c1 = wait_until_idle D c"
  have 1: "moved V c (V (world c)) c1" unfolding c1_def by (rule wait_until_idle_idle [OF assms])
  note v1 = moved_view [OF 1]
  obtain x where x: "moved V c1 (V (world c1)\<lparr>dev_reg := x\<rparr>) (select_device D d c1)"
    using select_device_idle [OF ata_moved [OF assms(1) 1], of d] assms(2) v1 by auto
  define c2 where "c2 = select_device D d c1"
  have 2: "moved V c (V (world c)\<lparr>dev_reg := x\<rparr>) c2" using moved_trans [OF 1 x] v1 by (simp add: c2_def)
  have "moved V c2 (V (world c2)) (wait_until_idle D c2)"
    using moved_view [OF 2] assms(2) by (intro wait_until_idle_idle ata_moved [OF assms(1) 2]) (simp add: idle_def)
  then have "moved V c (V (world c)\<lparr>dev_reg := x\<rparr>) (wait_until_idle D c2)"
    using moved_trans [OF 2] moved_view [OF 2] by simp
  then show ?thesis by (auto simp: select_device_wait_def c1_def c2_def)
qed

lemma out_step:
  assumes "moved V c v c'" "idle v"
    and "\<And>c'. reg_base c' = reg_base c \<Longrightarrow> idle (V (world c')) \<Longrightarrow> moved V c' (f (V (world c'))) (g c')"
  shows "moved V c (f v) (g c')"
  using assms(3) [of c'] moved_fields [OF assms(1)] moved_view [OF assms(1)] moved_trans [OF assms(1)] assms(2) by simp

text \<open>After \<open>select_sector\<close> the registers address the sector on the device.\<close>

definition addressed :: "ata \<Rightarrow> nat \<Rightarrow> nat \<Rightarrow> bool" where
  "addressed v d n \<longleftrightarrow> nsect v = 1 \<and> dev_reg v AND DEV_LBA \<noteq> 0 \<and> (slave v \<longleftrightarrow> d = 1) \<and> lba v = n"

lemma select_sector_spec:
  assumes "ata_controller D (reg_base c) V" "idle (V (world c))"
    and "s < drive_capacity (devices c d)" "s < push_bit 28 1"
  shows "\<exists>v c'. select_sector D d s c = Some c' \<and> moved V c v c' \<and> idle v \<and> addressed v d (unat s) \<and>
    media v = media (V (world c)) \<and> identity v = identity (V (world c))"
proof -
  define e where "e = DEV_MBS OR DEV_LBA OR (if d = 1 then DEV_DEV else 0) OR (ucast (drop_bit 24 s) :: u8)"
  obtain x where 0: "moved V c (V (world c)\<lparr>dev_reg := x\<rparr>) (select_device_wait D d c)"
    using select_device_wait_idle [OF assms(1,2)] by blast
  define c0 where "c0 = select_device_wait D d c"
  define c1 where "c1 = outb D (reg_nsect c0) 1 c0"
  define c2 where "c2 = outb D (reg_lbal c1) (ucast s) c1"
  define c3 where "c3 = outb D (reg_lbam c2) (ucast (drop_bit 8 s)) c2"
  define c4 where "c4 = outb D (reg_lbah c3) (ucast (drop_bit 16 s)) c3"
  define c5 where "c5 = outb D (reg_device c4) e c4"
  define v where "v = V (world c)\<lparr>dev_reg := x, nsect := 1, lbal := ucast s, lbam := ucast (drop_bit 8 s),
      lbah := ucast (drop_bit 16 s), dev_reg := e\<rparr>"
  have ctl: "ata_controller D (reg_base k) V" if "reg_base k = reg_base c" for k :: "'a channel"
    using assms(1) that by simp
  have i: "idle (V (world c)\<lparr>dev_reg := y\<rparr>)" for y using assms(2) by (simp add: idle_def)
  note step = out_step [OF _ _ outb_registers(1) [OF ctl]] out_step [OF _ _ outb_registers(2) [OF ctl]]
    out_step [OF _ _ outb_registers(3) [OF ctl]] out_step [OF _ _ outb_registers(4) [OF ctl]] out_step [OF _ _ outb_registers(5) [OF ctl]]
  have "moved V c (V (world c)\<lparr>dev_reg := x, nsect := 1\<rparr>) c1"
    unfolding c1_def by (rule step(1) [OF 0 [folded c0_def] i])
  then have "moved V c (V (world c)\<lparr>dev_reg := x, nsect := 1, lbal := ucast s\<rparr>) c2"
    unfolding c2_def by (rule step(2)) (use i in \<open>simp_all add: idle_def\<close>)
  then have "moved V c (V (world c)\<lparr>dev_reg := x, nsect := 1, lbal := ucast s, lbam := ucast (drop_bit 8 s)\<rparr>) c3"
    unfolding c3_def by (rule step(3)) (use i in \<open>simp_all add: idle_def\<close>)
  then have "moved V c (V (world c)\<lparr>dev_reg := x, nsect := 1, lbal := ucast s, lbam := ucast (drop_bit 8 s),
      lbah := ucast (drop_bit 16 s)\<rparr>) c4"
    unfolding c4_def by (rule step(4)) (use i in \<open>simp_all add: idle_def\<close>)
  then have "moved V c v c5"
    unfolding c5_def v_def by (rule step(5)) (use i in \<open>simp_all add: idle_def\<close>)
  moreover have "select_sector D d s c = Some c5"
    using assms(3,4) by (simp add: select_sector_def c0_def c1_def c2_def c3_def c4_def c5_def e_def Let_def)
  moreover have "addressed v d (unat s)"
    using device_bits [OF sector_registers(1) [OF assms(4)] e_def] sector_registers(2) [OF assms(4)]
    by (simp add: addressed_def v_def slave_def lba_def)
  ultimately show ?thesis using i by (auto simp: v_def idle_def)
qed

lemma time_law_step:
  "ata_controller D p V \<Longrightarrow> \<exists>b\<le>busy (V w). V (elapse D t w) = V w\<lparr>busy := b\<rparr> \<and>
    (10000000 \<le> t \<and> busy (V w) > 0 \<longrightarrow> b < busy (V w))"
  unfolding ata_controller_def time_law_def by blast

lemma busy_same: "busy v = 0 \<Longrightarrow> v\<lparr>busy := 0\<rparr> = v"
  by (cases v) simp

lemma busy_loop_spec:
  assumes "ata_controller D (reg_base c) V" "busy (V (world c)) < n"
  shows "\<exists>c'. busy_loop D n c = (data_request (phase (V (world c))), c') \<and> moved V c (V (world c)\<lparr>busy := 0\<rparr>) c'"
  using assms
proof (induction n arbitrary: c)
  case (Suc n)
  obtain s c1 where 1: "inb D (reg_alt_status c) c = (s, c1)" "moved V c (V (world c)) c1"
    "s AND STA_BSY \<noteq> 0 \<longleftrightarrow> busy (V (world c)) > 0"
    using inb_status [OF Suc.prems(1), of "reg_alt_status c"] by auto
  note v1 = moved_view [OF 1(2)] and f1 = moved_fields [OF 1(2)]
  have ctl: "ata_controller D (reg_base c1) V" by (rule ata_moved [OF Suc.prems(1) 1(2)])
  show ?case
  proof (cases "busy (V (world c)) = 0")
    case True
    obtain s2 c2 where 2: "inb D (reg_alt_status c1) c1 = (s2, c2)" "moved V c1 (V (world c1)) c2"
      "s2 AND STA_DRQ \<noteq> 0 \<longleftrightarrow> data_request (phase (V (world c1)))"
      using inb_status [OF ctl, of "reg_alt_status c1"] True v1 by auto
    have "moved V c (V (world c)\<lparr>busy := 0\<rparr>) c2" using moved_trans [OF 1(2) 2(2)] v1 True by (simp add: busy_same)
    then show ?thesis using 1 2 True v1 by auto
  next
    case False
    obtain b where b: "V (elapse D 10000000 (world c1)) = V (world c1)\<lparr>busy := b\<rparr>" "b < busy (V (world c1))"
      using time_law_step [OF Suc.prems(1), of "world c1" 10000000] False v1 by auto
    define c2 where "c2 = timer_sleep_ns D 10000000 c1"
    have 2: "moved V c (V (world c)\<lparr>busy := b\<rparr>) c2"
      by (rule moved_trans [OF 1(2)]) (use b(1) v1 in \<open>auto simp: moved_def c2_def timer_sleep_ns_def\<close>)
    have "busy (V (world c2)) < n" using moved_view [OF 2] b(2) v1 Suc.prems(2) by simp
    from Suc.IH [OF ata_moved [OF Suc.prems(1) 2] this] obtain c3 where
      "busy_loop D n c2 = (data_request (phase (V (world c2))), c3)" "moved V c2 (V (world c2)\<lparr>busy := 0\<rparr>) c3" by blast
    moreover from this(2) have "moved V c (V (world c)\<lparr>busy := 0\<rparr>) c3"
      using moved_trans [OF 2] moved_view [OF 2] by simp
    ultimately show ?thesis using 1 False moved_view [OF 2] by (simp add: c2_def)
  qed
qed simp

lemma insw_spec:
  assumes "ata_controller D (reg_base c) V" "busy (V (world c)) = 0" "phase (V (world c)) = Reading bs"
    "length bs = 2 * Suc n"
  shows "\<exists>c'. insw D (reg_data c) (Suc n) c = (bs, c') \<and> moved V c (V (world c)\<lparr>phase := Idle\<rparr>) c'"
  using assms
proof (induction n arbitrary: c bs)
  case 0
  then obtain lo hi where bs: "bs = [lo, hi]" by (auto simp: numeral_2_eq_2 length_Suc_conv)
  then have "fst (port_inw D (reg_base c) (world c)) = le_word lo hi"
    "V (snd (port_inw D (reg_base c) (world c))) = fetched [] (V (world c))"
    using 0 by (auto simp: ata_controller_def data_law_def)
  then show ?case using bs by (auto simp: case_prod_beta word_bytes moved_def fetched_def)
next
  case (Suc n)
  then obtain lo hi bs' where bs: "bs = lo # hi # bs'" "length bs' = 2 * Suc n" by (auto simp: length_Suc_conv)
  define c1 where "c1 = c\<lparr>world := snd (port_inw D (reg_base c) (world c))\<rparr>"
  have "fst (port_inw D (reg_base c) (world c)) = le_word lo hi"
    "V (world c1) = fetched bs' (V (world c))"
    using Suc.prems bs by (auto simp: ata_controller_def data_law_def c1_def)
  moreover have "bs' \<noteq> []" using bs(2) by auto
  ultimately have 1: "fst (port_inw D (reg_base c) (world c)) = le_word lo hi"
    "moved V c (V (world c)\<lparr>phase := Reading bs'\<rparr>) c1"
    by (auto simp: fetched_def moved_def c1_def)
  obtain c2 where "insw D (reg_data c1) (Suc n) c1 = (bs', c2)" "moved V c1 (V (world c1)\<lparr>phase := Idle\<rparr>) c2"
    using Suc.IH [OF ata_moved [OF Suc.prems(1) 1(2)] _ _ bs(2)] moved_view [OF 1(2)] Suc.prems(2) by auto
  moreover from this(2) have "moved V c (V (world c)\<lparr>phase := Idle\<rparr>) c2"
    using moved_trans [OF 1(2)] moved_view [OF 1(2)] by simp
  ultimately show ?case using bs(1) 1(1) by (simp add: case_prod_beta c1_def word_bytes)
qed

lemma outsw_spec:
  assumes "ata_controller D (reg_base c) V" "busy (V (world c)) = 0" "phase (V (world c)) = Writing as"
    "length bs = 2 * Suc n" "length as + length bs = 512"
  shows "moved V c (stored (as @ bs) (V (world c))) (outsw D (reg_data c) bs c)"
  using assms
proof (induction n arbitrary: c as bs)
  case 0
  then obtain lo hi where bs: "bs = [lo, hi]" by (auto simp: numeral_2_eq_2 length_Suc_conv)
  then have "V (port_outw D (reg_base c) (le_word lo hi) (world c)) = stored (as @ [lo, hi]) (V (world c))"
    using 0 by (auto simp: ata_controller_def data_law_def)
  then show ?case using bs by (auto simp: moved_def)
next
  case (Suc n)
  then obtain lo hi bs' where bs: "bs = lo # hi # bs'" "length bs' = 2 * Suc n" by (auto simp: length_Suc_conv)
  define c1 where "c1 = c\<lparr>world := port_outw D (reg_base c) (le_word lo hi) (world c)\<rparr>"
  have "V (world c1) = stored (as @ [lo, hi]) (V (world c))"
    using Suc.prems by (auto simp: ata_controller_def data_law_def c1_def)
  moreover have "stored (as @ [lo, hi]) (V (world c)) = V (world c)\<lparr>phase := Writing (as @ [lo, hi])\<rparr>"
    using Suc.prems(5) bs by (simp add: stored_def)
  ultimately have 1: "moved V c (V (world c)\<lparr>phase := Writing (as @ [lo, hi])\<rparr>) c1"
    by (auto simp: moved_def c1_def)
  have "moved V c1 (stored ((as @ [lo, hi]) @ bs') (V (world c1))) (outsw D (reg_data c1) bs' c1)"
    using Suc.prems bs moved_view [OF 1]
    by (intro Suc.IH [OF ata_moved [OF Suc.prems(1) 1] _ _ bs(2)]) simp_all
  moreover have "stored ((as @ [lo, hi]) @ bs') (V (world c1)) = stored (as @ bs) (V (world c))"
    using Suc.prems(5) bs(1) moved_view [OF 1] by (simp add: stored_def slave_def lba_def)
  ultimately show ?case using moved_trans [OF 1] bs(1) by (simp add: c1_def)
qed

lemma completion_spec:
  assumes "ata_controller D (reg_base c) V" "expecting_interrupt c" "completion_wait c = 0"
    and "next_irq D (world c) = Some w" "V w = v"
  shows "\<exists>c'. wait_completion D c = Some c' \<and> moved V c v c'"
proof -
  define c1 where "c1 = c\<lparr>world := w\<rparr>"
  have 1: "moved V c v c1" using assms(5) by (auto simp: moved_def c1_def)
  obtain s c2 where 2: "inb D (reg_status c1) c1 = (s, c2)" "moved V c1 (V (world c1)) c2"
    using inb_status [OF ata_moved [OF assms(1) 1], of "reg_status c1"] by auto
  have "channel_interrupt D c1 = c2\<lparr>completion_wait := 1\<rparr>"
    using 2(1) assms(2,3) moved_fields [OF 1] moved_fields [OF 2(2)] by (simp add: channel_interrupt_def)
  then have "wait_completion D c = Some (c2\<lparr>completion_wait := 0\<rparr>)"
    using assms(3,4) by (simp add: wait_completion_def c1_def)
  moreover have "c2\<lparr>completion_wait := 0\<rparr> = c2" using assms(3) moved_fields [OF 1] moved_fields [OF 2(2)] by simp
  moreover have "moved V c v c2" using moved_trans [OF 1 2(2)] moved_view [OF 1] by simp
  ultimately show ?thesis by simp
qed

section \<open>The transfers\<close>

text \<open>The disk that a device of the channel is; what holds of the channel between two transfers.\<close>

definition disk_of :: "('w \<Rightarrow> ata) \<Rightarrow> 'w channel \<Rightarrow> nat \<Rightarrow> disk" where
  "disk_of V c d =
     \<lparr>capacity = unat (drive_capacity (devices c d)), sectors = media (V (world c)) (d = 1),
      read_cnt = drive_reads (devices c d), write_cnt = drive_writes (devices c d)\<rparr>"

definition channel_ready :: "('w \<Rightarrow> ata) \<Rightarrow> 'w channel \<Rightarrow> bool" where
  "channel_ready V c \<longleftrightarrow>
     idle (V (world c)) \<and> \<not> lock_held c \<and> intr_on c \<and> completion_wait c = 0 \<and>
     (\<forall>s i. length (media (V (world c)) s i) = 512)"

lemma select_sector_fails:
  "\<not> (s < drive_capacity (devices c d) \<and> s < push_bit 28 1) \<Longrightarrow> select_sector D d s c = None"
  by (auto simp: select_sector_def)

lemma sector_numbers:
  "(s < drive_capacity (devices c d) \<and> s < push_bit 28 1) \<longleftrightarrow>
    (unat s < capacity (disk_of V c d) \<and> unat s < 2 ^ 28)"
  by (simp add: disk_of_def word_less_nat_alt)

lemma issued:
  assumes "moved V c v c1" "intr_on c" "V (port_outb D (reg_command c1) cmd (world c1)) = v'"
  shows "\<exists>c2. issue_pio_command D cmd c1 = Some c2 \<and> moved V (c\<lparr>expecting_interrupt := True\<rparr>) v' c2"
proof -
  obtain w where w: "c1 = c\<lparr>world := w\<rparr>" using assms(1) by (auto simp: moved_def)
  define c2 where "c2 = c\<lparr>expecting_interrupt := True, world := port_outb D (reg_command c) cmd w\<rparr>"
  have "issue_pio_command D cmd c1 = Some c2"
    using assms(2) by (simp add: issue_pio_command_def outb_def w c2_def)
  moreover have "moved V (c\<lparr>expecting_interrupt := True\<rparr>) v' c2"
    using assms(3) unfolding moved_def c2_def w by (intro exI conjI) simp_all
  ultimately show ?thesis by blast
qed

lemma irq_reading:
  "irq_law D V \<Longrightarrow> phase (V w) = Reading bs \<Longrightarrow> \<exists>w'. next_irq D w = Some w' \<and> V w' = V w\<lparr>busy := 0\<rparr>"
  by (simp add: irq_law_def)

lemma irq_complete:
  "irq_law D V \<Longrightarrow> phase (V w) = Complete \<Longrightarrow> \<exists>w'. next_irq D w = Some w' \<and> V w' = V w\<lparr>busy := 0, phase := Idle\<rparr>"
  by (simp add: irq_law_def)

lemma ata_read_spec:
  assumes ctl: "ata_controller D (reg_base c) V" and ready: "channel_ready V c"
    and s: "s < drive_capacity (devices c d)" "s < push_bit 28 1"
  shows "\<exists>w. ata_read D d s c = Some (c\<lparr>expecting_interrupt := True, world := w,
      devices := (devices c)(d := (devices c d)\<lparr>drive_reads := drive_reads (devices c d) + 1\<rparr>)\<rparr>,
      media (V (world c)) (d = 1) (unat s)) \<and> idle (V w) \<and> media (V w) = media (V (world c))"
proof -
  define c0 where "c0 = c\<lparr>lock_held := True\<rparr>"
  have c0: "reg_base c0 = reg_base c" "world c0 = world c" "devices c0 = devices c" by (simp_all add: c0_def)
  obtain v c1 where 1: "select_sector D d s c0 = Some c1" "moved V c0 v c1" "idle v" "addressed v d (unat s)"
    "media v = media (V (world c))"
    using select_sector_spec [of D c0 V s d] ctl ready s c0 by (auto simp: channel_ready_def)
  have v1: "V (world c1) = v" by (rule moved_view [OF 1(2)])
  have "commands_law D (reg_base c1) V" using ata_moved [OF _ 1(2)] ctl c0 by (simp add: ata_controller_def)
  then obtain n where n: "n < 3000" "V (port_outb D (reg_command c1) CMD_READ_SECTOR_RETRY (world c1)) =
      v\<lparr>phase := Reading (media v (slave v) (lba v)), busy := n\<rparr>"
    using 1(3,4) v1 by (auto simp: commands_law_def idle_def addressed_def)
  define c0' where "c0' = c0\<lparr>expecting_interrupt := True\<rparr>"
  have ctl': "ata_controller D (reg_base c0') V" using ctl by (simp add: c0'_def c0_def)
  define bs where "bs = media v (slave v) (lba v)"
  have bs: "bs = media (V (world c)) (d = 1) (unat s)" "length bs = 2 * Suc 255"
    using 1(4,5) ready by (auto simp: bs_def addressed_def channel_ready_def)
  obtain c2 where 2: "issue_pio_command D CMD_READ_SECTOR_RETRY c1 = Some c2"
    "moved V c0' (v\<lparr>phase := Reading bs, busy := n\<rparr>) c2"
    using issued [OF 1(2) _ n(2)] ready by (auto simp: channel_ready_def c0_def c0'_def bs_def)
  have "irq_law D V" using ctl by (simp add: ata_controller_def)
  then obtain w where w: "next_irq D (world c2) = Some w" "V w = v\<lparr>phase := Reading bs, busy := 0\<rparr>"
    using irq_reading [of D V "world c2" bs] moved_view [OF 2(2)] by auto
  have f2: "expecting_interrupt c2" "completion_wait c2 = 0"
    using moved_fields [OF 2(2)] ready by (auto simp: c0'_def c0_def channel_ready_def)
  obtain c3 where 3: "wait_completion D c2 = Some c3" "moved V c2 (v\<lparr>phase := Reading bs, busy := 0\<rparr>) c3"
    using completion_spec [OF ata_moved [OF ctl' 2(2)] f2 w] by blast
  have m3: "moved V c0' (v\<lparr>phase := Reading bs, busy := 0\<rparr>) c3" by (rule moved_trans [OF 2(2) 3(2)])
  obtain c4 where 4: "wait_while_busy D c3 = (True, c4)" "moved V c3 (v\<lparr>phase := Reading bs, busy := 0\<rparr>) c4"
    using busy_loop_spec [OF ata_moved [OF ctl' m3], of 3000] moved_view [OF m3]
    by (auto simp: wait_while_busy_def data_request_def)
  have m4: "moved V c0' (v\<lparr>phase := Reading bs, busy := 0\<rparr>) c4" by (rule moved_trans [OF m3 4(2)])
  obtain c5 where 5: "input_sector D c4 = (bs, c5)" "moved V c4 (V (world c4)\<lparr>phase := Idle\<rparr>) c5"
    using insw_spec [OF ata_moved [OF ctl' m4] _ _ bs(2)] moved_view [OF m4]
    by (auto simp: input_sector_def)
  have m5: "moved V c0' (v\<lparr>busy := 0, phase := Idle\<rparr>) c5"
    using moved_trans [OF m4 5(2)] moved_view [OF m4] by simp
  then obtain w5 where w5: "c5 = c0'\<lparr>world := w5\<rparr>" "V w5 = v\<lparr>busy := 0, phase := Idle\<rparr>"
    by (auto simp: moved_def)
  have "ata_read D d s c = Some (c\<lparr>expecting_interrupt := True, world := w5,
      devices := (devices c)(d := (devices c d)\<lparr>drive_reads := drive_reads (devices c d) + 1\<rparr>)\<rparr>, bs)"
    using ready 1(1) 2(1) 3(1) 4(1) 5(1)
    by (simp add: ata_read_def lock_channel_def unlock_channel_def channel_ready_def c0_def [symmetric] w5(1))
      (simp add: c0'_def c0_def)
  then show ?thesis using bs(1) w5(2) 1(5) by (auto simp: idle_def)
qed

lemma ata_write_spec:
  assumes ctl: "ata_controller D (reg_base c) V" and ready: "channel_ready V c"
    and s: "s < drive_capacity (devices c d)" "s < push_bit 28 1" and len: "length buffer = 512"
  shows "\<exists>w. ata_write D d s buffer c = Some (c\<lparr>expecting_interrupt := True, world := w,
      devices := (devices c)(d := (devices c d)\<lparr>drive_writes := drive_writes (devices c d) + 1\<rparr>)\<rparr>) \<and>
    idle (V w) \<and> media (V w) = (media (V (world c)))(d = 1 := (media (V (world c)) (d = 1))(unat s := buffer))"
proof -
  define c0 where "c0 = c\<lparr>lock_held := True\<rparr>"
  have c0: "reg_base c0 = reg_base c" "world c0 = world c" "devices c0 = devices c" by (simp_all add: c0_def)
  obtain v c1 where 1: "select_sector D d s c0 = Some c1" "moved V c0 v c1" "idle v" "addressed v d (unat s)"
    "media v = media (V (world c))"
    using select_sector_spec [of D c0 V s d] ctl ready s c0 by (auto simp: channel_ready_def)
  have v1: "V (world c1) = v" by (rule moved_view [OF 1(2)])
  have "commands_law D (reg_base c1) V" using ata_moved [OF _ 1(2)] ctl c0 by (simp add: ata_controller_def)
  then obtain n where n: "n < 3000" "V (port_outb D (reg_command c1) CMD_WRITE_SECTOR_RETRY (world c1)) =
      v\<lparr>phase := Writing [], busy := n\<rparr>"
    using 1(3,4) v1 by (auto simp: commands_law_def idle_def addressed_def)
  define c0' where "c0' = c0\<lparr>expecting_interrupt := True\<rparr>"
  have ctl': "ata_controller D (reg_base c0') V" using ctl by (simp add: c0'_def c0_def)
  obtain c2 where 2: "issue_pio_command D CMD_WRITE_SECTOR_RETRY c1 = Some c2"
    "moved V c0' (v\<lparr>phase := Writing [], busy := n\<rparr>) c2"
    using issued [OF 1(2) _ n(2)] ready by (auto simp: channel_ready_def c0_def c0'_def)
  obtain c3 where 3: "wait_while_busy D c2 = (True, c3)" "moved V c2 (v\<lparr>phase := Writing [], busy := 0\<rparr>) c3"
    using busy_loop_spec [OF ata_moved [OF ctl' 2(2)], of 3000] moved_view [OF 2(2)] n(1)
    by (auto simp: wait_while_busy_def data_request_def)
  have m3: "moved V c0' (v\<lparr>phase := Writing [], busy := 0\<rparr>) c3" by (rule moved_trans [OF 2(2) 3(2)])
  define v4 where "v4 = v\<lparr>busy := 0, phase := Complete, media := (media v)(d = 1 := (media v (d = 1))(unat s := buffer))\<rparr>"
  have "stored ([] @ buffer) (V (world c3)) = v4"
    using moved_view [OF m3] len 1(4) by (simp add: stored_def v4_def addressed_def slave_def lba_def)
  then have 4: "moved V c3 v4 (output_sector D buffer c3)"
    using outsw_spec [OF ata_moved [OF ctl' m3], of "[]" buffer 255] moved_view [OF m3] len
    by (simp add: output_sector_def)
  define c4 where "c4 = output_sector D buffer c3"
  have m4: "moved V c0' v4 c4" unfolding c4_def by (rule moved_trans [OF m3 4])
  have "irq_law D V" using ctl by (simp add: ata_controller_def)
  then obtain w where w: "next_irq D (world c4) = Some w" "V w = v4\<lparr>busy := 0, phase := Idle\<rparr>"
    using irq_complete [of D V "world c4"] moved_view [OF m4] by (auto simp: v4_def)
  have f4: "expecting_interrupt c4" "completion_wait c4 = 0"
    using moved_fields [OF m4] ready by (auto simp: c0'_def c0_def channel_ready_def)
  obtain c5 where 5: "wait_completion D c4 = Some c5" "moved V c4 (v4\<lparr>busy := 0, phase := Idle\<rparr>) c5"
    using completion_spec [OF ata_moved [OF ctl' m4] f4 w] by blast
  then obtain w5 where w5: "c5 = c0'\<lparr>world := w5\<rparr>" "V w5 = v4\<lparr>busy := 0, phase := Idle\<rparr>"
    using moved_trans [OF m4 5(2)] by (auto simp: moved_def)
  have "ata_write D d s buffer c = Some (c\<lparr>expecting_interrupt := True, world := w5,
      devices := (devices c)(d := (devices c d)\<lparr>drive_writes := drive_writes (devices c d) + 1\<rparr>)\<rparr>)"
    using ready 1(1) 2(1) 3(1) 5(1)
    by (simp add: ata_write_def lock_channel_def unlock_channel_def channel_ready_def c0_def [symmetric] c4_def [symmetric] w5(1))
      (simp add: c0'_def c0_def)
  then show ?thesis using w5(2) 1(5) by (auto simp: idle_def v4_def)
qed

text \<open> C8: The driver implements the disk of the file system on every controller that follows the
  protocol: a transfer panics exactly when the sector number is outside the disk; otherwise reading
  returns the sector, writing replaces exactly that sector of that device, the counters count, and the
  channel is ready for the next transfer. \<close>

theorem disk_driver_refines:
  assumes "ata_controller D (reg_base c) V" "channel_ready V c" "d = 0 \<or> d = 1" "length buffer = 512"
  shows "(case disk_read (disk_of V c d) (unat s) of
      None \<Rightarrow> ata_read D d s c = None
    | Some (k, sector) \<Rightarrow> \<exists>c'. ata_read D d s c = Some (c', sector) \<and> disk_of V c' d = k \<and>
        disk_of V c' (1 - d) = disk_of V c (1 - d) \<and> channel_ready V c' \<and> reg_base c' = reg_base c) \<and>
    (case disk_write (disk_of V c d) (unat s) buffer of
      None \<Rightarrow> ata_write D d s buffer c = None
    | Some k \<Rightarrow> \<exists>c'. ata_write D d s buffer c = Some c' \<and> disk_of V c' d = k \<and>
        disk_of V c' (1 - d) = disk_of V c (1 - d) \<and> channel_ready V c' \<and> reg_base c' = reg_base c)"
proof (cases "s < drive_capacity (devices c d) \<and> s < push_bit 28 1")
  case True
  note s = True [THEN conjunct1] True [THEN conjunct2]
  have "unat s < capacity (disk_of V c d)" "unat s < 2 ^ 28" using True sector_numbers by blast+
  then have "disk_read (disk_of V c d) (unat s) = Some ((disk_of V c d)\<lparr>read_cnt := read_cnt (disk_of V c d) + 1\<rparr>,
      media (V (world c)) (d = 1) (unat s))"
    "disk_write (disk_of V c d) (unat s) buffer = Some ((disk_of V c d)
      \<lparr>sectors := (media (V (world c)) (d = 1))(unat s := buffer), write_cnt := write_cnt (disk_of V c d) + 1\<rparr>)"
    by (simp_all add: disk_read_def disk_write_def) (simp_all add: disk_of_def)
  then show ?thesis
    using ata_read_spec [OF assms(1,2) s] ata_write_spec [OF assms(1,2) s assms(4)] assms(2-4)
    by (auto simp: disk_of_def channel_ready_def)
next
  case False
  then have "disk_read (disk_of V c d) (unat s) = None" "disk_write (disk_of V c d) (unat s) buffer = None"
    unfolding sector_numbers [of s c d V] by (auto simp: disk_read_def disk_write_def)
  moreover have "ata_read D d s c = None" "ata_write D d s buffer c = None"
    using assms(2) False select_sector_fails [of s "c\<lparr>lock_held := True\<rparr>" d D]
    by (simp_all add: ata_read_def ata_write_def lock_channel_def channel_ready_def)
  ultimately show ?thesis by simp
qed

text \<open>A controller that follows the protocol.\<close>

definition ref_controller :: "u16 \<Rightarrow> ata controller" where
  "ref_controller p =
     \<lparr>port_inb = (\<lambda>port v. (if busy v > 0 then STA_BSY else if data_request (phase v) then 0x48 else STA_DRDY, v)),
      port_outb = (\<lambda>port x v.
        if port = p + 2 then v\<lparr>nsect := x\<rparr> else if port = p + 3 then v\<lparr>lbal := x\<rparr>
        else if port = p + 4 then v\<lparr>lbam := x\<rparr> else if port = p + 5 then v\<lparr>lbah := x\<rparr>
        else if port = p + 6 then v\<lparr>dev_reg := x\<rparr>
        else if port = p + 7 \<and> x = CMD_READ_SECTOR_RETRY then v\<lparr>phase := Reading (media v (slave v) (lba v)), busy := 2\<rparr>
        else if port = p + 7 \<and> x = CMD_WRITE_SECTOR_RETRY then v\<lparr>phase := Writing [], busy := 2\<rparr>
        else if port = p + 7 \<and> x = CMD_IDENTIFY_DEVICE then v\<lparr>phase := Reading (identity v (slave v)), busy := 2\<rparr>
        else v),
      port_inw = (\<lambda>port v. case phase v of Reading (lo # hi # bs) \<Rightarrow> (le_word lo hi, fetched bs v) | _ \<Rightarrow> (0, v)),
      port_outw = (\<lambda>port x v. case phase v of Writing bs \<Rightarrow> stored (bs @ [ucast x, ucast (drop_bit 8 x)]) v | _ \<Rightarrow> v),
      elapse = (\<lambda>t v. v\<lparr>busy := busy v - (if 10000000 \<le> t then 1 else 0)\<rparr>),
      next_irq = (\<lambda>v. case phase v of Reading bs \<Rightarrow> Some (v\<lparr>busy := 0\<rparr>)
                      | Complete \<Rightarrow> Some (v\<lparr>busy := 0, phase := Idle\<rparr>) | _ \<Rightarrow> None)\<rparr>"

lemma ref_controller: "ata_controller (ref_controller p) p (\<lambda>v. v)"
  unfolding ata_controller_def
proof (intro conjI)
  show "registers_law (ref_controller p) p (\<lambda>v. v)" by (simp add: registers_law_def ref_controller_def)
  show "commands_law (ref_controller p) p (\<lambda>v. v)" by (auto simp: commands_law_def ref_controller_def intro!: exI [of _ 2])
  show "status_law (ref_controller p) p (\<lambda>v. v)" by (auto simp: status_law_def ref_controller_def)
  show "time_law (ref_controller p) (\<lambda>v. v)"
    unfolding time_law_def
  proof (intro allI)
    fix w :: ata and t
    show "\<exists>b\<le>busy w. elapse (ref_controller p) t w = w\<lparr>busy := b\<rparr> \<and> (10000000 \<le> t \<and> busy w > 0 \<longrightarrow> b < busy w)"
      by (rule exI [of _ "busy w - (if 10000000 \<le> t then 1 else 0)"]) (simp add: ref_controller_def)
  qed
  show "irq_law (ref_controller p) (\<lambda>v. v)" by (auto simp: irq_law_def ref_controller_def)
  show "data_law (ref_controller p) p (\<lambda>v. v)" by (auto simp: data_law_def ref_controller_def word_bytes)
qed

definition sample_channel :: "ata channel" where
  "sample_channel =
     \<lparr>reg_base = 0x1f0, irq = 46, lock_held = False, expecting_interrupt = False, completion_wait = 0,
      devices = (\<lambda>_. \<lparr>is_ata = True, drive_capacity = 100, drive_reads = 0, drive_writes = 0\<rparr>), intr_on = True,
      world = \<lparr>nsect = 0, lbal = 0, lbam = 0, lbah = 0, dev_reg = 0, phase = Idle, busy = 0,
               media = (\<lambda>_ _. replicate 512 7), identity = (\<lambda>_. replicate 512 0)\<rparr>\<rparr>"

lemma disk_driver_refines_witness:
  "\<exists>c'. ata_read (ref_controller 0x1f0) 1 3 sample_channel = Some (c', replicate 512 7) \<and>
    read_cnt (disk_of (\<lambda>v. v) c' 1) = 1 \<and> ata_write (ref_controller 0x1f0) 1 3 (replicate 512 9) sample_channel \<noteq> None"
proof -
  have "ata_controller (ref_controller 0x1f0) (reg_base sample_channel) (\<lambda>v. v)"
    by (simp add: sample_channel_def ref_controller del: numeral_One)
  moreover have "channel_ready (\<lambda>v. v) sample_channel"
    by (simp add: channel_ready_def sample_channel_def idle_def)
  moreover have "disk_read (disk_of (\<lambda>v. v) sample_channel 1) (unat (3 :: u32)) =
      Some ((disk_of (\<lambda>v. v) sample_channel 1)\<lparr>read_cnt := 1\<rparr>, replicate 512 7)"
    by (simp add: disk_read_def disk_of_def sample_channel_def)
  moreover obtain k where
    "disk_write (disk_of (\<lambda>v. v) sample_channel 1) (unat (3 :: u32)) (replicate 512 9) = Some k"
    by (simp add: disk_write_def disk_of_def sample_channel_def)
  ultimately show ?thesis
    using disk_driver_refines [of "ref_controller 0x1f0" sample_channel "\<lambda>v. v" 1 "replicate 512 9" 3] by auto
qed

end
