(* ===== verification/Malloc.thy ===== *)
theory Malloc
  imports Palloc
begin

text \<open>
  The block allocator of the kernel (threads/malloc.c). The header of an arena is kept apart from the
  bytes of its page: \<open>arenas\<close> has a header for exactly the pages at whose start a valid one stands,
  which is what the magic number tells; it is lost when the page is released. The free list of a
  descriptor is the list of the addresses of its free blocks; the links in the blocks are left out.
\<close>

section \<open>Descriptors and arenas\<close>

record desc =
  bsize :: nat
  blocks_per_arena :: nat
  free_list :: "addr list"
  desc_lock :: bool

text \<open>\<open>owner\<close> is the number of the descriptor; \<open>None\<close> for a big block.\<close>

record arena =
  owner :: "nat option"
  free_cnt :: nat

record heap =
  descs :: "desc list"
  arenas :: "addr \<Rightarrow> arena option"
  pal :: palloc

definition sizeof_arena :: nat where "sizeof_arena = 24"

definition pg_round_down :: "addr \<Rightarrow> addr" where "pg_round_down va = va - pg_ofs va"

function malloc_init_loop :: "nat \<Rightarrow> desc list \<Rightarrow> desc list option" where
  "malloc_init_loop block_size ds =
     (if 0 < block_size \<and> block_size < PGSIZE div 2 then do {
        ASSERT (length ds + 1 \<le> 10);
        malloc_init_loop (block_size * 2)
          (ds @ [\<lparr>bsize = block_size, blocks_per_arena = (PGSIZE - sizeof_arena) div block_size, free_list = [],
                  desc_lock = False\<rparr>]) }
      else Some ds)"
  by pat_completeness auto
termination by (relation "measure (\<lambda>(b, ds). PGSIZE - b)") auto

declare malloc_init_loop.simps [simp del]

definition malloc_init :: "palloc \<Rightarrow> heap option" where
  "malloc_init p = do {
     ds \<leftarrow> malloc_init_loop 16 [];
     Some \<lparr>descs = ds, arenas = (\<lambda>_. None), pal = p\<rparr> }"

text \<open>The smallest descriptor whose blocks are large enough, from number \<open>i\<close> on.\<close>

fun find_desc :: "desc list \<Rightarrow> nat \<Rightarrow> nat \<Rightarrow> nat option" where
  "find_desc [] n i = None"
| "find_desc (d # ds) n i = (if bsize d \<ge> n then Some i else find_desc ds n (i + 1))"

text \<open>The offset of a block in its page is compared as an unsigned number.\<close>

definition block_to_arena :: "heap \<Rightarrow> addr \<Rightarrow> (addr \<times> arena) option" where
  "block_to_arena h b = do {
     let a = pg_round_down b;
     ASSERT (a \<noteq> NULL);
     ar \<leftarrow> arenas h a;
     ASSERT (case owner ar of None \<Rightarrow> True
             | Some i \<Rightarrow> ((pg_ofs b + 2 ^ 64 - sizeof_arena) mod 2 ^ 64) mod bsize (descs h ! i) = 0);
     ASSERT (owner ar \<noteq> None \<or> pg_ofs b = sizeof_arena);
     Some (a, ar) }"

definition arena_to_block :: "desc \<Rightarrow> addr \<Rightarrow> nat \<Rightarrow> addr" where
  "arena_to_block d a idx = a + sizeof_arena + idx * bsize d"

definition arena_blocks :: "desc \<Rightarrow> addr \<Rightarrow> addr list" where
  "arena_blocks d a = map (arena_to_block d a) [0..<blocks_per_arena d]"

section \<open>Operations\<close>

definition malloc_big :: "nat \<Rightarrow> heap \<Rightarrow> (heap \<times> addr) option" where
  "malloc_big n h = do {
     let page_cnt = (n + sizeof_arena + PGSIZE - 1) mod 2 ^ 64 div PGSIZE;
     (p, a) \<leftarrow> palloc_get_multiple 0 page_cnt (pal h);
     let h = h\<lparr>pal := p\<rparr>;
     if a = NULL then Some (h, NULL)
     else Some (h\<lparr>arenas := (arenas h)(a \<mapsto> \<lparr>owner = None, free_cnt = page_cnt\<rparr>)\<rparr>, a + sizeof_arena) }"

text \<open>The list of the free blocks of descriptor \<open>i\<close> is made nonempty, if there is a page.\<close>

definition new_arena :: "nat \<Rightarrow> heap \<Rightarrow> heap option" where
  "new_arena i h = do {
     (p, a) \<leftarrow> palloc_get_page 0 (pal h);
     let h = h\<lparr>pal := p\<rparr>;
     let d = descs h ! i;
     if a = NULL then Some h
     else Some (h\<lparr>arenas := (arenas h)(a \<mapsto> \<lparr>owner = Some i, free_cnt = blocks_per_arena d\<rparr>),
                  descs := (descs h)[i := d\<lparr>free_list := free_list d @ arena_blocks d a\<rparr>]\<rparr>) }"

definition set_lock :: "nat \<Rightarrow> bool \<Rightarrow> heap \<Rightarrow> heap option" where
  "set_lock i held h = do {
     ASSERT (desc_lock (descs h ! i) \<noteq> held);
     Some (h\<lparr>descs := (descs h)[i := (descs h ! i)\<lparr>desc_lock := held\<rparr>]\<rparr>) }"

definition malloc :: "nat \<Rightarrow> heap \<Rightarrow> (heap \<times> addr) option" where
  "malloc n h =
     (if n = 0 then Some (h, NULL)
      else case find_desc (descs h) n 0 of
        None \<Rightarrow> malloc_big n h
      | Some i \<Rightarrow> do {
          h \<leftarrow> set_lock i True h;
          h \<leftarrow> (if free_list (descs h ! i) = [] then new_arena i h else Some h);
          case free_list (descs h ! i) of
            [] \<Rightarrow> do { h \<leftarrow> set_lock i False h; Some (h, NULL) }
          | b # bs \<Rightarrow> do {
              let h = h\<lparr>descs := (descs h)[i := (descs h ! i)\<lparr>free_list := bs\<rparr>]\<rparr>;
              (a, ar) \<leftarrow> block_to_arena h b;
              let h = h\<lparr>arenas := (arenas h)(a \<mapsto> ar\<lparr>free_cnt := free_cnt ar - 1\<rparr>)\<rparr>;
              h \<leftarrow> set_lock i False h;
              Some (h, b) } })"

definition memset_block :: "addr \<Rightarrow> u8 \<Rightarrow> nat \<Rightarrow> heap \<Rightarrow> heap" where
  "memset_block p v n h = h\<lparr>pal := memset_range p v n (pal h)\<rparr>"

definition calloc :: "nat \<Rightarrow> nat \<Rightarrow> heap \<Rightarrow> (heap \<times> addr) option" where
  "calloc a b h =
     (let n = (a * b) mod 2 ^ 64
      in if n < a \<or> n < b then Some (h, NULL)
         else do {
           (h, p) \<leftarrow> malloc n h;
           Some (if p \<noteq> NULL then memset_block p 0 n h else h, p) })"

definition block_size :: "heap \<Rightarrow> addr \<Rightarrow> nat option" where
  "block_size h b = do {
     (a, ar) \<leftarrow> block_to_arena h b;
     Some (case owner ar of Some i \<Rightarrow> bsize (descs h ! i) | None \<Rightarrow> PGSIZE * free_cnt ar - pg_ofs b) }"

text \<open>\<open>list_remove\<close> of a block that is in no list is undefined.\<close>

fun remove_blocks :: "addr list \<Rightarrow> addr list \<Rightarrow> addr list option" where
  "remove_blocks [] fl = Some fl"
| "remove_blocks (b # bs) fl = do { ASSERT (b \<in> set fl); remove_blocks bs (remove1 b fl) }"

definition free :: "addr \<Rightarrow> heap \<Rightarrow> heap option" where
  "free p h =
     (if p = NULL then Some h
      else do {
        (a, ar) \<leftarrow> block_to_arena h p;
        case owner ar of
          None \<Rightarrow> do {
            pl \<leftarrow> palloc_free_multiple a (free_cnt ar) (pal h);
            Some (h\<lparr>pal := pl, arenas := (arenas h)(a := None)\<rparr>) }
        | Some i \<Rightarrow> do {
            let h = memset_block p 0xcc (bsize (descs h ! i)) h;
            h \<leftarrow> set_lock i True h;
            let d = (descs h ! i)\<lparr>free_list := p # free_list (descs h ! i)\<rparr>;
            let ar = ar\<lparr>free_cnt := free_cnt ar + 1\<rparr>;
            h \<leftarrow> (if free_cnt ar \<ge> blocks_per_arena d then do {
                    ASSERT (free_cnt ar = blocks_per_arena d);
                    fl \<leftarrow> remove_blocks (arena_blocks d a) (free_list d);
                    pl \<leftarrow> palloc_free_page a (pal h);
                    Some (h\<lparr>descs := (descs h)[i := d\<lparr>free_list := fl\<rparr>], arenas := (arenas h)(a := None), pal := pl\<rparr>) }
                  else Some (h\<lparr>descs := (descs h)[i := d], arenas := (arenas h)(a \<mapsto> ar)\<rparr>));
            set_lock i False h } })"

definition realloc :: "addr \<Rightarrow> nat \<Rightarrow> heap \<Rightarrow> (heap \<times> addr) option" where
  "realloc old_block new_size h =
     (if new_size = 0 then do { h \<leftarrow> free old_block h; Some (h, NULL) }
      else do {
        (h, new_block) \<leftarrow> malloc new_size h;
        if old_block \<noteq> NULL \<and> new_block \<noteq> NULL then do {
          old_size \<leftarrow> block_size h old_block;
          let n = (if new_size < old_size then new_size else old_size);
          let m = memory (pal h);
          let h = h\<lparr>pal := (pal h)\<lparr>memory := (\<lambda>x. if new_block \<le> x \<and> x < new_block + n
                                                 then m (old_block + (x - new_block)) else m x)\<rparr>\<rparr>;
          h \<leftarrow> free old_block h;
          Some (h, new_block) }
        else Some (h, new_block) })"

end
