(* ===== verification/MallocProps.thy ===== *)
theory MallocProps
  imports Malloc
begin

text \<open>
  What the block allocator promises. The invariant and the set of the blocks handed out depend on the
  page allocator, the headers of the arenas, and for every descriptor on the size and the number of its
  blocks and on its free list; each step of \<open>malloc\<close> and \<open>free\<close> is a lemma about these.
\<close>

section \<open>Blocks\<close>

definition block_at :: "(nat \<Rightarrow> nat) \<Rightarrow> nat \<Rightarrow> addr \<Rightarrow> nat \<Rightarrow> addr" where
  "block_at B i a k = a + sizeof_arena + k * B i"

definition extent :: "arena \<Rightarrow> nat" where
  "extent ar = (case owner ar of None \<Rightarrow> free_cnt ar | Some i \<Rightarrow> 1)"

definition arena_pages :: "addr \<Rightarrow> arena \<Rightarrow> nat set" where
  "arena_pages a ar = {pg_no a..<pg_no a + extent ar}"

text \<open>The big blocks, the blocks of descriptor \<open>i\<close>, and those that are handed out.\<close>

definition owned :: "(addr \<Rightarrow> arena option) \<Rightarrow> nat option \<Rightarrow> addr set" where
  "owned A x = {a. map_option owner (A a) = Some x}"

definition big_blocks :: "(addr \<Rightarrow> arena option) \<Rightarrow> addr set" where
  "big_blocks A = (\<lambda>a. a + sizeof_arena) ` owned A None"

definition blocks_of :: "(addr \<Rightarrow> arena option) \<Rightarrow> (nat \<Rightarrow> nat) \<Rightarrow> (nat \<Rightarrow> nat) \<Rightarrow> nat \<Rightarrow> addr set" where
  "blocks_of A B N i = (\<Union>a\<in>owned A (Some i). block_at B i a ` {..<N i})"

definition live :: "(addr \<Rightarrow> arena option) \<Rightarrow> (nat \<Rightarrow> nat) \<Rightarrow> (nat \<Rightarrow> nat) \<Rightarrow> (nat \<Rightarrow> addr list) \<Rightarrow> addr set" where
  "live A B N F = big_blocks A \<union> (\<Union>i. blocks_of A B N i - set (F i))"

text \<open>The number of bytes of a block.\<close>

definition len_of :: "(addr \<Rightarrow> arena option) \<Rightarrow> (nat \<Rightarrow> nat) \<Rightarrow> addr \<Rightarrow> nat" where
  "len_of A B b =
     (case A (pg_round_down b) of None \<Rightarrow> 0
      | Some ar \<Rightarrow> (case owner ar of None \<Rightarrow> PGSIZE * free_cnt ar - sizeof_arena | Some i \<Rightarrow> B i))"

definition sizes_ok :: "nat \<Rightarrow> (nat \<Rightarrow> nat) \<Rightarrow> (nat \<Rightarrow> nat) \<Rightarrow> bool" where
  "sizes_ok n B N \<longleftrightarrow> (\<forall>i<n. 0 < B i \<and> 0 < N i \<and> sizeof_arena + N i * B i \<le> PGSIZE)"

definition arenas_ok :: "palloc \<Rightarrow> (addr \<Rightarrow> arena option) \<Rightarrow> bool" where
  "arenas_ok p A \<longleftrightarrow>
     palloc_ok p \<and>
     (\<forall>a ar. A a = Some ar \<longrightarrow> a \<noteq> NULL \<and> pg_ofs a = 0 \<and> 0 < extent ar \<and>
        arena_pages a ar \<subseteq> in_use p \<inter> pool_pages (kernel_pool p)) \<and>
     (\<forall>a ar a' ar'. A a = Some ar \<longrightarrow> A a' = Some ar' \<longrightarrow> a \<noteq> a' \<longrightarrow> arena_pages a ar \<inter> arena_pages a' ar' = {})"

definition lists_ok ::
  "(addr \<Rightarrow> arena option) \<Rightarrow> nat \<Rightarrow> (nat \<Rightarrow> nat) \<Rightarrow> (nat \<Rightarrow> nat) \<Rightarrow> (nat \<Rightarrow> addr list) \<Rightarrow> bool" where
  "lists_ok A n B N F \<longleftrightarrow>
     (\<forall>a ar i. A a = Some ar \<longrightarrow> owner ar = Some i \<longrightarrow>
        i < n \<and> free_cnt ar = length (filter (\<lambda>b. pg_round_down b = a) (F i))) \<and>
     (\<forall>i<n. distinct (F i) \<and> set (F i) \<subseteq> blocks_of A B N i)"

definition not_all_free :: "(addr \<Rightarrow> arena option) \<Rightarrow> (nat \<Rightarrow> nat) \<Rightarrow> addr set \<Rightarrow> bool" where
  "not_all_free A N X \<longleftrightarrow> (\<forall>a ar i. A a = Some ar \<longrightarrow> owner ar = Some i \<longrightarrow> a \<notin> X \<longrightarrow> free_cnt ar < N i)"

lemma block_at_page:
  assumes "sizes_ok n B N" "i < n" "k < N i" "pg_ofs a = 0"
  shows "pg_round_down (block_at B i a k) = a" "pg_ofs (block_at B i a k) = sizeof_arena + k * B i"
    "sizeof_arena + k * B i + B i \<le> PGSIZE"
proof -
  have s: "0 < B i" "sizeof_arena + N i * B i \<le> PGSIZE" using assms(1,2) by (simp_all add: sizes_ok_def)
  have "Suc k * B i \<le> N i * B i" using assms(3) by (intro mult_le_mono1) simp
  then show le: "sizeof_arena + k * B i + B i \<le> PGSIZE" using s(2) by simp
  then have "sizeof_arena + k * B i < PGSIZE" using s(1) by linarith
  then show ofs: "pg_ofs (block_at B i a k) = sizeof_arena + k * B i"
    using assms(4) by (simp add: block_at_def pg_ofs_def mod_add_eq [symmetric, of a] add.assoc)
  then show "pg_round_down (block_at B i a k) = a" by (simp add: pg_round_down_def block_at_def)
qed

lemma big_page: "pg_ofs a = 0 \<Longrightarrow> pg_round_down (a + sizeof_arena) = a \<and> pg_ofs (a + sizeof_arena) = sizeof_arena"
  by (simp add: pg_round_down_def pg_ofs_def sizeof_arena_def mod_add_eq [symmetric, of a])

lemma block_at_inj: "sizes_ok n B N \<Longrightarrow> i < n \<Longrightarrow> block_at B i a k = block_at B i a k' \<Longrightarrow> k = k'"
  by (auto simp: block_at_def sizes_ok_def)

lemma arena_ofs: "arenas_ok p A \<Longrightarrow> a \<in> owned A x \<Longrightarrow> pg_ofs a = 0"
  by (auto simp: arenas_ok_def owned_def)

lemma owner_less: "lists_ok A n B N F \<Longrightarrow> a \<in> owned A (Some i) \<Longrightarrow> i < n"
  by (auto simp: lists_ok_def owned_def)

lemma owned_unique: "a \<in> owned A x \<Longrightarrow> a \<in> owned A y \<Longrightarrow> x = y"
  by (auto simp: owned_def)

lemma owned_upd:
  "owned (A(a \<mapsto> ar)) x = (if owner ar = x then insert a (owned A x) else owned A x - {a})"
  "owned (A(a := None)) x = owned A x - {a}"
  "A a = None \<Longrightarrow> a \<notin> owned A x" "A a = Some ar \<Longrightarrow> a \<in> owned A (owner ar)"
  by (auto simp: owned_def)

text \<open>The page of a block is its arena.\<close>

lemma page_of_block:
  assumes "arenas_ok p A" "sizes_ok n B N" "i < n" "b \<in> blocks_of A B N i"
  shows "pg_round_down b \<in> owned A (Some i) \<and> (\<exists>k<N i. b = block_at B i (pg_round_down b) k)"
proof -
  obtain a k where b: "b = block_at B i a k" "a \<in> owned A (Some i)" "k < N i"
    using assms(4) by (auto simp: blocks_of_def)
  have "pg_round_down b = a"
    using block_at_page(1) [OF assms(2,3) b(3) arena_ofs [OF assms(1) b(2)]] b(1) by simp
  then show ?thesis using b by auto
qed

lemma page_of_big: "arenas_ok p A \<Longrightarrow> b \<in> big_blocks A \<Longrightarrow> pg_round_down b \<in> owned A None"
  using arena_ofs [of p A] big_page by (fastforce simp: big_blocks_def)

lemma block_not_big: "arenas_ok p A \<Longrightarrow> sizes_ok n B N \<Longrightarrow> i < n \<Longrightarrow> b \<in> blocks_of A B N i \<Longrightarrow> b \<notin> big_blocks A"
  using page_of_block page_of_big owned_unique by fastforce

lemma block_of_one:
  "arenas_ok p A \<Longrightarrow> sizes_ok n B N \<Longrightarrow> lists_ok A n B N F \<Longrightarrow> i < n \<Longrightarrow> b \<in> blocks_of A B N i \<Longrightarrow> b \<in> blocks_of A B N j \<Longrightarrow> j = i"
proof -
  assume h: "arenas_ok p A" "sizes_ok n B N" "lists_ok A n B N F" "i < n" "b \<in> blocks_of A B N i" "b \<in> blocks_of A B N j"
  obtain a where "a \<in> owned A (Some j)" using h(6) unfolding blocks_of_def by blast
  then have "j < n" by (rule owner_less [OF h(3)])
  then have "pg_round_down b \<in> owned A (Some i)" "pg_round_down b \<in> owned A (Some j)"
    using page_of_block [OF h(1,2,4,5)] page_of_block [OF h(1,2) _ h(6)] by auto
  then show "j = i" using owned_unique by fastforce
qed

text \<open>The free blocks of an arena.\<close>

definition free_in :: "addr \<Rightarrow> addr list \<Rightarrow> addr list" where
  "free_in a fl = filter (\<lambda>b. pg_round_down b = a) fl"

lemma free_in_blocks:
  assumes "arenas_ok p A" "sizes_ok n B N" "lists_ok A n B N F" "i < n"
  shows "set (free_in a (F i)) \<subseteq> block_at B i a ` {..<N i}" "length (free_in a (F i)) \<le> N i"
proof -
  have F: "distinct (F i)" "set (F i) \<subseteq> blocks_of A B N i" using assms(3,4) by (auto simp: lists_ok_def)
  show sub: "set (free_in a (F i)) \<subseteq> block_at B i a ` {..<N i}"
    using page_of_block [OF assms(1,2,4)] F(2) by (fastforce simp: free_in_def)
  have "length (free_in a (F i)) = card (set (free_in a (F i)))"
    unfolding free_in_def by (rule distinct_card [symmetric]) (simp add: F(1))
  also have "\<dots> \<le> card (block_at B i a ` {..<N i})" by (intro card_mono sub) simp
  also have "\<dots> \<le> N i" using card_image_le [of "{..<N i}" "block_at B i a"] by simp
  finally show "length (free_in a (F i)) \<le> N i" .
qed

lemma arena_count:
  "lists_ok A n B N F \<Longrightarrow> A a = Some ar \<Longrightarrow> owner ar = Some i \<Longrightarrow> i < n \<and> free_cnt ar = length (free_in a (F i))"
  by (auto simp: lists_ok_def free_in_def)

text \<open>Only the owners of the arenas matter for the blocks; changing a count leaves the rest.\<close>

lemma blocks_count:
  assumes "A a = Some ar"
  shows "blocks_of (A(a \<mapsto> ar\<lparr>free_cnt := m\<rparr>)) = blocks_of A" "big_blocks (A(a \<mapsto> ar\<lparr>free_cnt := m\<rparr>)) = big_blocks A"
proof -
  have "owned (A(a \<mapsto> ar\<lparr>free_cnt := m\<rparr>)) = owned A" using assms by (auto simp: owned_def fun_eq_iff)
  then show "blocks_of (A(a \<mapsto> ar\<lparr>free_cnt := m\<rparr>)) = blocks_of A" "big_blocks (A(a \<mapsto> ar\<lparr>free_cnt := m\<rparr>)) = big_blocks A"
    by (simp_all add: blocks_of_def big_blocks_def fun_eq_iff)
qed

lemma arenas_upd:
  assumes "arenas_ok p A" "A a = Some ar" "owner ar = Some i"
  shows "arenas_ok p (A(a \<mapsto> ar\<lparr>free_cnt := m\<rparr>))"
proof -
  have "arena_pages x (ar\<lparr>free_cnt := m\<rparr>) = arena_pages x ar" "extent (ar\<lparr>free_cnt := m\<rparr>) = extent ar" for x
    using assms(3) by (simp_all add: arena_pages_def extent_def)
  then show ?thesis using assms(1,2) unfolding arenas_ok_def by (auto split: if_splits)
qed

section \<open>Steps\<close>

text \<open>Replacing a free list, with the count of the one arena concerned.\<close>

lemma lists_upd:
  assumes ok: "lists_ok A n B N F" and a: "A a = Some ar" "owner ar = Some i" and i: "i < n"
    and fl: "distinct fl" "set fl \<subseteq> blocks_of A B N i"
    and cnt: "m = length (free_in a fl)" "\<And>x. x \<noteq> a \<Longrightarrow> length (free_in x fl) = length (free_in x (F i))"
  shows "lists_ok (A(a \<mapsto> ar\<lparr>free_cnt := m\<rparr>)) n B N (F(i := fl))"
proof -
  note bl = blocks_count(1) [of A a ar m, OF a(1)]
  have "j < n \<and> free_cnt ar2 = length (free_in a2 ((F(i := fl)) j))"
    if "(A(a \<mapsto> ar\<lparr>free_cnt := m\<rparr>)) a2 = Some ar2" "owner ar2 = Some j" for a2 ar2 j
  proof (cases "a2 = a")
    case True
    then show ?thesis using that a(2) i cnt(1) by auto
  next
    case False
    then have "A a2 = Some ar2" using that(1) by simp
    then show ?thesis using arena_count [OF ok _ that(2)] cnt(2) [OF False] by auto
  qed
  then show ?thesis using ok fl unfolding lists_ok_def bl free_in_def by auto
qed

lemma take_step:
  assumes ok: "arenas_ok p A" "sizes_ok n B N" "lists_ok A n B N F"
    and i: "i < n" "F i = b # bs" and strict: "not_all_free A N {pg_round_down b}"
  shows "\<exists>ar. A (pg_round_down b) = Some ar \<and> owner ar = Some i \<and> (\<exists>k<N i. b = block_at B i (pg_round_down b) k) \<and>
    arenas_ok p (A(pg_round_down b \<mapsto> ar\<lparr>free_cnt := free_cnt ar - 1\<rparr>)) \<and>
    lists_ok (A(pg_round_down b \<mapsto> ar\<lparr>free_cnt := free_cnt ar - 1\<rparr>)) n B N (F(i := bs)) \<and>
    not_all_free (A(pg_round_down b \<mapsto> ar\<lparr>free_cnt := free_cnt ar - 1\<rparr>)) N {} \<and>
    b \<notin> live A B N F \<and>
    live (A(pg_round_down b \<mapsto> ar\<lparr>free_cnt := free_cnt ar - 1\<rparr>)) B N (F(i := bs)) = insert b (live A B N F)"
proof -
  define a where "a = pg_round_down b"
  have "distinct (F i) \<and> set (F i) \<subseteq> blocks_of A B N i" using ok(3) i(1) unfolding lists_ok_def by blast
  then have F: "distinct (b # bs)" "set (b # bs) \<subseteq> blocks_of A B N i" by (simp_all only: i(2))
  then have bb: "b \<in> blocks_of A B N i" by simp
  obtain ar where ar: "A a = Some ar" "owner ar = Some i" "\<exists>k<N i. b = block_at B i a k"
    using page_of_block [OF ok(1,2) i(1) bb] by (auto simp: a_def owned_def)
  define A' where "A' = A(a \<mapsto> ar\<lparr>free_cnt := free_cnt ar - 1\<rparr>)"
  have cnt: "free_cnt ar = Suc (length (free_in a bs))"
    using arena_count [OF ok(3) ar(1,2)] i(2) by (simp add: free_in_def a_def)
  have "length (free_in a (F i)) \<le> N i" by (rule free_in_blocks(2) [OF ok i(1)])
  then have less: "free_cnt ar - 1 < N i" using cnt i(2) by (simp add: free_in_def a_def)
  have bl: "blocks_of A' = blocks_of A" "big_blocks A' = big_blocks A"
    unfolding A'_def by (rule blocks_count [of A a ar, OF ar(1)])+
  have lists: "lists_ok A' n B N (F(i := bs))"
    unfolding A'_def using F cnt i by (intro lists_upd [OF ok(3) ar(1,2)]) (auto simp: free_in_def a_def)
  have arenas: "arenas_ok p A'" unfolding A'_def by (rule arenas_upd [OF ok(1) ar(1,2)])
  have strict': "not_all_free A' N {}"
    using strict less ar(2) unfolding not_all_free_def A'_def a_def by auto
  have notlive: "b \<notin> live A B N F"
    using block_not_big [OF ok(1,2) i(1) bb] block_of_one [OF ok i(1) bb] i(2) by (auto simp: live_def)
  have "live A' B N (F(i := bs)) = insert b (live A B N F)"
    unfolding live_def bl using bb F(1) i(2) by (auto split: if_splits)
  then show ?thesis
    using ar lists arenas strict' notlive unfolding A'_def a_def by blast
qed

lemma put_step:
  assumes ok: "arenas_ok p A" "sizes_ok n B N" "lists_ok A n B N F"
    and b: "b \<in> blocks_of A B N i" "b \<notin> set (F i)" "i < n"
  shows "\<exists>ar. A (pg_round_down b) = Some ar \<and> owner ar = Some i \<and>
    arenas_ok p (A(pg_round_down b \<mapsto> ar\<lparr>free_cnt := free_cnt ar + 1\<rparr>)) \<and>
    lists_ok (A(pg_round_down b \<mapsto> ar\<lparr>free_cnt := free_cnt ar + 1\<rparr>)) n B N (F(i := b # F i)) \<and>
    live (A(pg_round_down b \<mapsto> ar\<lparr>free_cnt := free_cnt ar + 1\<rparr>)) B N (F(i := b # F i)) = live A B N F - {b}"
proof -
  define a where "a = pg_round_down b"
  obtain ar where ar: "A a = Some ar" "owner ar = Some i"
    using page_of_block [OF ok(1,2) b(3,1)] by (auto simp: a_def owned_def)
  define A' where "A' = A(a \<mapsto> ar\<lparr>free_cnt := free_cnt ar + 1\<rparr>)"
  have bl: "blocks_of A' = blocks_of A" "big_blocks A' = big_blocks A"
    unfolding A'_def by (rule blocks_count [of A a ar, OF ar(1)])+
  have "lists_ok A' n B N (F(i := b # F i))"
    unfolding A'_def using b ok(3) arena_count [OF ok(3) ar]
    by (intro lists_upd [OF ok(3) ar]) (auto simp: free_in_def a_def lists_ok_def)
  moreover have "arenas_ok p A'" unfolding A'_def by (rule arenas_upd [OF ok(1) ar])
  moreover have "live A' B N (F(i := b # F i)) = live A B N F - {b}"
    unfolding live_def bl using block_not_big [OF ok(1,2) b(3,1)] block_of_one [OF ok b(3,1)]
    by (auto split: if_splits)
  ultimately show ?thesis using ar unfolding A'_def a_def by blast
qed

lemma fresh_arena:
  assumes "arenas_ok p A" "palloc_get_multiple 0 cnt p = Some (p', a)" "a \<noteq> NULL" "extent ar = cnt" "0 < cnt"
  shows "A a = None \<and> arenas_ok p' (A(a \<mapsto> ar)) \<and> pg_ofs a = 0 \<and> memory p' = memory p"
proof -
  have ok: "palloc_ok p" using assms(1) by (simp add: arenas_ok_def)
  obtain bm where g: "palloc_ok p'" "pg_ofs a = 0" "bit_cnt bm = bit_cnt (used_map (kernel_pool p))"
    "kernel_pool p' = (kernel_pool p)\<lparr>used_map := bm\<rparr>"
    "{pg_no a..<pg_no a + cnt} \<subseteq> pool_pages (kernel_pool p)" "{pg_no a..<pg_no a + cnt} \<inter> in_use p = {}"
    "in_use p' = in_use p \<union> {pg_no a..<pg_no a + cnt}" "memory p' = memory p"
    using get_multiple_spec [OF ok assms(2)] assms(3) by (auto simp: get_pool_def)
  have pool: "pool_pages (kernel_pool p') = pool_pages (kernel_pool p)" using g(3,4) by (simp add: pool_pages_def)
  have pages: "arena_pages a ar = {pg_no a..<pg_no a + cnt}" using assms(4) by (simp add: arena_pages_def)
  have none: "A a = None"
  proof (rule ccontr)
    assume "A a \<noteq> None"
    then obtain ar' where "A a = Some ar'" by blast
    then have "0 < extent ar'" "arena_pages a ar' \<subseteq> in_use p" using assms(1) by (auto simp: arenas_ok_def)
    then have "pg_no a \<in> in_use p" by (auto simp: arena_pages_def)
    moreover have "pg_no a \<in> {pg_no a..<pg_no a + cnt}" using assms(5) by simp
    ultimately show False using g(6) by blast
  qed
  have old: "arena_pages x y \<subseteq> in_use p" if "A x = Some y" for x y using assms(1) that by (auto simp: arenas_ok_def)
  then have disj: "arena_pages x y \<inter> arena_pages a ar = {}" if "A x = Some y" for x y
    using that g(6) pages by blast
  have each: "x \<noteq> NULL \<and> pg_ofs x = 0 \<and> 0 < extent y \<and> arena_pages x y \<subseteq> in_use p' \<inter> pool_pages (kernel_pool p')"
    if "(A(a \<mapsto> ar)) x = Some y" for x y
  proof (cases "x = a")
    case True
    then show ?thesis using that assms(3-5) g(2,5,7) pool pages by auto
  next
    case False
    then have "A x = Some y" using that by simp
    then have "x \<noteq> NULL \<and> pg_ofs x = 0 \<and> 0 < extent y \<and> arena_pages x y \<subseteq> in_use p \<inter> pool_pages (kernel_pool p)"
      using assms(1) unfolding arenas_ok_def by blast
    then show ?thesis unfolding pool g(7) by blast
  qed
  have two: "arena_pages x y \<inter> arena_pages x' y' = {}"
    if "(A(a \<mapsto> ar)) x = Some y" "(A(a \<mapsto> ar)) x' = Some y'" "x \<noteq> x'" for x y x' y'
  proof -
    have "A x = Some y \<and> A x' = Some y' \<or> x = a \<and> y = ar \<and> A x' = Some y' \<or> x' = a \<and> y' = ar \<and> A x = Some y"
      using that by (auto split: if_splits)
    then show ?thesis
      using disj that(3) assms(1) unfolding arenas_ok_def by (metis inf_commute)
  qed
  have "arenas_ok p' (A(a \<mapsto> ar))"
    unfolding arenas_ok_def using g(1) each two by blast
  then show ?thesis using none g(2,8) by simp
qed

lemma release_arena:
  assumes "arenas_ok p A" "A a = Some ar"
  shows "\<exists>p'. palloc_free_multiple a (extent ar) p = Some p' \<and> arenas_ok p' (A(a := None)) \<and>
    memory p' = (\<lambda>x. if a \<le> x \<and> x < a + PGSIZE * extent ar then 0xcc else memory p x)"
proof -
  have a: "palloc_ok p" "a \<noteq> NULL" "pg_ofs a = 0" "0 < extent ar" "arena_pages a ar \<subseteq> in_use p"
    "arena_pages a ar \<subseteq> pool_pages (get_pool False p)"
    using assms by (auto simp: arenas_ok_def get_pool_def)
  obtain p' where p': "palloc_free_multiple a (extent ar) p = Some p'" "palloc_ok p'"
    "in_use p' = in_use p - arena_pages a ar" "pool_pages (get_pool False p') = pool_pages (get_pool False p)"
    "memory p' = (\<lambda>x. if a \<le> x \<and> x < a + PGSIZE * extent ar then 0xcc else memory p x)"
    using free_multiple_spec [OF a(1,3,2,4), of False] a(5,6) by (auto simp: arena_pages_def)
  have each: "x \<noteq> NULL \<and> pg_ofs x = 0 \<and> 0 < extent y \<and> arena_pages x y \<subseteq> in_use p' \<inter> pool_pages (kernel_pool p')"
    if "A x = Some y" "x \<noteq> a" for x y
  proof -
    have "arena_pages x y \<inter> arena_pages a ar = {}" using assms that unfolding arenas_ok_def by blast
    moreover have "x \<noteq> NULL \<and> pg_ofs x = 0 \<and> 0 < extent y \<and> arena_pages x y \<subseteq> in_use p \<inter> pool_pages (kernel_pool p)"
      using assms(1) that(1) unfolding arenas_ok_def by blast
    ultimately show ?thesis using p'(3,4) by (auto simp: get_pool_def)
  qed
  have "arenas_ok p' (A(a := None))"
    using p'(2) each assms(1) unfolding arenas_ok_def by (simp split: if_splits)
  then show ?thesis using p'(1,5) by blast
qed

lemma blocks_new:
  assumes "A a = None"
  shows "blocks_of (A(a \<mapsto> ar)) B N j = blocks_of A B N j \<union> (if owner ar = Some j then block_at B j a ` {..<N j} else {})"
    "big_blocks (A(a \<mapsto> ar)) = big_blocks A \<union> (if owner ar = None then {a + sizeof_arena} else {})"
  using owned_upd(3) [of A a, OF assms] by (auto simp: blocks_of_def big_blocks_def owned_upd)

lemma new_big_step:
  assumes "lists_ok A n B N F" "A a = None" "owner ar = None"
  shows "lists_ok (A(a \<mapsto> ar)) n B N F" "live (A(a \<mapsto> ar)) B N F = insert (a + sizeof_arena) (live A B N F)"
    "not_all_free A N X \<Longrightarrow> not_all_free (A(a \<mapsto> ar)) N X"
  using assms unfolding lists_ok_def live_def not_all_free_def by (auto simp: blocks_new split: if_splits)

lemma new_arena_step:
  assumes ok: "arenas_ok p A" "sizes_ok n B N" "lists_ok A n B N F" and "i < n" "A a = None" "pg_ofs a = 0"
    and strict: "not_all_free A N {}"
  defines "A' \<equiv> A(a \<mapsto> \<lparr>owner = Some i, free_cnt = N i\<rparr>)"
    and "F' \<equiv> F(i := F i @ map (block_at B i a) [0..<N i])"
  shows "lists_ok A' n B N F'" "live A' B N F' = live A B N F" "not_all_free A' N {a}"
proof -
  let ?new = "map (block_at B i a) [0..<N i]"
  have bl: "blocks_of A' B N j = blocks_of A B N j \<union> (if i = j then set ?new else {})" for j
    unfolding A'_def blocks_new(1) [where A = A, OF assms(5)] by (auto simp: atLeast0LessThan)
  have big: "big_blocks A' = big_blocks A" unfolding A'_def blocks_new(2) [where A = A, OF assms(5)] by simp
  have page: "pg_round_down b = a" if "b \<in> set ?new" for b
    using that block_at_page(1) [OF ok(2) assms(4) _ assms(6)] by auto
  have other: "pg_round_down b \<noteq> a" if "b \<in> blocks_of A B N i" for b
    using page_of_block [OF ok(1,2) assms(4) that] assms(5) by (auto simp: owned_def)
  have F: "distinct (F i)" "set (F i) \<subseteq> blocks_of A B N i" using ok(3) assms(4) by (auto simp: lists_ok_def)
  have dist: "distinct ?new"
    using block_at_inj [OF ok(2) assms(4)] by (auto simp: distinct_map inj_on_def)
  have cnt: "length (free_in a (F i @ ?new)) = N i"
  proof -
    have "free_in a (F i) = []" using other F(2) by (auto simp: free_in_def filter_empty_conv)
    moreover have "free_in a ?new = ?new" using page by (auto simp: free_in_def filter_id_conv)
    ultimately show ?thesis by (simp add: free_in_def)
  qed
  have cnt': "length (free_in x (F i @ ?new)) = length (free_in x (F i))" if "x \<noteq> a" for x
    using page that by (auto simp: free_in_def filter_empty_conv)
  have "j < n \<and> free_cnt y = length (free_in x (F' j))" if "A' x = Some y" "owner y = Some j" for x y j
  proof (cases "x = a")
    case True
    then show ?thesis using that assms(4) cnt by (auto simp: A'_def F'_def)
  next
    case False
    then have "A x = Some y" using that(1) by (simp add: A'_def)
    then show ?thesis using arena_count [OF ok(3) _ that(2)] cnt' [OF False] by (auto simp: F'_def)
  qed
  moreover have "distinct (F' j) \<and> set (F' j) \<subseteq> blocks_of A' B N j" if "j < n" for j
    using ok(3) that F dist other page unfolding lists_ok_def bl F'_def by auto
  ultimately show "lists_ok A' n B N F'" unfolding lists_ok_def free_in_def by blast
  show "live A' B N F' = live A B N F"
  proof -
    have "set ?new \<inter> blocks_of A B N i = {}" using other page by blast
    then have "blocks_of A' B N j - set (F' j) = blocks_of A B N j - set (F j)" for j
      unfolding bl F'_def by (auto simp del: set_map)
    then show ?thesis unfolding live_def big by simp
  qed
  show "not_all_free A' N {a}" using strict by (auto simp: not_all_free_def A'_def)
qed

lemma remove_blocks_filter:
  "distinct fl \<Longrightarrow> distinct bs \<Longrightarrow> set bs \<subseteq> set fl \<Longrightarrow> remove_blocks bs fl = Some (filter (\<lambda>b. b \<notin> set bs) fl)"
proof (induction bs arbitrary: fl)
  case (Cons b bs)
  have "remove_blocks bs (remove1 b fl) = Some (filter (\<lambda>x. x \<notin> set bs) (remove1 b fl))"
    using Cons.prems by (intro Cons.IH) auto
  moreover have "filter (\<lambda>x. x \<notin> set bs) (remove1 b fl) = filter (\<lambda>x. x \<notin> set (b # bs)) fl"
    using Cons.prems(1) by (simp add: distinct_remove1_removeAll removeAll_filter_not_eq) (rule filter_cong; auto)
  ultimately show ?case using Cons.prems(3) by simp
qed simp

lemma drop_step:
  assumes ok: "arenas_ok p A" "sizes_ok n B N" "lists_ok A n B N F"
    and a: "A a = Some ar" "owner ar = Some i" "free_cnt ar = N i"
  defines "fl \<equiv> filter (\<lambda>b. pg_round_down b \<noteq> a) (F i)"
  shows "remove_blocks (map (block_at B i a) [0..<N i]) (F i) = Some fl"
    "lists_ok (A(a := None)) n B N (F(i := fl))" "live (A(a := None)) B N (F(i := fl)) = live A B N F"
proof -
  let ?all = "map (block_at B i a) [0..<N i]"
  have i: "i < n" "length (free_in a (F i)) = N i" using arena_count [OF ok(3) a(1,2)] a(3) by auto
  have ofs: "pg_ofs a = 0" using ok(1) a(1) by (auto simp: arenas_ok_def)
  have F: "distinct (F i)" "set (F i) \<subseteq> blocks_of A B N i" using ok(3) i(1) by (auto simp: lists_ok_def)
  have dist: "distinct ?all"
    using block_at_inj [OF ok(2) i(1)] by (auto simp: distinct_map inj_on_def)
  have "card (set (free_in a (F i))) = card (set ?all)"
    using i(2) distinct_card [of "free_in a (F i)"] F(1) distinct_card [OF dist] by (simp add: free_in_def)
  moreover have "set (free_in a (F i)) \<subseteq> set ?all"
    using free_in_blocks(1) [OF ok i(1)] by (simp add: atLeast0LessThan)
  ultimately have all: "set (free_in a (F i)) = set ?all" by (intro card_subset_eq) auto
  have "b \<in> set ?all \<longleftrightarrow> pg_round_down b = a" if "b \<in> set (F i)" for b
    using all that unfolding free_in_def by auto
  then have "filter (\<lambda>b. b \<notin> set ?all) (F i) = fl" unfolding fl_def by (intro filter_cong) auto
  moreover have "set ?all \<subseteq> set (F i)" using all by (auto simp: free_in_def)
  ultimately show "remove_blocks ?all (F i) = Some fl" using remove_blocks_filter [OF F(1) dist] by simp
  have own: "owned (A(a := None)) x = owned A x - {a}" for x by (rule owned_upd(2))
  have a_own: "a \<in> owned A (Some i)" using a(1,2) owned_upd(4) [of A a] by simp
  have bl: "blocks_of (A(a := None)) B N j = {b \<in> blocks_of A B N j. pg_round_down b \<noteq> a}" for j
  proof -
    have "pg_round_down (block_at B j x k) = x" if "x \<in> owned A (Some j)" "k < N j" for x k
      by (rule block_at_page(1) [OF ok(2) owner_less [OF ok(3) that(1)] that(2) arena_ofs [OF ok(1) that(1)]])
    then show ?thesis unfolding blocks_of_def own by auto
  qed
  have stay: "pg_round_down b \<noteq> a" if h: "b \<in> blocks_of A B N j" "j \<noteq> i" for b j
  proof -
    obtain x where "x \<in> owned A (Some j)" using h(1) by (auto simp: blocks_of_def)
    then have "pg_round_down b \<in> owned A (Some j)"
      using page_of_block [OF ok(1,2) owner_less [OF ok(3)] h(1)] by blast
    then show ?thesis using owned_unique [OF a_own] h(2) by auto
  qed
  have big: "big_blocks (A(a := None)) = big_blocks A"
    using owned_unique [OF a_own, of None] by (auto simp: big_blocks_def own)
  show "lists_ok (A(a := None)) n B N (F(i := fl))"
  proof -
    have "j < n \<and> free_cnt y = length (free_in x ((F(i := fl)) j))"
      if "(A(a := None)) x = Some y" "owner y = Some j" for x y j
    proof -
      have x: "x \<noteq> a" "A x = Some y" using that(1) by (auto split: if_splits)
      have "free_in x fl = free_in x (F i)"
        unfolding fl_def free_in_def filter_filter by (rule filter_cong) (use x(1) in auto)
      then show ?thesis using arena_count [OF ok(3) x(2) that(2)] by simp
    qed
    moreover have "distinct ((F(i := fl)) j) \<and> set ((F(i := fl)) j) \<subseteq> blocks_of (A(a := None)) B N j" if "j < n" for j
    proof -
      have Fj: "distinct (F j)" "set (F j) \<subseteq> blocks_of A B N j" using ok(3) that by (simp_all add: lists_ok_def)
      show ?thesis
      proof (cases "j = i")
        case True
        then show ?thesis using Fj unfolding bl fl_def by auto
      next
        case False
        then show ?thesis using Fj stay [of _ j] unfolding bl by auto
      qed
    qed
    ultimately show ?thesis unfolding lists_ok_def free_in_def by blast
  qed
  have "blocks_of (A(a := None)) B N j - set ((F(i := fl)) j) = blocks_of A B N j - set (F j)" for j
  proof (cases "j = i")
    case True
    have "b \<in> set (F i)" if "b \<in> blocks_of A B N i" "pg_round_down b = a" for b
      using page_of_block [OF ok(1,2) i(1) that(1)] that(2) all by (auto simp: free_in_def)
    then show ?thesis unfolding True bl fl_def by auto
  next
    case False
    then show ?thesis using stay unfolding bl by auto
  qed
  then show "live (A(a := None)) B N (F(i := fl)) = live A B N F" unfolding live_def big by simp
qed

text \<open>Giving back a big block.\<close>

lemma drop_big_step:
  assumes ok: "arenas_ok p A" "sizes_ok n B N" "lists_ok A n B N F" and a: "A a = Some ar" "owner ar = None"
  shows "lists_ok (A(a := None)) n B N F" "live (A(a := None)) B N F = live A B N F - {a + sizeof_arena}"
proof -
  have own: "owned (A(a := None)) x = owned A x - {a}" for x by (rule owned_upd(2))
  have a_own: "a \<in> owned A None" using a owned_upd(4) [of A a] by simp
  have "owned (A(a := None)) (Some j) = owned A (Some j)" for j
    using owned_unique [OF a_own, of "Some j"] unfolding own by auto
  then have bl: "blocks_of (A(a := None)) = blocks_of A" by (simp add: blocks_of_def fun_eq_iff)
  show "lists_ok (A(a := None)) n B N F"
    using ok(3) unfolding lists_ok_def bl by (auto split: if_splits)
  have "a + sizeof_arena \<in> big_blocks A" using a_own by (auto simp: big_blocks_def)
  then have "a + sizeof_arena \<notin> blocks_of A B N j" for j
    using block_not_big [OF ok(1,2) owner_less [OF ok(3)]] by (fastforce simp: blocks_of_def)
  moreover have "big_blocks (A(a := None)) = big_blocks A - {a + sizeof_arena}"
    by (auto simp: big_blocks_def own)
  ultimately show "live (A(a := None)) B N F = live A B N F - {a + sizeof_arena}" unfolding live_def bl by blast
qed

section \<open>Regions\<close>

lemma live_cases:
  assumes ok: "arenas_ok p A" "sizes_ok n B N" "lists_ok A n B N F" and b: "b \<in> live A B N F"
  obtains (big) ar where "A (pg_round_down b) = Some ar" "owner ar = None" "b = pg_round_down b + sizeof_arena"
      "len_of A B b = PGSIZE * free_cnt ar - sizeof_arena"
  | (small) ar i k where "A (pg_round_down b) = Some ar" "owner ar = Some i" "i < n" "k < N i"
      "b = block_at B i (pg_round_down b) k" "b \<in> blocks_of A B N i" "b \<notin> set (F i)" "len_of A B b = B i"
proof (cases "b \<in> big_blocks A")
  case True
  then have "pg_round_down b \<in> owned A None" by (rule page_of_big [OF ok(1)])
  moreover from True this have "b = pg_round_down b + sizeof_arena"
    using big_page arena_ofs [OF ok(1)] by (fastforce simp: big_blocks_def)
  ultimately show ?thesis using big by (auto simp: owned_def len_of_def)
next
  case False
  then obtain i where i: "b \<in> blocks_of A B N i" "b \<notin> set (F i)" using b by (auto simp: live_def)
  then have "i < n" using owner_less [OF ok(3)] by (fastforce simp: blocks_of_def)
  then show ?thesis using page_of_block [OF ok(1,2) _ i(1)] i small by (auto simp: owned_def len_of_def)
qed

lemma region_in_arena:
  assumes ok: "arenas_ok p A" "sizes_ok n B N" "lists_ok A n B N F" and b: "b \<in> live A B N F"
  shows "\<exists>ar. A (pg_round_down b) = Some ar \<and> pg_round_down b \<le> b \<and>
    b + len_of A B b \<le> pg_round_down b + PGSIZE * extent ar"
  using ok b
proof (cases rule: live_cases)
  case (big ar)
  then have "0 < extent ar" using ok(1) unfolding arenas_ok_def by blast
  then show ?thesis using big by (auto simp: extent_def sizeof_arena_def)
next
  case (small ar i k)
  then have "pg_ofs (pg_round_down b) = 0" using ok(1) by (auto simp: arenas_ok_def)
  from block_at_page(3) [OF ok(2) small(3,4) this] show ?thesis
    using small by (auto simp: extent_def block_at_def)
qed

lemma page_offset_range:
  assumes "pg_ofs a = 0" "a \<le> x" "x < a + PGSIZE * e"
  shows "pg_no x \<in> {pg_no a..<pg_no a + e}"
proof -
  have a: "a = PGSIZE * (a div PGSIZE)" using assms(1) mult_div_mod_eq [of PGSIZE a] by (simp add: pg_ofs_def)
  have "a div PGSIZE \<le> x div PGSIZE" using assms(2) by (rule div_le_mono)
  moreover have "x < PGSIZE * (a div PGSIZE + e)" using assms(3) a by (simp add: algebra_simps)
  then have "x div PGSIZE < a div PGSIZE + e" by (simp add: less_mult_imp_div_less mult.commute)
  ultimately show ?thesis by (simp add: pg_no_def)
qed

text \<open>Different blocks have no byte in common.\<close>

lemma live_disjoint:
  assumes ok: "arenas_ok p A" "sizes_ok n B N" "lists_ok A n B N F"
    and b: "b \<in> live A B N F" and c: "c \<in> live A B N F" and "b \<noteq> c"
  shows "{b..<b + len_of A B b} \<inter> {c..<c + len_of A B c} = {}"
proof (cases "pg_round_down b = pg_round_down c")
  case True
  from ok b show ?thesis
  proof (cases rule: live_cases)
    case big_b: (big ar)
    from ok c show ?thesis
    proof (cases rule: live_cases)
      case (big ar)
      then show ?thesis using big_b True assms(6) by simp
    next
      case (small ar i k)
      then show ?thesis using big_b True by simp
    qed
  next
    case small_b: (small ar i k)
    from ok c show ?thesis
    proof (cases rule: live_cases)
      case (big ar)
      then show ?thesis using small_b True by simp
    next
      case (small ar' i' k')
      then have i: "i' = i" using small_b True by simp
      then have "k \<noteq> k'" using small_b(5) small(5) True assms(6) by auto
      then consider "Suc k \<le> k'" | "Suc k' \<le> k" by linarith
      then have "k * B i + B i \<le> k' * B i \<or> k' * B i + B i \<le> k * B i"
        by cases (use mult_le_mono1 [of "Suc k" k' "B i"] mult_le_mono1 [of "Suc k'" k "B i"] in auto)
      moreover have "b = pg_round_down c + sizeof_arena + k * B i" "c = pg_round_down c + sizeof_arena + k' * B i"
        using small_b(5) small(5) True i by (simp_all add: block_at_def)
      ultimately have "b + B i \<le> c \<or> c + B i \<le> b" by linarith
      then show ?thesis using small_b(8) small(8) i by auto
    qed
  qed
next
  case False
  obtain ar where ar: "A (pg_round_down b) = Some ar" "pg_round_down b \<le> b"
    "b + len_of A B b \<le> pg_round_down b + PGSIZE * extent ar"
    using region_in_arena [OF ok b] by blast
  obtain ar' where ar': "A (pg_round_down c) = Some ar'" "pg_round_down c \<le> c"
    "c + len_of A B c \<le> pg_round_down c + PGSIZE * extent ar'"
    using region_in_arena [OF ok c] by blast
  have "pg_ofs (pg_round_down b) = 0" "pg_ofs (pg_round_down c) = 0"
    "arena_pages (pg_round_down b) ar \<inter> arena_pages (pg_round_down c) ar' = {}"
    using ok(1) ar(1) ar'(1) False unfolding arenas_ok_def by blast+
  then have "x \<notin> {c..<c + len_of A B c}" if "x \<in> {b..<b + len_of A B b}" for x
    using that page_offset_range [of "pg_round_down b" x "extent ar"] page_offset_range [of "pg_round_down c" x "extent ar'"] ar ar'
    unfolding arena_pages_def by fastforce
  then show ?thesis by blast
qed

section \<open>The heap\<close>

definition sizes :: "heap \<Rightarrow> nat \<Rightarrow> nat" where "sizes h = (\<lambda>i. bsize (descs h ! i))"
definition counts :: "heap \<Rightarrow> nat \<Rightarrow> nat" where "counts h = (\<lambda>i. blocks_per_arena (descs h ! i))"
definition lists :: "heap \<Rightarrow> nat \<Rightarrow> addr list" where "lists h = (\<lambda>i. free_list (descs h ! i))"

lemmas view_defs = sizes_def counts_def lists_def

lemma view_other [simp]:
  "sizes (h\<lparr>arenas := A\<rparr>) = sizes h" "counts (h\<lparr>arenas := A\<rparr>) = counts h" "lists (h\<lparr>arenas := A\<rparr>) = lists h"
  "sizes (h\<lparr>pal := p\<rparr>) = sizes h" "counts (h\<lparr>pal := p\<rparr>) = counts h" "lists (h\<lparr>pal := p\<rparr>) = lists h"
  by (simp_all add: view_defs)

lemma view_desc:
  assumes "i < length (descs h)"
  shows "sizes (h\<lparr>descs := (descs h)[i := d]\<rparr>) = (sizes h)(i := bsize d)"
    "counts (h\<lparr>descs := (descs h)[i := d]\<rparr>) = (counts h)(i := blocks_per_arena d)"
    "lists (h\<lparr>descs := (descs h)[i := d]\<rparr>) = (lists h)(i := free_list d)"
  using assms by (simp_all add: view_defs fun_eq_iff nth_list_update)

lemma view_same [simp]:
  "(sizes h)(i := bsize (descs h ! i)) = sizes h" "(counts h)(i := blocks_per_arena (descs h ! i)) = counts h"
  "(lists h)(i := free_list (descs h ! i)) = lists h"
  by (simp_all add: view_defs fun_eq_iff)

definition heap_inv :: "heap \<Rightarrow> bool" where
  "heap_inv h \<longleftrightarrow> arenas_ok (pal h) (arenas h) \<and> sizes_ok (length (descs h)) (sizes h) (counts h) \<and>
     lists_ok (arenas h) (length (descs h)) (sizes h) (counts h) (lists h)"

definition heap_ok :: "heap \<Rightarrow> bool" where
  "heap_ok h \<longleftrightarrow> heap_inv h \<and> not_all_free (arenas h) (counts h) {} \<and> (\<forall>d\<in>set (descs h). \<not> desc_lock d)"

text \<open>The blocks that are handed out and the number of bytes of one.\<close>

definition live_blocks :: "heap \<Rightarrow> addr set" where
  "live_blocks h = live (arenas h) (sizes h) (counts h) (lists h)"

definition block_len :: "heap \<Rightarrow> addr \<Rightarrow> nat" where "block_len h b = len_of (arenas h) (sizes h) b"

lemma unlocked: "\<forall>d\<in>set ds. \<not> desc_lock d \<Longrightarrow> i < length ds \<Longrightarrow> \<forall>d\<in>set (ds[i := e\<lparr>desc_lock := False\<rparr>]). \<not> desc_lock d"
  by (auto dest!: set_update_subset_insert [THEN subsetD])

lemma find_desc_spec:
  "find_desc ds n k = Some i \<Longrightarrow> k \<le> i \<and> i < k + length ds \<and> n \<le> bsize (ds ! (i - k))"
proof (induction ds arbitrary: k)
  case (Cons d ds)
  then show ?case by (cases "bsize d \<ge> n") (auto dest!: Cons.IH simp: nth_Cons')
qed simp

lemma block_to_arena_live:
  assumes "heap_inv h" "b \<in> live_blocks h"
  shows "\<exists>ar. block_to_arena h b = Some (pg_round_down b, ar) \<and> arenas h (pg_round_down b) = Some ar"
proof -
  have ok: "arenas_ok (pal h) (arenas h)" "sizes_ok (length (descs h)) (sizes h) (counts h)"
    "lists_ok (arenas h) (length (descs h)) (sizes h) (counts h) (lists h)"
    using assms(1) by (simp_all add: heap_inv_def)
  have nz: "pg_round_down b \<noteq> NULL \<and> pg_ofs (pg_round_down b) = 0" if "arenas h (pg_round_down b) = Some ar" for ar
    using ok(1) that unfolding arenas_ok_def by blast
  from ok assms(2) [unfolded live_blocks_def] show ?thesis
  proof (cases rule: live_cases)
    case (big ar)
    then show ?thesis using nz [OF big(1)] big_page [of "pg_round_down b"]
      by (auto simp: block_to_arena_def)
  next
    case (small ar i k)
    have ofs: "pg_ofs b = sizeof_arena + k * sizes h i"
      using block_at_page(2) [OF ok(2) small(3,4), of "pg_round_down b"] nz [OF small(1)] small(5) by simp
    moreover have "pg_ofs b < 4096" by (simp add: pg_ofs_def)
    ultimately have "k * sizes h i < 2 ^ 64" by simp
    then have "(pg_ofs b + 2 ^ 64 - sizeof_arena) mod 2 ^ 64 = k * sizes h i"
      unfolding ofs by simp
    then show ?thesis using small nz [OF small(1)] by (auto simp: block_to_arena_def sizes_def)
  qed
qed

lemma block_to_arena_block:
  assumes "heap_inv h" "i < length (descs h)" "arenas h (pg_round_down b) = Some ar" "owner ar = Some i"
    "k < counts h i" "b = block_at (sizes h) i (pg_round_down b) k"
  shows "block_to_arena h b = Some (pg_round_down b, ar)"
proof -
  have nz: "pg_round_down b \<noteq> NULL" "pg_ofs (pg_round_down b) = 0"
    using assms(1,3) unfolding heap_inv_def arenas_ok_def by blast+
  have "sizes_ok (length (descs h)) (sizes h) (counts h)" using assms(1) by (simp add: heap_inv_def)
  then have ofs: "pg_ofs b = sizeof_arena + k * sizes h i"
    using block_at_page(2) [of "length (descs h)" "sizes h" "counts h" i k "pg_round_down b", OF _ assms(2,5) nz(2)] assms(6)
    by simp
  moreover have "pg_ofs b < 4096" by (simp add: pg_ofs_def)
  ultimately have "k * sizes h i < 2 ^ 64" by simp
  then have "(pg_ofs b + 2 ^ 64 - sizeof_arena) mod 2 ^ 64 = k * sizes h i" unfolding ofs by simp
  then show ?thesis using assms(3,4) nz(1) by (simp add: block_to_arena_def sizes_def)
qed

text \<open>What a call of \<open>malloc\<close> that returns \<open>p\<close> has done.\<close>

definition allocated :: "heap \<Rightarrow> nat \<Rightarrow> heap \<Rightarrow> addr \<Rightarrow> bool" where
  "allocated h n h' p \<longleftrightarrow>
     heap_ok h' \<and> sizes h' = sizes h \<and> counts h' = counts h \<and> length (descs h') = length (descs h) \<and>
     memory (pal h') = memory (pal h) \<and>
     (if p = NULL then live_blocks h' = live_blocks h
      else p \<notin> live_blocks h \<and> live_blocks h' = insert p (live_blocks h) \<and> n \<le> block_len h' p) \<and>
     (\<forall>q\<in>live_blocks h. block_len h' q = block_len h q)"

lemma len_of_cong:
  assumes "b \<in> live A B N F" "arenas_ok p A" "sizes_ok n B N" "lists_ok A n B N F"
    and "\<And>a ar. A a = Some ar \<Longrightarrow> \<exists>ar'. A' a = Some ar' \<and> owner ar' = owner ar \<and> (owner ar = None \<longrightarrow> free_cnt ar' = free_cnt ar)"
  shows "len_of A' B b = len_of A B b"
proof -
  obtain ar where ar: "A (pg_round_down b) = Some ar" using region_in_arena [OF assms(2-4,1)] by blast
  from assms(5) [OF this] obtain ar' where "A' (pg_round_down b) = Some ar'" "owner ar' = owner ar"
    "owner ar = None \<longrightarrow> free_cnt ar' = free_cnt ar" by (elim exE conjE)
  then show ?thesis using ar by (cases "owner ar") (simp_all add: len_of_def)
qed

lemma malloc_big_spec:
  assumes ok: "heap_ok h" and n: "0 < n" "n + sizeof_arena + PGSIZE - 1 < 2 ^ 64"
  shows "\<exists>h' p. malloc_big n h = Some (h', p) \<and> allocated h n h' p"
proof -
  have inv: "arenas_ok (pal h) (arenas h)" "sizes_ok (length (descs h)) (sizes h) (counts h)"
    "lists_ok (arenas h) (length (descs h)) (sizes h) (counts h) (lists h)" "not_all_free (arenas h) (counts h) {}"
    using ok by (simp_all add: heap_ok_def heap_inv_def)
  have p_ok: "palloc_ok (pal h)" using inv(1) by (simp add: arenas_ok_def)
  define c where "c = (n + sizeof_arena + PGSIZE - 1) mod 2 ^ 64 div PGSIZE"
  from mod_less [OF n(2)] have "c = DIV_ROUND_UP (n + sizeof_arena) PGSIZE" by (simp only: c_def DIV_ROUND_UP_def)
  then have big: "n + sizeof_arena \<le> PGSIZE * c" using DIV_ROUND_UP_le [of PGSIZE "n + sizeof_arena"] by (simp add: mult.commute)
  then have c0: "0 < c" using n(1) by (cases c) simp_all
  have "palloc_get_multiple 0 c (pal h) \<noteq> None"
    using get_multiple_returns [OF p_ok, of 0 c] by simp
  then obtain p a where g: "palloc_get_multiple 0 c (pal h) = Some (p, a)" by auto
  show ?thesis
  proof (cases "a = NULL")
    case True
    then have "p = pal h" using get_multiple_spec [OF p_ok g] by simp
    then have "malloc_big n h = Some (h, NULL)" using g True by (simp add: malloc_big_def c_def Let_def)
    then show ?thesis using ok by (auto simp: allocated_def)
  next
    case False
    define ar where "ar = \<lparr>owner = None, free_cnt = c\<rparr>"
    define h' where "h' = h\<lparr>pal := p, arenas := (arenas h)(a \<mapsto> ar)\<rparr>"
    have r: "malloc_big n h = Some (h', a + sizeof_arena)"
      using g False by (simp add: malloc_big_def c_def h'_def ar_def Let_def)
    have f: "arenas h a = None" "arenas_ok p ((arenas h)(a \<mapsto> ar))" "pg_ofs a = 0" "memory p = memory (pal h)"
      using fresh_arena [OF inv(1) g False, of ar] c0 by (simp_all add: ar_def extent_def)
    note s = new_big_step [OF inv(3) f(1), of ar]
    have "heap_ok h'"
      using ok s f(2) inv(4) by (auto simp: heap_ok_def heap_inv_def h'_def ar_def)
    moreover have "live_blocks h' = insert (a + sizeof_arena) (live_blocks h)"
      using s(2) by (simp add: live_blocks_def h'_def ar_def)
    moreover have "a + sizeof_arena \<notin> live_blocks h"
    proof
      assume "a + sizeof_arena \<in> live_blocks h"
      from region_in_arena [OF inv(1-3) this [unfolded live_blocks_def]] show False
        using big_page [OF f(3)] f(1) by auto
    qed
    moreover have "n \<le> block_len h' (a + sizeof_arena)"
      using big big_page [OF f(3)] by (simp add: block_len_def len_of_def h'_def ar_def)
    moreover have "block_len h' q = block_len h q" if "q \<in> live_blocks h" for q
      using len_of_cong [OF that [unfolded live_blocks_def] inv(1-3), of "(arenas h)(a \<mapsto> ar)"] f(1)
      by (fastforce simp: block_len_def h'_def)
    ultimately show ?thesis using r f(4) by (auto simp: allocated_def h'_def sizeof_arena_def)
  qed
qed

lemma block_to_arena_cong: "arenas g = arenas h \<Longrightarrow> sizes g = sizes h \<Longrightarrow> block_to_arena g b = block_to_arena h b"
proof -
  assume h: "arenas g = arenas h" "sizes g = sizes h"
  have "bsize (descs g ! i) = bsize (descs h ! i)" for i using fun_cong [OF h(2), of i] by (simp add: sizes_def)
  then show "block_to_arena g b = block_to_arena h b" unfolding block_to_arena_def h(1) by (simp only:)
qed

text \<open>The end of \<open>malloc\<close>: a block is taken from a free list that is not empty.\<close>

definition take_block :: "nat \<Rightarrow> addr \<Rightarrow> addr list \<Rightarrow> heap \<Rightarrow> (heap \<times> addr) option" where
  "take_block i b bs h = do {
     let h = h\<lparr>descs := (descs h)[i := (descs h ! i)\<lparr>free_list := bs\<rparr>]\<rparr>;
     (a, ar) \<leftarrow> block_to_arena h b;
     let h = h\<lparr>arenas := (arenas h)(a \<mapsto> ar\<lparr>free_cnt := free_cnt ar - 1\<rparr>)\<rparr>;
     h \<leftarrow> set_lock i False h;
     Some (h, b) }"

lemma take_block_spec:
  assumes inv: "heap_inv g" and i: "i < length (descs g)" "lists g i = b # bs" "desc_lock (descs g ! i)"
    and locks: "\<forall>j<length (descs g). j \<noteq> i \<longrightarrow> \<not> desc_lock (descs g ! j)"
    and strict: "not_all_free (arenas g) (counts g) {pg_round_down b}"
  shows "\<exists>g'. take_block i b bs g = Some (g', b) \<and> heap_ok g' \<and> sizes g' = sizes g \<and> counts g' = counts g \<and>
    length (descs g') = length (descs g) \<and> pal g' = pal g \<and> b \<notin> live_blocks g \<and>
    live_blocks g' = insert b (live_blocks g) \<and> block_len g' b = sizes g i \<and>
    (\<forall>q\<in>live_blocks g. block_len g' q = block_len g q) \<and> b \<noteq> NULL"
proof -
  have ok: "arenas_ok (pal g) (arenas g)" "sizes_ok (length (descs g)) (sizes g) (counts g)"
    "lists_ok (arenas g) (length (descs g)) (sizes g) (counts g) (lists g)"
    using inv by (simp_all add: heap_inv_def)
  define a where "a = pg_round_down b"
  obtain ar where ar: "arenas g a = Some ar" "owner ar = Some i" "\<exists>k<counts g i. b = block_at (sizes g) i a k"
    "arenas_ok (pal g) ((arenas g)(a \<mapsto> ar\<lparr>free_cnt := free_cnt ar - 1\<rparr>))"
    "lists_ok ((arenas g)(a \<mapsto> ar\<lparr>free_cnt := free_cnt ar - 1\<rparr>)) (length (descs g)) (sizes g) (counts g) ((lists g)(i := bs))"
    "not_all_free ((arenas g)(a \<mapsto> ar\<lparr>free_cnt := free_cnt ar - 1\<rparr>)) (counts g) {}"
    "b \<notin> live (arenas g) (sizes g) (counts g) (lists g)"
    "live ((arenas g)(a \<mapsto> ar\<lparr>free_cnt := free_cnt ar - 1\<rparr>)) (sizes g) (counts g) ((lists g)(i := bs)) =
      insert b (live (arenas g) (sizes g) (counts g) (lists g))"
    using take_step [OF ok i(1,2) strict] unfolding a_def by blast
  have bta: "block_to_arena g b = Some (a, ar)"
    using block_to_arena_block [OF inv i(1)] ar(1-3) unfolding a_def by blast
  define d where "d = (descs g ! i)\<lparr>free_list := bs, desc_lock := False\<rparr>"
  define g' where "g' = g\<lparr>descs := (descs g)[i := d], arenas := (arenas g)(a \<mapsto> ar\<lparr>free_cnt := free_cnt ar - 1\<rparr>)\<rparr>"
  have v: "sizes g' = sizes g" "counts g' = counts g" "lists g' = (lists g)(i := bs)"
    using view_desc [OF i(1), of d] unfolding g'_def by (simp_all add: d_def)
  have "block_to_arena (g\<lparr>descs := (descs g)[i := (descs g ! i)\<lparr>free_list := bs\<rparr>]\<rparr>) b = Some (a, ar)"
    using bta block_to_arena_cong [of "g\<lparr>descs := (descs g)[i := (descs g ! i)\<lparr>free_list := bs\<rparr>]\<rparr>" g] view_desc [OF i(1)]
    by simp
  then have "take_block i b bs g = Some (g', b)"
    using i(1,3) by (simp add: take_block_def set_lock_def g'_def d_def Let_def)
  moreover have "heap_ok g'"
  proof -
    have "\<not> desc_lock (descs g' ! j)" if "j < length (descs g)" for j
      using locks i(1) that by (cases "j = i") (simp_all add: g'_def d_def)
    then have "\<forall>e\<in>set (descs g'). \<not> desc_lock e" by (auto simp: in_set_conv_nth g'_def)
    then show ?thesis using ar(4-6) v ok(2) by (simp add: heap_ok_def heap_inv_def) (simp add: g'_def)
  qed
  moreover have "live_blocks g' = insert b (live_blocks g)" "b \<notin> live_blocks g"
    using ar(7,8) v by (simp_all add: live_blocks_def) (simp add: g'_def)
  moreover have "block_len g' b = sizes g i"
    using v(1) ar(2) by (simp add: block_len_def len_of_def g'_def a_def)
  moreover have "block_len g' q = block_len g q" if "q \<in> live_blocks g" for q
    using len_of_cong [OF that [unfolded live_blocks_def] ok, of "arenas g'"] ar(1,2) v(1)
    by (fastforce simp: block_len_def g'_def)
  moreover have "b \<noteq> NULL" using ar(3) by (auto simp: block_at_def sizeof_arena_def)
  ultimately show ?thesis using v(1,2) by (intro exI [of _ g']) (simp add: g'_def)
qed

lemma malloc_spec:
  assumes ok: "heap_ok h" and n: "n + sizeof_arena + PGSIZE - 1 < 2 ^ 64"
  shows "\<exists>h' p. malloc n h = Some (h', p) \<and> allocated h n h' p"
proof (cases "n = 0 \<or> find_desc (descs h) n 0 = None")
  case True
  show ?thesis
  proof (cases "n = 0")
    case True
    then show ?thesis using ok by (simp add: malloc_def allocated_def)
  next
    case False
    then show ?thesis using True malloc_big_spec [OF ok _ n] by (simp add: malloc_def)
  qed
next
  case False
  then obtain i where fd: "n \<noteq> 0" "find_desc (descs h) n 0 = Some i" by auto
  have i: "i < length (descs h)" "n \<le> sizes h i" using find_desc_spec [OF fd(2)] by (simp_all add: sizes_def)
  have inv: "heap_inv h" "not_all_free (arenas h) (counts h) {}" "\<forall>d\<in>set (descs h). \<not> desc_lock d"
    using ok by (simp_all add: heap_ok_def)
  then have ok4: "arenas_ok (pal h) (arenas h)" "sizes_ok (length (descs h)) (sizes h) (counts h)"
    "lists_ok (arenas h) (length (descs h)) (sizes h) (counts h) (lists h)"
    by (simp_all add: heap_inv_def)
  define h1 where "h1 = h\<lparr>descs := (descs h)[i := (descs h ! i)\<lparr>desc_lock := True\<rparr>]\<rparr>"
  have v1: "sizes h1 = sizes h" "counts h1 = counts h" "lists h1 = lists h" "arenas h1 = arenas h" "pal h1 = pal h"
    "length (descs h1) = length (descs h)"
    using view_desc [OF i(1), of "(descs h ! i)\<lparr>desc_lock := True\<rparr>"] by (simp_all add: h1_def)
  have l1: "desc_lock (descs h1 ! i)" "\<forall>j<length (descs h1). j \<noteq> i \<longrightarrow> \<not> desc_lock (descs h1 ! j)"
    using inv(3) i(1) by (auto simp: h1_def)
  have inv1: "heap_inv h1" "live_blocks h1 = live_blocks h" "block_len h1 = block_len h"
    using inv(1) by (simp_all add: heap_inv_def live_blocks_def block_len_def [abs_def] v1)
  have lock: "set_lock i True h = Some h1" using inv(3) i(1) by (simp add: set_lock_def h1_def)
  have fl1: "free_list (descs h1 ! i) = lists h i" using fun_cong [OF v1(3), of i] by (simp add: lists_def)
  have step: "malloc n h = do { g \<leftarrow> (if lists h i = [] then new_arena i h1 else Some h1);
      case free_list (descs g ! i) of [] \<Rightarrow> do { g \<leftarrow> set_lock i False g; Some (g, NULL) } | b # bs \<Rightarrow> take_block i b bs g }"
    using fd lock fl1 by (simp add: malloc_def take_block_def Let_def cong: list.case_cong)
  show ?thesis
  proof (cases "lists h i")
    case (Cons b bs)
    have l: "lists h1 i = b # bs" using Cons v1(3) by simp
    have nf: "not_all_free (arenas h1) (counts h1) {pg_round_down b}"
      using inv(2) v1 by (simp add: not_all_free_def)
    obtain g' where g': "take_block i b bs h1 = Some (g', b)" "heap_ok g'" "sizes g' = sizes h1" "counts g' = counts h1"
      "length (descs g') = length (descs h1)" "pal g' = pal h1" "b \<notin> live_blocks h1"
      "live_blocks g' = insert b (live_blocks h1)" "block_len g' b = sizes h1 i"
      "\<forall>q\<in>live_blocks h1. block_len g' q = block_len h1 q" "b \<noteq> NULL"
      using take_block_spec [OF inv1(1) _ l l1 nf] i(1) v1(6) by auto
    have "malloc n h = Some (g', b)" using step Cons l g'(1) by (simp add: lists_def)
    then show ?thesis using g' v1 inv1 i(2) by (auto simp: allocated_def)
  next
    case Nil
    have p_ok: "palloc_ok (pal h)" using ok4(1) by (simp add: arenas_ok_def)
    have "palloc_get_multiple 0 1 (pal h) \<noteq> None" using get_multiple_returns [OF p_ok, of 0 1] by simp
    then obtain p a where pa: "palloc_get_multiple 0 1 (pal h) = Some (p, a)" by auto
    show ?thesis
    proof (cases "a = NULL")
      case True
      then have "p = pal h" using get_multiple_spec [OF p_ok pa] by simp
      then have "new_arena i h1 = Some h1" using pa True v1(5) by (simp add: new_arena_def palloc_get_page_def Let_def)
      moreover have "free_list (descs h1 ! i) = []" using Nil fl1 by simp
      moreover have "set_lock i False h1 = Some h"
      proof -
        have "\<not> desc_lock (descs h ! i)" using inv(3) i(1) by simp
        then have "(descs h ! i)\<lparr>desc_lock := False\<rparr> = descs h ! i" by simp
        then show ?thesis using i(1) by (simp add: set_lock_def h1_def)
      qed
      ultimately have "malloc n h = Some (h, NULL)" using step Nil by simp
      then show ?thesis using ok by (auto simp: allocated_def)
    next
      case False
      define ar where "ar = \<lparr>owner = Some i, free_cnt = counts h i\<rparr>"
      define new where "new = map (block_at (sizes h) i a) [0..<counts h i]"
      define h2 where "h2 = h1\<lparr>pal := p, arenas := (arenas h)(a \<mapsto> ar),
          descs := (descs h1)[i := (descs h1 ! i)\<lparr>free_list := new\<rparr>]\<rparr>"
      have f: "arenas h a = None" "arenas_ok p ((arenas h)(a \<mapsto> ar))" "pg_ofs a = 0" "memory p = memory (pal h)"
        using fresh_arena [OF ok4(1) pa False, of ar] by (simp_all add: ar_def extent_def)
      have i1: "i < length (descs h1)" using i(1) v1(6) by simp
      have e1: "bsize (descs h1 ! i) = sizes h i" "blocks_per_arena (descs h1 ! i) = counts h i"
        using fun_cong [OF v1(1), of i] fun_cong [OF v1(2), of i] by (simp_all add: sizes_def counts_def)
      have h2': "h2 = (h1\<lparr>descs := (descs h1)[i := (descs h1 ! i)\<lparr>free_list := new\<rparr>]\<rparr>)\<lparr>pal := p, arenas := (arenas h)(a \<mapsto> ar)\<rparr>"
        unfolding h2_def by (cases h1) simp
      have v2: "sizes h2 = sizes h" "counts h2 = counts h" "lists h2 = (lists h)(i := new)"
        using view_desc [OF i1, of "(descs h1 ! i)\<lparr>free_list := new\<rparr>"] v1(1-3) e1 unfolding h2' by simp_all
      have "arena_blocks (descs h1 ! i) a = new"
        by (simp add: arena_blocks_def new_def arena_to_block_def block_at_def e1)
      moreover have "free_list (descs h1 ! i) = []" using Nil fl1 by simp
      ultimately have na: "new_arena i h1 = Some h2"
        using pa False v1(4,5) e1(2) by (simp add: new_arena_def palloc_get_page_def h2_def ar_def Let_def)
      note s = new_arena_step [OF ok4 i(1) f(1,3) inv(2), folded new_def]
      have inv2: "heap_inv h2" "live_blocks h2 = live_blocks h" "not_all_free (arenas h2) (counts h2) {a}"
        using s f(2) ok4(2) v2 v1(6) Nil
        by (simp_all add: heap_inv_def live_blocks_def) (simp_all add: h2_def ar_def)
      have "0 < counts h i" using ok4(2) i(1) by (simp add: sizes_ok_def)
      then obtain b bs where nb: "new = b # bs" "b = block_at (sizes h) i a 0"
        by (auto simp: new_def upt_conv_Cons)
      have page: "pg_round_down b = a"
        using block_at_page(1) [OF ok4(2) i(1) \<open>0 < counts h i\<close> f(3)] nb(2) by simp
      have i2: "i < length (descs h2)" "length (descs h2) = length (descs h)" using i(1) v1(6) by (simp_all add: h2_def)
      have l2: "lists h2 i = b # bs" using v2(3) nb(1) by simp
      have k2: "desc_lock (descs h2 ! i)" "\<forall>j<length (descs h2). j \<noteq> i \<longrightarrow> \<not> desc_lock (descs h2 ! j)"
        using l1 i1 by (auto simp: h2_def)
      obtain g' where g': "take_block i b bs h2 = Some (g', b)" "heap_ok g'" "sizes g' = sizes h2" "counts g' = counts h2"
        "length (descs g') = length (descs h2)" "pal g' = pal h2" "b \<notin> live_blocks h2"
        "live_blocks g' = insert b (live_blocks h2)" "block_len g' b = sizes h2 i"
        "\<forall>q\<in>live_blocks h2. block_len g' q = block_len h2 q" "b \<noteq> NULL"
        using take_block_spec [OF inv2(1) i2(1) l2 k2 inv2(3) [folded page]] by auto
      have "malloc n h = Some (g', b)" using step Nil na l2 g'(1) by (simp add: lists_def)
      moreover have "block_len h2 q = block_len h q" if "q \<in> live_blocks h" for q
        using len_of_cong [OF that [unfolded live_blocks_def] ok4, of "arenas h2"] f(1) v2(1)
        by (fastforce simp: block_len_def h2_def)
      ultimately show ?thesis using g' v2 inv2 i2 i(2) f(4) by (auto simp: allocated_def) (simp add: h2_def)
    qed
  qed
qed

text \<open>A region in one arena does not reach into another.\<close>

lemma region_apart:
  assumes "arenas_ok p A" "A a = Some ar" "A b = Some br" "b \<noteq> a" "b \<le> q" "q + n \<le> b + PGSIZE * extent br"
    and "q \<le> x" "x < q + n"
  shows "\<not> (a \<le> x \<and> x < a + PGSIZE * extent ar)"
proof
  assume x: "a \<le> x \<and> x < a + PGSIZE * extent ar"
  have "arena_pages b br \<inter> arena_pages a ar = {}" "pg_ofs a = 0" "pg_ofs b = 0"
    using assms(1-4) unfolding arenas_ok_def by blast+
  moreover have "b \<le> x" "x < b + PGSIZE * extent br" using assms(5-8) by linarith+
  ultimately show False
    using page_offset_range [of a x "extent ar"] page_offset_range [of b x "extent br"] x unfolding arena_pages_def by blast
qed

text \<open>What a call of \<open>free\<close> has done.\<close>

definition released :: "heap \<Rightarrow> addr \<Rightarrow> heap \<Rightarrow> bool" where
  "released h p h' \<longleftrightarrow>
     heap_ok h' \<and> live_blocks h' = live_blocks h - {p} \<and>
     (\<forall>q\<in>live_blocks h'. block_len h' q = block_len h q \<and>
        (\<forall>x. q \<le> x \<and> x < q + block_len h q \<longrightarrow> memory (pal h') x = memory (pal h) x))"

lemma free_spec:
  assumes ok: "heap_ok h" and p: "p \<in> live_blocks h"
  shows "\<exists>h'. free p h = Some h' \<and> released h p h'"
proof -
  have inv: "heap_inv h" "not_all_free (arenas h) (counts h) {}" "\<forall>d\<in>set (descs h). \<not> desc_lock d"
    using ok by (simp_all add: heap_ok_def)
  then have ok4: "arenas_ok (pal h) (arenas h)" "sizes_ok (length (descs h)) (sizes h) (counts h)"
    "lists_ok (arenas h) (length (descs h)) (sizes h) (counts h) (lists h)"
    by (simp_all add: heap_inv_def)
  note disj = live_disjoint [OF ok4, folded live_blocks_def block_len_def]
  define a where "a = pg_round_down p"
  have nz: "p \<noteq> NULL" using region_in_arena [OF ok4 p [unfolded live_blocks_def]] ok4(1) unfolding arenas_ok_def
    by (metis le_zero_eq)
  obtain ar where bta: "block_to_arena h p = Some (a, ar)" "arenas h a = Some ar"
    using block_to_arena_live [OF inv(1) p] unfolding a_def by blast
  from ok4 p [unfolded live_blocks_def] show ?thesis
  proof (cases rule: live_cases)
    case (big ar')
    then have ar: "owner ar = None" "p = a + sizeof_arena" using bta(2) by (simp_all add: a_def)
    then have ext: "extent ar = free_cnt ar" by (simp add: extent_def)
    obtain pl where pl: "palloc_free_multiple a (free_cnt ar) (pal h) = Some pl" "arenas_ok pl ((arenas h)(a := None))"
      "memory pl = (\<lambda>x. if a \<le> x \<and> x < a + PGSIZE * free_cnt ar then 0xcc else memory (pal h) x)"
      using release_arena [OF ok4(1) bta(2)] ext by auto
    define h' where "h' = h\<lparr>pal := pl, arenas := (arenas h)(a := None)\<rparr>"
    have r: "free p h = Some h'" using nz bta(1) ar(1) pl(1) by (simp add: free_def h'_def)
    note s = drop_big_step [OF ok4 bta(2) ar(1)]
    have l: "live_blocks h' = live_blocks h - {p}" using s(2) ar(2) by (simp add: live_blocks_def h'_def)
    have ok': "heap_ok h'" using ok s(1) pl(2) ok4(2) inv(2) by (auto simp: heap_ok_def heap_inv_def h'_def not_all_free_def)
    have "block_len h' q = block_len h q \<and> (\<forall>x. q \<le> x \<and> x < q + block_len h q \<longrightarrow> memory (pal h') x = memory (pal h) x)"
      if q: "q \<in> live_blocks h'" for q
    proof -
      have ok4': "arenas_ok (pal h') (arenas h')" "sizes_ok (length (descs h')) (sizes h') (counts h')"
        "lists_ok (arenas h') (length (descs h')) (sizes h') (counts h') (lists h')"
        using ok' by (simp_all add: heap_ok_def heap_inv_def)
      obtain ar2 where ar2: "arenas h' (pg_round_down q) = Some ar2" "pg_round_down q \<le> q"
        "q + block_len h' q \<le> pg_round_down q + PGSIZE * extent ar2"
        using region_in_arena [OF ok4' q [unfolded live_blocks_def]] by (auto simp: block_len_def)
      then have ne: "pg_round_down q \<noteq> a" "arenas h (pg_round_down q) = Some ar2" by (auto simp: h'_def split: if_splits)
      then have len: "block_len h' q = block_len h q" by (simp add: block_len_def len_of_def h'_def)
      have "\<not> (a \<le> x \<and> x < a + PGSIZE * extent ar)" if "q \<le> x" "x < q + block_len h q" for x
        using region_apart [OF ok4(1) bta(2) ne(2,1) ar2(2,3)] that len by simp
      then show ?thesis using len pl(3) ext by (auto simp: h'_def)
    qed
    then show ?thesis using r l ok' by (auto simp: released_def)
  next
    case (small ar' i k)
    then have ar: "owner ar = Some i" using bta(2) by (simp add: a_def)
    note i = small(3)
    define m where "m = memset_block p 0xcc (bsize (descs h ! i)) h"
    have m: "sizes m = sizes h" "counts m = counts h" "lists m = lists h" "arenas m = arenas h" "descs m = descs h"
      by (simp_all add: m_def memset_block_def)
    have "sizes h i = block_len h p" using small(8) by (simp add: block_len_def)
    then have mem: "memory (pal m) = (\<lambda>x. if p \<le> x \<and> x < p + block_len h p then 0xcc else memory (pal h) x)"
      by (simp add: m_def memset_block_def memset_range_def sizes_def)
    have pm: "arenas_ok (pal m) A = arenas_ok (pal h) A" for A
      by (simp add: m_def memset_block_def memset_range_def arenas_ok_def palloc_ok_def in_use_def)
    obtain ar1 where "arenas h a = Some ar1"
      "arenas_ok (pal h) ((arenas h)(a \<mapsto> ar1\<lparr>free_cnt := free_cnt ar1 + 1\<rparr>))"
      "lists_ok ((arenas h)(a \<mapsto> ar1\<lparr>free_cnt := free_cnt ar1 + 1\<rparr>)) (length (descs h)) (sizes h) (counts h) ((lists h)(i := p # lists h i))"
      "live ((arenas h)(a \<mapsto> ar1\<lparr>free_cnt := free_cnt ar1 + 1\<rparr>)) (sizes h) (counts h) ((lists h)(i := p # lists h i)) =
        live (arenas h) (sizes h) (counts h) (lists h) - {p}"
      using put_step [OF ok4 small(6,7,3)] unfolding a_def by blast
    then have s: "arenas_ok (pal h) ((arenas h)(a \<mapsto> ar\<lparr>free_cnt := free_cnt ar + 1\<rparr>))"
      "lists_ok ((arenas h)(a \<mapsto> ar\<lparr>free_cnt := free_cnt ar + 1\<rparr>)) (length (descs h)) (sizes h) (counts h) ((lists h)(i := p # lists h i))"
      "live ((arenas h)(a \<mapsto> ar\<lparr>free_cnt := free_cnt ar + 1\<rparr>)) (sizes h) (counts h) ((lists h)(i := p # lists h i)) =
        live_blocks h - {p}"
      using bta(2) by (simp_all add: live_blocks_def)
    define A1 where "A1 = (arenas h)(a \<mapsto> ar\<lparr>free_cnt := free_cnt ar + 1\<rparr>)"
    have strict: "free_cnt ar < counts h i" using inv(2) bta(2) ar by (auto simp: not_all_free_def)
    have unl: "\<not> desc_lock (descs h ! j)" if "j < length (descs h)" for j using inv(3) that by simp
    show ?thesis
    proof (cases "free_cnt ar + 1 \<ge> counts h i")
      case False
      define d where "d = (descs h ! i)\<lparr>free_list := p # lists h i, desc_lock := False\<rparr>"
      define h' where "h' = m\<lparr>descs := (descs m)[i := d], arenas := A1\<rparr>"
      have v: "sizes h' = sizes h" "counts h' = counts h" "lists h' = (lists h)(i := p # lists h i)"
        "pal h' = pal m" "length (descs h') = length (descs h)" "arenas h' = A1"
        using view_desc [of i m d] i m by (simp_all add: h'_def) (simp_all add: d_def sizes_def counts_def fun_eq_iff)
      have r: "free p h = Some h'"
        using nz bta(1) ar i unl [OF i] False
        by (cases h) (simp add: free_def m_def set_lock_def memset_block_def Let_def h'_def d_def A1_def lists_def counts_def)
      have "\<forall>e\<in>set (descs h'). \<not> desc_lock e"
        unfolding h'_def using m(5) inv(3) i by (simp add: d_def unlocked)
      moreover have "not_all_free A1 (counts h) {}"
        using inv(2) False ar by (auto simp: not_all_free_def A1_def)
      ultimately have ok': "heap_ok h'"
        using s(1,2) ok4(2) by (simp add: heap_ok_def heap_inv_def v pm A1_def)
      have l: "live_blocks h' = live_blocks h - {p}" using s(3) by (simp add: live_blocks_def v A1_def)
      have "block_len h' q = block_len h q \<and> (\<forall>x. q \<le> x \<and> x < q + block_len h q \<longrightarrow> memory (pal h') x = memory (pal h) x)"
        if q: "q \<in> live_blocks h'" for q
      proof -
        have q': "q \<in> live_blocks h" "q \<noteq> p" using q l by auto
        have "\<exists>y'. A1 x = Some y' \<and> owner y' = owner y \<and> (owner y = None \<longrightarrow> free_cnt y' = free_cnt y)"
          if "arenas h x = Some y" for x y
          using that bta(2) ar by (cases "x = a") (simp_all add: A1_def)
        then have "block_len h' q = block_len h q"
          unfolding block_len_def v by (rule len_of_cong [OF q'(1) [unfolded live_blocks_def] ok4])
        moreover have "\<not> (p \<le> x \<and> x < p + block_len h p)" if "q \<le> x" "x < q + block_len h q" for x
          using disj [OF q'(1) p q'(2)] that by auto
        ultimately show ?thesis using mem v(4) by auto
      qed
      then show ?thesis using r l ok' by (auto simp: released_def)
    next
      case True
      then have full: "free_cnt ar + 1 = counts h i" using strict by simp
      define F1 where "F1 = (lists h)(i := p # lists h i)"
      have a1: "A1 a = Some (ar\<lparr>free_cnt := free_cnt ar + 1\<rparr>)" "owner (ar\<lparr>free_cnt := free_cnt ar + 1\<rparr>) = Some i"
        "free_cnt (ar\<lparr>free_cnt := free_cnt ar + 1\<rparr>) = counts h i" "A1(a := None) = (arenas h)(a := None)"
        using ar full by (simp_all add: A1_def)
      have arenas1: "arenas_ok (pal m) A1" using s(1) by (simp add: pm A1_def)
      define fl where "fl = filter (\<lambda>b. pg_round_down b \<noteq> a) (F1 i)"
      note ds = drop_step [OF s(1) [folded A1_def] ok4(2) s(2) [folded A1_def F1_def] a1(1-3), folded fl_def, unfolded a1(4)]
      have ext: "extent (ar\<lparr>free_cnt := free_cnt ar + 1\<rparr>) = 1" using ar by (simp add: extent_def)
      obtain pl where pl: "palloc_free_multiple a 1 (pal m) = Some pl" "arenas_ok pl ((arenas h)(a := None))"
        "memory pl = (\<lambda>x. if a \<le> x \<and> x < a + PGSIZE then 0xcc else memory (pal m) x)"
        using release_arena [OF arenas1 a1(1)] unfolding ext a1(4) by auto
      define d where "d = (descs h ! i)\<lparr>free_list := fl, desc_lock := False\<rparr>"
      define h' where "h' = h\<lparr>descs := (descs h)[i := d], arenas := (arenas h)(a := None), pal := pl\<rparr>"
      have v: "sizes h' = sizes h" "counts h' = counts h" "lists h' = (lists h)(i := fl)"
        using view_desc [OF i, of d] unfolding h'_def by (simp_all add: d_def)
      have blocks: "arena_blocks (descs h ! i) a = map (block_at (sizes h) i a) [0..<counts h i]"
        by (simp add: arena_blocks_def arena_to_block_def block_at_def sizes_def counts_def)
      have rm: "remove_blocks (arena_blocks (descs h ! i) a) (p # free_list (descs h ! i)) = Some fl"
        unfolding blocks using ds(1) by (simp add: F1_def lists_def)
      have blk: "arena_blocks ((descs h ! i)\<lparr>desc_lock := x, free_list := y\<rparr>) a = arena_blocks (descs h ! i) a" for x y
        by (simp add: arena_blocks_def arena_to_block_def)
      define m1 where "m1 = m\<lparr>descs := (descs h)[i := (descs h ! i)\<lparr>desc_lock := True\<rparr>]\<rparr>"
      have m1: "set_lock i True m = Some m1" "descs m1 ! i = (descs h ! i)\<lparr>desc_lock := True\<rparr>" "pal m1 = pal m"
        using unl [OF i] i by (simp_all add: set_lock_def m(5) m1_def)
      have pl1: "palloc_free_page a (pal m) = Some pl" using pl(1) by (simp add: palloc_free_page_def)
      have cnt: "blocks_per_arena (descs h ! i) = free_cnt ar + 1" using full by (simp add: counts_def)
      have "free p h = set_lock i False (m1\<lparr>descs := (descs m1)[i := (descs h ! i)\<lparr>desc_lock := True, free_list := fl\<rparr>],
          arenas := (arenas m1)(a := None), pal := pl\<rparr>)"
        using nz bta(1) ar by (simp add: free_def Let_def m_def [symmetric] m1 blk rm pl1 cnt)
      then have r: "free p h = Some h'"
        using i by (cases h) (simp add: set_lock_def m1_def m_def memset_block_def h'_def d_def)
      have "\<forall>e\<in>set (descs h'). \<not> desc_lock e"
        unfolding h'_def using inv(3) i by (simp add: d_def unlocked)
      moreover have "not_all_free ((arenas h)(a := None)) (counts h) {}"
        using inv(2) by (auto simp: not_all_free_def)
      ultimately have ok': "heap_ok h'"
        using ds(2) pl(2) ok4(2) by (simp add: heap_ok_def heap_inv_def v F1_def) (simp add: h'_def)
      have l: "live_blocks h' = live_blocks h - {p}"
        using ds(3) s(3) [folded A1_def F1_def] by (simp add: live_blocks_def v F1_def) (simp add: h'_def)
      have "block_len h' q = block_len h q \<and> (\<forall>x. q \<le> x \<and> x < q + block_len h q \<longrightarrow> memory (pal h') x = memory (pal h) x)"
        if q: "q \<in> live_blocks h'" for q
      proof -
        have ok4': "arenas_ok (pal h') (arenas h')" "sizes_ok (length (descs h')) (sizes h') (counts h')"
          "lists_ok (arenas h') (length (descs h')) (sizes h') (counts h') (lists h')"
          using ok' by (simp_all add: heap_ok_def heap_inv_def)
        obtain ar2 where ar2: "arenas h' (pg_round_down q) = Some ar2" "pg_round_down q \<le> q"
          "q + block_len h' q \<le> pg_round_down q + PGSIZE * extent ar2"
          using region_in_arena [OF ok4' q [unfolded live_blocks_def]] by (auto simp: block_len_def)
        then have ne: "pg_round_down q \<noteq> a" "arenas h (pg_round_down q) = Some ar2" by (auto simp: h'_def split: if_splits)
        then have len: "block_len h' q = block_len h q" using v(1) by (simp add: block_len_def len_of_def) (simp add: h'_def)
        have q': "q \<in> live_blocks h" "q \<noteq> p" using q l by auto
        have "extent ar = 1" using ar by (simp add: extent_def)
        then have "\<not> (a \<le> x \<and> x < a + PGSIZE)" if "q \<le> x" "x < q + block_len h q" for x
          using region_apart [OF ok4(1) bta(2) ne(2,1) ar2(2,3)] that len by simp
        moreover have "\<not> (p \<le> x \<and> x < p + block_len h p)" if "q \<le> x" "x < q + block_len h q" for x
          using disj [OF q'(1) p q'(2)] that by auto
        ultimately show ?thesis using len pl(3) mem by (auto simp: h'_def)
      qed
      then show ?thesis using r l ok' by (auto simp: released_def)
    qed
  qed
qed

section \<open>Properties\<close>

lemma malloc_init_descs:
  "malloc_init p = Some \<lparr>descs = map (\<lambda>b. \<lparr>bsize = b, blocks_per_arena = (PGSIZE - sizeof_arena) div b,
      free_list = [], desc_lock = False\<rparr>) [16, 32, 64, 128, 256, 512, 1024], arenas = (\<lambda>_. None), pal = p\<rparr>"
  by (simp add: malloc_init_def malloc_init_loop.simps)

lemma malloc_init_ok:
  assumes "palloc_ok p"
  shows "\<exists>h. malloc_init p = Some h \<and> heap_ok h \<and> live_blocks h = {} \<and> pal h = p"
proof -
  define h where "h = the (malloc_init p)"
  have h: "malloc_init p = Some h" by (simp add: h_def malloc_init_descs)
  have e: "arenas h = (\<lambda>_. None)" "pal h = p" "\<forall>d\<in>set (descs h). free_list d = [] \<and> \<not> desc_lock d"
    "\<forall>d\<in>set (descs h). 0 < bsize d \<and> 0 < blocks_per_arena d \<and> sizeof_arena + blocks_per_arena d * bsize d \<le> PGSIZE"
    by (simp_all add: h_def malloc_init_descs sizeof_arena_def)
  have "sizes_ok (length (descs h)) (sizes h) (counts h)"
    using e(4) by (simp add: sizes_ok_def sizes_def counts_def)
  moreover have "lists_ok (arenas h) (length (descs h)) (sizes h) (counts h) (lists h)"
    using e(3) by (simp add: lists_ok_def e(1) lists_def)
  moreover have "arenas_ok (pal h) (arenas h)" using assms by (simp add: arenas_ok_def e)
  moreover have "live_blocks h = {}"
    by (simp add: live_blocks_def live_def big_blocks_def blocks_of_def owned_def e(1))
  ultimately show ?thesis using h e(1-3) by (simp add: heap_ok_def heap_inv_def not_all_free_def)
qed

text \<open> C11: For a request of at most 2^64 - 4120 bytes, so that adding the header of an arena and rounding
  up to pages does not overflow (\<open>malloc_overflow\<close> shows what a larger one does): \<open>malloc\<close> never
  fails other than by returning a null pointer, and a block it returns is new, at least as long as
  requested and apart from every other block that is handed out, whose lengths and contents stay;
  \<open>free\<close> of it returns, and afterwards exactly the former blocks are handed out, with their contents. \<close>

theorem malloc_free:
  assumes "heap_ok h" "n + sizeof_arena + PGSIZE - 1 < 2 ^ 64"
  shows "\<exists>h' p. malloc n h = Some (h', p) \<and> heap_ok h' \<and> memory (pal h') = memory (pal h) \<and>
    (if p = NULL then live_blocks h' = live_blocks h
     else p \<notin> live_blocks h \<and> live_blocks h' = insert p (live_blocks h) \<and> n \<le> block_len h' p \<and>
       (\<forall>q\<in>live_blocks h. block_len h' q = block_len h q \<and>
          {p..<p + block_len h' p} \<inter> {q..<q + block_len h' q} = {}) \<and>
       (\<exists>h''. free p h' = Some h'' \<and> released h' p h'' \<and> live_blocks h'' = live_blocks h))"
proof -
  obtain h' p where m: "malloc n h = Some (h', p)" "allocated h n h' p" using malloc_spec [OF assms] by blast
  have inv: "heap_inv h'" using m(2) by (simp add: allocated_def heap_ok_def)
  show ?thesis
  proof (cases "p = NULL")
    case True
    then show ?thesis using m by (auto simp: allocated_def)
  next
    case False
    then have p: "p \<in> live_blocks h'" "p \<notin> live_blocks h" "live_blocks h' = insert p (live_blocks h)"
      using m(2) by (auto simp: allocated_def)
    have "{p..<p + block_len h' p} \<inter> {q..<q + block_len h' q} = {}" if "q \<in> live_blocks h" for q
    proof -
      have "p \<noteq> q" "q \<in> live_blocks h'" using p that by auto
      then show ?thesis
        using live_disjoint [of "pal h'" "arenas h'" "length (descs h')" "sizes h'" "counts h'" "lists h'" p q] inv p(1)
        unfolding heap_inv_def live_blocks_def block_len_def by blast
    qed
    moreover obtain h'' where "free p h' = Some h''" "released h' p h''"
      using free_spec [OF _ p(1)] m(2) by (auto simp: allocated_def)
    moreover from this(2) have "live_blocks h'' = live_blocks h" using p(2,3) by (auto simp: released_def)
    ultimately show ?thesis using False m by (auto simp: allocated_def)
  qed
qed

lemma malloc_free_witness:
  "\<exists>h h' p. malloc_init sample_palloc = Some h \<and> malloc 100 h = Some (h', p) \<and> heap_ok h'"
proof -
  obtain h where "malloc_init sample_palloc = Some h" "heap_ok h"
    using malloc_init_ok [OF sample_palloc_ok] by blast
  then show ?thesis using malloc_free [of h 100] by (auto simp: sizeof_arena_def)
qed

text \<open>The sum of the size and the header is not checked: a request close to the largest number is
  answered with one page.\<close>

lemma malloc_overflow:
  assumes "\<forall>d\<in>set (descs h). bsize d < 2 ^ 63" "palloc_get_multiple 0 1 (pal h) = Some (p, a)" "a \<noteq> NULL"
  shows "\<exists>h'. malloc (2 ^ 64 - 23) h = Some (h', a + 24) \<and> arenas h' a = Some \<lparr>owner = None, free_cnt = 1\<rparr>"
proof -
  have "\<forall>d\<in>set ds. bsize d < 2 ^ 63 \<Longrightarrow> find_desc ds (2 ^ 64 - 23) k = None" for ds k
    by (induction ds arbitrary: k) auto
  then have "malloc (2 ^ 64 - 23) h = malloc_big (2 ^ 64 - 23) h" using assms(1) by (simp add: malloc_def)
  then show ?thesis using assms(2,3) by (simp add: malloc_big_def sizeof_arena_def)
qed

end
