(* ===== verification/IntQueue.thy ===== *)
theory IntQueue
  imports Prelude
begin

text \<open>
  The interrupt queues of devices/intq.c. The functions run with interrupts disabled, so each is one
  step as long as it does not give up the processor. A call gives it up where it waits for the lock of the
  queue, after which it goes on with \<open>intq_locked\<close>; where it sleeps in \<open>wait\<close>, after which it goes on
  with \<open>release_lock\<close>; and in \<open>lock_release\<close>, whose \<open>sema_up\<close> yields to a thread of higher priority,
  after which it goes on with the loop. \<open>None\<close> is a failed assertion.
\<close>

section \<open>State\<close>

abbreviation INTQ_BUFSIZE :: nat where "INTQ_BUFSIZE \<equiv> 64"

record intq =
  q_lock :: "addr option"
  not_full :: "addr option"
  not_empty :: "addr option"
  buf :: "u8 list"
  q_head :: nat
  q_tail :: nat

text \<open>What the queues see of the kernel; \<open>blocked\<close> are the threads that \<open>wait\<close> has put to sleep.\<close>

record processor =
  cur :: addr
  intr_on :: bool
  intr_context :: bool
  blocked :: "addr set"

text \<open>
  How a call leaves the processor: it returns, its thread sleeps in \<open>wait\<close>, or its thread waits in
  \<open>lock_acquire\<close> for the lock of the queue.
\<close>

datatype 'a outcome = Returns 'a | Sleeps | AwaitsLock

datatype condition = NotFull | NotEmpty

fun waiter :: "condition \<Rightarrow> intq \<Rightarrow> addr option" where
  "waiter NotFull q = not_full q"
| "waiter NotEmpty q = not_empty q"

fun set_waiter :: "condition \<Rightarrow> addr option \<Rightarrow> intq \<Rightarrow> intq" where
  "set_waiter NotFull t q = q\<lparr>not_full := t\<rparr>"
| "set_waiter NotEmpty t q = q\<lparr>not_empty := t\<rparr>"

section \<open>Operations\<close>

definition intq_init :: "intq \<Rightarrow> intq" where
  "intq_init q = q\<lparr>q_lock := None, not_full := None, not_empty := None, q_head := 0, q_tail := 0\<rparr>"

definition next_pos :: "nat \<Rightarrow> nat" where "next_pos p = (p + 1) mod INTQ_BUFSIZE"

definition intq_empty :: "intq \<Rightarrow> processor \<Rightarrow> bool option" where
  "intq_empty q p = do { ASSERT (\<not> intr_on p); Some (q_head q = q_tail q) }"

definition intq_full :: "intq \<Rightarrow> processor \<Rightarrow> bool option" where
  "intq_full q p = do { ASSERT (\<not> intr_on p); Some (next_pos (q_head q) = q_tail q) }"

definition wait :: "condition \<Rightarrow> intq \<Rightarrow> processor \<Rightarrow> (intq \<times> processor) option" where
  "wait c q p = do {
     ASSERT (\<not> intr_context p);
     ASSERT (\<not> intr_on p);
     b \<leftarrow> (case c of NotEmpty \<Rightarrow> intq_empty q p | NotFull \<Rightarrow> intq_full q p);
     ASSERT b;
     Some (set_waiter c (Some (cur p)) q, p\<lparr>blocked := insert (cur p) (blocked p)\<rparr>) }"

definition signal :: "condition \<Rightarrow> intq \<Rightarrow> processor \<Rightarrow> (intq \<times> processor) option" where
  "signal c q p = do {
     ASSERT (\<not> intr_on p);
     b \<leftarrow> (case c of NotEmpty \<Rightarrow> intq_empty q p | NotFull \<Rightarrow> intq_full q p);
     ASSERT (\<not> b);
     (case waiter c q of
        None \<Rightarrow> Some (q, p)
      | Some t \<Rightarrow> do {
          ASSERT (t \<in> blocked p);
          Some (set_waiter c None q, p\<lparr>blocked := blocked p - {t}\<rparr>) }) }"

text \<open>The lock of the queue is free, or the thread waits for it.\<close>

definition intq_locked :: "condition \<Rightarrow> intq \<Rightarrow> processor \<Rightarrow> ('a outcome \<times> intq \<times> processor) option" where
  "intq_locked c q p = do {
     ASSERT (q_lock q = None);
     qp \<leftarrow> wait c (q\<lparr>q_lock := Some (cur p)\<rparr>) p;
     Some (Sleeps, qp) }"

definition intq_wait :: "condition \<Rightarrow> intq \<Rightarrow> processor \<Rightarrow> ('a outcome \<times> intq \<times> processor) option" where
  "intq_wait c q p = do {
     ASSERT (\<not> intr_context p);
     ASSERT (q_lock q \<noteq> Some (cur p));
     if q_lock q = None then intq_locked c q p else Some (AwaitsLock, q, p) }"

definition release_lock :: "intq \<Rightarrow> processor \<Rightarrow> intq option" where
  "release_lock q p = do { ASSERT (q_lock q = Some (cur p)); Some (q\<lparr>q_lock := None\<rparr>) }"

definition getc_loop :: "intq \<Rightarrow> processor \<Rightarrow> (u8 outcome \<times> intq \<times> processor) option" where
  "getc_loop q p = do {
     e \<leftarrow> intq_empty q p;
     if e then intq_wait NotEmpty q p
     else do {
       let byte = buf q ! q_tail q;
       qp \<leftarrow> signal NotFull (q\<lparr>q_tail := next_pos (q_tail q)\<rparr>) p;
       Some (Returns byte, qp) } }"

definition intq_getc :: "intq \<Rightarrow> processor \<Rightarrow> (u8 outcome \<times> intq \<times> processor) option" where
  "intq_getc q p = do { ASSERT (\<not> intr_on p); getc_loop q p }"

definition putc_loop :: "u8 \<Rightarrow> intq \<Rightarrow> processor \<Rightarrow> (unit outcome \<times> intq \<times> processor) option" where
  "putc_loop byte q p = do {
     f \<leftarrow> intq_full q p;
     if f then intq_wait NotFull q p
     else do {
       let q = q\<lparr>buf := (buf q)[q_head q := byte]\<rparr>;
       qp \<leftarrow> signal NotEmpty (q\<lparr>q_head := next_pos (q_head q)\<rparr>) p;
       Some (Returns (), qp) } }"

definition intq_putc :: "u8 \<Rightarrow> intq \<Rightarrow> processor \<Rightarrow> (unit outcome \<times> intq \<times> processor) option" where
  "intq_putc byte q p = do { ASSERT (\<not> intr_on p); putc_loop byte q p }"

section \<open>Contents\<close>

text \<open>The bytes in the queue, the oldest first.\<close>

definition intq_count :: "intq \<Rightarrow> nat" where
  "intq_count q = (q_head q + INTQ_BUFSIZE - q_tail q) mod INTQ_BUFSIZE"

definition contents :: "intq \<Rightarrow> u8 list" where
  "contents q = map (\<lambda>i. buf q ! ((q_tail q + i) mod INTQ_BUFSIZE)) [0..<intq_count q]"

definition intq_ok :: "intq \<Rightarrow> bool" where
  "intq_ok q \<longleftrightarrow> length (buf q) = INTQ_BUFSIZE \<and> q_head q < INTQ_BUFSIZE \<and> q_tail q < INTQ_BUFSIZE"

lemma length_contents: "length (contents q) = intq_count q"
  by (simp add: contents_def)

lemma intq_count_less: "intq_count q < INTQ_BUFSIZE"
  by (simp add: intq_count_def)

lemma empty_contents: "intq_ok q \<Longrightarrow> q_head q = q_tail q \<longleftrightarrow> contents q = []"
proof -
  assume "intq_ok q"
  then have "q_head q < 64" "q_tail q < 64" by (auto simp: intq_ok_def)
  then have "q_head q = q_tail q \<longleftrightarrow> intq_count q = 0"
    unfolding intq_count_def by (cases "q_head q < q_tail q") (auto simp: mod_if)
  then show ?thesis by (simp add: contents_def)
qed

lemma full_contents: "intq_ok q \<Longrightarrow> next_pos (q_head q) = q_tail q \<longleftrightarrow> length (contents q) = 63"
proof -
  assume "intq_ok q"
  then have "q_head q < 64" "q_tail q < 64" by (auto simp: intq_ok_def)
  then have "next_pos (q_head q) = q_tail q \<longleftrightarrow> intq_count q = 63"
    unfolding intq_count_def next_pos_def by (auto simp: mod_if)
  then show ?thesis by (simp add: contents_def)
qed

lemma contents_take:
  assumes "intq_ok q" "contents q \<noteq> []"
  shows "contents q = buf q ! q_tail q # contents (q\<lparr>q_tail := next_pos (q_tail q)\<rparr>)"
    "intq_ok (q\<lparr>q_tail := next_pos (q_tail q)\<rparr>)"
proof -
  let ?q = "q\<lparr>q_tail := next_pos (q_tail q)\<rparr>"
  have t: "q_head q < 64" "q_tail q < 64" "q_head q \<noteq> q_tail q"
    using assms empty_contents [OF assms(1)] by (auto simp: intq_ok_def)
  have n: "intq_count q = Suc (intq_count ?q)"
    using t unfolding intq_count_def next_pos_def by (auto simp: mod_if split: if_splits)
  have "buf q ! ((q_tail q + Suc i) mod 64) = buf ?q ! ((q_tail ?q + i) mod 64)" for i
    by (simp add: next_pos_def mod_simps)
  then show "contents q = buf q ! q_tail q # contents ?q"
    unfolding contents_def n map_upt_Suc using t by (simp del: add_Suc_right)
  show "intq_ok ?q" using assms(1) by (simp add: intq_ok_def next_pos_def)
qed

lemma ring_not_reached:
  assumes "h < 64" "t < (64 :: nat)" "i < (h + 64 - t) mod 64"
  shows "(t + i) mod 64 \<noteq> h"
proof (cases "t \<le> h")
  case True
  then have "(h + 64 - t) mod 64 = (h - t + 64) mod 64" by simp
  also have "\<dots> = h - t" using assms(1) unfolding mod_add_self2 by (rule mod_less [OF le_less_trans, OF diff_le_self])
  finally have "t + i < h" using True assms(3) by linarith
  then show ?thesis using assms(1) by simp
next
  case False
  then have "(h + 64 - t) mod 64 = h + 64 - t" by (intro mod_less) linarith
  then have i: "t + i < h + 64" "h < t" using assms(3) False by linarith+
  show ?thesis
  proof (cases "t + i < 64")
    case True
    then show ?thesis using i by simp
  next
    case False
    then have "(t + i) mod 64 = t + i - 64" using i(1) assms(1) by (simp add: mod_if)
    then show ?thesis using i False by linarith
  qed
qed

lemma contents_put:
  assumes "intq_ok q" "length (contents q) \<noteq> 63"
  shows "contents (q\<lparr>buf := (buf q)[q_head q := b], q_head := next_pos (q_head q)\<rparr>) = contents q @ [b]"
    "intq_ok (q\<lparr>buf := (buf q)[q_head q := b], q_head := next_pos (q_head q)\<rparr>)"
proof -
  let ?q = "q\<lparr>buf := (buf q)[q_head q := b], q_head := next_pos (q_head q)\<rparr>"
  have t: "q_head q < 64" "q_tail q < 64" "next_pos (q_head q) \<noteq> q_tail q" "length (buf q) = 64"
    using assms full_contents [OF assms(1)] by (auto simp: intq_ok_def)
  have n: "intq_count ?q = Suc (intq_count q)"
    using t unfolding intq_count_def next_pos_def by (auto simp: mod_if split: if_splits)
  have h: "(q_tail q + intq_count q) mod 64 = q_head q"
    using t unfolding intq_count_def by (auto simp: mod_if split: if_splits)
  have o: "(q_tail q + i) mod 64 \<noteq> q_head q" if "i < intq_count q" for i
    using ring_not_reached [OF t(1,2)] that by (simp add: intq_count_def)
  have u: "(buf q)[q_head q := b] ! ((q_tail q + i) mod 64) = buf q ! ((q_tail q + i) mod 64)"
    if "i < intq_count q" for i using o [OF that] by (metis nth_list_update_neq)
  show "contents ?q = contents q @ [b]" unfolding contents_def n using h u t by simp
  show "intq_ok ?q" using assms(1) by (simp add: intq_ok_def next_pos_def)
qed

text \<open>What a call does when it need not wait, and when it has to.\<close>

definition waiter_asleep :: "condition \<Rightarrow> intq \<Rightarrow> processor \<Rightarrow> bool" where
  "waiter_asleep c q p \<longleftrightarrow> (\<forall>t. waiter c q = Some t \<longrightarrow> t \<in> blocked p)"

definition woken :: "condition \<Rightarrow> intq \<Rightarrow> addr set \<Rightarrow> addr set" where
  "woken c q B = B - set_option (waiter c q)"

lemma signal_spec:
  assumes "\<not> intr_on p" "intq_ok q" "waiter_asleep c q p"
    "c = NotEmpty \<Longrightarrow> contents q \<noteq> []" "c = NotFull \<Longrightarrow> length (contents q) \<noteq> 63"
  shows "signal c q p = Some (set_waiter c None q, p\<lparr>blocked := woken c q (blocked p)\<rparr>)"
proof (cases c)
  case NotFull
  then show ?thesis using assms full_contents [OF assms(2)]
    by (cases q) (auto simp: signal_def intq_full_def waiter_asleep_def woken_def split: option.splits)
next
  case NotEmpty
  then show ?thesis using assms empty_contents [OF assms(2)]
    by (cases q) (auto simp: signal_def intq_empty_def waiter_asleep_def woken_def split: option.splits)
qed

lemma contents_cong [simp]:
  "contents (set_waiter c t q) = contents q" "intq_ok (set_waiter c t q) = intq_ok q"
  "contents (q\<lparr>q_lock := l\<rparr>) = contents q" "intq_ok (q\<lparr>q_lock := l\<rparr>) = intq_ok q"
  "contents (q\<lparr>not_full := l\<rparr>) = contents q" "intq_ok (q\<lparr>not_full := l\<rparr>) = intq_ok q"
  "contents (q\<lparr>not_empty := l\<rparr>) = contents q" "intq_ok (q\<lparr>not_empty := l\<rparr>) = intq_ok q"
  by (cases c; simp add: contents_def intq_count_def intq_ok_def)+

lemma getc_loop_byte:
  assumes "\<not> intr_on p" "intq_ok q" "contents q \<noteq> []" "waiter_asleep NotFull q p"
  shows "\<exists>q'. getc_loop q p = Some (Returns (hd (contents q)), q', p\<lparr>blocked := woken NotFull q (blocked p)\<rparr>) \<and>
    intq_ok q' \<and> contents q' = tl (contents q) \<and> not_full q' = None \<and> not_empty q' = not_empty q \<and> q_lock q' = q_lock q"
proof -
  let ?q = "q\<lparr>q_tail := next_pos (q_tail q)\<rparr>"
  note c = contents_take [OF assms(2,3)]
  have "length (contents ?q) \<noteq> 63" using c(1) intq_count_less [of q] length_contents [of q] by auto
  then have "signal NotFull ?q p = Some (set_waiter NotFull None ?q, p\<lparr>blocked := woken NotFull q (blocked p)\<rparr>)"
    using signal_spec [OF assms(1) c(2), of NotFull] assms(4) by (simp add: waiter_asleep_def woken_def)
  moreover have "hd (contents q) = buf q ! q_tail q" "tl (contents q) = contents ?q"
    using c(1) by (metis list.sel)+
  ultimately show ?thesis using assms c(2) empty_contents [OF assms(2)] contents_cong(1) [of NotFull None ?q] contents_cong(2) [of NotFull None ?q]
    by (auto simp: getc_loop_def intq_empty_def Let_def)
qed

lemma putc_loop_byte:
  assumes "\<not> intr_on p" "intq_ok q" "length (contents q) \<noteq> 63" "waiter_asleep NotEmpty q p"
  shows "\<exists>q'. putc_loop b q p = Some (Returns (), q', p\<lparr>blocked := woken NotEmpty q (blocked p)\<rparr>) \<and>
    intq_ok q' \<and> contents q' = contents q @ [b] \<and> not_empty q' = None \<and> not_full q' = not_full q \<and> q_lock q' = q_lock q"
proof -
  let ?q = "q\<lparr>buf := (buf q)[q_head q := b], q_head := next_pos (q_head q)\<rparr>"
  note c = contents_put [OF assms(2,3), of b]
  have "contents ?q \<noteq> []" using c(1) by simp
  then have "signal NotEmpty ?q p = Some (set_waiter NotEmpty None ?q, p\<lparr>blocked := woken NotEmpty q (blocked p)\<rparr>)"
    using signal_spec [OF assms(1) c(2), of NotEmpty] assms(4) by (simp add: waiter_asleep_def woken_def)
  then show ?thesis using assms c full_contents [OF assms(2)] contents_cong(1) [of NotEmpty None ?q] contents_cong(2) [of NotEmpty None ?q]
    by (auto simp: putc_loop_def intq_full_def Let_def)
qed

section \<open>Threads and interrupt handlers at a queue\<close>

text \<open>
  Any number of threads that call \<open>intq_getc\<close> and \<open>intq_putc\<close> with interrupts disabled, and interrupt
  handlers that call them when the queue is not empty and not full. Where a thread is in its call is in
  \<open>at\<close>; the bytes given to and taken from the queue so far are \<open>accepted\<close> and \<open>delivered\<close>.
\<close>

datatype call = GetC | PutC u8

datatype place = Outside | AtLock call | InWait call | AtLoop call

record station =
  line :: intq
  asleep :: "addr set"
  at :: "addr \<Rightarrow> place"
  accepted :: "u8 list"
  delivered :: "u8 list"

definition on_thread :: "addr \<Rightarrow> station \<Rightarrow> processor" where
  "on_thread t S = \<lparr>cur = t, intr_on = False, intr_context = False, blocked = asleep S\<rparr>"

definition on_handler :: "addr \<Rightarrow> station \<Rightarrow> processor" where
  "on_handler t S = \<lparr>cur = t, intr_on = False, intr_context = True, blocked = asleep S\<rparr>"

fun after :: "call \<Rightarrow> 'a outcome \<Rightarrow> place" where
  "after c (Returns x) = Outside"
| "after c Sleeps = InWait c"
| "after c AwaitsLock = AtLock c"

fun returned :: "'a outcome \<Rightarrow> 'a list" where
  "returned (Returns x) = [x]"
| "returned o' = []"

definition settle :: "addr \<Rightarrow> place \<Rightarrow> u8 list \<Rightarrow> u8 list \<Rightarrow> intq \<times> processor \<Rightarrow> station \<Rightarrow> station" where
  "settle t pl given taken qp S = S\<lparr>line := fst qp, asleep := blocked (snd qp), at := (at S)(t := pl),
     accepted := accepted S @ given, delivered := delivered S @ taken\<rparr>"

definition runs_getc :: "addr \<Rightarrow> (u8 outcome \<times> intq \<times> processor) option \<Rightarrow> station \<Rightarrow> station option" where
  "runs_getc t r S = do { (o', qp) \<leftarrow> r; Some (settle t (after GetC o') [] (returned o') qp S) }"

definition runs_putc :: "addr \<Rightarrow> u8 \<Rightarrow> (unit outcome \<times> intq \<times> processor) option \<Rightarrow> station \<Rightarrow> station option" where
  "runs_putc t b r S = do { (o', qp) \<leftarrow> r; Some (settle t (after (PutC b) o') (map (\<lambda>_. b) (returned o')) [] qp S) }"

text \<open>What the thread does next when it is at the given place of the given call.\<close>

fun thread_runs_at :: "place \<Rightarrow> addr \<Rightarrow> call \<Rightarrow> station \<Rightarrow> station option" where
  "thread_runs_at Outside t GetC S = runs_getc t (intq_getc (line S) (on_thread t S)) S"
| "thread_runs_at Outside t (PutC b) S = runs_putc t b (intq_putc b (line S) (on_thread t S)) S"
| "thread_runs_at (AtLock _) t GetC S = runs_getc t (intq_locked NotEmpty (line S) (on_thread t S)) S"
| "thread_runs_at (AtLock _) t (PutC b) S = runs_putc t b (intq_locked NotFull (line S) (on_thread t S)) S"
| "thread_runs_at (InWait _) t c S = do {
     q \<leftarrow> release_lock (line S) (on_thread t S);
     Some (settle t (AtLoop c) [] [] (q, on_thread t S) S) }"
| "thread_runs_at (AtLoop _) t GetC S = runs_getc t (getc_loop (line S) (on_thread t S)) S"
| "thread_runs_at (AtLoop _) t (PutC b) S = runs_putc t b (putc_loop b (line S) (on_thread t S)) S"

definition thread_runs :: "addr \<Rightarrow> call \<Rightarrow> station \<Rightarrow> station option" where
  "thread_runs t c S = thread_runs_at (at S t) t c S"

text \<open>The thread is not in a call or in this one, does not sleep, and has got the lock it waited for.\<close>

definition can_run :: "addr \<Rightarrow> call \<Rightarrow> station \<Rightarrow> bool" where
  "can_run t c S \<longleftrightarrow> t \<notin> asleep S \<and>
     (at S t \<in> {Outside, InWait c, AtLoop c} \<or> at S t = AtLock c \<and> q_lock (line S) = None)"

fun handler_runs :: "addr \<Rightarrow> call \<Rightarrow> station \<Rightarrow> station option" where
  "handler_runs t GetC S = do {
     (o', qp) \<leftarrow> intq_getc (line S) (on_handler t S);
     Some (settle t (at S t) [] (returned o') qp S) }"
| "handler_runs t (PutC b) S = do {
     (o', qp) \<leftarrow> intq_putc b (line S) (on_handler t S);
     Some (settle t (at S t) (map (\<lambda>_. b) (returned o')) [] qp S) }"

fun handler_may :: "call \<Rightarrow> station \<Rightarrow> bool" where
  "handler_may GetC S \<longleftrightarrow> q_head (line S) \<noteq> q_tail (line S)"
| "handler_may (PutC b) S \<longleftrightarrow> next_pos (q_head (line S)) \<noteq> q_tail (line S)"

inductive qstep :: "station \<Rightarrow> station \<Rightarrow> bool" where
  Thread: "can_run t c S \<Longrightarrow> thread_runs t c S = Some S' \<Longrightarrow> qstep S S'"
| Handler: "handler_may c S \<Longrightarrow> handler_runs t c S = Some S' \<Longrightarrow> qstep S S'"

definition opened :: "intq \<Rightarrow> station" where
  "opened q = \<lparr>line = intq_init q, asleep = {}, at = (\<lambda>_. Outside), accepted = [], delivered = []\<rparr>"

text \<open>
  A sleeper is the waiter of its condition, holds the lock of the queue, and its condition is false;
  the lock is held from \<open>wait\<close> until its holder resumes.
\<close>

definition sleeper_ok :: "condition \<Rightarrow> station \<Rightarrow> addr \<Rightarrow> bool" where
  "sleeper_ok c S t \<longleftrightarrow> t \<in> asleep S \<and> q_lock (line S) = Some t \<and>
     (case c of NotEmpty \<Rightarrow> contents (line S) = [] \<and> at S t = InWait GetC
      | NotFull \<Rightarrow> length (contents (line S)) = 63 \<and> (\<exists>b. at S t = InWait (PutC b)))"

definition station_ok :: "station \<Rightarrow> bool" where
  "station_ok S \<longleftrightarrow> intq_ok (line S) \<and> accepted S = delivered S @ contents (line S) \<and>
     (\<forall>c t. waiter c (line S) = Some t \<longrightarrow> sleeper_ok c S t) \<and>
     asleep S = set_option (not_full (line S)) \<union> set_option (not_empty (line S)) \<and>
     (\<forall>t. q_lock (line S) = Some t \<longleftrightarrow> (\<exists>c. at S t = InWait c))"

section \<open>The invariant\<close>

fun need :: "call \<Rightarrow> condition" where
  "need GetC = NotEmpty"
| "need (PutC b) = NotFull"

fun wanting :: "call \<Rightarrow> intq \<Rightarrow> bool" where
  "wanting GetC q \<longleftrightarrow> contents q = []"
| "wanting (PutC b) q \<longleftrightarrow> length (contents q) = 63"

definition free_for :: "addr \<Rightarrow> station \<Rightarrow> bool" where
  "free_for t S \<longleftrightarrow> q_lock (line S) = None \<or> q_lock (line S) = Some t \<and> t \<notin> asleep S"

lemma no_waiters:
  assumes "station_ok S" "free_for t S"
  shows "waiter c (line S) = None" "asleep S = {}"
proof -
  have w: "waiter c (line S) = None" for c
  proof (rule ccontr)
    assume "waiter c (line S) \<noteq> None"
    then obtain u where "sleeper_ok c S u" using assms(1) unfolding station_ok_def by blast
    then show False using assms(2) by (auto simp: sleeper_ok_def free_for_def)
  qed
  show "waiter c (line S) = None" by (rule w)
  show "asleep S = {}" using assms(1) w [of NotFull] w [of NotEmpty] by (simp add: station_ok_def)
qed

lemma waiters_asleep: "station_ok S \<Longrightarrow> blocked p = asleep S \<Longrightarrow> waiter_asleep c (line S) p"
  by (cases c) (auto simp: station_ok_def waiter_asleep_def)

lemma sleeper_simps:
  "sleeper_ok NotEmpty S t \<longleftrightarrow> t \<in> asleep S \<and> q_lock (line S) = Some t \<and> contents (line S) = [] \<and> at S t = InWait GetC"
  "sleeper_ok NotFull S t \<longleftrightarrow> t \<in> asleep S \<and> q_lock (line S) = Some t \<and> length (contents (line S)) = 63 \<and>
     (\<exists>b. at S t = InWait (PutC b))"
  by (auto simp: sleeper_ok_def)

lemma station_waiter: "station_ok S \<Longrightarrow> waiter c (line S) = Some t \<Longrightarrow> sleeper_ok c S t"
  by (simp add: station_ok_def)

lemma other_waiter: "station_ok S \<Longrightarrow> contents (line S) \<noteq> [] \<Longrightarrow> not_empty (line S) = None"
  using station_waiter [of S NotEmpty] by (cases "not_empty (line S)") (auto simp: sleeper_simps)

lemma other_waiter': "station_ok S \<Longrightarrow> length (contents (line S)) \<noteq> 63 \<Longrightarrow> not_full (line S) = None"
  using station_waiter [of S NotFull] by (cases "not_full (line S)") (auto simp: sleeper_simps)

lemma all_conditions: "(\<forall>c. R c) \<longleftrightarrow> R NotFull \<and> R NotEmpty"
  by (metis (full_types) condition.exhaust)

text \<open>A byte has gone through the queue, so nobody sleeps any more.\<close>

lemma moved_ok:
  assumes S: "station_ok S" and q: "intq_ok q" "not_full q = None" "not_empty q = None"
    and io: "contents (line S) @ given = taken @ contents q" and b: "blocked p = {}"
    and l: "\<And>u. q_lock q = Some u \<longleftrightarrow> (\<exists>c. ((at S)(t := pl)) u = InWait c)"
  shows "station_ok (settle t pl given taken (q, p) S)"
  using S q b l io unfolding station_ok_def all_conditions settle_def by simp

lemma sleeps_ok:
  assumes S: "station_ok S" and f: "free_for t S" and w: "wanting c (line S)"
    and q: "q = set_waiter (need c) (Some t) ((line S)\<lparr>q_lock := Some t\<rparr>)" and b: "blocked p = insert t (asleep S)"
  shows "station_ok (settle t (InWait c) [] [] (q, p) S)"
proof -
  have e: "not_full (line S) = None" "not_empty (line S) = None" "asleep S = {}"
    using no_waiters(1) [OF S f, of NotFull] no_waiters(1) [OF S f, of NotEmpty] no_waiters(2) [OF S f] by simp_all
  have o: "intq_ok (line S)" "accepted S = delivered S @ contents (line S)"
    "\<And>u. q_lock (line S) = Some u \<longleftrightarrow> (\<exists>c. at S u = InWait c)" using S by (auto simp: station_ok_def)
  have l': "at S u \<noteq> InWait c'" if "u \<noteq> t" for u c'
    using o(3) [of u] f that unfolding free_for_def by auto
  show ?thesis
    using e o(1,2) w q b l'
    by (cases c) (auto simp: station_ok_def all_conditions settle_def sleeper_simps)
qed

lemma awaits_ok:
  assumes S: "station_ok S" and l: "\<forall>c. at S t \<noteq> InWait c" and p: "blocked p = asleep S"
  shows "station_ok (settle t (AtLock c) [] [] (line S, p) S)"
proof -
  have "\<not> sleeper_ok d S t" for d using l by (cases d) (auto simp: sleeper_simps)
  then have "sleeper_ok d (settle t (AtLock c) [] [] (line S, p) S) u" if s: "sleeper_ok d S u" for d u
    using p s by (cases "u = t"; cases d) (auto simp: sleeper_simps settle_def)
  then show ?thesis using S l p unfolding station_ok_def settle_def by auto
qed

text \<open>Steps of threads.\<close>

lemma on_thread_simps [simp]:
  "cur (on_thread t S) = t" "\<not> intr_on (on_thread t S)" "\<not> intr_context (on_thread t S)"
  "blocked (on_thread t S) = asleep S"
  "cur (on_handler t S) = t" "\<not> intr_on (on_handler t S)" "intr_context (on_handler t S)"
  "blocked (on_handler t S) = asleep S"
  by (simp_all add: on_thread_def on_handler_def)

lemma locked_spec:
  assumes "\<not> intr_on p" "\<not> intr_context p" "intq_ok q" "q_lock q = None"
  shows "wanting c q \<Longrightarrow> intq_locked (need c) q p =
      Some (Sleeps, set_waiter (need c) (Some (cur p)) (q\<lparr>q_lock := Some (cur p)\<rparr>), p\<lparr>blocked := insert (cur p) (blocked p)\<rparr>)"
    "\<not> wanting c q \<Longrightarrow> intq_locked (need c) q p = (None :: ('a outcome \<times> intq \<times> processor) option)"
  using assms empty_contents [OF assms(3)] full_contents [OF assms(3)]
  by (cases c; simp add: intq_locked_def wait_def intq_empty_def intq_full_def)+

lemmas locked_rules = locked_spec [where c = GetC, simplified] locked_spec [where c = "PutC b" for b, simplified]

lemma wait_spec:
  assumes "\<not> intr_on p" "\<not> intr_context p" "intq_ok q" "q_lock q \<noteq> Some (cur p)" "wanting c q"
  shows "intq_wait (need c) q p = Some (if q_lock q = None
     then (Sleeps, set_waiter (need c) (Some (cur p)) (q\<lparr>q_lock := Some (cur p)\<rparr>), p\<lparr>blocked := insert (cur p) (blocked p)\<rparr>)
     else (AwaitsLock, q, p))"
  using assms by (simp add: intq_wait_def locked_spec(1) [OF assms(1-3) _ assms(5)])

text \<open>The thread is about to test the condition of its loop.\<close>

definition enters :: "addr \<Rightarrow> call \<Rightarrow> station \<Rightarrow> bool" where
  "enters t c S \<longleftrightarrow> t \<notin> asleep S \<and> at S t \<in> {Outside, AtLoop c}"

lemma station_intq: "station_ok S \<Longrightarrow> intq_ok (line S)"
  by (simp add: station_ok_def)

lemma not_holder: "station_ok S \<Longrightarrow> (\<forall>c. at S t \<noteq> InWait c) \<Longrightarrow> q_lock (line S) \<noteq> Some t"
  by (simp add: station_ok_def)

lemma enters_not_holder: "station_ok S \<Longrightarrow> enters t c S \<Longrightarrow> q_lock (line S) \<noteq> Some t"
  by (rule not_holder) (auto simp: enters_def)

lemma lock_outside:
  assumes "station_ok S" "q_lock (line S) \<noteq> Some t" "\<forall>c. pl \<noteq> InWait c"
  shows "q_lock (line S) = Some u \<longleftrightarrow> (\<exists>c. ((at S)(t := pl)) u = InWait c)"
  using assms unfolding station_ok_def by (cases "u = t") auto

lemma wait_ok:
  assumes S: "station_ok S" and e: "enters t c S" and w: "wanting c (line S)"
  shows "\<exists>(o' :: 'a outcome) qp. intq_wait (need c) (line S) (on_thread t S) = Some (o', qp) \<and> returned o' = [] \<and>
    station_ok (settle t (after c o') [] [] qp S)"
proof -
  have r: "intq_wait (need c) (line S) (on_thread t S) = Some (if q_lock (line S) = None
     then (Sleeps :: 'a outcome, set_waiter (need c) (Some t) ((line S)\<lparr>q_lock := Some t\<rparr>), (on_thread t S)\<lparr>blocked := insert t (asleep S)\<rparr>)
     else (AwaitsLock, line S, on_thread t S))"
    using w enters_not_holder [OF S e] station_intq [OF S] by (simp add: wait_spec)
  show ?thesis
  proof (cases "q_lock (line S) = None")
    case True
    then show ?thesis using r sleeps_ok [OF S _ w refl] by (simp add: free_for_def)
  next
    case False
    then show ?thesis using r awaits_ok [OF S, of t "on_thread t S" c] e by (auto simp: enters_def)
  qed
qed

lemma getc_ok:
  assumes S: "station_ok S" and e: "enters t GetC S"
  shows "\<exists>S'. runs_getc t (getc_loop (line S) (on_thread t S)) S = Some S' \<and> station_ok S'"
proof (cases "contents (line S) = []")
  case True
  then have "q_head (line S) = q_tail (line S)" using S empty_contents [of "line S"] by (simp add: station_ok_def)
  moreover obtain o' :: "u8 outcome" and qp where
    "intq_wait NotEmpty (line S) (on_thread t S) = Some (o', qp)" "returned o' = []"
    "station_ok (settle t (after GetC o') [] [] qp S)"
    using wait_ok [OF S e] True by auto
  ultimately show ?thesis by (simp add: getc_loop_def intq_empty_def runs_getc_def)
next
  case False
  have w: "not_empty (line S) = None" by (rule other_waiter [OF S False])
  obtain q' where q': "getc_loop (line S) (on_thread t S) =
      Some (Returns (hd (contents (line S))), q', (on_thread t S)\<lparr>blocked := woken NotFull (line S) (asleep S)\<rparr>)"
    "intq_ok q'" "contents q' = tl (contents (line S))" "not_full q' = None" "not_empty q' = not_empty (line S)"
    "q_lock q' = q_lock (line S)"
    using getc_loop_byte [of "on_thread t S" "line S"] waiters_asleep [OF S, of "on_thread t S" NotFull] S False
    by (auto simp: station_ok_def)
  have "woken NotFull (line S) (asleep S) = {}" using S w by (simp add: woken_def station_ok_def)
  moreover have "station_ok (settle t Outside [] [hd (contents (line S))] (q', (on_thread t S)\<lparr>blocked := {}\<rparr>) S)"
    using q'(2-6) w False lock_outside [OF S enters_not_holder [OF S e], of Outside]
    by (intro moved_ok [OF S]) simp_all
  ultimately show ?thesis using q'(1) by (simp add: runs_getc_def)
qed

lemma putc_ok:
  assumes S: "station_ok S" and e: "enters t (PutC b) S"
  shows "\<exists>S'. runs_putc t b (putc_loop b (line S) (on_thread t S)) S = Some S' \<and> station_ok S'"
proof (cases "length (contents (line S)) = 63")
  case True
  then have "next_pos (q_head (line S)) = q_tail (line S)" using S full_contents [of "line S"] by (simp add: station_ok_def)
  moreover obtain o' :: "unit outcome" and qp where
    "intq_wait NotFull (line S) (on_thread t S) = Some (o', qp)" "returned o' = []"
    "station_ok (settle t (after (PutC b) o') [] [] qp S)"
    using wait_ok [OF S e] True by auto
  ultimately show ?thesis by (simp add: putc_loop_def intq_full_def runs_putc_def)
next
  case False
  have w: "not_full (line S) = None" by (rule other_waiter' [OF S False])
  obtain q' where q': "putc_loop b (line S) (on_thread t S) =
      Some (Returns (), q', (on_thread t S)\<lparr>blocked := woken NotEmpty (line S) (asleep S)\<rparr>)"
    "intq_ok q'" "contents q' = contents (line S) @ [b]" "not_empty q' = None" "not_full q' = not_full (line S)"
    "q_lock q' = q_lock (line S)"
    using putc_loop_byte [of "on_thread t S" "line S" b] waiters_asleep [OF S, of "on_thread t S" NotEmpty] S False
    by (auto simp: station_ok_def)
  have "woken NotEmpty (line S) (asleep S) = {}" using S w by (simp add: woken_def station_ok_def)
  moreover have "station_ok (settle t Outside [b] [] (q', (on_thread t S)\<lparr>blocked := {}\<rparr>) S)"
    using q'(2-6) w lock_outside [OF S enters_not_holder [OF S e], of Outside]
    by (intro moved_ok [OF S]) simp_all
  ultimately show ?thesis using q'(1) by (simp add: runs_putc_def)
qed

lemma release_ok:
  assumes S: "station_ok S" and i: "at S t = InWait c" "t \<notin> asleep S"
  shows "\<exists>S'. thread_runs t c S = Some S' \<and> station_ok S'"
proof -
  have l: "q_lock (line S) = Some t" using S i by (auto simp: station_ok_def)
  then have f: "free_for t S" using i by (simp add: free_for_def)
  have e: "not_full (line S) = None" "not_empty (line S) = None"
    using no_waiters(1) [OF S f, of NotFull] no_waiters(1) [OF S f, of NotEmpty] by simp_all
  have "\<And>u c'. at S u = InWait c' \<Longrightarrow> u = t" using S l by (auto simp: station_ok_def)
  then have "station_ok (settle t (AtLoop c) [] [] ((line S)\<lparr>q_lock := None\<rparr>, on_thread t S) S)"
    using S e no_waiters(2) [OF S f] by (intro moved_ok [OF S]) (auto simp: station_ok_def)
  then show ?thesis using i(1) l by (simp add: thread_runs_def release_lock_def)
qed

lemma locked_ok:
  assumes S: "station_ok S" and i: "at S t = AtLock c" "q_lock (line S) = None"
  shows "if wanting c (line S) then \<exists>S'. thread_runs t c S = Some S' \<and> station_ok S' else thread_runs t c S = None"
proof -
  have o: "intq_ok (line S)" "free_for t S" using S i by (auto simp: station_ok_def free_for_def)
  show ?thesis
  proof (cases "wanting c (line S)")
    case True
    have s: "station_ok (settle t (InWait c) [] [] (set_waiter (need c) (Some t) ((line S)\<lparr>q_lock := Some t\<rparr>),
        (on_thread t S)\<lparr>blocked := insert t (asleep S)\<rparr>) S)"
      using sleeps_ok [OF S o(2) True refl] by simp
    then show ?thesis using o(1) i s
      by (cases c) (simp_all add: thread_runs_def runs_getc_def runs_putc_def locked_rules)
  next
    case False
    then show ?thesis using o(1) i
      by (cases c) (simp_all add: thread_runs_def runs_getc_def runs_putc_def locked_rules)
  qed
qed

lemma thread_ok:
  assumes S: "station_ok S" and r: "can_run t c S"
  shows "if at S t = AtLock c \<and> \<not> wanting c (line S) then thread_runs t c S = None
    else \<exists>S'. thread_runs t c S = Some S' \<and> station_ok S'"
proof -
  consider (enter) "enters t c S" | (resume) "at S t = InWait c" "t \<notin> asleep S"
    | (lock) "at S t = AtLock c" "q_lock (line S) = None"
    using r unfolding can_run_def enters_def by auto
  then show ?thesis
  proof cases
    case enter
    then have "\<exists>S'. thread_runs t c S = Some S' \<and> station_ok S'"
      using getc_ok [OF S, of t] putc_ok [OF S, of t]
      by (cases c) (auto simp: enters_def thread_runs_def intq_getc_def intq_putc_def)
    then show ?thesis using enter by (auto simp: enters_def)
  next
    case resume
    then show ?thesis using release_ok [OF S] by simp
  next
    case lock
    then show ?thesis using locked_ok [OF S lock] by simp
  qed
qed

lemma handler_ok:
  assumes S: "station_ok S" and h: "handler_may c S"
  shows "\<exists>S'. handler_runs t c S = Some S' \<and> station_ok S'"
proof (cases c)
  case GetC
  then have c: "contents (line S) \<noteq> []" using h empty_contents [OF station_intq [OF S]] by simp
  have w: "not_empty (line S) = None" by (rule other_waiter [OF S c])
  obtain q' where q': "getc_loop (line S) (on_handler t S) =
      Some (Returns (hd (contents (line S))), q', (on_handler t S)\<lparr>blocked := woken NotFull (line S) (asleep S)\<rparr>)"
    "intq_ok q'" "contents q' = tl (contents (line S))" "not_full q' = None" "not_empty q' = not_empty (line S)"
    "q_lock q' = q_lock (line S)"
    using getc_loop_byte [of "on_handler t S" "line S"] waiters_asleep [OF S, of "on_handler t S" NotFull] S c
    by (auto simp: station_ok_def)
  have "woken NotFull (line S) (asleep S) = {}" using S w by (simp add: woken_def station_ok_def)
  moreover have "station_ok (settle t (at S t) [] [hd (contents (line S))] (q', (on_handler t S)\<lparr>blocked := {}\<rparr>) S)"
    using q'(2-6) w c S by (intro moved_ok [OF S]) (simp_all add: station_ok_def)
  ultimately show ?thesis using q'(1) GetC by (simp add: intq_getc_def)
next
  case (PutC b)
  then have c: "length (contents (line S)) \<noteq> 63" using h full_contents [OF station_intq [OF S]] by simp
  have w: "not_full (line S) = None" by (rule other_waiter' [OF S c])
  obtain q' where q': "putc_loop b (line S) (on_handler t S) =
      Some (Returns (), q', (on_handler t S)\<lparr>blocked := woken NotEmpty (line S) (asleep S)\<rparr>)"
    "intq_ok q'" "contents q' = contents (line S) @ [b]" "not_empty q' = None" "not_full q' = not_full (line S)"
    "q_lock q' = q_lock (line S)"
    using putc_loop_byte [of "on_handler t S" "line S" b] waiters_asleep [OF S, of "on_handler t S" NotEmpty] S c
    by (auto simp: station_ok_def)
  have "woken NotEmpty (line S) (asleep S) = {}" using S w by (simp add: woken_def station_ok_def)
  moreover have "station_ok (settle t (at S t) [b] [] (q', (on_handler t S)\<lparr>blocked := {}\<rparr>) S)"
    using q'(2-6) w S by (intro moved_ok [OF S]) (simp_all add: station_ok_def)
  ultimately show ?thesis using q'(1) PutC by (simp add: intq_putc_def)
qed

lemma qstep_ok: "qstep S S' \<Longrightarrow> station_ok S \<Longrightarrow> station_ok S'"
proof (induction rule: qstep.induct)
  case (Thread t c S S')
  then show ?case using thread_ok [of S t c] by (auto split: if_splits)
next
  case (Handler c S t S')
  then show ?case using handler_ok [of S c t] by auto
qed

lemma opened_ok: "length (buf q) = INTQ_BUFSIZE \<Longrightarrow> station_ok (opened q)"
  by (simp add: station_ok_def opened_def intq_init_def intq_ok_def all_conditions contents_def intq_count_def)

lemma reachable_ok: "qstep\<^sup>*\<^sup>* (opened q) S \<Longrightarrow> length (buf q) = INTQ_BUFSIZE \<Longrightarrow> station_ok S"
  by (induction rule: rtranclp_induct) (auto intro: qstep_ok opened_ok)

lemma sleeper_wants: "station_ok S \<Longrightarrow> t \<in> asleep S \<Longrightarrow> \<exists>c. at S t = InWait c \<and> wanting c (line S)"
  using station_waiter [of S NotEmpty t] station_waiter [of S NotFull t]
  by (auto simp: station_ok_def sleeper_simps)

text \<open>Executing a sequence of steps; a handler interrupts the thread 0.\<close>

datatype move = ByThread addr call | ByHandler call

fun moves :: "move list \<Rightarrow> station \<Rightarrow> station option" where
  "moves [] S = Some S"
| "moves (ByThread t c # ms) S = (if can_run t c S then thread_runs t c S \<bind> moves ms else None)"
| "moves (ByHandler c # ms) S = (if handler_may c S then handler_runs 0 c S \<bind> moves ms else None)"

lemma moves_reach: "moves ms S = Some S' \<Longrightarrow> qstep\<^sup>*\<^sup>* S S'"
proof (induction ms S rule: moves.induct)
  case (2 t c ms S)
  then show ?case by (auto simp: bind_eq_Some_conv split: if_splits intro: converse_rtranclp_into_rtranclp qstep.intros)
next
  case (3 c ms S)
  then show ?case by (auto simp: bind_eq_Some_conv split: if_splits intro: converse_rtranclp_into_rtranclp qstep.intros)
qed simp

lemma moves_reach_ex:
  "case moves ms S of None \<Rightarrow> False | Some S' \<Rightarrow> P S' \<Longrightarrow> \<exists>S'. qstep\<^sup>*\<^sup>* S S' \<and> P S'"
  using moves_reach by (auto split: option.splits)

definition fresh_intq :: intq where
  "fresh_intq = \<lparr>q_lock = None, not_full = None, not_empty = None, buf = replicate INTQ_BUFSIZE 0, q_head = 0, q_tail = 0\<rparr>"

text \<open>
  Two readers: the first sleeps, the second waits for the lock; two bytes arrive; the first wakes up,
  releases the lock and takes one of them. The second gets the lock while a byte is there, and panics.
\<close>

lemma two_readers_panic:
  "\<exists>S. qstep\<^sup>*\<^sup>* (opened fresh_intq) S \<and> can_run 2 GetC S \<and> contents (line S) = [66] \<and> thread_runs 2 GetC S = None"
proof -
  let ?ms = "[ByThread 1 GetC, ByThread 2 GetC, ByHandler (PutC 65), ByHandler (PutC 66), ByThread 1 GetC, ByThread 1 GetC]"
  have "case moves ?ms (opened fresh_intq) of None \<Rightarrow> False
    | Some S \<Rightarrow> can_run 2 GetC S \<and> contents (line S) = [66] \<and> Option.is_none (thread_runs 2 GetC S)"
    by code_simp
  from moves_reach_ex [OF this] show ?thesis by (simp only: is_none_simps Option.is_none_def)
qed

section \<open>Properties\<close>

text \<open> C20: However threads and interrupt handlers interleave at an interrupt queue, the bytes taken from it are
  the bytes put into it, in their order, and at most 63 are inside; a thread sleeps only while its
  condition is false (no wakeup is lost); handlers never panic, and a call of a thread panics exactly when it gets
  the lock of the queue and its condition has become true meanwhile.\<close>

theorem intq_fifo:
  assumes "length (buf q) = 64" "qstep\<^sup>*\<^sup>* (opened q) S"
  shows "accepted S = delivered S @ contents (line S) \<and> length (contents (line S)) \<le> 63 \<and>
    (\<forall>t. t \<in> asleep S \<longrightarrow> (\<exists>c. at S t = InWait c \<and> wanting c (line S))) \<and>
    (\<forall>t c. handler_may c S \<longrightarrow> handler_runs t c S \<noteq> None) \<and>
    (\<forall>t c. can_run t c S \<longrightarrow> (thread_runs t c S = None \<longleftrightarrow> at S t = AtLock c \<and> \<not> wanting c (line S)))"
proof (intro conjI allI impI)
  have S: "station_ok S" using assms reachable_ok by blast
  show "accepted S = delivered S @ contents (line S)" using S by (simp add: station_ok_def)
  show "length (contents (line S)) \<le> 63" using intq_count_less [of "line S"] by (simp add: length_contents)
  show "\<exists>c. at S t = InWait c \<and> wanting c (line S)" if "t \<in> asleep S" for t using sleeper_wants [OF S that] .
  show "handler_runs t c S \<noteq> None" if "handler_may c S" for t c using handler_ok [OF S that] by auto
  show "thread_runs t c S = None \<longleftrightarrow> at S t = AtLock c \<and> \<not> wanting c (line S)" if "can_run t c S" for t c
    using thread_ok [OF S that] by (auto split: if_splits)
qed

theorem intq_fifo_witness:
  "\<exists>S. qstep\<^sup>*\<^sup>* (opened fresh_intq) S \<and> delivered S = [65] \<and> accepted S = [65, 66] \<and> contents (line S) = [66] \<and>
     (\<forall>t c. handler_may c S \<longrightarrow> handler_runs t c S \<noteq> None)"
proof -
  let ?ms = "[ByThread 1 GetC, ByHandler (PutC 65), ByThread 2 (PutC 66), ByThread 1 GetC, ByThread 1 GetC]"
  have "case moves ?ms (opened fresh_intq) of None \<Rightarrow> False
    | Some S \<Rightarrow> delivered S = [65] \<and> contents (line S) = [66]"
    by code_simp
  from moves_reach_ex [OF this] obtain S
    where "qstep\<^sup>*\<^sup>* (opened fresh_intq) S" "delivered S = [65]" "contents (line S) = [66]" by blast
  then show ?thesis using intq_fifo [of fresh_intq S] by (auto simp: fresh_intq_def)
qed

end
