(* ===== verification/Chardev.thy ===== *)
theory Chardev
  imports IntQueue
begin

text \<open>
  The input buffer, the serial port and the keyboard: devices/input.c, devices/serial.c and
  devices/kbd.c. The UART and the keyboard controller are not code of the kernel: their ports are
  functions that the operations take as a parameter, on a state of the hardware. \<open>None\<close> is a
  panic, or a poll of a port that never becomes ready.
\<close>

section \<open>State\<close>

record 'w ports =
  port_in :: "u16 \<Rightarrow> 'w \<Rightarrow> u8 \<times> 'w"
  port_out :: "u16 \<Rightarrow> u8 \<Rightarrow> 'w \<Rightarrow> 'w"

datatype serial_mode = UNINIT | POLL | QUEUE

record 'w devices =
  buffer :: intq
  txq :: intq
  proc :: processor
  mode :: serial_mode
  left_shift :: bool
  right_shift :: bool
  left_alt :: bool
  right_alt :: bool
  left_ctrl :: bool
  right_ctrl :: bool
  caps_lock :: bool
  key_cnt :: int
  hw :: 'w

definition inb :: "'w ports \<Rightarrow> u16 \<Rightarrow> 'w devices \<Rightarrow> u8 \<times> 'w devices" where
  "inb P port d = (let (v, w) = port_in P port (hw d) in (v, d\<lparr>hw := w\<rparr>))"

definition outb :: "'w ports \<Rightarrow> u16 \<Rightarrow> u8 \<Rightarrow> 'w devices \<Rightarrow> 'w devices" where
  "outb P port v d = d\<lparr>hw := port_out P port v (hw d)\<rparr>"

definition set_intr :: "bool \<Rightarrow> 'w devices \<Rightarrow> 'w devices" where
  "set_intr b d = d\<lparr>proc := (proc d)\<lparr>intr_on := b\<rparr>\<rparr>"

definition set_buffer :: "intq \<times> processor \<Rightarrow> 'w devices \<Rightarrow> 'w devices" where
  "set_buffer qp d = d\<lparr>buffer := fst qp, proc := snd qp\<rparr>"

definition set_txq :: "intq \<times> processor \<Rightarrow> 'w devices \<Rightarrow> 'w devices" where
  "set_txq qp d = d\<lparr>txq := fst qp, proc := snd qp\<rparr>"

section \<open>The serial port\<close>

text \<open>The registers are at \<open>IO_BASE\<close>, 0x3f8, and after it.\<close>

abbreviation RBR_REG :: u16 where "RBR_REG \<equiv> 0x3f8"
abbreviation THR_REG :: u16 where "THR_REG \<equiv> 0x3f8"
abbreviation IER_REG :: u16 where "IER_REG \<equiv> 0x3f9"
abbreviation LS_REG :: u16 where "LS_REG \<equiv> 0x3f8"
abbreviation MS_REG :: u16 where "MS_REG \<equiv> 0x3f9"
abbreviation IIR_REG :: u16 where "IIR_REG \<equiv> 0x3fa"
abbreviation FCR_REG :: u16 where "FCR_REG \<equiv> 0x3fa"
abbreviation LCR_REG :: u16 where "LCR_REG \<equiv> 0x3fb"
abbreviation MCR_REG :: u16 where "MCR_REG \<equiv> 0x3fc"
abbreviation LSR_REG :: u16 where "LSR_REG \<equiv> 0x3fd"
abbreviation IER_RECV :: u8 where "IER_RECV \<equiv> 0x01"
abbreviation IER_XMIT :: u8 where "IER_XMIT \<equiv> 0x02"
abbreviation LCR_N81 :: u8 where "LCR_N81 \<equiv> 0x03"
abbreviation LCR_DLAB :: u8 where "LCR_DLAB \<equiv> 0x80"
abbreviation MCR_OUT2 :: u8 where "MCR_OUT2 \<equiv> 0x08"
abbreviation LSR_DR :: u8 where "LSR_DR \<equiv> 0x01"
abbreviation LSR_THRE :: u8 where "LSR_THRE \<equiv> 0x20"

definition set_serial :: "'w ports \<Rightarrow> nat \<Rightarrow> 'w devices \<Rightarrow> 'w devices option" where
  "set_serial P bps d = do {
     let base_rate = 1843200 div 16;
     let divisor = (of_nat (base_rate div bps) :: u16);
     ASSERT (300 \<le> bps \<and> bps \<le> 115200);
     let d = outb P LCR_REG (LCR_N81 OR LCR_DLAB) d;
     let d = outb P LS_REG (ucast (divisor AND 0xff)) d;
     let d = outb P MS_REG (ucast (drop_bit 8 divisor)) d;
     Some (outb P LCR_REG LCR_N81 d) }"

definition init_poll :: "'w ports \<Rightarrow> 'w devices \<Rightarrow> 'w devices option" where
  "init_poll P d = do {
     ASSERT (mode d = UNINIT);
     let d = outb P IER_REG 0 d;
     let d = outb P FCR_REG 0 d;
     d \<leftarrow> set_serial P 115200 d;
     let d = outb P MCR_REG MCR_OUT2 d;
     Some (d\<lparr>txq := intq_init (txq d), mode := POLL\<rparr>) }"

definition input_full :: "'w devices \<Rightarrow> bool option" where
  "input_full d = do { ASSERT (\<not> intr_on (proc d)); intq_full (buffer d) (proc d) }"

definition write_ier :: "'w ports \<Rightarrow> 'w devices \<Rightarrow> 'w devices option" where
  "write_ier P d = do {
     let ier = 0;
     ASSERT (\<not> intr_on (proc d));
     e \<leftarrow> intq_empty (txq d) (proc d);
     let ier = (if \<not> e then ier OR IER_XMIT else ier);
     f \<leftarrow> input_full d;
     let ier = (if \<not> f then ier OR IER_RECV else ier);
     Some (outb P IER_REG ier d) }"

definition serial_notify :: "'w ports \<Rightarrow> 'w devices \<Rightarrow> 'w devices option" where
  "serial_notify P d = do {
     ASSERT (\<not> intr_on (proc d));
     if mode d = QUEUE then write_ier P d else Some d }"

text \<open>The registration of the interrupt handler is in the model of threads/interrupt.c.\<close>

definition serial_init_queue :: "'w ports \<Rightarrow> 'w devices \<Rightarrow> 'w devices option" where
  "serial_init_queue P d = do {
     d \<leftarrow> (if mode d = UNINIT then init_poll P d else Some d);
     ASSERT (mode d = POLL);
     let d = d\<lparr>mode := QUEUE\<rparr>;
     let old_level = intr_on (proc d);
     d \<leftarrow> write_ier P (set_intr False d);
     Some (set_intr old_level d) }"

partial_function (option) poll_ready :: "'w ports \<Rightarrow> 'w devices \<Rightarrow> 'w devices option" where
  "poll_ready P d = (let (v, d) = inb P LSR_REG d in if v AND LSR_THRE = 0 then poll_ready P d else Some d)"

definition putc_poll :: "'w ports \<Rightarrow> u8 \<Rightarrow> 'w devices \<Rightarrow> 'w devices option" where
  "putc_poll P byte d = do {
     ASSERT (\<not> intr_on (proc d));
     d \<leftarrow> poll_ready P d;
     Some (outb P THR_REG byte d) }"

text \<open>
  Taking a byte from a queue that is not empty; if the call had to wait here, the model does not go on.
\<close>

definition txq_getc :: "'w devices \<Rightarrow> (u8 \<times> 'w devices) option" where
  "txq_getc d = do {
     (r, qp) \<leftarrow> intq_getc (txq d) (proc d);
     (case r of Returns b \<Rightarrow> Some (b, set_txq qp d) | _ \<Rightarrow> None) }"

text \<open>
  \<open>serial_putc\<close> up to the point where \<open>intq_putc\<close> returns or gives up the processor, and what is left
  of it after \<open>intq_putc\<close>.
\<close>

definition serial_putc_end :: "'w ports \<Rightarrow> bool \<Rightarrow> 'w devices \<Rightarrow> 'w devices option" where
  "serial_putc_end P old_level d = do { d \<leftarrow> write_ier P d; Some (set_intr old_level d) }"

definition serial_putc :: "'w ports \<Rightarrow> u8 \<Rightarrow> 'w devices \<Rightarrow> (unit outcome \<times> 'w devices) option" where
  "serial_putc P byte d = do {
     let old_level = intr_on (proc d);
     let d = set_intr False d;
     if mode d \<noteq> QUEUE then do {
       d \<leftarrow> (if mode d = UNINIT then init_poll P d else Some d);
       d \<leftarrow> putc_poll P byte d;
       Some (Returns (), set_intr old_level d) }
     else do {
       full \<leftarrow> intq_full (txq d) (proc d);
       d \<leftarrow> (if \<not> old_level \<and> full then do {
               (b, d) \<leftarrow> txq_getc d;
               putc_poll P b d }
             else Some d);
       (r, qp) \<leftarrow> intq_putc byte (txq d) (proc d);
       let d = set_txq qp d;
       (case r of
          Returns u \<Rightarrow> do { d \<leftarrow> serial_putc_end P old_level d; Some (Returns u, d) }
        | r \<Rightarrow> Some (r, d)) } }"

partial_function (option) flush_loop :: "'w ports \<Rightarrow> 'w devices \<Rightarrow> 'w devices option" where
  "flush_loop P d =
     intq_empty (txq d) (proc d) \<bind> (\<lambda>e.
       if e then Some d
       else txq_getc d \<bind> (\<lambda>(b, d). putc_poll P b d \<bind> flush_loop P))"

definition serial_flush :: "'w ports \<Rightarrow> 'w devices \<Rightarrow> 'w devices option" where
  "serial_flush P d = do {
     let old_level = intr_on (proc d);
     d \<leftarrow> flush_loop P (set_intr False d);
     Some (set_intr old_level d) }"

section \<open>The input buffer\<close>

definition input_init :: "'w devices \<Rightarrow> 'w devices" where
  "input_init d = d\<lparr>buffer := intq_init (buffer d)\<rparr>"

definition input_putc :: "'w ports \<Rightarrow> u8 \<Rightarrow> 'w devices \<Rightarrow> 'w devices option" where
  "input_putc P key d = do {
     ASSERT (\<not> intr_on (proc d));
     full \<leftarrow> intq_full (buffer d) (proc d);
     ASSERT (\<not> full);
     (r, qp) \<leftarrow> intq_putc key (buffer d) (proc d);
     (case r of Returns _ \<Rightarrow> serial_notify P (set_buffer qp d) | _ \<Rightarrow> None) }"

definition input_getc_end :: "'w ports \<Rightarrow> bool \<Rightarrow> 'w devices \<Rightarrow> 'w devices option" where
  "input_getc_end P old_level d = do { d \<leftarrow> serial_notify P d; Some (set_intr old_level d) }"

definition input_getc :: "'w ports \<Rightarrow> 'w devices \<Rightarrow> (u8 outcome \<times> 'w devices) option" where
  "input_getc P d = do {
     let old_level = intr_on (proc d);
     let d = set_intr False d;
     (r, qp) \<leftarrow> intq_getc (buffer d) (proc d);
     let d = set_buffer qp d;
     (case r of
        Returns key \<Rightarrow> do { d \<leftarrow> input_getc_end P old_level d; Some (Returns key, d) }
      | r \<Rightarrow> Some (r, d)) }"

section \<open>The serial interrupt\<close>

partial_function (option) receive_loop :: "'w ports \<Rightarrow> 'w devices \<Rightarrow> 'w devices option" where
  "receive_loop P d =
     input_full d \<bind> (\<lambda>full.
       if full then Some d
       else let (v, d) = inb P LSR_REG d in
         if v AND LSR_DR = 0 then Some d
         else let (byte, d) = inb P RBR_REG d in input_putc P byte d \<bind> receive_loop P)"

partial_function (option) transmit_loop :: "'w ports \<Rightarrow> 'w devices \<Rightarrow> 'w devices option" where
  "transmit_loop P d =
     intq_empty (txq d) (proc d) \<bind> (\<lambda>e.
       if e then Some d
       else let (v, d) = inb P LSR_REG d in
         if v AND LSR_THRE = 0 then Some d
         else txq_getc d \<bind> (\<lambda>(byte, d). transmit_loop P (outb P THR_REG byte d)))"

definition serial_interrupt :: "'w ports \<Rightarrow> 'w devices \<Rightarrow> 'w devices option" where
  "serial_interrupt P d = do {
     let (v, d) = inb P IIR_REG d;
     d \<leftarrow> receive_loop P d;
     d \<leftarrow> transmit_loop P d;
     write_ier P d }"

section \<open>The keyboard\<close>

abbreviation DATA_REG :: u16 where "DATA_REG \<equiv> 0x60"

definition tolower :: "u8 \<Rightarrow> u8" where
  "tolower c = (if 65 \<le> c \<and> c \<le> 90 then c - 65 + 97 else c)"

text \<open>The tables, without the entries that end them; the characters are those of the C strings.\<close>

type_synonym keymap = "(u32 \<times> string) list"

definition invariant_keymap :: keymap where
  "invariant_keymap =
     [(0x01, [CHR 0x1B]), (0x0e, [CHR 0x08]), (0x0f, CHR 0x09 # ''QWERTYUIOP''), (0x1c, [CHR 0x0D]),
      (0x1e, ''ASDFGHJKL''), (0x2c, ''ZXCVBNM''), (0x37, ''*''), (0x39, '' '')]"

definition unshifted_keymap :: keymap where
  "unshifted_keymap =
     [(0x02, ''1234567890-=''), (0x1a, ''[]''), (0x27, [CHR 0x3B, CHR 0x27, CHR 0x60]), (0x2b, [CHR 0x5C]),
      (0x33, '',./'')]"

definition shifted_keymap :: keymap where
  "shifted_keymap =
     [(0x02, ''!@#$%^&*()_+''), (0x1a, ''{}''), (0x27, [CHR 0x3A, CHR 0x22, CHR 0x7E]), (0x2b, ''|''),
      (0x33, ''<>?'')]"

fun map_key :: "keymap \<Rightarrow> u32 \<Rightarrow> u8 option" where
  "map_key [] scancode = None"
| "map_key ((first, chars) # k) scancode =
     (if first \<le> scancode \<and> unat scancode < unat first + length chars
      then Some (of_char (chars ! unat (scancode - first))) else map_key k scancode)"

definition shift_keys :: "(u32 \<times> (bool \<Rightarrow> 'w devices \<Rightarrow> 'w devices)) list" where
  "shift_keys =
     [(0x2a, \<lambda>v. left_shift_update (\<lambda>_. v)), (0x36, \<lambda>v. right_shift_update (\<lambda>_. v)),
      (0x38, \<lambda>v. left_alt_update (\<lambda>_. v)), (0xe038, \<lambda>v. right_alt_update (\<lambda>_. v)),
      (0x1d, \<lambda>v. left_ctrl_update (\<lambda>_. v)), (0xe01d, \<lambda>v. right_ctrl_update (\<lambda>_. v))]"

definition press_shift_key :: "u32 \<Rightarrow> bool \<Rightarrow> 'w devices \<Rightarrow> 'w devices" where
  "press_shift_key code release d =
     (case map_of shift_keys code of None \<Rightarrow> d | Some set_var \<Rightarrow> set_var (\<not> release) d)"

definition key_code :: "'w ports \<Rightarrow> 'w devices \<Rightarrow> u32 \<times> 'w devices" where
  "key_code P d =
     (let (v, d) = inb P DATA_REG d; code = ucast v
      in if code = 0xe0 then let (v, d) = inb P DATA_REG d in (push_bit 8 code OR ucast v, d) else (code, d))"

definition key_char :: "bool \<Rightarrow> u32 \<Rightarrow> u8 option" where
  "key_char shift code =
     (case map_key invariant_keymap code of
        Some c \<Rightarrow> Some c
      | None \<Rightarrow> if shift then map_key shifted_keymap code else map_key unshifted_keymap code)"

definition modified :: "bool \<Rightarrow> bool \<Rightarrow> bool \<Rightarrow> bool \<Rightarrow> u8 \<Rightarrow> u8" where
  "modified ctrl shift caps alt c =
     (let c = (if ctrl \<and> 0x40 \<le> c \<and> c < 0x60 then c - 0x40 else if shift = caps then tolower c else c)
      in if alt then c + 0x80 else c)"

definition keyboard_interrupt :: "'w ports \<Rightarrow> 'w devices \<Rightarrow> 'w devices option" where
  "keyboard_interrupt P d = do {
     let shift = (left_shift d \<or> right_shift d);
     let alt = (left_alt d \<or> right_alt d);
     let ctrl = (left_ctrl d \<or> right_ctrl d);
     let (code, d) = key_code P d;
     let release = (code AND 0x80 \<noteq> 0);
     let code = code AND NOT 0x80;
     if code = 0x3a then Some (if \<not> release then d\<lparr>caps_lock := \<not> caps_lock d\<rparr> else d)
     else (case key_char shift code of
             Some c \<Rightarrow>
               if release then Some d
               else do {
                 let c = modified ctrl shift (caps_lock d) alt c;
                 full \<leftarrow> input_full d;
                 if \<not> full then input_putc P c (d\<lparr>key_cnt := key_cnt d + 1\<rparr>) else Some d }
           | None \<Rightarrow> Some (press_shift_key code release d)) }"

end
