(* ===== verification/ChardevProps.thy ===== *)
theory ChardevProps
  imports Chardev
begin

text \<open>
  Character devices keep the bytes in order: what \<open>serial_putc\<close> is given is what the UART is
  given, what the UART and the keyboard deliver is what is in the input buffer. The loops of the
  interrupt handler end, and the handlers never panic.
\<close>

section \<open>States\<close>

definition sleepers :: "'w devices \<Rightarrow> addr list" where
  "sleepers d = List.map_filter id [not_full (buffer d), not_empty (buffer d), not_full (txq d), not_empty (txq d)]"

text \<open>Interrupts are off, and no thread waits for two conditions.\<close>

definition devices_ok :: "'w devices \<Rightarrow> bool" where
  "devices_ok d \<longleftrightarrow> intq_ok (buffer d) \<and> intq_ok (txq d) \<and> \<not> intr_on (proc d) \<and>
     distinct (sleepers d) \<and> set (sleepers d) \<subseteq> blocked (proc d)"

text \<open>The fields an operation on the queues does not touch.\<close>

definition same_keys :: "'w devices \<Rightarrow> 'w devices \<Rightarrow> bool" where
  "same_keys d d' \<longleftrightarrow> d' = d\<lparr>buffer := buffer d', txq := txq d', proc := proc d', hw := hw d'\<rparr>"

lemma same_keys_refl: "same_keys d d" by (simp add: same_keys_def)

lemma same_keys_trans: "same_keys d d' \<Longrightarrow> same_keys d' d'' \<Longrightarrow> same_keys d d''"
  unfolding same_keys_def by (cases d; cases d'; cases d'') simp

lemma devices_ok_waiters:
  assumes "devices_ok d"
  shows "waiter_asleep c (buffer d) (proc d)" "waiter_asleep c (txq d) (proc d)"
  using assms by (cases c; auto simp: devices_ok_def waiter_asleep_def sleepers_def List.map_filter_def)+

lemma port_simps [simp]:
  "buffer (outb P port v d) = buffer d" "txq (outb P port v d) = txq d" "proc (outb P port v d) = proc d"
  "mode (outb P port v d) = mode d" "hw (outb P port v d) = port_out P port v (hw d)"
  "devices_ok (outb P port v d) = devices_ok d" "same_keys d' (outb P port v d) = same_keys d' d"
  "same_keys (outb P port v d) d' = same_keys d d'"
  by (cases d; cases d'; simp add: outb_def devices_ok_def sleepers_def same_keys_def)+

lemma inb_simps:
  "inb P port d = (fst (port_in P port (hw d)), d\<lparr>hw := snd (port_in P port (hw d))\<rparr>)"
  by (simp add: inb_def split: prod.splits)

lemma hw_simps [simp]: "devices_ok (d\<lparr>hw := w\<rparr>) = devices_ok d" "same_keys d' (d\<lparr>hw := w\<rparr>) = same_keys d' d"
  by (cases d; cases d'; simp add: devices_ok_def sleepers_def same_keys_def)+

text \<open>A byte out of the transmit queue and a byte into the input buffer.\<close>

lemma txq_getc_byte:
  assumes d: "devices_ok d" and c: "contents (txq d) \<noteq> []"
  shows "\<exists>d'. txq_getc d = Some (hd (contents (txq d)), d') \<and> devices_ok d' \<and> same_keys d d' \<and> hw d' = hw d \<and>
    buffer d' = buffer d \<and> contents (txq d') = tl (contents (txq d))"
proof -
  have o: "intq_ok (txq d)" "\<not> intr_on (proc d)" using d by (auto simp: devices_ok_def)
  obtain q' where q': "getc_loop (txq d) (proc d) =
      Some (Returns (hd (contents (txq d))), q', (proc d)\<lparr>blocked := woken NotFull (txq d) (blocked (proc d))\<rparr>)"
    "intq_ok q'" "contents q' = tl (contents (txq d))" "not_full q' = None" "not_empty q' = not_empty (txq d)"
    using getc_loop_byte [OF o(2,1) c devices_ok_waiters(2) [OF d]] by blast
  let ?d = "set_txq (q', (proc d)\<lparr>blocked := woken NotFull (txq d) (blocked (proc d))\<rparr>) d"
  have "devices_ok ?d" using d q'
    by (cases "not_full (txq d)") (auto simp: devices_ok_def set_txq_def sleepers_def List.map_filter_def woken_def split: option.splits)
  then show ?thesis using q' o by (simp add: txq_getc_def intq_getc_def set_txq_def same_keys_def)
qed

lemma buffer_putc_byte:
  assumes d: "devices_ok d" and c: "length (contents (buffer d)) \<noteq> 63"
  shows "\<exists>qp. intq_putc b (buffer d) (proc d) = Some (Returns (), qp) \<and> devices_ok (set_buffer qp d) \<and>
    contents (fst qp) = contents (buffer d) @ [b]"
proof -
  have o: "intq_ok (buffer d)" "\<not> intr_on (proc d)" using d by (auto simp: devices_ok_def)
  obtain q' where q': "putc_loop b (buffer d) (proc d) =
      Some (Returns (), q', (proc d)\<lparr>blocked := woken NotEmpty (buffer d) (blocked (proc d))\<rparr>)"
    "intq_ok q'" "contents q' = contents (buffer d) @ [b]" "not_empty q' = None" "not_full q' = not_full (buffer d)"
    using putc_loop_byte [OF o(2,1) c devices_ok_waiters(1) [OF d], of b] by blast
  have "devices_ok (set_buffer (q', (proc d)\<lparr>blocked := woken NotEmpty (buffer d) (blocked (proc d))\<rparr>) d)" using d q'
    by (cases "not_empty (buffer d)") (auto simp: devices_ok_def set_buffer_def sleepers_def List.map_filter_def woken_def split: option.splits)
  then show ?thesis using q' o by (simp add: intq_putc_def)
qed

text \<open>The interrupts the UART is told to raise.\<close>

definition ier_of :: "'w devices \<Rightarrow> u8" where
  "ier_of d = (if contents (txq d) = [] then 0 else IER_XMIT) OR
     (if length (contents (buffer d)) = 63 then 0 else IER_RECV)"

lemma write_ier_spec: "devices_ok d \<Longrightarrow> write_ier P d = Some (outb P IER_REG (ier_of d) d)"
  using empty_contents [of "txq d"] full_contents [of "buffer d"]
  by (auto simp: write_ier_def devices_ok_def intq_empty_def intq_full_def input_full_def ier_of_def)

lemma input_full_spec: "devices_ok d \<Longrightarrow> input_full d = Some (length (contents (buffer d)) = 63)"
  using full_contents [of "buffer d"] by (auto simp: input_full_def intq_full_def devices_ok_def)

definition notified :: "'w ports \<Rightarrow> 'w devices \<Rightarrow> 'w" where
  "notified P d = (if mode d = QUEUE then port_out P IER_REG (ier_of d) (hw d) else hw d)"

lemma serial_notify_spec: "devices_ok d \<Longrightarrow> serial_notify P d = Some (d\<lparr>hw := notified P d\<rparr>)"
  by (auto simp: serial_notify_def write_ier_spec notified_def devices_ok_def outb_def)

lemma buffer_simps [simp]:
  "buffer (set_buffer qp d) = fst qp" "txq (set_buffer qp d) = txq d" "hw (set_buffer qp d) = hw d"
  "mode (set_buffer qp d) = mode d" "same_keys d (set_buffer qp d)"
  by (simp_all add: set_buffer_def same_keys_def)

lemma input_putc_spec:
  assumes d: "devices_ok d" and c: "length (contents (buffer d)) \<noteq> 63"
  shows "\<exists>d'. input_putc P b d = Some d' \<and> devices_ok d' \<and> same_keys d d' \<and> txq d' = txq d \<and>
    contents (buffer d') = contents (buffer d) @ [b] \<and>
    hw d' = (if mode d = QUEUE then port_out P IER_REG (ier_of d') (hw d) else hw d)"
proof -
  obtain qp where qp: "intq_putc b (buffer d) (proc d) = Some (Returns (), qp)" "devices_ok (set_buffer qp d)"
    "contents (fst qp) = contents (buffer d) @ [b]" using buffer_putc_byte [OF d c, of b] by blast
  let ?d = "set_buffer qp d"
  have "input_putc P b d = Some (?d\<lparr>hw := notified P ?d\<rparr>)"
    using d c qp full_contents [of "buffer d"] serial_notify_spec [OF qp(2), of P]
    by (simp add: input_putc_def intq_full_def devices_ok_def)
  then show ?thesis using qp by (simp add: notified_def ier_of_def)
qed

section \<open>The UART\<close>

text \<open>
  What the driver relies on, for a device with the observable state \<open>sent\<close> (the bytes sent), \<open>received\<close> (the bytes
  the driver has taken), \<open>vacant\<close> (the transmit register can take a byte) and \<open>ready\<close> (the receive register
  holds a byte). Only while \<open>vacant\<close> does a write of the transmit register send the byte, and only while \<open>ready\<close>
  does a read of the receive register take one; nothing is said of an access at another time. The bits
  of the line status register tell the two, and hold until the next access. The registers of status and of interrupts
  neither send nor take a byte, and polling finds an empty transmit register after some time.
\<close>

definition polled :: "'w ports \<Rightarrow> 'w \<Rightarrow> 'w" where
  "polled P w = snd (port_in P LSR_REG w)"

definition uart :: "'w ports \<Rightarrow> ('w \<Rightarrow> u8 list) \<Rightarrow> ('w \<Rightarrow> u8 list) \<Rightarrow> ('w \<Rightarrow> bool) \<Rightarrow> ('w \<Rightarrow> bool) \<Rightarrow> bool" where
  "uart P sent received vacant ready \<longleftrightarrow>
     (\<forall>w b. vacant w \<longrightarrow> sent (port_out P THR_REG b w) = sent w @ [b] \<and> received (port_out P THR_REG b w) = received w) \<and>
     (\<forall>w b. sent (port_out P IER_REG b w) = sent w \<and> received (port_out P IER_REG b w) = received w) \<and>
     (\<forall>w. ready w \<longrightarrow> sent (snd (port_in P RBR_REG w)) = sent w \<and>
          received (snd (port_in P RBR_REG w)) = received w @ [fst (port_in P RBR_REG w)]) \<and>
     (\<forall>w. sent (snd (port_in P IIR_REG w)) = sent w \<and> received (snd (port_in P IIR_REG w)) = received w) \<and>
     (\<forall>w. sent (polled P w) = sent w \<and> received (polled P w) = received w) \<and>
     (\<forall>w. fst (port_in P LSR_REG w) AND LSR_THRE \<noteq> 0 \<longrightarrow> vacant (polled P w)) \<and>
     (\<forall>w. fst (port_in P LSR_REG w) AND LSR_DR \<noteq> 0 \<longrightarrow> ready (polled P w)) \<and>
     (\<forall>w. \<exists>n. fst (port_in P LSR_REG ((polled P ^^ n) w)) AND LSR_THRE \<noteq> 0)"

lemma uart_simps:
  assumes "uart P sent received vacant ready"
  shows "vacant w \<Longrightarrow> sent (port_out P THR_REG b w) = sent w @ [b]"
    "vacant w \<Longrightarrow> received (port_out P THR_REG b w) = received w"
    "sent (port_out P IER_REG b w) = sent w" "received (port_out P IER_REG b w) = received w"
    "ready w \<Longrightarrow> sent (snd (port_in P RBR_REG w)) = sent w"
    "ready w \<Longrightarrow> received (snd (port_in P RBR_REG w)) = received w @ [fst (port_in P RBR_REG w)]"
    "sent (snd (port_in P IIR_REG w)) = sent w" "received (snd (port_in P IIR_REG w)) = received w"
    "sent (snd (port_in P LSR_REG w)) = sent w" "received (snd (port_in P LSR_REG w)) = received w"
    "sent (polled P w) = sent w" "received (polled P w) = received w"
    "fst (port_in P LSR_REG w) AND LSR_THRE \<noteq> 0 \<Longrightarrow> vacant (snd (port_in P LSR_REG w))"
    "fst (port_in P LSR_REG w) AND LSR_DR \<noteq> 0 \<Longrightarrow> ready (snd (port_in P LSR_REG w))"
    "\<exists>n. fst (port_in P LSR_REG ((polled P ^^ n) w)) AND LSR_THRE \<noteq> 0"
  using assms unfolding uart_def polled_def by blast+

text \<open>What a step does to the bytes: \<open>out\<close> goes through the transmit queue, \<open>bs\<close> come in.\<close>

definition keeps_order :: "('w \<Rightarrow> u8 list) \<Rightarrow> ('w \<Rightarrow> u8 list) \<Rightarrow> u8 list \<Rightarrow> 'w devices \<Rightarrow> 'w devices \<Rightarrow> bool" where
  "keeps_order sent received given d d' \<longleftrightarrow> devices_ok d' \<and> same_keys d d' \<and>
     sent (hw d') @ contents (txq d') = sent (hw d) @ contents (txq d) @ given \<and>
     (\<exists>bs. received (hw d') = received (hw d) @ bs \<and> contents (buffer d') = contents (buffer d) @ bs)"

lemma keeps_order_trans:
  "keeps_order sent received xs d d' \<Longrightarrow> keeps_order sent received ys d' d'' \<Longrightarrow> keeps_order sent received (xs @ ys) d d''"
  unfolding keeps_order_def using same_keys_trans by fastforce

lemma keeps_order_refl: "devices_ok d \<Longrightarrow> keeps_order sent received [] d d"
  by (simp add: keeps_order_def same_keys_refl)

lemma keeps_order_hw:
  "devices_ok d \<Longrightarrow> sent w = sent (hw d) \<Longrightarrow> received w = received (hw d) \<Longrightarrow> keeps_order sent received [] d (d\<lparr>hw := w\<rparr>)"
  by (simp add: keeps_order_def same_keys_refl)

lemma write_ier_order:
  "uart P sent received vacant ready \<Longrightarrow> devices_ok d \<Longrightarrow> \<exists>d'. write_ier P d = Some d' \<and> keeps_order sent received [] d d'"
  by (simp add: write_ier_spec keeps_order_def same_keys_refl uart_simps)

lemma receive_byte_order:
  assumes u: "uart P sent received vacant ready" and d: "devices_ok d" and c: "length (contents (buffer d)) \<noteq> 63"
    and r: "ready (hw d)"
  shows "\<exists>d'. input_putc P (fst (port_in P RBR_REG (hw d))) (d\<lparr>hw := snd (port_in P RBR_REG (hw d))\<rparr>) = Some d' \<and>
    keeps_order sent received [] d d' \<and> length (contents (buffer d')) = Suc (length (contents (buffer d)))"
proof -
  let ?b = "fst (port_in P RBR_REG (hw d))" and ?d = "d\<lparr>hw := snd (port_in P RBR_REG (hw d))\<rparr>"
  obtain d' where d': "input_putc P ?b ?d = Some d'" "devices_ok d'" "same_keys ?d d'" "txq d' = txq ?d"
    "contents (buffer d') = contents (buffer ?d) @ [?b]"
    "hw d' = (if mode ?d = QUEUE then port_out P IER_REG (ier_of d') (hw ?d) else hw ?d)"
    using input_putc_spec [of ?d P ?b] d c by auto
  have "same_keys d d'" using d'(3) by (rule same_keys_trans [rotated]) (simp add: same_keys_refl)
  then show ?thesis using d' r uart_simps [OF u] by (auto simp: keeps_order_def)
qed

lemma receive_loop_order:
  assumes u: "uart P sent received vacant ready" and "devices_ok d"
  shows "\<exists>d'. receive_loop P d = Some d' \<and> keeps_order sent received [] d d'"
  using assms(2)
proof (induction "63 - length (contents (buffer d))" arbitrary: d rule: less_induct)
  case less
  note d = less.prems
  let ?w = "snd (port_in P LSR_REG (hw d))"
  let ?d = "d\<lparr>hw := ?w\<rparr>"
  have h: "keeps_order sent received [] d ?d" using d u by (intro keeps_order_hw) (simp_all add: uart_simps)
  have f: "input_full d = Some (length (contents (buffer d)) = 63)" by (rule input_full_spec [OF d])
  show ?case
  proof (cases "length (contents (buffer d)) = 63 \<or> fst (port_in P LSR_REG (hw d)) AND LSR_DR = 0")
    case True
    then show ?thesis using f h keeps_order_refl [OF d]
      by (subst receive_loop.simps) (auto simp: inb_simps Let_def)
  next
    case False
    then have c: "length (contents (buffer ?d)) \<noteq> 63" by simp
    have l: "length (contents (buffer d)) < 63" using False intq_count_less [of "buffer d"] by (auto simp: length_contents)
    obtain d1 where d1: "input_putc P (fst (port_in P RBR_REG (hw ?d))) (?d\<lparr>hw := snd (port_in P RBR_REG (hw ?d))\<rparr>) = Some d1"
      "keeps_order sent received [] ?d d1" "length (contents (buffer d1)) = Suc (length (contents (buffer ?d)))"
      using receive_byte_order [OF u _ c] d uart_simps(14) [OF u, of "hw d"] False by auto
    then have "63 - length (contents (buffer d1)) < 63 - length (contents (buffer d))" "devices_ok d1"
      using l by (simp_all add: keeps_order_def)
    then obtain d2 where d2: "receive_loop P d1 = Some d2" "keeps_order sent received [] d1 d2"
      using less.hyps [of d1] by blast
    have "keeps_order sent received [] d d2"
      using keeps_order_trans [OF keeps_order_trans [OF h d1(2)] d2(2)] by simp
    then show ?thesis using False f d1(1) d2(1) by (subst receive_loop.simps) (simp add: inb_simps Let_def)
  qed
qed

lemma txq_getc_order:
  assumes u: "uart P sent received vacant ready" and d: "devices_ok d" and c: "contents (txq d) \<noteq> []"
  shows "\<exists>b d'. txq_getc d = Some (b, d') \<and> devices_ok d' \<and> hw d' = hw d \<and>
    (\<forall>w. vacant w \<longrightarrow> sent w = sent (hw d) \<longrightarrow> received w = received (hw d) \<longrightarrow>
       keeps_order sent received [] d (outb P THR_REG b (d'\<lparr>hw := w\<rparr>))) \<and>
    length (contents (txq d)) = Suc (length (contents (txq d')))"
proof -
  obtain d' where d': "txq_getc d = Some (hd (contents (txq d)), d')" "devices_ok d'" "same_keys d d'" "hw d' = hw d"
    "buffer d' = buffer d" "contents (txq d') = tl (contents (txq d))" using txq_getc_byte [OF d c] by blast
  moreover have "contents (txq d) = hd (contents (txq d)) # tl (contents (txq d))" using c by simp
  ultimately have "keeps_order sent received [] d (outb P THR_REG (hd (contents (txq d))) (d'\<lparr>hw := w\<rparr>))"
    if "vacant w" "sent w = sent (hw d)" "received w = received (hw d)" for w
    using that uart_simps(1,2) [OF u that(1)] by (simp add: keeps_order_def)
  then show ?thesis using d' c by simp
qed

lemma transmit_loop_order:
  assumes u: "uart P sent received vacant ready" and "devices_ok d"
  shows "\<exists>d'. transmit_loop P d = Some d' \<and> keeps_order sent received [] d d'"
  using assms(2)
proof (induction "length (contents (txq d))" arbitrary: d rule: less_induct)
  case less
  note d = less.prems
  let ?d = "d\<lparr>hw := snd (port_in P LSR_REG (hw d))\<rparr>"
  have h: "keeps_order sent received [] d ?d" using d u by (intro keeps_order_hw) (simp_all add: uart_simps)
  have e: "intq_empty (txq d) (proc d) = Some (contents (txq d) = [])"
    using d empty_contents [of "txq d"] by (simp add: intq_empty_def devices_ok_def)
  show ?case
  proof (cases "contents (txq d) = [] \<or> fst (port_in P LSR_REG (hw d)) AND LSR_THRE = 0")
    case True
    then show ?thesis using e h keeps_order_refl [OF d] by (subst transmit_loop.simps) (auto simp: inb_simps Let_def)
  next
    case False
    obtain b d1 where b: "txq_getc ?d = Some (b, d1)" "devices_ok d1" "hw d1 = hw ?d"
      "\<forall>w. vacant w \<longrightarrow> sent w = sent (hw ?d) \<longrightarrow> received w = received (hw ?d) \<longrightarrow>
        keeps_order sent received [] ?d (outb P THR_REG b (d1\<lparr>hw := w\<rparr>))"
      "length (contents (txq ?d)) = Suc (length (contents (txq d1)))"
      using txq_getc_order [OF u, of ?d] d False by auto
    have "vacant (hw d1)" using uart_simps(13) [OF u, of "hw d"] False b(3) by simp
    then have "keeps_order sent received [] ?d (outb P THR_REG b (d1\<lparr>hw := hw d1\<rparr>))" using b(3,4) by simp
    moreover have "d1\<lparr>hw := hw d1\<rparr> = d1" by simp
    ultimately have d1: "txq_getc ?d = Some (b, d1)" "devices_ok d1"
      "keeps_order sent received [] ?d (outb P THR_REG b d1)" "length (contents (txq ?d)) = Suc (length (contents (txq d1)))"
      using b(1,2,5) by (simp_all only:)
    then obtain d2 where d2: "transmit_loop P (outb P THR_REG b d1) = Some d2"
      "keeps_order sent received [] (outb P THR_REG b d1) d2" using less.hyps [of "outb P THR_REG b d1"] by auto
    have "keeps_order sent received [] d d2"
      using keeps_order_trans [OF keeps_order_trans [OF h d1(3)] d2(2)] by simp
    then show ?thesis using False e d1(1) d2(1) by (subst transmit_loop.simps) (simp add: inb_simps Let_def)
  qed
qed

lemma serial_interrupt_order:
  assumes u: "uart P sent received vacant ready" and d: "devices_ok d"
  shows "\<exists>d'. serial_interrupt P d = Some d' \<and> keeps_order sent received [] d d'"
proof -
  let ?d = "d\<lparr>hw := snd (port_in P IIR_REG (hw d))\<rparr>"
  have h: "keeps_order sent received [] d ?d" using d u by (intro keeps_order_hw) (simp_all add: uart_simps)
  obtain d1 where d1: "receive_loop P ?d = Some d1" "keeps_order sent received [] ?d d1"
    using receive_loop_order [OF u, of ?d] d by auto
  obtain d2 where d2: "transmit_loop P d1 = Some d2" "keeps_order sent received [] d1 d2"
    using transmit_loop_order [OF u, of d1] d1 by (auto simp: keeps_order_def)
  obtain d3 where d3: "write_ier P d2 = Some d3" "keeps_order sent received [] d2 d3"
    using write_ier_order [OF u, of d2] d2 by (auto simp: keeps_order_def)
  have "keeps_order sent received [] d d3"
    using keeps_order_trans [OF h keeps_order_trans [OF d1(2) keeps_order_trans [OF d2(2) d3(2)]]] by simp
  then show ?thesis using d1(1) d2(1) d3(1) by (simp add: serial_interrupt_def inb_simps)
qed

section \<open>Polling\<close>

lemma poll_ready_returns:
  assumes u: "uart P sent received vacant ready" and "fst (port_in P LSR_REG ((polled P ^^ n) (hw d))) AND LSR_THRE \<noteq> 0"
  shows "\<exists>w. poll_ready P d = Some (d\<lparr>hw := w\<rparr>) \<and> vacant w \<and> sent w = sent (hw d) \<and> received w = received (hw d)"
  using assms(2)
proof (induction n arbitrary: d)
  case 0
  then show ?case using uart_simps [OF u] by (subst poll_ready.simps) (auto simp: inb_simps)
next
  case (Suc n)
  let ?d = "d\<lparr>hw := polled P (hw d)\<rparr>"
  have "fst (port_in P LSR_REG ((polled P ^^ n) (hw ?d))) AND LSR_THRE \<noteq> 0"
    using Suc.prems by (simp add: funpow_swap1)
  from Suc.IH [OF this] obtain w where w: "poll_ready P ?d = Some (d\<lparr>hw := w\<rparr>)"
    "vacant w" "sent w = sent (hw d)" "received w = received (hw d)" using u by (auto simp: uart_simps)
  show ?case
  proof (cases "fst (port_in P LSR_REG (hw d)) AND LSR_THRE = 0")
    case True
    then show ?thesis using w by (subst poll_ready.simps) (auto simp: inb_simps polled_def)
  next
    case False
    then show ?thesis using uart_simps [OF u] by (subst poll_ready.simps) (auto simp: inb_simps)
  qed
qed

lemma putc_poll_returns:
  assumes u: "uart P sent received vacant ready" and d: "devices_ok d"
  shows "\<exists>w. putc_poll P b d = Some (outb P THR_REG b (d\<lparr>hw := w\<rparr>)) \<and> vacant w \<and>
    sent w = sent (hw d) \<and> received w = received (hw d)"
proof -
  obtain w where "poll_ready P d = Some (d\<lparr>hw := w\<rparr>)" "vacant w" "sent w = sent (hw d)" "received w = received (hw d)"
    using uart_simps(15) [OF u] poll_ready_returns [OF u] by blast
  then show ?thesis using d by (auto simp: putc_poll_def devices_ok_def)
qed

lemma poll_byte_order:
  assumes u: "uart P sent received vacant ready" and d: "devices_ok d" and c: "contents (txq d) \<noteq> []"
  shows "\<exists>b d1 d'. txq_getc d = Some (b, d1) \<and> putc_poll P b d1 = Some d' \<and> keeps_order sent received [] d d' \<and>
    length (contents (txq d)) = Suc (length (contents (txq d')))"
proof -
  obtain b d1 where d1: "txq_getc d = Some (b, d1)" "devices_ok d1" "hw d1 = hw d"
    "\<forall>w. vacant w \<longrightarrow> sent w = sent (hw d) \<longrightarrow> received w = received (hw d) \<longrightarrow>
      keeps_order sent received [] d (outb P THR_REG b (d1\<lparr>hw := w\<rparr>))"
    "length (contents (txq d)) = Suc (length (contents (txq d1)))" using txq_getc_order [OF u d c] by blast
  obtain w where w: "putc_poll P b d1 = Some (outb P THR_REG b (d1\<lparr>hw := w\<rparr>))" "vacant w" "sent w = sent (hw d1)"
    "received w = received (hw d1)" using putc_poll_returns [OF u d1(2)] by blast
  have "keeps_order sent received [] d (outb P THR_REG b (d1\<lparr>hw := w\<rparr>))"
    using d1(3,4) w by simp
  then show ?thesis using d1 w(1) by auto
qed

lemma flush_loop_order:
  assumes u: "uart P sent received vacant ready" and "devices_ok d"
  shows "\<exists>d'. flush_loop P d = Some d' \<and> keeps_order sent received [] d d' \<and> contents (txq d') = []"
  using assms(2)
proof (induction "length (contents (txq d))" arbitrary: d rule: less_induct)
  case less
  note d = less.prems
  have e: "intq_empty (txq d) (proc d) = Some (contents (txq d) = [])"
    using d empty_contents [of "txq d"] by (simp add: intq_empty_def devices_ok_def)
  show ?case
  proof (cases "contents (txq d) = []")
    case True
    then show ?thesis using e keeps_order_refl [OF d] by (subst flush_loop.simps) simp
  next
    case False
    then obtain b d1 d2 where d2: "txq_getc d = Some (b, d1)" "putc_poll P b d1 = Some d2"
      "keeps_order sent received [] d d2" "length (contents (txq d)) = Suc (length (contents (txq d2)))"
      using poll_byte_order [OF u d] by blast
    then have "length (contents (txq d2)) < length (contents (txq d))" "devices_ok d2"
      by (simp_all add: keeps_order_def)
    from less.hyps [OF this] obtain d3
      where d3: "flush_loop P d2 = Some d3" "keeps_order sent received [] d2 d3" "contents (txq d3) = []" by blast
    have "keeps_order sent received [] d d3" using keeps_order_trans [OF d2(3) d3(2)] by simp
    then show ?thesis using False e d2(1,2) d3 by (subst flush_loop.simps) simp
  qed
qed

section \<open>Sending\<close>

lemma set_intr_id: "\<not> intr_on (proc d) \<Longrightarrow> set_intr False d = d"
  by (cases d; cases "proc d") (simp add: set_intr_def)

lemma txq_putc_byte:
  assumes d: "devices_ok d" and c: "length (contents (txq d)) \<noteq> 63"
  shows "\<exists>qp. intq_putc b (txq d) (proc d) = Some (Returns (), qp) \<and> keeps_order sent received [b] d (set_txq qp d)"
proof -
  have o: "intq_ok (txq d)" "\<not> intr_on (proc d)" using d by (auto simp: devices_ok_def)
  obtain q' where q': "putc_loop b (txq d) (proc d) =
      Some (Returns (), q', (proc d)\<lparr>blocked := woken NotEmpty (txq d) (blocked (proc d))\<rparr>)"
    "intq_ok q'" "contents q' = contents (txq d) @ [b]" "not_empty q' = None" "not_full q' = not_full (txq d)"
    using putc_loop_byte [OF o(2,1) c devices_ok_waiters(2) [OF d], of b] by blast
  let ?d = "set_txq (q', (proc d)\<lparr>blocked := woken NotEmpty (txq d) (blocked (proc d))\<rparr>) d"
  have "devices_ok ?d" using d q'
    by (cases "not_empty (txq d)") (auto simp: devices_ok_def set_txq_def sleepers_def List.map_filter_def woken_def split: option.splits)
  then have "keeps_order sent received [b] d ?d" using q'(3) by (simp add: keeps_order_def set_txq_def same_keys_def)
  then show ?thesis using q'(1) o(2) by (simp add: intq_putc_def)
qed

lemma serial_putc_order:
  assumes u: "uart P sent received vacant ready" and d: "devices_ok d" and m: "mode d = QUEUE"
  shows "\<exists>d'. serial_putc P b d = Some (Returns (), d') \<and> keeps_order sent received [b] d d'"
proof -
  have i: "\<not> intr_on (proc d)" using d by (simp add: devices_ok_def)
  have f: "intq_full (txq d) (proc d) = Some (length (contents (txq d)) = 63)"
    using d full_contents [of "txq d"] by (simp add: intq_full_def devices_ok_def)
  obtain d1 where d1: "(if length (contents (txq d)) = 63 then txq_getc d \<bind> (\<lambda>(b, d). putc_poll P b d) else Some d) = Some d1"
    "keeps_order sent received [] d d1" "length (contents (txq d1)) \<noteq> 63"
  proof (cases "length (contents (txq d)) = 63")
    case True
    then have "contents (txq d) \<noteq> []" by auto
    from poll_byte_order [OF u d this] show ?thesis using that True by auto
  next
    case False
    then show ?thesis using that keeps_order_refl [OF d] by auto
  qed
  have o: "devices_ok d1" using d1(2) by (simp add: keeps_order_def)
  obtain qp where qp: "intq_putc b (txq d1) (proc d1) = Some (Returns (), qp)" "keeps_order sent received [b] d1 (set_txq qp d1)"
    using txq_putc_byte [OF o d1(3)] by blast
  then obtain d2 where d2: "write_ier P (set_txq qp d1) = Some d2" "keeps_order sent received [] (set_txq qp d1) d2"
    using write_ier_order [OF u, of "set_txq qp d1"] by (auto simp: keeps_order_def)
  have k: "keeps_order sent received [b] d d2"
    using keeps_order_trans [OF d1(2) keeps_order_trans [OF qp(2) d2(2)]] by simp
  then have "set_intr False d2 = d2" by (intro set_intr_id) (simp add: keeps_order_def devices_ok_def)
  then have "serial_putc P b d = Some (Returns (), d2)"
    using i m f d1(1) qp(1) d2(1) by (simp add: serial_putc_def serial_putc_end_def set_intr_id split: if_splits)
  then show ?thesis using k by blast
qed

lemma serial_flush_order:
  assumes u: "uart P sent received vacant ready" and d: "devices_ok d"
  shows "\<exists>d'. serial_flush P d = Some d' \<and> keeps_order sent received [] d d' \<and> contents (txq d') = []"
proof -
  obtain d' where d': "flush_loop P d = Some d'" "keeps_order sent received [] d d'" "contents (txq d') = []"
    using flush_loop_order [OF u d] by blast
  moreover have "\<not> intr_on (proc d)" "\<not> intr_on (proc d')" using d d'(2) by (auto simp: keeps_order_def devices_ok_def)
  ultimately show ?thesis by (auto simp: serial_flush_def set_intr_id)
qed

section \<open>Keys\<close>

lemma key_code_order:
  assumes "devices_ok d"
  shows "\<exists>w. snd (key_code P d) = d\<lparr>hw := w\<rparr>"
  by (auto simp: key_code_def inb_simps Let_def)

definition shifted :: "'w devices \<Rightarrow> bool" where "shifted d \<longleftrightarrow> left_shift d \<or> right_shift d"

text \<open>The bytes a key puts into the input buffer.\<close>

definition typed :: "'w devices \<Rightarrow> u32 \<Rightarrow> u8 list" where
  "typed d code =
     (if code AND 0x80 \<noteq> 0 \<or> code AND NOT 0x80 = 0x3a then []
      else case key_char (shifted d) (code AND NOT 0x80) of None \<Rightarrow> []
        | Some c \<Rightarrow> [modified (left_ctrl d \<or> right_ctrl d) (shifted d) (caps_lock d) (left_alt d \<or> right_alt d) c])"

lemma shift_key_queues:
  "(code, f) \<in> set shift_keys \<Longrightarrow> buffer (f v d) = buffer d \<and> txq (f v d) = txq d \<and> proc (f v d) = proc d"
  by (auto simp: shift_keys_def)

lemma press_shift_key_ok:
  "devices_ok (press_shift_key code release d) = devices_ok d" "buffer (press_shift_key code release d) = buffer d"
proof -
  have "buffer (press_shift_key code release d) = buffer d \<and> txq (press_shift_key code release d) = txq d \<and>
      proc (press_shift_key code release d) = proc d"
    using shift_key_queues map_of_SomeD unfolding press_shift_key_def by (fastforce split: option.splits)
  then show "devices_ok (press_shift_key code release d) = devices_ok d"
    "buffer (press_shift_key code release d) = buffer d" by (simp_all add: devices_ok_def sleepers_def)
qed

lemma keyboard_interrupt_typed:
  assumes d: "devices_ok d"
  shows "\<exists>d'. keyboard_interrupt P d = Some d' \<and> devices_ok d' \<and>
    contents (buffer d') = contents (buffer d) @ (if length (contents (buffer d)) = 63 then [] else typed d (fst (key_code P d)))"
proof -
  obtain w where "snd (key_code P d) = d\<lparr>hw := w\<rparr>" using key_code_order [OF d] by blast
  then obtain code where k: "key_code P d = (code, d\<lparr>hw := w\<rparr>)" by (metis prod.collapse)
  let ?d = "d\<lparr>hw := w\<rparr>"
  have f: "input_full ?d = Some (length (contents (buffer d)) = 63)" using d input_full_spec [of ?d] by simp
  have p: "\<exists>d'. input_putc P c (?d\<lparr>key_cnt := key_cnt d + 1\<rparr>) = Some d' \<and> devices_ok d' \<and> contents (buffer d') = contents (buffer d) @ [c]"
    if "length (contents (buffer d)) \<noteq> 63" for c
    using input_putc_spec [of "?d\<lparr>key_cnt := key_cnt d + 1\<rparr>" P c] that d by (auto simp: devices_ok_def sleepers_def)
  have c: "devices_ok (?d\<lparr>caps_lock := b\<rparr>)" for b using d by (simp add: devices_ok_def sleepers_def)
  let ?rel = "code AND 0x80 \<noteq> 0" and ?c = "code AND NOT 0x80"
  let ?m = "modified (left_ctrl d \<or> right_ctrl d) (shifted d) (caps_lock d) (left_alt d \<or> right_alt d)"
  consider (caps) "?c = 0x3a" | (key) c where "?c \<noteq> 0x3a" "key_char (shifted d) ?c = Some c"
    | (other) "?c \<noteq> 0x3a" "key_char (shifted d) ?c = None" by blast
  then show ?thesis
  proof cases
    case caps
    have "keyboard_interrupt P d = Some (if \<not> ?rel then ?d\<lparr>caps_lock := \<not> caps_lock d\<rparr> else ?d)"
      unfolding keyboard_interrupt_def k Let_def prod.case if_P [OF caps] by simp
    then show ?thesis using d c caps by (simp add: k typed_def)
  next
    case key
    have e: "keyboard_interrupt P d = (if ?rel then Some ?d
      else if length (contents (buffer d)) \<noteq> 63 then input_putc P (?m c) (?d\<lparr>key_cnt := key_cnt d + 1\<rparr>) else Some ?d)"
      unfolding keyboard_interrupt_def k Let_def prod.case if_not_P [OF key(1)] key(2) [unfolded shifted_def] option.case f
      by (simp add: shifted_def)
    have t: "typed d code = (if ?rel then [] else [?m c])" using key by (simp add: typed_def)
    show ?thesis using d e t k p [of "?m c"] by (cases ?rel; cases "length (contents (buffer d)) = 63"; simp)
  next
    case other
    have "keyboard_interrupt P d = Some (press_shift_key ?c ?rel ?d)"
      unfolding keyboard_interrupt_def k Let_def prod.case if_not_P [OF other(1)] other(2) [unfolded shifted_def] option.case
      by simp
    then show ?thesis using d other by (simp add: k typed_def press_shift_key_ok)
  qed
qed

section \<open>Properties\<close>

text \<open>
  A slow UART, for the witness: the bytes sent, the bytes received, the bytes to come, and the number of
  polls until the transmit register is empty. A byte written too early is lost, and one read too early is garbage.
\<close>

definition slow_uart :: "(u8 list \<times> u8 list \<times> u8 list \<times> nat) ports" where
  "slow_uart = \<lparr>
     port_in = (\<lambda>port (out, got, todo, busy).
       if port = RBR_REG then
         (if todo = [] then (0, out, got @ [255], todo, busy) else (hd todo, out, got @ [hd todo], tl todo, busy))
       else if port = LSR_REG then
         ((if busy = 0 then LSR_THRE else 0) OR (if todo = [] then 0 else LSR_DR), out, got, todo, busy - 1)
       else (0, out, got, todo, busy)),
     port_out = (\<lambda>port v (out, got, todo, busy).
       if port = THR_REG then (if busy = 0 then (out @ [v], got, todo, 3) else (out, got, todo, busy))
       else (out, got, todo, busy))\<rparr>"

lemma slow_uart_polled: "(polled slow_uart ^^ n) (out, got, todo, busy) = (out, got, todo, busy - n)"
  by (induction n) (simp_all add: polled_def slow_uart_def)

lemma slow_uart_ok: "uart slow_uart fst (\<lambda>w. fst (snd w)) (\<lambda>w. snd (snd (snd w)) = 0) (\<lambda>w. fst (snd (snd w)) \<noteq> [])"
proof -
  have "\<exists>n. fst (port_in slow_uart LSR_REG ((polled slow_uart ^^ n) w)) AND LSR_THRE \<noteq> 0" for w
  proof (cases w)
    case (fields out got todo busy)
    show ?thesis unfolding fields slow_uart_polled by (intro exI [of _ busy]) (simp add: slow_uart_def)
  qed
  then show ?thesis unfolding uart_def by (auto simp: polled_def slow_uart_def split: prod.splits if_splits)
qed

definition idle_devices :: "'w \<Rightarrow> 'w devices" where
  "idle_devices w = \<lparr>buffer = fresh_intq, txq = fresh_intq,
     proc = \<lparr>cur = 1, intr_on = False, intr_context = False, blocked = {}\<rparr>, mode = QUEUE, left_shift = False,
     right_shift = False, left_alt = False, right_alt = False, left_ctrl = False, right_ctrl = False,
     caps_lock = False, key_cnt = 0, hw = w\<rparr>"

text \<open> C25: With interrupts off and the driver in queued mode, on every UART that sends a byte only
  when its transmit register is empty and delivers one only when one is there, as its status register says: \<open>serial_putc\<close>,
  \<open>serial_flush\<close>, the serial interrupt and the keyboard interrupt return and do not panic; the bytes given to
  \<open>serial_putc\<close> are sent or wait in the queue, in their order, the flush sends all of them, and the bytes received
  and the characters typed are appended to the input buffer in their order (a key is dropped when the buffer is full).\<close>

theorem serial_in_order:
  assumes "uart P sent received vacant ready" "devices_ok d" "mode d = QUEUE"
  shows "(\<exists>d'. serial_putc P b d = Some (Returns (), d') \<and> keeps_order sent received [b] d d') \<and>
    (\<exists>d'. serial_flush P d = Some d' \<and> keeps_order sent received [] d d' \<and> contents (txq d') = []) \<and>
    (\<exists>d'. serial_interrupt P d = Some d' \<and> keeps_order sent received [] d d') \<and>
    (\<exists>d'. keyboard_interrupt P d = Some d' \<and> devices_ok d' \<and>
       contents (buffer d') = contents (buffer d) @ (if length (contents (buffer d)) = 63 then [] else typed d (fst (key_code P d))))"
  using serial_putc_order [OF assms] serial_flush_order [OF assms(1,2)] serial_interrupt_order [OF assms(1,2)]
    keyboard_interrupt_typed [OF assms(2)] by blast

text \<open>The queue holds the byte 65, the line has sent 66 and is busy: the flush waits and then sends 65.\<close>

definition sending_devices :: "'w \<Rightarrow> 'w devices" where
  "sending_devices w = (idle_devices w)\<lparr>txq := fresh_intq\<lparr>buf := (buf fresh_intq)[0 := 65], q_head := 1\<rparr>\<rparr>"

theorem serial_in_order_witness:
  "\<exists>d'. serial_flush slow_uart (sending_devices ([66], [], [], 3)) = Some d' \<and> fst (hw d') = [66, 65]"
proof -
  let ?d = "sending_devices ([66 :: u8], [] :: u8 list, [] :: u8 list, 3 :: nat)"
  have c: "contents (txq ?d) = [65]" "hw ?d = ([66], [], [], 3)" by code_simp+
  have d: "devices_ok ?d" "mode ?d = QUEUE"
    by (simp_all add: devices_ok_def sending_devices_def idle_devices_def fresh_intq_def intq_ok_def sleepers_def List.map_filter_def)
  from serial_in_order [OF slow_uart_ok d] obtain d'
    where d': "serial_flush slow_uart ?d = Some d'" "contents (txq d') = []"
      "keeps_order fst (\<lambda>w. fst (snd w)) [] ?d d'" by blast
  then have "fst (hw d') = [66, 65]" using c by (simp add: keeps_order_def)
  then show ?thesis using d'(1) by blast
qed

text \<open>Keys: a letter without modifiers, with Shift, with Ctrl and with Alt.\<close>

lemma typed_letters:
  "typed (idle_devices w) 0x1e = [97]" "typed ((idle_devices w)\<lparr>left_shift := True\<rparr>) 0x1e = [65]"
  "typed ((idle_devices w)\<lparr>caps_lock := True\<rparr>) 0x1e = [65]"
  "typed ((idle_devices w)\<lparr>left_ctrl := True\<rparr>) 0x1e = [1]" "typed ((idle_devices w)\<lparr>left_alt := True\<rparr>) 0x1e = [225]"
  by (simp_all add: typed_def idle_devices_def key_char_def invariant_keymap_def shifted_def modified_def tolower_def)

end
