(* ===== verification/Interrupt.thy ===== *)
theory Interrupt
  imports Prelude
begin

text \<open>
  Interrupts (threads/interrupt.c), the segments and the task state they need (userprog/gdt.c,
  userprog/tss.c) and the registration of exceptions (userprog/exception.c). The addresses of the
  stubs of intr-stubs.S are a function \<open>stubs\<close> from vectors to addresses; handlers are values of a
  type \<open>'h\<close>, and what a handler does is a function that the dispatcher takes as a parameter, like the
  yielding of the processor. \<open>None\<close> is a panic; what is written to ports is in a list.
\<close>

section \<open>Gates\<close>

record gate =
  off_15_0 :: u16
  gate_ss :: u16
  ist :: "3 word"
  rsv1 :: "5 word"
  gate_type :: "4 word"
  gate_s :: "1 word"
  gate_dpl :: "2 word"
  gate_p :: "1 word"
  off_31_16 :: u16
  off_32_63 :: u32
  rsv2 :: u32

abbreviation SEL_NULL :: u16 where "SEL_NULL \<equiv> 0x00"
abbreviation SEL_KCSEG :: u16 where "SEL_KCSEG \<equiv> 0x08"
abbreviation SEL_KDSEG :: u16 where "SEL_KDSEG \<equiv> 0x10"
abbreviation SEL_UDSEG :: u16 where "SEL_UDSEG \<equiv> 0x1B"
abbreviation SEL_UCSEG :: u16 where "SEL_UCSEG \<equiv> 0x23"
abbreviation SEL_TSS :: u16 where "SEL_TSS \<equiv> 0x28"

definition make_gate :: "u64 \<Rightarrow> int \<Rightarrow> int \<Rightarrow> gate option" where
  "make_gate f d t = do {
     ASSERT (f \<noteq> 0);
     ASSERT (0 \<le> d \<and> d \<le> 3);
     ASSERT (0 \<le> t \<and> t \<le> 15);
     Some \<lparr>off_15_0 = ucast (f AND 0xffff), gate_ss = SEL_KCSEG, ist = 0, rsv1 = 0, gate_type = word_of_int t,
       gate_s = 0, gate_dpl = word_of_int d, gate_p = 1, off_31_16 = ucast (drop_bit 16 f AND 0xffff),
       off_32_63 = ucast (drop_bit 32 f AND 0xffffffff), rsv2 = 0\<rparr> }"

definition make_intr_gate :: "u64 \<Rightarrow> int \<Rightarrow> gate option" where "make_intr_gate f dpl = make_gate f dpl 14"

definition make_trap_gate :: "u64 \<Rightarrow> int \<Rightarrow> gate option" where "make_trap_gate f dpl = make_gate f dpl 15"

section \<open>State\<close>

abbreviation INTR_CNT :: nat where "INTR_CNT \<equiv> 256"

record 'h interrupts =
  idt :: "u8 \<Rightarrow> gate"
  intr_handlers :: "u8 \<Rightarrow> 'h option"
  intr_names :: "u8 \<Rightarrow> string"
  intr_level :: bool
  in_external_intr :: bool
  yield_on_return :: bool
  writes :: "(u16 \<times> u8) list"

definition outb :: "u16 \<Rightarrow> u8 \<Rightarrow> 'h interrupts \<Rightarrow> 'h interrupts" where
  "outb port v k = k\<lparr>writes := writes k @ [(port, v)]\<rparr>"

definition intr_get_level :: "'h interrupts \<Rightarrow> bool" where "intr_get_level k = intr_level k"

definition intr_context :: "'h interrupts \<Rightarrow> bool" where "intr_context k = in_external_intr k"

definition intr_enable :: "'h interrupts \<Rightarrow> (bool \<times> 'h interrupts) option" where
  "intr_enable k = do {
     let old_level = intr_get_level k;
     ASSERT (\<not> intr_context k);
     Some (old_level, k\<lparr>intr_level := True\<rparr>) }"

definition intr_disable :: "'h interrupts \<Rightarrow> bool \<times> 'h interrupts" where
  "intr_disable k = (intr_get_level k, k\<lparr>intr_level := False\<rparr>)"

definition intr_set_level :: "bool \<Rightarrow> 'h interrupts \<Rightarrow> (bool \<times> 'h interrupts) option" where
  "intr_set_level level k = (if level then intr_enable k else Some (intr_disable k))"

definition intr_yield_on_return :: "'h interrupts \<Rightarrow> 'h interrupts option" where
  "intr_yield_on_return k = do { ASSERT (intr_context k); Some (k\<lparr>yield_on_return := True\<rparr>) }"

section \<open>The interrupt controllers\<close>

definition pic_init :: "'h interrupts \<Rightarrow> 'h interrupts" where
  "pic_init k = fold (\<lambda>(port, v). outb port v)
     [(0x21, 0xff), (0xa1, 0xff),
      (0x20, 0x11), (0x21, 0x20), (0x21, 0x04), (0x21, 0x01),
      (0xa0, 0x11), (0xa1, 0x28), (0xa1, 0x02), (0xa1, 0x01),
      (0x21, 0x00), (0xa1, 0x00)] k"

definition pic_end_of_interrupt :: "nat \<Rightarrow> 'h interrupts \<Rightarrow> 'h interrupts option" where
  "pic_end_of_interrupt irq k = do {
     ASSERT (0x20 \<le> irq \<and> irq < 0x30);
     let k = outb 0x20 0x20 k;
     Some (if 0x28 \<le> irq then outb 0xa0 0x20 k else k) }"

section \<open>Handlers\<close>

definition set_gate :: "u8 \<Rightarrow> gate \<Rightarrow> 'h interrupts \<Rightarrow> 'h interrupts" where
  "set_gate v g k = k\<lparr>idt := (idt k)(v := g)\<rparr>"

definition set_name :: "u8 \<Rightarrow> string \<Rightarrow> 'h interrupts \<Rightarrow> 'h interrupts" where
  "set_name v n k = k\<lparr>intr_names := (intr_names k)(v := n)\<rparr>"

fun init_gates :: "(u8 \<Rightarrow> u64) \<Rightarrow> nat \<Rightarrow> nat \<Rightarrow> 'h interrupts \<Rightarrow> 'h interrupts option" where
  "init_gates stubs i 0 k = Some k"
| "init_gates stubs i (Suc n) k = do {
     g \<leftarrow> make_intr_gate (stubs (of_nat i)) 0;
     init_gates stubs (i + 1) n (set_name (of_nat i) ''unknown'' (set_gate (of_nat i) g k)) }"

definition exception_names :: "(u8 \<times> string) list" where
  "exception_names =
     [(0, ''#DE Divide Error''), (1, ''#DB Debug Exception''), (2, ''NMI Interrupt''),
      (3, ''#BP Breakpoint Exception''), (4, ''#OF Overflow Exception''),
      (5, ''#BR BOUND Range Exceeded Exception''), (6, ''#UD Invalid Opcode Exception''),
      (7, ''#NM Device Not Available Exception''), (8, ''#DF Double Fault Exception''),
      (9, ''Coprocessor Segment Overrun''), (10, ''#TS Invalid TSS Exception''), (11, ''#NP Segment Not Present''),
      (12, ''#SS Stack Fault Exception''), (13, ''#GP General Protection Exception''),
      (14, ''#PF Page-Fault Exception''), (16, ''#MF x87 FPU Floating-Point Error''),
      (17, ''#AC Alignment Check Exception''), (18, ''#MC Machine-Check Exception''),
      (19, ''#XF SIMD Floating-Point Exception'')]"

text \<open>Loading the registers of the processor with the tables is left out.\<close>

definition intr_init :: "(u8 \<Rightarrow> u64) \<Rightarrow> 'h interrupts \<Rightarrow> 'h interrupts option" where
  "intr_init stubs k = do {
     let k = pic_init k;
     k \<leftarrow> init_gates stubs 0 INTR_CNT k;
     Some (fold (\<lambda>(v, n). set_name v n) exception_names k) }"

definition register_handler ::
    "(u8 \<Rightarrow> u64) \<Rightarrow> u8 \<Rightarrow> int \<Rightarrow> bool \<Rightarrow> 'h \<Rightarrow> string \<Rightarrow> 'h interrupts \<Rightarrow> 'h interrupts option" where
  "register_handler stubs vec_no dpl level handler name k = do {
     ASSERT (intr_handlers k vec_no = None);
     g \<leftarrow> (if level then make_trap_gate (stubs vec_no) dpl else make_intr_gate (stubs vec_no) dpl);
     let k = set_gate vec_no g k;
     let k = k\<lparr>intr_handlers := (intr_handlers k)(vec_no := Some handler)\<rparr>;
     Some (set_name vec_no name k) }"

definition intr_register_ext :: "(u8 \<Rightarrow> u64) \<Rightarrow> u8 \<Rightarrow> 'h \<Rightarrow> string \<Rightarrow> 'h interrupts \<Rightarrow> 'h interrupts option" where
  "intr_register_ext stubs vec_no handler name k = do {
     ASSERT (0x20 \<le> vec_no \<and> vec_no \<le> 0x2f);
     register_handler stubs vec_no 0 False handler name k }"

definition intr_register_int ::
    "(u8 \<Rightarrow> u64) \<Rightarrow> u8 \<Rightarrow> int \<Rightarrow> bool \<Rightarrow> 'h \<Rightarrow> string \<Rightarrow> 'h interrupts \<Rightarrow> 'h interrupts option" where
  "intr_register_int stubs vec_no dpl level handler name k = do {
     ASSERT (vec_no < 0x20 \<or> vec_no > 0x2f);
     register_handler stubs vec_no dpl level handler name k }"

definition intr_name :: "u8 \<Rightarrow> 'h interrupts \<Rightarrow> string" where "intr_name vec k = intr_names k vec"

section \<open>Dispatch\<close>

text \<open>What \<open>intr_handler\<close> does before, in and after the handler; dumping the frame is left out.\<close>

record trap_frame =
  vec_no :: u8
  frame_cs :: u16

definition is_external :: "trap_frame \<Rightarrow> bool" where
  "is_external f \<longleftrightarrow> 0x20 \<le> vec_no f \<and> vec_no f < 0x30"

definition intr_enter :: "trap_frame \<Rightarrow> 'h interrupts \<Rightarrow> 'h interrupts option" where
  "intr_enter f k =
     (if is_external f then do {
        ASSERT (\<not> intr_get_level k);
        ASSERT (\<not> intr_context k);
        Some (k\<lparr>in_external_intr := True, yield_on_return := False\<rparr>) }
      else Some k)"

definition intr_invoke ::
    "('h \<Rightarrow> trap_frame \<Rightarrow> 'h interrupts \<Rightarrow> 'h interrupts option) \<Rightarrow> trap_frame \<Rightarrow> 'h interrupts \<Rightarrow> 'h interrupts option" where
  "intr_invoke run f k =
     (case intr_handlers k (vec_no f) of
        Some handler \<Rightarrow> run handler f k
      | None \<Rightarrow> if vec_no f = 0x27 \<or> vec_no f = 0x2f then Some k else None)"

definition intr_leave ::
    "('h interrupts \<Rightarrow> 'h interrupts option) \<Rightarrow> trap_frame \<Rightarrow> 'h interrupts \<Rightarrow> 'h interrupts option" where
  "intr_leave thread_yield f k =
     (if is_external f then do {
        ASSERT (\<not> intr_get_level k);
        ASSERT (intr_context k);
        let k = k\<lparr>in_external_intr := False\<rparr>;
        k \<leftarrow> pic_end_of_interrupt (unat (vec_no f)) k;
        if yield_on_return k then thread_yield k else Some k }
      else Some k)"

definition intr_handler ::
    "('h \<Rightarrow> trap_frame \<Rightarrow> 'h interrupts \<Rightarrow> 'h interrupts option) \<Rightarrow> ('h interrupts \<Rightarrow> 'h interrupts option) \<Rightarrow>
      trap_frame \<Rightarrow> 'h interrupts \<Rightarrow> 'h interrupts option" where
  "intr_handler run thread_yield f k = do {
     k \<leftarrow> intr_enter f k;
     k \<leftarrow> intr_invoke run f k;
     intr_leave thread_yield f k }"

section \<open>Exceptions\<close>

datatype exception_handler = Kill | PageFault

definition exception_init ::
    "(u8 \<Rightarrow> u64) \<Rightarrow> (exception_handler \<Rightarrow> 'h) \<Rightarrow> 'h interrupts \<Rightarrow> 'h interrupts option" where
  "exception_init stubs handler k = do {
     k \<leftarrow> intr_register_int stubs 3 3 True (handler Kill) ''#BP Breakpoint Exception'' k;
     k \<leftarrow> intr_register_int stubs 4 3 True (handler Kill) ''#OF Overflow Exception'' k;
     k \<leftarrow> intr_register_int stubs 5 3 True (handler Kill) ''#BR BOUND Range Exceeded Exception'' k;
     k \<leftarrow> intr_register_int stubs 0 0 True (handler Kill) ''#DE Divide Error'' k;
     k \<leftarrow> intr_register_int stubs 1 0 True (handler Kill) ''#DB Debug Exception'' k;
     k \<leftarrow> intr_register_int stubs 6 0 True (handler Kill) ''#UD Invalid Opcode Exception'' k;
     k \<leftarrow> intr_register_int stubs 7 0 True (handler Kill) ''#NM Device Not Available Exception'' k;
     k \<leftarrow> intr_register_int stubs 11 0 True (handler Kill) ''#NP Segment Not Present'' k;
     k \<leftarrow> intr_register_int stubs 12 0 True (handler Kill) ''#SS Stack Fault Exception'' k;
     k \<leftarrow> intr_register_int stubs 13 0 True (handler Kill) ''#GP General Protection Exception'' k;
     k \<leftarrow> intr_register_int stubs 16 0 True (handler Kill) ''#MF x87 FPU Floating-Point Error'' k;
     k \<leftarrow> intr_register_int stubs 19 0 True (handler Kill) ''#XF SIMD Floating-Point Exception'' k;
     intr_register_int stubs 14 0 False (handler PageFault) ''#PF Page-Fault Exception'' k }"

text \<open>\<open>kill\<close>, which ends in \<open>thread_exit\<close> or in a panic.\<close>

datatype killed = ThreadExit

definition kill :: "trap_frame \<Rightarrow> killed option" where
  "kill f = (if frame_cs f = SEL_UCSEG then Some ThreadExit
             else if frame_cs f = SEL_KCSEG then None else Some ThreadExit)"

section \<open>Segments and the task state\<close>

record segment_desc =
  lim_15_0 :: u16
  base_15_0 :: u16
  base_23_16 :: u8
  seg_type :: "4 word"
  seg_s :: "1 word"
  seg_dpl :: "2 word"
  seg_p :: "1 word"
  lim_19_16 :: "4 word"
  avl :: "1 word"
  seg_l :: "1 word"
  seg_db :: "1 word"
  seg_g :: "1 word"
  base_31_24 :: u8

definition SEG64 :: "4 word \<Rightarrow> u32 \<Rightarrow> u32 \<Rightarrow> 2 word \<Rightarrow> segment_desc" where
  "SEG64 type base lim dpl =
     \<lparr>lim_15_0 = ucast (drop_bit 12 lim AND 0xffff), base_15_0 = ucast (base AND 0xffff),
      base_23_16 = ucast (drop_bit 16 base AND 0xff), seg_type = type, seg_s = 1, seg_dpl = dpl, seg_p = 1,
      lim_19_16 = ucast (drop_bit 28 lim), avl = 0, seg_l = 1, seg_db = 0, seg_g = 1,
      base_31_24 = ucast (drop_bit 24 base)\<rparr>"

definition null_desc :: segment_desc where
  "null_desc = \<lparr>lim_15_0 = 0, base_15_0 = 0, base_23_16 = 0, seg_type = 0, seg_s = 0, seg_dpl = 0, seg_p = 0,
     lim_19_16 = 0, avl = 0, seg_l = 0, seg_db = 0, seg_g = 0, base_31_24 = 0\<rparr>"

text \<open>The table before \<open>gdt_init\<close>, by the index of its entries.\<close>

definition gdt_entries :: "segment_desc list" where
  "gdt_entries = [null_desc, SEG64 0xa 0 0xffffffff 0, SEG64 0x2 0 0xffffffff 0, SEG64 0x2 0 0xffffffff 3,
     SEG64 0xa 0 0xffffffff 3, null_desc, null_desc, null_desc]"

text \<open>The descriptor of the task state takes two entries; its second half has the high part of the base.\<close>

record tss_descriptor =
  tss_lim_15_0 :: u16
  tss_base_15_0 :: u16
  tss_base_23_16 :: u8
  tss_type :: "4 word"
  tss_s :: "1 word"
  tss_dpl :: "2 word"
  tss_p :: "1 word"
  tss_lim_19_16 :: "4 word"
  tss_avl :: "1 word"
  tss_g :: "1 word"
  tss_base_31_24 :: u8
  tss_base_63_32 :: u32

abbreviation sizeof_task_state :: u64 where "sizeof_task_state \<equiv> 104"

definition tss_desc :: "u64 \<Rightarrow> tss_descriptor" where
  "tss_desc tss =
     \<lparr>tss_lim_15_0 = ucast (sizeof_task_state AND 0xffff), tss_base_15_0 = ucast (tss AND 0xffff),
      tss_base_23_16 = ucast (drop_bit 16 tss AND 0xff), tss_type = 0x9, tss_s = 0, tss_dpl = 0, tss_p = 1,
      tss_lim_19_16 = ucast (drop_bit 16 sizeof_task_state AND 0xf), tss_avl = 0, tss_g = 0,
      tss_base_31_24 = ucast (drop_bit 24 tss AND 0xff), tss_base_63_32 = ucast (drop_bit 32 tss AND 0xffffffff)\<rparr>"

text \<open>The global variable \<open>tss\<close> and the field \<open>rsp0\<close> of the structure it points to.\<close>

record task_state =
  tss :: "u64 option"
  rsp0 :: u64

definition tss_get :: "task_state \<Rightarrow> u64 option" where "tss_get s = tss s"

definition tss_update :: "u64 \<Rightarrow> task_state \<Rightarrow> task_state option" where
  "tss_update nxt s = do { _ \<leftarrow> tss s; Some (s\<lparr>rsp0 := nxt + 4096\<rparr>) }"

text \<open>\<open>page\<close> is what \<open>palloc_get_page\<close> returns; with \<open>PAL_ASSERT\<close> it is not null.\<close>

definition tss_init :: "u64 \<Rightarrow> u64 \<Rightarrow> task_state option" where
  "tss_init page thread_current = tss_update thread_current \<lparr>tss = Some page, rsp0 = 0\<rparr>"

definition gdt_init :: "task_state \<Rightarrow> (segment_desc list \<times> tss_descriptor) option" where
  "gdt_init s = do { t \<leftarrow> tss_get s; Some (gdt_entries, tss_desc t) }"

section \<open>Registration at boot\<close>

abbreviation TIMER_FREQ :: nat where "TIMER_FREQ \<equiv> 100"

datatype handler = TimerInterrupt | KeyboardInterrupt | Exception exception_handler | SerialInterrupt
  | DiskInterrupt | InspectVM | InspectReads | InspectWrites

definition timer_init :: "(u8 \<Rightarrow> u64) \<Rightarrow> handler interrupts \<Rightarrow> handler interrupts option" where
  "timer_init stubs k = do {
     let count = (of_nat ((1193180 + TIMER_FREQ div 2) div TIMER_FREQ) :: u16);
     let k = outb 0x43 0x34 k;
     let k = outb 0x40 (ucast (count AND 0xff)) k;
     let k = outb 0x40 (ucast (drop_bit 8 count)) k;
     intr_register_ext stubs 0x20 TimerInterrupt ''8254 Timer'' k }"

definition kbd_init :: "(u8 \<Rightarrow> u64) \<Rightarrow> handler interrupts \<Rightarrow> handler interrupts option" where
  "kbd_init stubs k = intr_register_ext stubs 0x21 KeyboardInterrupt ''8042 Keyboard'' k"

text \<open>The registrations in \<open>serial_init_queue\<close>, \<open>disk_init\<close> and \<open>register_disk_inspect_intr\<close>.\<close>

definition serial_register :: "(u8 \<Rightarrow> u64) \<Rightarrow> handler interrupts \<Rightarrow> handler interrupts option" where
  "serial_register stubs k = intr_register_ext stubs (0x20 + 4) SerialInterrupt ''serial'' k"

definition disk_register :: "(u8 \<Rightarrow> u64) \<Rightarrow> nat \<Rightarrow> handler interrupts \<Rightarrow> handler interrupts option" where
  "disk_register stubs chan k =
     intr_register_ext stubs (if chan = 0 then 14 + 0x20 else 15 + 0x20) DiskInterrupt
       (if chan = 0 then ''hd0'' else ''hd1'') k"

definition register_disk_inspect_intr :: "(u8 \<Rightarrow> u64) \<Rightarrow> handler interrupts \<Rightarrow> handler interrupts option" where
  "register_disk_inspect_intr stubs k = do {
     k \<leftarrow> intr_register_int stubs 0x43 3 False InspectReads ''Inspect Disk Read Count'' k;
     intr_register_int stubs 0x44 3 False InspectWrites ''Inspect Disk Write Count'' k }"

definition register_inspect_intr :: "(u8 \<Rightarrow> u64) \<Rightarrow> handler interrupts \<Rightarrow> handler interrupts option" where
  "register_inspect_intr stubs k = intr_register_int stubs 0x42 3 False InspectVM ''Inspect Virtual Memory'' k"

text \<open>The calls of \<open>main\<close> that concern interrupts, in their order.\<close>

definition boot_interrupts :: "(u8 \<Rightarrow> u64) \<Rightarrow> handler interrupts \<Rightarrow> handler interrupts option" where
  "boot_interrupts stubs k = do {
     k \<leftarrow> intr_init stubs k;
     k \<leftarrow> timer_init stubs k;
     k \<leftarrow> kbd_init stubs k;
     k \<leftarrow> exception_init stubs Exception k;
     k \<leftarrow> serial_register stubs k;
     k \<leftarrow> disk_register stubs 0 k;
     k \<leftarrow> disk_register stubs 1 k;
     k \<leftarrow> register_disk_inspect_intr stubs k;
     register_inspect_intr stubs k }"

end
