(* ===== verification/InterruptProps.thy ===== *)
theory InterruptProps
  imports Interrupt
begin

text \<open>
  What the tables contain after the kernel has started, and what \<open>intr_handler\<close> does around the
  handler of an external interrupt.
\<close>

section \<open>Gates\<close>

definition gate_of :: "u64 \<Rightarrow> int \<Rightarrow> int \<Rightarrow> gate" where
  "gate_of f d t = \<lparr>off_15_0 = ucast f, gate_ss = SEL_KCSEG, ist = 0, rsv1 = 0, gate_type = word_of_int t,
     gate_s = 0, gate_dpl = word_of_int d, gate_p = 1, off_31_16 = ucast (drop_bit 16 f),
     off_32_63 = ucast (drop_bit 32 f), rsv2 = 0\<rparr>"

text \<open>The address in a gate, as the processor reads it.\<close>

definition gate_offset :: "gate \<Rightarrow> u64" where
  "gate_offset g = ucast (off_15_0 g) OR push_bit 16 (ucast (off_31_16 g)) OR push_bit 32 (ucast (off_32_63 g))"

lemma gate_offset_gate_of: "gate_offset (gate_of f d t) = f"
proof (rule bit_word_eqI)
  fix n assume "n < LENGTH(64)"
  then consider "n < 16" | "16 \<le> n" "n < 32" | "32 \<le> n" "n < 64" by fastforce
  then show "bit (gate_offset (gate_of f d t)) n = bit f n"
    by cases (auto simp: gate_offset_def gate_of_def bit_simps)
qed

lemma ucast_mask:
  "ucast ((x :: u64) AND 0xffff) = (ucast x :: u16)" "ucast ((x :: u64) AND 0xffffffff) = (ucast x :: u32)"
proof -
  have m: "(0xffff :: u64) = mask 16" "(0xffffffff :: u64) = mask 32" by (simp_all add: mask_eq_exp_minus_1)
  have "ucast (x AND mask 16) = (ucast x :: u16)" by (rule bit_word_eqI) (simp add: bit_simps)
  then show "ucast (x AND 0xffff) = (ucast x :: u16)" unfolding m .
  have "ucast (x AND mask 32) = (ucast x :: u32)" by (rule bit_word_eqI) (simp add: bit_simps)
  then show "ucast (x AND 0xffffffff) = (ucast x :: u32)" unfolding m .
qed

lemma make_gate_spec: "f \<noteq> 0 \<Longrightarrow> 0 \<le> d \<Longrightarrow> d \<le> 3 \<Longrightarrow> 0 \<le> t \<Longrightarrow> t \<le> 15 \<Longrightarrow> make_gate f d t = Some (gate_of f d t)"
  by (simp add: make_gate_def gate_of_def ucast_mask)

section \<open>Tables\<close>

lemma init_gates_spec:
  assumes "\<forall>v. stubs v \<noteq> 0" "i + n \<le> 256"
  shows "\<exists>k'. init_gates stubs i n k = Some k' \<and> intr_handlers k' = intr_handlers k \<and>
    (\<forall>v. idt k' v = (if i \<le> unat v \<and> unat v < i + n then gate_of (stubs v) 0 14 else idt k v))"
  using assms(2)
proof (induction n arbitrary: i k)
  case (Suc n)
  let ?k = "set_name (of_nat i) ''unknown'' (set_gate (of_nat i) (gate_of (stubs (of_nat i)) 0 14) k)"
  have i: "unat (of_nat i :: u8) = i" using Suc.prems by (simp add: unat_of_nat)
  have e: "v = of_nat i \<longleftrightarrow> unat v = i" for v :: u8 using i by (auto simp: word_eq_iff_unsigned)
  obtain k' where k': "init_gates stubs (i + 1) n ?k = Some k'" "intr_handlers k' = intr_handlers ?k"
    "\<forall>v. idt k' v = (if i + 1 \<le> unat v \<and> unat v < i + 1 + n then gate_of (stubs v) 0 14 else idt ?k v)"
    using Suc.IH [of "i + 1" ?k] Suc.prems by auto
  have "idt k' v = (if i \<le> unat v \<and> unat v < i + Suc n then gate_of (stubs v) 0 14 else idt k v)" for v
    using k'(3) e [of v] by (auto simp: set_name_def set_gate_def)
  moreover have "init_gates stubs i (Suc n) k = Some k'"
    using assms(1) k'(1) by (simp add: make_intr_gate_def make_gate_spec)
  ultimately show ?case using k'(2) by (auto simp: set_name_def set_gate_def)
qed auto

lemma fold_names: 
  "intr_handlers (fold (\<lambda>(v, n). set_name v n) ns k) = intr_handlers k \<and> idt (fold (\<lambda>(v, n). set_name v n) ns k) = idt k"
  by (induction ns arbitrary: k) (auto simp: set_name_def)

lemma pic_init_tables: "intr_handlers (pic_init k) = intr_handlers k \<and> idt (pic_init k) = idt k"
  by (simp add: pic_init_def outb_def)

lemma intr_init_spec:
  assumes "\<forall>v. stubs v \<noteq> 0"
  shows "\<exists>k'. intr_init stubs k = Some k' \<and> intr_handlers k' = intr_handlers k \<and> (\<forall>v. idt k' v = gate_of (stubs v) 0 14)"
proof -
  obtain k1 where k1: "init_gates stubs 0 256 (pic_init k) = Some k1" "intr_handlers k1 = intr_handlers (pic_init k)"
    "\<forall>v. idt k1 v = (if 0 \<le> unat v \<and> unat v < 0 + 256 then gate_of (stubs v) 0 14 else idt (pic_init k) v)"
    using init_gates_spec [OF assms, of 0 256] by auto
  have "unat v < 256" for v :: u8 using unsigned_less [of v] by simp
  then show ?thesis using k1 pic_init_tables [of k] fold_names [of exception_names k1]
    by (auto simp: intr_init_def)
qed

text \<open>The tables with entries for the vectors registered so far.\<close>

definition tables :: "(u8 \<Rightarrow> u64) \<Rightarrow> (u8 \<times> 'h \<times> int \<times> bool) list \<Rightarrow> 'h interrupts \<Rightarrow> bool" where
  "tables stubs reg k \<longleftrightarrow>
     (\<forall>v. intr_handlers k v = map_option fst (map_of reg v)) \<and>
     (\<forall>v. idt k v = (case map_of reg v of
        None \<Rightarrow> gate_of (stubs v) 0 14
      | Some (h, dpl, level) \<Rightarrow> gate_of (stubs v) dpl (if level then 15 else 14)))"

lemma tables_outb [simp]: "tables stubs reg (outb p v k) = tables stubs reg k"
  by (simp add: tables_def outb_def)

lemma register_tables:
  assumes "tables stubs reg k" "v \<notin> fst ` set reg" "stubs v \<noteq> 0" "0 \<le> dpl" "dpl \<le> 3"
  shows "\<exists>k'. register_handler stubs v dpl level h n k = Some k' \<and> tables stubs ((v, h, dpl, level) # reg) k'"
proof -
  have "map_of reg v = None" using assms(2) by (simp add: map_of_eq_None_iff)
  then show ?thesis using assms
    by (auto simp: tables_def register_handler_def make_trap_gate_def make_intr_gate_def make_gate_spec
        set_gate_def set_name_def)
qed

lemma register_ext_tables:
  assumes "tables stubs reg k" "v \<notin> fst ` set reg" "\<forall>v. stubs v \<noteq> 0" "0x20 \<le> v" "v \<le> 0x2f"
  shows "\<exists>k'. intr_register_ext stubs v h n k = Some k' \<and> tables stubs ((v, h, 0, False) # reg) k'"
  using register_tables [OF assms(1,2), of 0] assms(3-5) by (simp add: intr_register_ext_def)

lemma register_int_tables:
  assumes "tables stubs reg k" "v \<notin> fst ` set reg" "\<forall>v. stubs v \<noteq> 0" "v < 0x20 \<or> v > 0x2f" "0 \<le> dpl" "dpl \<le> 3"
  shows "\<exists>k'. intr_register_int stubs v dpl level h n k = Some k' \<and> tables stubs ((v, h, dpl, level) # reg) k'"
  using register_tables [OF assms(1,2), of dpl] assms(3-6) by (simp add: intr_register_int_def)

definition exception_table :: "(exception_handler \<Rightarrow> 'h) \<Rightarrow> (u8 \<times> 'h \<times> int \<times> bool) list" where
  "exception_table handler =
     (14, handler PageFault, 0, False) #
     map (\<lambda>(v, dpl). (v, handler Kill, dpl, True))
       [(19, 0), (16, 0), (13, 0), (12, 0), (11, 0), (7, 0), (6, 0), (1, 0), (0, 0), (5, 3), (4, 3), (3, 3)]"

lemma register_int_then:
  assumes "tables stubs reg k" "\<forall>v. stubs v \<noteq> 0" "v \<notin> fst ` set reg" "v < 0x20 \<or> v > 0x2f" "0 \<le> dpl" "dpl \<le> 3"
    "\<And>k'. tables stubs ((v, h, dpl, level) # reg) k' \<Longrightarrow> \<exists>k''. f k' = Some k'' \<and> P k''"
  shows "\<exists>k''. intr_register_int stubs v dpl level h n k \<bind> f = Some k'' \<and> P k''"
proof -
  obtain k' where "intr_register_int stubs v dpl level h n k = Some k'" "tables stubs ((v, h, dpl, level) # reg) k'"
    using register_int_tables [OF assms(1,3,2,4-6)] by blast
  then show ?thesis using assms(7) by simp
qed

lemma exception_init_tables:
  assumes t: "tables stubs reg k" and s: "\<forall>v. stubs v \<noteq> 0" and r: "\<forall>v\<in>fst ` set reg. 0x20 \<le> v"
  shows "\<exists>k'. exception_init stubs handler k = Some k' \<and> tables stubs (exception_table handler @ reg) k'"
proof -
  have n: "v \<notin> fst ` set reg" if "v < 0x20" for v using r that by (meson linorder_not_le)
  have f: "3 \<notin> fst ` set reg" "4 \<notin> fst ` set reg" "5 \<notin> fst ` set reg" "0 \<notin> fst ` set reg" "1 \<notin> fst ` set reg"
    "6 \<notin> fst ` set reg" "7 \<notin> fst ` set reg" "11 \<notin> fst ` set reg" "12 \<notin> fst ` set reg" "13 \<notin> fst ` set reg"
    "16 \<notin> fst ` set reg" "19 \<notin> fst ` set reg" "14 \<notin> fst ` set reg"
    by (rule n; simp)+
  show ?thesis
    unfolding exception_init_def
    by (rule register_int_then [OF t s f(1)], simp, simp, simp)
      ((erule register_int_then [OF _ s], simp add: f, simp, simp, simp)+,
        drule register_int_tables [OF _ _ s, where v = 14 and dpl = 0 and h = "handler PageFault" and level = False],
        simp add: f, simp, simp, simp, auto simp: exception_table_def)
qed

section \<open>Boot\<close>

lemma register_ext_then:
  assumes "tables stubs reg k" "\<forall>v. stubs v \<noteq> 0" "v \<notin> fst ` set reg" "0x20 \<le> v" "v \<le> 0x2f"
    "\<And>k'. tables stubs ((v, h, 0, False) # reg) k' \<Longrightarrow> \<exists>k''. f k' = Some k'' \<and> P k''"
  shows "\<exists>k''. intr_register_ext stubs v h n k \<bind> f = Some k'' \<and> P k''"
proof -
  obtain k' where "intr_register_ext stubs v h n k = Some k'" "tables stubs ((v, h, 0, False) # reg) k'"
    using register_ext_tables [OF assms(1,3,2,4,5)] by blast
  then show ?thesis using assms(6) by simp
qed

definition boot_table :: "(u8 \<times> handler \<times> int \<times> bool) list" where
  "boot_table =
     [(0x42, InspectVM, 3, False), (0x44, InspectWrites, 3, False), (0x43, InspectReads, 3, False),
      (0x2f, DiskInterrupt, 0, False), (0x2e, DiskInterrupt, 0, False), (0x24, SerialInterrupt, 0, False)] @
     exception_table Exception @ [(0x21, KeyboardInterrupt, 0, False), (0x20, TimerInterrupt, 0, False)]"

lemma boot_tables:
  assumes s: "\<forall>v. stubs v \<noteq> 0" and h: "intr_handlers k = (\<lambda>_. None)"
  shows "\<exists>k'. boot_interrupts stubs k = Some k' \<and> tables stubs boot_table k'"
proof -
  obtain k1 where k1: "intr_init stubs k = Some k1" "tables stubs [] k1"
    using intr_init_spec [OF s, of k] h by (auto simp: tables_def)
  obtain k2 where k2: "timer_init stubs k1 = Some k2" "tables stubs [(0x20, TimerInterrupt, 0, False)] k2"
    using register_ext_tables [where stubs = stubs and reg = "[]" and v = "0x20" and h = TimerInterrupt
        and k = "outb 0x40 46 (outb 0x40 156 (outb 0x43 0x34 k1))" and n = "''8254 Timer''"] k1(2) s
    by (auto simp: timer_init_def Let_def)
  obtain k3 where k3: "kbd_init stubs k2 = Some k3"
    "tables stubs [(0x21, KeyboardInterrupt, 0, False), (0x20, TimerInterrupt, 0, False)] k3"
    using register_ext_tables [OF k2(2) _ s, where v = "0x21" and h = KeyboardInterrupt and n = "''8042 Keyboard''"] by (auto simp: kbd_init_def)
  obtain k4 where k4: "exception_init stubs Exception k3 = Some k4"
    "tables stubs (exception_table Exception @ [(0x21, KeyboardInterrupt, 0, False), (0x20, TimerInterrupt, 0, False)]) k4"
    using exception_init_tables [OF k3(2) s, of Exception] by auto
  show ?thesis
    unfolding boot_interrupts_def k1(1) k2(1) k3(1) k4(1) bind.bind_lunit serial_register_def disk_register_def
      register_disk_inspect_intr_def register_inspect_intr_def Option.bind_assoc
    by (rule register_ext_then [OF k4(2) s], simp add: exception_table_def, simp, simp)
      ((erule register_ext_then [OF _ s], simp add: exception_table_def, simp, simp)+,
        (erule register_int_then [OF _ s], simp add: exception_table_def, simp, simp, simp)+,
        drule register_int_tables [OF _ _ s, where v = "0x42" and dpl = 3 and h = InspectVM and level = False],
        simp add: exception_table_def, simp, simp, simp, auto simp: boot_table_def)
qed

lemma gate_of_simps [simp]:
  "gate_dpl (gate_of f d t) = word_of_int d" "gate_type (gate_of f d t) = word_of_int t" "gate_p (gate_of f d t) = 1"
  by (simp_all add: gate_of_def)

text \<open>Vectors that user programs may raise, and vectors whose handlers run with interrupts enabled.\<close>

definition user_vectors :: "u8 list" where "user_vectors = [3, 4, 5, 0x42, 0x43, 0x44]"

definition trap_vectors :: "u8 list" where "trap_vectors = [0, 1, 3, 4, 5, 6, 7, 11, 12, 13, 16, 19]"

lemma boot_table_entries:
  assumes "(v, h, dpl, level) \<in> set boot_table"
  shows "dpl = (if v \<in> set user_vectors then 3 else 0)" "level = (v \<in> set trap_vectors)"
  using assms by (auto simp: boot_table_def exception_table_def user_vectors_def trap_vectors_def)

lemma boot_table_vectors: "set user_vectors \<union> set trap_vectors \<subseteq> fst ` set boot_table"
  by (auto simp: boot_table_def exception_table_def user_vectors_def trap_vectors_def)

text \<open> C37: With an address for every stub, starting the kernel registers all handlers without a panic.
  Afterwards the gate of every vector is present and leads to the stub of the vector; user programs can
  raise the breakpoint, overflow and bound exceptions and the inspection interrupts and nothing else; interrupts stay
  enabled in the handlers of exceptions other than page faults and in no other; and every vector has
  the handler its driver registered, or none.\<close>

theorem boot_registers_handlers:
  assumes "\<forall>v. stubs v \<noteq> 0" "intr_handlers k = (\<lambda>_. None)"
  shows "\<exists>k'. boot_interrupts stubs k = Some k' \<and>
    (\<forall>v. gate_offset (idt k' v) = stubs v \<and> gate_p (idt k' v) = 1 \<and>
         gate_dpl (idt k' v) = (if v \<in> set user_vectors then 3 else 0) \<and>
         gate_type (idt k' v) = (if v \<in> set trap_vectors then 15 else 14) \<and>
         intr_handlers k' v = map_option fst (map_of boot_table v))"
proof -
  obtain k' where k': "boot_interrupts stubs k = Some k'" "tables stubs boot_table k'" using boot_tables [OF assms] by blast
  have "gate_offset (idt k' v) = stubs v \<and> gate_p (idt k' v) = 1 \<and>
      gate_dpl (idt k' v) = (if v \<in> set user_vectors then 3 else 0) \<and>
      gate_type (idt k' v) = (if v \<in> set trap_vectors then 15 else 14)" for v
  proof (cases "map_of boot_table v")
    case None
    then have "v \<notin> set user_vectors \<union> set trap_vectors"
      using boot_table_vectors by (auto simp: map_of_eq_None_iff)
    then show ?thesis using None k'(2) by (simp add: tables_def gate_offset_gate_of)
  next
    case (Some e)
    obtain h dpl level where e: "e = (h, dpl, level)" by (cases e)
    then have "(v, h, dpl, level) \<in> set boot_table" using Some map_of_SomeD by force
    from boot_table_entries [OF this] show ?thesis using Some e k'(2) by (simp add: tables_def gate_offset_gate_of)
  qed
  then show ?thesis using k' by (auto simp: tables_def)
qed

theorem boot_registers_handlers_witness:
  "\<exists>k'. boot_interrupts (\<lambda>v. 0x8004200000 + 16 * ucast v)
       \<lparr>idt = \<lambda>_. gate_of 0 0 0, intr_handlers = \<lambda>_. None, intr_names = \<lambda>_. [], intr_level = False,
        in_external_intr = False, yield_on_return = False, writes = []\<rparr> = Some k' \<and>
     intr_handlers k' 0x20 = Some TimerInterrupt \<and> gate_offset (idt k' 14) = 0x80042000e0"
proof -
  have "(0x8004200000 :: u64) + 16 * ucast (v :: u8) \<noteq> 0" for v
  proof
    assume z: "(0x8004200000 :: u64) + 16 * ucast v = 0"
    have "unat v < 256" using unsigned_less [of v, where 'a = nat] by simp
    then have "unat ((0x8004200000 :: u64) + 16 * ucast v) = 0x8004200000 + 16 * unat v"
      by (simp add: unat_word_ariths unsigned_ucast_eq take_bit_eq_mod)
    with z show False by simp
  qed
  from boot_registers_handlers [of "\<lambda>v. 0x8004200000 + 16 * ucast v", OF allI [OF this], of
      "\<lparr>idt = \<lambda>_. gate_of 0 0 0, intr_handlers = \<lambda>_. None, intr_names = \<lambda>_. [], intr_level = False,
        in_external_intr = False, yield_on_return = False, writes = []\<rparr>"]
  show ?thesis by (auto simp: boot_table_def exception_table_def)
qed

section \<open>External interrupts\<close>

text \<open>The bytes that acknowledge an interrupt.\<close>

definition eoi :: "u8 \<Rightarrow> (u16 \<times> u8) list" where
  "eoi v = (if v < 0x28 then [(0x20, 0x20)] else [(0x20, 0x20), (0xa0, 0x20)])"

definition finished :: "u8 \<Rightarrow> 'h interrupts \<Rightarrow> 'h interrupts" where
  "finished v k = k\<lparr>in_external_intr := False, writes := writes k @ eoi v\<rparr>"

lemma external_interrupt:
  assumes f: "is_external f" and h: "intr_handlers k (vec_no f) = Some h"
    and k: "\<not> intr_level k" "\<not> in_external_intr k"
    and r: "run h f (k\<lparr>in_external_intr := True, yield_on_return := False\<rparr>) = Some k'" "\<not> intr_level k'" "in_external_intr k'"
  shows "intr_handler run yield f k =
    (if yield_on_return k' then yield (finished (vec_no f) k') else Some (finished (vec_no f) k'))"
proof -
  have v: "0x20 \<le> unat (vec_no f)" "unat (vec_no f) < 0x30" "vec_no f < 0x28 \<longleftrightarrow> unat (vec_no f) < 0x28"
    using f by (simp_all add: is_external_def word_le_nat_alt word_less_nat_alt)
  show ?thesis using f h k r v
    by (cases k') (simp add: intr_handler_def intr_enter_def intr_invoke_def intr_leave_def intr_get_level_def
        intr_context_def pic_end_of_interrupt_def outb_def finished_def eoi_def)
qed

text \<open>External interrupts do not nest, spurious ones are only acknowledged, and others without a handler are fatal.\<close>

lemma external_not_nested: "is_external f \<Longrightarrow> in_external_intr k \<Longrightarrow> intr_handler run yield f k = None"
  by (simp add: intr_handler_def intr_enter_def intr_context_def)

lemma unexpected_interrupt:
  assumes "intr_handlers k (vec_no f) = None" "vec_no f \<noteq> 0x27" "vec_no f \<noteq> 0x2f"
  shows "intr_handler run yield f k = None"
  using assms by (cases "intr_enter f k") (auto simp: intr_handler_def intr_enter_def intr_invoke_def split: if_splits)

end
