(* ===== verification/Lifecycle.thy ===== *)
theory Lifecycle
  imports Prelude
begin

text \<open>
  Parents and children: \<open>process_create_initd\<close>, \<open>process_fork\<close>, \<open>__do_fork\<close>, \<open>process_wait\<close>,
  \<open>get_child_process\<close> and the end of \<open>process_exit\<close> in userprog/process.c, with the part of
  \<open>thread_create\<close> that links the child. Any number of processes run; where a process is in its code
  is its \<open>place\<close>, and a step runs the code up to the next point where another process can come in. A
  process stands for its \<open>struct thread\<close>, whose page is given back when the process is \<open>Dead\<close>; an access
  to the page of a process that is not alive is \<open>None\<close>, like a null dereference. The semaphores are those
  of threads/synch.c, here by their values; the rest of these functions is in the model of processes.
\<close>

section \<open>State\<close>

type_synonym tid = int

datatype place =
    Unborn
  | DoFork tid
  | Runs
  | CreatePush bool tid
  | ForkLookup tid
  | ForkDown tid
  | WaitDown tid
  | WaitRemove tid
  | WaitFree tid int
  | ExitUp
  | ExitDown
  | Dead

record family =
  place :: "tid \<Rightarrow> place"
  child_list :: "tid \<Rightarrow> tid list"
  exit_status :: "tid \<Rightarrow> int"
  load_sema :: "tid \<Rightarrow> nat"
  wait_sema :: "tid \<Rightarrow> nat"
  free_sema :: "tid \<Rightarrow> nat"
  waited :: "(tid \<times> tid \<times> int) list"

definition alive :: "family \<Rightarrow> tid \<Rightarrow> bool" where
  "alive F t \<longleftrightarrow> place F t \<noteq> Unborn \<and> place F t \<noteq> Dead"

definition at :: "tid \<Rightarrow> place \<Rightarrow> family \<Rightarrow> family" where
  "at t p F = F\<lparr>place := (place F)(t := p)\<rparr>"

section \<open>Operations\<close>

text \<open>
  \<open>thread_create\<close>: the new thread is initialized and can run before it is in the list of the
  children of its parent. \<open>fork\<close> tells whether it begins in \<open>__do_fork\<close>; otherwise it runs.
\<close>

definition create_thread :: "bool \<Rightarrow> tid \<Rightarrow> tid \<Rightarrow> family \<Rightarrow> family" where
  "create_thread fork c t F =
     at t (CreatePush fork c) (F\<lparr>place := (place F)(c := if fork then DoFork t else Runs),
       child_list := (child_list F)(c := []), exit_status := (exit_status F)(c := 0),
       load_sema := (load_sema F)(c := 0), wait_sema := (wait_sema F)(c := 0), free_sema := (free_sema F)(c := 0)\<rparr>)"

definition push_child :: "bool \<Rightarrow> tid \<Rightarrow> tid \<Rightarrow> family \<Rightarrow> family option" where
  "push_child fork c t F = do {
     ASSERT (alive F c);
     Some (at t (if fork then ForkLookup c else Runs) (F\<lparr>child_list := (child_list F)(t := child_list F t @ [c])\<rparr>)) }"

definition get_child_process :: "tid \<Rightarrow> tid \<Rightarrow> family \<Rightarrow> tid option" where
  "get_child_process pid t F = List.find (\<lambda>c. c = pid) (child_list F t)"

text \<open>\<open>process_fork\<close> after \<open>thread_create\<close>.\<close>

definition fork_lookup :: "tid \<Rightarrow> tid \<Rightarrow> family \<Rightarrow> family option" where
  "fork_lookup tid t F = do {
     child \<leftarrow> get_child_process tid t F;
     ASSERT (alive F child);
     Some (at t (ForkDown child) F) }"

definition fork_down :: "tid \<Rightarrow> tid \<Rightarrow> family \<Rightarrow> family option" where
  "fork_down c t F = do {
     ASSERT (alive F c);
     ASSERT (0 < load_sema F c);
     Some (at t Runs (F\<lparr>load_sema := (load_sema F)(c := load_sema F c - 1)\<rparr>)) }"

text \<open>
  \<open>__do_fork\<close>; \<open>ok\<close> tells whether what the parent has could be copied. On an error the child
  calls \<open>exit (TID_ERROR)\<close>.
\<close>

definition do_fork :: "bool \<Rightarrow> tid \<Rightarrow> tid \<Rightarrow> family \<Rightarrow> family option" where
  "do_fork ok parent t F = do {
     ASSERT (alive F parent);
     let F = F\<lparr>load_sema := (load_sema F)(t := load_sema F t + 1)\<rparr>;
     Some (if ok then at t Runs F else at t ExitUp (F\<lparr>exit_status := (exit_status F)(t := - 1)\<rparr>)) }"

text \<open>\<open>process_wait\<close>; a call that finds no child returns -1 at once.\<close>

definition process_wait :: "tid \<Rightarrow> tid \<Rightarrow> family \<Rightarrow> family" where
  "process_wait pid t F =
     (case get_child_process pid t F of None \<Rightarrow> F | Some child \<Rightarrow> at t (WaitDown child) F)"

definition wait_down :: "tid \<Rightarrow> tid \<Rightarrow> family \<Rightarrow> family option" where
  "wait_down c t F = do {
     ASSERT (alive F c);
     ASSERT (0 < wait_sema F c);
     Some (at t (WaitRemove c) (F\<lparr>wait_sema := (wait_sema F)(c := wait_sema F c - 1)\<rparr>)) }"

definition wait_remove :: "tid \<Rightarrow> tid \<Rightarrow> family \<Rightarrow> family option" where
  "wait_remove c t F = do {
     ASSERT (alive F c);
     Some (at t (WaitFree c (exit_status F c)) (F\<lparr>child_list := (child_list F)(t := remove1 c (child_list F t))\<rparr>)) }"

definition wait_free :: "tid \<Rightarrow> int \<Rightarrow> tid \<Rightarrow> family \<Rightarrow> family option" where
  "wait_free c st t F = do {
     ASSERT (alive F c);
     Some (at t Runs (F\<lparr>free_sema := (free_sema F)(c := free_sema F c + 1), waited := waited F @ [(t, c, st)]\<rparr>)) }"

text \<open>\<open>exit\<close> sets the status; a process that an exception ends goes to \<open>thread_exit\<close> without it.\<close>

definition exit_call :: "int option \<Rightarrow> tid \<Rightarrow> family \<Rightarrow> family" where
  "exit_call status t F =
     at t ExitUp (case status of None \<Rightarrow> F | Some st \<Rightarrow> F\<lparr>exit_status := (exit_status F)(t := st)\<rparr>)"

definition exit_up :: "tid \<Rightarrow> family \<Rightarrow> family" where
  "exit_up t F = at t ExitDown (F\<lparr>wait_sema := (wait_sema F)(t := wait_sema F t + 1)\<rparr>)"

definition exit_down :: "tid \<Rightarrow> family \<Rightarrow> family option" where
  "exit_down t F = do {
     ASSERT (0 < free_sema F t);
     Some (at t Dead (F\<lparr>free_sema := (free_sema F)(t := free_sema F t - 1)\<rparr>)) }"

section \<open>Steps\<close>

text \<open>What a process does by itself at its place, and where it waits for a semaphore.\<close>

fun continues :: "bool \<Rightarrow> tid \<Rightarrow> place \<Rightarrow> family \<Rightarrow> family option" where
  "continues ok t (DoFork p) F = do_fork ok p t F"
| "continues ok t (CreatePush fork c) F = push_child fork c t F"
| "continues ok t (ForkLookup c) F = fork_lookup c t F"
| "continues ok t (ForkDown c) F = fork_down c t F"
| "continues ok t (WaitDown c) F = wait_down c t F"
| "continues ok t (WaitRemove c) F = wait_remove c t F"
| "continues ok t (WaitFree c st) F = wait_free c st t F"
| "continues ok t ExitUp F = Some (exit_up t F)"
| "continues ok t ExitDown F = exit_down t F"
| "continues ok t p F = Some F"

fun awaits :: "tid \<Rightarrow> place \<Rightarrow> family \<Rightarrow> bool" where
  "awaits t (ForkDown c) F \<longleftrightarrow> load_sema F c = 0"
| "awaits t (WaitDown c) F \<longleftrightarrow> wait_sema F c = 0"
| "awaits t ExitDown F \<longleftrightarrow> free_sema F t = 0"
| "awaits t p F \<longleftrightarrow> p \<in> {Unborn, Runs, Dead}"

inductive fstep :: "family \<Rightarrow> family \<Rightarrow> bool" where
  Create: "place F t = Runs \<Longrightarrow> place F c = Unborn \<Longrightarrow> fstep F (create_thread fork c t F)"
| Wait: "place F t = Runs \<Longrightarrow> fstep F (process_wait pid t F)"
| Exit: "place F t = Runs \<Longrightarrow> fstep F (exit_call status t F)"
| Continue: "\<not> awaits t (place F t) F \<Longrightarrow> continues ok t (place F t) F = Some F' \<Longrightarrow> fstep F F'"

text \<open>One process runs.\<close>

definition first_process :: "tid \<Rightarrow> family" where
  "first_process t = \<lparr>place = (\<lambda>u. if u = t then Runs else Unborn), child_list = (\<lambda>_. []), exit_status = (\<lambda>_. 0),
     load_sema = (\<lambda>_. 0), wait_sema = (\<lambda>_. 0), free_sema = (\<lambda>_. 0), waited = []\<rparr>"

end
