(* ===== verification/LifecycleProps.thy ===== *)
theory LifecycleProps
  imports Lifecycle
begin

text \<open>
  Waiting and exiting: nobody touches a process whose page has been given back, a process ends only after its
  parent has taken its status, and takes it once.
\<close>

section \<open>The invariant\<close>

text \<open>The child a process is about to touch: before or after it is in the list of children, or in it.\<close>

fun outside :: "place \<Rightarrow> tid option" where
  "outside (CreatePush fork c) = Some c"
| "outside (WaitFree c st) = Some c"
| "outside p = None"

fun inside :: "place \<Rightarrow> tid option" where
  "inside (ForkLookup c) = Some c"
| "inside (ForkDown c) = Some c"
| "inside (WaitDown c) = Some c"
| "inside (WaitRemove c) = Some c"
| "inside p = None"

definition forking :: "place \<Rightarrow> tid \<Rightarrow> bool" where
  "forking p c \<longleftrightarrow> p = CreatePush True c \<or> p = ForkLookup c \<or> p = ForkDown c"

text \<open>
  What holds of every two processes \<open>u\<close> and \<open>c\<close>, over their places, the semaphores and the status of \<open>c\<close>,
  and whether \<open>c\<close> is in the list of \<open>u\<close>.
\<close>

definition born :: "place \<Rightarrow> bool" where "born p \<longleftrightarrow> p \<noteq> Unborn \<and> p \<noteq> Dead"

definition pair_ok :: "tid \<Rightarrow> tid \<Rightarrow> place \<Rightarrow> place \<Rightarrow> nat \<Rightarrow> nat \<Rightarrow> nat \<Rightarrow> int \<Rightarrow> bool \<Rightarrow> bool" where
  "pair_ok u c pu pc load wt free st listed \<longleftrightarrow>
     (inside pu = Some c \<longrightarrow> listed) \<and>
     (outside pu = Some c \<longrightarrow> \<not> listed \<and> born pc \<and> free = 0) \<and>
     (listed \<longrightarrow> born pc \<and> free = 0) \<and>
     (listed \<or> outside pu = Some c \<longrightarrow> u \<noteq> c) \<and>
     (pu = WaitRemove c \<longrightarrow> pc = ExitDown \<and> wt = 0) \<and>
     (\<forall>v. pu = WaitFree c v \<longrightarrow> pc = ExitDown \<and> wt = 0 \<and> v = st) \<and>
     (pc = ExitDown \<longrightarrow> pu \<noteq> WaitRemove c \<longrightarrow> listed \<or> pu = CreatePush True c \<or> pu = CreatePush False c \<longrightarrow> wt = 1) \<and>
     (pc = DoFork u \<longrightarrow> forking pu c \<and> load = 0) \<and>
     (forking pu c \<longrightarrow> pc = DoFork u \<or> load = 1)"

definition solo_ok :: "place \<Rightarrow> nat \<Rightarrow> nat \<Rightarrow> bool" where
  "solo_ok pc wt free \<longleftrightarrow> (0 < wt \<longrightarrow> pc = ExitDown) \<and> (0 < free \<longrightarrow> free = 1 \<and> wt = 0 \<and> pc = ExitDown)"

definition claims :: "family \<Rightarrow> tid \<Rightarrow> tid \<Rightarrow> bool" where
  "claims F u c \<longleftrightarrow> c \<in> set (child_list F u) \<or> outside (place F u) = Some c"

definition waited_ok :: "family \<Rightarrow> bool" where
  "waited_ok F \<longleftrightarrow>
     distinct (map (\<lambda>(t, c, st). c) (waited F)) \<and>
     (\<forall>t c st. (t, c, st) \<in> set (waited F) \<longrightarrow> st = exit_status F c \<and>
        (place F c = Dead \<or> place F c = ExitDown \<and> 0 < free_sema F c)) \<and>
     (\<forall>c. place F c = Dead \<or> 0 < free_sema F c \<longrightarrow> (\<exists>t. (t, c, exit_status F c) \<in> set (waited F)))"

definition pairs_ok :: "family \<Rightarrow> bool" where
  "pairs_ok F \<longleftrightarrow> (\<forall>u c. pair_ok u c (place F u) (place F c) (load_sema F c) (wait_sema F c) (free_sema F c)
     (exit_status F c) (c \<in> set (child_list F u)))"

definition family_ok :: "family \<Rightarrow> bool" where
  "family_ok F \<longleftrightarrow> pairs_ok F \<and> (\<forall>c. solo_ok (place F c) (wait_sema F c) (free_sema F c)) \<and>
     (\<forall>u u' c. claims F u c \<longrightarrow> claims F u' c \<longrightarrow> u = u') \<and> (\<forall>u. distinct (child_list F u)) \<and> waited_ok F"

lemma at_simps [simp]:
  "place (at t p F) = (place F)(t := p)" "child_list (at t p F) = child_list F" "exit_status (at t p F) = exit_status F"
  "load_sema (at t p F) = load_sema F" "wait_sema (at t p F) = wait_sema F" "free_sema (at t p F) = free_sema F"
  "waited (at t p F) = waited F"
  by (simp_all add: at_def)

lemma first_family: "family_ok (first_process t)"
  by (auto simp: family_ok_def pairs_ok_def pair_ok_def solo_ok_def claims_def waited_ok_def forking_def born_def first_process_def)

lemma family_okI:
  assumes "\<And>u c. pair_ok u c (place F u) (place F c) (load_sema F c) (wait_sema F c) (free_sema F c)
      (exit_status F c) (c \<in> set (child_list F u))"
    "\<And>c. solo_ok (place F c) (wait_sema F c) (free_sema F c)"
    "\<And>u u' c. claims F u c \<Longrightarrow> claims F u' c \<Longrightarrow> u = u'" "\<And>u. distinct (child_list F u)" "waited_ok F"
  shows "family_ok F"
  using assms unfolding family_ok_def pairs_ok_def by blast

lemma family_okD:
  assumes "family_ok F"
  shows "pair_ok u c (place F u) (place F c) (load_sema F c) (wait_sema F c) (free_sema F c)
      (exit_status F c) (c \<in> set (child_list F u))"
    "solo_ok (place F c) (wait_sema F c) (free_sema F c)"
    "claims F u c \<Longrightarrow> claims F u' c \<Longrightarrow> u = u'" "distinct (child_list F u)" "waited_ok F"
  using assms unfolding family_ok_def pairs_ok_def by blast+

lemma waited_keep:
  assumes F: "family_ok F" and w: "waited F' = waited F"
    and e: "\<And>c. (place F' c = Dead \<or> 0 < free_sema F' c) = (place F c = Dead \<or> 0 < free_sema F c)"
    and k: "\<And>c. place F c = Dead \<or> place F c = ExitDown \<and> 0 < free_sema F c \<Longrightarrow>
      exit_status F' c = exit_status F c \<and> (place F' c = Dead \<or> place F' c = ExitDown \<and> 0 < free_sema F' c)"
  shows "waited_ok F'"
proof -
  have "0 < free_sema F c \<Longrightarrow> place F c = ExitDown" for c using family_okD(2) [OF F, of c] by (simp add: solo_ok_def)
  then have k': "place F c = Dead \<or> 0 < free_sema F c \<Longrightarrow> exit_status F' c = exit_status F c" for c using k [of c] by blast
  have o: "waited_ok F" by (rule family_okD(5) [OF F])
  then have "distinct (map (\<lambda>(t, c, st). c) (waited F'))" using w by (simp add: waited_ok_def)
  moreover have "st = exit_status F' c \<and> (place F' c = Dead \<or> place F' c = ExitDown \<and> 0 < free_sema F' c)"
    if "(t, c, st) \<in> set (waited F')" for t c st
    using that o k [of c] w unfolding waited_ok_def by metis
  moreover have "\<exists>t. (t, c, exit_status F' c) \<in> set (waited F')" if "place F' c = Dead \<or> 0 < free_sema F' c" for c
    using that o k' [of c] e [of c] w unfolding waited_ok_def by metis
  ultimately show ?thesis unfolding waited_ok_def by blast
qed

lemma exit_up_ok:
  assumes F: "family_ok F" and p: "place F t = ExitUp"
  shows "family_ok (exit_up t F)"
proof (rule family_okI)
  fix u c
  show "pair_ok u c (place (exit_up t F) u) (place (exit_up t F) c) (load_sema (exit_up t F) c) (wait_sema (exit_up t F) c)
      (free_sema (exit_up t F) c) (exit_status (exit_up t F) c) (c \<in> set (child_list (exit_up t F) u))"
    using family_okD(1) [OF F, of u c] family_okD(2) [OF F, of t] p
    by (cases "u = t"; cases "c = t") (auto simp: exit_up_def pair_ok_def solo_ok_def forking_def born_def)
next
  show "solo_ok (place (exit_up t F) c) (wait_sema (exit_up t F) c) (free_sema (exit_up t F) c)" for c
    using family_okD(2) [OF F, of c] p by (auto simp: exit_up_def solo_ok_def)
next
  show "claims (exit_up t F) u c \<Longrightarrow> claims (exit_up t F) u' c \<Longrightarrow> u = u'" for u u' c
    using family_okD(3) [OF F, of u c u'] p by (auto simp: exit_up_def claims_def split: if_splits)
  show "distinct (child_list (exit_up t F) u)" for u using family_okD(4) [OF F] by (simp add: exit_up_def)
  show "waited_ok (exit_up t F)" using family_okD(5) [OF F] p by (fastforce simp: waited_ok_def exit_up_def)
qed

lemma exit_call_ok:
  assumes F: "family_ok F" and p: "place F t = Runs"
  shows "family_ok (exit_call status t F)"
proof (rule family_okI)
  fix u c
  show "pair_ok u c (place (exit_call status t F) u) (place (exit_call status t F) c) (load_sema (exit_call status t F) c) (wait_sema (exit_call status t F) c)
      (free_sema (exit_call status t F) c) (exit_status (exit_call status t F) c) (c \<in> set (child_list (exit_call status t F) u))"
    using family_okD(1) [OF F, of u c]  p
    by (cases "u = t"; cases "c = t") (auto simp: exit_call_def pair_ok_def solo_ok_def forking_def born_def split: if_splits option.splits)
next
  show "solo_ok (place (exit_call status t F) c) (wait_sema (exit_call status t F) c) (free_sema (exit_call status t F) c)" for c
    using family_okD(2) [OF F, of c]  p by (auto simp: exit_call_def solo_ok_def split: if_splits option.splits)
next
  show "claims (exit_call status t F) u c \<Longrightarrow> claims (exit_call status t F) u' c \<Longrightarrow> u = u'" for u u' c
    using family_okD(3) [OF F, of u c u']  p by (auto simp: exit_call_def claims_def split: if_splits option.splits)
  show "distinct (child_list (exit_call status t F) u)" for u using family_okD(4) [OF F]  by (auto simp: exit_call_def split: option.splits)
  show "waited_ok (exit_call status t F)"
    by (rule waited_keep [OF F])
      (use family_okD(2) [OF F, of t] p in \<open>auto simp: solo_ok_def exit_call_def split: option.splits\<close>)
qed

lemma exit_down_ok:
  assumes F: "family_ok F" and p: "place F t = ExitDown" "0 < free_sema F t"
  shows "family_ok (at t Dead (F\<lparr>free_sema := (free_sema F)(t := free_sema F t - 1)\<rparr>))"
proof (rule family_okI)
  fix u c
  show "pair_ok u c (place (at t Dead (F\<lparr>free_sema := (free_sema F)(t := free_sema F t - 1)\<rparr>)) u) (place (at t Dead (F\<lparr>free_sema := (free_sema F)(t := free_sema F t - 1)\<rparr>)) c) (load_sema (at t Dead (F\<lparr>free_sema := (free_sema F)(t := free_sema F t - 1)\<rparr>)) c) (wait_sema (at t Dead (F\<lparr>free_sema := (free_sema F)(t := free_sema F t - 1)\<rparr>)) c)
      (free_sema (at t Dead (F\<lparr>free_sema := (free_sema F)(t := free_sema F t - 1)\<rparr>)) c) (exit_status (at t Dead (F\<lparr>free_sema := (free_sema F)(t := free_sema F t - 1)\<rparr>)) c) (c \<in> set (child_list (at t Dead (F\<lparr>free_sema := (free_sema F)(t := free_sema F t - 1)\<rparr>)) u))"
    using family_okD(1) [OF F, of u c] family_okD(2) [OF F, of t] p
    by (cases "u = t"; cases "c = t") (auto simp:  pair_ok_def solo_ok_def forking_def born_def split: if_splits option.splits)
next
  show "solo_ok (place (at t Dead (F\<lparr>free_sema := (free_sema F)(t := free_sema F t - 1)\<rparr>)) c) (wait_sema (at t Dead (F\<lparr>free_sema := (free_sema F)(t := free_sema F t - 1)\<rparr>)) c) (free_sema (at t Dead (F\<lparr>free_sema := (free_sema F)(t := free_sema F t - 1)\<rparr>)) c)" for c
    using family_okD(2) [OF F, of c]  p by (auto simp:  solo_ok_def split: if_splits option.splits)
next
  show "claims (at t Dead (F\<lparr>free_sema := (free_sema F)(t := free_sema F t - 1)\<rparr>)) u c \<Longrightarrow> claims (at t Dead (F\<lparr>free_sema := (free_sema F)(t := free_sema F t - 1)\<rparr>)) u' c \<Longrightarrow> u = u'" for u u' c
    using family_okD(3) [OF F, of u c u']  p by (auto simp:  claims_def split: if_splits option.splits)
  show "distinct (child_list (at t Dead (F\<lparr>free_sema := (free_sema F)(t := free_sema F t - 1)\<rparr>)) u)" for u using family_okD(4) [OF F]  by (auto simp:  split: option.splits)
  show "waited_ok (at t Dead (F\<lparr>free_sema := (free_sema F)(t := free_sema F t - 1)\<rparr>))" using family_okD(5) [OF F]  p by (fastforce simp: waited_ok_def  split: option.splits)
qed

lemma only_claim:
  assumes "family_ok F" "outside (place F t) = Some c" "u \<noteq> t"
  shows "c \<notin> set (child_list F u)" "outside (place F u) \<noteq> Some c" "inside (place F u) \<noteq> Some c"
proof -
  show "c \<notin> set (child_list F u)" "outside (place F u) \<noteq> Some c"
    using family_okD(3) [OF assms(1), of t c u] assms by (auto simp: claims_def)
  then show "inside (place F u) \<noteq> Some c" using family_okD(1) [OF assms(1), of u c] by (auto simp: pair_ok_def)
qed

lemma forking_mentions: "forking p c \<Longrightarrow> inside p = Some c \<or> outside p = Some c"
  by (auto simp: forking_def)

lemma wait_free_ok:
  assumes F: "family_ok F" and p: "place F t = WaitFree c' st"
  shows "family_ok (at t Runs (F\<lparr>free_sema := (free_sema F)(c' := free_sema F c' + 1), waited := waited F @ [(t, c', st)]\<rparr>))"
    (is "family_ok ?F")
proof (rule family_okI)
  have o: "place F c' = ExitDown" "free_sema F c' = 0" "st = exit_status F c'" "wait_sema F c' = 0" "c' \<notin> set (child_list F t)"
    using family_okD(1) [OF F, of t c'] p by (auto simp: pair_ok_def)
  have n: "c' \<noteq> t" using o(1) p by auto
  note oc = only_claim [OF F, of t c']
  show "pair_ok u c (place ?F u) (place ?F c) (load_sema ?F c) (wait_sema ?F c) (free_sema ?F c) (exit_status ?F c)
      (c \<in> set (child_list ?F u))" for u c
  proof (cases "c = c'")
    case True
    then show ?thesis using family_okD(1) [OF F, of u c'] oc [of u] p o n
      by (cases "u = t") (auto simp: pair_ok_def forking_def)
  next
    case False
    then show ?thesis using family_okD(1) [OF F, of u c] p
      by (cases "u = t"; cases "c = t") (auto simp: pair_ok_def forking_def born_def)
  qed
  show "solo_ok (place ?F c) (wait_sema ?F c) (free_sema ?F c)" for c
    using family_okD(2) [OF F, of c] o p by (auto simp: solo_ok_def)
  show "claims ?F u c \<Longrightarrow> claims ?F u' c \<Longrightarrow> u = u'" for u u' c
    using family_okD(3) [OF F, of u c u'] by (auto simp: claims_def split: if_splits)
  show "distinct (child_list ?F u)" for u using family_okD(4) [OF F] by simp
  have w: "waited_ok F" by (rule family_okD(5) [OF F])
  have nw: "(a, c', x) \<notin> set (waited F)" for a x
  proof
    assume "(a, c', x) \<in> set (waited F)"
    then have "place F c' = Dead \<or> place F c' = ExitDown \<and> 0 < free_sema F c'" using w unfolding waited_ok_def by blast
    then show False using o by simp
  qed
  then show "waited_ok ?F" using w o p by (fastforce simp: waited_ok_def)
qed

lemma only_list:
  assumes "family_ok F" "c \<in> set (child_list F t)" "u \<noteq> t"
  shows "c \<notin> set (child_list F u)" "outside (place F u) \<noteq> Some c" "inside (place F u) \<noteq> Some c"
proof -
  show "c \<notin> set (child_list F u)" "outside (place F u) \<noteq> Some c"
    using family_okD(3) [OF assms(1), of t c u] assms by (auto simp: claims_def)
  then show "inside (place F u) \<noteq> Some c" using family_okD(1) [OF assms(1), of u c] by (auto simp: pair_ok_def)
qed

lemma fork_lookup_ok:
  assumes F: "family_ok F" and p: "place F t = ForkLookup c'"
  shows "family_ok (at t (ForkDown c') F)" (is "family_ok ?F")
proof (rule family_okI)
  have o: "c' \<in> set (child_list F t)" "born (place F c')" "free_sema F c' = 0"
    using family_okD(1) [OF F, of t c'] p by (auto simp: pair_ok_def)
  have n: "c' \<noteq> t" using family_okD(1) [OF F, of t c'] o(1) by (auto simp: pair_ok_def)
  note oc = only_list [OF F o(1)]
  show "pair_ok u c (place ?F u) (place ?F c) (load_sema ?F c) (wait_sema ?F c) (free_sema ?F c) (exit_status ?F c)
      (c \<in> set (child_list ?F u))" for u c
  proof (cases "c = c'")
    case True
    then show ?thesis using family_okD(1) [OF F, of u c'] oc [of u] p o n
      by (cases "u = t") (auto simp: pair_ok_def forking_def born_def)
  next
    case False
    then show ?thesis using family_okD(1) [OF F, of u c] p
      by (cases "u = t"; cases "c = t") (auto simp: pair_ok_def forking_def born_def)
  qed
  show "solo_ok (place ?F c) (wait_sema ?F c) (free_sema ?F c)" for c
    using family_okD(2) [OF F, of c] o p by (auto simp: solo_ok_def)
  show "claims ?F u c \<Longrightarrow> claims ?F u' c \<Longrightarrow> u = u'" for u u' c
    using family_okD(3) [OF F, of u c u'] o p by (auto simp: claims_def split: if_splits)
  show "distinct (child_list ?F u)" for u using family_okD(4) [OF F] by simp
  show "waited_ok ?F" using family_okD(5) [OF F] o p by (fastforce simp: waited_ok_def)
qed

lemma process_wait_ok:
  assumes F: "family_ok F" and p: "place F t = Runs" "c' \<in> set (child_list F t)"
  shows "family_ok (at t (WaitDown c') F)" (is "family_ok ?F")
proof (rule family_okI)
  have o: "c' \<in> set (child_list F t)" "born (place F c')" "free_sema F c' = 0"
    using family_okD(1) [OF F, of t c'] p by (auto simp: pair_ok_def)
  have n: "c' \<noteq> t" using family_okD(1) [OF F, of t c'] o(1) by (auto simp: pair_ok_def)
  note oc = only_list [OF F o(1)]
  show "pair_ok u c (place ?F u) (place ?F c) (load_sema ?F c) (wait_sema ?F c) (free_sema ?F c) (exit_status ?F c)
      (c \<in> set (child_list ?F u))" for u c
  proof (cases "c = c'")
    case True
    then show ?thesis using family_okD(1) [OF F, of u c'] oc [of u] p o n
      by (cases "u = t") (auto simp: pair_ok_def forking_def born_def)
  next
    case False
    then show ?thesis using family_okD(1) [OF F, of u c] p
      by (cases "u = t"; cases "c = t") (auto simp: pair_ok_def forking_def born_def)
  qed
  show "solo_ok (place ?F c) (wait_sema ?F c) (free_sema ?F c)" for c
    using family_okD(2) [OF F, of c] o p by (auto simp: solo_ok_def)
  show "claims ?F u c \<Longrightarrow> claims ?F u' c \<Longrightarrow> u = u'" for u u' c
    using family_okD(3) [OF F, of u c u'] o p by (auto simp: claims_def split: if_splits)
  show "distinct (child_list ?F u)" for u using family_okD(4) [OF F] by simp
  show "waited_ok ?F" using family_okD(5) [OF F] o p by (fastforce simp: waited_ok_def)
qed

lemma wait_down_ok:
  assumes F: "family_ok F" and p: "place F t = WaitDown c'" "0 < wait_sema F c'"
  shows "family_ok (at t (WaitRemove c') (F\<lparr>wait_sema := (wait_sema F)(c' := wait_sema F c' - 1)\<rparr>))" (is "family_ok ?F")
proof (rule family_okI)
  have o: "c' \<in> set (child_list F t)" "born (place F c')" "free_sema F c' = 0"
    using family_okD(1) [OF F, of t c'] p by (auto simp: pair_ok_def)
  have e: "place F c' = ExitDown" using family_okD(2) [OF F, of c'] p(2) by (simp add: solo_ok_def)
  have n: "c' \<noteq> t" using e p by auto
  note oc = only_list [OF F o(1)]
  show "pair_ok u c (place ?F u) (place ?F c) (load_sema ?F c) (wait_sema ?F c) (free_sema ?F c) (exit_status ?F c)
      (c \<in> set (child_list ?F u))" for u c
  proof (cases "c = c'")
    case True
    then show ?thesis using family_okD(1) [OF F, of u c'] oc [of u] p o n e
      by (cases "u = t") (auto simp: pair_ok_def forking_def born_def)
  next
    case False
    then show ?thesis using family_okD(1) [OF F, of u c] p
      by (cases "u = t"; cases "c = t") (auto simp: pair_ok_def forking_def born_def)
  qed
  show "solo_ok (place ?F c) (wait_sema ?F c) (free_sema ?F c)" for c
    using family_okD(2) [OF F, of c] o e p by (auto simp: solo_ok_def)
  show "claims ?F u c \<Longrightarrow> claims ?F u' c \<Longrightarrow> u = u'" for u u' c
    using family_okD(3) [OF F, of u c u'] o p by (auto simp: claims_def split: if_splits)
  show "distinct (child_list ?F u)" for u using family_okD(4) [OF F] by simp
  show "waited_ok ?F" using family_okD(5) [OF F] o p by (fastforce simp: waited_ok_def)
qed

lemma fork_down_family:
  assumes F: "family_ok F" and p: "place F t = ForkDown c'" "0 < load_sema F c'"
  shows "family_ok (at t Runs (F\<lparr>load_sema := (load_sema F)(c' := load_sema F c' - 1)\<rparr>))" (is "family_ok ?F")
proof (rule family_okI)
  have o: "c' \<in> set (child_list F t)" "born (place F c')" "free_sema F c' = 0"
    using family_okD(1) [OF F, of t c'] p by (auto simp: pair_ok_def)
  have n: "c' \<noteq> t" using family_okD(1) [OF F, of t c'] o(1) by (auto simp: pair_ok_def)
  note oc = only_list [OF F o(1)]
  show "pair_ok u c (place ?F u) (place ?F c) (load_sema ?F c) (wait_sema ?F c) (free_sema ?F c) (exit_status ?F c)
      (c \<in> set (child_list ?F u))" for u c
  proof (cases "c = c'")
    case True
    then show ?thesis using family_okD(1) [OF F, of u c'] oc [of u] p o n
      by (cases "u = t") (auto simp: pair_ok_def forking_def born_def)
  next
    case False
    then show ?thesis using family_okD(1) [OF F, of u c] p
      by (cases "u = t"; cases "c = t") (auto simp: pair_ok_def forking_def born_def)
  qed
  show "solo_ok (place ?F c) (wait_sema ?F c) (free_sema ?F c)" for c
    using family_okD(2) [OF F, of c] o p by (auto simp: solo_ok_def)
  show "claims ?F u c \<Longrightarrow> claims ?F u' c \<Longrightarrow> u = u'" for u u' c
    using family_okD(3) [OF F, of u c u'] o p by (auto simp: claims_def split: if_splits)
  show "distinct (child_list ?F u)" for u using family_okD(4) [OF F] by simp
  show "waited_ok ?F" using family_okD(5) [OF F] o p by (fastforce simp: waited_ok_def)
qed

lemma no_mention:
  assumes "family_ok F" "\<not> born (place F c)"
  shows "c \<notin> set (child_list F u)" "outside (place F u) \<noteq> Some c" "inside (place F u) \<noteq> Some c"
  using family_okD(1) [OF assms(1), of u c] assms(2) by (auto simp: pair_ok_def)

lemma not_waited:
  assumes "family_ok F" "place F c \<noteq> Dead" "free_sema F c = 0" shows "(a, c, x) \<notin> set (waited F)"
proof
  assume "(a, c, x) \<in> set (waited F)"
  then have "place F c = Dead \<or> place F c = ExitDown \<and> 0 < free_sema F c"
    using family_okD(5) [OF assms(1)] unfolding waited_ok_def by blast
  then show False using assms by simp
qed

lemma create_ok:
  assumes F: "family_ok F" and p: "place F t = Runs" "place F c' = Unborn"
  shows "family_ok (create_thread fork c' t F)" (is "family_ok ?F")
proof (rule family_okI)
  have n: "c' \<noteq> t" using p by auto
  have b: "\<not> born (place F c')" using p by (simp add: born_def)
  note nm = no_mention [OF F b]
  have d: "place F c \<noteq> DoFork c'" for c using family_okD(1) [OF F, of c' c] p by (auto simp: pair_ok_def forking_def)
  show "pair_ok u c (place ?F u) (place ?F c) (load_sema ?F c) (wait_sema ?F c) (free_sema ?F c) (exit_status ?F c)
      (c \<in> set (child_list ?F u))" for u c
  proof (cases "c = c'")
    case True
    then show ?thesis using nm [of u] n
      by (cases "u = t"; cases "u = c'") (auto simp: create_thread_def pair_ok_def forking_def born_def)
  next
    case False
    then show ?thesis using family_okD(1) [OF F, of u c] p d [of c] n
      by (cases "u = t"; cases "u = c'"; cases "c = t") (auto simp: create_thread_def pair_ok_def forking_def born_def)
  qed
  show "solo_ok (place ?F c) (wait_sema ?F c) (free_sema ?F c)" for c
    using family_okD(2) [OF F, of c] p by (auto simp: create_thread_def solo_ok_def)
  show "claims ?F u c \<Longrightarrow> claims ?F u' c \<Longrightarrow> u = u'" for u u' c
    using family_okD(3) [OF F, of u c u'] nm [of u] nm [of u'] p n
    by (auto simp: create_thread_def claims_def split: if_splits)
  show "distinct (child_list ?F u)" for u using family_okD(4) [OF F] by (simp add: create_thread_def)
  have "(a, c', x) \<notin> set (waited F)" for a x
    using family_okD(5) [OF F] p(2) unfolding waited_ok_def by fastforce
  then show "waited_ok ?F" using family_okD(5) [OF F] p by (fastforce simp: waited_ok_def create_thread_def)
qed

lemma push_ok:
  assumes F: "family_ok F" and p: "place F t = CreatePush fork c'"
  shows "family_ok (at t (if fork then ForkLookup c' else Runs) (F\<lparr>child_list := (child_list F)(t := child_list F t @ [c'])\<rparr>))"
    (is "family_ok ?F")
proof (rule family_okI)
  have o: "born (place F c')" "free_sema F c' = 0" "c' \<notin> set (child_list F t)" "c' \<noteq> t"
    using family_okD(1) [OF F, of t c'] p by (auto simp: pair_ok_def)
  have "outside (place F t) = Some c'" using p by simp
  note oc = only_claim [OF F this]
  show "pair_ok u c (place ?F u) (place ?F c) (load_sema ?F c) (wait_sema ?F c) (free_sema ?F c) (exit_status ?F c)
      (c \<in> set (child_list ?F u))" for u c
  proof (cases "c = c'")
    case True
    then show ?thesis using family_okD(1) [OF F, of u c'] oc [of u] p o
      by (cases "u = t"; cases fork) (auto simp: pair_ok_def forking_def born_def)
  next
    case False
    then show ?thesis using family_okD(1) [OF F, of u c] p
      by (cases "u = t"; cases "c = t"; cases fork) (auto simp: pair_ok_def forking_def born_def)
  qed
  show "solo_ok (place ?F c) (wait_sema ?F c) (free_sema ?F c)" for c
    using family_okD(2) [OF F, of c] p by (auto simp: solo_ok_def)
  show "claims ?F u c \<Longrightarrow> claims ?F u' c \<Longrightarrow> u = u'" for u u' c
    using family_okD(3) [OF F, of u c u'] oc [of u] oc [of u'] p by (auto simp: claims_def split: if_splits)
  show "distinct (child_list ?F u)" for u using family_okD(4) [OF F] o by simp
  show "waited_ok ?F" using family_okD(5) [OF F] p by (fastforce simp: waited_ok_def)
qed

lemma do_fork_ok:
  assumes F: "family_ok F" and p: "place F t = DoFork par" and q: "q = Runs \<or> q = ExitUp"
  shows "family_ok (at t q (F\<lparr>load_sema := (load_sema F)(t := load_sema F t + 1), exit_status := (exit_status F)(t := st)\<rparr>))"
    (is "family_ok ?F")
proof (rule family_okI)
  have o: "forking (place F par) t" "load_sema F t = 0" using family_okD(1) [OF F, of par t] p by (auto simp: pair_ok_def)
  have n: "par \<noteq> t" using o(1) p by (auto simp: forking_def)
  have fo: "u = par" if "forking (place F u) t" for u
    using family_okD(1) [OF F, of u t] p o(2) that by (auto simp: pair_ok_def)
  show "pair_ok u c (place ?F u) (place ?F c) (load_sema ?F c) (wait_sema ?F c) (free_sema ?F c) (exit_status ?F c)
      (c \<in> set (child_list ?F u))" for u c
  proof (cases "c = t")
    case True
    then show ?thesis using family_okD(1) [OF F, of u t] fo [of u] p o q n
      by (cases "u = t") (auto simp: pair_ok_def forking_def born_def)
  next
    case False
    then show ?thesis using family_okD(1) [OF F, of u c] p q
      by (cases "u = t") (auto simp: pair_ok_def forking_def born_def)
  qed
  show "solo_ok (place ?F c) (wait_sema ?F c) (free_sema ?F c)" for c
    using family_okD(2) [OF F, of c] p q by (auto simp: solo_ok_def)
  show "claims ?F u c \<Longrightarrow> claims ?F u' c \<Longrightarrow> u = u'" for u u' c
    using family_okD(3) [OF F, of u c u'] p q by (auto simp: claims_def split: if_splits)
  show "distinct (child_list ?F u)" for u using family_okD(4) [OF F] by simp
  show "waited_ok ?F"
    by (rule waited_keep [OF F])
      (use family_okD(2) [OF F, of t] p q in \<open>auto simp: solo_ok_def \<close>)
qed

lemma wait_remove_ok:
  assumes F: "family_ok F" and p: "place F t = WaitRemove c'"
  shows "family_ok (at t (WaitFree c' (exit_status F c')) (F\<lparr>child_list := (child_list F)(t := remove1 c' (child_list F t))\<rparr>))"
    (is "family_ok ?F")
proof (rule family_okI)
  have o: "c' \<in> set (child_list F t)" "place F c' = ExitDown" "free_sema F c' = 0" "wait_sema F c' = 0" "c' \<noteq> t"
    using family_okD(1) [OF F, of t c'] p by (auto simp: pair_ok_def)
  have d: "set (remove1 c' (child_list F t)) = set (child_list F t) - {c'}" using family_okD(4) [OF F] by simp
  note oc = only_list [OF F o(1)]
  show "pair_ok u c (place ?F u) (place ?F c) (load_sema ?F c) (wait_sema ?F c) (free_sema ?F c) (exit_status ?F c)
      (c \<in> set (child_list ?F u))" for u c
  proof (cases "c = c'")
    case True
    then show ?thesis using family_okD(1) [OF F, of u c'] oc [of u] p o d
      by (cases "u = t") (auto simp: pair_ok_def forking_def born_def)
  next
    case False
    then show ?thesis using family_okD(1) [OF F, of u c] p d
      by (cases "u = t"; cases "c = t") (auto simp: pair_ok_def forking_def born_def)
  qed
  show "solo_ok (place ?F c) (wait_sema ?F c) (free_sema ?F c)" for c
    using family_okD(2) [OF F, of c] p by (auto simp: solo_ok_def)
  show "claims ?F u c \<Longrightarrow> claims ?F u' c \<Longrightarrow> u = u'" for u u' c
    using family_okD(3) [OF F, of u c u'] oc [of u] oc [of u'] p o d by (auto simp: claims_def split: if_splits)
  show "distinct (child_list ?F u)" for u using family_okD(4) [OF F] by simp
  show "waited_ok ?F" using family_okD(5) [OF F] p by (fastforce simp: waited_ok_def)
qed

section \<open>Steps\<close>

lemma find_eq: "List.find (\<lambda>c. c = x) xs = (if x \<in> set xs then Some x else None)"
  by (induction xs) auto

lemma find_child: "get_child_process pid t F = Some c \<longleftrightarrow> c = pid \<and> pid \<in> set (child_list F t)"
  by (auto simp: get_child_process_def find_eq)

lemma alive_born: "alive F c \<longleftrightarrow> born (place F c)"
  by (simp add: alive_def born_def)

text \<open>Every step that does not wait for a semaphore is possible and keeps the invariant.\<close>

lemma continue_ok:
  assumes F: "family_ok F" and w: "\<not> awaits t (place F t) F"
  shows "\<exists>F'. continues ok t (place F t) F = Some F' \<and> family_ok F'"
proof (cases "place F t")
  case (DoFork par)
  have "born (place F par)" using family_okD(1) [OF F, of par t] DoFork by (auto simp: pair_ok_def forking_def born_def)
  then show ?thesis using DoFork do_fork_ok [OF F DoFork, of Runs "exit_status F t"] do_fork_ok [OF F DoFork, of ExitUp "- 1"]
    by (cases ok) (simp_all add: do_fork_def alive_born Let_def)
next
  case (CreatePush fork c)
  then show ?thesis using push_ok [OF F CreatePush] family_okD(1) [OF F, of t c]
    by (auto simp: push_child_def alive_born pair_ok_def)
next
  case (ForkLookup c)
  then show ?thesis using fork_lookup_ok [OF F ForkLookup] family_okD(1) [OF F, of t c] find_child [of c t F c]
    by (auto simp: fork_lookup_def alive_born pair_ok_def)
next
  case (ForkDown c)
  then show ?thesis using fork_down_family [OF F ForkDown] family_okD(1) [OF F, of t c] w
    by (auto simp: fork_down_def alive_born pair_ok_def)
next
  case (WaitDown c)
  then show ?thesis using wait_down_ok [OF F WaitDown] family_okD(1) [OF F, of t c] w
    by (auto simp: wait_down_def alive_born pair_ok_def)
next
  case (WaitRemove c)
  then show ?thesis using wait_remove_ok [OF F WaitRemove] family_okD(1) [OF F, of t c]
    by (auto simp: wait_remove_def alive_born pair_ok_def)
next
  case (WaitFree c st)
  then show ?thesis using wait_free_ok [OF F WaitFree] family_okD(1) [OF F, of t c]
    by (auto simp: wait_free_def alive_born pair_ok_def)
next
  case ExitUp
  then show ?thesis using exit_up_ok [OF F] by simp
next
  case ExitDown
  then show ?thesis using exit_down_ok [OF F ExitDown] w by (simp add: exit_down_def)
qed (use w in simp_all)

lemma fstep_ok: "fstep F F' \<Longrightarrow> family_ok F \<Longrightarrow> family_ok F'"
proof (induction rule: fstep.induct)
  case (Create F t c fork)
  then show ?case using create_ok by blast
next
  case (Wait F t pid)
  then show ?case using process_wait_ok [of F t pid]
    by (auto simp: process_wait_def find_child split: option.splits)
next
  case (Exit F t status)
  then show ?case using exit_call_ok by blast
next
  case (Continue t F ok F')
  then show ?case using continue_ok [of F t ok] by auto
qed

lemma reachable_family: "fstep\<^sup>*\<^sup>* (first_process t) F \<Longrightarrow> family_ok F"
  by (induction rule: rtranclp_induct) (auto intro: fstep_ok first_family)

text \<open>Executing a sequence of steps.\<close>

datatype move = MCreate tid tid | MWait tid tid | MExit tid int | MGo tid

fun do_move :: "move \<Rightarrow> family \<Rightarrow> family option" where
  "do_move (MCreate t c) F = do { ASSERT (place F t = Runs \<and> place F c = Unborn); Some (create_thread True c t F) }"
| "do_move (MWait t pid) F = do { ASSERT (place F t = Runs); Some (process_wait pid t F) }"
| "do_move (MExit t st) F = do { ASSERT (place F t = Runs); Some (exit_call (Some st) t F) }"
| "do_move (MGo t) F = do { ASSERT (\<not> awaits t (place F t) F); continues True t (place F t) F }"

fun moves :: "move list \<Rightarrow> family \<Rightarrow> family option" where
  "moves [] F = Some F"
| "moves (m # ms) F = do_move m F \<bind> moves ms"

lemma move_fstep: "do_move m F = Some F' \<Longrightarrow> fstep F F'"
  by (cases m) (auto intro: fstep.intros split: if_splits)

lemma moves_fstep: "moves ms F = Some F' \<Longrightarrow> fstep\<^sup>*\<^sup>* F F'"
  by (induction ms arbitrary: F)
    (auto simp: bind_eq_Some_conv simp del: do_move.simps intro: converse_rtranclp_into_rtranclp dest: move_fstep)

lemma runs_reach:
  "case moves ms F of None \<Rightarrow> False | Some F' \<Rightarrow> P F' \<Longrightarrow> \<exists>F'. fstep\<^sup>*\<^sup>* F F' \<and> P F'"
  using moves_fstep by (auto split: option.splits)

section \<open>Properties\<close>

text \<open> C14: Any number of processes that fork, wait and exit in any order: no process touches one whose
  page has been given back or follows a null pointer; a parent waits in \<open>process_wait\<close> and \<open>process_fork\<close> only while
  the child has not exited and has not been loaded; every child is waited for at most once, by its parent, which gets
  its exit status; and a process is not gone before its status has been taken.\<close>

theorem wait_exit_protocol:
  assumes "fstep\<^sup>*\<^sup>* (first_process t0) F"
  shows "(\<forall>t ok. \<not> awaits t (place F t) F \<longrightarrow> continues ok t (place F t) F \<noteq> None) \<and>
    (\<forall>t c. place F t = WaitDown c \<longrightarrow> place F c = ExitDown \<longrightarrow> \<not> awaits t (place F t) F) \<and>
    (\<forall>t c. place F t = ForkDown c \<longrightarrow> place F c \<noteq> DoFork t \<longrightarrow> \<not> awaits t (place F t) F) \<and>
    distinct (map (\<lambda>(t, c, st). c) (waited F)) \<and>
    (\<forall>t c st. (t, c, st) \<in> set (waited F) \<longrightarrow> st = exit_status F c \<and> place F c \<in> {ExitDown, Dead}) \<and>
    (\<forall>c. place F c = Dead \<longrightarrow> (\<exists>t. (t, c, exit_status F c) \<in> set (waited F)))"
proof (intro conjI allI impI)
  have F: "family_ok F" by (rule reachable_family [OF assms])
  then have w: "waited_ok F" by (rule family_okD(5))
  show "continues ok t (place F t) F \<noteq> None" if "\<not> awaits t (place F t) F" for t ok
    using continue_ok [OF F that] by auto
  show "\<not> awaits t (place F t) F" if "place F t = WaitDown c" "place F c = ExitDown" for t c
    using family_okD(1) [OF F, of t c] that by (auto simp: pair_ok_def)
  show "\<not> awaits t (place F t) F" if "place F t = ForkDown c" "place F c \<noteq> DoFork t" for t c
    using family_okD(1) [OF F, of t c] that by (auto simp: pair_ok_def forking_def)
  show "distinct (map (\<lambda>(t, c, st). c) (waited F))" using w by (simp add: waited_ok_def)
  show "st = exit_status F c" if "(t, c, st) \<in> set (waited F)" for t c st using w that unfolding waited_ok_def by blast
  show "place F c \<in> {ExitDown, Dead}" if "(t, c, st) \<in> set (waited F)" for t c st
    using w that unfolding waited_ok_def by blast
  show "\<exists>t. (t, c, exit_status F c) \<in> set (waited F)" if "place F c = Dead" for c
    using w that unfolding waited_ok_def by blast
qed

theorem wait_exit_protocol_witness:
  "\<exists>F. fstep\<^sup>*\<^sup>* (first_process 1) F \<and> place F 2 = Dead \<and> waited F = [(1, 2, 7)] \<and> exit_status F 2 = 7"
proof -
  let ?ms = "[MCreate 1 2, MGo 1, MGo 2, MGo 1, MGo 1, MWait 1 2, MExit 2 7, MGo 2, MGo 1, MGo 1, MGo 1, MGo 2]"
  have "case moves ?ms (first_process 1) of None \<Rightarrow> False | Some F \<Rightarrow> place F 2 = Dead \<and> waited F = [(1, 2, 7)]"
    by code_simp
  from runs_reach [OF this] obtain F
    where F: "fstep\<^sup>*\<^sup>* (first_process 1) F" "place F 2 = Dead" "waited F = [(1, 2, 7)]" by blast
  from wait_exit_protocol [OF F(1)]
  have "\<forall>t c st. (t, c, st) \<in> set (waited F) \<longrightarrow> st = exit_status F c \<and> place F c \<in> {ExitDown, Dead}"
    by (elim conjE)
  then have "exit_status F 2 = 7" using F(3) by simp
  then show ?thesis using F by blast
qed

text \<open>
  A process whose parent has ended without waiting for it never ends: it stays in \<open>process_exit\<close>, and keeps its page.
\<close>

lemma continues_frame:
  "continues ok t' p F = Some F' \<Longrightarrow> t' \<noteq> t \<Longrightarrow> place F' t = place F t \<and> child_list F' t = child_list F t"
  by (induction ok t' p F rule: continues.induct)
    (auto simp: do_fork_def push_child_def fork_lookup_def fork_down_def wait_down_def wait_remove_def wait_free_def
      exit_up_def exit_down_def bind_eq_Some_conv Let_def split: if_splits)

lemma dead_keeps: "fstep F F' \<Longrightarrow> place F t = Dead \<Longrightarrow> place F' t = Dead \<and> child_list F' t = child_list F t"
proof (induction rule: fstep.induct)
  case (Continue t' F ok F')
  then have "t' \<noteq> t" by auto
  with continues_frame [OF Continue(2)] Continue(3) show ?case by simp
qed (auto simp: create_thread_def process_wait_def exit_call_def split: option.splits)

lemma orphan_never_ends:
  assumes r: "fstep\<^sup>*\<^sup>* (first_process t0) F" and p: "place F t = Dead" "c \<in> set (child_list F t)"
    and "fstep\<^sup>*\<^sup>* F F'"
  shows "place F' c \<noteq> Dead"
proof -
  from assms(4) have "place F' t = Dead \<and> child_list F' t = child_list F t"
    by (induction rule: rtranclp_induct) (use p dead_keeps in auto)
  moreover have "family_ok F'" using reachable_family r assms(4) by (meson rtranclp_trans)
  ultimately show ?thesis using family_okD(1) [of F' t c] p(2) by (auto simp: pair_ok_def born_def)
qed

end
