(* ===== verification/Vga.thy ===== *)
theory Vga
  imports Prelude
begin

text \<open>
  The text screen (devices/vga.c). The frame buffer is a function from rows and columns to characters
  and attributes; what is written to the ports of the adapter is in a list, and the position of the
  cursor that \<open>find_cursor\<close> reads is a parameter.
\<close>

section \<open>State\<close>

abbreviation COL_CNT :: nat where "COL_CNT \<equiv> 80"
abbreviation ROW_CNT :: nat where "ROW_CNT \<equiv> 25"
abbreviation GRAY_ON_BLACK :: u8 where "GRAY_ON_BLACK \<equiv> 0x07"

record screen =
  fb :: "nat \<Rightarrow> nat \<Rightarrow> u8 \<times> u8"
  cx :: nat
  cy :: nat
  inited :: bool
  port_writes :: "(u16 \<times> u16) list"

section \<open>Operations\<close>

definition outw :: "u16 \<Rightarrow> u16 \<Rightarrow> screen \<Rightarrow> screen" where
  "outw port v s = s\<lparr>port_writes := port_writes s @ [(port, v)]\<rparr>"

definition find_cursor :: "u8 \<Rightarrow> u8 \<Rightarrow> nat \<times> nat" where
  "find_cursor hi lo = (let cp = push_bit 8 (ucast hi) OR (ucast lo :: u16) in (unat cp mod COL_CNT, unat cp div COL_CNT))"

definition vga_init :: "u8 \<times> u8 \<Rightarrow> screen \<Rightarrow> screen" where
  "vga_init cursor s =
     (if \<not> inited s then let (x, y) = find_cursor (fst cursor) (snd cursor) in s\<lparr>cx := x, cy := y, inited := True\<rparr> else s)"

definition clear_row :: "nat \<Rightarrow> screen \<Rightarrow> screen" where
  "clear_row y s = s\<lparr>fb := (fb s)(y := \<lambda>x. if x < COL_CNT then (32, GRAY_ON_BLACK) else fb s y x)\<rparr>"

definition move_cursor :: "screen \<Rightarrow> screen" where
  "move_cursor s =
     (let cp = (of_nat (cx s + COL_CNT * cy s) :: u16)
      in outw 0x3d4 (0x0f OR push_bit 8 cp) (outw 0x3d4 (0x0e OR (cp AND 0xff00)) s))"

definition cls :: "screen \<Rightarrow> screen" where
  "cls s = move_cursor ((fold clear_row [0..<ROW_CNT] s)\<lparr>cx := 0, cy := 0\<rparr>)"

definition newline :: "screen \<Rightarrow> screen" where
  "newline s =
     (let s = s\<lparr>cx := 0, cy := cy s + 1\<rparr>
      in if ROW_CNT \<le> cy s then
           clear_row (ROW_CNT - 1) (s\<lparr>cy := ROW_CNT - 1, fb := (\<lambda>y. if y < ROW_CNT - 1 then fb s (y + 1) else fb s y)\<rparr>)
         else s)"

definition put_char :: "u8 \<Rightarrow> screen \<Rightarrow> screen" where
  "put_char c s =
     (let s = s\<lparr>fb := (fb s)(cy s := (fb s (cy s))(cx s := (c, GRAY_ON_BLACK))), cx := cx s + 1\<rparr>
      in if COL_CNT \<le> cx s then newline s else s)"

text \<open>Interrupts are disabled from here to the end of the call.\<close>

definition vga_putc :: "u8 \<times> u8 \<Rightarrow> u8 \<Rightarrow> screen \<Rightarrow> screen" where
  "vga_putc cursor c s =
     (let s = vga_init cursor s;
          s = (if c = 10 then newline s
               else if c = 12 then cls s
               else if c = 8 then (if 0 < cx s then s\<lparr>cx := cx s - 1\<rparr> else s)
               else if c = 13 then s\<lparr>cx := 0\<rparr>
               else if c = 9 then
                 let s = s\<lparr>cx := ROUND_UP (cx s + 1) 8\<rparr> in if COL_CNT \<le> cx s then newline s else s
               else put_char c s)
      in move_cursor s)"

section \<open>The cursor stays on the screen\<close>

definition on_screen :: "screen \<Rightarrow> bool" where
  "on_screen s \<longleftrightarrow> inited s \<and> cx s < COL_CNT \<and> cy s < ROW_CNT"

lemma move_cursor_simps [simp]:
  "cx (move_cursor s) = cx s" "cy (move_cursor s) = cy s" "fb (move_cursor s) = fb s" "inited (move_cursor s) = inited s"
  by (simp_all add: move_cursor_def outw_def Let_def)

lemma clear_row_simps [simp]:
  "cx (clear_row y s) = cx s" "cy (clear_row y s) = cy s" "inited (clear_row y s) = inited s"
  by (simp_all add: clear_row_def)

lemma newline_ok: "inited s \<Longrightarrow> cy s < ROW_CNT \<Longrightarrow> on_screen (newline s)"
  by (simp add: newline_def on_screen_def Let_def)

lemma fold_clear_row:
  "inited (fold clear_row ys s) = inited s \<and>
   fb (fold clear_row ys s) = (\<lambda>y x. if y \<in> set ys \<and> x < COL_CNT then (32, GRAY_ON_BLACK) else fb s y x)"
  by (induction ys arbitrary: s) (auto simp: clear_row_def fun_eq_iff)

lemma on_screen_move [simp]: "on_screen (move_cursor s) = on_screen s"
  by (simp add: on_screen_def)

lemma on_screen_ops:
  assumes s: "on_screen s"
  shows "on_screen (newline s)" "on_screen (cls s)" "on_screen (put_char c s)"
    "on_screen (s\<lparr>cx := cx s - 1\<rparr>)" "on_screen (s\<lparr>cx := 0\<rparr>)"
    "on_screen (let s = s\<lparr>cx := n\<rparr> in if COL_CNT \<le> cx s then newline s else s)"
proof -
  show "on_screen (newline s)" "on_screen (s\<lparr>cx := cx s - 1\<rparr>)" "on_screen (s\<lparr>cx := 0\<rparr>)"
    using s newline_ok [of s] by (auto simp: on_screen_def)
  show "on_screen (cls s)" using s fold_clear_row [of "[0..<ROW_CNT]" s] by (simp add: cls_def on_screen_def)
  let ?s = "s\<lparr>fb := (fb s)(cy s := (fb s (cy s))(cx s := (c, GRAY_ON_BLACK))), cx := cx s + 1\<rparr>"
  have "on_screen (newline ?s)" using s by (intro newline_ok) (simp_all add: on_screen_def)
  then show "on_screen (put_char c s)" using s by (simp add: put_char_def Let_def on_screen_def)
  have "on_screen (newline (s\<lparr>cx := n\<rparr>))" using s by (intro newline_ok) (simp_all add: on_screen_def)
  then show "on_screen (let s = s\<lparr>cx := n\<rparr> in if COL_CNT \<le> cx s then newline s else s)"
    using s by (simp add: Let_def on_screen_def)
qed

lemma vga_putc_on_screen:
  assumes s: "on_screen s" shows "on_screen (vga_putc cursor c s)"
proof -
  have "vga_init cursor s = s" using s by (simp add: vga_init_def on_screen_def)
  then show ?thesis using on_screen_ops [OF s] s by (simp add: vga_putc_def Let_def)
qed

text \<open>
  A printable character appears where the cursor was, and the rest of the screen stays or has moved up
  by one line; the form feed leaves an empty screen.
\<close>

lemma put_char_shows:
  assumes "on_screen s" "cx s + 1 < COL_CNT"
  shows "fb (put_char c s) = (fb s)(cy s := (fb s (cy s))(cx s := (c, GRAY_ON_BLACK)))"
  using assms by (simp add: put_char_def Let_def)

lemma newline_scrolls:
  assumes "cy s = ROW_CNT - 1" "y < ROW_CNT" "x < COL_CNT"
  shows "fb (newline s) y x = (if y < ROW_CNT - 1 then fb s (y + 1) x else (32, GRAY_ON_BLACK))"
  using assms by (auto simp: newline_def clear_row_def Let_def)

lemma cls_clears: "y < ROW_CNT \<Longrightarrow> x < COL_CNT \<Longrightarrow> fb (cls s) y x = (32, GRAY_ON_BLACK)"
  using fold_clear_row [of "[0..<ROW_CNT]" s] by (simp add: cls_def)

end
