(* ===== verification/Rc4.thy ===== *)
theory Rc4
  imports Prelude
begin

text \<open>
  The pseudo-random numbers of lib/random.c: the RC4 cipher. The array \<open>s\<close> of the code is
  \<open>state\<close>; \<open>uint8_t\<close> arithmetic wraps.
\<close>

section \<open>State\<close>

record prng =
  state :: "u8 list"
  s_i :: u8
  s_j :: u8
  inited :: bool

definition swap_byte :: "nat \<Rightarrow> nat \<Rightarrow> u8 list \<Rightarrow> u8 list" where
  "swap_byte a b xs = xs[a := xs ! b, b := xs ! a]"

section \<open>Operations\<close>

text \<open>The bytes of the seed in memory, and the loop that mixes them in.\<close>

definition seed_bytes :: "u32 \<Rightarrow> u8 list" where
  "seed_bytes seed = map (\<lambda>k. ucast (drop_bit (8 * k) seed)) [0..<4]"

fun mix_loop :: "u8 list \<Rightarrow> nat \<Rightarrow> nat \<Rightarrow> u8 \<Rightarrow> u8 list \<Rightarrow> u8 list" where
  "mix_loop seedp i 0 j s = s"
| "mix_loop seedp i (Suc n) j s =
     (let j = j + (s ! i + seedp ! (i mod 4)) in mix_loop seedp (i + 1) n j (swap_byte i (unat j) s))"

definition random_init :: "u32 \<Rightarrow> prng" where
  "random_init seed =
     \<lparr>state = mix_loop (seed_bytes seed) 0 256 0 (map of_nat [0..<256]), s_i = 0, s_j = 0, inited = True\<rparr>"

definition random_byte :: "prng \<Rightarrow> u8 \<times> prng" where
  "random_byte p =
     (let i = s_i p + 1;
          j = s_j p + state p ! unat i;
          s = swap_byte (unat i) (unat j) (state p);
          k = s ! unat i + s ! unat j
      in (s ! unat k, p\<lparr>state := s, s_i := i, s_j := j\<rparr>))"

fun bytes_loop :: "nat \<Rightarrow> prng \<Rightarrow> u8 list \<times> prng" where
  "bytes_loop 0 p = ([], p)"
| "bytes_loop (Suc n) p = (let (b, p) = random_byte p; (bs, p) = bytes_loop n p in (b # bs, p))"

definition random_bytes :: "nat \<Rightarrow> prng \<Rightarrow> u8 list \<times> prng" where
  "random_bytes n p = bytes_loop n (if inited p then p else random_init 0)"

definition random_ulong :: "prng \<Rightarrow> u64 \<times> prng" where
  "random_ulong p =
     (let (bs, p) = random_bytes 8 p
      in (fold (\<lambda>k v. v OR push_bit (8 * k) (ucast (bs ! k))) [0..<8] 0, p))"

section \<open>The state is a permutation of the bytes\<close>

definition all_bytes :: "u8 list" where "all_bytes = map of_nat [0..<256]"

definition prng_ok :: "prng \<Rightarrow> bool" where "prng_ok p \<longleftrightarrow> mset (state p) = mset all_bytes"

lemma mset_swap_byte: "a < length xs \<Longrightarrow> b < length xs \<Longrightarrow> mset (swap_byte a b xs) = mset xs"
  unfolding swap_byte_def by (rule mset_swap)

lemma unat_byte: "unat (b :: u8) < 256"
  using unsigned_less [of b, where 'a = nat] by simp

lemma mix_loop_mset: "length s = 256 \<Longrightarrow> i + n \<le> 256 \<Longrightarrow> mset (mix_loop seedp i n j s) = mset s"
proof (induction n arbitrary: i j s)
  case (Suc n)
  let ?j = "j + (s ! i + seedp ! (i mod 4))"
  have "mset (swap_byte i (unat ?j) s) = mset s" using Suc.prems unat_byte by (intro mset_swap_byte) auto
  moreover have "length (swap_byte i (unat ?j) s) = 256" using Suc.prems by (simp add: swap_byte_def)
  ultimately show ?case using Suc.IH [of "swap_byte i (unat ?j) s" "i + 1" ?j] Suc.prems by (simp add: Let_def)
qed simp

lemma random_init_ok: "prng_ok (random_init seed)"
  by (simp add: prng_ok_def random_init_def all_bytes_def mix_loop_mset)

lemma prng_length: "prng_ok p \<Longrightarrow> length (state p) = 256"
proof -
  assume "prng_ok p"
  then have "size (mset (state p)) = size (mset all_bytes)" by (simp add: prng_ok_def)
  then show "length (state p) = 256" by (simp add: all_bytes_def)
qed

lemma random_byte_ok: "prng_ok p \<Longrightarrow> prng_ok (snd (random_byte p))"
  using prng_length [of p] unat_byte by (simp add: random_byte_def Let_def prng_ok_def mset_swap_byte)

lemma bytes_loop_ok: "prng_ok p \<Longrightarrow> prng_ok (snd (bytes_loop n p)) \<and> length (fst (bytes_loop n p)) = n"
proof (induction n arbitrary: p)
  case (Suc n)
  obtain b q where b: "random_byte p = (b, q)" by (cases "random_byte p")
  obtain bs r where r: "bytes_loop n q = (bs, r)" by (cases "bytes_loop n q")
  show ?case using random_byte_ok [OF Suc.prems] Suc.IH [of q] b r by (simp add: Let_def)
qed simp

text \<open>
  Whatever the seed, the array stays a permutation of all bytes, so that every index is inside it;
  \<open>random_bytes\<close> gives as many bytes as asked for.
\<close>

lemma random_bytes_ok:
  assumes "inited p \<Longrightarrow> prng_ok p"
  shows "prng_ok (snd (random_bytes n p)) \<and> length (fst (random_bytes n p)) = n"
  unfolding random_bytes_def using bytes_loop_ok assms random_init_ok by (cases "inited p") auto

end
