(* ===== verification/BootArgs.thy ===== *)
theory BootArgs
  imports Stdlib Rc4
begin

text \<open>
  The command line of the kernel (threads/init.c): breaking it into words, its options, and the actions it
  asks for. A word is the list of its bytes, without the terminator. What \<open>strtok_r\<close> of lib/string.c
  does to a word with an equals sign is written out on lists; carrying out an action is a parameter. \<open>None\<close> is a panic,
  which includes a null dereference and an access outside an array.
\<close>

abbreviation LOADER_ARGS_LEN :: nat where "LOADER_ARGS_LEN \<equiv> 128"

section \<open>Words\<close>

text \<open>
  The loop of \<open>read_command_line\<close>: \<open>argc\<close> words are left, \<open>p\<close> is the offset in the bytes the loader has
  left, and \<open>i\<close> the index in the array of pointers, which has 65 entries.
\<close>

definition strnlen_at :: "u8 list \<Rightarrow> nat \<Rightarrow> nat" where
  "strnlen_at args p = length (takeWhile (\<lambda>c. c \<noteq> 0) (drop p (take LOADER_ARGS_LEN args)))"

fun words_loop :: "u8 list \<Rightarrow> nat \<Rightarrow> nat \<Rightarrow> nat \<Rightarrow> u8 list list option" where
  "words_loop args 0 p i = do { ASSERT (i < LOADER_ARGS_LEN div 2 + 1); Some [] }"
| "words_loop args (Suc argc) p i = do {
     ASSERT (p < LOADER_ARGS_LEN);
     ASSERT (i < LOADER_ARGS_LEN div 2 + 1);
     let n = strnlen_at args p;
     ws \<leftarrow> words_loop args argc (p + n + 1) (i + 1);
     Some (take n (drop p args) # ws) }"

definition read_command_line :: "u8 list \<Rightarrow> u32 \<Rightarrow> u8 list list option" where
  "read_command_line args argc = words_loop args (unat argc) 0 0"

section \<open>Options\<close>

record options =
  format_filesys :: bool
  power_off_when_done :: bool
  thread_tests :: bool
  thread_mlfqs :: bool
  generator :: prng
  user_page_limit :: u64

definition bytes :: "string \<Rightarrow> u8 list" where "bytes s = map of_char s"

text \<open>The name of an option, and its value, which is null when nothing follows the equals sign.\<close>

definition option_name :: "u8 list \<Rightarrow> u8 list" where
  "option_name w = takeWhile (\<lambda>c. c \<noteq> 61) w"

definition option_value :: "u8 list \<Rightarrow> u8 list option" where
  "option_value w =
     (case dropWhile (\<lambda>c. c \<noteq> 61) w of [] \<Rightarrow> None | _ # v \<Rightarrow> if v = [] then None else Some v)"

definition atoi_value :: "u8 list option \<Rightarrow> int option" where
  "atoi_value v = do { s \<leftarrow> v; Some (atoi s) }"

text \<open>\<open>usage\<close> powers the machine off.\<close>

datatype 'a boot = Continues 'a | PowersOff

definition set_option :: "u8 list \<Rightarrow> u8 list option \<Rightarrow> options \<Rightarrow> options boot option" where
  "set_option name val opts =
     (if name = bytes ''-h'' then Some PowersOff
      else if name = bytes ''-q'' then Some (Continues (opts\<lparr>power_off_when_done := True\<rparr>))
      else if name = bytes ''-f'' then Some (Continues (opts\<lparr>format_filesys := True\<rparr>))
      else if name = bytes ''-rs'' then do { n \<leftarrow> atoi_value val; Some (Continues (opts\<lparr>generator := random_init (of_int n)\<rparr>)) }
      else if name = bytes ''-mlfqs'' then Some (Continues (opts\<lparr>thread_mlfqs := True\<rparr>))
      else if name = bytes ''-ul'' then do { n \<leftarrow> atoi_value val; Some (Continues (opts\<lparr>user_page_limit := of_int n\<rparr>)) }
      else if name = bytes ''-threads-tests'' then Some (Continues (opts\<lparr>thread_tests := True\<rparr>))
      else None)"

fun parse_options :: "u8 list list \<Rightarrow> options \<Rightarrow> (options \<times> u8 list list) boot option" where
  "parse_options [] opts = Some (Continues (opts, []))"
| "parse_options (w # argv) opts =
     (if take 1 w = [45] then
        (case set_option (option_name w) (option_value w) opts of
           None \<Rightarrow> None
         | Some PowersOff \<Rightarrow> Some PowersOff
         | Some (Continues opts') \<Rightarrow> parse_options argv opts')
      else Some (Continues (opts, w # argv)))"

section \<open>Actions\<close>

definition actions :: "(u8 list \<times> nat) list" where
  "actions = [(bytes ''run'', 2), (bytes ''ls'', 1), (bytes ''cat'', 2), (bytes ''rm'', 2), (bytes ''put'', 2), (bytes ''get'', 2)]"

lemma actions_pos: "map_of actions w = Some n \<Longrightarrow> 0 < n"
  by (auto simp: actions_def split: if_splits)

function run_actions :: "(u8 list list \<Rightarrow> 's \<Rightarrow> 's option) \<Rightarrow> u8 list list \<Rightarrow> 's \<Rightarrow> 's option" where
  "run_actions perform [] s = Some s"
| "run_actions perform (w # argv) s =
     (case map_of actions w of
        None \<Rightarrow> None
      | Some argc \<Rightarrow>
          if length (w # argv) < argc then None
          else (case perform (take argc (w # argv)) s of
                  None \<Rightarrow> None
                | Some s' \<Rightarrow> run_actions perform (drop argc (w # argv)) s'))"
  by pat_completeness auto
termination
proof (relation "measure (\<lambda>(f, ws, s). length ws)")
  show "((perform, drop x2 (w # argv), x2a), perform, w # argv, s) \<in> measure (\<lambda>(f, ws, s). length ws)"
    if "map_of actions w = Some x2" for perform :: "u8 list list \<Rightarrow> 's \<Rightarrow> 's option" and w argv s x2 x2a
    using actions_pos [OF that] by auto
qed simp

section \<open>Lemmas\<close>

text \<open>What is left after the options is the rest of the command line from the first word that is no option.\<close>

lemma parse_options_rest:
  "parse_options argv opts = Some (Continues (opts', rest)) \<Longrightarrow> rest = dropWhile (\<lambda>w. take 1 w = [45]) argv"
  by (induction argv opts rule: parse_options.induct) (auto split: if_splits option.splits boot.splits)

text \<open>Options only switch on; none of them switches another one off.\<close>

lemma set_option_mono:
  assumes "set_option name val opts = Some (Continues opts')"
  shows "(power_off_when_done opts \<longrightarrow> power_off_when_done opts') \<and> (format_filesys opts \<longrightarrow> format_filesys opts') \<and>
    (thread_mlfqs opts \<longrightarrow> thread_mlfqs opts') \<and> (thread_tests opts \<longrightarrow> thread_tests opts')"
  using assms by (auto simp: set_option_def bind_eq_Some_conv split: if_splits)

text \<open>The words of a command line that fits, each with its terminator, are read back.\<close>

lemma strnlen_word:
  assumes "\<forall>c\<in>set w. c \<noteq> 0" "p + length w + 1 \<le> LOADER_ARGS_LEN" "drop p args = w @ 0 # rest"
  shows "strnlen_at args p = length w"
proof -
  have "drop p (take LOADER_ARGS_LEN args) = take (LOADER_ARGS_LEN - p) (w @ 0 # rest)"
    using assms(3) by (simp add: drop_take)
  also have "\<dots> = w @ 0 # take (LOADER_ARGS_LEN - p - length w - 1) rest"
    using assms(2) by (simp add: take_Cons' diff_diff_eq)
  finally show ?thesis using assms(1) by (simp add: strnlen_at_def takeWhile_append2)
qed

lemma words_loop_reads:
  assumes "\<forall>w\<in>set ws. \<forall>c\<in>set w. c \<noteq> 0" "drop p args = concat (map (\<lambda>w. w @ [0]) ws) @ rest"
    "p + length (concat (map (\<lambda>w. w @ [0]) ws)) \<le> LOADER_ARGS_LEN" "i + length ws < 65"
  shows "words_loop args (length ws) p i = Some ws"
  using assms
proof (induction ws arbitrary: p i)
  case (Cons w ws)
  have d: "drop p args = w @ 0 # (concat (map (\<lambda>w. w @ [0]) ws) @ rest)" using Cons.prems(2) by simp
  have n: "strnlen_at args p = length w" using strnlen_word [OF _ _ d] Cons.prems(1,3) by simp
  have d': "drop (p + length w + 1) args = concat (map (\<lambda>w. w @ [0]) ws) @ rest"
  proof -
    have "drop (p + length w + 1) args = drop (length w + 1) (drop p args)" by (simp add: add.commute)
    then show ?thesis using d by simp
  qed
  have "words_loop args (length ws) (p + length w + 1) (i + 1) = Some ws"
    by (rule Cons.IH) (use Cons.prems d' in simp_all)
  moreover have "take (length w) (drop p args) = w" using d by simp
  ultimately show ?case using n Cons.prems(3,4) by (simp add: Let_def)
qed simp

text \<open>Many empty words fit into the bytes of the loader but not into the array of pointers.\<close>

lemma many_empty_words: "words_loop (replicate 128 0) 66 0 0 = None"
  by code_simp

end
