(* ===== verification/TimerWait.thy ===== *)
theory TimerWait
  imports Prelude
begin

text \<open>
  Calibration and delays in devices/timer.c. Whether a number of loops takes longer than a tick is a
  parameter, as it depends on the machine. 64-bit integers are integers within their range;
  \<open>loops_per_tick\<close> is a 32-bit word.
\<close>

abbreviation (input) TIMER_HZ :: int where "TIMER_HZ \<equiv> 100"

section \<open>Calibration\<close>

partial_function (option) double_loop :: "(u32 \<Rightarrow> bool) \<Rightarrow> u32 \<Rightarrow> u32 option" where
  "double_loop too_many loops =
     (if too_many (push_bit 1 loops) then Some loops
      else if push_bit 1 loops = 0 then None
      else double_loop too_many (push_bit 1 loops))"

partial_function (option) refine_loop :: "(u32 \<Rightarrow> bool) \<Rightarrow> u32 \<Rightarrow> u32 \<Rightarrow> u32 \<Rightarrow> u32 option" where
  "refine_loop too_many high_bit test_bit loops =
     (if test_bit = drop_bit 10 high_bit then Some loops
      else refine_loop too_many high_bit (drop_bit 1 test_bit)
        (if too_many (high_bit OR test_bit) then loops else loops OR test_bit))"

definition timer_calibrate :: "bool \<Rightarrow> (u32 \<Rightarrow> bool) \<Rightarrow> u32 option" where
  "timer_calibrate intr_on too_many = do {
     ASSERT intr_on;
     loops \<leftarrow> double_loop too_many (push_bit 10 1);
     refine_loop too_many loops (drop_bit 1 loops) loops }"

section \<open>Delays\<close>

text \<open>\<open>timer_ticks\<close> restores the interrupt level.\<close>

definition timer_elapsed :: "int \<Rightarrow> int \<Rightarrow> int" where "timer_elapsed ticks thn = ticks - thn"

text \<open>The number of passes of \<open>busy_wait\<close>, and how \<open>real_time_sleep\<close> waits.\<close>

function busy_passes :: "int \<Rightarrow> nat" where
  "busy_passes loops = (if 0 < loops then Suc (busy_passes (loops - 1)) else 0)"
  by auto
termination by (relation "measure nat") auto

datatype delay = SleepUntil int | BusyWait int

definition real_time_sleep :: "bool \<Rightarrow> int \<Rightarrow> u32 \<Rightarrow> int \<Rightarrow> int \<Rightarrow> delay option" where
  "real_time_sleep intr_on now loops_per_tick num denom = do {
     let t = cdiv (num * TIMER_HZ) denom;
     ASSERT intr_on;
     if 0 < t then Some (SleepUntil (t + now))
     else do {
       ASSERT (cmod denom 1000 = 0);
       Some (BusyWait (cdiv (cdiv (uint loops_per_tick * num) 1000 * TIMER_HZ) (cdiv denom 1000))) } }"

definition timer_msleep :: "bool \<Rightarrow> int \<Rightarrow> u32 \<Rightarrow> int \<Rightarrow> delay option" where
  "timer_msleep intr_on now lpt ms = real_time_sleep intr_on now lpt ms 1000"

definition timer_usleep :: "bool \<Rightarrow> int \<Rightarrow> u32 \<Rightarrow> int \<Rightarrow> delay option" where
  "timer_usleep intr_on now lpt us = real_time_sleep intr_on now lpt us (1000 * 1000)"

definition timer_nsleep :: "bool \<Rightarrow> int \<Rightarrow> u32 \<Rightarrow> int \<Rightarrow> delay option" where
  "timer_nsleep intr_on now lpt ns = real_time_sleep intr_on now lpt ns (1000 * 1000 * 1000)"

section \<open>Lemmas\<close>

lemma busy_passes: "busy_passes loops = nat loops"
proof (induction loops rule: busy_passes.induct)
  case (1 loops)
  then show ?case by (subst busy_passes.simps) auto
qed

text \<open>
  The doubling ends with a power of two that fits into a tick when its double does not, for any machine whose tick
  has less than \<open>2 ^ 31\<close> loops.
\<close>

lemma double_loop_spec:
  assumes "k \<le> n" "n < 31" "too_many (2 ^ Suc n)" "\<forall>i. k < i \<and> i \<le> n \<longrightarrow> \<not> too_many (2 ^ i)"
  shows "double_loop too_many (2 ^ k) = Some (2 ^ n)"
  using assms(1,4)
proof (induction "n - k" arbitrary: k)
  case 0
  then have "k = n" by simp
  then show ?case using assms(3) by (subst double_loop.simps) (simp add: mult.commute)
next
  case (Suc d)
  have n: "\<not> too_many (2 ^ Suc k)" using Suc.hyps(2) Suc.prems(2) by auto
  have z: "(2 :: u32) ^ Suc k \<noteq> 0"
    using Suc.hyps(2) assms(2) by (simp add: exp_eq_zero_iff del: power_Suc)
  have "double_loop too_many (2 ^ Suc k) = Some (2 ^ n)" using Suc.hyps(1) [of "Suc k"] Suc.hyps(2) Suc.prems by simp
  then show ?case using n z by (subst double_loop.simps) (simp add: mult.commute)
qed

text \<open>
  The refinement tests every bit together with the highest bit only, not with those it has already found:
  on a machine with 1536 loops in a tick the result is 2046.
\<close>

lemma calibrate_overshoots: "timer_calibrate True (\<lambda>n. 1536 < n) = Some 2046"
  by (simp add: timer_calibrate_def double_loop.simps refine_loop.simps)

text \<open>A delay of at least a tick sleeps for the ticks rounded down; a shorter one is a busy wait.\<close>

lemma msleep_spec:
  assumes "0 \<le> ms"
  shows "timer_msleep True now lpt ms =
    Some (if 10 \<le> ms then SleepUntil (now + ms div 10) else BusyWait (uint lpt * ms div 1000 * 100))"
proof -
  have "cdiv (ms * 100) 1000 = ms div 10" using assms by (simp add: cdiv_nonneg)
  moreover have "0 \<le> uint lpt * ms" using assms by simp
  then have "cdiv (cdiv (uint lpt * ms) 1000 * 100) 1 = uint lpt * ms div 1000 * 100"
    by (simp add: cdiv_nonneg pos_imp_zdiv_nonneg_iff)
  moreover have "cmod 1000 1000 = 0" "cdiv 1000 1000 = 1" by (simp_all add: cmod_def cdiv_def)
  ultimately show ?thesis by (auto simp: timer_msleep_def real_time_sleep_def Let_def)
qed

end
