(* ===== verification/FsUtil.thy ===== *)
theory FsUtil
  imports VmLoad FileSys
begin

text \<open>
  The actions of the kernel command line on files: filesys/fsutil.c. The scratch disk is a disk of its own,
  and the two static positions on it are fields of the state. What is printed is the result: the names that
  \<open>fsutil_ls\<close> lists, and the blocks of \<open>fsutil_cat\<close> with their offsets, as \<open>hex_dump\<close> gets them.
\<close>

section \<open>Operations\<close>

record util =
  ufs :: fs
  scratch :: "disk option"
  put_sector :: nat
  get_sector :: nat

text \<open>Listing the root directory.\<close>

partial_function (option) ls_loop :: "dir \<Rightarrow> fs \<Rightarrow> (fs \<times> u8 list list) option" where
  "ls_loop d s = do {
     r \<leftarrow> dir_readdir d s;
     case snd (snd r) of
       None \<Rightarrow> Some (fst r, [])
     | Some nm \<Rightarrow> do { q \<leftarrow> ls_loop (fst (snd r)) (fst r); Some (fst q, nm # snd q) } }"

definition fsutil_ls :: "fs \<Rightarrow> (fs \<times> u8 list list) option" where
  "fsutil_ls s = do {
     (s, d) \<leftarrow> dir_open_root s;
     case d of None \<Rightarrow> None | Some d \<Rightarrow> ls_loop d s }"

text \<open>Printing a file, a page at a time.\<close>

partial_function (option) cat_loop :: "addr \<Rightarrow> fs \<Rightarrow> (fs \<times> (int \<times> u8 list) list) option" where
  "cat_loop f s = do {
     p \<leftarrow> file_tell f s;
     r \<leftarrow> file_read f 4096 s;
     if snd r = [] then Some (fst r, [])
     else do { q \<leftarrow> cat_loop f (fst r); Some (fst q, (p, snd r) # snd q) } }"

definition fsutil_cat :: "u8 list \<Rightarrow> fs \<Rightarrow> (fs \<times> (int \<times> u8 list) list) option" where
  "fsutil_cat file_name s = do {
     (s, f) \<leftarrow> filesys_open file_name s;
     ASSERT (f \<noteq> NULL);
     (s, ok) \<leftarrow> Some (alloc s);
     ASSERT ok;
     (s, blocks) \<leftarrow> cat_loop f s;
     s \<leftarrow> file_close f s;
     Some (s, blocks) }"

definition fsutil_rm :: "u8 list \<Rightarrow> fs \<Rightarrow> fs option" where
  "fsutil_rm file_name s = do { (s, ok) \<leftarrow> filesys_remove file_name s; ASSERT ok; Some s }"

text \<open>Copying from the scratch disk: \<open>sz\<close> bytes are left.\<close>

abbreviation chunk :: "int \<Rightarrow> int" where "chunk sz \<equiv> (if 512 < sz then 512 else sz)"

function put_loop :: "addr \<Rightarrow> int \<Rightarrow> disk \<Rightarrow> nat \<Rightarrow> fs \<Rightarrow> (disk \<times> nat \<times> fs) option" where
  "put_loop dst sz src sec s =
     (if 0 < sz then
        (case disk_read src sec of
           None \<Rightarrow> None
         | Some (src, buffer) \<Rightarrow>
             (case file_write dst buffer (chunk sz) s of
                None \<Rightarrow> None
              | Some (s, n) \<Rightarrow>
                  if int n \<noteq> chunk sz then None else put_loop dst (sz - chunk sz) src (sec + 1) s))
      else Some (src, sec, s))"
  by pat_completeness auto
termination by (relation "measure (\<lambda>(dst, sz, src, sec, s). nat sz)") (auto split: if_splits)

declare put_loop.simps [simp del]

definition fsutil_put :: "u8 list \<Rightarrow> u8 list \<Rightarrow> util \<Rightarrow> util option" where
  "fsutil_put e0 file_name u = do {
     (s, ok) \<leftarrow> Some (alloc (ufs u));
     ASSERT ok;
     src \<leftarrow> scratch u;
     (src, buffer) \<leftarrow> disk_read src (put_sector u);
     ASSERT (take 4 buffer = [80, 85, 84, 0]);
     let sz = bytes_off (take 4 (drop 4 buffer));
     ASSERT (0 \<le> sz);
     (s, ok) \<leftarrow> filesys_create e0 file_name sz s;
     ASSERT ok;
     (s, dst) \<leftarrow> filesys_open file_name s;
     ASSERT (dst \<noteq> NULL);
     (src, sec, s) \<leftarrow> put_loop dst sz src (put_sector u + 1) s;
     s \<leftarrow> file_close dst s;
     Some (u\<lparr>ufs := s, scratch := Some src, put_sector := sec\<rparr>) }"

text \<open>Copying to the scratch disk.\<close>

function get_loop :: "addr \<Rightarrow> int \<Rightarrow> disk \<Rightarrow> nat \<Rightarrow> fs \<Rightarrow> (disk \<times> nat \<times> fs) option" where
  "get_loop src sz dst sec s =
     (if 0 < sz then
        if disk_size dst \<le> sec then None
        else
          (case file_read src (chunk sz) s of
             None \<Rightarrow> None
           | Some (s, bs) \<Rightarrow>
               if int (length bs) \<noteq> chunk sz then None
               else (case disk_write dst sec (bs @ replicate (512 - length bs) 0) of
                       None \<Rightarrow> None
                     | Some dst \<Rightarrow> get_loop src (sz - chunk sz) dst (sec + 1) s))
      else Some (dst, sec, s))"
  by pat_completeness auto
termination by (relation "measure (\<lambda>(src, sz, dst, sec, s). nat sz)") (auto split: if_splits)

declare get_loop.simps [simp del]

definition fsutil_get :: "u8 list \<Rightarrow> util \<Rightarrow> util option" where
  "fsutil_get file_name u = do {
     (s, ok) \<leftarrow> Some (alloc (ufs u));
     ASSERT ok;
     (s, src) \<leftarrow> filesys_open file_name s;
     ASSERT (src \<noteq> NULL);
     sz \<leftarrow> file_length src s;
     dst \<leftarrow> scratch u;
     dst \<leftarrow> disk_write dst (get_sector u) ([71, 69, 84, 0] @ off_bytes sz @ replicate 504 0);
     (dst, sec, s) \<leftarrow> get_loop src sz dst (get_sector u + 1) s;
     s \<leftarrow> file_close src s;
     Some (u\<lparr>ufs := s, scratch := Some dst, get_sector := sec\<rparr>) }"

section \<open>Lists and copies\<close>

text \<open>\<open>fsutil_ls\<close> lists the names in use, in the order of the entries.\<close>

definition entry_name :: "dir_entry \<Rightarrow> u8 list" where
  "entry_name e = take NAME_MAX (c_string (name e))"

lemma read_at_entry:
  assumes "dir_ok d ino s" "d_inode d' = d_inode d" "d_pos d' = int (ENTRY_SIZE * k)" "k \<le> entry_count ino"
  shows "\<exists>s' bs. inode_read_at (d_inode d') (int ENTRY_SIZE) (d_pos d') s = Some (s', bs) \<and> quiet s s' \<and>
    (if k < entry_count ino then length bs = ENTRY_SIZE \<and> bytes_entry bs = entries (disk s) ino ! k else bs = [])"
proof -
  obtain s' bs where "inode_read_at (d_inode d) (int ENTRY_SIZE) (int (ENTRY_SIZE * k)) s = Some (s', bs)" "quiet s s'"
    "if k < entry_count ino then length bs = ENTRY_SIZE \<and> bytes_entry bs = entries (disk s) ino ! k
     else k = entry_count ino \<longrightarrow> bs = []"
    using read_entry [OF assms(1), of k] by blast
  then show ?thesis using assms(2-4) by (intro exI [of _ s'] exI [of _ bs]) (simp split: if_splits)
qed

text \<open>What is left of the entries after the one that \<open>dir_readdir\<close> has found.\<close>

definition names_from :: "dir_entry list \<Rightarrow> nat \<Rightarrow> u8 list list" where
  "names_from es k = map entry_name (filter in_use (drop k es))"

definition next_name :: "dir_entry list \<Rightarrow> nat \<Rightarrow> dir \<Rightarrow> u8 list option \<Rightarrow> bool" where
  "next_name es k d r \<longleftrightarrow>
     (case r of
        None \<Rightarrow> names_from es k = []
      | Some nm \<Rightarrow> \<exists>j. k < j \<and> j \<le> length es \<and> d_pos d = int (ENTRY_SIZE * j) \<and> names_from es k = nm # names_from es j)"

lemma names_from_step:
  "k < length es \<Longrightarrow> names_from es k = (if in_use (es ! k) then [entry_name (es ! k)] else []) @ names_from es (Suc k)"
  by (simp add: names_from_def flip: Cons_nth_drop_Suc)

lemma readdir_spec:
  assumes "dir_ok d ino s" "d_inode d' = d_inode d" "d_pos d' = int (ENTRY_SIZE * k)" "k \<le> entry_count ino"
  shows "\<exists>s' d'' r. dir_readdir d' s = Some (s', d'', r) \<and> quiet s s' \<and> d_inode d'' = d_inode d \<and>
    next_name (entries (disk s) ino) k d'' r"
  using assms
proof (induction "entry_count ino - k" arbitrary: k d' s rule: less_induct)
  case less
  obtain s1 bs where r: "inode_read_at (d_inode d') (int ENTRY_SIZE) (d_pos d') s = Some (s1, bs)" "quiet s s1"
    "if k < entry_count ino then length bs = ENTRY_SIZE \<and> bytes_entry bs = entries (disk s) ino ! k else bs = []"
    using read_at_entry [OF less.prems] by blast
  let ?es = "entries (disk s) ino" and ?d = "d'\<lparr>d_pos := d_pos d' + int ENTRY_SIZE\<rparr>"
  show ?case
  proof (cases "k < entry_count ino")
    case False
    then have "dir_readdir d' s = Some (s1, d', None)" using r by (subst dir_readdir.simps) (simp add: Let_def)
    moreover have "names_from ?es k = []" using False by (simp add: names_from_def)
    ultimately show ?thesis using r(2) less.prems(2) by (simp add: next_name_def)
  next
    case True
    have b: "length bs = ENTRY_SIZE" "bytes_entry bs = ?es ! k" using r(3) True by simp_all
    have st: "names_from ?es k = (if in_use (?es ! k) then [entry_name (?es ! k)] else []) @ names_from ?es (Suc k)"
      using True by (simp add: names_from_step)
    have p: "d_inode ?d = d_inode d" "d_pos ?d = int (ENTRY_SIZE * Suc k)" using less.prems(2,3) by simp_all
    show ?thesis
    proof (cases "in_use (?es ! k)")
      case u: True
      have e: "dir_readdir d' s = Some (s1, ?d, Some (entry_name (?es ! k)))"
        using r(1) b u by (subst dir_readdir.simps) (simp add: Let_def entry_name_def)
      have "next_name ?es k ?d (Some (entry_name (?es ! k)))"
        unfolding next_name_def option.case using st u p(2) True by (intro exI [of _ "Suc k"]) simp
      then show ?thesis using e r(2) p(1) by blast
    next
      case u: False
      have o: "dir_ok d ino s1" "entries (disk s1) ino = ?es" using dir_ok_quiet [OF less.prems(1) r(2)] by simp_all
      have e: "dir_readdir d' s = dir_readdir ?d s1" using r(1) b u by (subst dir_readdir.simps) (simp add: Let_def)
      have "entry_count ino - Suc k < entry_count ino - k" "Suc k \<le> entry_count ino" using True by simp_all
      from less.hyps [OF this(1) o(1) p this(2)] obtain s' d'' q where
        q: "dir_readdir ?d s1 = Some (s', d'', q)" "quiet s1 s'" "d_inode d'' = d_inode d" "next_name ?es (Suc k) d'' q"
        using o(2) by auto
      have "next_name ?es k d'' q" using q(4) st u by (cases q) (auto simp: next_name_def intro: Suc_lessD)
      then show ?thesis using e q(1,3) quiet_trans [OF r(2) q(2)] by auto
    qed
  qed
qed

lemma ls_loop_spec:
  assumes "dir_ok d ino s" "d_inode d' = d_inode d" "d_pos d' = int (ENTRY_SIZE * k)" "k \<le> entry_count ino"
  shows "\<exists>s'. ls_loop d' s = Some (s', names_from (entries (disk s) ino) k) \<and> quiet s s'"
  using assms
proof (induction "entry_count ino - k" arbitrary: k d' s rule: less_induct)
  case less
  obtain s1 d1 r where r: "dir_readdir d' s = Some (s1, d1, r)" "quiet s s1" "d_inode d1 = d_inode d"
    "next_name (entries (disk s) ino) k d1 r"
    using readdir_spec [OF less.prems] by blast
  show ?case
  proof (cases r)
    case None
    then show ?thesis using r by (subst ls_loop.simps) (simp add: next_name_def)
  next
    case (Some nm)
    then obtain j where j: "k < j" "j \<le> entry_count ino" "d_pos d1 = int (ENTRY_SIZE * j)"
      "names_from (entries (disk s) ino) k = nm # names_from (entries (disk s) ino) j"
      using r(4) by (auto simp: next_name_def)
    have o: "dir_ok d ino s1" "entries (disk s1) ino = entries (disk s) ino" using dir_ok_quiet [OF less.prems(1) r(2)] by simp_all
    have "entry_count ino - j < entry_count ino - k" using j(1,2) by simp
    from less.hyps [OF this o(1) r(3) j(3,2)] o(2) obtain s2 where
      "ls_loop d1 s1 = Some (s2, names_from (entries (disk s) ino) j)" "quiet s1 s2" by auto
    then show ?thesis using r(1) Some j(4) quiet_trans [OF r(2)] by (subst ls_loop.simps) simp
  qed
qed


text \<open>The copies: an open file at a position, and the bytes of consecutive sectors.\<close>

definition file_at :: "addr \<Rightarrow> open_file \<Rightarrow> inode \<Rightarrow> fs \<Rightarrow> bool" where
  "file_at f fl ino s \<longleftrightarrow> files s f = Some fl \<and> inodes s (f_inode fl) = Some ino \<and> extent_ok (disk s) (data ino) \<and>
     0 \<le> open_file.pos fl \<and> heap s = []"

definition sectors_bytes :: "disk \<Rightarrow> nat \<Rightarrow> nat \<Rightarrow> u8 list" where
  "sectors_bytes d i n = concat (map (sectors d) [i..<i + n])"

definition sectors_for :: "int \<Rightarrow> nat" where "sectors_for sz = (nat sz + 511) div 512"

lemma sectors_for_step: "0 < sz \<Longrightarrow> sectors_for sz = Suc (sectors_for (sz - chunk sz))"
  by (auto simp: sectors_for_def)

lemma sectors_bytes_Suc: "sectors_bytes d i (Suc n) = sectors d i @ sectors_bytes d (Suc i) n"
  by (simp add: sectors_bytes_def upt_conv_Cons del: upt_Suc)

lemma file_read_up_to:
  assumes "file_at f fl ino s" and bs: "bs = take (nat sz) (drop (nat (open_file.pos fl)) (file_bytes (disk s) (data ino)))"
  shows "\<exists>s'. file_read f sz s = Some (s', bs) \<and> file_at f (fl\<lparr>pos := open_file.pos fl + int (length bs)\<rparr>) ino s' \<and>
    file_bytes (disk s') (data ino) = file_bytes (disk s) (data ino)"
proof -
  note fa = assms(1) [unfolded file_at_def]
  obtain s1 m where r: "inode_read_loop ino sz (open_file.pos fl) False [] s =
      Some (s1, [] @ take m (drop (nat (open_file.pos fl)) (file_bytes (disk s) (data ino))))" "quiet s s1" "m = nat sz"
    using inode_read_loop_spec [of s ino "open_file.pos fl" sz False "[]"] fa by blast
  let ?s = "s1\<lparr>files := (files s1)(f \<mapsto> fl\<lparr>pos := open_file.pos fl + int (length bs)\<rparr>)\<rparr>"
  note q = quiet_frame [OF r(2)]
  have "inode_read_at (f_inode fl) sz (open_file.pos fl) s = Some (s1, bs)"
    using r fa bs by (simp add: inode_read_at_def)
  then have "file_read f sz s = Some (?s, bs)" using fa q by (simp add: file_read_def upd_file_def)
  moreover have "file_at f (fl\<lparr>pos := open_file.pos fl + int (length bs)\<rparr>) ino ?s" using fa q by (auto simp: file_at_def)
  ultimately show ?thesis using q by (intro exI [of _ ?s]) simp
qed

lemma file_read_at_pos:
  assumes "file_at f fl ino s" "0 \<le> sz" "open_file.pos fl + sz \<le> i_length (data ino)"
  shows "\<exists>s'. file_read f sz s = Some (s', take (nat sz) (drop (nat (open_file.pos fl)) (file_bytes (disk s) (data ino)))) \<and>
    file_at f (fl\<lparr>pos := open_file.pos fl + sz\<rparr>) ino s' \<and> file_bytes (disk s') (data ino) = file_bytes (disk s) (data ino)"
proof -
  have "nat sz \<le> nat (i_length (data ino)) - nat (open_file.pos fl)" using assms by (simp add: file_at_def) arith
  then have "int (length (take (nat sz) (drop (nat (open_file.pos fl)) (file_bytes (disk s) (data ino))))) = sz"
    using assms(2) by simp
  then show ?thesis using file_read_up_to [OF assms(1) refl, of sz] by metis
qed

lemma take_drop_rest: "take n (drop p xs) @ drop (p + length (take n (drop p xs))) xs = drop p xs"
proof (cases "n \<le> length (drop p xs)")
  case True
  then have "drop (p + length (take n (drop p xs))) xs = drop n (drop p xs)" by (simp add: add.commute)
  then show ?thesis by (simp only: append_take_drop_id)
qed simp

text \<open>\<open>fsutil_cat\<close> shows the bytes of the file from its position on.\<close>

lemma cat_loop_spec:
  assumes "file_at f fl ino s"
  shows "\<exists>s' bl. cat_loop f s = Some (s', bl) \<and>
    concat (map snd bl) = drop (nat (open_file.pos fl)) (file_bytes (disk s) (data ino))"
  using assms
proof (induction "nat (i_length (data ino)) - nat (open_file.pos fl)" arbitrary: fl s rule: less_induct)
  case less
  let ?r = "drop (nat (open_file.pos fl)) (file_bytes (disk s) (data ino))" and ?bs = "take (nat 4096)
    (drop (nat (open_file.pos fl)) (file_bytes (disk s) (data ino)))"
  have p: "file_tell f s = Some (open_file.pos fl)" "0 \<le> open_file.pos fl" using less.prems by (simp_all add: file_tell_def file_at_def)
  obtain s1 where r: "file_read f 4096 s = Some (s1, ?bs)" "file_at f (fl\<lparr>pos := open_file.pos fl + int (length ?bs)\<rparr>) ino s1"
    "file_bytes (disk s1) (data ino) = file_bytes (disk s) (data ino)"
    using file_read_up_to [OF less.prems refl] by blast
  show ?case
  proof (cases "?r = []")
    case True
    then show ?thesis using p r by (subst cat_loop.simps) simp
  next
    case False
    then have ne: "?bs \<noteq> []" by simp
    let ?fl = "fl\<lparr>pos := open_file.pos fl + int (length ?bs)\<rparr>"
    have "nat (open_file.pos fl) < nat (i_length (data ino))" using False by (simp del: nat_less_eq_zless zless_nat_conj)
    moreover have po: "nat (open_file.pos ?fl) = nat (open_file.pos fl) + length ?bs"
      using p(2) by (simp add: nat_add_distrib del: length_take)
    moreover have "0 < length ?bs" using ne by blast
    ultimately have "nat (i_length (data ino)) - nat (open_file.pos ?fl) < nat (i_length (data ino)) - nat (open_file.pos fl)"
      by linarith
    from less.hyps [OF this r(2)] obtain s2 bl where
      c: "cat_loop f s1 = Some (s2, bl)" "concat (map snd bl) = drop (nat (open_file.pos ?fl)) (file_bytes (disk s) (data ino))"
      unfolding r(3) by blast
    have "cat_loop f s = Some (s2, (open_file.pos fl, ?bs) # bl)"
      using p(1) r(1) ne c(1) by (subst cat_loop.simps) simp
    moreover have "?bs @ drop (nat (open_file.pos ?fl)) (file_bytes (disk s) (data ino)) = ?r"
      unfolding po by (rule take_drop_rest)
    ultimately show ?thesis using c(2) by simp
  qed
qed

lemma file_write_at_pos:
  assumes "file_at f fl ino s" "deny_write_cnt ino = 0" "0 \<le> sz" "nat sz \<le> length buf"
    "open_file.pos fl + sz \<le> i_length (data ino)"
  shows "\<exists>s'. file_write f buf sz s = Some (s', nat sz) \<and> file_at f (fl\<lparr>pos := open_file.pos fl + sz\<rparr>) ino s' \<and>
    file_bytes (disk s') (data ino) =
      overwrite (file_bytes (disk s) (data ino)) (nat (open_file.pos fl)) (take (nat sz) buf)"
proof -
  note fa = assms(1) [unfolded file_at_def]
  obtain s1 where r: "inode_write_loop ino buf sz (open_file.pos fl) False 0 s = Some (s1, nat sz)"
    "wrote (extent (data ino)) s s1"
    "file_bytes (disk s1) (data ino) = overwrite (file_bytes (disk s) (data ino)) (nat (open_file.pos fl)) (take (nat sz) buf)"
    using inode_write_loop_spec [of s ino "open_file.pos fl" 0 sz buf False] fa assms(3-5) by (auto simp: min_def)
  let ?s = "s1\<lparr>files := (files s1)(f \<mapsto> fl\<lparr>pos := open_file.pos fl + sz\<rparr>)\<rparr>"
  have "file_write f buf sz s = Some (?s, nat sz)"
    using fa assms(2,3) r(1,2) by (simp add: file_write_def inode_write_at_def upd_file_def wrote_def)
  moreover have "file_at f (fl\<lparr>pos := open_file.pos fl + sz\<rparr>) ino ?s"
    using fa assms(3) r(2) wrote_extent_ok [OF r(2)] by (auto simp: file_at_def wrote_def)
  ultimately show ?thesis using r(3) by (intro exI [of _ ?s]) simp
qed

lemma sectors_cong: "sectors d' = sectors d \<Longrightarrow> sectors_bytes d' = sectors_bytes d"
  by (intro ext) (simp add: sectors_bytes_def)

text \<open>\<open>fsutil_put\<close> writes the bytes of the sectors to the file.\<close>

lemma put_loop_spec:
  assumes "file_at f fl ino s" "deny_write_cnt ino = 0" "0 \<le> sz" "open_file.pos fl + sz \<le> i_length (data ino)"
    and "disk_ok src" "i + sectors_for sz \<le> capacity src"
  shows "\<exists>src' s'. put_loop f sz src i s = Some (src', i + sectors_for sz, s') \<and> sectors src' = sectors src \<and>
    file_at f (fl\<lparr>pos := open_file.pos fl + sz\<rparr>) ino s' \<and>
    file_bytes (disk s') (data ino) = overwrite (file_bytes (disk s) (data ino)) (nat (open_file.pos fl))
      (take (nat sz) (sectors_bytes src i (sectors_for sz)))"
  using assms
proof (induction "nat sz" arbitrary: fl sz src i s rule: less_induct)
  case less
  show ?case
  proof (cases "0 < sz")
    case False
    then have "sz = 0" using less.prems(3) by simp
    then show ?thesis using less.prems(1) by (simp add: put_loop.simps [of f 0] sectors_for_def)
  next
    case True
    let ?c = "chunk sz" and ?b = "sectors src i" and ?fb = "file_bytes (disk s) (data ino)" and ?p = "nat (open_file.pos fl)"
    let ?fl = "fl\<lparr>pos := open_file.pos fl + ?c\<rparr>" and ?src = "src\<lparr>read_cnt := read_cnt src + 1\<rparr>"
    have c: "0 < ?c" "?c \<le> sz" "nat ?c \<le> 512" by (use True in auto)
    have n: "sectors_for sz = Suc (sectors_for (sz - ?c))" using sectors_for_step [OF True] .
    have lb: "length ?b = 512" using less.prems(5) by (simp add: disk_ok_def)
    have i: "i < capacity src" using less.prems(6) n by simp
    obtain s1 where w: "file_write f ?b ?c s = Some (s1, nat ?c)" "file_at f ?fl ino s1"
      "file_bytes (disk s1) (data ino) = overwrite ?fb ?p (take (nat ?c) ?b)"
      using file_write_at_pos [OF less.prems(1,2), of ?c ?b] c lb less.prems(4) by auto
    have st: "put_loop f sz src i s = put_loop f (sz - ?c) ?src (i + 1) s1"
      using True c w(1) disk_read_ok [OF less.prems(5) i] by (subst put_loop.simps) simp
    have "nat (sz - ?c) < nat sz" "0 \<le> sz - ?c" "open_file.pos ?fl + (sz - ?c) \<le> i_length (data ino)" "disk_ok ?src"
      "i + 1 + sectors_for (sz - ?c) \<le> capacity ?src"
      using c less.prems(4-6) n by simp_all
    note IH = less.hyps [OF this(1) w(2) less.prems(2) this(2-5)]
    obtain src' s' where r: "put_loop f (sz - ?c) ?src (i + 1) s1 = Some (src', i + 1 + sectors_for (sz - ?c), s')"
      "sectors src' = sectors src" "file_at f (?fl\<lparr>pos := open_file.pos ?fl + (sz - ?c)\<rparr>) ino s'"
      "file_bytes (disk s') (data ino) = overwrite (file_bytes (disk s1) (data ino)) (nat (open_file.pos ?fl))
        (take (nat (sz - ?c)) (sectors_bytes src (i + 1) (sectors_for (sz - ?c))))"
      using IH sectors_cong [of ?src src] by auto
    let ?t = "take (nat (sz - ?c)) (sectors_bytes src (Suc i) (sectors_for (sz - ?c)))"
    have po: "nat (open_file.pos ?fl) = ?p + nat ?c" using less.prems(1) c by (simp add: file_at_def nat_add_distrib)
    have lc: "length (take (nat ?c) ?b) = nat ?c" using lb c by simp
    have tk: "take (nat sz) (sectors_bytes src i (sectors_for sz)) = take (nat ?c) ?b @ ?t"
    proof (cases "512 < sz")
      case True
      then have "nat sz = 512 + nat (sz - 512)" by simp
      then show ?thesis using True lb by (simp add: n [unfolded if_P [OF True]] sectors_bytes_Suc)
    next
      case False
      then show ?thesis using lb by (simp add: n [unfolded if_not_P [OF False]] sectors_bytes_Suc)
    qed
    have "0 \<le> open_file.pos fl" using less.prems(1) by (simp add: file_at_def)
    then have "nat (open_file.pos fl) + nat sz \<le> nat (i_length (data ino))" using less.prems(3,4) by arith
    moreover have "length ?t \<le> nat (sz - ?c)" "nat ?c + nat (sz - ?c) = nat sz" using c by (simp, arith)
    ultimately have "?p + length (take (nat ?c) ?b) + length ?t \<le> length ?fb" unfolding lc length_file_bytes by linarith
    from overwrite_append [OF this]
    have "overwrite (overwrite ?fb ?p (take (nat ?c) ?b)) (?p + nat ?c) ?t = overwrite ?fb ?p (take (nat ?c) ?b @ ?t)"
      unfolding lc .
    then have "file_bytes (disk s') (data ino) = overwrite ?fb ?p (take (nat sz) (sectors_bytes src i (sectors_for sz)))"
      using r(4) w(3) po tk by simp
    then show ?thesis using st r(1-3) n by simp
  qed
qed

text \<open>\<open>fsutil_get\<close> leaves the bytes of the file in the sectors, the last one filled up with zeros.\<close>

lemma sectors_bytes_cong:
  "(\<And>j. i \<le> j \<Longrightarrow> j < i + n \<Longrightarrow> sectors d' j = sectors d j) \<Longrightarrow> sectors_bytes d' i n = sectors_bytes d i n"
  by (auto simp: sectors_bytes_def intro!: arg_cong [where f = concat])

lemma get_loop_spec:
  assumes "file_at f fl ino s" "0 \<le> sz" "open_file.pos fl + sz \<le> i_length (data ino)"
    and "disk_ok dst" "i + sectors_for sz \<le> capacity dst"
  shows "\<exists>dst' s'. get_loop f sz dst i s = Some (dst', i + sectors_for sz, s') \<and>
    file_at f (fl\<lparr>pos := open_file.pos fl + sz\<rparr>) ino s' \<and> disk_ok dst' \<and> capacity dst' = capacity dst \<and>
    (\<forall>j. j < i \<or> i + sectors_for sz \<le> j \<longrightarrow> sectors dst' j = sectors dst j) \<and>
    sectors_bytes dst' i (sectors_for sz) = take (nat sz) (drop (nat (open_file.pos fl)) (file_bytes (disk s) (data ino))) @
      replicate (512 * sectors_for sz - nat sz) 0"
  using assms
proof (induction "nat sz" arbitrary: fl sz dst i s rule: less_induct)
  case less
  show ?case
  proof (cases "0 < sz")
    case False
    then have "sz = 0" using less.prems(2) by simp
    then show ?thesis using less.prems(1,4) by (simp add: get_loop.simps [of f 0] sectors_for_def sectors_bytes_def)
  next
    case True
    let ?c = "chunk sz" and ?fb = "file_bytes (disk s) (data ino)" and ?p = "nat (open_file.pos fl)"
    let ?fl = "fl\<lparr>pos := open_file.pos fl + ?c\<rparr>" and ?b = "take (nat ?c) (drop ?p ?fb)"
    let ?s = "?b @ replicate (512 - nat ?c) 0"
    let ?dst = "dst\<lparr>sectors := (sectors dst)(i := ?s), write_cnt := write_cnt dst + 1\<rparr>"
    have c: "0 < ?c" "?c \<le> sz" "nat ?c \<le> 512" by (use True in auto)
    have n: "sectors_for sz = Suc (sectors_for (sz - ?c))" using sectors_for_step [OF True] .
    have i: "i < capacity dst" using less.prems(5) n by simp
    have p0: "0 \<le> open_file.pos fl" using less.prems(1) by (simp add: file_at_def)
    have pl: "?p + nat sz \<le> nat (i_length (data ino))" using less.prems(2,3) p0 by arith
    have lb: "length ?b = nat ?c" using pl c by (simp del: of_nat_less_iff)
    obtain s1 where r: "file_read f ?c s = Some (s1, ?b)" "file_at f ?fl ino s1" "file_bytes (disk s1) (data ino) = ?fb"
      using file_read_at_pos [OF less.prems(1), of ?c] c less.prems(3) by auto
    have st: "get_loop f sz dst i s = get_loop f (sz - ?c) ?dst (i + 1) s1"
      using True c(1) r(1) lb disk_write_ok [OF less.prems(4) i, of ?s] i
      by (subst get_loop.simps) (simp add: disk_size_def)
    have dok: "disk_ok ?dst" using less.prems(4) lb c(3) by (intro disk_ok_sectors) simp_all
    have "nat (sz - ?c) < nat sz" "0 \<le> sz - ?c" "open_file.pos ?fl + (sz - ?c) \<le> i_length (data ino)"
      "i + 1 + sectors_for (sz - ?c) \<le> capacity ?dst"
      using c less.prems(3,5) n by simp_all
    note IH = less.hyps [OF this(1) r(2) this(2,3) dok this(4)]
    obtain d' s' where g: "get_loop f (sz - ?c) ?dst (i + 1) s1 = Some (d', i + 1 + sectors_for (sz - ?c), s')"
      "file_at f (?fl\<lparr>pos := open_file.pos ?fl + (sz - ?c)\<rparr>) ino s'" "disk_ok d'" "capacity d' = capacity ?dst"
      "\<forall>j. j < i + 1 \<or> i + 1 + sectors_for (sz - ?c) \<le> j \<longrightarrow> sectors d' j = sectors ?dst j"
      "sectors_bytes d' (i + 1) (sectors_for (sz - ?c)) = take (nat (sz - ?c)) (drop (nat (open_file.pos ?fl)) ?fb) @
        replicate (512 * sectors_for (sz - ?c) - nat (sz - ?c)) 0"
      using IH r(3) by auto
    have po: "nat (open_file.pos ?fl) = ?p + nat ?c" using p0 c by (simp add: nat_add_distrib)
    have si: "sectors d' i = ?s" using g(5) by simp
    have "sectors_bytes d' i (sectors_for sz) = take (nat sz) (drop ?p ?fb) @ replicate (512 * sectors_for sz - nat sz) 0"
    proof (cases "512 < sz")
      case True
      then have z: "nat sz = 512 + nat (sz - 512)" by simp
      then have "take (nat sz) (drop ?p ?fb) = take 512 (drop ?p ?fb) @ take (nat (sz - 512)) (drop (?p + 512) ?fb)"
        by (simp add: take_add add.commute)
      then show ?thesis using True g(6) si po z by (simp add: n [unfolded if_P [OF True]] sectors_bytes_Suc)
    next
      case False
      then have "sectors_for sz = Suc 0" using n by (simp add: sectors_for_def [of 0])
      then show ?thesis using si False by (simp add: sectors_bytes_def)
    qed
    then show ?thesis using st g(1-5) n by (auto simp: less_Suc_eq)
  qed
qed

end
