(* ===== verification/UserCalls.thy ===== *)
theory UserCalls
  imports SyscallProps
begin

text \<open>
  The system calls as a program makes them: lib/user/syscall.c. A stub puts the number of the call and its
  arguments into registers, converted to 64 bits, and converts the register with the result back. The state of the
  registers at the entry of the kernel is an \<open>intr_frame\<close>, which has no field for the sixth argument; no call has one.
\<close>

section \<open>Passing arguments\<close>

definition syscall :: "u64 \<Rightarrow> u64 \<Rightarrow> u64 \<Rightarrow> u64 \<Rightarrow> u64 \<Rightarrow> u64 \<Rightarrow> intr_frame \<Rightarrow> intr_frame" where
  "syscall num a1 a2 a3 a4 a5 f =
     f\<lparr>reg_rax := num, reg_rdi := a1, reg_rsi := a2, reg_rdx := a3, reg_r10 := a4, reg_r8 := a5\<rparr>"

definition syscall0 :: "u64 \<Rightarrow> intr_frame \<Rightarrow> intr_frame" where "syscall0 n = syscall n 0 0 0 0 0"
definition syscall1 :: "u64 \<Rightarrow> u64 \<Rightarrow> intr_frame \<Rightarrow> intr_frame" where "syscall1 n a = syscall n a 0 0 0 0"
definition syscall2 :: "u64 \<Rightarrow> u64 \<Rightarrow> u64 \<Rightarrow> intr_frame \<Rightarrow> intr_frame" where "syscall2 n a b = syscall n a b 0 0 0"
definition syscall3 :: "u64 \<Rightarrow> u64 \<Rightarrow> u64 \<Rightarrow> u64 \<Rightarrow> intr_frame \<Rightarrow> intr_frame" where
  "syscall3 n a b c = syscall n a b c 0 0"
definition syscall5 :: "u64 \<Rightarrow> u64 \<Rightarrow> u64 \<Rightarrow> u64 \<Rightarrow> u64 \<Rightarrow> u64 \<Rightarrow> intr_frame \<Rightarrow> intr_frame" where
  "syscall5 n a b c d e = syscall n a b c d e"

text \<open>The numbers of the calls.\<close>

datatype call_number =
    SYS_HALT | SYS_EXIT | SYS_FORK | SYS_EXEC | SYS_WAIT | SYS_CREATE | SYS_REMOVE | SYS_OPEN | SYS_FILESIZE | SYS_READ
  | SYS_WRITE | SYS_SEEK | SYS_TELL | SYS_CLOSE | SYS_MMAP | SYS_MUNMAP | SYS_CHDIR | SYS_MKDIR | SYS_READDIR | SYS_ISDIR
  | SYS_INUMBER | SYS_SYMLINK | SYS_DUP2 | SYS_MOUNT | SYS_UMOUNT

definition call_numbers :: "call_number list" where
  "call_numbers =
     [SYS_HALT, SYS_EXIT, SYS_FORK, SYS_EXEC, SYS_WAIT, SYS_CREATE, SYS_REMOVE, SYS_OPEN, SYS_FILESIZE, SYS_READ,
      SYS_WRITE, SYS_SEEK, SYS_TELL, SYS_CLOSE, SYS_MMAP, SYS_MUNMAP, SYS_CHDIR, SYS_MKDIR, SYS_READDIR, SYS_ISDIR,
      SYS_INUMBER, SYS_SYMLINK, SYS_DUP2, SYS_MOUNT, SYS_UMOUNT]"

fun num :: "call_number \<Rightarrow> u64" where
  "num c = of_nat (length (takeWhile (\<lambda>d. d \<noteq> c) call_numbers))"

declare num.simps [simp del]

text \<open>Conversions of arguments: \<open>int\<close> is extended with its sign, \<open>unsigned\<close> with zeros.\<close>

definition of_uint :: "u32 \<Rightarrow> u64" where "of_uint = ucast"

section \<open>The stubs\<close>

datatype user_call =
    Halt | Exit int | Fork u64 | Exec u64 | Wait int | Create u64 u32 | Remove u64 | Open u64 | Filesize int
  | Read int u64 u32 | Write int u64 u32 | Seek int u32 | Tell int | Close int | Dup2 int int
  | Mmap u64 u64 int int int | Munmap u64 | Chdir u64 | Mkdir u64 | Readdir int u64 | Isdir int | Inumber int
  | Symlink u64 u64 | Mount u64 int int | Umount u64

fun stub :: "user_call \<Rightarrow> intr_frame \<Rightarrow> intr_frame" where
  "stub Halt = syscall0 (num SYS_HALT)"
| "stub (Exit status) = syscall1 (num SYS_EXIT) (of_int status)"
| "stub (Fork thread_name) = syscall1 (num SYS_FORK) thread_name"
| "stub (Exec file) = syscall1 (num SYS_EXEC) file"
| "stub (Wait pid) = syscall1 (num SYS_WAIT) (of_int pid)"
| "stub (Create file initial_size) = syscall2 (num SYS_CREATE) file (of_uint initial_size)"
| "stub (Remove file) = syscall1 (num SYS_REMOVE) file"
| "stub (Open file) = syscall1 (num SYS_OPEN) file"
| "stub (Filesize fd) = syscall1 (num SYS_FILESIZE) (of_int fd)"
| "stub (Read fd buffer n) = syscall3 (num SYS_READ) (of_int fd) buffer (of_uint n)"
| "stub (Write fd buffer n) = syscall3 (num SYS_WRITE) (of_int fd) buffer (of_uint n)"
| "stub (Seek fd position) = syscall2 (num SYS_SEEK) (of_int fd) (of_uint position)"
| "stub (Tell fd) = syscall1 (num SYS_TELL) (of_int fd)"
| "stub (Close fd) = syscall1 (num SYS_CLOSE) (of_int fd)"
| "stub (Dup2 oldfd newfd) = syscall2 (num SYS_DUP2) (of_int oldfd) (of_int newfd)"
| "stub (Mmap adr len wr fd offset) =
     syscall5 (num SYS_MMAP) adr len (of_int wr) (of_int fd) (of_int offset)"
| "stub (Munmap addr) = syscall1 (num SYS_MUNMAP) addr"
| "stub (Chdir d) = syscall1 (num SYS_CHDIR) d"
| "stub (Mkdir d) = syscall1 (num SYS_MKDIR) d"
| "stub (Readdir fd nm) = syscall2 (num SYS_READDIR) (of_int fd) nm"
| "stub (Isdir fd) = syscall1 (num SYS_ISDIR) (of_int fd)"
| "stub (Inumber fd) = syscall1 (num SYS_INUMBER) (of_int fd)"
| "stub (Symlink target linkpath) = syscall2 (num SYS_SYMLINK) target linkpath"
| "stub (Mount pth chan_no dev_no) = syscall3 (num SYS_MOUNT) pth (of_int chan_no) (of_int dev_no)"
| "stub (Umount pth) = syscall1 (num SYS_UMOUNT) pth"

text \<open>What a stub makes of the register with the result: an \<open>int\<close>, a \<open>bool\<close>, an \<open>unsigned\<close>.\<close>

definition int_result :: "intr_frame \<Rightarrow> int" where "int_result f = int_arg (reg_rax f)"
definition bool_result :: "intr_frame \<Rightarrow> bool" where "bool_result f \<longleftrightarrow> reg_rax f \<noteq> 0"
definition unsigned_result :: "intr_frame \<Rightarrow> u32" where "unsigned_result f = ucast (reg_rax f)"

section \<open>The kernel gets what the program passes\<close>

definition is_int :: "int \<Rightarrow> bool" where "is_int i \<longleftrightarrow> - (2 ^ 31) \<le> i \<and> i < 2 ^ 31"

lemma int32_mod64: "int32 (x mod 2 ^ 64) = int32 x"
proof -
  have "(x mod 2 ^ 64 + 2 ^ 31) mod 2 ^ 32 = (x mod 2 ^ 64 mod 2 ^ 32 + 2 ^ 31) mod 2 ^ 32" by (simp add: mod_simps)
  also have "x mod 2 ^ 64 mod 2 ^ 32 = x mod 2 ^ 32" by (rule mod_mod_cancel) (simp add: le_imp_power_dvd)
  finally show ?thesis by (simp add: int32_def mod_simps)
qed

lemma int_arg_of_int: "is_int i \<Longrightarrow> int_arg (of_int i) = i"
proof -
  assume "is_int i"
  have "uint (of_int i :: u64) = i mod 2 ^ 64" by (simp add: unsigned_of_int take_bit_eq_mod)
  then show "int_arg (of_int i) = i" using \<open>is_int i\<close> by (simp only: int_arg_def int32_mod64) (simp add: is_int_def int32_id)
qed

lemma ucast_widened [simp]: "ucast (ucast w :: u64) = (w :: u32)"
  by (rule bit_word_eqI) (simp add: bit_ucast_iff)

lemma ucast_of_uint [simp]: "ucast (of_uint w) = w"
  by (simp add: of_uint_def)

lemma num_simps [simp]:
  "num SYS_HALT = 0" "num SYS_EXIT = 1" "num SYS_FORK = 2" "num SYS_EXEC = 3" "num SYS_WAIT = 4" "num SYS_CREATE = 5"
  "num SYS_REMOVE = 6" "num SYS_OPEN = 7" "num SYS_FILESIZE = 8" "num SYS_READ = 9" "num SYS_WRITE = 10" "num SYS_SEEK = 11"
  "num SYS_TELL = 12" "num SYS_CLOSE = 13" "num SYS_MMAP = 14" "num SYS_MUNMAP = 15" "num SYS_CHDIR = 16" "num SYS_MKDIR = 17"
  "num SYS_READDIR = 18" "num SYS_ISDIR = 19" "num SYS_INUMBER = 20" "num SYS_SYMLINK = 21" "num SYS_DUP2 = 22"
  "num SYS_MOUNT = 23" "num SYS_UMOUNT = 24"
  by (simp_all add: num.simps call_numbers_def)

lemmas syscall_defs = syscall_def syscall0_def syscall1_def syscall2_def syscall3_def syscall5_def

lemma handler_runs_call:
  assumes "is_int fd" "is_int i" and h: "\<And>c. h c = syscall_handler e0 junk d fr0 krsp (stub c f) p"
  shows "h Halt = Some (Halts p)"
    "h (Exit i) = exit_with i p"
    "h (Fork a) = Some (Forks p a)"
    "h (Wait i) = Some (Waits p i)"
    "h (Exec a) = result id (stub (Exec a) f) (sys_exec krsp d fr0 a p)"
    "h (Create a n) = result of_bool (stub (Create a n) f) (sys_create e0 krsp a n p)"
    "h (Remove a) = result of_bool (stub (Remove a) f) (sys_remove krsp a p)"
    "h (Open a) = result of_int (stub (Open a) f) (sys_open krsp a p)"
    "h (Filesize fd) = result of_int (stub (Filesize fd) f) (sys_filesize fd p)"
    "h (Read fd a n) = result of_int (stub (Read fd a n) f) (sys_read krsp fd a n p)"
    "h (Write fd a n) = result of_int (stub (Write fd a n) f) (sys_write krsp fd a n p)"
    "h (Seek fd n) = no_value (stub (Seek fd n) f) (sys_seek fd n p)"
    "h (Tell fd) = result ucast (stub (Tell fd) f) (sys_tell junk fd p)"
    "h (Close fd) = no_value (stub (Close fd) f) (do { p \<leftarrow> close_fd fd p; Some (Returns p ()) })"
    "h (Munmap a) = no_value (stub (Munmap a) f) (sys_munmap a p)"
  unfolding h using int_arg_of_int [OF assms(1)] int_arg_of_int [OF assms(2)]
  by (simp_all add: syscall_defs syscall_handler_def Let_def)

lemma int32_of_int_word: "is_int w \<Longrightarrow> sint (of_int w :: u32) = w"
  by (simp add: is_int_def signed_of_int signed_take_bit_int_eq_self)

lemma handler_runs_mmap:
  assumes "is_int fd" "is_int ofs" "is_int w"
  shows "syscall_handler e0 junk d fr0 krsp (stub (Mmap a n w fd ofs) f) p =
    result id (stub (Mmap a n w fd ofs) f) (sys_mmap a n (w \<noteq> 0) fd ofs p)"
proof -
  have "(ucast (of_int w :: u64) :: u32) = of_int w" by (rule bit_word_eqI) (simp add: bit_ucast_iff bit_of_int_iff)
  moreover have "(of_int w :: u32) \<noteq> 0 \<longleftrightarrow> w \<noteq> 0"
    using int32_of_int_word [OF assms(3)] by auto
  ultimately show ?thesis
    using int_arg_of_int [OF assms(1)] int_arg_of_int [OF assms(2)]
    by (simp add: syscall_defs syscall_handler_def Let_def)
qed

text \<open>The result comes back as the kernel has computed it.\<close>

lemma results_come_back:
  "is_int n \<Longrightarrow> int_result (f\<lparr>reg_rax := of_int n\<rparr>) = n"
  "bool_result (f\<lparr>reg_rax := of_bool b\<rparr>) = b"
  "unsigned_result (f\<lparr>reg_rax := ucast w\<rparr>) = w"
  by (simp_all add: int_result_def bool_result_def unsigned_result_def int_arg_of_int)

text \<open>The calls of the last project, and \<open>dup2\<close>, are not in the kernel: they end the process.\<close>

lemma missing_calls_kill:
  assumes "c \<in> {Chdir a, Mkdir a, Readdir i a, Isdir i, Inumber i, Symlink a b, Dup2 i j, Mount a i j, Umount a}"
  shows "syscall_handler e0 junk d fr0 krsp (stub c f) p = exit_with (- 1) p"
  using assms by (auto simp: syscall_defs syscall_handler_def Let_def)

end
