(* ===== verification/UserConsole.thy ===== *)
theory UserConsole
  imports StdioProps
begin

text \<open>
  Formatted output of programs: lib/user/console.c. The result of an operation is the list of the calls of
  \<open>write\<close> it makes, each with its handle and its bytes; what \<open>write\<close> returns is not looked at.
\<close>

section \<open>Operations\<close>

type_synonym writes = "(int \<times> u8 list) list"

abbreviation STDOUT_FILENO :: int where "STDOUT_FILENO \<equiv> 1"

record vhprintf_aux =
  buf :: "u8 list"
  char_cnt :: int
  handle :: int

definition flush :: "vhprintf_aux \<times> writes \<Rightarrow> vhprintf_aux \<times> writes" where
  "flush s = (let (aux, w) = s in (aux\<lparr>buf := []\<rparr>, if buf aux \<noteq> [] then w @ [(handle aux, buf aux)] else w))"

definition add_char :: "u8 \<Rightarrow> vhprintf_aux \<times> writes \<Rightarrow> vhprintf_aux \<times> writes" where
  "add_char c s =
     (let aux = (fst s)\<lparr>buf := buf (fst s) @ [c]\<rparr>;
          s = (if 64 \<le> length (buf aux) then flush (aux, snd s) else (aux, snd s))
      in ((fst s)\<lparr>char_cnt := int32 (char_cnt (fst s) + 1)\<rparr>, snd s))"

definition vhprintf :: "mem \<Rightarrow> int \<Rightarrow> u8 list \<Rightarrow> u64 list \<Rightarrow> (writes \<times> int) option" where
  "vhprintf m fd format args = do {
     s \<leftarrow> vprintf_fmt m add_char format args (\<lparr>buf = [], char_cnt = 0, handle = fd\<rparr>, []);
     let s = flush s;
     Some (snd s, char_cnt (fst s)) }"

definition hprintf :: "mem \<Rightarrow> int \<Rightarrow> u8 list \<Rightarrow> u64 list \<Rightarrow> (writes \<times> int) option" where
  "hprintf m fd format args = vhprintf m fd format args"

definition user_vprintf :: "mem \<Rightarrow> u8 list \<Rightarrow> u64 list \<Rightarrow> (writes \<times> int) option" where
  "user_vprintf m format args = vhprintf m STDOUT_FILENO format args"

definition user_putchar :: "u8 \<Rightarrow> writes" where
  "user_putchar c = [(STDOUT_FILENO, [c])]"

definition user_puts :: "u8 list \<Rightarrow> writes" where
  "user_puts s = (STDOUT_FILENO, s) # user_putchar 10"

section \<open>What is written\<close>

text \<open>
  The state after the text \<open>t\<close>: the calls so far have blocks of 64 bytes, and with what is in the buffer
  they are the text.
\<close>

definition written :: "int \<Rightarrow> u8 list \<Rightarrow> vhprintf_aux \<times> writes \<Rightarrow> bool" where
  "written fd t s \<longleftrightarrow> (\<forall>p\<in>set (snd s). fst p = fd \<and> length (snd p) = 64) \<and> length (buf (fst s)) < 64 \<and>
     concat (map snd (snd s)) @ buf (fst s) = t \<and> char_cnt (fst s) = int32 (int (length t)) \<and> handle (fst s) = fd"

lemma int32_Suc: "int32 (int32 x + 1) = int32 (x + 1)"
  by (simp add: int32_def mod_simps)

lemma written_add_char:
  assumes "written fd t s" shows "written fd (t @ [c]) (add_char c s)"
proof -
  obtain aux w where s: "s = (aux, w)" by (cases s)
  have "int32 (char_cnt aux + 1) = int32 (int (length (t @ [c])))"
    using assms s int32_Suc [of "int (length t)"] by (simp add: written_def add.commute)
  then show ?thesis using assms s by (auto simp: written_def add_char_def flush_def Let_def)
qed

lemma written_text: "written fd t s \<Longrightarrow> written fd (t @ u) (fold add_char u s)"
  by (induction u arbitrary: t s) (use written_add_char in fastforce)+

text \<open>
  The calls of \<open>write\<close> carry the text of the format in order, in blocks of 64 bytes and one of less at the
  end, all to the handle; the result is the length of the text.
\<close>

lemma vhprintf_writes:
  assumes "vprintf_text m format args = Some t"
  shows "\<exists>w. vhprintf m fd format args = Some (w, int32 (int (length t))) \<and> concat (map snd w) = t \<and>
    (\<forall>p\<in>set w. fst p = fd \<and> 0 < length (snd p) \<and> length (snd p) \<le> 64) \<and> (\<forall>p\<in>set (butlast w). length (snd p) = 64)"
proof -
  let ?s0 = "(\<lparr>buf = [], char_cnt = 0, handle = fd\<rparr>, []) :: vhprintf_aux \<times> writes"
  have "written fd [] ?s0" by (simp add: written_def int32_def)
  then have w: "written fd t (fold add_char t ?s0)" using written_text [of fd "[]"] by simp
  obtain aux ws where s: "fold add_char t ?s0 = (aux, ws)" by (cases "fold add_char t ?s0")
  have v: "vhprintf m fd format args = Some (snd (flush (aux, ws)), char_cnt aux)"
    using assms s by (simp add: vhprintf_def vprintf_fmt_text flush_def Let_def)
  then show ?thesis using w s by (auto simp: written_def flush_def dest!: in_set_butlastD)
qed

end
