(* ===== verification/Spec2Isabelle.thy ===== *)
theory Spec2Isabelle
  imports HashMap SyncProps Palloc FileSys StringLib Stdlib Arith64 ProcessLoad SyscallProps StdioProps AtaProps MallocProps ChardevProps InterruptProps LifecycleProps Vga BootArgs TimerWait FsUtil UserCalls UserConsole
begin

text \<open>
  This library models the Pintos kernel of this repository (64-bit, with user programs and virtual
  memory, the configuration that vm/Make.vars builds) and proves that its parts do what the rest of the
  kernel relies on. It is a translation of the C sources: functions, constants and fields keep their names
  where Isabelle allows it, and every operation is executable.

  \<^bold>\<open>The program.\<close> Threads (threads/thread.c) run one at a time; the scheduler keeps the ready ones in a
  list by priority, and interrupts (threads/interrupt.c) preempt them. Semaphores, locks and condition
  variables (threads/synch.c) block threads in lists of waiters and lend priorities along chains of locks. All
  lists are the intrusive ones of lib/kernel/list.c. Pages come from two pools (threads/palloc.c), each with a
  bitmap; smaller blocks are cut from pages (threads/malloc.c). Page tables (threads/mmu.c) live in such pages. A
  process (userprog/process.c) is a thread with an address space: a hash table of pages (vm/vm.c, lib/kernel/hash.c)
  that are loaded at the first access, backed by an executable, a mapped file or the swap disk. Programs enter the
  kernel by system calls (userprog/syscall.c) and page faults (userprog/exception.c). The file system (filesys/)
  keeps files as extents of sectors of a disk, which devices/disk.c reaches through the ports of a controller.
  Consoles, keyboard and serial port exchange bytes with threads through interrupt queues (devices/intq.c).

  \<^bold>\<open>How the code is modelled.\<close> A failed assertion, \<open>PANIC\<close>, a null dereference, an access outside an array,
  use of freed memory and a call that does not return are the value \<open>None\<close> of an operation, so that every theorem that
  gives \<open>Some\<close> says that the code returns and does not panic. Integers are words where the code relies on wrap-around, otherwise
  integers or naturals with \<open>int32\<close> or \<open>mod\<close> written where a value is cut. State is passed explicitly; objects
  reached through pointers are in maps from addresses. Loops are recursive functions with a measure, or with
  \<open>partial_function (option)\<close> where the code gives no bound (searches for a terminator, walks along lists, the doubling of
  a size, polling a device), and then their theorems prove that they return. Three loops count passes, as in the code: the waits of the disk driver,
  1000 and 3000 delays, and its reset. Nested \<open>printf\<close> is modelled to the depth the code has, which is two. Concurrency is a step
  relation (\<open>kstep\<close> in Kernel, \<open>qstep\<close> in IntQueue, \<open>fstep\<close> in Lifecycle) whose steps are the pieces of code between points where
  another thread or an interrupt can come in; its invariants are proved by induction on the steps. Hardware and the code of other tools
  (the disk controller, the UART, the keyboard, the stubs in assembly) are parameters, constrained only by the laws a theorem
  names.

  \<^bold>\<open>Foundations.\<close>
  \<^item> Prelude, Words: types, the option monad, C division, words as bytes in memory, lemmas shared by all theories.
  \<^item> KList, Runs, KListSort, KQueue (lib/kernel/list.c): lists at the level of their links. \<open>list_at h l xs\<close> relates
    a list to the sequence of its elements; every operation is shown to be the one on sequences. \<open>weak_less\<close> is the contract of a comparison
    function; the locales \<open>fifo_queue\<close> and \<open>priority_queue\<close> state what the kernel uses lists for, and are interpreted on them.
  \<^item> HashTable, HashMap (lib/kernel/hash.c): buckets, resizing, iteration; a table is a finite map whichever requests for memory fail.
  \<^item> Bitmap (lib/kernel/bitmap.c): words of bits as a list of bits; the locale \<open>slot_map\<close> is the contract for handing out slots,
    on which the page allocator, the free map and the swap disk rest.
  \<^item> StringLib, Stdlib, Arith64, Rc4 (lib/string.c, lib/stdlib.c, lib/arithmetic.c, lib/random.c).
  \<^item> Stdio, StdioProps (lib/stdio.c, lib/kernel/console.c): a format denotes a text that does not depend on where it goes.

  \<^bold>\<open>Threads.\<close>
  \<^item> FixedPoint: 17.14 arithmetic and the formulas of the advanced scheduler in threads/thread.c.
  \<^item> Kernel (threads/thread.c, threads/synch.c, the timer interrupt): the state with the ready, sleeping and
    waiting lists, all operations, and the step relation. A step runs one frame of the current thread, lets it enter a call, or is an interrupt:
    of the timer, or of a device whose handler raises semaphores and signals interrupt queues. Blocking and waking in the fields of an interrupt
    queue (\<open>wait\<close> and \<open>signal\<close> of devices/intq.c) are part of it; what the queues hold is in IntQueue. Donations are kept with the thread whose list
    holds the donor, so that a donor that has ended is a panic for the code that follows its link. KernelFrames (what an operation leaves alone), KernelInv, KernelSafe,
    KernelSync and KernelLock prove the invariant step by step; KernelProps and SyncProps hold the properties: the scheduler
    invariant (over the lists that \<open>elem\<close> of a thread can be in and the queue fields), mutual exclusion of every lock from its initialisation on,
    no lost wakeup, round robin under both schedulers, donation along any chain, misuse.
  \<^item> IntQueue, Chardev, ChardevProps (devices/intq.c, input.c, serial.c, kbd.c), Vga (devices/vga.c), TimerWait (devices/timer.c:
    calibration and delays).
  \<^item> Interrupt, InterruptProps (threads/interrupt.c, userprog/gdt.c, tss.c, exception.c): the tables, registration at boot,
    the dispatcher. BootArgs (threads/init.c): the command line of the kernel.

  \<^bold>\<open>Memory.\<close>
  \<^item> Palloc (threads/palloc.c) and Malloc, MallocProps (threads/malloc.c): what is handed out was free, is apart from all else, and comes back.
  \<^item> Mmu (threads/mmu.c): the four levels of tables, as words in pages of the allocator, implement a map from pages to frames.
  \<^item> Vm, VmTable, VmLoad, VmSwap (vm/): the table of pages, claiming, eviction, loading on demand, swap, mapped files, copying at fork.
  \<^item> UserMem (userprog/exception.c): accesses to user memory with the page fault handler.

  \<^bold>\<open>Files.\<close>
  \<^item> Disk is what the file system sees of a disk; Ata and AtaProps (devices/disk.c) show that the driver implements it on every
    controller that follows the protocol.
  \<^item> Inode, FreeMap, Directory, FileSys (filesys/): reading and writing are those of a list of bytes, allocation
    does not overlap and is on the disk, a directory is a map of names. FsUtil (filesys/fsutil.c): copying files at boot.

  \<^bold>\<open>Processes.\<close>
  \<^item> Process, ProcessArgs, ProcessLoad (userprog/process.c): loading executables, the arguments on the stack, \<open>exec\<close>, the copy made by \<open>fork\<close>,
    mapping files.
  \<^item> Lifecycle, LifecycleProps (userprog/process.c): the protocol of \<open>fork\<close>, \<open>wait\<close> and \<open>exit\<close> between parents and children.
  \<^item> Syscall, SyscallProps (userprog/syscall.c): the calls with their checks and their dispatch, file descriptors.
  \<^item> UserCalls, UserConsole (lib/user/syscall.c, lib/user/console.c): the stubs by which programs call the kernel, and their output.

  \<^bold>\<open>What is not modelled.\<close> Code in assembly (loader.S, start.S, intr-stubs.S, switching of threads, syscall-entry.S) and the instructions that load
  the registers of the processor; the output of statistics and of dumps; the programs and tests that run on the kernel; code that
  this build does not use (filesys/fat.c and filesys/page_cache.c, which are not filled in; threads/float.c; the variants without virtual memory). The lock of the file system calls and the
  lock of the swap disk are left out where what they protect is one step; the console lock is seen from the thread that prints.
  Memory that a component owns privately (the links inside free blocks of malloc, the nodes of buckets) is abstracted to the sequences it holds, which
  the theories on lists justify.

  Some code does not do what it means to; lemmas show where: \<open>two_readers_panic\<close> (IntQueue), \<open>orphan_never_ends\<close> (LifecycleProps),
  \<open>calibrate_overshoots\<close> (TimerWait), \<open>many_empty_words\<close> (BootArgs), \<open>zero_flag_negative_width\<close> (StdioProps), and others next to the
  operation they concern.
\<close>

end
